(* ===== verification/Prelude.thy ===== *)
theory Prelude
  imports Main "HOL-Library.Word"
begin

unbundle bit_operations_syntax

section \<open>Shared types, fact collections and generic lemmas\<close>

text \<open>
  Everything the component theories share: the machine types of the 32-bit
  kernel, the fact collections that carry the component proofs, and generic
  lemmas on words, lists and association lists.
\<close>

subsection \<open>Machine types\<close>

text \<open>
  \<open>natural_t\<close>, \<open>vm_offset_t\<close> and kernel addresses are 32-bit unsigned on every
  machine the tree supports; \<open>integer_t\<close> is the signed reading of the same word.
\<close>

type_synonym natural_t = "32 word"
type_synonym addr = "32 word"

abbreviation (input) NULL :: addr where
  "NULL \<equiv> 0"

text \<open>The return codes of \<open>mach/kern_return.h\<close> that the modelled code uses.\<close>

datatype kern_return_t =
    KERN_SUCCESS | KERN_NO_SPACE | KERN_INVALID_ARGUMENT | KERN_FAILURE | KERN_RESOURCE_SHORTAGE
  | KERN_NOT_IN_SET | KERN_NAME_EXISTS | KERN_INVALID_TASK | KERN_INVALID_NAME | KERN_INVALID_RIGHT
  | KERN_INVALID_VALUE | KERN_UREFS_OVERFLOW | KERN_INVALID_CAPABILITY | KERN_RIGHT_EXISTS
  | KERN_INVALID_ADDRESS | KERN_PROTECTION_FAILURE | KERN_ABORTED

text \<open>How a wait ended (\<open>kern/sched_prim.h\<close>).\<close>

datatype wait_result_t = THREAD_AWAKENED | THREAD_TIMED_OUT | THREAD_INTERRUPTED | THREAD_RESTART

subsection \<open>Fact collections\<close>

named_theorems bits_defs \<open>the bit-field constants and accessors of a capability entry\<close>
named_theorems heap_simps \<open>how the heap operations read back after an update\<close>

subsection \<open>Words\<close>

lemma mask_values:
  "(0xff :: 32 word) = mask 8" "(0xffff :: 32 word) = mask 16"
  "(0xff000000 :: 32 word) = push_bit 24 (mask 8)"
  by (simp_all add: mask_eq_exp_minus_1)

lemma take_bit_small:
  fixes w :: "32 word"
  assumes "unat w < 2 ^ n"
  shows "take_bit n w = w"
  using assms by (simp add: word_unat_eq_iff unsigned_take_bit_eq take_bit_nat_eq_self)

lemma take_bit_small_uint:
  fixes w :: "32 word"
  assumes "uint w < 2 ^ n"
  shows "take_bit n w = w"
  using assms by (simp add: word_uint_eq_iff unsigned_take_bit_eq take_bit_int_eq_self)

lemma split_mask:
  fixes a :: "32 word"
  shows "(a AND NOT (mask k)) + (a AND mask k) = a"
proof -
  have "(a AND NOT (mask k)) AND (a AND mask k) = 0"
    by (rule bit_word_eqI) (auto simp: bit_simps)
  then have "(a AND NOT (mask k)) + (a AND mask k) = (a AND NOT (mask k)) OR (a AND mask k)"
    by (metis word_plus_and_or add_0)
  also have "\<dots> = a" by (rule bit_word_eqI) (auto simp: bit_simps)
  finally show ?thesis .
qed

lemma uint_eq_sint_mod: "uint (d :: 32 word) = sint d mod 2 ^ 32"
proof -
  have "uint d = uint (word_of_int (sint d) :: 32 word)" by simp
  also have "\<dots> = sint d mod 2 ^ 32"
    by (simp only: unsigned_of_int take_bit_eq_mod id_apply of_int_eq_id) simp
  finally show ?thesis .
qed

end
