(* ===== verification/Port_Names.thy ===== *)
theory Port_Names
  imports Prelude
begin

section \<open>Port names, capability bits and user references\<close>

text \<open>
  \<open>mach/port.h\<close>, \<open>ipc/port.h\<close> and the bit fields of \<open>ipc/ipc_entry.h\<close>: how a
  32-bit port name splits into an index and a generation, how the \<open>ie_bits\<close>
  word of a capability packs user references, type, collision bit and
  generation, and the overflow tests on user references.  \<open>NO_PORT_GEN\<close> is not
  defined by any configuration of the tree, so generations are modelled.
\<close>

type_synonym mach_port_t = natural_t
type_synonym mach_port_index_t = mach_port_t
type_synonym mach_port_gen_t = mach_port_t
type_synonym ipc_entry_bits_t = natural_t
type_synonym mach_port_type_t = natural_t
type_synonym mach_port_urefs_t = natural_t
type_synonym mach_port_delta_t = natural_t

definition MACH_PORT_NULL :: mach_port_t where
  "MACH_PORT_NULL = 0"

definition MACH_PORT_DEAD :: mach_port_t where
  "MACH_PORT_DEAD = NOT 0"

definition MACH_PORT_INDEX :: "mach_port_t \<Rightarrow> mach_port_index_t" where
  "MACH_PORT_INDEX name = drop_bit 8 name"

definition MACH_PORT_GEN :: "mach_port_t \<Rightarrow> mach_port_gen_t" where
  "MACH_PORT_GEN name = push_bit 24 (name AND 0xff)"

definition MACH_PORT_MAKE :: "mach_port_index_t \<Rightarrow> mach_port_gen_t \<Rightarrow> mach_port_t" where
  "MACH_PORT_MAKE index gen = push_bit 8 index OR drop_bit 24 gen"

definition MACH_PORT_VALID :: "mach_port_t \<Rightarrow> bool" where
  "MACH_PORT_VALID name \<longleftrightarrow> name \<noteq> MACH_PORT_NULL \<and> name \<noteq> MACH_PORT_DEAD"


subsection \<open>Rights and types\<close>

type_synonym mach_port_right_t = natural_t

definition MACH_PORT_RIGHT_SEND :: mach_port_right_t where
  "MACH_PORT_RIGHT_SEND = 0"
definition MACH_PORT_RIGHT_RECEIVE :: mach_port_right_t where
  "MACH_PORT_RIGHT_RECEIVE = 1"
definition MACH_PORT_RIGHT_SEND_ONCE :: mach_port_right_t where
  "MACH_PORT_RIGHT_SEND_ONCE = 2"
definition MACH_PORT_RIGHT_PORT_SET :: mach_port_right_t where
  "MACH_PORT_RIGHT_PORT_SET = 3"
definition MACH_PORT_RIGHT_DEAD_NAME :: mach_port_right_t where
  "MACH_PORT_RIGHT_DEAD_NAME = 4"
definition MACH_PORT_RIGHT_NUMBER :: mach_port_right_t where
  "MACH_PORT_RIGHT_NUMBER = 5"

definition MACH_PORT_TYPE :: "mach_port_right_t \<Rightarrow> mach_port_type_t" where
  "MACH_PORT_TYPE right = push_bit (unat (right + 16)) 1"

definition MACH_PORT_TYPE_NONE :: mach_port_type_t where
  "MACH_PORT_TYPE_NONE = 0"
definition MACH_PORT_TYPE_SEND :: mach_port_type_t where
  "MACH_PORT_TYPE_SEND = MACH_PORT_TYPE MACH_PORT_RIGHT_SEND"
definition MACH_PORT_TYPE_RECEIVE :: mach_port_type_t where
  "MACH_PORT_TYPE_RECEIVE = MACH_PORT_TYPE MACH_PORT_RIGHT_RECEIVE"
definition MACH_PORT_TYPE_SEND_ONCE :: mach_port_type_t where
  "MACH_PORT_TYPE_SEND_ONCE = MACH_PORT_TYPE MACH_PORT_RIGHT_SEND_ONCE"
definition MACH_PORT_TYPE_PORT_SET :: mach_port_type_t where
  "MACH_PORT_TYPE_PORT_SET = MACH_PORT_TYPE MACH_PORT_RIGHT_PORT_SET"
definition MACH_PORT_TYPE_DEAD_NAME :: mach_port_type_t where
  "MACH_PORT_TYPE_DEAD_NAME = MACH_PORT_TYPE MACH_PORT_RIGHT_DEAD_NAME"
definition MACH_PORT_TYPE_SEND_RECEIVE :: mach_port_type_t where
  "MACH_PORT_TYPE_SEND_RECEIVE = MACH_PORT_TYPE_SEND OR MACH_PORT_TYPE_RECEIVE"
definition MACH_PORT_TYPE_SEND_RIGHTS :: mach_port_type_t where
  "MACH_PORT_TYPE_SEND_RIGHTS = MACH_PORT_TYPE_SEND OR MACH_PORT_TYPE_SEND_ONCE"
definition MACH_PORT_TYPE_PORT_RIGHTS :: mach_port_type_t where
  "MACH_PORT_TYPE_PORT_RIGHTS = MACH_PORT_TYPE_SEND_RIGHTS OR MACH_PORT_TYPE_RECEIVE"
definition MACH_PORT_TYPE_PORT_OR_DEAD :: mach_port_type_t where
  "MACH_PORT_TYPE_PORT_OR_DEAD = MACH_PORT_TYPE_PORT_RIGHTS OR MACH_PORT_TYPE_DEAD_NAME"
definition MACH_PORT_TYPE_DNREQUEST :: mach_port_type_t where
  "MACH_PORT_TYPE_DNREQUEST = 0x80000000"

lemma right_values [simp, bits_defs]:
  "MACH_PORT_RIGHT_SEND = 0" "MACH_PORT_RIGHT_RECEIVE = 1"
  "MACH_PORT_RIGHT_SEND_ONCE = 2" "MACH_PORT_RIGHT_PORT_SET = 3"
  "MACH_PORT_RIGHT_DEAD_NAME = 4" "MACH_PORT_RIGHT_NUMBER = 5"
  by (simp_all add: MACH_PORT_RIGHT_SEND_def MACH_PORT_RIGHT_RECEIVE_def
      MACH_PORT_RIGHT_SEND_ONCE_def MACH_PORT_RIGHT_PORT_SET_def
      MACH_PORT_RIGHT_DEAD_NAME_def MACH_PORT_RIGHT_NUMBER_def)

lemma type_values [bits_defs]:
  "MACH_PORT_TYPE_NONE = 0"
  "MACH_PORT_TYPE_SEND = 0x10000"
  "MACH_PORT_TYPE_RECEIVE = 0x20000"
  "MACH_PORT_TYPE_SEND_ONCE = 0x40000"
  "MACH_PORT_TYPE_PORT_SET = 0x80000"
  "MACH_PORT_TYPE_DEAD_NAME = 0x100000"
  "MACH_PORT_TYPE_SEND_RECEIVE = 0x30000"
  "MACH_PORT_TYPE_SEND_RIGHTS = 0x50000"
  "MACH_PORT_TYPE_PORT_RIGHTS = 0x70000"
  "MACH_PORT_TYPE_PORT_OR_DEAD = 0x170000"
  "MACH_PORT_TYPE_DNREQUEST = 0x80000000"
  by (simp_all add: MACH_PORT_TYPE_NONE_def MACH_PORT_TYPE_SEND_def
      MACH_PORT_TYPE_RECEIVE_def MACH_PORT_TYPE_SEND_ONCE_def MACH_PORT_TYPE_PORT_SET_def
      MACH_PORT_TYPE_DEAD_NAME_def MACH_PORT_TYPE_SEND_RECEIVE_def
      MACH_PORT_TYPE_SEND_RIGHTS_def MACH_PORT_TYPE_PORT_RIGHTS_def
      MACH_PORT_TYPE_PORT_OR_DEAD_def MACH_PORT_TYPE_DNREQUEST_def MACH_PORT_TYPE_def)

subsection \<open>The bits of a capability entry\<close>

definition IE_BITS_UREFS_MASK :: ipc_entry_bits_t where
  "IE_BITS_UREFS_MASK = 0x0000ffff"
definition IE_BITS_UREFS :: "ipc_entry_bits_t \<Rightarrow> mach_port_urefs_t" where
  "IE_BITS_UREFS bits = bits AND IE_BITS_UREFS_MASK"
definition IE_BITS_TYPE_MASK :: ipc_entry_bits_t where
  "IE_BITS_TYPE_MASK = 0x001f0000"
definition IE_BITS_TYPE :: "ipc_entry_bits_t \<Rightarrow> mach_port_type_t" where
  "IE_BITS_TYPE bits = bits AND IE_BITS_TYPE_MASK"
definition IE_BITS_COLLISION :: ipc_entry_bits_t where
  "IE_BITS_COLLISION = 0x00800000"
definition IE_BITS_GEN_MASK :: ipc_entry_bits_t where
  "IE_BITS_GEN_MASK = 0xff000000"
definition IE_BITS_GEN :: "ipc_entry_bits_t \<Rightarrow> mach_port_gen_t" where
  "IE_BITS_GEN bits = bits AND IE_BITS_GEN_MASK"
definition IE_BITS_GEN_ONE :: ipc_entry_bits_t where
  "IE_BITS_GEN_ONE = 0x04000000"
definition IE_BITS_NEW_GEN :: "ipc_entry_bits_t \<Rightarrow> ipc_entry_bits_t" where
  "IE_BITS_NEW_GEN old = (old + IE_BITS_GEN_ONE) AND IE_BITS_GEN_MASK"
definition IE_BITS_RIGHT_MASK :: ipc_entry_bits_t where
  "IE_BITS_RIGHT_MASK = 0x007fffff"

definition MACH_PORT_MAKEB :: "mach_port_index_t \<Rightarrow> ipc_entry_bits_t \<Rightarrow> mach_port_t" where
  "MACH_PORT_MAKEB index bits = MACH_PORT_MAKE index (IE_BITS_GEN bits)"

subsection \<open>User references\<close>

text \<open>
  In \<open>MACH_PORT_UREFS_UNDERFLOW\<close> the negated \<open>delta\<close> is converted to the unsigned
  type of \<open>urefs\<close> before the comparison; in \<open>MACH_PORT_UREFS_OVERFLOW\<close> the sum is
  unsigned and may wrap.
\<close>

definition MACH_PORT_UREFS_MAX :: mach_port_urefs_t where
  "MACH_PORT_UREFS_MAX = push_bit 16 1 - 1"

definition MACH_PORT_UREFS_OVERFLOW :: "mach_port_urefs_t \<Rightarrow> mach_port_delta_t \<Rightarrow> bool" where
  "MACH_PORT_UREFS_OVERFLOW urefs delta \<longleftrightarrow>
     0 < sint delta \<and> (urefs + delta \<le> urefs \<or> urefs + delta > MACH_PORT_UREFS_MAX)"

definition MACH_PORT_UREFS_UNDERFLOW :: "mach_port_urefs_t \<Rightarrow> mach_port_delta_t \<Rightarrow> bool" where
  "MACH_PORT_UREFS_UNDERFLOW urefs delta \<longleftrightarrow> sint delta < 0 \<and> - delta > urefs"

lemma urefs_max_value [bits_defs]: "MACH_PORT_UREFS_MAX = 0xffff"
  by (simp add: MACH_PORT_UREFS_MAX_def)

lemmas bits_fields =
  IE_BITS_UREFS_MASK_def IE_BITS_UREFS_def IE_BITS_TYPE_MASK_def IE_BITS_TYPE_def
  IE_BITS_COLLISION_def IE_BITS_GEN_MASK_def IE_BITS_GEN_def IE_BITS_GEN_ONE_def
  IE_BITS_RIGHT_MASK_def

declare bits_fields [bits_defs]
declare MACH_PORT_NULL_def [bits_defs]

subsection \<open>Laws of names\<close>

text \<open>
  A name is its index and its generation; the names of one index form an
  interval of the unsigned order, which is what lets the splay tree be cut by
  index.
\<close>

lemma index_gen_make: "MACH_PORT_MAKE (MACH_PORT_INDEX n) (MACH_PORT_GEN n) = n"
  unfolding MACH_PORT_MAKE_def MACH_PORT_INDEX_def MACH_PORT_GEN_def mask_values
proof (rule bit_word_eqI)
  fix k assume "k < LENGTH(32)"
  then show "bit (push_bit 8 (drop_bit 8 n) OR drop_bit 24 (push_bit 24 (n AND mask 8))) k = bit n k"
    by (cases "k < 8") (auto simp: bit_simps)
qed

lemma index_make:
  assumes "i < 0x1000000"
  shows "MACH_PORT_INDEX (MACH_PORT_MAKE i g) = i"
proof -
  have "take_bit 24 i = i"
    using assms by (intro take_bit_small) (simp add: word_less_nat_alt)
  moreover have "MACH_PORT_INDEX (MACH_PORT_MAKE i g) = take_bit 24 i"
    unfolding MACH_PORT_MAKE_def MACH_PORT_INDEX_def
    by (rule bit_word_eqI) (auto simp: bit_simps)
  ultimately show ?thesis by simp
qed

lemma gen_make: "MACH_PORT_GEN (MACH_PORT_MAKE i g) = IE_BITS_GEN g"
  unfolding MACH_PORT_MAKE_def MACH_PORT_GEN_def IE_BITS_GEN_def IE_BITS_GEN_MASK_def mask_values
  by (rule bit_word_eqI) (auto simp: bit_simps)

lemma index_unat: "unat (MACH_PORT_INDEX n) = unat n div 256"
  unfolding MACH_PORT_INDEX_def unat_drop_bit_eq by (simp add: drop_bit_eq_div)

lemma index_bound: "MACH_PORT_INDEX n < 0x1000000"
proof -
  have "unat n < 2 ^ 32"
    using unsigned_less [of n, where ?'a = nat] by simp
  then show ?thesis by (simp add: word_less_nat_alt index_unat)
qed

lemma make0_unat:
  assumes "i < 0x1000000"
  shows "unat (MACH_PORT_MAKE i 0) = unat i * 256"
proof -
  have "unat (push_bit 8 i) = unat i * 256"
    using assms unfolding unsigned_push_bit_eq
    by (simp add: word_less_nat_alt push_bit_eq_mult take_bit_eq_mod)
  then show ?thesis by (simp add: MACH_PORT_MAKE_def)
qed

lemma make0_less: 
  assumes "i < 0x1000000"
  shows "n < MACH_PORT_MAKE i 0 \<longleftrightarrow> MACH_PORT_INDEX n < i"
   using assms by (auto simp: word_le_nat_alt word_less_nat_alt make0_unat index_unat)

lemma index_range:
  assumes "i + 1 < 0x1000000" "i < 0x1000000"
  shows "MACH_PORT_INDEX n = i \<longleftrightarrow> MACH_PORT_MAKE i 0 \<le> n \<and> n < MACH_PORT_MAKE (i + 1) 0"
proof -
  have s: "unat (i + 1) = unat i + 1" using assms by (simp add: word_less_nat_alt unat_word_ariths)
  show ?thesis
    using assms by (auto simp: word_le_nat_alt word_less_nat_alt make0_unat s word_unat_eq_iff index_unat)
qed

subsection \<open>Laws of capability bits and user references\<close>

text \<open>
  Adding to an \<open>ie_bits\<close> word changes its user-reference field only, as long as
  the sum stays within 16 bits, and the two overflow tests of \<open>ipc/port.h\<close>
  together say exactly that it does.
\<close>

lemma urefs_add:
  assumes "uint (IE_BITS_UREFS bits + d) < 0x10000"
  shows "bits + d = (bits AND NOT (mask 16)) OR (IE_BITS_UREFS bits + d)"
    and "(IE_BITS_UREFS bits + d) AND mask 16 = IE_BITS_UREFS bits + d"
proof -
  let ?u = "IE_BITS_UREFS bits"
  have t: "take_bit 16 (?u + d) = ?u + d"
    using assms by (intro take_bit_small_uint) simp
  then show m: "(?u + d) AND mask 16 = ?u + d"
    by (simp add: take_bit_eq_mask)
  have "(bits AND NOT (mask 16)) AND (?u + d) = (bits AND NOT (mask 16)) AND ((?u + d) AND mask 16)"
    by (simp only: m)
  also have "\<dots> = 0"
    by (rule bit_word_eqI) (auto simp: bit_simps)
  finally have "(bits AND NOT (mask 16)) OR (?u + d) = (bits AND NOT (mask 16)) + (?u + d)"
    by (metis word_plus_and_or add_0)
  also have "\<dots> = bits + d"
    using split_mask [of bits 16] by (metis add.assoc IE_BITS_UREFS_def IE_BITS_UREFS_MASK_def mask_values(2))
  finally show "bits + d = (bits AND NOT (mask 16)) OR (?u + d)" ..
qed

lemma urefs_bits_add:
  assumes "uint (IE_BITS_UREFS bits + d) < 0x10000"
  shows "IE_BITS_UREFS (bits + d) = IE_BITS_UREFS bits + d"
proof -
  have "(bits + d) AND mask 16 = (IE_BITS_UREFS bits + d) AND mask 16"
    unfolding urefs_add(1) [OF assms]
    by (rule bit_word_eqI) (auto simp: bit_simps)
  then show ?thesis
    unfolding IE_BITS_UREFS_def [of "bits + d"] IE_BITS_UREFS_MASK_def mask_values
    by (simp only: urefs_add(2) [OF assms])
qed

lemma high_bits_add:
  assumes "uint (IE_BITS_UREFS bits + d) < 0x10000" and m: "m AND mask 16 = 0"
  shows "(bits + d) AND m = bits AND m"
proof -
  have z: "bit m n \<Longrightarrow> 16 \<le> n" for n
  proof (rule ccontr)
    assume "bit m n" "\<not> 16 \<le> n"
    then have "bit (m AND mask 16) n" by (simp add: bit_simps)
    then show False by (simp add: m)
  qed
  have "(bits + d) AND m = ((bits AND NOT (mask 16)) OR ((IE_BITS_UREFS bits + d) AND mask 16)) AND m"
    using urefs_add [OF assms(1)] by simp
  also have "\<dots> = bits AND m"
    by (rule bit_word_eqI) (auto simp: bit_simps dest: z)
  finally show ?thesis .
qed

lemma urefs_bound: "uint (IE_BITS_UREFS bits) < 0x10000"
proof -
  have "bits AND mask 16 < 2 ^ 16"
    by (rule and_mask_less') simp
  then show ?thesis
    unfolding IE_BITS_UREFS_def IE_BITS_UREFS_MASK_def mask_values
    by (simp add: word_less_def)
qed

lemma urefs_delta_sum:
  fixes u d :: "32 word"
  assumes "0 \<le> uint u + sint d" "uint u + sint d < 2 ^ 32"
  shows "uint (u + d) = uint u + sint d"
proof -
  have "uint (u + d) = (uint u + uint d) mod 2 ^ 32"
    by (simp add: uint_word_ariths)
  also have "\<dots> = (uint u + sint d) mod 2 ^ 32"
    by (simp add: uint_eq_sint_mod [of d] mod_add_right_eq)
  also have "\<dots> = uint u + sint d"
    using assms by simp
  finally show ?thesis by simp
qed

lemma urefs_delta_ok:
  assumes "uint u \<le> 65535"
  shows "\<not> MACH_PORT_UREFS_UNDERFLOW u d \<and> \<not> MACH_PORT_UREFS_OVERFLOW u d \<longleftrightarrow>
    0 \<le> uint u + sint d \<and> uint u + sint d \<le> 65535"
proof -
  have b: "- (2 ^ 31) \<le> sint d" "sint d < 2 ^ 31"
    using sint_greater_eq [of d] sint_less [of d] by simp_all
  have neg: "uint (- d) = - sint d" if "sint d < 0"
  proof -
    have "uint (- d) = (- uint d) mod 2 ^ 32"
      by (simp add: uint_word_ariths)
    also have "\<dots> = (- sint d) mod 2 ^ 32"
      by (simp only: uint_eq_sint_mod [of d] mod_minus_eq)
    also have "\<dots> = - sint d"
      using that b by simp
    finally show ?thesis by simp
  qed
  show ?thesis
  proof (cases "sint d < 0")
    case True
    then show ?thesis
      using neg assms by (auto simp: MACH_PORT_UREFS_UNDERFLOW_def MACH_PORT_UREFS_OVERFLOW_def word_less_def)
  next
    case False
    then have "uint (u + d) = uint u + sint d"
      using assms b by (intro urefs_delta_sum) auto
    then show ?thesis using False assms
      by (auto simp: MACH_PORT_UREFS_UNDERFLOW_def MACH_PORT_UREFS_OVERFLOW_def word_less_def word_le_def urefs_max_value)
  qed
qed

subsection \<open>Properties\<close>

text \<open>
  A name and its index and generation determine each other: every 24-bit index and every generation of an entry come
  back from the name made of them, and every name is made of its own index and generation.
\<close>

theorem name_roundtrip:
  "(index < 0x1000000 \<longrightarrow> MACH_PORT_INDEX (MACH_PORT_MAKEB index bits) = index) \<and>
   MACH_PORT_GEN (MACH_PORT_MAKEB index bits) = IE_BITS_GEN bits \<and>
   MACH_PORT_MAKE (MACH_PORT_INDEX name) (MACH_PORT_GEN name) = name"
  using index_make gen_make index_gen_make by (simp add: MACH_PORT_MAKEB_def IE_BITS_GEN_def and.assoc)

theorem name_roundtrip_witness:
  "MACH_PORT_INDEX (MACH_PORT_MAKEB 5 0x0c130002) = 5 \<and> MACH_PORT_GEN (MACH_PORT_MAKEB 5 0x0c130002) = 0x0c000000"
  using name_roundtrip [of 5 "0x0c130002" 0] by (simp add: IE_BITS_GEN_def IE_BITS_GEN_MASK_def)

text \<open>
  C39: The tests of \<open>MACH_PORT_UREFS_UNDERFLOW\<close> and \<open>MACH_PORT_UREFS_OVERFLOW\<close> are exact for every
  signed 32-bit delta: when they pass, adding the delta to the bits of an entry adds it to the user references and
  keeps the type, the collision bit and the generation; when one does not, the sum has no 16-bit representation.
\<close>

theorem urefs_delta_exact:
  "if MACH_PORT_UREFS_UNDERFLOW (IE_BITS_UREFS bits) d \<or> MACH_PORT_UREFS_OVERFLOW (IE_BITS_UREFS bits) d
   then uint (IE_BITS_UREFS bits) + sint d < 0 \<or> 0xffff < uint (IE_BITS_UREFS bits) + sint d
   else uint (IE_BITS_UREFS (bits + d)) = uint (IE_BITS_UREFS bits) + sint d \<and>
     IE_BITS_TYPE (bits + d) = IE_BITS_TYPE bits \<and> IE_BITS_GEN (bits + d) = IE_BITS_GEN bits \<and>
     (bits + d) AND IE_BITS_COLLISION = bits AND IE_BITS_COLLISION"
proof -
  let ?u = "IE_BITS_UREFS bits"
  note ok = urefs_delta_ok [of ?u d]
  have u: "uint ?u < 0x10000" by (rule urefs_bound)
  have m: "IE_BITS_TYPE_MASK AND mask 16 = 0" "IE_BITS_GEN_MASK AND mask 16 = 0" "IE_BITS_COLLISION AND mask 16 = 0"
    by (simp_all add: IE_BITS_TYPE_MASK_def IE_BITS_GEN_MASK_def IE_BITS_COLLISION_def mask_eq_exp_minus_1)
  show ?thesis
  proof (cases "MACH_PORT_UREFS_UNDERFLOW ?u d \<or> MACH_PORT_UREFS_OVERFLOW ?u d")
    case True
    then show ?thesis using ok u by auto
  next
    case False
    then have b: "0 \<le> uint ?u + sint d" "uint ?u + sint d \<le> 65535" using ok u by auto
    then have s: "uint (?u + d) = uint ?u + sint d" by (intro urefs_delta_sum) auto
    then have lt: "uint (?u + d) < 0x10000" using b by simp
    show ?thesis
      using False s urefs_bits_add [OF lt] high_bits_add [OF lt] m by (simp add: IE_BITS_TYPE_def IE_BITS_GEN_def)
  qed
qed

end
