(* ===== verification/Ipc_Splay.thy ===== *)
theory Ipc_Splay
  imports Port_Names
begin

section \<open>The splay tree of large port names\<close>

text \<open>
  \<open>ipc/ipc_splay.c\<close>.  A tree node (\<open>struct ipc_tree_entry\<close>) is its two children,
  its name and its payload of type \<open>'e\<close> (the \<open>struct ipc_entry\<close> in it).

  The tree is kept unassembled: a middle tree \<open>ist_root\<close>, a left and a right tree,
  and a pointer \<open>ist_ltreep\<close> to the right-child field of the largest node of the
  left tree (\<open>ist_rtreep\<close> to the left-child field of the smallest node of the right
  tree), whose target is not initialised.  A tree with such a hole is the list of
  the nodes on the path to the hole, the node holding the hole first; the empty
  list says that the pointer is to \<open>ist_ltree\<close> (\<open>ist_rtree\<close>) itself.  Storing through
  the pointer and reading \<open>ist_ltree\<close> afterwards is \<open>plug_left\<close> (\<open>plug_right\<close>).
  \<open>ist_lock\<close> and \<open>ist_unlock\<close> are empty macros; assertions are compiled away
  (\<open>MACH_ASSERT\<close> is off) and reappear below as lemmas.
\<close>

datatype 'e itree =
    ITE_NULL
  | ITE (ite_lchild: "'e itree") (ite_name: mach_port_t) (ite_entry: 'e) (ite_rchild: "'e itree")
where
  "ite_lchild ITE_NULL = ITE_NULL"
| "ite_rchild ITE_NULL = ITE_NULL"

type_synonym 'e lctx = "('e itree \<times> mach_port_t \<times> 'e) list"
type_synonym 'e rctx = "(mach_port_t \<times> 'e \<times> 'e itree) list"

fun plug_left :: "'e lctx \<Rightarrow> 'e itree \<Rightarrow> 'e itree" where
  "plug_left [] t = t"
| "plug_left ((l, n, e) # c) t = plug_left c (ITE l n e t)"

fun plug_right :: "'e rctx \<Rightarrow> 'e itree \<Rightarrow> 'e itree" where
  "plug_right [] t = t"
| "plug_right ((n, e, r) # c) t = plug_right c (ITE t n e r)"

record 'e ipc_splay_tree =
  ist_name :: mach_port_t
  ist_root :: "'e itree"
  ist_ltree :: "'e lctx"
  ist_rtree :: "'e rctx"

definition MACH_PORT_SMALLEST :: mach_port_t where
  "MACH_PORT_SMALLEST = 0"
definition MACH_PORT_LARGEST :: mach_port_t where
  "MACH_PORT_LARGEST = NOT 0"

subsection \<open>Top-down splaying\<close>

text \<open>The four macros local to \<open>ipc_splay_prim_lookup\<close>.\<close>

fun link_left :: "'e itree \<Rightarrow> 'e lctx \<Rightarrow> 'e itree \<times> 'e lctx" where
  "link_left (ITE l n e r) lt = (r, (l, n, e) # lt)"
| "link_left ITE_NULL lt = (ITE_NULL, lt)"

fun link_right :: "'e itree \<Rightarrow> 'e rctx \<Rightarrow> 'e itree \<times> 'e rctx" where
  "link_right (ITE l n e r) rt = (l, (n, e, r) # rt)"
| "link_right ITE_NULL rt = (ITE_NULL, rt)"

fun rotate_left :: "'e itree \<Rightarrow> 'e itree" where
  "rotate_left (ITE a x ex (ITE b y ey c)) = ITE (ITE a x ex b) y ey c"
| "rotate_left t = t"

fun rotate_right :: "'e itree \<Rightarrow> 'e itree" where
  "rotate_right (ITE (ITE a x ex b) y ey c) = ITE a x ex (ITE b y ey c)"
| "rotate_right t = t"

text \<open>
  One iteration of the loop of \<open>ipc_splay_prim_lookup\<close> on the middle tree and the two
  trees with a hole; \<open>None\<close> is leaving the loop, by its condition or by a \<open>break\<close>.
  The code requires a non-null tree, so the first case is never reached.
\<close>

definition descend_left ::
  "mach_port_t \<Rightarrow> 'e itree \<Rightarrow> 'e lctx \<Rightarrow> 'e rctx \<Rightarrow> ('e itree \<times> 'e lctx \<times> 'e rctx) option" where
  "descend_left name tree lt rt =
     (case ite_lchild tree of
        ITE_NULL \<Rightarrow> None
      | ITE llc tname le lrc \<Rightarrow>
          let tree = (if name < tname \<and> llc \<noteq> ITE_NULL then rotate_right tree else tree);
              (tree, rt) = link_right tree rt;
              (tree, lt) = (if name > tname \<and> lrc \<noteq> ITE_NULL then link_left tree lt else (tree, lt))
          in Some (tree, lt, rt))"

definition descend_right ::
  "mach_port_t \<Rightarrow> 'e itree \<Rightarrow> 'e lctx \<Rightarrow> 'e rctx \<Rightarrow> ('e itree \<times> 'e lctx \<times> 'e rctx) option" where
  "descend_right name tree lt rt =
     (case ite_rchild tree of
        ITE_NULL \<Rightarrow> None
      | ITE rlc tname re rrc \<Rightarrow>
          let tree = (if name > tname \<and> rrc \<noteq> ITE_NULL then rotate_left tree else tree);
              (tree, lt) = link_left tree lt;
              (tree, rt) = (if name < tname \<and> rlc \<noteq> ITE_NULL then link_right tree rt else (tree, rt))
          in Some (tree, lt, rt))"

definition splay_step ::
  "mach_port_t \<Rightarrow> 'e itree \<times> 'e lctx \<times> 'e rctx \<Rightarrow> ('e itree \<times> 'e lctx \<times> 'e rctx) option" where
  "splay_step name s =
     (case s of (tree, lt, rt) \<Rightarrow>
        if tree = ITE_NULL \<or> name = ite_name tree then None
        else if name < ite_name tree then descend_left name tree lt rt
        else descend_right name tree lt rt)"

text \<open>
  The five shapes of an iteration: a zig (one link), a zig-zig (a rotation and a
  link) and a zig-zag (two links) on each side.
\<close>

lemma descend_left_cases:
  assumes "descend_left name tree lt rt = Some s'" "tree \<noteq> ITE_NULL"
  obtains
    (zigzig) a x ex b y ey c where "tree = ITE (ITE a x ex b) y ey c" "a \<noteq> ITE_NULL" "name < x"
      "s' = (a, lt, (x, ex, ITE b y ey c) # rt)"
  | (zigzag) a x ex b y ey c where "tree = ITE (ITE a x ex b) y ey c" "b \<noteq> ITE_NULL" "x < name"
      "s' = (b, (a, x, ex) # lt, (y, ey, c) # rt)"
  | (zig) a x ex b y ey c where "tree = ITE (ITE a x ex b) y ey c"
      "s' = (ITE a x ex b, lt, (y, ey, c) # rt)"
  using assms
  by (cases tree; cases "ite_lchild tree") (auto simp: descend_left_def split: if_splits)

lemma descend_right_cases:
  assumes "descend_right name tree lt rt = Some s'" "tree \<noteq> ITE_NULL"
  obtains
    (zigzig) a x ex b y ey c where "tree = ITE a x ex (ITE b y ey c)" "c \<noteq> ITE_NULL" "y < name"
      "s' = (c, (ITE a x ex b, y, ey) # lt, rt)"
  | (zigzag) a x ex b y ey c where "tree = ITE a x ex (ITE b y ey c)" "b \<noteq> ITE_NULL" "name < y"
      "s' = (b, (a, x, ex) # lt, (y, ey, c) # rt)"
  | (zig) a x ex b y ey c where "tree = ITE a x ex (ITE b y ey c)"
      "s' = (ITE b y ey c, (a, x, ex) # lt, rt)"
  using assms
  by (cases tree; cases "ite_rchild tree") (auto simp: descend_right_def split: if_splits)

lemma splay_step_cases:
  assumes "splay_step name (tree, lt, rt) = Some s'"
  obtains (left) "tree \<noteq> ITE_NULL" "name < ite_name tree" "descend_left name tree lt rt = Some s'"
  | (right) "tree \<noteq> ITE_NULL" "ite_name tree < name" "descend_right name tree lt rt = Some s'"
  using assms by (auto simp: splay_step_def split: if_splits)

lemma splay_step_size: "splay_step name s = Some s' \<Longrightarrow> size (fst s') < size (fst s)"
  by (cases s) (auto elim!: splay_step_cases descend_left_cases descend_right_cases)

function splay_loop ::
  "mach_port_t \<Rightarrow> 'e itree \<times> 'e lctx \<times> 'e rctx \<Rightarrow> 'e itree \<times> 'e lctx \<times> 'e rctx" where
  "splay_loop name s = (case splay_step name s of None \<Rightarrow> s | Some s' \<Rightarrow> splay_loop name s')"
  by pat_completeness auto
termination
  by (relation "measure (\<lambda>(name, s). size (fst s))") (auto simp: splay_step_size)

declare splay_loop.simps [simp del]

text \<open>\<open>ipc_splay_prim_lookup\<close> starts with both holes at \<open>*ltreep\<close> and \<open>*rtreep\<close> themselves.\<close>

definition ipc_splay_prim_lookup ::
  "mach_port_t \<Rightarrow> 'e itree \<Rightarrow> 'e itree \<times> 'e lctx \<times> 'e rctx" where
  "ipc_splay_prim_lookup name tree = splay_loop name (tree, [], [])"

definition ipc_splay_prim_assemble :: "'e itree \<Rightarrow> 'e lctx \<Rightarrow> 'e rctx \<Rightarrow> 'e itree" where
  "ipc_splay_prim_assemble tree lt rt =
     (case tree of ITE_NULL \<Rightarrow> ITE_NULL
      | ITE l n e r \<Rightarrow> ITE (plug_left lt l) n e (plug_right rt r))"

subsection \<open>Tree operations\<close>

definition ipc_splay_tree_init :: "'e ipc_splay_tree \<Rightarrow> 'e ipc_splay_tree" where
  "ipc_splay_tree_init splay = splay\<lparr>ist_root := ITE_NULL\<rparr>"

definition ipc_splay_tree_pick :: "'e ipc_splay_tree \<Rightarrow> (mach_port_t \<times> 'e) option" where
  "ipc_splay_tree_pick splay =
     (case ist_root splay of ITE_NULL \<Rightarrow> None | ITE l n e r \<Rightarrow> Some (n, e))"

text \<open>
  The sequence that lookup, insert, delete, split, join and bounds share: unless
  \<open>name\<close> was the last name looked up, assemble the tree and splay for \<open>name\<close>.
\<close>

definition resplay :: "mach_port_t \<Rightarrow> 'e ipc_splay_tree \<Rightarrow> 'e ipc_splay_tree" where
  "resplay name splay =
     (if ist_name splay \<noteq> name then
        let tree = ipc_splay_prim_assemble (ist_root splay) (ist_ltree splay) (ist_rtree splay);
            (root, lt, rt) = ipc_splay_prim_lookup name tree
        in splay\<lparr>ist_root := root, ist_ltree := lt, ist_rtree := rt\<rparr>
      else splay)"

definition ipc_splay_tree_lookup ::
  "'e ipc_splay_tree \<Rightarrow> mach_port_t \<Rightarrow> 'e option \<times> 'e ipc_splay_tree" where
  "ipc_splay_tree_lookup splay name =
     (if ist_root splay \<noteq> ITE_NULL then
        let splay = (resplay name splay)\<lparr>ist_name := name\<rparr>;
            root = ist_root splay
        in (if name \<noteq> ite_name root then None else Some (ite_entry root), splay)
      else (None, splay))"

definition ipc_splay_tree_insert ::
  "'e ipc_splay_tree \<Rightarrow> mach_port_t \<Rightarrow> 'e \<Rightarrow> 'e ipc_splay_tree" where
  "ipc_splay_tree_insert splay name entry =
     (let (lchild, rchild) =
        (if ist_root splay = ITE_NULL then (ITE_NULL, ITE_NULL)
         else
           let s = resplay name splay; root = ist_root s in
           if name < ite_name root
           then (plug_left (ist_ltree s) ITE_NULL, plug_right (ist_rtree s) root)
           else (plug_left (ist_ltree s) root, plug_right (ist_rtree s) ITE_NULL))
      in splay\<lparr>ist_root := ITE lchild name entry rchild, ist_name := name,
               ist_ltree := [], ist_rtree := []\<rparr>)"

text \<open>
  Deletion plugs the children of the found node into the two trees, frees the node,
  and joins what is left by splaying the left tree for its largest name.  When the
  tree becomes empty the other fields keep their old values.
\<close>

definition ipc_splay_tree_delete :: "'e ipc_splay_tree \<Rightarrow> mach_port_t \<Rightarrow> 'e ipc_splay_tree" where
  "ipc_splay_tree_delete splay name =
     (let s = resplay name splay;
          root = ist_root s;
          ltree = plug_left (ist_ltree s) (ite_lchild root);
          saved = plug_right (ist_rtree s) (ite_rchild root);
          root =
            (if ltree = ITE_NULL then saved
             else if saved \<noteq> ITE_NULL then
               let (root, lt, rt) = ipc_splay_prim_lookup MACH_PORT_LARGEST ltree;
                   root = ipc_splay_prim_assemble root lt rt
               in ITE (ite_lchild root) (ite_name root) (ite_entry root) saved
             else ltree)
      in if root \<noteq> ITE_NULL
         then s\<lparr>ist_root := root, ist_name := ite_name root, ist_ltree := [], ist_rtree := []\<rparr>
         else s\<lparr>ist_root := ITE_NULL\<rparr>)"

text \<open>
  Split returns \<open>splay\<close> and \<open>small\<close>; \<open>small\<close> is an uninitialised record on entry.
\<close>

definition ipc_splay_tree_split ::
  "'e ipc_splay_tree \<Rightarrow> mach_port_t \<Rightarrow> 'e ipc_splay_tree \<Rightarrow> 'e ipc_splay_tree \<times> 'e ipc_splay_tree" where
  "ipc_splay_tree_split splay name small0 =
     (let small = ipc_splay_tree_init small0 in
      case ist_root splay of ITE_NULL \<Rightarrow> (splay, small)
      | ITE _ _ _ _ \<Rightarrow>
        (let s = resplay name splay in
         case ist_root s of ITE_NULL \<Rightarrow> (s, small)
         | ITE l n e r \<Rightarrow>
           if n < name then
             let ltree = plug_left (ist_ltree s) l;
                 rtree = plug_right (ist_rtree s) ITE_NULL;
                 root = ITE ltree n e r;
                 small = small\<lparr>ist_root := root, ist_name := n, ist_ltree := [], ist_rtree := []\<rparr>;
                 s = s\<lparr>ist_root := rtree\<rparr>
             in (if rtree \<noteq> ITE_NULL
                 then s\<lparr>ist_name := ite_name rtree, ist_ltree := [], ist_rtree := []\<rparr> else s, small)
           else
             let ltree = plug_left (ist_ltree s) l;
                 s = s\<lparr>ist_root := ITE ITE_NULL n e r, ist_name := name, ist_ltree := []\<rparr>;
                 small = small\<lparr>ist_root := ltree\<rparr>
             in (s, if ltree \<noteq> ITE_NULL
                 then small\<lparr>ist_name := ite_name ltree, ist_ltree := [], ist_rtree := []\<rparr> else small)))"

text \<open>Join returns \<open>splay\<close> and the emptied \<open>small\<close>.\<close>

definition ipc_splay_tree_join ::
  "'e ipc_splay_tree \<Rightarrow> 'e ipc_splay_tree \<Rightarrow> 'e ipc_splay_tree \<times> 'e ipc_splay_tree" where
  "ipc_splay_tree_join splay small =
     (if ist_root small = ITE_NULL then (splay, small)
      else
        let sroot = ipc_splay_prim_assemble (ist_root small) (ist_ltree small) (ist_rtree small);
            small = small\<lparr>ist_root := ITE_NULL\<rparr>;
            root =
              (if ist_root splay = ITE_NULL then sroot
               else
                 let s = resplay MACH_PORT_SMALLEST splay;
                     root = ipc_splay_prim_assemble (ist_root s) (ist_ltree s) (ist_rtree s)
                 in ITE sroot (ite_name root) (ite_entry root) (ite_rchild root))
        in (splay\<lparr>ist_root := root, ist_name := ite_name root, ist_ltree := [], ist_rtree := []\<rparr>, small))"

text \<open>
  Bounds turns the hole pointers back into the nodes that hold them: the first node
  of the list.
\<close>

definition ipc_splay_tree_bounds ::
  "'e ipc_splay_tree \<Rightarrow> mach_port_t \<Rightarrow> mach_port_t \<times> mach_port_t \<times> 'e ipc_splay_tree" where
  "ipc_splay_tree_bounds splay name =
     (if ist_root splay = ITE_NULL then (MACH_PORT_LARGEST, MACH_PORT_SMALLEST, splay)
      else
        let splay = (resplay name splay)\<lparr>ist_name := name\<rparr>;
            rname = ite_name (ist_root splay);
            lower = (if rname \<le> name then rname
                     else case ist_ltree splay of
                            [] \<Rightarrow> MACH_PORT_LARGEST
                          | (_, n, _) # _ \<Rightarrow> n);
            upper = (if rname \<ge> name then rname
                     else case ist_rtree splay of
                            [] \<Rightarrow> MACH_PORT_SMALLEST
                          | (n, _, _) # _ \<Rightarrow> n)
        in (lower, upper, splay))"

subsection \<open>The list of a tree\<close>

text \<open>
  The entries of a tree, of a left and of a right tree with a hole in increasing order
  of name, as the code means them to be.
\<close>

fun inorder :: "'e itree \<Rightarrow> (mach_port_t \<times> 'e) list" where
  "inorder ITE_NULL = []"
| "inorder (ITE l n e r) = inorder l @ (n, e) # inorder r"

fun in_left :: "'e lctx \<Rightarrow> (mach_port_t \<times> 'e) list" where
  "in_left [] = []"
| "in_left ((l, n, e) # c) = in_left c @ inorder l @ [(n, e)]"

fun in_right :: "'e rctx \<Rightarrow> (mach_port_t \<times> 'e) list" where
  "in_right [] = []"
| "in_right ((n, e, r) # c) = (n, e) # inorder r @ in_right c"

lemma inorder_plug_left [simp]: "inorder (plug_left c t) = in_left c @ inorder t"
  by (induction c t rule: plug_left.induct) auto

lemma inorder_plug_right [simp]: "inorder (plug_right c t) = inorder t @ in_right c"
  by (induction c t rule: plug_right.induct) auto


text \<open>
  The state of the loop: its entries, and what it keeps of the name looked up.
\<close>

definition contents :: "'e itree \<times> 'e lctx \<times> 'e rctx \<Rightarrow> (mach_port_t \<times> 'e) list" where
  "contents s = (case s of (t, lt, rt) \<Rightarrow> in_left lt @ inorder t @ in_right rt)"

definition sorted_names :: "(mach_port_t \<times> 'e) list \<Rightarrow> bool" where
  "sorted_names xs \<longleftrightarrow> sorted_wrt (<) (map fst xs)"

lemma sorted_names_simps [simp]:
  "sorted_names []"
  "sorted_names (x # xs) \<longleftrightarrow> (\<forall>y \<in> set xs. fst x < fst y) \<and> sorted_names xs"
  "sorted_names (xs @ ys) \<longleftrightarrow> sorted_names xs \<and> sorted_names ys \<and>
     (\<forall>x \<in> set xs. \<forall>y \<in> set ys. fst x < fst y)"
  by (auto simp: sorted_names_def sorted_wrt_append)

definition bracketed :: "mach_port_t \<Rightarrow> 'e itree \<times> 'e lctx \<times> 'e rctx \<Rightarrow> bool" where
  "bracketed name s = (case s of (t, lt, rt) \<Rightarrow>
     t \<noteq> ITE_NULL \<and> (\<forall>x \<in> set (in_left lt). fst x < name) \<and> (\<forall>x \<in> set (in_right rt). name < fst x))"

lemma splay_step_contents: "splay_step name s = Some s' \<Longrightarrow> contents s' = contents s"
  by (cases s) (auto simp: contents_def elim!: splay_step_cases descend_left_cases descend_right_cases)

lemma splay_step_bracketed:
  "splay_step name s = Some s' \<Longrightarrow> sorted_names (contents s) \<Longrightarrow> bracketed name s \<Longrightarrow> bracketed name s'"
  by (cases s) (fastforce simp: contents_def bracketed_def ball_Un  elim!: splay_step_cases descend_left_cases descend_right_cases)

lemma splay_step_stop:
  assumes "splay_step name (t, lt, rt) = None" "t \<noteq> ITE_NULL"
  shows "name = ite_name t \<or> name < ite_name t \<and> ite_lchild t = ITE_NULL \<or>
     ite_name t < name \<and> ite_rchild t = ITE_NULL"
  using assms by (auto simp: splay_step_def descend_left_def descend_right_def Let_def split: if_splits itree.splits prod.splits)

definition focused :: "mach_port_t \<Rightarrow> 'e itree \<times> 'e lctx \<times> 'e rctx \<Rightarrow> bool" where
  "focused name s \<longleftrightarrow> bracketed name s \<and>
     (case s of (t, lt, rt) \<Rightarrow> name = ite_name t \<or> name < ite_name t \<and> ite_lchild t = ITE_NULL \<or>
        ite_name t < name \<and> ite_rchild t = ITE_NULL)"

lemma splay_loop_spec:
  assumes "sorted_names (contents s)" "bracketed name s"
  shows "contents (splay_loop name s) = contents s \<and> focused name (splay_loop name s)"
  using assms
proof (induction name s rule: splay_loop.induct)
  case (1 name s)
  show ?case
  proof (cases "splay_step name s")
    case None
    then have "splay_loop name s = s" by (simp add: splay_loop.simps [of name s])
    then show ?thesis
      using "1.prems" None by (cases s) (auto simp: focused_def bracketed_def dest: splay_step_stop)
  next
    case (Some s')
    then show ?thesis
      using "1.IH" [OF Some] "1.prems"
      by (simp add: splay_loop.simps [of name s] splay_step_contents splay_step_bracketed)
  qed
qed

text \<open>
  The abstraction of the structure to a sorted list and its invariant: unless the tree is
  empty, the entries are sorted and the middle tree is focused on \<open>ist_name\<close>.
\<close>

definition state :: "'e ipc_splay_tree \<Rightarrow> 'e itree \<times> 'e lctx \<times> 'e rctx" where
  "state s = (ist_root s, ist_ltree s, ist_rtree s)"

definition splay_list :: "'e ipc_splay_tree \<Rightarrow> (mach_port_t \<times> 'e) list" where
  "splay_list s = (if ist_root s = ITE_NULL then [] else contents (state s))"

definition splay_inv :: "'e ipc_splay_tree \<Rightarrow> bool" where
  "splay_inv s \<longleftrightarrow> (ist_root s \<noteq> ITE_NULL \<longrightarrow> sorted_names (splay_list s) \<and> focused (ist_name s) (state s))"

lemma inorder_assemble:
  "t \<noteq> ITE_NULL \<Longrightarrow> inorder (ipc_splay_prim_assemble t lt rt) = contents (t, lt, rt)"
  by (cases t) (auto simp: ipc_splay_prim_assemble_def contents_def)

lemma assemble_not_null: "t \<noteq> ITE_NULL \<Longrightarrow> ipc_splay_prim_assemble t lt rt \<noteq> ITE_NULL"
  by (cases t) (auto simp: ipc_splay_prim_assemble_def)

lemma prim_lookup_spec:
  assumes "t \<noteq> ITE_NULL" "sorted_names (inorder t)"
  shows "contents (ipc_splay_prim_lookup name t) = inorder t \<and> focused name (ipc_splay_prim_lookup name t)"
  using splay_loop_spec [where name = name and s = "(t, [], [])"] assms
  by (simp add: ipc_splay_prim_lookup_def contents_def bracketed_def)

lemma resplay_spec:
  assumes "splay_inv s" "ist_root s \<noteq> ITE_NULL"
  shows "ist_root (resplay name s) \<noteq> ITE_NULL" "contents (state (resplay name s)) = splay_list s"
    "focused name (state (resplay name s))" "sorted_names (splay_list s)"
proof -
  let ?t = "ipc_splay_prim_assemble (ist_root s) (ist_ltree s) (ist_rtree s)"
  show sorted: "sorted_names (splay_list s)"
    using assms by (simp add: splay_inv_def)
  have t: "?t \<noteq> ITE_NULL" "inorder ?t = splay_list s"
    using assms(2) by (simp_all add: assemble_not_null inorder_assemble splay_list_def state_def)
  note spec = prim_lookup_spec [OF t(1), where name = name]
  show foc: "focused name (state (resplay name s))"
    using spec assms t(2) sorted
    by (auto simp: resplay_def Let_def state_def splay_inv_def split: prod.splits)
  show "contents (state (resplay name s)) = splay_list s"
    using spec assms t(2) sorted
    by (auto simp: resplay_def Let_def state_def splay_list_def split: prod.splits)
  show "ist_root (resplay name s) \<noteq> ITE_NULL"
    using foc by (simp add: focused_def bracketed_def state_def)
qed

text \<open>What a focused state says of its list.\<close>

lemma focused_cases:
  assumes "focused name (state s)"
  obtains l n e r where "ist_root s = ITE l n e r"
    "\<forall>x \<in> set (in_left (ist_ltree s)). fst x < name" "\<forall>x \<in> set (in_right (ist_rtree s)). name < fst x"
    "name = n \<or> name < n \<and> l = ITE_NULL \<or> n < name \<and> r = ITE_NULL"
    "contents (state s) = in_left (ist_ltree s) @ inorder l @ (n, e) # inorder r @ in_right (ist_rtree s)"
  using assms
  by (cases "ist_root s") (auto simp: focused_def bracketed_def state_def contents_def)

definition splay_map :: "'e ipc_splay_tree \<Rightarrow> mach_port_t \<rightharpoonup> 'e" where
  "splay_map s = map_of (splay_list s)"

text \<open>Sorted association lists, cut at a name.\<close>

lemma map_of_mid: "\<forall>x \<in> set A. fst x < (n :: mach_port_t) \<Longrightarrow> map_of (A @ (n, e) # B) n = Some e"
  by (induction A) auto

lemma map_of_absent: "\<forall>x \<in> set A. fst x \<noteq> n \<Longrightarrow> map_of A n = None"
  by (auto simp: map_of_eq_None_iff)

lemma sorted_map_of_iff:
  "sorted_names xs \<Longrightarrow> map_of xs n = Some e \<longleftrightarrow> (n, e) \<in> set xs"
  by (induction xs) (auto simp: image_iff)

lemma sorted_map_of_eqI:
  assumes "sorted_names xs" "\<And>n e. m n = Some e \<longleftrightarrow> (n, e) \<in> set xs"
  shows "map_of xs = m"
proof (rule ext)
  fix n
  show "map_of xs n = m n"
  proof (cases "m n")
    case None
    then show ?thesis
      using sorted_map_of_iff [OF assms(1), of n] assms(2) [of n] by (cases "map_of xs n") auto
  next
    case (Some e)
    then show ?thesis
      using sorted_map_of_iff [OF assms(1), of n e] assms(2) [of n e] by simp
  qed
qed

lemma sorted_insert_mid:
  assumes "sorted_names (A @ B)" "\<forall>x \<in> set A. fst x < n" "\<forall>x \<in> set B. n < fst x"
  shows "sorted_names (A @ (n, e) # B)" "map_of (A @ (n, e) # B) = (map_of (A @ B))(n \<mapsto> e)"
proof -
  show s: "sorted_names (A @ (n, e) # B)" using assms by auto
  show "map_of (A @ (n, e) # B) = (map_of (A @ B))(n \<mapsto> e)"
    using assms by (intro sorted_map_of_eqI [OF s])
      (auto simp: sorted_map_of_iff simp del: map_of_append split: if_splits)
qed

lemma contents_root:
  "ist_root s = ITE l n e r \<Longrightarrow> contents (state s) = in_left (ist_ltree s) @ inorder l @ (n, e) # inorder r @ in_right (ist_rtree s)"
  by (simp add: contents_def state_def)

lemma splay_list_root:
  "splay_list (s\<lparr>ist_root := t, ist_name := n, ist_ltree := [], ist_rtree := []\<rparr>) = inorder t"
  by (simp add: splay_list_def contents_def state_def)

lemma splay_inv_root:
  "sorted_names (inorder t) \<Longrightarrow> t \<noteq> ITE_NULL \<Longrightarrow> n = ite_name t \<Longrightarrow>
   splay_inv (s\<lparr>ist_root := t, ist_name := n, ist_ltree := [], ist_rtree := []\<rparr>)"
  by (auto simp: splay_inv_def splay_list_def contents_def state_def focused_def bracketed_def)

lemma inorder_Nil_iff [simp]: "inorder t = [] \<longleftrightarrow> t = ITE_NULL"
  by (cases t) auto

lemma resplay_obtain:
  assumes "splay_inv s" "ist_root s \<noteq> ITE_NULL"
  obtains l n e r lt rt where
    "ist_root (resplay name s) = ITE l n e r"
    "ist_ltree (resplay name s) = lt" "ist_rtree (resplay name s) = rt"
    "splay_list s = in_left lt @ inorder l @ (n, e) # inorder r @ in_right rt"
    "sorted_names (splay_list s)"
    "\<forall>x \<in> set (in_left lt). fst x < name" "\<forall>x \<in> set (in_right rt). name < fst x"
    "name = n \<or> name < n \<and> l = ITE_NULL \<or> n < name \<and> r = ITE_NULL"
proof -
  note spec = resplay_spec(1-3) [OF assms, where name = name]
  from spec(3) show thesis
  proof (rule focused_cases)
    fix l n e r
    assume "ist_root (resplay name s) = ITE l n e r"
      and "\<forall>x \<in> set (in_left (ist_ltree (resplay name s))). fst x < name"
      and "\<forall>x \<in> set (in_right (ist_rtree (resplay name s))). name < fst x"
      and "name = n \<or> name < n \<and> l = ITE_NULL \<or> n < name \<and> r = ITE_NULL"
      and "contents (state (resplay name s)) = in_left (ist_ltree (resplay name s)) @ inorder l @
          (n, e) # inorder r @ in_right (ist_rtree (resplay name s))"
    then show thesis
      using that [OF _ refl refl, of l n e r] resplay_spec(4) [OF assms] spec(2) by simp
  qed
qed


text \<open>After splaying for a name the list falls into what is below it, perhaps it, and what is above.\<close>

lemma resplay_below_above:
  assumes "splay_inv s" "ist_root s \<noteq> ITE_NULL"
    "ist_root (resplay name s) = ITE l n e r"
    "ist_ltree (resplay name s) = lt" "ist_rtree (resplay name s) = rt"
  shows "name < n \<Longrightarrow> l = ITE_NULL \<and> splay_list s = in_left lt @ (n, e) # inorder r @ in_right rt \<and>
      (\<forall>x \<in> set ((n, e) # inorder r @ in_right rt). name < fst x)"
    and "n < name \<Longrightarrow> r = ITE_NULL \<and> splay_list s = (in_left lt @ inorder l @ [(n, e)]) @ in_right rt \<and>
      (\<forall>x \<in> set (in_left lt @ inorder l @ [(n, e)]). fst x < name)"
    and "n = name \<Longrightarrow> splay_list s = (in_left lt @ inorder l) @ (n, e) # inorder r @ in_right rt \<and>
      (\<forall>x \<in> set (in_left lt @ inorder l). fst x < name) \<and> (\<forall>x \<in> set (inorder r @ in_right rt). name < fst x)"
    and "(\<forall>x \<in> set (in_left lt). fst x < name) \<and> (\<forall>x \<in> set (in_right rt). name < fst x)"
    and "sorted_names (splay_list s)"
proof -
  have list: "splay_list s = in_left lt @ inorder l @ (n, e) # inorder r @ in_right rt"
    and sorted: "sorted_names (in_left lt @ inorder l @ (n, e) # inorder r @ in_right rt)"
    and br: "\<forall>x \<in> set (in_left lt). fst x < name" "\<forall>x \<in> set (in_right rt). name < fst x"
    and c: "name = n \<or> name < n \<and> l = ITE_NULL \<or> n < name \<and> r = ITE_NULL"
    using resplay_obtain [OF assms(1,2), of name] assms(3-5) by (metis itree.inject)+
  show "name < n \<Longrightarrow> l = ITE_NULL \<and> splay_list s = in_left lt @ (n, e) # inorder r @ in_right rt \<and>
      (\<forall>x \<in> set ((n, e) # inorder r @ in_right rt). name < fst x)"
    using c sorted list by (auto intro: less_trans)
  show "n < name \<Longrightarrow> r = ITE_NULL \<and> splay_list s = (in_left lt @ inorder l @ [(n, e)]) @ in_right rt \<and>
      (\<forall>x \<in> set (in_left lt @ inorder l @ [(n, e)]). fst x < name)"
    using c sorted list br(1) by (auto intro: less_trans)
  show "n = name \<Longrightarrow> splay_list s = (in_left lt @ inorder l) @ (n, e) # inorder r @ in_right rt \<and>
      (\<forall>x \<in> set (in_left lt @ inorder l). fst x < name) \<and> (\<forall>x \<in> set (inorder r @ in_right rt). name < fst x)"
    using sorted list br by auto
  show "(\<forall>x \<in> set (in_left lt). fst x < name) \<and> (\<forall>x \<in> set (in_right rt). name < fst x)"
    using br by blast
  show "sorted_names (splay_list s)" using sorted list by simp
qed


subsection \<open>The operations on the list and on the map of a tree\<close>

lemma lookup_spec:
  assumes "splay_inv s" "ipc_splay_tree_lookup s name = (res, s')"
  shows "res = splay_map s name \<and> splay_inv s' \<and> splay_list s' = splay_list s"
proof (cases "ist_root s = ITE_NULL")
  case True
  then show ?thesis
    using assms by (auto simp: ipc_splay_tree_lookup_def splay_map_def splay_list_def)
next
  case False
  obtain l n e r where root: "ist_root (resplay name s) = ITE l n e r"
    using resplay_spec(1) [OF assms(1) False, where name = name]
    by (cases "ist_root (resplay name s)") auto
  note cut = resplay_below_above [OF assms(1) False root refl refl]
  have "splay_map s name = (if name = n then Some e else None)"
  proof (rule linorder_cases [of name n])
    assume "name < n"
    then show ?thesis
      using cut(1,4) by (auto simp: splay_map_def intro!: map_of_absent)
  next
    assume "n < name"
    then show ?thesis
      using cut(2,4) by (auto simp: splay_map_def intro!: map_of_absent)
  next
    assume "name = n"
    moreover from this have "map_of (splay_list s) name = Some e"
      using cut(3) map_of_mid by metis
    ultimately show ?thesis by (simp add: splay_map_def)
  qed
  moreover have "splay_inv ((resplay name s)\<lparr>ist_name := name\<rparr>)"
    "splay_list ((resplay name s)\<lparr>ist_name := name\<rparr>) = splay_list s"
    using resplay_spec [OF assms(1) False] by (simp_all add: splay_inv_def splay_list_def state_def)
  ultimately show ?thesis
    using assms(2) root False by (auto simp: ipc_splay_tree_lookup_def Let_def)
qed

lemma insert_spec:
  assumes "splay_inv s" "splay_map s name = None"
  shows "splay_inv (ipc_splay_tree_insert s name e) \<and>
    splay_map (ipc_splay_tree_insert s name e) = (splay_map s)(name \<mapsto> e)"
proof (cases "ist_root s = ITE_NULL")
  case True
  then have "splay_list s = []" by (simp add: splay_list_def)
  with True show ?thesis
    by (simp add: ipc_splay_tree_insert_def splay_map_def splay_list_root splay_inv_root)
next
  case False
  obtain l n e' r where root: "ist_root (resplay name s) = ITE l n e' r"
    using resplay_spec(1) [OF assms(1) False, where name = name]
    by (cases "ist_root (resplay name s)") auto
  let ?lt = "in_left (ist_ltree (resplay name s))" and ?rt = "in_right (ist_rtree (resplay name s))"
  note cut = resplay_below_above [OF assms(1) False root refl refl]
  have ne: "n \<noteq> name"
    using assms(2) cut(3) map_of_mid [of "?lt @ inorder l" n e'] by (auto simp: splay_map_def)
  obtain lc rc where ch: "ipc_splay_tree_insert s name e =
      s\<lparr>ist_root := ITE lc name e rc, ist_name := name, ist_ltree := [], ist_rtree := []\<rparr>"
    "splay_list s = inorder lc @ inorder rc"
    "\<forall>x \<in> set (inorder lc). fst x < name" "\<forall>x \<in> set (inorder rc). name < fst x"
  proof (cases "name < n")
    case True
    show ?thesis
      by (rule that [of "plug_left (ist_ltree (resplay name s)) ITE_NULL"
            "plug_right (ist_rtree (resplay name s)) (ITE l n e' r)"])
        (use True False root cut(1) [OF True] cut(4) in \<open>auto simp: ipc_splay_tree_insert_def Let_def\<close>)
  next
    case 2: False
    then have "n < name" using ne by simp
    show ?thesis
      by (rule that [of "plug_left (ist_ltree (resplay name s)) (ITE l n e' r)"
            "plug_right (ist_rtree (resplay name s)) ITE_NULL"])
        (use 2 False root cut(2) [OF \<open>n < name\<close>] cut(4) in \<open>auto simp: ipc_splay_tree_insert_def Let_def\<close>)
  qed
  have "sorted_names (inorder lc @ inorder rc)"
    using cut(5) ch(2) by simp
  from sorted_insert_mid [OF this ch(3,4)]
  show ?thesis
    unfolding ch(1) splay_map_def splay_list_root by (simp add: splay_inv_root ch(2))
qed

lemma ctx_Nil_iff [simp]:
  "plug_left c t = ITE_NULL \<longleftrightarrow> c = [] \<and> t = ITE_NULL" "in_left c = [] \<longleftrightarrow> c = []"
  by (induction c t rule: plug_left.induct) auto

lemma rctx_Nil_iff [simp]:
  "plug_right c t = ITE_NULL \<longleftrightarrow> c = [] \<and> t = ITE_NULL" "in_right c = [] \<longleftrightarrow> c = []"
  by (induction c t rule: plug_right.induct) auto

lemma prim_lookup_extremes:
  assumes "t \<noteq> ITE_NULL" "sorted_names (inorder t)" "ipc_splay_prim_lookup name t = (t', lt, rt)"
  shows "name = MACH_PORT_LARGEST \<Longrightarrow> rt = [] \<and> ite_rchild t' = ITE_NULL"
    and "name = MACH_PORT_SMALLEST \<Longrightarrow> lt = [] \<and> ite_lchild t' = ITE_NULL"
    and "t' \<noteq> ITE_NULL" "in_left lt @ inorder t' @ in_right rt = inorder t"
proof -
  have c: "in_left lt @ inorder t' @ in_right rt = inorder t" and f: "focused name (t', lt, rt)"
    using prim_lookup_spec [OF assms(1,2), of name] assms(3) by (simp_all add: contents_def)
  then obtain l n e r where t': "t' = ITE l n e r"
    by (cases t') (auto simp: focused_def bracketed_def)
  have sorted: "sorted_names (in_left lt @ inorder t' @ in_right rt)"
    using assms(2) c by simp
  have top: "\<not> MACH_PORT_LARGEST < x" "\<not> x < MACH_PORT_SMALLEST" for x
    by (simp_all add: MACH_PORT_LARGEST_def MACH_PORT_SMALLEST_def not_less)
  have "in_right rt = [] \<and> r = ITE_NULL" if "name = MACH_PORT_LARGEST"
    using f sorted top(1) that unfolding t'
    by (cases r; cases "in_right rt") (auto simp: focused_def bracketed_def)
  moreover have "in_left lt = [] \<and> l = ITE_NULL" if "name = MACH_PORT_SMALLEST"
    using f sorted top(2) that unfolding t'
    by (cases l; cases "in_left lt") (auto simp: focused_def bracketed_def)
  ultimately show "name = MACH_PORT_LARGEST \<Longrightarrow> rt = [] \<and> ite_rchild t' = ITE_NULL"
    "name = MACH_PORT_SMALLEST \<Longrightarrow> lt = [] \<and> ite_lchild t' = ITE_NULL"
    by (simp_all add: t')
  show "t' \<noteq> ITE_NULL" "in_left lt @ inorder t' @ in_right rt = inorder t"
    using c t' by simp_all
qed

lemma delete_spec:
  assumes "splay_inv s" "splay_map s name = Some e"
  shows "splay_inv (ipc_splay_tree_delete s name) \<and>
    splay_list (ipc_splay_tree_delete s name) = filter (\<lambda>x. fst x \<noteq> name) (splay_list s)"
proof -
  have nn: "ist_root s \<noteq> ITE_NULL"
    using assms(2) by (auto simp: splay_map_def splay_list_def)
  obtain l n e' r where root: "ist_root (resplay name s) = ITE l n e' r"
    using resplay_spec(1) [OF assms(1) nn, where name = name]
    by (cases "ist_root (resplay name s)") auto
  note cut = resplay_below_above [OF assms(1) nn root refl refl]
  let ?ltree = "plug_left (ist_ltree (resplay name s)) l"
  let ?saved = "plug_right (ist_rtree (resplay name s)) r"
  have n: "n = name"
  proof (rule linorder_cases [of name n])
    assume "name < n"
    then have "map_of (splay_list s) name = None"
      using cut(1,4) by (auto intro!: map_of_absent)
    then show ?thesis using assms(2) by (simp add: splay_map_def)
  next
    assume "n < name"
    then have "map_of (splay_list s) name = None"
      using cut(2,4) by (auto intro!: map_of_absent)
    then show ?thesis using assms(2) by (simp add: splay_map_def)
  qed simp
  have list: "splay_list s = inorder ?ltree @ (name, e') # inorder ?saved"
    and lo: "\<forall>x \<in> set (inorder ?ltree). fst x < name" and hi: "\<forall>x \<in> set (inorder ?saved). name < fst x"
    using cut(3) [OF n] n by (auto simp: Ball_def)
  have "filter (\<lambda>x. fst x \<noteq> name) (inorder ?ltree) = inorder ?ltree"
    using lo by (subst filter_id_conv) blast
  moreover have "filter (\<lambda>x. fst x \<noteq> name) (inorder ?saved) = inorder ?saved"
    using hi by (subst filter_id_conv) blast
  ultimately have filt: "filter (\<lambda>x. fst x \<noteq> name) (splay_list s) = inorder ?ltree @ inorder ?saved"
    by (simp only: list filter_append filter.simps fst_conv) simp
  have sorted: "sorted_names (inorder ?ltree @ inorder ?saved)"
    using cut(5) list by auto
  obtain t where t: "ipc_splay_tree_delete s name =
      (if t \<noteq> ITE_NULL
       then (resplay name s)\<lparr>ist_root := t, ist_name := ite_name t, ist_ltree := [], ist_rtree := []\<rparr>
       else (resplay name s)\<lparr>ist_root := ITE_NULL\<rparr>)"
    and in_t: "inorder t = inorder ?ltree @ inorder ?saved"
  proof (cases "?ltree = ITE_NULL \<or> ?saved = ITE_NULL")
    case True
    then show ?thesis
      by (intro that [of "if ?ltree = ITE_NULL then ?saved else ?ltree"])
         (use root in \<open>auto simp: ipc_splay_tree_delete_def Let_def\<close>)
  next
    case False
    obtain t' lt rt where pl: "ipc_splay_prim_lookup MACH_PORT_LARGEST ?ltree = (t', lt, rt)"
      by (metis prod_cases3)
    have x: "rt = []" "ite_rchild t' = ITE_NULL" "t' \<noteq> ITE_NULL" "in_left lt @ inorder t' = inorder ?ltree"
      using prim_lookup_extremes [OF _ _ pl] False sorted by auto
    then obtain l' n' e'' where t': "t' = ITE l' n' e'' ITE_NULL"
      by (cases t') auto
    let ?t = "ITE (plug_left lt l') n' e'' ?saved"
    show ?thesis
      by (rule that [of ?t])
         (use root False pl x(1,4) t' in \<open>auto simp: ipc_splay_tree_delete_def Let_def ipc_splay_prim_assemble_def\<close>)
  qed
  show ?thesis
  proof (cases "t = ITE_NULL")
    case True
    then show ?thesis
      using t in_t filt by (simp add: splay_inv_def splay_list_def)
  next
    case False
    then show ?thesis
      using t in_t filt sorted by (simp add: splay_list_root splay_inv_root)
  qed
qed

lemma split_list_spec:
  assumes "\<forall>x \<in> set A. fst x < (name :: mach_port_t)" "\<forall>x \<in> set B. name \<le> fst x"
  shows "filter (\<lambda>x. fst x < name) (A @ B) = A" "filter (\<lambda>x. name \<le> fst x) (A @ B) = B"
proof -
  have "filter (\<lambda>x. fst x < name) B = []" "filter (\<lambda>x. name \<le> fst x) A = []"
    using assms by (auto simp: filter_empty_conv)
  moreover have "filter (\<lambda>x. fst x < name) A = A" "filter (\<lambda>x. name \<le> fst x) B = B"
    using assms by (simp_all add: filter_id_conv)
  ultimately show "filter (\<lambda>x. fst x < name) (A @ B) = A" "filter (\<lambda>x. name \<le> fst x) (A @ B) = B"
    by simp_all
qed

lemma split_spec:
  assumes "splay_inv s" "ipc_splay_tree_split s name small0 = (s', small)"
  shows "splay_inv s' \<and> splay_inv small \<and>
    splay_list small = filter (\<lambda>x. fst x < name) (splay_list s) \<and>
    splay_list s' = filter (\<lambda>x. name \<le> fst x) (splay_list s)"
proof (cases "ist_root s = ITE_NULL")
  case True
  then show ?thesis
    using assms by (auto simp: ipc_splay_tree_split_def ipc_splay_tree_init_def splay_inv_def splay_list_def)
next
  case False
  obtain l n e r where root: "ist_root (resplay name s) = ITE l n e r"
    using resplay_spec(1) [OF assms(1) False, where name = name]
    by (cases "ist_root (resplay name s)") auto
  note cut = resplay_below_above [OF assms(1) False root refl refl]
  obtain l0 n0 e0 r0 where root0: "ist_root s = ITE l0 n0 e0 r0"
    using False by (cases "ist_root s") auto
  let ?s = "resplay name s"
  let ?ltree = "plug_left (ist_ltree ?s) l"
  show ?thesis
  proof (cases "n < name")
    case True
    let ?rtree = "plug_right (ist_rtree ?s) ITE_NULL"
    let ?root = "ITE ?ltree n e r"
    have list: "splay_list s = inorder ?root @ inorder ?rtree"
      and lo: "\<forall>x \<in> set (inorder ?root). fst x < name" and hi: "\<forall>x \<in> set (inorder ?rtree). name \<le> fst x"
      using cut(2) [OF True] cut(4) by (auto intro: less_imp_le)
    have sorted: "sorted_names (inorder ?root)" "sorted_names (inorder ?rtree)"
      using cut(5) unfolding list by auto
    have "small = (ipc_splay_tree_init small0)\<lparr>ist_root := ?root, ist_name := ite_name ?root, ist_ltree := [], ist_rtree := []\<rparr>"
      and s': "s' = (if ?rtree \<noteq> ITE_NULL then ?s\<lparr>ist_root := ?rtree, ist_name := ite_name ?rtree, ist_ltree := [], ist_rtree := []\<rparr>
            else ?s\<lparr>ist_root := ITE_NULL\<rparr>)"
      using assms(2) root0 root True by (auto simp: ipc_splay_tree_split_def Let_def)
    then have "splay_inv small \<and> splay_list small = inorder ?root"
      using sorted(1) splay_inv_root [of ?root] splay_list_root [of _ ?root] by blast
    moreover have "splay_inv s' \<and> splay_list s' = inorder ?rtree"
    proof (cases "?rtree = ITE_NULL")
      case True
      then show ?thesis unfolding s' by (simp add: splay_inv_def splay_list_def)
    next
      case False
      then show ?thesis
        using s' sorted(2) splay_inv_root [of ?rtree] splay_list_root [of _ ?rtree] by auto
    qed
    ultimately show ?thesis
      unfolding list split_list_spec [OF lo hi] by blast
  next
    case 2: False
    have l: "n \<noteq> name \<Longrightarrow> l = ITE_NULL" using cut(1) 2 by auto
    let ?B = "(n, e) # inorder r @ in_right (ist_rtree ?s)"
    have list: "splay_list s = inorder ?ltree @ ?B"
      and lo: "\<forall>x \<in> set (inorder ?ltree). fst x < name" and hi: "\<forall>x \<in> set ?B. name \<le> fst x"
    proof -
      consider "n = name" | "name < n" "l = ITE_NULL" using 2 l by fastforce
      then have "splay_list s = inorder ?ltree @ ?B \<and> (\<forall>x \<in> set (inorder ?ltree). fst x < name) \<and>
          (\<forall>x \<in> set ?B. name \<le> fst x)"
      proof cases
        case 1
        then show ?thesis using cut(3) [OF 1] by (auto intro: less_imp_le)
      next
        case 2
        then show ?thesis using cut(1) [OF 2(1)] cut(4) by (auto intro: less_imp_le)
      qed
      then show "splay_list s = inorder ?ltree @ ?B" "\<forall>x \<in> set (inorder ?ltree). fst x < name"
        "\<forall>x \<in> set ?B. name \<le> fst x" by blast+
    qed
    have sorted: "sorted_names (inorder ?ltree)" "sorted_names ?B"
      using cut(5) unfolding list by auto
    have s': "s' = ?s\<lparr>ist_root := ITE ITE_NULL n e r, ist_name := name, ist_ltree := []\<rparr>"
      and sm: "small = (if ?ltree \<noteq> ITE_NULL then (ipc_splay_tree_init small0)\<lparr>ist_root := ?ltree, ist_name := ite_name ?ltree, ist_ltree := [], ist_rtree := []\<rparr>
            else (ipc_splay_tree_init small0)\<lparr>ist_root := ITE_NULL\<rparr>)"
      using assms(2) root0 root 2 by (auto simp: ipc_splay_tree_split_def Let_def)
    have "splay_inv small \<and> splay_list small = inorder ?ltree"
    proof (cases "?ltree = ITE_NULL")
      case True
      then show ?thesis unfolding sm by (simp add: splay_inv_def splay_list_def)
    next
      case False
      then show ?thesis
        using sm sorted(1) splay_inv_root [of ?ltree] splay_list_root [of _ ?ltree] by auto
    qed
    moreover have "splay_list s' = ?B"
      unfolding s' by (simp add: splay_list_def contents_def state_def)
    moreover from this have "splay_inv s'"
      using sorted(2) cut(4) 2
      unfolding splay_inv_def by (auto simp: s' focused_def bracketed_def state_def)
    ultimately show ?thesis
      unfolding list split_list_spec [OF lo hi] by blast
  qed
qed

lemma join_spec:
  assumes "splay_inv s" "splay_inv small"
    and "\<forall>x \<in> set (splay_list small). \<forall>y \<in> set (splay_list s). fst x < fst y"
    and "ipc_splay_tree_join s small = (s', small')"
  shows "splay_inv s' \<and> splay_list s' = splay_list small @ splay_list s \<and> splay_list small' = []"
proof (cases "ist_root small = ITE_NULL")
  case True
  then show ?thesis
    using assms by (auto simp: ipc_splay_tree_join_def splay_list_def)
next
  case False
  let ?sroot = "ipc_splay_prim_assemble (ist_root small) (ist_ltree small) (ist_rtree small)"
  have sroot: "?sroot \<noteq> ITE_NULL" "inorder ?sroot = splay_list small" "sorted_names (splay_list small)"
    using False assms(2) by (simp_all add: assemble_not_null inorder_assemble splay_list_def state_def splay_inv_def)
  obtain t where t: "s' = s\<lparr>ist_root := t, ist_name := ite_name t, ist_ltree := [], ist_rtree := []\<rparr>"
    "small' = small\<lparr>ist_root := ITE_NULL\<rparr>" "inorder t = splay_list small @ splay_list s" "t \<noteq> ITE_NULL"
    "sorted_names (inorder t)"
  proof (cases "ist_root s = ITE_NULL")
    case True
    then show ?thesis
      using False assms(4) sroot
      by (intro that [of ?sroot]) (auto simp: ipc_splay_tree_join_def Let_def splay_list_def)
  next
    case 2: False
    obtain l n e r where root: "ist_root (resplay MACH_PORT_SMALLEST s) = ITE l n e r"
      using resplay_spec(1) [OF assms(1) 2, where name = MACH_PORT_SMALLEST]
      by (cases "ist_root (resplay MACH_PORT_SMALLEST s)") auto
    note cut = resplay_below_above [OF assms(1) 2 root refl refl]
    let ?s = "resplay MACH_PORT_SMALLEST s"
    have none: "\<not> x < MACH_PORT_SMALLEST" for x by (simp add: MACH_PORT_SMALLEST_def)
    have "in_left (ist_ltree ?s) = []" using cut(4) none by (cases "in_left (ist_ltree ?s)") auto
    moreover have "l = ITE_NULL"
    proof (cases "n = MACH_PORT_SMALLEST")
      case True
      then have "inorder l = []" using cut(3) [OF True] none by (cases "inorder l") auto
      then show ?thesis by simp
    next
      case False
      then show ?thesis using cut(1) none [of n] by auto
    qed
    ultimately have "splay_list s = (n, e) # inorder r @ in_right (ist_rtree ?s)"
      using resplay_spec(2) [OF assms(1) 2, of MACH_PORT_SMALLEST] root by (simp add: contents_def state_def)
    then show ?thesis
      using False 2 assms(3,4) sroot root cut(5)
      by (intro that [of "ITE ?sroot n e (plug_right (ist_rtree ?s) r)"])
         (auto simp: ipc_splay_tree_join_def Let_def ipc_splay_prim_assemble_def)
  qed
  show ?thesis
    using t by (auto simp: splay_list_root splay_inv_root) (simp add: splay_list_def)
qed

text \<open>What \<open>bounds\<close> returns: the nearest names on each side.\<close>

lemma last_in_left: "in_left ((l, n, e) # c) = xs \<Longrightarrow> xs \<noteq> [] \<and> fst (last xs) = n"
  by auto

definition lower_name :: "mach_port_t set \<Rightarrow> mach_port_t" where
  "lower_name N = (if N = {} then MACH_PORT_LARGEST else Max N)"

definition upper_name :: "mach_port_t set \<Rightarrow> mach_port_t" where
  "upper_name N = (if N = {} then MACH_PORT_SMALLEST else Min N)"

lemma greatest_name:
  fixes name :: mach_port_t
  assumes "sorted_names (A @ (n, e) # B)" "n \<le> name" "\<forall>x \<in> set B. name < fst x"
  shows "lower_name {m \<in> fst ` set (A @ (n, e) # B). m \<le> name} = n"
proof -
  have "{m \<in> fst ` set (A @ (n, e) # B). m \<le> name} = insert n (fst ` set A)"
    using assms by (auto simp: not_le [symmetric])
  moreover have "Max (insert n (fst ` set A)) = n"
    using assms(1) by (intro Max_eqI) (auto intro: less_imp_le)
  ultimately show ?thesis by (simp add: lower_name_def)
qed

lemma least_name:
  fixes name :: mach_port_t
  assumes "sorted_names (A @ (n, e) # B)" "name \<le> n" "\<forall>x \<in> set A. fst x < name"
  shows "upper_name {m \<in> fst ` set (A @ (n, e) # B). name \<le> m} = n"
proof -
  have "{m \<in> fst ` set (A @ (n, e) # B). name \<le> m} = insert n (fst ` set B)"
    using assms by (auto simp: not_le [symmetric])
  moreover have "Min (insert n (fst ` set B)) = n"
    using assms(1) by (intro Min_eqI) (auto intro: less_imp_le)
  ultimately show ?thesis by (simp add: upper_name_def)
qed

lemma bounds_spec:
  assumes "splay_inv s" "ipc_splay_tree_bounds s name = (lower, upper, s')"
  shows "lower = lower_name {n \<in> dom (splay_map s). n \<le> name} \<and>
    upper = upper_name {n \<in> dom (splay_map s). name \<le> n} \<and>
    splay_inv s' \<and> splay_list s' = splay_list s"
proof (cases "ist_root s = ITE_NULL")
  case True
  then show ?thesis
    using assms by (auto simp: ipc_splay_tree_bounds_def splay_map_def splay_list_def lower_name_def upper_name_def)
next
  case False
  obtain l n e r where root: "ist_root (resplay name s) = ITE l n e r"
    using resplay_spec(1) [OF assms(1) False, where name = name]
    by (cases "ist_root (resplay name s)") auto
  let ?lt = "ist_ltree (resplay name s)" and ?rt = "ist_rtree (resplay name s)"
  let ?N = "fst ` set (splay_list s)"
  note cut = resplay_below_above [OF assms(1) False root refl refl]
  have list: "splay_list s = (in_left ?lt @ inorder l) @ (n, e) # (inorder r @ in_right ?rt)"
    using resplay_spec(2) [OF assms(1) False, where name = name] root by (simp add: contents_def state_def)
  have dom: "dom (splay_map s) = ?N"
    by (simp add: splay_map_def dom_map_of_conv_image_fst)
  have inv: "splay_inv ((resplay name s)\<lparr>ist_name := name\<rparr>) \<and>
      splay_list ((resplay name s)\<lparr>ist_name := name\<rparr>) = splay_list s"
    using resplay_spec [OF assms(1) False] by (simp add: splay_inv_def splay_list_def state_def)
  have lower: "lower_name {m \<in> ?N. m \<le> name} =
      (if n \<le> name then n else case ?lt of [] \<Rightarrow> MACH_PORT_LARGEST | (_, m, _) # _ \<Rightarrow> m)"
  proof (cases "n \<le> name")
    case True
    then have "\<forall>x \<in> set (inorder r @ in_right ?rt). name < fst x"
      using cut(2,3,4) by (cases "n = name") auto
    then show ?thesis
      using True greatest_name [OF cut(5) [unfolded list] True] by (simp add: list)
  next
    case 2: False
    then have hi: "\<forall>x \<in> set ((n, e) # inorder r @ in_right ?rt). name < fst x" and l: "l = ITE_NULL"
      using cut(1) by auto
    show ?thesis
    proof (cases ?lt)
      case Nil
      then have "{m \<in> ?N. m \<le> name} = {}"
        using hi unfolding list l by (auto simp: not_le [symmetric])
      then show ?thesis using 2 Nil by (simp add: lower_name_def)
    next
      case (Cons x c)
      obtain l1 n1 e1 where x: "x = (l1, n1, e1)" by (cases x) auto
      have list': "splay_list s = (in_left c @ inorder l1) @ (n1, e1) # ((n, e) # inorder r @ in_right ?rt)"
        using list by (simp add: l Cons x)
      have "n1 \<le> name" using cut(4) by (auto simp: Cons x)
      from greatest_name [OF cut(5) [unfolded list'] this hi] show ?thesis
        unfolding list' using 2 by (simp add: Cons x)
    qed
  qed
  have upper: "upper_name {m \<in> ?N. name \<le> m} =
      (if name \<le> n then n else case ?rt of [] \<Rightarrow> MACH_PORT_SMALLEST | (m, _, _) # _ \<Rightarrow> m)"
  proof (cases "name \<le> n")
    case True
    then have "\<forall>x \<in> set (in_left ?lt @ inorder l). fst x < name"
      using cut(1,3,4) by (cases "n = name") auto
    then show ?thesis
      using True least_name [OF cut(5) [unfolded list] True] by (simp add: list)
  next
    case 2: False
    then have lo: "\<forall>x \<in> set (in_left ?lt @ inorder l @ [(n, e)]). fst x < name" and r: "r = ITE_NULL"
      using cut(2) by auto
    show ?thesis
    proof (cases ?rt)
      case Nil
      then have "{m \<in> ?N. name \<le> m} = {}"
        using lo unfolding list r by (auto simp: not_le [symmetric])
      then show ?thesis using 2 Nil by (simp add: upper_name_def)
    next
      case (Cons x c)
      obtain n1 e1 r1 where x: "x = (n1, e1, r1)" by (cases x) auto
      have list': "splay_list s = (in_left ?lt @ inorder l @ [(n, e)]) @ (n1, e1) # (inorder r1 @ in_right c)"
        using list by (simp add: r Cons x)
      have "name \<le> n1" using cut(4) by (auto simp: Cons x)
      from least_name [OF cut(5) [unfolded list'] this lo] show ?thesis
        unfolding list' using 2 by (simp add: Cons x)
    qed
  qed
  show ?thesis
    using assms(2) False root inv by (auto simp: ipc_splay_tree_bounds_def Let_def lower upper dom)
qed

subsection \<open>Storing through an entry pointer\<close>

text \<open>
  The code changes an entry in place, through the pointer that lookup returned.  In the
  model this is a store at the node of that name, wherever it is in the structure.
\<close>

fun itree_store :: "mach_port_t \<Rightarrow> 'e \<Rightarrow> 'e itree \<Rightarrow> 'e itree" where
  "itree_store name entry ITE_NULL = ITE_NULL"
| "itree_store name entry (ITE l n e r) =
     ITE (itree_store name entry l) n (if n = name then entry else e) (itree_store name entry r)"

definition splay_store :: "'e ipc_splay_tree \<Rightarrow> mach_port_t \<Rightarrow> 'e \<Rightarrow> 'e ipc_splay_tree" where
  "splay_store splay name entry =
     splay\<lparr>ist_root := itree_store name entry (ist_root splay),
       ist_ltree := map (\<lambda>(l, n, e). (itree_store name entry l, n, if n = name then entry else e)) (ist_ltree splay),
       ist_rtree := map (\<lambda>(n, e, r). (n, if n = name then entry else e, itree_store name entry r)) (ist_rtree splay)\<rparr>"

definition list_store :: "mach_port_t \<Rightarrow> 'e \<Rightarrow> (mach_port_t \<times> 'e) list \<Rightarrow> (mach_port_t \<times> 'e) list" where
  "list_store name entry = map (\<lambda>(n, e). (n, if n = name then entry else e))"

lemma list_store_simps [simp]:
  "list_store name entry [] = []"
  "list_store name entry ((n, e) # xs) = (n, if n = name then entry else e) # list_store name entry xs"
  "list_store name entry (xs @ ys) = list_store name entry xs @ list_store name entry ys"
  by (simp_all add: list_store_def)

lemma fst_list_store [simp]: "fst ` set (list_store name entry xs) = fst ` set xs"
  by (force simp: list_store_def image_iff split: prod.splits)

lemma ball_list_store:
  "(\<forall>x \<in> set (list_store name entry xs). fst x < n) \<longleftrightarrow> (\<forall>x \<in> set xs. fst x < n)"
  "(\<forall>x \<in> set (list_store name entry xs). n < fst x) \<longleftrightarrow> (\<forall>x \<in> set xs. n < fst x)"
  by (auto simp: list_store_def)

lemma sorted_list_store [simp]: "sorted_names (list_store name entry xs) \<longleftrightarrow> sorted_names xs"
  by (simp add: sorted_names_def list_store_def o_def case_prod_unfold)

lemma map_of_list_store:
  "map_of (list_store name entry xs) = (\<lambda>n. if n = name \<and> map_of xs n \<noteq> None then Some entry else map_of xs n)"
  by (induction xs) (auto simp: fun_eq_iff)

lemma inorder_store [simp]: "inorder (itree_store name entry t) = list_store name entry (inorder t)"
  by (induction t) auto

lemma store_Nil_iff [simp]: "itree_store name entry t = ITE_NULL \<longleftrightarrow> t = ITE_NULL"
  by (cases t) auto

lemma in_left_store [simp]:
  "in_left (map (\<lambda>(l, n, e). (itree_store name entry l, n, if n = name then entry else e)) c) =
   list_store name entry (in_left c)"
  by (induction c rule: in_left.induct) auto

lemma in_right_store [simp]:
  "in_right (map (\<lambda>(n, e, r). (n, if n = name then entry else e, itree_store name entry r)) c) =
   list_store name entry (in_right c)"
  by (induction c rule: in_right.induct) auto

lemma store_spec:
  assumes "splay_inv s"
  shows "splay_inv (splay_store s name entry) \<and>
    splay_map (splay_store s name entry) =
      (\<lambda>n. if n = name \<and> splay_map s n \<noteq> None then Some entry else splay_map s n)"
proof -
  have list: "splay_list (splay_store s name entry) = list_store name entry (splay_list s)"
    by (simp add: splay_list_def splay_store_def state_def contents_def)
  have "focused (ist_name s) (state s) \<Longrightarrow> focused (ist_name s) (state (splay_store s name entry))"
    by (cases "ist_root s") (simp_all add: focused_def bracketed_def state_def splay_store_def ball_list_store)
  moreover have "ist_root (splay_store s name entry) = ITE_NULL \<longleftrightarrow> ist_root s = ITE_NULL"
    "ist_name (splay_store s name entry) = ist_name s"
    by (simp_all add: splay_store_def)
  ultimately have "splay_inv (splay_store s name entry)"
    using assms by (simp add: splay_inv_def list)
  then show ?thesis unfolding splay_map_def list map_of_list_store by simp
qed

subsection \<open>The interface of a name map\<close>

text \<open>
  What \<open>ipc_entry.c\<close> relies on: a collection of entries by name that is looked up
  (which may reorganise it), inserted into at an absent name, deleted from at a present
  one, stored to at a present one; and, for the clients that move a range of names
  between two collections, split at a name and joined again.
\<close>

locale name_map =
  fixes inv :: "'s \<Rightarrow> bool"
    and names :: "'s \<Rightarrow> mach_port_t \<rightharpoonup> 'e"
    and lookup :: "'s \<Rightarrow> mach_port_t \<Rightarrow> 'e option \<times> 's"
    and insert :: "'s \<Rightarrow> mach_port_t \<Rightarrow> 'e \<Rightarrow> 's"
    and delete :: "'s \<Rightarrow> mach_port_t \<Rightarrow> 's"
    and store :: "'s \<Rightarrow> mach_port_t \<Rightarrow> 'e \<Rightarrow> 's"
  assumes lookup_law: "inv s \<Longrightarrow> lookup s n = (res, s') \<Longrightarrow> res = names s n \<and> inv s' \<and> names s' = names s"
    and insert_law: "inv s \<Longrightarrow> names s n = None \<Longrightarrow> inv (insert s n e) \<and> names (insert s n e) = (names s)(n \<mapsto> e)"
    and delete_law: "inv s \<Longrightarrow> names s n \<noteq> None \<Longrightarrow> inv (delete s n) \<and> names (delete s n) = (names s)(n := None)"
    and store_law: "inv s \<Longrightarrow> names s n \<noteq> None \<Longrightarrow> inv (store s n e) \<and> names (store s n e) = (names s)(n \<mapsto> e)"
begin

lemma lookup_fst: "inv s \<Longrightarrow> fst (lookup s n) = names s n"
  using lookup_law [of s n] by (cases "lookup s n") simp

lemma lookup_snd: "inv s \<Longrightarrow> inv (snd (lookup s n)) \<and> names (snd (lookup s n)) = names s"
  using lookup_law [of s n] by (cases "lookup s n") simp

text \<open>A request that the map serves, and the answer of the plain map to it.\<close>

lemma insert_lookup:
  "inv s \<Longrightarrow> names s n = None \<Longrightarrow> fst (lookup (insert s n e) m) = (if m = n then Some e else fst (lookup s m))"
  using insert_law [of s n e] by (simp add: lookup_fst)

lemma delete_lookup:
  "inv s \<Longrightarrow> names s n \<noteq> None \<Longrightarrow> fst (lookup (delete s n) m) = (if m = n then None else fst (lookup s m))"
  using delete_law [of s n] by (simp add: lookup_fst)

lemma store_lookup:
  "inv s \<Longrightarrow> names s n \<noteq> None \<Longrightarrow> fst (lookup (store s n e) m) = (if m = n then Some e else fst (lookup s m))"
  using store_law [of s n e] by (simp add: lookup_fst)

lemma insert_delete:
  "inv s \<Longrightarrow> names s n = None \<Longrightarrow> names (delete (insert s n e) n) = names s"
  using insert_law [of s n e] delete_law [of "insert s n e" n] by (auto simp: fun_eq_iff)

end

locale range_map = name_map inv names lookup insert delete store
  for inv :: "'s \<Rightarrow> bool"
    and names :: "'s \<Rightarrow> mach_port_t \<rightharpoonup> 'e"
    and lookup :: "'s \<Rightarrow> mach_port_t \<Rightarrow> 'e option \<times> 's"
    and insert :: "'s \<Rightarrow> mach_port_t \<Rightarrow> 'e \<Rightarrow> 's"
    and delete :: "'s \<Rightarrow> mach_port_t \<Rightarrow> 's"
    and store :: "'s \<Rightarrow> mach_port_t \<Rightarrow> 'e \<Rightarrow> 's" +
  fixes split :: "'s \<Rightarrow> mach_port_t \<Rightarrow> 's \<Rightarrow> 's \<times> 's"
    and join :: "'s \<Rightarrow> 's \<Rightarrow> 's \<times> 's"
  assumes split_law: "inv s \<Longrightarrow> split s n u = (hi, lo) \<Longrightarrow>
      inv hi \<and> inv lo \<and> names hi = names s |` {n..} \<and> names lo = names s |` {..<n}"
    and join_law: "inv hi \<Longrightarrow> inv lo \<Longrightarrow> (\<And>l h. names lo l \<noteq> None \<Longrightarrow> names hi h \<noteq> None \<Longrightarrow> l < h) \<Longrightarrow>
      join hi lo = (s, e) \<Longrightarrow> inv s \<and> names s = names hi ++ names lo \<and> inv e \<and> names e = Map.empty"
begin

text \<open>Cutting a range off and putting it back loses nothing.\<close>

lemma split_join:
  assumes "inv s" "split s n u = (hi, lo)" "join hi lo = (s', e)"
  shows "inv s' \<and> names s' = names s \<and> names e = Map.empty"
proof -
  note sp = split_law [OF assms(1,2)]
  have "inv s' \<and> names s' = names hi ++ names lo \<and> inv e \<and> names e = Map.empty"
    using sp by (intro join_law [OF _ _ _ assms(3)]) (auto simp: restrict_map_def split: if_splits)
  moreover have "names hi ++ names lo = names s"
    using sp by (auto simp: fun_eq_iff restrict_map_def map_add_def split: option.splits)
  ultimately show ?thesis by simp
qed

text \<open>After a split an insertion on one side is not seen on the other.\<close>

lemma split_insert_frame:
  assumes "inv s" "split s n u = (hi, lo)" "m < n" "names s m = None" "n \<le> k"
  shows "fst (lookup (insert lo m e) k) = None"
  using split_law [OF assms(1,2)] insert_law [of lo m e] assms(3-5)
  by (auto simp: lookup_fst restrict_map_def)

end

subsection \<open>The splay tree is a name map\<close>

lemma splay_list_empty_iff: "splay_list s = [] \<longleftrightarrow> ist_root s = ITE_NULL"
  by (cases "ist_root s") (auto simp: splay_list_def contents_def state_def)

lemma splay_map_filter:
  assumes "splay_inv s"
  shows "map_of (filter (\<lambda>x. P (fst x)) (splay_list s)) = splay_map s |` {n. P n}"
proof -
  have "map_of (filter (\<lambda>x. P (fst x)) xs) = map_of xs |` {n. P n}" for xs :: "(mach_port_t \<times> 'a) list"
    by (induction xs) (auto simp: fun_eq_iff restrict_map_def)
  then show ?thesis by (simp add: splay_map_def)
qed

lemma splay_map_dom: "dom (splay_map s) = fst ` set (splay_list s)"
  by (simp add: splay_map_def dom_map_of_conv_image_fst)

lemma split_map_law:
  assumes "splay_inv s" "ipc_splay_tree_split s n u = (hi, lo)"
  shows "splay_inv hi \<and> splay_inv lo \<and> splay_map hi = splay_map s |` {n..} \<and> splay_map lo = splay_map s |` {..<n}"
  using split_spec [OF assms] splay_map_filter [OF assms(1), where P = "\<lambda>m. m < n"]
    splay_map_filter [OF assms(1), where P = "\<lambda>m. n \<le> m"]
  by (simp add: splay_map_def [of hi] splay_map_def [of lo] atLeast_def lessThan_def)

lemma join_map_law:
  assumes "splay_inv hi" "splay_inv lo"
    and "\<And>l h. splay_map lo l \<noteq> None \<Longrightarrow> splay_map hi h \<noteq> None \<Longrightarrow> l < h"
    and "ipc_splay_tree_join hi lo = (s, e)"
  shows "splay_inv s \<and> splay_map s = splay_map hi ++ splay_map lo \<and> splay_inv e \<and> splay_map e = Map.empty"
proof -
  have "\<forall>x \<in> set (splay_list lo). \<forall>y \<in> set (splay_list hi). fst x < fst y"
    using assms(3) splay_map_dom [of lo] splay_map_dom [of hi] by (auto simp: dom_def set_eq_iff image_iff)
  from join_spec [OF assms(1,2) this assms(4)] have "splay_inv s" "splay_list s = splay_list lo @ splay_list hi"
    "splay_list e = []" by blast+
  moreover have "splay_inv e"
    using \<open>splay_list e = []\<close> by (simp add: splay_inv_def splay_list_empty_iff)
  ultimately show ?thesis by (simp add: splay_map_def)
qed

lemma lookup_map_law:
  assumes "splay_inv s" "ipc_splay_tree_lookup s n = (res, s')"
  shows "res = splay_map s n \<and> splay_inv s' \<and> splay_map s' = splay_map s"
  using lookup_spec [OF assms] by (simp add: splay_map_def)

lemma delete_map_law:
  assumes "splay_inv s" "splay_map s n \<noteq> None"
  shows "splay_inv (ipc_splay_tree_delete s n) \<and>
    splay_map (ipc_splay_tree_delete s n) = (splay_map s)(n := None)"
proof -
  obtain e where "splay_map s n = Some e" using assms(2) by auto
  from delete_spec [OF assms(1) this] splay_map_filter [OF assms(1), where P = "\<lambda>m. m \<noteq> n"]
  show ?thesis
    by (simp add: splay_map_def [of "ipc_splay_tree_delete s n"] fun_eq_iff restrict_map_def)
qed

lemma store_map_law:
  assumes "splay_inv s" "splay_map s n \<noteq> None"
  shows "splay_inv (splay_store s n e) \<and> splay_map (splay_store s n e) = (splay_map s)(n \<mapsto> e)"
  using store_spec [OF assms(1), of n e] assms(2) by (auto simp: fun_eq_iff)

interpretation splay: range_map splay_inv splay_map ipc_splay_tree_lookup ipc_splay_tree_insert
  ipc_splay_tree_delete splay_store ipc_splay_tree_split ipc_splay_tree_join
  by unfold_locales (fact lookup_map_law insert_spec delete_map_law store_map_law split_map_law join_map_law)+

lemmas splay_map_laws = splay.lookup_fst splay.lookup_snd splay.insert_law splay.delete_law splay.store_law

lemma bounds_cases:
  fixes D :: "mach_port_t set"
  assumes "finite D" "MACH_PORT_SMALLEST \<notin> D" "MACH_PORT_LARGEST \<notin> D"
    and "lower = lower_name {m \<in> D. m \<le> n}" "upper = upper_name {m \<in> D. n \<le> m}"
  shows "lower = upper \<longleftrightarrow> n \<in> D"
    and "lower = MACH_PORT_LARGEST \<and> upper = MACH_PORT_SMALLEST \<longleftrightarrow> D = {}"
    and "lower \<noteq> MACH_PORT_LARGEST \<Longrightarrow> upper \<noteq> MACH_PORT_SMALLEST \<Longrightarrow>
      lower \<le> n \<and> n \<le> upper \<and> (\<forall>m \<in> D. m \<le> lower \<or> upper \<le> m)"
proof -
  let ?L = "{m \<in> D. m \<le> n}" and ?U = "{m \<in> D. n \<le> m}"
  have fin: "finite ?L" "finite ?U" using assms(1) by auto
  have ends: "MACH_PORT_LARGEST \<noteq> MACH_PORT_SMALLEST"
    by (simp add: MACH_PORT_LARGEST_def MACH_PORT_SMALLEST_def)
  have l: "?L = {} \<and> lower = MACH_PORT_LARGEST \<or> lower \<in> ?L \<and> (\<forall>m \<in> ?L. m \<le> lower)"
    using assms(4) fin(1) by (auto simp: lower_name_def simp del: mem_Collect_eq intro!: Max_in Max_ge)
  have u: "?U = {} \<and> upper = MACH_PORT_SMALLEST \<or> upper \<in> ?U \<and> (\<forall>m \<in> ?U. upper \<le> m)"
    using assms(5) fin(2) by (auto simp: upper_name_def simp del: mem_Collect_eq intro!: Min_in Min_le)
  show "lower = upper \<longleftrightarrow> n \<in> D"
  proof
    assume "lower = upper" then show "n \<in> D" using l u ends assms(2,3) by fastforce
  next
    assume "n \<in> D" then show "lower = upper" using l u by fastforce
  qed
  show "lower = MACH_PORT_LARGEST \<and> upper = MACH_PORT_SMALLEST \<longleftrightarrow> D = {}"
    using l u assms(2,3) by (auto dest: linear [of _ n, THEN disjE])  (metis (mono_tags, lifting) empty_iff linear mem_Collect_eq)+
  show "lower \<noteq> MACH_PORT_LARGEST \<Longrightarrow> upper \<noteq> MACH_PORT_SMALLEST \<Longrightarrow>
      lower \<le> n \<and> n \<le> upper \<and> (\<forall>m \<in> D. m \<le> lower \<or> upper \<le> m)"
    using l u linear [of _ n] by auto
qed

subsection \<open>Properties\<close>

text \<open>The tree of the witnesses: three names, inserted out of order.\<close>

definition tree3 :: "nat ipc_splay_tree" where
  "tree3 = ipc_splay_tree_insert (ipc_splay_tree_insert (ipc_splay_tree_insert
     (ipc_splay_tree_init \<lparr>ist_name = 0, ist_root = ITE_NULL, ist_ltree = [], ist_rtree = []\<rparr>)
     0x100 1) 0x300 3) 0x200 2"

text \<open>\<open>ipc_splay_tree_lookup\<close> returns the entry stored under the name, null when there is none,
  changes no entry, and leaves the tree ready for the next operation.\<close>

theorem splay_lookup_exact:
  assumes "splay_inv s"
  shows "fst (ipc_splay_tree_lookup s n) = splay_map s n \<and>
    splay_inv (snd (ipc_splay_tree_lookup s n)) \<and>
    splay_list (snd (ipc_splay_tree_lookup s n)) = splay_list s"
  using lookup_spec [OF assms, of n] by (cases "ipc_splay_tree_lookup s n") simp

theorem splay_lookup_exact_witness:
  "fst (ipc_splay_tree_lookup tree3 0x100) = Some 1 \<and> fst (ipc_splay_tree_lookup tree3 0x180) = None"
proof -
  have "splay_inv tree3" "splay_map tree3 0x100 = Some 1" "splay_map tree3 0x180 = None" by code_simp+
  with splay_lookup_exact [of tree3] show ?thesis by simp
qed

text \<open>C26: inserting an absent name and deleting a present one change the tree's map at that name only;
  every other name looks up as before.\<close>

theorem splay_insert_delete_exact:
  assumes "splay_inv s"
  shows "(splay_map s n = None \<longrightarrow> splay_inv (ipc_splay_tree_insert s n e) \<and>
      splay_map (ipc_splay_tree_insert s n e) = (splay_map s)(n \<mapsto> e) \<and>
      fst (ipc_splay_tree_lookup (ipc_splay_tree_insert s n e) m) =
        (if m = n then Some e else fst (ipc_splay_tree_lookup s m))) \<and>
    (splay_map s n \<noteq> None \<longrightarrow> splay_inv (ipc_splay_tree_delete s n) \<and>
      splay_map (ipc_splay_tree_delete s n) = (splay_map s)(n := None) \<and>
      fst (ipc_splay_tree_lookup (ipc_splay_tree_delete s n) m) =
        (if m = n then None else fst (ipc_splay_tree_lookup s m)))"
  using splay.insert_law [OF assms, of n e] splay.delete_law [OF assms, of n]
    splay.insert_lookup [OF assms, of n e m] splay.delete_lookup [OF assms, of n m] by argo

theorem splay_insert_delete_exact_witness:
  "fst (ipc_splay_tree_lookup (ipc_splay_tree_insert tree3 0x280 4) 0x280) = Some 4 \<and>
   fst (ipc_splay_tree_lookup (ipc_splay_tree_delete tree3 0x200) 0x200) = None"
proof -
  have "splay_inv tree3" "splay_map tree3 0x280 = None" "splay_map tree3 0x200 \<noteq> None" by code_simp+
  with splay_insert_delete_exact [of tree3 "0x280" 4 "0x280"]
    splay_insert_delete_exact [of tree3 "0x200" 4 "0x200"] show ?thesis by simp
qed

text \<open>\<open>ipc_splay_tree_split\<close> moves exactly the names below the given one into the small tree,
  and \<open>ipc_splay_tree_join\<close> of the two parts restores the list of entries and empties
  the small tree.\<close>

theorem splay_split_join:
  assumes "splay_inv s" "ipc_splay_tree_split s n u = (hi, lo)" "ipc_splay_tree_join hi lo = (s', e)"
  shows "splay_list lo = filter (\<lambda>x. fst x < n) (splay_list s) \<and>
    splay_list hi = filter (\<lambda>x. n \<le> fst x) (splay_list s) \<and>
    splay_inv lo \<and> splay_inv hi \<and> splay_inv s' \<and> splay_map s' = splay_map s \<and> splay_list e = []"
  using split_spec [OF assms(1,2)] splay.split_join [OF assms]
  by (auto simp: splay_map_def)

theorem splay_split_join_witness:
  "\<exists>hi lo s' e. ipc_splay_tree_split tree3 0x200 tree3 = (hi, lo) \<and> ipc_splay_tree_join hi lo = (s', e) \<and>
     splay_list lo = [(0x100, 1)] \<and> splay_map s' = splay_map tree3"
proof -
  obtain hi lo where sp: "ipc_splay_tree_split tree3 0x200 tree3 = (hi, lo)" by fastforce
  obtain s' e where jo: "ipc_splay_tree_join hi lo = (s', e)" by fastforce
  have "splay_inv tree3" "filter (\<lambda>x. fst x < 0x200) (splay_list tree3) = [(0x100, 1)]" by code_simp+
  with splay_split_join [OF _ sp jo] show ?thesis using sp jo by auto
qed

text \<open>\<open>ipc_splay_tree_bounds\<close> returns the largest name of the tree not above the given one, all ones
  when there is none, and the smallest not below it, zero when there is none.  In a tree without
  the names zero and all ones its results tell the cases of its comment apart: equal when the name is
  present, one of the two extremes when a side is empty, otherwise tight bounds.\<close>

theorem splay_bounds_exact:
  assumes "splay_inv s" "ipc_splay_tree_bounds s n = (lower, upper, s')"
  shows "lower = lower_name {m \<in> dom (splay_map s). m \<le> n} \<and>
    upper = upper_name {m \<in> dom (splay_map s). n \<le> m} \<and>
    splay_inv s' \<and> splay_list s' = splay_list s \<and>
    (MACH_PORT_SMALLEST \<notin> dom (splay_map s) \<longrightarrow> MACH_PORT_LARGEST \<notin> dom (splay_map s) \<longrightarrow>
      (lower = upper \<longleftrightarrow> n \<in> dom (splay_map s)) \<and>
      (lower = MACH_PORT_LARGEST \<and> upper = MACH_PORT_SMALLEST \<longleftrightarrow> splay_map s = Map.empty) \<and>
      (lower \<noteq> MACH_PORT_LARGEST \<longrightarrow> upper \<noteq> MACH_PORT_SMALLEST \<longrightarrow> lower \<le> n \<and> n \<le> upper \<and>
        (\<forall>m \<in> dom (splay_map s). m \<le> lower \<or> upper \<le> m)))"
proof -
  let ?D = "dom (splay_map s)"
  have b: "lower = lower_name {m \<in> ?D. m \<le> n}" "upper = upper_name {m \<in> ?D. n \<le> m}"
    "splay_inv s'" "splay_list s' = splay_list s"
    using bounds_spec [OF assms] by simp_all
  have fin: "finite ?D" by (simp add: splay_map_def finite_dom_map_of)
  have empty: "splay_map s = Map.empty \<longleftrightarrow> ?D = {}" by simp
  show ?thesis
    using bounds_cases [OF fin _ _ b(1,2)] b unfolding empty by blast
qed

theorem splay_bounds_exact_witness:
  "\<exists>s'. ipc_splay_tree_bounds tree3 0x180 = (0x100, 0x200, s') \<and> splay_inv s' \<and>
     splay_list s' = splay_list tree3 \<and> 0x100 = lower_name {m \<in> dom (splay_map tree3). m \<le> 0x180}"
proof -
  obtain l u s' where b: "ipc_splay_tree_bounds tree3 0x180 = (l, u, s')" by (metis prod_cases3)
  have "splay_inv tree3" "fst (ipc_splay_tree_bounds tree3 0x180) = 0x100"
    "fst (snd (ipc_splay_tree_bounds tree3 0x180)) = 0x200" by code_simp+
  with splay_bounds_exact [OF _ b] b show ?thesis by simp
qed

end
