(* ===== verification/Ipc_Traverse.thy ===== *)
theory Ipc_Traverse
  imports Ipc_Splay
begin

section \<open>Traversing and pruning the splay tree\<close>

text \<open>
  \<open>ipc_splay_traverse_start\<close>, \<open>ipc_splay_traverse_next\<close> and
  \<open>ipc_splay_traverse_finish\<close> of \<open>ipc/ipc_splay.c\<close> walk the tree in symmetric order
  without a stack: on the way down the field of a node that pointed to the child
  points to the parent instead.  The path up is the list of these nodes, the parent of
  the current node first, each with its other child; the constructor says which field
  holds the link.  The code keeps no such mark: coming back it compares names to
  decide which field to restore.  When it would take a child for the link the model
  returns \<open>None\<close>.  During the traversal \<open>ist_ltree\<close> is the current node and
  \<open>ist_rtree\<close> its parent.
\<close>

datatype 'e frame =
    LLink mach_port_t 'e "'e itree"
  | RLink "'e itree" mach_port_t 'e

datatype 'e traversal =
    Visiting "'e itree" "'e frame list"
  | Ended "'e itree"

fun frame_name :: "'e frame \<Rightarrow> mach_port_t" where
  "frame_name (LLink n e r) = n"
| "frame_name (RLink l n e) = n"

text \<open>The labels of \<open>ipc_splay_traverse_next\<close>.\<close>

fun traverse_left :: "'e itree \<Rightarrow> 'e frame list \<Rightarrow> 'e traversal" where
  "traverse_left (ITE l n e r) parent =
     (if l \<noteq> ITE_NULL then traverse_left l (LLink n e r # parent) else Visiting (ITE l n e r) parent)"
| "traverse_left ITE_NULL parent = Visiting ITE_NULL parent"

fun traverse_back :: "'e itree \<Rightarrow> 'e frame list \<Rightarrow> 'e traversal option" where
  "traverse_back current [] = Some (Ended current)"
| "traverse_back current (f # parent) =
     (if ite_name current < frame_name f
      then (case f of LLink n e r \<Rightarrow> Some (Visiting (ITE current n e r) parent) | RLink l n e \<Rightarrow> None)
      else (case f of RLink l n e \<Rightarrow> traverse_back (ITE l n e current) parent | LLink n e r \<Rightarrow> None))"

fun traverse_right :: "'e itree \<Rightarrow> 'e frame list \<Rightarrow> 'e traversal option" where
  "traverse_right (ITE l n e r) parent =
     (if r \<noteq> ITE_NULL then Some (traverse_left r (RLink l n e # parent))
      else traverse_back (ITE l n e r) parent)"
| "traverse_right ITE_NULL parent = None"

definition ipc_splay_traverse_start :: "'e ipc_splay_tree \<Rightarrow> 'e traversal" where
  "ipc_splay_traverse_start splay =
     (if ist_root splay \<noteq> ITE_NULL
      then traverse_left (ipc_splay_prim_assemble (ist_root splay) (ist_ltree splay) (ist_rtree splay)) []
      else Ended ITE_NULL)"

fun traverse_delete :: "'e itree \<Rightarrow> 'e frame list \<Rightarrow> 'e traversal option" where
  "traverse_delete (ITE l n e r) parent =
     (if l = ITE_NULL then
        if r = ITE_NULL then
          (case parent of
             [] \<Rightarrow> Some (Ended ITE_NULL)
           | f # parent \<Rightarrow>
               if n < frame_name f
               then (case f of LLink n e r \<Rightarrow> Some (Visiting (ITE ITE_NULL n e r) parent) | RLink l n e \<Rightarrow> None)
               else (case f of RLink l n e \<Rightarrow> traverse_back (ITE l n e ITE_NULL) parent | LLink n e r \<Rightarrow> None))
        else Some (traverse_left r parent)
      else
        if r = ITE_NULL then traverse_back l parent
        else
          let (current, ltree, rtree) = ipc_splay_prim_lookup MACH_PORT_LARGEST l;
              current = ipc_splay_prim_assemble current ltree rtree
          in traverse_right (ITE (ite_lchild current) (ite_name current) (ite_entry current) r) parent)"
| "traverse_delete ITE_NULL parent = None"

definition ipc_splay_traverse_next :: "'e itree \<Rightarrow> 'e frame list \<Rightarrow> bool \<Rightarrow> 'e traversal option" where
  "ipc_splay_traverse_next current parent del =
     (if \<not> del then traverse_right current parent else traverse_delete current parent)"

definition ipc_splay_traverse_finish :: "'e ipc_splay_tree \<Rightarrow> 'e itree \<Rightarrow> 'e ipc_splay_tree" where
  "ipc_splay_traverse_finish splay root =
     (if root \<noteq> ITE_NULL
      then splay\<lparr>ist_root := root, ist_name := ite_name root, ist_ltree := [], ist_rtree := []\<rparr>
      else splay\<lparr>ist_root := root\<rparr>)"

subsection \<open>What has been visited and what is to come\<close>

fun before :: "'e frame list \<Rightarrow> (mach_port_t \<times> 'e) list" where
  "before [] = []"
| "before (LLink n e r # p) = before p"
| "before (RLink l n e # p) = before p @ inorder l @ [(n, e)]"

fun pending :: "'e frame list \<Rightarrow> (mach_port_t \<times> 'e) list" where
  "pending [] = []"
| "pending (LLink n e r # p) = (n, e) # inorder r @ pending p"
| "pending (RLink l n e # p) = pending p"

definition visited :: "'e itree \<Rightarrow> 'e frame list \<Rightarrow> (mach_port_t \<times> 'e) list" where
  "visited t p = before p @ inorder (ite_lchild t)"
definition current :: "'e itree \<Rightarrow> mach_port_t \<times> 'e" where
  "current t = (ite_name t, ite_entry t)"
definition to_come :: "'e itree \<Rightarrow> 'e frame list \<Rightarrow> (mach_port_t \<times> 'e) list" where
  "to_come t p = inorder (ite_rchild t) @ pending p"

lemma traverse_left_spec:
  "t \<noteq> ITE_NULL \<Longrightarrow> \<exists>t' p'. traverse_left t p = Visiting t' p' \<and> t' \<noteq> ITE_NULL \<and>
     visited t' p' = before p \<and> current t' # to_come t' p' = inorder t @ pending p"
  by (induction t p rule: traverse_left.induct) (auto simp: visited_def current_def to_come_def)

text \<open>
  Where a step arrives: at the first of the entries \<open>rest\<close>, with \<open>past\<close> behind it, or, when there is
  none, at the end with \<open>past\<close> in the tree.
\<close>

fun arrives :: "(mach_port_t \<times> 'e) list \<Rightarrow> (mach_port_t \<times> 'e) list \<Rightarrow> 'e traversal option \<Rightarrow> bool" where
  "arrives past rest None \<longleftrightarrow> False"
| "arrives past rest (Some (Visiting t p)) \<longleftrightarrow>
     t \<noteq> ITE_NULL \<and> visited t p = past \<and> current t # to_come t p = rest"
| "arrives past rest (Some (Ended t)) \<longleftrightarrow> inorder t = past \<and> rest = []"

lemma arrives_left:
  "t \<noteq> ITE_NULL \<Longrightarrow> past = before p \<Longrightarrow> rest = inorder t @ pending p \<Longrightarrow>
   arrives past rest (Some (traverse_left t p))"
  using traverse_left_spec [of t p] by auto

lemma arrives_back:
  assumes "t \<noteq> ITE_NULL" "sorted_names (before p @ inorder t @ pending p)"
  shows "arrives (before p @ inorder t) (pending p) (traverse_back t p)"
  using assms
proof (induction t p rule: traverse_back.induct)
  case (2 t f p)
  obtain l n e r where t: "t = ITE l n e r" using "2.prems"(1) by (cases t) auto
  show ?case
  proof (cases f)
    case (LLink n' e' r')
    then have "n < n'" using "2.prems"(2) t by auto
    then show ?thesis using LLink t by (simp add: visited_def current_def to_come_def)
  next
    case (RLink l' n' e')
    then have "n' < n" using "2.prems"(2) t by auto
    then show ?thesis using RLink t "2.IH" "2.prems" by (auto dest: less_asym)
  qed
qed simp

lemma arrives_right:
  assumes "t \<noteq> ITE_NULL" "sorted_names (visited t p @ current t # to_come t p)"
  shows "arrives (visited t p @ [current t]) (to_come t p) (traverse_right t p)"
proof -
  obtain l n e r where t: "t = ITE l n e r" using assms(1) by (cases t) auto
  show ?thesis
  proof (cases "r = ITE_NULL")
    case True
    then show ?thesis
      using arrives_back [of t p] assms t by (simp add: visited_def current_def to_come_def)
  next
    case False
    then show ?thesis
      using t by (auto simp: visited_def current_def to_come_def intro!: arrives_left)
  qed
qed

lemma arrives_delete:
  assumes "t \<noteq> ITE_NULL" "sorted_names (visited t p @ current t # to_come t p)"
  shows "arrives (visited t p) (to_come t p) (traverse_delete t p)"
proof -
  obtain l n e r where t: "t = ITE l n e r" using assms(1) by (cases t) auto
  note defs = visited_def current_def to_come_def
  consider (none) "l = ITE_NULL" "r = ITE_NULL" | (right) "l = ITE_NULL" "r \<noteq> ITE_NULL"
    | (left) "l \<noteq> ITE_NULL" "r = ITE_NULL" | (both) "l \<noteq> ITE_NULL" "r \<noteq> ITE_NULL" by blast
  then show ?thesis
  proof cases
    case none
    show ?thesis
    proof (cases p)
      case Nil
      then show ?thesis using none t by (simp add: defs)
    next
      case (Cons f p')
      then show ?thesis
        using none t assms(2) arrives_back [of "ITE l' n' e' ITE_NULL" p' for l' n' e']
        by (cases f) (auto simp: defs dest: less_asym)
    qed
  next
    case right
    then show ?thesis using t by (auto simp: defs intro!: arrives_left)
  next
    case left
    then show ?thesis
      using t assms(2) arrives_back [of l p] by (simp add: defs)
  next
    case both
    obtain t' lt rt where pl: "ipc_splay_prim_lookup MACH_PORT_LARGEST l = (t', lt, rt)"
      by (metis prod_cases3)
    have "sorted_names (inorder l)" using assms(2) t by (simp add: defs)
    from prim_lookup_extremes [OF _ this pl]
    have x: "rt = []" "ite_rchild t' = ITE_NULL" "t' \<noteq> ITE_NULL" "in_left lt @ inorder t' = inorder l"
      using both(1) by auto
    then obtain l' n' e' where t': "t' = ITE l' n' e' ITE_NULL" by (cases t') auto
    let ?t = "ITE (plug_left lt l') n' e' r"
    have list: "visited ?t p @ [current ?t] = visited t p" "to_come ?t p = to_come t p"
      using x(4) t t' by (simp_all add: defs)
    have "visited ?t p @ current ?t # to_come ?t p = (visited ?t p @ [current ?t]) @ to_come ?t p" by simp
    then have "visited ?t p @ current ?t # to_come ?t p = visited t p @ to_come t p" unfolding list .
    then have "sorted_names (visited ?t p @ current ?t # to_come ?t p)" using assms(2) by simp
    from arrives_right [OF _ this] show ?thesis
      unfolding list using both t t' pl by (simp add: ipc_splay_prim_assemble_def x(1) Let_def)
  qed
qed

lemma arrives_next:
  assumes "t \<noteq> ITE_NULL" "sorted_names (visited t p @ current t # to_come t p)"
  shows "arrives (visited t p @ (if del then [] else [current t])) (to_come t p) (ipc_splay_traverse_next t p del)"
  using arrives_right [OF assms] arrives_delete [OF assms] by (simp add: ipc_splay_traverse_next_def)

subsection \<open>The client's loop\<close>

text \<open>
  The loop of the usage comment, for a client that keeps a state and decides for each
  entry whether to delete it.  It stops when the code returns the null entry; \<open>None\<close> is
  the corruption above.
\<close>

definition traversal_left :: "'e traversal \<Rightarrow> nat" where
  "traversal_left v = (case v of Visiting t p \<Rightarrow> Suc (length (to_come t p)) | Ended t \<Rightarrow> 0)"

lemma traverse_back_size:
  "traverse_back t p = Some v \<Longrightarrow> traversal_left v \<le> length (pending p)"
  by (induction t p rule: traverse_back.induct)
     (auto simp: traversal_left_def to_come_def split: if_splits frame.splits)

lemma traverse_left_size:
  "t \<noteq> ITE_NULL \<Longrightarrow> traversal_left (traverse_left t p) = length (inorder t @ pending p)"
  by (induction t p rule: traverse_left.induct) (auto simp: traversal_left_def to_come_def)

lemma traverse_right_size:
  "traverse_right t p = Some v \<Longrightarrow> traversal_left v \<le> length (to_come t p)"
  by (cases t) (auto simp: to_come_def traverse_left_size dest: traverse_back_size split: if_splits)

lemma traverse_delete_size:
  assumes "traverse_delete t p = Some v"
  shows "traversal_left v \<le> length (to_come t p)"
proof (cases t)
  case (ITE l n e r)
  consider (none) "l = ITE_NULL" "r = ITE_NULL" | (right) "l = ITE_NULL" "r \<noteq> ITE_NULL"
    | (left) "l \<noteq> ITE_NULL" "r = ITE_NULL" | (both) "l \<noteq> ITE_NULL" "r \<noteq> ITE_NULL" by blast
  then show ?thesis
  proof cases
    case none
    show ?thesis
    proof (cases p)
      case Nil
      then show ?thesis using none assms ITE by (auto simp: traversal_left_def)
    next
      case (Cons f p')
      then show ?thesis
        using none assms ITE
        by (cases f) (auto simp: traversal_left_def to_come_def dest!: traverse_back_size split: if_splits)
    qed
  next
    case right
    then show ?thesis using assms ITE by (auto simp: traverse_left_size to_come_def)
  next
    case left
    then show ?thesis using assms ITE by (auto simp: to_come_def dest: traverse_back_size)
  next
    case both
    then show ?thesis
      using assms ITE by (auto simp: to_come_def Let_def traverse_left_size split: prod.splits if_splits)
  qed
qed (use assms in simp)

lemma traverse_next_size:
  "ipc_splay_traverse_next t p del = Some v \<Longrightarrow> traversal_left v < traversal_left (Visiting t p)"
  using traverse_right_size [of t p v] traverse_delete_size [of t p v]
  by (auto simp: ipc_splay_traverse_next_def traversal_left_def [of "Visiting t p"] split: if_splits)

function traverse_loop ::
  "('s \<Rightarrow> mach_port_t \<times> 'e \<Rightarrow> 's \<times> bool) \<Rightarrow> 's \<Rightarrow> 'e traversal \<Rightarrow> ('s \<times> 'e itree) option" where
  "traverse_loop body st (Ended root) = Some (st, root)"
| "traverse_loop body st (Visiting t p) =
     (case body st (ite_name t, ite_entry t) of (st', del) \<Rightarrow>
        case ipc_splay_traverse_next t p del of
          None \<Rightarrow> None
        | Some v \<Rightarrow> traverse_loop body st' v)"
  by pat_completeness auto
termination
  by (relation "measure (\<lambda>(body, st, v). traversal_left v)") (auto dest: traverse_next_size)

definition ipc_splay_traverse ::
  "('s \<Rightarrow> mach_port_t \<times> 'e \<Rightarrow> 's \<times> bool) \<Rightarrow> 's \<Rightarrow> 'e ipc_splay_tree \<Rightarrow> ('s \<times> 'e ipc_splay_tree) option" where
  "ipc_splay_traverse body st splay =
     (case traverse_loop body st (ipc_splay_traverse_start splay) of
        None \<Rightarrow> None
      | Some (st', root) \<Rightarrow> Some (st', ipc_splay_traverse_finish splay root))"

text \<open>The same loop over a list.\<close>

fun sweep :: "('s \<Rightarrow> mach_port_t \<times> 'e \<Rightarrow> 's \<times> bool) \<Rightarrow> 's \<Rightarrow> (mach_port_t \<times> 'e) list \<Rightarrow> 's \<times> (mach_port_t \<times> 'e) list" where
  "sweep body st [] = (st, [])"
| "sweep body st (x # xs) =
     (let (st', del) = body st x; (st'', ys) = sweep body st' xs in (st'', if del then ys else x # ys))"

lemma set_sweep: "set (snd (sweep body st xs)) \<subseteq> set xs"
proof (induction xs arbitrary: st)
  case (Cons x xs)
  obtain st' del where b: "body st x = (st', del)" by fastforce
  obtain st'' ys where ys: "sweep body st' xs = (st'', ys)" by fastforce
  show ?case
    using Cons.IH [of st'] by (auto simp: b ys)
qed simp

lemma sorted_sweep: "sorted_names xs \<Longrightarrow> sorted_names (snd (sweep body st xs))"
proof (induction xs arbitrary: st)
  case (Cons x xs)
  obtain st' del where b: "body st x = (st', del)" by fastforce
  obtain st'' ys where ys: "sweep body st' xs = (st'', ys)" by fastforce
  show ?case
    using Cons.IH [of st'] Cons.prems set_sweep [of body st' xs] by (auto simp: b ys)
qed simp

lemma traverse_loop_spec:
  assumes "arrives past rest (Some v)" "sorted_names (past @ rest)"
  shows "\<exists>root. traverse_loop body st v = Some (fst (sweep body st rest), root) \<and>
    inorder root = past @ snd (sweep body st rest)"
  using assms
proof (induction body st v arbitrary: past rest rule: traverse_loop.induct)
  case (1 body st root)
  then show ?case by simp
next
  case (2 body st t p)
  let ?x = "(ite_name t, ite_entry t)"
  obtain st' del where b: "body st ?x = (st', del)" by fastforce
  have t: "t \<noteq> ITE_NULL" and past: "past = visited t p" and rest: "rest = ?x # to_come t p"
    using "2.prems"(1) by (auto simp: current_def)
  let ?past = "visited t p @ (if del then [] else [?x])"
  have arr: "arrives ?past (to_come t p) (ipc_splay_traverse_next t p del)"
    using arrives_next [OF t, of p del] "2.prems"(2) by (cases del) (simp_all add: past rest current_def)
  then obtain v where v: "ipc_splay_traverse_next t p del = Some v"
    by (cases "ipc_splay_traverse_next t p del") auto
  have "sorted_names (?past @ to_come t p)"
    using "2.prems"(2) by (auto simp: past rest)
  from "2.IH" [OF b [symmetric] v arr [unfolded v] this] show ?case
    by (auto simp: b v past rest split: prod.splits)
qed

lemma traverse_spec:
  assumes "splay_inv s"
  shows "\<exists>s'. ipc_splay_traverse body st s = Some (fst (sweep body st (splay_list s)), s') \<and>
    splay_inv s' \<and> splay_list s' = snd (sweep body st (splay_list s))"
proof (cases "ist_root s = ITE_NULL")
  case True
  then show ?thesis
    by (simp add: ipc_splay_traverse_def ipc_splay_traverse_start_def ipc_splay_traverse_finish_def
        splay_list_def splay_inv_def)
next
  case False
  let ?t = "ipc_splay_prim_assemble (ist_root s) (ist_ltree s) (ist_rtree s)"
  have t: "?t \<noteq> ITE_NULL" "inorder ?t = splay_list s" "sorted_names (splay_list s)"
    using False assms by (simp_all add: assemble_not_null inorder_assemble splay_list_def state_def splay_inv_def)
  have "arrives [] (splay_list s) (Some (ipc_splay_traverse_start s))"
    using t False by (auto simp: ipc_splay_traverse_start_def intro!: arrives_left)
  from traverse_loop_spec [OF this, of body st] t(3) obtain root where root:
    "traverse_loop body st (ipc_splay_traverse_start s) = Some (fst (sweep body st (splay_list s)), root)"
    "inorder root = snd (sweep body st (splay_list s))" by auto
  have "sorted_names (inorder root)" using sorted_sweep [OF t(3), of body st] root(2) by simp
  then have "splay_inv (ipc_splay_traverse_finish s root) \<and>
      splay_list (ipc_splay_traverse_finish s root) = inorder root"
    by (auto simp: ipc_splay_traverse_finish_def splay_inv_root splay_list_root) 
       (simp_all add: splay_inv_def splay_list_def)
  then show ?thesis using root by (simp add: ipc_splay_traverse_def)
qed

subsection \<open>Property\<close>

text \<open>C27: The traversal loop ends, shows the client every entry exactly once in increasing order
  of name, never mistakes a child for a link, and leaves a tree with exactly the entries that the
  client did not delete.\<close>

theorem splay_traverse_exact:
  assumes "splay_inv s"
  shows "\<exists>s'. ipc_splay_traverse body st s = Some (fst (sweep body st (splay_list s)), s') \<and>
    splay_inv s' \<and> splay_list s' = snd (sweep body st (splay_list s)) \<and>
    sorted_wrt (<) (map fst (splay_list s))"
  using traverse_spec [OF assms, of body st] assms
  by (cases "ist_root s = ITE_NULL") (auto simp: splay_inv_def sorted_names_def splay_list_def)

theorem splay_traverse_exact_witness:
  "\<exists>s'. ipc_splay_traverse (\<lambda>st x. (fst x # st, snd x = 2)) [] tree3 = Some ([0x300, 0x200, 0x100], s') \<and>
     splay_list s' = [(0x100, 1), (0x300, 3)]"
proof -
  have "splay_inv tree3" "splay_list tree3 = [(0x100, 1), (0x200, 2), (0x300, 3)]" by code_simp+
  with splay_traverse_exact [of tree3 "\<lambda>st x. (fst x # st, snd x = 2)" "[]"] show ?thesis by auto
qed

end
