(* ===== verification/Ipc_Table.thy ===== *)
theory Ipc_Table
  imports Port_Names
begin

section \<open>Sizes and storage of IPC tables\<close>

text \<open>
  \<open>ipc/ipc_table.c\<close> and \<open>ipc/ipc_table.h\<close>: the two arrays of table sizes that
  spaces (\<open>ipc_table_entries\<close>) and dead-name request tables
  (\<open>ipc_table_dnrequests\<close>) grow through, and the choice of allocator for a table.
  An array \<open>its[0..index-1]\<close> being filled is the list of its \<open>its_size\<close> fields, so
  \<open>index\<close> is the length of the list.  \<open>PAGE_SIZE\<close> is the kernel variable
  \<open>page_size\<close>, an argument here.  Sizes are natural numbers: \<open>table_sizes_bound\<close>
  below shows that with the configured array sizes they stay far below \<open>2 ^ 32\<close>,
  so the 32-bit arithmetic of the code does not wrap.
\<close>

subsection \<open>ipc_table_fill\<close>

text \<open>
  The first loop tries powers of two up to the page size.  \<open>size\<close> (\<open>sz\<close> here) starts at 1 and
  doubles, so the guard \<open>0 < sz\<close> never fails; it is there for termination.
\<close>

function fill_pow2 :: "nat \<Rightarrow> nat \<Rightarrow> nat \<Rightarrow> nat \<Rightarrow> nat \<Rightarrow> nat list \<Rightarrow> nat \<times> nat list" where
  "fill_pow2 page_size num minsize elemsize sz its =
     (if length its < num \<and> sz < page_size \<and> 0 < sz
      then fill_pow2 page_size num minsize elemsize (sz * 2)
             (if sz \<ge> minsize then its @ [sz div elemsize] else its)
      else (sz, its))"
  by pat_completeness auto
termination
  by (relation "measure (\<lambda>(page_size, num, minsize, elemsize, sz, its). page_size - sz)") auto

text \<open>The inner loop of the second phase: up to 15 steps of one increment.\<close>

function fill_period :: "nat \<Rightarrow> nat \<Rightarrow> nat \<Rightarrow> nat \<Rightarrow> nat \<Rightarrow> nat \<Rightarrow> nat list \<Rightarrow> nat \<times> nat list" where
  "fill_period num minsize elemsize incrsize period sz its =
     (if period < 15 \<and> length its < num
      then fill_period num minsize elemsize incrsize (period + 1) (sz + incrsize)
             (if sz \<ge> minsize then its @ [sz div elemsize] else its)
      else (sz, its))"
  by pat_completeness auto
termination
  by (relation "measure (\<lambda>(num, minsize, elemsize, incrsize, period, sz, its). 15 - period)") auto

declare fill_pow2.simps [simp del] fill_period.simps [simp del]

lemma fill_period_grows:
  "length its \<le> length (snd (fill_period num minsize elemsize incrsize period sz its))"
  "sz \<le> fst (fill_period num minsize elemsize incrsize period sz its)"
proof (induction num minsize elemsize incrsize period sz its rule: fill_period.induct)
  case (1 num minsize elemsize incrsize period sz its)
  {
    case 1
    show ?case using "1.IH"
      by (subst fill_period.simps) (auto intro: le_trans [rotated])
  next
    case 2
    show ?case using "1.IH"
      by (subst fill_period.simps) (auto intro: le_trans [rotated])
  }
qed

lemma fill_period_progress:
  assumes "length its < num" "0 < incrsize"
    and "fill_period num minsize elemsize incrsize 0 sz its = (sz', its')"
  shows "(num - length its') + (minsize - sz') < (num - length its) + (minsize - sz)"
proof -
  let ?its = "if minsize \<le> sz then its @ [sz div elemsize] else its"
  have "fill_period num minsize elemsize incrsize 1 (sz + incrsize) ?its = (sz', its')"
    using assms by (simp add: fill_period.simps [of num minsize elemsize incrsize 0])
  then have "length ?its \<le> length its'" "sz + incrsize \<le> sz'"
    using fill_period_grows [where its = ?its and sz = "sz + incrsize"]
    by (metis snd_conv, metis fst_conv)
  then show ?thesis
    using assms(1,2) by (auto split: if_splits)
qed

text \<open>
  The outer loop of the second phase; \<open>incrsize\<close> starts at the page size and
  doubles up to eight pages, so it is never 0.
\<close>

function fill_pages :: "nat \<Rightarrow> nat \<Rightarrow> nat \<Rightarrow> nat \<Rightarrow> nat \<Rightarrow> nat \<Rightarrow> nat list \<Rightarrow> nat list" where
  "fill_pages page_size num minsize elemsize incrsize sz its =
     (if length its < num \<and> 0 < incrsize
      then case fill_period num minsize elemsize incrsize 0 sz its of
             (sz', its') \<Rightarrow>
               fill_pages page_size num minsize elemsize
                 (if incrsize < page_size * 8 then incrsize * 2 else incrsize) sz' its'
      else its)"
  by pat_completeness auto
termination
proof (relation "measure (\<lambda>(page_size, num, minsize, elemsize, incrsize, sz, its).
    (num - length its) + (minsize - sz))", goal_cases)
  case 1
  show ?case by simp
next
  case (2 page_size num minsize elemsize incrsize sz its sz' its')
  show ?case
    using 2(1) fill_period_progress [OF _ _ 2(2) [symmetric]] by simp
qed

declare fill_pages.simps [simp del]

definition ipc_table_fill :: "nat \<Rightarrow> nat \<Rightarrow> nat \<Rightarrow> nat \<Rightarrow> nat list" where
  "ipc_table_fill page_size num mn elemsize =
     (let minsize = mn * elemsize;
          (sz, its) = fill_pow2 page_size num minsize elemsize 1 []
      in fill_pages page_size num minsize elemsize page_size sz its)"

subsection \<open>ipc_table_init\<close>

definition ipc_table_entries_size :: nat where
  "ipc_table_entries_size = 512"
definition ipc_table_dnrequests_size :: nat where
  "ipc_table_dnrequests_size = 64"

text \<open>\<open>sizeof (struct ipc_entry)\<close> is four words, \<open>sizeof (struct ipc_port_request)\<close> two.\<close>

definition sizeof_ipc_entry :: nat where
  "sizeof_ipc_entry = 16"
definition sizeof_ipc_port_request :: nat where
  "sizeof_ipc_port_request = 8"

definition ipc_table_entries :: "nat \<Rightarrow> nat list" where
  "ipc_table_entries page_size =
     (let its = ipc_table_fill page_size (ipc_table_entries_size - 1) 4 sizeof_ipc_entry
      in its @ [its ! (ipc_table_entries_size - 2)])"

definition ipc_table_dnrequests :: "nat \<Rightarrow> nat list" where
  "ipc_table_dnrequests page_size =
     ipc_table_fill page_size (ipc_table_dnrequests_size - 1) 2 sizeof_ipc_port_request @ [0]"

subsection \<open>The filled array is strictly increasing and bounded\<close>

definition fill_inv :: "nat \<Rightarrow> nat \<Rightarrow> nat \<Rightarrow> nat \<Rightarrow> nat \<Rightarrow> nat list \<Rightarrow> bool" where
  "fill_inv page_size num mn e sz its \<longleftrightarrow>
     sorted_wrt (<) its \<and> (\<forall>x \<in> set its. x < sz div e \<and> mn \<le> x) \<and>
     length its \<le> num \<and> sz \<le> 2 * page_size + 8 * page_size * length its"

lemma fill_inv_step:
  assumes inv: "fill_inv page_size num mn e sz its" and e: "0 < e" and n: "length its < num"
    and up: "mn * e \<le> sz \<Longrightarrow> sz div e < sz' div e" "sz \<le> sz'"
    and its': "its' = (if mn * e \<le> sz then its @ [sz div e] else its)"
    and bound: "sz' \<le> 2 * page_size + 8 * page_size * length its'"
  shows "fill_inv page_size num mn e sz' its'"
proof -
  have "sz div e \<le> sz' div e"
    using up(2) by (rule div_le_mono)
  moreover have "mn * e \<le> sz \<Longrightarrow> mn \<le> sz div e"
    using e by (simp add: less_eq_div_iff_mult_less_eq)
  ultimately show ?thesis
    using inv n up bound unfolding fill_inv_def its'
    by (auto simp: sorted_wrt_append)
qed

lemma div_less_add:
  fixes e :: nat
  assumes "0 < e" "e \<le> d"
  shows "n div e < (n + d) div e"
proof -
  have "(n + e) div e \<le> (n + d) div e"
    using assms by (intro div_le_mono) simp
  moreover have "(n + e) div e = n div e + 1"
    using assms(1) by (simp add: div_add_self2)
  ultimately show ?thesis by linarith
qed

lemma fill_pow2_inv:
  assumes "fill_inv page_size num mn e sz its" "0 < sz" "0 < e" "1 \<le> mn"
    and "fill_pow2 page_size num (mn * e) e sz its = (sz', its')"
  shows "fill_inv page_size num mn e sz' its' \<and> (length its' < num \<longrightarrow> page_size \<le> sz')"
  using assms
proof (induction page_size num "mn * e" e sz its arbitrary: sz' its' rule: fill_pow2.induct)
  case (1 page_size num e sz its)
  let ?its = "if mn * e \<le> sz then its @ [sz div e] else its"
  show ?case
  proof (cases "length its < num \<and> sz < page_size")
    case True
    have "fill_inv page_size num mn e (sz * 2) ?its"
    proof (rule fill_inv_step [OF "1.prems"(1,3)])
      assume "mn * e \<le> sz"
      then have "e \<le> sz" using "1.prems"(4) by (metis le_trans mult_le_mono1 nat_mult_1)
      then show "sz div e < sz * 2 div e"
        using div_less_add [OF "1.prems"(3), of sz sz] by (simp add: mult_2_right)
    qed (use True in auto)
    moreover have "fill_pow2 page_size num (mn * e) e (sz * 2) ?its = (sz', its')"
      using "1.prems"(2,5) True by (simp add: fill_pow2.simps [of page_size num "mn * e" e sz its])
    ultimately show ?thesis
      using "1.hyps" "1.prems"(2-4) True by simp
  next
    case False
    then show ?thesis
      using "1.prems" by (auto simp: fill_pow2.simps [of page_size num "mn * e" e sz its])
  qed
qed

lemma fill_period_inv:
  assumes "fill_inv page_size num mn e sz its" "mn * e \<le> sz" "0 < e" "e \<le> incrsize"
    "incrsize \<le> 8 * page_size"
    and "fill_period num (mn * e) e incrsize period sz its = (sz', its')"
  shows "fill_inv page_size num mn e sz' its' \<and> mn * e \<le> sz'"
  using assms
proof (induction num "mn * e" e incrsize period sz its arbitrary: sz' its' rule: fill_period.induct)
  case (1 num e incrsize period sz its)
  show ?case
  proof (cases "period < 15 \<and> length its < num")
    case True
    have "fill_inv page_size num mn e (sz + incrsize) (its @ [sz div e])"
    proof (rule fill_inv_step [OF "1.prems"(1,3)])
      show "sz div e < (sz + incrsize) div e"
        by (rule div_less_add [OF "1.prems"(3,4)])
      show "sz + incrsize \<le> 2 * page_size + 8 * page_size * length (its @ [sz div e])"
        using "1.prems"(1,5) by (simp add: fill_inv_def)
    qed (use "1.prems"(2) True in auto)
    moreover have "fill_period num (mn * e) e incrsize (period + 1) (sz + incrsize) (its @ [sz div e])
        = (sz', its')"
      using "1.prems"(2,6) True
      by (simp add: fill_period.simps [of num "mn * e" e incrsize period sz its])
    ultimately show ?thesis
      using "1.hyps" "1.prems"(2-5) True by simp
  next
    case False
    then show ?thesis
      using "1.prems" by (auto simp: fill_period.simps [of num "mn * e" e incrsize period sz its])
  qed
qed

lemma fill_pages_inv:
  assumes "fill_inv page_size num mn e sz its" "length its < num \<longrightarrow> mn * e \<le> sz" "0 < e" "e \<le> incrsize"
    "incrsize < 8 * page_size \<or> incrsize = 8 * page_size" "\<exists>k. incrsize * 2 ^ k = 8 * page_size"
  shows "\<exists>sz'. fill_inv page_size num mn e sz' (fill_pages page_size num (mn * e) e incrsize sz its)
    \<and> length (fill_pages page_size num (mn * e) e incrsize sz its) = num"
  using assms
proof (induction page_size num "mn * e" e incrsize sz its rule: fill_pages.induct)
  case (1 page_size num e incrsize sz its)
  show ?case
  proof (cases "length its < num")
    case False
    then show ?thesis
      using "1.prems"(1) by (subst (1 2) fill_pages.simps) (auto simp: fill_inv_def)
  next
    case True
    obtain sz1 its1 where p: "fill_period num (mn * e) e incrsize 0 sz its = (sz1, its1)"
      by fastforce
    let ?incr = "if incrsize < page_size * 8 then incrsize * 2 else incrsize"
    have inv: "fill_inv page_size num mn e sz1 its1" "mn * e \<le> sz1"
      using fill_period_inv [OF "1.prems"(1) _ "1.prems"(3,4) _ p] "1.prems"(2,5) True by auto
    obtain k where k: "incrsize * 2 ^ k = 8 * page_size"
      using "1.prems"(6) by blast
    have k': "?incr \<le> 8 * page_size" "\<exists>k. ?incr * 2 ^ k = 8 * page_size"
    proof -
      have "incrsize * 2 * 2 ^ (k - 1) = 8 * page_size" if "incrsize < page_size * 8"
        using k that by (cases k) auto
      moreover from this have "incrsize * 2 \<le> 8 * page_size" if "incrsize < page_size * 8"
        using that by (metis le_square mult.right_neutral mult_le_mono2 one_le_numeral one_le_power)
      ultimately show "?incr \<le> 8 * page_size" "\<exists>k. ?incr * 2 ^ k = 8 * page_size"
        using k "1.prems"(5) by (auto intro: exI [of _ 0])
    qed
    have "\<exists>sz'. fill_inv page_size num mn e sz' (fill_pages page_size num (mn * e) e ?incr sz1 its1)
        \<and> length (fill_pages page_size num (mn * e) e ?incr sz1 its1) = num"
      using "1.hyps" [OF _ p [symmetric] inv(1)] True inv(2) "1.prems"(3,4) k'
      by (auto simp: le_less)
    moreover have "fill_pages page_size num (mn * e) e incrsize sz its =
        fill_pages page_size num (mn * e) e ?incr sz1 its1"
      using True "1.prems"(3,4) p by (subst fill_pages.simps) simp
    ultimately show ?thesis by simp
  qed
qed


lemma ipc_table_fill_correct:
  fixes num :: nat
  assumes "0 < elemsize" "elemsize \<le> page_size" "1 \<le> mn" "mn * elemsize \<le> page_size"
  defines "its \<equiv> ipc_table_fill page_size num mn elemsize"
  shows "length its = num" "sorted_wrt (<) its" "\<forall>x \<in> set its. mn \<le> x"
    "\<forall>x \<in> set its. x * elemsize \<le> 2 * page_size + 8 * page_size * num"
proof -
  obtain sz its0 where p: "fill_pow2 page_size num (mn * elemsize) elemsize 1 [] = (sz, its0)"
    by fastforce
  have "fill_inv page_size num mn elemsize 1 []"
    using assms(1,2) by (simp add: fill_inv_def)
  then have inv0: "fill_inv page_size num mn elemsize sz its0" "length its0 < num \<longrightarrow> page_size \<le> sz"
    using fill_pow2_inv [OF _ _ assms(1,3) p] by auto
  have "\<exists>k. page_size * 2 ^ k = 8 * page_size"
    by (rule exI [of _ 3]) simp
  moreover have "0 < page_size" using assms(1,2) by linarith
  moreover have its: "its = fill_pages page_size num (mn * elemsize) elemsize page_size sz its0"
    by (simp only: its_def ipc_table_fill_def Let_def p prod.case)
  ultimately have "\<exists>sz'. fill_inv page_size num mn elemsize sz' its \<and> length its = num"
    unfolding its using fill_pages_inv [OF inv0(1) _ assms(1,2)] inv0(2) assms(4) by auto
  then obtain sz' where inv: "fill_inv page_size num mn elemsize sz' its" and len: "length its = num"
    by blast
  show "length its = num" by (rule len)
  show "sorted_wrt (<) its" "\<forall>x \<in> set its. mn \<le> x"
    using inv by (auto simp: fill_inv_def)
  show "\<forall>x \<in> set its. x * elemsize \<le> 2 * page_size + 8 * page_size * num"
  proof
    fix x assume "x \<in> set its"
    then have "x < sz' div elemsize" using inv by (simp add: fill_inv_def)
    then have "x * elemsize \<le> sz'"
      using assms(1) by (metis less_eq_div_iff_mult_less_eq less_imp_le)
    then show "x * elemsize \<le> 2 * page_size + 8 * page_size * num"
      using inv len by (simp add: fill_inv_def)
  qed
qed

subsection \<open>ipc_table_alloc, ipc_table_realloc and ipc_table_free\<close>

text \<open>
  The two storage allocators are interfaces of other components (\<open>kern/kalloc.c\<close>
  and \<open>vm/vm_kern.c\<close>); a call is recorded as a request, so that what is freed
  can be compared with what was allocated.
\<close>

datatype storage_call =
    Kalloc nat
  | Kmem_alloc nat
  | Kmem_realloc nat nat
  | Kfree nat
  | Kmem_free nat

definition ipc_table_alloc :: "nat \<Rightarrow> nat \<Rightarrow> storage_call" where
  "ipc_table_alloc page_size sz = (if sz < page_size then Kalloc sz else Kmem_alloc sz)"

definition ipc_table_realloc :: "nat \<Rightarrow> nat \<Rightarrow> storage_call" where
  "ipc_table_realloc old_size new_size = Kmem_realloc old_size new_size"

definition ipc_table_free :: "nat \<Rightarrow> nat \<Rightarrow> storage_call" where
  "ipc_table_free page_size sz = (if sz < page_size then Kfree sz else Kmem_free sz)"

definition it_entries_alloc :: "nat \<Rightarrow> nat \<Rightarrow> storage_call" where
  "it_entries_alloc page_size its = ipc_table_alloc page_size (its * sizeof_ipc_entry)"

definition it_entries_reallocable :: "nat \<Rightarrow> nat \<Rightarrow> bool" where
  "it_entries_reallocable page_size its \<longleftrightarrow> its * sizeof_ipc_entry \<ge> page_size"

definition it_entries_realloc :: "nat \<Rightarrow> nat \<Rightarrow> storage_call" where
  "it_entries_realloc its nits =
     ipc_table_realloc (its * sizeof_ipc_entry) (nits * sizeof_ipc_entry)"

definition it_entries_free :: "nat \<Rightarrow> nat \<Rightarrow> storage_call" where
  "it_entries_free page_size its = ipc_table_free page_size (its * sizeof_ipc_entry)"

definition it_dnrequests_alloc :: "nat \<Rightarrow> nat \<Rightarrow> storage_call" where
  "it_dnrequests_alloc page_size its = ipc_table_alloc page_size (its * sizeof_ipc_port_request)"

definition it_dnrequests_free :: "nat \<Rightarrow> nat \<Rightarrow> storage_call" where
  "it_dnrequests_free page_size its = ipc_table_free page_size (its * sizeof_ipc_port_request)"

subsection \<open>Properties\<close>

text \<open>
  The size arrays built by \<open>ipc_table_init\<close> are what \<open>ipc/ipc_table.h\<close> asks for.
  \<open>ipc_table_entries\<close> has 512 sizes, strictly increasing but for the last, which
  repeats its predecessor; every size is at least 4 and at most
  \<open>MACH_PORT_INDEX (MACH_PORT_DEAD)\<close>, so no table index can be the dead name's, and
  the size in bytes fits 32 bits.  \<open>ipc_table_dnrequests\<close> has 64 sizes, strictly
  increasing and at least 2, but for the last, which is 0.  The page size may be
  anything from 64 bytes to 64 kilobytes.
\<close>

theorem table_sizes_documented:
  assumes "64 \<le> page_size" "page_size \<le> 65536"
  shows "length (ipc_table_entries page_size) = 512 \<and>
    sorted_wrt (<) (butlast (ipc_table_entries page_size)) \<and>
    ipc_table_entries page_size ! 511 = ipc_table_entries page_size ! 510 \<and>
    (\<forall>x \<in> set (ipc_table_entries page_size).
       4 \<le> x \<and> x \<le> unat (MACH_PORT_INDEX MACH_PORT_DEAD) \<and> x * sizeof_ipc_entry < 2 ^ 32) \<and>
    length (ipc_table_dnrequests page_size) = 64 \<and>
    sorted_wrt (<) (butlast (ipc_table_dnrequests page_size)) \<and>
    (\<forall>x \<in> set (butlast (ipc_table_dnrequests page_size)). 2 \<le> x) \<and>
    last (ipc_table_dnrequests page_size) = 0"
proof -
  let ?e = "ipc_table_fill page_size 511 4 sizeof_ipc_entry"
  let ?d = "ipc_table_fill page_size 63 2 sizeof_ipc_port_request"
  have "0 < sizeof_ipc_entry" "sizeof_ipc_entry \<le> page_size" "(1::nat) \<le> 4"
      "4 * sizeof_ipc_entry \<le> page_size"
    using assms by (simp_all add: sizeof_ipc_entry_def)
  note e = ipc_table_fill_correct [OF this, where num = 511]
  have "0 < sizeof_ipc_port_request" "sizeof_ipc_port_request \<le> page_size" "(1::nat) \<le> 2"
      "2 * sizeof_ipc_port_request \<le> page_size"
    using assms by (simp_all add: sizeof_ipc_port_request_def)
  note d = ipc_table_fill_correct [OF this, where num = 63]
  have entries: "ipc_table_entries page_size = ?e @ [?e ! 510]"
    by (simp add: ipc_table_entries_def ipc_table_entries_size_def Let_def)
  have dead: "unat (MACH_PORT_INDEX MACH_PORT_DEAD) = 16777215"
    by (simp add: index_unat MACH_PORT_DEAD_def unsigned_minus_1_eq_mask mask_eq_exp_minus_1)
  have "\<forall>x \<in> set ?e. 4 \<le> x \<and> x \<le> 16777215 \<and> x * sizeof_ipc_entry < 2 ^ 32"
    using e(3,4) assms(2) by (fastforce simp: sizeof_ipc_entry_def)
  moreover have "set (ipc_table_entries page_size) = set ?e"
    using e(1) by (auto simp: entries)
  ultimately show ?thesis
    using e d by (auto simp: entries dead nth_append ipc_table_dnrequests_def
        ipc_table_dnrequests_size_def)
qed

lemma table_sizes_documented_witness:
  "(64::nat) \<le> 4096 \<and> (4096::nat) \<le> 65536 \<and> length (ipc_table_entries 4096) = 512 \<and>
   last (ipc_table_dnrequests 4096) = 0"
  using table_sizes_documented [of 4096] by simp

text \<open>
  A table goes back to the allocator it came from: \<open>it_entries_free\<close> picks
  \<open>kfree\<close> exactly for the tables \<open>it_entries_alloc\<close> took from \<open>kalloc\<close>, and a table is
  reallocatable (by remapping pages) exactly when it did not come from \<open>kalloc\<close>.
\<close>

theorem table_storage_paired:
  "(it_entries_alloc page_size its = Kalloc n \<longleftrightarrow> it_entries_free page_size its = Kfree n) \<and>
   (it_entries_alloc page_size its = Kmem_alloc n \<longleftrightarrow> it_entries_free page_size its = Kmem_free n) \<and>
   (it_entries_reallocable page_size its \<longleftrightarrow> (\<exists>n. it_entries_alloc page_size its = Kmem_alloc n)) \<and>
   (it_dnrequests_alloc page_size its = Kalloc n \<longleftrightarrow> it_dnrequests_free page_size its = Kfree n) \<and>
   (it_dnrequests_alloc page_size its = Kmem_alloc n \<longleftrightarrow> it_dnrequests_free page_size its = Kmem_free n)"
  by (auto simp: it_entries_alloc_def it_entries_free_def it_entries_reallocable_def
      it_dnrequests_alloc_def it_dnrequests_free_def ipc_table_alloc_def ipc_table_free_def)

end
