(* ===== verification/Ipc_Space.thy ===== *)
theory Ipc_Space
  imports Ipc_Traverse Ipc_Table
begin

section \<open>Capability entries and spaces\<close>

text \<open>
  The data of \<open>ipc/ipc_entry.h\<close> and \<open>ipc/ipc_space.h\<close>.  An entry's union
  \<open>index\<close> (\<open>ie_next\<close> of a free entry, \<open>ie_request\<close> of one in use) is one field, as in
  memory.  Its union \<open>hash\<close> is \<open>ie_index\<close> for a table entry; the link of a tree entry
  in its bucket is the order of the bucket's list in \<open>Ipc_Hash\<close>.  An object is its
  address.

  A space is its table (\<open>is_table_size\<close> is the length of the list), the position
  \<open>is_table_next\<close> of the next larger size in \<open>ipc_table_entries\<close>, the splay tree and
  its counters.  \<open>is_self\<close> is the address of the structure, which the reverse hash
  functions use.  A pointer to an entry of a space points into the table or to the
  entry of a tree node, which its name identifies.
\<close>

record ipc_entry =
  ie_bits :: ipc_entry_bits_t
  ie_object :: addr
  ie_request :: natural_t
  ie_index :: mach_port_index_t

abbreviation ie_next :: "ipc_entry \<Rightarrow> mach_port_index_t" where
  "ie_next \<equiv> ie_request"

definition zero_entry :: ipc_entry where
  "zero_entry = \<lparr>ie_bits = 0, ie_object = 0, ie_request = 0, ie_index = 0\<rparr>"

record ipc_space =
  is_self :: addr
  is_references :: natural_t
  is_active :: bool
  is_growing :: bool
  is_table :: "ipc_entry list"
  is_table_next :: nat
  is_tree :: "ipc_entry ipc_splay_tree"
  is_tree_total :: natural_t
  is_tree_small :: natural_t
  is_tree_hash :: natural_t
  is_fast :: bool

definition is_table_size :: "ipc_space \<Rightarrow> nat" where
  "is_table_size space = length (is_table space)"

datatype ipc_entry_ptr = TableEnt nat | TreeEnt mach_port_t

text \<open>Reading and writing an entry through a pointer.\<close>

fun entry_at :: "ipc_space \<Rightarrow> ipc_entry_ptr \<Rightarrow> ipc_entry" where
  "entry_at space (TableEnt i) = is_table space ! i"
| "entry_at space (TreeEnt name) = the (splay_map (is_tree space) name)"

fun store_entry :: "ipc_space \<Rightarrow> ipc_entry_ptr \<Rightarrow> ipc_entry \<Rightarrow> ipc_space" where
  "store_entry space (TableEnt i) e = space\<lparr>is_table := (is_table space)[i := e]\<rparr>"
| "store_entry space (TreeEnt name) e = space\<lparr>is_tree := splay_store (is_tree space) name e\<rparr>"

text \<open>The test \<open>index < is_table_size && entry == &is_table[index]\<close>.\<close>

definition in_table :: "ipc_space \<Rightarrow> mach_port_t \<Rightarrow> ipc_entry_ptr \<Rightarrow> bool" where
  "in_table space name entry \<longleftrightarrow>
     unat (MACH_PORT_INDEX name) < is_table_size space \<and> entry = TableEnt (unat (MACH_PORT_INDEX name))"

subsection \<open>Space references\<close>

definition ipc_space_reference :: "ipc_space \<Rightarrow> ipc_space" where
  "ipc_space_reference space = space\<lparr>is_references := is_references space + 1\<rparr>"

text \<open>Releasing the last reference frees the structure: \<open>None\<close>.\<close>

definition ipc_space_release :: "ipc_space \<Rightarrow> ipc_space option" where
  "ipc_space_release space =
     (let refs = is_references space - 1 in
      if refs = 0 then None else Some (space\<lparr>is_references := refs\<rparr>))"

subsection \<open>ipc_space_create and ipc_space_create_special\<close>

text \<open>
  \<open>garbage\<close> is the memory of the allocated structure: \<open>is_fast\<close> is not initialised here (the
  task code sets it afterwards), nor are the fields of the tree other than its root.
  The two flags say whether the two allocations succeed.
\<close>

definition space_table :: "nat \<Rightarrow> ipc_entry list" where
  "space_table new_size =
     (let table = map (\<lambda>index. zero_entry\<lparr>ie_bits := IE_BITS_GEN_MASK, ie_request := of_nat (index + 1)\<rparr>) [0 ..< new_size]
      in table[new_size - 1 := (table ! (new_size - 1))\<lparr>ie_request := 0\<rparr>])"

definition ipc_space_create ::
  "bool \<Rightarrow> bool \<Rightarrow> ipc_space \<Rightarrow> nat list \<Rightarrow> nat \<Rightarrow> kern_return_t + ipc_space" where
  "ipc_space_create space_mem table_mem garbage its initial =
     (if \<not> space_mem then Inl KERN_RESOURCE_SHORTAGE
      else if \<not> table_mem then Inl KERN_RESOURCE_SHORTAGE
      else Inr (garbage\<lparr>is_references := 2, is_active := True, is_growing := False,
                        is_table := space_table (its ! initial), is_table_next := initial + 1,
                        is_tree := ipc_splay_tree_init (is_tree garbage),
                        is_tree_total := 0, is_tree_small := 0, is_tree_hash := 0\<rparr>))"

definition ipc_space_create_special :: "bool \<Rightarrow> ipc_space \<Rightarrow> kern_return_t + ipc_space" where
  "ipc_space_create_special space_mem garbage =
     (if \<not> space_mem then Inl KERN_RESOURCE_SHORTAGE
      else Inr (garbage\<lparr>is_references := 1, is_active := False\<rparr>))"

end
