(* ===== verification/Ipc_Hash.thy ===== *)
theory Ipc_Hash
  imports Ipc_Space
begin

section \<open>The reverse hash tables\<close>

text \<open>
  \<open>ipc/ipc_hash.c\<close> converts (space, object) to (name, entry) for send rights.  The
  local table of a space is the column \<open>ie_index\<close> of its entry table, with linear
  probing; the global table holds tree entries in buckets with move-to-front.
\<close>

subsection \<open>Linear probing\<close>

definition IH_LOCAL_HASH :: "addr \<Rightarrow> nat \<Rightarrow> nat" where
  "IH_LOCAL_HASH obj sz = unat (drop_bit 6 obj) mod sz"

text \<open>The statement \<open>if (++hindex == size) hindex = 0;\<close>.\<close>

definition next_slot :: "nat \<Rightarrow> nat \<Rightarrow> nat" where
  "next_slot sz h = (if Suc h = sz then 0 else Suc h)"

text \<open>
  The loop \<open>while (\<not> stop) next_slot\<close> that lookup, insertion and deletion run from an
  object's home slot.  The code's loop has no bound; the fuel is the size of the table, and
  \<open>probe_stops\<close> shows that it is enough as soon as some slot stops the loop.
\<close>

fun probe :: "(nat \<Rightarrow> bool) \<Rightarrow> nat \<Rightarrow> nat \<Rightarrow> nat \<Rightarrow> nat option" where
  "probe stop sz 0 h = None"
| "probe stop sz (Suc fuel) h = (if stop h then Some h else probe stop sz fuel (next_slot sz h))"

definition slot_index :: "ipc_entry list \<Rightarrow> nat \<Rightarrow> nat" where
  "slot_index table h = unat (ie_index (table ! h))"

definition set_index :: "ipc_entry list \<Rightarrow> nat \<Rightarrow> nat \<Rightarrow> ipc_entry list" where
  "set_index table h index = table[h := (table ! h)\<lparr>ie_index := of_nat index\<rparr>]"

text \<open>The result of a lookup is the index of the entry, or 0 for \<open>FALSE\<close>; \<open>None\<close> is the loop without end.\<close>

definition ipc_hash_local_lookup :: "ipc_entry list \<Rightarrow> addr \<Rightarrow> nat option" where
  "ipc_hash_local_lookup table obj =
     (let sz = length table in
      map_option (slot_index table)
        (probe (\<lambda>h. slot_index table h = 0 \<or> ie_object (table ! slot_index table h) = obj)
           sz sz (IH_LOCAL_HASH obj sz)))"

definition ipc_hash_local_insert :: "ipc_entry list \<Rightarrow> addr \<Rightarrow> nat \<Rightarrow> ipc_entry list option" where
  "ipc_hash_local_insert table obj index =
     (let sz = length table in
      map_option (\<lambda>h. set_index table h index)
        (probe (\<lambda>h. slot_index table h = 0) sz sz (IH_LOCAL_HASH obj sz)))"

text \<open>
  The two nested loops of the deletion as one: \<open>hindex\<close> is the hole, \<open>dindex\<close> the slot looked at
  last.  A displaced object is moved into the hole and leaves a hole behind.
\<close>

definition displaced :: "nat \<Rightarrow> nat \<Rightarrow> nat \<Rightarrow> bool" where
  "displaced hindex dindex tindex \<longleftrightarrow>
     (if dindex < hindex then dindex < tindex \<and> tindex \<le> hindex
      else dindex < tindex \<or> tindex \<le> hindex)"

fun close_hole :: "nat \<Rightarrow> ipc_entry list \<Rightarrow> nat \<Rightarrow> nat \<Rightarrow> ipc_entry list option" where
  "close_hole 0 table hindex dindex = None"
| "close_hole (Suc fuel) table hindex dindex =
     (let sz = length table;
          dindex = next_slot sz dindex;
          index = slot_index table dindex
      in if index = 0 then Some (set_index table hindex index)
         else if displaced hindex dindex (IH_LOCAL_HASH (ie_object (table ! index)) sz)
         then close_hole fuel (set_index table hindex index) dindex dindex
         else close_hole fuel table hindex dindex)"

definition ipc_hash_local_delete :: "ipc_entry list \<Rightarrow> addr \<Rightarrow> nat \<Rightarrow> ipc_entry list option" where
  "ipc_hash_local_delete table obj index =
     (let sz = length table in
      case probe (\<lambda>h. slot_index table h = index) sz sz (IH_LOCAL_HASH obj sz) of
        None \<Rightarrow> None
      | Some h \<Rightarrow> if index \<noteq> 0 then close_hole sz table h h else Some table)"

subsection \<open>The global table\<close>

text \<open>
  A tree entry in a bucket is identified by its space and name; its object does not
  change while it is hashed, so the bucket's list records it.
\<close>

record tree_ref =
  tr_space :: addr
  tr_name :: mach_port_t
  tr_object :: addr

record ipc_hash_global =
  ipc_hash_global_size :: natural_t
  ipc_hash_global_mask :: natural_t
  ipc_hash_global_table :: "tree_ref list list"

definition IH_GLOBAL_HASH :: "ipc_hash_global \<Rightarrow> addr \<Rightarrow> addr \<Rightarrow> nat" where
  "IH_GLOBAL_HASH g space obj =
     unat ((drop_bit 4 space + drop_bit 6 obj) AND ipc_hash_global_mask g)"

text \<open>Unlinking the first element of a list that satisfies a test: the walk with \<open>last\<close>.\<close>

fun unlink :: "('a \<Rightarrow> bool) \<Rightarrow> 'a list \<Rightarrow> ('a \<times> 'a list) option" where
  "unlink P [] = None"
| "unlink P (this # rest) =
     (if P this then Some (this, rest) else map_option (\<lambda>(y, ys). (y, this # ys)) (unlink P rest))"

definition set_bucket :: "ipc_hash_global \<Rightarrow> nat \<Rightarrow> tree_ref list \<Rightarrow> ipc_hash_global" where
  "set_bucket g i bucket = g\<lparr>ipc_hash_global_table := (ipc_hash_global_table g)[i := bucket]\<rparr>"

definition ipc_hash_global_lookup ::
  "ipc_hash_global \<Rightarrow> ipc_space \<Rightarrow> addr \<Rightarrow> mach_port_t option \<times> ipc_hash_global" where
  "ipc_hash_global_lookup g space obj =
     (let i = IH_GLOBAL_HASH g (is_self space) obj;
          match = (\<lambda>this. tr_object this = obj \<and> tr_space this = is_self space)
      in case ipc_hash_global_table g ! i of
           [] \<Rightarrow> (None, g)
         | this # rest \<Rightarrow>
             if match this then (Some (tr_name this), g)
             else case unlink match rest of
                    None \<Rightarrow> (None, g)
                  | Some (found, rest') \<Rightarrow> (Some (tr_name found), set_bucket g i (found # this # rest')))"

definition ipc_hash_global_insert ::
  "ipc_hash_global \<Rightarrow> ipc_space \<Rightarrow> addr \<Rightarrow> mach_port_t \<Rightarrow> ipc_space \<times> ipc_hash_global" where
  "ipc_hash_global_insert g space obj name =
     (let i = IH_GLOBAL_HASH g (is_self space) obj;
          entry = \<lparr>tr_space = is_self space, tr_name = name, tr_object = obj\<rparr>
      in (space\<lparr>is_tree_hash := is_tree_hash space + 1\<rparr>,
          set_bucket g i (entry # ipc_hash_global_table g ! i)))"

definition ipc_hash_global_delete ::
  "ipc_hash_global \<Rightarrow> ipc_space \<Rightarrow> addr \<Rightarrow> mach_port_t \<Rightarrow> ipc_space \<times> ipc_hash_global" where
  "ipc_hash_global_delete g space obj name =
     (let i = IH_GLOBAL_HASH g (is_self space) obj;
          space = space\<lparr>is_tree_hash := is_tree_hash space - 1\<rparr>
      in case unlink (\<lambda>this. tr_space this = is_self space \<and> tr_name this = name)
                (ipc_hash_global_table g ! i) of
           None \<Rightarrow> (space, g)
         | Some (_, bucket) \<Rightarrow> (space, set_bucket g i bucket))"

subsection \<open>The two tables together\<close>

text \<open>\<open>None\<close> is a local probe without end; otherwise the name and the entry found, if any.\<close>

definition ipc_hash_lookup ::
  "ipc_hash_global \<Rightarrow> ipc_space \<Rightarrow> addr \<Rightarrow> ((mach_port_t \<times> ipc_entry_ptr) option \<times> ipc_hash_global) option" where
  "ipc_hash_lookup g space obj =
     (case ipc_hash_local_lookup (is_table space) obj of
        None \<Rightarrow> None
      | Some index \<Rightarrow>
          Some (if index \<noteq> 0
                then (Some (MACH_PORT_MAKEB (of_nat index) (ie_bits (is_table space ! index)), TableEnt index), g)
                else if is_tree_hash space > 0
                then case ipc_hash_global_lookup g space obj of
                       (name, g') \<Rightarrow> (map_option (\<lambda>name. (name, TreeEnt name)) name, g')
                else (None, g)))"

definition ipc_hash_insert ::
  "ipc_hash_global \<Rightarrow> ipc_space \<Rightarrow> addr \<Rightarrow> mach_port_t \<Rightarrow> ipc_entry_ptr \<Rightarrow> (ipc_space \<times> ipc_hash_global) option" where
  "ipc_hash_insert g space obj name entry =
     (if in_table space name entry
      then map_option (\<lambda>table. (space\<lparr>is_table := table\<rparr>, g))
             (ipc_hash_local_insert (is_table space) obj (unat (MACH_PORT_INDEX name)))
      else Some (ipc_hash_global_insert g space obj name))"

definition ipc_hash_delete ::
  "ipc_hash_global \<Rightarrow> ipc_space \<Rightarrow> addr \<Rightarrow> mach_port_t \<Rightarrow> ipc_entry_ptr \<Rightarrow> (ipc_space \<times> ipc_hash_global) option" where
  "ipc_hash_delete g space obj name entry =
     (if in_table space name entry
      then map_option (\<lambda>table. (space\<lparr>is_table := table\<rparr>, g))
             (ipc_hash_local_delete (is_table space) obj (unat (MACH_PORT_INDEX name)))
      else Some (ipc_hash_global_delete g space obj name))"

subsection \<open>Initialisation and information\<close>

text \<open>
  The rounding loop sets the bits of the mask from the lowest upwards until the mask plus
  one is a power of two; 32 iterations set every bit.
\<close>

fun round_mask :: "nat \<Rightarrow> natural_t \<Rightarrow> natural_t \<Rightarrow> natural_t \<times> natural_t" where
  "round_mask 0 b msk = (msk + 1, msk)"
| "round_mask (Suc fuel) b msk =
     (let msk = msk OR b; sz = msk + 1
      in if sz AND msk = 0 then (sz, msk) else round_mask fuel (push_bit 1 b) msk)"

definition hash_global_sizes :: "natural_t \<Rightarrow> natural_t \<Rightarrow> natural_t \<times> natural_t" where
  "hash_global_sizes configured ipc_tree_entry_max =
     (let sz = (if configured = 0 then
                  let sz = drop_bit 8 ipc_tree_entry_max in if sz < 32 then 32 else sz
                else configured);
          msk = sz - 1
      in if sz AND msk \<noteq> 0 then round_mask 32 1 msk else (sz, msk))"

definition ipc_hash_init :: "natural_t \<Rightarrow> natural_t \<Rightarrow> ipc_hash_global" where
  "ipc_hash_init configured ipc_tree_entry_max =
     (let (sz, msk) = hash_global_sizes configured ipc_tree_entry_max
      in \<lparr>ipc_hash_global_size = sz, ipc_hash_global_mask = msk,
          ipc_hash_global_table = replicate (unat sz) []\<rparr>)"

definition ipc_hash_info :: "ipc_hash_global \<Rightarrow> nat \<Rightarrow> nat list \<times> natural_t" where
  "ipc_hash_info g count =
     (let count = (if unat (ipc_hash_global_size g) < count then unat (ipc_hash_global_size g) else count)
      in (map (\<lambda>i. length (ipc_hash_global_table g ! i)) [0 ..< count], ipc_hash_global_size g))"

subsection \<open>Cyclic distance and probing\<close>

definition dist :: "nat \<Rightarrow> nat \<Rightarrow> nat \<Rightarrow> nat" where
  "dist sz a b = (if a \<le> b then b - a else b + sz - a)"

lemma next_slot_less: "h < sz \<Longrightarrow> next_slot sz h < sz"
  by (auto simp: next_slot_def)

lemma dist_less: "a < sz \<Longrightarrow> b < sz \<Longrightarrow> dist sz a b < sz"
  by (auto simp: dist_def)

lemma dist_next: "a < sz \<Longrightarrow> b < sz \<Longrightarrow> a \<noteq> b \<Longrightarrow> Suc (dist sz (next_slot sz a) b) = dist sz a b"
  by (auto simp: dist_def next_slot_def)

lemma probe_stops:
  assumes "stop z" "z < sz" "h < sz" "dist sz h z < fuel"
  shows "\<exists>i. probe stop sz fuel h = Some i \<and> i < sz \<and> stop i \<and> dist sz h i \<le> dist sz h z \<and>
    (\<forall>k < sz. dist sz h k < dist sz h i \<longrightarrow> \<not> stop k)"
  using assms(3,4)
proof (induction fuel arbitrary: h)
  case (Suc fuel)
  show ?case
  proof (cases "stop h")
    case True
    then show ?thesis using Suc.prems assms(2) by (auto simp: dist_def)
  next
    case False
    then have "h \<noteq> z" using assms(1) by auto
    note nx = dist_next [OF Suc.prems(1) assms(2) this]
    obtain i where i: "probe stop sz fuel (next_slot sz h) = Some i" "i < sz" "stop i"
      "dist sz (next_slot sz h) i \<le> dist sz (next_slot sz h) z"
      "\<forall>k < sz. dist sz (next_slot sz h) k < dist sz (next_slot sz h) i \<longrightarrow> \<not> stop k"
      using Suc.IH [OF next_slot_less [OF Suc.prems(1)]] nx Suc.prems(2) by auto
    have "h \<noteq> i" using False i(3) by auto
    note nxi = dist_next [OF Suc.prems(1) i(2) this]
    have "\<not> stop k" if "k < sz" "dist sz h k < dist sz h i" for k
    proof (cases "k = h")
      case False
      then show ?thesis
        using dist_next [OF Suc.prems(1) that(1)] i(5) that nxi by fastforce
    qed (use \<open>\<not> stop h\<close> in simp)
    then show ?thesis
      using False i(1-4) nx nxi by (intro exI [of _ i]) auto
  qed
qed simp

subsection \<open>The invariant of the local table\<close>

text \<open>
  \<open>home\<close> is the slot an entry of the table hashes to.  Every used slot is reached from the home of
  its entry over used slots; no index is in two slots; and no two hashed entries have
  the same object.  As index 0 is never hashed, a slot is free: the remark of the code.
\<close>

definition home :: "ipc_entry list \<Rightarrow> nat \<Rightarrow> nat" where
  "home table index = IH_LOCAL_HASH (ie_object (table ! index)) (length table)"

definition hashed :: "ipc_entry list \<Rightarrow> nat set" where
  "hashed table = {slot_index table h | h. h < length table} - {0}"

lemma hashed_code [code]: "hashed table = set (map (slot_index table) [0 ..< length table]) - {0}"
  by (auto simp: hashed_def)

definition hash_chain :: "ipc_entry list \<Rightarrow> bool" where
  "hash_chain table \<longleftrightarrow> (\<forall>h < length table. slot_index table h \<noteq> 0 \<longrightarrow>
     (\<forall>k < length table. dist (length table) (home table (slot_index table h)) k \<le>
        dist (length table) (home table (slot_index table h)) h \<longrightarrow> slot_index table k \<noteq> 0))"

definition hash_distinct :: "ipc_entry list \<Rightarrow> bool" where
  "hash_distinct table \<longleftrightarrow> (\<forall>h < length table. \<forall>k < length table.
     slot_index table h \<noteq> 0 \<longrightarrow> slot_index table h = slot_index table k \<longrightarrow> h = k)"

definition hash_inv :: "ipc_entry list \<Rightarrow> bool" where
  "hash_inv table \<longleftrightarrow>
     0 < length table \<and> length table < 2 ^ 32 \<and>
     (\<forall>h < length table. slot_index table h < length table) \<and>
     hash_distinct table \<and> hash_chain table \<and>
     inj_on (\<lambda>i. ie_object (table ! i)) (hashed table)"

lemma free_slot:
  assumes "hash_inv table"
  shows "\<exists>z < length table. slot_index table z = 0"
proof (rule ccontr)
  let ?S = "{..<length table}"
  assume "\<not> ?thesis"
  then have "inj_on (slot_index table) ?S" "slot_index table ` ?S \<subseteq> {1..<length table}"
    using assms by (auto simp: hash_inv_def hash_distinct_def inj_on_def Suc_le_eq)
  from card_inj_on_le [OF this] show False
    using assms by (auto simp: hash_inv_def)
qed

lemma IH_LOCAL_HASH_less: "0 < sz \<Longrightarrow> IH_LOCAL_HASH obj sz < sz"
  by (simp add: IH_LOCAL_HASH_def)

lemma local_lookup_spec:
  assumes "hash_inv table"
  shows "\<exists>i. ipc_hash_local_lookup table obj = Some i \<and>
    (if i = 0 then \<forall>j \<in> hashed table. ie_object (table ! j) \<noteq> obj
     else i \<in> hashed table \<and> ie_object (table ! i) = obj)"
proof -
  let ?n = "length table"
  let ?stop = "\<lambda>h. slot_index table h = 0 \<or> ie_object (table ! slot_index table h) = obj"
  let ?p = "IH_LOCAL_HASH obj ?n"
  obtain z where z: "z < ?n" "slot_index table z = 0" using free_slot [OF assms] by blast
  have p: "?p < ?n" using assms by (simp add: hash_inv_def IH_LOCAL_HASH_less)
  obtain i where i: "probe ?stop ?n ?n ?p = Some i" "i < ?n" "?stop i"
    "\<forall>k < ?n. dist ?n ?p k < dist ?n ?p i \<longrightarrow> \<not> ?stop k"
    using probe_stops [of ?stop z ?n ?p ?n] z p dist_less [OF p z(1)] by auto
  have res: "ipc_hash_local_lookup table obj = Some (slot_index table i)"
    using i(1) by (simp add: ipc_hash_local_lookup_def Let_def)
  show ?thesis
  proof (cases "slot_index table i = 0")
    case False
    then show ?thesis using res i(2,3) by (auto simp: hashed_def)
  next
    case True
    have "ie_object (table ! j) \<noteq> obj" if j: "j \<in> hashed table" for j
    proof
      assume obj: "ie_object (table ! j) = obj"
      obtain h where h: "h < ?n" "slot_index table h = j" "j \<noteq> 0"
        using j by (auto simp: hashed_def)
      have "\<forall>k < ?n. dist ?n ?p k \<le> dist ?n ?p h \<longrightarrow> slot_index table k \<noteq> 0"
        using assms h obj by (auto simp: hash_inv_def hash_chain_def home_def)
      then have "dist ?n ?p h < dist ?n ?p i" using i(2) True by (metis not_le)
      then show False using i(4) h obj by auto
    qed
    then show ?thesis using res True by simp
  qed
qed

subsection \<open>Insertion\<close>

lemma slot_set_index:
  assumes "index < 2 ^ 32" "h < length table"
  shows "slot_index (set_index table h index) k = (if k = h then index else slot_index table k)"
    "ie_object (set_index table h index ! k) = ie_object (table ! k)"
    "length (set_index table h index) = length table"
  using assms
  by (auto simp: slot_index_def set_index_def nth_list_update unsigned_of_nat take_bit_nat_eq_self)

lemma home_set_index:
  assumes "index < 2 ^ 32" "h < length table"
  shows "home (set_index table h index) k = home table k"
  using assms by (simp add: home_def slot_set_index)

lemma home_less: "0 < length table \<Longrightarrow> home table i < length table"
  by (simp add: home_def IH_LOCAL_HASH_less)

lemma local_insert_spec:
  assumes inv: "hash_inv table" and index: "index < length table" "index \<noteq> 0" "index \<notin> hashed table"
    and obj: "\<forall>j \<in> hashed table. ie_object (table ! j) \<noteq> ie_object (table ! index)"
  shows "\<exists>h. ipc_hash_local_insert table (ie_object (table ! index)) index = Some (set_index table h index) \<and>
    h < length table \<and> hash_inv (set_index table h index) \<and>
    hashed (set_index table h index) = insert index (hashed table)"
proof -
  let ?n = "length table"
  let ?stop = "\<lambda>h. slot_index table h = 0"
  let ?p = "home table index"
  obtain z where z: "z < ?n" "?stop z" using free_slot [OF inv] by blast
  have p: "?p < ?n" using inv by (simp add: hash_inv_def home_less)
  obtain h where h: "probe ?stop ?n ?n ?p = Some h" "h < ?n" "?stop h"
    "\<forall>k < ?n. dist ?n ?p k < dist ?n ?p h \<longrightarrow> \<not> ?stop k"
    using probe_stops [of ?stop z ?n ?p ?n] z p dist_less [OF p z(1)] by auto
  have big: "index < 2 ^ 32" using inv index(1) by (simp add: hash_inv_def)
  let ?t = "set_index table h index"
  have chain: "g < ?n \<Longrightarrow> slot_index table g \<noteq> 0 \<Longrightarrow> k < ?n \<Longrightarrow>
      dist ?n (home table (slot_index table g)) k \<le> dist ?n (home table (slot_index table g)) g \<Longrightarrow>
      slot_index table k \<noteq> 0" for g k
    using inv unfolding hash_inv_def hash_chain_def by blast
  note set = slot_set_index [OF big h(2)] home_set_index [OF big h(2)]
  have hd: "hashed ?t = insert index (hashed table)"
    using h(2,3) index(2) by (auto simp: hashed_def set) (metis less_irrefl)
  have "hash_distinct ?t"
    using inv index(3) h(2) by (auto simp: hash_inv_def hash_distinct_def hashed_def set)
  moreover have "hash_chain ?t"
    unfolding hash_chain_def set
  proof (intro allI impI)
    fix g k
    assume g: "g < ?n" "(if g = h then index else slot_index table g) \<noteq> 0" and k: "k < ?n"
      and d: "dist ?n (home table (if g = h then index else slot_index table g)) k \<le>
        dist ?n (home table (if g = h then index else slot_index table g)) g"
    show "(if k = h then index else slot_index table k) \<noteq> 0"
    proof (cases "k = h")
      case False
      have "slot_index table k \<noteq> 0"
      proof (cases "g = h")
        case True
        have "dist ?n ?p k \<noteq> dist ?n ?p h"
          using False k h(2) p by (auto simp: dist_def split: if_splits)
        then show ?thesis using h(4) k d True by auto
      next
        case False
        then show ?thesis using chain [of g k] g k d by simp
      qed
      then show ?thesis using False by simp
    qed (use index in simp)
  qed
  moreover have "inj_on (\<lambda>i. ie_object (?t ! i)) (hashed ?t)"
    using inv obj index(3) by (auto simp: hd set hash_inv_def)
  ultimately have "hash_inv ?t"
    using inv index by (auto simp: hash_inv_def set)
  then show ?thesis
    using h(1,2) hd by (auto simp: ipc_hash_local_insert_def home_def Let_def)
qed

subsection \<open>Deletion\<close>

text \<open>
  The test of the code is that the hole lies on the way from the home of the object to its slot.
\<close>

lemma displaced_iff:
  "t < sz \<Longrightarrow> h < sz \<Longrightarrow> d < sz \<Longrightarrow> d \<noteq> h \<Longrightarrow> displaced h d t \<longleftrightarrow> dist sz t h \<le> dist sz t d"
  by (auto simp: displaced_def dist_def)

text \<open>
  The state of the deletion with hole \<open>h\<close> after looking at the slots up to \<open>d\<close>.  \<open>H\<close> is the set
  of indices that must remain.  The entries whose way from home contains the hole are beyond \<open>d\<close>.
\<close>

definition hole_inv :: "nat set \<Rightarrow> ipc_entry list \<Rightarrow> nat \<Rightarrow> nat \<Rightarrow> bool" where
  "hole_inv H table h d \<longleftrightarrow>
     (let n = length table in
      0 < n \<and> n < 2 ^ 32 \<and> h < n \<and> d < n \<and> (\<forall>k < n. slot_index table k < n) \<and>
      (\<exists>z < n. slot_index table z = 0) \<and>
      (\<forall>k < n. dist n h k \<le> dist n h d \<longrightarrow> slot_index table k \<noteq> 0) \<and>
      H = {slot_index table k | k. k < n \<and> k \<noteq> h} - {0} \<and>
      (\<forall>j < n. \<forall>k < n. j \<noteq> h \<longrightarrow> k \<noteq> h \<longrightarrow> slot_index table j \<noteq> 0 \<longrightarrow>
         slot_index table j = slot_index table k \<longrightarrow> j = k) \<and>
      (\<forall>j < n. j \<noteq> h \<longrightarrow> slot_index table j \<noteq> 0 \<longrightarrow>
         (let p = home table (slot_index table j) in
          (\<forall>k < n. dist n p k \<le> dist n p j \<longrightarrow> slot_index table k \<noteq> 0) \<and>
          (dist n p h \<le> dist n p j \<longrightarrow> dist n h d < dist n h j))))"

lemma hole_invI:
  assumes "n = length table" "0 < n" "n < 2 ^ 32" "h < n" "d < n" "\<And>k. k < n \<Longrightarrow> slot_index table k < n"
    and "\<exists>z < n. slot_index table z = 0"
    and "\<And>k. k < n \<Longrightarrow> dist n h k \<le> dist n h d \<Longrightarrow> slot_index table k \<noteq> 0"
    and "H = {slot_index table k | k. k < n \<and> k \<noteq> h} - {0}"
    and "\<And>j k. j < n \<Longrightarrow> k < n \<Longrightarrow> j \<noteq> h \<Longrightarrow> k \<noteq> h \<Longrightarrow> slot_index table j \<noteq> 0 \<Longrightarrow>
         slot_index table j = slot_index table k \<Longrightarrow> j = k"
    and "\<And>j k. j < n \<Longrightarrow> j \<noteq> h \<Longrightarrow> slot_index table j \<noteq> 0 \<Longrightarrow> k < n \<Longrightarrow>
         dist n (home table (slot_index table j)) k \<le> dist n (home table (slot_index table j)) j \<Longrightarrow>
         slot_index table k \<noteq> 0"
    and "\<And>j. j < n \<Longrightarrow> j \<noteq> h \<Longrightarrow> slot_index table j \<noteq> 0 \<Longrightarrow>
         dist n (home table (slot_index table j)) h \<le> dist n (home table (slot_index table j)) j \<Longrightarrow>
         dist n h d < dist n h j"
  shows "hole_inv H table h d"
  unfolding hole_inv_def Let_def assms(1) [symmetric]
  by (intro conjI allI impI; (rule assms(2-); assumption | fact assms(9)))

lemma next_not_hole:
  assumes "h < n" "d < n" "z < n" "dist n h d < dist n h z"
  shows "next_slot n d \<noteq> h" "dist n h (next_slot n d) = Suc (dist n h d)"
proof -
  show "next_slot n d \<noteq> h"
    using assms by (cases "Suc d = n") (auto simp: dist_def next_slot_def split: if_splits)
  then show "dist n h (next_slot n d) = Suc (dist n h d)"
    using assms(1,2) by (auto simp: dist_def next_slot_def split: if_splits)
qed

lemma dist_inj: "h < n \<Longrightarrow> j < n \<Longrightarrow> k < n \<Longrightarrow> dist n h j = dist n h k \<longleftrightarrow> j = k"
  by (auto simp: dist_def split: if_splits)

lemma hole_step_close:
  assumes "hole_inv H table h d" "slot_index table (next_slot (length table) d) = 0"
    and objs: "inj_on (\<lambda>i. ie_object (table ! i)) H"
  shows "hash_inv (set_index table h 0) \<and> hashed (set_index table h 0) = H"
proof -
  let ?n = "length table" and ?e = "next_slot (length table) d"
  have b: "h < ?n" "d < ?n" "0 < ?n" "?n < 2 ^ 32" "\<And>k. k < ?n \<Longrightarrow> slot_index table k < ?n"
    and H: "H = {slot_index table k | k. k < ?n \<and> k \<noteq> h} - {0}"
    and inj: "\<And>j k. j < ?n \<Longrightarrow> k < ?n \<Longrightarrow> j \<noteq> h \<Longrightarrow> k \<noteq> h \<Longrightarrow> slot_index table j \<noteq> 0 \<Longrightarrow>
         slot_index table j = slot_index table k \<Longrightarrow> j = k"
    and way: "\<And>j k. j < ?n \<Longrightarrow> j \<noteq> h \<Longrightarrow> slot_index table j \<noteq> 0 \<Longrightarrow> k < ?n \<Longrightarrow>
         dist ?n (home table (slot_index table j)) k \<le> dist ?n (home table (slot_index table j)) j \<Longrightarrow>
         slot_index table k \<noteq> 0"
    and far: "\<And>j. j < ?n \<Longrightarrow> j \<noteq> h \<Longrightarrow> slot_index table j \<noteq> 0 \<Longrightarrow>
         dist ?n (home table (slot_index table j)) h \<le> dist ?n (home table (slot_index table j)) j \<Longrightarrow>
         dist ?n h d < dist ?n h j"
    using assms(1) unfolding hole_inv_def Let_def by blast+
  have e: "?e < ?n" using b(2) by (rule next_slot_less)
  note set = slot_set_index [OF _ b(1), of 0, simplified] home_set_index [OF _ b(1), of 0, simplified]
  have clear: "\<not> dist ?n (home table (slot_index table j)) h \<le> dist ?n (home table (slot_index table j)) j"
    if j: "j < ?n" "j \<noteq> h" "slot_index table j \<noteq> 0" for j
  proof
    let ?p = "home table (slot_index table j)"
    assume on: "dist ?n ?p h \<le> dist ?n ?p j"
    have p: "?p < ?n" using b(3) by (rule home_less)
    have "dist ?n ?p ?e \<le> dist ?n ?p j"
      using far [OF j on] on p b(1,2) j(1)
      by (auto simp: dist_def next_slot_def split: if_splits)
    from way [OF j e this] assms(2) show False by simp
  qed
  have "hashed (set_index table h 0) = H"
    unfolding hashed_def set H by auto
  moreover have "hash_distinct (set_index table h 0)"
    using inj by (auto simp: hash_distinct_def set)
  moreover have "hash_chain (set_index table h 0)"
    unfolding hash_chain_def set using way clear by (auto split: if_splits)
  ultimately show ?thesis
    using b(3-5) objs by (auto simp: hash_inv_def set)
qed

lemma hole_step_skip:
  assumes "hole_inv H table h d" "slot_index table (next_slot (length table) d) \<noteq> 0"
    and "\<not> displaced h (next_slot (length table) d) (home table (slot_index table (next_slot (length table) d)))"
  shows "hole_inv H table h (next_slot (length table) d)"
proof -
  let ?n = "length table" and ?e = "next_slot (length table) d"
  have b: "h < ?n" "d < ?n" "0 < ?n" "?n < 2 ^ 32" "\<And>k. k < ?n \<Longrightarrow> slot_index table k < ?n"
    and H: "H = {slot_index table k | k. k < ?n \<and> k \<noteq> h} - {0}"
    and inj: "\<And>j k. j < ?n \<Longrightarrow> k < ?n \<Longrightarrow> j \<noteq> h \<Longrightarrow> k \<noteq> h \<Longrightarrow> slot_index table j \<noteq> 0 \<Longrightarrow>
         slot_index table j = slot_index table k \<Longrightarrow> j = k"
    and way: "\<And>j k. j < ?n \<Longrightarrow> j \<noteq> h \<Longrightarrow> slot_index table j \<noteq> 0 \<Longrightarrow> k < ?n \<Longrightarrow>
         dist ?n (home table (slot_index table j)) k \<le> dist ?n (home table (slot_index table j)) j \<Longrightarrow>
         slot_index table k \<noteq> 0"
    and used: "\<And>k. k < ?n \<Longrightarrow> dist ?n h k \<le> dist ?n h d \<Longrightarrow> slot_index table k \<noteq> 0"
    and far: "\<And>j. j < ?n \<Longrightarrow> j \<noteq> h \<Longrightarrow> slot_index table j \<noteq> 0 \<Longrightarrow>
         dist ?n (home table (slot_index table j)) h \<le> dist ?n (home table (slot_index table j)) j \<Longrightarrow>
         dist ?n h d < dist ?n h j"
    and z': "\<exists>z < ?n. slot_index table z = 0"
    using assms(1) unfolding hole_inv_def Let_def by blast+
  have e: "?e < ?n" using b(2) by (rule next_slot_less)
  obtain z where z: "z < ?n" "slot_index table z = 0" using z' by blast
  have zh: "dist ?n h d < dist ?n h z" using used [OF z(1)] z(2) by (metis not_le)
  note e_h = next_not_hole(1) [OF b(1,2) z(1) zh] and de = next_not_hole(2) [OF b(1,2) z(1) zh]
  have 1: "slot_index table k \<noteq> 0" if "k < ?n" "dist ?n h k \<le> dist ?n h ?e" for k
  proof (cases "k = ?e")
    case False
    then have "dist ?n h k \<noteq> dist ?n h ?e"
      using that(1) e b(1) by (simp add: dist_inj)
    then show ?thesis using used that de by simp
  qed (use assms(2) in simp)
  have 2: "dist ?n h ?e < dist ?n h j"
    if j: "j < ?n" "j \<noteq> h" "slot_index table j \<noteq> 0"
      "dist ?n (home table (slot_index table j)) h \<le> dist ?n (home table (slot_index table j)) j" for j
  proof -
    have "j \<noteq> ?e"
      using assms(3) j(4) displaced_iff [OF home_less [OF b(3)] b(1) e e_h] by auto
    then have "dist ?n h j \<noteq> dist ?n h ?e"
      using j(1) e b(1) by (simp add: dist_inj)
    then show ?thesis using far [OF j] de by simp
  qed
  show ?thesis
    by (rule hole_invI [OF refl b(3,4,1) e b(5) z' 1 H inj way 2])
qed

lemma hole_step_move:
  assumes "hole_inv H table h d" "slot_index table (next_slot (length table) d) \<noteq> 0"
    and "displaced h (next_slot (length table) d) (home table (slot_index table (next_slot (length table) d)))"
  shows "hole_inv H (set_index table h (slot_index table (next_slot (length table) d)))
      (next_slot (length table) d) (next_slot (length table) d)"
proof -
  let ?n = "length table" and ?e = "next_slot (length table) d"
  let ?i = "slot_index table ?e"
  have b: "h < ?n" "d < ?n" "0 < ?n" "?n < 2 ^ 32" "\<And>k. k < ?n \<Longrightarrow> slot_index table k < ?n"
    and used: "\<And>k. k < ?n \<Longrightarrow> dist ?n h k \<le> dist ?n h d \<Longrightarrow> slot_index table k \<noteq> 0"
    and H: "H = {slot_index table k | k. k < ?n \<and> k \<noteq> h} - {0}"
    and inj: "\<And>j k. j < ?n \<Longrightarrow> k < ?n \<Longrightarrow> j \<noteq> h \<Longrightarrow> k \<noteq> h \<Longrightarrow> slot_index table j \<noteq> 0 \<Longrightarrow>
         slot_index table j = slot_index table k \<Longrightarrow> j = k"
    and way: "\<And>j k. j < ?n \<Longrightarrow> j \<noteq> h \<Longrightarrow> slot_index table j \<noteq> 0 \<Longrightarrow> k < ?n \<Longrightarrow>
         dist ?n (home table (slot_index table j)) k \<le> dist ?n (home table (slot_index table j)) j \<Longrightarrow>
         slot_index table k \<noteq> 0"
    and z': "\<exists>z < ?n. slot_index table z = 0"
    using assms(1) unfolding hole_inv_def Let_def by blast+
  have e: "?e < ?n" using b(2) by (rule next_slot_less)
  obtain z where z: "z < ?n" "slot_index table z = 0" using z' by blast
  have zh: "dist ?n h d < dist ?n h z" using used [OF z(1)] z(2) by (metis not_le)
  note e_h = next_not_hole(1) [OF b(1,2) z(1) zh]
  have h0: "slot_index table h \<noteq> 0"
    using used [OF b(1)] by (simp add: dist_def)
  have i: "?i < 2 ^ 32" using b(4) b(5) [OF e] by simp
  let ?t = "set_index table h ?i"
  note set = slot_set_index [OF i b(1)] home_set_index [OF i b(1)]
  have same: "slot_index ?t k = 0 \<longleftrightarrow> slot_index table k = 0" for k
    using h0 assms(2) by (simp add: set)
  let ?p = "home table ?i"
  have p: "?p < ?n" using b(3) by (rule home_less)
  have on: "dist ?n ?p h \<le> dist ?n ?p ?e"
    using assms(3) displaced_iff [OF p b(1) e e_h] by simp
  have noe: "dist ?n ?p ?e > dist ?n ?p h"
    using on e_h dist_inj [OF p b(1) e] by linarith
  have H': "H = {slot_index ?t k | k. k < ?n \<and> k \<noteq> ?e} - {0}"
  proof -
    have "slot_index ?t ` ({..<?n} - {?e}) = slot_index table ` ({..<?n} - {h})"
    proof -
      have "{..<?n} - {?e} = insert h ({..<?n} - {h, ?e})" "{..<?n} - {h} = insert ?e ({..<?n} - {h, ?e})"
        using e e_h b(1) by auto
      then show ?thesis by (simp add: set) auto
    qed
    moreover have "{slot_index table k | k. k < ?n \<and> k \<noteq> h} = slot_index table ` ({..<?n} - {h})"
      "{slot_index ?t k | k. k < ?n \<and> k \<noteq> ?e} = slot_index ?t ` ({..<?n} - {?e})" by auto
    ultimately show ?thesis unfolding H by simp
  qed
  have 1: "j = k" if "j < ?n" "k < ?n" "j \<noteq> ?e" "k \<noteq> ?e" "slot_index ?t j \<noteq> 0"
    "slot_index ?t j = slot_index ?t k" for j k
    using that inj [of j k] inj [of j ?e] inj [of ?e k] e e_h assms(2) by (simp add: set split: if_splits)
  have 2: "slot_index ?t k \<noteq> 0" if "j < ?n" "j \<noteq> ?e" "slot_index ?t j \<noteq> 0" "k < ?n"
    "dist ?n (home ?t (slot_index ?t j)) k \<le> dist ?n (home ?t (slot_index ?t j)) j" for j k
  proof (cases "j = h")
    case True
    then have "dist ?n ?p k \<le> dist ?n ?p ?e" using that(5) on by (simp add: set)
    then show ?thesis using way [OF e e_h assms(2) that(4)] same by simp
  next
    case False
    then show ?thesis using way that same by (simp add: set)
  qed
  have 3: "dist ?n ?e ?e < dist ?n ?e j" if "j < ?n" "j \<noteq> ?e" for j
    using that e by (auto simp: dist_def)
  have 4: "slot_index ?t k \<noteq> 0" if "k < ?n" "dist ?n ?e k \<le> dist ?n ?e ?e" for k
  proof -
    have "k = ?e" using that e by (auto simp: dist_def split: if_splits)
    then show ?thesis using same assms(2) by simp
  qed
  have 5: "\<exists>z < ?n. slot_index ?t z = 0" using z same by blast
  have 6: "slot_index ?t k < ?n" if "k < ?n" for k
    using that b(5) e by (simp add: set)
  show ?thesis
    by (rule hole_invI [OF set(3) [symmetric] b(3,4) e e 6 5 4 H' 1 2 3])
qed

lemma close_hole_spec:
  assumes "hole_inv H table h d" "inj_on (\<lambda>i. ie_object (table ! i)) H"
    and "z < length table" "slot_index table z = 0" "dist (length table) d z \<le> fuel"
  shows "\<exists>t. close_hole fuel table h d = Some t \<and> length t = length table \<and> hash_inv t \<and> hashed t = H \<and>
    (\<exists>f. \<forall>k < length table. t ! k = (table ! k)\<lparr>ie_index := f k\<rparr>)"
  using assms
proof (induction fuel table h d rule: close_hole.induct)
  case (1 table h d)
  have "d < length table" "slot_index table d \<noteq> 0"
    using "1.prems"(1) by (auto simp: hole_inv_def Let_def)
  then show ?case
    using "1.prems"(3-5) by (auto simp: dist_def split: if_splits)
next
  case (2 fuel table h d)
  let ?n = "length table" and ?e = "next_slot (length table) d"
  let ?i = "slot_index table ?e"
  have b: "h < ?n" "d < ?n" "?n < 2 ^ 32" "?i < ?n" "slot_index table h \<noteq> 0" "slot_index table d \<noteq> 0"
    using "2.prems"(1) next_slot_less [of d ?n] by (auto simp: hole_inv_def Let_def dist_def)
  have upd: "\<exists>f. \<forall>k < ?n. set_index table h i ! k = (table ! k)\<lparr>ie_index := f k\<rparr>" for i
    by (rule exI [of _ "\<lambda>k. if k = h then of_nat i else ie_index (table ! k)"])
       (auto simp: set_index_def nth_list_update)
  have closer: "dist ?n ?e z \<le> fuel"
    using "2.prems"(3-5) b(2,6) dist_next [of d ?n z] by (cases "d = z") auto
  show ?case
  proof (cases "?i = 0")
    case True
    then show ?thesis
      using hole_step_close [OF "2.prems"(1) True "2.prems"(2)] upd [of 0]
      by (auto simp: Let_def set_index_def)
  next
    case used: False
    show ?thesis
    proof (cases "displaced h ?e (home table ?i)")
      case False
      then show ?thesis
        using "2.IH"(2) [OF refl refl refl used _ hole_step_skip [OF "2.prems"(1) used False] "2.prems"(2-4) closer]
          used by (simp add: Let_def home_def)
    next
      case True
      have i: "?i < 2 ^ 32" using b(3,4) by simp
      note set = slot_set_index [OF i b(1)]
      have inj: "inj_on (\<lambda>i. ie_object (set_index table h ?i ! i)) H"
        using "2.prems"(2) by (simp add: set)
      have z: "z < length (set_index table h ?i)" "slot_index (set_index table h ?i) z = 0"
        "dist (length (set_index table h ?i)) ?e z \<le> fuel"
        using "2.prems"(3,4) b(5) closer by (auto simp: set)
      obtain t f where t: "close_hole fuel (set_index table h ?i) ?e ?e = Some t" "length t = ?n"
        "hash_inv t" "hashed t = H" "\<forall>k < ?n. t ! k = (set_index table h ?i ! k)\<lparr>ie_index := f k\<rparr>"
        using "2.IH"(1) [OF refl refl refl used _ hole_step_move [OF "2.prems"(1) used True] inj z] True
        by (auto simp: set(3) home_def)
      have "\<exists>f. \<forall>k < ?n. t ! k = (table ! k)\<lparr>ie_index := f k\<rparr>"
      proof -
        obtain g where "\<forall>k < ?n. set_index table h ?i ! k = (table ! k)\<lparr>ie_index := g k\<rparr>"
          using upd by blast
        then show ?thesis using t(5) by (intro exI [of _ f]) auto
      qed
      then show ?thesis using t(1-4) used True by (simp add: Let_def home_def)
    qed
  qed
qed

lemma local_delete_spec:
  assumes inv: "hash_inv table" and index: "index \<in> hashed table"
  shows "\<exists>t. ipc_hash_local_delete table (ie_object (table ! index)) index = Some t \<and>
    length t = length table \<and> hash_inv t \<and> hashed t = hashed table - {index} \<and>
    (\<exists>f. \<forall>k < length table. t ! k = (table ! k)\<lparr>ie_index := f k\<rparr>)"
proof -
  let ?n = "length table"
  let ?stop = "\<lambda>h. slot_index table h = index"
  let ?p = "home table index"
  have p: "?p < ?n" using inv by (simp add: hash_inv_def home_less)
  obtain g where g: "g < ?n" "?stop g" "index \<noteq> 0" using index by (auto simp: hashed_def)
  obtain h where h: "probe ?stop ?n ?n ?p = Some h" "h < ?n" "?stop h"
    using probe_stops [of ?stop g ?n ?p ?n] g p dist_less [OF p g(1)] by auto
  obtain z where z: "z < ?n" "slot_index table z = 0" using free_slot [OF inv] by blast
  have b: "0 < ?n" "?n < 2 ^ 32" "\<And>k. k < ?n \<Longrightarrow> slot_index table k < ?n"
    and inj: "\<And>j k. j < ?n \<Longrightarrow> k < ?n \<Longrightarrow> slot_index table j \<noteq> 0 \<Longrightarrow>
         slot_index table j = slot_index table k \<Longrightarrow> j = k"
    and way: "\<And>j k. j < ?n \<Longrightarrow> slot_index table j \<noteq> 0 \<Longrightarrow> k < ?n \<Longrightarrow>
         dist ?n (home table (slot_index table j)) k \<le> dist ?n (home table (slot_index table j)) j \<Longrightarrow>
         slot_index table k \<noteq> 0"
    using inv unfolding hash_inv_def hash_distinct_def hash_chain_def by blast+
  have H: "hashed table - {index} = {slot_index table k | k. k < ?n \<and> k \<noteq> h} - {0}"
  proof -
    have "slot_index table k = index \<longleftrightarrow> k = h" if "k < ?n" for k
      using inj [OF that h(2)] h(3) g(3) by auto
    then show ?thesis unfolding hashed_def by auto
  qed
  have at: "dist ?n h h = 0" by (simp add: dist_def)
  have "hole_inv (hashed table - {index}) table h h"
  proof (rule hole_invI [OF refl b(1,2) h(2) h(2) b(3) _ _ H inj way])
    show "\<exists>z < ?n. slot_index table z = 0" using z by blast
    show "slot_index table k \<noteq> 0" if "k < ?n" "dist ?n h k \<le> dist ?n h h" for k
      using that at dist_inj [OF h(2) that(1) h(2)] h(3) g(3) by simp
    show "dist ?n h h < dist ?n h j" if "j < ?n" "j \<noteq> h" for j
      using that at dist_inj [OF h(2) that(1) h(2)] by simp
  qed
  moreover have "inj_on (\<lambda>i. ie_object (table ! i)) (hashed table - {index})"
    using inv unfolding hash_inv_def by (meson Diff_subset inj_on_subset)
  ultimately obtain t where "close_hole ?n table h h = Some t" "length t = ?n \<and> hash_inv t \<and>
      hashed t = hashed table - {index} \<and> (\<exists>f. \<forall>k < ?n. t ! k = (table ! k)\<lparr>ie_index := f k\<rparr>)"
    using close_hole_spec [of _ table h h z ?n] z dist_less [OF h(2) z(1)] by (meson less_imp_le)
  then show ?thesis
    using h(1) g(3) by (simp add: ipc_hash_local_delete_def home_def Let_def)
qed

lemma hash_inv_cong:
  assumes "length t = length table" "\<And>k. k < length table \<Longrightarrow> ie_index (t ! k) = ie_index (table ! k)"
    and "\<And>k. k \<in> hashed table \<Longrightarrow> ie_object (t ! k) = ie_object (table ! k)"
  shows "hashed t = hashed table" "hash_inv table \<Longrightarrow> hash_inv t"
proof -
  have s: "\<And>k. k < length table \<Longrightarrow> slot_index t k = slot_index table k"
    using assms(2) by (simp add: slot_index_def)
  then show h: "hashed t = hashed table" using assms(1) by (auto simp: hashed_def) metis
  have hm: "home t (slot_index table k) = home table (slot_index table k)"
    if "k < length table" "slot_index table k \<noteq> 0" for k
  proof -
    have "slot_index table k \<in> hashed table" using that by (auto simp: hashed_def)
    then show ?thesis using assms(1,3) by (simp add: home_def)
  qed
  show "hash_inv t" if inv: "hash_inv table"
  proof -
    have chain: "g < length table \<Longrightarrow> slot_index table g \<noteq> 0 \<Longrightarrow> k < length table \<Longrightarrow>
        dist (length table) (home table (slot_index table g)) k \<le>
        dist (length table) (home table (slot_index table g)) g \<Longrightarrow> slot_index table k \<noteq> 0" for g k
      using inv unfolding hash_inv_def hash_chain_def by blast
    have "inj_on (\<lambda>i. ie_object (t ! i)) (hashed t)"
      using inv inj_on_cong [of "hashed table" "\<lambda>i. ie_object (t ! i)" "\<lambda>i. ie_object (table ! i)"] assms(3)
      by (simp add: hash_inv_def h)
    moreover have "hash_distinct t"
      using inv s assms(1) by (simp add: hash_inv_def hash_distinct_def)
    moreover have "hash_chain t"
      unfolding hash_chain_def assms(1)
    proof (intro allI impI)
      fix g k
      assume g: "g < length table" "slot_index t g \<noteq> 0" and k: "k < length table"
        and d: "dist (length table) (home t (slot_index t g)) k \<le> dist (length table) (home t (slot_index t g)) g"
      have "slot_index table g \<noteq> 0" using g s by simp
      then have "slot_index table k \<noteq> 0"
        using chain [OF g(1) _ k] d hm [OF g(1)] s [OF g(1)] by simp
      then show "slot_index t k \<noteq> 0" using s k by simp
    qed
    ultimately show ?thesis
      using inv assms(1) s by (simp add: hash_inv_def)
  qed
qed

subsection \<open>The interface of a reverse map\<close>

text \<open>
  What \<open>ipc_right.c\<close> and \<open>ipc_entry.c\<close> rely on: a set of hashed entries, each with an
  object of its own, found by object.  A result \<open>None\<close> would be a probe that does not end.
\<close>

locale reverse_map =
  fixes inv :: "'t \<Rightarrow> bool"
    and hashed :: "'t \<Rightarrow> nat set"
    and slots :: "'t \<Rightarrow> nat"
    and object :: "'t \<Rightarrow> nat \<Rightarrow> addr"
    and lookup :: "'t \<Rightarrow> addr \<Rightarrow> nat option"
    and insert :: "'t \<Rightarrow> addr \<Rightarrow> nat \<Rightarrow> 't option"
    and delete :: "'t \<Rightarrow> addr \<Rightarrow> nat \<Rightarrow> 't option"
  assumes distinct_law: "inv t \<Longrightarrow> i \<in> hashed t \<Longrightarrow> j \<in> hashed t \<Longrightarrow> object t i = object t j \<Longrightarrow> i = j"
    and used_law: "inv t \<Longrightarrow> i \<in> hashed t \<Longrightarrow> i \<noteq> 0 \<and> i < slots t"
    and lookup_law: "inv t \<Longrightarrow> \<exists>i. lookup t ob = Some i \<and>
      (if i = 0 then \<forall>j \<in> hashed t. object t j \<noteq> ob else i \<in> hashed t \<and> object t i = ob)"
    and insert_law: "inv t \<Longrightarrow> i < slots t \<Longrightarrow> i \<noteq> 0 \<Longrightarrow> i \<notin> hashed t \<Longrightarrow>
      \<forall>j \<in> hashed t. object t j \<noteq> object t i \<Longrightarrow>
      \<exists>t'. insert t (object t i) i = Some t' \<and> inv t' \<and> hashed t' = Set.insert i (hashed t) \<and>
        slots t' = slots t \<and> (\<forall>k < slots t. object t' k = object t k)"
    and delete_law: "inv t \<Longrightarrow> i \<in> hashed t \<Longrightarrow>
      \<exists>t'. delete t (object t i) i = Some t' \<and> inv t' \<and> hashed t' = hashed t - {i} \<and>
        slots t' = slots t \<and> (\<forall>k < slots t. object t' k = object t k)"
begin

lemma lookup_hashed: "inv t \<Longrightarrow> i \<in> hashed t \<Longrightarrow> lookup t (object t i) = Some i"
  using lookup_law [of t "object t i"] distinct_law [of t _ i] by (auto split: if_splits)

lemma lookup_absent: "inv t \<Longrightarrow> \<forall>j \<in> hashed t. object t j \<noteq> ob \<Longrightarrow> lookup t ob = Some 0"
  using lookup_law [of t ob] by (auto split: if_splits)

text \<open>A lookup depends on the hashed entries and their objects only.\<close>

lemma lookup_cong:
  assumes "inv t" "inv t'" "hashed t' = hashed t" "\<And>i. i \<in> hashed t \<Longrightarrow> object t' i = object t i"
  shows "lookup t' ob = lookup t ob"
proof (cases "\<exists>i \<in> hashed t. object t i = ob")
  case True
  then show ?thesis using assms lookup_hashed [of t] lookup_hashed [of t'] by metis
next
  case False
  then show ?thesis using assms lookup_absent [of t ob] lookup_absent [of t' ob] by simp
qed

lemma insert_lookup:
  assumes "inv t" "i < slots t" "i \<noteq> 0" "i \<notin> hashed t" "\<forall>j \<in> hashed t. object t j \<noteq> object t i"
  shows "\<exists>t'. insert t (object t i) i = Some t' \<and> inv t' \<and>
    lookup t' ob = (if ob = object t i then Some i else lookup t ob)"
proof -
  obtain t' where t': "insert t (object t i) i = Some t'" "inv t'" "hashed t' = Set.insert i (hashed t)"
    "\<And>k. k < slots t \<Longrightarrow> object t' k = object t k"
    using insert_law [OF assms] by blast
  have "lookup t' ob = (if ob = object t i then Some i else lookup t ob)"
  proof (cases "\<exists>j \<in> hashed t'. object t' j = ob")
    case True
    then obtain j where j: "j \<in> hashed t'" "object t' j = ob" by blast
    have "object t' j = object t j" using j(1) t'(3,4) used_law [OF assms(1), of j] assms(2) by auto
    then show ?thesis
      using lookup_hashed [OF t'(2) j(1)] j t'(3) assms(5) lookup_hashed [OF assms(1), of j] by auto
  next
    case False
    then have "\<forall>j \<in> hashed t. object t j \<noteq> ob" "ob \<noteq> object t i"
      using t'(3,4) used_law [OF assms(1)] assms(2) by auto
    then show ?thesis
      using False lookup_absent [OF t'(2), of ob] lookup_absent [OF assms(1), of ob] by auto
  qed
  then show ?thesis using t' by blast
qed

lemma delete_lookup:
  assumes "inv t" "i \<in> hashed t"
  shows "\<exists>t'. delete t (object t i) i = Some t' \<and> inv t' \<and>
    lookup t' ob = (if ob = object t i then Some 0 else lookup t ob)"
proof -
  obtain t' where t': "delete t (object t i) i = Some t'" "inv t'" "hashed t' = hashed t - {i}"
    "\<And>k. k < slots t \<Longrightarrow> object t' k = object t k"
    using delete_law [OF assms] by blast
  have ob: "object t' j = object t j" if "j \<in> hashed t" for j
    using t'(4) used_law [OF assms(1) that] by blast
  have "lookup t' ob = (if ob = object t i then Some 0 else lookup t ob)"
  proof (cases "\<exists>j \<in> hashed t'. object t' j = ob")
    case True
    then obtain j where j: "j \<in> hashed t'" "object t' j = ob" by blast
    then show ?thesis
      using lookup_hashed [OF t'(2) j(1)] lookup_hashed [OF assms(1), of j] ob [of j] t'(3)
        distinct_law [OF assms(1) _ assms(2), of j] by auto
  next
    case False
    have "lookup t ob = Some 0" if "ob \<noteq> object t i"
      using False ob t'(3) that by (intro lookup_absent [OF assms(1)]) auto
    then show ?thesis using False lookup_absent [OF t'(2), of ob] by auto
  qed
  then show ?thesis using t' by blast
qed

end

interpretation local_hash: reverse_map hash_inv hashed length "\<lambda>t i. ie_object (t ! i)"
  ipc_hash_local_lookup ipc_hash_local_insert ipc_hash_local_delete
proof
  show "hash_inv t \<Longrightarrow> i \<in> hashed t \<Longrightarrow> j \<in> hashed t \<Longrightarrow> ie_object (t ! i) = ie_object (t ! j) \<Longrightarrow> i = j" for t i j
    by (simp add: hash_inv_def inj_on_def)
  show "hash_inv t \<Longrightarrow> i \<in> hashed t \<Longrightarrow> i \<noteq> 0 \<and> i < length t" for t i
    by (auto simp: hash_inv_def hashed_def)
  show "\<exists>t'. ipc_hash_local_insert t (ie_object (t ! i)) i = Some t' \<and> hash_inv t' \<and>
      hashed t' = Set.insert i (hashed t) \<and> length t' = length t \<and>
      (\<forall>k < length t. ie_object (t' ! k) = ie_object (t ! k))"
    if "hash_inv t" "i < length t" "i \<noteq> 0" "i \<notin> hashed t" "\<forall>j \<in> hashed t. ie_object (t ! j) \<noteq> ie_object (t ! i)"
    for t i
    using local_insert_spec [OF that] by (auto simp: set_index_def nth_list_update)
  show "\<exists>t'. ipc_hash_local_delete t (ie_object (t ! i)) i = Some t' \<and> hash_inv t' \<and>
      hashed t' = hashed t - {i} \<and> length t' = length t \<and>
      (\<forall>k < length t. ie_object (t' ! k) = ie_object (t ! k))"
    if "hash_inv t" "i \<in> hashed t" for t i
    using local_delete_spec [OF that] by auto
qed (rule local_lookup_spec)

subsection \<open>The global table\<close>

definition refs :: "ipc_hash_global \<Rightarrow> tree_ref set" where
  "refs g = (\<Union>i \<in> {..< length (ipc_hash_global_table g)}. set (ipc_hash_global_table g ! i))"

lemma refs_code [code]: "refs g = set (concat (ipc_hash_global_table g))"
  by (force simp: refs_def in_set_conv_nth)

definition global_inv :: "ipc_hash_global \<Rightarrow> bool" where
  "global_inv g \<longleftrightarrow>
     length (ipc_hash_global_table g) = unat (ipc_hash_global_mask g) + 1 \<and>
     (\<forall>i < length (ipc_hash_global_table g). \<forall>r \<in> set (ipc_hash_global_table g ! i).
        IH_GLOBAL_HASH g (tr_space r) (tr_object r) = i) \<and>
     (\<forall>r \<in> refs g. \<forall>r' \<in> refs g. tr_space r = tr_space r' \<longrightarrow> tr_object r = tr_object r' \<longrightarrow> r = r') \<and>
     (\<forall>i < length (ipc_hash_global_table g). distinct (ipc_hash_global_table g ! i))"

lemma global_hash_less: "global_inv g \<Longrightarrow> IH_GLOBAL_HASH g sp ob < length (ipc_hash_global_table g)"
proof -
  have "(a AND m) \<le> m" for a m :: natural_t
    by (rule word_and_le1)
  then show "global_inv g \<Longrightarrow> ?thesis"
    by (simp add: global_inv_def IH_GLOBAL_HASH_def word_le_nat_alt less_Suc_eq_le)
qed

lemma unlink_spec:
  "unlink P xs = None \<longleftrightarrow> (\<forall>x \<in> set xs. \<not> P x)"
  "unlink P xs = Some (y, ys) \<Longrightarrow> distinct xs \<Longrightarrow> P y \<and> y \<in> set xs \<and> distinct ys \<and> set ys = set xs - {y}"
  by (induction xs arbitrary: ys) (auto split: if_splits)

lemma bucket_home:
  "global_inv g \<Longrightarrow> i < length (ipc_hash_global_table g) \<Longrightarrow> r \<in> set (ipc_hash_global_table g ! i) \<Longrightarrow>
   IH_GLOBAL_HASH g (tr_space r) (tr_object r) = i"
  by (simp add: global_inv_def)

lemma bucket_refs:
  assumes "global_inv g" "i < length (ipc_hash_global_table g)"
  shows "r \<in> set (ipc_hash_global_table g ! i) \<longleftrightarrow> r \<in> refs g \<and> IH_GLOBAL_HASH g (tr_space r) (tr_object r) = i"
  using bucket_home [OF assms(1)] assms(2) by (auto simp: refs_def)

lemma set_bucket_refs:
  assumes "global_inv g" "i < length (ipc_hash_global_table g)"
  shows "refs (set_bucket g i b) = {r \<in> refs g. IH_GLOBAL_HASH g (tr_space r) (tr_object r) \<noteq> i} \<union> set b"
proof (intro set_eqI iffI)
  fix r assume "r \<in> refs (set_bucket g i b)"
  then obtain j where "j < length (ipc_hash_global_table g)" "r \<in> set ((ipc_hash_global_table g)[i := b] ! j)"
    by (auto simp: refs_def set_bucket_def)
  then show "r \<in> {r \<in> refs g. IH_GLOBAL_HASH g (tr_space r) (tr_object r) \<noteq> i} \<union> set b"
    using assms bucket_refs [OF assms(1), of j r] by (cases "j = i") auto
next
  fix r assume r: "r \<in> {r \<in> refs g. IH_GLOBAL_HASH g (tr_space r) (tr_object r) \<noteq> i} \<union> set b"
  let ?j = "IH_GLOBAL_HASH g (tr_space r) (tr_object r)"
  have "?j < length (ipc_hash_global_table g)" by (rule global_hash_less [OF assms(1)])
  then show "r \<in> refs (set_bucket g i b)"
    using r assms(2) bucket_refs [OF assms(1), of ?j r]
    by (cases "r \<in> set b") (auto simp: refs_def set_bucket_def intro: bexI [of _ i] bexI [of _ ?j])
qed

lemma set_bucket_inv:
  assumes "global_inv g" "i < length (ipc_hash_global_table g)" "distinct b"
    and "\<forall>r \<in> set b. IH_GLOBAL_HASH g (tr_space r) (tr_object r) = i"
    and "\<forall>r \<in> set b. \<forall>r' \<in> set b. tr_space r = tr_space r' \<longrightarrow> tr_object r = tr_object r' \<longrightarrow> r = r'"
  shows "global_inv (set_bucket g i b)"
proof -
  have h: "IH_GLOBAL_HASH (set_bucket g i b) sp ob = IH_GLOBAL_HASH g sp ob" for sp ob
    by (simp add: IH_GLOBAL_HASH_def set_bucket_def)
  have "r = r'" if r: "r \<in> refs (set_bucket g i b)" "r' \<in> refs (set_bucket g i b)"
    "tr_space r = tr_space r'" "tr_object r = tr_object r'" for r r'
  proof (cases "IH_GLOBAL_HASH g (tr_space r) (tr_object r) = i")
    case True
    then show ?thesis using r assms(5) unfolding set_bucket_refs [OF assms(1,2)] by auto
  next
    case False
    then have "r \<in> refs g" "r' \<in> refs g"
      using r assms(4) unfolding set_bucket_refs [OF assms(1,2)] by auto
    then show ?thesis using assms(1) r(3,4) by (simp add: global_inv_def)
  qed
  moreover have t: "ipc_hash_global_table (set_bucket g i b) ! k = (if k = i then b else ipc_hash_global_table g ! k)"
    if "k < length (ipc_hash_global_table g)" for k
    using that by (simp add: set_bucket_def)
  moreover have "length (ipc_hash_global_table (set_bucket g i b)) = length (ipc_hash_global_table g)"
    "ipc_hash_global_mask (set_bucket g i b) = ipc_hash_global_mask g"
    by (simp_all add: set_bucket_def)
  ultimately show ?thesis
    using assms unfolding global_inv_def h by auto
qed

lemma global_lookup_spec:
  assumes "global_inv g" "ipc_hash_global_lookup g space obj = (res, g')"
  shows "global_inv g' \<and> refs g' = refs g \<and>
    (case res of
       Some n \<Rightarrow> \<lparr>tr_space = is_self space, tr_name = n, tr_object = obj\<rparr> \<in> refs g
     | None \<Rightarrow> \<forall>r \<in> refs g. tr_space r = is_self space \<longrightarrow> tr_object r \<noteq> obj)"
proof -
  let ?i = "IH_GLOBAL_HASH g (is_self space) obj"
  let ?m = "\<lambda>r. tr_object r = obj \<and> tr_space r = is_self space"
  have i: "?i < length (ipc_hash_global_table g)" by (rule global_hash_less [OF assms(1)])
  note mem = bucket_refs [OF assms(1) i]
  have dist: "distinct (ipc_hash_global_table g ! ?i)" using assms(1) i by (simp add: global_inv_def)
  have absent: "\<forall>r \<in> refs g. tr_space r = is_self space \<longrightarrow> tr_object r \<noteq> obj"
    if "\<forall>r \<in> set (ipc_hash_global_table g ! ?i). \<not> ?m r"
    using that mem by auto
  have found: "\<lparr>tr_space = is_self space, tr_name = tr_name r, tr_object = obj\<rparr> = r" if "?m r" for r
    using that by (cases r) simp
  show ?thesis
  proof (cases "ipc_hash_global_table g ! ?i")
    case Nil
    then show ?thesis using assms absent by (simp add: ipc_hash_global_lookup_def Let_def)
  next
    case (Cons this rest)
    show ?thesis
    proof (cases "?m this")
      case True
      have "this \<in> refs g" using mem Cons by auto
      moreover have "res = Some (tr_name this)" "g' = g"
        using assms(2) Cons True by (simp_all add: ipc_hash_global_lookup_def Let_def)
      ultimately show ?thesis using assms(1) by (simp add: found [OF True])
    next
      case no: False
      show ?thesis
      proof (cases "unlink ?m rest")
        case None
        then have "\<forall>r \<in> set (ipc_hash_global_table g ! ?i). \<not> ?m r"
          using no Cons unlink_spec(1) [of ?m rest] by simp
        moreover have "ipc_hash_global_lookup g space obj = (None, g)"
          by (simp only: ipc_hash_global_lookup_def Let_def Cons None no list.case option.case if_False)
        then have "res = None" "g' = g" using assms(2) by auto
        ultimately show ?thesis using assms(1) absent by simp
      next
        case (Some x)
        obtain y ys where x: "x = (y, ys)" by fastforce
        have u: "?m y" "y \<in> set rest" "distinct ys" "set ys = set rest - {y}"
          using unlink_spec(2) [OF Some [unfolded x]] dist Cons by auto
        have "ipc_hash_global_lookup g space obj = (Some (tr_name y), set_bucket g ?i (y # this # ys))"
          by (simp only: ipc_hash_global_lookup_def Let_def Cons Some x no list.case option.case if_False prod.case)
        then have g': "g' = set_bucket g ?i (y # this # ys)" "res = Some (tr_name y)"
          using assms(2) by auto
        have same: "set (y # this # ys) = set (ipc_hash_global_table g ! ?i)"
          using u Cons by auto
        have r': "refs g' = refs g"
          unfolding g'(1) set_bucket_refs [OF assms(1) i] same using mem by auto
        moreover have "global_inv g'"
          unfolding g'(1)
        proof (rule set_bucket_inv [OF assms(1) i])
          show "distinct (y # this # ys)" using u dist Cons by auto
        qed (use same mem assms(1) in \<open>auto simp: global_inv_def\<close>)
        moreover have "y \<in> refs g" using mem same by auto
        ultimately show ?thesis using g'(2) found [OF u(1)] by simp
      qed
    qed
  qed
qed

lemma global_insert_spec:
  assumes "global_inv g" "\<forall>r \<in> refs g. tr_space r = is_self space \<longrightarrow> tr_object r \<noteq> obj"
    and "ipc_hash_global_insert g space obj name = (space', g')"
  shows "global_inv g' \<and> space' = space\<lparr>is_tree_hash := is_tree_hash space + 1\<rparr> \<and>
    refs g' = insert \<lparr>tr_space = is_self space, tr_name = name, tr_object = obj\<rparr> (refs g)"
proof -
  let ?i = "IH_GLOBAL_HASH g (is_self space) obj"
  let ?r = "\<lparr>tr_space = is_self space, tr_name = name, tr_object = obj\<rparr>"
  have i: "?i < length (ipc_hash_global_table g)" by (rule global_hash_less [OF assms(1)])
  note mem = bucket_refs [OF assms(1) i]
  have g': "g' = set_bucket g ?i (?r # ipc_hash_global_table g ! ?i)"
    "space' = space\<lparr>is_tree_hash := is_tree_hash space + 1\<rparr>"
    using assms(3) by (auto simp: ipc_hash_global_insert_def Let_def)
  have "global_inv g'"
    unfolding g'(1)
  proof (rule set_bucket_inv [OF assms(1) i])
    show "distinct (?r # ipc_hash_global_table g ! ?i)"
      using assms(1,2) i mem [of ?r] by (auto simp: global_inv_def)
    show "\<forall>r \<in> set (?r # ipc_hash_global_table g ! ?i). IH_GLOBAL_HASH g (tr_space r) (tr_object r) = ?i"
      using mem by simp
    have one: "r = r'" if "r \<in> refs g" "r' \<in> refs g" "tr_space r = tr_space r'" "tr_object r = tr_object r'" for r r'
      using that assms(1) by (simp add: global_inv_def)
    show "\<forall>r \<in> set (?r # ipc_hash_global_table g ! ?i). \<forall>r' \<in> set (?r # ipc_hash_global_table g ! ?i).
        tr_space r = tr_space r' \<longrightarrow> tr_object r = tr_object r' \<longrightarrow> r = r'"
      using one mem assms(2) by simp metis
  qed
  moreover have "refs g' = insert ?r (refs g)"
    unfolding g'(1) set_bucket_refs [OF assms(1) i] using mem by auto
  ultimately show ?thesis using g'(2) by simp
qed

lemma global_delete_spec:
  assumes "global_inv g" and r: "\<lparr>tr_space = is_self space, tr_name = name, tr_object = obj\<rparr> \<in> refs g"
    and one: "\<forall>r \<in> refs g. tr_space r = is_self space \<longrightarrow> tr_name r = name \<longrightarrow> tr_object r = obj"
    and "ipc_hash_global_delete g space obj name = (space', g')"
  shows "global_inv g' \<and> space' = space\<lparr>is_tree_hash := is_tree_hash space - 1\<rparr> \<and>
    refs g' = refs g - {\<lparr>tr_space = is_self space, tr_name = name, tr_object = obj\<rparr>}"
proof -
  let ?i = "IH_GLOBAL_HASH g (is_self space) obj"
  let ?r = "\<lparr>tr_space = is_self space, tr_name = name, tr_object = obj\<rparr>"
  let ?P = "\<lambda>this. tr_space this = is_self space \<and> tr_name this = name"
  have i: "?i < length (ipc_hash_global_table g)" by (rule global_hash_less [OF assms(1)])
  note mem = bucket_refs [OF assms(1) i]
  have dist: "distinct (ipc_hash_global_table g ! ?i)" using assms(1) i by (simp add: global_inv_def)
  have r_in: "?r \<in> set (ipc_hash_global_table g ! ?i)" using r mem by simp
  then obtain y ys where u: "unlink ?P (ipc_hash_global_table g ! ?i) = Some (y, ys)"
    using unlink_spec(1) [of ?P "ipc_hash_global_table g ! ?i"]
    by (cases "unlink ?P (ipc_hash_global_table g ! ?i)") auto
  note us = unlink_spec(2) [OF u dist]
  have y: "y = ?r"
  proof -
    have "y \<in> refs g" using us mem by blast
    then have "tr_object y = obj" using one us by blast
    then show ?thesis using us by (cases y) simp
  qed
  have g': "g' = set_bucket g ?i ys" "space' = space\<lparr>is_tree_hash := is_tree_hash space - 1\<rparr>"
    using assms(4) u by (auto simp: ipc_hash_global_delete_def Let_def)
  have uniq: "r = r'" if "r \<in> refs g" "r' \<in> refs g" "tr_space r = tr_space r'" "tr_object r = tr_object r'" for r r'
    using that assms(1) by (simp add: global_inv_def)
  have "global_inv g'"
    unfolding g'(1)
    by (rule set_bucket_inv [OF assms(1) i]) (use us mem uniq in auto)
  moreover have "refs g' = refs g - {?r}"
    unfolding g'(1) set_bucket_refs [OF assms(1) i] using us mem y by auto
  ultimately show ?thesis using g'(2) by simp
qed

subsection \<open>The size of the global table\<close>

text \<open>
  For a configured size up to \<open>2 ^ 31\<close> the loop stops before the mask is all ones, with a power of
  two not below the configured size.
\<close>

lemma round_mask_spec:
  fixes msk :: natural_t
  assumes "j + fuel = 32" "j < 31" "\<forall>i < j. bit msk i" "\<not> bit msk 31"
    and "round_mask fuel (push_bit j 1) msk = (sz, m)"
  shows "sz = m + 1 \<and> sz AND m = 0 \<and> \<not> bit m 31 \<and> (\<forall>i. bit msk i \<longrightarrow> bit m i)"
  using assms
proof (induction fuel arbitrary: j msk)
  case (Suc fuel)
  let ?m = "msk OR push_bit j 1"
  have b: "bit ?m i \<longleftrightarrow> bit msk i \<or> i = j" for i
    using Suc.prems(2) by (auto simp: bit_simps)
  show ?case
  proof (cases "(?m + 1) AND ?m = 0")
    case True
    then show ?thesis using Suc.prems b by (auto simp: Let_def)
  next
    case False
    have "j \<noteq> 30"
    proof
      assume j: "j = 30"
      have "?m = mask 31"
      proof (rule bit_word_eqI)
        fix n assume "n < LENGTH(32)"
        then show "bit ?m n \<longleftrightarrow> bit (mask 31 :: natural_t) n"
          using b [of n] Suc.prems(3,4) j by (cases "n < 30"; cases "n = 30"; cases "n = 31") (auto simp: bit_simps)
      qed
      then show False using False by (simp add: mask_eq_exp_minus_1)
    qed
    then have "sz = m + 1 \<and> sz AND m = 0 \<and> \<not> bit m 31 \<and> (\<forall>i. bit ?m i \<longrightarrow> bit m i)"
      using Suc.prems False b by (intro Suc.IH [of "Suc j" ?m]) (auto simp: Let_def less_Suc_eq push_bit_double mult.commute)
    then show ?thesis using b by blast
  qed
qed simp

lemma hash_global_sizes_spec:
  assumes "configured \<le> 0x80000000" "hash_global_sizes configured emax = (sz, m)"
  shows "sz = m + 1 \<and> sz AND m = 0 \<and> sz \<noteq> 0 \<and> configured \<le> sz"
proof -
  define s where "s = (if configured = 0 then let s = drop_bit 8 emax in if s < 32 then 32 else s else configured)"
  have s: "s \<noteq> 0" "s \<le> 0x80000000" "configured \<le> s"
  proof -
    have "drop_bit 8 emax \<le> 0x80000000"
      using unsigned_less [of emax, where ?'a = nat] by (simp add: word_le_nat_alt unat_drop_bit_eq drop_bit_eq_div unat_div)
    then show "s \<noteq> 0" "s \<le> 0x80000000" "configured \<le> s"
      using assms(1) by (auto simp: s_def Let_def word_gt_0 not_less)
  qed
  have res: "(if s AND (s - 1) \<noteq> 0 then round_mask 32 1 (s - 1) else (s, s - 1)) = (sz, m)"
    using assms(2) unfolding hash_global_sizes_def s_def [symmetric] by (simp only: Let_def)
  show ?thesis
  proof (cases "s AND (s - 1) = 0")
    case True
    then show ?thesis using res s by auto
  next
    case False
    have top: "\<not> bit x 31 \<longleftrightarrow> x < 2 ^ 31" for x :: natural_t
    proof -
      have "\<not> bit x 31 \<longleftrightarrow> take_bit 31 x = x"
      proof
        assume "\<not> bit x 31"
        then show "take_bit 31 x = x"
        proof (intro bit_word_eqI)
          fix n assume "n < LENGTH(32)"
          then have "n < 31 \<or> n = 31" by auto
          then show "bit (take_bit 31 x) n \<longleftrightarrow> bit x n"
            using \<open>\<not> bit x 31\<close> by (auto simp: bit_simps)
        qed
      next
        assume "take_bit 31 x = x"
        then show "\<not> bit x 31" by (metis bit_take_bit_iff less_irrefl)
      qed
      also have "\<dots> \<longleftrightarrow> x < 2 ^ 31" 
        by (simp add: word_unat_eq_iff unsigned_take_bit_eq take_bit_nat_eq_self_iff word_less_nat_alt)
      finally show ?thesis .
    qed
    have "s - 1 < 2 ^ 31" using s(1,2) by (simp add: word_less_nat_alt word_le_nat_alt unat_sub_if_size) (use s(1) unat_gt_0 [of s] in linarith)
    then have "\<not> bit (s - 1) 31" using top by blast
    from round_mask_spec [of 0 32 "s - 1", simplified, OF this] False res
    have r: "sz = m + 1" "sz AND m = 0" "\<not> bit m 31" "\<And>i. bit (s - 1) i \<Longrightarrow> bit m i" by auto
    have "(s - 1) AND m = s - 1"
      using r(4) by (intro bit_word_eqI) (auto simp: bit_simps)
    then have "s - 1 \<le> m" by (metis word_and_le1)
    moreover have "m < 2 ^ 31" using r(3) top by blast
    ultimately have "s \<le> m + 1" "m + 1 \<noteq> 0"
      using s(1) by (unat_arith; simp)+
    then show ?thesis using r s(3) by auto
  qed
qed

lemma hash_init_inv:
  assumes "configured \<le> 0x80000000"
  shows "global_inv (ipc_hash_init configured emax)" "refs (ipc_hash_init configured emax) = {}"
proof -
  obtain sz m where h: "hash_global_sizes configured emax = (sz, m)" by fastforce
  note spec = hash_global_sizes_spec [OF assms h]
  have "unat sz = unat m + 1"
    using spec unatSuc [of m] by (metis add.commute Suc_eq_plus1)
  then show "refs (ipc_hash_init configured emax) = {}" "global_inv (ipc_hash_init configured emax)"
    by (auto simp: ipc_hash_init_def h refs_def global_inv_def simp del: replicate.simps)
qed

subsection \<open>Properties\<close>

text \<open>C28: In the local hash table every lookup ends within one round of the table and returns the
  index of the entry with the object.  Inserting an entry and then looking up finds it, deleting one
  makes its object unknown, and every other object is found as before: the deletion that moves displaced
  entries into the hole loses none.\<close>

theorem local_hash_exact:
  assumes "hash_inv t"
  shows "(i < length t \<and> i \<noteq> 0 \<and> i \<notin> hashed t \<and> (\<forall>j \<in> hashed t. ie_object (t ! j) \<noteq> ie_object (t ! i)) \<longrightarrow>
      (\<exists>t'. ipc_hash_local_insert t (ie_object (t ! i)) i = Some t' \<and> hash_inv t' \<and>
         ipc_hash_local_lookup t' obj =
           (if obj = ie_object (t ! i) then Some i else ipc_hash_local_lookup t obj))) \<and>
    (i \<in> hashed t \<longrightarrow>
      ipc_hash_local_lookup t (ie_object (t ! i)) = Some i \<and>
      (\<exists>t'. ipc_hash_local_delete t (ie_object (t ! i)) i = Some t' \<and> hash_inv t' \<and>
         ipc_hash_local_lookup t' obj =
           (if obj = ie_object (t ! i) then Some 0 else ipc_hash_local_lookup t obj))) \<and>
    ipc_hash_local_lookup t obj \<noteq> None"
  using local_hash.insert_lookup [OF assms, of i obj] local_hash.delete_lookup [OF assms, of i obj]
    local_hash.lookup_hashed [OF assms, of i] local_hash.lookup_law [OF assms, of obj] by auto

text \<open>A table of eight slots in which entries 1, 2 and 3 collide at slot 6 and wrap around.\<close>

definition hash_table8 :: "ipc_entry list" where
  "hash_table8 =
     [zero_entry\<lparr>ie_index := 3\<rparr>, zero_entry\<lparr>ie_object := 0x180\<rparr>, zero_entry\<lparr>ie_object := 0x380\<rparr>,
      zero_entry\<lparr>ie_object := 0x580\<rparr>, zero_entry\<lparr>ie_object := 0x1c0\<rparr>, zero_entry,
      zero_entry\<lparr>ie_index := 1\<rparr>, zero_entry\<lparr>ie_index := 2\<rparr>]"

lemma all8: "(\<forall>h < 8. P h) \<longleftrightarrow> P 0 \<and> P 1 \<and> P 2 \<and> P 3 \<and> P 4 \<and> P 5 \<and> P 6 \<and> P (7 :: nat)"
proof -
  have "set [0 ..< 8] = {0, 1, 2, 3, 4, 5, 6, 7 :: nat}" by code_simp
  then have "(\<forall>h < 8. P h) \<longleftrightarrow> (\<forall>h \<in> {0, 1, 2, 3, 4, 5, 6, 7}. P h)"
    by (metis atLeastLessThan_iff atLeast_upt lessThan_iff)
  then show ?thesis by simp
qed

lemma hash_table8_slots:
  "length hash_table8 = 8" "slot_index hash_table8 0 = 3" "slot_index hash_table8 1 = 0"
  "slot_index hash_table8 2 = 0" "slot_index hash_table8 3 = 0" "slot_index hash_table8 4 = 0"
  "slot_index hash_table8 5 = 0" "slot_index hash_table8 6 = 1" "slot_index hash_table8 7 = 2"
  "home hash_table8 1 = 6" "home hash_table8 2 = 6" "home hash_table8 3 = 6"
  "hashed hash_table8 = {1, 2, 3}"
  by code_simp+

lemma hash_table8_inv: "hash_inv hash_table8"
proof -
  have "hash_distinct hash_table8"
    by (simp only: hash_distinct_def hash_table8_slots all8) simp
  moreover have "hash_chain hash_table8"
    by (simp only: hash_chain_def hash_table8_slots all8) (simp add: dist_def hash_table8_slots [simplified])
  moreover have "inj_on (\<lambda>i. ie_object (hash_table8 ! i)) {1, 2, 3}"
    by (simp add: hash_table8_def)
  ultimately show ?thesis
    by (simp only: hash_inv_def hash_table8_slots all8) simp
qed

theorem local_hash_exact_witness:
  "(\<exists>t'. ipc_hash_local_insert hash_table8 0x1c0 4 = Some t' \<and> ipc_hash_local_lookup t' 0x1c0 = Some 4) \<and>
   (\<exists>t'. ipc_hash_local_delete hash_table8 0x180 1 = Some t' \<and> ipc_hash_local_lookup t' 0x580 = Some 3)"
proof -
  have ob: "ie_object (hash_table8 ! 1) = 0x180" "ie_object (hash_table8 ! 2) = 0x380"
    "ie_object (hash_table8 ! 3) = 0x580" "ie_object (hash_table8 ! 4) = 0x1c0" by code_simp+
  have "ipc_hash_local_lookup hash_table8 0x580 = Some 3" by code_simp
  with local_hash_exact [OF hash_table8_inv, of 4 "0x1c0"] local_hash_exact [OF hash_table8_inv, of 1 "0x580"]
  show ?thesis by (simp only: ob hash_table8_slots) (auto simp: ob [simplified])
qed

text \<open>In the global hash table a lookup of (space, object) returns the name of the tree entry inserted
  for it, or nothing when there is none; moving it to the front of its bucket keeps the set of
  entries.  Insertion adds exactly the new entry, deletion removes exactly the given one.\<close>

theorem global_hash_exact:
  assumes "global_inv g"
  shows "global_inv (snd (ipc_hash_global_lookup g space obj)) \<and>
    refs (snd (ipc_hash_global_lookup g space obj)) = refs g \<and>
    (fst (ipc_hash_global_lookup g space obj) = Some n \<longleftrightarrow>
      \<lparr>tr_space = is_self space, tr_name = n, tr_object = obj\<rparr> \<in> refs g) \<and>
    (fst (ipc_hash_global_lookup g space obj) = None \<longrightarrow>
      global_inv (snd (ipc_hash_global_insert g space obj n)) \<and>
      refs (snd (ipc_hash_global_insert g space obj n)) =
        insert \<lparr>tr_space = is_self space, tr_name = n, tr_object = obj\<rparr> (refs g)) \<and>
    (fst (ipc_hash_global_lookup g space obj) = Some n \<and>
     (\<forall>r \<in> refs g. tr_space r = is_self space \<longrightarrow> tr_name r = n \<longrightarrow> tr_object r = obj) \<longrightarrow>
      refs (snd (ipc_hash_global_delete g space obj n)) =
        refs g - {\<lparr>tr_space = is_self space, tr_name = n, tr_object = obj\<rparr>})"
proof -
  obtain res g' where l: "ipc_hash_global_lookup g space obj = (res, g')" by fastforce
  obtain s1 g1 where i: "ipc_hash_global_insert g space obj n = (s1, g1)" by fastforce
  obtain s2 g2 where d: "ipc_hash_global_delete g space obj n = (s2, g2)" by fastforce
  note spec = global_lookup_spec [OF assms l]
  have uniq: "\<And>r r'. r \<in> refs g \<Longrightarrow> r' \<in> refs g \<Longrightarrow> tr_space r = tr_space r' \<Longrightarrow> tr_object r = tr_object r' \<Longrightarrow> r = r'"
    using assms by (simp add: global_inv_def)
  have iff: "res = Some n \<longleftrightarrow> \<lparr>tr_space = is_self space, tr_name = n, tr_object = obj\<rparr> \<in> refs g"
  proof (cases res)
    case None
    then show ?thesis using spec by auto
  next
    case (Some m)
    then have "\<lparr>tr_space = is_self space, tr_name = m, tr_object = obj\<rparr> \<in> refs g" using spec by simp
    then show ?thesis using Some uniq [of "\<lparr>tr_space = is_self space, tr_name = m, tr_object = obj\<rparr>"
        "\<lparr>tr_space = is_self space, tr_name = n, tr_object = obj\<rparr>"] by auto
  qed
  show ?thesis
    using spec iff global_insert_spec [OF assms _ i] global_delete_spec [OF assms _ _ d]
    unfolding l i d fst_conv snd_conv by (auto split: option.splits)
qed

definition hash_space :: ipc_space where
  "hash_space = \<lparr>is_self = 0x1000, is_references = 1, is_active = True, is_growing = False,
     is_table = [], is_table_next = 1,
     is_tree = \<lparr>ist_name = 0, ist_root = ITE_NULL, ist_ltree = [], ist_rtree = []\<rparr>,
     is_tree_total = 2, is_tree_small = 0, is_tree_hash = 2, is_fast = False\<rparr>"

definition hash_global2 :: ipc_hash_global where
  "hash_global2 = snd (ipc_hash_global_insert (snd (ipc_hash_global_insert (ipc_hash_init 2 0)
     hash_space 0x40 0x5003)) hash_space 0xc0 0x6003)"

theorem global_hash_exact_witness:
  "global_inv hash_global2 \<and> fst (ipc_hash_global_lookup hash_global2 hash_space 0x40) = Some 0x5003 \<and>
   refs (snd (ipc_hash_global_lookup hash_global2 hash_space 0x40)) = refs hash_global2"
proof -
  have "global_inv hash_global2" "\<lparr>tr_space = is_self hash_space, tr_name = 0x5003, tr_object = 0x40\<rparr> \<in> refs hash_global2"
    by code_simp+
  with global_hash_exact [of hash_global2 hash_space "0x40" "0x5003"] show ?thesis by simp
qed

text \<open>\<open>ipc_hash_init\<close> ends and makes the table's size a power of two (no bit in common with the size minus
  one) not below the configured size, for every configured size that fits, so that masking a hash always
  gives a bucket of the table; it starts empty.\<close>

theorem hash_init_exact:
  assumes "configured \<le> 0x80000000"
  shows "(case ipc_hash_init configured entries of g \<Rightarrow>
      ipc_hash_global_size g AND (ipc_hash_global_size g - 1) = 0 \<and>
      ipc_hash_global_size g \<noteq> 0 \<and> configured \<le> ipc_hash_global_size g \<and>
      length (ipc_hash_global_table g) = unat (ipc_hash_global_size g) \<and>
      IH_GLOBAL_HASH g space obj < length (ipc_hash_global_table g) \<and>
      global_inv g \<and> refs g = {})"
proof -
  obtain sz m where h: "hash_global_sizes configured entries = (sz, m)" by fastforce
  note spec = hash_global_sizes_spec [OF assms h] and inv = hash_init_inv [OF assms, of entries]
  have "m = sz - 1" using spec by simp
  then show ?thesis
    using spec inv global_hash_less [OF inv(1), of space obj] by (auto simp: ipc_hash_init_def h)
qed

theorem hash_init_exact_witness:
  "ipc_hash_global_size (ipc_hash_init 100 0) = 128 \<and> global_inv (ipc_hash_init 100 0)"
proof -
  have "(100 :: natural_t) \<le> 0x80000000" "ipc_hash_global_size (ipc_hash_init 100 0) = 128" by code_simp+
  with hash_init_exact [of 100 0] show ?thesis by (simp add: Let_def)
qed

end
