(* ===== verification/Ipc_Entry.thy ===== *)
theory Ipc_Entry
  imports Ipc_Hash
begin

section \<open>Capability entries of a space\<close>

text \<open>
  \<open>ipc/ipc_entry.c\<close>: the entries of a space live in its table (by index) or, when the
  index is beyond the table or taken by another generation, in its splay tree (by name).
  Every operation works on the pair of the space and the global reverse hash table.
  The tree reorganises itself on lookups, so these return the space too.
\<close>

type_synonym entry_state = "ipc_space \<times> ipc_hash_global"

definition ipc_entry_tree_collision :: "ipc_space \<Rightarrow> mach_port_t \<Rightarrow> bool \<times> ipc_space" where
  "ipc_entry_tree_collision space name =
     (let (lower, upper, tree) = ipc_splay_tree_bounds (is_tree space) name;
          index = MACH_PORT_INDEX name
      in (lower \<noteq> NOT 0 \<and> MACH_PORT_INDEX lower = index \<or> upper \<noteq> 0 \<and> MACH_PORT_INDEX upper = index,
          space\<lparr>is_tree := tree\<rparr>))"

definition tree_lookup :: "ipc_space \<Rightarrow> mach_port_t \<Rightarrow> ipc_entry_ptr option \<times> ipc_space" where
  "tree_lookup space name =
     (case ipc_splay_tree_lookup (is_tree space) name of
        (res, tree) \<Rightarrow> (map_option (\<lambda>_. TreeEnt name) res, space\<lparr>is_tree := tree\<rparr>))"

text \<open>A fast space has no tree and the code does not check the index against the table's size.\<close>

definition ipc_entry_lookup :: "ipc_space \<Rightarrow> mach_port_t \<Rightarrow> ipc_entry_ptr option \<times> ipc_space" where
  "ipc_entry_lookup space name =
     (let index = unat (MACH_PORT_INDEX name); entry = is_table space ! index in
      if is_fast space then
        (if IE_BITS_GEN (ie_bits entry) \<noteq> MACH_PORT_GEN name \<or> IE_BITS_TYPE (ie_bits entry) = MACH_PORT_TYPE_NONE
         then None else Some (TableEnt index), space)
      else if index < is_table_size space then
        if IE_BITS_GEN (ie_bits entry) \<noteq> MACH_PORT_GEN name
        then if ie_bits entry AND IE_BITS_COLLISION \<noteq> 0 then tree_lookup space name else (None, space)
        else if IE_BITS_TYPE (ie_bits entry) = MACH_PORT_TYPE_NONE then (None, space)
        else (Some (TableEnt index), space)
      else if is_tree_total space = 0 then (None, space)
      else tree_lookup space name)"

text \<open>\<open>None\<close> is \<open>KERN_NO_SPACE\<close>.\<close>

definition ipc_entry_get :: "ipc_space \<Rightarrow> (mach_port_t \<times> ipc_entry_ptr \<times> ipc_space) option" where
  "ipc_entry_get space =
     (let table = is_table space; first_free = ie_next (table ! 0); i = unat first_free in
      if first_free = 0 then None
      else
        let table = table[0 := (table ! 0)\<lparr>ie_request := ie_next (table ! i)\<rparr>];
            gen = IE_BITS_NEW_GEN (ie_bits (table ! i));
            table = table[i := (table ! i)\<lparr>ie_bits := gen, ie_request := 0\<rparr>]
        in Some (MACH_PORT_MAKE first_free gen, TableEnt i, space\<lparr>is_table := table\<rparr>))"

subsection \<open>ipc_entry_grow_table\<close>

text \<open>
  What growing depends on: the sizes of tables, whether an allocation of so many entries and of a tree
  entry succeeds, and what other threads do to the state while the space is unlocked.
\<close>

record entry_env =
  env_its :: "nat list"
  env_table_mem :: "nat \<Rightarrow> bool"
  env_tree_mem :: bool
  env_others :: "entry_state \<Rightarrow> entry_state"

definition ITS_SIZE_NONE :: natural_t where
  "ITS_SIZE_NONE = - 1"

definition sizeof_ipc_tree_entry :: nat where
  "sizeof_ipc_tree_entry = 32"

text \<open>The search for a size not below the target; the array repeats its last size, which ends it.\<close>

fun grow_search :: "nat list \<Rightarrow> nat \<Rightarrow> natural_t \<Rightarrow> nat \<Rightarrow> nat \<Rightarrow> nat \<times> nat" where
  "grow_search its 0 target psize i = (psize, i)"
| "grow_search its (Suc fuel) target psize i =
     (if psize \<noteq> its ! i \<and> unat target > its ! i then grow_search its fuel target (its ! i) (i + 1)
      else (psize, i))"

text \<open>The new table: the old entries with cleared \<open>ie_index\<close>, and zeroes.\<close>

definition grown_table :: "ipc_entry list \<Rightarrow> nat \<Rightarrow> ipc_entry list" where
  "grown_table otable sz =
     map (\<lambda>e. e\<lparr>ie_index := 0\<rparr>) otable @ replicate (sz - length otable) zero_entry"

fun rehash :: "nat list \<Rightarrow> ipc_entry list \<Rightarrow> ipc_entry list option" where
  "rehash [] table = Some table"
| "rehash (i # is) table =
     (if IE_BITS_TYPE (ie_bits (table ! i)) = MACH_PORT_TYPE_SEND
      then case ipc_hash_local_insert table (ie_object (table ! i)) i of
             None \<Rightarrow> None | Some table' \<Rightarrow> rehash is table'
      else rehash is table)"

text \<open>One turn of the loop that moves tree entries into the table, with the flag to delete the entry.\<close>

definition move_entry :: "entry_state option \<Rightarrow> mach_port_t \<times> ipc_entry \<Rightarrow> entry_state option \<times> bool" where
  "move_entry st x =
     (case st of None \<Rightarrow> (None, False) | Some (space, g) \<Rightarrow>
        let (name, tentry) = x;
            gen = MACH_PORT_GEN name;
            index = unat (MACH_PORT_INDEX name);
            entry = is_table space ! index;
            bits = ie_bits entry
        in if bits \<noteq> 0
           then (Some (space\<lparr>is_table := (is_table space)[index := entry\<lparr>ie_bits := bits OR IE_BITS_COLLISION\<rparr>]\<rparr>, g), False)
           else
             let bits = ie_bits tentry; type = IE_BITS_TYPE bits; obj = ie_object tentry;
                 entry = entry\<lparr>ie_bits := bits OR gen, ie_object := obj, ie_request := ie_request tentry\<rparr>;
                 space = space\<lparr>is_table := (is_table space)[index := entry]\<rparr>
             in case (if type = MACH_PORT_TYPE_SEND
                      then let (space, g) = ipc_hash_global_delete g space obj name
                           in map_option (\<lambda>table. (space\<lparr>is_table := table\<rparr>, g))
                                (ipc_hash_local_insert (is_table space) obj index)
                      else Some (space, g)) of
                  None \<Rightarrow> (None, True)
                | Some (space, g) \<Rightarrow> (Some (space\<lparr>is_tree_total := is_tree_total space - 1\<rparr>, g), True))"

definition count_small :: "natural_t \<times> mach_port_index_t \<Rightarrow> mach_port_t \<times> ipc_entry \<Rightarrow>
    (natural_t \<times> mach_port_index_t) \<times> bool" where
  "count_small st x =
     (let (nosmall, index) = st; nindex = MACH_PORT_INDEX (fst x)
      in (if nindex \<noteq> index then (nosmall + 1, nindex) else (nosmall, index), False))"

definition no_tree :: "ipc_entry ipc_splay_tree" where
  "no_tree = \<lparr>ist_name = 0, ist_root = ITE_NULL, ist_ltree = [], ist_rtree = []\<rparr>"

text \<open>
  The work on the splay tree: split it at the three boundaries, move the second region, count the
  third, join.  \<open>None\<close> would be a corrupt traversal or a probe without end.
\<close>

definition transfer_tree :: "nat \<Rightarrow> nat \<Rightarrow> nat \<Rightarrow> entry_state \<Rightarrow> entry_state option" where
  "transfer_tree osize sz nsize st =
     (let (space, g) = st;
          (tree, small) = ipc_splay_tree_split (is_tree space) (MACH_PORT_MAKE (of_nat nsize) 0) no_tree;
          (small, move) = ipc_splay_tree_split small (MACH_PORT_MAKE (of_nat sz) 0) no_tree;
          (move, ignore) = ipc_splay_tree_split move (MACH_PORT_MAKE (of_nat osize) 0) no_tree
      in case ipc_splay_traverse move_entry (Some (space, g)) move of
           None \<Rightarrow> None
         | Some (None, _) \<Rightarrow> None
         | Some (Some (space, g), move) \<Rightarrow>
             (case ipc_splay_traverse count_small (0, 0) small of
                None \<Rightarrow> None
              | Some ((nosmall, _), small) \<Rightarrow>
                  let tree = fst (ipc_splay_tree_join tree small);
                      tree = fst (ipc_splay_tree_join tree move);
                      tree = fst (ipc_splay_tree_join tree ignore)
                  in Some (space\<lparr>is_tree_small := nosmall, is_tree := tree\<rparr>, g)))"

text \<open>The loop that puts the unused new entries on the free list, from the last to the first.\<close>

fun free_new :: "nat list \<Rightarrow> ipc_entry list \<Rightarrow> mach_port_index_t \<Rightarrow> ipc_entry list \<times> mach_port_index_t" where
  "free_new [] table free_index = (table, free_index)"
| "free_new (i # is) table free_index =
     (if ie_bits (table ! i) = 0
      then free_new is (table[i := (table ! i)\<lparr>ie_bits := IE_BITS_GEN_MASK, ie_request := free_index\<rparr>]) (of_nat i)
      else free_new is table free_index)"

definition free_new_entries :: "nat \<Rightarrow> nat \<Rightarrow> ipc_entry list \<Rightarrow> ipc_entry list" where
  "free_new_entries osize sz table =
     (let (table, free_index) = free_new (rev [osize ..< sz]) table (ie_next (table ! 0))
      in table[0 := (table ! 0)\<lparr>ie_request := free_index\<rparr>])"

text \<open>
  One turn of the loop.  A return gives the code, whether the space is locked, and the state;
  \<open>Again\<close> continues the loop.
\<close>

datatype grow_result =
    Return kern_return_t bool entry_state
  | Again entry_state
  | Stuck

definition grow_once :: "entry_env \<Rightarrow> natural_t \<Rightarrow> entry_state \<Rightarrow> grow_result" where
  "grow_once env target st =
     (let (space, g) = st; its = env_its env; others = env_others env in
      if is_growing space then Return KERN_SUCCESS True (others (space, g))
      else
        let osize = its ! (is_table_next space - 1);
            (psize, i) = (if target \<noteq> ITS_SIZE_NONE
                          then grow_search its (length its) target osize (is_table_next space)
                          else (osize, is_table_next space));
            sz = its ! i;
            nsize = its ! (i + 1)
        in if target \<noteq> ITS_SIZE_NONE \<and> unat target \<le> osize then Return KERN_SUCCESS False (space, g)
           else if target \<noteq> ITS_SIZE_NONE \<and> psize = sz then Return KERN_NO_SPACE False (space, g)
           else if osize = sz then Return KERN_NO_SPACE False (space, g)
           else
             let (space, g) = others (space\<lparr>is_growing := True\<rparr>, g);
                 space = space\<lparr>is_growing := False\<rparr>
             in if \<not> env_table_mem env sz then Return KERN_RESOURCE_SHORTAGE False (space, g)
                else if \<not> is_active space then Return KERN_SUCCESS True (others (space, g))
                else
                  case rehash [0 ..< osize] (grown_table (is_table space) sz) of
                    None \<Rightarrow> Stuck
                  | Some table \<Rightarrow>
                      let space = space\<lparr>is_table := table, is_table_next := i + 1\<rparr>
                      in case (if is_tree_total space > 0 then transfer_tree osize sz nsize (space, g)
                               else Some (space, g)) of
                           None \<Rightarrow> Stuck
                         | Some (space, g) \<Rightarrow>
                             let space = space\<lparr>is_table := free_new_entries osize sz (is_table space)\<rparr>;
                                 (space, g) = others (space, g)
                             in if \<not> is_active space \<or> is_table_next space \<noteq> i + 1
                                then Return KERN_SUCCESS True (space, g)
                                else if is_tree_small space > 0 \<and>
                                   (nsize - sz) * sizeof_ipc_entry < unat (is_tree_small space) * sizeof_ipc_tree_entry
                                then Again (space, g)
                                else Return KERN_SUCCESS True (space, g))"

fun ipc_entry_grow_table ::
  "nat \<Rightarrow> entry_env \<Rightarrow> entry_state \<Rightarrow> natural_t \<Rightarrow> (kern_return_t \<times> bool \<times> entry_state) option" where
  "ipc_entry_grow_table 0 env st target = None"
| "ipc_entry_grow_table (Suc fuel) env st target =
     (case grow_once env target st of
        Return kr locked st \<Rightarrow> Some (kr, locked, st)
      | Again st \<Rightarrow> ipc_entry_grow_table fuel env st target
      | Stuck \<Rightarrow> None)"

subsection \<open>Allocation\<close>

text \<open>The result carries the name and the entry on success and says whether the space is left locked.\<close>

fun ipc_entry_alloc ::
  "nat \<Rightarrow> entry_env \<Rightarrow> entry_state \<Rightarrow>
   ((kern_return_t + mach_port_t \<times> ipc_entry_ptr) \<times> bool \<times> entry_state) option" where
  "ipc_entry_alloc 0 env st = None"
| "ipc_entry_alloc (Suc fuel) env (space, g) =
     (if \<not> is_active space then Some (Inl KERN_INVALID_TASK, False, space, g)
      else case ipc_entry_get space of
             Some (name, entry, space) \<Rightarrow> Some (Inr (name, entry), True, space, g)
           | None \<Rightarrow>
               (case ipc_entry_grow_table fuel env (space, g) ITS_SIZE_NONE of
                  None \<Rightarrow> None
                | Some (kr, locked, st) \<Rightarrow>
                    if kr \<noteq> KERN_SUCCESS then Some (Inl kr, locked, st)
                    else ipc_entry_alloc fuel env st))"

text \<open>Ripping an entry out of the free list: the walk from entry 0 to the predecessor.\<close>

fun free_pred :: "nat \<Rightarrow> ipc_entry list \<Rightarrow> mach_port_index_t \<Rightarrow> nat \<Rightarrow> nat option" where
  "free_pred 0 table index free_index = None"
| "free_pred (Suc fuel) table index free_index =
     (if ie_next (table ! free_index) \<noteq> index
      then free_pred fuel table index (unat (ie_next (table ! free_index)))
      else Some free_index)"

definition free_unlink :: "ipc_entry list \<Rightarrow> mach_port_index_t \<Rightarrow> ipc_entry list option" where
  "free_unlink table index =
     map_option (\<lambda>p. table[p := (table ! p)\<lparr>ie_request := ie_next (table ! unat index)\<rparr>])
       (free_pred (length table) table index 0)"

text \<open>Inserting the tree entry that was allocated before.\<close>

definition insert_tree_entry :: "entry_env \<Rightarrow> ipc_space \<Rightarrow> mach_port_t \<Rightarrow> ipc_space" where
  "insert_tree_entry env space name =
     (let i = unat (MACH_PORT_INDEX name);
          space = space\<lparr>is_tree_total := is_tree_total space + 1\<rparr>;
          space =
            (if i < is_table_size space
             then space\<lparr>is_table := (is_table space)
                    [i := (is_table space ! i)\<lparr>ie_bits := ie_bits (is_table space ! i) OR IE_BITS_COLLISION\<rparr>]\<rparr>
             else if i < env_its env ! is_table_next space
             then let (col, space) = ipc_entry_tree_collision space name
                  in if \<not> col then space\<lparr>is_tree_small := is_tree_small space + 1\<rparr> else space
             else space)
      in space\<lparr>is_tree := ipc_splay_tree_insert (is_tree space) name zero_entry\<rparr>)"

text \<open>
  One turn of the loop either returns (the code or the entry, and whether the space is
  locked), grows the table and restarts, or allocates the tree entry and restarts.  \<open>alloc\<close>
  says that the tree entry is allocated already.
\<close>

datatype alloc_step =
    Alloc_Return "kern_return_t + ipc_entry_ptr" bool entry_state
  | Alloc_Grow entry_state
  | Alloc_Tree entry_state
  | Alloc_Stuck

definition alloc_name_tree :: "entry_env \<Rightarrow> mach_port_t \<Rightarrow> bool \<Rightarrow> entry_state \<Rightarrow> alloc_step" where
  "alloc_name_tree env name alloc st =
     (let (space, g) = st; i = unat (MACH_PORT_INDEX name);
          (found, space) = (if is_tree_total space > 0 then tree_lookup space name else (None, space));
          sz = is_table_size space; next = env_its env ! is_table_next space
      in if found \<noteq> None then Alloc_Return (Inr (the found)) True (space, g)
         else if sz \<le> i \<and> i < next \<and>
            (next - sz) * sizeof_ipc_entry < (unat (is_tree_small space) + 1) * sizeof_ipc_tree_entry
         then Alloc_Grow (space, g)
         else if alloc then Alloc_Return (Inr (TreeEnt name)) True (insert_tree_entry env space name, g)
         else Alloc_Tree (space, g))"

definition alloc_name_once :: "entry_env \<Rightarrow> mach_port_t \<Rightarrow> bool \<Rightarrow> entry_state \<Rightarrow> alloc_step" where
  "alloc_name_once env name alloc st =
     (let (space, g) = st; index = MACH_PORT_INDEX name; i = unat index; gen = MACH_PORT_GEN name;
          entry = is_table space ! i;
          in_range = (0 < index \<and> i < is_table_size space)
      in
      if \<not> is_active space then Alloc_Return (Inl KERN_INVALID_TASK) False (space, g)
      else if in_range \<and> IE_BITS_TYPE (ie_bits entry) \<noteq> 0 \<and> IE_BITS_GEN (ie_bits entry) = gen
      then Alloc_Return (Inr (TableEnt i)) True (space, g)
      else if in_range \<and> IE_BITS_TYPE (ie_bits entry) = 0
      then (case free_unlink (is_table space) index of
              None \<Rightarrow> Alloc_Stuck
            | Some table \<Rightarrow>
                let table = table[i := (table ! i)\<lparr>ie_bits := gen, ie_request := 0\<rparr>]
                in Alloc_Return (Inr (TableEnt i)) True (space\<lparr>is_table := table\<rparr>, g))
      else if is_fast space then Alloc_Return (Inl KERN_FAILURE) False (space, g)
      else alloc_name_tree env name alloc (space, g))"

fun alloc_name_loop ::
  "nat \<Rightarrow> entry_env \<Rightarrow> mach_port_t \<Rightarrow> bool \<Rightarrow> entry_state \<Rightarrow>
   ((kern_return_t + ipc_entry_ptr) \<times> bool \<times> entry_state) option" where
  "alloc_name_loop 0 env name alloc st = None"
| "alloc_name_loop (Suc fuel) env name alloc st =
     (case alloc_name_once env name alloc st of
        Alloc_Return res locked st \<Rightarrow> Some (res, locked, st)
      | Alloc_Stuck \<Rightarrow> None
      | Alloc_Grow st \<Rightarrow>
          (case ipc_entry_grow_table fuel env st ITS_SIZE_NONE of
             None \<Rightarrow> None
           | Some (kr, locked, st) \<Rightarrow>
               if kr \<noteq> KERN_SUCCESS then Some (Inl kr, locked, st)
               else alloc_name_loop fuel env name alloc st)
      | Alloc_Tree st \<Rightarrow>
          (let st = env_others env st in
           if \<not> env_tree_mem env then Some (Inl KERN_RESOURCE_SHORTAGE, False, st)
           else alloc_name_loop fuel env name True st))"

definition ipc_entry_alloc_name ::
  "nat \<Rightarrow> entry_env \<Rightarrow> mach_port_t \<Rightarrow> entry_state \<Rightarrow>
   ((kern_return_t + ipc_entry_ptr) \<times> bool \<times> entry_state) option" where
  "ipc_entry_alloc_name fuel env name st = alloc_name_loop fuel env name False st"

subsection \<open>ipc_entry_dealloc\<close>

definition free_entry :: "ipc_entry list \<Rightarrow> mach_port_index_t \<Rightarrow> ipc_entry list" where
  "free_entry table index =
     (let i = unat index;
          table = table[i := (table ! i)\<lparr>ie_bits := ie_bits (table ! i) AND IE_BITS_GEN_MASK,
                                         ie_request := ie_next (table ! 0)\<rparr>]
      in table[0 := (table ! 0)\<lparr>ie_request := index\<rparr>])"

text \<open>The entry whose place in the table is free again comes from the tree.  \<open>None\<close> is a probe without end.\<close>

definition refill_entry :: "entry_state \<Rightarrow> mach_port_index_t \<Rightarrow> entry_state option" where
  "refill_entry st index =
     (let (space, g) = st; i = unat index;
          (tree, collisions) = ipc_splay_tree_split (is_tree space) (MACH_PORT_MAKE (index + 1) 0) no_tree;
          (collisions, small) = ipc_splay_tree_split collisions (MACH_PORT_MAKE index 0) no_tree
      in case ipc_splay_tree_pick collisions of None \<Rightarrow> None
         | Some (tname, tentry) \<Rightarrow>
           let bits = ie_bits tentry; obj = ie_object tentry;
               entry = (is_table space ! i)\<lparr>ie_bits := bits OR MACH_PORT_GEN tname, ie_object := obj,
                         ie_request := ie_request tentry\<rparr>;
               space = space\<lparr>is_table := (is_table space)[i := entry]\<rparr>
           in case (if IE_BITS_TYPE bits = MACH_PORT_TYPE_SEND
                    then let (space, g) = ipc_hash_global_delete g space obj tname
                         in map_option (\<lambda>table. (space\<lparr>is_table := table\<rparr>, g))
                              (ipc_hash_local_insert (is_table space) obj i)
                    else Some (space, g)) of
                None \<Rightarrow> None
              | Some (space, g) \<Rightarrow>
                  let collisions = ipc_splay_tree_delete collisions tname;
                      space = space\<lparr>is_tree_total := is_tree_total space - 1\<rparr>;
                      entry = is_table space ! i;
                      (space, tree) =
                        (if ipc_splay_tree_pick collisions \<noteq> None
                         then (space\<lparr>is_table := (is_table space)[i := entry\<lparr>ie_bits := ie_bits entry OR IE_BITS_COLLISION\<rparr>]\<rparr>,
                               fst (ipc_splay_tree_join tree collisions))
                         else (space, tree))
                  in Some (space\<lparr>is_tree := fst (ipc_splay_tree_join tree small)\<rparr>, g))"

definition ipc_entry_dealloc ::
  "entry_env \<Rightarrow> entry_state \<Rightarrow> mach_port_t \<Rightarrow> ipc_entry_ptr \<Rightarrow> entry_state option" where
  "ipc_entry_dealloc env st name entry =
     (let (space, g) = st; index = MACH_PORT_INDEX name; i = unat index in
      if is_fast space then Some (space\<lparr>is_table := free_entry (is_table space) index\<rparr>, g)
      else if in_table space name entry then
        if ie_bits (is_table space ! i) AND IE_BITS_COLLISION \<noteq> 0
        then refill_entry (space, g) index
        else Some (space\<lparr>is_table := free_entry (is_table space) index\<rparr>, g)
      else
        let space = space\<lparr>is_tree := ipc_splay_tree_delete (is_tree space) name\<rparr>;
            space = space\<lparr>is_tree_total := is_tree_total space - 1\<rparr>
        in if i < is_table_size space then
             let (col, space) = ipc_entry_tree_collision space name
             in Some (if \<not> col
                      then space\<lparr>is_table := (is_table space)
                             [i := (is_table space ! i)\<lparr>ie_bits := ie_bits (is_table space ! i) AND NOT IE_BITS_COLLISION\<rparr>]\<rparr>
                      else space, g)
           else if i < env_its env ! is_table_next space then
             let (col, space) = ipc_entry_tree_collision space name
             in Some (if \<not> col then space\<lparr>is_tree_small := is_tree_small space - 1\<rparr> else space, g)
           else Some (space, g))"

subsection \<open>The fields of an entry's bits\<close>

lemma bit_masks:
  "bit IE_BITS_TYPE_MASK n \<longleftrightarrow> 16 \<le> n \<and> n < 21"
  "bit IE_BITS_COLLISION n \<longleftrightarrow> n = 23"
  "bit IE_BITS_GEN_MASK n \<longleftrightarrow> 24 \<le> n \<and> n < 32"
  "bit IE_BITS_RIGHT_MASK n \<longleftrightarrow> n < 23"
  "bit IE_BITS_UREFS_MASK n \<longleftrightarrow> n < 16"
  "bit (MACH_PORT_GEN name) n \<longleftrightarrow> 24 \<le> n \<and> n < 32 \<and> bit name (n - 24)"
proof -
  have v: "IE_BITS_TYPE_MASK = push_bit 16 (mask 5)" "IE_BITS_COLLISION = push_bit 23 (mask 1)"
    "IE_BITS_GEN_MASK = push_bit 24 (mask 8)" "IE_BITS_RIGHT_MASK = mask 23" "IE_BITS_UREFS_MASK = mask 16"
    by (simp_all add: IE_BITS_TYPE_MASK_def IE_BITS_COLLISION_def IE_BITS_GEN_MASK_def
      IE_BITS_RIGHT_MASK_def IE_BITS_UREFS_MASK_def mask_eq_exp_minus_1)
  show "bit IE_BITS_TYPE_MASK n \<longleftrightarrow> 16 \<le> n \<and> n < 21"
    "bit IE_BITS_COLLISION n \<longleftrightarrow> n = 23"
    "bit IE_BITS_GEN_MASK n \<longleftrightarrow> 24 \<le> n \<and> n < 32"
    "bit IE_BITS_RIGHT_MASK n \<longleftrightarrow> n < 23"
    "bit IE_BITS_UREFS_MASK n \<longleftrightarrow> n < 16"
    "bit (MACH_PORT_GEN name) n \<longleftrightarrow> 24 \<le> n \<and> n < 32 \<and> bit name (n - 24)"
    by (auto simp only: v MACH_PORT_GEN_def mask_values bit_simps) auto
qed

lemmas bit_blast = bit_masks bit_and_iff bit_or_iff bit_not_iff_eq IE_BITS_TYPE_def IE_BITS_GEN_def

lemma bit_big [simp]: "32 \<le> n \<Longrightarrow> \<not> bit (w :: 32 word) n"
  using bit_imp_le_length [of w n] by auto

lemma type_none_0 [simp]: "MACH_PORT_TYPE_NONE = 0"
  by (simp add: MACH_PORT_TYPE_NONE_def)

lemma collision_simps [simp]:
  "IE_BITS_TYPE (b OR IE_BITS_COLLISION) = IE_BITS_TYPE b"
  "IE_BITS_GEN (b OR IE_BITS_COLLISION) = IE_BITS_GEN b"
  "(b OR IE_BITS_COLLISION) AND IE_BITS_RIGHT_MASK = b AND IE_BITS_RIGHT_MASK"
  "IE_BITS_TYPE (b AND NOT IE_BITS_COLLISION) = IE_BITS_TYPE b"
  "IE_BITS_GEN (b AND NOT IE_BITS_COLLISION) = IE_BITS_GEN b"
  "(b AND NOT IE_BITS_COLLISION) AND IE_BITS_RIGHT_MASK = b AND IE_BITS_RIGHT_MASK"
  "(b AND NOT IE_BITS_COLLISION) AND IE_BITS_COLLISION = 0"
  by (rule bit_word_eqI; auto simp: bit_blast)+

lemma collision_nonzero [simp]: "IE_BITS_COLLISION \<noteq> 0"
  by (simp add: IE_BITS_COLLISION_def)

lemma collision_bit: "b AND IE_BITS_COLLISION = 0 \<longleftrightarrow> \<not> bit b 23"
proof
  assume "b AND IE_BITS_COLLISION = 0"
  then have "\<not> bit (b AND IE_BITS_COLLISION) 23" by simp
  then show "\<not> bit b 23" by (simp add: bit_blast)
next
  assume "\<not> bit b 23"
  then show "b AND IE_BITS_COLLISION = 0" by (intro bit_word_eqI) (auto simp: bit_blast)
qed

lemma collision_set [simp]: "(b OR IE_BITS_COLLISION) AND IE_BITS_COLLISION \<noteq> 0"
proof -
  have "bit (b OR IE_BITS_COLLISION) 23" by (simp only: bit_blast simp_thms)
  then show ?thesis by (simp only: collision_bit not_not simp_thms)
qed

text \<open>The bits of a tree entry hold a right, no generation and no collision bit.\<close>

lemma gen_or_simps:
  assumes "b AND IE_BITS_RIGHT_MASK = b"
  shows "IE_BITS_GEN (b OR MACH_PORT_GEN n) = MACH_PORT_GEN n"
    "IE_BITS_TYPE (b OR MACH_PORT_GEN n) = IE_BITS_TYPE b"
    "(b OR MACH_PORT_GEN n) AND IE_BITS_COLLISION = 0"
    "(b OR MACH_PORT_GEN n) AND IE_BITS_RIGHT_MASK = b"
proof -
  have b: "bit b i \<Longrightarrow> i < 23" for i
    using assms by (metis bit_and_iff bit_masks(4))
  show "IE_BITS_GEN (b OR MACH_PORT_GEN n) = MACH_PORT_GEN n"
    "IE_BITS_TYPE (b OR MACH_PORT_GEN n) = IE_BITS_TYPE b"
    "(b OR MACH_PORT_GEN n) AND IE_BITS_COLLISION = 0"
    "(b OR MACH_PORT_GEN n) AND IE_BITS_RIGHT_MASK = b"
    by (rule bit_word_eqI; use b in \<open>force simp: bit_blast\<close>)+
qed

lemma gen_mask_simps [simp]:
  "IE_BITS_TYPE (b AND IE_BITS_GEN_MASK) = 0"
  "(b AND IE_BITS_GEN_MASK) AND IE_BITS_COLLISION = 0"
  "IE_BITS_GEN (b AND IE_BITS_GEN_MASK) = IE_BITS_GEN b"
  "(b AND IE_BITS_GEN_MASK) AND IE_BITS_RIGHT_MASK = 0"
  "IE_BITS_GEN (MACH_PORT_GEN n) = MACH_PORT_GEN n"
  "IE_BITS_TYPE (MACH_PORT_GEN n) = 0"
  "MACH_PORT_GEN n AND IE_BITS_COLLISION = 0"
  by (rule bit_word_eqI; auto simp: bit_blast)+

lemma new_gen_simps [simp]:
  "IE_BITS_TYPE (IE_BITS_NEW_GEN b) = 0"
  "IE_BITS_NEW_GEN b AND IE_BITS_COLLISION = 0"
  "IE_BITS_GEN (IE_BITS_NEW_GEN b) = IE_BITS_NEW_GEN b"
  unfolding IE_BITS_NEW_GEN_def by (rule bit_word_eqI; auto simp: bit_blast)+

lemma name_eqI:
  "MACH_PORT_INDEX m = MACH_PORT_INDEX n \<Longrightarrow> MACH_PORT_GEN m = MACH_PORT_GEN n \<Longrightarrow> m = n"
  by (metis index_gen_make)

text \<open>Allocating an entry changes its generation, so that the name last used for it is not reused.\<close>

lemma new_gen_differs: "IE_BITS_NEW_GEN b \<noteq> IE_BITS_GEN b"
proof
  assume same: "IE_BITS_NEW_GEN b = IE_BITS_GEN b"
  have "uint (b + IE_BITS_GEN_ONE) mod 2 ^ 24 = uint b mod 2 ^ 24"
  proof -
    have "uint (b + IE_BITS_GEN_ONE) mod 2 ^ 24 = (uint b + 0x4000000) mod 2 ^ 32 mod 2 ^ 24"
      by (simp add: IE_BITS_GEN_ONE_def uint_word_ariths)
    also have "\<dots> = (uint b + 0x4000000) mod 2 ^ 24" by (rule mod_mod_cancel) simp
    also have "\<dots> = uint b mod 2 ^ 24"
      using mod_mult_self1 [of "uint b" 4 "2 ^ 24"] by simp
    finally show ?thesis .
  qed
  then have low: "take_bit 24 (b + IE_BITS_GEN_ONE) = take_bit 24 b"
    by (simp add: word_uint_eq_iff unsigned_take_bit_eq take_bit_eq_mod [where ?'a = int])
  have "b + IE_BITS_GEN_ONE = b"
  proof (rule bit_word_eqI)
    fix n assume "n < LENGTH(32)"
    moreover have "bit (IE_BITS_NEW_GEN b) n \<longleftrightarrow> bit (IE_BITS_GEN b) n" using same by simp
    moreover have "bit (take_bit 24 (b + IE_BITS_GEN_ONE)) n \<longleftrightarrow> bit (take_bit 24 b) n" using low by simp
    ultimately show "bit (b + IE_BITS_GEN_ONE) n \<longleftrightarrow> bit b n"
      by (cases "n < 24") (auto simp: bit_blast IE_BITS_NEW_GEN_def bit_take_bit_iff)
  qed
  then show False by (simp add: IE_BITS_GEN_ONE_def)
qed

subsection \<open>The names of a space\<close>

text \<open>
  The abstraction: the entry that a name denotes, in the table or else in the tree.
\<close>

definition table_entry :: "ipc_entry list \<Rightarrow> mach_port_t \<Rightarrow> ipc_entry option" where
  "table_entry table name =
     (let i = unat (MACH_PORT_INDEX name) in
      if i < length table \<and> IE_BITS_TYPE (ie_bits (table ! i)) \<noteq> 0 \<and>
         IE_BITS_GEN (ie_bits (table ! i)) = MACH_PORT_GEN name
      then Some (table ! i) else None)"

definition space_names :: "ipc_space \<Rightarrow> mach_port_t \<rightharpoonup> ipc_entry" where
  "space_names space name =
     (case table_entry (is_table space) name of
        Some e \<Rightarrow> Some e | None \<Rightarrow> splay_map (is_tree space) name)"

text \<open>
  The coherence of table and tree: a name is in the tree only if its index is beyond the
  table or if the table's entry is in use by another generation, and exactly then the
  collision bit of that entry is on.  Names of index 0 are excluded; the code does not
  exclude them.
\<close>

definition names_inv :: "ipc_space \<Rightarrow> bool" where
  "names_inv space \<longleftrightarrow>
     splay_inv (is_tree space) \<and>
     0 < is_table_size space \<and> is_table_size space < 0x1000000 \<and>
     (\<forall>n \<in> dom (splay_map (is_tree space)). unat (MACH_PORT_INDEX n) < is_table_size space \<longrightarrow>
        ie_bits (is_table space ! unat (MACH_PORT_INDEX n)) AND IE_BITS_COLLISION \<noteq> 0 \<and>
        IE_BITS_TYPE (ie_bits (is_table space ! unat (MACH_PORT_INDEX n))) \<noteq> 0 \<and>
        IE_BITS_GEN (ie_bits (is_table space ! unat (MACH_PORT_INDEX n))) \<noteq> MACH_PORT_GEN n) \<and>
     (\<forall>i < is_table_size space. ie_bits (is_table space ! i) AND IE_BITS_COLLISION \<noteq> 0 \<longrightarrow>
        (\<exists>n \<in> dom (splay_map (is_tree space)). unat (MACH_PORT_INDEX n) = i)) \<and>
     (\<forall>n e. splay_map (is_tree space) n = Some e \<longrightarrow>
        MACH_PORT_INDEX n \<noteq> 0 \<and> n \<noteq> MACH_PORT_DEAD \<and> ie_bits e AND IE_BITS_RIGHT_MASK = ie_bits e) \<and>
     unat (is_tree_total space) = card (dom (splay_map (is_tree space))) \<and>
     (is_fast space \<longrightarrow> dom (splay_map (is_tree space)) = {})"

lemma finite_splay_dom [simp]: "finite (dom (splay_map t))"
  by (simp add: splay_map_def finite_dom_map_of)

lemma names_tree_total:
  "names_inv space \<Longrightarrow> is_tree_total space = 0 \<longleftrightarrow> splay_map (is_tree space) = Map.empty"
proof -
  assume "names_inv space"
  then have "unat (is_tree_total space) = 0 \<longleftrightarrow> dom (splay_map (is_tree space)) = {}"
    by (simp add: names_inv_def)
  then show ?thesis by (simp add: unat_eq_0)
qed

lemma names_inv_tree:
  assumes "names_inv space" "splay_inv tree" "splay_map tree = splay_map (is_tree space)"
  shows "names_inv (space\<lparr>is_tree := tree\<rparr>)"
  using assms by (simp add: names_inv_def is_table_size_def)

lemma tree_lookup_spec:
  assumes "names_inv space" "tree_lookup space name = (res, space')"
  shows "names_inv space'" "splay_map (is_tree space') = splay_map (is_tree space)"
    "\<exists>tree. space' = space\<lparr>is_tree := tree\<rparr>"
    "res = (if name \<in> dom (splay_map (is_tree space)) then Some (TreeEnt name) else None)"
proof -
  have inv: "splay_inv (is_tree space)" using assms(1) by (simp add: names_inv_def)
  obtain r tree where l: "ipc_splay_tree_lookup (is_tree space) name = (r, tree)" by fastforce
  note law = splay.lookup_law [OF inv l]
  have s: "space' = space\<lparr>is_tree := tree\<rparr>" "res = map_option (\<lambda>_. TreeEnt name) r"
    using assms(2) l by (auto simp: tree_lookup_def)
  show "names_inv space'" "splay_map (is_tree space') = splay_map (is_tree space)"
    using names_inv_tree [OF assms(1), of tree] law by (simp_all add: s)
  show "\<exists>tree. space' = space\<lparr>is_tree := tree\<rparr>" using s by blast
  show "res = (if name \<in> dom (splay_map (is_tree space)) then Some (TreeEnt name) else None)"
    using law s by auto
qed

lemma lookup_in_tree:
  assumes "names_inv space" "tree_lookup space name = (res, space')" "table_entry (is_table space) name = None"
  shows "names_inv space' \<and> space_names space' = space_names space \<and> is_table space' = is_table space \<and>
    (case res of None \<Rightarrow> space_names space name = None
     | Some p \<Rightarrow> space_names space name = Some (entry_at space' p))"
proof -
  note t = tree_lookup_spec [OF assms(1,2)]
  have "is_table space' = is_table space" using t(3) by auto
  moreover from this have "space_names space' = space_names space"
    using t(2) by (simp add: space_names_def fun_eq_iff split: option.split)
  moreover have "space_names space name = splay_map (is_tree space) name"
    using assms(3) by (simp add: space_names_def)
  ultimately show ?thesis
    using t(1,2,4) by auto
qed

lemma entry_lookup_spec:
  assumes inv: "names_inv space" and l: "ipc_entry_lookup space name = (res, space')"
    and fast: "is_fast space \<longrightarrow> unat (MACH_PORT_INDEX name) < is_table_size space"
  shows "names_inv space' \<and> space_names space' = space_names space \<and> is_table space' = is_table space \<and>
    (case res of None \<Rightarrow> space_names space name = None
     | Some p \<Rightarrow> space_names space name = Some (entry_at space' p))"
proof -
  let ?i = "unat (MACH_PORT_INDEX name)"
  let ?e = "is_table space ! ?i"
  consider (here) "?i < is_table_size space" "IE_BITS_GEN (ie_bits ?e) = MACH_PORT_GEN name"
      "IE_BITS_TYPE (ie_bits ?e) \<noteq> 0"
    | (free) "?i < is_table_size space" "IE_BITS_GEN (ie_bits ?e) = MACH_PORT_GEN name"
      "IE_BITS_TYPE (ie_bits ?e) = 0"
    | (other) "?i < is_table_size space" "IE_BITS_GEN (ie_bits ?e) \<noteq> MACH_PORT_GEN name"
    | (beyond) "is_table_size space \<le> ?i" by linarith
  then show ?thesis
  proof cases
    case here
    then have "res = Some (TableEnt ?i)" "space' = space"
      using l by (auto simp: ipc_entry_lookup_def Let_def split: if_splits)
    then show ?thesis
      using here inv by (simp add: space_names_def table_entry_def is_table_size_def Let_def)
  next
    case free
    then have r: "res = None" "space' = space"
      using l by (auto simp: ipc_entry_lookup_def Let_def split: if_splits)
    have "name \<notin> dom (splay_map (is_tree space))"
      using inv free by (auto simp: names_inv_def)
    then show ?thesis
      using r free inv by (auto simp: space_names_def table_entry_def Let_def)
  next
    case other
    have te: "table_entry (is_table space) name = None"
      using other by (simp add: table_entry_def Let_def)
    show ?thesis
    proof (cases "\<not> is_fast space \<and> ie_bits ?e AND IE_BITS_COLLISION \<noteq> 0")
      case True
      then have "tree_lookup space name = (res, space')"
        using l other by (auto simp: ipc_entry_lookup_def Let_def split: if_splits)
      then show ?thesis by (rule lookup_in_tree [OF inv _ te])
    next
      case False
      then have r: "res = None" "space' = space"
        using l other by (auto simp: ipc_entry_lookup_def Let_def split: if_splits)
      have "name \<notin> dom (splay_map (is_tree space))"
        using inv other False unfolding names_inv_def by blast
      then show ?thesis using r te inv by (auto simp: space_names_def)
    qed
  next
    case beyond
    have te: "table_entry (is_table space) name = None"
      using beyond by (simp add: table_entry_def is_table_size_def Let_def)
    show ?thesis
    proof (cases "is_tree_total space = 0")
      case True
      then have r: "res = None" "space' = space"
        using l beyond fast by (auto simp: ipc_entry_lookup_def Let_def split: if_splits)
      then show ?thesis
        using True names_tree_total [OF inv] te inv by (simp add: space_names_def)
    next
      case False
      then have "tree_lookup space name = (res, space')"
        using l beyond fast by (auto simp: ipc_entry_lookup_def Let_def split: if_splits)
      then show ?thesis by (rule lookup_in_tree [OF inv _ te])
    qed
  qed
qed

subsection \<open>The free list\<close>

fun free_chain :: "ipc_entry list \<Rightarrow> mach_port_index_t \<Rightarrow> nat list \<Rightarrow> bool" where
  "free_chain table h [] \<longleftrightarrow> h = 0"
| "free_chain table h (n # ns) \<longleftrightarrow>
     unat h = n \<and> n \<noteq> 0 \<and> n < length table \<and> IE_BITS_TYPE (ie_bits (table ! n)) = 0 \<and>
     ie_bits (table ! n) AND IE_BITS_COLLISION = 0 \<and> free_chain table (ie_next (table ! n)) ns"

definition free_list :: "ipc_entry list \<Rightarrow> nat list \<Rightarrow> bool" where
  "free_list table ns \<longleftrightarrow> free_chain table (ie_next (table ! 0)) ns \<and> distinct ns"

lemma free_chain_cong:
  assumes "free_chain table h ns" "length table \<le> length t"
    and "\<And>n. n \<in> set ns \<Longrightarrow> ie_bits (t ! n) = ie_bits (table ! n) \<and> ie_request (t ! n) = ie_request (table ! n)"
  shows "free_chain t h ns"
  using assms by (induction ns arbitrary: h) auto

lemma free_chain_mem:
  "free_chain table h ns \<Longrightarrow> n \<in> set ns \<Longrightarrow> n \<noteq> 0 \<and> n < length table \<and> IE_BITS_TYPE (ie_bits (table ! n)) = 0"
  by (induction ns arbitrary: h) auto

lemma table_entry_at:
  assumes "i < length table" "\<And>k. k < length table \<Longrightarrow> k \<noteq> i \<Longrightarrow>
      ie_bits (t ! k) = ie_bits (table ! k) \<and> (IE_BITS_TYPE (ie_bits (table ! k)) \<noteq> 0 \<longrightarrow> t ! k = table ! k)"
    and "length t = length table" "unat (MACH_PORT_INDEX name) \<noteq> i"
  shows "table_entry t name = table_entry table name"
  using assms by (auto simp: table_entry_def Let_def)

lemma entry_get_spec:
  assumes inv: "names_inv space" and free: "free_list (is_table space) (i # ns)"
    and zero: "IE_BITS_TYPE (ie_bits (is_table space ! 0)) = 0"
  shows "\<exists>name space'. ipc_entry_get space = Some (name, TableEnt i, space') \<and>
    names_inv space' \<and> free_list (is_table space') ns \<and> space_names space' = space_names space \<and>
    unat (MACH_PORT_INDEX name) = i \<and> is_table_size space' = is_table_size space \<and>
    MACH_PORT_GEN name \<noteq> IE_BITS_GEN (ie_bits (is_table space ! i)) \<and>
    ie_bits (is_table space' ! i) = MACH_PORT_GEN name \<and> ie_request (is_table space' ! i) = 0 \<and>
    (\<forall>k. k \<noteq> i \<longrightarrow> k \<noteq> 0 \<longrightarrow> is_table space' ! k = is_table space ! k) \<and>
    space' = space\<lparr>is_table := is_table space'\<rparr> \<and> name \<notin> dom (space_names space)"
proof -
  let ?t = "is_table space"
  let ?h = "ie_next (?t ! 0)"
  have f: "unat ?h = i" "i \<noteq> 0" "i < length ?t" "IE_BITS_TYPE (ie_bits (?t ! i)) = 0"
    "ie_bits (?t ! i) AND IE_BITS_COLLISION = 0"
    "free_chain ?t (ie_next (?t ! i)) ns" "i \<notin> set ns" "distinct ns"
    using free by (auto simp: free_list_def)
  have len: "length ?t < 0x1000000" using inv by (simp add: names_inv_def is_table_size_def)
  let ?t1 = "?t[0 := (?t ! 0)\<lparr>ie_request := ie_next (?t ! i)\<rparr>]"
  let ?gen = "IE_BITS_NEW_GEN (ie_bits (?t ! i))"
  let ?t2 = "?t1[i := (?t ! i)\<lparr>ie_bits := ?gen, ie_request := 0\<rparr>]"
  let ?name = "MACH_PORT_MAKE ?h ?gen"
  let ?s = "space\<lparr>is_table := ?t2\<rparr>"
  have h: "?h \<noteq> 0" using f(1,2) by auto
  have get: "ipc_entry_get space = Some (?name, TableEnt i, ?s)"
    using h f(1,2) by (simp add: ipc_entry_get_def Let_def)
  have "?h < 0x1000000" using f(1,3) len by (simp add: word_less_nat_alt)
  then have name: "unat (MACH_PORT_INDEX ?name) = i" "MACH_PORT_GEN ?name = ?gen"
    using f(1) by (simp_all add: index_make gen_make)
  have t2: "?t2 ! i = (?t ! i)\<lparr>ie_bits := ?gen, ie_request := 0\<rparr>" "length ?t2 = length ?t"
    "?t2 ! 0 = (?t ! 0)\<lparr>ie_request := ie_next (?t ! i)\<rparr>"
    "\<And>k. k \<noteq> i \<Longrightarrow> k \<noteq> 0 \<Longrightarrow> ?t2 ! k = ?t ! k"
    "\<And>k. k \<noteq> i \<Longrightarrow> ie_bits (?t2 ! k) = ie_bits (?t ! k)"
    using f(2,3) inv by (auto simp: nth_list_update names_inv_def is_table_size_def)
  have coll: "\<And>k. ie_bits (?t2 ! k) AND IE_BITS_COLLISION = ie_bits (?t ! k) AND IE_BITS_COLLISION"
    using t2(1,5) f(5) by (metis (no_types) ipc_entry.select_convs(1) ipc_entry.surjective ipc_entry.update_convs(1,3) new_gen_simps(2))
  have absent: "n \<notin> dom (splay_map (is_tree space))" if "unat (MACH_PORT_INDEX n) = i" for n
    using inv that f(3,4) by (auto simp: names_inv_def is_table_size_def)
  have "names_inv ?s"
  proof -
    have "ie_bits (?t2 ! unat (MACH_PORT_INDEX n)) = ie_bits (?t ! unat (MACH_PORT_INDEX n))"
      if "n \<in> dom (splay_map (is_tree space))" for n
      using that absent t2(5) by blast
    then show ?thesis
      using inv coll unfolding names_inv_def by (simp add: is_table_size_def)
  qed
  moreover have "free_list ?t2 ns"
  proof -
    have "free_chain ?t2 (ie_next (?t ! i)) ns"
    proof (rule free_chain_cong [OF f(6)])
      fix n assume "n \<in> set ns"
      then have "n \<noteq> i" "n \<noteq> 0" using f(7) free_chain_mem [OF f(6)] by auto
      then show "ie_bits (?t2 ! n) = ie_bits (?t ! n) \<and> ie_request (?t2 ! n) = ie_request (?t ! n)"
        using t2(4) by simp
    qed (simp add: t2(2))
    then show ?thesis using f(8) by (simp add: free_list_def t2(3))
  qed
  moreover have "space_names ?s = space_names space"
  proof (rule ext)
    fix n
    show "space_names ?s n = space_names space n"
    proof (cases "unat (MACH_PORT_INDEX n) = i \<or> unat (MACH_PORT_INDEX n) = 0")
      case False
      then show ?thesis
        using t2(4) by (simp add: space_names_def table_entry_def Let_def del: list_update.simps)
    next
      case True
      then have "table_entry ?t2 n = None" "table_entry ?t n = None"
        using f(4) zero t2(1,3,5) f(2) by (auto simp: table_entry_def Let_def)
      then show ?thesis by (simp add: space_names_def)
    qed
  qed
  moreover have "?name \<notin> dom (space_names space)"
    using absent [OF name(1)] name(1) f(4) by (auto simp: space_names_def table_entry_def Let_def)
  ultimately show ?thesis
    using get name t2(1,4) new_gen_differs
    by (intro exI [of _ ?name] exI [of _ ?s]) (simp add: is_table_size_def)
qed

subsection \<open>Deallocation\<close>

text \<open>What a capability is, apart from where its entry is kept.\<close>

definition cap :: "ipc_entry \<Rightarrow> ipc_entry_bits_t \<times> addr \<times> natural_t" where
  "cap e = (ie_bits e AND IE_BITS_RIGHT_MASK, ie_object e, ie_request e)"

definition space_caps :: "ipc_space \<Rightarrow> mach_port_t \<rightharpoonup> ipc_entry_bits_t \<times> addr \<times> natural_t" where
  "space_caps space name = map_option cap (space_names space name)"

lemma space_caps_alt:
  "space_caps space name = (case map_option cap (table_entry (is_table space) name) of
     Some c \<Rightarrow> Some c | None \<Rightarrow> map_option cap (splay_map (is_tree space) name))"
  by (auto simp: space_caps_def space_names_def split: option.split)

lemma index_mono: "m \<le> n \<Longrightarrow> MACH_PORT_INDEX m \<le> MACH_PORT_INDEX n"
  by (simp add: word_le_nat_alt index_unat div_le_mono)

lemma index_less: "MACH_PORT_INDEX l < MACH_PORT_INDEX h \<Longrightarrow> l < h"
  using index_mono [of h l] by (auto simp: not_le [symmetric])

lemma tree_collision_spec:
  assumes "splay_inv (is_tree space)" "ipc_entry_tree_collision space name = (col, space')"
    and "0 \<notin> dom (splay_map (is_tree space))" "MACH_PORT_DEAD \<notin> dom (splay_map (is_tree space))"
  shows "col \<longleftrightarrow> (\<exists>m \<in> dom (splay_map (is_tree space)). MACH_PORT_INDEX m = MACH_PORT_INDEX name)"
    and "\<exists>tree. space' = space\<lparr>is_tree := tree\<rparr> \<and> splay_inv tree \<and> splay_map tree = splay_map (is_tree space)"
proof -
  let ?D = "dom (splay_map (is_tree space))"
  obtain lower upper tree where b: "ipc_splay_tree_bounds (is_tree space) name = (lower, upper, tree)"
    by (metis prod_cases3)
  note spec = bounds_spec [OF assms(1) b]
  have s: "space' = space\<lparr>is_tree := tree\<rparr>" and
    col: "col \<longleftrightarrow> lower \<noteq> MACH_PORT_LARGEST \<and> MACH_PORT_INDEX lower = MACH_PORT_INDEX name \<or>
      upper \<noteq> MACH_PORT_SMALLEST \<and> MACH_PORT_INDEX upper = MACH_PORT_INDEX name"
    using assms(2) b
    by (auto simp: ipc_entry_tree_collision_def Let_def MACH_PORT_LARGEST_def MACH_PORT_SMALLEST_def)
  then show "\<exists>tree. space' = space\<lparr>is_tree := tree\<rparr> \<and> splay_inv tree \<and> splay_map tree = splay_map (is_tree space)"
    using spec by (auto simp: splay_map_def)
  have ends: "MACH_PORT_LARGEST \<notin> ?D" "MACH_PORT_SMALLEST \<notin> ?D"
    using assms(3,4) by (simp_all add: MACH_PORT_LARGEST_def MACH_PORT_SMALLEST_def MACH_PORT_DEAD_def)
  let ?L = "{m \<in> ?D. m \<le> name}" and ?U = "{m \<in> ?D. name \<le> m}"
  have fin: "finite ?L" "finite ?U" by auto
  have lo: "?L = {} \<and> lower = MACH_PORT_LARGEST \<or> lower \<in> ?L \<and> (\<forall>m \<in> ?L. m \<le> lower)"
    using spec fin(1) by (auto simp: lower_name_def simp del: mem_Collect_eq intro!: Max_in Max_ge)
  have up: "?U = {} \<and> upper = MACH_PORT_SMALLEST \<or> upper \<in> ?U \<and> (\<forall>m \<in> ?U. upper \<le> m)"
    using spec fin(2) by (auto simp: upper_name_def simp del: mem_Collect_eq intro!: Min_in Min_le)
  show "col \<longleftrightarrow> (\<exists>m \<in> ?D. MACH_PORT_INDEX m = MACH_PORT_INDEX name)"
  proof
    assume col
    then show "\<exists>m \<in> ?D. MACH_PORT_INDEX m = MACH_PORT_INDEX name"
      using col lo up by blast
  next
    assume "\<exists>m \<in> ?D. MACH_PORT_INDEX m = MACH_PORT_INDEX name"
    then obtain m where m: "m \<in> ?D" "MACH_PORT_INDEX m = MACH_PORT_INDEX name" by blast
    show col
    proof (cases "m \<le> name")
      case True
      then have "lower \<in> ?L" "m \<le> lower" using lo m(1) by blast+
      then have "MACH_PORT_INDEX lower = MACH_PORT_INDEX name" "lower \<noteq> MACH_PORT_LARGEST"
        using index_mono [of m lower] index_mono [of lower name] m(2) ends by auto
      then show ?thesis using col by blast
    next
      case False
      then have "upper \<in> ?U" "upper \<le> m" using up m(1) by auto
      then have "MACH_PORT_INDEX upper = MACH_PORT_INDEX name" "upper \<noteq> MACH_PORT_SMALLEST"
        using index_mono [of upper m] index_mono [of name upper] m(2) ends by auto
      then show ?thesis using col by blast
    qed
  qed
qed

lemma names_inv_ends:
  "names_inv space \<Longrightarrow> 0 \<notin> dom (splay_map (is_tree space)) \<and> MACH_PORT_DEAD \<notin> dom (splay_map (is_tree space))"
proof -
  have "MACH_PORT_INDEX 0 = 0" by (simp add: MACH_PORT_INDEX_def)
  then show "names_inv space \<Longrightarrow> ?thesis" by (auto simp: names_inv_def)
qed

text \<open>Freeing an entry of the table that no tree entry collides with.\<close>

lemma free_entry_spec:
  assumes inv: "names_inv space" and free: "free_list (is_table space) ns"
    and i: "i = unat (MACH_PORT_INDEX name)" "i \<noteq> 0" "i < is_table_size space" "i \<notin> set ns"
    and gen: "IE_BITS_GEN (ie_bits (is_table space ! i)) = MACH_PORT_GEN name"
    and nocol: "ie_bits (is_table space ! i) AND IE_BITS_COLLISION = 0"
    and zero: "IE_BITS_TYPE (ie_bits (is_table space ! 0)) = 0"
  defines "space' \<equiv> space\<lparr>is_table := free_entry (is_table space) (MACH_PORT_INDEX name)\<rparr>"
  shows "names_inv space' \<and> free_list (is_table space') (i # ns) \<and>
    space_names space' = (space_names space)(name := None) \<and>
    (\<forall>k. k \<noteq> 0 \<longrightarrow> k \<noteq> i \<longrightarrow> is_table space' ! k = is_table space ! k)"
proof -
  let ?t = "is_table space" and ?t' = "is_table space'"
  have len: "i < length ?t" "0 < length ?t" using i(3) by (auto simp: is_table_size_def)
  have t': "?t' ! i = (?t ! i)\<lparr>ie_bits := ie_bits (?t ! i) AND IE_BITS_GEN_MASK, ie_request := ie_next (?t ! 0)\<rparr>"
    "?t' ! 0 = (?t ! 0)\<lparr>ie_request := MACH_PORT_INDEX name\<rparr>" "length ?t' = length ?t"
    "\<And>k. k \<noteq> 0 \<Longrightarrow> k \<noteq> i \<Longrightarrow> ?t' ! k = ?t ! k"
    using len i(2) by (auto simp: space'_def free_entry_def Let_def i(1) [symmetric] nth_list_update)
  have coll: "ie_bits (?t' ! k) AND IE_BITS_COLLISION = ie_bits (?t ! k) AND IE_BITS_COLLISION" for k
    using t' nocol by (cases "k = i"; cases "k = 0") auto
  have bits: "ie_bits (?t' ! k) = ie_bits (?t ! k)" if "k \<noteq> i" for k
    using t' that by (cases "k = 0") auto
  have tree: "is_tree space' = is_tree space" "is_fast space' = is_fast space"
    "is_tree_total space' = is_tree_total space" "is_table_size space' = is_table_size space"
    using t'(3) by (simp_all add: space'_def is_table_size_def)
  have absent: "unat (MACH_PORT_INDEX n) \<noteq> i" if "n \<in> dom (splay_map (is_tree space))" for n
    using inv that nocol i(3) by (auto simp: names_inv_def)
  have "names_inv space'"
    using inv absent bits coll unfolding names_inv_def tree by auto
  moreover have "free_list ?t' (i # ns)"
  proof -
    have "free_chain ?t' (ie_next (?t ! 0)) ns"
    proof (rule free_chain_cong)
      show "free_chain ?t (ie_next (?t ! 0)) ns" using free by (simp add: free_list_def)
      fix n assume n: "n \<in> set ns"
      then have "n \<noteq> 0" "n \<noteq> i"
        using i(4) free_chain_mem [of ?t _ ns n] free by (auto simp: free_list_def)
      then show "ie_bits (?t' ! n) = ie_bits (?t ! n) \<and> ie_request (?t' ! n) = ie_request (?t ! n)"
        using t'(4) by simp
    qed (simp add: t'(3))
    then show ?thesis
      using free i(2,4) len t' by (simp add: free_list_def i(1) [symmetric])
  qed
  moreover have "space_names space' n = ((space_names space)(name := None)) n" for n
  proof (cases "unat (MACH_PORT_INDEX n) = i")
    case True
    have "splay_map (is_tree space) n = None" using absent True by blast
    moreover have "table_entry ?t' n = None"
      using True t'(1) by (simp add: table_entry_def Let_def)
    moreover have "n \<noteq> name \<Longrightarrow> table_entry ?t n = None"
      using True gen name_eqI [of n name] i(1) by (auto simp: table_entry_def Let_def word_unat_eq_iff)
    ultimately show ?thesis by (simp add: space_names_def tree)
  next
    case False
    have "table_entry ?t' n = table_entry ?t n"
      using False t' zero by (cases "unat (MACH_PORT_INDEX n) = 0") (auto simp: table_entry_def Let_def)
    moreover have "n \<noteq> name" using False i(1) by auto
    ultimately show ?thesis by (simp only: space_names_def tree fun_upd_apply if_False)
  qed
  ultimately show ?thesis using t'(4) by auto
qed

text \<open>Deleting a tree entry.\<close>

lemma tree_delete_inv:
  assumes inv: "names_inv space" and name: "name \<in> dom (splay_map (is_tree space))"
    and tree: "splay_inv tree" "splay_map tree = (splay_map (is_tree space))(name := None)"
    and others: "\<And>i. i < is_table_size space \<Longrightarrow> ie_bits (table ! i) AND NOT IE_BITS_COLLISION =
        ie_bits (is_table space ! i) AND NOT IE_BITS_COLLISION"
    and coll: "\<And>i. i < is_table_size space \<Longrightarrow> ie_bits (table ! i) AND IE_BITS_COLLISION \<noteq> 0 \<longleftrightarrow>
        (\<exists>n \<in> dom (splay_map (is_tree space)) - {name}. unat (MACH_PORT_INDEX n) = i)"
    and len: "length table = is_table_size space"
    and s': "is_tree space' = tree" "is_table space' = table" "is_fast space' = is_fast space"
      "is_tree_total space' = is_tree_total space - 1"
  shows "names_inv space'"
proof -
  let ?D = "dom (splay_map (is_tree space))"
  have total: "unat (is_tree_total space') = card (?D - {name})"
  proof -
    have c: "unat (is_tree_total space) = card ?D" using inv by (simp add: names_inv_def)
    have "is_tree_total space \<noteq> 0"
      using c name by (metis card_0_eq empty_iff finite_splay_dom unat_0)
    then have "unat (is_tree_total space - 1) = unat (is_tree_total space) - 1" by (rule unat_minus_one)
    then show ?thesis using c name by (simp add: s'(4))
  qed
  have ty: "IE_BITS_TYPE (ie_bits (table ! i)) = IE_BITS_TYPE (ie_bits (is_table space ! i))"
    "IE_BITS_GEN (ie_bits (table ! i)) = IE_BITS_GEN (ie_bits (is_table space ! i))"
    if "i < is_table_size space" for i
    using others [OF that] collision_simps(4,5) by metis+
  have sz: "is_table_size space' = is_table_size space" by (simp add: is_table_size_def s'(2) len [unfolded is_table_size_def])
  have dom: "dom (splay_map (is_tree space')) = ?D - {name}" by (simp add: s'(1) tree(2))
  show ?thesis
    unfolding names_inv_def dom sz
  proof (intro conjI)
    show "\<forall>n \<in> ?D - {name}. unat (MACH_PORT_INDEX n) < is_table_size space \<longrightarrow>
        ie_bits (is_table space' ! unat (MACH_PORT_INDEX n)) AND IE_BITS_COLLISION \<noteq> 0 \<and>
        IE_BITS_TYPE (ie_bits (is_table space' ! unat (MACH_PORT_INDEX n))) \<noteq> 0 \<and>
        IE_BITS_GEN (ie_bits (is_table space' ! unat (MACH_PORT_INDEX n))) \<noteq> MACH_PORT_GEN n"
      using inv coll ty unfolding names_inv_def s'(2) by auto
    show "\<forall>i < is_table_size space. ie_bits (is_table space' ! i) AND IE_BITS_COLLISION \<noteq> 0 \<longrightarrow>
        (\<exists>n \<in> ?D - {name}. unat (MACH_PORT_INDEX n) = i)"
      using coll s'(2) by simp
    show "unat (is_tree_total space') = card (?D - {name})" by (rule total)
  qed (use inv tree s' in \<open>auto simp: names_inv_def\<close>)
qed

lemma tree_names_update:
  assumes "is_table space' = table" "length table = is_table_size space"
    and "\<And>i. i < is_table_size space \<Longrightarrow>
        table ! i = is_table space ! i \<or> (\<exists>b. table ! i = (is_table space ! i)\<lparr>ie_bits := b\<rparr> \<and>
          b AND NOT IE_BITS_COLLISION = ie_bits (is_table space ! i) AND NOT IE_BITS_COLLISION)"
    and "splay_map (is_tree space') = (splay_map (is_tree space))(name := None)"
    and "table_entry (is_table space) name = None"
  shows "space_caps space' = (space_caps space)(name := None)"
proof -
  have fields: "b AND IE_BITS_RIGHT_MASK = c AND IE_BITS_RIGHT_MASK \<and> IE_BITS_TYPE b = IE_BITS_TYPE c \<and>
      IE_BITS_GEN b = IE_BITS_GEN c" if "b AND NOT IE_BITS_COLLISION = c AND NOT IE_BITS_COLLISION" for b c
    using that collision_simps(4-6) by metis
  have "map_option cap (table_entry table n) = map_option cap (table_entry (is_table space) n)" for n
  proof (cases "unat (MACH_PORT_INDEX n) < is_table_size space")
    case True
    from assms(3) [OF this] show ?thesis
    proof (elim disjE exE conjE)
      fix b
      let ?i = "unat (MACH_PORT_INDEX n)"
      assume b: "table ! ?i = (is_table space ! ?i)\<lparr>ie_bits := b\<rparr>"
        "b AND NOT IE_BITS_COLLISION = ie_bits (is_table space ! ?i) AND NOT IE_BITS_COLLISION"
      show ?thesis
        using assms(2) True fields [OF b(2)] b(1)
        by (simp add: table_entry_def Let_def cap_def is_table_size_def)
    qed (simp add: table_entry_def Let_def assms(2) [unfolded is_table_size_def])
  next
    case False
    then show ?thesis using assms(2) by (simp add: table_entry_def Let_def is_table_size_def)
  qed
  then show ?thesis
    unfolding fun_eq_iff fun_upd_apply space_caps_alt assms(1,4) using assms(5) by simp
qed

lemma tree_dealloc_spec:
  assumes inv: "names_inv space" and name: "name \<in> dom (splay_map (is_tree space))"
    and d: "ipc_entry_dealloc env (space, g) name (TreeEnt name) = Some (space', g')"
  shows "names_inv space' \<and> space_caps space' = (space_caps space)(name := None) \<and> g' = g"
proof -
  let ?D = "dom (splay_map (is_tree space))"
  let ?i = "unat (MACH_PORT_INDEX name)"
  have sinv: "splay_inv (is_tree space)" using inv by (simp add: names_inv_def)
  have nofast: "\<not> is_fast space" using inv name by (auto simp: names_inv_def)
  let ?tree = "ipc_splay_tree_delete (is_tree space) name"
  have tree: "splay_inv ?tree" "splay_map ?tree = (splay_map (is_tree space))(name := None)"
    using splay.delete_law [OF sinv] name by blast+
  let ?s = "space\<lparr>is_tree := ?tree, is_tree_total := is_tree_total space - 1\<rparr>"
  obtain col s2 where col: "ipc_entry_tree_collision ?s name = (col, s2)" by fastforce
  have ends: "0 \<notin> dom (splay_map (is_tree ?s))" "MACH_PORT_DEAD \<notin> dom (splay_map (is_tree ?s))"
    using names_inv_ends [OF inv] tree(2) by auto
  have c1: "col \<longleftrightarrow> (\<exists>m \<in> ?D - {name}. MACH_PORT_INDEX m = MACH_PORT_INDEX name)"
    using tree_collision_spec(1) [OF _ col ends] tree by simp
  obtain tree2 where s2: "s2 = ?s\<lparr>is_tree := tree2\<rparr>" "splay_inv tree2" "splay_map tree2 = splay_map ?tree"
    using tree_collision_spec(2) [OF _ col ends] tree by auto
  have te: "table_entry (is_table space) name = None"
    using inv name by (auto simp: names_inv_def table_entry_def is_table_size_def Let_def)
  have coll0: "ie_bits (is_table space ! i) AND IE_BITS_COLLISION \<noteq> 0 \<longleftrightarrow>
      (\<exists>n \<in> ?D. unat (MACH_PORT_INDEX n) = i)" if "i < is_table_size space" for i
    using inv that by (auto simp: names_inv_def)
  show ?thesis
  proof (cases "?i < is_table_size space")
    case True
    let ?e = "is_table space ! ?i"
    let ?table = "if \<not> col then (is_table space)[?i := ?e\<lparr>ie_bits := ie_bits ?e AND NOT IE_BITS_COLLISION\<rparr>]
        else is_table space"
    have sp: "space' = s2\<lparr>is_table := ?table\<rparr>" "g' = g"
      using d nofast True col s2(1)
      by (auto simp: ipc_entry_dealloc_def in_table_def is_table_size_def Let_def split: if_splits)
    have tb: "?table ! i = (if i = ?i \<and> \<not> col then ?e\<lparr>ie_bits := ie_bits ?e AND NOT IE_BITS_COLLISION\<rparr>
        else is_table space ! i)" if "i < is_table_size space" for i
      using that True by (simp add: nth_list_update is_table_size_def)
    have same: "\<And>i. i < is_table_size space \<Longrightarrow> ie_bits (?table ! i) AND NOT IE_BITS_COLLISION =
        ie_bits (is_table space ! i) AND NOT IE_BITS_COLLISION"
      using tb by (simp add: and.assoc)
    have "names_inv space'"
    proof (rule tree_delete_inv [OF inv name s2(2) _ same])
      show "splay_map tree2 = (splay_map (is_tree space))(name := None)" using s2(3) tree(2) by simp
      fix i assume i: "i < is_table_size space"
      show "ie_bits (?table ! i) AND IE_BITS_COLLISION \<noteq> 0 \<longleftrightarrow>
          (\<exists>n \<in> ?D - {name}. unat (MACH_PORT_INDEX n) = i)"
      proof (cases "i = ?i")
        case True
        then show ?thesis
          using tb [OF i] c1 coll0 [OF i] name by (auto simp: word_unat_eq_iff)
      next
        case False
        then show ?thesis using tb [OF i] coll0 [OF i] by auto
      qed
    qed (simp_all add: sp s2 is_table_size_def)
    moreover have "space_caps space' = (space_caps space)(name := None)"
    proof (rule tree_names_update [OF _ _ _ _ te])
      show "splay_map (is_tree space') = (splay_map (is_tree space))(name := None)"
        using s2 tree(2) by (simp add: sp)
      show "is_table space' = ?table" by (simp add: sp)
      show "length ?table = is_table_size space" by (simp add: is_table_size_def)
      show "?table ! i = is_table space ! i \<or> (\<exists>b. ?table ! i = (is_table space ! i)\<lparr>ie_bits := b\<rparr> \<and>
          b AND NOT IE_BITS_COLLISION = ie_bits (is_table space ! i) AND NOT IE_BITS_COLLISION)"
        if "i < is_table_size space" for i
        using tb [OF that] by (auto simp: and.assoc)
    qed
    ultimately show ?thesis using sp(2) by simp
  next
    case False
    have "\<exists>small tree3. space' = ?s\<lparr>is_tree := tree3, is_tree_small := small\<rparr> \<and> splay_inv tree3 \<and>
        splay_map tree3 = splay_map ?tree \<and> g' = g"
    proof (cases "?i < env_its env ! is_table_next space")
      case True
      have "space' = (if \<not> col then s2\<lparr>is_tree_small := is_tree_small s2 - 1\<rparr> else s2)" "g' = g"
        using d nofast False True col
        by (auto simp: ipc_entry_dealloc_def in_table_def is_table_size_def Let_def)
      then show ?thesis
        using s2 by (intro exI [of _ "if col then is_tree_small space else is_tree_small space - 1"] exI [of _ tree2]) simp
    next
      case beyond: False
      have "space' = ?s" "g' = g"
        using d nofast False beyond
        by (auto simp: ipc_entry_dealloc_def in_table_def is_table_size_def Let_def)
      then show ?thesis
        using tree by (intro exI [of _ "is_tree_small space"] exI [of _ ?tree]) simp
    qed
    then obtain small tree3 where sp: "space' = ?s\<lparr>is_tree := tree3, is_tree_small := small\<rparr>" "splay_inv tree3"
        "splay_map tree3 = splay_map ?tree" "g' = g" by blast
    have "names_inv space'"
    proof (rule tree_delete_inv [OF inv name sp(2) _ refl])
      show "splay_map tree3 = (splay_map (is_tree space))(name := None)" using sp(3) tree(2) by simp
      fix i assume i: "i < is_table_size space"
      then show "ie_bits (is_table space ! i) AND IE_BITS_COLLISION \<noteq> 0 \<longleftrightarrow>
          (\<exists>n \<in> ?D - {name}. unat (MACH_PORT_INDEX n) = i)"
        using coll0 [OF i] False by auto
    qed (simp_all add: sp is_table_size_def)
    moreover have "space_caps space' = (space_caps space)(name := None)"
    proof (rule tree_names_update [OF _ _ _ _ te])
      show "splay_map (is_tree space') = (splay_map (is_tree space))(name := None)"
        using sp tree by simp
      show "is_table space' = is_table space" by (simp add: sp)
      show "length (is_table space) = is_table_size space" by (simp add: is_table_size_def)
    qed (rule disjI1, rule refl)
    ultimately show ?thesis using sp(4) by simp
  qed
qed

subsection \<open>Moving a colliding entry into the table\<close>

lemma pick_spec:
  assumes "splay_inv s"
  shows "ipc_splay_tree_pick s = None \<longleftrightarrow> splay_map s = Map.empty"
    and "ipc_splay_tree_pick s = Some (n, e) \<Longrightarrow> splay_map s n = Some e"
proof -
  have "splay_list s = [] \<longleftrightarrow> ist_root s = ITE_NULL" by (rule splay_list_empty_iff)
  then show "ipc_splay_tree_pick s = None \<longleftrightarrow> splay_map s = Map.empty"
    by (auto simp: ipc_splay_tree_pick_def splay_map_def split: itree.splits)
  assume "ipc_splay_tree_pick s = Some (n, e)"
  then obtain l r where r: "ist_root s = ITE l n e r"
    by (auto simp: ipc_splay_tree_pick_def split: itree.splits)
  then have "sorted_names (splay_list s)" "(n, e) \<in> set (splay_list s)"
    using assms by (auto simp: splay_inv_def splay_list_def contents_root)
  then show "splay_map s n = Some e" by (simp add: splay_map_def sorted_map_of_iff)
qed

text \<open>The three parts of the tree around an index.\<close>

lemma index_parts:
  assumes inv: "splay_inv t" and i: "i + 1 < 0x1000000" "i < 0x1000000"
    and s1: "ipc_splay_tree_split t (MACH_PORT_MAKE (i + 1) 0) u = (hi, rest)"
    and s2: "ipc_splay_tree_split rest (MACH_PORT_MAKE i 0) v = (mid, lo)"
  shows "splay_inv hi \<and> splay_map hi = splay_map t |` {n. i < MACH_PORT_INDEX n}"
    "splay_inv mid \<and> splay_map mid = splay_map t |` {n. MACH_PORT_INDEX n = i}"
    "splay_inv lo \<and> splay_map lo = splay_map t |` {n. MACH_PORT_INDEX n < i}"
proof -
  have up: "MACH_PORT_MAKE (i + 1) 0 \<le> n \<longleftrightarrow> i < MACH_PORT_INDEX n" for n
  proof -
    have "n < MACH_PORT_MAKE (i + 1) 0 \<longleftrightarrow> MACH_PORT_INDEX n < i + 1" using i(1) by (rule make0_less)
    also have "\<dots> \<longleftrightarrow> MACH_PORT_INDEX n \<le> i"
    proof -
      have "unat (i + 1) = unat i + 1"
        using i(2) by (simp add: unat_word_ariths word_less_nat_alt)
      then show ?thesis by (simp add: word_less_nat_alt word_le_nat_alt less_Suc_eq_le)
    qed
    finally show ?thesis by (auto simp: not_le not_less)
  qed
  have down: "n < MACH_PORT_MAKE i 0 \<longleftrightarrow> MACH_PORT_INDEX n < i" for n
    using i(2) by (rule make0_less)
  note a = split_map_law [OF inv s1]
  have "splay_inv rest" using a by simp
  note b = split_map_law [OF this s2]
  show "splay_inv hi \<and> splay_map hi = splay_map t |` {n. i < MACH_PORT_INDEX n}"
    using a up by (simp add: atLeast_def)
  have "{..<MACH_PORT_MAKE (i + 1) 0} \<inter> {MACH_PORT_MAKE i 0..} = {n. MACH_PORT_INDEX n = i}"
    using up down by (auto simp: not_le [symmetric])
  then show "splay_inv mid \<and> splay_map mid = splay_map t |` {n. MACH_PORT_INDEX n = i}"
    using a b by simp
  have "{..<MACH_PORT_MAKE (i + 1) 0} \<inter> {..<MACH_PORT_MAKE i 0} = {n. MACH_PORT_INDEX n < i}"
    using up down by (auto simp: not_le [symmetric])
  then show "splay_inv lo \<and> splay_map lo = splay_map t |` {n. MACH_PORT_INDEX n < i}"
    using a b by simp
qed

text \<open>What the tree part of the refill computes.\<close>

lemma refill_tree:
  assumes inv: "splay_inv t" and i: "i + 1 < 0x1000000" "i < 0x1000000"
    and s1: "ipc_splay_tree_split t (MACH_PORT_MAKE (i + 1) 0) u = (hi, rest)"
    and s2: "ipc_splay_tree_split rest (MACH_PORT_MAKE i 0) v = (mid, lo)"
    and some: "\<exists>n \<in> dom (splay_map t). MACH_PORT_INDEX n = i"
  shows "\<exists>tname tentry. ipc_splay_tree_pick mid = Some (tname, tentry) \<and> splay_map t tname = Some tentry \<and>
    MACH_PORT_INDEX tname = i \<and>
    (ipc_splay_tree_pick (ipc_splay_tree_delete mid tname) \<noteq> None \<longleftrightarrow>
      (\<exists>n \<in> dom (splay_map t) - {tname}. MACH_PORT_INDEX n = i)) \<and>
    (let mid' = ipc_splay_tree_delete mid tname;
         tree = (if ipc_splay_tree_pick mid' \<noteq> None then fst (ipc_splay_tree_join hi mid') else hi);
         tree = fst (ipc_splay_tree_join tree lo)
     in splay_inv tree \<and> splay_map tree = (splay_map t)(tname := None))"
proof -
  note parts = index_parts [OF inv i s1 s2]
  have "splay_map mid \<noteq> Map.empty" using some parts(2) by (auto simp: fun_eq_iff restrict_map_def)
  then obtain tname tentry where pick: "ipc_splay_tree_pick mid = Some (tname, tentry)"
    using pick_spec(1) [of mid] parts(2) by (cases "ipc_splay_tree_pick mid") auto
  then have m: "splay_map mid tname = Some tentry" using pick_spec(2) [of mid tname tentry] parts(2) by simp
  then have t: "splay_map t tname = Some tentry" "MACH_PORT_INDEX tname = i"
    using parts(2) by (auto simp: restrict_map_def split: if_splits)
  let ?mid = "ipc_splay_tree_delete mid tname"
  have d: "splay_inv ?mid" "splay_map ?mid = (splay_map mid)(tname := None)"
    using splay.delete_law [OF conjunct1 [OF parts(2)], of tname] m by simp_all
  have more: "ipc_splay_tree_pick ?mid \<noteq> None \<longleftrightarrow> (\<exists>n \<in> dom (splay_map t) - {tname}. MACH_PORT_INDEX n = i)"
  proof -
    have "dom (splay_map ?mid) = {n \<in> dom (splay_map t). MACH_PORT_INDEX n = i} - {tname}"
      using d(2) conjunct2 [OF parts(2)] by (auto simp: restrict_map_def split: if_splits)
    moreover have "splay_map ?mid = Map.empty \<longleftrightarrow> dom (splay_map ?mid) = {}" by simp
    ultimately show ?thesis unfolding pick_spec(1) [OF d(1)] by blast
  qed
  obtain tr e1 where j1: "ipc_splay_tree_join hi ?mid = (tr, e1)" by fastforce
  have "l < h" if "splay_map ?mid l \<noteq> None" "splay_map hi h \<noteq> None" for l h
  proof (rule index_less)
    have "MACH_PORT_INDEX l = i" using that(1) d(2) parts(2) by (auto simp: restrict_map_def split: if_splits)
    moreover have "i < MACH_PORT_INDEX h" using that(2) parts(1) by (auto simp: restrict_map_def split: if_splits)
    ultimately show "MACH_PORT_INDEX l < MACH_PORT_INDEX h" by simp
  qed
  then have tr: "splay_inv tr \<and> splay_map tr = splay_map hi ++ splay_map ?mid"
    using join_map_law [OF _ d(1) _ j1] parts(1) by blast
  let ?tree = "if ipc_splay_tree_pick ?mid \<noteq> None then tr else hi"
  have tree: "splay_inv ?tree \<and> splay_map ?tree = splay_map hi ++ splay_map ?mid"
    using tr parts(1) pick_spec(1) [OF d(1)] by auto
  obtain tr2 e2 where j2: "ipc_splay_tree_join ?tree lo = (tr2, e2)" by fastforce
  have "splay_inv tr2 \<and> splay_map tr2 = splay_map ?tree ++ splay_map lo"
  proof -
    have lt: "l < h" if "splay_map lo l \<noteq> None" "splay_map ?tree h \<noteq> None" for l h
    proof -
      have "MACH_PORT_INDEX l < i" using that(1) parts(3) by (auto simp: restrict_map_def split: if_splits)
      moreover have "i \<le> MACH_PORT_INDEX h"
      proof -
        have "splay_map hi h \<noteq> None \<or> splay_map mid h \<noteq> None"
          using that(2) unfolding conjunct2 [OF tree] d(2)
          by (auto simp: map_add_def split: option.splits if_splits)
        then show ?thesis
          using conjunct2 [OF parts(1)] conjunct2 [OF parts(2)]
          by (auto simp: restrict_map_def split: if_splits)
      qed
      ultimately show ?thesis by (rule index_less [OF less_le_trans])
    qed
    from join_map_law [OF conjunct1 [OF tree] conjunct1 [OF parts(3)] lt j2] show ?thesis by blast
  qed
  moreover have "splay_map hi ++ splay_map ?mid ++ splay_map lo = (splay_map t)(tname := None)"
    unfolding d(2) using parts t(2)
    by (auto simp: fun_eq_iff map_add_def restrict_map_def split: option.splits) 
  ultimately have fin: "splay_inv tr2 \<and> splay_map tr2 = (splay_map t)(tname := None)"
    using tree by simp
  show ?thesis
    by (intro exI [of _ tname] exI [of _ tentry] conjI pick t more)
       (simp only: Let_def j1 fst_conv j2 fin simp_thms)
qed

text \<open>
  The hash tables of a space agree with its entries: the hashed table entries are its send
  rights apart from \<open>gone\<close>, the references of the global table are those of its tree, and no
  object is hashed twice.
\<close>

definition hash_ok :: "nat set \<Rightarrow> entry_state \<Rightarrow> bool" where
  "hash_ok gone st \<longleftrightarrow>
     (case st of (space, g) \<Rightarrow>
       hash_inv (is_table space) \<and> global_inv g \<and>
       hashed (is_table space) =
         {i. i < is_table_size space \<and> IE_BITS_TYPE (ie_bits (is_table space ! i)) = MACH_PORT_TYPE_SEND} - gone \<and>
       (\<forall>n ob. \<lparr>tr_space = is_self space, tr_name = n, tr_object = ob\<rparr> \<in> refs g \<longleftrightarrow>
          (\<exists>e. splay_map (is_tree space) n = Some e \<and> IE_BITS_TYPE (ie_bits e) = MACH_PORT_TYPE_SEND \<and> ie_object e = ob)) \<and>
       (\<forall>i \<in> hashed (is_table space). \<forall>n e. splay_map (is_tree space) n = Some e \<longrightarrow>
          IE_BITS_TYPE (ie_bits e) = MACH_PORT_TYPE_SEND \<longrightarrow> ie_object (is_table space ! i) \<noteq> ie_object e))"

text \<open>\<open>is_tree_hash\<close> counts the references of the space in the global table.\<close>

definition tree_hash_ok :: "entry_state \<Rightarrow> bool" where
  "tree_hash_ok st \<longleftrightarrow>
     (case st of (space, g) \<Rightarrow> is_tree_hash space = of_nat (card {r \<in> refs g. tr_space r = is_self space}))"

lemma finite_refs [simp]: "finite (refs g)"
  by (simp add: refs_code)

lemma tree_hash_delete:
  assumes "tree_hash_ok (space, g)" "r \<in> refs g" "tr_space r = is_self space" "refs g' = refs g - {r}"
    and "is_self space' = is_self space" "is_tree_hash space' = is_tree_hash space - 1"
  shows "tree_hash_ok (space', g')"
proof -
  let ?R = "{r \<in> refs g. tr_space r = is_self space}"
  have "{r \<in> refs g'. tr_space r = is_self space'} = ?R - {r}" using assms(4,5) by auto
  moreover have "card ?R = Suc (card (?R - {r}))"
    using assms(2,3) by (intro card.remove) auto
  ultimately show ?thesis using assms(1,6) by (simp add: tree_hash_ok_def)
qed

text \<open>What deallocation does not touch.\<close>

definition same_space :: "ipc_space \<Rightarrow> ipc_space \<Rightarrow> bool" where
  "same_space space space' \<longleftrightarrow> is_self space' = is_self space \<and> is_active space' = is_active space \<and>
     is_fast space' = is_fast space \<and> is_table_size space' = is_table_size space"

lemma index_only:
  "a = b\<lparr>ie_index := ie_index a\<rparr> \<Longrightarrow>
   ie_bits a = ie_bits b \<and> ie_object a = ie_object b \<and> ie_request a = ie_request b"
  by (cases a; cases b) simp

lemma set_index_entry:
  "h < length t \<Longrightarrow> k < length t \<Longrightarrow> set_index t h v ! k = (t ! k)\<lparr>ie_index := ie_index (set_index t h v ! k)\<rparr>"
  by (simp add: set_index_def nth_list_update)

text \<open>
  The step shared by the refill and by the growth of the table: the entry of \<open>tname\<close> is
  written to the table at \<open>i\<close> and, when it is a send right, moved between the hash tables.
\<close>

lemma move_hash:
  assumes ok: "hash_ok gone (space, g)" and i: "i < is_table_size space" "i \<noteq> 0" "i \<notin> hashed (is_table space)"
    and te: "splay_map (is_tree space) tname = Some tentry"
    and e: "ie_object e = ie_object tentry" "IE_BITS_TYPE (ie_bits e) = IE_BITS_TYPE (ie_bits tentry)"
      "ie_index e = ie_index (is_table space ! i)"
    and send: "IE_BITS_TYPE (ie_bits tentry) = MACH_PORT_TYPE_SEND"
    and d: "ipc_hash_global_delete g (space\<lparr>is_table := (is_table space)[i := e]\<rparr>) (ie_object tentry) tname = (s1, g1)"
  shows "s1 = space\<lparr>is_table := (is_table space)[i := e], is_tree_hash := is_tree_hash space - 1\<rparr> \<and>
    global_inv g1 \<and>
    refs g1 = refs g - {\<lparr>tr_space = is_self space, tr_name = tname, tr_object = ie_object tentry\<rparr>} \<and>
    (\<exists>t. ipc_hash_local_insert (is_table s1) (ie_object tentry) i = Some t \<and> hash_inv t \<and>
      length t = is_table_size space \<and> hashed t = insert i (hashed (is_table space)) \<and>
      (\<forall>k < is_table_size space. t ! k = ((is_table space)[i := e] ! k)\<lparr>ie_index := ie_index (t ! k)\<rparr>))"
proof -
  let ?t = "(is_table space)[i := e]"
  let ?r = "\<lparr>tr_space = is_self space, tr_name = tname, tr_object = ie_object tentry\<rparr>"
  have h: "hash_inv (is_table space)" "global_inv g"
    and rf: "\<And>n ob. \<lparr>tr_space = is_self space, tr_name = n, tr_object = ob\<rparr> \<in> refs g \<longleftrightarrow>
          (\<exists>e. splay_map (is_tree space) n = Some e \<and> IE_BITS_TYPE (ie_bits e) = MACH_PORT_TYPE_SEND \<and> ie_object e = ob)"
    and other: "\<And>j. j \<in> hashed (is_table space) \<Longrightarrow> ie_object (is_table space ! j) \<noteq> ie_object tentry"
    using ok te send by (auto simp: hash_ok_def)
  have r: "?r \<in> refs g" using rf te send by blast
  have one: "\<forall>r \<in> refs g. tr_space r = is_self space \<longrightarrow> tr_name r = tname \<longrightarrow> tr_object r = ie_object tentry"
  proof (intro ballI impI)
    fix r assume "r \<in> refs g" "tr_space r = is_self space" "tr_name r = tname"
    then have "\<lparr>tr_space = is_self space, tr_name = tname, tr_object = tr_object r\<rparr> \<in> refs g"
      by (cases r) simp
    then show "tr_object r = ie_object tentry" using rf te by auto
  qed
  have gd: "global_inv g1" "s1 = space\<lparr>is_table := ?t, is_tree_hash := is_tree_hash space - 1\<rparr>" "refs g1 = refs g - {?r}"
    using global_delete_spec [OF h(2) _ _ d] r one by simp_all
  have len: "i < length (is_table space)" using i(1) by (simp add: is_table_size_def)
  have cong: "hashed ?t = hashed (is_table space)" "hash_inv ?t"
  proof -
    have "ie_index (?t ! k) = ie_index (is_table space ! k)" if "k < length (is_table space)" for k
      using that e(3) len by (simp add: nth_list_update)
    moreover have "ie_object (?t ! k) = ie_object (is_table space ! k)" if "k \<in> hashed (is_table space)" for k
      using that i(3) by (metis nth_list_update_neq)
    ultimately show "hashed ?t = hashed (is_table space)" "hash_inv ?t"
      using hash_inv_cong [of ?t "is_table space"] h(1) by auto
  qed
  have obj: "ie_object (?t ! i) = ie_object tentry" using len e(1) by simp
  have "\<forall>j \<in> hashed ?t. ie_object (?t ! j) \<noteq> ie_object (?t ! i)"
    using other i(3) obj unfolding cong(1) by (metis nth_list_update_neq)
  then obtain p where p: "ipc_hash_local_insert ?t (ie_object tentry) i = Some (set_index ?t p i)" "p < length ?t"
    "hash_inv (set_index ?t p i)" "hashed (set_index ?t p i) = insert i (hashed (is_table space))"
    using local_insert_spec [OF cong(2), of i] len i(2,3) cong(1) obj by auto
  have "\<forall>k < is_table_size space. set_index ?t p i ! k = (?t ! k)\<lparr>ie_index := ie_index (set_index ?t p i ! k)\<rparr>"
    using set_index_entry [OF p(2)] by (simp add: is_table_size_def)
  then show ?thesis
    using gd p by (auto simp: is_table_size_def set_index_def)
qed

text \<open>
  A move from tree to table in terms of the maps: the table's entry at the index of \<open>tname\<close> becomes
  the tree entry of \<open>tname\<close>.
\<close>

lemma moved_names:
  assumes inv: "names_inv space" and te: "splay_map (is_tree space) tname = Some tentry"
    and i: "i = unat (MACH_PORT_INDEX tname)" "i < is_table_size space"
    and s': "splay_inv (is_tree space')" "splay_map (is_tree space') = (splay_map (is_tree space))(tname := None)"
      "is_tree_total space' = is_tree_total space - 1" "is_fast space' = is_fast space"
    and len: "is_table_size space' = is_table_size space"
    and new: "cap (is_table space' ! i) = cap tentry" "IE_BITS_TYPE (ie_bits (is_table space' ! i)) = IE_BITS_TYPE (ie_bits tentry)"
      "IE_BITS_GEN (ie_bits (is_table space' ! i)) = MACH_PORT_GEN tname"
      "ie_bits (is_table space' ! i) AND IE_BITS_COLLISION \<noteq> 0 \<longleftrightarrow>
        (\<exists>n \<in> dom (splay_map (is_tree space)) - {tname}. unat (MACH_PORT_INDEX n) = i)"
    and old: "\<And>k. k < is_table_size space \<Longrightarrow> k \<noteq> i \<Longrightarrow>
        is_table space' ! k = (is_table space ! k)\<lparr>ie_index := ie_index (is_table space' ! k)\<rparr>"
    and type: "IE_BITS_TYPE (ie_bits tentry) \<noteq> 0"
    and name: "name = MACH_PORT_MAKE (MACH_PORT_INDEX tname) (IE_BITS_GEN (ie_bits (is_table space ! i)))"
  shows "names_inv space' \<and> space_caps space' = (space_caps space)(name := None)"
proof -
  let ?D = "dom (splay_map (is_tree space))"
  have ni: "MACH_PORT_INDEX name = MACH_PORT_INDEX tname" "MACH_PORT_GEN name = IE_BITS_GEN (ie_bits (is_table space ! i))"
  proof -
    have "MACH_PORT_INDEX tname < 0x1000000" by (rule index_bound)
    then show "MACH_PORT_INDEX name = MACH_PORT_INDEX tname" by (simp add: name index_make)
    show "MACH_PORT_GEN name = IE_BITS_GEN (ie_bits (is_table space ! i))"
      by (simp add: name gen_make IE_BITS_GEN_def and.assoc)
  qed
  have "tname \<in> ?D" using te by blast
  have dom': "dom (splay_map (is_tree space')) = ?D - {tname}" by (simp add: s'(2))
  have total: "unat (is_tree_total space') = card (?D - {tname})"
  proof -
    have c: "unat (is_tree_total space) = card ?D" using inv by (simp add: names_inv_def)
    have "is_tree_total space \<noteq> 0"
      using c \<open>tname \<in> ?D\<close> by (metis card_0_eq empty_iff finite_splay_dom unat_0)
    then have "unat (is_tree_total space - 1) = unat (is_tree_total space) - 1" by (rule unat_minus_one)
    then show ?thesis using c \<open>tname \<in> ?D\<close> by (simp add: s'(3))
  qed
  have bits: "ie_bits (is_table space' ! k) = ie_bits (is_table space ! k)" if "k < is_table_size space" "k \<noteq> i" for k
    using old [OF that] by (rule index_only [THEN conjunct1])
  have tdom: "ie_bits (is_table space ! unat (MACH_PORT_INDEX n)) AND IE_BITS_COLLISION \<noteq> 0 \<and>
        IE_BITS_TYPE (ie_bits (is_table space ! unat (MACH_PORT_INDEX n))) \<noteq> 0 \<and>
        IE_BITS_GEN (ie_bits (is_table space ! unat (MACH_PORT_INDEX n))) \<noteq> MACH_PORT_GEN n"
    if "n \<in> ?D" "unat (MACH_PORT_INDEX n) < is_table_size space" for n
    using inv that unfolding names_inv_def by blast
  have tcoll: "\<exists>n \<in> ?D. unat (MACH_PORT_INDEX n) = k"
    if "k < is_table_size space" "ie_bits (is_table space ! k) AND IE_BITS_COLLISION \<noteq> 0" for k
    using inv that unfolding names_inv_def by blast
  have "names_inv space'"
    unfolding names_inv_def dom' len
  proof (intro conjI)
    show "\<forall>n \<in> ?D - {tname}. unat (MACH_PORT_INDEX n) < is_table_size space \<longrightarrow>
        ie_bits (is_table space' ! unat (MACH_PORT_INDEX n)) AND IE_BITS_COLLISION \<noteq> 0 \<and>
        IE_BITS_TYPE (ie_bits (is_table space' ! unat (MACH_PORT_INDEX n))) \<noteq> 0 \<and>
        IE_BITS_GEN (ie_bits (is_table space' ! unat (MACH_PORT_INDEX n))) \<noteq> MACH_PORT_GEN n"
    proof (intro ballI impI)
      fix n assume n: "n \<in> ?D - {tname}" "unat (MACH_PORT_INDEX n) < is_table_size space"
      show "ie_bits (is_table space' ! unat (MACH_PORT_INDEX n)) AND IE_BITS_COLLISION \<noteq> 0 \<and>
        IE_BITS_TYPE (ie_bits (is_table space' ! unat (MACH_PORT_INDEX n))) \<noteq> 0 \<and>
        IE_BITS_GEN (ie_bits (is_table space' ! unat (MACH_PORT_INDEX n))) \<noteq> MACH_PORT_GEN n"
      proof (cases "unat (MACH_PORT_INDEX n) = i")
        case False
        then show ?thesis using tdom [of n] n bits by auto
      next
        case True
        then have "MACH_PORT_INDEX n = MACH_PORT_INDEX tname" using i(1) by (simp add: word_unat_eq_iff)
        then have "MACH_PORT_GEN n \<noteq> MACH_PORT_GEN tname" using n(1) name_eqI by blast
        then show ?thesis using True new type n(1) by auto
      qed
    qed
    show "\<forall>k < is_table_size space. ie_bits (is_table space' ! k) AND IE_BITS_COLLISION \<noteq> 0 \<longrightarrow>
        (\<exists>n \<in> ?D - {tname}. unat (MACH_PORT_INDEX n) = k)"
    proof (intro allI impI)
      fix k assume k: "k < is_table_size space" "ie_bits (is_table space' ! k) AND IE_BITS_COLLISION \<noteq> 0"
      show "\<exists>n \<in> ?D - {tname}. unat (MACH_PORT_INDEX n) = k"
      proof (cases "k = i")
        case True
        then show ?thesis using new(4) k(2) by blast
      next
        case False
        then obtain n where "n \<in> ?D" "unat (MACH_PORT_INDEX n) = k"
          using tcoll [OF k(1)] k(2) bits [OF k(1)] by auto
        then show ?thesis using False i(1) by blast
      qed
    qed
    show "unat (is_tree_total space') = card (?D - {tname})" by (rule total)
  qed (use inv s' in \<open>auto simp: names_inv_def split: if_splits\<close>)
  moreover have "space_caps space' n = ((space_caps space)(name := None)) n" for n
  proof (cases "unat (MACH_PORT_INDEX n) = i")
    case False
    then have "table_entry (is_table space') n = None \<longleftrightarrow> table_entry (is_table space) n = None"
      "map_option cap (table_entry (is_table space') n) = map_option cap (table_entry (is_table space) n)"
      using bits [of "unat (MACH_PORT_INDEX n)"] old [of "unat (MACH_PORT_INDEX n)"] len
      by (auto simp: table_entry_def Let_def is_table_size_def cap_def)
         (metis ipc_entry.select_convs(1-3) ipc_entry.surjective ipc_entry.update_convs(4))+
    moreover have "n \<noteq> tname" "n \<noteq> name" using False i(1) ni(1) by auto
    ultimately show ?thesis by (simp only: space_caps_alt s'(2) fun_upd_apply if_False)
  next
    case True
    then have ix: "MACH_PORT_INDEX n = MACH_PORT_INDEX tname" using i(1) by (simp add: word_unat_eq_iff)
    show ?thesis
    proof (cases "n = tname")
      case t: True
      have "map_option cap (table_entry (is_table space') n) = Some (cap tentry)"
        using t i len new(1-3) type by (simp add: table_entry_def Let_def is_table_size_def)
      moreover have "table_entry (is_table space) n = None"
        using tdom [OF \<open>tname \<in> ?D\<close>] t i by (simp add: table_entry_def Let_def)
      moreover have "n \<noteq> name" using tdom [OF \<open>tname \<in> ?D\<close>] t i ni(2) by auto
      ultimately show ?thesis using t te by (auto simp: space_caps_alt)
    next
      case False
      then have "MACH_PORT_GEN n \<noteq> MACH_PORT_GEN tname" using ix name_eqI by blast
      then have a: "table_entry (is_table space') n = None"
        using True new(3) by (simp add: table_entry_def Let_def)
      show ?thesis
      proof (cases "n = name")
        case True
        then have "n \<notin> ?D" using tdom [of n] ni i by auto
        then show ?thesis using a True False by (auto simp: space_caps_alt s'(2))
      next
        case no: False
        then have "MACH_PORT_GEN n \<noteq> MACH_PORT_GEN name" using ix ni(1) name_eqI by metis
        then have "table_entry (is_table space) n = None"
          using True ni(2) by (simp add: table_entry_def Let_def)
        then show ?thesis using a False no by (simp add: space_caps_alt s'(2))
      qed
    qed
  qed
  ultimately show ?thesis by blast
qed

text \<open>The hash tables after a move.\<close>

lemma moved_hash:
  assumes ok: "hash_ok {i} (space, g)"
    and te: "splay_map (is_tree space) tname = Some tentry" and i: "i < is_table_size space" "i \<noteq> 0"
    and self: "is_self space' = is_self space" and len: "is_table_size space' = is_table_size space"
    and tree: "splay_map (is_tree space') = (splay_map (is_tree space))(tname := None)"
    and hash: "hash_inv (is_table space')" "global_inv g'"
      "hashed (is_table space') = (if IE_BITS_TYPE (ie_bits tentry) = MACH_PORT_TYPE_SEND
         then insert i (hashed (is_table space)) else hashed (is_table space))"
      "refs g' = (if IE_BITS_TYPE (ie_bits tentry) = MACH_PORT_TYPE_SEND
         then refs g - {\<lparr>tr_space = is_self space, tr_name = tname, tr_object = ie_object tentry\<rparr>} else refs g)"
    and new: "IE_BITS_TYPE (ie_bits (is_table space' ! i)) = IE_BITS_TYPE (ie_bits tentry)"
      "ie_object (is_table space' ! i) = ie_object tentry"
    and old: "\<And>k. k < is_table_size space \<Longrightarrow> k \<noteq> i \<Longrightarrow>
        is_table space' ! k = (is_table space ! k)\<lparr>ie_index := ie_index (is_table space' ! k)\<rparr>"
  shows "hash_ok {} (space', g')"
proof -
  let ?send = "\<lambda>b. IE_BITS_TYPE b = MACH_PORT_TYPE_SEND"
  have H: "hashed (is_table space) = {k. k < is_table_size space \<and> ?send (ie_bits (is_table space ! k))} - {i}"
    and rf: "\<And>n ob. \<lparr>tr_space = is_self space, tr_name = n, tr_object = ob\<rparr> \<in> refs g \<longleftrightarrow>
          (\<exists>e. splay_map (is_tree space) n = Some e \<and> ?send (ie_bits e) \<and> ie_object e = ob)"
    and other: "\<And>j n e. j \<in> hashed (is_table space) \<Longrightarrow> splay_map (is_tree space) n = Some e \<Longrightarrow> ?send (ie_bits e) \<Longrightarrow>
        ie_object (is_table space ! j) \<noteq> ie_object e"
    and ginv: "global_inv g"
    using ok by (auto simp: hash_ok_def)
  have same: "ie_bits (is_table space' ! k) = ie_bits (is_table space ! k) \<and>
      ie_object (is_table space' ! k) = ie_object (is_table space ! k)" if "k < is_table_size space" "k \<noteq> i" for k
    using old [OF that] by (auto dest: index_only)
  have hd: "hashed (is_table space') = {k. k < is_table_size space' \<and> ?send (ie_bits (is_table space' ! k))} - {}"
  proof (rule set_eqI)
    fix k
    show "k \<in> hashed (is_table space') \<longleftrightarrow>
        k \<in> {k. k < is_table_size space' \<and> ?send (ie_bits (is_table space' ! k))} - {}"
      using H hash(3) new(1) same [of k] i(1) by (cases "k = i") (auto simp: len)
  qed
  moreover have "\<lparr>tr_space = is_self space', tr_name = n, tr_object = ob\<rparr> \<in> refs g' \<longleftrightarrow>
      (\<exists>e. splay_map (is_tree space') n = Some e \<and> ?send (ie_bits e) \<and> ie_object e = ob)" for n ob
    using rf [of n ob] te by (auto simp: self tree hash(4))
  moreover have "ie_object (is_table space' ! j) \<noteq> ie_object e"
    if j: "j \<in> hashed (is_table space')" and e: "splay_map (is_tree space') n = Some e" "?send (ie_bits e)" for j n e
  proof -
    have e': "splay_map (is_tree space) n = Some e" "n \<noteq> tname" using e(1) tree by (auto split: if_splits)
    show ?thesis
    proof (cases "j = i")
      case False
      then have "j \<in> hashed (is_table space)" "j < is_table_size space" using j hash(3) hd len by (auto split: if_splits)
      then show ?thesis using other e' e(2) same False by auto
    next
      case True
      then have send: "?send (ie_bits tentry)" using j hash(3) H by (auto split: if_splits)
      show ?thesis
      proof
        assume "ie_object (is_table space' ! j) = ie_object e"
        then have o: "ie_object e = ie_object tentry" using True new(2) by simp
        have "\<lparr>tr_space = is_self space, tr_name = n, tr_object = ie_object e\<rparr> \<in> refs g"
          "\<lparr>tr_space = is_self space, tr_name = tname, tr_object = ie_object e\<rparr> \<in> refs g"
          using rf e' e(2) te send o by auto
        then have "n = tname" using ginv unfolding global_inv_def by fastforce
        then show False using e'(2) by simp
      qed
    qed
  qed
  ultimately show ?thesis using hash(1,2) by (simp add: hash_ok_def)
qed

text \<open>
  The tree entry of a name of index \<open>i\<close> has left the tree for the slot \<open>i\<close> of the table, with its right, its object and its
  request and the generation of its name.
\<close>

definition moved_in :: "ipc_space \<Rightarrow> ipc_space \<Rightarrow> nat \<Rightarrow> mach_port_t \<Rightarrow> ipc_entry \<Rightarrow> bool" where
  "moved_in space space' i n e \<longleftrightarrow>
     splay_map (is_tree space) n = Some e \<and> unat (MACH_PORT_INDEX n) = i \<and>
     splay_map (is_tree space') = (splay_map (is_tree space))(n := None) \<and>
     ie_bits (is_table space' ! i) AND IE_BITS_RIGHT_MASK = ie_bits e AND IE_BITS_RIGHT_MASK \<and>
     IE_BITS_GEN (ie_bits (is_table space' ! i)) = MACH_PORT_GEN n \<and>
     ie_object (is_table space' ! i) = ie_object e \<and> ie_request (is_table space' ! i) = ie_request e"

lemma refill_spec:
  assumes inv: "names_inv space" and ok: "hash_ok {i} (space, g)"
    and i: "i = unat index" "i < is_table_size space" "i \<noteq> 0"
    and coll: "ie_bits (is_table space ! i) AND IE_BITS_COLLISION \<noteq> 0"
    and types: "\<forall>n e. splay_map (is_tree space) n = Some e \<longrightarrow> IE_BITS_TYPE (ie_bits e) \<noteq> 0"
  shows "\<exists>space' g'. refill_entry (space, g) index = Some (space', g') \<and> names_inv space' \<and>
    hash_ok {} (space', g') \<and>
    space_caps space' = (space_caps space)(MACH_PORT_MAKE index (IE_BITS_GEN (ie_bits (is_table space ! i))) := None) \<and>
    (\<forall>k < is_table_size space. k \<noteq> i \<longrightarrow>
       is_table space' ! k = (is_table space ! k)\<lparr>ie_index := ie_index (is_table space' ! k)\<rparr>) \<and>
    same_space space space' \<and> (tree_hash_ok (space, g) \<longrightarrow> tree_hash_ok (space', g')) \<and>
    (\<forall>n e. splay_map (is_tree space') n = Some e \<longrightarrow> IE_BITS_TYPE (ie_bits e) \<noteq> 0) \<and>
    (\<exists>n e. moved_in space space' i n e)"
proof -
  let ?t = "is_table space"
  have len: "i < length ?t" "length ?t < 0x1000000"
    using i(2) inv by (auto simp: is_table_size_def names_inv_def)
  have ix: "index < 0x1000000" "index + 1 < 0x1000000"
    using len i(1) by (simp_all add: word_less_nat_alt unat_word_ariths)
  have tinv: "splay_inv (is_tree space)" using inv by (simp add: names_inv_def)
  obtain n0 where n0: "n0 \<in> dom (splay_map (is_tree space))" "unat (MACH_PORT_INDEX n0) = i"
    using inv coll i(2) unfolding names_inv_def by blast
  then have some: "\<exists>n \<in> dom (splay_map (is_tree space)). MACH_PORT_INDEX n = index"
    using i(1) by (auto simp: word_unat_eq_iff)
  obtain hi rest where s1: "ipc_splay_tree_split (is_tree space) (MACH_PORT_MAKE (index + 1) 0) no_tree = (hi, rest)"
    by fastforce
  obtain mid lo where s2: "ipc_splay_tree_split rest (MACH_PORT_MAKE index 0) no_tree = (mid, lo)"
    by fastforce
  obtain tname tentry tree where pick: "ipc_splay_tree_pick mid = Some (tname, tentry)"
    and te: "splay_map (is_tree space) tname = Some tentry" and tix: "MACH_PORT_INDEX tname = index"
    and more: "ipc_splay_tree_pick (ipc_splay_tree_delete mid tname) \<noteq> None \<longleftrightarrow>
      (\<exists>n \<in> dom (splay_map (is_tree space)) - {tname}. MACH_PORT_INDEX n = index)"
    and tree: "tree = fst (ipc_splay_tree_join (if ipc_splay_tree_pick (ipc_splay_tree_delete mid tname) \<noteq> None
        then fst (ipc_splay_tree_join hi (ipc_splay_tree_delete mid tname)) else hi) lo)"
    and tr: "splay_inv tree" "splay_map tree = (splay_map (is_tree space))(tname := None)"
    using refill_tree [OF tinv ix(2,1) s1 s2 some] unfolding Let_def by blast
  let ?more = "ipc_splay_tree_pick (ipc_splay_tree_delete mid tname) \<noteq> None"
  let ?e = "(?t ! i)\<lparr>ie_bits := ie_bits tentry OR MACH_PORT_GEN tname, ie_object := ie_object tentry,
      ie_request := ie_request tentry\<rparr>"
  let ?s = "space\<lparr>is_table := ?t[i := ?e]\<rparr>"
  let ?send = "IE_BITS_TYPE (ie_bits tentry) = MACH_PORT_TYPE_SEND"
  have right: "ie_bits tentry AND IE_BITS_RIGHT_MASK = ie_bits tentry"
    using inv te unfolding names_inv_def by blast
  note gen = gen_or_simps [OF right, of tname]
  have hok: "hash_inv ?t" "global_inv g" "i \<notin> hashed ?t" using ok by (auto simp: hash_ok_def)
  obtain s1' g' t where step: "(if ?send
        then let (space, g) = ipc_hash_global_delete g ?s (ie_object tentry) tname
             in map_option (\<lambda>table. (space\<lparr>is_table := table\<rparr>, g)) (ipc_hash_local_insert (is_table space) (ie_object tentry) i)
        else Some (?s, g)) = Some (s1', g')"
    and s1': "is_table s1' = t" "is_self s1' = is_self space" "is_fast s1' = is_fast space"
      "is_tree_total s1' = is_tree_total space" "is_active s1' = is_active space"
      "is_tree_hash s1' = (if ?send then is_tree_hash space - 1 else is_tree_hash space)"
    and t: "hash_inv t" "length t = is_table_size space"
      "hashed t = (if ?send then insert i (hashed ?t) else hashed ?t)"
      "\<forall>k < is_table_size space. t ! k = (?t[i := ?e] ! k)\<lparr>ie_index := ie_index (t ! k)\<rparr>"
    and g': "global_inv g'" "refs g' = (if ?send
         then refs g - {\<lparr>tr_space = is_self space, tr_name = tname, tr_object = ie_object tentry\<rparr>} else refs g)"
  proof (cases ?send)
    case True
    obtain s1 g1 where d: "ipc_hash_global_delete g ?s (ie_object tentry) tname = (s1, g1)" by fastforce
    obtain t where "s1 = ?s\<lparr>is_tree_hash := is_tree_hash space - 1\<rparr>" "global_inv g1"
      "refs g1 = refs g - {\<lparr>tr_space = is_self space, tr_name = tname, tr_object = ie_object tentry\<rparr>}"
      "ipc_hash_local_insert (is_table s1) (ie_object tentry) i = Some t" "hash_inv t"
      "length t = is_table_size space" "hashed t = insert i (hashed ?t)"
      "\<forall>k < is_table_size space. t ! k = (?t[i := ?e] ! k)\<lparr>ie_index := ie_index (t ! k)\<rparr>"
      using move_hash [OF ok i(2,3) hok(3) te, of ?e, OF _ _ _ True d] gen(2) by auto
    then show ?thesis
      using True d by (intro that [of "s1\<lparr>is_table := t\<rparr>" g1 t]) simp_all
  next
    case False
    have ind: "ie_index (?t[i := ?e] ! k) = ie_index (?t ! k)" if "k < length ?t" for k
      using that len(1) by (simp add: nth_list_update)
    moreover have "ie_object (?t[i := ?e] ! k) = ie_object (?t ! k)" if "k \<in> hashed ?t" for k
      using that hok(3) by (metis nth_list_update_neq)
    ultimately have "hash_inv (?t[i := ?e])" "hashed (?t[i := ?e]) = hashed ?t"
      using hash_inv_cong [of "?t[i := ?e]" ?t] hok(1) by auto
    then show ?thesis
      using False hok(2) by (intro that [of ?s g "?t[i := ?e]"]) (simp_all add: is_table_size_def)
  qed
  let ?e' = "t ! i"
  let ?tab = "if ?more then t[i := ?e'\<lparr>ie_bits := ie_bits ?e' OR IE_BITS_COLLISION\<rparr>] else t"
  let ?space' = "s1'\<lparr>is_tree_total := is_tree_total space - 1, is_table := ?tab, is_tree := tree\<rparr>"
  have res: "refill_entry (space, g) index = Some (?space', g')"
  proof -
    have "refill_entry (space, g) index =
       (case Some (s1', g') of None \<Rightarrow> None
        | Some (space, g) \<Rightarrow>
            let collisions = ipc_splay_tree_delete mid tname;
                space = space\<lparr>is_tree_total := is_tree_total space - 1\<rparr>;
                entry = is_table space ! i;
                (space, tree) =
                  (if ipc_splay_tree_pick collisions \<noteq> None
                   then (space\<lparr>is_table := (is_table space)[i := entry\<lparr>ie_bits := ie_bits entry OR IE_BITS_COLLISION\<rparr>]\<rparr>,
                         fst (ipc_splay_tree_join hi collisions))
                   else (space, hi))
            in Some (space\<lparr>is_tree := fst (ipc_splay_tree_join tree lo)\<rparr>, g))"
      unfolding refill_entry_def
      by (simp only: Let_def prod.case s1 s2 pick option.case i(1) [symmetric] step [unfolded Let_def])
    also have "\<dots> = Some (?space', g')"
      using tree s1' by (cases ?more) (simp_all add: Let_def)
    finally show ?thesis .
  qed
  have sp: "is_table ?space' = ?tab" "is_tree ?space' = tree" "is_self ?space' = is_self space"
    "is_fast ?space' = is_fast space" "is_tree_total ?space' = is_tree_total space - 1"
    "is_table_size ?space' = is_table_size space"
    using s1' t(2) by (simp_all add: is_table_size_def)
  have ti: "t ! i = ?e\<lparr>ie_index := ie_index (t ! i)\<rparr>"
    using t(4) i(2) len(1) by auto
  have tabi: "ie_bits (?tab ! i) = (if ?more then ie_bits ?e OR IE_BITS_COLLISION else ie_bits ?e)"
    "ie_object (?tab ! i) = ie_object tentry" "ie_request (?tab ! i) = ie_request tentry"
    using index_only [OF ti] t(2) i(2) by simp_all
  have tabk: "?tab ! k = (?t ! k)\<lparr>ie_index := ie_index (?tab ! k)\<rparr>" if "k < is_table_size space" "k \<noteq> i" for k
  proof -
    have "?tab ! k = t ! k" using that(2) by simp
    moreover have "t ! k = (?t ! k)\<lparr>ie_index := ie_index (t ! k)\<rparr>" using t(4) that by auto
    ultimately show ?thesis by simp
  qed
  have more': "?more \<longleftrightarrow> (\<exists>n \<in> dom (splay_map (is_tree space)) - {tname}. unat (MACH_PORT_INDEX n) = i)"
    using more i(1) by (simp add: word_unat_eq_iff)
  have names: "names_inv ?space' \<and> space_caps ?space' =
      (space_caps space)(MACH_PORT_MAKE index (IE_BITS_GEN (ie_bits (?t ! i))) := None)"
  proof (rule moved_names [OF inv te _ i(2)])
    show "IE_BITS_TYPE (ie_bits tentry) \<noteq> 0" using types te by blast
    show "cap (is_table ?space' ! i) = cap tentry"
      using gen(4) right by (simp only: sp(1) cap_def tabi) simp
    show "ie_bits (is_table ?space' ! i) AND IE_BITS_COLLISION \<noteq> 0 \<longleftrightarrow>
        (\<exists>n \<in> dom (splay_map (is_tree space)) - {tname}. unat (MACH_PORT_INDEX n) = i)"
      unfolding sp(1) tabi using gen(3) more' by simp
    show "IE_BITS_TYPE (ie_bits (is_table ?space' ! i)) = IE_BITS_TYPE (ie_bits tentry)"
      "IE_BITS_GEN (ie_bits (is_table ?space' ! i)) = MACH_PORT_GEN tname"
      using gen by (simp_all only: sp(1) tabi) simp_all
  qed (use sp tr tix i(1) tabk in simp_all)
  have hash: "hash_ok {} (?space', g')"
  proof (rule moved_hash [OF ok te i(2,3) sp(3,6) _ _ g'(1) _ g'(2)])
    have "hash_inv (t[i := ?e'\<lparr>ie_bits := b\<rparr>]) \<and> hashed (t[i := ?e'\<lparr>ie_bits := b\<rparr>]) = hashed t" for b
      using hash_inv_cong [of "t[i := ?e'\<lparr>ie_bits := b\<rparr>]" t] t(1,2) i(2) by (simp add: nth_list_update)
    then have "hash_inv ?tab \<and> hashed ?tab = hashed t" using t(1) by simp
    then show "hash_inv (is_table ?space')" "hashed (is_table ?space') =
        (if ?send then insert i (hashed (is_table space)) else hashed (is_table space))"
      using t(3) sp(1) by simp_all
    show "IE_BITS_TYPE (ie_bits (is_table ?space' ! i)) = IE_BITS_TYPE (ie_bits tentry)"
      "ie_object (is_table ?space' ! i) = ie_object tentry"
      using gen by (simp_all only: sp(1) tabi) simp_all
  qed (use sp(2) tr(2) tabk sp(1) in simp_all)
  have keep: "\<forall>k < is_table_size space. k \<noteq> i \<longrightarrow>
       is_table ?space' ! k = (is_table space ! k)\<lparr>ie_index := ie_index (is_table ?space' ! k)\<rparr>"
    unfolding sp(1) using tabk by blast
  have same: "same_space space ?space'" using sp s1' by (simp add: same_space_def)
  have th: "tree_hash_ok (space, g) \<longrightarrow> tree_hash_ok (?space', g')"
  proof (cases ?send)
    case True
    let ?r = "\<lparr>tr_space = is_self space, tr_name = tname, tr_object = ie_object tentry\<rparr>"
    have "?r \<in> refs g" using ok te True by (auto simp: hash_ok_def)
    then show ?thesis using True g'(2) s1' tree_hash_delete [of space g ?r g' ?space'] by simp
  next
    case False
    then show ?thesis using g'(2) s1' by (simp add: tree_hash_ok_def)
  qed
  have ty: "\<forall>n e. splay_map (is_tree ?space') n = Some e \<longrightarrow> IE_BITS_TYPE (ie_bits e) \<noteq> 0"
    using types tr(2) by (simp add: sp)
  have "ie_bits (?tab ! i) AND IE_BITS_RIGHT_MASK = ie_bits tentry"
    using gen(4) right by (simp only: tabi) simp
  moreover have "IE_BITS_GEN (ie_bits (?tab ! i)) = MACH_PORT_GEN tname"
    using gen by (simp_all only: tabi) simp_all
  ultimately have moved: "\<exists>n e. moved_in space ?space' i n e"
    unfolding moved_in_def sp(1,2) using te tix tr(2) i(1) tabi(2,3) right by (intro exI [of _ tname] exI [of _ tentry]) simp
  show ?thesis
    by (rule exI [of _ ?space'], rule exI [of _ g'], intro conjI; rule res hash keep same th ty moved conjunct1 [OF names] conjunct2 [OF names])
qed

text \<open>Deallocating a table entry, whether or not a tree entry waits for its place.\<close>

lemma table_dealloc_spec:
  assumes inv: "names_inv space" and ok: "hash_ok {i} (space, g)" and free: "free_list (is_table space) ns"
    and i: "i = unat (MACH_PORT_INDEX name)" "i \<noteq> 0" "i < is_table_size space" "i \<notin> set ns"
    and gen: "IE_BITS_GEN (ie_bits (is_table space ! i)) = MACH_PORT_GEN name"
    and zero: "IE_BITS_TYPE (ie_bits (is_table space ! 0)) = 0"
    and types: "\<forall>n e. splay_map (is_tree space) n = Some e \<longrightarrow> IE_BITS_TYPE (ie_bits e) \<noteq> 0"
  shows "\<exists>space' g'. ipc_entry_dealloc env (space, g) name (TableEnt i) = Some (space', g') \<and>
    names_inv space' \<and> hash_ok {} (space', g') \<and> space_caps space' = (space_caps space)(name := None) \<and>
    (if \<exists>n \<in> dom (splay_map (is_tree space)). unat (MACH_PORT_INDEX n) = i
     then free_list (is_table space') ns \<and> (\<exists>n e. moved_in space space' i n e)
     else free_list (is_table space') (i # ns) \<and> is_tree space' = is_tree space) \<and>
    same_space space space' \<and> (tree_hash_ok (space, g) \<longrightarrow> tree_hash_ok (space', g')) \<and>
    IE_BITS_TYPE (ie_bits (is_table space' ! 0)) = 0 \<and>
    (\<forall>n e. splay_map (is_tree space') n = Some e \<longrightarrow> IE_BITS_TYPE (ie_bits e) \<noteq> 0)"
proof (cases "ie_bits (is_table space ! i) AND IE_BITS_COLLISION = 0")
  case True
  let ?s = "space\<lparr>is_table := free_entry (is_table space) (MACH_PORT_INDEX name)\<rparr>"
  have none: "\<not> (\<exists>n \<in> dom (splay_map (is_tree space)). unat (MACH_PORT_INDEX n) = i)"
    using True inv i(3) by (auto simp: names_inv_def)
  have d: "ipc_entry_dealloc env (space, g) name (TableEnt i) = Some (?s, g)"
    using i(1,3) True by (simp add: ipc_entry_dealloc_def in_table_def Let_def)
  note spec = free_entry_spec [OF inv free i gen True zero]
  have len: "0 < length (is_table space)" "i < length (is_table space)"
    using i(3) unfolding is_table_size_def by linarith+
  have tb: "k \<noteq> i \<Longrightarrow> k < length (is_table space) \<Longrightarrow> ie_bits (is_table ?s ! k) = ie_bits (is_table space ! k)" for k
    using len i(1,2) by (auto simp: free_entry_def Let_def nth_list_update)
  have ti: "IE_BITS_TYPE (ie_bits (is_table ?s ! i)) = 0"
    using len i(1,2) by (simp add: free_entry_def Let_def)
  have sz: "length (is_table ?s) = length (is_table space)" by (simp add: free_entry_def Let_def)
  have fld: "ie_index (is_table ?s ! k) = ie_index (is_table space ! k)"
    "ie_object (is_table ?s ! k) = ie_object (is_table space ! k)" if "k < length (is_table space)" for k
    using that len i(1,2) by (auto simp: free_entry_def Let_def nth_list_update)
  have H: "hashed (is_table space) =
      {k. k < length (is_table space) \<and> IE_BITS_TYPE (ie_bits (is_table space ! k)) = MACH_PORT_TYPE_SEND} - {i}"
    using ok by (simp add: hash_ok_def is_table_size_def)
  have hl: "\<And>k. k \<in> hashed (is_table space) \<Longrightarrow> k < length (is_table space)"
    using ok by (auto simp: hash_ok_def is_table_size_def)
  have h1: "hash_inv (is_table ?s)" and h2: "hashed (is_table ?s) = hashed (is_table space)"
    using hash_inv_cong [OF sz fld(1) fld(2) [OF hl]] ok by (auto simp: hash_ok_def)
  have h3: "hashed (is_table space) =
      {k. k < is_table_size ?s \<and> IE_BITS_TYPE (ie_bits (is_table ?s ! k)) = MACH_PORT_TYPE_SEND}"
  proof (rule set_eqI)
    fix k
    show "k \<in> hashed (is_table space) \<longleftrightarrow>
        k \<in> {k. k < is_table_size ?s \<and> IE_BITS_TYPE (ie_bits (is_table ?s ! k)) = MACH_PORT_TYPE_SEND}"
      unfolding H using tb [of k] ti sz len by (cases "k = i") (auto simp: is_table_size_def type_values)
  qed
  have h4: "global_inv g" and h5: "\<forall>n ob. \<lparr>tr_space = is_self ?s, tr_name = n, tr_object = ob\<rparr> \<in> refs g \<longleftrightarrow>
      (\<exists>e. splay_map (is_tree ?s) n = Some e \<and> IE_BITS_TYPE (ie_bits e) = MACH_PORT_TYPE_SEND \<and> ie_object e = ob)"
    using ok by (simp_all add: hash_ok_def)
  have h6: "\<forall>k \<in> hashed (is_table space). \<forall>n e. splay_map (is_tree ?s) n = Some e \<longrightarrow>
      IE_BITS_TYPE (ie_bits e) = MACH_PORT_TYPE_SEND \<longrightarrow> ie_object (is_table ?s ! k) \<noteq> ie_object e"
  proof
    fix k assume k: "k \<in> hashed (is_table space)"
    have "\<forall>n e. splay_map (is_tree space) n = Some e \<longrightarrow>
        IE_BITS_TYPE (ie_bits e) = MACH_PORT_TYPE_SEND \<longrightarrow> ie_object (is_table space ! k) \<noteq> ie_object e"
      using ok k unfolding hash_ok_def by blast
    then show "\<forall>n e. splay_map (is_tree ?s) n = Some e \<longrightarrow>
        IE_BITS_TYPE (ie_bits e) = MACH_PORT_TYPE_SEND \<longrightarrow> ie_object (is_table ?s ! k) \<noteq> ie_object e"
      using fld(2) [OF hl [OF k]] by simp
  qed
  have "hash_ok {} (?s, g)"
    unfolding hash_ok_def prod.case Diff_empty
    by (intro conjI h1 h4 h5 trans [OF h2 h3]) (rule h6 [folded h2])
  moreover have "space_caps ?s = (space_caps space)(name := None)"
    using spec by (simp add: space_caps_def fun_eq_iff)
  moreover have "same_space space ?s" "tree_hash_ok (space, g) \<longrightarrow> tree_hash_ok (?s, g)"
    by (simp_all add: same_space_def tree_hash_ok_def is_table_size_def free_entry_def Let_def)
  moreover have "IE_BITS_TYPE (ie_bits (is_table ?s ! 0)) = 0"
    using zero tb [of 0] i(2) len(1) by simp
  ultimately show ?thesis using d spec types none by simp
next
  case False
  have some: "\<exists>n \<in> dom (splay_map (is_tree space)). unat (MACH_PORT_INDEX n) = i"
    using False inv i(3) by (auto simp: names_inv_def)
  obtain space' g' where r: "refill_entry (space, g) (MACH_PORT_INDEX name) = Some (space', g')"
    and spec: "names_inv space'" "hash_ok {} (space', g')" "space_caps space' =
        (space_caps space)(MACH_PORT_MAKE (MACH_PORT_INDEX name) (IE_BITS_GEN (ie_bits (is_table space ! i))) := None)"
      "\<forall>k < is_table_size space. k \<noteq> i \<longrightarrow>
         is_table space' ! k = (is_table space ! k)\<lparr>ie_index := ie_index (is_table space' ! k)\<rparr>"
      "is_table_size space' = is_table_size space"
    and more: "same_space space space'" "tree_hash_ok (space, g) \<longrightarrow> tree_hash_ok (space', g')"
      "\<forall>n e. splay_map (is_tree space') n = Some e \<longrightarrow> IE_BITS_TYPE (ie_bits e) \<noteq> 0"
      "\<exists>n e. moved_in space space' i n e"
    using refill_spec [OF inv ok i(1,3,2) False types] by (auto simp: same_space_def)
  have "\<not> is_fast space"
  proof
    assume "is_fast space"
    then have "dom (splay_map (is_tree space)) = {}" using inv by (simp add: names_inv_def)
    then show False using inv i(3) False unfolding names_inv_def by blast
  qed
  then have "ipc_entry_dealloc env (space, g) name (TableEnt i) = Some (space', g')"
    using i(1,3) False r by (simp add: ipc_entry_dealloc_def in_table_def Let_def)
  moreover have "MACH_PORT_MAKE (MACH_PORT_INDEX name) (IE_BITS_GEN (ie_bits (is_table space ! i))) = name"
    by (simp add: gen index_gen_make)
  moreover have "IE_BITS_TYPE (ie_bits (is_table space' ! 0)) = 0"
  proof -
    have "0 < is_table_size space" using i(3) by simp
    then have "is_table space' ! 0 = (is_table space ! 0)\<lparr>ie_index := ie_index (is_table space' ! 0)\<rparr>"
      using spec(4) i(2) by blast
    from index_only [OF this] show ?thesis using zero by simp
  qed
  moreover have "free_list (is_table space') ns"
  proof -
    have same: "ie_bits (is_table space' ! n) = ie_bits (is_table space ! n) \<and>
        ie_request (is_table space' ! n) = ie_request (is_table space ! n)" if "n \<noteq> i" "n < is_table_size space" for n
    proof -
      have "is_table space' ! n = (is_table space ! n)\<lparr>ie_index := ie_index (is_table space' ! n)\<rparr>"
        using spec(4) that by blast
      from index_only [OF this] show ?thesis by blast
    qed
    have "free_chain (is_table space') (ie_next (is_table space ! 0)) ns"
    proof (rule free_chain_cong)
      show "free_chain (is_table space) (ie_next (is_table space ! 0)) ns" using free by (simp add: free_list_def)
      fix n assume n: "n \<in> set ns"
      then have "n < is_table_size space"
        using free_chain_mem [of "is_table space" _ ns n] free by (auto simp: free_list_def is_table_size_def)
      then show "ie_bits (is_table space' ! n) = ie_bits (is_table space ! n) \<and>
          ie_request (is_table space' ! n) = ie_request (is_table space ! n)"
        using same [of n] n i(4) by fastforce
    qed (use spec(5) in \<open>simp add: is_table_size_def\<close>)
    moreover have "ie_next (is_table space' ! 0) = ie_next (is_table space ! 0)"
      using same [of 0] i(2,3) by simp
    ultimately show ?thesis using free by (simp add: free_list_def)
  qed
  ultimately show ?thesis using spec(1-3) more some by auto
qed

text \<open>What callers need of it.\<close>

lemma table_dealloc_frame:
  assumes "names_inv space" "hash_ok {i} (space, g)" "free_list (is_table space) ns"
    and "i = unat (MACH_PORT_INDEX name)" "i \<noteq> 0" "i < is_table_size space" "i \<notin> set ns"
    and "IE_BITS_GEN (ie_bits (is_table space ! i)) = MACH_PORT_GEN name"
    and "IE_BITS_TYPE (ie_bits (is_table space ! 0)) = 0"
    and "\<forall>n e. splay_map (is_tree space) n = Some e \<longrightarrow> IE_BITS_TYPE (ie_bits e) \<noteq> 0"
  shows "\<exists>space' g'. ipc_entry_dealloc env (space, g) name (TableEnt i) = Some (space', g') \<and>
    names_inv space' \<and> hash_ok {} (space', g') \<and> space_caps space' = (space_caps space)(name := None) \<and>
    (free_list (is_table space') ns \<or> free_list (is_table space') (i # ns)) \<and>
    same_space space space' \<and> (tree_hash_ok (space, g) \<longrightarrow> tree_hash_ok (space', g')) \<and>
    IE_BITS_TYPE (ie_bits (is_table space' ! 0)) = 0 \<and>
    (\<forall>n e. splay_map (is_tree space') n = Some e \<longrightarrow> IE_BITS_TYPE (ie_bits e) \<noteq> 0)"
proof -
  have w: "(if c then free_list t ns \<and> P else free_list t (i # ns) \<and> Q) \<Longrightarrow> free_list t ns \<or> free_list t (i # ns)"
    for c t P Q by (cases c) simp_all
  show ?thesis using table_dealloc_spec [OF assms, of env] w by blast
qed

subsection \<open>Names of index 0\<close>

definition same_but_tree :: "ipc_space \<Rightarrow> ipc_space \<Rightarrow> bool" where
  "same_but_tree space space' \<longleftrightarrow> space' = space\<lparr>is_tree := is_tree space'\<rparr> \<and> splay_inv (is_tree space') \<and>
     splay_map (is_tree space') = splay_map (is_tree space)"

lemma same_but_tree_simps:
  assumes "same_but_tree space space'"
  shows "is_table space' = is_table space" "is_fast space' = is_fast space" "is_active space' = is_active space"
    "splay_inv (is_tree space')" "splay_map (is_tree space') = splay_map (is_tree space)"
proof -
  have s: "space' = space\<lparr>is_tree := is_tree space'\<rparr>" and t: "splay_inv (is_tree space')"
    "splay_map (is_tree space') = splay_map (is_tree space)"
    using assms by (simp_all add: same_but_tree_def)
  show "is_table space' = is_table space" "is_fast space' = is_fast space" "is_active space' = is_active space"
    by (subst s, simp)+
  show "splay_inv (is_tree space')" "splay_map (is_tree space') = splay_map (is_tree space)" by (fact t)+
qed

text \<open>One turn of \<open>ipc_entry_alloc_name\<close> for such a name: to allocate memory, or to insert the entry.\<close>

lemma alloc_zero_turn:
  assumes tree: "splay_inv (is_tree space)" "splay_map (is_tree space) name = None"
    and space: "is_active space" "\<not> is_fast space" "0 < is_table_size space" and name: "MACH_PORT_INDEX name = 0"
  shows "\<exists>space'. same_but_tree space space' \<and> alloc_name_once env name alloc (space, g) =
    (if alloc then Alloc_Return (Inr (TreeEnt name)) True (insert_tree_entry env space' name, g) else Alloc_Tree (space', g))"
proof -
  obtain found s1 where f: "(if is_tree_total space > 0 then tree_lookup space name else (None, space)) = (found, s1)" by fastforce
  have "found = None \<and> same_but_tree space s1"
    using f splay_map_laws(1,2) [OF tree(1), of name] tree
    by (auto simp: same_but_tree_def tree_lookup_def split: if_splits prod.splits)
  then show ?thesis
    using f space name same_but_tree_simps(1) [of space s1]
    by (auto simp: alloc_name_once_def alloc_name_tree_def Let_def is_table_size_def)
qed

text \<open>The entry just inserted under a lookup, which looks at the generation of entry 0 first.\<close>

lemma insert_zero:
  assumes tree: "splay_inv (is_tree space)" "splay_map (is_tree space) name = None"
    and space: "\<not> is_fast space" "0 < is_table_size space" "IE_BITS_TYPE (ie_bits (is_table space ! 0)) = 0"
    and name: "MACH_PORT_INDEX name = 0"
  shows "splay_map (is_tree (insert_tree_entry env space name)) = (splay_map (is_tree space))(name \<mapsto> zero_entry) \<and>
    fst (ipc_entry_lookup (insert_tree_entry env space name) name) =
      (if MACH_PORT_GEN name = IE_BITS_GEN (ie_bits (is_table space ! 0)) then None else Some (TreeEnt name))"
proof -
  let ?s = "insert_tree_entry env space name" and ?t = "ipc_splay_tree_insert (is_tree space) name zero_entry"
  let ?e = "is_table space ! 0"
  have s: "is_tree ?s = ?t" "is_table_size ?s = is_table_size space" "is_fast ?s = is_fast space"
    "is_table ?s ! 0 = ?e\<lparr>ie_bits := ie_bits ?e OR IE_BITS_COLLISION\<rparr>"
    using space(2) name by (simp_all add: insert_tree_entry_def Let_def is_table_size_def)
  have t: "splay_inv ?t" "splay_map ?t = (splay_map (is_tree space))(name \<mapsto> zero_entry)"
    using insert_spec [OF tree] by blast+
  have "fst (ipc_splay_tree_lookup ?t name) = Some zero_entry" using splay_map_laws(1) [OF t(1)] t(2) by simp
  then have "fst (tree_lookup ?s name) = Some (TreeEnt name)" by (simp add: tree_lookup_def s(1) case_prod_unfold)
  then show ?thesis
    using t(2) s space name by (auto simp: ipc_entry_lookup_def Let_def)
qed

subsection \<open>A new space\<close>

lemma hash_inv_zero:
  assumes "table \<noteq> []" "length table < 2 ^ 32" "\<And>k. k < length table \<Longrightarrow> ie_index (table ! k) = 0"
  shows "hash_inv table" "hashed table = {}"
proof -
  have z: "slot_index table k = 0" if "k < length table" for k
    using assms(3) [OF that] by (simp add: slot_index_def)
  then show "hashed table = {}" by (auto simp: hashed_def)
  then show "hash_inv table"
    using assms(1,2) z by (simp add: hash_inv_def hash_distinct_def hash_chain_def)
qed

lemma hash_ok_empty:
  assumes "is_table space \<noteq> []" "is_table_size space < 0x1000000"
    and "\<And>k. k < is_table_size space \<Longrightarrow> ie_index (is_table space ! k) = 0"
    and "\<And>k. k < is_table_size space \<Longrightarrow> k \<notin> gone \<Longrightarrow> IE_BITS_TYPE (ie_bits (is_table space ! k)) \<noteq> MACH_PORT_TYPE_SEND"
    and "splay_map (is_tree space) = Map.empty" "global_inv g" "\<forall>r \<in> refs g. tr_space r \<noteq> is_self space"
  shows "hash_ok gone (space, g)"
proof -
  have "length (is_table space) < 2 ^ 32" using assms(2) by (simp add: is_table_size_def)
  note z = hash_inv_zero [OF assms(1) this assms(3) [unfolded is_table_size_def]]
  have "{i. i < is_table_size space \<and> IE_BITS_TYPE (ie_bits (is_table space ! i)) = MACH_PORT_TYPE_SEND} - gone = {}"
    using assms(4) by auto
  then show ?thesis
    using z assms(5-7) by (auto simp: hash_ok_def)
qed

lemma space_table_simps:
  assumes "0 < n" "n < 2 ^ 32"
  shows "length (space_table n) = n"
    "k < n \<Longrightarrow> ie_bits (space_table n ! k) = IE_BITS_GEN_MASK"
    "k < n \<Longrightarrow> ie_index (space_table n ! k) = 0"
    "k < n \<Longrightarrow> unat (ie_next (space_table n ! k)) = (if Suc k = n then 0 else Suc k)"
proof -
  have u: "unat (of_nat (Suc k) :: natural_t) = Suc k" if "Suc k < n" for k
    using that assms by (simp add: unsigned_of_nat take_bit_nat_eq_self del: of_nat_Suc)
  show "length (space_table n) = n"
    "k < n \<Longrightarrow> ie_bits (space_table n ! k) = IE_BITS_GEN_MASK"
    "k < n \<Longrightarrow> ie_index (space_table n ! k) = 0"
    "k < n \<Longrightarrow> unat (ie_next (space_table n ! k)) = (if Suc k = n then 0 else Suc k)"
    using assms u [of k]
    by (auto simp: space_table_def Let_def nth_list_update zero_entry_def simp del: of_nat_Suc of_nat_add)
qed

lemma space_table_chain:
  assumes "0 < n" "n < 2 ^ 32" "m \<le> n" "unat h = (if m = n then 0 else m)" "m \<noteq> 0"
  shows "free_chain (space_table n) h [m ..< n]"
  using assms(3-5)
proof (induction "n - m" arbitrary: m h)
  case 0
  then show ?case by (simp add: unat_eq_0)
next
  case (Suc k)
  then have m: "m < n" by simp
  have "free_chain (space_table n) (ie_next (space_table n ! m)) [Suc m ..< n]"
    using Suc.hyps(2) m by (intro Suc.hyps(1)) (auto simp: space_table_simps [OF assms(1,2)])
  moreover have "IE_BITS_TYPE IE_BITS_GEN_MASK = 0" "IE_BITS_GEN_MASK AND IE_BITS_COLLISION = 0"
    by (rule bit_word_eqI; auto simp: bit_blast)+
  ultimately show ?case
    using m Suc.prems by (simp add: upt_conv_Cons space_table_simps [OF assms(1,2)])
qed

lemma splay_init_empty: "splay_inv (ipc_splay_tree_init t)" "splay_map (ipc_splay_tree_init t) = Map.empty"
  by (simp_all add: ipc_splay_tree_init_def splay_inv_def splay_map_def splay_list_def)

lemma space_create_spec:
  assumes "ipc_space_create True True garbage its initial = Inr space"
    and "0 < its ! initial" "its ! initial < 0x1000000"
  shows "names_inv space" "free_list (is_table space) [1 ..< its ! initial]" "is_table_size space = its ! initial"
    "space_names space = Map.empty" "IE_BITS_TYPE (ie_bits (is_table space ! 0)) = 0"
    "global_inv g \<Longrightarrow> \<forall>r \<in> refs g. tr_space r \<noteq> is_self space \<Longrightarrow> hash_ok {} (space, g)"
proof -
  let ?n = "its ! initial"
  have n: "0 < ?n" "?n < 2 ^ 32" using assms(2,3) by simp_all
  note tab = space_table_simps [OF n]
  have s: "is_table space = space_table ?n" "is_tree space = ipc_splay_tree_init (is_tree garbage)"
    "is_tree_total space = 0" "is_self space = is_self garbage"
    using assms(1) by (auto simp: ipc_space_create_def)
  show sz: "is_table_size space = ?n" by (simp add: is_table_size_def s(1) tab)
  have bits: "IE_BITS_TYPE IE_BITS_GEN_MASK = 0" "IE_BITS_GEN_MASK AND IE_BITS_COLLISION = 0"
    by (rule bit_word_eqI; auto simp: bit_blast)+
  show "names_inv space"
    using assms(2,3) by (simp add: names_inv_def sz s splay_init_empty tab bits)
  show "free_list (is_table space) [1 ..< ?n]"
    using n by (simp add: free_list_def s(1)) (rule space_table_chain, auto simp: tab)
  show "IE_BITS_TYPE (ie_bits (is_table space ! 0)) = 0" using n by (simp add: s(1) tab bits)
  show "space_names space = Map.empty"
    by (auto simp: space_names_def fun_eq_iff table_entry_def Let_def s splay_init_empty tab bits)
  show "hash_ok {} (space, g)" if "global_inv g" "\<forall>r \<in> refs g. tr_space r \<noteq> is_self space"
  proof (rule hash_ok_empty)
    show "is_table space \<noteq> []" using n tab(1) by (auto simp: s(1))
  qed (use that assms(3) in \<open>simp_all add: sz s splay_init_empty tab bits type_values\<close>)
qed

subsection \<open>Properties\<close>

text \<open>A new space has no names; every index but 0 is on its free list once, in increasing order, so that the
  first allocations give the indices 1, 2, and so on; and table, tree and hash tables agree.\<close>

theorem space_create_exact:
  assumes "ipc_space_create True True garbage its initial = Inr space"
    and "0 < its ! initial" "its ! initial < 0x1000000"
    and "global_inv g" "\<forall>r \<in> refs g. tr_space r \<noteq> is_self space"
  shows "names_inv space \<and> hash_ok {} (space, g) \<and> free_list (is_table space) [1 ..< its ! initial] \<and>
    space_names space = Map.empty \<and> is_active space \<and> is_references space = 2"
  using space_create_spec [OF assms(1-3)] assms(1,4,5) by (auto simp: ipc_space_create_def)

text \<open>The space of the witnesses: four entries, in a kernel whose next table size is eight.\<close>

definition space4 :: ipc_space where
  "space4 = (case ipc_space_create True True
     \<lparr>is_self = 0x1000, is_references = 0, is_active = False, is_growing = False, is_table = [],
      is_table_next = 0, is_tree = no_tree, is_tree_total = 0, is_tree_small = 0, is_tree_hash = 0,
      is_fast = False\<rparr> [4, 8, 8] 0 of Inr space \<Rightarrow> space | Inl _ \<Rightarrow> undefined)"

lemma space4_create:
  "ipc_space_create True True
     \<lparr>is_self = 0x1000, is_references = 0, is_active = False, is_growing = False, is_table = [],
      is_table_next = 0, is_tree = no_tree, is_tree_total = 0, is_tree_small = 0, is_tree_hash = 0,
      is_fast = False\<rparr> [4, 8, 8] 0 = Inr space4"
  by (simp add: space4_def ipc_space_create_def)

lemma global_init: "global_inv (ipc_hash_init 2 0)" "refs (ipc_hash_init 2 0) = {}"
  by (rule hash_init_inv; simp)+

theorem space_create_exact_witness:
  "names_inv space4 \<and> free_list (is_table space4) [1, 2, 3] \<and> hash_ok {} (space4, ipc_hash_init 2 0)"
proof -
  have "[1 ..< [4, 8, 8 :: nat] ! 0] = [1, 2, 3]" by code_simp
  with space_create_exact [OF space4_create _ _ global_init(1)] show ?thesis
    by (simp add: global_init(2))
qed

lemmas space4_facts = space_create_spec(1-5) [OF space4_create]

text \<open>C14: Looking up a name gives the entry it denotes, in the table or in the tree, whatever the generations
  and the collisions at its index, and null exactly when the space has no such name.  Only the shape of
  the splay tree may change.  (In a fast space the code relies on an index within the table.)\<close>

theorem entry_lookup_exact:
  assumes "names_inv space" "is_fast space \<longrightarrow> unat (MACH_PORT_INDEX name) < is_table_size space"
    and "ipc_entry_lookup space name = (res, space')"
  shows "map_option (entry_at space') res = space_names space name \<and>
    names_inv space' \<and> space_names space' = space_names space \<and> is_table space' = is_table space"
  using entry_lookup_spec [OF assms(1,3,2)] by (auto split: option.splits)

theorem entry_lookup_exact_witness:
  "\<exists>space'. ipc_entry_lookup space4 0x103 = (None, space') \<and> names_inv space' \<and> space_names space4 0x103 = None"
proof -
  obtain res s' where l: "ipc_entry_lookup space4 0x103 = (res, s')" by fastforce
  have "names_inv space4" using space4_facts by simp
  moreover have "\<not> is_fast space4" "fst (ipc_entry_lookup space4 0x103) = None" by code_simp+
  ultimately show ?thesis using entry_lookup_exact [OF _ _ l] l by auto
qed



text \<open>C15: Deallocating a table entry removes its name and no other.  If names of its index wait in the tree, one of them
  moves out of the tree into the slot, with the generation of its name and its right, object and request unchanged, and the
  free list stays; otherwise the slot becomes the head of the free list and the tree stays.  Table, tree and hash tables
  agree afterwards, and the probes the move runs end.\<close>

theorem entry_dealloc_exact:
  assumes "names_inv space" "hash_ok {i} (space, g)" "free_list (is_table space) ns"
    and "i = unat (MACH_PORT_INDEX name)" "i \<noteq> 0" "i < is_table_size space" "i \<notin> set ns"
    and "IE_BITS_GEN (ie_bits (is_table space ! i)) = MACH_PORT_GEN name"
    and "IE_BITS_TYPE (ie_bits (is_table space ! 0)) = 0"
    and "\<forall>n e. splay_map (is_tree space) n = Some e \<longrightarrow> IE_BITS_TYPE (ie_bits e) \<noteq> 0"
  shows "\<exists>space' g'. ipc_entry_dealloc env (space, g) name (TableEnt i) = Some (space', g') \<and>
    names_inv space' \<and> hash_ok {} (space', g') \<and> space_caps space' = (space_caps space)(name := None) \<and>
    (if \<exists>n \<in> dom (splay_map (is_tree space)). unat (MACH_PORT_INDEX n) = i
     then free_list (is_table space') ns \<and> (\<exists>n e. moved_in space space' i n e)
     else free_list (is_table space') (i # ns) \<and> is_tree space' = is_tree space)"
  using table_dealloc_spec [OF assms] by blast

theorem entry_dealloc_exact_witness:
  "\<exists>name space1 space2 g. ipc_entry_get space4 = Some (name, TableEnt 1, space1) \<and>
     ipc_entry_dealloc \<lparr>env_its = [4, 8, 8], env_table_mem = \<lambda>_. True, env_tree_mem = True, env_others = id\<rparr>
       (space1, ipc_hash_init 2 0) name (TableEnt 1) = Some (space2, g) \<and>
     names_inv space2 \<and> space_caps space2 = (space_caps space1)(name := None) \<and> free_list (is_table space2) [1, 2, 3]"
proof -
  have l: "[1 ..< [4, 8, 8 :: nat] ! 0] = 1 # [2, 3]" by code_simp
  obtain name s where g: "ipc_entry_get space4 = Some (name, TableEnt 1, s)" "names_inv s"
    "free_list (is_table s) [2, 3]" "unat (MACH_PORT_INDEX name) = 1" "is_table_size s = is_table_size space4"
    "ie_bits (is_table s ! 1) = MACH_PORT_GEN name"
    using entry_get_spec [of space4 1 "[2, 3]"] space4_facts l by auto
  have s: "s = snd (snd (the (ipc_entry_get space4)))" using g(1) by simp
  have t: "\<forall>e \<in> set (is_table s). ie_index e = 0 \<and> IE_BITS_TYPE (ie_bits e) = 0"
    "ist_root (is_tree s) = ITE_NULL" "length (is_table s) = 4" "ie_bits (is_table s ! 0) = IE_BITS_GEN_MASK"
    unfolding s by code_simp+
  have tree: "splay_map (is_tree s) = Map.empty" using t(2) by (simp add: splay_map_def splay_list_def)
  have "hash_ok {1} (s, ipc_hash_init 2 0)"
    using t(1,3) tree global_init
    by (intro hash_ok_empty) (auto simp: is_table_size_def type_values dest: nth_mem)
  moreover have "IE_BITS_TYPE (ie_bits (is_table s ! 0)) = 0"
    using t(4) by (simp add: IE_BITS_GEN_MASK_def IE_BITS_TYPE_def IE_BITS_TYPE_MASK_def)
  ultimately obtain space' g' where "ipc_entry_dealloc \<lparr>env_its = [4, 8, 8], env_table_mem = \<lambda>_. True, env_tree_mem = True, env_others = id\<rparr>
       (s, ipc_hash_init 2 0) name (TableEnt 1) = Some (space', g')"
    "names_inv space'" "space_caps space' = (space_caps s)(name := None)" "free_list (is_table space') [1, 2, 3]"
    using entry_dealloc_exact [OF g(2) _ g(3), of 1 "ipc_hash_init 2 0" name
        "\<lparr>env_its = [4, 8, 8], env_table_mem = \<lambda>_. True, env_tree_mem = True, env_others = id\<rparr>"] g(4,6) t(3) tree
    by (auto simp: is_table_size_def)
  then show ?thesis using g(1) by blast
qed



end
