(* ===== verification/Ipc_Heap.thy ===== *)
theory Ipc_Heap
  imports Ipc_Entry
begin

section \<open>Ports, port sets and message queues in memory\<close>

text \<open>
  The structures of \<open>ipc/ipc_object.h\<close>, \<open>ipc/ipc_port.h\<close>, \<open>ipc/ipc_pset.h\<close> and
  \<open>ipc/ipc_mqueue.h\<close>, reference counting (\<open>io_reference\<close>, \<open>io_release\<close>, \<open>io_check_unlock\<close>),
  and the operations of \<open>ipc/ipc_pset.c\<close> with the two queue operations of
  \<open>ipc/ipc_mqueue.c\<close> they use.

  The heap maps addresses to structures.  A critical section is one step, so locks do not
  appear.  What the code asks of other parts of the kernel (a notification message, a wakeup, the
  release of memory) is appended to \<open>calls\<close> in the order of the code.
\<close>

type_synonym ipc_port_timestamp_t = natural_t
type_synonym mach_port_seqno_t = natural_t
type_synonym mach_port_msgcount_t = natural_t
type_synonym mach_port_mscount_t = natural_t
type_synonym mach_port_rights_t = natural_t
type_synonym ipc_port_request_index_t = natural_t

subsection \<open>Object bits\<close>

definition IO_BITS_PORT_INFO :: natural_t where
  "IO_BITS_PORT_INFO = 0x0000f000"
definition IO_BITS_KOTYPE :: natural_t where
  "IO_BITS_KOTYPE = 0x00000fff"
definition IO_BITS_OTYPE :: natural_t where
  "IO_BITS_OTYPE = 0x7fff0000"
definition IO_BITS_ACTIVE :: natural_t where
  "IO_BITS_ACTIVE = 0x80000000"

definition io_active :: "natural_t \<Rightarrow> bool" where
  "io_active io_bits \<longleftrightarrow> io_bits AND IO_BITS_ACTIVE \<noteq> 0"
definition io_otype :: "natural_t \<Rightarrow> natural_t" where
  "io_otype io_bits = drop_bit 16 (io_bits AND IO_BITS_OTYPE)"
definition io_kotype :: "natural_t \<Rightarrow> natural_t" where
  "io_kotype io_bits = io_bits AND IO_BITS_KOTYPE"
definition io_makebits :: "bool \<Rightarrow> natural_t \<Rightarrow> natural_t \<Rightarrow> natural_t" where
  "io_makebits active otype kotype =
     (if active then IO_BITS_ACTIVE else 0) OR push_bit 16 otype OR kotype"

definition IOT_PORT :: natural_t where
  "IOT_PORT = 0"
definition IOT_PORT_SET :: natural_t where
  "IOT_PORT_SET = 1"
definition IKOT_NONE :: natural_t where
  "IKOT_NONE = 0"
definition IP_BIT_NMS :: natural_t where
  "IP_BIT_NMS = 0x00008000"

definition IP_NULL :: addr where
  "IP_NULL = 0"
definition IP_DEAD :: addr where
  "IP_DEAD = NOT 0"
definition IP_VALID :: "addr \<Rightarrow> bool" where
  "IP_VALID port \<longleftrightarrow> port \<noteq> IP_NULL \<and> port \<noteq> IP_DEAD"

subsection \<open>Messages and queues\<close>

datatype mach_msg_return_t =
    MACH_MSG_SUCCESS | MACH_RCV_PORT_DIED | MACH_RCV_PORT_CHANGED | MACH_SEND_IN_PROGRESS | MACH_SEND_TIMED_OUT
  | MACH_SEND_INTERRUPTED | MACH_RCV_IN_PROGRESS | MACH_RCV_IN_PROGRESS_TIMED | MACH_RCV_TIMED_OUT | MACH_RCV_INTERRUPTED
  | MACH_RCV_TOO_LARGE | MACH_RCV_INVALID_NAME | MACH_RCV_IN_SET | MACH_RCV_SCATTER_SMALL

record ipc_kmsg =
  ikm_addr :: addr
  msgh_bits :: natural_t
  msgh_size :: natural_t
  msgh_remote_port :: addr

record ipc_mqueue =
  imq_messages :: "ipc_kmsg list"
  imq_threads :: "addr list"

text \<open>What the code asks of the rest of the kernel.\<close>

datatype ipc_call =
    Notify_Port_Deleted addr mach_port_t
  | Notify_Port_Destroyed addr addr
  | Notify_No_Senders addr mach_port_mscount_t
  | Notify_Send_Once addr
  | Notify_Dead_Name addr mach_port_t
  | Thread_Go addr mach_msg_return_t
  | Thread_Receive addr ipc_kmsg mach_port_seqno_t
  | Thread_Pool_Wakeup addr
  | Kmsg_Destroy ipc_kmsg
  | Kobject_Destroy addr
  | Dnrequests_Free nat addr
  | Io_Free natural_t addr
  | Subsystem_Reference addr
  | Subsystem_Deallocate addr

subsection \<open>Dead-name requests\<close>

text \<open>
  A table of dead-name requests is an array of pairs.  The first word of a pair is
  the union of \<open>ipr_soright\<close> and \<open>ipr_next\<close>; element 0 is the header, whose first word is the head of
  the free list and whose second one, the size, is the position \<open>ipr_size\<close> in
  \<open>ipc_table_dnrequests\<close>.
\<close>

record ipc_port_request =
  ipr_soright :: natural_t
  ipr_name :: mach_port_t

abbreviation ipr_next :: "ipc_port_request \<Rightarrow> ipc_port_request_index_t" where
  "ipr_next \<equiv> ipr_soright"

record ipc_port_requests =
  ipr_self :: addr
  ipr_size :: nat
  ipr_elems :: "ipc_port_request list"

subsection \<open>Ports and port sets\<close>

text \<open>\<open>ip_data\<close> is the union of the receiver, the destination and the time stamp.\<close>

record ipc_port =
  ip_references :: natural_t
  ip_bits :: natural_t
  ip_receiver_name :: mach_port_t
  ip_data :: natural_t
  ip_mscount :: mach_port_mscount_t
  ip_srights :: mach_port_rights_t
  ip_sorights :: mach_port_rights_t
  ip_nsrequest :: addr
  ip_pdrequest :: addr
  ip_dnrequests :: "ipc_port_requests option"
  ip_pset :: addr
  ip_seqno :: mach_port_seqno_t
  ip_msgcount :: mach_port_msgcount_t
  ip_qlimit :: mach_port_msgcount_t
  ip_messages :: ipc_mqueue
  ip_blocked :: "addr list"
  ip_flags :: natural_t
  ip_subsystem :: addr

abbreviation ip_receiver :: "ipc_port \<Rightarrow> addr" where
  "ip_receiver \<equiv> ip_data"
abbreviation ip_destination :: "ipc_port \<Rightarrow> addr" where
  "ip_destination \<equiv> ip_data"
abbreviation ip_timestamp :: "ipc_port \<Rightarrow> ipc_port_timestamp_t" where
  "ip_timestamp \<equiv> ip_data"

definition ip_active :: "ipc_port \<Rightarrow> bool" where
  "ip_active p \<longleftrightarrow> io_active (ip_bits p)"

record ipc_pset =
  ips_references :: natural_t
  ips_bits :: natural_t
  ips_local_name :: mach_port_t
  ips_messages :: ipc_mqueue

definition ips_active :: "ipc_pset \<Rightarrow> bool" where
  "ips_active s \<longleftrightarrow> io_active (ips_bits s)"

record ipc_heap =
  ports :: "addr \<Rightarrow> ipc_port"
  psets :: "addr \<Rightarrow> ipc_pset"
  ipc_port_timestamp_data :: ipc_port_timestamp_t
  calls :: "ipc_call list"

definition set_port :: "addr \<Rightarrow> (ipc_port \<Rightarrow> ipc_port) \<Rightarrow> ipc_heap \<Rightarrow> ipc_heap" where
  "set_port port f h = h\<lparr>ports := (ports h)(port := f (ports h port))\<rparr>"

definition set_pset :: "addr \<Rightarrow> (ipc_pset \<Rightarrow> ipc_pset) \<Rightarrow> ipc_heap \<Rightarrow> ipc_heap" where
  "set_pset pset f h = h\<lparr>psets := (psets h)(pset := f (psets h pset))\<rparr>"

definition call :: "ipc_call \<Rightarrow> ipc_heap \<Rightarrow> ipc_heap" where
  "call c h = h\<lparr>calls := calls h @ [c]\<rparr>"

lemma heap_access [simp, heap_simps]:
  "ports (set_port p f h) q = (if q = p then f (ports h p) else ports h q)"
  "psets (set_port p f h) = psets h"
  "ipc_port_timestamp_data (set_port p f h) = ipc_port_timestamp_data h"
  "calls (set_port p f h) = calls h"
  "ports (set_pset s g h) = ports h"
  "psets (set_pset s g h) t = (if t = s then g (psets h s) else psets h t)"
  "ipc_port_timestamp_data (set_pset s g h) = ipc_port_timestamp_data h"
  "calls (set_pset s g h) = calls h"
  "ports (call c h) = ports h" "psets (call c h) = psets h"
  "ipc_port_timestamp_data (call c h) = ipc_port_timestamp_data h"
  "calls (call c h) = calls h @ [c]"
  by (simp_all add: set_port_def set_pset_def call_def)

subsection \<open>References\<close>

definition ip_reference :: "addr \<Rightarrow> ipc_heap \<Rightarrow> ipc_heap" where
  "ip_reference port = set_port port (\<lambda>p. p\<lparr>ip_references := ip_references p + 1\<rparr>)"

definition ip_release :: "addr \<Rightarrow> ipc_heap \<Rightarrow> ipc_heap" where
  "ip_release port = set_port port (\<lambda>p. p\<lparr>ip_references := ip_references p - 1\<rparr>)"

definition ip_check_unlock :: "addr \<Rightarrow> ipc_heap \<Rightarrow> ipc_heap" where
  "ip_check_unlock port h =
     (if ip_references (ports h port) = 0 then call (Io_Free (io_otype (ip_bits (ports h port))) port) h else h)"

definition ipc_port_release :: "addr \<Rightarrow> ipc_heap \<Rightarrow> ipc_heap" where
  "ipc_port_release port h = ip_check_unlock port (ip_release port h)"

definition ips_reference :: "addr \<Rightarrow> ipc_heap \<Rightarrow> ipc_heap" where
  "ips_reference pset = set_pset pset (\<lambda>s. s\<lparr>ips_references := ips_references s + 1\<rparr>)"

definition ips_release :: "addr \<Rightarrow> ipc_heap \<Rightarrow> ipc_heap" where
  "ips_release pset = set_pset pset (\<lambda>s. s\<lparr>ips_references := ips_references s - 1\<rparr>)"

definition ips_check_unlock :: "addr \<Rightarrow> ipc_heap \<Rightarrow> ipc_heap" where
  "ips_check_unlock pset h =
     (if ips_references (psets h pset) = 0 then call (Io_Free (io_otype (ips_bits (psets h pset))) pset) h else h)"

subsection \<open>Queues\<close>

text \<open>
  The loop of \<open>ipc_mqueue_move\<close> over the messages of the source: what stays there, the destination,
  the port's sequence number and the threads that receive a message.
\<close>

fun mqueue_move ::
  "ipc_kmsg list \<Rightarrow> addr \<Rightarrow> ipc_mqueue \<Rightarrow> mach_port_seqno_t \<Rightarrow>
   ipc_kmsg list \<times> ipc_mqueue \<times> mach_port_seqno_t \<times> ipc_call list" where
  "mqueue_move [] port dest seqno = ([], dest, seqno, [])"
| "mqueue_move (kmsg # oldq) port dest seqno =
     (if msgh_remote_port kmsg \<noteq> port then
        let (stay, dest, seqno, cs) = mqueue_move oldq port dest seqno in (kmsg # stay, dest, seqno, cs)
      else case imq_threads dest of
             th # ths \<Rightarrow>
               let (stay, dest, seqno', cs) = mqueue_move oldq port (dest\<lparr>imq_threads := ths\<rparr>) (seqno + 1)
               in (stay, dest, seqno', Thread_Receive th kmsg seqno # cs)
           | [] \<Rightarrow> mqueue_move oldq port (dest\<lparr>imq_messages := imq_messages dest @ [kmsg]\<rparr>) seqno)"

definition mqueue_changed :: "mach_msg_return_t \<Rightarrow> ipc_mqueue \<Rightarrow> ipc_mqueue \<times> ipc_call list" where
  "mqueue_changed mr q = (q\<lparr>imq_threads := []\<rparr>, map (\<lambda>th. Thread_Go th mr) (imq_threads q))"

text \<open>The queue of a port, and of a port set, as arguments of the two operations.\<close>

definition port_mqueue_changed :: "addr \<Rightarrow> mach_msg_return_t \<Rightarrow> ipc_heap \<Rightarrow> ipc_heap" where
  "port_mqueue_changed port mr h =
     (let (q, cs) = mqueue_changed mr (ip_messages (ports h port))
      in (set_port port (\<lambda>p. p\<lparr>ip_messages := q\<rparr>) h)\<lparr>calls := calls h @ cs\<rparr>)"

definition pset_mqueue_changed :: "addr \<Rightarrow> mach_msg_return_t \<Rightarrow> ipc_heap \<Rightarrow> ipc_heap" where
  "pset_mqueue_changed pset mr h =
     (let (q, cs) = mqueue_changed mr (ips_messages (psets h pset))
      in (set_pset pset (\<lambda>s. s\<lparr>ips_messages := q\<rparr>) h)\<lparr>calls := calls h @ cs\<rparr>)"

definition move_to_pset :: "addr \<Rightarrow> addr \<Rightarrow> ipc_heap \<Rightarrow> ipc_heap" where
  "move_to_pset pset port h =
     (let source = ip_messages (ports h port);
          (stay, dest, seqno, cs) =
            mqueue_move (imq_messages source) port (ips_messages (psets h pset)) (ip_seqno (ports h port));
          h' = set_port port (\<lambda>p. p\<lparr>ip_messages := source\<lparr>imq_messages := stay\<rparr>, ip_seqno := seqno\<rparr>) h;
          h' = set_pset pset (\<lambda>s. s\<lparr>ips_messages := dest\<rparr>) h'
      in h'\<lparr>calls := calls h @ cs\<rparr>)"

definition move_to_port :: "addr \<Rightarrow> addr \<Rightarrow> ipc_heap \<Rightarrow> ipc_heap" where
  "move_to_port pset port h =
     (let source = ips_messages (psets h pset);
          (stay, dest, seqno, cs) =
            mqueue_move (imq_messages source) port (ip_messages (ports h port)) (ip_seqno (ports h port));
          h' = set_pset pset (\<lambda>s. s\<lparr>ips_messages := source\<lparr>imq_messages := stay\<rparr>\<rparr>) h;
          h' = set_port port (\<lambda>p. p\<lparr>ip_messages := dest, ip_seqno := seqno\<rparr>) h'
      in h'\<lparr>calls := calls h @ cs\<rparr>)"

subsection \<open>Port sets\<close>

definition ipc_pset_add :: "addr \<Rightarrow> addr \<Rightarrow> ipc_heap \<Rightarrow> ipc_heap" where
  "ipc_pset_add pset port h =
     (let h = set_port port (\<lambda>p. p\<lparr>ip_pset := pset\<rparr>) h;
          h = ips_reference pset h;
          h = move_to_pset pset port h
      in port_mqueue_changed port MACH_RCV_PORT_CHANGED h)"

definition ipc_pset_remove :: "addr \<Rightarrow> addr \<Rightarrow> ipc_heap \<Rightarrow> ipc_heap" where
  "ipc_pset_remove pset port h =
     (let h = set_port port (\<lambda>p. p\<lparr>ip_pset := NULL\<rparr>) h;
          h = ips_release pset h
      in move_to_port pset port h)"

definition ipc_pset_move :: "addr \<Rightarrow> addr \<Rightarrow> ipc_heap \<Rightarrow> kern_return_t \<times> ipc_heap" where
  "ipc_pset_move port nset h =
     (let oset = ip_pset (ports h port);
          (oset, h) =
            (if oset = nset then (oset, h)
             else if oset = NULL then (oset, ipc_pset_add nset port h)
             else if nset = NULL then
               let h = ipc_pset_remove oset port h
               in if ips_active (psets h oset) then (oset, h) else (NULL, ips_check_unlock oset h)
             else
               let h = ipc_pset_remove oset port h;
                   h = ipc_pset_add nset port h
               in (oset, ips_check_unlock oset h))
      in (if nset = NULL \<and> oset = NULL then KERN_NOT_IN_SET else KERN_SUCCESS, h))"

definition ipc_pset_destroy :: "addr \<Rightarrow> ipc_heap \<Rightarrow> ipc_heap" where
  "ipc_pset_destroy pset h =
     (let h = set_pset pset (\<lambda>s. s\<lparr>ips_bits := ips_bits s AND NOT IO_BITS_ACTIVE\<rparr>) h;
          h = pset_mqueue_changed pset MACH_RCV_PORT_DIED h;
          h = ips_release pset h
      in ips_check_unlock pset h)"

end
