(* ===== verification/Ipc_Port.thy ===== *)
theory Ipc_Port
  imports Ipc_Heap
begin

section \<open>Ports\<close>

text \<open>
  \<open>ipc/ipc_port.c\<close>: time stamps, dead-name, no-senders and port-destroyed requests, the making and
  releasing of naked rights, circularity and the destruction of a port.  The functions that allocate
  a port together with a name, and those that look into a space, are in \<open>Ipc_Object\<close>.
\<close>

definition MACH_PORT_QLIMIT_DEFAULT :: mach_port_msgcount_t where
  "MACH_PORT_QLIMIT_DEFAULT = 5"

definition ipc_port_timestamp :: "ipc_heap \<Rightarrow> ipc_port_timestamp_t \<times> ipc_heap" where
  "ipc_port_timestamp h =
     (ipc_port_timestamp_data h, h\<lparr>ipc_port_timestamp_data := ipc_port_timestamp_data h + 1\<rparr>)"

definition IP_TIMESTAMP_ORDER :: "ipc_port_timestamp_t \<Rightarrow> ipc_port_timestamp_t \<Rightarrow> bool" where
  "IP_TIMESTAMP_ORDER one two \<longleftrightarrow> sint (one - two) < 0"

subsection \<open>Dead-name requests\<close>

text \<open>\<open>None\<close> in the first component is \<open>KERN_NO_SPACE\<close>.\<close>

definition ipc_port_dnrequest ::
  "ipc_heap \<Rightarrow> addr \<Rightarrow> mach_port_t \<Rightarrow> addr \<Rightarrow> ipc_port_request_index_t option \<times> ipc_heap" where
  "ipc_port_dnrequest h port name soright =
     (case ip_dnrequests (ports h port) of
        None \<Rightarrow> (None, h)
      | Some t \<Rightarrow>
          let table = ipr_elems t; index = ipr_next (table ! 0); i = unat index in
          if index = 0 then (None, h)
          else
            let table = table[0 := (table ! 0)\<lparr>ipr_soright := ipr_next (table ! i)\<rparr>];
                table = table[i := (table ! i)\<lparr>ipr_name := name, ipr_soright := soright\<rparr>]
            in (Some index, set_port port (\<lambda>p. p\<lparr>ip_dnrequests := Some (t\<lparr>ipr_elems := table\<rparr>)\<rparr>) h))"

text \<open>
  What growing depends on: the sizes in \<open>ipc_table_dnrequests\<close>, the memory a table of so many elements
  gets, and what others do to the heap while the port is unlocked.
\<close>

record port_env =
  env_dnits :: "nat list"
  env_dnmem :: "nat \<Rightarrow> (addr \<times> ipc_port_request list) option"
  env_peers :: "ipc_heap \<Rightarrow> ipc_heap"

text \<open>The array of sizes ends with 0, which stops the search.\<close>

fun dn_search :: "nat list \<Rightarrow> nat \<Rightarrow> natural_t \<Rightarrow> nat \<Rightarrow> nat" where
  "dn_search its 0 target i = i"
| "dn_search its (Suc fuel) target i =
     (if its ! i \<noteq> 0 \<and> its ! i < unat target then dn_search its fuel target (i + 1) else i)"

fun dn_free :: "nat list \<Rightarrow> ipc_port_request list \<Rightarrow> ipc_port_request_index_t \<Rightarrow>
    ipc_port_request list \<times> ipc_port_request_index_t" where
  "dn_free [] ntable free = (ntable, free)"
| "dn_free (i # is) ntable free =
     dn_free is (ntable[i := (ntable ! i)\<lparr>ipr_name := MACH_PORT_NULL, ipr_soright := free\<rparr>]) (of_nat i)"

definition dn_grown :: "ipc_port_requests option \<Rightarrow> nat \<Rightarrow> nat list \<Rightarrow> addr \<times> ipc_port_request list \<Rightarrow> ipc_port_requests" where
  "dn_grown otable nits its mem =
     (let (osize, free, ntable) =
            (case otable of
               Some t \<Rightarrow>
                 let osize = its ! ipr_size t
                 in (osize, ipr_next (ipr_elems t ! 0),
                     take 1 (snd mem) @ take (osize - 1) (drop 1 (ipr_elems t)) @ drop osize (snd mem))
             | None \<Rightarrow> (1, 0, snd mem));
          (ntable, free) = dn_free [osize ..< its ! nits] ntable free;
          ntable = ntable[0 := (ntable ! 0)\<lparr>ipr_soright := free\<rparr>]
      in \<lparr>ipr_self = fst mem, ipr_size = nits, ipr_elems = ntable\<rparr>)"

definition ipc_port_dngrow :: "port_env \<Rightarrow> ipc_heap \<Rightarrow> addr \<Rightarrow> natural_t \<Rightarrow> kern_return_t \<times> ipc_heap" where
  "ipc_port_dngrow env h port target =
     (let otable = ip_dnrequests (ports h port); its = env_dnits env;
          nits = (case otable of None \<Rightarrow> 0 | Some t \<Rightarrow> ipr_size t + 1);
          nits' = (if target \<noteq> ITS_SIZE_NONE then dn_search its (length its) target nits else nits);
          enough = (target \<noteq> ITS_SIZE_NONE \<and> (case otable of None \<Rightarrow> False | Some t \<Rightarrow> unat target \<le> its ! ipr_size t))
      in if enough then (KERN_SUCCESS, h)
         else if target \<noteq> ITS_SIZE_NONE \<and> its ! nits' = 0 then (KERN_NO_SPACE, h)
         else
           let h = env_peers env (ip_reference port h) in
           case (if its ! nits' = 0 then None else env_dnmem env (its ! nits')) of
             None \<Rightarrow> (KERN_RESOURCE_SHORTAGE, ipc_port_release port h)
           | Some mem \<Rightarrow>
               let h = ip_release port h; now = ip_dnrequests (ports h port);
                   same = (ip_active (ports h port) \<and>
                     map_option ipr_self now = map_option ipr_self otable \<and>
                     (case now of None \<Rightarrow> True | Some t \<Rightarrow> ipr_size t + 1 = nits'))
               in if same then
                    let h = set_port port (\<lambda>p. p\<lparr>ip_dnrequests := Some (dn_grown now nits' its mem)\<rparr>) h
                    in (KERN_SUCCESS, case now of None \<Rightarrow> h | Some t \<Rightarrow> call (Dnrequests_Free (ipr_size t) (ipr_self t)) h)
                  else (KERN_SUCCESS, call (Dnrequests_Free nits' (fst mem)) (ip_check_unlock port h)))"

definition ipc_port_dncancel ::
  "ipc_heap \<Rightarrow> addr \<Rightarrow> mach_port_t \<Rightarrow> ipc_port_request_index_t \<Rightarrow> addr \<times> ipc_heap" where
  "ipc_port_dncancel h port name index =
     (let t = the (ip_dnrequests (ports h port)); table = ipr_elems t; i = unat index;
          dnrequest = ipr_soright (table ! i);
          table = table[i := (table ! i)\<lparr>ipr_name := MACH_PORT_NULL, ipr_soright := ipr_next (table ! 0)\<rparr>];
          table = table[0 := (table ! 0)\<lparr>ipr_soright := index\<rparr>]
      in (dnrequest, set_port port (\<lambda>p. p\<lparr>ip_dnrequests := Some (t\<lparr>ipr_elems := table\<rparr>)\<rparr>) h))"

definition ipc_port_dnrename ::
  "ipc_heap \<Rightarrow> addr \<Rightarrow> ipc_port_request_index_t \<Rightarrow> mach_port_t \<Rightarrow> mach_port_t \<Rightarrow> ipc_heap" where
  "ipc_port_dnrename h port index oname nname =
     (let t = the (ip_dnrequests (ports h port)); table = ipr_elems t; i = unat index
      in set_port port (\<lambda>p. p\<lparr>ip_dnrequests :=
           Some (t\<lparr>ipr_elems := table[i := (table ! i)\<lparr>ipr_name := nname\<rparr>]\<rparr>)\<rparr>) h)"

subsection \<open>Port-destroyed and no-senders requests, queue limit and sequence number\<close>

definition ipc_port_pdrequest :: "ipc_heap \<Rightarrow> addr \<Rightarrow> addr \<Rightarrow> addr \<times> ipc_heap" where
  "ipc_port_pdrequest h port notify =
     (ip_pdrequest (ports h port), set_port port (\<lambda>p. p\<lparr>ip_pdrequest := notify\<rparr>) h)"

definition ipc_port_nsrequest ::
  "ipc_heap \<Rightarrow> addr \<Rightarrow> mach_port_mscount_t \<Rightarrow> addr \<Rightarrow> addr \<times> ipc_heap" where
  "ipc_port_nsrequest h port sync notify =
     (let previous = ip_nsrequest (ports h port); mscount = ip_mscount (ports h port)
      in (previous,
          if ip_srights (ports h port) = 0 \<and> sync \<le> mscount \<and> notify \<noteq> IP_NULL
          then call (Notify_No_Senders notify mscount) (set_port port (\<lambda>p. p\<lparr>ip_nsrequest := IP_NULL\<rparr>) h)
          else set_port port (\<lambda>p. p\<lparr>ip_nsrequest := notify\<rparr>) h))"

fun wake_senders :: "mach_port_msgcount_t \<Rightarrow> mach_port_msgcount_t \<Rightarrow> addr list \<Rightarrow> addr list \<times> ipc_call list" where
  "wake_senders wakeup i [] = ([], [])"
| "wake_senders wakeup i (th # ths) =
     (if i < wakeup
      then let (rest, cs) = wake_senders wakeup (i + 1) ths in (rest, Thread_Go th MACH_MSG_SUCCESS # cs)
      else (th # ths, []))"

definition ipc_port_set_qlimit :: "ipc_heap \<Rightarrow> addr \<Rightarrow> mach_port_msgcount_t \<Rightarrow> ipc_heap" where
  "ipc_port_set_qlimit h port qlimit =
     (let p = ports h port;
          (blocked, cs) =
            (if qlimit > ip_qlimit p then wake_senders (qlimit - ip_qlimit p) 0 (ip_blocked p)
             else (ip_blocked p, []))
      in (set_port port (\<lambda>p. p\<lparr>ip_blocked := blocked, ip_qlimit := qlimit\<rparr>) h)\<lparr>calls := calls h @ cs\<rparr>)"

definition ipc_port_set_seqno :: "ipc_heap \<Rightarrow> addr \<Rightarrow> mach_port_seqno_t \<Rightarrow> ipc_heap" where
  "ipc_port_set_seqno h port seqno =
     (let pset = ip_pset (ports h port);
          h = (if pset \<noteq> NULL \<and> \<not> ips_active (psets h pset)
               then ips_check_unlock pset (ipc_pset_remove pset port h) else h)
      in set_port port (\<lambda>p. p\<lparr>ip_seqno := seqno\<rparr>) h)"

definition ipc_port_set_mscount :: "addr \<Rightarrow> mach_port_mscount_t \<Rightarrow> ipc_heap \<Rightarrow> ipc_heap" where
  "ipc_port_set_mscount port mscount = set_port port (\<lambda>p. p\<lparr>ip_mscount := mscount\<rparr>)"

definition ipc_port_clear_receiver :: "addr \<Rightarrow> ipc_heap \<Rightarrow> ipc_heap" where
  "ipc_port_clear_receiver port h =
     (let pset = ip_pset (ports h port);
          h = (if pset \<noteq> NULL then ips_check_unlock pset (ipc_pset_remove pset port h)
               else port_mqueue_changed port MACH_RCV_PORT_DIED h);
          h = ipc_port_set_mscount port 0 h
      in set_port port (\<lambda>p. p\<lparr>ip_seqno := 0\<rparr>) h)"

definition ipc_port_init :: "addr \<Rightarrow> addr \<Rightarrow> mach_port_t \<Rightarrow> ipc_heap \<Rightarrow> ipc_heap" where
  "ipc_port_init port space name =
     set_port port (\<lambda>p. p\<lparr>
       ip_data := space,
       ip_receiver_name := name,
       ip_mscount := 0, ip_srights := 0, ip_sorights := 0,
       ip_nsrequest := IP_NULL, ip_pdrequest := IP_NULL, ip_dnrequests := None,
       ip_pset := NULL, ip_seqno := 0, ip_msgcount := 0, ip_qlimit := MACH_PORT_QLIMIT_DEFAULT,
       ip_subsystem := NULL, ip_flags := 0,
       ip_bits := ip_bits p OR IP_BIT_NMS,
       ip_messages := \<lparr>imq_messages = [], imq_threads = []\<rparr>, ip_blocked := []\<rparr>)"

subsection \<open>Naked rights\<close>

definition ipc_port_make_send :: "addr \<Rightarrow> ipc_heap \<Rightarrow> ipc_heap" where
  "ipc_port_make_send port h =
     ip_reference port
       (set_port port (\<lambda>p. p\<lparr>ip_mscount := ip_mscount p + 1, ip_srights := ip_srights p + 1\<rparr>) h)"

definition ipc_port_copy_send :: "addr \<Rightarrow> ipc_heap \<Rightarrow> addr \<times> ipc_heap" where
  "ipc_port_copy_send port h =
     (if \<not> IP_VALID port then (port, h)
      else if ip_active (ports h port)
      then (port, set_port port (\<lambda>p. p\<lparr>ip_srights := ip_srights p + 1\<rparr>) (ip_reference port h))
      else (IP_DEAD, h))"

definition ipc_port_release_send :: "addr \<Rightarrow> ipc_heap \<Rightarrow> ipc_heap" where
  "ipc_port_release_send port h =
     (let h = ip_release port h in
      if \<not> ip_active (ports h port) then ip_check_unlock port h
      else
        let h = set_port port (\<lambda>p. p\<lparr>ip_srights := ip_srights p - 1\<rparr>) h;
            nsrequest = ip_nsrequest (ports h port)
        in if ip_srights (ports h port) = 0 \<and> nsrequest \<noteq> IP_NULL
           then let h = set_port port (\<lambda>p. p\<lparr>ip_nsrequest := IP_NULL\<rparr>) h
                in call (Notify_No_Senders nsrequest (ip_mscount (ports h port))) h
           else h)"

definition ipc_port_make_sonce :: "addr \<Rightarrow> ipc_heap \<Rightarrow> ipc_heap" where
  "ipc_port_make_sonce port h =
     ip_reference port (set_port port (\<lambda>p. p\<lparr>ip_sorights := ip_sorights p + 1\<rparr>) h)"

definition ipc_port_release_sonce :: "addr \<Rightarrow> ipc_heap \<Rightarrow> ipc_heap" where
  "ipc_port_release_sonce port h =
     (let h = set_port port (\<lambda>p. p\<lparr>ip_sorights := ip_sorights p - 1\<rparr>) h;
          h = ip_release port h
      in if \<not> ip_active (ports h port) then ip_check_unlock port h else h)"

subsection \<open>Circularity\<close>

text \<open>
  A port in transit is active, has no receiver and a destination.  The walk along the destinations
  does not end on a cycle: \<open>None\<close>.
\<close>

definition in_transit :: "ipc_heap \<Rightarrow> addr \<Rightarrow> bool" where
  "in_transit h port \<longleftrightarrow>
     ip_active (ports h port) \<and> ip_receiver_name (ports h port) = MACH_PORT_NULL \<and>
     ip_destination (ports h port) \<noteq> IP_NULL"

partial_function (option) transit_base :: "ipc_heap \<Rightarrow> addr \<Rightarrow> addr option" where
  "transit_base h base =
     (if \<not> in_transit h base then Some base else transit_base h (ip_destination (ports h base)))"

text \<open>\<open>try\<close> says that the lock of \<open>dest\<close> is free at once.\<close>

definition ipc_port_check_circularity ::
  "bool \<Rightarrow> ipc_heap \<Rightarrow> addr \<Rightarrow> addr \<Rightarrow> (bool \<times> ipc_heap) option" where
  "ipc_port_check_circularity try h port dest =
     (let linked = set_port port (\<lambda>p. p\<lparr>ip_data := dest\<rparr>) (ip_reference dest h) in
      if port = dest then Some (True, h)
      else if try \<and> \<not> in_transit h dest then Some (False, linked)
      else case transit_base h dest of
             None \<Rightarrow> None
           | Some base \<Rightarrow> if port = base then Some (True, h) else Some (False, linked))"

subsection \<open>Destruction\<close>

fun dnnotify :: "ipc_port_request list \<Rightarrow> nat list \<Rightarrow> ipc_call list" where
  "dnnotify table [] = []"
| "dnnotify table (index # is) =
     (if ipr_name (table ! index) = MACH_PORT_NULL then dnnotify table is
      else Notify_Dead_Name (ipr_soright (table ! index)) (ipr_name (table ! index)) # dnnotify table is)"

definition ipc_port_dnnotify :: "nat list \<Rightarrow> ipc_port_requests \<Rightarrow> ipc_heap \<Rightarrow> ipc_heap" where
  "ipc_port_dnnotify its dnrequests h =
     h\<lparr>calls := calls h @ dnnotify (ipr_elems dnrequests) [1 ..< its ! ipr_size dnrequests]
                @ [Dnrequests_Free (ipr_size dnrequests) (ipr_self dnrequests)]\<rparr>"

fun destroy_messages :: "addr \<Rightarrow> ipc_kmsg list \<Rightarrow> ipc_heap \<Rightarrow> ipc_heap" where
  "destroy_messages port [] h = h"
| "destroy_messages port (kmsg # ks) h =
     destroy_messages port ks
       (call (Kmsg_Destroy (kmsg\<lparr>msgh_remote_port := MACH_PORT_NULL\<rparr>)) (ipc_port_release port h))"

text \<open>
  The part of \<open>ipc_port_destroy\<close> after the port-destroyed request: wake the blocked senders, mark the
  port dead and take its requests off; then the notifications and the messages.
\<close>

definition port_close :: "addr \<Rightarrow> ipc_heap \<Rightarrow> ipc_port_requests option \<times> ipc_heap" where
  "port_close port h =
     (let blocked = ip_blocked (ports h port);
          h = (set_port port (\<lambda>p. p\<lparr>ip_blocked := []\<rparr>) h)
                \<lparr>calls := calls h @ map (\<lambda>th. Thread_Go th MACH_MSG_SUCCESS) blocked\<rparr>;
          h = set_port port (\<lambda>p. p\<lparr>ip_bits := ip_bits p AND NOT IO_BITS_ACTIVE\<rparr>) h;
          (timestamp, h) = ipc_port_timestamp h;
          h = set_port port (\<lambda>p. p\<lparr>ip_data := timestamp\<rparr>) h;
          dnrequests = ip_dnrequests (ports h port)
      in (dnrequests, set_port port (\<lambda>p. p\<lparr>ip_dnrequests := None\<rparr>) h))"

definition port_death :: "nat list \<Rightarrow> addr \<Rightarrow> ipc_heap \<Rightarrow> ipc_heap" where
  "port_death its port h =
     (let (dnrequests, h) = port_close port h;
          h = call (Thread_Pool_Wakeup port) h;
          nsrequest = ip_nsrequest (ports h port);
          h = (if nsrequest \<noteq> IP_NULL then call (Notify_Send_Once nsrequest) h else h);
          kmsgs = imq_messages (ip_messages (ports h port));
          h = set_port port (\<lambda>p. p\<lparr>ip_messages := (ip_messages p)\<lparr>imq_messages := []\<rparr>\<rparr>) h;
          h = destroy_messages port kmsgs h;
          h = (case dnrequests of None \<Rightarrow> h | Some t \<Rightarrow> ipc_port_dnnotify its t h);
          h = (if io_kotype (ip_bits (ports h port)) \<noteq> IKOT_NONE then call (Kobject_Destroy port) h else h)
      in ipc_port_release port h)"

definition ipc_port_destroy :: "nat list \<Rightarrow> bool \<Rightarrow> addr \<Rightarrow> ipc_heap \<Rightarrow> ipc_heap option" where
  "ipc_port_destroy its try port h =
     (let pdrequest = ip_pdrequest (ports h port) in
      if pdrequest \<noteq> IP_NULL then
        let h = set_port port (\<lambda>p. p\<lparr>ip_pdrequest := IP_NULL, ip_receiver_name := MACH_PORT_NULL,
                                     ip_data := IP_NULL\<rparr>) h
        in case ipc_port_check_circularity try h port pdrequest of
             None \<Rightarrow> None
           | Some (circular, h) \<Rightarrow>
               if \<not> circular then Some (call (Notify_Port_Destroyed pdrequest port) h)
               else Some (port_death its port (ipc_port_release_sonce pdrequest h))
      else Some (port_death its port h))"

definition ipc_port_release_receive :: "nat list \<Rightarrow> bool \<Rightarrow> addr \<Rightarrow> ipc_heap \<Rightarrow> ipc_heap option" where
  "ipc_port_release_receive its try port h =
     (let dest = ip_destination (ports h port) in
      case ipc_port_destroy its try port h of
        None \<Rightarrow> None
      | Some h \<Rightarrow> Some (if dest \<noteq> IP_NULL then ipc_port_release dest h else h))"

text \<open>\<open>port\<close> is the memory \<open>io_alloc\<close> returns, \<open>IP_NULL\<close> when there is none; \<open>bzero\<close> clears it.\<close>

definition zero_port :: ipc_port where
  "zero_port = \<lparr>ip_references = 0, ip_bits = 0, ip_receiver_name = 0, ip_data = 0, ip_mscount = 0,
     ip_srights = 0, ip_sorights = 0, ip_nsrequest = 0, ip_pdrequest = 0, ip_dnrequests = None,
     ip_pset = 0, ip_seqno = 0, ip_msgcount = 0, ip_qlimit = 0,
     ip_messages = \<lparr>imq_messages = [], imq_threads = []\<rparr>, ip_blocked = [], ip_flags = 0, ip_subsystem = 0\<rparr>"

definition ipc_port_alloc_special :: "addr \<Rightarrow> addr \<Rightarrow> ipc_heap \<Rightarrow> addr \<times> ipc_heap" where
  "ipc_port_alloc_special port space h =
     (if port = IP_NULL then (IP_NULL, h)
      else
        let h = set_port port (\<lambda>_. zero_port\<lparr>ip_references := 1, ip_bits := io_makebits True IOT_PORT 0\<rparr>) h
        in (port, ipc_port_init port space 1 h))"

definition ipc_port_dealloc_special :: "nat list \<Rightarrow> bool \<Rightarrow> addr \<Rightarrow> ipc_heap \<Rightarrow> ipc_heap option" where
  "ipc_port_dealloc_special its try port h =
     (let h = set_port port (\<lambda>p. p\<lparr>ip_receiver_name := MACH_PORT_NULL, ip_data := NULL\<rparr>) h;
          h = ipc_port_set_mscount port 0 h;
          h = set_port port (\<lambda>p. p\<lparr>ip_seqno := 0\<rparr>) h
      in ipc_port_destroy its try port h)"

subsection \<open>Tables of dead-name requests\<close>

text \<open>
  What a table holds, its free list, and the invariant: the header's chain visits exactly the elements
  without a name, each once.
\<close>

definition dn_map :: "ipc_port_requests \<Rightarrow> nat \<Rightarrow> (mach_port_t \<times> addr) option" where
  "dn_map t i =
     (let table = ipr_elems t in
      if 0 < i \<and> i < length table \<and> ipr_name (table ! i) \<noteq> MACH_PORT_NULL
      then Some (ipr_name (table ! i), ipr_soright (table ! i)) else None)"

fun dn_chain :: "ipc_port_request list \<Rightarrow> ipc_port_request_index_t \<Rightarrow> nat list \<Rightarrow> bool" where
  "dn_chain table h [] \<longleftrightarrow> h = 0"
| "dn_chain table h (n # ns) \<longleftrightarrow>
     h = of_nat n \<and> 0 < n \<and> n < length table \<and> ipr_name (table ! n) = MACH_PORT_NULL \<and>
     dn_chain table (ipr_next (table ! n)) ns"

definition dn_table :: "ipc_port_request list \<Rightarrow> nat list \<Rightarrow> bool" where
  "dn_table table ns \<longleftrightarrow>
     0 < length table \<and> length table < 2 ^ 32 \<and> distinct ns \<and>
     dn_chain table (ipr_next (table ! 0)) ns \<and>
     (\<forall>i. 0 < i \<longrightarrow> i < length table \<longrightarrow> ipr_name (table ! i) = MACH_PORT_NULL \<longrightarrow> i \<in> set ns)"

definition dn_inv :: "nat list \<Rightarrow> ipc_heap \<Rightarrow> addr \<Rightarrow> nat list \<Rightarrow> bool" where
  "dn_inv its h port ns \<longleftrightarrow>
     (case ip_dnrequests (ports h port) of
        None \<Rightarrow> ns = []
      | Some t \<Rightarrow> dn_table (ipr_elems t) ns \<and> length (ipr_elems t) = its ! ipr_size t)"

definition dn_slots :: "ipc_heap \<Rightarrow> addr \<Rightarrow> nat \<Rightarrow> (mach_port_t \<times> addr) option" where
  "dn_slots h port = (case ip_dnrequests (ports h port) of None \<Rightarrow> Map.empty | Some t \<Rightarrow> dn_map t)"

lemma dn_chain_mem:
  "dn_chain table h ns \<Longrightarrow> n \<in> set ns \<Longrightarrow> 0 < n \<and> n < length table \<and> ipr_name (table ! n) = MACH_PORT_NULL"
  by (induction table h ns rule: dn_chain.induct) auto

lemma dn_chain_cong:
  assumes "dn_chain table h ns" "length table \<le> length t" "\<And>n. n \<in> set ns \<Longrightarrow> t ! n = table ! n"
  shows "dn_chain t h ns"
  using assms by (induction table h ns rule: dn_chain.induct) auto

lemma unat_index: "n < 2 ^ 32 \<Longrightarrow> unat (of_nat n :: natural_t) = n"
  by (simp add: unat_of_nat take_bit_nat_eq_self)

text \<open>Taking the first element of the free list.\<close>

lemma dn_take:
  fixes soright :: addr
  assumes inv: "dn_table table (n # ns)" and name: "name \<noteq> MACH_PORT_NULL"
  defines "t \<equiv> table[0 := (table ! 0)\<lparr>ipr_soright := ipr_next (table ! n)\<rparr>]"
  defines "t' \<equiv> t[n := (t ! n)\<lparr>ipr_name := name, ipr_soright := soright\<rparr>]"
  shows "dn_table t' ns" "ipr_next (table ! 0) = of_nat n" "0 < n" "n < length table"
    "ipr_name (table ! n) = MACH_PORT_NULL"
proof -
  have c: "ipr_next (table ! 0) = of_nat n" "0 < n" "n < length table" "ipr_name (table ! n) = MACH_PORT_NULL"
    "dn_chain table (ipr_next (table ! n)) ns" "n \<notin> set ns" "distinct ns" "length table < 2 ^ 32"
    using inv by (auto simp: dn_table_def)
  then show "ipr_next (table ! 0) = of_nat n" "0 < n" "n < length table" "ipr_name (table ! n) = MACH_PORT_NULL"
    by blast+
  have nth: "t' ! i = table ! i" if "i \<noteq> n" "i \<noteq> 0" for i
    using that by (simp add: t'_def t_def)
  have "dn_chain t' (ipr_next (table ! n)) ns"
  proof (rule dn_chain_cong [OF c(5)])
    fix k assume "k \<in> set ns"
    then show "t' ! k = table ! k" using dn_chain_mem [OF c(5)] c(6) nth by fastforce
  qed (simp add: t'_def t_def)
  moreover have "0 < length table" using c(3) by linarith
  then have "ipr_next (t' ! 0) = ipr_next (table ! n)"
    using c(2,3) by (simp add: t'_def t_def nth_list_update)
  moreover have "i \<in> set ns" if "0 < i" "i < length t'" "ipr_name (t' ! i) = MACH_PORT_NULL" for i
  proof (cases "i = n")
    case True then show ?thesis using that name c by (simp add: t'_def t_def)
  next
    case False
    then show ?thesis using that nth [of i] inv by (auto simp: dn_table_def t'_def t_def)
  qed
  ultimately show "dn_table t' ns" using c by (auto simp: dn_table_def t'_def t_def)
qed

text \<open>Giving an element in use back.\<close>

lemma dn_give:
  assumes inv: "dn_table table ns" and n: "0 < n" "n < length table" "ipr_name (table ! n) \<noteq> MACH_PORT_NULL"
  defines "t \<equiv> table[n := (table ! n)\<lparr>ipr_name := MACH_PORT_NULL, ipr_soright := ipr_next (table ! 0)\<rparr>]"
  defines "t' \<equiv> t[0 := (t ! 0)\<lparr>ipr_soright := of_nat n\<rparr>]"
  shows "dn_table t' (n # ns)"
proof -
  have c: "dn_chain table (ipr_next (table ! 0)) ns" "distinct ns" "length table < 2 ^ 32" "0 < length table"
    using inv by (auto simp: dn_table_def)
  have notin: "n \<notin> set ns" using dn_chain_mem [OF c(1), of n] n(3) by auto
  have nth: "t' ! i = table ! i" if "i \<noteq> n" "i \<noteq> 0" for i
    using that by (simp add: t'_def t_def)
  have "dn_chain t' (ipr_next (table ! 0)) ns"
  proof (rule dn_chain_cong [OF c(1)])
    fix k assume "k \<in> set ns"
    then show "t' ! k = table ! k" using dn_chain_mem [OF c(1)] notin nth by fastforce
  qed (simp add: t'_def t_def)
  moreover have "t' ! n = (table ! n)\<lparr>ipr_name := MACH_PORT_NULL, ipr_soright := ipr_next (table ! 0)\<rparr>"
    "ipr_next (t' ! 0) = of_nat n"
    using n c by (simp_all add: t'_def t_def)
  moreover have "i \<in> set (n # ns)" if "0 < i" "i < length t'" "ipr_name (t' ! i) = MACH_PORT_NULL" for i
    using that nth [of i] inv by (cases "i = n") (auto simp: dn_table_def t'_def t_def)
  ultimately show ?thesis using c notin n by (auto simp: dn_table_def t'_def t_def)
qed

subsection \<open>An array of slots with a free list\<close>

text \<open>
  What \<open>ipc_right\<close> relies on when it registers and withdraws requests: a slot that was given out was
  free, holds what was put in, and nothing else changes.
\<close>

locale slot_table =
  fixes inv :: "'s \<Rightarrow> bool"
    and slots :: "'s \<Rightarrow> nat \<Rightarrow> 'a option"
    and full :: "'s \<Rightarrow> bool"
    and valid :: "'a \<Rightarrow> bool"
    and alloc :: "'s \<Rightarrow> 'a \<Rightarrow> natural_t option \<times> 's"
    and cancel :: "'s \<Rightarrow> 'a \<Rightarrow> natural_t \<Rightarrow> 'a \<times> 's"
  assumes full_law: "inv s \<Longrightarrow> valid a \<Longrightarrow> full s \<Longrightarrow> alloc s a = (None, s)"
    and alloc_law: "inv s \<Longrightarrow> valid a \<Longrightarrow> \<not> full s \<Longrightarrow>
      \<exists>i s'. alloc s a = (Some i, s') \<and> inv s' \<and> i \<noteq> 0 \<and> slots s (unat i) = None \<and>
        slots s' = (slots s)(unat i \<mapsto> a)"
    and cancel_law: "inv s \<Longrightarrow> slots s (unat i) = Some a \<Longrightarrow> cancel s a i = (b, s') \<Longrightarrow>
      b = a \<and> inv s' \<and> \<not> full s' \<and> slots s' = (slots s)(unat i := None)"
begin

lemma alloc_cancel:
  assumes "inv s" "valid a" "alloc s a = (Some i, s')" "cancel s' a i = (b, s'')"
  shows "b = a \<and> slots s'' = slots s \<and> \<not> full s''"
proof -
  have "\<not> full s" using full_law [OF assms(1,2)] assms(3) by auto
  from alloc_law [OF assms(1,2) this] assms(3)
  have "inv s'" "slots s (unat i) = None" "slots s' = (slots s)(unat i \<mapsto> a)" by auto
  then show ?thesis
    using cancel_law [of s' i a b s''] assms(4) by (auto simp: fun_eq_iff)
qed

lemma cancel_alloc:
  assumes "inv s" "slots s (unat i) = Some a" "valid a'" "cancel s a i = (b, s')"
  shows "\<exists>j s''. alloc s' a' = (Some j, s'') \<and> slots s'' = ((slots s)(unat i := None))(unat j \<mapsto> a') \<and>
    (j = i \<or> slots s (unat j) = None)"
proof -
  have s': "inv s'" "\<not> full s'" "slots s' = (slots s)(unat i := None)"
    using cancel_law [OF assms(1,2,4)] by auto
  obtain j s'' where "alloc s' a' = (Some j, s'')" "slots s' (unat j) = None" "slots s'' = (slots s')(unat j \<mapsto> a')"
    using alloc_law [OF s'(1) assms(3) s'(2)] by blast
  then show ?thesis using s'(3) by (auto simp: word_unat_eq_iff split: if_splits)
qed

end

text \<open>The requests of a port provide it.\<close>

definition dn_full :: "ipc_heap \<Rightarrow> addr \<Rightarrow> bool" where
  "dn_full h port \<longleftrightarrow>
     (case ip_dnrequests (ports h port) of None \<Rightarrow> True | Some t \<Rightarrow> ipr_next (ipr_elems t ! 0) = 0)"

lemma dn_full_iff: "dn_inv its h port ns \<Longrightarrow> dn_full h port \<longleftrightarrow> ns = []"
proof (cases "ip_dnrequests (ports h port)")
  case (Some t)
  assume "dn_inv its h port ns"
  then have "dn_table (ipr_elems t) ns" by (simp add: dn_inv_def Some)
  then show ?thesis
    using Some by (cases ns) (auto simp: dn_full_def dn_table_def unat_index word_unat_eq_iff)
qed (auto simp: dn_inv_def dn_full_def)

lemma dnrequest_full: "dn_full h port \<Longrightarrow> ipc_port_dnrequest h port name soright = (None, h)"
  by (auto simp: dn_full_def ipc_port_dnrequest_def Let_def split: option.splits)

lemma dnrequest_spec:
  assumes inv: "dn_inv its h port (n # ns)" and name: "name \<noteq> MACH_PORT_NULL"
    and r: "ipc_port_dnrequest h port name soright = (res, h')"
  shows "res = Some (of_nat n) \<and> unat (of_nat n :: natural_t) = n \<and> 0 < n \<and>
    dn_inv its h' port ns \<and> dn_slots h port n = None \<and> dn_slots h' port = (dn_slots h port)(n \<mapsto> (name, soright))"
proof -
  obtain t where t: "ip_dnrequests (ports h port) = Some t" "dn_table (ipr_elems t) (n # ns)"
    "length (ipr_elems t) = its ! ipr_size t"
    using inv by (auto simp: dn_inv_def split: option.splits)
  note d = dn_take(1) [OF t(2) name, of soright] dn_take(2-5) [OF t(2) name]
  have n: "unat (of_nat n :: natural_t) = n" using d(4) t(2) by (intro unat_index) (auto simp: dn_table_def)
  then have nz: "(of_nat n :: natural_t) \<noteq> 0" using d(3) by (auto simp: word_unat_eq_iff)
  show ?thesis
    using r t d n nz name
    by (auto simp: ipc_port_dnrequest_def Let_def dn_inv_def dn_slots_def dn_map_def fun_eq_iff nth_list_update)
qed

lemma dncancel_spec:
  assumes inv: "dn_inv its h port ns" and used: "dn_slots h port (unat i) = Some (name, soright)"
    and r: "ipc_port_dncancel h port name i = (res, h')"
  shows "res = soright \<and> dn_inv its h' port (unat i # ns) \<and> dn_slots h' port = (dn_slots h port)(unat i := None)"
proof -
  obtain t where t: "ip_dnrequests (ports h port) = Some t" "dn_table (ipr_elems t) ns"
    "length (ipr_elems t) = its ! ipr_size t"
    using inv used by (auto simp: dn_inv_def dn_slots_def split: option.splits)
  have n: "0 < unat i" "unat i < length (ipr_elems t)" "ipr_name (ipr_elems t ! unat i) \<noteq> MACH_PORT_NULL"
    "ipr_soright (ipr_elems t ! unat i) = soright"
    using used t(1) by (auto simp: dn_slots_def dn_map_def Let_def split: if_splits)
  show ?thesis
    using r t n dn_give [OF t(2) n(1-3)]
    by (auto simp: ipc_port_dncancel_def Let_def dn_inv_def dn_slots_def dn_map_def fun_eq_iff nth_list_update)
qed

interpretation dn: slot_table
  "\<lambda>h. \<exists>ns. dn_inv its h port ns" "\<lambda>h. dn_slots h port" "\<lambda>h. dn_full h port"
  "\<lambda>(name, _). name \<noteq> MACH_PORT_NULL"
  "\<lambda>h (name, soright). ipc_port_dnrequest h port name soright"
  "\<lambda>h (name, _) i. case ipc_port_dncancel h port name i of (soright, h) \<Rightarrow> ((name, soright), h)"
  for its port
proof (unfold_locales, goal_cases)
  case (1 s a)
  then show ?case by (cases a) (simp add: dnrequest_full)
next
  case (2 s a)
  then obtain ns where ns: "dn_inv its s port ns" by blast
  with 2(3) obtain n ms where "ns = n # ms" using dn_full_iff by (cases ns) auto
  then show ?case
    using 2(2) ns dnrequest_spec [of its s port n ms "fst a" "snd a"]
    by (cases a; cases "ipc_port_dnrequest s port (fst a) (snd a)")
      (fastforce simp: word_unat_eq_iff)
next
  case (3 s i a b s')
  then obtain ns where ns: "dn_inv its s port ns" by blast
  obtain name soright where a: "a = (name, soright)" by (cases a)
  obtain res h' where r: "ipc_port_dncancel s port name i = (res, h')" by (cases "ipc_port_dncancel s port name i")
  from dncancel_spec [OF ns _ r] 3 a r
  have "res = soright" "dn_inv its h' port (unat i # ns)" "dn_slots h' port = (dn_slots s port)(unat i := None)"
    by auto
  then show ?case using 3 a r dn_full_iff [of its h' port "unat i # ns"] by auto
qed

subsection \<open>Growing the table of requests\<close>

lemma dn_free_spec:
  assumes "dn_free is t free = (t', free')" "dn_chain t free ns" "distinct (is @ ns)"
    "\<forall>i \<in> set is. 0 < i \<and> i < length t"
  shows "length t' = length t \<and> dn_chain t' free' (rev is @ ns) \<and>
    (\<forall>i. i \<notin> set is \<longrightarrow> t' ! i = t ! i) \<and> (\<forall>i \<in> set is. ipr_name (t' ! i) = MACH_PORT_NULL)"
  using assms
proof (induction "is" t free arbitrary: ns rule: dn_free.induct)
  case (2 i "is" t free)
  let ?t = "t[i := (t ! i)\<lparr>ipr_name := MACH_PORT_NULL, ipr_soright := free\<rparr>]"
  have "dn_chain ?t free ns"
  proof (rule dn_chain_cong [OF 2(3)])
    fix n assume "n \<in> set ns"
    then have "n \<noteq> i" using 2(4) by auto
    then show "?t ! n = t ! n" by simp
  qed simp
  then have "dn_chain ?t (of_nat i) (i # ns)" using 2(5) by simp
  from 2(1) [OF _ this] 2(2,4,5) show ?case by (auto simp: nth_list_update)
qed simp

lemma dn_grown_spec:
  assumes old: "case ot of None \<Rightarrow> ns = [] | Some t \<Rightarrow> dn_table (ipr_elems t) ns \<and> length (ipr_elems t) = its ! ipr_size t"
    and mem: "length (snd mem) = its ! nits" "its ! nits < 2 ^ 32"
      "(case ot of None \<Rightarrow> 1 | Some t \<Rightarrow> its ! ipr_size t) < its ! nits"
  defines "t' \<equiv> dn_grown ot nits its mem"
  shows "\<exists>n ms. dn_table (ipr_elems t') (n # ms @ ns) \<and> ipr_size t' = nits \<and> length (ipr_elems t') = its ! nits \<and>
    dn_map t' = (case ot of None \<Rightarrow> Map.empty | Some t \<Rightarrow> dn_map t)"
proof -
  let ?N = "its ! nits"
  obtain osize free nt where o: "(osize, free, nt) = (case ot of
               Some t \<Rightarrow>
                 let osize = its ! ipr_size t
                 in (osize, ipr_next (ipr_elems t ! 0),
                     take 1 (snd mem) @ take (osize - 1) (drop 1 (ipr_elems t)) @ drop osize (snd mem))
             | None \<Rightarrow> (1, 0, snd mem))"
    by (cases ot) (auto simp: Let_def)
  have nt: "0 < osize" "osize < ?N" "length nt = ?N" "dn_chain nt free ns" "distinct ns" "\<forall>n \<in> set ns. n < osize"
    and same: "\<And>i. 0 < i \<Longrightarrow> i < osize \<Longrightarrow> \<exists>t. ot = Some t \<and> i < length (ipr_elems t) \<and> nt ! i = ipr_elems t ! i"
    and old_len: "\<And>t. ot = Some t \<Longrightarrow> length (ipr_elems t) = osize"
    and rest: "\<And>i. 0 < i \<Longrightarrow> i < osize \<Longrightarrow> ipr_name (nt ! i) = MACH_PORT_NULL \<Longrightarrow> i \<in> set ns"
  proof -
    have "0 < osize \<and> osize < ?N \<and> length nt = ?N \<and> dn_chain nt free ns \<and> distinct ns \<and> (\<forall>n \<in> set ns. n < osize) \<and>
      (\<forall>i. 0 < i \<longrightarrow> i < osize \<longrightarrow> (\<exists>t. ot = Some t \<and> i < length (ipr_elems t) \<and> nt ! i = ipr_elems t ! i)) \<and>
      (\<forall>t. ot = Some t \<longrightarrow> length (ipr_elems t) = osize) \<and>
      (\<forall>i. 0 < i \<longrightarrow> i < osize \<longrightarrow> ipr_name (nt ! i) = MACH_PORT_NULL \<longrightarrow> i \<in> set ns)"
    proof (cases ot)
      case None
      then show ?thesis using o old mem by simp
    next
      case (Some t)
      have t: "dn_table (ipr_elems t) ns" "length (ipr_elems t) = osize" "osize = its ! ipr_size t" "osize < ?N"
        "free = ipr_next (ipr_elems t ! 0)"
        "nt = take 1 (snd mem) @ take (osize - 1) (drop 1 (ipr_elems t)) @ drop osize (snd mem)"
        using o old mem by (auto simp: Some Let_def)
      have pos: "0 < osize" and ch: "dn_chain (ipr_elems t) free ns" and d: "distinct ns"
        using t by (auto simp: dn_table_def)
      have nth: "nt ! i = ipr_elems t ! i" if "0 < i" "i < osize" for i
        using that t(2,4) mem(1) by (auto simp: t(6) nth_append min_def)
      have len: "length nt = ?N" using t(2,4) mem(1) pos by (simp add: t(6) min_def)
      have in_old: "0 < n" "n < osize" if "n \<in> set ns" for n
        using dn_chain_mem [OF ch that] t(2) by auto
      have "dn_chain nt free ns"
        by (rule dn_chain_cong [OF ch]) (use in_old nth len t(2,4) in auto)
      moreover have "\<forall>i. 0 < i \<longrightarrow> i < osize \<longrightarrow> ipr_name (nt ! i) = MACH_PORT_NULL \<longrightarrow> i \<in> set ns"
        using t(1,2) nth by (simp add: dn_table_def)
      ultimately show ?thesis
        using t(2,4) pos d nth len in_old Some by simp
    qed
    then show "0 < osize" "osize < ?N" "length nt = ?N" "dn_chain nt free ns" "distinct ns" "\<forall>n \<in> set ns. n < osize"
      "\<And>i. 0 < i \<Longrightarrow> i < osize \<Longrightarrow> \<exists>t. ot = Some t \<and> i < length (ipr_elems t) \<and> nt ! i = ipr_elems t ! i"
      "\<And>t. ot = Some t \<Longrightarrow> length (ipr_elems t) = osize"
      "\<And>i. 0 < i \<Longrightarrow> i < osize \<Longrightarrow> ipr_name (nt ! i) = MACH_PORT_NULL \<Longrightarrow> i \<in> set ns"
      by blast+
  qed
  obtain nt' free' where f: "dn_free [osize ..< ?N] nt free = (nt', free')"
    by (cases "dn_free [osize ..< ?N] nt free")
  have spec: "length nt' = ?N" "dn_chain nt' free' (rev [osize ..< ?N] @ ns)"
    "\<And>i. i < osize \<Longrightarrow> nt' ! i = nt ! i" "\<And>i. osize \<le> i \<Longrightarrow> i < ?N \<Longrightarrow> ipr_name (nt' ! i) = MACH_PORT_NULL"
  proof -
    have "distinct ([osize ..< ?N] @ ns)" using nt(5,6) by fastforce
    from dn_free_spec [OF f nt(4) this] nt(1-3)
    show "length nt' = ?N" "dn_chain nt' free' (rev [osize ..< ?N] @ ns)"
      "\<And>i. i < osize \<Longrightarrow> nt' ! i = nt ! i" "\<And>i. osize \<le> i \<Longrightarrow> i < ?N \<Longrightarrow> ipr_name (nt' ! i) = MACH_PORT_NULL"
      by auto
  qed
  let ?e = "nt'[0 := (nt' ! 0)\<lparr>ipr_soright := free'\<rparr>]"
  have t': "t' = \<lparr>ipr_self = fst mem, ipr_size = nits, ipr_elems = ?e\<rparr>"
    using o f by (auto simp: t'_def dn_grown_def Let_def split: option.splits prod.splits)
  have mem_e: "0 < n" if "n \<in> set (rev [osize ..< ?N] @ ns)" for n
    using dn_chain_mem [OF spec(2) that] by blast
  have ch: "dn_chain ?e free' (rev [osize ..< ?N] @ ns)"
    by (rule dn_chain_cong [OF spec(2)]) (use mem_e in auto)
  have name_e: "ipr_name (?e ! i) = (if i < osize then ipr_name (nt ! i) else MACH_PORT_NULL)" if "0 < i" "i < ?N" for i
    using that spec(3,4) [of i] by auto
  have table: "dn_table ?e (rev [osize ..< ?N] @ ns)"
    using ch nt spec(1) name_e rest mem(2) by (fastforce simp: dn_table_def)
  have split: "rev [osize ..< ?N] = (?N - 1) # rev [osize ..< ?N - 1]"
    using nt(2) by (cases ?N) auto
  have "dn_map t' i = (case ot of None \<Rightarrow> Map.empty | Some t \<Rightarrow> dn_map t) i" for i
  proof (cases "0 < i \<and> i < osize")
    case True
    then obtain t where "ot = Some t" "i < length (ipr_elems t)" "nt ! i = ipr_elems t ! i" using same by blast
    then show ?thesis using True nt(2) spec by (simp add: dn_map_def t' Let_def)
  next
    case False
    then have "dn_map t' i = None"
      using name_e [of i] spec(1) by (cases "i = 0") (auto simp: dn_map_def t' Let_def)
    then show ?thesis using False old_len by (auto simp: dn_map_def Let_def split: option.splits)
  qed
  then show ?thesis using table split spec(1) by (auto simp: t' fun_eq_iff)
qed

text \<open>
  The sizes of request tables: strictly increasing and below 2 to the 32nd, then the terminating 0.
\<close>

definition dn_sizes :: "nat list \<Rightarrow> bool" where
  "dn_sizes its \<longleftrightarrow> its \<noteq> [] \<and> last its = 0 \<and> sorted_wrt (<) (butlast its) \<and>
     (\<forall>x \<in> set (butlast its). 1 < x \<and> x < 2 ^ 32)"

lemma dn_search_spec:
  assumes "i < length its" "last its = 0" "length its \<le> i + fuel"
  shows "i \<le> dn_search its fuel target i \<and> dn_search its fuel target i < length its"
  using assms
proof (induction its fuel target i rule: dn_search.induct)
  case (2 its fuel target i)
  have "i + 1 < length its" if "its ! i \<noteq> 0"
  proof -
    have "its \<noteq> []" using 2(2) by auto
    then have "i \<noteq> length its - 1" using that 2(3) by (auto simp: last_conv_nth)
    then show ?thesis using 2(2) by linarith
  qed
  then show ?case using 2 by auto
qed auto

lemma dn_sizes_grow:
  assumes "dn_sizes its" "j < length its" "its ! j \<noteq> 0"
  shows "1 < its ! j \<and> its ! j < 2 ^ 32 \<and> (\<forall>i < j. its ! i < its ! j)"
proof -
  have j: "j < length its - 1" using assms by (cases "j = length its - 1") (auto simp: dn_sizes_def last_conv_nth)
  then have "its ! j \<in> set (butlast its)" by (metis length_butlast nth_butlast nth_mem)
  moreover have "its ! i < its ! j" if "i < j" for i
    using assms(1) that j sorted_wrt_nth_less [of "(<)" "butlast its" i j] by (simp add: dn_sizes_def nth_butlast)
  ultimately show ?thesis using assms(1) by (auto simp: dn_sizes_def)
qed

lemma dn_peers [simp]:
  "dn_slots (ip_reference port h) p = dn_slots h p" "dn_slots (ip_release port h) p = dn_slots h p"
  "dn_slots (call c h) p = dn_slots h p" "dn_slots (ip_check_unlock port h) p = dn_slots h p"
  "dn_inv its (ip_reference port h) p ns = dn_inv its h p ns"
  "dn_inv its (ip_release port h) p ns = dn_inv its h p ns"
  "dn_inv its (call c h) p ns = dn_inv its h p ns" "dn_inv its (ip_check_unlock port h) p ns = dn_inv its h p ns"
  by (auto simp: dn_slots_def dn_inv_def ip_reference_def ip_release_def ip_check_unlock_def split: option.splits)

text \<open>Installing a grown table, or finding that the port has changed.\<close>

definition dn_room :: "port_env \<Rightarrow> bool" where
  "dn_room env \<longleftrightarrow> dn_sizes (env_dnits env) \<and> (\<forall>n mem. env_dnmem env n = Some mem \<longrightarrow> length (snd mem) = n)"

lemma dn_install:
  assumes env: "dn_room env" "env_dnmem env (its ! nits) = Some mem" "its = env_dnits env"
    and nits: "nits < length its" "its ! nits \<noteq> 0"
      "case ip_dnrequests (ports h port) of None \<Rightarrow> True | Some t \<Rightarrow> ipr_size t + 1 \<le> nits"
    and inv: "dn_inv its h port ns"
  defines "h' \<equiv> set_port port (\<lambda>p. p\<lparr>ip_dnrequests := Some (dn_grown (ip_dnrequests (ports h port)) nits its mem)\<rparr>) h"
  shows "\<exists>n ms. dn_inv its h' port (n # ms @ ns) \<and> dn_slots h' port = dn_slots h port"
proof -
  have big: "1 < its ! nits" "its ! nits < 2 ^ 32" "\<forall>i < nits. its ! i < its ! nits"
    using dn_sizes_grow [OF _ nits(1,2)] env by (auto simp: dn_room_def)
  let ?ot = "ip_dnrequests (ports h port)"
  have "(case ?ot of None \<Rightarrow> 1 | Some t \<Rightarrow> its ! ipr_size t) < its ! nits"
    using big nits(3) by (auto split: option.splits)
  moreover have "length (snd mem) = its ! nits" using env by (cases mem) (simp add: dn_room_def)
  ultimately obtain n ms where "dn_table (ipr_elems (dn_grown ?ot nits its mem)) (n # ms @ ns)"
    "ipr_size (dn_grown ?ot nits its mem) = nits" "length (ipr_elems (dn_grown ?ot nits its mem)) = its ! nits"
    "dn_map (dn_grown ?ot nits its mem) = (case ?ot of None \<Rightarrow> Map.empty | Some t \<Rightarrow> dn_map t)"
    using dn_grown_spec [where ot = ?ot and ns = ns and its = its and mem = mem and nits = nits] inv big(2) by (auto simp: dn_inv_def)
  then have "dn_inv its h' port (n # ms @ ns) \<and> dn_slots h' port = dn_slots h port"
    by (simp add: h'_def dn_inv_def dn_slots_def)
  then show ?thesis by blast
qed

lemma dngrow_spec:
  assumes env: "dn_room env" "its = env_dnits env"
    and inv: "dn_inv its h port ns"
      "case ip_dnrequests (ports h port) of None \<Rightarrow> True | Some t \<Rightarrow> ipr_size t + 1 < length its"
    and peers: "h1 = env_peers env (ip_reference port h)" "dn_inv its h1 port ns1"
    and r: "ipc_port_dngrow env h port target = (kr, h')"
  shows "(\<exists>ns'. dn_inv its h' port ns') \<and> (dn_slots h' port = dn_slots h port \<or> dn_slots h' port = dn_slots h1 port) \<and>
    (kr = KERN_SUCCESS \<and> target = ITS_SIZE_NONE \<and> ip_active (ports h1 port) \<and>
     ip_dnrequests (ports h1 port) = ip_dnrequests (ports h port) \<longrightarrow> \<not> dn_full h' port)"
proof -
  let ?ot = "ip_dnrequests (ports h port)" and ?now = "ip_dnrequests (ports h1 port)"
  define nits where "nits = (case ?ot of None \<Rightarrow> 0 | Some t \<Rightarrow> ipr_size t + 1)"
  define nits' where "nits' = (if target \<noteq> ITS_SIZE_NONE then dn_search its (length its) target nits else nits)"
  have "its \<noteq> []" "last its = 0" using env by (auto simp: dn_room_def dn_sizes_def)
  then have len: "nits < length its" "nits \<le> nits'" "nits' < length its"
    using inv(2) dn_search_spec [of nits its "length its" target]
    by (auto simp: nits_def nits'_def split: option.splits)
  show ?thesis
  proof (cases "(target \<noteq> ITS_SIZE_NONE \<and> (case ?ot of None \<Rightarrow> False | Some t \<Rightarrow> unat target \<le> its ! ipr_size t)) \<or>
      (target \<noteq> ITS_SIZE_NONE \<and> its ! nits' = 0)")
    case True
    then have "h' = h \<and> target \<noteq> ITS_SIZE_NONE"
      using r unfolding ipc_port_dngrow_def Let_def env(2) nits'_def nits_def by (auto split: if_splits)
    then show ?thesis using inv(1) by auto
  next
    case early: False
    show ?thesis
    proof (cases "if its ! nits' = 0 then None else env_dnmem env (its ! nits')")
      case None
      then have "h' = ipc_port_release port h1 \<and> kr \<noteq> KERN_SUCCESS"
        using r early unfolding ipc_port_dngrow_def Let_def env(2) nits'_def nits_def peers(1)
        by (auto split: if_splits)
      then show ?thesis using peers(2) by (auto simp: ipc_port_release_def)
    next
      case (Some mem)
      then have nz: "its ! nits' \<noteq> 0" and m: "env_dnmem env (its ! nits') = Some mem" by (auto split: if_splits)
      define same where "same \<longleftrightarrow> ip_active (ports h1 port) \<and> map_option ipr_self ?now = map_option ipr_self ?ot \<and>
         (case ?now of None \<Rightarrow> True | Some t \<Rightarrow> ipr_size t + 1 = nits')"
      let ?h2 = "ip_release port h1"
      have now2: "ip_dnrequests (ports ?h2 port) = ?now" "ip_active (ports ?h2 port) = ip_active (ports h1 port)"
        by (simp_all add: ip_release_def ip_active_def)
      have inv2: "dn_inv its ?h2 port ns1" using peers(2) by simp
      let ?h3 = "set_port port (\<lambda>p. p\<lparr>ip_dnrequests := Some (dn_grown ?now nits' its mem)\<rparr>) ?h2"
      have res: "kr = KERN_SUCCESS \<and> h' = (if same then
          (case ?now of None \<Rightarrow> ?h3 | Some t \<Rightarrow> call (Dnrequests_Free (ipr_size t) (ipr_self t)) ?h3)
          else call (Dnrequests_Free nits' (fst mem)) (ip_check_unlock port ?h2))"
        using r early Some unfolding ipc_port_dngrow_def Let_def env(2) nits'_def nits_def peers(1) [symmetric] same_def
        by (auto simp: now2 split: if_splits option.splits)
      show ?thesis
      proof (cases same)
        case True
        have "case ip_dnrequests (ports ?h2 port) of None \<Rightarrow> True | Some t \<Rightarrow> ipr_size t + 1 \<le> nits'"
          using True by (auto simp: now2 same_def split: option.splits)
        from dn_install [OF env(1) m env(2) len(3) nz this inv2] obtain n ms where
          g: "dn_inv its ?h3 port (n # ms @ ns1)" "dn_slots ?h3 port = dn_slots h1 port"
          by (auto simp: now2)
        have d: "dn_inv its h' port (n # ms @ ns1)" "dn_slots h' port = dn_slots h1 port"
          using res True g by (auto split: option.splits)
        then show ?thesis using dn_full_iff [OF d(1)] by auto
      next
        case False
        have "dn_inv its h' port ns1" "dn_slots h' port = dn_slots h1 port"
          using res False peers(2) by auto
        moreover have "\<not> (target = ITS_SIZE_NONE \<and> ip_active (ports h1 port) \<and> ?now = ?ot)"
          
        proof
          assume a: "target = ITS_SIZE_NONE \<and> ip_active (ports h1 port) \<and> ?now = ?ot"
          then have "nits' = nits" by (simp add: nits'_def)
          then have same using a by (cases ?ot) (simp_all add: same_def nits_def)
          then show False using False by simp
        qed
        ultimately show ?thesis by auto
      qed
    qed
  qed
qed

lemma dnrename_spec:
  assumes inv: "dn_inv its h port ns" and used: "dn_slots h port (unat i) = Some (oname, soright)"
    and name: "nname \<noteq> MACH_PORT_NULL"
  defines "h' \<equiv> ipc_port_dnrename h port i oname nname"
  shows "dn_inv its h' port ns \<and> dn_slots h' port = (dn_slots h port)(unat i \<mapsto> (nname, soright))"
proof -
  obtain t where t: "ip_dnrequests (ports h port) = Some t" "dn_table (ipr_elems t) ns"
    "length (ipr_elems t) = its ! ipr_size t"
    using inv used by (auto simp: dn_inv_def dn_slots_def split: option.splits)
  have n: "0 < unat i" "unat i < length (ipr_elems t)" "ipr_name (ipr_elems t ! unat i) \<noteq> MACH_PORT_NULL"
    "ipr_soright (ipr_elems t ! unat i) = soright"
    using used t(1) by (auto simp: dn_slots_def dn_map_def Let_def split: if_splits)
  let ?e = "(ipr_elems t)[unat i := (ipr_elems t ! unat i)\<lparr>ipr_name := nname\<rparr>]"
  have nth: "?e ! k = (if k = unat i then (ipr_elems t ! unat i)\<lparr>ipr_name := nname\<rparr> else ipr_elems t ! k)" for k
    using n by (simp add: nth_list_update)
  have ch: "dn_chain (ipr_elems t) (ipr_next (ipr_elems t ! 0)) ns" using t(2) by (simp add: dn_table_def)
  have "dn_chain ?e (ipr_next (ipr_elems t ! 0)) ns"
  proof (rule dn_chain_cong [OF ch])
    fix k assume "k \<in> set ns"
    then have "k \<noteq> unat i" using dn_chain_mem [OF ch] n(3) by auto
    then show "?e ! k = ipr_elems t ! k" by simp
  qed simp
  then have "dn_table ?e ns"
    using t(2) n name by (auto simp: dn_table_def nth)
  then have "dn_inv its h' port ns"
    using t by (simp add: h'_def ipc_port_dnrename_def Let_def dn_inv_def)
  moreover have "dn_slots h' port = (dn_slots h port)(unat i \<mapsto> (nname, soright))"
    using t n name by (auto simp: h'_def ipc_port_dnrename_def Let_def dn_slots_def dn_map_def fun_eq_iff nth)
  ultimately show ?thesis ..
qed

text \<open>A heap for the witnesses: every address holds an active port without rights.\<close>

definition zero_pset :: ipc_pset where
  "zero_pset = \<lparr>ips_references = 0, ips_bits = 0, ips_local_name = 0,
     ips_messages = \<lparr>imq_messages = [], imq_threads = []\<rparr>\<rparr>"

definition heap0 :: ipc_heap where
  "heap0 = \<lparr>ports = \<lambda>_. zero_port\<lparr>ip_references := 1, ip_bits := IO_BITS_ACTIVE\<rparr>,
     psets = \<lambda>_. zero_pset, ipc_port_timestamp_data = 0, calls = []\<rparr>"

definition dn_heap :: ipc_heap where
  "dn_heap = set_port 64 (\<lambda>p. p\<lparr>ip_dnrequests := Some \<lparr>ipr_self = 256, ipr_size = 0,
     ipr_elems = [\<lparr>ipr_soright = 2, ipr_name = 0\<rparr>, \<lparr>ipr_soright = 128, ipr_name = 0x103\<rparr>,
       \<lparr>ipr_soright = 0, ipr_name = 0\<rparr>]\<rparr>\<rparr>) heap0"

lemma dn_heap_inv: "dn_inv [3, 6, 0] dn_heap 64 [2]"
proof -
  let ?e = "[\<lparr>ipr_soright = 2, ipr_name = 0\<rparr>, \<lparr>ipr_soright = 128, ipr_name = 0x103\<rparr>,
       \<lparr>ipr_soright = 0, ipr_name = 0\<rparr>]"
  have "dn_chain ?e (ipr_next (?e ! 0)) [2]" by code_simp
  moreover have "i \<in> set [2]" if "0 < i" "i < length ?e" "ipr_name (?e ! i) = MACH_PORT_NULL" for i
  proof -
    have "i = 1 \<or> i = 2" using that(1,2) by auto
    then show ?thesis using that(3) by (auto simp: MACH_PORT_NULL_def)
  qed
  ultimately have "dn_table ?e [2]" unfolding dn_table_def by simp
  then show ?thesis by (simp add: dn_heap_def dn_inv_def)
qed

text \<open>Registering a dead-name request takes a free slot of the port's table, exactly when there is one, and fills it
  with the name and the send-once right; withdrawing it returns the right and restores all requests;
  renaming changes the name of that slot only.  Other slots never change.\<close>

theorem dead_name_requests_exact:
  assumes "dn_inv its h port ns" "name \<noteq> MACH_PORT_NULL"
  shows "(dn_full h port \<longrightarrow> ipc_port_dnrequest h port name soright = (None, h)) \<and>
    (\<not> dn_full h port \<longrightarrow>
      (\<exists>i h1 h2. ipc_port_dnrequest h port name soright = (Some i, h1) \<and> i \<noteq> 0 \<and>
         dn_slots h port (unat i) = None \<and> dn_slots h1 port = (dn_slots h port)(unat i \<mapsto> (name, soright)) \<and>
         ipc_port_dncancel h1 port name i = (soright, h2) \<and> dn_slots h2 port = dn_slots h port \<and> \<not> dn_full h2 port)) \<and>
    (\<forall>i oname sr. dn_slots h port (unat i) = Some (oname, sr) \<longrightarrow>
      dn_slots (ipc_port_dnrename h port i oname name) port = (dn_slots h port)(unat i \<mapsto> (name, sr)))"
proof -
  have inv: "\<exists>ns. dn_inv its h port ns" using assms(1) by blast
  have "\<exists>i h1 h2. ipc_port_dnrequest h port name soright = (Some i, h1) \<and> i \<noteq> 0 \<and>
         dn_slots h port (unat i) = None \<and> dn_slots h1 port = (dn_slots h port)(unat i \<mapsto> (name, soright)) \<and>
         ipc_port_dncancel h1 port name i = (soright, h2) \<and> dn_slots h2 port = dn_slots h port \<and> \<not> dn_full h2 port"
    if nf: "\<not> dn_full h port"
  proof -
    obtain i h1 where r: "ipc_port_dnrequest h port name soright = (Some i, h1)" "i \<noteq> 0"
      "dn_slots h port (unat i) = None" "dn_slots h1 port = (dn_slots h port)(unat i \<mapsto> (name, soright))"
      using dn.alloc_law [where a = "(name, soright)", OF inv] nf assms(2) by auto
    moreover obtain sr h2 where c: "ipc_port_dncancel h1 port name i = (sr, h2)" by fastforce
    ultimately show ?thesis
      using dn.alloc_cancel [where a = "(name, soright)" and b = "(name, sr)" and s'' = h2, OF inv] assms(2)
      by auto
  qed
  then show ?thesis using dnrename_spec [OF assms(1) _ assms(2)] by (auto simp: dnrequest_full)
qed

theorem dead_name_requests_exact_witness:
  "\<not> dn_full dn_heap 64 \<and> dn_slots dn_heap 64 1 = Some (0x103, 128) \<and>
   (\<exists>i h1 h2. ipc_port_dnrequest dn_heap 64 0x207 192 = (Some i, h1) \<and> i \<noteq> 0 \<and>
      dn_slots dn_heap 64 (unat i) = None \<and> dn_slots h1 64 = (dn_slots dn_heap 64)(unat i \<mapsto> (0x207, 192)) \<and>
      ipc_port_dncancel h1 64 0x207 i = (192, h2) \<and> dn_slots h2 64 = dn_slots dn_heap 64 \<and> \<not> dn_full h2 64)"
proof -
  have "\<not> dn_full dn_heap 64" "dn_slots dn_heap 64 1 = Some (0x103, 128)"
    by (simp_all add: dn_full_def dn_slots_def dn_map_def dn_heap_def MACH_PORT_NULL_def)
  then show ?thesis
    using dead_name_requests_exact [OF dn_heap_inv, of "0x207" 192] by (simp add: MACH_PORT_NULL_def)
qed

text \<open>Growing the table of requests keeps every registered request at its index (those made by others
  while the port was unlocked included), keeps the free list sound, and, when it succeeds for a port
  that others left alone, makes room, so that the next request finds a slot.\<close>

theorem dead_name_grow:
  assumes "dn_room env" "its = env_dnits env" "dn_inv its h port ns"
    and "case ip_dnrequests (ports h port) of None \<Rightarrow> True | Some t \<Rightarrow> ipr_size t + 1 < length its"
    and "h1 = env_peers env (ip_reference port h)" "dn_inv its h1 port ns1"
    and "ipc_port_dngrow env h port target = (kr, h')"
  shows "(\<exists>ns'. dn_inv its h' port ns') \<and> (dn_slots h' port = dn_slots h port \<or> dn_slots h' port = dn_slots h1 port) \<and>
    (kr = KERN_SUCCESS \<and> target = ITS_SIZE_NONE \<and> ip_active (ports h1 port) \<and>
     ip_dnrequests (ports h1 port) = ip_dnrequests (ports h port) \<longrightarrow> \<not> dn_full h' port)"
  by (rule dngrow_spec [OF assms])

definition dn_env :: port_env where
  "dn_env = \<lparr>env_dnits = [3, 6, 0], env_dnmem = \<lambda>n. Some (512, replicate n \<lparr>ipr_soright = 7, ipr_name = 7\<rparr>),
     env_peers = id\<rparr>"

theorem dead_name_grow_witness:
  "fst (ipc_port_dngrow dn_env dn_heap 64 ITS_SIZE_NONE) = KERN_SUCCESS \<and>
   \<not> dn_full (snd (ipc_port_dngrow dn_env dn_heap 64 ITS_SIZE_NONE)) 64 \<and>
   dn_slots (snd (ipc_port_dngrow dn_env dn_heap 64 ITS_SIZE_NONE)) 64 = dn_slots dn_heap 64"
proof -
  obtain kr h' where r: "ipc_port_dngrow dn_env dn_heap 64 ITS_SIZE_NONE = (kr, h')"
    by (cases "ipc_port_dngrow dn_env dn_heap 64 ITS_SIZE_NONE")
  have kr: "kr = KERN_SUCCESS"
    using arg_cong [OF r, of fst]
    by (simp add: ipc_port_dngrow_def Let_def dn_env_def dn_heap_def ITS_SIZE_NONE_def
        ip_reference_def ip_release_def heap0_def ip_active_def io_active_def IO_BITS_ACTIVE_def)
  have env: "dn_room dn_env" by (simp add: dn_room_def dn_env_def dn_sizes_def)
  let ?h1 = "env_peers dn_env (ip_reference 64 dn_heap)"
  have h1: "dn_inv [3, 6, 0] ?h1 64 [2]" "ip_active (ports ?h1 64)"
    "ip_dnrequests (ports ?h1 64) = ip_dnrequests (ports dn_heap 64)"
    "dn_slots ?h1 64 = dn_slots dn_heap 64"
    using dn_heap_inv
    by (simp_all add: dn_env_def) (simp_all add: ip_active_def ip_reference_def dn_heap_def heap0_def
        io_active_def IO_BITS_ACTIVE_def)
  have "\<not> dn_full h' 64 \<and> dn_slots h' 64 = dn_slots dn_heap 64"
    using dead_name_grow [OF env _ dn_heap_inv _ refl h1(1) r] h1 kr
    by (auto simp: dn_env_def dn_heap_def)
  then show ?thesis using r kr by simp
qed

end
