(* ===== verification/Port_Life.thy ===== *)
theory Port_Life
  imports Ipc_Port "HOL-Library.Multiset"
begin

section \<open>The life of a port\<close>

text \<open>
  What the operations of \<open>Ipc_Port\<close> and \<open>Ipc_Heap\<close> achieve: no cycle of ports in transit arises, time stamps are
  ordered, a no-senders request is answered once, moving queues loses no message, and the
  destruction of a port notifies everybody who asked.
\<close>

subsection \<open>Ports in transit\<close>

definition transit :: "ipc_heap \<Rightarrow> (addr \<times> addr) set" where
  "transit h = {(p, ip_destination (ports h p)) | p. in_transit h p}"

lemma transit_step: "(p, q) \<in> transit h \<longleftrightarrow> in_transit h p \<and> q = ip_destination (ports h p)"
  by (auto simp: transit_def)

lemma transit_base_spec:
  assumes "acyclic (transit h)"
  shows "\<exists>b. transit_base h p = Some b \<and> (p, b) \<in> (transit h)\<^sup>* \<and> \<not> in_transit h b"
proof -
  have "wf ((transit h)\<inverse>)"
    using assms by (intro finite_acyclic_wf_converse) auto
  then show ?thesis
  proof (induction p)
    case (less p)
    show ?case
    proof (cases "in_transit h p")
      case True
      then have "(p, ip_destination (ports h p)) \<in> transit h" by (simp add: transit_step)
      with less [of "ip_destination (ports h p)"] show ?thesis
        using True by (auto simp: transit_base.simps [of h p] intro: converse_rtrancl_into_rtrancl)
    qed (auto simp: transit_base.simps [of h p])
  qed
qed

lemma transit_end:
  assumes "(p, b) \<in> (transit h)\<^sup>*" "(p, q) \<in> (transit h)\<^sup>*" "\<not> in_transit h b"
  shows "(q, b) \<in> (transit h)\<^sup>*"
  using assms(2,1,3)
proof (induction rule: converse_rtrancl_induct)
  case (step y z)
  from step(4) have "(z, b) \<in> (transit h)\<^sup>*"
  proof (cases rule: converse_rtranclE)
    case base
    then show ?thesis using step(1,5) by (simp add: transit_step)
  next
    case (step w)
    then show ?thesis using \<open>(y, z) \<in> transit h\<close> by (simp add: transit_step)
  qed
  then show ?case using step by blast
qed

lemma circular_spec:
  assumes acyc: "acyclic (transit h)"
    and limbo: "ip_active (ports h port)" "ip_receiver_name (ports h port) = MACH_PORT_NULL"
      "ip_destination (ports h port) = IP_NULL"
    and dest: "dest \<noteq> IP_NULL"
  shows "\<exists>c h'. ipc_port_check_circularity try h port dest = Some (c, h') \<and>
    (c \<longleftrightarrow> (dest, port) \<in> (transit h)\<^sup>*) \<and>
    (if c then h' = h
     else transit h' = insert (port, dest) (transit h) \<and>
       ip_references (ports h' dest) = ip_references (ports h dest) + 1 \<and>
       ip_references (ports h' port) = ip_references (ports h port))"
proof -
  let ?h = "set_port port (\<lambda>p. p\<lparr>ip_data := dest\<rparr>) (ip_reference dest h)"
  have nt: "\<not> in_transit h port" using limbo by (simp add: in_transit_def)
  have linked: "transit ?h = insert (port, dest) (transit h)"
    "ip_references (ports ?h dest) = ip_references (ports h dest) + 1"
    "ip_references (ports ?h port) = ip_references (ports h port)" if "port \<noteq> dest"
  proof -
    have it: "in_transit ?h q \<longleftrightarrow> q = port \<or> in_transit h q" for q
      using limbo dest that by (auto simp: in_transit_def ip_reference_def ip_active_def)
    have "(q, r) \<in> transit ?h \<longleftrightarrow> (q, r) \<in> insert (port, dest) (transit h)" for q r
      using nt that by (auto simp: transit_step it) (auto simp: ip_reference_def)
    then show "transit ?h = insert (port, dest) (transit h)" by auto
    show "ip_references (ports ?h dest) = ip_references (ports h dest) + 1"
      "ip_references (ports ?h port) = ip_references (ports h port)"
      using that by (simp_all add: ip_reference_def)
  qed
  obtain b where b: "transit_base h dest = Some b" "(dest, b) \<in> (transit h)\<^sup>*" "\<not> in_transit h b"
    using transit_base_spec [OF acyc] by blast
  have ends: "port = b \<longleftrightarrow> (dest, port) \<in> (transit h)\<^sup>*"
  proof
    assume "(dest, port) \<in> (transit h)\<^sup>*"
    from transit_end [OF b(2) this b(3)] show "port = b"
      by (cases rule: converse_rtranclE) (use nt in \<open>simp_all add: transit_step\<close>)
  qed (use b in simp)
  have short: "(dest, port) \<notin> (transit h)\<^sup>*" if "\<not> in_transit h dest" "port \<noteq> dest"
    using that by (auto elim: converse_rtranclE simp: transit_step)
  show ?thesis
  proof (cases "port = dest")
    case True then show ?thesis by (auto simp: ipc_port_check_circularity_def)
  next
    case False
    then show ?thesis using linked ends short b(1)
      by (auto simp: ipc_port_check_circularity_def Let_def)
  qed
qed

text \<open>C35: Whether or not the first try of the lock succeeds, the walk of \<open>ipc_port_check_circularity\<close> ends when the
  ports in transit form no cycle; it says true exactly when sending the port to the
  destination would close a cycle, and then changes nothing; otherwise it links the port to the destination with
  one more reference for it, and still no cycle exists.\<close>

theorem circularity_exact:
  assumes "acyclic (transit h)" "ip_active (ports h port)" "ip_receiver_name (ports h port) = MACH_PORT_NULL"
    "ip_destination (ports h port) = IP_NULL" "dest \<noteq> IP_NULL"
  shows "\<exists>c h'. ipc_port_check_circularity try h port dest = Some (c, h') \<and>
    (c \<longleftrightarrow> (dest, port) \<in> (transit h)\<^sup>*) \<and> acyclic (transit h') \<and>
    (if c then h' = h
     else transit h' = insert (port, dest) (transit h) \<and>
       ip_references (ports h' dest) = ip_references (ports h dest) + 1 \<and>
       ip_references (ports h' port) = ip_references (ports h port))"
  using circular_spec [OF assms, of "try"] assms(1) by (fastforce simp: acyclic_insert)

text \<open>Port 128 in transit to port 64, which is in limbo.\<close>

definition transit_heap :: ipc_heap where
  "transit_heap = set_port 128 (\<lambda>p. p\<lparr>ip_data := 64\<rparr>) heap0"

lemma transit_heap: "transit transit_heap = {(128, 64)}"
proof -
  have "in_transit transit_heap p \<longleftrightarrow> p = 128" for p
    by (simp add: in_transit_def transit_heap_def heap0_def zero_port_def IP_NULL_def MACH_PORT_NULL_def
        ip_active_def io_active_def IO_BITS_ACTIVE_def)
  then show ?thesis by (auto simp: transit_def) (simp_all add: transit_heap_def)
qed

theorem circularity_exact_witness:
  "(\<exists>h'. ipc_port_check_circularity False transit_heap 64 128 = Some (True, h')) \<and>
   (\<exists>h'. ipc_port_check_circularity True transit_heap 64 192 = Some (False, h') \<and>
      transit h' = {(64, 192), (128, 64)} \<and> acyclic (transit h'))"
proof -
  have h: "acyclic (transit transit_heap)" by (simp add: transit_heap acyclic_def trancl_insert)
  have l: "ip_active (ports transit_heap 64)" "ip_receiver_name (ports transit_heap 64) = MACH_PORT_NULL"
    "ip_destination (ports transit_heap 64) = IP_NULL"
    by (simp_all add: transit_heap_def heap0_def zero_port_def IP_NULL_def MACH_PORT_NULL_def
        ip_active_def io_active_def IO_BITS_ACTIVE_def)
  have star: "(128, 64) \<in> (transit transit_heap)\<^sup>*" "(192, 64) \<notin> (transit transit_heap)\<^sup>*"
    by (auto simp: transit_heap elim: converse_rtranclE)
  show ?thesis
    using circularity_exact [OF h l, of 128 False] circularity_exact [OF h l, of 192 True] star
    by (auto simp: transit_heap IP_NULL_def split: if_splits)
qed

subsection \<open>Time stamps\<close>

text \<open>A time stamp taken before another is before it in \<open>IP_TIMESTAMP_ORDER\<close>, and not the other way round, although the
  counter wraps around, as long as fewer than 2 to the 31st stamps lie between them.\<close>

theorem timestamp_order:
  assumes "0 < n" "n < 2 ^ 31" "((\<lambda>h. snd (ipc_port_timestamp h)) ^^ n) h = h'"
  shows "IP_TIMESTAMP_ORDER (fst (ipc_port_timestamp h)) (fst (ipc_port_timestamp h')) \<and>
    \<not> IP_TIMESTAMP_ORDER (fst (ipc_port_timestamp h')) (fst (ipc_port_timestamp h))"
proof -
  have "ipc_port_timestamp_data (((\<lambda>h. snd (ipc_port_timestamp h)) ^^ n) h) = ipc_port_timestamp_data h + of_nat n"
    for h by (induction n) (simp_all add: ipc_port_timestamp_def)
  then have d: "ipc_port_timestamp_data h' = ipc_port_timestamp_data h + of_nat n" using assms(3) by blast
  have "sint (of_nat n :: 32 word) = int n"
    using assms(2) by (simp add: signed_of_nat signed_take_bit_int_eq_self)
  moreover have "sint (- of_nat n :: 32 word) = - int n"
  proof -
    have "- of_nat n = (of_int (- int n) :: 32 word)" by simp
    then show ?thesis using assms(2)
      by (simp only: signed_of_int) (simp add: signed_take_bit_int_eq_self)
  qed
  ultimately show ?thesis using assms(1) d by (simp add: IP_TIMESTAMP_ORDER_def ipc_port_timestamp_def)
qed

theorem timestamp_order_witness:
  "IP_TIMESTAMP_ORDER (NOT 0) 1 \<and> \<not> IP_TIMESTAMP_ORDER 1 (NOT 0)"
  using timestamp_order [of 2 "heap0\<lparr>ipc_port_timestamp_data := NOT 0\<rparr>", OF _ _ refl]
  by (simp add: ipc_port_timestamp_def) (simp add: numeral_2_eq_2 ipc_port_timestamp_def)

subsection \<open>The no-senders protocol\<close>

text \<open>
  A port with its send rights, and what happened so far: how many send rights exist (naked or in an
  entry), which send-once rights were registered for a no-senders notification, which were handed back
  to be destroyed, and the \<open>sync\<close> of the last request.  The steps are the operations of \<open>ipc_port.c\<close>; a right
  is copied or released only by who holds one, and the assertion of \<open>io_reference\<close> bounds their number.
\<close>

record nms_state =
  nms_heap :: ipc_heap
  held :: nat
  registered :: "addr list"
  handed_back :: "addr list"
  nms_sync :: mach_port_mscount_t

inductive nms_step :: "addr \<Rightarrow> nms_state \<Rightarrow> nms_state \<Rightarrow> bool" for port where
  make_send: "held s + 1 < 2 ^ 32 \<Longrightarrow> ip_mscount (ports (nms_heap s) port) + 1 \<noteq> 0 \<Longrightarrow>
    nms_step port s (s\<lparr>nms_heap := ipc_port_make_send port (nms_heap s), held := held s + 1\<rparr>)"
| copy_send: "0 < held s \<Longrightarrow> held s + 1 < 2 ^ 32 \<Longrightarrow>
    nms_step port s (s\<lparr>nms_heap := snd (ipc_port_copy_send port (nms_heap s)), held := held s + 1\<rparr>)"
| release_send: "0 < held s \<Longrightarrow>
    nms_step port s (s\<lparr>nms_heap := ipc_port_release_send port (nms_heap s), held := held s - 1\<rparr>)"
| make_sonce: "nms_step port s (s\<lparr>nms_heap := ipc_port_make_sonce port (nms_heap s)\<rparr>)"
| release_sonce: "nms_step port s (s\<lparr>nms_heap := ipc_port_release_sonce port (nms_heap s)\<rparr>)"
| nsrequest: "ipc_port_nsrequest (nms_heap s) port sync notify = (previous, h) \<Longrightarrow>
    nms_step port s (s\<lparr>nms_heap := h, nms_sync := sync,
      registered := registered s @ [x \<leftarrow> [notify]. x \<noteq> IP_NULL],
      handed_back := handed_back s @ [x \<leftarrow> [previous]. x \<noteq> IP_NULL]\<rparr>)"

inductive nms_reachable :: "addr \<Rightarrow> nms_state \<Rightarrow> bool" for port where
  start: "ipc_port_alloc_special port space h = (port, h') \<Longrightarrow> IP_VALID port \<Longrightarrow> calls h = [] \<Longrightarrow>
    nms_reachable port \<lparr>nms_heap = h', held = 0, registered = [], handed_back = [], nms_sync = 0\<rparr>"
| step: "nms_reachable port s \<Longrightarrow> nms_step port s s' \<Longrightarrow> nms_reachable port s'"

fun no_senders_sent :: "ipc_call list \<Rightarrow> addr list" where
  "no_senders_sent [] = []"
| "no_senders_sent (Notify_No_Senders notify mscount # cs) = notify # no_senders_sent cs"
| "no_senders_sent (c # cs) = no_senders_sent cs"

lemma no_senders_sent_append [simp]: "no_senders_sent (cs @ ds) = no_senders_sent cs @ no_senders_sent ds"
  by (induction cs rule: no_senders_sent.induct) auto

text \<open>What holds between the operations; the last line is why a request may wait although there is no sender.\<close>

definition nms_inv :: "addr \<Rightarrow> nms_state \<Rightarrow> bool" where
  "nms_inv port s \<longleftrightarrow>
     (let p = ports (nms_heap s) port in
      ip_active p \<and> IP_VALID port \<and> held s < 2 ^ 32 \<and> unat (ip_srights p) = held s \<and>
      mset (registered s) = mset (handed_back s) + mset (no_senders_sent (calls (nms_heap s))) +
        mset [x \<leftarrow> [ip_nsrequest p]. x \<noteq> IP_NULL] \<and>
      (held s = 0 \<longrightarrow> ip_nsrequest p \<noteq> IP_NULL \<longrightarrow> ip_mscount p < nms_sync s))"

lemma active_bits [simp]:
  "ip_active (p\<lparr>ip_references := r\<rparr>) = ip_active p" "ip_active (p\<lparr>ip_srights := r\<rparr>) = ip_active p"
  "ip_active (p\<lparr>ip_sorights := r\<rparr>) = ip_active p" "ip_active (p\<lparr>ip_mscount := r\<rparr>) = ip_active p"
  "ip_active (p\<lparr>ip_nsrequest := a\<rparr>) = ip_active p" "ip_active (p\<lparr>ip_data := a\<rparr>) = ip_active p"
  "ip_active (p\<lparr>ip_seqno := r\<rparr>) = ip_active p" "ip_active (p\<lparr>ip_receiver_name := a\<rparr>) = ip_active p"
  "ip_active (p\<lparr>ip_pdrequest := a\<rparr>) = ip_active p" "ip_active (p\<lparr>ip_dnrequests := d\<rparr>) = ip_active p"
  by (simp_all add: ip_active_def)

lemma unat_inc: "unat (a :: natural_t) + 1 < 2 ^ 32 \<Longrightarrow> unat (a + 1) = unat a + 1"
  by (subst unat_word_ariths) simp

lemma unat_dec: "0 < unat (a :: natural_t) \<Longrightarrow> unat (a - 1) = unat a - 1"
  by (metis unat_minus_one unat_gt_0)

lemma nms_step_inv:
  assumes "nms_step port s s'" "nms_inv port s"
  shows "nms_inv port s'"
  using assms
proof (induction rule: nms_step.induct)
  case (make_send s)
  then show ?case
    by (auto simp: nms_inv_def Let_def ipc_port_make_send_def ip_reference_def unat_inc)
next
  case (copy_send s)
  then show ?case
    by (auto simp: nms_inv_def Let_def ipc_port_copy_send_def ip_reference_def unat_inc)
next
  case (release_send s)
  let ?p = "ports (nms_heap s) port"
  have "unat (ip_srights ?p) = held s" "ip_active ?p" using release_send(2) by (auto simp: nms_inv_def Let_def)
  moreover have "unat (ip_srights ?p - 1) = held s - 1" "ip_srights ?p - 1 = 0 \<longleftrightarrow> held s - 1 = 0"
    using release_send(1) calculation unat_dec [of "ip_srights ?p"] by (auto simp: word_unat_eq_iff)
  ultimately show ?case using release_send
    by (auto simp: nms_inv_def Let_def ipc_port_release_send_def ip_release_def)
next
  case (make_sonce s)
  then show ?case
    by (auto simp: nms_inv_def Let_def ipc_port_make_sonce_def ip_reference_def)
next
  case (release_sonce s)
  then show ?case
    by (auto simp: nms_inv_def Let_def ipc_port_release_sonce_def ip_release_def)
next
  case (nsrequest s sync notify previous h)
  have z: "held s = 0 \<longleftrightarrow> ip_srights (ports (nms_heap s) port) = 0"
    using nsrequest(2) by (auto simp: nms_inv_def Let_def word_unat_eq_iff)
  from nsrequest show ?case using z
    by (auto simp: nms_inv_def Let_def ipc_port_nsrequest_def not_le split: if_splits)
qed

lemma nms_reachable_inv: "nms_reachable port s \<Longrightarrow> nms_inv port s"
proof (induction rule: nms_reachable.induct)
  case (start space h h')
  then show ?case
    by (auto simp: nms_inv_def Let_def ipc_port_alloc_special_def ipc_port_init_def ip_active_def io_active_def
        io_makebits_def IO_BITS_ACTIVE_def IP_BIT_NMS_def IOT_PORT_def IP_VALID_def IP_NULL_def)
qed (blast intro: nms_step_inv)

text \<open>A step calls nothing, or sends one notification and leaves no send right.\<close>

lemma nms_step_calls:
  assumes "nms_step port s s'" "nms_inv port s"
  shows "calls (nms_heap s') = calls (nms_heap s) \<or> held s' = 0 \<and>
    (\<exists>r. r \<noteq> IP_NULL \<and> calls (nms_heap s') = calls (nms_heap s) @ [Notify_No_Senders r (ip_mscount (ports (nms_heap s') port))])"
  using assms
proof (induction rule: nms_step.induct)
  case (release_send s)
  let ?p = "ports (nms_heap s) port"
  have "ip_srights ?p - 1 = 0 \<longleftrightarrow> held s - 1 = 0" "ip_active ?p"
    using release_send unat_dec [of "ip_srights ?p"] by (auto simp: nms_inv_def Let_def word_unat_eq_iff)
  then show ?case by (auto simp: ipc_port_release_send_def ip_release_def Let_def)
next
  case (release_sonce s)
  then show ?case by (simp add: nms_inv_def Let_def ipc_port_release_sonce_def ip_release_def)
next
  case (nsrequest s sync notify previous h)
  have "held s = 0 \<longleftrightarrow> ip_srights (ports (nms_heap s) port) = 0"
    using nsrequest(2) by (auto simp: nms_inv_def Let_def word_unat_eq_iff)
  then show ?case using nsrequest(1) by (auto simp: ipc_port_nsrequest_def Let_def split: if_splits)
qed (simp_all add: ipc_port_make_send_def ipc_port_copy_send_def ipc_port_make_sonce_def ip_reference_def)

text \<open>C36: In every state that a new port reaches, its count of send rights is the number of send rights that exist,
  and every send-once right registered for a no-senders notification was either handed back, or used to
  send the notification, or is still registered: none is lost and none is notified twice.  A request
  is still registered without any sender only when it asked for a make-send count not reached yet.  Whatever happens next
  sends no notification, or exactly one, with the make-send count, and then there is no send right.\<close>

theorem no_senders_protocol:
  assumes "nms_reachable port s"
  shows "unat (ip_srights (ports (nms_heap s) port)) = held s \<and>
    mset (registered s) = mset (handed_back s) + mset (no_senders_sent (calls (nms_heap s))) +
      mset [x \<leftarrow> [ip_nsrequest (ports (nms_heap s) port)]. x \<noteq> IP_NULL] \<and>
    (held s = 0 \<longrightarrow> ip_nsrequest (ports (nms_heap s) port) \<noteq> IP_NULL \<longrightarrow>
      ip_mscount (ports (nms_heap s) port) < nms_sync s) \<and>
    (\<forall>s'. nms_step port s s' \<longrightarrow> calls (nms_heap s') = calls (nms_heap s) \<or> held s' = 0 \<and>
       (\<exists>r. r \<noteq> IP_NULL \<and>
          calls (nms_heap s') = calls (nms_heap s) @ [Notify_No_Senders r (ip_mscount (ports (nms_heap s') port))]))"
  using nms_reachable_inv [OF assms] nms_step_calls [of port s] by (simp add: nms_inv_def Let_def)

text \<open>A run: make a send right, ask for the notification, release the right.\<close>

definition nms_run :: nms_state where
  "nms_run =
     (let h = snd (ipc_port_alloc_special 64 512 heap0);
          h = ipc_port_make_send 64 h;
          h = snd (ipc_port_nsrequest h 64 1 128)
      in \<lparr>nms_heap = ipc_port_release_send 64 h, held = 0, registered = [128], handed_back = [], nms_sync = 1\<rparr>)"

theorem no_senders_protocol_witness:
  "nms_reachable 64 nms_run \<and> mset [128] = mset [] + mset (no_senders_sent (calls (nms_heap nms_run))) +
     mset [x \<leftarrow> [ip_nsrequest (ports (nms_heap nms_run) 64)]. x \<noteq> IP_NULL] \<and>
   no_senders_sent (calls (nms_heap nms_run)) = [128]"
proof -
  let ?h0 = "snd (ipc_port_alloc_special 64 512 heap0)"
  let ?s0 = "\<lparr>nms_heap = ?h0, held = 0, registered = [], handed_back = [], nms_sync = 0\<rparr>"
  let ?h1 = "ipc_port_make_send 64 ?h0"
  let ?s1 = "?s0\<lparr>nms_heap := ?h1, held := held ?s0 + 1\<rparr>"
  let ?h2 = "snd (ipc_port_nsrequest ?h1 64 1 128)"
  have r0: "nms_reachable 64 ?s0"
    by (rule nms_reachable.start [of _ 512 heap0])
      (simp_all add: ipc_port_alloc_special_def IP_NULL_def IP_VALID_def IP_DEAD_def heap0_def)
  have "nms_step 64 ?s0 ?s1"
    using make_send [of ?s0 64] by (simp add: ipc_port_alloc_special_def ipc_port_init_def IP_NULL_def)
  with r0 have r1: "nms_reachable 64 ?s1" by (rule nms_reachable.step)
  have n: "ipc_port_nsrequest ?h1 64 1 128 = (0, ?h2)"
    by (simp add: ipc_port_nsrequest_def ipc_port_make_send_def ip_reference_def ipc_port_alloc_special_def
        ipc_port_init_def IP_NULL_def)
  have "nms_step 64 ?s1 (?s1\<lparr>nms_heap := ?h2, nms_sync := 1, registered := [128]\<rparr>)"
    using nsrequest [of ?s1 64 1 128 0 ?h2] n by (simp add: IP_NULL_def)
  with r1 have r2: "nms_reachable 64 (?s1\<lparr>nms_heap := ?h2, nms_sync := 1, registered := [128]\<rparr>)"
    by (rule nms_reachable.step)
  have "nms_step 64 (?s1\<lparr>nms_heap := ?h2, nms_sync := 1, registered := [128]\<rparr>) nms_run"
    using release_send [of "?s1\<lparr>nms_heap := ?h2, nms_sync := 1, registered := [128]\<rparr>" 64]
    by (simp add: nms_run_def Let_def)
  with r2 have "nms_reachable 64 nms_run" by (rule nms_reachable.step)
  moreover have "registered nms_run = [128]" "handed_back nms_run = []" by (simp_all add: nms_run_def Let_def)
  moreover have "no_senders_sent (calls (nms_heap nms_run)) = [128]"
    by (simp add: nms_run_def Let_def ipc_port_release_send_def ip_release_def ipc_port_nsrequest_def
        ipc_port_make_send_def ip_reference_def ipc_port_alloc_special_def ipc_port_init_def IP_NULL_def
        heap0_def ip_active_def io_active_def io_makebits_def IO_BITS_ACTIVE_def IOT_PORT_def IP_BIT_NMS_def
        zero_port_def)
  ultimately show ?thesis using no_senders_protocol [of 64 nms_run] by simp
qed

subsection \<open>What moving a queue does\<close>

lemma map_upt_Suc0: "map f [0 ..< Suc n] = f 0 # map (\<lambda>i. f (Suc i)) [0 ..< n]"
  by (simp add: map_upt_Suc del: upt_Suc)

lemma mqueue_move_spec:
  assumes "mqueue_move oldq port dest seqno = (stay, dest', seqno', cs)"
  defines "ms \<equiv> filter (\<lambda>k. msgh_remote_port k = port) oldq"
  defines "n \<equiv> min (length ms) (length (imq_threads dest))"
  shows "stay = filter (\<lambda>k. msgh_remote_port k \<noteq> port) oldq \<and>
    dest' = \<lparr>imq_messages = imq_messages dest @ drop n ms, imq_threads = drop n (imq_threads dest)\<rparr> \<and>
    seqno' = seqno + of_nat n \<and>
    cs = map (\<lambda>i. Thread_Receive (imq_threads dest ! i) (ms ! i) (seqno + of_nat i)) [0 ..< n]"
  using assms(1) unfolding n_def ms_def
proof (induction oldq port dest seqno arbitrary: stay dest' seqno' cs rule: mqueue_move.induct)
  case (1 port dest seqno)
  then show ?case by auto
next
  case (2 kmsg oldq port dest seqno)
  show ?case
  proof (cases "msgh_remote_port kmsg \<noteq> port")
    case True
    obtain a b c d where m: "mqueue_move oldq port dest seqno = (a, b, c, d)" by (cases "mqueue_move oldq port dest seqno")
    show ?thesis using 2(1) [OF True m] 2(4) True m by auto
  next
    case False
    show ?thesis
    proof (cases "imq_threads dest")
      case Nil
      have "mqueue_move oldq port (dest\<lparr>imq_messages := imq_messages dest @ [kmsg]\<rparr>) seqno = (stay, dest', seqno', cs)"
        using 2(4) False Nil by simp
      from 2(2) [OF False Nil this] show ?thesis using False Nil by simp
    next
      case (Cons th ths)
      obtain a b c d where m: "mqueue_move oldq port (dest\<lparr>imq_threads := ths\<rparr>) (seqno + 1) = (a, b, c, d)"
        by (cases "mqueue_move oldq port (dest\<lparr>imq_threads := ths\<rparr>) (seqno + 1)")
      show ?thesis using 2(3) [OF False Cons m] 2(4) False Cons m
        by (simp add: map_upt_Suc0 add.assoc del: upt_Suc)
    qed
  qed
qed

text \<open>Moving the messages of a port between queues keeps every message: those of other ports stay, in order;
  the port's messages go, in order, first to the threads that wait at the destination, each with the
  next sequence number of the port, and the rest to the end of the destination queue.\<close>

theorem mqueue_move_exact:
  "\<exists>stay dest' seqno' cs. mqueue_move oldq port dest seqno = (stay, dest', seqno', cs) \<and>
    (case filter (\<lambda>k. msgh_remote_port k = port) oldq of ms \<Rightarrow>
      case min (length ms) (length (imq_threads dest)) of n \<Rightarrow>
        stay = filter (\<lambda>k. msgh_remote_port k \<noteq> port) oldq \<and>
        imq_messages dest' = imq_messages dest @ drop n ms \<and> imq_threads dest' = drop n (imq_threads dest) \<and>
        seqno' = seqno + of_nat n \<and>
        cs = map (\<lambda>i. Thread_Receive (imq_threads dest ! i) (ms ! i) (seqno + of_nat i)) [0 ..< n])"
proof -
  obtain a b c d where m: "mqueue_move oldq port dest seqno = (a, b, c, d)" by (cases "mqueue_move oldq port dest seqno")
  then show ?thesis using mqueue_move_spec [OF m] by simp
qed

text \<open>C37: Adding a port to a port set and removing it again restores both queues, the sequence number and the references
  of the set; in between all messages of the port wait in the queue of the set, after those
  that were there.  Nobody waits to receive from either.\<close>

theorem pset_add_remove:
  assumes "imq_threads (ip_messages (ports h port)) = []" "imq_threads (ips_messages (psets h pset)) = []"
    and "\<forall>k \<in> set (imq_messages (ip_messages (ports h port))). msgh_remote_port k = port"
    and "\<forall>k \<in> set (imq_messages (ips_messages (psets h pset))). msgh_remote_port k \<noteq> port"
    and "h1 = ipc_pset_add pset port h" "h2 = ipc_pset_remove pset port h1"
  shows "ip_pset (ports h1 port) = pset \<and> imq_messages (ip_messages (ports h1 port)) = [] \<and>
    imq_messages (ips_messages (psets h1 pset)) =
      imq_messages (ips_messages (psets h pset)) @ imq_messages (ip_messages (ports h port)) \<and>
    ports h2 port = (ports h port)\<lparr>ip_pset := NULL\<rparr> \<and> psets h2 = psets h \<and> calls h2 = calls h"
proof -
  let ?p = "ip_messages (ports h port)" and ?s = "ips_messages (psets h pset)"
  have f: "filter (\<lambda>k. msgh_remote_port k = port) (imq_messages ?p) = imq_messages ?p"
    "filter (\<lambda>k. msgh_remote_port k \<noteq> port) (imq_messages ?p) = []"
    "filter (\<lambda>k. msgh_remote_port k = port) (imq_messages ?s) = []"
    "filter (\<lambda>k. msgh_remote_port k \<noteq> port) (imq_messages ?s) = imq_messages ?s"
    using assms(3,4) by (auto intro: filter_True simp: filter_empty_conv)
  have q: "mqueue_move (imq_messages ?p) port ?s seqno =
      ([], ?s\<lparr>imq_messages := imq_messages ?s @ imq_messages ?p\<rparr>, seqno, [])" for seqno
    using mqueue_move_spec [of "imq_messages ?p" port ?s seqno] f assms(2)
    by (cases "mqueue_move (imq_messages ?p) port ?s seqno") simp
  have r: "mqueue_move (imq_messages ?s @ imq_messages ?p) port \<lparr>imq_messages = [], imq_threads = []\<rparr> seqno =
      (imq_messages ?s, \<lparr>imq_messages = imq_messages ?p, imq_threads = []\<rparr>, seqno, [])" for seqno
    using mqueue_move_spec [of "imq_messages ?s @ imq_messages ?p" port "\<lparr>imq_messages = [], imq_threads = []\<rparr>" seqno] f
    by (cases "mqueue_move (imq_messages ?s @ imq_messages ?p) port \<lparr>imq_messages = [], imq_threads = []\<rparr> seqno") simp
  have h1: "ports h1 port = (ports h port)\<lparr>ip_pset := pset, ip_messages := \<lparr>imq_messages = [], imq_threads = []\<rparr>\<rparr>"
    "psets h1 pset = (psets h pset)\<lparr>ips_references := ips_references (psets h pset) + 1,
       ips_messages := ?s\<lparr>imq_messages := imq_messages ?s @ imq_messages ?p\<rparr>\<rparr>"
    "\<And>t. t \<noteq> pset \<Longrightarrow> psets h1 t = psets h t" "calls h1 = calls h"
    using assms(1) by (auto simp: assms(5) ipc_pset_add_def Let_def ips_reference_def move_to_pset_def q
        port_mqueue_changed_def mqueue_changed_def set_port_def set_pset_def)
  have "ports h2 port = (ports h port)\<lparr>ip_pset := NULL\<rparr>" "calls h2 = calls h"
    using assms(1) by (auto simp: assms(6) ipc_pset_remove_def Let_def ips_release_def move_to_port_def h1 r
        set_port_def set_pset_def)
  moreover have "psets h2 t = psets h t" for t
    by (auto simp: assms(6) ipc_pset_remove_def Let_def ips_release_def move_to_port_def h1 r set_port_def set_pset_def)
  ultimately show ?thesis using h1 by auto
qed

text \<open>A port with two messages and a set with one message of another port.\<close>

definition pset_heap :: ipc_heap where
  "pset_heap = set_pset 32 (\<lambda>s. s\<lparr>ips_messages := \<lparr>imq_messages = [\<lparr>ikm_addr = 7, msgh_bits = 0, msgh_size = 24, msgh_remote_port = 128\<rparr>], imq_threads = []\<rparr>\<rparr>)
     (set_port 64 (\<lambda>p. p\<lparr>ip_messages := \<lparr>imq_messages =
        [\<lparr>ikm_addr = 8, msgh_bits = 0, msgh_size = 24, msgh_remote_port = 64\<rparr>, \<lparr>ikm_addr = 9, msgh_bits = 0, msgh_size = 24, msgh_remote_port = 64\<rparr>], imq_threads = []\<rparr>\<rparr>) heap0)"

theorem pset_add_remove_witness:
  "map ikm_addr (imq_messages (ips_messages (psets (ipc_pset_add 32 64 pset_heap) 32))) = [7, 8, 9] \<and>
   psets (ipc_pset_remove 32 64 (ipc_pset_add 32 64 pset_heap)) = psets pset_heap"
  using pset_add_remove [of pset_heap 64 32 _ _, OF _ _ _ _ refl refl]
  by (simp add: pset_heap_def heap0_def zero_port_def)

subsection \<open>What the destruction of a port does\<close>

fun dead_names_sent :: "ipc_call list \<Rightarrow> (mach_port_t \<times> addr) list" where
  "dead_names_sent [] = []"
| "dead_names_sent (Notify_Dead_Name notify name # cs) = (name, notify) # dead_names_sent cs"
| "dead_names_sent (c # cs) = dead_names_sent cs"

fun kmsgs_destroyed :: "ipc_call list \<Rightarrow> addr list" where
  "kmsgs_destroyed [] = []"
| "kmsgs_destroyed (Kmsg_Destroy k # cs) = ikm_addr k # kmsgs_destroyed cs"
| "kmsgs_destroyed (c # cs) = kmsgs_destroyed cs"

fun send_onces_sent :: "ipc_call list \<Rightarrow> addr list" where
  "send_onces_sent [] = []"
| "send_onces_sent (Notify_Send_Once notify # cs) = notify # send_onces_sent cs"
| "send_onces_sent (c # cs) = send_onces_sent cs"

lemma sent_append [simp]:
  "dead_names_sent (cs @ ds) = dead_names_sent cs @ dead_names_sent ds"
  "kmsgs_destroyed (cs @ ds) = kmsgs_destroyed cs @ kmsgs_destroyed ds"
  "send_onces_sent (cs @ ds) = send_onces_sent cs @ send_onces_sent ds"
proof -
  show "dead_names_sent (cs @ ds) = dead_names_sent cs @ dead_names_sent ds"
    by (induction cs rule: dead_names_sent.induct) auto
  show "kmsgs_destroyed (cs @ ds) = kmsgs_destroyed cs @ kmsgs_destroyed ds"
    by (induction cs rule: kmsgs_destroyed.induct) auto
  show "send_onces_sent (cs @ ds) = send_onces_sent cs @ send_onces_sent ds"
    by (induction cs rule: send_onces_sent.induct) auto
qed

lemma sent_wakeups [simp]:
  "dead_names_sent (map (\<lambda>th. Thread_Go th mr) ths) = []"
  "kmsgs_destroyed (map (\<lambda>th. Thread_Go th mr) ths) = []"
  "send_onces_sent (map (\<lambda>th. Thread_Go th mr) ths) = []"
  by (induction ths) auto

lemma sent_dnnotify [simp]:
  "dead_names_sent (dnnotify table is) =
     map (\<lambda>i. (ipr_name (table ! i), ipr_soright (table ! i))) [i \<leftarrow> is. ipr_name (table ! i) \<noteq> MACH_PORT_NULL]"
  "kmsgs_destroyed (dnnotify table is) = []" "send_onces_sent (dnnotify table is) = []"
  by (induction "is") auto

definition sent :: "ipc_heap \<Rightarrow> (mach_port_t \<times> addr) list \<times> addr list \<times> addr list" where
  "sent h = (dead_names_sent (calls h), kmsgs_destroyed (calls h), send_onces_sent (calls h))"

lemma release_frame:
  "ports (ipc_port_release port h) =
     (ports h)(port := (ports h port)\<lparr>ip_references := ip_references (ports h port) - 1\<rparr>)"
  "ipc_port_timestamp_data (ipc_port_release port h) = ipc_port_timestamp_data h"
  "psets (ipc_port_release port h) = psets h"
  "dead_names_sent (calls (ipc_port_release port h)) = dead_names_sent (calls h)"
  "kmsgs_destroyed (calls (ipc_port_release port h)) = kmsgs_destroyed (calls h)"
  "send_onces_sent (calls (ipc_port_release port h)) = send_onces_sent (calls h)"
  by (auto simp: ipc_port_release_def ip_check_unlock_def ip_release_def fun_eq_iff)

lemma destroy_messages_frame:
  "ports (destroy_messages port ks h) =
     (ports h)(port := (ports h port)\<lparr>ip_references := ip_references (ports h port) - of_nat (length ks)\<rparr>) \<and>
   ipc_port_timestamp_data (destroy_messages port ks h) = ipc_port_timestamp_data h \<and>
   psets (destroy_messages port ks h) = psets h \<and>
   dead_names_sent (calls (destroy_messages port ks h)) = dead_names_sent (calls h) \<and>
   kmsgs_destroyed (calls (destroy_messages port ks h)) = kmsgs_destroyed (calls h) @ map ikm_addr ks \<and>
   send_onces_sent (calls (destroy_messages port ks h)) = send_onces_sent (calls h)"
proof (induction port ks h rule: destroy_messages.induct)
  case (2 port kmsg ks h)
  then show ?case by (simp add: release_frame diff_diff_eq add.commute fun_eq_iff)
qed simp

text \<open>The requests of a table, in the order of their slots.\<close>

definition dn_list :: "ipc_heap \<Rightarrow> addr \<Rightarrow> (mach_port_t \<times> addr) list" where
  "dn_list h port = map (\<lambda>i. the (dn_slots h port i)) (sorted_list_of_set (dom (dn_slots h port)))"

lemma dn_list_table:
  assumes "ip_dnrequests (ports h port) = Some t"
  shows "dn_list h port = map (\<lambda>i. (ipr_name (ipr_elems t ! i), ipr_soright (ipr_elems t ! i)))
     [i \<leftarrow> [1 ..< length (ipr_elems t)]. ipr_name (ipr_elems t ! i) \<noteq> MACH_PORT_NULL]"
proof -
  let ?is = "[i \<leftarrow> [1 ..< length (ipr_elems t)]. ipr_name (ipr_elems t ! i) \<noteq> MACH_PORT_NULL]"
  have "sorted_list_of_set (dom (dn_slots h port)) = ?is"
  proof (rule sorted_distinct_set_unique)
    have fin: "finite (dom (dn_slots h port))"
      by (rule finite_subset [of _ "{..< length (ipr_elems t)}"])
        (auto simp: dn_slots_def dn_map_def assms Let_def split: if_splits)
    show "set (sorted_list_of_set (dom (dn_slots h port))) = set ?is"
      using fin by (auto simp: dn_slots_def dn_map_def assms Let_def split: if_splits)
  qed (simp_all add: sorted_wrt_filter)
  moreover have "the (dn_slots h port i) = (ipr_name (ipr_elems t ! i), ipr_soright (ipr_elems t ! i))"
    if "i \<in> set ?is" for i
    using that by (simp add: dn_slots_def dn_map_def assms Let_def)
  ultimately show ?thesis by (simp add: dn_list_def cong: map_cong)
qed

lemma dn_list_none: "ip_dnrequests (ports h port) = None \<Longrightarrow> dn_list h port = []"
  by (simp add: dn_list_def dn_slots_def)

lemma active_cleared: "\<not> io_active (bits AND NOT IO_BITS_ACTIVE)"
  by (simp add: io_active_def IO_BITS_ACTIVE_def and.assoc)

lemma port_death_spec:
  assumes "dn_inv its h port ns"
  defines "h' \<equiv> port_death its port h" and "p \<equiv> ports h port"
  shows "ports h' = (ports h)(port := p\<lparr>
      ip_bits := ip_bits p AND NOT IO_BITS_ACTIVE,
      ip_data := ipc_port_timestamp_data h,
      ip_references := ip_references p - of_nat (length (imq_messages (ip_messages p))) - 1,
      ip_dnrequests := None, ip_blocked := [],
      ip_messages := (ip_messages p)\<lparr>imq_messages := []\<rparr>\<rparr>)"
    "ipc_port_timestamp_data h' = ipc_port_timestamp_data h + 1" "psets h' = psets h"
    "dead_names_sent (calls h') = dead_names_sent (calls h) @ dn_list h port"
    "kmsgs_destroyed (calls h') = kmsgs_destroyed (calls h) @ map ikm_addr (imq_messages (ip_messages p))"
    "send_onces_sent (calls h') = send_onces_sent (calls h) @ [x \<leftarrow> [ip_nsrequest p]. x \<noteq> IP_NULL]"
proof -
  have dn: "(case ip_dnrequests p of None \<Rightarrow> [] | Some t \<Rightarrow>
      map (\<lambda>i. (ipr_name (ipr_elems t ! i), ipr_soright (ipr_elems t ! i)))
        [i \<leftarrow> [1 ..< its ! ipr_size t]. ipr_name (ipr_elems t ! i) \<noteq> MACH_PORT_NULL]) = dn_list h port"
    using assms(1) dn_list_table [of h port] dn_list_none [of h port]
    by (auto simp: p_def dn_inv_def split: option.splits)
  note frames = destroy_messages_frame release_frame ipc_port_dnnotify_def
  define h1 where "h1 = snd (port_close port h)"
  have h1: "ports h1 port = p\<lparr>ip_bits := ip_bits p AND NOT IO_BITS_ACTIVE, ip_data := ipc_port_timestamp_data h,
      ip_dnrequests := None, ip_blocked := []\<rparr>" "\<And>q. q \<noteq> port \<Longrightarrow> ports h1 q = ports h q"
    "ipc_port_timestamp_data h1 = ipc_port_timestamp_data h + 1" "psets h1 = psets h"
    "port_close port h = (ip_dnrequests p, h1)"
    "calls h1 = calls h @ map (\<lambda>th. Thread_Go th MACH_MSG_SUCCESS) (ip_blocked p)"
    by (simp_all add: h1_def port_close_def Let_def ipc_port_timestamp_def set_port_def p_def)
  have "ports h' q = ((ports h)(port := p\<lparr>
      ip_bits := ip_bits p AND NOT IO_BITS_ACTIVE,
      ip_data := ipc_port_timestamp_data h,
      ip_references := ip_references p - of_nat (length (imq_messages (ip_messages p))) - 1,
      ip_dnrequests := None, ip_blocked := [],
      ip_messages := (ip_messages p)\<lparr>imq_messages := []\<rparr>\<rparr>)) q" for q
    by (cases "ip_dnrequests p"; cases "ip_nsrequest p = IP_NULL"; simp add: h'_def port_death_def Let_def frames h1)
  then show "ports h' = (ports h)(port := p\<lparr>
      ip_bits := ip_bits p AND NOT IO_BITS_ACTIVE,
      ip_data := ipc_port_timestamp_data h,
      ip_references := ip_references p - of_nat (length (imq_messages (ip_messages p))) - 1,
      ip_dnrequests := None, ip_blocked := [],
      ip_messages := (ip_messages p)\<lparr>imq_messages := []\<rparr>\<rparr>)" by blast
  show "ipc_port_timestamp_data h' = ipc_port_timestamp_data h + 1" "psets h' = psets h"
    by (cases "ip_dnrequests p"; cases "ip_nsrequest p = IP_NULL"; simp add: h'_def port_death_def Let_def frames h1)+
  show "dead_names_sent (calls h') = dead_names_sent (calls h) @ dn_list h port"
    using dn by (cases "ip_dnrequests p"; cases "ip_nsrequest p = IP_NULL"; simp add: h'_def port_death_def Let_def frames h1)
  show "kmsgs_destroyed (calls h') = kmsgs_destroyed (calls h) @ map ikm_addr (imq_messages (ip_messages p))"
    by (cases "ip_dnrequests p"; cases "ip_nsrequest p = IP_NULL"; simp add: h'_def port_death_def Let_def frames h1)
  show "send_onces_sent (calls h') = send_onces_sent (calls h) @ [x \<leftarrow> [ip_nsrequest p]. x \<noteq> IP_NULL]"
    by (cases "ip_dnrequests p"; cases "ip_nsrequest p = IP_NULL"; simp add: h'_def port_death_def Let_def frames h1)
qed

text \<open>C38: Destroying a port for whose death nobody asked to get the receive right ends and leaves a dead port with the next
  time stamp and no queue.  Each registered dead-name request gets exactly one notification, with its
  name, in the order of the table; each queued message is destroyed once, in order, with one reference
  of the port; the no-senders request, if any, is used for a send-once notification; the
  reference of the receive right is given up; no other port or set changes.\<close>

theorem port_destroy_exact:
  assumes "ip_pdrequest (ports h port) = IP_NULL" "dn_inv its h port ns" "p = ports h port"
  shows "\<exists>h'. ipc_port_destroy its try port h = Some h' \<and> \<not> ip_active (ports h' port) \<and>
    ports h' = (ports h)(port := p\<lparr>
      ip_bits := ip_bits p AND NOT IO_BITS_ACTIVE, ip_data := ipc_port_timestamp_data h,
      ip_references := ip_references p - of_nat (length (imq_messages (ip_messages p))) - 1,
      ip_dnrequests := None, ip_blocked := [], ip_messages := (ip_messages p)\<lparr>imq_messages := []\<rparr>\<rparr>) \<and>
    ipc_port_timestamp_data h' = ipc_port_timestamp_data h + 1 \<and> psets h' = psets h \<and>
    dead_names_sent (calls h') = dead_names_sent (calls h) @ dn_list h port \<and>
    kmsgs_destroyed (calls h') = kmsgs_destroyed (calls h) @ map ikm_addr (imq_messages (ip_messages p)) \<and>
    send_onces_sent (calls h') = send_onces_sent (calls h) @ [x \<leftarrow> [ip_nsrequest p]. x \<noteq> IP_NULL]"
proof -
  have "ipc_port_destroy its try port h = Some (port_death its port h)"
    using assms(1) by (simp add: ipc_port_destroy_def)
  then show ?thesis
    using port_death_spec [OF assms(2)] assms(3) by (auto simp: ip_active_def active_cleared)
qed

text \<open>A port with one request, one message and a no-senders request.\<close>

definition doomed_heap :: ipc_heap where
  "doomed_heap = set_port 64 (\<lambda>p. p\<lparr>ip_nsrequest := 192, ip_references := 3,
     ip_messages := \<lparr>imq_messages = [\<lparr>ikm_addr = 8, msgh_bits = 0, msgh_size = 24, msgh_remote_port = 64\<rparr>], imq_threads = []\<rparr>\<rparr>) dn_heap"

theorem port_destroy_exact_witness:
  "\<exists>h'. ipc_port_destroy [3, 6, 0] True 64 doomed_heap = Some h' \<and> \<not> ip_active (ports h' 64) \<and>
    ip_references (ports h' 64) = 1 \<and> dead_names_sent (calls h') = [(0x103, 128)] \<and>
    kmsgs_destroyed (calls h') = [8] \<and> send_onces_sent (calls h') = [192]"
proof -
  have inv: "dn_inv [3, 6, 0] doomed_heap 64 [2]"
    using dn_heap_inv by (simp add: dn_inv_def doomed_heap_def)
  have t: "\<exists>t. ip_dnrequests (ports doomed_heap 64) = Some t \<and> length (ipr_elems t) = 3 \<and>
      ipr_elems t ! 1 = \<lparr>ipr_soright = 128, ipr_name = 0x103\<rparr> \<and> ipr_elems t ! 2 = \<lparr>ipr_soright = 0, ipr_name = 0\<rparr>"
    by (simp add: doomed_heap_def dn_heap_def)
  have "dn_list doomed_heap 64 = [(0x103, 128)]"
  proof -
    have "[1 ..< 3] = [1, 2::nat]" by code_simp
    then show ?thesis using t dn_list_table [of doomed_heap 64] by (auto simp: MACH_PORT_NULL_def)
  qed
  moreover have "ip_pdrequest (ports doomed_heap 64) = IP_NULL" "calls doomed_heap = []"
    "ip_references (ports doomed_heap 64) = 3" "ip_nsrequest (ports doomed_heap 64) = 192"
    "imq_messages (ip_messages (ports doomed_heap 64)) = [\<lparr>ikm_addr = 8, msgh_bits = 0, msgh_size = 24, msgh_remote_port = 64\<rparr>]"
    by (simp_all add: doomed_heap_def dn_heap_def heap0_def zero_port_def IP_NULL_def)
  ultimately show ?thesis
    using port_destroy_exact [OF _ inv refl, of True] by (auto simp: IP_NULL_def)
qed

text \<open>A port whose receive right is destroyed after someone asked for it is not destroyed: when it goes to the
  port that asked, it stays alive, is in transit to it, the notification carries it, and no cycle
  arises.  When it would be sent to itself, directly or through ports in transit, it dies.\<close>

theorem port_destroyed_request:
  assumes "acyclic (transit h)" "ip_active (ports h port)" "ip_pdrequest (ports h port) = pdrequest"
    "pdrequest \<noteq> IP_NULL" "dn_inv its h port ns"
    and "limbo = set_port port (\<lambda>p. p\<lparr>ip_pdrequest := IP_NULL, ip_receiver_name := MACH_PORT_NULL,
                                     ip_data := IP_NULL\<rparr>) h"
  shows "\<exists>h'. ipc_port_destroy its try port h = Some h' \<and> acyclic (transit h') \<and>
    (if (pdrequest, port) \<in> (transit limbo)\<^sup>* then \<not> ip_active (ports h' port)
     else ip_active (ports h' port) \<and> (port, pdrequest) \<in> transit h' \<and>
       last (calls h') = Notify_Port_Destroyed pdrequest port)"
proof -
  have nt: "in_transit limbo q \<longleftrightarrow> q \<noteq> port \<and> in_transit h q" for q
    by (auto simp: in_transit_def assms(6))
  then have sub: "transit limbo \<subseteq> transit h" by (auto simp: transit_def assms(6))
  then have acyc: "acyclic (transit limbo)" using assms(1) by (rule acyclic_subset [rotated])
  have l: "ip_active (ports limbo port)" "ip_receiver_name (ports limbo port) = MACH_PORT_NULL"
    "ip_destination (ports limbo port) = IP_NULL"
    using assms(2) by (simp_all add: assms(6) ip_active_def)
  obtain c h' where r: "ipc_port_check_circularity try limbo port pdrequest = Some (c, h')"
    "c \<longleftrightarrow> (pdrequest, port) \<in> (transit limbo)\<^sup>*" "c \<Longrightarrow> h' = limbo"
    "\<not> c \<Longrightarrow> transit h' = insert (port, pdrequest) (transit limbo)"
    using circular_spec [OF acyc l assms(4), of "try"] by auto
  have d: "ipc_port_destroy its try port h = Some (if c
      then port_death its port (ipc_port_release_sonce pdrequest limbo)
      else call (Notify_Port_Destroyed pdrequest port) h')"
    using r(1,3) assms(3,4) by (auto simp: ipc_port_destroy_def Let_def assms(6) [symmetric])
  show ?thesis
  proof (cases c)
    case True
    let ?h = "ipc_port_release_sonce pdrequest limbo"
    have same: "ip_dnrequests (ports ?h q) = ip_dnrequests (ports h q)" "in_transit ?h q \<longleftrightarrow> in_transit limbo q"
      "ip_data (ports ?h q) = ip_data (ports limbo q)" for q
      by (auto simp: ipc_port_release_sonce_def Let_def ip_release_def ip_check_unlock_def in_transit_def
          ip_active_def assms(6))
    have inv: "dn_inv its ?h port ns" using assms(5) by (simp add: dn_inv_def same)
    note dead = port_death_spec(1) [OF inv]
    have "\<not> ip_active (ports (port_death its port ?h) port)"
      by (simp add: dead ip_active_def active_cleared)
    moreover have "transit (port_death its port ?h) \<subseteq> transit limbo"
      using same by (auto simp: transit_def in_transit_def dead ip_active_def active_cleared split: if_splits)
    ultimately show ?thesis using d True r(2) acyc acyclic_subset by auto
  next
    case False
    have t: "transit (call (Notify_Port_Destroyed pdrequest port) h') = transit h'"
      by (simp add: transit_def in_transit_def)
    have "acyclic (transit h')" using r(2,4) False acyc by (simp add: acyclic_insert)
    moreover have "ip_active (ports h' port)" using r(4) False by (auto simp: transit_def in_transit_def)
    ultimately show ?thesis using d False r(2,4) t by auto
  qed
qed

text \<open>Port 128 is in transit to port 64.  Port 64 may go to port 192 but not to port 128.\<close>

definition backup_heap :: "addr \<Rightarrow> ipc_heap" where
  "backup_heap pdrequest = set_port 64 (\<lambda>p. p\<lparr>ip_receiver_name := 0x103, ip_pdrequest := pdrequest\<rparr>) transit_heap"

theorem port_destroyed_request_witness:
  "(\<exists>h'. ipc_port_destroy [3, 6, 0] True 64 (backup_heap 192) = Some h' \<and> ip_active (ports h' 64) \<and>
      (64, 192) \<in> transit h') \<and>
   (\<exists>h'. ipc_port_destroy [3, 6, 0] False 64 (backup_heap 128) = Some h' \<and> \<not> ip_active (ports h' 64))"
proof -
  let ?limbo = "\<lambda>p. set_port 64 (\<lambda>p. p\<lparr>ip_pdrequest := IP_NULL, ip_receiver_name := MACH_PORT_NULL,
                                     ip_data := IP_NULL\<rparr>) (backup_heap p)"
  note defs = in_transit_def backup_heap_def transit_heap_def heap0_def zero_port_def IP_NULL_def MACH_PORT_NULL_def
        ip_active_def io_active_def IO_BITS_ACTIVE_def
  have "in_transit (backup_heap p) q \<longleftrightarrow> q = 128" "in_transit (?limbo p) q \<longleftrightarrow> q = 128" for p q
    by (auto simp: defs)
  then have t: "transit (backup_heap p) = {(128, 64)}" "transit (?limbo p) = {(128, 64)}" for p
    by (auto simp: transit_def) (simp_all add: defs)
  have acyc: "acyclic (transit (backup_heap p))" for p
    by (simp add: t acyclic_def trancl_insert)
  have l: "ip_active (ports (backup_heap p) 64)" "ip_pdrequest (ports (backup_heap p) 64) = p"
    "dn_inv [3, 6, 0] (backup_heap p) 64 []" for p
    by (simp_all add: defs dn_inv_def)
  have star: "(128, 64) \<in> (transit (?limbo 128))\<^sup>*" "(192, 64) \<notin> (transit (?limbo 192))\<^sup>*"
    by (auto simp: t elim: converse_rtranclE)
  show ?thesis
    using port_destroyed_request [OF acyc l(1,2) _ l(3) refl, of 192 True]
      port_destroyed_request [OF acyc l(1,2) _ l(3) refl, of 128 False] star
    by (auto simp: IP_NULL_def)
qed

end
