(* ===== verification/Ipc_Right.thy ===== *)
theory Ipc_Right
  imports Ipc_Port "HOL-Library.Monad_Syntax"
begin

section \<open>Rights\<close>

text \<open>
  \<open>ipc/ipc_right.c\<close>: the operations on one capability of a space.  They work on the space, the global
  reverse hash table and the heap of ports.  A critical section is one step.  The value \<open>None\<close> is a
  \<open>panic\<close>, or a loop without end (a hash probe, a walk along a cycle of ports in transit); the lemmas
  show when it does not occur.
\<close>

record ipc_state =
  st_space :: ipc_space
  st_hash :: ipc_hash_global
  st_heap :: ipc_heap

text \<open>
  The environment: what growing tables depends on, the first try of a lock in
  \<open>ipc_port_check_circularity\<close>, the bound for the loops that wait for memory, what \<open>io_alloc\<close>
  returns (\<open>IP_NULL\<close> when there is no memory), what other threads do while the caller waits without
  locks, whether \<open>vm_allocate\<close> finds so many bytes, and the page size.
\<close>

record ipc_env =
  env_entry :: entry_env
  env_port :: port_env
  env_try :: bool
  env_fuel :: nat
  env_object :: addr
  env_running :: "ipc_state \<Rightarrow> ipc_state"
  env_vm :: "natural_t \<Rightarrow> bool"
  env_page :: natural_t

definition st_entry :: "ipc_state \<Rightarrow> ipc_entry_ptr \<Rightarrow> ipc_entry" where
  "st_entry s entry = entry_at (st_space s) entry"

definition st_port :: "ipc_state \<Rightarrow> addr \<Rightarrow> ipc_port" where
  "st_port s port = ports (st_heap s) port"

definition set_entry :: "ipc_entry_ptr \<Rightarrow> (ipc_entry \<Rightarrow> ipc_entry) \<Rightarrow> ipc_state \<Rightarrow> ipc_state" where
  "set_entry entry f s = s\<lparr>st_space := store_entry (st_space s) entry (f (st_entry s entry))\<rparr>"

definition on_heap :: "(ipc_heap \<Rightarrow> ipc_heap) \<Rightarrow> ipc_state \<Rightarrow> ipc_state" where
  "on_heap f s = s\<lparr>st_heap := f (st_heap s)\<rparr>"

definition on_port :: "addr \<Rightarrow> (ipc_port \<Rightarrow> ipc_port) \<Rightarrow> ipc_state \<Rightarrow> ipc_state" where
  "on_port port f = on_heap (set_port port f)"

definition heap_step :: "(ipc_heap \<Rightarrow> ipc_heap option) \<Rightarrow> ipc_state \<Rightarrow> ipc_state option" where
  "heap_step f s = map_option (\<lambda>h. s\<lparr>st_heap := h\<rparr>) (f (st_heap s))"

text \<open>The operations of other components on this state.\<close>

definition entry_lookup :: "ipc_state \<Rightarrow> mach_port_t \<Rightarrow> ipc_entry_ptr option \<times> ipc_state" where
  "entry_lookup s name =
     (case ipc_entry_lookup (st_space s) name of (entry, space) \<Rightarrow> (entry, s\<lparr>st_space := space\<rparr>))"

definition entry_dealloc :: "ipc_env \<Rightarrow> mach_port_t \<Rightarrow> ipc_entry_ptr \<Rightarrow> ipc_state \<Rightarrow> ipc_state option" where
  "entry_dealloc env name entry s =
     map_option (\<lambda>(space, g). s\<lparr>st_space := space, st_hash := g\<rparr>)
       (ipc_entry_dealloc (env_entry env) (st_space s, st_hash s) name entry)"

definition hash_insert :: "addr \<Rightarrow> mach_port_t \<Rightarrow> ipc_entry_ptr \<Rightarrow> ipc_state \<Rightarrow> ipc_state option" where
  "hash_insert port name entry s =
     map_option (\<lambda>(space, g). s\<lparr>st_space := space, st_hash := g\<rparr>)
       (ipc_hash_insert (st_hash s) (st_space s) port name entry)"

definition hash_delete :: "addr \<Rightarrow> mach_port_t \<Rightarrow> ipc_entry_ptr \<Rightarrow> ipc_state \<Rightarrow> ipc_state option" where
  "hash_delete port name entry s =
     map_option (\<lambda>(space, g). s\<lparr>st_space := space, st_hash := g\<rparr>)
       (ipc_hash_delete (st_hash s) (st_space s) port name entry)"

subsection \<open>Looking up\<close>

definition ipc_right_lookup_write ::
  "ipc_state \<Rightarrow> mach_port_t \<Rightarrow> (kern_return_t + ipc_entry_ptr) \<times> ipc_state" where
  "ipc_right_lookup_write s name =
     (if \<not> is_active (st_space s) then (Inl KERN_INVALID_TASK, s)
      else case entry_lookup s name of
             (None, s) \<Rightarrow> (Inl KERN_INVALID_NAME, s)
           | (Some entry, s) \<Rightarrow> (Inr entry, s))"

definition ipc_right_reverse ::
  "ipc_state \<Rightarrow> addr \<Rightarrow> ((mach_port_t \<times> ipc_entry_ptr) option \<times> ipc_state) option" where
  "ipc_right_reverse s port =
     (if \<not> ip_active (st_port s port) then Some (None, s)
      else if ip_receiver (st_port s port) = is_self (st_space s) then
        let name = ip_receiver_name (st_port s port); (entry, s) = entry_lookup s name
        in Some (Some (name, the entry), s)
      else map_option (\<lambda>(res, g). (res, s\<lparr>st_hash := g\<rparr>))
             (ipc_hash_lookup (st_hash s) (st_space s) port))"

subsection \<open>Dead-name requests of a right\<close>

definition ipc_right_dncancel ::
  "addr \<Rightarrow> mach_port_t \<Rightarrow> ipc_entry_ptr \<Rightarrow> ipc_state \<Rightarrow> addr \<times> ipc_state" where
  "ipc_right_dncancel port name entry s =
     (let (dnrequest, h) = ipc_port_dncancel (st_heap s) port name (ie_request (st_entry s entry))
      in (dnrequest, set_entry entry (\<lambda>e. e\<lparr>ie_request := 0\<rparr>) (s\<lparr>st_heap := h\<rparr>)))"

definition ipc_right_dncancel_macro ::
  "addr \<Rightarrow> mach_port_t \<Rightarrow> ipc_entry_ptr \<Rightarrow> ipc_state \<Rightarrow> addr \<times> ipc_state" where
  "ipc_right_dncancel_macro port name entry s =
     (if ie_request (st_entry s entry) = 0 then (IP_NULL, s) else ipc_right_dncancel port name entry s)"

definition ipc_right_inuse :: "ipc_state \<Rightarrow> ipc_entry_ptr \<Rightarrow> bool" where
  "ipc_right_inuse s entry \<longleftrightarrow> IE_BITS_TYPE (ie_bits (st_entry s entry)) \<noteq> MACH_PORT_TYPE_NONE"

text \<open>An entry whose port has died becomes a dead name; a pending request becomes one more user reference.\<close>

definition ipc_right_check ::
  "addr \<Rightarrow> mach_port_t \<Rightarrow> ipc_entry_ptr \<Rightarrow> ipc_state \<Rightarrow> (bool \<times> ipc_state) option" where
  "ipc_right_check port name entry s =
     (if ip_active (st_port s port) then Some (False, s)
      else do {
        let bits = ie_bits (st_entry s entry);
        s \<leftarrow> (if bits AND MACH_PORT_TYPE_SEND \<noteq> 0 then hash_delete port name entry s else Some s);
        let s = on_heap (ipc_port_release port) s;
        let bits = (bits AND NOT IE_BITS_TYPE_MASK) OR MACH_PORT_TYPE_DEAD_NAME;
        let bits = (if ie_request (st_entry s entry) \<noteq> 0 then bits + 1 else bits);
        Some (True, set_entry entry (\<lambda>e. e\<lparr>ie_bits := bits, ie_object := NULL, ie_request := 0\<rparr>) s)
      })"

text \<open>One turn of the loop of \<open>ipc_right_dnrequest\<close>: a result, or the port whose table is to grow.\<close>

datatype dnrequest_step =
    Dn_Done "kern_return_t + addr" ipc_state
  | Dn_Grow addr ipc_state

definition dnrequest_dead :: "mach_port_t \<Rightarrow> bool \<Rightarrow> addr \<Rightarrow> ipc_entry_ptr \<Rightarrow> ipc_state \<Rightarrow> dnrequest_step" where
  "dnrequest_dead name immediate notify entry s =
     (let bits = ie_bits (st_entry s entry) in
      if bits AND MACH_PORT_TYPE_DEAD_NAME \<noteq> 0 \<and> immediate \<and> notify \<noteq> IP_NULL then
        if MACH_PORT_UREFS_OVERFLOW (IE_BITS_UREFS bits) 1 then Dn_Done (Inl KERN_UREFS_OVERFLOW) s
        else Dn_Done (Inr IP_NULL)
               (on_heap (call (Notify_Dead_Name notify name)) (set_entry entry (\<lambda>e. e\<lparr>ie_bits := bits + 1\<rparr>) s))
      else if bits AND MACH_PORT_TYPE_PORT_OR_DEAD \<noteq> 0 then Dn_Done (Inl KERN_INVALID_ARGUMENT) s
      else Dn_Done (Inl KERN_INVALID_RIGHT) s)"

definition dnrequest_once :: "ipc_state \<Rightarrow> mach_port_t \<Rightarrow> bool \<Rightarrow> addr \<Rightarrow> dnrequest_step option" where
  "dnrequest_once s name immediate notify =
     (case ipc_right_lookup_write s name of
        (Inl kr, s) \<Rightarrow> Some (Dn_Done (Inl kr) s)
      | (Inr entry, s) \<Rightarrow>
          let bits = ie_bits (st_entry s entry); port = ie_object (st_entry s entry) in
          if bits AND MACH_PORT_TYPE_PORT_RIGHTS \<noteq> 0 then
            do {
              (died, s) \<leftarrow> ipc_right_check port name entry s;
              Some (if died then dnrequest_dead name immediate notify entry s
                    else
                      let (previous, s) = ipc_right_dncancel_macro port name entry s in
                      if notify = IP_NULL then Dn_Done (Inr previous) s
                      else case ipc_port_dnrequest (st_heap s) port name notify of
                             (None, h) \<Rightarrow> Dn_Grow port (s\<lparr>st_heap := h\<rparr>)
                           | (Some request, h) \<Rightarrow>
                               Dn_Done (Inr previous)
                                 (set_entry entry (\<lambda>e. e\<lparr>ie_request := request\<rparr>) (s\<lparr>st_heap := h\<rparr>)))
            }
          else Some (dnrequest_dead name immediate notify entry s))"

fun dnrequest_loop ::
  "nat \<Rightarrow> ipc_env \<Rightarrow> ipc_state \<Rightarrow> mach_port_t \<Rightarrow> bool \<Rightarrow> addr \<Rightarrow> ((kern_return_t + addr) \<times> ipc_state) option" where
  "dnrequest_loop 0 env s name immediate notify = None"
| "dnrequest_loop (Suc fuel) env s name immediate notify =
     (case dnrequest_once s name immediate notify of
        None \<Rightarrow> None
      | Some (Dn_Done res s) \<Rightarrow> Some (res, s)
      | Some (Dn_Grow port s) \<Rightarrow>
          (case ipc_port_dngrow (env_port env) (st_heap s) port ITS_SIZE_NONE of
             (kr, h) \<Rightarrow>
               if kr \<noteq> KERN_SUCCESS then Some (Inl kr, s\<lparr>st_heap := h\<rparr>)
               else dnrequest_loop fuel env (s\<lparr>st_heap := h\<rparr>) name immediate notify))"

text \<open>On success the result is the previous request.\<close>

definition ipc_right_dnrequest ::
  "ipc_env \<Rightarrow> ipc_state \<Rightarrow> mach_port_t \<Rightarrow> bool \<Rightarrow> addr \<Rightarrow> ((kern_return_t + addr) \<times> ipc_state) option" where
  "ipc_right_dnrequest env s name immediate notify =
     dnrequest_loop (env_fuel env) env s name immediate notify"

subsection \<open>Giving up rights\<close>

text \<open>
  The statements the cases share: one send right less, with the no-senders request to answer when it was
  the last one; and the notifications at the end.
\<close>

definition drop_send :: "addr \<Rightarrow> ipc_heap \<Rightarrow> (addr \<times> mach_port_mscount_t) \<times> ipc_heap" where
  "drop_send port h =
     (let h = set_port port (\<lambda>p. p\<lparr>ip_srights := ip_srights p - 1\<rparr>) h;
          nsrequest = ip_nsrequest (ports h port)
      in if ip_srights (ports h port) = 0 \<and> nsrequest \<noteq> IP_NULL
         then ((nsrequest, ip_mscount (ports h port)), set_port port (\<lambda>p. p\<lparr>ip_nsrequest := IP_NULL\<rparr>) h)
         else ((IP_NULL, 0), h))"

definition drop_send_st :: "addr \<Rightarrow> ipc_state \<Rightarrow> (addr \<times> mach_port_mscount_t) \<times> ipc_state" where
  "drop_send_st port s = (case drop_send port (st_heap s) of (ns, h) \<Rightarrow> (ns, s\<lparr>st_heap := h\<rparr>))"

definition notify_dropped :: "addr \<times> mach_port_mscount_t \<Rightarrow> addr \<Rightarrow> mach_port_t \<Rightarrow> ipc_heap \<Rightarrow> ipc_heap" where
  "notify_dropped ns dnrequest name h =
     (let h = (if fst ns \<noteq> IP_NULL then call (Notify_No_Senders (fst ns) (snd ns)) h else h)
      in if dnrequest \<noteq> IP_NULL then call (Notify_Port_Deleted dnrequest name) h else h)"

definition receive_death :: "ipc_env \<Rightarrow> addr \<Rightarrow> ipc_heap \<Rightarrow> ipc_heap option" where
  "receive_death env port h =
     ipc_port_destroy (env_dnits (env_port env)) (env_try env) port (ipc_port_clear_receiver port h)"

text \<open>What \<open>ipc_right_clean\<close> and \<open>ipc_right_destroy\<close> do with a live port after its entry is gone.\<close>

definition give_up :: "ipc_env \<Rightarrow> mach_port_type_t \<Rightarrow> addr \<Rightarrow> addr \<Rightarrow> mach_port_t \<Rightarrow> ipc_heap \<Rightarrow> ipc_heap option" where
  "give_up env type port dnrequest name h =
     do {
       let (ns, h) = (if type AND MACH_PORT_TYPE_SEND \<noteq> 0 then drop_send port h else ((IP_NULL, 0), h));
       h \<leftarrow> (if type AND MACH_PORT_TYPE_RECEIVE \<noteq> 0 then receive_death env port h
            else if type AND MACH_PORT_TYPE_SEND_ONCE \<noteq> 0 then Some (call (Notify_Send_Once port) h)
            else Some (ip_release port h));
       Some (notify_dropped ns dnrequest name h)
     }"

definition port_type :: "mach_port_type_t \<Rightarrow> bool" where
  "port_type type \<longleftrightarrow> type = MACH_PORT_TYPE_SEND \<or> type = MACH_PORT_TYPE_RECEIVE \<or>
     type = MACH_PORT_TYPE_SEND_RECEIVE \<or> type = MACH_PORT_TYPE_SEND_ONCE"

text \<open>
  The space of a right that is cleaned is dead: only the entry itself and the heap change, and the entry
  may be one of a table or a tree that is being taken down.
\<close>

definition clean_entry :: "ipc_env \<Rightarrow> mach_port_t \<Rightarrow> ipc_entry \<Rightarrow> ipc_heap \<Rightarrow> (ipc_entry \<times> ipc_heap) option" where
  "clean_entry env name entry h =
     (let type = IE_BITS_TYPE (ie_bits entry); obj = ie_object entry in
      if type = MACH_PORT_TYPE_DEAD_NAME then Some (entry, h)
      else if type = MACH_PORT_TYPE_PORT_SET then Some (entry, ipc_pset_destroy obj h)
      else if port_type type then
        if \<not> ip_active (ports h obj) then Some (entry, ip_check_unlock obj (ip_release obj h))
        else if ie_request entry = 0 then map_option (Pair entry) (give_up env type obj IP_NULL name h)
        else
          let (dnrequest, h) = ipc_port_dncancel h obj name (ie_request entry)
          in map_option (Pair (entry\<lparr>ie_request := 0\<rparr>)) (give_up env type obj dnrequest name h)
      else None)"

definition ipc_right_clean :: "ipc_env \<Rightarrow> ipc_state \<Rightarrow> mach_port_t \<Rightarrow> ipc_entry_ptr \<Rightarrow> ipc_state option" where
  "ipc_right_clean env s name entry =
     map_option (\<lambda>(e, h). set_entry entry (\<lambda>_. e) (s\<lparr>st_heap := h\<rparr>))
       (clean_entry env name (st_entry s entry) (st_heap s))"

definition ipc_right_destroy :: "ipc_env \<Rightarrow> ipc_state \<Rightarrow> mach_port_t \<Rightarrow> ipc_entry_ptr \<Rightarrow> ipc_state option" where
  "ipc_right_destroy env s name entry =
     (let type = IE_BITS_TYPE (ie_bits (st_entry s entry)); obj = ie_object (st_entry s entry) in
      if type = MACH_PORT_TYPE_DEAD_NAME then entry_dealloc env name entry s
      else if type = MACH_PORT_TYPE_PORT_SET then
        do {
          s \<leftarrow> entry_dealloc env name entry (set_entry entry (\<lambda>e. e\<lparr>ie_object := NULL\<rparr>) s);
          Some (on_heap (ipc_pset_destroy obj) s)
        }
      else if port_type type then
        do {
          s \<leftarrow> (if type = MACH_PORT_TYPE_SEND then hash_delete obj name entry s else Some s);
          if \<not> ip_active (st_port s obj)
          then entry_dealloc env name entry
                 (set_entry entry (\<lambda>e. e\<lparr>ie_request := 0, ie_object := NULL\<rparr>)
                   (on_heap (ip_check_unlock obj \<circ> ip_release obj) s))
          else do {
            let (dnrequest, s) = ipc_right_dncancel_macro obj name entry s;
            s \<leftarrow> entry_dealloc env name entry (set_entry entry (\<lambda>e. e\<lparr>ie_object := NULL\<rparr>) s);
            let subsystem = ip_subsystem (st_port s obj);
            let s = (if type AND MACH_PORT_TYPE_RECEIVE \<noteq> 0 \<and> subsystem \<noteq> NULL
                     then on_heap (call (Subsystem_Deallocate subsystem)) s else s);
            heap_step (give_up env type obj dnrequest name) s
          }
        }
      else None)"

subsection \<open>User references\<close>

definition dealloc_dead_name :: "ipc_env \<Rightarrow> mach_port_t \<Rightarrow> ipc_entry_ptr \<Rightarrow> ipc_state \<Rightarrow> ipc_state option" where
  "dealloc_dead_name env name entry s =
     (let bits = ie_bits (st_entry s entry) in
      if IE_BITS_UREFS bits = 1 then entry_dealloc env name entry s
      else Some (set_entry entry (\<lambda>e. e\<lparr>ie_bits := bits - 1\<rparr>) s))"

definition dealloc_send_once :: "ipc_env \<Rightarrow> mach_port_t \<Rightarrow> ipc_entry_ptr \<Rightarrow> addr \<Rightarrow> ipc_state \<Rightarrow> ipc_state option" where
  "dealloc_send_once env name entry port s =
     do {
       let (dnrequest, s) = ipc_right_dncancel_macro port name entry s;
       s \<leftarrow> entry_dealloc env name entry (set_entry entry (\<lambda>e. e\<lparr>ie_object := NULL\<rparr>) s);
       Some (on_heap (notify_dropped (IP_NULL, 0) dnrequest name \<circ> call (Notify_Send_Once port)) s)
     }"

text \<open>The last user reference of a send right that is alone in its entry: cancel, unhash, release.\<close>

definition remove_send :: "ipc_env \<Rightarrow> mach_port_t \<Rightarrow> ipc_entry_ptr \<Rightarrow> addr \<Rightarrow> ipc_state \<Rightarrow> (addr \<times> ipc_state) option" where
  "remove_send env name entry port s =
     do {
       let (dnrequest, s) = ipc_right_dncancel_macro port name entry s;
       s \<leftarrow> hash_delete port name entry s;
       let s = on_heap (ip_release port) s;
       s \<leftarrow> entry_dealloc env name entry (set_entry entry (\<lambda>e. e\<lparr>ie_object := NULL\<rparr>) s);
       Some (dnrequest, s)
     }"

definition ipc_right_dealloc ::
  "ipc_env \<Rightarrow> ipc_state \<Rightarrow> mach_port_t \<Rightarrow> ipc_entry_ptr \<Rightarrow> (kern_return_t \<times> ipc_state) option" where
  "ipc_right_dealloc env s name entry =
     (let bits = ie_bits (st_entry s entry); type = IE_BITS_TYPE bits; port = ie_object (st_entry s entry);
          done = map_option (Pair KERN_SUCCESS)
      in if type = MACH_PORT_TYPE_DEAD_NAME then done (dealloc_dead_name env name entry s)
      else if type = MACH_PORT_TYPE_SEND_ONCE then
        do {
          (died, s) \<leftarrow> ipc_right_check port name entry s;
          done (if died then dealloc_dead_name env name entry s else dealloc_send_once env name entry port s)
        }
      else if type = MACH_PORT_TYPE_SEND then
        do {
          (died, s) \<leftarrow> ipc_right_check port name entry s;
          if died then done (dealloc_dead_name env name entry s)
          else if IE_BITS_UREFS bits = 1 then do {
            let (ns, s) = drop_send_st port s;
            (dnrequest, s) \<leftarrow> remove_send env name entry port s;
            Some (KERN_SUCCESS, on_heap (notify_dropped ns dnrequest name) s)
          }
          else Some (KERN_SUCCESS, set_entry entry (\<lambda>e. e\<lparr>ie_bits := bits - 1\<rparr>) s)
        }
      else if type = MACH_PORT_TYPE_SEND_RECEIVE then
        Some (KERN_SUCCESS,
          if IE_BITS_UREFS bits = 1 then
            let (ns, s) = drop_send_st port s;
                s = set_entry entry (\<lambda>e. e\<lparr>ie_bits := bits AND NOT (IE_BITS_UREFS_MASK OR MACH_PORT_TYPE_SEND)\<rparr>) s
            in on_heap (notify_dropped ns IP_NULL name) s
          else set_entry entry (\<lambda>e. e\<lparr>ie_bits := bits - 1\<rparr>) s)
      else Some (KERN_INVALID_RIGHT, s))"

text \<open>The cases of \<open>ipc_right_delta\<close>.\<close>

definition delta_port_set ::
  "ipc_env \<Rightarrow> ipc_state \<Rightarrow> mach_port_t \<Rightarrow> ipc_entry_ptr \<Rightarrow> mach_port_delta_t \<Rightarrow> (kern_return_t \<times> ipc_state) option" where
  "delta_port_set env s name entry delta =
     (let bits = ie_bits (st_entry s entry); pset = ie_object (st_entry s entry) in
      if bits AND MACH_PORT_TYPE_PORT_SET = 0 then Some (KERN_INVALID_RIGHT, s)
      else if delta = 0 then Some (KERN_SUCCESS, s)
      else if delta \<noteq> - 1 then Some (KERN_INVALID_VALUE, s)
      else do {
        s \<leftarrow> entry_dealloc env name entry (set_entry entry (\<lambda>e. e\<lparr>ie_object := NULL\<rparr>) s);
        Some (KERN_SUCCESS, on_heap (ipc_pset_destroy pset) s)
      })"

definition delta_receive ::
  "ipc_env \<Rightarrow> ipc_state \<Rightarrow> mach_port_t \<Rightarrow> ipc_entry_ptr \<Rightarrow> mach_port_delta_t \<Rightarrow> (kern_return_t \<times> ipc_state) option" where
  "delta_receive env s name entry delta =
     (let bits = ie_bits (st_entry s entry); port = ie_object (st_entry s entry) in
      if bits AND MACH_PORT_TYPE_RECEIVE = 0 then Some (KERN_INVALID_RIGHT, s)
      else if delta = 0 then Some (KERN_SUCCESS, s)
      else if delta \<noteq> - 1 then Some (KERN_INVALID_VALUE, s)
      else do {
        (dnrequest, s) \<leftarrow>
          (if bits AND MACH_PORT_TYPE_SEND \<noteq> 0 then
             let bits = (bits AND NOT IE_BITS_TYPE_MASK) OR MACH_PORT_TYPE_DEAD_NAME;
                 bits = (if ie_request (st_entry s entry) \<noteq> 0 then bits + 1 else bits)
             in Some (IP_NULL, set_entry entry (\<lambda>e. e\<lparr>ie_bits := bits, ie_object := NULL, ie_request := 0\<rparr>) s)
           else
             let (dnrequest, s) = ipc_right_dncancel_macro port name entry s
             in map_option (Pair dnrequest)
                  (entry_dealloc env name entry (set_entry entry (\<lambda>e. e\<lparr>ie_object := NULL\<rparr>) s)));
        s \<leftarrow> heap_step (receive_death env port) s;
        Some (KERN_SUCCESS, on_heap (notify_dropped (IP_NULL, 0) dnrequest name) s)
      })"

definition delta_send_once ::
  "ipc_env \<Rightarrow> ipc_state \<Rightarrow> mach_port_t \<Rightarrow> ipc_entry_ptr \<Rightarrow> mach_port_delta_t \<Rightarrow> (kern_return_t \<times> ipc_state) option" where
  "delta_send_once env s name entry delta =
     (let bits = ie_bits (st_entry s entry); port = ie_object (st_entry s entry) in
      if bits AND MACH_PORT_TYPE_SEND_ONCE = 0 then Some (KERN_INVALID_RIGHT, s)
      else do {
        (died, s) \<leftarrow> ipc_right_check port name entry s;
        if died then Some (KERN_INVALID_RIGHT, s)
        else if sint delta > 0 \<or> sint delta < - 1 then Some (KERN_INVALID_VALUE, s)
        else if delta = 0 then Some (KERN_SUCCESS, s)
        else map_option (Pair KERN_SUCCESS) (dealloc_send_once env name entry port s)
      })"

definition delta_dead_name ::
  "ipc_env \<Rightarrow> ipc_state \<Rightarrow> mach_port_t \<Rightarrow> ipc_entry_ptr \<Rightarrow> mach_port_delta_t \<Rightarrow> (kern_return_t \<times> ipc_state) option" where
  "delta_dead_name env s name entry delta =
     (let bits = ie_bits (st_entry s entry); port = ie_object (st_entry s entry) in
      do {
        (dead, s) \<leftarrow>
          (if bits AND MACH_PORT_TYPE_SEND_RIGHTS \<noteq> 0 then ipc_right_check port name entry s
           else Some (bits AND MACH_PORT_TYPE_DEAD_NAME \<noteq> 0, s));
        let bits = ie_bits (st_entry s entry);
        let urefs = IE_BITS_UREFS bits;
        if \<not> dead then Some (KERN_INVALID_RIGHT, s)
        else if MACH_PORT_UREFS_UNDERFLOW urefs delta then Some (KERN_INVALID_VALUE, s)
        else if MACH_PORT_UREFS_OVERFLOW urefs delta then Some (KERN_UREFS_OVERFLOW, s)
        else if urefs + delta = 0 then map_option (Pair KERN_SUCCESS) (entry_dealloc env name entry s)
        else Some (KERN_SUCCESS, set_entry entry (\<lambda>e. e\<lparr>ie_bits := bits + delta\<rparr>) s)
      })"

definition delta_send ::
  "ipc_env \<Rightarrow> ipc_state \<Rightarrow> mach_port_t \<Rightarrow> ipc_entry_ptr \<Rightarrow> mach_port_delta_t \<Rightarrow> (kern_return_t \<times> ipc_state) option" where
  "delta_send env s name entry delta =
     (let bits = ie_bits (st_entry s entry); port = ie_object (st_entry s entry); urefs = IE_BITS_UREFS bits in
      if bits AND MACH_PORT_TYPE_SEND = 0 then Some (KERN_INVALID_RIGHT, s)
      else do {
        (died, s) \<leftarrow> ipc_right_check port name entry s;
        if died then Some (KERN_INVALID_RIGHT, s)
        else if MACH_PORT_UREFS_UNDERFLOW urefs delta then Some (KERN_INVALID_VALUE, s)
        else if MACH_PORT_UREFS_OVERFLOW (urefs + 1) delta then Some (KERN_UREFS_OVERFLOW, s)
        else if urefs + delta = 0 then do {
          let (ns, s) = drop_send_st port s;
          (dnrequest, s) \<leftarrow>
            (if bits AND MACH_PORT_TYPE_RECEIVE \<noteq> 0
             then Some (IP_NULL, set_entry entry (\<lambda>e. e\<lparr>ie_bits :=
                    bits AND NOT (IE_BITS_UREFS_MASK OR MACH_PORT_TYPE_SEND)\<rparr>) s)
             else remove_send env name entry port s);
          Some (KERN_SUCCESS, on_heap (notify_dropped ns dnrequest name) s)
        }
        else Some (KERN_SUCCESS, set_entry entry (\<lambda>e. e\<lparr>ie_bits := bits + delta\<rparr>) s)
      })"

definition ipc_right_delta ::
  "ipc_env \<Rightarrow> ipc_state \<Rightarrow> mach_port_t \<Rightarrow> ipc_entry_ptr \<Rightarrow> mach_port_right_t \<Rightarrow> mach_port_delta_t \<Rightarrow>
   (kern_return_t \<times> ipc_state) option" where
  "ipc_right_delta env s name entry right delta =
     (if right = MACH_PORT_RIGHT_PORT_SET then delta_port_set env s name entry delta
      else if right = MACH_PORT_RIGHT_RECEIVE then delta_receive env s name entry delta
      else if right = MACH_PORT_RIGHT_SEND_ONCE then delta_send_once env s name entry delta
      else if right = MACH_PORT_RIGHT_DEAD_NAME then delta_dead_name env s name entry delta
      else if right = MACH_PORT_RIGHT_SEND then delta_send env s name entry delta
      else None)"

definition ipc_right_info ::
  "ipc_state \<Rightarrow> mach_port_t \<Rightarrow> ipc_entry_ptr \<Rightarrow> ((mach_port_type_t \<times> mach_port_urefs_t) \<times> ipc_state) option" where
  "ipc_right_info s name entry =
     do {
       (_, s) \<leftarrow> (if ie_bits (st_entry s entry) AND MACH_PORT_TYPE_SEND_RIGHTS \<noteq> 0
                   then ipc_right_check (ie_object (st_entry s entry)) name entry s else Some (False, s));
       let bits = ie_bits (st_entry s entry);
       let type = IE_BITS_TYPE bits;
       let type = (if ie_request (st_entry s entry) \<noteq> 0 then type OR MACH_PORT_TYPE_DNREQUEST else type);
       Some ((type, IE_BITS_UREFS bits), s)
     }"

subsection \<open>Moving rights out of a space\<close>

type_synonym mach_msg_type_name_t = natural_t

definition MACH_MSG_TYPE_MOVE_RECEIVE :: mach_msg_type_name_t where
  "MACH_MSG_TYPE_MOVE_RECEIVE = 16"
definition MACH_MSG_TYPE_MOVE_SEND :: mach_msg_type_name_t where
  "MACH_MSG_TYPE_MOVE_SEND = 17"
definition MACH_MSG_TYPE_MOVE_SEND_ONCE :: mach_msg_type_name_t where
  "MACH_MSG_TYPE_MOVE_SEND_ONCE = 18"
definition MACH_MSG_TYPE_COPY_SEND :: mach_msg_type_name_t where
  "MACH_MSG_TYPE_COPY_SEND = 19"
definition MACH_MSG_TYPE_MAKE_SEND :: mach_msg_type_name_t where
  "MACH_MSG_TYPE_MAKE_SEND = 20"
definition MACH_MSG_TYPE_MAKE_SEND_ONCE :: mach_msg_type_name_t where
  "MACH_MSG_TYPE_MAKE_SEND_ONCE = 21"
definition MACH_MSG_TYPE_PORT_RECEIVE :: mach_msg_type_name_t where
  "MACH_MSG_TYPE_PORT_RECEIVE = MACH_MSG_TYPE_MOVE_RECEIVE"
definition MACH_MSG_TYPE_PORT_SEND :: mach_msg_type_name_t where
  "MACH_MSG_TYPE_PORT_SEND = MACH_MSG_TYPE_MOVE_SEND"
definition MACH_MSG_TYPE_PORT_SEND_ONCE :: mach_msg_type_name_t where
  "MACH_MSG_TYPE_PORT_SEND_ONCE = MACH_MSG_TYPE_MOVE_SEND_ONCE"

lemmas msg_types = MACH_MSG_TYPE_MOVE_RECEIVE_def MACH_MSG_TYPE_MOVE_SEND_def MACH_MSG_TYPE_MOVE_SEND_ONCE_def
  MACH_MSG_TYPE_COPY_SEND_def MACH_MSG_TYPE_MAKE_SEND_def MACH_MSG_TYPE_MAKE_SEND_ONCE_def
  MACH_MSG_TYPE_PORT_RECEIVE_def MACH_MSG_TYPE_PORT_SEND_def MACH_MSG_TYPE_PORT_SEND_ONCE_def

definition ipc_right_copyin_check ::
  "ipc_state \<Rightarrow> ipc_entry_ptr \<Rightarrow> mach_msg_type_name_t \<Rightarrow> bool option" where
  "ipc_right_copyin_check s entry msgt_name =
     (let bits = ie_bits (st_entry s entry); port = ie_object (st_entry s entry) in
      if msgt_name = MACH_MSG_TYPE_MAKE_SEND \<or> msgt_name = MACH_MSG_TYPE_MAKE_SEND_ONCE \<or>
         msgt_name = MACH_MSG_TYPE_MOVE_RECEIVE
      then Some (bits AND MACH_PORT_TYPE_RECEIVE \<noteq> 0)
      else if msgt_name = MACH_MSG_TYPE_COPY_SEND \<or> msgt_name = MACH_MSG_TYPE_MOVE_SEND \<or>
         msgt_name = MACH_MSG_TYPE_MOVE_SEND_ONCE
      then Some
        (if bits AND MACH_PORT_TYPE_DEAD_NAME \<noteq> 0 then True
         else if bits AND MACH_PORT_TYPE_SEND_RIGHTS = 0 then False
         else if \<not> ip_active (st_port s port) then True
         else if msgt_name = MACH_MSG_TYPE_MOVE_SEND_ONCE then bits AND MACH_PORT_TYPE_SEND_ONCE \<noteq> 0
         else bits AND MACH_PORT_TYPE_SEND \<noteq> 0)
      else None)"

text \<open>
  On success the result is the object and the send-once right of a request that came off.  The two labels
  for dead names, then one definition per case.
\<close>

type_synonym copyin_result = "(kern_return_t + addr \<times> addr) \<times> ipc_state"

definition copy_dead :: "bool \<Rightarrow> ipc_state \<Rightarrow> copyin_result" where
  "copy_dead deadok s = (if \<not> deadok then Inl KERN_INVALID_RIGHT else Inr (IP_DEAD, IP_NULL), s)"

definition move_dead :: "bool \<Rightarrow> ipc_entry_ptr \<Rightarrow> ipc_state \<Rightarrow> copyin_result" where
  "move_dead deadok entry s =
     (let bits = ie_bits (st_entry s entry) in
      if \<not> deadok then (Inl KERN_INVALID_RIGHT, s)
      else (Inr (IP_DEAD, IP_NULL),
            set_entry entry (\<lambda>e. e\<lparr>ie_bits := if IE_BITS_UREFS bits = 1
              then bits AND NOT MACH_PORT_TYPE_DEAD_NAME else bits - 1\<rparr>) s))"

definition copyin_move_receive :: "ipc_state \<Rightarrow> mach_port_t \<Rightarrow> ipc_entry_ptr \<Rightarrow> copyin_result option" where
  "copyin_move_receive s name entry =
     (let bits = ie_bits (st_entry s entry); port = ie_object (st_entry s entry) in
      if bits AND MACH_PORT_TYPE_RECEIVE = 0 then Some (Inl KERN_INVALID_RIGHT, s)
      else do {
        (dnrequest, s) \<leftarrow>
          (if bits AND MACH_PORT_TYPE_SEND \<noteq> 0
           then map_option (\<lambda>s. (IP_NULL, on_heap (ip_reference port) s)) (hash_insert port name entry s)
           else
             let (dnrequest, s) = ipc_right_dncancel_macro port name entry s
             in Some (dnrequest, set_entry entry (\<lambda>e. e\<lparr>ie_object := NULL\<rparr>) s));
        let s = set_entry entry (\<lambda>e. e\<lparr>ie_bits := bits AND NOT MACH_PORT_TYPE_RECEIVE\<rparr>) s;
        let s = on_heap (ipc_port_clear_receiver port) s;
        let s = on_port port (\<lambda>p. p\<lparr>ip_receiver_name := MACH_PORT_NULL, ip_data := IP_NULL\<rparr>) s;
        Some (Inr (port, dnrequest), s)
      })"

definition copyin_copy_send ::
  "ipc_state \<Rightarrow> mach_port_t \<Rightarrow> ipc_entry_ptr \<Rightarrow> bool \<Rightarrow> copyin_result option" where
  "copyin_copy_send s name entry deadok =
     (let bits = ie_bits (st_entry s entry); port = ie_object (st_entry s entry) in
      if bits AND MACH_PORT_TYPE_DEAD_NAME \<noteq> 0 then Some (copy_dead deadok s)
      else if bits AND MACH_PORT_TYPE_SEND_RIGHTS = 0 then Some (Inl KERN_INVALID_RIGHT, s)
      else do {
        (died, s) \<leftarrow> ipc_right_check port name entry s;
        Some (if died then copy_dead deadok s
              else if bits AND MACH_PORT_TYPE_SEND = 0 then (Inl KERN_INVALID_RIGHT, s)
              else (Inr (port, IP_NULL),
                    on_heap (ip_reference port) (on_port port (\<lambda>p. p\<lparr>ip_srights := ip_srights p + 1\<rparr>) s)))
      })"

definition copyin_move_send ::
  "ipc_state \<Rightarrow> mach_port_t \<Rightarrow> ipc_entry_ptr \<Rightarrow> bool \<Rightarrow> copyin_result option" where
  "copyin_move_send s name entry deadok =
     (let bits = ie_bits (st_entry s entry); port = ie_object (st_entry s entry) in
      if bits AND MACH_PORT_TYPE_DEAD_NAME \<noteq> 0 then Some (move_dead deadok entry s)
      else if bits AND MACH_PORT_TYPE_SEND_RIGHTS = 0 then Some (Inl KERN_INVALID_RIGHT, s)
      else do {
        (died, s) \<leftarrow> ipc_right_check port name entry s;
        if died then Some (move_dead deadok entry s)
        else if bits AND MACH_PORT_TYPE_SEND = 0 then Some (Inl KERN_INVALID_RIGHT, s)
        else if IE_BITS_UREFS bits = 1 then do {
          (dnrequest, s) \<leftarrow>
            (if bits AND MACH_PORT_TYPE_RECEIVE \<noteq> 0 then Some (IP_NULL, on_heap (ip_reference port) s)
             else do {
               let (dnrequest, s) = ipc_right_dncancel_macro port name entry s;
               s \<leftarrow> hash_delete port name entry s;
               Some (dnrequest, set_entry entry (\<lambda>e. e\<lparr>ie_object := NULL\<rparr>) s)
             });
          Some (Inr (port, dnrequest), set_entry entry
            (\<lambda>e. e\<lparr>ie_bits := bits AND NOT (IE_BITS_UREFS_MASK OR MACH_PORT_TYPE_SEND)\<rparr>) s)
        }
        else Some (Inr (port, IP_NULL), set_entry entry (\<lambda>e. e\<lparr>ie_bits := bits - 1\<rparr>)
          (on_heap (ip_reference port) (on_port port (\<lambda>p. p\<lparr>ip_srights := ip_srights p + 1\<rparr>) s)))
      })"

definition copyin_move_send_once ::
  "ipc_state \<Rightarrow> mach_port_t \<Rightarrow> ipc_entry_ptr \<Rightarrow> bool \<Rightarrow> copyin_result option" where
  "copyin_move_send_once s name entry deadok =
     (let bits = ie_bits (st_entry s entry); port = ie_object (st_entry s entry) in
      if bits AND MACH_PORT_TYPE_DEAD_NAME \<noteq> 0 then Some (move_dead deadok entry s)
      else if bits AND MACH_PORT_TYPE_SEND_RIGHTS = 0 then Some (Inl KERN_INVALID_RIGHT, s)
      else do {
        (died, s) \<leftarrow> ipc_right_check port name entry s;
        Some (if died then move_dead deadok entry s
              else if bits AND MACH_PORT_TYPE_SEND_ONCE = 0 then (Inl KERN_INVALID_RIGHT, s)
              else
                let (dnrequest, s) = ipc_right_dncancel_macro port name entry s
                in (Inr (port, dnrequest), set_entry entry
                     (\<lambda>e. e\<lparr>ie_object := NULL, ie_bits := bits AND NOT MACH_PORT_TYPE_SEND_ONCE\<rparr>) s))
      })"

definition ipc_right_copyin ::
  "ipc_state \<Rightarrow> mach_port_t \<Rightarrow> ipc_entry_ptr \<Rightarrow> mach_msg_type_name_t \<Rightarrow> bool \<Rightarrow> copyin_result option" where
  "ipc_right_copyin s name entry msgt_name deadok =
     (let bits = ie_bits (st_entry s entry); port = ie_object (st_entry s entry) in
      if msgt_name = MACH_MSG_TYPE_MAKE_SEND then
        Some (if bits AND MACH_PORT_TYPE_RECEIVE = 0 then (Inl KERN_INVALID_RIGHT, s)
              else (Inr (port, IP_NULL), on_heap (ip_reference port)
                (on_port port (\<lambda>p. p\<lparr>ip_mscount := ip_mscount p + 1, ip_srights := ip_srights p + 1\<rparr>) s)))
      else if msgt_name = MACH_MSG_TYPE_MAKE_SEND_ONCE then
        Some (if bits AND MACH_PORT_TYPE_RECEIVE = 0 then (Inl KERN_INVALID_RIGHT, s)
              else (Inr (port, IP_NULL), on_heap (ip_reference port)
                (on_port port (\<lambda>p. p\<lparr>ip_sorights := ip_sorights p + 1\<rparr>) s)))
      else if msgt_name = MACH_MSG_TYPE_MOVE_RECEIVE then copyin_move_receive s name entry
      else if msgt_name = MACH_MSG_TYPE_COPY_SEND then copyin_copy_send s name entry deadok
      else if msgt_name = MACH_MSG_TYPE_MOVE_SEND then copyin_move_send s name entry deadok
      else if msgt_name = MACH_MSG_TYPE_MOVE_SEND_ONCE then copyin_move_send_once s name entry deadok
      else None)"

definition ipc_right_copyin_undo ::
  "ipc_state \<Rightarrow> mach_port_t \<Rightarrow> ipc_entry_ptr \<Rightarrow> mach_msg_type_name_t \<Rightarrow> addr \<Rightarrow> addr \<Rightarrow> ipc_state option" where
  "ipc_right_copyin_undo s name entry msgt_name obj soright =
     (let bits = ie_bits (st_entry s entry); put = (\<lambda>b. set_entry entry (\<lambda>e. e\<lparr>ie_bits := b\<rparr>)) in
      do {
        s \<leftarrow>
          (if soright \<noteq> IP_NULL
           then Some (put ((bits AND NOT IE_BITS_RIGHT_MASK) OR MACH_PORT_TYPE_DEAD_NAME OR 2) s)
           else if IE_BITS_TYPE bits = MACH_PORT_TYPE_NONE
           then Some (put ((bits AND NOT IE_BITS_RIGHT_MASK) OR MACH_PORT_TYPE_DEAD_NAME OR 1) s)
           else if IE_BITS_TYPE bits = MACH_PORT_TYPE_DEAD_NAME
           then Some (if msgt_name \<noteq> MACH_MSG_TYPE_COPY_SEND then put (bits + 1) s else s)
           else map_option snd (ipc_right_check obj name entry
                  (if msgt_name \<noteq> MACH_MSG_TYPE_COPY_SEND then put (bits + 1) s else s)));
        Some (if obj \<noteq> IP_DEAD then on_heap (ipc_port_release obj) s else s)
      })"

definition ipc_right_copyin_two ::
  "ipc_state \<Rightarrow> mach_port_t \<Rightarrow> ipc_entry_ptr \<Rightarrow> copyin_result option" where
  "ipc_right_copyin_two s name entry =
     (let bits = ie_bits (st_entry s entry); port = ie_object (st_entry s entry); urefs = IE_BITS_UREFS bits;
          more = (\<lambda>n s. on_port port (\<lambda>p. p\<lparr>ip_srights := ip_srights p + n\<rparr>) s)
      in if bits AND MACH_PORT_TYPE_SEND = 0 then Some (Inl KERN_INVALID_RIGHT, s)
      else if urefs < 2 then Some (Inl KERN_INVALID_RIGHT, s)
      else do {
        (died, s) \<leftarrow> ipc_right_check port name entry s;
        if died then Some (Inl KERN_INVALID_RIGHT, s)
        else if urefs = 2 then do {
          (dnrequest, s) \<leftarrow>
            (if bits AND MACH_PORT_TYPE_RECEIVE \<noteq> 0
             then Some (IP_NULL, on_heap (ip_reference port \<circ> ip_reference port) (more 1 s))
             else do {
               let (dnrequest, s) = ipc_right_dncancel_macro port name entry s;
               s \<leftarrow> hash_delete port name entry s;
               Some (dnrequest, set_entry entry (\<lambda>e. e\<lparr>ie_object := NULL\<rparr>) (on_heap (ip_reference port) (more 1 s)))
             });
          Some (Inr (port, dnrequest), set_entry entry
            (\<lambda>e. e\<lparr>ie_bits := bits AND NOT (IE_BITS_UREFS_MASK OR MACH_PORT_TYPE_SEND)\<rparr>) s)
        }
        else Some (Inr (port, IP_NULL), set_entry entry (\<lambda>e. e\<lparr>ie_bits := bits - 2\<rparr>)
          (on_heap (ip_reference port \<circ> ip_reference port) (more 2 s)))
      })"

subsection \<open>Moving rights into a space\<close>

definition copyout_send ::
  "ipc_state \<Rightarrow> mach_port_t \<Rightarrow> ipc_entry_ptr \<Rightarrow> bool \<Rightarrow> addr \<Rightarrow> (kern_return_t \<times> ipc_state) option" where
  "copyout_send s name entry overflow port =
     (let bits = ie_bits (st_entry s entry);
          less = (\<lambda>s. on_heap (ip_release port) (on_port port (\<lambda>p. p\<lparr>ip_srights := ip_srights p - 1\<rparr>) s));
          put = set_entry entry (\<lambda>e. e\<lparr>ie_bits := (bits OR MACH_PORT_TYPE_SEND) + 1\<rparr>)
      in if bits AND MACH_PORT_TYPE_SEND \<noteq> 0 then
           if IE_BITS_UREFS bits + 1 = MACH_PORT_UREFS_MAX
           then Some (if overflow then (KERN_SUCCESS, less s) else (KERN_UREFS_OVERFLOW, s))
           else Some (KERN_SUCCESS, put (less s))
         else if bits AND MACH_PORT_TYPE_RECEIVE \<noteq> 0 then Some (KERN_SUCCESS, put (on_heap (ip_release port) s))
         else map_option (\<lambda>s. (KERN_SUCCESS, put s)) (hash_insert port name entry s))"

definition copyout_receive ::
  "ipc_state \<Rightarrow> mach_port_t \<Rightarrow> ipc_entry_ptr \<Rightarrow> addr \<Rightarrow> (kern_return_t \<times> ipc_state) option" where
  "copyout_receive s name entry port =
     (let bits = ie_bits (st_entry s entry); dest = ip_destination (st_port s port);
          s = on_port port (\<lambda>p. p\<lparr>ip_receiver_name := name, ip_data := is_self (st_space s)\<rparr>) s
      in do {
        s \<leftarrow> (if bits AND MACH_PORT_TYPE_SEND \<noteq> 0
             then hash_delete port name entry (on_heap (ip_release port) s) else Some s);
        let s = set_entry entry (\<lambda>e. e\<lparr>ie_bits := bits OR MACH_PORT_TYPE_RECEIVE\<rparr>) s;
        Some (KERN_SUCCESS, if dest \<noteq> IP_NULL then on_heap (ipc_port_release dest) s else s)
      })"

definition ipc_right_copyout ::
  "ipc_state \<Rightarrow> mach_port_t \<Rightarrow> ipc_entry_ptr \<Rightarrow> mach_msg_type_name_t \<Rightarrow> bool \<Rightarrow> addr \<Rightarrow>
   (kern_return_t \<times> ipc_state) option" where
  "ipc_right_copyout s name entry msgt_name overflow port =
     (if msgt_name = MACH_MSG_TYPE_PORT_SEND_ONCE then
        Some (KERN_SUCCESS,
          set_entry entry (\<lambda>e. e\<lparr>ie_bits := ie_bits e OR MACH_PORT_TYPE_SEND_ONCE OR 1\<rparr>) s)
      else if msgt_name = MACH_MSG_TYPE_PORT_SEND then copyout_send s name entry overflow port
      else if msgt_name = MACH_MSG_TYPE_PORT_RECEIVE then copyout_receive s name entry port
      else None)"

definition ipc_right_rename ::
  "ipc_env \<Rightarrow> ipc_state \<Rightarrow> mach_port_t \<Rightarrow> ipc_entry_ptr \<Rightarrow> mach_port_t \<Rightarrow> ipc_entry_ptr \<Rightarrow> ipc_state option" where
  "ipc_right_rename env s oname oentry nname nentry =
     (let request = ie_request (st_entry s oentry); obj = ie_object (st_entry s oentry) in
      do {
        (died, s) \<leftarrow>
          (if request \<noteq> 0 then do {
             (died, s) \<leftarrow> ipc_right_check obj oname oentry s;
             Some (died, if died then s
                         else set_entry oentry (\<lambda>e. e\<lparr>ie_request := 0\<rparr>)
                                (on_heap (\<lambda>h. ipc_port_dnrename h obj request oname nname) s))
           } else Some (False, s));
        let request = (if died then 0 else request);
        let obj = (if died then NULL else obj);
        let bits = ie_bits (st_entry s oentry);
        let type = IE_BITS_TYPE bits;
        let s = set_entry nentry (\<lambda>e. e\<lparr>ie_bits := ie_bits e OR (bits AND IE_BITS_RIGHT_MASK),
                                        ie_request := request, ie_object := obj\<rparr>) s;
        s \<leftarrow>
          (if type = MACH_PORT_TYPE_SEND
           then do { s \<leftarrow> hash_delete obj oname oentry s; hash_insert obj nname nentry s }
           else if type = MACH_PORT_TYPE_RECEIVE \<or> type = MACH_PORT_TYPE_SEND_RECEIVE
           then Some (on_port obj (\<lambda>p. p\<lparr>ip_receiver_name := nname\<rparr>) s)
           else if type = MACH_PORT_TYPE_PORT_SET
           then Some (on_heap (set_pset obj (\<lambda>p. p\<lparr>ips_local_name := nname\<rparr>)) s)
           else if type = MACH_PORT_TYPE_SEND_ONCE \<or> type = MACH_PORT_TYPE_DEAD_NAME then Some s
           else None);
        entry_dealloc env oname oentry (set_entry oentry (\<lambda>e. e\<lparr>ie_object := NULL\<rparr>) s)
      })"

end
