(* ===== verification/Ipc_Object.thy ===== *)
theory Ipc_Object
  imports Ipc_Right
begin

section \<open>Objects\<close>

text \<open>
  \<open>ipc/ipc_object.c\<close>: allocating objects with a right, moving rights between a space and the messages
  (copyin, copyout), and the operations of \<open>ipc/ipc_port.c\<close>, \<open>ipc/ipc_pset.c\<close> and
  \<open>ipc/ipc_space.c\<close> that call them.  A new object is at the address \<open>env_object\<close>.  A result
  \<open>Inl\<close> is a return code other than \<open>KERN_SUCCESS\<close>.
\<close>

definition MACH_PORT_TYPE_ALL_RIGHTS :: mach_port_type_t where
  "MACH_PORT_TYPE_ALL_RIGHTS = MACH_PORT_TYPE_PORT_OR_DEAD OR MACH_PORT_TYPE_PORT_SET"

text \<open>
  The allocations of \<open>ipc_entry.c\<close> on this state.  They leave the space locked when they succeed and
  unlocked when they fail, which the operations here rely on and do not test.
\<close>

definition on_entries :: "('a \<times> bool \<times> entry_state) option \<Rightarrow> ipc_state \<Rightarrow> ('a \<times> ipc_state) option" where
  "on_entries res s = map_option (\<lambda>(r, _, space, g). (r, s\<lparr>st_space := space, st_hash := g\<rparr>)) res"

definition entry_alloc ::
  "ipc_env \<Rightarrow> ipc_state \<Rightarrow> ((kern_return_t + mach_port_t \<times> ipc_entry_ptr) \<times> ipc_state) option" where
  "entry_alloc env s = on_entries (ipc_entry_alloc (env_fuel env) (env_entry env) (st_space s, st_hash s)) s"

definition entry_alloc_name ::
  "ipc_env \<Rightarrow> ipc_state \<Rightarrow> mach_port_t \<Rightarrow> ((kern_return_t + ipc_entry_ptr) \<times> ipc_state) option" where
  "entry_alloc_name env s name =
     on_entries (ipc_entry_alloc_name (env_fuel env) (env_entry env) name (st_space s, st_hash s)) s"

definition entry_grow :: "ipc_env \<Rightarrow> ipc_state \<Rightarrow> (kern_return_t \<times> ipc_state) option" where
  "entry_grow env s =
     on_entries (ipc_entry_grow_table (env_fuel env) (env_entry env) (st_space s, st_hash s) ITS_SIZE_NONE) s"

subsection \<open>Looking up and allocating\<close>

definition ipc_object_translate ::
  "ipc_state \<Rightarrow> mach_port_t \<Rightarrow> mach_port_right_t \<Rightarrow> (kern_return_t + addr) \<times> ipc_state" where
  "ipc_object_translate s name right =
     (case ipc_right_lookup_write s name of
        (Inl kr, s) \<Rightarrow> (Inl kr, s)
      | (Inr entry, s) \<Rightarrow>
          (if ie_bits (st_entry s entry) AND MACH_PORT_TYPE right = 0 then Inl KERN_INVALID_RIGHT
           else Inr (ie_object (st_entry s entry)), s))"

definition ipc_object_alloc_dead ::
  "ipc_env \<Rightarrow> ipc_state \<Rightarrow> ((kern_return_t + mach_port_t) \<times> ipc_state) option" where
  "ipc_object_alloc_dead env s =
     do {
       (res, s) \<leftarrow> entry_alloc env s;
       Some (case res of
               Inl kr \<Rightarrow> (Inl kr, s)
             | Inr (name, entry) \<Rightarrow>
                 (Inr name, set_entry entry (\<lambda>e. e\<lparr>ie_bits := ie_bits e OR (MACH_PORT_TYPE_DEAD_NAME OR 1)\<rparr>) s))
     }"

definition ipc_object_alloc_dead_name ::
  "ipc_env \<Rightarrow> ipc_state \<Rightarrow> mach_port_t \<Rightarrow> (kern_return_t \<times> ipc_state) option" where
  "ipc_object_alloc_dead_name env s name =
     do {
       (res, s) \<leftarrow> entry_alloc_name env s name;
       Some (case res of
               Inl kr \<Rightarrow> (kr, s)
             | Inr entry \<Rightarrow>
                 if ipc_right_inuse s entry then (KERN_NAME_EXISTS, s)
                 else (KERN_SUCCESS,
                       set_entry entry (\<lambda>e. e\<lparr>ie_bits := ie_bits e OR (MACH_PORT_TYPE_DEAD_NAME OR 1)\<rparr>) s))
     }"

text \<open>Clearing a new object, and its first reference.\<close>

definition object_zero :: "natural_t \<Rightarrow> addr \<Rightarrow> ipc_heap \<Rightarrow> ipc_heap" where
  "object_zero otype obj =
     (if otype = IOT_PORT then set_port obj (\<lambda>_. zero_port)
      else if otype = IOT_PORT_SET then set_pset obj (\<lambda>_. zero_pset) else id)"

definition object_start :: "natural_t \<Rightarrow> addr \<Rightarrow> ipc_heap \<Rightarrow> ipc_heap" where
  "object_start otype obj =
     (if otype = IOT_PORT
      then set_port obj (\<lambda>p. p\<lparr>ip_references := 1, ip_bits := io_makebits True otype 0\<rparr>)
      else set_pset obj (\<lambda>p. p\<lparr>ips_references := 1, ips_bits := io_makebits True otype 0\<rparr>))"

definition enter_object ::
  "natural_t \<Rightarrow> mach_port_type_t \<Rightarrow> mach_port_urefs_t \<Rightarrow> addr \<Rightarrow> ipc_entry_ptr \<Rightarrow> ipc_state \<Rightarrow> ipc_state" where
  "enter_object otype type urefs obj entry s =
     on_heap (object_start otype obj)
       (set_entry entry (\<lambda>e. e\<lparr>ie_bits := ie_bits e OR (type OR urefs), ie_object := obj\<rparr>) s)"

definition ipc_object_alloc ::
  "ipc_env \<Rightarrow> ipc_state \<Rightarrow> natural_t \<Rightarrow> mach_port_type_t \<Rightarrow> mach_port_urefs_t \<Rightarrow>
   ((kern_return_t + mach_port_t \<times> addr) \<times> ipc_state) option" where
  "ipc_object_alloc env s otype type urefs =
     (let obj = env_object env in
      if obj = IP_NULL then Some (Inl KERN_RESOURCE_SHORTAGE, s)
      else do {
        (res, s) \<leftarrow> entry_alloc env (on_heap (object_zero otype obj) s);
        Some (case res of
                Inl kr \<Rightarrow> (Inl kr, on_heap (call (Io_Free otype obj)) s)
              | Inr (name, entry) \<Rightarrow> (Inr (name, obj), enter_object otype type urefs obj entry s))
      })"

definition ipc_object_alloc_name ::
  "ipc_env \<Rightarrow> ipc_state \<Rightarrow> natural_t \<Rightarrow> mach_port_type_t \<Rightarrow> mach_port_urefs_t \<Rightarrow> mach_port_t \<Rightarrow>
   ((kern_return_t + addr) \<times> ipc_state) option" where
  "ipc_object_alloc_name env s otype type urefs name =
     (let obj = env_object env in
      if obj = IP_NULL then Some (Inl KERN_RESOURCE_SHORTAGE, s)
      else do {
        (res, s) \<leftarrow> entry_alloc_name env (on_heap (object_zero otype obj) s) name;
        Some (case res of
                Inl kr \<Rightarrow> (Inl kr, on_heap (call (Io_Free otype obj)) s)
              | Inr entry \<Rightarrow>
                  if ipc_right_inuse s entry then (Inl KERN_NAME_EXISTS, on_heap (call (Io_Free otype obj)) s)
                  else (Inr obj, enter_object otype type urefs obj entry s))
      })"

subsection \<open>Ports and port sets with a receive right\<close>

definition ipc_port_alloc :: "ipc_env \<Rightarrow> ipc_state \<Rightarrow> ((kern_return_t + mach_port_t \<times> addr) \<times> ipc_state) option" where
  "ipc_port_alloc env s =
     do {
       (res, s) \<leftarrow> ipc_object_alloc env s IOT_PORT MACH_PORT_TYPE_RECEIVE 0;
       Some (case res of
               Inl kr \<Rightarrow> (Inl kr, s)
             | Inr (name, port) \<Rightarrow> (Inr (name, port), on_heap (ipc_port_init port (is_self (st_space s)) name) s))
     }"

definition ipc_port_alloc_name ::
  "ipc_env \<Rightarrow> ipc_state \<Rightarrow> mach_port_t \<Rightarrow> ((kern_return_t + addr) \<times> ipc_state) option" where
  "ipc_port_alloc_name env s name =
     do {
       (res, s) \<leftarrow> ipc_object_alloc_name env s IOT_PORT MACH_PORT_TYPE_RECEIVE 0 name;
       Some (case res of
               Inl kr \<Rightarrow> (Inl kr, s)
             | Inr port \<Rightarrow> (Inr port, on_heap (ipc_port_init port (is_self (st_space s)) name) s))
     }"

definition pset_start :: "addr \<Rightarrow> mach_port_t \<Rightarrow> ipc_heap \<Rightarrow> ipc_heap" where
  "pset_start pset name =
     set_pset pset (\<lambda>p. p\<lparr>ips_local_name := name, ips_messages := \<lparr>imq_messages = [], imq_threads = []\<rparr>\<rparr>)"

definition ipc_pset_alloc :: "ipc_env \<Rightarrow> ipc_state \<Rightarrow> ((kern_return_t + mach_port_t \<times> addr) \<times> ipc_state) option" where
  "ipc_pset_alloc env s =
     do {
       (res, s) \<leftarrow> ipc_object_alloc env s IOT_PORT_SET MACH_PORT_TYPE_PORT_SET 0;
       Some (case res of
               Inl kr \<Rightarrow> (Inl kr, s)
             | Inr (name, pset) \<Rightarrow> (Inr (name, pset), on_heap (pset_start pset name) s))
     }"

definition ipc_pset_alloc_name ::
  "ipc_env \<Rightarrow> ipc_state \<Rightarrow> mach_port_t \<Rightarrow> ((kern_return_t + addr) \<times> ipc_state) option" where
  "ipc_pset_alloc_name env s name =
     do {
       (res, s) \<leftarrow> ipc_object_alloc_name env s IOT_PORT_SET MACH_PORT_TYPE_PORT_SET 0 name;
       Some (case res of
               Inl kr \<Rightarrow> (Inl kr, s)
             | Inr pset \<Rightarrow> (Inr pset, on_heap (pset_start pset name) s))
     }"

subsection \<open>Rights for messages: copyin\<close>

text \<open>\<open>None\<close> is a panic.\<close>

definition ipc_object_copyin_type :: "mach_msg_type_name_t \<Rightarrow> mach_msg_type_name_t option" where
  "ipc_object_copyin_type msgt_name =
     (if msgt_name = 0 then Some 0
      else if msgt_name = MACH_MSG_TYPE_MOVE_RECEIVE then Some MACH_MSG_TYPE_PORT_RECEIVE
      else if msgt_name = MACH_MSG_TYPE_MOVE_SEND_ONCE \<or> msgt_name = MACH_MSG_TYPE_MAKE_SEND_ONCE
      then Some MACH_MSG_TYPE_PORT_SEND_ONCE
      else if msgt_name = MACH_MSG_TYPE_MOVE_SEND \<or> msgt_name = MACH_MSG_TYPE_MAKE_SEND \<or>
              msgt_name = MACH_MSG_TYPE_COPY_SEND
      then Some MACH_MSG_TYPE_PORT_SEND
      else None)"

definition ipc_object_copyin ::
  "ipc_env \<Rightarrow> ipc_state \<Rightarrow> mach_port_t \<Rightarrow> mach_msg_type_name_t \<Rightarrow> ((kern_return_t + addr) \<times> ipc_state) option" where
  "ipc_object_copyin env s name msgt_name =
     (case ipc_right_lookup_write s name of
        (Inl kr, s) \<Rightarrow> Some (Inl kr, s)
      | (Inr entry, s) \<Rightarrow>
          do {
            (res, s) \<leftarrow> ipc_right_copyin s name entry msgt_name True;
            s \<leftarrow> (if IE_BITS_TYPE (ie_bits (st_entry s entry)) = MACH_PORT_TYPE_NONE
                 then entry_dealloc env name entry s else Some s);
            Some (case res of
                    Inl kr \<Rightarrow> (Inl kr, s)
                  | Inr (obj, soright) \<Rightarrow>
                      (Inr obj,
                       if soright \<noteq> IP_NULL then on_heap (call (Notify_Port_Deleted soright name)) s else s))
          })"

definition ipc_object_copyin_from_kernel :: "addr \<Rightarrow> mach_msg_type_name_t \<Rightarrow> ipc_heap \<Rightarrow> ipc_heap option" where
  "ipc_object_copyin_from_kernel port msgt_name h =
     (if msgt_name = MACH_MSG_TYPE_MOVE_RECEIVE then
        Some (set_port port (\<lambda>p. p\<lparr>ip_receiver_name := MACH_PORT_NULL, ip_data := IP_NULL\<rparr>)
               (ipc_port_set_mscount port 0 h))
      else if msgt_name = MACH_MSG_TYPE_COPY_SEND then
        Some (ip_reference port
          (if ip_active (ports h port) then set_port port (\<lambda>p. p\<lparr>ip_srights := ip_srights p + 1\<rparr>) h else h))
      else if msgt_name = MACH_MSG_TYPE_MAKE_SEND then
        Some (set_port port (\<lambda>p. p\<lparr>ip_mscount := ip_mscount p + 1, ip_srights := ip_srights p + 1\<rparr>)
               (ip_reference port h))
      else if msgt_name = MACH_MSG_TYPE_MOVE_SEND then Some h
      else if msgt_name = MACH_MSG_TYPE_MAKE_SEND_ONCE then
        Some (set_port port (\<lambda>p. p\<lparr>ip_sorights := ip_sorights p + 1\<rparr>) (ip_reference port h))
      else if msgt_name = MACH_MSG_TYPE_MOVE_SEND_ONCE then Some h
      else None)"

definition ipc_object_destroy :: "ipc_env \<Rightarrow> addr \<Rightarrow> mach_msg_type_name_t \<Rightarrow> ipc_heap \<Rightarrow> ipc_heap option" where
  "ipc_object_destroy env port msgt_name h =
     (if msgt_name = MACH_MSG_TYPE_PORT_SEND then Some (ipc_port_release_send port h)
      else if msgt_name = MACH_MSG_TYPE_PORT_SEND_ONCE then Some (call (Notify_Send_Once port) h)
      else if msgt_name = MACH_MSG_TYPE_PORT_RECEIVE
      then ipc_port_release_receive (env_dnits (env_port env)) (env_try env) port h
      else None)"

subsection \<open>Rights from messages: copyout\<close>

text \<open>On success the result is the name.\<close>

definition copyout_entry ::
  "mach_port_t \<Rightarrow> ipc_entry_ptr \<Rightarrow> mach_msg_type_name_t \<Rightarrow> bool \<Rightarrow> addr \<Rightarrow> ipc_state \<Rightarrow>
   ((kern_return_t + mach_port_t) \<times> ipc_state) option" where
  "copyout_entry name entry msgt_name overflow obj s =
     map_option (\<lambda>(kr, s). (if kr = KERN_SUCCESS then Inr name else Inl kr, s))
       (ipc_right_copyout s name entry msgt_name overflow obj)"

fun copyout_loop ::
  "nat \<Rightarrow> ipc_env \<Rightarrow> ipc_state \<Rightarrow> addr \<Rightarrow> mach_msg_type_name_t \<Rightarrow> bool \<Rightarrow>
   ((kern_return_t + mach_port_t) \<times> ipc_state) option" where
  "copyout_loop 0 env s obj msgt_name overflow = None"
| "copyout_loop (Suc fuel) env s obj msgt_name overflow =
     (if \<not> is_active (st_space s) then Some (Inl KERN_INVALID_TASK, s)
      else do {
        (found, s) \<leftarrow> (if msgt_name \<noteq> MACH_MSG_TYPE_PORT_SEND_ONCE then ipc_right_reverse s obj
                      else Some (None, s));
        case found of
          Some (name, entry) \<Rightarrow> copyout_entry name entry msgt_name overflow obj s
        | None \<Rightarrow>
            (case ipc_entry_get (st_space s) of
               None \<Rightarrow>
                 do {
                   (kr, s) \<leftarrow> entry_grow env s;
                   if kr \<noteq> KERN_SUCCESS then Some (Inl kr, s)
                   else copyout_loop fuel env s obj msgt_name overflow
                 }
             | Some (name, entry, space) \<Rightarrow>
                 let s = s\<lparr>st_space := space\<rparr> in
                 if \<not> ip_active (st_port s obj)
                 then map_option (Pair (Inl KERN_INVALID_CAPABILITY)) (entry_dealloc env name entry s)
                 else copyout_entry name entry msgt_name overflow obj (set_entry entry (\<lambda>e. e\<lparr>ie_object := obj\<rparr>) s))
      })"

definition ipc_object_copyout ::
  "ipc_env \<Rightarrow> ipc_state \<Rightarrow> addr \<Rightarrow> mach_msg_type_name_t \<Rightarrow> bool \<Rightarrow>
   ((kern_return_t + mach_port_t) \<times> ipc_state) option" where
  "ipc_object_copyout env s obj msgt_name overflow = copyout_loop (env_fuel env) env s obj msgt_name overflow"

definition ipc_object_copyout_name ::
  "ipc_env \<Rightarrow> ipc_state \<Rightarrow> addr \<Rightarrow> mach_msg_type_name_t \<Rightarrow> bool \<Rightarrow> mach_port_t \<Rightarrow>
   (kern_return_t \<times> ipc_state) option" where
  "ipc_object_copyout_name env s obj msgt_name overflow name =
     do {
       (res, s) \<leftarrow> entry_alloc_name env s name;
       case res of
         Inl kr \<Rightarrow> Some (kr, s)
       | Inr entry \<Rightarrow>
           do {
             (found, s) \<leftarrow> (if msgt_name \<noteq> MACH_MSG_TYPE_PORT_SEND_ONCE then ipc_right_reverse s obj
                           else Some (None, s));
             case found of
               Some (oname, _) \<Rightarrow>
                 if name \<noteq> oname then
                   map_option (Pair KERN_RIGHT_EXISTS)
                     (if IE_BITS_TYPE (ie_bits (st_entry s entry)) = MACH_PORT_TYPE_NONE
                      then entry_dealloc env name entry s else Some s)
                 else ipc_right_copyout s name entry msgt_name overflow obj
             | None \<Rightarrow>
                 if ipc_right_inuse s entry then Some (KERN_NAME_EXISTS, s)
                 else if \<not> ip_active (st_port s obj)
                 then map_option (Pair KERN_INVALID_CAPABILITY) (entry_dealloc env name entry s)
                 else ipc_right_copyout (set_entry entry (\<lambda>e. e\<lparr>ie_object := obj\<rparr>) s)
                        name entry msgt_name overflow obj
           }
     }"

text \<open>The right for the destination of a message: the receiver's name, and the right is gone.\<close>

definition ipc_object_copyout_dest ::
  "addr \<Rightarrow> addr \<Rightarrow> mach_msg_type_name_t \<Rightarrow> ipc_heap \<Rightarrow> (mach_port_t \<times> ipc_heap) option" where
  "ipc_object_copyout_dest space port msgt_name h =
     (let h = ip_release port h in
      if msgt_name = MACH_MSG_TYPE_PORT_SEND then
        let name = (if ip_receiver (ports h port) = space then ip_receiver_name (ports h port) else MACH_PORT_NULL);
            h = set_port port (\<lambda>p. p\<lparr>ip_srights := ip_srights p - 1\<rparr>) h;
            nsrequest = ip_nsrequest (ports h port)
        in Some (name,
             if ip_srights (ports h port) = 0 \<and> nsrequest \<noteq> IP_NULL
             then call (Notify_No_Senders nsrequest (ip_mscount (ports h port)))
                    (set_port port (\<lambda>p. p\<lparr>ip_nsrequest := IP_NULL\<rparr>) h)
             else h)
      else if msgt_name = MACH_MSG_TYPE_PORT_SEND_ONCE then
        Some (if ip_receiver (ports h port) = space
              then (ip_receiver_name (ports h port), set_port port (\<lambda>p. p\<lparr>ip_sorights := ip_sorights p - 1\<rparr>) h)
              else (MACH_PORT_NULL, call (Notify_Send_Once port) (ip_reference port h)))
      else None)"

definition ipc_object_rename ::
  "ipc_env \<Rightarrow> ipc_state \<Rightarrow> mach_port_t \<Rightarrow> mach_port_t \<Rightarrow> (kern_return_t \<times> ipc_state) option" where
  "ipc_object_rename env s oname nname =
     do {
       (res, s) \<leftarrow> entry_alloc_name env s nname;
       case res of
         Inl kr \<Rightarrow> Some (kr, s)
       | Inr nentry \<Rightarrow>
           if ipc_right_inuse s nentry then Some (KERN_NAME_EXISTS, s)
           else
             let (oentry, s) = (if oname = nname then (None, s) else entry_lookup s oname)
             in (case oentry of
                   None \<Rightarrow> map_option (Pair KERN_INVALID_NAME) (entry_dealloc env nname nentry s)
                 | Some oentry \<Rightarrow>
                     map_option (Pair KERN_SUCCESS) (ipc_right_rename env s oname oentry nname nentry))
     }"

text \<open>Operations of \<open>ipc_port.c\<close> on the rights of a space.\<close>

definition ipc_port_lookup_notify :: "ipc_state \<Rightarrow> mach_port_t \<Rightarrow> addr \<times> ipc_state" where
  "ipc_port_lookup_notify s name =
     (case entry_lookup s name of
        (None, s) \<Rightarrow> (IP_NULL, s)
      | (Some entry, s) \<Rightarrow>
          let port = ie_object (st_entry s entry) in
          if ie_bits (st_entry s entry) AND MACH_PORT_TYPE_RECEIVE = 0 then (IP_NULL, s)
          else (port, on_port port (\<lambda>p. p\<lparr>ip_sorights := ip_sorights p + 1\<rparr>) (on_heap (ip_reference port) s)))"

definition ipc_port_copyout_send :: "ipc_env \<Rightarrow> ipc_state \<Rightarrow> addr \<Rightarrow> (mach_port_t \<times> ipc_state) option" where
  "ipc_port_copyout_send env s sright =
     (if IP_VALID sright then
        map_option (\<lambda>(res, s).
            case res of
              Inr name \<Rightarrow> (name, s)
            | Inl kr \<Rightarrow> (if kr = KERN_INVALID_CAPABILITY then MACH_PORT_DEAD else MACH_PORT_NULL,
                         on_heap (ipc_port_release_send sright) s))
          (ipc_object_copyout env s sright MACH_MSG_TYPE_PORT_SEND True)
      else Some (sright, s))"

subsection \<open>The death of a space\<close>

text \<open>
  \<open>ipc_space_destroy\<close> marks the space dead, waits while another thread grows its table, cleans the
  table's entries, frees the table, and cleans and frees the entries of the tree one by one.  The freed
  table is the empty list.  The first result is \<open>None\<close> when the last reference to the space went.
\<close>

fun wait_growing :: "nat \<Rightarrow> ipc_env \<Rightarrow> ipc_state \<Rightarrow> ipc_state option" where
  "wait_growing 0 env s = None"
| "wait_growing (Suc fuel) env s =
     (if is_growing (st_space s) then wait_growing fuel env (env_running env s) else Some s)"

fun clean_table :: "ipc_env \<Rightarrow> nat list \<Rightarrow> ipc_state \<Rightarrow> ipc_state option" where
  "clean_table env [] s = Some s"
| "clean_table env (index # is) s =
     (let bits = ie_bits (st_entry s (TableEnt index)) in
      do {
        s \<leftarrow> (if IE_BITS_TYPE bits \<noteq> MACH_PORT_TYPE_NONE
             then ipc_right_clean env s (MACH_PORT_MAKEB (of_nat index) bits) (TableEnt index) else Some s);
        clean_table env is s
      })"

definition clean_node ::
  "ipc_env \<Rightarrow> (ipc_space \<times> ipc_hash_global \<times> ipc_heap) option \<Rightarrow> mach_port_t \<times> ipc_entry \<Rightarrow>
   (ipc_space \<times> ipc_hash_global \<times> ipc_heap) option \<times> bool" where
  "clean_node env st x =
     (let (name, tentry) = x in
      (do {
         (space, g, h) \<leftarrow> st;
         let (space, g) = (if IE_BITS_TYPE (ie_bits tentry) = MACH_PORT_TYPE_SEND
                           then ipc_hash_global_delete g space (ie_object tentry) name else (space, g));
         (_, h) \<leftarrow> clean_entry env name tentry h;
         Some (space, g, h)
       }, True))"

definition ipc_space_destroy :: "ipc_env \<Rightarrow> ipc_state \<Rightarrow> (ipc_space option \<times> ipc_state) option" where
  "ipc_space_destroy env s =
     (let active = is_active (st_space s); s = s\<lparr>st_space := (st_space s)\<lparr>is_active := False\<rparr>\<rparr> in
      if \<not> active then Some (Some (st_space s), s)
      else do {
        s \<leftarrow> wait_growing (env_fuel env) env s;
        s \<leftarrow> clean_table env [0 ..< is_table_size (st_space s)] s;
        let space = (st_space s)\<lparr>is_table := []\<rparr>;
        (st, tree) \<leftarrow> ipc_splay_traverse (clean_node env) (Some (space, st_hash s, st_heap s)) (is_tree space);
        (space, g, h) \<leftarrow> st;
        let space = space\<lparr>is_tree := tree\<rparr>;
        Some (ipc_space_release space, s\<lparr>st_space := space, st_hash := g, st_heap := h\<rparr>)
      })"

end
