(* ===== verification/Ipc_State.thy ===== *)
theory Ipc_State
  imports Ipc_Object
begin

section \<open>Consistent states\<close>

text \<open>
  A space is consistent when table and tree agree on its names, the two reverse hash tables hold exactly its
  send rights, the free list is sound and no entry is left half done.  Operations on a right leave this state
  in between: \<open>in_flux\<close> says that only the entry of the given name may be out of order.
\<close>

subsection \<open>Pointers to entries\<close>

definition ptr_ok :: "ipc_space \<Rightarrow> mach_port_t \<Rightarrow> ipc_entry_ptr \<Rightarrow> bool" where
  "ptr_ok space name entry \<longleftrightarrow>
     (case entry of
        TableEnt i \<Rightarrow> i = unat (MACH_PORT_INDEX name) \<and> i \<noteq> 0 \<and> i < is_table_size space \<and>
          IE_BITS_GEN (ie_bits (is_table space ! i)) = MACH_PORT_GEN name
      | TreeEnt n \<Rightarrow> n = name \<and> n \<in> dom (splay_map (is_tree space)))"

definition same_slot :: "ipc_entry \<Rightarrow> ipc_entry \<Rightarrow> bool" where
  "same_slot e e' \<longleftrightarrow>
     ie_bits e' AND NOT IE_BITS_RIGHT_MASK = ie_bits e AND NOT IE_BITS_RIGHT_MASK \<and> ie_index e' = ie_index e"

definition space_good :: "nat list \<Rightarrow> entry_state \<Rightarrow> bool" where
  "space_good ns st \<longleftrightarrow>
     (case st of (space, g) \<Rightarrow>
       names_inv space \<and> hash_ok {} (space, g) \<and> tree_hash_ok (space, g) \<and> free_list (is_table space) ns \<and>
       IE_BITS_TYPE (ie_bits (is_table space ! 0)) = 0 \<and>
       (\<forall>n e. splay_map (is_tree space) n = Some e \<longrightarrow> IE_BITS_TYPE (ie_bits e) \<noteq> 0) \<and> \<not> is_fast space)"

lemma right_mask: "IE_BITS_RIGHT_MASK = mask 23"
  by (simp add: bits_defs mask_eq_exp_minus_1 IE_BITS_RIGHT_MASK_def)

lemma same_slot_bits:
  assumes "same_slot e e'"
  shows "IE_BITS_GEN (ie_bits e') = IE_BITS_GEN (ie_bits e)"
    "ie_bits e' AND IE_BITS_COLLISION = ie_bits e AND IE_BITS_COLLISION"
    "ie_bits e AND IE_BITS_RIGHT_MASK = ie_bits e \<Longrightarrow> ie_bits e' AND IE_BITS_RIGHT_MASK = ie_bits e'"
proof -
  have b: "bit (ie_bits e') n = bit (ie_bits e) n" if "23 \<le> n" "n < 32" for n
  proof -
    have "bit (ie_bits e' AND NOT (mask 23)) n = bit (ie_bits e AND NOT (mask 23)) n"
      using assms by (simp add: same_slot_def right_mask)
    then show ?thesis using that by (simp add: bit_simps)
  qed
  show "IE_BITS_GEN (ie_bits e') = IE_BITS_GEN (ie_bits e)"
    by (rule bit_word_eqI) (use b in \<open>auto simp: IE_BITS_GEN_def bit_masks bit_simps\<close>)
  show "ie_bits e' AND IE_BITS_COLLISION = ie_bits e AND IE_BITS_COLLISION"
    by (rule bit_word_eqI) (use b in \<open>auto simp: bit_masks bit_simps\<close>)
  show "ie_bits e' AND IE_BITS_RIGHT_MASK = ie_bits e'" if "ie_bits e AND IE_BITS_RIGHT_MASK = ie_bits e"
  proof -
    have "\<not> bit (ie_bits e) n" if "23 \<le> n" "n < 32" for n
      using that \<open>ie_bits e AND IE_BITS_RIGHT_MASK = ie_bits e\<close> 
      by (metis bit_and_iff bit_mask_iff right_mask not_le)
    then show ?thesis
      by (intro bit_word_eqI) (use b in \<open>auto simp: right_mask bit_simps intro: leI ccontr [of "_ < 23"]\<close>)
  qed
qed


subsection \<open>Changing an entry in place\<close>

lemma entry_at_store:
  assumes "ptr_ok space name entry" "splay_inv (is_tree space)"
  shows "entry_at (store_entry space entry e) entry = e"
  using assms splay.store_law [of "is_tree space" name e] by (cases entry) (auto simp: ptr_ok_def is_table_size_def)

lemma store_fields [simp]:
  "is_self (store_entry space entry e) = is_self space"
  "is_table_size (store_entry space entry e) = is_table_size space"
  "is_tree_hash (store_entry space entry e) = is_tree_hash space"
  "is_active (store_entry space entry e) = is_active space"
  "is_fast (store_entry space entry e) = is_fast space"
  "is_tree_total (store_entry space entry e) = is_tree_total space"
  "is_table_next (store_entry space entry e) = is_table_next space"
  by (cases entry; simp add: is_table_size_def)+

lemma ptr_ok_store:
  assumes "ptr_ok space name entry" "splay_inv (is_tree space)" "same_slot (entry_at space entry) e"
  shows "ptr_ok (store_entry space entry e) name entry"
  using assms same_slot_bits [OF assms(3)] splay.store_law [of "is_tree space" name e]
  by (cases entry) (auto simp: ptr_ok_def is_table_size_def)

definition type_of :: "ipc_entry \<Rightarrow> mach_port_type_t" where
  "type_of e = IE_BITS_TYPE (ie_bits e)"

lemma space_good_names: "space_good ns (space, g) \<Longrightarrow> names_inv space \<and> splay_inv (is_tree space)"
  by (simp add: space_good_def names_inv_def)

lemma good_set_table:
  assumes good: "space_good ns (space, g)" and ptr: "ptr_ok space name (TableEnt i)"
    and e: "e = is_table space ! i" "same_slot e e'" "type_of e \<noteq> 0" "type_of e' \<noteq> 0"
    and send: "type_of e = MACH_PORT_TYPE_SEND \<longleftrightarrow> type_of e' = MACH_PORT_TYPE_SEND"
      "type_of e = MACH_PORT_TYPE_SEND \<longrightarrow> ie_object e' = ie_object e"
  shows "space_good ns (space\<lparr>is_table := (is_table space)[i := e']\<rparr>, g) \<and>
    space_caps (space\<lparr>is_table := (is_table space)[i := e']\<rparr>) = (space_caps space)(name \<mapsto> cap e')"
proof -
  let ?t = "is_table space" and ?t' = "(is_table space)[i := e']"
  let ?s = "space\<lparr>is_table := ?t'\<rparr>"
  have i: "i = unat (MACH_PORT_INDEX name)" "i \<noteq> 0" "i < length ?t" "IE_BITS_GEN (ie_bits e) = MACH_PORT_GEN name"
    using ptr e(1) by (auto simp: ptr_ok_def is_table_size_def)
  have inv: "names_inv space" and ok: "hash_ok {} (space, g)" and free: "free_list ?t ns"
    using good by (auto simp: space_good_def)
  note bits = same_slot_bits [OF e(2)]
  have at: "?t' ! i = e'" "\<And>k. k \<noteq> i \<Longrightarrow> ?t' ! k = ?t ! k" "length ?t' = length ?t" using i(3) by simp_all
  have b: "IE_BITS_GEN (ie_bits (?t' ! k)) = IE_BITS_GEN (ie_bits (?t ! k))"
    "ie_bits (?t' ! k) AND IE_BITS_COLLISION = ie_bits (?t ! k) AND IE_BITS_COLLISION"
    "IE_BITS_TYPE (ie_bits (?t' ! k)) = 0 \<longleftrightarrow> IE_BITS_TYPE (ie_bits (?t ! k)) = 0"
    "IE_BITS_TYPE (ie_bits (?t' ! k)) = MACH_PORT_TYPE_SEND \<longleftrightarrow> IE_BITS_TYPE (ie_bits (?t ! k)) = MACH_PORT_TYPE_SEND"
    "ie_index (?t' ! k) = ie_index (?t ! k)" for k
    using at e bits send(1) by (cases "k = i"; simp add: type_of_def same_slot_def)+
  have "names_inv ?s" using inv b at(3) by (simp add: names_inv_def is_table_size_def)
  moreover have "hash_ok {} (?s, g)"
  proof -
    have H: "hashed ?t = {k. k < length ?t \<and> IE_BITS_TYPE (ie_bits (?t ! k)) = MACH_PORT_TYPE_SEND}"
      using ok by (simp add: hash_ok_def is_table_size_def)
    have ob: "ie_object (?t' ! k) = ie_object (?t ! k)" if "k \<in> hashed ?t" for k
      using that at send e(1) H by (cases "k = i") (auto simp: type_of_def)
    note c = hash_inv_cong [OF at(3) b(5) ob]
    show ?thesis
      using ok c ob H at(3) b(4) by (simp add: hash_ok_def is_table_size_def)
  qed
  moreover have "tree_hash_ok (?s, g)" using good by (simp add: space_good_def tree_hash_ok_def)
  moreover have "free_list ?t' ns"
  proof -
    have ch: "free_chain ?t (ie_next (?t ! 0)) ns" using free by (simp add: free_list_def)
    have "i \<notin> set ns" using free_chain_mem [OF ch] e(1,3) by (auto simp: type_of_def)
    then have "n \<in> set ns \<Longrightarrow> ?t' ! n = ?t ! n" for n using at(2) by metis
    then have "free_chain ?t' (ie_next (?t ! 0)) ns"
      by (intro free_chain_cong [OF ch]) (simp_all add: at(3))
    then show ?thesis using free i(2) by (simp add: free_list_def)
  qed
  moreover have "IE_BITS_TYPE (ie_bits (?t' ! 0)) = 0" using good i(2) by (simp add: space_good_def)
  moreover have "space_caps ?s = (space_caps space)(name \<mapsto> cap e')"
  proof
    fix n
    show "space_caps ?s n = ((space_caps space)(name \<mapsto> cap e')) n"
    proof (cases "n = name")
      case True
      have "table_entry ?t' name = Some e'"
        using i at bits(1) e(4) by (simp add: table_entry_def type_of_def Let_def)
      then show ?thesis by (simp add: space_caps_alt True)
    next
      case False
      have "table_entry ?t' n = table_entry ?t n"
      proof (cases "unat (MACH_PORT_INDEX n) = i")
        case True
        then have "MACH_PORT_GEN n \<noteq> MACH_PORT_GEN name"
          using False i(1) name_eqI [of n name] by (auto simp: word_unat_eq_iff)
        then show ?thesis using True i at bits(1) e(1) by (auto simp: table_entry_def Let_def)
      next
        case False
        then show ?thesis using at by (simp add: table_entry_def Let_def)
      qed
      then show ?thesis using False by (simp add: space_caps_alt split: option.split)
    qed
  qed
  ultimately show ?thesis using good by (simp add: space_good_def)
qed

lemma good_set_tree:
  assumes good: "space_good ns (space, g)" and ptr: "splay_map (is_tree space) name = Some e"
    and e: "same_slot e e'" "type_of e' \<noteq> 0"
    and send: "type_of e = MACH_PORT_TYPE_SEND \<longleftrightarrow> type_of e' = MACH_PORT_TYPE_SEND"
      "type_of e = MACH_PORT_TYPE_SEND \<longrightarrow> ie_object e' = ie_object e"
  shows "space_good ns (space\<lparr>is_tree := splay_store (is_tree space) name e'\<rparr>, g) \<and>
    space_caps (space\<lparr>is_tree := splay_store (is_tree space) name e'\<rparr>) = (space_caps space)(name \<mapsto> cap e')"
proof -
  let ?m = "splay_map (is_tree space)"
  let ?s = "space\<lparr>is_tree := splay_store (is_tree space) name e'\<rparr>"
  have inv: "names_inv space" and sinv: "splay_inv (is_tree space)" and ok: "hash_ok {} (space, g)"
    using good by (auto simp: space_good_def names_inv_def)
  have m: "splay_inv (is_tree ?s)" "splay_map (is_tree ?s) = ?m(name \<mapsto> e')"
    using splay.store_law [OF sinv, of name e'] ptr by auto
  have dom: "dom (?m(name \<mapsto> e')) = dom ?m" using ptr by auto
  have right: "ie_bits e AND IE_BITS_RIGHT_MASK = ie_bits e"
    using inv ptr unfolding names_inv_def by blast
  have right': "ie_bits e' AND IE_BITS_RIGHT_MASK = ie_bits e'" by (rule same_slot_bits(3) [OF e(1) right])
  have ends: "MACH_PORT_INDEX n \<noteq> 0 \<and> n \<noteq> MACH_PORT_DEAD \<and> ie_bits x AND IE_BITS_RIGHT_MASK = ie_bits x"
    if "(?m(name \<mapsto> e')) n = Some x" for n x
    using that inv ptr right' unfolding names_inv_def by (cases "n = name") auto
  have "names_inv ?s"
    using inv m(1) ends unfolding names_inv_def m(2) dom by (simp add: is_table_size_def)
  moreover have "hash_ok {} (?s, g)"
  proof -
    have send_obj: "(?m(name \<mapsto> e')) n = Some x \<Longrightarrow> IE_BITS_TYPE (ie_bits x) = MACH_PORT_TYPE_SEND \<Longrightarrow>
        \<exists>y. ?m n = Some y \<and> IE_BITS_TYPE (ie_bits y) = MACH_PORT_TYPE_SEND \<and> ie_object y = ie_object x" for n x
      using ptr send by (cases "n = name") (auto simp: type_of_def)
    have same: "(\<exists>x. (?m(name \<mapsto> e')) n = Some x \<and> IE_BITS_TYPE (ie_bits x) = MACH_PORT_TYPE_SEND \<and> ie_object x = ob) \<longleftrightarrow>
        (\<exists>x. ?m n = Some x \<and> IE_BITS_TYPE (ie_bits x) = MACH_PORT_TYPE_SEND \<and> ie_object x = ob)" for n ob
      using ptr send by (auto simp: type_of_def)
    have h: "hash_inv (is_table space)" "global_inv g" "hashed (is_table space) =
         {i. i < is_table_size space \<and> IE_BITS_TYPE (ie_bits (is_table space ! i)) = MACH_PORT_TYPE_SEND} - {}"
      "\<forall>n ob. \<lparr>tr_space = is_self space, tr_name = n, tr_object = ob\<rparr> \<in> refs g \<longleftrightarrow>
        (\<exists>e. ?m n = Some e \<and> IE_BITS_TYPE (ie_bits e) = MACH_PORT_TYPE_SEND \<and> ie_object e = ob)"
      and apart: "\<And>i n x. i \<in> hashed (is_table space) \<Longrightarrow> ?m n = Some x \<Longrightarrow>
          IE_BITS_TYPE (ie_bits x) = MACH_PORT_TYPE_SEND \<Longrightarrow> ie_object (is_table space ! i) \<noteq> ie_object x"
      using ok unfolding hash_ok_def prod.case by blast+
    have apart': "\<forall>i \<in> hashed (is_table space). \<forall>n x. (?m(name \<mapsto> e')) n = Some x \<longrightarrow>
          IE_BITS_TYPE (ie_bits x) = MACH_PORT_TYPE_SEND \<longrightarrow> ie_object (is_table space ! i) \<noteq> ie_object x"
      using apart send_obj by metis
    have f: "is_table ?s = is_table space" "is_self ?s = is_self space" "is_table_size ?s = is_table_size space"
      by (simp_all add: is_table_size_def)
    show ?thesis
      unfolding hash_ok_def prod.case m(2) f same by (intro conjI h apart')
  qed
  moreover have "tree_hash_ok (?s, g)" using good by (simp add: space_good_def tree_hash_ok_def)
  moreover have "space_caps ?s = (space_caps space)(name \<mapsto> cap e')"
  proof
    fix n
    have "table_entry (is_table space) name = None"
      using inv ptr by (auto simp: names_inv_def table_entry_def is_table_size_def Let_def)
    then show "space_caps ?s n = ((space_caps space)(name \<mapsto> cap e')) n"
      using m(2) by (auto simp: space_caps_alt split: option.split)
  qed
  ultimately show ?thesis
    using good e(2) m(2) by (auto simp: space_good_def type_of_def)
qed

lemma good_set:
  assumes "space_good ns (space, g)" "ptr_ok space name entry" "e = entry_at space entry" "same_slot e e'"
    and "type_of e \<noteq> 0" "type_of e' \<noteq> 0" "type_of e = MACH_PORT_TYPE_SEND \<longleftrightarrow> type_of e' = MACH_PORT_TYPE_SEND"
    and "type_of e = MACH_PORT_TYPE_SEND \<longrightarrow> ie_object e' = ie_object e"
  shows "space_good ns (store_entry space entry e', g) \<and>
    space_caps (store_entry space entry e') = (space_caps space)(name \<mapsto> cap e')"
proof (cases entry)
  case (TableEnt i)
  then show ?thesis using good_set_table [of ns space g name i e e'] assms by simp
next
  case (TreeEnt n)
  then have "n = name" "splay_map (is_tree space) name = Some e"
    using assms(2,3) by (auto simp: ptr_ok_def)
  then show ?thesis using good_set_tree [of ns space g name e e'] assms TreeEnt by simp
qed

lemma good_cap:
  assumes "space_good ns (space, g)" "ptr_ok space name entry" "type_of (entry_at space entry) \<noteq> 0"
  shows "space_caps space name = Some (cap (entry_at space entry))"
proof (cases entry)
  case (TableEnt i)
  then show ?thesis using assms
    by (auto simp: ptr_ok_def space_caps_alt table_entry_def type_of_def is_table_size_def Let_def)
next
  case (TreeEnt n)
  have "names_inv space" using assms(1) by (simp add: space_good_def)
  then have "table_entry (is_table space) name = None" if "name \<in> dom (splay_map (is_tree space))"
    using that by (auto simp: names_inv_def table_entry_def is_table_size_def Let_def)
  moreover have "n = name" "name \<in> dom (splay_map (is_tree space))"
    using assms(2) TreeEnt by (auto simp: ptr_ok_def)
  ultimately show ?thesis using TreeEnt by (auto simp: space_caps_alt)
qed


subsection \<open>Entries in flux\<close>

text \<open>
  What is known of a space while an operation works on the entry of \<open>name\<close>: it would be consistent if
  the entry were a dead name.  The type, the object and the request of the entry do not matter for this.
\<close>

definition deadify :: "ipc_entry \<Rightarrow> ipc_entry" where
  "deadify e = e\<lparr>ie_bits := (ie_bits e AND NOT IE_BITS_TYPE_MASK) OR MACH_PORT_TYPE_DEAD_NAME\<rparr>"

definition in_flux :: "nat list \<Rightarrow> entry_state \<Rightarrow> mach_port_t \<Rightarrow> ipc_entry_ptr \<Rightarrow> bool" where
  "in_flux ns st name entry \<longleftrightarrow>
     (case st of (space, g) \<Rightarrow> ptr_ok space name entry \<and> splay_inv (is_tree space) \<and>
        space_good ns (store_entry space entry (deadify (entry_at space entry)), g))"

definition other_caps :: "mach_port_t \<Rightarrow> ipc_space \<Rightarrow> mach_port_t \<rightharpoonup> ipc_entry_bits_t \<times> addr \<times> natural_t" where
  "other_caps name space = (space_caps space)(name := None)"

lemma same_slot_trans: "same_slot a b \<Longrightarrow> same_slot b c \<Longrightarrow> same_slot a c"
  by (simp add: same_slot_def)

lemma same_slot_sym: "same_slot a b \<Longrightarrow> same_slot b a"
  by (simp add: same_slot_def)

lemma deadify_slot: "same_slot e (deadify e)"
proof -
  have "((b AND NOT IE_BITS_TYPE_MASK) OR MACH_PORT_TYPE_DEAD_NAME) AND NOT IE_BITS_RIGHT_MASK =
      b AND NOT IE_BITS_RIGHT_MASK" for b
  proof -
    have "MACH_PORT_TYPE_DEAD_NAME AND NOT IE_BITS_RIGHT_MASK = 0"
      by (simp add: type_values IE_BITS_RIGHT_MASK_def)
    moreover have "(b AND NOT IE_BITS_TYPE_MASK) AND NOT IE_BITS_RIGHT_MASK = b AND NOT IE_BITS_RIGHT_MASK"
      by (rule bit_word_eqI) (auto simp: bit_blast)
    ultimately show ?thesis by (simp add: bit.conj_disj_distrib2)
  qed
  then show ?thesis by (simp add: same_slot_def deadify_def)
qed

lemma deadify_type: "type_of (deadify e) = MACH_PORT_TYPE_DEAD_NAME"
proof -
  have "((b AND NOT IE_BITS_TYPE_MASK) OR MACH_PORT_TYPE_DEAD_NAME) AND IE_BITS_TYPE_MASK = MACH_PORT_TYPE_DEAD_NAME" for b
  proof -
    have "MACH_PORT_TYPE_DEAD_NAME AND IE_BITS_TYPE_MASK = MACH_PORT_TYPE_DEAD_NAME"
      by (simp add: type_values IE_BITS_TYPE_MASK_def)
    then show ?thesis by (simp add: bit.conj_disj_distrib2 and.assoc)
  qed
  then show ?thesis by (simp add: type_of_def deadify_def IE_BITS_TYPE_def)
qed

lemma dead_types [simp]: "MACH_PORT_TYPE_DEAD_NAME \<noteq> 0" "MACH_PORT_TYPE_DEAD_NAME \<noteq> MACH_PORT_TYPE_SEND"
    "MACH_PORT_TYPE_SEND \<noteq> 0" "MACH_PORT_TYPE_SEND \<noteq> MACH_PORT_TYPE_DEAD_NAME"
  by (simp_all add: type_values)

lemma itree_store_twice: "itree_store n y (itree_store n x t) = itree_store n y t"
  by (induction t) auto

lemma store_twice [simp]: "store_entry (store_entry space entry x) entry y = store_entry space entry y"
proof (cases entry)
  case (TreeEnt n)
  have "splay_store (splay_store t n x) n y = splay_store t n y" for t :: "ipc_entry ipc_splay_tree"
    by (simp add: splay_store_def itree_store_twice o_def case_prod_unfold)
  then show ?thesis using TreeEnt by simp
qed simp

lemma flux_ptr: "in_flux ns (space, g) name entry \<Longrightarrow> ptr_ok space name entry"
  by (simp add: in_flux_def)

lemma flux_inv:
  assumes "in_flux ns (space, g) name entry"
  shows "splay_inv (is_tree space)" "\<not> is_fast space" "ptr_ok space name entry"
    "space_good ns (store_entry space entry (deadify (entry_at space entry)), g)"
  using assms by (auto simp: in_flux_def space_good_def)

lemma other_caps_store:
  assumes "ptr_ok space name entry" "splay_inv (is_tree space)" "same_slot (entry_at space entry) e"
  shows "other_caps name (store_entry space entry e) = other_caps name space"
proof
  fix n
  show "other_caps name (store_entry space entry e) n = other_caps name space n"
  proof (cases "n = name")
    case False
    show ?thesis
    proof (cases entry)
      case (TableEnt i)
      let ?t = "is_table space"
      have i: "i = unat (MACH_PORT_INDEX name)" "i < length ?t" "IE_BITS_GEN (ie_bits (?t ! i)) = MACH_PORT_GEN name"
        using assms(1) by (auto simp: ptr_ok_def TableEnt is_table_size_def)
      have "table_entry (?t[i := e]) n = table_entry ?t n"
      proof (cases "unat (MACH_PORT_INDEX n) = i")
        case True
        then have "MACH_PORT_GEN n \<noteq> MACH_PORT_GEN name"
          using False i(1) name_eqI [of n name] by (auto simp: word_unat_eq_iff)
        then show ?thesis
          using True i same_slot_bits(1) [OF assms(3)] by (auto simp: table_entry_def TableEnt Let_def)
      next
        case False
        then show ?thesis by (simp add: table_entry_def Let_def)
      qed
      then show ?thesis by (simp add: other_caps_def space_caps_alt TableEnt split: option.split)
    next
      case (TreeEnt m)
      then have "m = name" "splay_map (is_tree (store_entry space entry e)) n = splay_map (is_tree space) n"
        using assms(1) splay.store_law [OF assms(2), of name e] False by (auto simp: ptr_ok_def)
      then show ?thesis by (simp add: other_caps_def space_caps_alt TreeEnt split: option.split)
    qed
  qed (simp add: other_caps_def)
qed

lemma flux_set:
  assumes f: "in_flux ns (space, g) name entry" and e: "same_slot (entry_at space entry) e'"
  shows "in_flux ns (store_entry space entry e', g) name entry \<and>
    other_caps name (store_entry space entry e') = other_caps name space"
proof -
  note inv = flux_inv [OF f]
  let ?d = "deadify (entry_at space entry)"
  let ?S = "store_entry space entry ?d"
  have at: "entry_at ?S entry = ?d" "entry_at (store_entry space entry e') entry = e'"
    by (rule entry_at_store [OF inv(3,1)])+
  have slot: "same_slot ?d (deadify e')"
    using deadify_slot e same_slot_trans same_slot_sym by blast
  have p: "ptr_ok ?S name entry" "ptr_ok (store_entry space entry e') name entry"
    using ptr_ok_store [OF inv(3,1)] deadify_slot e by blast+
  have "space_good ns (store_entry ?S entry (deadify e'), g)"
    using good_set [OF inv(4) p(1), of ?d "deadify e'"] slot by (simp add: at deadify_type)
  then have "space_good ns (store_entry (store_entry space entry e') entry (deadify e'), g)" by simp
  moreover have "splay_inv (is_tree (store_entry space entry e'))"
    using inv(1,3) splay.store_law [OF inv(1), of name e'] by (cases entry) (auto simp: ptr_ok_def)
  ultimately show ?thesis
    using p(2) at(2) other_caps_store [OF inv(3,1) e] by (simp add: in_flux_def)
qed

lemma flux_open:
  assumes "space_good ns (space, g)" "ptr_ok space name entry" "type_of (entry_at space entry) \<noteq> 0"
    "type_of (entry_at space entry) \<noteq> MACH_PORT_TYPE_SEND"
  shows "in_flux ns (space, g) name entry"
  using good_set [OF assms(1,2) refl deadify_slot assms(3)] assms space_good_names [OF assms(1)]
  by (simp add: in_flux_def deadify_type)

lemma itree_store_same:
  "(\<And>m x. (m, x) \<in> set (inorder t) \<Longrightarrow> m = n \<Longrightarrow> x = e) \<Longrightarrow> itree_store n e t = t"
  by (induction t) auto

lemma splay_store_same:
  assumes "splay_inv s" "splay_map s n = Some e"
  shows "splay_store s n e = s"
proof -
  have root: "ist_root s \<noteq> ITE_NULL"
    using assms(2) splay_list_empty_iff [of s] by (auto simp: splay_map_def)
  then have sorted: "sorted_names (splay_list s)" using assms(1) by (simp add: splay_inv_def)
  have only: "x = e" if "(m, x) \<in> set (splay_list s)" "m = n" for m x
    using that assms(2) sorted by (simp add: splay_map_def sorted_map_of_iff [symmetric])
  have list: "splay_list s = in_left (ist_ltree s) @ inorder (ist_root s) @ in_right (ist_rtree s)"
    using root by (simp add: splay_list_def state_def contents_def)
  have left: "map (\<lambda>(l, m, x). (itree_store n e l, m, if m = n then e else x)) c = c"
    if "\<And>m x. (m, x) \<in> set (in_left c) \<Longrightarrow> m = n \<Longrightarrow> x = e" for c
    using that by (induction c rule: in_left.induct) (auto intro: itree_store_same)
  have right: "map (\<lambda>(m, x, r). (m, if m = n then e else x, itree_store n e r)) c = c"
    if "\<And>m x. (m, x) \<in> set (in_right c) \<Longrightarrow> m = n \<Longrightarrow> x = e" for c
    using that by (induction c rule: in_right.induct) (auto intro: itree_store_same)
  have "itree_store n e (ist_root s) = ist_root s"
    by (rule itree_store_same) (use only list in auto)
  moreover have "map (\<lambda>(l, m, x). (itree_store n e l, m, if m = n then e else x)) (ist_ltree s) = ist_ltree s"
    by (rule left) (use only list in auto)
  moreover have "map (\<lambda>(m, x, r). (m, if m = n then e else x, itree_store n e r)) (ist_rtree s) = ist_rtree s"
    by (rule right) (use only list in auto)
  ultimately show ?thesis by (simp add: splay_store_def)
qed

lemma store_same:
  assumes "ptr_ok space name entry" "splay_inv (is_tree space)"
  shows "store_entry space entry (entry_at space entry) = space"
  using assms splay_store_same [OF assms(2), of name] by (cases entry) (auto simp: ptr_ok_def)

lemma flux_close:
  assumes f: "in_flux ns (space, g) name entry" and t: "type_of (entry_at space entry) \<noteq> 0"
    "type_of (entry_at space entry) \<noteq> MACH_PORT_TYPE_SEND"
  shows "space_good ns (space, g) \<and> space_caps space = (other_caps name space)(name \<mapsto> cap (entry_at space entry))"
proof -
  note inv = flux_inv [OF f]
  let ?e = "entry_at space entry"
  let ?S = "store_entry space entry (deadify ?e)"
  have at: "entry_at ?S entry = deadify ?e" by (rule entry_at_store [OF inv(3,1)])
  have p: "ptr_ok ?S name entry" by (rule ptr_ok_store [OF inv(3,1) deadify_slot])
  have "space_good ns (store_entry ?S entry ?e, g)"
    using good_set [OF inv(4) p, of "deadify ?e" ?e] deadify_slot [THEN same_slot_sym] t
    by (simp add: at deadify_type)
  then have g: "space_good ns (space, g)" by (simp add: store_same [OF inv(3,1)])
  then show ?thesis
    using good_cap [OF g inv(3) t(1)] by (auto simp: other_caps_def)
qed


subsection \<open>Taking an entry down\<close>

lemma dealloc_deadify:
  assumes "i = unat (MACH_PORT_INDEX name)" "i < is_table_size space"
  shows "ipc_entry_dealloc env (store_entry space (TableEnt i) (deadify (is_table space ! i)), g) name (TableEnt i) =
    ipc_entry_dealloc env (space, g) name (TableEnt i)"
proof -
  let ?d = "deadify (is_table space ! i)"
  have i: "i < length (is_table space)" using assms(2) by (simp add: is_table_size_def)
  have bits: "ie_bits ?d AND IE_BITS_COLLISION = ie_bits (is_table space ! i) AND IE_BITS_COLLISION"
    "ie_bits ?d AND IE_BITS_GEN_MASK = ie_bits (is_table space ! i) AND IE_BITS_GEN_MASK"
    using same_slot_bits [OF deadify_slot, of "is_table space ! i"] by (simp_all add: IE_BITS_GEN_def)
  have "refill_entry (space\<lparr>is_table := (is_table space)[i := ?d]\<rparr>, g) (MACH_PORT_INDEX name) =
      refill_entry (space, g) (MACH_PORT_INDEX name)"
    using i by (simp add: refill_entry_def assms(1) [symmetric] deadify_def Let_def cong: if_cong option.case_cong)
  moreover have "free_entry ((is_table space)[i := ?d]) (MACH_PORT_INDEX name) =
      free_entry (is_table space) (MACH_PORT_INDEX name)"
    using i bits(2) by (simp add: free_entry_def assms(1) [symmetric] Let_def)
       (cases "i = 0"; simp add: deadify_def)
  ultimately show ?thesis
    using i bits(1) by (simp add: ipc_entry_dealloc_def in_table_def assms(1) [symmetric] is_table_size_def Let_def)
qed

lemma table_dealloc_flux:
  assumes f: "in_flux ns (space, g) name (TableEnt i)"
  shows "\<exists>space' g' ns'. ipc_entry_dealloc env (space, g) name (TableEnt i) = Some (space', g') \<and>
    space_good ns' (space', g') \<and> space_caps space' = other_caps name space \<and> same_space space space'"
proof -
  note inv = flux_inv [OF f]
  let ?d = "deadify (is_table space ! i)"
  let ?S = "store_entry space (TableEnt i) ?d"
  have i: "i = unat (MACH_PORT_INDEX name)" "i \<noteq> 0" "i < is_table_size space"
    "IE_BITS_GEN (ie_bits (is_table space ! i)) = MACH_PORT_GEN name"
    using inv(3) by (auto simp: ptr_ok_def)
  have at: "is_table ?S ! i = ?d" using i(3) by (simp add: is_table_size_def)
  have S: "names_inv ?S" "hash_ok {} (?S, g)" "tree_hash_ok (?S, g)" "free_list (is_table ?S) ns"
    "IE_BITS_TYPE (ie_bits (is_table ?S ! 0)) = 0"
    "\<forall>n e. splay_map (is_tree ?S) n = Some e \<longrightarrow> IE_BITS_TYPE (ie_bits e) \<noteq> 0"
    using inv(4) unfolding space_good_def prod.case entry_at.simps by blast+
  have dead: "IE_BITS_TYPE (ie_bits (is_table ?S ! i)) = MACH_PORT_TYPE_DEAD_NAME"
    using deadify_type at by (simp add: type_of_def)
  have "hash_ok {i} (?S, g)"
    using S(2) dead unfolding hash_ok_def prod.case by auto
  moreover have "i \<notin> set ns"
    using S(4) dead free_chain_mem [of "is_table ?S" _ ns i] by (auto simp: free_list_def)
  moreover have "IE_BITS_GEN (ie_bits (is_table ?S ! i)) = MACH_PORT_GEN name"
    using at same_slot_bits(1) [OF deadify_slot] i(4) by simp
  moreover have "i < is_table_size ?S" using i(3) by (simp add: is_table_size_def)
  ultimately obtain space' g' where d: "ipc_entry_dealloc env (?S, g) name (TableEnt i) = Some (space', g')"
    "names_inv space'" "hash_ok {} (space', g')" "space_caps space' = (space_caps ?S)(name := None)"
    "free_list (is_table space') ns \<or> free_list (is_table space') (i # ns)" "same_space ?S space'"
    "tree_hash_ok (space', g')" "IE_BITS_TYPE (ie_bits (is_table space' ! 0)) = 0"
    "\<forall>n e. splay_map (is_tree space') n = Some e \<longrightarrow> IE_BITS_TYPE (ie_bits e) \<noteq> 0"
    using table_dealloc_frame [OF S(1) _ S(4) i(1,2) _ _ _ S(5,6), of g env] S(3) by blast
  have "same_space space space'" using d(6) by (simp add: same_space_def is_table_size_def)
  moreover have "space_caps space' = other_caps name space"
    using d(4) other_caps_store [OF inv(3,1) deadify_slot] by (simp add: other_caps_def)
  moreover have "space_good ns (space', g') \<or> space_good (i # ns) (space', g')"
    using d inv(2) \<open>same_space space space'\<close> by (auto simp: space_good_def same_space_def)
  moreover have "ipc_entry_dealloc env (space, g) name (TableEnt i) = Some (space', g')"
    using d(1) dealloc_deadify [OF i(1,3)] by simp
  ultimately show ?thesis by blast
qed

lemma tree_dealloc_frame:
  assumes inv: "splay_inv (is_tree space)" and fast: "\<not> is_fast space" and name: "name \<in> dom (splay_map (is_tree space))"
    and ends: "0 \<notin> dom (splay_map (is_tree space))" "MACH_PORT_DEAD \<notin> dom (splay_map (is_tree space))"
  shows "\<exists>space'. ipc_entry_dealloc env (space, g) name (TreeEnt name) = Some (space', g) \<and>
    splay_map (is_tree space') = (splay_map (is_tree space))(name := None) \<and> same_space space space' \<and>
    is_tree_hash space' = is_tree_hash space \<and>
    (\<forall>k. is_table space' ! k = is_table space ! k \<or>
       k = unat (MACH_PORT_INDEX name) \<and>
       is_table space' ! k = (is_table space ! k)\<lparr>ie_bits := ie_bits (is_table space ! k) AND NOT IE_BITS_COLLISION\<rparr>)"
proof -
  let ?tree = "ipc_splay_tree_delete (is_tree space) name"
  let ?i = "unat (MACH_PORT_INDEX name)"
  let ?s = "space\<lparr>is_tree := ?tree, is_tree_total := is_tree_total space - 1\<rparr>"
  have tree: "splay_inv ?tree" "splay_map ?tree = (splay_map (is_tree space))(name := None)"
    using splay.delete_law [OF inv] name by blast+
  obtain col s2 where col: "ipc_entry_tree_collision ?s name = (col, s2)" by fastforce
  have "0 \<notin> dom (splay_map (is_tree ?s))" "MACH_PORT_DEAD \<notin> dom (splay_map (is_tree ?s))"
    using ends tree(2) by auto
  then obtain tree2 where s2: "s2 = ?s\<lparr>is_tree := tree2\<rparr>" "splay_map tree2 = splay_map ?tree"
    using tree_collision_spec(2) [OF _ col] tree by auto
  consider "?i < is_table_size space" | "?i \<ge> is_table_size space" "?i < env_its env ! is_table_next space"
    | "?i \<ge> is_table_size space" "?i \<ge> env_its env ! is_table_next space" by linarith
  then show ?thesis
  proof cases
    case 1
    then show ?thesis
      using fast col s2 tree(2)
      by (auto simp: ipc_entry_dealloc_def in_table_def is_table_size_def same_space_def nth_list_update Let_def)
  next
    case 2
    then show ?thesis
      using fast col s2 tree(2)
      by (auto simp: ipc_entry_dealloc_def in_table_def is_table_size_def same_space_def Let_def)
  next
    case 3
    then show ?thesis
      using fast tree(2)
      by (auto simp: ipc_entry_dealloc_def in_table_def is_table_size_def same_space_def Let_def)
  qed
qed


lemma collision_off: "b AND IE_BITS_COLLISION = 0 \<Longrightarrow> b AND NOT IE_BITS_COLLISION = b"
  by (rule bit_word_eqI) (auto simp: collision_bit bit_blast)

lemma free_chain_coll: "free_chain table h ns \<Longrightarrow> n \<in> set ns \<Longrightarrow> ie_bits (table ! n) AND IE_BITS_COLLISION = 0"
  by (induction ns arbitrary: h) auto

lemma tree_dealloc_flux:
  assumes f: "in_flux ns (space, g) name (TreeEnt name)"
  shows "\<exists>space' g' ns'. ipc_entry_dealloc env (space, g) name (TreeEnt name) = Some (space', g') \<and>
    space_good ns' (space', g') \<and> space_caps space' = other_caps name space \<and> same_space space space'"
proof -
  note inv = flux_inv [OF f]
  obtain e where e: "splay_map (is_tree space) name = Some e" using inv(3) by (auto simp: ptr_ok_def)
  let ?m = "splay_map (is_tree space)" and ?t = "is_table space"
  let ?S = "store_entry space (TreeEnt name) (deadify e)"
  have good: "space_good ns (?S, g)" using inv(4) by (simp add: e)
  have m: "splay_map (is_tree ?S) = ?m(name \<mapsto> deadify e)"
    using splay.store_law [OF inv(1), of name "deadify e"] e by auto
  have S: "names_inv ?S" "hash_ok {} (?S, g)" "tree_hash_ok (?S, g)" "free_list ?t ns"
    "IE_BITS_TYPE (ie_bits (?t ! 0)) = 0"
    "\<And>n x. (?m(name \<mapsto> deadify e)) n = Some x \<Longrightarrow> IE_BITS_TYPE (ie_bits x) \<noteq> 0"
    using good unfolding space_good_def prod.case m by auto
  have dom: "dom (?m(name \<mapsto> deadify e)) = dom ?m" using e by auto
  have Sm: "MACH_PORT_INDEX n \<noteq> 0 \<and> n \<noteq> MACH_PORT_DEAD \<and> ie_bits x AND IE_BITS_RIGHT_MASK = ie_bits x"
    if "(?m(name \<mapsto> deadify e)) n = Some x" for n x
    using S(1) that unfolding names_inv_def m by blast
  have "MACH_PORT_INDEX n \<noteq> 0 \<and> n \<noteq> MACH_PORT_DEAD \<and> ie_bits x AND IE_BITS_RIGHT_MASK = ie_bits x"
    if "?m n = Some x" for n x
    using that Sm [of n x] Sm [of name "deadify e"] e same_slot_bits(3) [OF same_slot_sym [OF deadify_slot], of e]
    by (cases "n = name") auto
  then have names: "names_inv space"
    using S(1) inv(1) unfolding names_inv_def m dom by (simp add: is_table_size_def)
  obtain space' where d: "ipc_entry_dealloc env (space, g) name (TreeEnt name) = Some (space', g)"
    "splay_map (is_tree space') = ?m(name := None)" "same_space space space'" "is_tree_hash space' = is_tree_hash space"
    and tb: "\<And>k. is_table space' ! k = ?t ! k \<or> k = unat (MACH_PORT_INDEX name) \<and>
       is_table space' ! k = (?t ! k)\<lparr>ie_bits := ie_bits (?t ! k) AND NOT IE_BITS_COLLISION\<rparr>"
    using tree_dealloc_frame [OF inv(1,2), of name env g] names_inv_ends [OF names] e by blast
  have name_ix: "MACH_PORT_INDEX name \<noteq> 0" using names e unfolding names_inv_def by blast
  note spec = tree_dealloc_spec [OF names _ d(1)]
  have len: "length (is_table space') = length ?t" using d(3) by (simp add: same_space_def is_table_size_def)
  have fld: "ie_index (is_table space' ! k) = ie_index (?t ! k)" "ie_object (is_table space' ! k) = ie_object (?t ! k)"
    "ie_request (is_table space' ! k) = ie_request (?t ! k)"
    "IE_BITS_TYPE (ie_bits (is_table space' ! k)) = IE_BITS_TYPE (ie_bits (?t ! k))" for k
    using tb [of k] by auto
  have fS: "is_table ?S = ?t" "is_self ?S = is_self space" "is_table_size ?S = is_table_size space"
    by (simp_all add: is_table_size_def)
  have "hash_ok {} (space', g)"
  proof -
    have h: "hash_inv ?t" "global_inv g" "hashed ?t =
         {i. i < is_table_size space \<and> IE_BITS_TYPE (ie_bits (?t ! i)) = MACH_PORT_TYPE_SEND} - {}"
      and r: "\<And>n ob. \<lparr>tr_space = is_self space, tr_name = n, tr_object = ob\<rparr> \<in> refs g \<longleftrightarrow>
        (\<exists>x. (?m(name \<mapsto> deadify e)) n = Some x \<and> IE_BITS_TYPE (ie_bits x) = MACH_PORT_TYPE_SEND \<and> ie_object x = ob)"
      and apart: "\<And>i n x. i \<in> hashed ?t \<Longrightarrow> (?m(name \<mapsto> deadify e)) n = Some x \<Longrightarrow>
          IE_BITS_TYPE (ie_bits x) = MACH_PORT_TYPE_SEND \<Longrightarrow> ie_object (?t ! i) \<noteq> ie_object x"
      using S(2) unfolding hash_ok_def prod.case m fS by blast+
    note c = hash_inv_cong [OF len fld(1,2)]
    have dt: "IE_BITS_TYPE (ie_bits (deadify e)) \<noteq> MACH_PORT_TYPE_SEND"
      using deadify_type [of e] by (simp add: type_of_def)
    have "\<lparr>tr_space = is_self space', tr_name = n, tr_object = ob\<rparr> \<in> refs g \<longleftrightarrow>
        (\<exists>x. splay_map (is_tree space') n = Some x \<and> IE_BITS_TYPE (ie_bits x) = MACH_PORT_TYPE_SEND \<and> ie_object x = ob)" for n ob
      using r [of n ob] d(2,3) dt by (auto simp: same_space_def)
    moreover have "\<forall>i \<in> hashed (is_table space'). \<forall>n x. splay_map (is_tree space') n = Some x \<longrightarrow>
        IE_BITS_TYPE (ie_bits x) = MACH_PORT_TYPE_SEND \<longrightarrow> ie_object (is_table space' ! i) \<noteq> ie_object x"
    proof (intro ballI allI impI)
      fix i n x
      assume x: "i \<in> hashed (is_table space')" "splay_map (is_tree space') n = Some x"
        "IE_BITS_TYPE (ie_bits x) = MACH_PORT_TYPE_SEND"
      then have mx: "(?m(name \<mapsto> deadify e)) n = Some x" using d(2) by (auto split: if_splits)
      show "ie_object (is_table space' ! i) \<noteq> ie_object x"
        using apart [OF x(1) [unfolded c(1)] mx x(3)] by (simp only: fld(2) not_False_eq_True)
    qed
    moreover have "hashed (is_table space') =
         {i. i < is_table_size space' \<and> IE_BITS_TYPE (ie_bits (is_table space' ! i)) = MACH_PORT_TYPE_SEND} - {}"
      using h(3) by (simp add: c(1) fld(4) len is_table_size_def)
    ultimately show ?thesis using h c(2) by (simp add: hash_ok_def)
  qed
  moreover have "free_list (is_table space') ns"
  proof -
    have ch: "free_chain ?t (ie_next (?t ! 0)) ns" using S(4) by (simp add: free_list_def)
    have "ie_bits (is_table space' ! n) = ie_bits (?t ! n)" if "n \<in> set ns" for n
      using tb [of n] collision_off [OF free_chain_coll [OF ch that]] by auto
    then have "free_chain (is_table space') (ie_next (?t ! 0)) ns"
      using fld len by (intro free_chain_cong [OF ch]) auto
    then show ?thesis using S(4) by (simp add: free_list_def fld)
  qed
  moreover have "tree_hash_ok (space', g)" using S(3) d(3,4) by (simp add: tree_hash_ok_def same_space_def)
  moreover have "\<forall>n x. splay_map (is_tree space') n = Some x \<longrightarrow> IE_BITS_TYPE (ie_bits x) \<noteq> 0"
    using S(6) d(2) by (metis fun_upd_apply option.distinct(1))
  ultimately have "space_good ns (space', g)"
    using spec e S(5) fld(4) d(3) inv(2) by (auto simp: space_good_def same_space_def)
  then show ?thesis using d(1,3) spec e by (auto simp: other_caps_def)
qed

lemma dealloc_flux:
  assumes f: "in_flux ns (space, g) name entry"
  obtains space' g' ns' where "ipc_entry_dealloc env (space, g) name entry = Some (space', g')"
    "space_good ns' (space', g')" "space_caps space' = other_caps name space" "same_space space space'"
proof (cases entry)
  case (TableEnt i)
  then show ?thesis using table_dealloc_flux [of ns space g name i env] f that by blast
next
  case (TreeEnt n)
  then have "n = name" using flux_inv(3) [OF f] by (auto simp: ptr_ok_def)
  then show ?thesis using tree_dealloc_flux [of ns space g name env] f that TreeEnt by blast
qed

end
