(* ===== verification/Ipc_Reverse.thy ===== *)
theory Ipc_Reverse
  imports Ipc_State
begin

section \<open>Consistent states: hash tables, lookup and allocation\<close>

text \<open>
  What the operations of \<open>ipc_right.c\<close> do between taking an entry and giving it back: remove its send
  right from the reverse hash tables, or insert it; and how an entry is found by name, by object, or taken
  from the free list.
\<close>

lemma good_hash:
  assumes "space_good ns (space, g)"
  shows "hash_inv (is_table space)" "global_inv g"
    "hashed (is_table space) =
       {i. i < is_table_size space \<and> IE_BITS_TYPE (ie_bits (is_table space ! i)) = MACH_PORT_TYPE_SEND}"
    "\<lparr>tr_space = is_self space, tr_name = n, tr_object = ob\<rparr> \<in> refs g \<longleftrightarrow>
       (\<exists>e. splay_map (is_tree space) n = Some e \<and> IE_BITS_TYPE (ie_bits e) = MACH_PORT_TYPE_SEND \<and> ie_object e = ob)"
    "\<lbrakk>i \<in> hashed (is_table space); splay_map (is_tree space) n = Some e;
      IE_BITS_TYPE (ie_bits e) = MACH_PORT_TYPE_SEND\<rbrakk> \<Longrightarrow> ie_object (is_table space ! i) \<noteq> ie_object e"
  using assms unfolding space_good_def hash_ok_def prod.case by blast+

lemma coll_used:
  assumes "space_good ns (space, g)" "k < length (is_table space)" "ie_bits (is_table space ! k) AND IE_BITS_COLLISION \<noteq> 0"
  shows "IE_BITS_TYPE (ie_bits (is_table space ! k)) \<noteq> 0"
proof -
  have "names_inv space" "k < is_table_size space" using assms(1,2) by (simp_all add: space_good_def is_table_size_def)
  then show ?thesis using assms(3) unfolding names_inv_def by blast
qed

text \<open>A new table for a consistent space.\<close>

lemma good_table:
  assumes good: "space_good ns (space, g)" and len: "length t = length (is_table space)"
    and bits: "\<And>k. k < length t \<Longrightarrow> ie_bits (t ! k) AND IE_BITS_COLLISION = ie_bits (is_table space ! k) AND IE_BITS_COLLISION"
      "\<And>k. k < length t \<Longrightarrow> ie_bits (is_table space ! k) AND IE_BITS_COLLISION \<noteq> 0 \<Longrightarrow>
         IE_BITS_GEN (ie_bits (t ! k)) = IE_BITS_GEN (ie_bits (is_table space ! k)) \<and> IE_BITS_TYPE (ie_bits (t ! k)) \<noteq> 0"
    and free: "free_list t ns'" "IE_BITS_TYPE (ie_bits (t ! 0)) = 0"
    and hash: "hash_inv t" "hashed t = {i. i < length t \<and> IE_BITS_TYPE (ie_bits (t ! i)) = MACH_PORT_TYPE_SEND}"
      "\<And>i n e. i \<in> hashed t \<Longrightarrow> splay_map (is_tree space) n = Some e \<Longrightarrow>
         IE_BITS_TYPE (ie_bits e) = MACH_PORT_TYPE_SEND \<Longrightarrow> ie_object (t ! i) \<noteq> ie_object e"
  shows "space_good ns' (space\<lparr>is_table := t\<rparr>, g)"
proof -
  let ?s = "space\<lparr>is_table := t\<rparr>"
  have inv: "names_inv space" using good by (simp add: space_good_def)
  have "names_inv ?s" using inv bits len unfolding names_inv_def by (simp add: is_table_size_def)
  moreover have "hash_ok {} (?s, g)"
    using good_hash(2,4) [OF good] hash by (simp add: hash_ok_def is_table_size_def)
  ultimately show ?thesis
    using good free by (simp add: space_good_def tree_hash_ok_def)
qed

lemma hash_delete_table:
  assumes good: "space_good ns (space, g)" and ptr: "ptr_ok space name (TableEnt i)"
    and e: "e = is_table space ! i" "type_of e = MACH_PORT_TYPE_SEND"
  shows "\<exists>space'. ipc_hash_delete g space (ie_object e) name (TableEnt i) = Some (space', g) \<and>
    in_flux ns (space', g) name (TableEnt i) \<and> cap (entry_at space' (TableEnt i)) = cap e \<and>
    ie_bits (entry_at space' (TableEnt i)) = ie_bits e \<and>
    other_caps name space' = other_caps name space \<and> same_space space space'"
proof -
  let ?t = "is_table space"
  have i: "i = unat (MACH_PORT_INDEX name)" "i \<noteq> 0" "i < length ?t" "IE_BITS_GEN (ie_bits (?t ! i)) = MACH_PORT_GEN name"
    using ptr by (auto simp: ptr_ok_def is_table_size_def)
  note h = good_hash [OF good]
  have "i \<in> hashed ?t" using h(3) i(3) e by (auto simp: type_of_def is_table_size_def)
  then obtain t f where t: "ipc_hash_local_delete ?t (ie_object e) i = Some t" "length t = length ?t" "hash_inv t"
    "hashed t = hashed ?t - {i}" "\<And>k. k < length ?t \<Longrightarrow> t ! k = (?t ! k)\<lparr>ie_index := f k\<rparr>"
    using local_delete_spec [OF h(1)] e(1) by blast
  let ?s = "space\<lparr>is_table := t\<rparr>" and ?d = "deadify (t ! i)"
  have del: "ipc_hash_delete g space (ie_object e) name (TableEnt i) = Some (?s, g)"
    using i(1,3) t(1) by (simp add: ipc_hash_delete_def in_table_def is_table_size_def)
  have same: "ie_bits (t ! k) = ie_bits (?t ! k)" "ie_object (t ! k) = ie_object (?t ! k)"
    "ie_request (t ! k) = ie_request (?t ! k)" if "k < length ?t" for k
    using t(5) [OF that] by simp_all
  have at: "t[i := ?d] ! k = (if k = i then ?d else t ! k)" for k
    using i(3) t(2) by (simp add: nth_list_update)
  note slot = same_slot_bits [OF deadify_slot, of "t ! i"]
  have dead: "IE_BITS_TYPE (ie_bits ?d) = MACH_PORT_TYPE_DEAD_NAME" using deadify_type by (simp add: type_of_def)
  have ch: "free_chain ?t (ie_next (?t ! 0)) ns" "distinct ns"
    using good by (simp_all add: space_good_def free_list_def)
  have ni: "i \<notin> set ns" using free_chain_mem [OF ch(1)] e by (auto simp: type_of_def)
  have z: "0 < length ?t" using i(3) by linarith
  have "space_good ns (space\<lparr>is_table := t[i := ?d]\<rparr>, g)"
  proof (rule good_table [OF good])
    show "free_list (t[i := ?d]) ns"
    proof -
      have n: "n < length ?t \<and> n \<noteq> i" if "n \<in> set ns" for n using free_chain_mem [OF ch(1) that] ni that by auto
      have "free_chain (t[i := ?d]) (ie_next (?t ! 0)) ns"
        by (rule free_chain_cong [OF ch(1)]) (use n same t(2) at in auto)
      moreover note same(3) [OF z]
      ultimately show ?thesis using ch(2) i(2) at [of 0] by (simp add: free_list_def)
    qed
    show "IE_BITS_TYPE (ie_bits (t[i := ?d] ! 0)) = 0"
      using good i(2) at [of 0] same(1) [OF z] by (simp add: space_good_def)
    have idx: "ie_index (t[i := ?d] ! k) = ie_index (t ! k)" "ie_object (t[i := ?d] ! k) = ie_object (t ! k)" for k
      using at [of k] by (simp_all add: deadify_def)
    have lt: "length (t[i := ?d]) = length t" by simp
    note c = hash_inv_cong [OF lt idx]
    show "hash_inv (t[i := ?d])" using c t(3) by blast
    show "hashed (t[i := ?d]) =
        {j. j < length (t[i := ?d]) \<and> IE_BITS_TYPE (ie_bits (t[i := ?d] ! j)) = MACH_PORT_TYPE_SEND}"
      using c(1) t(2,4) h(3) at dead same(1) by (auto simp: is_table_size_def)
    fix k n x
    assume k: "k \<in> hashed (t[i := ?d])" and x: "splay_map (is_tree space) n = Some x"
      "IE_BITS_TYPE (ie_bits x) = MACH_PORT_TYPE_SEND"
    have "k \<in> hashed ?t" "k < length ?t" using k c(1) t(4) h(3) by (auto simp: is_table_size_def)
    then show "ie_object (t[i := ?d] ! k) \<noteq> ie_object x"
      using h(5) [OF _ x] idx(2) same(2) by simp
  qed (use at slot dead same t(2) coll_used [OF good] in auto)
  moreover have "ptr_ok ?s name (TableEnt i)"
    using i t(2) same(1) by (simp add: ptr_ok_def is_table_size_def)
  moreover have "splay_inv (is_tree ?s)" using space_good_names [OF good] by simp
  ultimately have "in_flux ns (?s, g) name (TableEnt i)" by (simp add: in_flux_def)
  moreover have "other_caps name ?s = other_caps name space"
  proof
    fix n
    show "other_caps name ?s n = other_caps name space n"
      using t(2) same by (auto simp: other_caps_def space_caps_alt table_entry_def cap_def Let_def)
  qed
  moreover have "same_space space ?s" using t(2) by (simp add: same_space_def is_table_size_def)
  ultimately show ?thesis using del same i(3) e(1) by (auto simp: cap_def)
qed

lemma hash_delete_tree:
  assumes good: "space_good ns (space, g)" and e: "splay_map (is_tree space) name = Some e" "type_of e = MACH_PORT_TYPE_SEND"
  shows "\<exists>space' g'. ipc_hash_delete g space (ie_object e) name (TreeEnt name) = Some (space', g') \<and>
    in_flux ns (space', g') name (TreeEnt name) \<and> entry_at space' (TreeEnt name) = e \<and>
    other_caps name space' = other_caps name space \<and> same_space space space'"
proof -
  note h = good_hash [OF good]
  let ?m = "splay_map (is_tree space)"
  let ?r = "\<lparr>tr_space = is_self space, tr_name = name, tr_object = ie_object e\<rparr>"
  have sinv: "splay_inv (is_tree space)" and inv: "names_inv space" using space_good_names [OF good] by auto
  have r: "?r \<in> refs g" using h(4) e by (auto simp: type_of_def)
  have one: "\<forall>r \<in> refs g. tr_space r = is_self space \<longrightarrow> tr_name r = name \<longrightarrow> tr_object r = ie_object e"
  proof (intro ballI impI)
    fix r assume "r \<in> refs g" "tr_space r = is_self space" "tr_name r = name"
    then have "\<lparr>tr_space = is_self space, tr_name = name, tr_object = tr_object r\<rparr> \<in> refs g" by (cases r) simp
    then show "tr_object r = ie_object e" using h(4) e(1) by auto
  qed
  obtain space' g' where d: "ipc_hash_global_delete g space (ie_object e) name = (space', g')" by fastforce
  have gd: "global_inv g'" "space' = space\<lparr>is_tree_hash := is_tree_hash space - 1\<rparr>" "refs g' = refs g - {?r}"
    using global_delete_spec [OF h(2) _ _ d] r one by simp_all
  have del: "ipc_hash_delete g space (ie_object e) name (TreeEnt name) = Some (space', g')"
    using d by (simp add: ipc_hash_delete_def in_table_def)
  let ?d = "deadify e"
  let ?S = "store_entry space' (TreeEnt name) ?d"
  have m: "splay_inv (is_tree ?S)" "splay_map (is_tree ?S) = ?m(name \<mapsto> ?d)"
    using splay.store_law [OF sinv, of name ?d] e(1) gd(2) by auto
  have dom: "dom (?m(name \<mapsto> ?d)) = dom ?m" using e(1) by auto
  have right: "ie_bits ?d AND IE_BITS_RIGHT_MASK = ie_bits ?d"
    using same_slot_bits(3) [OF deadify_slot, of e] inv e(1) unfolding names_inv_def by blast
  have ends: "MACH_PORT_INDEX n \<noteq> 0 \<and> n \<noteq> MACH_PORT_DEAD \<and> ie_bits x AND IE_BITS_RIGHT_MASK = ie_bits x"
    if "(?m(name \<mapsto> ?d)) n = Some x" for n x
    using that inv e(1) right unfolding names_inv_def by (cases "n = name") auto
  have f: "is_table ?S = is_table space" "is_self ?S = is_self space" "is_table_size ?S = is_table_size space"
    "is_tree_total ?S = is_tree_total space" "is_fast ?S = is_fast space" "is_tree_hash ?S = is_tree_hash space - 1"
    using gd(2) by (simp_all add: is_table_size_def)
  have "names_inv ?S" using inv m(1) ends unfolding names_inv_def m(2) dom f by blast
  moreover have "hash_ok {} (?S, g')"
  proof -
    have dt: "IE_BITS_TYPE (ie_bits ?d) \<noteq> MACH_PORT_TYPE_SEND" using deadify_type [of e] by (simp add: type_of_def)
    have "\<lparr>tr_space = is_self space, tr_name = n, tr_object = ob\<rparr> \<in> refs g' \<longleftrightarrow>
        (\<exists>x. (?m(name \<mapsto> ?d)) n = Some x \<and> IE_BITS_TYPE (ie_bits x) = MACH_PORT_TYPE_SEND \<and> ie_object x = ob)" for n ob
      using h(4) [of n ob] e(1) dt by (auto simp: gd(3))
    moreover have "\<forall>i \<in> hashed (is_table space). \<forall>n x. (?m(name \<mapsto> ?d)) n = Some x \<longrightarrow>
        IE_BITS_TYPE (ie_bits x) = MACH_PORT_TYPE_SEND \<longrightarrow> ie_object (is_table space ! i) \<noteq> ie_object x"
      using h(5) dt by (metis fun_upd_apply option.inject)
    ultimately show ?thesis
      unfolding hash_ok_def prod.case m(2) f using h(1,3) gd(1) by blast
  qed
  moreover have "tree_hash_ok (?S, g')"
    using tree_hash_delete [of space g ?r g' ?S] good r gd(3) f by (simp add: space_good_def)
  moreover have "\<forall>n x. (?m(name \<mapsto> ?d)) n = Some x \<longrightarrow> IE_BITS_TYPE (ie_bits x) \<noteq> 0"
    using good deadify_type [of e] by (auto simp: space_good_def type_of_def)
  ultimately have "space_good ns (?S, g')"
    using good unfolding space_good_def prod.case m(2) f by blast
  then have "in_flux ns (space', g') name (TreeEnt name)"
    using sinv e(1) gd(2) by (auto simp: in_flux_def ptr_ok_def)
  moreover have "other_caps name space' = other_caps name space"
    by (simp add: other_caps_def space_caps_alt gd(2) fun_eq_iff split: option.split)
  ultimately show ?thesis using del e(1) gd(2) by (auto simp: same_space_def is_table_size_def)
qed

lemma hash_delete_flux:
  assumes "space_good ns (space, g)" "ptr_ok space name entry" "type_of (entry_at space entry) = MACH_PORT_TYPE_SEND"
  obtains space' g' where "ipc_hash_delete g space (ie_object (entry_at space entry)) name entry = Some (space', g')"
    "in_flux ns (space', g') name entry" "cap (entry_at space' entry) = cap (entry_at space entry)"
    "ie_bits (entry_at space' entry) = ie_bits (entry_at space entry)"
    "other_caps name space' = other_caps name space" "same_space space space'"
proof (cases entry)
  case (TableEnt i)
  then show ?thesis
    using hash_delete_table [of ns space g name i "is_table space ! i"] assms that by auto
next
  case (TreeEnt n)
  then obtain e where "n = name" "splay_map (is_tree space) name = Some e" using assms(2) by (auto simp: ptr_ok_def)
  then show ?thesis
    using hash_delete_tree [of ns space g name e] assms(1,3) that TreeEnt by auto
qed


text \<open>Looking an object up finds the only name with just a send right for it.\<close>

lemma table_cap:
  assumes "names_inv space" "j < is_table_size space" "IE_BITS_TYPE (ie_bits (is_table space ! j)) \<noteq> 0"
  shows "space_caps space (MACH_PORT_MAKEB (of_nat j) (ie_bits (is_table space ! j))) = Some (cap (is_table space ! j))"
    "unat (MACH_PORT_INDEX (MACH_PORT_MAKEB (of_nat j) (ie_bits (is_table space ! j)))) = j"
proof -
  let ?b = "ie_bits (is_table space ! j)"
  have "j < 0x1000000" using assms(1,2) by (simp add: names_inv_def)
  then have "(of_nat j :: natural_t) < 0x1000000" "unat (of_nat j :: natural_t) = j"
    by (simp_all add: word_less_nat_alt unat_of_nat)
  then show ix: "unat (MACH_PORT_INDEX (MACH_PORT_MAKEB (of_nat j) ?b)) = j"
    by (simp add: MACH_PORT_MAKEB_def index_make)
  have "MACH_PORT_GEN (MACH_PORT_MAKEB (of_nat j) ?b) = IE_BITS_GEN ?b"
    by (simp add: MACH_PORT_MAKEB_def gen_make IE_BITS_GEN_def and.assoc)
  then have "table_entry (is_table space) (MACH_PORT_MAKEB (of_nat j) ?b) = Some (is_table space ! j)"
    using ix assms(2,3) by (simp add: table_entry_def is_table_size_def Let_def)
  then show "space_caps space (MACH_PORT_MAKEB (of_nat j) ?b) = Some (cap (is_table space ! j))"
    by (simp add: space_caps_alt)
qed

lemma tree_cap:
  assumes "names_inv space" "splay_map (is_tree space) n = Some e"
  shows "space_caps space n = Some (cap e)"
  using assms by (auto simp: names_inv_def table_entry_def is_table_size_def space_caps_alt Let_def)

lemma cap_type [simp]: "IE_BITS_TYPE (fst (cap e)) = type_of e"
proof -
  have "IE_BITS_TYPE (b AND IE_BITS_RIGHT_MASK) = IE_BITS_TYPE b" for b
    by (rule bit_word_eqI) (auto simp: bit_blast)
  then show ?thesis by (simp add: cap_def type_of_def)
qed

lemma cap_fields [simp]: "fst (snd (cap e)) = ie_object e" "snd (snd (cap e)) = ie_request e"
  by (simp_all add: cap_def)

definition send_cap :: "addr \<Rightarrow> (ipc_entry_bits_t \<times> addr \<times> natural_t) option \<Rightarrow> bool" where
  "send_cap ob c \<longleftrightarrow> (case c of None \<Rightarrow> False | Some (b, ob', r) \<Rightarrow> IE_BITS_TYPE b = MACH_PORT_TYPE_SEND \<and> ob' = ob)"

lemma send_cap_cap [simp]: "send_cap ob (Some (cap e)) \<longleftrightarrow> type_of e = MACH_PORT_TYPE_SEND \<and> ie_object e = ob"
  using cap_type [of e] cap_fields [of e] by (cases "cap e") (auto simp: send_cap_def)

lemma send_cap_none [simp]: "\<not> send_cap ob None"
  by (simp add: send_cap_def)

lemma hash_insert_table:
  assumes f: "in_flux ns (space, g) name (TableEnt i)" and ob: "ie_object (is_table space ! i) = ob"
    and alone: "\<And>n. \<not> send_cap ob (other_caps name space n)"
  shows "\<exists>space'. ipc_hash_insert g space ob name (TableEnt i) = Some (space', g) \<and>
    cap (is_table space' ! i) = cap (is_table space ! i) \<and> ie_bits (is_table space' ! i) = ie_bits (is_table space ! i) \<and>
    ptr_ok space' name (TableEnt i) \<and> splay_inv (is_tree space') \<and> same_space space space' \<and>
    other_caps name space' = other_caps name space \<and>
    (\<forall>e. same_slot (is_table space' ! i) e \<longrightarrow> type_of e = MACH_PORT_TYPE_SEND \<longrightarrow> ie_object e = ob \<longrightarrow>
      space_good ns (store_entry space' (TableEnt i) e, g))"
proof -
  note inv = flux_inv [OF f]
  let ?t = "is_table space"
  let ?d = "deadify (?t ! i)"
  let ?S = "store_entry space (TableEnt i) ?d"
  have i: "i = unat (MACH_PORT_INDEX name)" "i \<noteq> 0" "i < length ?t" "IE_BITS_GEN (ie_bits (?t ! i)) = MACH_PORT_GEN name"
    using inv(3) by (auto simp: ptr_ok_def is_table_size_def)
  have good: "space_good ns (?S, g)" using inv(4) by simp
  have names: "names_inv ?S" using space_good_names [OF good] by simp
  note h = good_hash [OF good]
  have at: "is_table ?S ! k = (if k = i then ?d else ?t ! k)" for k using i(3) by (simp add: nth_list_update)
  have tab: "is_table ?S = ?t[i := ?d]" "is_table_size ?S = length ?t" "is_tree ?S = is_tree space"
    by (simp_all add: is_table_size_def)
  have dead: "IE_BITS_TYPE (ie_bits ?d) = MACH_PORT_TYPE_DEAD_NAME" using deadify_type by (simp add: type_of_def)
  have idx: "ie_index (?t ! k) = ie_index (?t[i := ?d] ! k)" "ie_object (?t ! k) = ie_object (?t[i := ?d] ! k)" for k
    using at [of k] by (simp_all add: deadify_def tab(1))
  have ln: "length ?t = length (?t[i := ?d])" by simp
  note c = hash_inv_cong [OF ln idx, folded tab(1)]
  have ni: "i \<notin> hashed ?t"
  proof
    assume "i \<in> hashed ?t"
    then have "IE_BITS_TYPE (ie_bits (is_table ?S ! i)) = MACH_PORT_TYPE_SEND" using c(1) h(3) by blast
    then show False using at [of i] dead by simp
  qed
  have oc: "space_caps ?S n = other_caps name space n" if "n \<noteq> name" for n
    using fun_cong [OF other_caps_store [OF inv(3,1) deadify_slot], of n] that by (simp add: other_caps_def)
  have apart: "ie_object (?t ! j) \<noteq> ob" if "j \<in> hashed ?t" for j
  proof
    assume eq: "ie_object (?t ! j) = ob"
    have "j \<noteq> i" using that ni by blast
    moreover have "j \<in> hashed (is_table ?S)" using that c(1) by simp
    then have "j < is_table_size ?S" "IE_BITS_TYPE (ie_bits (is_table ?S ! j)) = MACH_PORT_TYPE_SEND"
      using h(3) by blast+
    ultimately have j: "j < length ?t" "IE_BITS_TYPE (ie_bits (?t ! j)) = MACH_PORT_TYPE_SEND" "j \<noteq> i"
      using at [of j] tab(2) by simp_all
    let ?n = "MACH_PORT_MAKEB (of_nat j) (ie_bits (?t ! j))"
    have "space_caps ?S ?n = Some (cap (?t ! j))" "unat (MACH_PORT_INDEX ?n) = j"
      using table_cap [OF names, of j] j at [of j] tab(2) by simp_all
    moreover from this(2) have "?n \<noteq> name" using i(1) j(3) by metis
    ultimately have "other_caps name space ?n = Some (cap (?t ! j))" using oc by metis
    then show False using alone [of ?n] j(2) eq by (simp add: type_of_def)
  qed
  obtain p where p: "ipc_hash_local_insert ?t ob i = Some (set_index ?t p i)" "p < length ?t"
    "hash_inv (set_index ?t p i)" "hashed (set_index ?t p i) = insert i (hashed ?t)"
    using local_insert_spec [OF c(2) [OF h(1)], of i] i(2,3) ni apart ob by auto
  let ?t' = "set_index ?t p i"
  have same: "ie_bits (?t' ! k) = ie_bits (?t ! k)" "ie_object (?t' ! k) = ie_object (?t ! k)"
    "ie_request (?t' ! k) = ie_request (?t ! k)" for k
    using p(2) by (cases "k = p"; simp add: set_index_def)+
  have len: "length ?t' = length ?t" by (simp add: set_index_def)
  let ?s = "space\<lparr>is_table := ?t'\<rparr>"
  have ins: "ipc_hash_insert g space ob name (TableEnt i) = Some (?s, g)"
    using i(1,3) p(1) by (simp add: ipc_hash_insert_def in_table_def is_table_size_def)
  have ptr: "ptr_ok ?s name (TableEnt i)" using i same(1) len by (simp add: ptr_ok_def is_table_size_def)
  have "space_good ns (store_entry ?s (TableEnt i) e, g)"
    if e: "same_slot (?t' ! i) e" "type_of e = MACH_PORT_TYPE_SEND" "ie_object e = ob" for e
  proof -
    have at': "?t'[i := e] ! k = (if k = i then e else ?t' ! k)" for k using i(3) len by (simp add: nth_list_update)
    note slot = same_slot_bits [OF e(1)] same_slot_bits [OF deadify_slot, of "?t ! i"]
    have ch: "free_chain (is_table ?S) (ie_next (is_table ?S ! 0)) ns" "distinct ns"
      using good by (simp_all add: space_good_def free_list_def)
    have nin: "n \<noteq> i \<and> n < length ?t" if "n \<in> set ns" for n
      using free_chain_mem [OF ch(1) that] dead at [of n] by (auto simp: is_table_size_def)
    have used: "IE_BITS_TYPE (ie_bits (?t ! k)) \<noteq> 0"
      if "k \<noteq> i" "k < length ?t" "ie_bits (?t ! k) AND IE_BITS_COLLISION \<noteq> 0" for k
      using coll_used [OF good, of k] at [of k] that by (simp add: tab(1))
    have "space_good ns (?S\<lparr>is_table := ?t'[i := e]\<rparr>, g)"
    proof (rule good_table [OF good])
      show "free_list (?t'[i := e]) ns"
      proof -
        have "free_chain (?t'[i := e]) (ie_next (is_table ?S ! 0)) ns"
          by (rule free_chain_cong [OF ch(1)]) (use nin same at at' len in auto)
        then show ?thesis using ch(2) at at' [of 0] i(2) same(3) [of 0] by (simp add: free_list_def)
      qed
      show "IE_BITS_TYPE (ie_bits (?t'[i := e] ! 0)) = 0"
        using good at [of 0] at' [of 0] i(2) same(1) [of 0] by (simp add: space_good_def)
      have lt: "length (?t'[i := e]) = length ?t'" by simp
      have idx': "ie_index (?t'[i := e] ! k) = ie_index (?t' ! k)" "ie_object (?t'[i := e] ! k) = ie_object (?t' ! k)" for k
        using at' [of k] e(1,3) ob same(2) by (simp_all add: same_slot_def)
      note c' = hash_inv_cong [OF lt idx']
      show "hash_inv (?t'[i := e])" using c'(2) p(3) by simp
      show "hashed (?t'[i := e]) =
          {j. j < length (?t'[i := e]) \<and> IE_BITS_TYPE (ie_bits (?t'[i := e] ! j)) = MACH_PORT_TYPE_SEND}"
      proof (rule set_eqI)
        fix j
        have "j \<in> hashed (?t'[i := e]) \<longleftrightarrow> j = i \<or> j \<in> hashed (is_table ?S)" using c'(1) p(4) c(1) by simp
        moreover have "j \<in> hashed (is_table ?S) \<longleftrightarrow>
            j < is_table_size ?S \<and> IE_BITS_TYPE (ie_bits (is_table ?S ! j)) = MACH_PORT_TYPE_SEND"
          using h(3) by blast
        ultimately show "j \<in> hashed (?t'[i := e]) \<longleftrightarrow>
            j \<in> {j. j < length (?t'[i := e]) \<and> IE_BITS_TYPE (ie_bits (?t'[i := e] ! j)) = MACH_PORT_TYPE_SEND}"
          using at [of j] at' [of j] same(1) [of j] e(2) i(3) len dead tab(2)
          by (cases "j = i") (simp_all add: type_of_def)
      qed
      fix k n x
      assume k: "k \<in> hashed (?t'[i := e])" and x: "splay_map (is_tree ?S) n = Some x"
        "IE_BITS_TYPE (ie_bits x) = MACH_PORT_TYPE_SEND"
      show "ie_object (?t'[i := e] ! k) \<noteq> ie_object x"
      proof (cases "k = i")
        case True
        have "n \<noteq> name"
        proof
          assume "n = name"
          then show False
            using names x(1) i(1,3,4) at [of i] slot(4) by (auto simp: names_inv_def is_table_size_def)
        qed
        then have "\<not> send_cap ob (Some (cap x))" using tree_cap [OF names x(1)] oc alone by metis
        then show ?thesis using True at' e(3) x(2) by (simp add: type_of_def)
      next
        case False
        then have "k \<in> hashed (is_table ?S)" using k c'(1) p(4) c(1) by auto
        from h(5) [OF this x] show ?thesis using at [of k] at' [of k] False same(2) [of k] by simp
      qed
    qed (use at at' slot same(1) e(2) len used in \<open>auto simp: type_of_def\<close>)
    then show ?thesis by simp
  qed
  moreover have "other_caps name ?s = other_caps name space"
  proof
    fix n
    show "other_caps name ?s n = other_caps name space n"
      using len same by (auto simp: other_caps_def space_caps_alt table_entry_def cap_def Let_def)
  qed
  moreover have "same_space space ?s" by (simp add: same_space_def is_table_size_def len)
  ultimately show ?thesis using ins same ptr inv(1) by (auto simp: cap_def)
qed

lemma tree_hash_insert:
  assumes "tree_hash_ok (space, g)" "\<lparr>tr_space = is_self space, tr_name = n, tr_object = ob\<rparr> \<notin> refs g"
    and "refs g' = insert \<lparr>tr_space = is_self space, tr_name = n, tr_object = ob\<rparr> (refs g)"
    and "is_self space' = is_self space" "is_tree_hash space' = is_tree_hash space + 1"
  shows "tree_hash_ok (space', g')"
proof -
  let ?r = "\<lparr>tr_space = is_self space, tr_name = n, tr_object = ob\<rparr>"
  have "{r \<in> refs g'. tr_space r = is_self space'} = insert ?r {r \<in> refs g. tr_space r = is_self space}"
    using assms(3,4) by auto
  then show ?thesis using assms(1,2,5) by (simp add: tree_hash_ok_def)
qed

lemma hash_insert_tree:
  assumes f: "in_flux ns (space, g) name (TreeEnt name)" and e: "splay_map (is_tree space) name = Some e"
    and alone: "\<And>n. \<not> send_cap (ie_object e) (other_caps name space n)"
  shows "\<exists>space' g'. ipc_hash_insert g space (ie_object e) name (TreeEnt name) = Some (space', g') \<and>
    entry_at space' (TreeEnt name) = e \<and> ptr_ok space' name (TreeEnt name) \<and> splay_inv (is_tree space') \<and>
    same_space space space' \<and> other_caps name space' = other_caps name space \<and>
    (\<forall>e'. same_slot e e' \<longrightarrow> type_of e' = MACH_PORT_TYPE_SEND \<longrightarrow> ie_object e' = ie_object e \<longrightarrow>
      space_good ns (store_entry space' (TreeEnt name) e', g'))"
proof -
  note inv = flux_inv [OF f]
  let ?m = "splay_map (is_tree space)" and ?ob = "ie_object e"
  let ?d = "deadify e" and ?r = "\<lparr>tr_space = is_self space, tr_name = name, tr_object = ?ob\<rparr>"
  let ?S = "store_entry space (TreeEnt name) ?d"
  have good: "space_good ns (?S, g)" using inv(4) e by simp
  have names: "names_inv ?S" using space_good_names [OF good] by simp
  have mS: "splay_map (is_tree ?S) = ?m(name \<mapsto> ?d)"
    using splay.store_law [OF inv(1), of name ?d] e by auto
  note h = good_hash [OF good, unfolded mS]
  have dead: "IE_BITS_TYPE (ie_bits ?d) = MACH_PORT_TYPE_DEAD_NAME" using deadify_type by (simp add: type_of_def)
  have fS: "is_table ?S = is_table space" "is_self ?S = is_self space" "is_table_size ?S = is_table_size space"
    "is_tree_total ?S = is_tree_total space" "is_fast ?S = is_fast space" "is_tree_hash ?S = is_tree_hash space"
    by (simp_all add: is_table_size_def)
  have oc: "space_caps ?S n = other_caps name space n" if "n \<noteq> name" for n
    using fun_cong [OF other_caps_store [OF inv(3,1)], of "?d" n] deadify_slot [of e] that e by (simp add: other_caps_def)
  have alone': "\<not> send_cap ?ob (space_caps ?S n)" for n
  proof (cases "n = name")
    case True
    have "space_caps ?S name = Some (cap ?d)" using tree_cap [OF names] mS by simp
    then show ?thesis using True deadify_type [of e] by simp
  next
    case False
    then show ?thesis using oc alone by metis
  qed
  have absent: "\<forall>r \<in> refs g. tr_space r = is_self space \<longrightarrow> tr_object r \<noteq> ?ob"
  proof (intro ballI impI notI)
    fix r assume r: "r \<in> refs g" "tr_space r = is_self space" "tr_object r = ?ob"
    then have "\<lparr>tr_space = is_self ?S, tr_name = tr_name r, tr_object = ?ob\<rparr> \<in> refs g"
      using fS(2) by (cases r) simp
    then obtain x where "splay_map (is_tree ?S) (tr_name r) = Some x" "type_of x = MACH_PORT_TYPE_SEND" "ie_object x = ?ob"
      using h(4) mS unfolding type_of_def by metis
    then show False using alone' [of "tr_name r"] tree_cap [OF names] by simp
  qed
  obtain space' g' where ins: "ipc_hash_global_insert g space ?ob name = (space', g')" by fastforce
  have gi: "global_inv g'" "space' = space\<lparr>is_tree_hash := is_tree_hash space + 1\<rparr>" "refs g' = insert ?r (refs g)"
    using global_insert_spec [OF h(2) absent ins] by simp_all
  have res: "ipc_hash_insert g space ?ob name (TreeEnt name) = Some (space', g')"
    using ins by (simp add: ipc_hash_insert_def in_table_def)
  have "space_good ns (store_entry space' (TreeEnt name) e', g')"
    if e': "same_slot e e'" "type_of e' = MACH_PORT_TYPE_SEND" "ie_object e' = ?ob" for e'
  proof -
    let ?T = "store_entry space' (TreeEnt name) e'"
    have m: "splay_inv (is_tree ?T)" "splay_map (is_tree ?T) = ?m(name \<mapsto> e')"
      using splay.store_law [OF inv(1), of name e'] e gi(2) by auto
    have dom: "dom (?m(name \<mapsto> e')) = dom (?m(name \<mapsto> ?d))" by auto
    have fT: "is_table ?T = is_table ?S" "is_self ?T = is_self ?S" "is_table_size ?T = is_table_size ?S"
      "is_tree_total ?T = is_tree_total ?S" "is_fast ?T = is_fast ?S" "is_tree_hash ?T = is_tree_hash space + 1"
      using gi(2) by (simp_all add: is_table_size_def)
    have Sm: "MACH_PORT_INDEX n \<noteq> 0 \<and> n \<noteq> MACH_PORT_DEAD \<and> ie_bits x AND IE_BITS_RIGHT_MASK = ie_bits x"
      if "(?m(name \<mapsto> ?d)) n = Some x" for n x
      using names that unfolding names_inv_def mS by blast
    have slot: "same_slot ?d e'" using deadify_slot e'(1) same_slot_sym same_slot_trans by blast
    have ends: "MACH_PORT_INDEX n \<noteq> 0 \<and> n \<noteq> MACH_PORT_DEAD \<and> ie_bits x AND IE_BITS_RIGHT_MASK = ie_bits x"
      if "(?m(name \<mapsto> e')) n = Some x" for n x
      using that Sm [of n x] Sm [of name ?d] same_slot_bits(3) [OF slot] by (cases "n = name") auto
    have "names_inv ?T" using names m(1) ends unfolding names_inv_def m(2) mS dom fT by blast
    moreover have "hash_ok {} (?T, g')"
    proof -
      have "\<lparr>tr_space = is_self ?S, tr_name = n, tr_object = ob\<rparr> \<in> refs g' \<longleftrightarrow>
          (\<exists>x. (?m(name \<mapsto> e')) n = Some x \<and> IE_BITS_TYPE (ie_bits x) = MACH_PORT_TYPE_SEND \<and> ie_object x = ob)" for n ob
      proof (cases "n = name")
        case True
        have "\<lparr>tr_space = is_self ?S, tr_name = name, tr_object = ob\<rparr> \<notin> refs g" using h(4) [of name ob] dead by simp
        then show ?thesis using True e' by (auto simp: gi(3) fS(2) type_of_def)
      next
        case False
        then show ?thesis using h(4) [of n ob] by (simp add: gi(3))
      qed
      moreover have "\<forall>i \<in> hashed (is_table ?S). \<forall>n x. (?m(name \<mapsto> e')) n = Some x \<longrightarrow>
          IE_BITS_TYPE (ie_bits x) = MACH_PORT_TYPE_SEND \<longrightarrow> ie_object (is_table ?S ! i) \<noteq> ie_object x"
      proof (intro ballI allI impI)
        fix i n x
        assume i: "i \<in> hashed (is_table ?S)" and x: "(?m(name \<mapsto> e')) n = Some x"
          "IE_BITS_TYPE (ie_bits x) = MACH_PORT_TYPE_SEND"
        show "ie_object (is_table ?S ! i) \<noteq> ie_object x"
        proof (cases "n = name")
          case True
          have "i < is_table_size ?S" "IE_BITS_TYPE (ie_bits (is_table ?S ! i)) = MACH_PORT_TYPE_SEND"
            using i h(3) by blast+
          then have "ie_object (is_table ?S ! i) \<noteq> ?ob"
            using table_cap(1) [OF names, of i] alone' by (metis send_cap_cap type_of_def dead_types(3))
          then show ?thesis using True x(1) e'(3) by simp
        next
          case False
          then have "(?m(name \<mapsto> ?d)) n = Some x" using x(1) by simp
          from h(5) [OF i this x(2)] show ?thesis .
        qed
      qed
      ultimately show ?thesis
        unfolding hash_ok_def prod.case m(2) fT using h(1,3) gi(1) by blast
    qed
    moreover have "tree_hash_ok (?T, g')"
      using tree_hash_insert [of space g name ?ob g' ?T] good absent gi(3) fT(2,6) fS
      by (fastforce simp: space_good_def tree_hash_ok_def)
    moreover have "\<forall>n x. (?m(name \<mapsto> e')) n = Some x \<longrightarrow> IE_BITS_TYPE (ie_bits x) \<noteq> 0"
    proof (intro allI impI)
      fix n x assume x: "(?m(name \<mapsto> e')) n = Some x"
      have ty: "\<forall>n x. (?m(name \<mapsto> ?d)) n = Some x \<longrightarrow> IE_BITS_TYPE (ie_bits x) \<noteq> 0"
        using good unfolding space_good_def prod.case mS by blast
      show "IE_BITS_TYPE (ie_bits x) \<noteq> 0"
      proof (cases "n = name")
        case True
        then show ?thesis using x e'(2) by (simp add: type_of_def)
      next
        case False
        then have "(?m(name \<mapsto> ?d)) n = Some x" using x by simp
        then show ?thesis using ty by blast
      qed
    qed
    ultimately show ?thesis
      using good unfolding space_good_def prod.case m(2) fT by blast
  qed
  moreover have "other_caps name space' = other_caps name space"
    by (simp add: other_caps_def space_caps_alt gi(2) fun_eq_iff split: option.split)
  ultimately show ?thesis
    using res e inv(1) gi(2) by (auto simp: ptr_ok_def same_space_def is_table_size_def)
qed

lemma hash_insert_flux:
  assumes "in_flux ns (space, g) name entry" "ie_object (entry_at space entry) = ob"
    "\<And>n. \<not> send_cap ob (other_caps name space n)"
  obtains space' g' where "ipc_hash_insert g space ob name entry = Some (space', g')"
    "cap (entry_at space' entry) = cap (entry_at space entry)" "ie_bits (entry_at space' entry) = ie_bits (entry_at space entry)"
    "same_space space space'" "other_caps name space' = other_caps name space"
    "\<And>e. entry_at (store_entry space' entry e) entry = e"
    "\<And>e. same_slot (entry_at space' entry) e \<Longrightarrow> type_of e = MACH_PORT_TYPE_SEND \<Longrightarrow> ie_object e = ob \<Longrightarrow>
       space_good ns (store_entry space' entry e, g') \<and>
       space_caps (store_entry space' entry e) = (other_caps name space)(name \<mapsto> cap e)"
proof -
  obtain space' g' where s: "ipc_hash_insert g space ob name entry = Some (space', g')"
    "cap (entry_at space' entry) = cap (entry_at space entry)" "ie_bits (entry_at space' entry) = ie_bits (entry_at space entry)"
    "same_space space space'" "other_caps name space' = other_caps name space"
    "ptr_ok space' name entry" "splay_inv (is_tree space')"
    "\<forall>e. same_slot (entry_at space' entry) e \<longrightarrow> type_of e = MACH_PORT_TYPE_SEND \<longrightarrow> ie_object e = ob \<longrightarrow>
      space_good ns (store_entry space' entry e, g')"
  proof (cases entry)
    case (TableEnt i)
    then show ?thesis using hash_insert_table [of ns space g name i ob] assms that by auto
  next
    case (TreeEnt n)
    then obtain e where "n = name" "splay_map (is_tree space) name = Some e"
      using flux_inv(3) [OF assms(1)] by (auto simp: ptr_ok_def)
    then show ?thesis using hash_insert_tree [of ns space g name e] assms that TreeEnt by auto
  qed
  have "space_good ns (store_entry space' entry e, g') \<and>
      space_caps (store_entry space' entry e) = (other_caps name space)(name \<mapsto> cap e)"
    if e: "same_slot (entry_at space' entry) e" "type_of e = MACH_PORT_TYPE_SEND" "ie_object e = ob" for e
  proof -
    have g: "space_good ns (store_entry space' entry e, g')" using s(8) e by blast
    have at: "entry_at (store_entry space' entry e) entry = e" by (rule entry_at_store [OF s(6,7)])
    have "space_caps (store_entry space' entry e) name = Some (cap e)"
      using good_cap [OF g ptr_ok_store [OF s(6,7) e(1)]] e(2) by (simp add: at)
    then show ?thesis
      using g fun_cong [OF other_caps_store [OF s(6,7) e(1)]] s(5)
      by (auto simp: other_caps_def fun_eq_iff split: if_splits) metis
  qed
  then show ?thesis using that [OF s(1-5)] entry_at_store [OF s(6,7)] by blast
qed

subsection \<open>Finding entries\<close>

lemma good_tree_shape:
  assumes "space_good ns (space, g)" "splay_inv tree" "splay_map tree = splay_map (is_tree space)"
  shows "space_good ns (space\<lparr>is_tree := tree\<rparr>, g)" "space_caps (space\<lparr>is_tree := tree\<rparr>) = space_caps space"
proof -
  have "names_inv (space\<lparr>is_tree := tree\<rparr>)" using names_inv_tree assms by (simp add: space_good_def)
  moreover have "hash_ok {} (space\<lparr>is_tree := tree\<rparr>, g)"
    using assms by (simp add: space_good_def hash_ok_def is_table_size_def)
  ultimately show "space_good ns (space\<lparr>is_tree := tree\<rparr>, g)"
    using assms by (simp add: space_good_def tree_hash_ok_def)
  show "space_caps (space\<lparr>is_tree := tree\<rparr>) = space_caps space"
    using assms(3) by (simp add: space_caps_alt fun_eq_iff split: option.split)
qed

lemma lookup_good:
  assumes good: "space_good ns (space, g)" and l: "ipc_entry_lookup space name = (res, space')"
  shows "space_good ns (space', g) \<and> space_caps space' = space_caps space \<and> same_space space space' \<and>
    (case res of None \<Rightarrow> space_caps space name = None
     | Some entry \<Rightarrow> ptr_ok space' name entry \<and> type_of (entry_at space' entry) \<noteq> 0)"
proof -
  let ?i = "unat (MACH_PORT_INDEX name)"
  have inv: "names_inv space" and fast: "\<not> is_fast space" using good by (auto simp: space_good_def)
  note spec = entry_lookup_spec [OF inv l]
  have zero: "IE_BITS_TYPE (ie_bits (is_table space ! 0)) = 0"
    and ty: "\<And>n e. splay_map (is_tree space) n = Some e \<Longrightarrow> IE_BITS_TYPE (ie_bits e) \<noteq> 0"
    using good by (auto simp: space_good_def)
  have none: "res = None \<Longrightarrow> space_caps space name = None"
    using spec fast by (simp add: space_caps_def)
  have tree: "\<exists>tree. space' = space\<lparr>is_tree := tree\<rparr> \<and> splay_inv tree \<and> splay_map tree = splay_map (is_tree space) \<and>
      (\<forall>p. res = Some p \<longrightarrow> p = TreeEnt name \<and> name \<in> dom (splay_map (is_tree space)))"
    if "tree_lookup space name = (res, space')"
    using tree_lookup_spec [OF inv that] by (auto simp: names_inv_def split: if_splits)
  consider (same) "space' = space" "\<And>p. res = Some p \<Longrightarrow> p = TableEnt ?i \<and> ?i < is_table_size space \<and>
        IE_BITS_GEN (ie_bits (is_table space ! ?i)) = MACH_PORT_GEN name \<and> IE_BITS_TYPE (ie_bits (is_table space ! ?i)) \<noteq> 0"
    | (tree) "tree_lookup space name = (res, space')"
    using l fast by (auto simp: ipc_entry_lookup_def Let_def split: if_splits)
  then show ?thesis
  proof cases
    case same
    then show ?thesis
      using good none zero
      by (auto simp: same_space_def ptr_ok_def type_of_def split: option.split) (metis gr0I)
  next
    case t: tree
    obtain tree where s: "space' = space\<lparr>is_tree := tree\<rparr>" "splay_inv tree" "splay_map tree = splay_map (is_tree space)"
      "\<forall>p. res = Some p \<longrightarrow> p = TreeEnt name \<and> name \<in> dom (splay_map (is_tree space))"
      using tree [OF t] by blast
    then show ?thesis
      using good_tree_shape [OF good s(2,3)] none ty
      by (auto simp: same_space_def ptr_ok_def is_table_size_def type_of_def split: option.split)
  qed
qed

lemma gen_right [simp]: "MACH_PORT_GEN n AND IE_BITS_RIGHT_MASK = 0"
  by (rule bit_word_eqI) (auto simp: bit_blast)

lemma get_good:
  assumes good: "space_good ns (space, g)" and get: "ipc_entry_get space = Some (name, entry, space')"
  shows "\<exists>ns'. in_flux ns' (space', g) name entry \<and> other_caps name space' = space_caps space \<and>
    space_caps space name = None \<and> same_space space space' \<and>
    ie_bits (entry_at space' entry) AND IE_BITS_RIGHT_MASK = 0 \<and> ie_request (entry_at space' entry) = 0"
proof -
  have inv: "names_inv space" and zero: "IE_BITS_TYPE (ie_bits (is_table space ! 0)) = 0"
    and free: "free_list (is_table space) ns"
    using good by (auto simp: space_good_def)
  have "ns \<noteq> []" using free get by (auto simp: free_list_def ipc_entry_get_def Let_def)
  then obtain i ns' where ns: "ns = i # ns'" by (cases ns) auto
  let ?t = "is_table space"
  have f: "unat (ie_next (?t ! 0)) = i" "i \<noteq> 0" "i < length ?t" "IE_BITS_TYPE (ie_bits (?t ! i)) = 0"
    "ie_bits (?t ! i) AND IE_BITS_COLLISION = 0" "free_chain ?t (ie_next (?t ! i)) ns'" "i \<notin> set ns'"
    using free by (auto simp: ns free_list_def)
  obtain name' s' where g: "ipc_entry_get space = Some (name', TableEnt i, s')" "names_inv s'"
    "free_list (is_table s') ns'" "space_names s' = space_names space" "unat (MACH_PORT_INDEX name') = i"
    "is_table_size s' = is_table_size space" "ie_bits (is_table s' ! i) = MACH_PORT_GEN name'"
    "ie_request (is_table s' ! i) = 0" "s' = space\<lparr>is_table := is_table s'\<rparr>" "name' \<notin> dom (space_names space)"
    using entry_get_spec [OF inv free [unfolded ns] zero] by blast
  have e: "entry = TableEnt i" "name' = name" "s' = space'" using get g(1) by simp_all
  let ?t' = "is_table space'"
  have t': "?t' = ?t[0 := (?t ! 0)\<lparr>ie_request := ie_next (?t ! i)\<rparr>,
      i := (?t ! i)\<lparr>ie_bits := IE_BITS_NEW_GEN (ie_bits (?t ! i)), ie_request := 0\<rparr>]"
    using get f(1,2) by (auto simp: ipc_entry_get_def Let_def split: if_splits)
  have len: "length ?t' = length ?t" by (simp add: t')
  have fld: "ie_index (?t' ! k) = ie_index (?t ! k)" "ie_object (?t' ! k) = ie_object (?t ! k)"
    "k \<noteq> i \<Longrightarrow> ie_bits (?t' ! k) = ie_bits (?t ! k)" for k
  proof -
    have "0 < length ?t" using f(3) by linarith
    then show "ie_index (?t' ! k) = ie_index (?t ! k)" "ie_object (?t' ! k) = ie_object (?t ! k)"
      "k \<noteq> i \<Longrightarrow> ie_bits (?t' ! k) = ie_bits (?t ! k)"
      using f(2,3) by (cases "k = i"; cases "k = 0"; simp add: t')+
  qed
  note c = hash_inv_cong [OF len fld(1,2)]
  note h = good_hash [OF good]
  let ?d = "deadify (?t' ! i)"
  have dead: "IE_BITS_TYPE (ie_bits ?d) = MACH_PORT_TYPE_DEAD_NAME" using deadify_type by (simp add: type_of_def)
  have at: "?t'[i := ?d] ! k = (if k = i then ?d else ?t' ! k)" for k using f(3) len by (simp add: nth_list_update)
  have bi: "ie_bits (?t' ! i) = MACH_PORT_GEN name" using g(7) e by simp
  have di: "ie_bits ?d AND IE_BITS_COLLISION = 0"
    using same_slot_bits(2) [OF deadify_slot, of "?t' ! i"] by (simp add: bi)
  have "space_good ns' (space\<lparr>is_table := ?t'[i := ?d]\<rparr>, g)"
  proof (rule good_table [OF good])
    have ch: "free_chain ?t' (ie_next (?t' ! 0)) ns'" "distinct ns'" using g(3) e by (simp_all add: free_list_def)
    have "free_chain (?t'[i := ?d]) (ie_next (?t' ! 0)) ns'"
      by (rule free_chain_cong [OF ch(1)]) (use f(7) at in auto)
    then show "free_list (?t'[i := ?d]) ns'" using ch(2) at [of 0] f(2) by (simp add: free_list_def)
    show "IE_BITS_TYPE (ie_bits (?t'[i := ?d] ! 0)) = 0" using at [of 0] f(2) fld(3) [of 0] zero by simp
    have idx: "ie_index (?t'[i := ?d] ! k) = ie_index (?t' ! k)" "ie_object (?t'[i := ?d] ! k) = ie_object (?t' ! k)" for k
      using at [of k] by (simp_all add: deadify_def)
    have lt: "length (?t'[i := ?d]) = length ?t'" by simp
    note c' = hash_inv_cong [OF lt idx]
    show "hash_inv (?t'[i := ?d])" using c' c h(1) by blast
    have hd: "hashed (?t'[i := ?d]) = hashed ?t" using c'(1) c(1) by simp
    show "hashed (?t'[i := ?d]) =
        {j. j < length (?t'[i := ?d]) \<and> IE_BITS_TYPE (ie_bits (?t'[i := ?d] ! j)) = MACH_PORT_TYPE_SEND}"
    proof (rule set_eqI)
      fix j
      have "j \<in> hashed ?t \<longleftrightarrow> j < length ?t \<and> IE_BITS_TYPE (ie_bits (?t ! j)) = MACH_PORT_TYPE_SEND"
        using h(3) by (auto simp: is_table_size_def)
      then show "j \<in> hashed (?t'[i := ?d]) \<longleftrightarrow>
          j \<in> {j. j < length (?t'[i := ?d]) \<and> IE_BITS_TYPE (ie_bits (?t'[i := ?d] ! j)) = MACH_PORT_TYPE_SEND}"
        using hd at [of j] fld(3) [of j] len f(4) dead by (cases "j = i") simp_all
    qed
    fix k n x
    assume k: "k \<in> hashed (?t'[i := ?d])" and x: "splay_map (is_tree space) n = Some x"
      "IE_BITS_TYPE (ie_bits x) = MACH_PORT_TYPE_SEND"
    then have "ie_object (?t ! k) \<noteq> ie_object x" using h(5) [OF _ x] hd by simp
    then show "ie_object (?t'[i := ?d] ! k) \<noteq> ie_object x" using idx(2) fld(2) by simp
  next
    fix k assume k: "k < length (?t'[i := ?d])" "ie_bits (?t ! k) AND IE_BITS_COLLISION \<noteq> 0"
    then have "k \<noteq> i" "k < length ?t" using f(5) len by auto
    then show "IE_BITS_GEN (ie_bits (?t'[i := ?d] ! k)) = IE_BITS_GEN (ie_bits (?t ! k)) \<and>
        IE_BITS_TYPE (ie_bits (?t'[i := ?d] ! k)) \<noteq> 0"
      using at [of k] fld(3) [of k] coll_used [OF good _ k(2)] by simp
  next
    fix k assume "k < length (?t'[i := ?d])"
    show "ie_bits (?t'[i := ?d] ! k) AND IE_BITS_COLLISION = ie_bits (?t ! k) AND IE_BITS_COLLISION"
      using at [of k] fld(3) [of k] di f(5) by (cases "k = i") simp_all
  qed (simp add: len)
  moreover have "space\<lparr>is_table := ?t'[i := ?d]\<rparr> = store_entry space' (TableEnt i) ?d"
    using arg_cong [OF g(9), of "\<lambda>s. s\<lparr>is_table := ?t'[i := ?d]\<rparr>"] e by simp
  moreover have "ptr_ok space' name (TableEnt i)"
    using g(5,6) e f(2,3) bi by (simp add: ptr_ok_def is_table_size_def)
  moreover have "splay_inv (is_tree space')" using g(2) e by (simp add: names_inv_def)
  ultimately have "in_flux ns' (space', g) name entry" by (simp add: in_flux_def e(1))
  moreover have "space_caps space' = space_caps space" using g(4) e by (simp add: space_caps_def fun_eq_iff)
  moreover have "space_caps space name = None" using g(10) e by (auto simp: space_caps_def)
  moreover have "is_self space' = is_self space" "is_active space' = is_active space" "is_fast space' = is_fast space"
    using arg_cong [OF g(9), of is_self] arg_cong [OF g(9), of is_active] arg_cong [OF g(9), of is_fast] e by simp_all
  ultimately show ?thesis
    using g(6,8) e bi by (intro exI [of _ ns']) (auto simp: same_space_def other_caps_def)
qed

lemma get_none: "space_good ns (space, g) \<Longrightarrow> ipc_entry_get space = None \<longleftrightarrow> ns = []"
  by (cases ns) (auto simp: space_good_def free_list_def ipc_entry_get_def Let_def)

lemma send_cap_cases:
  assumes "space_good ns (space, g)" "send_cap ob (space_caps space n)"
  shows "(\<exists>i \<in> hashed (is_table space). ie_object (is_table space ! i) = ob) \<or>
    \<lparr>tr_space = is_self space, tr_name = n, tr_object = ob\<rparr> \<in> refs g"
proof (cases "table_entry (is_table space) n")
  case None
  then obtain e where "splay_map (is_tree space) n = Some e" "send_cap ob (Some (cap e))"
    using assms(2) by (cases "splay_map (is_tree space) n") (auto simp: space_caps_alt)
  then show ?thesis using good_hash(4) [OF assms(1)] by (auto simp: type_of_def)
next
  case (Some e)
  then have "send_cap ob (Some (cap e))" using assms(2) by (simp add: space_caps_alt)
  then show ?thesis
    using Some good_hash(3) [OF assms(1)]
    by (auto simp: table_entry_def type_of_def is_table_size_def Let_def split: if_splits)
qed

lemma hash_lookup_good:
  assumes good: "space_good ns (space, g)"
  shows "\<exists>res g'. ipc_hash_lookup g space ob = Some (res, g') \<and> space_good ns (space, g') \<and>
    (case res of
       None \<Rightarrow> \<forall>n. \<not> send_cap ob (space_caps space n)
     | Some (n, entry) \<Rightarrow> ptr_ok space n entry \<and> type_of (entry_at space entry) = MACH_PORT_TYPE_SEND \<and>
         ie_object (entry_at space entry) = ob)"
proof -
  note h = good_hash [OF good]
  have inv: "names_inv space" using good by (simp add: space_good_def)
  obtain i where i: "ipc_hash_local_lookup (is_table space) ob = Some i"
    "if i = 0 then \<forall>j \<in> hashed (is_table space). ie_object (is_table space ! j) \<noteq> ob
     else i \<in> hashed (is_table space) \<and> ie_object (is_table space ! i) = ob"
    using local_hash.lookup_law [OF h(1), of ob] by auto
  show ?thesis
  proof (cases "i = 0")
    case False
    then have "i \<in> hashed (is_table space)" "ie_object (is_table space ! i) = ob" using i(2) by simp_all
    moreover from this(1) have "i < is_table_size space" "IE_BITS_TYPE (ie_bits (is_table space ! i)) = MACH_PORT_TYPE_SEND"
      using h(3) by blast+
    moreover from this have "unat (MACH_PORT_INDEX (MACH_PORT_MAKEB (of_nat i) (ie_bits (is_table space ! i)))) = i"
      using table_cap(2) [OF inv] by simp
    moreover have "MACH_PORT_GEN (MACH_PORT_MAKEB (of_nat i) (ie_bits (is_table space ! i))) = IE_BITS_GEN (ie_bits (is_table space ! i))"
      by (simp add: MACH_PORT_MAKEB_def gen_make IE_BITS_GEN_def and.assoc)
    ultimately show ?thesis
      using False i(1) good by (simp add: ipc_hash_lookup_def ptr_ok_def type_of_def)
  next
    case True
    then have no: "\<forall>j \<in> hashed (is_table space). ie_object (is_table space ! j) \<noteq> ob" using i(2) by simp
    show ?thesis
    proof (cases "is_tree_hash space > 0")
      case hash: True
      obtain res g' where l: "ipc_hash_global_lookup g space ob = (res, g')" by fastforce
      note spec = global_lookup_spec [OF h(2) l]
      have g': "space_good ns (space, g')"
        using good spec by (simp add: space_good_def hash_ok_def tree_hash_ok_def)
      have r: "ipc_hash_lookup g space ob = Some (map_option (\<lambda>name. (name, TreeEnt name)) res, g')"
        using i(1) True hash l by (simp add: ipc_hash_lookup_def)
      show ?thesis
      proof (cases res)
        case None
        then have "\<forall>n. \<not> send_cap ob (space_caps space n)"
          using send_cap_cases [OF good] no spec by fastforce
        then show ?thesis using g' r None by simp
      next
        case (Some n)
        then obtain e where "splay_map (is_tree space) n = Some e" "type_of e = MACH_PORT_TYPE_SEND" "ie_object e = ob"
          using spec h(4) [of n ob] by (auto simp: type_of_def)
        then show ?thesis using g' r Some by (simp add: ptr_ok_def dom_def)
      qed
    next
      case False
      let ?R = "{r \<in> refs g. tr_space r = is_self space}"
      have "card ?R \<le> card (dom (splay_map (is_tree space)))"
      proof (rule card_inj_on_le)
        show "inj_on tr_name ?R"
        proof (rule inj_onI)
          fix r r' assume r: "r \<in> ?R" "r' \<in> ?R" "tr_name r = tr_name r'"
          have "\<lparr>tr_space = is_self space, tr_name = tr_name r, tr_object = tr_object r\<rparr> \<in> refs g"
            "\<lparr>tr_space = is_self space, tr_name = tr_name r, tr_object = tr_object r'\<rparr> \<in> refs g"
            using r by (cases r; cases r'; simp)+
          then have "tr_object r = tr_object r'" using h(4) by force
          then show "r = r'" using r by (cases r; cases r'; simp)
        qed
        have "tr_name r \<in> dom (splay_map (is_tree space))" if "r \<in> ?R" for r
        proof -
          have "\<lparr>tr_space = is_self space, tr_name = tr_name r, tr_object = tr_object r\<rparr> \<in> refs g"
            using that by (cases r) simp
          then show ?thesis using h(4) by blast
        qed
        then show "tr_name ` ?R \<subseteq> dom (splay_map (is_tree space))" by blast
      qed simp
      moreover have "card (dom (splay_map (is_tree space))) < 2 ^ 32"
      proof -
        have "unat (is_tree_total space) = card (dom (splay_map (is_tree space)))"
          using inv unfolding names_inv_def by blast
        moreover have "unat (is_tree_total space) < 2 ^ LENGTH(32)" by (rule unsigned_less)
        ultimately show ?thesis by simp
      qed
      ultimately have "card ?R < 2 ^ 32" by linarith
      then have "unat (of_nat (card ?R) :: natural_t) = card ?R" by (rule unat_index)
      moreover have "of_nat (card ?R) = (0 :: natural_t)"
      proof -
        have "tree_hash_ok (space, g)" using good unfolding space_good_def prod.case by blast
        then have "is_tree_hash space = of_nat (card ?R)" unfolding tree_hash_ok_def prod.case .
        moreover have "is_tree_hash space = 0" using False by (simp add: word_greater_zero_iff)
        ultimately show ?thesis by simp
      qed
      ultimately have "card ?R = 0" by simp
      then have "?R = {}" by simp
      then have "\<forall>n. \<not> send_cap ob (space_caps space n)"
        using send_cap_cases [OF good] no by fastforce
      then show ?thesis using i(1) True False good by (simp add: ipc_hash_lookup_def)
    qed
  qed
qed

end
