(* ===== verification/Right_State.thy ===== *)
theory Right_State
  imports Ipc_Reverse
begin

section \<open>Rights of a space and the ports they are for\<close>

text \<open>
  The invariant of a space and the ports its rights are for, and the ledger that every operation on rights
  has to balance: the counts in a port against the rights the space holds.
\<close>

subsection \<open>Bits of a right\<close>

definition right_types :: "mach_port_type_t set" where
  "right_types = {MACH_PORT_TYPE_SEND, MACH_PORT_TYPE_RECEIVE, MACH_PORT_TYPE_SEND_RECEIVE,
     MACH_PORT_TYPE_SEND_ONCE, MACH_PORT_TYPE_PORT_SET, MACH_PORT_TYPE_DEAD_NAME}"

text \<open>A test of a type bit depends on the type only.\<close>

lemma type_tests:
  "b AND MACH_PORT_TYPE_SEND = IE_BITS_TYPE b AND MACH_PORT_TYPE_SEND"
  "b AND MACH_PORT_TYPE_RECEIVE = IE_BITS_TYPE b AND MACH_PORT_TYPE_RECEIVE"
  "b AND MACH_PORT_TYPE_SEND_ONCE = IE_BITS_TYPE b AND MACH_PORT_TYPE_SEND_ONCE"
  "b AND MACH_PORT_TYPE_PORT_SET = IE_BITS_TYPE b AND MACH_PORT_TYPE_PORT_SET"
  "b AND MACH_PORT_TYPE_DEAD_NAME = IE_BITS_TYPE b AND MACH_PORT_TYPE_DEAD_NAME"
  "b AND MACH_PORT_TYPE_SEND_RIGHTS = IE_BITS_TYPE b AND MACH_PORT_TYPE_SEND_RIGHTS"
  "b AND MACH_PORT_TYPE_PORT_RIGHTS = IE_BITS_TYPE b AND MACH_PORT_TYPE_PORT_RIGHTS"
  "b AND MACH_PORT_TYPE_PORT_OR_DEAD = IE_BITS_TYPE b AND MACH_PORT_TYPE_PORT_OR_DEAD"
  by (simp_all add: IE_BITS_TYPE_def IE_BITS_TYPE_MASK_def type_values and.assoc)

lemma type_bits [simp]:
  "IE_BITS_TYPE (b AND IE_BITS_RIGHT_MASK) = IE_BITS_TYPE b"
  "IE_BITS_UREFS (b AND IE_BITS_RIGHT_MASK) = IE_BITS_UREFS b"
  by (rule bit_word_eqI; auto simp: bit_blast IE_BITS_UREFS_def)+

text \<open>Adding to the user references.\<close>

definition urefs_of :: "ipc_entry_bits_t \<Rightarrow> nat" where
  "urefs_of b = unat (IE_BITS_UREFS b)"

lemma urefs_of_bound: "urefs_of b < 0x10000"
proof -
  have "unat (IE_BITS_UREFS b) = nat (uint (IE_BITS_UREFS b))" by simp
  then show ?thesis using urefs_bound [of b] by (simp add: urefs_of_def nat_less_iff del: nat_uint_eq)
qed

lemma urefs_change:
  assumes "0 \<le> int (urefs_of b) + k" "int (urefs_of b) + k < 0x10000"
  shows "IE_BITS_TYPE (b + word_of_int k) = IE_BITS_TYPE b" "int (urefs_of (b + word_of_int k)) = int (urefs_of b) + k"
    "(b + word_of_int k) AND NOT IE_BITS_RIGHT_MASK = b AND NOT IE_BITS_RIGHT_MASK"
proof -
  have u: "uint (IE_BITS_UREFS b) = int (urefs_of b)" by (simp add: urefs_of_def)
  have "uint (IE_BITS_UREFS b + word_of_int k) = (int (urefs_of b) + k) mod 2 ^ 32"
    by (simp add: uint_word_ariths u uint_word_of_int mod_add_right_eq)
  then have s: "uint (IE_BITS_UREFS b + word_of_int k) = int (urefs_of b) + k" using assms by simp
  then have lt: "uint (IE_BITS_UREFS b + word_of_int k) < 0x10000" using assms(2) by simp
  have "m AND mask 16 = 0 \<Longrightarrow> (b + word_of_int k) AND m = b AND m" for m
    by (rule high_bits_add [OF lt])
  moreover have "IE_BITS_TYPE_MASK AND mask 16 = 0" "NOT IE_BITS_RIGHT_MASK AND mask 16 = 0"
    by (rule bit_word_eqI; auto simp: bit_blast bit_mask_iff)+
  ultimately show "IE_BITS_TYPE (b + word_of_int k) = IE_BITS_TYPE b"
    "(b + word_of_int k) AND NOT IE_BITS_RIGHT_MASK = b AND NOT IE_BITS_RIGHT_MASK"
    by (simp_all add: IE_BITS_TYPE_def)
  show "int (urefs_of (b + word_of_int k)) = int (urefs_of b) + k"
    using urefs_bits_add [OF lt] s by (simp add: urefs_of_def)
qed

lemma urefs_one: "IE_BITS_UREFS b = 1 \<longleftrightarrow> urefs_of b = 1"
  by (simp add: urefs_of_def word_unat_eq_iff)

lemma urefs_up:
  assumes "urefs_of b < 0xffff"
  shows "IE_BITS_TYPE (b + 1) = IE_BITS_TYPE b" "urefs_of (b + 1) = urefs_of b + 1"
    "(b + 1) AND NOT IE_BITS_RIGHT_MASK = b AND NOT IE_BITS_RIGHT_MASK"
  using urefs_change [of b 1] assms by simp_all

lemma urefs_down:
  assumes "0 < urefs_of b"
  shows "IE_BITS_TYPE (b - 1) = IE_BITS_TYPE b" "urefs_of (b - 1) = urefs_of b - 1"
    "(b - 1) AND NOT IE_BITS_RIGHT_MASK = b AND NOT IE_BITS_RIGHT_MASK"
  using urefs_change [of b "- 1"] assms urefs_of_bound [of b] by simp_all

text \<open>Replacing the type, and clearing types and references.\<close>

lemma set_type:
  assumes "t AND IE_BITS_TYPE_MASK = t"
  shows "IE_BITS_TYPE ((b AND NOT IE_BITS_TYPE_MASK) OR t) = t"
    "urefs_of ((b AND NOT IE_BITS_TYPE_MASK) OR t) = urefs_of b"
    "((b AND NOT IE_BITS_TYPE_MASK) OR t) AND NOT IE_BITS_RIGHT_MASK = b AND NOT IE_BITS_RIGHT_MASK"
    "IE_BITS_TYPE (b OR t) = IE_BITS_TYPE b OR t" "urefs_of (b OR t) = urefs_of b"
    "(b OR t) AND NOT IE_BITS_RIGHT_MASK = b AND NOT IE_BITS_RIGHT_MASK"
    "IE_BITS_TYPE (b AND NOT t) = IE_BITS_TYPE b AND NOT t" "urefs_of (b AND NOT t) = urefs_of b"
    "(b AND NOT t) AND NOT IE_BITS_RIGHT_MASK = b AND NOT IE_BITS_RIGHT_MASK"
    "IE_BITS_TYPE (b AND NOT (IE_BITS_UREFS_MASK OR t)) = IE_BITS_TYPE b AND NOT t"
    "urefs_of (b AND NOT (IE_BITS_UREFS_MASK OR t)) = 0"
    "(b AND NOT (IE_BITS_UREFS_MASK OR t)) AND NOT IE_BITS_RIGHT_MASK = b AND NOT IE_BITS_RIGHT_MASK"
proof -
  have t: "bit t n \<Longrightarrow> 16 \<le> n \<and> n < 21" for n
    using assms by (metis bit_and_iff bit_masks(1))
  show "IE_BITS_TYPE ((b AND NOT IE_BITS_TYPE_MASK) OR t) = t"
    "((b AND NOT IE_BITS_TYPE_MASK) OR t) AND NOT IE_BITS_RIGHT_MASK = b AND NOT IE_BITS_RIGHT_MASK"
    "IE_BITS_TYPE (b OR t) = IE_BITS_TYPE b OR t"
    "(b OR t) AND NOT IE_BITS_RIGHT_MASK = b AND NOT IE_BITS_RIGHT_MASK"
    "IE_BITS_TYPE (b AND NOT t) = IE_BITS_TYPE b AND NOT t"
    "(b AND NOT t) AND NOT IE_BITS_RIGHT_MASK = b AND NOT IE_BITS_RIGHT_MASK"
    "IE_BITS_TYPE (b AND NOT (IE_BITS_UREFS_MASK OR t)) = IE_BITS_TYPE b AND NOT t"
    "(b AND NOT (IE_BITS_UREFS_MASK OR t)) AND NOT IE_BITS_RIGHT_MASK = b AND NOT IE_BITS_RIGHT_MASK"
    by (rule bit_word_eqI; use t in \<open>force simp: bit_blast\<close>)+
  have "IE_BITS_UREFS ((b AND NOT IE_BITS_TYPE_MASK) OR t) = IE_BITS_UREFS b" "IE_BITS_UREFS (b OR t) = IE_BITS_UREFS b"
    "IE_BITS_UREFS (b AND NOT t) = IE_BITS_UREFS b" "IE_BITS_UREFS (b AND NOT (IE_BITS_UREFS_MASK OR t)) = 0"
    by (rule bit_word_eqI; use t in \<open>force simp: bit_blast IE_BITS_UREFS_def\<close>)+
  then show "urefs_of ((b AND NOT IE_BITS_TYPE_MASK) OR t) = urefs_of b" "urefs_of (b OR t) = urefs_of b"
    "urefs_of (b AND NOT t) = urefs_of b" "urefs_of (b AND NOT (IE_BITS_UREFS_MASK OR t)) = 0"
    by (simp_all add: urefs_of_def)
qed

lemma type_masked [simp]:
  "MACH_PORT_TYPE_SEND AND IE_BITS_TYPE_MASK = MACH_PORT_TYPE_SEND"
  "MACH_PORT_TYPE_RECEIVE AND IE_BITS_TYPE_MASK = MACH_PORT_TYPE_RECEIVE"
  "MACH_PORT_TYPE_SEND_ONCE AND IE_BITS_TYPE_MASK = MACH_PORT_TYPE_SEND_ONCE"
  "MACH_PORT_TYPE_DEAD_NAME AND IE_BITS_TYPE_MASK = MACH_PORT_TYPE_DEAD_NAME"
  "MACH_PORT_TYPE_PORT_SET AND IE_BITS_TYPE_MASK = MACH_PORT_TYPE_PORT_SET"
  by (simp_all add: type_values IE_BITS_TYPE_MASK_def)

subsection \<open>The invariant\<close>

type_synonym capability = "ipc_entry_bits_t \<times> addr \<times> natural_t"

definition caps :: "ipc_state \<Rightarrow> mach_port_t \<rightharpoonup> capability" where
  "caps s = space_caps (st_space s)"

definition self :: "ipc_state \<Rightarrow> addr" where
  "self s = is_self (st_space s)"

text \<open>The port is alive and its receive right is in the space.\<close>

definition received :: "ipc_state \<Rightarrow> addr \<Rightarrow> bool" where
  "received s p \<longleftrightarrow> ip_active (st_port s p) \<and> ip_receiver (st_port s p) = self s"

text \<open>
  What a right of a name is.  A send right never has the largest count of references: one is kept for the
  notification that becomes a reference of the dead name.
\<close>

definition right_ok :: "ipc_state \<Rightarrow> mach_port_t \<Rightarrow> capability \<Rightarrow> bool" where
  "right_ok s n c \<longleftrightarrow>
     (case c of (b, ob, r) \<Rightarrow>
       let t = IE_BITS_TYPE b in
       t \<in> right_types \<and>
       (t = MACH_PORT_TYPE_DEAD_NAME \<longrightarrow> ob = NULL \<and> r = 0 \<and> 0 < urefs_of b) \<and>
       (t = MACH_PORT_TYPE_SEND \<or> t = MACH_PORT_TYPE_SEND_RECEIVE \<longrightarrow> 0 < urefs_of b \<and> urefs_of b < 0xffff) \<and>
       (t = MACH_PORT_TYPE_SEND_ONCE \<longrightarrow> urefs_of b = 1) \<and>
       (t = MACH_PORT_TYPE_RECEIVE \<longrightarrow> urefs_of b = 0) \<and>
       (t AND MACH_PORT_TYPE_PORT_RIGHTS \<noteq> 0 \<longrightarrow> IP_VALID ob) \<and>
       (t AND MACH_PORT_TYPE_RECEIVE \<noteq> 0 \<longrightarrow> received s ob \<and> ip_receiver_name (st_port s ob) = n) \<and>
       (t = MACH_PORT_TYPE_SEND \<longrightarrow> \<not> received s ob))"

definition receive_cap :: "addr \<Rightarrow> capability option \<Rightarrow> bool" where
  "receive_cap p c \<longleftrightarrow> (case c of None \<Rightarrow> False | Some (b, ob, r) \<Rightarrow> ob = p \<and> b AND MACH_PORT_TYPE_RECEIVE \<noteq> 0)"

definition rights_inv :: "ipc_state \<Rightarrow> bool" where
  "rights_inv s \<longleftrightarrow>
     (\<exists>ns. space_good ns (st_space s, st_hash s)) \<and> self s \<noteq> NULL \<and>
     (\<forall>n c. caps s n = Some c \<longrightarrow> right_ok s n c) \<and>
     (\<forall>p. received s p \<longrightarrow> receive_cap p (caps s (ip_receiver_name (st_port s p))))"

subsection \<open>The ledger\<close>

text \<open>How often the space holds a right of a type for the port.\<close>

definition holds :: "mach_port_type_t \<Rightarrow> addr \<Rightarrow> capability option \<Rightarrow> bool" where
  "holds t p c \<longleftrightarrow> (case c of None \<Rightarrow> False | Some (b, ob, r) \<Rightarrow> ob = p \<and> b AND t \<noteq> 0)"

definition held :: "mach_port_type_t \<Rightarrow> ipc_state \<Rightarrow> addr \<Rightarrow> nat" where
  "held t s p = card {n. holds t p (caps s n)}"

text \<open>The rights and references of a port outside the space: what the port counts less what the space holds.\<close>

definition sends_out :: "ipc_state \<Rightarrow> addr \<Rightarrow> natural_t" where
  "sends_out s p = ip_srights (st_port s p) - of_nat (held MACH_PORT_TYPE_SEND s p)"

definition onces_out :: "ipc_state \<Rightarrow> addr \<Rightarrow> natural_t" where
  "onces_out s p = ip_sorights (st_port s p) - of_nat (held MACH_PORT_TYPE_SEND_ONCE s p)"

definition refs_out :: "ipc_state \<Rightarrow> addr \<Rightarrow> natural_t" where
  "refs_out s p = ip_references (st_port s p) - of_nat (held MACH_PORT_TYPE_PORT_RIGHTS s p)"

lemma holds_none [simp]: "\<not> holds t p None"
  by (simp add: holds_def)

lemma held_update:
  assumes "caps s' = (caps s)(name := c)"
  shows "(of_nat (held t s' p) :: natural_t) =
    of_nat (held t s p) + of_bool (holds t p c) - of_bool (holds t p (caps s name))"
proof -
  let ?A = "\<lambda>f. {n. n \<noteq> name \<and> holds t p (f n)}"
  have same: "?A (caps s') = ?A (caps s)" using assms by auto
  have split: "card {n. holds t p (f n)} = card (?A f) + of_bool (holds t p (f name))" for f
  proof -
    have "{n. holds t p (f n)} = (if holds t p (f name) then insert name (?A f) else ?A f)" by auto
    then show ?thesis by simp
  qed
  have "held t s' p = card (?A (caps s)) + of_bool (holds t p c)"
    unfolding held_def split [of "caps s'"] same by (simp add: assms)
  moreover have "held t s p = card (?A (caps s)) + of_bool (holds t p (caps s name))"
    unfolding held_def split [of "caps s"] by simp
  ultimately show ?thesis by simp
qed

end
