(* ===== verification/Right_Flux.thy ===== *)
theory Right_Flux
  imports Right_State
begin

section \<open>Operations on the entry of one name\<close>

text \<open>
  The states an operation on the right of \<open>name\<close> passes through, relative to the one it starts from:
  the entry is found (\<open>ready\<close>), out of order (\<open>opened\<close>), and settled with the capability \<open>c\<close>
  (\<open>closed\<close>).  The heap is accounted for apart: what the counts of a port change by
  (\<open>booked\<close>), and that no port dies or changes hands (\<open>steady\<close>).
\<close>

definition ready :: "ipc_state \<Rightarrow> mach_port_t \<Rightarrow> ipc_entry_ptr \<Rightarrow> ipc_state \<Rightarrow> bool" where
  "ready s0 name entry s \<longleftrightarrow>
     (\<exists>ns. space_good ns (st_space s, st_hash s)) \<and> caps s = caps s0 \<and> same_space (st_space s0) (st_space s) \<and>
     ptr_ok (st_space s) name entry \<and> type_of (st_entry s entry) \<noteq> 0"

text \<open>The entry is found but may have changed since.\<close>

definition present :: "ipc_state \<Rightarrow> mach_port_t \<Rightarrow> ipc_entry_ptr \<Rightarrow> ipc_state \<Rightarrow> bool" where
  "present s0 name entry s \<longleftrightarrow>
     (\<exists>ns. space_good ns (st_space s, st_hash s)) \<and> other_caps name (st_space s) = (caps s0)(name := None) \<and>
     same_space (st_space s0) (st_space s) \<and> ptr_ok (st_space s) name entry \<and> type_of (st_entry s entry) \<noteq> 0"

definition opened :: "ipc_state \<Rightarrow> mach_port_t \<Rightarrow> ipc_entry_ptr \<Rightarrow> ipc_state \<Rightarrow> bool" where
  "opened s0 name entry s \<longleftrightarrow>
     (\<exists>ns. in_flux ns (st_space s, st_hash s) name entry) \<and>
     other_caps name (st_space s) = (caps s0)(name := None) \<and> same_space (st_space s0) (st_space s)"

definition closed :: "ipc_state \<Rightarrow> mach_port_t \<Rightarrow> capability option \<Rightarrow> ipc_state \<Rightarrow> bool" where
  "closed s0 name c s \<longleftrightarrow>
     (\<exists>ns. space_good ns (st_space s, st_hash s)) \<and> caps s = (caps s0)(name := c) \<and>
     same_space (st_space s0) (st_space s)"

subsection \<open>Steps of the space\<close>

lemma state_simps [simp]:
  "st_space (on_heap f s) = st_space s" "st_hash (on_heap f s) = st_hash s" "st_heap (on_heap f s) = f (st_heap s)"
  "st_space (on_port p u s) = st_space s" "st_hash (on_port p u s) = st_hash s"
  "st_heap (on_port p u s) = set_port p u (st_heap s)"
  "st_hash (set_entry entry v s) = st_hash s" "st_heap (set_entry entry v s) = st_heap s"
  "st_entry (on_heap f s) entry = st_entry s entry" "st_entry (on_port p u s) entry = st_entry s entry"
  "st_entry (s\<lparr>st_heap := h\<rparr>) entry = st_entry s entry" "st_port (set_entry entry v s) p = st_port s p"
  "ready s0 name entry (on_heap f s) = ready s0 name entry s" "ready s0 name entry (on_port p u s) = ready s0 name entry s"
  "present s0 name entry (on_heap f s) = present s0 name entry s" "present s0 name entry (on_port p u s) = present s0 name entry s"
  "present s0 name entry (s\<lparr>st_heap := h\<rparr>) = present s0 name entry s"
  "opened s0 name entry (on_heap f s) = opened s0 name entry s" "opened s0 name entry (on_port p u s) = opened s0 name entry s"
  "opened s0 name entry (s\<lparr>st_heap := h\<rparr>) = opened s0 name entry s"
  "ready s0 name entry (s\<lparr>st_heap := h\<rparr>) = ready s0 name entry s"
  "closed s0 name c (on_heap f s) = closed s0 name c s" "closed s0 name c (s\<lparr>st_heap := h\<rparr>) = closed s0 name c s"
  "closed s0 name c (on_port p u s) = closed s0 name c s"
  by (simp_all add: on_heap_def on_port_def set_entry_def st_entry_def st_port_def ready_def present_def opened_def closed_def caps_def)

lemma ready_cap: "ready s0 name entry s \<Longrightarrow> caps s0 name = Some (cap (st_entry s entry))"
  using good_cap by (fastforce simp: ready_def caps_def st_entry_def)

lemma ready_same: "ready s0 name entry s \<Longrightarrow> closed s0 name (caps s0 name) s"
  by (auto simp: ready_def closed_def)

lemma ready_present: "ready s0 name entry s \<Longrightarrow> present s0 name entry s"
  by (auto simp: ready_def present_def other_caps_def caps_def)

lemma present_closed: "present s0 name entry s \<Longrightarrow> closed s0 name (Some (cap (st_entry s entry))) s"
  using good_cap by (fastforce simp: present_def closed_def caps_def st_entry_def other_caps_def fun_eq_iff split: if_splits)

lemma present_open: "present s0 name entry s \<Longrightarrow> type_of (st_entry s entry) \<noteq> MACH_PORT_TYPE_SEND \<Longrightarrow> opened s0 name entry s"
  by (auto simp: present_def opened_def st_entry_def intro: flux_open)

lemma present_unhash:
  assumes "present s0 name entry s" "type_of (st_entry s entry) = MACH_PORT_TYPE_SEND" "ie_object (st_entry s entry) = ob"
  obtains s' where "hash_delete ob name entry s = Some s'" "opened s0 name entry s'" "st_heap s' = st_heap s"
    "ie_bits (st_entry s' entry) = ie_bits (st_entry s entry)" "ie_object (st_entry s' entry) = ob"
    "ie_request (st_entry s' entry) = ie_request (st_entry s entry)"
proof -
  obtain ns where good: "space_good ns (st_space s, st_hash s)" "ptr_ok (st_space s) name entry"
    and c: "other_caps name (st_space s) = (caps s0)(name := None)" "same_space (st_space s0) (st_space s)"
    using assms(1) by (auto simp: present_def)
  obtain space g where d: "ipc_hash_delete (st_hash s) (st_space s) ob name entry = Some (space, g)"
    "in_flux ns (space, g) name entry" "cap (entry_at space entry) = cap (st_entry s entry)"
    "ie_bits (entry_at space entry) = ie_bits (st_entry s entry)"
    "other_caps name space = other_caps name (st_space s)" "same_space (st_space s) space"
    using hash_delete_flux [OF good] assms(2,3) unfolding st_entry_def by metis
  let ?s = "s\<lparr>st_space := space, st_hash := g\<rparr>"
  have "opened s0 name entry ?s"
    using d(2,5,6) c by (auto simp: opened_def same_space_def)
  moreover have "hash_delete ob name entry s = Some ?s" using d(1) by (simp add: hash_delete_def)
  moreover have "ie_object (entry_at space entry) = ob" "ie_request (entry_at space entry) = ie_request (st_entry s entry)"
    using d(3) assms(3) by (simp_all add: cap_def)
  ultimately show ?thesis using that [of ?s] d(4) by (simp add: st_entry_def)
qed

lemma opened_set:
  assumes "opened s0 name entry s" "same_slot (st_entry s entry) (v (st_entry s entry))"
  shows "opened s0 name entry (set_entry entry v s)" "st_entry (set_entry entry v s) entry = v (st_entry s entry)"
proof -
  obtain ns where f: "in_flux ns (st_space s, st_hash s) name entry" using assms(1) by (auto simp: opened_def)
  show "opened s0 name entry (set_entry entry v s)"
    using flux_set [OF f, of "v (st_entry s entry)"] assms
    by (auto simp: opened_def set_entry_def st_entry_def same_space_def)
  show "st_entry (set_entry entry v s) entry = v (st_entry s entry)"
    using entry_at_store flux_inv(1,3) [OF f] by (simp add: set_entry_def st_entry_def)
qed

lemma present_set:
  assumes "present s0 name entry s" "same_slot (st_entry s entry) (v (st_entry s entry))"
    "type_of (v (st_entry s entry)) = type_of (st_entry s entry)"
    "ie_object (v (st_entry s entry)) = ie_object (st_entry s entry)"
  shows "present s0 name entry (set_entry entry v s)" "st_entry (set_entry entry v s) entry = v (st_entry s entry)"
proof -
  obtain ns where good: "space_good ns (st_space s, st_hash s)" using assms(1) by (auto simp: present_def)
  have p: "ptr_ok (st_space s) name entry" "splay_inv (is_tree (st_space s))"
    using assms(1) space_good_names [OF good] by (simp_all add: present_def)
  show st: "st_entry (set_entry entry v s) entry = v (st_entry s entry)"
    using entry_at_store [OF p] by (simp add: set_entry_def st_entry_def)
  have "other_caps name (store_entry (st_space s) entry (v (st_entry s entry))) = other_caps name (st_space s)"
    using other_caps_store [OF p] assms(2) by (simp add: st_entry_def)
  moreover have "ptr_ok (store_entry (st_space s) entry (v (st_entry s entry))) name entry"
    using ptr_ok_store [OF p] assms(2) by (simp add: st_entry_def)
  moreover have "space_good ns (store_entry (st_space s) entry (v (st_entry s entry)), st_hash s)"
    using good_set [OF good p(1), of "st_entry s entry" "v (st_entry s entry)"] assms by (simp add: present_def st_entry_def)
  ultimately show "present s0 name entry (set_entry entry v s)"
    using assms(1,3) st by (auto simp: present_def set_entry_def same_space_def)
qed

lemma opened_close:
  assumes "opened s0 name entry s" "type_of (st_entry s entry) \<noteq> 0" "type_of (st_entry s entry) \<noteq> MACH_PORT_TYPE_SEND"
  shows "closed s0 name (Some (cap (st_entry s entry))) s"
  using assms flux_close by (fastforce simp: opened_def closed_def st_entry_def caps_def)

lemma opened_dealloc:
  assumes "opened s0 name entry s"
  obtains s' where "entry_dealloc env name entry s = Some s'" "closed s0 name None s'" "st_heap s' = st_heap s"
proof -
  obtain ns where f: "in_flux ns (st_space s, st_hash s) name entry"
    and o: "other_caps name (st_space s) = (caps s0)(name := None)" "same_space (st_space s0) (st_space s)"
    using assms by (auto simp: opened_def)
  obtain space g ns' where d: "ipc_entry_dealloc (env_entry env) (st_space s, st_hash s) name entry = Some (space, g)"
    "space_good ns' (space, g)" "space_caps space = other_caps name (st_space s)" "same_space (st_space s) space"
    by (rule dealloc_flux [OF f])
  have "closed s0 name None (s\<lparr>st_space := space, st_hash := g\<rparr>)"
    using d(2-4) o by (auto simp: closed_def caps_def same_space_def)
  then show ?thesis using that [of "s\<lparr>st_space := space, st_hash := g\<rparr>"] d(1) by (simp add: entry_dealloc_def)
qed

lemma opened_hash:
  assumes "opened s0 name entry s" "ie_object (st_entry s entry) = ob" "\<And>n. n \<noteq> name \<Longrightarrow> \<not> send_cap ob (caps s0 n)"
  obtains s' where "hash_insert ob name entry s = Some s'" "st_heap s' = st_heap s"
    "ie_bits (st_entry s' entry) = ie_bits (st_entry s entry)" "ie_object (st_entry s' entry) = ob"
    "ie_request (st_entry s' entry) = ie_request (st_entry s entry)"
    "\<And>v. st_entry (set_entry entry v s') entry = v (st_entry s' entry)"
    "\<And>v. same_slot (st_entry s' entry) (v (st_entry s' entry)) \<Longrightarrow> type_of (v (st_entry s' entry)) = MACH_PORT_TYPE_SEND \<Longrightarrow>
       ie_object (v (st_entry s' entry)) = ob \<Longrightarrow>
       closed s0 name (Some (cap (v (st_entry s' entry)))) (set_entry entry v s')"
proof -
  obtain ns where f: "in_flux ns (st_space s, st_hash s) name entry"
    and o: "other_caps name (st_space s) = (caps s0)(name := None)" "same_space (st_space s0) (st_space s)"
    using assms(1) by (auto simp: opened_def)
  have no: "\<not> send_cap ob (other_caps name (st_space s) n)" for n using o(1) assms(3) by simp
  obtain space g where i: "ipc_hash_insert (st_hash s) (st_space s) ob name entry = Some (space, g)"
    "cap (entry_at space entry) = cap (st_entry s entry)" "ie_bits (entry_at space entry) = ie_bits (st_entry s entry)"
    "same_space (st_space s) space" "\<And>e. entry_at (store_entry space entry e) entry = e"
    "\<And>e. same_slot (entry_at space entry) e \<Longrightarrow> type_of e = MACH_PORT_TYPE_SEND \<Longrightarrow> ie_object e = ob \<Longrightarrow>
       space_good ns (store_entry space entry e, g) \<and>
       space_caps (store_entry space entry e) = (other_caps name (st_space s))(name \<mapsto> cap e)"
    using hash_insert_flux [OF f _ no] assms(2) unfolding st_entry_def by metis
  let ?s = "s\<lparr>st_space := space, st_hash := g\<rparr>"
  have "ie_object (entry_at space entry) = ob" "ie_request (entry_at space entry) = ie_request (st_entry s entry)"
    using i(2) assms(2) by (simp_all add: cap_def)
  moreover have "closed s0 name (Some (cap (v (st_entry ?s entry)))) (set_entry entry v ?s)"
    if "same_slot (st_entry ?s entry) (v (st_entry ?s entry))" "type_of (v (st_entry ?s entry)) = MACH_PORT_TYPE_SEND"
      "ie_object (v (st_entry ?s entry)) = ob" for v
    using i(6) [of "v (entry_at space entry)"] that o i(4)
    by (auto simp: closed_def set_entry_def st_entry_def same_space_def caps_def)
  moreover have "st_entry (set_entry entry v ?s) entry = v (st_entry ?s entry)" for v
    using i(5) by (simp add: set_entry_def st_entry_def)
  ultimately show ?thesis using that [of ?s] i(1,3) by (simp add: hash_insert_def st_entry_def)
qed

lemma lookup_ready:
  assumes "\<exists>ns. space_good ns (st_space s, st_hash s)" and l: "entry_lookup s name = (res, s')"
  shows "st_heap s' = st_heap s \<and>
    (case res of None \<Rightarrow> caps s name = None \<and> closed s name None s' | Some entry \<Rightarrow> ready s name entry s')"
proof -
  obtain ns where good: "space_good ns (st_space s, st_hash s)" using assms(1) by blast
  obtain space where e: "ipc_entry_lookup (st_space s) name = (res, space)" "s' = s\<lparr>st_space := space\<rparr>"
    using l by (auto simp: entry_lookup_def split: prod.splits)
  show ?thesis
    using lookup_good [OF good e(1)] e(2)
    by (auto simp: ready_def closed_def caps_def st_entry_def fun_eq_iff split: option.split)
qed

lemma get_opened:
  assumes good: "\<exists>ns. space_good ns (st_space s, st_hash s)" and get: "ipc_entry_get (st_space s) = Some (name, entry, space)"
  shows "opened s name entry (s\<lparr>st_space := space\<rparr>)" "caps s name = None"
    "ie_bits (entry_at space entry) AND IE_BITS_RIGHT_MASK = 0" "ie_request (entry_at space entry) = 0"
proof -
  obtain ns where "space_good ns (st_space s, st_hash s)" using good by blast
  from get_good [OF this get]
  show "opened s name entry (s\<lparr>st_space := space\<rparr>)" "caps s name = None"
    "ie_bits (entry_at space entry) AND IE_BITS_RIGHT_MASK = 0" "ie_request (entry_at space entry) = 0"
    by (auto simp: opened_def caps_def fun_upd_idem)
qed

subsection \<open>Steps of the heap\<close>

definition steady :: "ipc_heap \<Rightarrow> ipc_heap \<Rightarrow> bool" where
  "steady h h' \<longleftrightarrow> (\<forall>p. ip_active (ports h' p) = ip_active (ports h p) \<and> ip_data (ports h' p) = ip_data (ports h p) \<and>
     ip_receiver_name (ports h' p) = ip_receiver_name (ports h p))"

definition booked :: "addr \<Rightarrow> natural_t \<Rightarrow> natural_t \<Rightarrow> natural_t \<Rightarrow> ipc_heap \<Rightarrow> ipc_heap \<Rightarrow> bool" where
  "booked port a b c h h' \<longleftrightarrow>
     (\<forall>p. ip_srights (ports h' p) = ip_srights (ports h p) + (if p = port then a else 0) \<and>
       ip_sorights (ports h' p) = ip_sorights (ports h p) + (if p = port then b else 0) \<and>
       ip_references (ports h' p) = ip_references (ports h p) + (if p = port then c else 0))"

lemma steady_refl [simp]: "steady h h"
  by (simp add: steady_def)

lemma steady_trans [trans]: "steady h h' \<Longrightarrow> steady h' h'' \<Longrightarrow> steady h h''"
  by (simp add: steady_def)

lemma booked_refl [simp]: "booked port 0 0 0 h h"
  by (simp add: booked_def)

lemma booked_trans: "booked port a b c h h' \<Longrightarrow> booked port a' b' c' h' h'' \<Longrightarrow> booked port (a + a') (b + b') (c + c') h h''"
  by (simp add: booked_def)

lemma set_port_moves:
  "(\<And>p. ip_active (u p) = ip_active p \<and> ip_data (u p) = ip_data p \<and> ip_receiver_name (u p) = ip_receiver_name p) \<Longrightarrow>
   steady h (set_port port u h)"
  "(\<And>p. ip_srights (u p) = ip_srights p + a \<and> ip_sorights (u p) = ip_sorights p + b \<and> ip_references (u p) = ip_references p + c) \<Longrightarrow>
   booked port a b c h (set_port port u h)"
  by (auto simp: steady_def booked_def)

lemma quiet_moves:
  assumes "ports h' = ports h"
  shows "steady h h'" "booked port 0 0 0 h h'"
  using assms by (simp_all add: steady_def booked_def)

lemma ports_check_unlock [simp]: "ports (ip_check_unlock p h) = ports h" "ports (ips_check_unlock q h) = ports h"
  by (simp_all add: ip_check_unlock_def ips_check_unlock_def)

lemma ports_calls [simp]: "ports (h\<lparr>calls := cs\<rparr>) = ports h" "ports (ips_release q h) = ports h"
  "ports (ips_reference q h) = ports h"
  by (simp_all add: ips_release_def ips_reference_def)

lemma reference_moves [simp]:
  "steady h (ip_reference port h)" "booked port 0 0 1 h (ip_reference port h)"
  "steady h (ip_release port h)" "booked port 0 0 (- 1) h (ip_release port h)"
  "steady h (ipc_port_release port h)" "booked port 0 0 (- 1) h (ipc_port_release port h)"
  by (simp_all add: steady_def booked_def ip_reference_def ip_release_def ipc_port_release_def ip_active_def)

lemma dncancel_moves:
  assumes "ipc_port_dncancel h port name request = (dn, h')"
  shows "steady h h'" "booked p 0 0 0 h h'" "calls h' = calls h" "psets h' = psets h"
proof -
  obtain t where h': "h' = set_port port (\<lambda>p. p\<lparr>ip_dnrequests := Some t\<rparr>) h"
    using assms by (auto simp: ipc_port_dncancel_def Let_def)
  show "steady h h'" unfolding h' by (rule set_port_moves(1)) (simp add: ip_active_def)
  have "booked port 0 0 0 h h'" unfolding h' by (rule set_port_moves(2)) simp
  then show "booked p 0 0 0 h h'" by (simp add: booked_def)
  show "calls h' = calls h" "psets h' = psets h" by (simp_all add: h')
qed

lemma move_to_port_ports:
  "\<exists>q n. ports (move_to_port pset port h) = ports (set_port port (\<lambda>p. p\<lparr>ip_messages := q, ip_seqno := n\<rparr>) h)"
  by (auto simp: move_to_port_def Let_def set_port_def set_pset_def split: prod.split)

lemma pset_remove_moves:
  "steady h (ipc_pset_remove pset port h)" "booked p 0 0 0 h (ipc_pset_remove pset port h)"
proof -
  obtain q n where "ports (ipc_pset_remove pset port h) =
      ports (set_port port (\<lambda>p. p\<lparr>ip_messages := q, ip_seqno := n\<rparr>) (ips_release pset (set_port port (\<lambda>p. p\<lparr>ip_pset := NULL\<rparr>) h)))"
    using move_to_port_ports [of pset port] by (metis ipc_pset_remove_def)
  then show "steady h (ipc_pset_remove pset port h)" "booked p 0 0 0 h (ipc_pset_remove pset port h)"
    by (simp_all add: steady_def booked_def ip_active_def)
qed

lemma clear_receiver_moves:
  "steady h (ipc_port_clear_receiver port h)" "booked p 0 0 0 h (ipc_port_clear_receiver port h)"
proof -
  let ?h = "if ip_pset (ports h port) \<noteq> NULL then ips_check_unlock (ip_pset (ports h port)) (ipc_pset_remove (ip_pset (ports h port)) port h)
    else port_mqueue_changed port MACH_RCV_PORT_DIED h"
  have m: "steady h (port_mqueue_changed port MACH_RCV_PORT_DIED h)" "booked p 0 0 0 h (port_mqueue_changed port MACH_RCV_PORT_DIED h)"
    by (auto simp: port_mqueue_changed_def mqueue_changed_def steady_def booked_def ip_active_def)
  have "steady h ?h \<and> booked p 0 0 0 h ?h"
    using pset_remove_moves(1) [of h "ip_pset (ports h port)" port]
      pset_remove_moves(2) [of p h "ip_pset (ports h port)" port] m by (simp add: steady_def booked_def)
  then show "steady h (ipc_port_clear_receiver port h)" "booked p 0 0 0 h (ipc_port_clear_receiver port h)"
    by (auto simp: ipc_port_clear_receiver_def Let_def ipc_port_set_mscount_def steady_def booked_def ip_active_def)
qed

lemma dncancel_macro:
  assumes o: "opened s0 name entry s \<or> present s0 name entry s"
  obtains dn s' where "ipc_right_dncancel_macro port name entry s = (dn, s')"
    "opened s0 name entry s \<Longrightarrow> opened s0 name entry s'" "present s0 name entry s \<Longrightarrow> present s0 name entry s'"
    "steady (st_heap s) (st_heap s')" "\<And>p. booked p 0 0 0 (st_heap s) (st_heap s')"
    "st_entry s' entry = (st_entry s entry)\<lparr>ie_request := 0\<rparr>"
proof (cases "ie_request (st_entry s entry) = 0")
  case True
  then have "(st_entry s entry)\<lparr>ie_request := 0\<rparr> = st_entry s entry" by (cases "st_entry s entry") simp
  then show ?thesis using that [of IP_NULL s] True by (simp add: ipc_right_dncancel_macro_def)
next
  case False
  obtain dn h where c: "ipc_port_dncancel (st_heap s) port name (ie_request (st_entry s entry)) = (dn, h)" by fastforce
  let ?v = "\<lambda>e. e\<lparr>ie_request := 0\<rparr>"
  let ?s = "set_entry entry ?v (s\<lparr>st_heap := h\<rparr>)"
  have sl: "same_slot e (?v e)" for e by (simp add: same_slot_def)
  have op: "opened s0 name entry ?s" "st_entry ?s entry = (st_entry s entry)\<lparr>ie_request := 0\<rparr>" if "opened s0 name entry s"
    using opened_set [of s0 name entry "s\<lparr>st_heap := h\<rparr>" ?v] that sl by simp_all
  have pr: "present s0 name entry ?s" "st_entry ?s entry = (st_entry s entry)\<lparr>ie_request := 0\<rparr>" if "present s0 name entry s"
    using present_set [of s0 name entry "s\<lparr>st_heap := h\<rparr>" ?v] that sl by (simp_all add: type_of_def)
  have "ipc_right_dncancel_macro port name entry s = (dn, ?s)"
    using False c by (simp add: ipc_right_dncancel_macro_def ipc_right_dncancel_def)
  then show ?thesis using that [of dn ?s] op pr o dncancel_moves [OF c] by auto
qed

subsection \<open>Settling\<close>

lemma steady_right_ok:
  assumes "steady (st_heap s) (st_heap s')" "self s' = self s"
  shows "right_ok s' n c = right_ok s n c" "received s' p = received s p"
    "ip_receiver_name (st_port s' p) = ip_receiver_name (st_port s p)" "ip_active (st_port s' p) = ip_active (st_port s p)"
  using assms by (auto simp: right_ok_def received_def steady_def st_port_def Let_def split: prod.split)

lemma closed_self: "closed s0 name c s \<Longrightarrow> self s = self s0 \<and> caps s = (caps s0)(name := c)"
  by (simp add: closed_def same_space_def self_def)

lemma rights_invD:
  assumes "rights_inv s"
  shows "\<exists>ns. space_good ns (st_space s, st_hash s)" "self s \<noteq> NULL" "caps s n = Some c \<Longrightarrow> right_ok s n c"
    "received s p \<Longrightarrow> receive_cap p (caps s (ip_receiver_name (st_port s p)))"
  using assms unfolding rights_inv_def by blast+

text \<open>
  The capability \<open>c\<close> of the name and the heap fit together, and no port dies or comes alive.
\<close>

definition tidy :: "ipc_state \<Rightarrow> mach_port_t \<Rightarrow> capability option \<Rightarrow> ipc_heap \<Rightarrow> bool" where
  "tidy s0 name c h \<longleftrightarrow>
     (\<forall>p. ip_active (ports h p) = ip_active (st_port s0 p)) \<and>
     (\<forall>n x. ((caps s0)(name := c)) n = Some x \<longrightarrow> right_ok (s0\<lparr>st_heap := h\<rparr>) n x) \<and>
     (\<forall>p. received (s0\<lparr>st_heap := h\<rparr>) p \<longrightarrow> receive_cap p (((caps s0)(name := c)) (ip_receiver_name (ports h p))))"

lemma state_upd [simp]: "self (s\<lparr>st_heap := h\<rparr>) = self s" "st_port (s\<lparr>st_heap := h\<rparr>) p = ports h p" "caps (s\<lparr>st_heap := h\<rparr>) = caps s"
  by (simp_all add: self_def st_port_def caps_def)

lemma tidy_inv:
  assumes "rights_inv s0" "closed s0 name c s" "tidy s0 name c (st_heap s)"
  shows "rights_inv s"
proof -
  have s: "self s = self s0" "caps s = (caps s0)(name := c)" using closed_self [OF assms(2)] by simp_all
  have r: "right_ok (s0\<lparr>st_heap := st_heap s\<rparr>) n x = right_ok s n x" "received (s0\<lparr>st_heap := st_heap s\<rparr>) p = received s p" for n x p
    by (auto simp: right_ok_def received_def s(1) st_port_def Let_def split: prod.split)
  have "\<exists>ns. space_good ns (st_space s, st_hash s)" using assms(2) by (simp add: closed_def)
  then show ?thesis
    using assms(3) rights_invD(2) [OF assms(1)] unfolding rights_inv_def tidy_def r s st_port_def by blast
qed

lemma tidy_steady:
  assumes inv: "rights_inv s0" and st: "steady (st_heap s0) h"
    and ok: "\<And>x. c = Some x \<Longrightarrow> right_ok s0 name x"
    and rcv: "\<And>p. receive_cap p (caps s0 name) \<Longrightarrow> receive_cap p c"
  shows "tidy s0 name c h"
proof -
  have r: "right_ok (s0\<lparr>st_heap := h\<rparr>) n x = right_ok s0 n x" "received (s0\<lparr>st_heap := h\<rparr>) p = received s0 p"
    "ip_receiver_name (ports h p) = ip_receiver_name (st_port s0 p)" "ip_active (ports h p) = ip_active (st_port s0 p)" for n x p
    using steady_right_ok [of s0 "s0\<lparr>st_heap := h\<rparr>"] st by simp_all
  have "right_ok s0 n x" if "((caps s0)(name := c)) n = Some x" for n x
    using that ok rights_invD(3) [OF inv] by (cases "n = name") auto
  moreover have "receive_cap p (((caps s0)(name := c)) (ip_receiver_name (st_port s0 p)))" if "received s0 p" for p
    using rights_invD(4) [OF inv that] rcv by (cases "ip_receiver_name (st_port s0 p) = name") auto
  ultimately show ?thesis unfolding tidy_def r by blast
qed

text \<open>
  The books balance: what left the entry of the name or came out of a port is now in the hands of the
  caller, who gets a right of type \<open>t\<close> for the ports of which \<open>out\<close> holds.
\<close>

definition accounted :: "(mach_port_type_t \<Rightarrow> addr \<Rightarrow> natural_t) \<Rightarrow> ipc_state \<Rightarrow> mach_port_t \<Rightarrow> capability option \<Rightarrow> ipc_heap \<Rightarrow> bool" where
  "accounted d s0 name c h \<longleftrightarrow>
     (\<forall>p. ip_references (ports h p) - of_bool (holds MACH_PORT_TYPE_PORT_RIGHTS p c) =
         ip_references (st_port s0 p) - of_bool (holds MACH_PORT_TYPE_PORT_RIGHTS p (caps s0 name)) + d MACH_PORT_TYPE_PORT_RIGHTS p \<and>
       (ip_active (st_port s0 p) \<longrightarrow>
         ip_srights (ports h p) - of_bool (holds MACH_PORT_TYPE_SEND p c) =
           ip_srights (st_port s0 p) - of_bool (holds MACH_PORT_TYPE_SEND p (caps s0 name)) + d MACH_PORT_TYPE_SEND p \<and>
         ip_sorights (ports h p) - of_bool (holds MACH_PORT_TYPE_SEND_ONCE p c) =
           ip_sorights (st_port s0 p) - of_bool (holds MACH_PORT_TYPE_SEND_ONCE p (caps s0 name)) + d MACH_PORT_TYPE_SEND_ONCE p))"

lemma balance:
  assumes c: "closed s0 name c s" and a: "accounted d s0 name c (st_heap s)"
  shows "refs_out s p = refs_out s0 p + d MACH_PORT_TYPE_PORT_RIGHTS p"
    "ip_active (st_port s0 p) \<Longrightarrow> sends_out s p = sends_out s0 p + d MACH_PORT_TYPE_SEND p"
    "ip_active (st_port s0 p) \<Longrightarrow> onces_out s p = onces_out s0 p + d MACH_PORT_TYPE_SEND_ONCE p"
proof -
  have s: "caps s = (caps s0)(name := c)" using closed_self [OF c] by simp
  note h = held_update [OF s]
  have step: "x - (m + a - b) = y - m + k" if "x - a = y - b + k" for x y m a b k :: natural_t
    using that by (simp add: algebra_simps)
  note defs = sends_out_def onces_out_def refs_out_def h
  show "refs_out s p = refs_out s0 p + d MACH_PORT_TYPE_PORT_RIGHTS p"
    unfolding defs by (rule step) (use a in \<open>simp add: accounted_def st_port_def\<close>)
  assume "ip_active (st_port s0 p)"
  then have "ip_srights (st_port s p) - of_bool (holds MACH_PORT_TYPE_SEND p c) =
       ip_srights (st_port s0 p) - of_bool (holds MACH_PORT_TYPE_SEND p (caps s0 name)) + d MACH_PORT_TYPE_SEND p"
    "ip_sorights (st_port s p) - of_bool (holds MACH_PORT_TYPE_SEND_ONCE p c) =
       ip_sorights (st_port s0 p) - of_bool (holds MACH_PORT_TYPE_SEND_ONCE p (caps s0 name)) + d MACH_PORT_TYPE_SEND_ONCE p"
    using a by (simp_all add: accounted_def st_port_def)
  then show "sends_out s p = sends_out s0 p + d MACH_PORT_TYPE_SEND p"
    "onces_out s p = onces_out s0 p + d MACH_PORT_TYPE_SEND_ONCE p"
    unfolding defs by (blast intro: step)+
qed

text \<open>The entry when an operation on it ends: without a type it is to be deallocated.\<close>

definition left_cap :: "ipc_entry \<Rightarrow> capability option" where
  "left_cap e = (if type_of e = 0 then None else Some (cap e))"

definition settled :: "ipc_state \<Rightarrow> mach_port_t \<Rightarrow> ipc_entry_ptr \<Rightarrow> ipc_state \<Rightarrow> bool" where
  "settled s0 name entry s \<longleftrightarrow>
     (if type_of (st_entry s entry) = 0 then opened s0 name entry s else closed s0 name (Some (cap (st_entry s entry))) s)"

lemma settled_end:
  assumes "settled s0 name entry s"
  obtains s' where "(if IE_BITS_TYPE (ie_bits (st_entry s entry)) = MACH_PORT_TYPE_NONE then entry_dealloc env name entry s else Some s) = Some s'"
    "closed s0 name (left_cap (st_entry s entry)) s'" "st_heap s' = st_heap s"
proof (cases "type_of (st_entry s entry) = 0")
  case True
  then have "opened s0 name entry s" using assms by (simp add: settled_def)
  from opened_dealloc [OF this, of env] show ?thesis
    using that True by (auto simp: left_cap_def type_of_def type_values)
next
  case False
  then show ?thesis using that [of s] assms by (simp add: settled_def left_cap_def type_of_def type_values)
qed

lemma right_ok_cap:
  "right_ok s n (cap e) \<longleftrightarrow>
     type_of e \<in> right_types \<and>
     (type_of e = MACH_PORT_TYPE_DEAD_NAME \<longrightarrow> ie_object e = NULL \<and> ie_request e = 0 \<and> 0 < urefs_of (ie_bits e)) \<and>
     (type_of e = MACH_PORT_TYPE_SEND \<or> type_of e = MACH_PORT_TYPE_SEND_RECEIVE \<longrightarrow>
        0 < urefs_of (ie_bits e) \<and> urefs_of (ie_bits e) < 0xffff) \<and>
     (type_of e = MACH_PORT_TYPE_SEND_ONCE \<longrightarrow> urefs_of (ie_bits e) = 1) \<and>
     (type_of e = MACH_PORT_TYPE_RECEIVE \<longrightarrow> urefs_of (ie_bits e) = 0) \<and>
     (type_of e AND MACH_PORT_TYPE_PORT_RIGHTS \<noteq> 0 \<longrightarrow> IP_VALID (ie_object e)) \<and>
     (type_of e AND MACH_PORT_TYPE_RECEIVE \<noteq> 0 \<longrightarrow>
        received s (ie_object e) \<and> ip_receiver_name (st_port s (ie_object e)) = n) \<and>
     (type_of e = MACH_PORT_TYPE_SEND \<longrightarrow> \<not> received s (ie_object e))"
  by (simp add: right_ok_def cap_def type_of_def urefs_of_def Let_def)

lemma holds_cap: "holds t p (Some (cap e)) \<longleftrightarrow> ie_object e = p \<and> ie_bits e AND IE_BITS_RIGHT_MASK AND t \<noteq> 0"
  by (simp add: holds_def cap_def and.assoc)

lemma cap_tests:
  "holds MACH_PORT_TYPE_SEND p (Some (cap e)) \<longleftrightarrow> ie_object e = p \<and> type_of e AND MACH_PORT_TYPE_SEND \<noteq> 0"
  "holds MACH_PORT_TYPE_SEND_ONCE p (Some (cap e)) \<longleftrightarrow> ie_object e = p \<and> type_of e AND MACH_PORT_TYPE_SEND_ONCE \<noteq> 0"
  "holds MACH_PORT_TYPE_PORT_RIGHTS p (Some (cap e)) \<longleftrightarrow> ie_object e = p \<and> type_of e AND MACH_PORT_TYPE_PORT_RIGHTS \<noteq> 0"
  "receive_cap p (Some (cap e)) \<longleftrightarrow> ie_object e = p \<and> type_of e AND MACH_PORT_TYPE_RECEIVE \<noteq> 0"
  by (simp_all add: holds_def receive_cap_def cap_def type_of_def type_tests [of "ie_bits e AND IE_BITS_RIGHT_MASK"])

lemma right_type_cases:
  assumes "type_of e \<in> right_types"
  obtains "type_of e = MACH_PORT_TYPE_SEND" | "type_of e = MACH_PORT_TYPE_RECEIVE" | "type_of e = MACH_PORT_TYPE_SEND_RECEIVE"
    | "type_of e = MACH_PORT_TYPE_SEND_ONCE" | "type_of e = MACH_PORT_TYPE_PORT_SET" | "type_of e = MACH_PORT_TYPE_DEAD_NAME"
  using assms by (auto simp: right_types_def)

lemma ready_right:
  assumes "rights_inv s0" "ready s0 name entry s"
  shows "right_ok s0 name (cap (st_entry s entry))"
  by (rule rights_invD(3) [OF assms(1) ready_cap [OF assms(2)]])

lemma ready_settled: "ready s0 name entry s \<Longrightarrow> settled s0 name entry s"
  using ready_same ready_cap by (fastforce simp: settled_def ready_def)

end
