(* ===== verification/Right_Copyin.thy ===== *)
theory Right_Copyin
  imports Right_Flux
begin

section \<open>Moving rights out of a space\<close>

text \<open>
  \<open>ipc_right_check\<close>, \<open>ipc_right_copyin\<close> and \<open>ipc_object_copyin\<close> on a space that satisfies
  the invariant: they never panic or loop, keep the invariant, and the books balance.
\<close>

text \<open>The types as bits.\<close>

lemma type_algebra [simp]:
  "MACH_PORT_TYPE_SEND AND MACH_PORT_TYPE_SEND \<noteq> 0" "MACH_PORT_TYPE_SEND AND MACH_PORT_TYPE_RECEIVE = 0"
  "MACH_PORT_TYPE_SEND AND MACH_PORT_TYPE_SEND_ONCE = 0" "MACH_PORT_TYPE_SEND AND MACH_PORT_TYPE_PORT_SET = 0"
  "MACH_PORT_TYPE_SEND AND MACH_PORT_TYPE_DEAD_NAME = 0"
  "MACH_PORT_TYPE_SEND AND MACH_PORT_TYPE_SEND_RIGHTS \<noteq> 0"
  "MACH_PORT_TYPE_SEND AND MACH_PORT_TYPE_PORT_RIGHTS \<noteq> 0"
  "MACH_PORT_TYPE_SEND AND MACH_PORT_TYPE_PORT_OR_DEAD \<noteq> 0"
  "MACH_PORT_TYPE_RECEIVE AND MACH_PORT_TYPE_SEND = 0" "MACH_PORT_TYPE_RECEIVE AND MACH_PORT_TYPE_RECEIVE \<noteq> 0"
  "MACH_PORT_TYPE_RECEIVE AND MACH_PORT_TYPE_SEND_ONCE = 0" "MACH_PORT_TYPE_RECEIVE AND MACH_PORT_TYPE_PORT_SET = 0"
  "MACH_PORT_TYPE_RECEIVE AND MACH_PORT_TYPE_DEAD_NAME = 0"
  "MACH_PORT_TYPE_RECEIVE AND MACH_PORT_TYPE_SEND_RIGHTS = 0"
  "MACH_PORT_TYPE_RECEIVE AND MACH_PORT_TYPE_PORT_RIGHTS \<noteq> 0"
  "MACH_PORT_TYPE_RECEIVE AND MACH_PORT_TYPE_PORT_OR_DEAD \<noteq> 0"
  "MACH_PORT_TYPE_SEND_RECEIVE AND MACH_PORT_TYPE_SEND \<noteq> 0"
  "MACH_PORT_TYPE_SEND_RECEIVE AND MACH_PORT_TYPE_RECEIVE \<noteq> 0"
  "MACH_PORT_TYPE_SEND_RECEIVE AND MACH_PORT_TYPE_SEND_ONCE = 0"
  "MACH_PORT_TYPE_SEND_RECEIVE AND MACH_PORT_TYPE_PORT_SET = 0"
  "MACH_PORT_TYPE_SEND_RECEIVE AND MACH_PORT_TYPE_DEAD_NAME = 0"
  "MACH_PORT_TYPE_SEND_RECEIVE AND MACH_PORT_TYPE_SEND_RIGHTS \<noteq> 0"
  "MACH_PORT_TYPE_SEND_RECEIVE AND MACH_PORT_TYPE_PORT_RIGHTS \<noteq> 0"
  "MACH_PORT_TYPE_SEND_RECEIVE AND MACH_PORT_TYPE_PORT_OR_DEAD \<noteq> 0"
  "MACH_PORT_TYPE_SEND_ONCE AND MACH_PORT_TYPE_SEND = 0" "MACH_PORT_TYPE_SEND_ONCE AND MACH_PORT_TYPE_RECEIVE = 0"
  "MACH_PORT_TYPE_SEND_ONCE AND MACH_PORT_TYPE_SEND_ONCE \<noteq> 0"
  "MACH_PORT_TYPE_SEND_ONCE AND MACH_PORT_TYPE_PORT_SET = 0"
  "MACH_PORT_TYPE_SEND_ONCE AND MACH_PORT_TYPE_DEAD_NAME = 0"
  "MACH_PORT_TYPE_SEND_ONCE AND MACH_PORT_TYPE_SEND_RIGHTS \<noteq> 0"
  "MACH_PORT_TYPE_SEND_ONCE AND MACH_PORT_TYPE_PORT_RIGHTS \<noteq> 0"
  "MACH_PORT_TYPE_SEND_ONCE AND MACH_PORT_TYPE_PORT_OR_DEAD \<noteq> 0"
  "MACH_PORT_TYPE_PORT_SET AND MACH_PORT_TYPE_SEND = 0" "MACH_PORT_TYPE_PORT_SET AND MACH_PORT_TYPE_RECEIVE = 0"
  "MACH_PORT_TYPE_PORT_SET AND MACH_PORT_TYPE_SEND_ONCE = 0"
  "MACH_PORT_TYPE_PORT_SET AND MACH_PORT_TYPE_PORT_SET \<noteq> 0"
  "MACH_PORT_TYPE_PORT_SET AND MACH_PORT_TYPE_DEAD_NAME = 0"
  "MACH_PORT_TYPE_PORT_SET AND MACH_PORT_TYPE_SEND_RIGHTS = 0"
  "MACH_PORT_TYPE_PORT_SET AND MACH_PORT_TYPE_PORT_RIGHTS = 0"
  "MACH_PORT_TYPE_PORT_SET AND MACH_PORT_TYPE_PORT_OR_DEAD = 0" "MACH_PORT_TYPE_DEAD_NAME AND MACH_PORT_TYPE_SEND = 0"
  "MACH_PORT_TYPE_DEAD_NAME AND MACH_PORT_TYPE_RECEIVE = 0"
  "MACH_PORT_TYPE_DEAD_NAME AND MACH_PORT_TYPE_SEND_ONCE = 0"
  "MACH_PORT_TYPE_DEAD_NAME AND MACH_PORT_TYPE_PORT_SET = 0"
  "MACH_PORT_TYPE_DEAD_NAME AND MACH_PORT_TYPE_DEAD_NAME \<noteq> 0"
  "MACH_PORT_TYPE_DEAD_NAME AND MACH_PORT_TYPE_SEND_RIGHTS = 0"
  "MACH_PORT_TYPE_DEAD_NAME AND MACH_PORT_TYPE_PORT_RIGHTS = 0"
  "MACH_PORT_TYPE_DEAD_NAME AND MACH_PORT_TYPE_PORT_OR_DEAD \<noteq> 0" "MACH_PORT_TYPE_SEND \<noteq> 0"
  "MACH_PORT_TYPE_RECEIVE \<noteq> 0" "MACH_PORT_TYPE_SEND_RECEIVE \<noteq> 0" "MACH_PORT_TYPE_SEND_ONCE \<noteq> 0"
  "MACH_PORT_TYPE_PORT_SET \<noteq> 0" "MACH_PORT_TYPE_DEAD_NAME \<noteq> 0"
  "MACH_PORT_TYPE_SEND \<noteq> MACH_PORT_TYPE_RECEIVE" "MACH_PORT_TYPE_SEND \<noteq> MACH_PORT_TYPE_SEND_RECEIVE"
  "MACH_PORT_TYPE_SEND \<noteq> MACH_PORT_TYPE_SEND_ONCE" "MACH_PORT_TYPE_SEND \<noteq> MACH_PORT_TYPE_PORT_SET"
  "MACH_PORT_TYPE_SEND \<noteq> MACH_PORT_TYPE_DEAD_NAME" "MACH_PORT_TYPE_RECEIVE \<noteq> MACH_PORT_TYPE_SEND"
  "MACH_PORT_TYPE_RECEIVE \<noteq> MACH_PORT_TYPE_SEND_RECEIVE"
  "MACH_PORT_TYPE_RECEIVE \<noteq> MACH_PORT_TYPE_SEND_ONCE" "MACH_PORT_TYPE_RECEIVE \<noteq> MACH_PORT_TYPE_PORT_SET"
  "MACH_PORT_TYPE_RECEIVE \<noteq> MACH_PORT_TYPE_DEAD_NAME"
  "MACH_PORT_TYPE_SEND_RECEIVE \<noteq> MACH_PORT_TYPE_SEND"
  "MACH_PORT_TYPE_SEND_RECEIVE \<noteq> MACH_PORT_TYPE_RECEIVE"
  "MACH_PORT_TYPE_SEND_RECEIVE \<noteq> MACH_PORT_TYPE_SEND_ONCE"
  "MACH_PORT_TYPE_SEND_RECEIVE \<noteq> MACH_PORT_TYPE_PORT_SET"
  "MACH_PORT_TYPE_SEND_RECEIVE \<noteq> MACH_PORT_TYPE_DEAD_NAME"
  "MACH_PORT_TYPE_SEND_ONCE \<noteq> MACH_PORT_TYPE_SEND" "MACH_PORT_TYPE_SEND_ONCE \<noteq> MACH_PORT_TYPE_RECEIVE"
  "MACH_PORT_TYPE_SEND_ONCE \<noteq> MACH_PORT_TYPE_SEND_RECEIVE"
  "MACH_PORT_TYPE_SEND_ONCE \<noteq> MACH_PORT_TYPE_PORT_SET"
  "MACH_PORT_TYPE_SEND_ONCE \<noteq> MACH_PORT_TYPE_DEAD_NAME" "MACH_PORT_TYPE_PORT_SET \<noteq> MACH_PORT_TYPE_SEND"
  "MACH_PORT_TYPE_PORT_SET \<noteq> MACH_PORT_TYPE_RECEIVE"
  "MACH_PORT_TYPE_PORT_SET \<noteq> MACH_PORT_TYPE_SEND_RECEIVE"
  "MACH_PORT_TYPE_PORT_SET \<noteq> MACH_PORT_TYPE_SEND_ONCE"
  "MACH_PORT_TYPE_PORT_SET \<noteq> MACH_PORT_TYPE_DEAD_NAME" "MACH_PORT_TYPE_DEAD_NAME \<noteq> MACH_PORT_TYPE_SEND"
  "MACH_PORT_TYPE_DEAD_NAME \<noteq> MACH_PORT_TYPE_RECEIVE"
  "MACH_PORT_TYPE_DEAD_NAME \<noteq> MACH_PORT_TYPE_SEND_RECEIVE"
  "MACH_PORT_TYPE_DEAD_NAME \<noteq> MACH_PORT_TYPE_SEND_ONCE"
  "MACH_PORT_TYPE_DEAD_NAME \<noteq> MACH_PORT_TYPE_PORT_SET" "MACH_PORT_TYPE_SEND AND NOT MACH_PORT_TYPE_SEND = 0"
  "MACH_PORT_TYPE_RECEIVE AND NOT MACH_PORT_TYPE_RECEIVE = 0"
  "MACH_PORT_TYPE_SEND_ONCE AND NOT MACH_PORT_TYPE_SEND_ONCE = 0"
  "MACH_PORT_TYPE_DEAD_NAME AND NOT MACH_PORT_TYPE_DEAD_NAME = 0"
  "MACH_PORT_TYPE_SEND_RECEIVE AND NOT MACH_PORT_TYPE_SEND = MACH_PORT_TYPE_RECEIVE"
  "MACH_PORT_TYPE_SEND_RECEIVE AND NOT MACH_PORT_TYPE_RECEIVE = MACH_PORT_TYPE_SEND"
  "MACH_PORT_TYPE_SEND OR MACH_PORT_TYPE_SEND = MACH_PORT_TYPE_SEND"
  "MACH_PORT_TYPE_SEND OR MACH_PORT_TYPE_RECEIVE = MACH_PORT_TYPE_SEND_RECEIVE"
  "MACH_PORT_TYPE_RECEIVE OR MACH_PORT_TYPE_SEND = MACH_PORT_TYPE_SEND_RECEIVE"
  "MACH_PORT_TYPE_SEND_RECEIVE OR MACH_PORT_TYPE_SEND = MACH_PORT_TYPE_SEND_RECEIVE"
  "MACH_PORT_TYPE_SEND \<noteq> MACH_PORT_TYPE_PORT_RIGHTS" "MACH_PORT_TYPE_PORT_RIGHTS \<noteq> MACH_PORT_TYPE_SEND"
  "MACH_PORT_TYPE_SEND_ONCE \<noteq> MACH_PORT_TYPE_PORT_RIGHTS" "MACH_PORT_TYPE_PORT_RIGHTS \<noteq> MACH_PORT_TYPE_SEND_ONCE"
  by (simp_all add: type_values)

lemma entry_tests:
  "ie_bits e AND MACH_PORT_TYPE_SEND = type_of e AND MACH_PORT_TYPE_SEND"
  "ie_bits e AND MACH_PORT_TYPE_RECEIVE = type_of e AND MACH_PORT_TYPE_RECEIVE"
  "ie_bits e AND MACH_PORT_TYPE_SEND_ONCE = type_of e AND MACH_PORT_TYPE_SEND_ONCE"
  "ie_bits e AND MACH_PORT_TYPE_PORT_SET = type_of e AND MACH_PORT_TYPE_PORT_SET"
  "ie_bits e AND MACH_PORT_TYPE_DEAD_NAME = type_of e AND MACH_PORT_TYPE_DEAD_NAME"
  "ie_bits e AND MACH_PORT_TYPE_SEND_RIGHTS = type_of e AND MACH_PORT_TYPE_SEND_RIGHTS"
  "ie_bits e AND MACH_PORT_TYPE_PORT_RIGHTS = type_of e AND MACH_PORT_TYPE_PORT_RIGHTS"
  "ie_bits e AND MACH_PORT_TYPE_PORT_OR_DEAD = type_of e AND MACH_PORT_TYPE_PORT_OR_DEAD"
  using type_tests [of "ie_bits e"] by (simp_all add: type_of_def)

definition copied :: "ipc_state \<Rightarrow> mach_port_t \<Rightarrow> ipc_entry_ptr \<Rightarrow> mach_port_type_t \<Rightarrow> copyin_result option \<Rightarrow> bool" where
  "copied s0 name entry tt x \<longleftrightarrow>
     (\<exists>res s. x = Some (res, s) \<and> settled s0 name entry s \<and>
       tidy s0 name (left_cap (st_entry s entry)) (st_heap s) \<and>
       accounted (\<lambda>t p. of_bool ((\<exists>dn. res = Inr (p, dn)) \<and> p \<noteq> IP_DEAD \<and> (t = MACH_PORT_TYPE_PORT_RIGHTS \<or> t = tt)))
         s0 name (left_cap (st_entry s entry)) (st_heap s))"

lemma tidy_same: "rights_inv s0 \<Longrightarrow> steady (st_heap s0) h \<Longrightarrow> tidy s0 name (caps s0 name) h"
  by (rule tidy_steady) (simp_all add: rights_invD(3))

lemma ready_left: "ready s0 name entry s \<Longrightarrow> left_cap (st_entry s entry) = caps s0 name"
  using ready_cap by (fastforce simp: left_cap_def ready_def)

lemma copied_fail:
  assumes "rights_inv s0" "ready s0 name entry s" "st_heap s = st_heap s0"
  shows "copied s0 name entry tt (Some (Inl kr, s))"
  using ready_settled [OF assms(2)] ready_left [OF assms(2)] tidy_same [OF assms(1), of "st_heap s0" name] assms(3)
  by (simp add: copied_def accounted_def st_port_def)

text \<open>A right is made from the receive right.\<close>

lemma copied_make:
  assumes "rights_inv s0" "ready s0 name entry s" "st_heap s = st_heap s0"
    and r: "type_of (st_entry s entry) AND MACH_PORT_TYPE_PORT_RIGHTS \<noteq> 0" "ie_object (st_entry s entry) = port"
    and h: "steady (st_heap s0) h" "booked port (of_bool (tt = MACH_PORT_TYPE_SEND)) (of_bool (tt = MACH_PORT_TYPE_SEND_ONCE)) 1 (st_heap s0) h"
    and tt: "tt = MACH_PORT_TYPE_SEND \<or> tt = MACH_PORT_TYPE_SEND_ONCE"
  shows "copied s0 name entry tt (Some (Inr (port, IP_NULL), s\<lparr>st_heap := h\<rparr>))"
proof -
  have "right_ok s0 name (cap (st_entry s entry))" by (rule ready_right [OF assms(1,2)])
  then have v: "port \<noteq> IP_DEAD" using r by (auto simp: right_ok_cap IP_VALID_def right_types_def)
  have "ready s0 name entry (s\<lparr>st_heap := h\<rparr>)" using assms(2) by simp
  from ready_settled [OF this] ready_left [OF this] show ?thesis
    using tidy_same [OF assms(1) h(1), of name] h(2) v tt
    by (auto simp: copied_def accounted_def booked_def st_port_def)
qed

subsection \<open>Rights for dead ports\<close>

definition dead_bits :: "ipc_entry_bits_t \<Rightarrow> natural_t \<Rightarrow> ipc_entry_bits_t" where
  "dead_bits bits request =
     (let bits = (bits AND NOT IE_BITS_TYPE_MASK) OR MACH_PORT_TYPE_DEAD_NAME in if request \<noteq> 0 then bits + 1 else bits)"

lemma dead_bits:
  assumes "urefs_of bits < 0xffff"
  shows "IE_BITS_TYPE (dead_bits bits request) = MACH_PORT_TYPE_DEAD_NAME"
    "urefs_of (dead_bits bits request) = urefs_of bits + of_bool (request \<noteq> 0)"
    "dead_bits bits request AND NOT IE_BITS_RIGHT_MASK = bits AND NOT IE_BITS_RIGHT_MASK"
proof -
  note t = set_type [OF type_masked(4), of bits]
  have u: "urefs_of ((bits AND NOT IE_BITS_TYPE_MASK) OR MACH_PORT_TYPE_DEAD_NAME) < 0xffff" using assms t(2) by simp
  show "IE_BITS_TYPE (dead_bits bits request) = MACH_PORT_TYPE_DEAD_NAME"
    "urefs_of (dead_bits bits request) = urefs_of bits + of_bool (request \<noteq> 0)"
    "dead_bits bits request AND NOT IE_BITS_RIGHT_MASK = bits AND NOT IE_BITS_RIGHT_MASK"
    using t(1-3) urefs_up [OF u] by (simp_all add: dead_bits_def Let_def)
qed

lemma right_check_spec:
  assumes inv: "rights_inv s0" and ready: "ready s0 name entry s" and h: "st_heap s = st_heap s0"
    and e: "e = st_entry s entry" "type_of e AND MACH_PORT_TYPE_SEND_RIGHTS \<noteq> 0" "ie_object e = port"
  shows "if ip_active (st_port s0 port) then ipc_right_check port name entry s = Some (False, s)
    else \<exists>s'. ipc_right_check port name entry s = Some (True, s') \<and> opened s0 name entry s' \<and>
      type_of (st_entry s' entry) = MACH_PORT_TYPE_DEAD_NAME \<and> ie_object (st_entry s' entry) = NULL \<and>
      ie_request (st_entry s' entry) = 0 \<and>
      urefs_of (ie_bits (st_entry s' entry)) = urefs_of (ie_bits e) + of_bool (ie_request e \<noteq> 0) \<and>
      st_heap s' = ipc_port_release port (st_heap s0) \<and>
      (type_of e = MACH_PORT_TYPE_SEND \<or> type_of e = MACH_PORT_TYPE_SEND_ONCE)"
proof (cases "ip_active (st_port s0 port)")
  case True
  then show ?thesis using h by (simp add: ipc_right_check_def st_port_def)
next
  case False
  have ok: "right_ok s0 name (cap e)" unfolding e(1) by (rule ready_right [OF inv ready])
  then have t: "type_of e = MACH_PORT_TYPE_SEND \<or> type_of e = MACH_PORT_TYPE_SEND_ONCE"
    using False e(2,3) by (auto simp: right_ok_cap right_types_def received_def)
  then have u: "0 < urefs_of (ie_bits e)" "urefs_of (ie_bits e) < 0xffff"
    using ok by (auto simp: right_ok_cap)
  obtain s1 where s1: "(if ie_bits e AND MACH_PORT_TYPE_SEND \<noteq> 0 then hash_delete port name entry s else Some s) = Some s1"
    "opened s0 name entry s1" "st_heap s1 = st_heap s0" "ie_bits (st_entry s1 entry) = ie_bits e"
    "ie_object (st_entry s1 entry) = port" "ie_request (st_entry s1 entry) = ie_request e"
  proof (cases "type_of e = MACH_PORT_TYPE_SEND")
    case True
    then have "ie_bits e AND MACH_PORT_TYPE_SEND \<noteq> 0" by (simp add: entry_tests)
    then show ?thesis using present_unhash [OF ready_present [OF ready], of port] True e(1,3) h that by auto
  next
    case False
    then have "type_of e = MACH_PORT_TYPE_SEND_ONCE" using t by simp
    then have "ie_bits e AND MACH_PORT_TYPE_SEND = 0" by (simp add: entry_tests)
    moreover have "opened s0 name entry s" by (rule present_open [OF ready_present [OF ready]]) (use False e(1) in simp)
    ultimately show ?thesis
      by (intro that [of s]) (use h e(1,3) in \<open>simp_all del: not_None_eq\<close>)
  qed
  define b' where "b' = dead_bits (ie_bits e) (ie_request e)"
  note b = dead_bits [OF u(2), of "ie_request e", folded b'_def]
  let ?v = "\<lambda>e. e\<lparr>ie_bits := b', ie_object := NULL, ie_request := 0\<rparr>"
  let ?s = "set_entry entry ?v (on_heap (ipc_port_release port) s1)"
  have d: "same_slot (st_entry s1 entry) (?v (st_entry s1 entry))" "type_of (?v (st_entry s1 entry)) = MACH_PORT_TYPE_DEAD_NAME"
    using b(1,3) s1(4) by (simp_all add: same_slot_def type_of_def)
  have "\<not> ip_active (st_port s port)" using False h by (simp add: st_port_def)
  then have "ipc_right_check port name entry s = Some (True, ?s)"
    using s1(1,6) by (simp add: ipc_right_check_def e(1) b'_def dead_bits_def Let_def)
  moreover have "opened s0 name entry ?s" "st_entry ?s entry = ?v (st_entry s1 entry)"
    using opened_set [of s0 name entry "on_heap (ipc_port_release port) s1" ?v] d(1) s1(2) by simp_all
  ultimately show ?thesis using False d(2) b(2) t s1(3) by simp
qed

lemma copied_keep:
  assumes "rights_inv s0" "ready s0 name entry s" "st_heap s = st_heap s0" "\<And>p dn. res = Inr (p, dn) \<Longrightarrow> p = IP_DEAD"
  shows "copied s0 name entry tt (Some (res, s))"
  using ready_settled [OF assms(2)] ready_left [OF assms(2)] tidy_same [OF assms(1), of "st_heap s0" name] assms(3,4)
  by (auto simp: copied_def accounted_def st_port_def)

lemma copied_dead:
  assumes inv: "rights_inv s0" and ready: "ready s0 name entry s" and e: "e = st_entry s entry" "ie_object e = port"
    and h: "type_of e = MACH_PORT_TYPE_DEAD_NAME \<and> st_heap s' = st_heap s0 \<or>
      (type_of e = MACH_PORT_TYPE_SEND \<or> type_of e = MACH_PORT_TYPE_SEND_ONCE) \<and> \<not> ip_active (st_port s0 port) \<and>
      st_heap s' = ipc_port_release port (st_heap s0)"
    and o: "opened s0 name entry s'"
    and e': "type_of (st_entry s' entry) = 0 \<or> type_of (st_entry s' entry) = MACH_PORT_TYPE_DEAD_NAME \<and>
      ie_object (st_entry s' entry) = NULL \<and> ie_request (st_entry s' entry) = 0 \<and> 0 < urefs_of (ie_bits (st_entry s' entry))"
  shows "copied s0 name entry tt (Some (Inr (IP_DEAD, dn), s'))"
proof -
  let ?c = "left_cap (st_entry s' entry)"
  have cap: "caps s0 name = Some (cap e)" using ready_cap [OF ready] e(1) by simp
  have st: "steady (st_heap s0) (st_heap s')" using h reference_moves(5) [of "st_heap s0" port] by auto
  have "settled s0 name entry s'"
    using o e' opened_close [OF o] by (auto simp: settled_def)
  moreover have "tidy s0 name ?c (st_heap s')"
  proof (rule tidy_steady [OF inv st])
    show "right_ok s0 name x" if "?c = Some x" for x
    proof -
      have "x = cap (st_entry s' entry)" "type_of (st_entry s' entry) \<noteq> 0" using that by (auto simp: left_cap_def split: if_splits)
      then show ?thesis using e' by (auto simp: right_ok_cap right_types_def)
    qed
    show "receive_cap p ?c" if "receive_cap p (caps s0 name)" for p
      using that h unfolding cap cap_tests by auto
  qed
  moreover have none: "\<not> holds t p ?c" if "t = MACH_PORT_TYPE_PORT_RIGHTS \<or> t = MACH_PORT_TYPE_SEND \<or> t = MACH_PORT_TYPE_SEND_ONCE" for t p
    using that e' by (auto simp: left_cap_def cap_tests)
  have "accounted (\<lambda>t p. 0) s0 name ?c (st_heap s')"
    using h reference_moves(6) [of port "st_heap s0"] none
    unfolding accounted_def cap cap_tests e(2) by (auto simp: booked_def st_port_def)
  ultimately show ?thesis by (auto simp: copied_def accounted_def)
qed

lemma move_dead_spec:
  assumes o: "opened s0 name entry s" and e: "type_of (st_entry s entry) = MACH_PORT_TYPE_DEAD_NAME" "0 < urefs_of (ie_bits (st_entry s entry))"
    "ie_object (st_entry s entry) = NULL" "ie_request (st_entry s entry) = 0"
  shows "\<exists>s'. move_dead True entry s = (Inr (IP_DEAD, IP_NULL), s') \<and> opened s0 name entry s' \<and> st_heap s' = st_heap s \<and>
    (type_of (st_entry s' entry) = 0 \<or> type_of (st_entry s' entry) = MACH_PORT_TYPE_DEAD_NAME \<and>
      ie_object (st_entry s' entry) = NULL \<and> ie_request (st_entry s' entry) = 0 \<and> 0 < urefs_of (ie_bits (st_entry s' entry)))"
proof -
  let ?e = "st_entry s entry"
  define b where "b = (if IE_BITS_UREFS (ie_bits ?e) = 1 then ie_bits ?e AND NOT MACH_PORT_TYPE_DEAD_NAME else ie_bits ?e - 1)"
  let ?v = "\<lambda>e. e\<lparr>ie_bits := b\<rparr>"
  have ty: "IE_BITS_TYPE (ie_bits ?e) = MACH_PORT_TYPE_DEAD_NAME" using e(1) by (simp add: type_of_def)
  have b: "b AND NOT IE_BITS_RIGHT_MASK = ie_bits ?e AND NOT IE_BITS_RIGHT_MASK"
    "IE_BITS_TYPE b = 0 \<or> IE_BITS_TYPE b = MACH_PORT_TYPE_DEAD_NAME \<and> 0 < urefs_of b"
    using urefs_down [OF e(2)] set_type(7,9) [OF type_masked(4), of "ie_bits ?e"] ty e(2)
    by (auto simp: b_def urefs_one)
  have sl: "same_slot ?e (?v ?e)" using b(1) by (simp add: same_slot_def)
  have "move_dead True entry s = (Inr (IP_DEAD, IP_NULL), set_entry entry ?v s)"
    by (simp add: move_dead_def b_def Let_def)
  then show ?thesis
    using opened_set [OF o, of ?v, OF sl] b(2) e(3,4) by (auto simp: type_of_def)
qed

lemma ready_type:
  assumes "rights_inv s0" "ready s0 name entry s"
  shows "type_of (st_entry s entry) \<in> right_types"
    "type_of (st_entry s entry) AND MACH_PORT_TYPE_RECEIVE \<noteq> 0 \<Longrightarrow> type_of (st_entry s entry) AND MACH_PORT_TYPE_PORT_RIGHTS \<noteq> 0"
    "type_of (st_entry s entry) AND MACH_PORT_TYPE_SEND \<noteq> 0 \<Longrightarrow> type_of (st_entry s entry) AND MACH_PORT_TYPE_PORT_RIGHTS \<noteq> 0"
proof -
  show t: "type_of (st_entry s entry) \<in> right_types" using ready_right [OF assms] unfolding right_ok_cap by blast
  show "type_of (st_entry s entry) AND MACH_PORT_TYPE_PORT_RIGHTS \<noteq> 0" if "type_of (st_entry s entry) AND MACH_PORT_TYPE_RECEIVE \<noteq> 0"
    using that by (cases rule: right_type_cases [OF t]) simp_all
  show "type_of (st_entry s entry) AND MACH_PORT_TYPE_PORT_RIGHTS \<noteq> 0" if "type_of (st_entry s entry) AND MACH_PORT_TYPE_SEND \<noteq> 0"
    using that by (cases rule: right_type_cases [OF t]) simp_all
qed

lemma copyin_make:
  assumes "rights_inv s0" "ready s0 name entry s" "st_heap s = st_heap s0"
  shows "copied s0 name entry MACH_PORT_TYPE_SEND (ipc_right_copyin s name entry MACH_MSG_TYPE_MAKE_SEND True)"
    "copied s0 name entry MACH_PORT_TYPE_SEND_ONCE (ipc_right_copyin s name entry MACH_MSG_TYPE_MAKE_SEND_ONCE True)"
proof -
  let ?e = "st_entry s entry"
  let ?p = "ie_object ?e"
  have m: "steady (st_heap s0) (ip_reference ?p (set_port ?p (\<lambda>p. p\<lparr>ip_mscount := ip_mscount p + 1, ip_srights := ip_srights p + 1\<rparr>) (st_heap s0)))"
    "booked ?p 1 0 1 (st_heap s0) (ip_reference ?p (set_port ?p (\<lambda>p. p\<lparr>ip_mscount := ip_mscount p + 1, ip_srights := ip_srights p + 1\<rparr>) (st_heap s0)))"
    "steady (st_heap s0) (ip_reference ?p (set_port ?p (\<lambda>p. p\<lparr>ip_sorights := ip_sorights p + 1\<rparr>) (st_heap s0)))"
    "booked ?p 0 1 1 (st_heap s0) (ip_reference ?p (set_port ?p (\<lambda>p. p\<lparr>ip_sorights := ip_sorights p + 1\<rparr>) (st_heap s0)))"
    by (auto simp: steady_def booked_def ip_reference_def ip_active_def)
  show "copied s0 name entry MACH_PORT_TYPE_SEND (ipc_right_copyin s name entry MACH_MSG_TYPE_MAKE_SEND True)"
    using copied_make [OF assms, of ?p _ MACH_PORT_TYPE_SEND] m(1,2) copied_fail [OF assms] assms(3) ready_type(2) [OF assms(1,2)]
    by (simp add: ipc_right_copyin_def Let_def entry_tests on_heap_def on_port_def)
  show "copied s0 name entry MACH_PORT_TYPE_SEND_ONCE (ipc_right_copyin s name entry MACH_MSG_TYPE_MAKE_SEND_ONCE True)"
    using copied_make [OF assms, of ?p _ MACH_PORT_TYPE_SEND_ONCE] m(3,4) copied_fail [OF assms] assms(3) ready_type(2) [OF assms(1,2)]
    by (simp add: ipc_right_copyin_def Let_def entry_tests on_heap_def on_port_def msg_types)
qed


text \<open>The operations on send rights first look whether the port has died.\<close>

lemma checked:
  assumes inv: "rights_inv s0" and ready: "ready s0 name entry s" and h: "st_heap s = st_heap s0"
    and t: "type_of (st_entry s entry) AND MACH_PORT_TYPE_SEND_RIGHTS \<noteq> 0"
  shows "(ip_active (st_port s0 (ie_object (st_entry s entry))) \<and>
      ipc_right_check (ie_object (st_entry s entry)) name entry s = Some (False, s)) \<or>
    (\<exists>s'. ipc_right_check (ie_object (st_entry s entry)) name entry s = Some (True, s') \<and>
      copied s0 name entry tt (Some (copy_dead True s')) \<and> copied s0 name entry tt (Some (move_dead True entry s')))"
proof (cases "ip_active (st_port s0 (ie_object (st_entry s entry)))")
  case True
  then show ?thesis using right_check_spec [OF inv ready h refl t refl] by simp
next
  case False
  let ?e = "st_entry s entry"
  obtain s' where s': "ipc_right_check (ie_object ?e) name entry s = Some (True, s')" "opened s0 name entry s'"
    "type_of (st_entry s' entry) = MACH_PORT_TYPE_DEAD_NAME" "ie_object (st_entry s' entry) = NULL"
    "ie_request (st_entry s' entry) = 0" "st_heap s' = ipc_port_release (ie_object ?e) (st_heap s0)"
    "urefs_of (ie_bits (st_entry s' entry)) = urefs_of (ie_bits ?e) + of_bool (ie_request ?e \<noteq> 0)"
    "type_of ?e = MACH_PORT_TYPE_SEND \<or> type_of ?e = MACH_PORT_TYPE_SEND_ONCE"
    using right_check_spec [OF inv ready h refl t refl] False by auto
  have u: "0 < urefs_of (ie_bits (st_entry s' entry))"
    using ready_right [OF inv ready] s'(7,8) by (auto simp: right_ok_cap)
  obtain s'' where m: "move_dead True entry s' = (Inr (IP_DEAD, IP_NULL), s'')" "opened s0 name entry s''"
    "st_heap s'' = st_heap s'" "type_of (st_entry s'' entry) = 0 \<or> type_of (st_entry s'' entry) = MACH_PORT_TYPE_DEAD_NAME \<and>
      ie_object (st_entry s'' entry) = NULL \<and> ie_request (st_entry s'' entry) = 0 \<and> 0 < urefs_of (ie_bits (st_entry s'' entry))"
    using move_dead_spec [OF s'(2,3) u s'(4,5)] by blast
  note d = copied_dead [OF inv ready refl refl]
  have "copied s0 name entry tt (Some (copy_dead True s'))"
    using d [OF _ s'(2)] s'(3-6,8) u False by (simp add: copy_dead_def)
  moreover have "copied s0 name entry tt (Some (move_dead True entry s'))"
    unfolding m(1) using d [OF _ m(2,4)] s'(6,8) m(3) False by simp
  ultimately show ?thesis using s'(1) by blast
qed

lemma copyin_copy:
  assumes inv: "rights_inv s0" and ready: "ready s0 name entry s" and h: "st_heap s = st_heap s0"
  shows "copied s0 name entry MACH_PORT_TYPE_SEND (ipc_right_copyin s name entry MACH_MSG_TYPE_COPY_SEND True)"
proof -
  let ?e = "st_entry s entry"
  let ?p = "ie_object ?e"
  let ?h = "ip_reference ?p (set_port ?p (\<lambda>p. p\<lparr>ip_srights := ip_srights p + 1\<rparr>) (st_heap s0))"
  have m: "steady (st_heap s0) ?h" "booked ?p 1 0 1 (st_heap s0) ?h"
    by (auto simp: steady_def booked_def ip_reference_def ip_active_def)
  have c: "ipc_right_copyin s name entry MACH_MSG_TYPE_COPY_SEND True = copyin_copy_send s name entry True"
    by (simp add: ipc_right_copyin_def msg_types)
  show ?thesis
  proof (cases "type_of ?e AND MACH_PORT_TYPE_DEAD_NAME = 0 \<and> type_of ?e AND MACH_PORT_TYPE_SEND_RIGHTS \<noteq> 0")
    case False
    then have "(\<exists>x. copyin_copy_send s name entry True = Some (Inl x, s)) \<or> copyin_copy_send s name entry True = Some (Inr (IP_DEAD, IP_NULL), s)"
      unfolding copyin_copy_send_def Let_def entry_tests copy_dead_def by auto
    then show ?thesis using copied_keep [OF inv ready h] unfolding c by fastforce
  next
    case True
    have good: "copied s0 name entry MACH_PORT_TYPE_SEND (Some (Inr (?p, IP_NULL), s\<lparr>st_heap := ?h\<rparr>))"
      if "type_of ?e AND MACH_PORT_TYPE_SEND \<noteq> 0"
      using copied_make [OF inv ready h ready_type(3) [OF inv ready that] refl m(1), of MACH_PORT_TYPE_SEND] m(2) by simp
    have "on_heap (ip_reference ?p) (on_port ?p (\<lambda>p. p\<lparr>ip_srights := ip_srights p + 1\<rparr>) s) = s\<lparr>st_heap := ?h\<rparr>"
      by (simp add: on_heap_def on_port_def h)
    then show ?thesis
      using checked [OF inv ready h, of MACH_PORT_TYPE_SEND] copied_fail [OF inv ready h] good True
      unfolding c copyin_copy_send_def Let_def entry_tests by auto
  qed
qed

text \<open>The general end of a move of a right for \<open>port\<close> that leaves the port where it is.\<close>

lemma copied_steady:
  assumes inv: "rights_inv s0" and ready: "ready s0 name entry s" and e: "e = st_entry s entry" "ie_object e = port"
    and p: "type_of e AND MACH_PORT_TYPE_PORT_RIGHTS \<noteq> 0"
    and s': "settled s0 name entry s'" and st: "steady (st_heap s0) (st_heap s')" "booked port a b c (st_heap s0) (st_heap s')"
    and e': "e' = st_entry s' entry" "type_of e' \<noteq> 0 \<Longrightarrow> right_ok s0 name (cap e') \<and> ie_object e' = port"
    and rcv: "type_of e AND MACH_PORT_TYPE_RECEIVE \<noteq> 0 \<Longrightarrow> type_of e' \<noteq> 0 \<and> type_of e' AND MACH_PORT_TYPE_RECEIVE \<noteq> 0"
    and bal: "c - of_bool (type_of e' AND MACH_PORT_TYPE_PORT_RIGHTS \<noteq> 0) = 0"
      "a - of_bool (type_of e' AND MACH_PORT_TYPE_SEND \<noteq> 0) = of_bool (tt = MACH_PORT_TYPE_SEND) - of_bool (type_of e AND MACH_PORT_TYPE_SEND \<noteq> 0)"
      "b - of_bool (type_of e' AND MACH_PORT_TYPE_SEND_ONCE \<noteq> 0) =
        of_bool (tt = MACH_PORT_TYPE_SEND_ONCE) - of_bool (type_of e AND MACH_PORT_TYPE_SEND_ONCE \<noteq> 0)"
    and tt: "tt = MACH_PORT_TYPE_SEND \<or> tt = MACH_PORT_TYPE_SEND_ONCE"
  shows "copied s0 name entry tt (Some (Inr (port, dn), s'))"
proof -
  have cap: "caps s0 name = Some (cap e)" using ready_cap [OF ready] e(1) by simp
  have v: "port \<noteq> IP_DEAD" using ready_right [OF inv ready] p unfolding e [symmetric] by (auto simp: right_ok_cap IP_VALID_def)
  have tidy: "tidy s0 name (left_cap e') (st_heap s')"
    by (rule tidy_steady [OF inv st(1)])
      (use e'(2) rcv in \<open>auto simp: left_cap_def cap cap_tests e(2) split: if_splits\<close>)
  have eq: "x + u - v = x - w + d" if "u - v = d - w" for x u v d w :: natural_t
  proof -
    have "x + u - v = x + (u - v)" "x - w + d = x + (d - w)" by simp_all
    then show ?thesis using that by simp
  qed
  have hc: "holds t q (left_cap e') \<longleftrightarrow> q = port \<and> type_of e' AND t \<noteq> 0"
    if "t = MACH_PORT_TYPE_PORT_RIGHTS \<or> t = MACH_PORT_TYPE_SEND \<or> t = MACH_PORT_TYPE_SEND_ONCE" for t q
    using that e'(2) by (auto simp: left_cap_def cap_tests)
  have "accounted (\<lambda>t q. of_bool ((\<exists>dn'. Inr (port, dn) = (Inr (q, dn') :: kern_return_t + addr \<times> addr)) \<and> q \<noteq> IP_DEAD \<and>
      (t = MACH_PORT_TYPE_PORT_RIGHTS \<or> t = tt))) s0 name (left_cap e') (st_heap s')"
    unfolding accounted_def
  proof (intro allI conjI impI)
    fix q
    show "ip_references (ports (st_heap s') q) - of_bool (holds MACH_PORT_TYPE_PORT_RIGHTS q (left_cap e')) =
        ip_references (st_port s0 q) - of_bool (holds MACH_PORT_TYPE_PORT_RIGHTS q (caps s0 name)) +
        of_bool ((\<exists>dn'. Inr (port, dn) = (Inr (q, dn') :: kern_return_t + addr \<times> addr)) \<and> q \<noteq> IP_DEAD \<and>
          (MACH_PORT_TYPE_PORT_RIGHTS = MACH_PORT_TYPE_PORT_RIGHTS \<or> MACH_PORT_TYPE_PORT_RIGHTS = tt))"
      using st(2) bal(1) p v unfolding cap by (auto simp: hc cap_tests e(2) booked_def st_port_def intro: eq)
    show "ip_srights (ports (st_heap s') q) - of_bool (holds MACH_PORT_TYPE_SEND q (left_cap e')) =
        ip_srights (st_port s0 q) - of_bool (holds MACH_PORT_TYPE_SEND q (caps s0 name)) +
        of_bool ((\<exists>dn'. Inr (port, dn) = (Inr (q, dn') :: kern_return_t + addr \<times> addr)) \<and> q \<noteq> IP_DEAD \<and>
          (MACH_PORT_TYPE_SEND = MACH_PORT_TYPE_PORT_RIGHTS \<or> MACH_PORT_TYPE_SEND = tt))"
    proof (cases "q = port")
      case True
      have "of_bool (MACH_PORT_TYPE_SEND = tt) = (of_bool (tt = MACH_PORT_TYPE_SEND) :: natural_t)" by auto
      then show ?thesis
        using st(2) eq [OF bal(2)] v True unfolding cap by (simp add: hc cap_tests e(2) booked_def st_port_def)
    next
      case False
      then show ?thesis using st(2) unfolding cap by (simp add: hc cap_tests e(2) booked_def st_port_def)
    qed
    show "ip_sorights (ports (st_heap s') q) - of_bool (holds MACH_PORT_TYPE_SEND_ONCE q (left_cap e')) =
        ip_sorights (st_port s0 q) - of_bool (holds MACH_PORT_TYPE_SEND_ONCE q (caps s0 name)) +
        of_bool ((\<exists>dn'. Inr (port, dn) = (Inr (q, dn') :: kern_return_t + addr \<times> addr)) \<and> q \<noteq> IP_DEAD \<and>
          (MACH_PORT_TYPE_SEND_ONCE = MACH_PORT_TYPE_PORT_RIGHTS \<or> MACH_PORT_TYPE_SEND_ONCE = tt))"
    proof (cases "q = port")
      case True
      have "of_bool (MACH_PORT_TYPE_SEND_ONCE = tt) = (of_bool (tt = MACH_PORT_TYPE_SEND_ONCE) :: natural_t)" by auto
      then show ?thesis
        using st(2) eq [OF bal(3)] v True unfolding cap by (simp add: hc cap_tests e(2) booked_def st_port_def)
    next
      case False
      then show ?thesis using st(2) unfolding cap by (simp add: hc cap_tests e(2) booked_def st_port_def)
    qed
  qed
  then show ?thesis using s' tidy unfolding copied_def e'(1) by blast
qed

lemma type_after [simp]: "type_of (e\<lparr>ie_bits := b\<rparr>) = IE_BITS_TYPE b"
  "type_of (e\<lparr>ie_object := ob\<rparr>) = type_of e" "type_of (e\<lparr>ie_request := r\<rparr>) = type_of e"
  by (simp_all add: type_of_def)

text \<open>Moving one of several user references: the entry keeps its type.\<close>

lemma move_one_uref:
  assumes inv: "rights_inv s0" and ready: "ready s0 name entry s" and h: "st_heap s = st_heap s0"
    and e: "e = st_entry s entry" "ie_object e = port" "type_of e AND MACH_PORT_TYPE_SEND \<noteq> 0" "urefs_of (ie_bits e) \<noteq> 1"
  shows "copied s0 name entry MACH_PORT_TYPE_SEND
    (Some (Inr (port, IP_NULL), set_entry entry (\<lambda>e'. e'\<lparr>ie_bits := ie_bits e - 1\<rparr>)
      (on_heap (ip_reference port) (on_port port (\<lambda>p. p\<lparr>ip_srights := ip_srights p + 1\<rparr>) s))))"
proof -
  let ?v = "\<lambda>e'. e'\<lparr>ie_bits := ie_bits e - 1\<rparr>"
  let ?s = "on_heap (ip_reference port) (on_port port (\<lambda>p. p\<lparr>ip_srights := ip_srights p + 1\<rparr>) s)"
  have ok: "right_ok s0 name (cap e)" unfolding e(1) by (rule ready_right [OF inv ready])
  have t: "type_of e = MACH_PORT_TYPE_SEND \<or> type_of e = MACH_PORT_TYPE_SEND_RECEIVE"
    using ready_type(1) [OF inv ready] e(3) unfolding e(1) [symmetric] by (cases rule: right_type_cases) simp_all
  then have u: "0 < urefs_of (ie_bits e)" "urefs_of (ie_bits e) < 0xffff" using ok unfolding right_ok_cap by blast+
  note d = urefs_down [OF u(1)]
  have sl: "same_slot (st_entry ?s entry) (?v (st_entry ?s entry))" using d(3) e(1) by (simp add: same_slot_def)
  have ty: "IE_BITS_TYPE (ie_bits e - 1) = type_of e" using d(1) by (simp add: type_of_def)
  have "present s0 name entry ?s" using ready_present [OF ready] by simp
  from present_set [OF this, of ?v, OF sl] have pr: "present s0 name entry (set_entry entry ?v ?s)"
    "st_entry (set_entry entry ?v ?s) entry = ?v e"
    using ty e(1) by simp_all
  have set: "settled s0 name entry (set_entry entry ?v ?s)"
    using present_closed [OF pr(1)] t ty pr(2) by (auto simp: settled_def)
  have ok': "right_ok s0 name (cap (?v e)) \<and> ie_object (?v e) = port"
    using ok e(2,4) d(2) u ty t by (auto simp: right_ok_cap)
  show ?thesis
    using t ty e(2) h ok'
    by (intro copied_steady [OF inv ready e(1,2) _ set _ _ pr(2) [symmetric], where a = 1 and b = 0 and c = 1])
      (auto simp: steady_def booked_def ip_reference_def ip_active_def)
qed

text \<open>Moving the last one.\<close>

lemma cleared_bits:
  assumes "IE_BITS_TYPE b AND NOT t = u" "t AND IE_BITS_TYPE_MASK = t"
  shows "IE_BITS_TYPE (b AND NOT (IE_BITS_UREFS_MASK OR t)) = u" "urefs_of (b AND NOT (IE_BITS_UREFS_MASK OR t)) = 0"
    "(b AND NOT (IE_BITS_UREFS_MASK OR t)) AND NOT IE_BITS_RIGHT_MASK = b AND NOT IE_BITS_RIGHT_MASK"
    "IE_BITS_TYPE (b AND NOT t) = u" "(b AND NOT t) AND NOT IE_BITS_RIGHT_MASK = b AND NOT IE_BITS_RIGHT_MASK"
  using set_type [OF assms(2), of b] assms(1) by simp_all

lemma move_last_send:
  assumes inv: "rights_inv s0" and ready: "ready s0 name entry s" and h: "st_heap s = st_heap s0"
    and e: "e = st_entry s entry" "ie_object e = port" "type_of e = MACH_PORT_TYPE_SEND"
  obtains dn s1 s2 where "ipc_right_dncancel_macro port name entry s = (dn, s1)" "hash_delete port name entry s1 = Some s2"
    "copied s0 name entry MACH_PORT_TYPE_SEND (Some (Inr (port, dn),
       set_entry entry (\<lambda>e'. e'\<lparr>ie_bits := ie_bits e AND NOT (IE_BITS_UREFS_MASK OR MACH_PORT_TYPE_SEND)\<rparr>)
         (set_entry entry (\<lambda>e. e\<lparr>ie_object := NULL\<rparr>) s2)))"
proof -
  obtain dn s1 where s1: "ipc_right_dncancel_macro port name entry s = (dn, s1)" "present s0 name entry s1"
    "steady (st_heap s) (st_heap s1)" "\<And>p. booked p 0 0 0 (st_heap s) (st_heap s1)"
    "st_entry s1 entry = e\<lparr>ie_request := 0\<rparr>"
    using dncancel_macro [of s0 name entry s port] ready_present [OF ready] e(1) by metis
  obtain s2 where s2: "hash_delete port name entry s1 = Some s2" "opened s0 name entry s2" "st_heap s2 = st_heap s1"
    "ie_bits (st_entry s2 entry) = ie_bits e"
    using present_unhash [OF s1(2), of port] s1(5) e(2,3) by (auto simp: type_of_def)
  define b where "b = ie_bits e AND NOT (IE_BITS_UREFS_MASK OR MACH_PORT_TYPE_SEND)"
  have b: "IE_BITS_TYPE b = 0" "b AND NOT IE_BITS_RIGHT_MASK = ie_bits e AND NOT IE_BITS_RIGHT_MASK"
    using cleared_bits [of "ie_bits e" MACH_PORT_TYPE_SEND 0] e(3) by (simp_all add: b_def type_of_def)
  let ?u = "\<lambda>e. e\<lparr>ie_object := NULL\<rparr>" and ?v = "\<lambda>e. e\<lparr>ie_bits := b\<rparr>"
  let ?s = "set_entry entry ?v (set_entry entry ?u s2)"
  have o1: "opened s0 name entry (set_entry entry ?u s2)" "st_entry (set_entry entry ?u s2) entry = ?u (st_entry s2 entry)"
    using opened_set [OF s2(2), of ?u] by (simp_all add: same_slot_def)
  have o2: "opened s0 name entry ?s" "st_entry ?s entry = ?v (?u (st_entry s2 entry))"
    using opened_set [OF o1(1), of ?v] o1(2) b(2) s2(4) by (simp_all add: same_slot_def)
  have set: "settled s0 name entry ?s" using o2 b(1) by (simp add: settled_def)
  have "copied s0 name entry MACH_PORT_TYPE_SEND (Some (Inr (port, dn), ?s))"
    by (rule copied_steady [OF inv ready e(1,2) _ set _ _ refl, where a = 0 and b = 0 and c = 0])
      (use e(3) o2(2) b(1) s1(3,4) s2(3) h in simp_all)
  then show ?thesis using that [OF s1(1) s2(1)] unfolding b_def by blast
qed

lemma move_last_send_receive:
  assumes inv: "rights_inv s0" and ready: "ready s0 name entry s" and h: "st_heap s = st_heap s0"
    and e: "e = st_entry s entry" "ie_object e = port" "type_of e = MACH_PORT_TYPE_SEND_RECEIVE"
  shows "copied s0 name entry MACH_PORT_TYPE_SEND (Some (Inr (port, dn),
     set_entry entry (\<lambda>e'. e'\<lparr>ie_bits := ie_bits e AND NOT (IE_BITS_UREFS_MASK OR MACH_PORT_TYPE_SEND)\<rparr>)
       (on_heap (ip_reference port) s)))"
proof -
  define b where "b = ie_bits e AND NOT (IE_BITS_UREFS_MASK OR MACH_PORT_TYPE_SEND)"
  have b: "IE_BITS_TYPE b = MACH_PORT_TYPE_RECEIVE" "b AND NOT IE_BITS_RIGHT_MASK = ie_bits e AND NOT IE_BITS_RIGHT_MASK"
    "urefs_of b = 0"
    using cleared_bits [of "ie_bits e" MACH_PORT_TYPE_SEND MACH_PORT_TYPE_RECEIVE] e(3) by (simp_all add: b_def type_of_def)
  let ?v = "\<lambda>e. e\<lparr>ie_bits := b\<rparr>"
  let ?s = "set_entry entry ?v (on_heap (ip_reference port) s)"
  have "opened s0 name entry (on_heap (ip_reference port) s)"
    using present_open [OF ready_present [OF ready]] e(1,3) by simp
  from opened_set [OF this, of ?v] have o: "opened s0 name entry ?s" "st_entry ?s entry = ?v e"
    using b(2) e(1) by (simp_all add: same_slot_def)
  have ty: "type_of (st_entry ?s entry) = MACH_PORT_TYPE_RECEIVE" using o(2) b(1) by simp
  have set: "settled s0 name entry ?s" using opened_close [OF o(1)] ty by (simp add: settled_def)
  have ok: "right_ok s0 name (cap e)" unfolding e(1) by (rule ready_right [OF inv ready])
  have "right_ok s0 name (cap (?v e))" using ok b e(3) by (simp add: right_ok_cap right_types_def)
  then have "copied s0 name entry MACH_PORT_TYPE_SEND (Some (Inr (port, dn), ?s))"
    using e(2,3) h b(1)
    by (intro copied_steady [OF inv ready e(1,2) _ set _ _ o(2) [symmetric], where a = 0 and b = 0 and c = 1]) simp_all
  then show ?thesis unfolding b_def .
qed

lemma copyin_move:
  assumes inv: "rights_inv s0" and ready: "ready s0 name entry s" and h: "st_heap s = st_heap s0"
  shows "copied s0 name entry MACH_PORT_TYPE_SEND (ipc_right_copyin s name entry MACH_MSG_TYPE_MOVE_SEND True)"
proof -
  define e where "e = st_entry s entry"
  define p where "p = ie_object e"
  have c: "ipc_right_copyin s name entry MACH_MSG_TYPE_MOVE_SEND True = copyin_move_send s name entry True"
    by (simp add: ipc_right_copyin_def msg_types)
  note defs = copyin_move_send_def Let_def entry_tests e_def [symmetric] p_def [symmetric]
  note fail = copied_fail [OF inv ready h, of MACH_PORT_TYPE_SEND]
  have ty: "type_of e \<in> right_types" unfolding e_def by (rule ready_type(1) [OF inv ready])
  consider (none) "type_of e AND MACH_PORT_TYPE_DEAD_NAME = 0" "type_of e AND MACH_PORT_TYPE_SEND_RIGHTS = 0"
    | (dead) "type_of e = MACH_PORT_TYPE_DEAD_NAME"
    | (sends) "type_of e AND MACH_PORT_TYPE_DEAD_NAME = 0" "type_of e AND MACH_PORT_TYPE_SEND_RIGHTS \<noteq> 0"
    by (cases rule: right_type_cases [OF ty]) auto
  then show ?thesis
  proof cases
    case none
    then show ?thesis using fail unfolding c defs by simp
  next
    case dead
    have ok: "right_ok s0 name (cap e)" unfolding e_def by (rule ready_right [OF inv ready])
    have o: "opened s0 name entry s" by (rule present_open [OF ready_present [OF ready]]) (use dead e_def in simp)
    obtain s' where "move_dead True entry s = (Inr (IP_DEAD, IP_NULL), s')" "opened s0 name entry s'" "st_heap s' = st_heap s"
      "type_of (st_entry s' entry) = 0 \<or> type_of (st_entry s' entry) = MACH_PORT_TYPE_DEAD_NAME \<and>
        ie_object (st_entry s' entry) = NULL \<and> ie_request (st_entry s' entry) = 0 \<and> 0 < urefs_of (ie_bits (st_entry s' entry))"
      using move_dead_spec [OF o] ok dead unfolding right_ok_cap e_def by auto
    then show ?thesis
      using copied_dead [OF inv ready e_def refl, of s' MACH_PORT_TYPE_SEND IP_NULL] dead h unfolding c defs by simp
  next
    case sends
    show ?thesis
    proof (cases "ip_active (st_port s0 p)")
      case False
      then show ?thesis
        using checked [OF inv ready h, of MACH_PORT_TYPE_SEND] sends unfolding c defs by auto
    next
      case True
      then have no: "ipc_right_check p name entry s = Some (False, s)"
        using h by (simp add: ipc_right_check_def st_port_def)
      have ok: "right_ok s0 name (cap e)" unfolding e_def by (rule ready_right [OF inv ready])
      show ?thesis
      proof (cases "urefs_of (ie_bits e) = 1")
        case False
        then show ?thesis
          using move_one_uref [OF inv ready h e_def p_def [symmetric]] fail sends no unfolding c defs by (simp add: urefs_one)
      next
        case True
        then show ?thesis
        proof (cases rule: right_type_cases [OF ty])
          case 1
          then obtain dn s1 s2 where "ipc_right_dncancel_macro p name entry s = (dn, s1)" "hash_delete p name entry s1 = Some s2"
            "copied s0 name entry MACH_PORT_TYPE_SEND (Some (Inr (p, dn),
              set_entry entry (\<lambda>e'. e'\<lparr>ie_bits := ie_bits e AND NOT (IE_BITS_UREFS_MASK OR MACH_PORT_TYPE_SEND)\<rparr>)
               (set_entry entry (\<lambda>e. e\<lparr>ie_object := NULL\<rparr>) s2)))"
            using move_last_send [OF inv ready h e_def p_def [symmetric]] by metis
          then show ?thesis using no True 1 unfolding c defs by (simp add: urefs_one)
        next
          case 3
          then show ?thesis
            using move_last_send_receive [OF inv ready h e_def p_def [symmetric]] no True unfolding c defs by (simp add: urefs_one)
        qed (use sends no fail in \<open>simp_all add: c defs\<close>)
      qed
    qed
  qed
qed

lemma move_once:
  assumes inv: "rights_inv s0" and ready: "ready s0 name entry s" and h: "st_heap s = st_heap s0"
    and e: "e = st_entry s entry" "ie_object e = port" "type_of e = MACH_PORT_TYPE_SEND_ONCE"
  obtains dn s1 where "ipc_right_dncancel_macro port name entry s = (dn, s1)"
    "copied s0 name entry MACH_PORT_TYPE_SEND_ONCE (Some (Inr (port, dn),
       set_entry entry (\<lambda>e'. e'\<lparr>ie_object := NULL, ie_bits := ie_bits e AND NOT MACH_PORT_TYPE_SEND_ONCE\<rparr>) s1))"
proof -
  have op: "opened s0 name entry s" by (rule present_open [OF ready_present [OF ready]]) (use e(1,3) in simp)
  obtain dn s1 where s1: "ipc_right_dncancel_macro port name entry s = (dn, s1)" "opened s0 name entry s1"
    "steady (st_heap s) (st_heap s1)" "\<And>p. booked p 0 0 0 (st_heap s) (st_heap s1)"
    "st_entry s1 entry = e\<lparr>ie_request := 0\<rparr>"
    using dncancel_macro [of s0 name entry s port] op e(1) by metis
  define b where "b = ie_bits e AND NOT MACH_PORT_TYPE_SEND_ONCE"
  have b: "IE_BITS_TYPE b = 0" "b AND NOT IE_BITS_RIGHT_MASK = ie_bits e AND NOT IE_BITS_RIGHT_MASK"
    using cleared_bits(4,5) [of "ie_bits e" MACH_PORT_TYPE_SEND_ONCE 0] e(3) by (simp_all add: b_def type_of_def)
  let ?v = "\<lambda>e. e\<lparr>ie_object := NULL, ie_bits := b\<rparr>"
  have o: "opened s0 name entry (set_entry entry ?v s1)" "st_entry (set_entry entry ?v s1) entry = ?v (st_entry s1 entry)"
    using opened_set [OF s1(2), of ?v] s1(5) b(2) by (simp_all add: same_slot_def)
  have set: "settled s0 name entry (set_entry entry ?v s1)" using o b(1) by (simp add: settled_def type_of_def)
  have "copied s0 name entry MACH_PORT_TYPE_SEND_ONCE (Some (Inr (port, dn), set_entry entry ?v s1))"
    by (rule copied_steady [OF inv ready e(1,2) _ set _ _ refl, where a = 0 and b = 0 and c = 0])
      (use e(3) o(2) b(1) s1(3,4) h in \<open>simp_all add: type_of_def\<close>)
  then show ?thesis using that [OF s1(1)] unfolding b_def by blast
qed

lemma copyin_move_once:
  assumes inv: "rights_inv s0" and ready: "ready s0 name entry s" and h: "st_heap s = st_heap s0"
  shows "copied s0 name entry MACH_PORT_TYPE_SEND_ONCE (ipc_right_copyin s name entry MACH_MSG_TYPE_MOVE_SEND_ONCE True)"
proof -
  define e where "e = st_entry s entry"
  define p where "p = ie_object e"
  have c: "ipc_right_copyin s name entry MACH_MSG_TYPE_MOVE_SEND_ONCE True = copyin_move_send_once s name entry True"
    by (simp add: ipc_right_copyin_def msg_types)
  note defs = copyin_move_send_once_def Let_def entry_tests e_def [symmetric] p_def [symmetric]
  note fail = copied_fail [OF inv ready h, of MACH_PORT_TYPE_SEND_ONCE]
  have ty: "type_of e \<in> right_types" unfolding e_def by (rule ready_type(1) [OF inv ready])
  consider (none) "type_of e AND MACH_PORT_TYPE_DEAD_NAME = 0" "type_of e AND MACH_PORT_TYPE_SEND_RIGHTS = 0"
    | (dead) "type_of e = MACH_PORT_TYPE_DEAD_NAME"
    | (sends) "type_of e AND MACH_PORT_TYPE_DEAD_NAME = 0" "type_of e AND MACH_PORT_TYPE_SEND_RIGHTS \<noteq> 0"
    by (cases rule: right_type_cases [OF ty]) auto
  then show ?thesis
  proof cases
    case none
    then show ?thesis using fail unfolding c defs by simp
  next
    case dead
    have ok: "right_ok s0 name (cap e)" unfolding e_def by (rule ready_right [OF inv ready])
    have o: "opened s0 name entry s" by (rule present_open [OF ready_present [OF ready]]) (use dead e_def in simp)
    obtain s' where "move_dead True entry s = (Inr (IP_DEAD, IP_NULL), s')" "opened s0 name entry s'" "st_heap s' = st_heap s"
      "type_of (st_entry s' entry) = 0 \<or> type_of (st_entry s' entry) = MACH_PORT_TYPE_DEAD_NAME \<and>
        ie_object (st_entry s' entry) = NULL \<and> ie_request (st_entry s' entry) = 0 \<and> 0 < urefs_of (ie_bits (st_entry s' entry))"
      using move_dead_spec [OF o] ok dead unfolding right_ok_cap e_def by auto
    then show ?thesis
      using copied_dead [OF inv ready e_def refl, of s' MACH_PORT_TYPE_SEND_ONCE IP_NULL] dead h unfolding c defs by simp
  next
    case sends
    show ?thesis
    proof (cases "ip_active (st_port s0 p)")
      case False
      then show ?thesis
        using checked [OF inv ready h, of MACH_PORT_TYPE_SEND_ONCE] sends unfolding c defs by auto
    next
      case True
      then have no: "ipc_right_check p name entry s = Some (False, s)"
        using h by (simp add: ipc_right_check_def st_port_def)
      show ?thesis
      proof (cases rule: right_type_cases [OF ty])
        case 4
        then obtain dn s1 where "ipc_right_dncancel_macro p name entry s = (dn, s1)"
          "copied s0 name entry MACH_PORT_TYPE_SEND_ONCE (Some (Inr (p, dn),
            set_entry entry (\<lambda>e'. e'\<lparr>ie_object := NULL, ie_bits := ie_bits e AND NOT MACH_PORT_TYPE_SEND_ONCE\<rparr>) s1))"
          using move_once [OF inv ready h e_def p_def [symmetric]] by metis
        then show ?thesis using no 4 unfolding c defs by simp
      qed (use sends no fail in \<open>simp_all add: c defs\<close>)
    qed
  qed
qed

text \<open>Moving the receive right: the port has no receiver until the message arrives.\<close>

lemma tidy_moved:
  assumes inv: "rights_inv s0" and rcv: "received s0 port" "ip_receiver_name (st_port s0 port) = name"
    and h: "\<And>p. ip_active (ports h p) = ip_active (st_port s0 p)"
      "\<And>p. p \<noteq> port \<Longrightarrow> ip_data (ports h p) = ip_data (st_port s0 p) \<and> ip_receiver_name (ports h p) = ip_receiver_name (st_port s0 p)"
      "ip_data (ports h port) \<noteq> self s0"
    and c: "\<And>x. c = Some x \<Longrightarrow> right_ok (s0\<lparr>st_heap := h\<rparr>) name x"
  shows "tidy s0 name c h"
proof -
  let ?s = "s0\<lparr>st_heap := h\<rparr>"
  have r: "received ?s p \<longleftrightarrow> p \<noteq> port \<and> received s0 p" for p
    using h by (cases "p = port") (auto simp: received_def)
  have "right_ok ?s n (b, ob, q)" if "n \<noteq> name" "caps s0 n = Some (b, ob, q)" for n b ob q
  proof -
    have ok: "right_ok s0 n (b, ob, q)" using rights_invD(3) [OF inv that(2)] .
    have "IE_BITS_TYPE b AND MACH_PORT_TYPE_RECEIVE \<noteq> 0 \<Longrightarrow> ob \<noteq> port"
      using ok rcv(2) that(1) by (auto simp: right_ok_def Let_def)
    then show ?thesis using ok h(2) unfolding right_ok_def Let_def prod.case r by auto
  qed
  then have "\<forall>n x. ((caps s0)(name := c)) n = Some x \<longrightarrow> right_ok ?s n x" using c by auto
  moreover have "receive_cap p (((caps s0)(name := c)) (ip_receiver_name (ports h p)))" if "received ?s p" for p
  proof -
    have p: "p \<noteq> port" "received s0 p" "ip_receiver_name (ports h p) = ip_receiver_name (st_port s0 p)"
      using that h(2) r by auto
    have "receive_cap p (caps s0 (ip_receiver_name (st_port s0 p)))" by (rule rights_invD(4) [OF inv p(2)])
    moreover have "receive_cap port (caps s0 name)" using rights_invD(4) [OF inv rcv(1)] rcv(2) by simp
    ultimately have "ip_receiver_name (st_port s0 p) \<noteq> name"
      using p(1) by (auto simp: receive_cap_def split: option.splits)
    then show ?thesis using \<open>receive_cap p _\<close> p(3) by simp
  qed
  ultimately show ?thesis using h(1) by (simp add: tidy_def)
qed

lemma copied_moved:
  assumes inv: "rights_inv s0" and ready: "ready s0 name entry s" and e: "e = st_entry s entry" "ie_object e = port"
    and t: "type_of e AND MACH_PORT_TYPE_RECEIVE \<noteq> 0"
    and s': "settled s0 name entry s'" and e': "e' = st_entry s' entry"
    and h: "h = ipc_port_clear_receiver port h1" "steady (st_heap s0) h1" "booked port 0 0 b (st_heap s0) h1"
    and s'h: "st_heap s' = set_port port (\<lambda>p. p\<lparr>ip_receiver_name := MACH_PORT_NULL, ip_data := IP_NULL\<rparr>) h"
    and kind: "type_of e' = 0 \<and> type_of e = MACH_PORT_TYPE_RECEIVE \<and> b = 0 \<or>
      type_of e' = MACH_PORT_TYPE_SEND \<and> type_of e = MACH_PORT_TYPE_SEND_RECEIVE \<and> ie_object e' = port \<and>
      urefs_of (ie_bits e') = urefs_of (ie_bits e) \<and> b = 1"
  shows "copied s0 name entry MACH_PORT_TYPE_RECEIVE (Some (Inr (port, dn), s'))"
proof -
  let ?h = "st_heap s'"
  have cap: "caps s0 name = Some (cap e)" using ready_cap [OF ready] e(1) by simp
  have ok: "right_ok s0 name (cap e)" unfolding e(1) by (rule ready_right [OF inv ready])
  then have r: "received s0 port" "ip_receiver_name (st_port s0 port) = name" "IP_VALID port"
    using t e(2) kind by (auto simp: right_ok_cap)
  have st: "steady (st_heap s0) h" using h(2) clear_receiver_moves(1) [of h1 port] h(1) by (auto intro: steady_trans)
  have bk: "booked port 0 0 b (st_heap s0) h" using h(3) clear_receiver_moves(2) [of port h1 port] h(1) by (auto simp: booked_def)
  have act: "ip_active (ports ?h p) = ip_active (st_port s0 p)"
    "p \<noteq> port \<Longrightarrow> ip_data (ports ?h p) = ip_data (st_port s0 p) \<and> ip_receiver_name (ports ?h p) = ip_receiver_name (st_port s0 p)"
    "ip_data (ports ?h port) = NULL" for p
    using st by (auto simp: s'h steady_def st_port_def ip_active_def IP_NULL_def)
  have self: "self s0 \<noteq> NULL" by (rule rights_invD(2) [OF inv])
  have "tidy s0 name (left_cap e') ?h"
  proof (rule tidy_moved [OF inv r(1,2) act(1,2)])
    show "ip_data (ports ?h port) \<noteq> self s0" using act(3) self by simp
    fix x assume "left_cap e' = Some x"
    then have "x = cap e'" "type_of e' \<noteq> 0" by (auto simp: left_cap_def split: if_splits)
    then show "right_ok (s0\<lparr>st_heap := ?h\<rparr>) name x"
      using kind ok r(3) act(3) self by (auto simp: right_ok_cap right_types_def received_def)
  qed
  moreover have "accounted (\<lambda>t p. of_bool ((\<exists>dn'. Inr (port, dn) = (Inr (p, dn') :: kern_return_t + addr \<times> addr)) \<and> p \<noteq> IP_DEAD \<and>
      (t = MACH_PORT_TYPE_PORT_RIGHTS \<or> t = MACH_PORT_TYPE_RECEIVE))) s0 name (left_cap e') ?h"
  proof -
    have c: "left_cap e' = (if type_of e' = 0 then None else Some (cap e'))" by (simp add: left_cap_def)
    have x: "MACH_PORT_TYPE_PORT_RIGHTS \<noteq> MACH_PORT_TYPE_RECEIVE" "port \<noteq> IP_DEAD"
      using r(3) by (simp_all add: type_values IP_VALID_def)
    show ?thesis
      using bk kind x(2) unfolding accounted_def c cap
      by (auto simp: s'h booked_def st_port_def cap_tests e(2) x(1) [symmetric])
  qed
  ultimately show ?thesis using s' unfolding copied_def e' by blast
qed

lemma received_no_send:
  assumes "rights_inv s0" "received s0 port"
  shows "\<not> send_cap port (caps s0 n)"
  using rights_invD(3) [OF assms(1), of n] assms(2) by (auto simp: send_cap_def right_ok_def Let_def split: option.split)

lemma copyin_receive:
  assumes inv: "rights_inv s0" and ready: "ready s0 name entry s" and h: "st_heap s = st_heap s0"
  shows "copied s0 name entry MACH_PORT_TYPE_RECEIVE (ipc_right_copyin s name entry MACH_MSG_TYPE_MOVE_RECEIVE True)"
proof -
  define e where "e = st_entry s entry"
  define p where "p = ie_object e"
  define b where "b = ie_bits e AND NOT MACH_PORT_TYPE_RECEIVE"
  have c: "ipc_right_copyin s name entry MACH_MSG_TYPE_MOVE_RECEIVE True = copyin_move_receive s name entry"
    by (simp add: ipc_right_copyin_def msg_types)
  note defs = copyin_move_receive_def Let_def entry_tests e_def [symmetric] p_def [symmetric] b_def [symmetric]
  have ty: "type_of e \<in> right_types" unfolding e_def by (rule ready_type(1) [OF inv ready])
  have ok: "right_ok s0 name (cap e)" unfolding e_def by (rule ready_right [OF inv ready])
  let ?v = "\<lambda>e. e\<lparr>ie_bits := b\<rparr>"
  consider (none) "type_of e AND MACH_PORT_TYPE_RECEIVE = 0" | (receive) "type_of e = MACH_PORT_TYPE_RECEIVE"
    | (both) "type_of e = MACH_PORT_TYPE_SEND_RECEIVE"
    by (cases rule: right_type_cases [OF ty]) auto
  then show ?thesis
  proof cases
    case none
    then show ?thesis using copied_fail [OF inv ready h] unfolding c defs by simp
  next
    case receive
    have op: "opened s0 name entry s" by (rule present_open [OF ready_present [OF ready]]) (use receive e_def in simp)
    obtain dn s1 where s1: "ipc_right_dncancel_macro p name entry s = (dn, s1)" "opened s0 name entry s1"
      "steady (st_heap s) (st_heap s1)" "\<And>q. booked q 0 0 0 (st_heap s) (st_heap s1)"
      "st_entry s1 entry = e\<lparr>ie_request := 0\<rparr>"
      using dncancel_macro [of s0 name entry s p] op e_def by metis
    have b: "IE_BITS_TYPE b = 0" "b AND NOT IE_BITS_RIGHT_MASK = ie_bits e AND NOT IE_BITS_RIGHT_MASK"
      using cleared_bits(4,5) [of "ie_bits e" MACH_PORT_TYPE_RECEIVE 0] receive by (simp_all add: b_def type_of_def)
    let ?u = "\<lambda>e. e\<lparr>ie_object := NULL\<rparr>"
    have o1: "opened s0 name entry (set_entry entry ?u s1)" "st_entry (set_entry entry ?u s1) entry = ?u (st_entry s1 entry)"
      using opened_set [OF s1(2), of ?u] by (simp_all add: same_slot_def)
    let ?s = "set_entry entry ?v (set_entry entry ?u s1)"
    have o2: "opened s0 name entry ?s" "type_of (st_entry ?s entry) = 0"
      using opened_set [OF o1(1), of ?v] o1(2) b s1(5) by (simp_all add: same_slot_def)
    let ?t = "on_port p (\<lambda>p. p\<lparr>ip_receiver_name := MACH_PORT_NULL, ip_data := IP_NULL\<rparr>) (on_heap (ipc_port_clear_receiver p) ?s)"
    have "settled s0 name entry ?t" using o2 by (simp add: settled_def)
    from copied_moved [OF inv ready e_def p_def [symmetric] _ this refl refl, of "st_heap s1" 0 dn]
    have "copied s0 name entry MACH_PORT_TYPE_RECEIVE (Some (Inr (p, dn), ?t))"
      using o2(2) receive s1(3,4) h by simp
    then show ?thesis using receive s1(1) unfolding c defs by simp
  next
    case both
    have op: "opened s0 name entry s" by (rule present_open [OF ready_present [OF ready]]) (use both e_def in simp)
    have "received s0 p" using ok both by (simp add: right_ok_cap p_def)
    then have no: "\<not> send_cap p (caps s0 n)" for n by (rule received_no_send [OF inv])
    obtain s1 where s1: "hash_insert p name entry s = Some s1" "st_heap s1 = st_heap s"
      "ie_bits (st_entry s1 entry) = ie_bits e" "ie_object (st_entry s1 entry) = p"
      "\<And>v. st_entry (set_entry entry v s1) entry = v (st_entry s1 entry)"
      "\<And>v. same_slot (st_entry s1 entry) (v (st_entry s1 entry)) \<Longrightarrow> type_of (v (st_entry s1 entry)) = MACH_PORT_TYPE_SEND \<Longrightarrow>
         ie_object (v (st_entry s1 entry)) = p \<Longrightarrow> closed s0 name (Some (cap (v (st_entry s1 entry)))) (set_entry entry v s1)"
      using opened_hash [OF op _ no, folded e_def, OF p_def [symmetric]] by metis
    have b: "IE_BITS_TYPE b = MACH_PORT_TYPE_SEND" "b AND NOT IE_BITS_RIGHT_MASK = ie_bits e AND NOT IE_BITS_RIGHT_MASK"
      "urefs_of b = urefs_of (ie_bits e)"
      using cleared_bits(4,5) [of "ie_bits e" MACH_PORT_TYPE_RECEIVE MACH_PORT_TYPE_SEND]
        set_type(8) [OF type_masked(2), of "ie_bits e"] both by (simp_all add: b_def type_of_def)
    let ?s1 = "on_heap (ip_reference p) s1"
    let ?s = "set_entry entry ?v s1"
    let ?h = "ip_reference p (st_heap s0)"
    let ?t = "on_port p (\<lambda>p. p\<lparr>ip_receiver_name := MACH_PORT_NULL, ip_data := IP_NULL\<rparr>)
      (on_heap (ipc_port_clear_receiver p) (on_heap (ip_reference p) ?s))"
    have comm: "set_entry entry ?v (on_heap (ip_reference p) s1) = on_heap (ip_reference p) ?s"
      by (simp add: set_entry_def on_heap_def st_entry_def)
    have c1: "closed s0 name (Some (cap (?v (st_entry s1 entry)))) ?s"
      by (rule s1(6)) (use b s1(3,4) in \<open>simp_all add: same_slot_def\<close>)
    have at: "st_entry ?t entry = ?v (st_entry s1 entry)" using s1(5) [of ?v] by simp
    have "settled s0 name entry ?t" using c1 at b(1) by (simp add: settled_def)
    from copied_moved [OF inv ready e_def p_def [symmetric] _ this refl refl, of ?h 1 IP_NULL]
    have "copied s0 name entry MACH_PORT_TYPE_RECEIVE (Some (Inr (p, IP_NULL), ?t))"
      using both at b s1(2,4) h by simp
    then show ?thesis using both s1(1) comm unfolding c defs by simp
  qed
qed

lemma tidy_ports:
  assumes "ports h' = ports h"
  shows "tidy s0 name c h' = tidy s0 name c h"
proof -
  have r: "right_ok (s0\<lparr>st_heap := h'\<rparr>) n x = right_ok (s0\<lparr>st_heap := h\<rparr>) n x"
    "received (s0\<lparr>st_heap := h'\<rparr>) p = received (s0\<lparr>st_heap := h\<rparr>) p" for n x p
    using steady_right_ok(1,2) [of "s0\<lparr>st_heap := h\<rparr>" "s0\<lparr>st_heap := h'\<rparr>"] assms by (simp_all add: steady_def)
  show ?thesis unfolding tidy_def r assms ..
qed

text \<open>All dispositions.\<close>

definition disposition_type :: "mach_msg_type_name_t \<Rightarrow> mach_port_type_t option" where
  "disposition_type msgt_name =
     (if msgt_name = MACH_MSG_TYPE_MOVE_RECEIVE then Some MACH_PORT_TYPE_RECEIVE
      else if msgt_name = MACH_MSG_TYPE_MOVE_SEND \<or> msgt_name = MACH_MSG_TYPE_COPY_SEND \<or> msgt_name = MACH_MSG_TYPE_MAKE_SEND
      then Some MACH_PORT_TYPE_SEND
      else if msgt_name = MACH_MSG_TYPE_MOVE_SEND_ONCE \<or> msgt_name = MACH_MSG_TYPE_MAKE_SEND_ONCE
      then Some MACH_PORT_TYPE_SEND_ONCE else None)"

lemma right_copyin_spec:
  assumes "rights_inv s0" "ready s0 name entry s" "st_heap s = st_heap s0" "disposition_type m = Some t"
  shows "copied s0 name entry t (ipc_right_copyin s name entry m True)"
  using assms(4) copyin_receive [OF assms(1-3)] copyin_move [OF assms(1-3)] copyin_copy [OF assms(1-3)]
    copyin_make [OF assms(1-3)] copyin_move_once [OF assms(1-3)]
  by (auto simp: disposition_type_def split: if_splits)

lemma lookup_write_spec:
  assumes inv: "rights_inv s0" and l: "ipc_right_lookup_write s0 name = (res, s)"
  shows "st_heap s = st_heap s0 \<and>
    (case res of
       Inl kr \<Rightarrow> closed s0 name (caps s0 name) s \<and>
         (if is_active (st_space s0) then kr = KERN_INVALID_NAME \<and> caps s0 name = None else kr = KERN_INVALID_TASK)
     | Inr entry \<Rightarrow> is_active (st_space s0) \<and> ready s0 name entry s)"
proof -
  have "closed s0 name (caps s0 name) s0"
    using rights_invD(1) [OF inv] by (simp add: closed_def same_space_def)
  then show ?thesis
    using l lookup_ready [OF rights_invD(1) [OF inv], of name]
    by (fastforce simp: ipc_right_lookup_write_def split: if_splits prod.splits option.splits)
qed

lemma inv_same:
  assumes "rights_inv s0" "closed s0 name (caps s0 name) s" "st_heap s = st_heap s0"
  shows "rights_inv s" "refs_out s p = refs_out s0 p" "sends_out s p = sends_out s0 p" "onces_out s p = onces_out s0 p"
proof -
  show "rights_inv s" using tidy_inv [OF assms(1,2)] tidy_same [OF assms(1)] assms(3) by simp
  have "caps s = caps s0" using closed_self [OF assms(2)] by simp
  then show "refs_out s p = refs_out s0 p" "sends_out s p = sends_out s0 p" "onces_out s p = onces_out s0 p"
    using assms(3) by (simp_all add: refs_out_def sends_out_def onces_out_def held_def st_port_def)
qed

end
