(* ===== verification/Right_Alloc.thy ===== *)
theory Right_Alloc
  imports Right_Copyin
begin

section \<open>New ports and rights that leave\<close>

text \<open>
  \<open>ipc_port_alloc\<close> enters a new port with its receive right and nothing else; the states that apply the properties of rights;
  and with the cases of \<open>Right_Copyin\<close>, what \<open>ipc_object_copyin\<close> moves out.
\<close>

text \<open>A step on the right of a name that leaves every port where it is, with the bill for \<open>port\<close>.\<close>

definition put :: "ipc_state \<Rightarrow> mach_port_t \<Rightarrow> capability option \<Rightarrow> (mach_port_type_t \<Rightarrow> addr \<Rightarrow> natural_t) \<Rightarrow> ipc_state \<Rightarrow> bool" where
  "put s0 name c d s \<longleftrightarrow> closed s0 name c s \<and> tidy s0 name c (st_heap s) \<and> accounted d s0 name c (st_heap s)"

definition bill :: "addr \<Rightarrow> mach_port_type_t \<Rightarrow> natural_t \<Rightarrow> mach_port_type_t \<Rightarrow> addr \<Rightarrow> natural_t" where
  "bill port t x u p = (if p = port \<and> (u = MACH_PORT_TYPE_PORT_RIGHTS \<or> u = t) then x else 0)"

lemma put_result:
  assumes "rights_inv s0" "put s0 name c d s"
  shows "rights_inv s" "caps s = (caps s0)(name := c)" "ip_active (st_port s p) = ip_active (st_port s0 p)"
    "refs_out s p = refs_out s0 p + d MACH_PORT_TYPE_PORT_RIGHTS p"
    "ip_active (st_port s0 p) \<Longrightarrow> sends_out s p = sends_out s0 p + d MACH_PORT_TYPE_SEND p"
    "ip_active (st_port s0 p) \<Longrightarrow> onces_out s p = onces_out s0 p + d MACH_PORT_TYPE_SEND_ONCE p"
    "is_active (st_space s) = is_active (st_space s0)" "self s = self s0"
proof -
  have c: "closed s0 name c s" "tidy s0 name c (st_heap s)" "accounted d s0 name c (st_heap s)"
    using assms(2) by (simp_all add: put_def)
  show "rights_inv s" by (rule tidy_inv [OF assms(1) c(1,2)])
  show "caps s = (caps s0)(name := c)" "self s = self s0" using closed_self [OF c(1)] by simp_all
  show "ip_active (st_port s p) = ip_active (st_port s0 p)" using c(2) by (simp add: tidy_def st_port_def)
  show "refs_out s p = refs_out s0 p + d MACH_PORT_TYPE_PORT_RIGHTS p"
    "ip_active (st_port s0 p) \<Longrightarrow> sends_out s p = sends_out s0 p + d MACH_PORT_TYPE_SEND p"
    "ip_active (st_port s0 p) \<Longrightarrow> onces_out s p = onces_out s0 p + d MACH_PORT_TYPE_SEND_ONCE p"
    using balance [OF c(1,3)] by blast+
  show "is_active (st_space s) = is_active (st_space s0)" using c(1) by (simp add: closed_def same_space_def)
qed

lemma bill_at:
  "p \<noteq> port \<Longrightarrow> bill port t x u p = 0" "bill port t x MACH_PORT_TYPE_PORT_RIGHTS port = x"
  "bill port t x MACH_PORT_TYPE_SEND port = (if t = MACH_PORT_TYPE_SEND then x else 0)"
  "bill port t x MACH_PORT_TYPE_SEND_ONCE port = (if t = MACH_PORT_TYPE_SEND_ONCE then x else 0)"
  by (auto simp: bill_def)

definition cap_of :: "addr \<Rightarrow> capability option \<Rightarrow> bool" where
  "cap_of port c \<longleftrightarrow> (case c of None \<Rightarrow> True | Some (b, ob, r) \<Rightarrow> ob = port \<or> b AND MACH_PORT_TYPE_PORT_RIGHTS = 0)"

lemma cap_of_holds:
  assumes "cap_of port c" "t \<in> {MACH_PORT_TYPE_PORT_RIGHTS, MACH_PORT_TYPE_SEND, MACH_PORT_TYPE_SEND_ONCE, MACH_PORT_TYPE_RECEIVE}" "p \<noteq> port"
  shows "\<not> holds t p c"
proof (cases c)
  case (Some x)
  obtain b ob r where x: "x = (b, ob, r)" by (cases x)
  have "b AND t = 0" if "b AND MACH_PORT_TYPE_PORT_RIGHTS = 0"
  proof -
    have "t = MACH_PORT_TYPE_PORT_RIGHTS AND t" using assms(2) by (auto simp: type_values)
    then have "b AND t = (b AND MACH_PORT_TYPE_PORT_RIGHTS) AND t" by (simp only: and.assoc)
    then show ?thesis using that by simp
  qed
  then show ?thesis using assms(1,3) Some x by (auto simp: cap_of_def holds_def)
qed simp

lemma cap_of_cap: "cap_of port (Some (cap e)) \<longleftrightarrow> ie_object e = port \<or> type_of e AND MACH_PORT_TYPE_PORT_RIGHTS = 0"
  using type_tests(7) [of "ie_bits e AND IE_BITS_RIGHT_MASK"] by (simp add: cap_of_def cap_def type_of_def)

lemma put_steady:
  assumes inv: "rights_inv s0" and c: "closed s0 name c s" and st: "steady (st_heap s0) (st_heap s)"
    and bk: "booked port a b k (st_heap s0) (st_heap s)"
    and of: "cap_of port c" "cap_of port (caps s0 name)"
    and ok: "\<And>x. c = Some x \<Longrightarrow> right_ok s0 name x"
    and rcv: "\<And>p. receive_cap p (caps s0 name) \<Longrightarrow> receive_cap p c"
    and bal: "k - of_bool (holds MACH_PORT_TYPE_PORT_RIGHTS port c) + of_bool (holds MACH_PORT_TYPE_PORT_RIGHTS port (caps s0 name)) = x"
      "a - of_bool (holds MACH_PORT_TYPE_SEND port c) + of_bool (holds MACH_PORT_TYPE_SEND port (caps s0 name)) = (if t = MACH_PORT_TYPE_SEND then x else 0)"
      "b - of_bool (holds MACH_PORT_TYPE_SEND_ONCE port c) + of_bool (holds MACH_PORT_TYPE_SEND_ONCE port (caps s0 name)) =
        (if t = MACH_PORT_TYPE_SEND_ONCE then x else 0)"
  shows "put s0 name c (bill port t x) s"
proof -
  have eq: "y + u - v = y - w + d" if "u - v + w = d" for y u v d w :: natural_t
    using that by (simp add: algebra_simps)
  note no = cap_of_holds [OF of(1)] cap_of_holds [OF of(2)]
  have "accounted (bill port t x) s0 name c (st_heap s)"
    unfolding accounted_def
  proof (intro allI conjI impI)
    fix p
    have b: "ip_srights (ports (st_heap s) p) = ip_srights (st_port s0 p) + (if p = port then a else 0)"
      "ip_sorights (ports (st_heap s) p) = ip_sorights (st_port s0 p) + (if p = port then b else 0)"
      "ip_references (ports (st_heap s) p) = ip_references (st_port s0 p) + (if p = port then k else 0)"
      using bk by (simp_all add: booked_def st_port_def)
    show "ip_references (ports (st_heap s) p) - of_bool (holds MACH_PORT_TYPE_PORT_RIGHTS p c) =
        ip_references (st_port s0 p) - of_bool (holds MACH_PORT_TYPE_PORT_RIGHTS p (caps s0 name)) + bill port t x MACH_PORT_TYPE_PORT_RIGHTS p"
    proof (cases "p = port")
      case True
      then show ?thesis unfolding b by (simp only: refl simp_thms if_True bill_at eq [OF bal(1)])
    next
      case False
      then show ?thesis using no unfolding b by (simp add: bill_at)
    qed
    show "ip_srights (ports (st_heap s) p) - of_bool (holds MACH_PORT_TYPE_SEND p c) =
        ip_srights (st_port s0 p) - of_bool (holds MACH_PORT_TYPE_SEND p (caps s0 name)) + bill port t x MACH_PORT_TYPE_SEND p"
    proof (cases "p = port")
      case True
      then show ?thesis unfolding b by (simp only: refl simp_thms if_True bill_at eq [OF bal(2)])
    next
      case False
      then show ?thesis using no unfolding b by (simp add: bill_at)
    qed
    show "ip_sorights (ports (st_heap s) p) - of_bool (holds MACH_PORT_TYPE_SEND_ONCE p c) =
        ip_sorights (st_port s0 p) - of_bool (holds MACH_PORT_TYPE_SEND_ONCE p (caps s0 name)) + bill port t x MACH_PORT_TYPE_SEND_ONCE p"
    proof (cases "p = port")
      case True
      then show ?thesis unfolding b by (simp only: refl simp_thms if_True bill_at eq [OF bal(3)])
    next
      case False
      then show ?thesis using no unfolding b by (simp add: bill_at)
    qed
  qed
  then show ?thesis using c tidy_steady [OF inv st ok rcv] by (simp add: put_def)
qed

subsection \<open>New entries\<close>

lemma get_alloc:
  assumes good: "\<exists>ns. space_good ns (st_space s, st_hash s)" and get: "ipc_entry_get (st_space s) \<noteq> None"
    and fuel: "0 < env_fuel env" and act: "is_active (st_space s)"
  obtains name entry s1 where "entry_alloc env s = Some (Inr (name, entry), s1)"
    "ipc_entry_get (st_space s) = Some (name, entry, st_space s1)" "s1 = s\<lparr>st_space := st_space s1\<rparr>"
    "opened s name entry s1" "caps s name = None" "st_heap s1 = st_heap s" "ie_request (st_entry s1 entry) = 0"
    "ie_bits (st_entry s1 entry) AND IE_BITS_RIGHT_MASK = 0"
proof -
  obtain name entry space where g: "ipc_entry_get (st_space s) = Some (name, entry, space)" using get by auto
  obtain k where k: "env_fuel env = Suc k" using fuel by (cases "env_fuel env") auto
  have "entry_alloc env s = Some (Inr (name, entry), s\<lparr>st_space := space\<rparr>)"
    using g k act by (simp add: entry_alloc_def on_entries_def)
  then show ?thesis using that [of name entry "s\<lparr>st_space := space\<rparr>"] g get_opened [OF good g] by (simp add: st_entry_def)
qed

lemma new_bits:
  assumes "b AND IE_BITS_RIGHT_MASK = 0"
  shows "IE_BITS_TYPE b = 0" "urefs_of b = 0"
proof -
  have "IE_BITS_TYPE (b AND IE_BITS_RIGHT_MASK) = 0" "IE_BITS_UREFS (b AND IE_BITS_RIGHT_MASK) = 0"
    unfolding assms by (simp_all add: IE_BITS_TYPE_def IE_BITS_UREFS_def)
  then show "IE_BITS_TYPE b = 0" "urefs_of b = 0" by (simp_all add: urefs_of_def)
qed

subsection \<open>A new port\<close>

lemma rights_inv_new:
  assumes inv: "rights_inv s0" and c: "closed s0 name (Some x) s" and free: "caps s0 name = None"
    and other: "\<And>p. p \<noteq> port \<Longrightarrow> ports (st_heap s) p = ports (st_heap s0) p"
    and fresh: "\<not> received s0 port" "\<And>n b r. caps s0 n \<noteq> Some (b, port, r)"
    and new: "right_ok s name x" "received s port" "ip_receiver_name (st_port s port) = name" "receive_cap port (Some x)"
  shows "rights_inv s"
proof -
  have s: "self s = self s0" "caps s = (caps s0)(name := Some x)" using closed_self [OF c] by simp_all
  have p: "st_port s p = st_port s0 p" if "p \<noteq> port" for p using other [OF that] by (simp add: st_port_def)
  have r: "received s p = received s0 p" if "p \<noteq> port" for p using p [OF that] s(1) by (simp add: received_def)
  have "right_ok s n (b, ob, q)" if "caps s n = Some (b, ob, q)" for n b ob q
  proof (cases "n = name")
    case True
    then show ?thesis using that s(2) new(1) by auto
  next
    case False
    then have "caps s0 n = Some (b, ob, q)" using that s(2) by simp
    then have "right_ok s0 n (b, ob, q)" "ob \<noteq> port" using rights_invD(3) [OF inv] fresh(2) by blast+
    then show ?thesis by (simp add: right_ok_def p r)
  qed
  moreover have "receive_cap p (caps s (ip_receiver_name (st_port s p)))" if "received s p" for p
  proof (cases "p = port")
    case True
    then show ?thesis using new(3,4) s(2) by simp
  next
    case False
    then have "receive_cap p (caps s0 (ip_receiver_name (st_port s p)))"
      using that rights_invD(4) [OF inv, of p] p r by simp
    moreover from this have "ip_receiver_name (st_port s p) \<noteq> name" using free by (auto simp: receive_cap_def)
    ultimately show ?thesis using s(2) by simp
  qed
  moreover have "\<exists>ns. space_good ns (st_space s, st_hash s)" using c by (simp add: closed_def)
  moreover have "self s \<noteq> NULL" using rights_invD(2) [OF inv] s(1) by simp
  ultimately show ?thesis unfolding rights_inv_def by (intro conjI allI impI) auto
qed

lemma enter_new:
  assumes o: "opened s0 name entry s" and new: "ie_bits (st_entry s entry) AND IE_BITS_RIGHT_MASK = 0" "ie_request (st_entry s entry) = 0"
    and t: "t AND IE_BITS_RIGHT_MASK = t" "IE_BITS_TYPE t = ty" "ty \<noteq> 0" "ty \<noteq> MACH_PORT_TYPE_SEND"
  shows "closed s0 name (Some (t, ob, 0)) (set_entry entry (\<lambda>e. e\<lparr>ie_bits := ie_bits e OR t, ie_object := ob\<rparr>) s)"
proof -
  let ?e = "st_entry s entry" and ?v = "\<lambda>e. e\<lparr>ie_bits := ie_bits e OR t, ie_object := ob\<rparr>"
  have m: "(ie_bits ?e OR t) AND IE_BITS_RIGHT_MASK = t"
    using new(1) t(1) by (simp add: bit.conj_disj_distrib2)
  have "t AND NOT IE_BITS_RIGHT_MASK = 0" using t(1) by (metis and.assoc bit.conj_cancel_right and_zero_eq)
  then have "same_slot ?e (?v ?e)" by (simp add: same_slot_def bit.conj_disj_distrib2)
  from opened_set [OF o, of ?v, OF this] have s: "opened s0 name entry (set_entry entry ?v s)" "st_entry (set_entry entry ?v s) entry = ?v ?e"
    by simp_all
  have "IE_BITS_TYPE (ie_bits ?e OR t) = ty" using t(2) type_bits(1) [of "ie_bits ?e OR t"] m by simp
  then show ?thesis
    using opened_close [OF s(1)] s(2) t(3,4) m new(2) by (simp add: type_of_def cap_def)
qed

lemma new_receive [simp]: "MACH_PORT_TYPE_RECEIVE AND IE_BITS_RIGHT_MASK = MACH_PORT_TYPE_RECEIVE"
  "IE_BITS_TYPE MACH_PORT_TYPE_RECEIVE = MACH_PORT_TYPE_RECEIVE" "urefs_of MACH_PORT_TYPE_RECEIVE = 0"
  by (simp_all add: type_values IE_BITS_RIGHT_MASK_def IE_BITS_TYPE_def IE_BITS_TYPE_MASK_def urefs_of_def
      IE_BITS_UREFS_def IE_BITS_UREFS_MASK_def)

lemma port_alloc_spec:
  assumes inv: "rights_inv s" and act: "is_active (st_space s)" and get: "ipc_entry_get (st_space s) \<noteq> None"
    and fuel: "0 < env_fuel env" and port: "env_object env = port" "IP_VALID port"
    and fresh: "\<not> received s port" "\<And>n b r. caps s n \<noteq> Some (b, port, r)"
  shows "\<exists>name s'. ipc_port_alloc env s = Some (Inr (name, port), s') \<and> caps s name = None \<and>
    caps s' = (caps s)(name \<mapsto> (MACH_PORT_TYPE_RECEIVE, port, 0)) \<and> received s' port \<and>
    ip_receiver_name (st_port s' port) = name \<and> (\<forall>p. p \<noteq> port \<longrightarrow> st_port s' p = st_port s p) \<and>
    sends_out s' port = 0 \<and> onces_out s' port = 0 \<and> refs_out s' port = 0 \<and> rights_inv s'"
proof -
  let ?s = "on_heap (object_zero IOT_PORT port) s"
  have "\<exists>ns. space_good ns (st_space ?s, st_hash ?s)" using rights_invD(1) [OF inv] by simp
  moreover have "ipc_entry_get (st_space ?s) \<noteq> None" "is_active (st_space ?s)" using get act by simp_all
  ultimately obtain name entry s1 where a: "entry_alloc env ?s = Some (Inr (name, entry), s1)" "opened ?s name entry s1"
    "caps ?s name = None" "st_heap s1 = st_heap ?s" "ie_request (st_entry s1 entry) = 0"
    "ie_bits (st_entry s1 entry) AND IE_BITS_RIGHT_MASK = 0"
    using get_alloc [OF _ _ fuel] by metis
  have o: "opened s name entry s1" using a(2) by (simp add: opened_def caps_def)
  let ?v = "\<lambda>e. e\<lparr>ie_bits := ie_bits e OR MACH_PORT_TYPE_RECEIVE, ie_object := port\<rparr>"
  let ?t = "set_entry entry ?v s1"
  define h where "h = ipc_port_init port (self s) name (object_start IOT_PORT port (st_heap s1))"
  have c: "closed s name (Some (MACH_PORT_TYPE_RECEIVE, port, 0)) ?t"
    by (rule enter_new [OF o a(6,5), where ty = MACH_PORT_TYPE_RECEIVE]) simp_all
  then have c': "closed s name (Some (MACH_PORT_TYPE_RECEIVE, port, 0)) (?t\<lparr>st_heap := h\<rparr>)" by simp
  have self: "is_self (st_space ?t) = self s" using closed_self [OF c] by (simp add: self_def)
  have run: "ipc_port_alloc env s = Some (Inr (name, port), ?t\<lparr>st_heap := h\<rparr>)"
    using a(1) port self
    by (simp add: ipc_port_alloc_def ipc_object_alloc_def enter_object_def IP_VALID_def h_def on_heap_def)
  have act': "ip_active (ports h port)"
    by (simp add: h_def ipc_port_init_def object_start_def ip_active_def io_makebits_def io_active_def IO_BITS_ACTIVE_def IP_BIT_NMS_def IOT_PORT_def)
  have p: "ip_data (ports h port) = self s" "ip_receiver_name (ports h port) = name" "ip_srights (ports h port) = 0"
    "ip_sorights (ports h port) = 0" "ip_references (ports h port) = 1"
    by (simp_all add: h_def ipc_port_init_def object_start_def)
  have other: "ports h q = ports (st_heap s) q" if "q \<noteq> port" for q
    using that a(4) by (simp add: h_def ipc_port_init_def object_start_def object_zero_def)
  let ?r = "?t\<lparr>st_heap := h\<rparr>"
  have sr: "self ?r = self s" "caps ?r = (caps s)(name \<mapsto> (MACH_PORT_TYPE_RECEIVE, port, 0))" using closed_self [OF c'] by simp_all
  have rec: "received ?r port" using act' p(1) sr(1) by (simp add: received_def)
  have free: "caps s name = None" using a(3) by (simp add: caps_def)
  have ok: "right_ok ?r name (MACH_PORT_TYPE_RECEIVE, port, 0)"
    using port(2) p(2) rec by (simp add: right_ok_def right_types_def Let_def)
  have inv': "rights_inv ?r"
    by (rule rights_inv_new [OF inv c' free _ fresh ok rec]) (use other p(2) in \<open>simp_all add: receive_cap_def\<close>)
  have held: "held t ?r port = (if MACH_PORT_TYPE_RECEIVE AND t = 0 then 0 else 1)" for t
  proof -
    have "holds t port (caps ?r n) \<longleftrightarrow> n = name \<and> MACH_PORT_TYPE_RECEIVE AND t \<noteq> 0" for n
      using fresh(2) [of n] sr(2) by (auto simp: holds_def split: option.split)
    then have "{n. holds t port (caps ?r n)} = (if MACH_PORT_TYPE_RECEIVE AND t = 0 then {} else {name})" by auto
    then show ?thesis by (simp add: held_def)
  qed
  have "sends_out ?r port = 0" "onces_out ?r port = 0" "refs_out ?r port = 0"
    using p(3-5) by (simp_all add: sends_out_def onces_out_def refs_out_def held)
  then show ?thesis using run free sr(2) rec p(2) inv' other by (intro exI [of _ name] exI [of _ ?r]) (simp add: st_port_def)
qed

subsection \<open>The states of the witnesses\<close>

text \<open>A new space in a kernel whose ports are alive and unknown to it, and the same space after it allocated a port.\<close>

definition state0 :: ipc_state where
  "state0 = \<lparr>st_space = space4, st_hash = ipc_hash_init 2 0, st_heap = heap0\<rparr>"

definition env0 :: ipc_env where
  "env0 = \<lparr>env_entry = \<lparr>env_its = [4, 8, 8], env_table_mem = \<lambda>_. True, env_tree_mem = True, env_others = id\<rparr>,
     env_port = \<lparr>env_dnits = [3, 6, 0], env_dnmem = \<lambda>_. None, env_peers = id\<rparr>, env_try = True, env_fuel = 2,
     env_object = 64, env_running = id, env_vm = \<lambda>_. True, env_page = 4096\<rparr>"

definition state1 :: ipc_state where
  "state1 = snd (the (ipc_port_alloc env0 state0))"

lemma state0_inv: "rights_inv state0" "caps state0 = Map.empty" "\<not> received state0 p"
proof -
  have f: "names_inv space4" "free_list (is_table space4) [1 ..< [4, 8, 8] ! 0]" "space_names space4 = Map.empty"
    "IE_BITS_TYPE (ie_bits (is_table space4 ! 0)) = 0"
    using space4_facts by simp_all
  have h: "hash_ok {} (space4, ipc_hash_init 2 0)"
    using space_create_spec(6) [OF space4_create _ _ global_init(1)] by (simp add: global_init(2))
  have t: "is_tree_hash space4 = 0" "\<not> is_fast space4" "is_self space4 = 0x1000" "is_tree space4 = ipc_splay_tree_init no_tree"
    by (simp_all add: space4_def ipc_space_create_def)
  have e: "splay_map (is_tree space4) = Map.empty" by (simp add: t(4) splay_init_empty)
  have "space_good [1 ..< [4, 8, 8] ! 0] (space4, ipc_hash_init 2 0)"
    unfolding space_good_def prod.case using f h t(1,2) e by (simp add: tree_hash_ok_def global_init(2))
  then have g: "\<exists>ns. space_good ns (st_space state0, st_hash state0)" by (auto simp: state0_def)
  show c: "caps state0 = Map.empty" by (simp add: caps_def state0_def space_caps_def f(3) fun_eq_iff)
  show r: "\<not> received state0 p" for p
    by (simp add: received_def self_def st_port_def state0_def t(3) heap0_def zero_port_def)
  show "rights_inv state0" unfolding rights_inv_def using g c r by (simp add: self_def state0_def t(3))
qed

lemma state0_ready: "is_active (st_space state0)" "ipc_entry_get (st_space state0) \<noteq> None" "0 < env_fuel env0"
  "env_object env0 = 64" "IP_VALID 64"
proof -
  show "is_active (st_space state0)" by (simp add: state0_def space4_def ipc_space_create_def)
  show "0 < env_fuel env0" "env_object env0 = 64" "IP_VALID 64" by (simp_all add: env0_def IP_VALID_def IP_NULL_def IP_DEAD_def)
  have "ipc_entry_get space4 \<noteq> None" by code_simp
  then show "ipc_entry_get (st_space state0) \<noteq> None" by (simp add: state0_def)
qed

lemma state0_fresh: "\<not> received state0 p" "caps state0 n \<noteq> Some (b, p, r)"
  using state0_inv(2,3) by simp_all

lemma state1_alloc: "ipc_port_alloc env0 state0 = Some (Inr (0x103, 64), state1)"
proof -
  have "fst (the (ipc_port_alloc env0 state0)) = Inr (0x103, 64)" by code_simp
  moreover have "ipc_port_alloc env0 state0 \<noteq> None"
    using port_alloc_spec [OF state0_inv(1) state0_ready state0_fresh] by auto
  ultimately show ?thesis by (auto simp: state1_def)
qed

lemma state1_facts:
  "rights_inv state1" "caps state1 = [0x103 \<mapsto> (MACH_PORT_TYPE_RECEIVE, 64, 0)]" "received state1 64"
  "ip_receiver_name (st_port state1 64) = 0x103" "sends_out state1 64 = 0" "onces_out state1 64 = 0" "refs_out state1 64 = 0"
  using port_alloc_spec [OF state0_inv(1) state0_ready state0_fresh] by (auto simp: state1_alloc state0_inv(2))

subsection \<open>Properties\<close>

text \<open>
  C19: When the table has a free entry, \<open>ipc_port_alloc\<close> enters the new port under a name that was not in use,
  with a receive right and nothing else; the port has no other rights, its receiver is the space under that name;
  no other right and no other port changes, and the invariant of the space holds.
\<close>

theorem port_alloc_exact:
  assumes inv: "rights_inv s" and act: "is_active (st_space s)" and get: "ipc_entry_get (st_space s) \<noteq> None"
    and fuel: "0 < env_fuel env" and port: "env_object env = port" "IP_VALID port"
    and fresh: "\<not> received s port" "\<And>n b r. caps s n \<noteq> Some (b, port, r)"
  shows "\<exists>name s'. ipc_port_alloc env s = Some (Inr (name, port), s') \<and> caps s name = None \<and>
    caps s' = (caps s)(name \<mapsto> (MACH_PORT_TYPE_RECEIVE, port, 0)) \<and> received s' port \<and>
    ip_receiver_name (st_port s' port) = name \<and> (\<forall>p. p \<noteq> port \<longrightarrow> st_port s' p = st_port s p) \<and>
    sends_out s' port = 0 \<and> onces_out s' port = 0 \<and> refs_out s' port = 0 \<and> rights_inv s'"
  using port_alloc_spec [OF assms] .

theorem port_alloc_exact_witness:
  "\<exists>s'. ipc_port_alloc env0 state0 = Some (Inr (0x103, 64), s') \<and> caps s' = [0x103 \<mapsto> (MACH_PORT_TYPE_RECEIVE, 64, 0)] \<and>
    rights_inv s'"
  using port_alloc_exact [OF state0_inv(1) state0_ready state0_fresh] state1_alloc state0_inv(2) by auto

text \<open>
  C1: Moving a right out of a space never panics or loops and keeps the invariant of the space.  The rights and
  references outside the space grow by exactly the one that the caller gets: by a reference for the port, and, if
  the port lives, by a send right or a send-once right according to the disposition; nothing is gained or lost
  on any error, and a right for a dead port is given back.
\<close>

theorem object_copyin_conserves:
  assumes inv: "rights_inv s" and t: "disposition_type msgt_name = Some t"
  shows "\<exists>res s'. ipc_object_copyin env s name msgt_name = Some (res, s') \<and> rights_inv s' \<and>
    (\<forall>n. n \<noteq> name \<longrightarrow> caps s' n = caps s n) \<and>
    (\<forall>p. p \<noteq> IP_DEAD \<longrightarrow> ip_active (st_port s' p) = ip_active (st_port s p) \<and>
       refs_out s' p = refs_out s p + of_bool (res = Inr p) \<and>
       (ip_active (st_port s p) \<longrightarrow>
         sends_out s' p = sends_out s p + of_bool (res = Inr p \<and> t = MACH_PORT_TYPE_SEND) \<and>
         onces_out s' p = onces_out s p + of_bool (res = Inr p \<and> t = MACH_PORT_TYPE_SEND_ONCE)))"
proof -
  obtain r s1 where l: "ipc_right_lookup_write s name = (r, s1)" by fastforce
  note spec = lookup_write_spec [OF inv l]
  show ?thesis
  proof (cases r)
    case (Inl kr)
    then have c: "closed s name (caps s name) s1" "st_heap s1 = st_heap s" using spec by simp_all
    have "ipc_object_copyin env s name msgt_name = Some (Inl kr, s1)" using l Inl by (simp add: ipc_object_copyin_def)
    then show ?thesis using inv_same [OF inv c] closed_self [OF c(1)] c(2) by (auto simp: st_port_def)
  next
    case (Inr entry)
    then have ready: "ready s name entry s1" "st_heap s1 = st_heap s" using spec by simp_all
    obtain res s2 where c: "ipc_right_copyin s1 name entry msgt_name True = Some (res, s2)" "settled s name entry s2"
      "tidy s name (left_cap (st_entry s2 entry)) (st_heap s2)"
      "accounted (\<lambda>u p. of_bool ((\<exists>dn. res = Inr (p, dn)) \<and> p \<noteq> IP_DEAD \<and> (u = MACH_PORT_TYPE_PORT_RIGHTS \<or> u = t)))
         s name (left_cap (st_entry s2 entry)) (st_heap s2)"
      using right_copyin_spec [OF inv ready t] unfolding copied_def by blast
    obtain s3 where s3: "(if IE_BITS_TYPE (ie_bits (st_entry s2 entry)) = MACH_PORT_TYPE_NONE
        then entry_dealloc env name entry s2 else Some s2) = Some s3"
      "closed s name (left_cap (st_entry s2 entry)) s3" "st_heap s3 = st_heap s2"
      by (rule settled_end [OF c(2)])
    define s4 where "s4 = (case res of Inl kr \<Rightarrow> s3 | Inr (obj, soright) \<Rightarrow>
      if soright \<noteq> IP_NULL then on_heap (call (Notify_Port_Deleted soright name)) s3 else s3)"
    define res' where "res' = map_sum (\<lambda>kr. kr) fst res"
    have run: "ipc_object_copyin env s name msgt_name = Some (res', s4)"
      using l Inr c(1) s3(1) by (auto simp: ipc_object_copyin_def s4_def res'_def split: sum.split prod.split)
    have h4: "closed s name (left_cap (st_entry s2 entry)) s4" "ports (st_heap s4) = ports (st_heap s2)"
      using s3(2,3) by (auto simp: s4_def split: sum.split)
    have t4: "tidy s name (left_cap (st_entry s2 entry)) (st_heap s4)"
      using c(3) tidy_ports [OF h4(2)] by blast
    have a4: "accounted (\<lambda>u p. of_bool ((\<exists>dn. res = Inr (p, dn)) \<and> p \<noteq> IP_DEAD \<and> (u = MACH_PORT_TYPE_PORT_RIGHTS \<or> u = t)))
         s name (left_cap (st_entry s2 entry)) (st_heap s4)"
      using c(4) by (simp add: accounted_def h4(2))
    have res: "res' = Inr p \<longleftrightarrow> (\<exists>dn. res = Inr (p, dn))" for p by (cases res) (auto simp: res'_def)
    have "rights_inv s4" by (rule tidy_inv [OF inv h4(1) t4])
    moreover have "ip_active (st_port s4 p) = ip_active (st_port s p)" for p using t4 by (simp add: tidy_def st_port_def)
    moreover have "t = MACH_PORT_TYPE_SEND \<longleftrightarrow> MACH_PORT_TYPE_SEND = t" "t = MACH_PORT_TYPE_SEND_ONCE \<longleftrightarrow> MACH_PORT_TYPE_SEND_ONCE = t" by auto
    ultimately show ?thesis
      using run closed_self [OF h4(1)] balance [OF h4(1) a4] unfolding res [symmetric] by (intro exI [of _ res'] exI [of _ s4]) auto
  qed
qed


theorem object_copyin_conserves_witness:
  "\<exists>s'. ipc_object_copyin env0 state1 0x103 MACH_MSG_TYPE_MAKE_SEND = Some (Inr 64, s') \<and> rights_inv s' \<and>
    sends_out s' 64 = 1 \<and> refs_out s' 64 = 1 \<and> onces_out s' 64 = 0"
proof -
  have "disposition_type MACH_MSG_TYPE_MAKE_SEND = Some MACH_PORT_TYPE_SEND" by (simp add: disposition_type_def msg_types)
  from object_copyin_conserves [OF state1_facts(1) this, of env0 "0x103"]
  obtain res s' where s': "ipc_object_copyin env0 state1 0x103 MACH_MSG_TYPE_MAKE_SEND = Some (res, s')" "rights_inv s'"
    "\<forall>p. p \<noteq> IP_DEAD \<longrightarrow> ip_active (st_port s' p) = ip_active (st_port state1 p) \<and>
       refs_out s' p = refs_out state1 p + of_bool (res = Inr p) \<and>
       (ip_active (st_port state1 p) \<longrightarrow>
         sends_out s' p = sends_out state1 p + of_bool (res = Inr p) \<and>
         onces_out s' p = onces_out state1 p)"
    by auto
  have "fst (the (ipc_object_copyin env0 state1 0x103 MACH_MSG_TYPE_MAKE_SEND)) = Inr 64" by code_simp
  then have "res = Inr 64" using s'(1) by simp
  moreover have "ip_active (st_port state1 64)" using state1_facts(3) by (simp add: received_def)
  ultimately show ?thesis using s' state1_facts(5-7) state0_ready(5) by (auto simp: IP_VALID_def)
qed

end
