(* ===== verification/Right_Copyout.thy ===== *)
theory Right_Copyout
  imports Right_Alloc
begin

section \<open>Rights that arrive in a space\<close>

text \<open>
  \<open>ipc_right_reverse\<close>, \<open>ipc_right_copyout\<close> and \<open>ipc_object_copyout\<close> on a space that satisfies
  the invariant: a port has one name, and what arrives is entered under it.
\<close>

subsection \<open>The name of a port\<close>

lemma send_cap_place:
  assumes "space_good ns (space, g)" "send_cap ob (space_caps space n)"
  shows "(\<exists>i \<in> hashed (is_table space). ie_object (is_table space ! i) = ob \<and> unat (MACH_PORT_INDEX n) = i \<and>
      IE_BITS_GEN (ie_bits (is_table space ! i)) = MACH_PORT_GEN n) \<or>
    \<lparr>tr_space = is_self space, tr_name = n, tr_object = ob\<rparr> \<in> refs g"
proof (cases "table_entry (is_table space) n")
  case None
  then obtain e where "splay_map (is_tree space) n = Some e" "send_cap ob (Some (cap e))"
    using assms(2) by (cases "splay_map (is_tree space) n") (auto simp: space_caps_alt)
  then show ?thesis using good_hash(4) [OF assms(1)] by (auto simp: type_of_def)
next
  case (Some e)
  then have "send_cap ob (Some (cap e))" using assms(2) by (simp add: space_caps_alt)
  then show ?thesis
    using Some good_hash(3) [OF assms(1)]
    by (auto simp: table_entry_def type_of_def is_table_size_def Let_def split: if_splits)
qed

lemma send_cap_unique:
  assumes good: "space_good ns (space, g)" and n: "send_cap ob (space_caps space n)" and m: "send_cap ob (space_caps space m)"
  shows "n = m"
proof -
  note h = good_hash [OF good]
  let ?r = "\<lambda>n. \<lparr>tr_space = is_self space, tr_name = n, tr_object = ob\<rparr>"
  have inj: "inj_on (\<lambda>i. ie_object (is_table space ! i)) (hashed (is_table space))" using h(1) by (simp add: hash_inv_def)
  have apart: "?r k \<notin> refs g" if "i \<in> hashed (is_table space)" "ie_object (is_table space ! i) = ob" for i k
  proof
    assume "?r k \<in> refs g"
    then obtain e where "splay_map (is_tree space) k = Some e" "IE_BITS_TYPE (ie_bits e) = MACH_PORT_TYPE_SEND" "ie_object e = ob"
      using h(4) by blast
    then show False using h(5) [OF that(1)] that(2) by blast
  qed
  consider (table) i j where "i \<in> hashed (is_table space)" "j \<in> hashed (is_table space)" "ie_object (is_table space ! i) = ob"
      "ie_object (is_table space ! j) = ob" "unat (MACH_PORT_INDEX n) = i" "unat (MACH_PORT_INDEX m) = j"
      "IE_BITS_GEN (ie_bits (is_table space ! i)) = MACH_PORT_GEN n" "IE_BITS_GEN (ie_bits (is_table space ! j)) = MACH_PORT_GEN m"
    | (tree) "?r n \<in> refs g" "?r m \<in> refs g"
    using send_cap_place [OF good n] send_cap_place [OF good m] apart by blast
  then show ?thesis
  proof cases
    case table
    then have "i = j" using inj_onD [OF inj, of i j] by simp
    then have "MACH_PORT_INDEX n = MACH_PORT_INDEX m" "MACH_PORT_GEN n = MACH_PORT_GEN m"
      using table by (simp_all add: word_unat_eq_iff)
    then show ?thesis by (metis index_gen_make)
  next
    case tree
    then have "?r n = ?r m" using h(2) unfolding global_inv_def by (metis tree_ref.select_convs(1,3))
    then show ?thesis by simp
  qed
qed

text \<open>The space names the port by a send right or the receive right.\<close>

definition names_port :: "addr \<Rightarrow> capability option \<Rightarrow> bool" where
  "names_port port c \<longleftrightarrow> holds MACH_PORT_TYPE_SEND_RECEIVE port c"

lemma names_port_cap:
  "names_port port (Some (cap e)) \<longleftrightarrow> ie_object e = port \<and> type_of e AND MACH_PORT_TYPE_SEND_RECEIVE \<noteq> 0"
proof -
  have "(ie_bits e AND IE_BITS_RIGHT_MASK) AND MACH_PORT_TYPE_SEND_RECEIVE = type_of e AND MACH_PORT_TYPE_SEND_RECEIVE"
    by (simp add: type_of_def IE_BITS_TYPE_def IE_BITS_TYPE_MASK_def IE_BITS_RIGHT_MASK_def type_values and.assoc)
  then show ?thesis by (simp add: names_port_def holds_def cap_def)
qed

lemma send_receive_test:
  "IE_BITS_TYPE b \<in> right_types \<Longrightarrow> b AND MACH_PORT_TYPE_SEND_RECEIVE \<noteq> 0 \<longleftrightarrow>
     IE_BITS_TYPE b = MACH_PORT_TYPE_SEND \<or> b AND MACH_PORT_TYPE_RECEIVE \<noteq> 0"
proof -
  assume t: "IE_BITS_TYPE b \<in> right_types"
  have "b AND MACH_PORT_TYPE_SEND_RECEIVE = IE_BITS_TYPE b AND MACH_PORT_TYPE_SEND_RECEIVE"
    by (simp add: IE_BITS_TYPE_def IE_BITS_TYPE_MASK_def type_values and.assoc)
  then show ?thesis
    using t type_tests(2) [of b] by (auto simp: right_types_def type_values)
qed

lemma names_port_cases:
  assumes inv: "rights_inv s" and n: "names_port port (caps s n)"
  shows "send_cap port (caps s n) \<and> \<not> received s port \<or> received s port \<and> n = ip_receiver_name (st_port s port)"
proof -
  obtain b r where c: "caps s n = Some (b, port, r)" "b AND MACH_PORT_TYPE_SEND_RECEIVE \<noteq> 0"
    using n by (auto simp: names_port_def holds_def split: option.splits)
  have ok: "right_ok s n (b, port, r)" by (rule rights_invD(3) [OF inv c(1)])
  then show ?thesis
    using c send_receive_test [of b] type_tests(2) [of b] by (auto simp: right_ok_def Let_def send_cap_def)
qed

lemma names_port_unique:
  assumes inv: "rights_inv s" and n: "names_port port (caps s n)" "names_port port (caps s m)"
  shows "n = m"
proof -
  obtain ns where "space_good ns (st_space s, st_hash s)" using rights_invD(1) [OF inv] by blast
  then show ?thesis
    using names_port_cases [OF inv n(1)] names_port_cases [OF inv n(2)] send_cap_unique unfolding caps_def by blast
qed

lemma send_names: "send_cap port c \<Longrightarrow> names_port port c"
proof -
  assume "send_cap port c"
  then obtain b r where c: "c = Some (b, port, r)" "IE_BITS_TYPE b = MACH_PORT_TYPE_SEND"
    by (auto simp: send_cap_def split: option.splits)
  then have "b AND MACH_PORT_TYPE_SEND_RECEIVE \<noteq> 0"
    using send_receive_test [of b] by (simp add: right_types_def)
  then show ?thesis using c by (simp add: names_port_def holds_def)
qed

lemma receive_names: "receive_cap port c \<Longrightarrow> names_port port c"
proof -
  assume "receive_cap port c"
  then obtain b r where c: "c = Some (b, port, r)" "b AND MACH_PORT_TYPE_RECEIVE \<noteq> 0"
    by (auto simp: receive_cap_def split: option.splits)
  have "(b AND MACH_PORT_TYPE_SEND_RECEIVE) AND MACH_PORT_TYPE_RECEIVE = b AND MACH_PORT_TYPE_RECEIVE"
    by (simp add: type_values and.assoc)
  then have "b AND MACH_PORT_TYPE_SEND_RECEIVE \<noteq> 0" using c(2) by auto
  then show ?thesis using c by (simp add: names_port_def holds_def)
qed

lemma reverse_spec:
  assumes inv: "rights_inv s"
  obtains found s1 where "ipc_right_reverse s port = Some (found, s1)" "st_heap s1 = st_heap s"
    "case found of
       None \<Rightarrow> st_space s1 = st_space s \<and> (\<exists>ns. space_good ns (st_space s1, st_hash s1)) \<and>
         (ip_active (st_port s port) \<longrightarrow> \<not> received s port \<and> (\<forall>n. \<not> names_port port (caps s n)))
     | Some (name, entry) \<Rightarrow> ip_active (st_port s port) \<and> ready s name entry s1 \<and> names_port port (caps s name) \<and>
         ie_object (st_entry s1 entry) = port \<and>
         (if received s port then type_of (st_entry s1 entry) AND MACH_PORT_TYPE_RECEIVE \<noteq> 0
          else type_of (st_entry s1 entry) = MACH_PORT_TYPE_SEND)"
proof (cases "ip_active (st_port s port)")
  case False
  then show ?thesis using that [of None s] rights_invD(1) [OF inv] by (simp add: ipc_right_reverse_def)
next
  case act: True
  obtain ns where good: "space_good ns (st_space s, st_hash s)" using rights_invD(1) [OF inv] by blast
  show ?thesis
  proof (cases "received s port")
    case True
    let ?n = "ip_receiver_name (st_port s port)"
    obtain res s1 where l: "entry_lookup s ?n = (res, s1)" by fastforce
    note spec = lookup_ready [OF rights_invD(1) [OF inv] l]
    have rc: "receive_cap port (caps s ?n)" by (rule rights_invD(4) [OF inv True])
    then obtain entry where e: "res = Some entry" "ready s ?n entry s1" "st_heap s1 = st_heap s"
      using spec by (cases res) (auto simp: receive_cap_def)
    have "ie_object (st_entry s1 entry) = port" "type_of (st_entry s1 entry) AND MACH_PORT_TYPE_RECEIVE \<noteq> 0"
      using rc unfolding ready_cap [OF e(2)] cap_tests by simp_all
    then show ?thesis
      using that [of "Some (?n, entry)" s1] act True l e receive_names [OF rc]
      by (simp add: ipc_right_reverse_def received_def self_def)
  next
    case False
    obtain res g where l: "ipc_hash_lookup (st_hash s) (st_space s) port = Some (res, g)" "space_good ns (st_space s, g)"
      "case res of None \<Rightarrow> \<forall>n. \<not> send_cap port (space_caps (st_space s) n)
       | Some (n, entry) \<Rightarrow> ptr_ok (st_space s) n entry \<and> type_of (entry_at (st_space s) entry) = MACH_PORT_TYPE_SEND \<and>
         ie_object (entry_at (st_space s) entry) = port"
      using hash_lookup_good [OF good, of port] by blast
    let ?s = "s\<lparr>st_hash := g\<rparr>"
    have run: "ipc_right_reverse s port = Some (res, ?s)"
      using act False l(1) by (simp add: ipc_right_reverse_def received_def self_def)
    show ?thesis
    proof (cases res)
      case None
      then have "\<not> names_port port (caps s n)" for n
        using l(3) names_port_cases [OF inv, of port n] False by (auto simp: caps_def)
      then show ?thesis using that [OF run] None l(2) False by auto
    next
      case (Some x)
      obtain n entry where x: "x = (n, entry)" by (cases x)
      have p: "ptr_ok (st_space s) n entry" "type_of (entry_at (st_space s) entry) = MACH_PORT_TYPE_SEND"
        "ie_object (entry_at (st_space s) entry) = port"
        using l(3) Some x by simp_all
      have "ready s n entry ?s" using p l(2) by (auto simp: ready_def caps_def same_space_def st_entry_def)
      moreover from ready_cap [OF this] have "send_cap port (caps s n)" using p by (simp add: st_entry_def)
      ultimately show ?thesis
        using that [OF run] Some x p act False send_names by (auto simp: st_entry_def)
    qed
  qed
qed

text \<open>
  C20: A space has at most one name for the send rights and the receive right of a live port, and
  \<open>ipc_right_reverse\<close> finds it exactly when there is one, with its entry; no right changes.
\<close>

theorem right_reverse_exact:
  assumes inv: "rights_inv s" and act: "ip_active (st_port s port)"
  shows "\<exists>found s'. ipc_right_reverse s port = Some (found, s') \<and> rights_inv s' \<and> caps s' = caps s \<and>
    (case found of
       None \<Rightarrow> \<forall>n. \<not> names_port port (caps s n)
     | Some (name, entry) \<Rightarrow> caps s name = Some (cap (st_entry s' entry)) \<and> (\<forall>n. names_port port (caps s n) \<longleftrightarrow> n = name))"
proof -
  obtain found s1 where r: "ipc_right_reverse s port = Some (found, s1)" "st_heap s1 = st_heap s"
    "case found of
       None \<Rightarrow> st_space s1 = st_space s \<and> (\<exists>ns. space_good ns (st_space s1, st_hash s1)) \<and>
         (ip_active (st_port s port) \<longrightarrow> \<not> received s port \<and> (\<forall>n. \<not> names_port port (caps s n)))
     | Some (name, entry) \<Rightarrow> ip_active (st_port s port) \<and> ready s name entry s1 \<and> names_port port (caps s name) \<and>
         ie_object (st_entry s1 entry) = port \<and>
         (if received s port then type_of (st_entry s1 entry) AND MACH_PORT_TYPE_RECEIVE \<noteq> 0
          else type_of (st_entry s1 entry) = MACH_PORT_TYPE_SEND)"
    by (rule reverse_spec [OF inv])
  have c: "closed s n (caps s n) s1" for n
    using r(3) ready_same by (cases found) (auto simp: closed_def caps_def same_space_def ready_def)
  note same = inv_same [OF inv c r(2)]
  have "caps s1 = caps s" using closed_self [OF c] by simp
  then show ?thesis
    using r(1,3) same(1) act names_port_unique [OF inv] ready_cap
    by (cases found) (fastforce simp: r(1))+
qed

theorem right_reverse_exact_witness:
  "\<exists>entry s'. ipc_right_reverse state1 64 = Some (Some (0x103, entry), s') \<and> caps s' = caps state1 \<and>
    names_port 64 (caps state1 0x103) \<and> \<not> names_port 64 (caps state1 0x203)"
proof -
  have act: "ip_active (st_port state1 64)" using state1_facts(3) by (simp add: received_def)
  obtain found s' where r: "ipc_right_reverse state1 64 = Some (found, s')" "caps s' = caps state1"
    "case found of None \<Rightarrow> \<forall>n. \<not> names_port 64 (caps state1 n)
     | Some (name, entry) \<Rightarrow> caps state1 name = Some (cap (st_entry s' entry)) \<and> (\<forall>n. names_port 64 (caps state1 n) \<longleftrightarrow> n = name)"
    using right_reverse_exact [OF state1_facts(1) act] by auto
  have n: "names_port 64 (caps state1 0x103)"
    by (simp add: state1_facts(2) names_port_def holds_def type_values)
  then obtain name entry where f: "found = Some (name, entry)" using r(3) by (cases found) auto
  then have "name = 0x103" "\<not> names_port 64 (caps state1 0x203)" using r(3) n by auto
  then show ?thesis using r(1,2) f n by blast
qed

subsection \<open>Rights that arrive\<close>

lemma put_keep:
  assumes inv: "rights_inv s0" and ready: "ready s0 name entry s" and st: "steady (st_heap s0) (st_heap s)"
    and bk: "booked port (if t = MACH_PORT_TYPE_SEND then x else 0) (if t = MACH_PORT_TYPE_SEND_ONCE then x else 0) x (st_heap s0) (st_heap s)"
    and of: "cap_of port (caps s0 name)"
  shows "put s0 name (caps s0 name) (bill port t x) s"
  by (rule put_steady [OF inv ready_same [OF ready] st bk of of]) (auto intro: rights_invD(3) [OF inv])

lemma more_bits:
  assumes "t AND IE_BITS_TYPE_MASK = t" "IE_BITS_TYPE b OR t = u" "urefs_of b < 0xffff"
  shows "IE_BITS_TYPE ((b OR t) + 1) = u" "urefs_of ((b OR t) + 1) = urefs_of b + 1"
    "((b OR t) + 1) AND NOT IE_BITS_RIGHT_MASK = b AND NOT IE_BITS_RIGHT_MASK"
proof -
  note s = set_type(4-6) [OF assms(1), of b]
  have u: "urefs_of (b OR t) < 0xffff" using s(2) assms(3) by simp
  show "IE_BITS_TYPE ((b OR t) + 1) = u" "urefs_of ((b OR t) + 1) = urefs_of b + 1"
    "((b OR t) + 1) AND NOT IE_BITS_RIGHT_MASK = b AND NOT IE_BITS_RIGHT_MASK"
    using urefs_up [OF u] s assms(2) by simp_all
qed

lemma urefs_full: "IE_BITS_UREFS b + 1 = MACH_PORT_UREFS_MAX \<longleftrightarrow> urefs_of b = 0xfffe"
proof -
  have "IE_BITS_UREFS b + 1 = 0xffff \<longleftrightarrow> IE_BITS_UREFS b = 0xffff - 1" by (rule eq_diff_eq [symmetric])
  then show ?thesis by (simp add: urefs_of_def word_unat_eq_iff urefs_max_value)
qed

lemma copyout_send_found:
  assumes inv: "rights_inv s0" and ready: "ready s0 name entry s" and h: "st_heap s = st_heap s0"
    and e: "e = st_entry s entry" "ie_object e = port" "type_of e AND MACH_PORT_TYPE_SEND_RECEIVE \<noteq> 0"
  shows "\<exists>kr s' c. copyout_send s name entry overflow port = Some (kr, s') \<and> names_port port c \<and>
    put s0 name c (bill port MACH_PORT_TYPE_SEND (if kr = KERN_SUCCESS then - 1 else 0)) s' \<and>
    (kr = KERN_SUCCESS \<or> kr = KERN_UREFS_OVERFLOW \<and> \<not> overflow \<and> c = caps s0 name)"
proof -
  have cap: "caps s0 name = Some (cap e)" using ready_cap [OF ready] e(1) by simp
  have ok: "right_ok s0 name (cap e)" unfolding e(1) by (rule ready_right [OF inv ready])
  have ty: "type_of e = MACH_PORT_TYPE_SEND \<or> type_of e = MACH_PORT_TYPE_RECEIVE \<or> type_of e = MACH_PORT_TYPE_SEND_RECEIVE"
    using ready_type(1) [OF inv ready] e(3) unfolding e(1) [symmetric] by (auto simp: right_types_def type_values)
  have np: "names_port port (caps s0 name)" using e(2,3) by (simp add: cap names_port_cap)
  have of: "cap_of port (caps s0 name)" using e(2) by (simp add: cap cap_of_cap)
  define b where "b = (ie_bits e OR MACH_PORT_TYPE_SEND) + 1"
  let ?less = "on_heap (ip_release port) (on_port port (\<lambda>p. p\<lparr>ip_srights := ip_srights p - 1\<rparr>) s)"
  let ?v = "\<lambda>e. e\<lparr>ie_bits := b\<rparr>"
  have less: "steady (st_heap s0) (st_heap ?less)" "booked port (- 1) 0 (- 1) (st_heap s0) (st_heap ?less)"
    using h by (auto simp: steady_def booked_def ip_release_def ip_active_def)
  have lr: "ready s0 name entry ?less" using ready by simp
  consider (full) "type_of e \<noteq> MACH_PORT_TYPE_RECEIVE" "urefs_of (ie_bits e) = 0xfffe"
    | (more) "type_of e \<noteq> MACH_PORT_TYPE_RECEIVE" "urefs_of (ie_bits e) < 0xfffe"
    | (receive) "type_of e = MACH_PORT_TYPE_RECEIVE"
    using ok ty by (fastforce simp: right_ok_cap)
  then show ?thesis
  proof cases
    case full
    have k: "KERN_UREFS_OVERFLOW \<noteq> KERN_SUCCESS" by simp
    have "copyout_send s name entry overflow port = Some (if overflow then (KERN_SUCCESS, ?less) else (KERN_UREFS_OVERFLOW, s))"
      using full ty by (auto simp: copyout_send_def Let_def entry_tests urefs_full e(1) [symmetric])
    moreover have "put s0 name (caps s0 name) (bill port MACH_PORT_TYPE_SEND (- 1)) ?less"
      by (rule put_keep [OF inv lr less(1) _ of]) (use less(2) in simp)
    moreover have "put s0 name (caps s0 name) (bill port MACH_PORT_TYPE_SEND 0) s"
      by (rule put_keep [OF inv ready _ _ of]) (use h in simp_all)
    ultimately show ?thesis using np k by (cases overflow) auto
  next
    case more
    note m = more_bits [OF type_masked(1), of "ie_bits e" "type_of e", folded b_def]
    have tb: "type_of e OR MACH_PORT_TYPE_SEND = type_of e" using ty more(1) by auto
    then have m': "IE_BITS_TYPE b = type_of e" "urefs_of b = urefs_of (ie_bits e) + 1"
      "b AND NOT IE_BITS_RIGHT_MASK = ie_bits e AND NOT IE_BITS_RIGHT_MASK"
      using m more(2) by (simp_all add: type_of_def)
    let ?s = "set_entry entry ?v ?less"
    have sl: "same_slot (st_entry ?less entry) (?v (st_entry ?less entry))" using m'(3) e(1) by (simp add: same_slot_def)
    from present_set [OF ready_present [OF lr], of ?v, OF sl]
    have p: "present s0 name entry ?s" "st_entry ?s entry = ?v e" using m'(1) e(1) by simp_all
    have c: "closed s0 name (Some (cap (?v e))) ?s" using present_closed [OF p(1)] p(2) by simp
    have "put s0 name (Some (cap (?v e))) (bill port MACH_PORT_TYPE_SEND (- 1)) ?s"
    proof (rule put_steady [OF inv c _ _ _ of])
      show "right_ok s0 name x" if "Some (cap (?v e)) = Some x" for x
        using that ok m' more ty by (auto simp: right_ok_cap right_types_def)
    qed (use less m'(1) e(2) ty more in \<open>auto simp: cap cap_tests cap_of_cap\<close>)
    moreover have "names_port port (Some (cap (?v e)))" using e(2,3) m'(1) by (simp add: names_port_cap)
    moreover have "copyout_send s name entry overflow port = Some (KERN_SUCCESS, ?s)"
      using more ty by (auto simp: copyout_send_def Let_def entry_tests urefs_full e(1) [symmetric] b_def)
    ultimately show ?thesis by (intro exI [of _ KERN_SUCCESS] exI [of _ ?s] exI [of _ "Some (cap (?v e))"]) simp
  next
    case receive
    have u: "urefs_of (ie_bits e) = 0" using ok receive by (simp add: right_ok_cap)
    have m': "IE_BITS_TYPE b = MACH_PORT_TYPE_SEND_RECEIVE" "urefs_of b = 1"
      "b AND NOT IE_BITS_RIGHT_MASK = ie_bits e AND NOT IE_BITS_RIGHT_MASK"
      using more_bits [OF type_masked(1), of "ie_bits e" MACH_PORT_TYPE_SEND_RECEIVE] receive u
      by (simp_all add: b_def type_of_def)
    let ?l = "on_heap (ip_release port) s"
    let ?s = "set_entry entry ?v ?l"
    have "opened s0 name entry ?l" using present_open [OF ready_present [OF ready]] receive e(1) by simp
    from opened_set [OF this, of ?v] have o: "opened s0 name entry ?s" "st_entry ?s entry = ?v e"
      using m'(3) e(1) by (simp_all add: same_slot_def)
    have c: "closed s0 name (Some (cap (?v e))) ?s" using opened_close [OF o(1)] o(2) m'(1) by simp
    have "put s0 name (Some (cap (?v e))) (bill port MACH_PORT_TYPE_SEND (- 1)) ?s"
    proof (rule put_steady [OF inv c _ _ _ of])
      show "right_ok s0 name x" if "Some (cap (?v e)) = Some x" for x
        using that ok m' receive by (auto simp: right_ok_cap right_types_def)
      show "booked port 0 0 (- 1) (st_heap s0) (st_heap ?s)" using h by simp
    qed (use h m'(1) e(2) receive in \<open>auto simp: cap cap_tests cap_of_cap\<close>)
    moreover have "names_port port (Some (cap (?v e)))"
      using e(2) m'(1) by (simp add: names_port_cap type_values)
    moreover have "copyout_send s name entry overflow port = Some (KERN_SUCCESS, ?s)"
      using receive by (simp add: copyout_send_def Let_def entry_tests e(1) [symmetric] b_def)
    ultimately show ?thesis by (intro exI [of _ KERN_SUCCESS] exI [of _ ?s] exI [of _ "Some (cap (?v e))"]) simp
  qed
qed

lemma copyout_send_new:
  assumes inv: "rights_inv s0" and o: "opened s0 name entry s" and h: "st_heap s = st_heap s0"
    and new: "ie_bits (st_entry s entry) AND IE_BITS_RIGHT_MASK = 0" "ie_object (st_entry s entry) = port" "caps s0 name = None"
    and port: "IP_VALID port" "\<not> received s0 port" "\<And>n. \<not> names_port port (caps s0 n)"
  shows "\<exists>s' c. copyout_send s name entry overflow port = Some (KERN_SUCCESS, s') \<and> names_port port c \<and>
    put s0 name c (bill port MACH_PORT_TYPE_SEND (- 1)) s'"
proof -
  let ?b = "ie_bits (st_entry s entry)"
  note z = new_bits [OF new(1)]
  have no: "\<not> send_cap port (caps s0 n)" for n using port(3) send_names by blast
  obtain s1 where s1: "hash_insert port name entry s = Some s1" "st_heap s1 = st_heap s"
    "ie_bits (st_entry s1 entry) = ?b" "ie_object (st_entry s1 entry) = port"
    "\<And>v. st_entry (set_entry entry v s1) entry = v (st_entry s1 entry)"
    "\<And>v. same_slot (st_entry s1 entry) (v (st_entry s1 entry)) \<Longrightarrow> type_of (v (st_entry s1 entry)) = MACH_PORT_TYPE_SEND \<Longrightarrow>
       ie_object (v (st_entry s1 entry)) = port \<Longrightarrow> closed s0 name (Some (cap (v (st_entry s1 entry)))) (set_entry entry v s1)"
    using opened_hash [OF o new(2) no] by metis
  define b where "b = (?b OR MACH_PORT_TYPE_SEND) + 1"
  have m: "IE_BITS_TYPE b = MACH_PORT_TYPE_SEND" "urefs_of b = 1" "b AND NOT IE_BITS_RIGHT_MASK = ?b AND NOT IE_BITS_RIGHT_MASK"
    using more_bits [OF type_masked(1), of ?b MACH_PORT_TYPE_SEND] z by (simp_all add: b_def)
  let ?v = "\<lambda>e. e\<lparr>ie_bits := b\<rparr>"
  let ?s = "set_entry entry ?v s1"
  let ?c = "Some (cap (?v (st_entry s1 entry)))"
  have c: "closed s0 name ?c ?s"
    by (rule s1(6)) (use m s1(3,4) in \<open>simp_all add: same_slot_def\<close>)
  have "put s0 name ?c (bill port MACH_PORT_TYPE_SEND (- 1)) ?s"
  proof (rule put_steady [OF inv c])
    show "right_ok s0 name x" if "?c = Some x" for x
      using that m s1(4) port by (auto simp: right_ok_cap right_types_def)
    show "booked port 0 0 0 (st_heap s0) (st_heap ?s)" using h s1(2) by simp
  qed (use h m(1) s1(2,4) in \<open>auto simp: new(3) cap_tests cap_of_cap cap_of_def [of port None] receive_cap_def\<close>)
  moreover have "names_port port ?c" using s1(4) m(1) by (simp add: names_port_cap type_values)
  moreover have "copyout_send s name entry overflow port = Some (KERN_SUCCESS, ?s)"
    using s1(1) z(1) type_tests(1,2) [of ?b] by (simp add: copyout_send_def Let_def b_def)
  ultimately show ?thesis by blast
qed

lemma copyout_once_new:
  assumes inv: "rights_inv s0" and o: "opened s0 name entry s" and h: "st_heap s = st_heap s0"
    and new: "ie_bits (st_entry s entry) AND IE_BITS_RIGHT_MASK = 0" "ie_object (st_entry s entry) = port" "caps s0 name = None"
    and port: "IP_VALID port"
  shows "\<exists>s' c. ipc_right_copyout s name entry MACH_MSG_TYPE_PORT_SEND_ONCE overflow port = Some (KERN_SUCCESS, s') \<and>
    put s0 name c (bill port MACH_PORT_TYPE_SEND_ONCE (- 1)) s' \<and> holds MACH_PORT_TYPE_SEND_ONCE port c"
proof -
  let ?b = "ie_bits (st_entry s entry)"
  note z = new_bits [OF new(1)]
  define b where "b = ?b OR MACH_PORT_TYPE_SEND_ONCE OR 1"
  have bb: "(?b OR MACH_PORT_TYPE_SEND_ONCE) + 1 = b"
  proof -
    note s = set_type(5) [OF type_masked(3), of ?b]
    have "(?b OR MACH_PORT_TYPE_SEND_ONCE) AND 1 = 0"
    proof -
      have "?b AND 1 = 0" "MACH_PORT_TYPE_SEND_ONCE AND 1 = (0 :: natural_t)"
      proof -
        have "IE_BITS_RIGHT_MASK AND 1 = 1" by (simp add: IE_BITS_RIGHT_MASK_def)
        then have "?b AND 1 = (?b AND IE_BITS_RIGHT_MASK) AND 1" by (simp add: and.assoc)
        then show "?b AND 1 = 0" using new(1) by simp
        show "MACH_PORT_TYPE_SEND_ONCE AND 1 = (0 :: natural_t)" by (simp add: type_values)
      qed
      then show ?thesis by (simp add: bit.conj_disj_distrib2)
    qed
    then show ?thesis unfolding b_def or.assoc [symmetric] by (metis word_plus_and_or add_0)
  qed
  have m: "IE_BITS_TYPE b = MACH_PORT_TYPE_SEND_ONCE" "urefs_of b = 1" "b AND NOT IE_BITS_RIGHT_MASK = ?b AND NOT IE_BITS_RIGHT_MASK"
    using more_bits [OF type_masked(3), of ?b MACH_PORT_TYPE_SEND_ONCE] z by (simp_all add: bb)
  let ?v = "\<lambda>e. e\<lparr>ie_bits := ie_bits e OR MACH_PORT_TYPE_SEND_ONCE OR 1\<rparr>"
  let ?s = "set_entry entry ?v s"
  have v: "?v (st_entry s entry) = (st_entry s entry)\<lparr>ie_bits := b\<rparr>" by (simp add: b_def)
  have "opened s0 name entry ?s" "st_entry ?s entry = (st_entry s entry)\<lparr>ie_bits := b\<rparr>"
    using opened_set [OF o, of ?v] m(3) unfolding v by (simp_all add: same_slot_def)
  then have c: "closed s0 name (Some (cap ((st_entry s entry)\<lparr>ie_bits := b\<rparr>))) ?s"
    using opened_close [of s0 name entry ?s] m(1) by simp
  let ?c = "Some (cap ((st_entry s entry)\<lparr>ie_bits := b\<rparr>))"
  have "put s0 name ?c (bill port MACH_PORT_TYPE_SEND_ONCE (- 1)) ?s"
  proof (rule put_steady [OF inv c])
    show "right_ok s0 name x" if "?c = Some x" for x
      using that m port new(2) by (auto simp: right_ok_cap right_types_def)
    show "booked port 0 0 0 (st_heap s0) (st_heap ?s)" using h by simp
  qed (use h m(1) new(2) in \<open>auto simp: new(3) cap_tests cap_of_cap cap_of_def [of port None] receive_cap_def\<close>)
  moreover have "holds MACH_PORT_TYPE_SEND_ONCE port ?c" using m(1) new(2) by (simp add: cap_tests)
  moreover have "ipc_right_copyout s name entry MACH_MSG_TYPE_PORT_SEND_ONCE overflow port = Some (KERN_SUCCESS, ?s)"
    by (simp add: ipc_right_copyout_def)
  ultimately show ?thesis by blast
qed

subsection \<open>Copyout\<close>

lemma get_free:
  assumes "\<exists>ns. space_good ns (st_space s, st_hash s)" "ipc_entry_get (st_space s) \<noteq> None"
  obtains name entry space where "ipc_entry_get (st_space s) = Some (name, entry, space)" "opened s name entry (s\<lparr>st_space := space\<rparr>)"
    "caps s name = None" "ie_bits (entry_at space entry) AND IE_BITS_RIGHT_MASK = 0" "ie_request (entry_at space entry) = 0"
proof -
  obtain name entry space where "ipc_entry_get (st_space s) = Some (name, entry, space)" using assms(2) by auto
  then show ?thesis using that get_opened [OF assms(1)] by blast
qed

text \<open>A new entry for an object, when no name of the space will do.\<close>

lemma new_object_entry:
  assumes o: "opened s0 name entry s1" and ob: "s2 = set_entry entry (\<lambda>e. e\<lparr>ie_object := port\<rparr>) s1"
  shows "opened s0 name entry s2" "st_entry s2 entry = (st_entry s1 entry)\<lparr>ie_object := port\<rparr>" "st_heap s2 = st_heap s1"
  using opened_set [OF o, of "\<lambda>e. e\<lparr>ie_object := port\<rparr>"] by (simp_all add: ob same_slot_def)

text \<open>How a copyout ends: the result, and the capability \<open>c\<close> of the name \<open>n\<close> afterwards.\<close>

definition landed :: "ipc_state \<Rightarrow> addr \<Rightarrow> mach_port_type_t \<Rightarrow> bool \<Rightarrow> kern_return_t + mach_port_t \<Rightarrow> mach_port_t \<Rightarrow> capability option \<Rightarrow> bool" where
  "landed s port t overflow res n c \<longleftrightarrow>
     (case res of
        Inr m \<Rightarrow> m = n \<and> ip_active (st_port s port) \<and>
          (if t = MACH_PORT_TYPE_SEND
           then names_port port c \<and> (\<forall>m. names_port port (caps s m) \<longrightarrow> m = n) \<and> (caps s n = None \<or> names_port port (caps s n))
           else holds MACH_PORT_TYPE_SEND_ONCE port c \<and> caps s n = None)
      | Inl kr \<Rightarrow> c = caps s n \<and> (kr = KERN_INVALID_CAPABILITY \<and> \<not> ip_active (st_port s port) \<or>
          kr = KERN_UREFS_OVERFLOW \<and> \<not> overflow \<and> t = MACH_PORT_TYPE_SEND))"

definition copied_out :: "ipc_state \<Rightarrow> addr \<Rightarrow> mach_port_type_t \<Rightarrow> bool \<Rightarrow> ((kern_return_t + mach_port_t) \<times> ipc_state) option \<Rightarrow> bool" where
  "copied_out s port t overflow x \<longleftrightarrow>
     (\<exists>res s' n c. x = Some (res, s') \<and> put s n c (bill port t (- of_bool (\<exists>n. res = Inr n))) s' \<and> landed s port t overflow res n c)"

definition send_type :: "mach_msg_type_name_t \<Rightarrow> mach_port_type_t \<Rightarrow> bool" where
  "send_type msgt_name t \<longleftrightarrow> msgt_name = MACH_MSG_TYPE_PORT_SEND \<and> t = MACH_PORT_TYPE_SEND \<or>
     msgt_name = MACH_MSG_TYPE_PORT_SEND_ONCE \<and> t = MACH_PORT_TYPE_SEND_ONCE"

lemma msg_types_differ [simp]:
  "MACH_MSG_TYPE_PORT_SEND \<noteq> MACH_MSG_TYPE_PORT_SEND_ONCE" "MACH_MSG_TYPE_PORT_SEND_ONCE \<noteq> MACH_MSG_TYPE_PORT_SEND"
  "MACH_MSG_TYPE_PORT_RECEIVE \<noteq> MACH_MSG_TYPE_PORT_SEND_ONCE" "MACH_MSG_TYPE_PORT_SEND_ONCE \<noteq> MACH_MSG_TYPE_PORT_RECEIVE"
  "MACH_MSG_TYPE_PORT_RECEIVE \<noteq> MACH_MSG_TYPE_PORT_SEND" "MACH_MSG_TYPE_PORT_SEND \<noteq> MACH_MSG_TYPE_PORT_RECEIVE"
  by (simp_all add: msg_types)

lemma copied_out_new:
  assumes inv: "rights_inv s" and o: "opened s name entry s1" and h: "st_heap s1 = st_heap s"
    and new: "ie_bits (st_entry s1 entry) AND IE_BITS_RIGHT_MASK = 0" "caps s name = None"
    and port: "IP_VALID port" and t: "send_type msgt_name t"
    and none: "t = MACH_PORT_TYPE_SEND \<Longrightarrow> ip_active (st_port s port) \<Longrightarrow> \<not> received s port \<and> (\<forall>n. \<not> names_port port (caps s n))"
  shows "copied_out s port t overflow
    (if \<not> ip_active (st_port s1 port) then map_option (Pair (Inl KERN_INVALID_CAPABILITY)) (entry_dealloc env name entry s1)
     else copyout_entry name entry msgt_name overflow port (set_entry entry (\<lambda>e. e\<lparr>ie_object := port\<rparr>) s1))"
proof (cases "ip_active (st_port s port)")
  case False
  obtain s' where d: "entry_dealloc env name entry s1 = Some s'" "closed s name None s'" "st_heap s' = st_heap s1"
    by (rule opened_dealloc [OF o])
  have "put s name None (bill port t 0) s'"
    by (rule put_steady [OF inv d(2), where a = 0 and b = 0 and k = 0]) (use h d(3) new(2) in \<open>simp_all add: cap_of_def receive_cap_def\<close>)
  then show ?thesis
    using d(1) False h new(2) unfolding copied_out_def landed_def
    by (intro exI [of _ "Inl KERN_INVALID_CAPABILITY"] exI [of _ s'] exI [of _ name] exI [of _ None]) (simp add: st_port_def)
next
  case True
  let ?s = "set_entry entry (\<lambda>e. e\<lparr>ie_object := port\<rparr>) s1"
  note n = new_object_entry [OF o refl, of port]
  have b: "ie_bits (st_entry ?s entry) AND IE_BITS_RIGHT_MASK = 0" "ie_object (st_entry ?s entry) = port" "st_heap ?s = st_heap s"
    using n(2,3) new(1) h by simp_all
  have a: "ip_active (st_port s1 port)" using True h by (simp add: st_port_def)
  show ?thesis
  proof (cases "t = MACH_PORT_TYPE_SEND")
    case True
    then have m: "msgt_name = MACH_MSG_TYPE_PORT_SEND" using t by (auto simp: send_type_def)
    have no: "\<not> received s port" "\<And>n. \<not> names_port port (caps s n)" using none True \<open>ip_active (st_port s port)\<close> by blast+
    obtain s' c where s': "copyout_send ?s name entry overflow port = Some (KERN_SUCCESS, s')" "names_port port c"
      "put s name c (bill port MACH_PORT_TYPE_SEND (- 1)) s'"
      using copyout_send_new [OF inv n(1) b(3,1,2) new(2) port no] by blast
    have "copyout_entry name entry msgt_name overflow port ?s = Some (Inr name, s')"
      using s'(1) by (simp add: copyout_entry_def ipc_right_copyout_def m)
    then show ?thesis
      using s'(2,3) a True \<open>ip_active (st_port s port)\<close> no(2) new(2) unfolding copied_out_def landed_def
      by (intro exI [of _ "Inr name"] exI [of _ s'] exI [of _ name] exI [of _ c]) simp
  next
    case False
    then have m: "msgt_name = MACH_MSG_TYPE_PORT_SEND_ONCE" "t = MACH_PORT_TYPE_SEND_ONCE" using t by (auto simp: send_type_def)
    obtain s' c where s': "ipc_right_copyout ?s name entry msgt_name overflow port = Some (KERN_SUCCESS, s')"
      "holds MACH_PORT_TYPE_SEND_ONCE port c" "put s name c (bill port MACH_PORT_TYPE_SEND_ONCE (- 1)) s'"
      using copyout_once_new [OF inv n(1) b(3,1,2) new(2) port] m(1) by blast
    have "copyout_entry name entry msgt_name overflow port ?s = Some (Inr name, s')"
      using s'(1) by (simp add: copyout_entry_def)
    then show ?thesis
      using s'(2,3) a m(2) True new(2) unfolding copied_out_def landed_def
      by (intro exI [of _ "Inr name"] exI [of _ s'] exI [of _ name] exI [of _ c]) simp
  qed
qed

lemma opened_same: "opened s1 name entry s2 \<Longrightarrow> caps s1 = caps s \<Longrightarrow> same_space (st_space s) (st_space s1) \<Longrightarrow> opened s name entry s2"
  by (auto simp: opened_def same_space_def)

lemma copied_out_loop:
  assumes inv: "rights_inv s" and act: "is_active (st_space s)" and get: "ipc_entry_get (st_space s) \<noteq> None"
    and port: "IP_VALID port" and t: "send_type msgt_name t"
  shows "copied_out s port t overflow (copyout_loop (Suc k) env s port msgt_name overflow)"
proof -
  have good: "\<exists>ns. space_good ns (st_space s, st_hash s)" by (rule rights_invD(1) [OF inv])
  obtain found s1 where r: "(if msgt_name \<noteq> MACH_MSG_TYPE_PORT_SEND_ONCE then ipc_right_reverse s port else Some (None, s)) = Some (found, s1)"
    "st_heap s1 = st_heap s"
    "case found of
       None \<Rightarrow> st_space s1 = st_space s \<and> (\<exists>ns. space_good ns (st_space s1, st_hash s1)) \<and>
         (t = MACH_PORT_TYPE_SEND \<longrightarrow> ip_active (st_port s port) \<longrightarrow> \<not> received s port \<and> (\<forall>n. \<not> names_port port (caps s n)))
     | Some (name, entry) \<Rightarrow> t = MACH_PORT_TYPE_SEND \<and> ip_active (st_port s port) \<and> ready s name entry s1 \<and> names_port port (caps s name) \<and>
         ie_object (st_entry s1 entry) = port"
  proof (cases "t = MACH_PORT_TYPE_SEND")
    case True
    then have m: "msgt_name = MACH_MSG_TYPE_PORT_SEND" using t by (auto simp: send_type_def)
    show ?thesis
    proof (rule reverse_spec [OF inv, of port])
      fix found s1
      assume f: "ipc_right_reverse s port = Some (found, s1)" "st_heap s1 = st_heap s"
        "case found of
           None \<Rightarrow> st_space s1 = st_space s \<and> (\<exists>ns. space_good ns (st_space s1, st_hash s1)) \<and>
             (ip_active (st_port s port) \<longrightarrow> \<not> received s port \<and> (\<forall>n. \<not> names_port port (caps s n)))
         | Some (name, entry) \<Rightarrow> ip_active (st_port s port) \<and> ready s name entry s1 \<and> names_port port (caps s name) \<and>
             ie_object (st_entry s1 entry) = port \<and>
             (if received s port then type_of (st_entry s1 entry) AND MACH_PORT_TYPE_RECEIVE \<noteq> 0
              else type_of (st_entry s1 entry) = MACH_PORT_TYPE_SEND)"
      show ?thesis
        by (rule that [of found s1]) (use f m True in \<open>cases found; simp; blast\<close>)+
    qed
  next
    case False
    then have "msgt_name = MACH_MSG_TYPE_PORT_SEND_ONCE" using t by (auto simp: send_type_def)
    then show ?thesis using that [of None s] False good by simp
  qed
  show ?thesis
  proof (cases found)
    case None
    have s1: "st_space s1 = st_space s" "\<exists>ns. space_good ns (st_space s1, st_hash s1)" using r(3) None by auto
    then have c1: "caps s1 = caps s" by (simp add: caps_def)
    obtain name entry space where g: "ipc_entry_get (st_space s1) = Some (name, entry, space)" "opened s1 name entry (s1\<lparr>st_space := space\<rparr>)"
      "caps s1 name = None" "ie_bits (entry_at space entry) AND IE_BITS_RIGHT_MASK = 0"
      using get_free [OF s1(2)] get s1(1) by metis
    have o: "opened s name entry (s1\<lparr>st_space := space\<rparr>)"
      by (rule opened_same [OF g(2) c1]) (simp add: s1(1) same_space_def)
    have "copyout_loop (Suc k) env s port msgt_name overflow =
      (if \<not> ip_active (st_port (s1\<lparr>st_space := space\<rparr>) port)
       then map_option (Pair (Inl KERN_INVALID_CAPABILITY)) (entry_dealloc env name entry (s1\<lparr>st_space := space\<rparr>))
       else copyout_entry name entry msgt_name overflow port (set_entry entry (\<lambda>e. e\<lparr>ie_object := port\<rparr>) (s1\<lparr>st_space := space\<rparr>)))"
      using act r(1) None g(1) by simp
    then show ?thesis
      using copied_out_new [OF inv o _ _ _ port t] r(2,3) g(3,4) c1 None by (simp add: st_entry_def)
  next
    case (Some x)
    obtain name entry where x: "x = (name, entry)" by (cases x)
    have f: "t = MACH_PORT_TYPE_SEND" "ip_active (st_port s port)" "ready s name entry s1" "names_port port (caps s name)"
      "ie_object (st_entry s1 entry) = port"
      using r(3) Some x by auto
    then have m: "msgt_name = MACH_MSG_TYPE_PORT_SEND" using t by (auto simp: send_type_def)
    have ty: "type_of (st_entry s1 entry) AND MACH_PORT_TYPE_SEND_RECEIVE \<noteq> 0"
      using f(4) unfolding ready_cap [OF f(3)] names_port_cap by simp
    obtain kr s' c where c: "copyout_send s1 name entry overflow port = Some (kr, s')" "names_port port c"
      "put s name c (bill port MACH_PORT_TYPE_SEND (if kr = KERN_SUCCESS then - 1 else 0)) s'"
      "kr = KERN_SUCCESS \<or> kr = KERN_UREFS_OVERFLOW \<and> \<not> overflow \<and> c = caps s name"
      using copyout_send_found [OF inv f(3) r(2) refl f(5) ty, of overflow] by blast
    have "copyout_loop (Suc k) env s port msgt_name overflow = Some (if kr = KERN_SUCCESS then Inr name else Inl kr, s')"
      using act r(1) Some x c(1) by (simp add: copyout_entry_def ipc_right_copyout_def m)
    moreover have "landed s port t overflow (if kr = KERN_SUCCESS then Inr name else Inl kr) name c"
    proof (cases "kr = KERN_SUCCESS")
      case True
      have "\<forall>m. names_port port (caps s m) \<longrightarrow> m = name" using names_port_unique [OF inv _ f(4)] by blast
      then have "landed s port t overflow (Inr name) name c"
        unfolding landed_def sum.case f(1) if_P [OF refl] using c(2) f(2,4) by blast
      then show ?thesis using True by simp
    next
      case False
      then show ?thesis using c(4) f(1) by (simp add: landed_def)
    qed
    moreover have "bill port t (- of_bool (\<exists>n. (if kr = KERN_SUCCESS then Inr name else Inl kr) = (Inr n :: kern_return_t + mach_port_t))) =
        bill port MACH_PORT_TYPE_SEND (if kr = KERN_SUCCESS then - 1 else 0)"
      unfolding f(1) by (cases "kr = KERN_SUCCESS") simp_all
    ultimately show ?thesis using c(3) unfolding copied_out_def
      by (intro exI [of _ "if kr = KERN_SUCCESS then Inr name else Inl kr"] exI [of _ s'] exI [of _ name] exI [of _ c]) (simp only: simp_thms)
  qed
qed

text \<open>
  C2: A send or send-once right that arrives in a space with a free entry gets a name, and the books balance:
  what the message held of the port goes to the space.  A send right for a port the space has a name for gets
  that name, and one whose user references are at their limit is given up or reported, as the caller asks.  For
  a dead port, or on that overflow, the right stays with the caller and no right of the space changes.
\<close>

theorem object_copyout_conserves:
  assumes inv: "rights_inv s" and act: "is_active (st_space s)" and get: "ipc_entry_get (st_space s) \<noteq> None"
    and fuel: "0 < env_fuel env" and port: "IP_VALID port"
    and t: "msgt_name = MACH_MSG_TYPE_PORT_SEND \<and> t = MACH_PORT_TYPE_SEND \<or>
      msgt_name = MACH_MSG_TYPE_PORT_SEND_ONCE \<and> t = MACH_PORT_TYPE_SEND_ONCE"
  shows "\<exists>res s'. ipc_object_copyout env s port msgt_name overflow = Some (res, s') \<and> rights_inv s' \<and>
    (\<forall>p. ip_active (st_port s' p) = ip_active (st_port s p) \<and>
       refs_out s' p = refs_out s p - of_bool (p = port \<and> (\<exists>n. res = Inr n)) \<and>
       (ip_active (st_port s p) \<longrightarrow>
         sends_out s' p = sends_out s p - of_bool (p = port \<and> t = MACH_PORT_TYPE_SEND \<and> (\<exists>n. res = Inr n)) \<and>
         onces_out s' p = onces_out s p - of_bool (p = port \<and> t = MACH_PORT_TYPE_SEND_ONCE \<and> (\<exists>n. res = Inr n)))) \<and>
    (case res of
       Inr n \<Rightarrow> (\<forall>m. m \<noteq> n \<longrightarrow> caps s' m = caps s m) \<and> ip_active (st_port s port) \<and>
         (if t = MACH_PORT_TYPE_SEND
          then names_port port (caps s' n) \<and> (\<forall>m. names_port port (caps s m) \<longrightarrow> m = n) \<and>
            (caps s n = None \<or> names_port port (caps s n))
          else holds MACH_PORT_TYPE_SEND_ONCE port (caps s' n) \<and> caps s n = None)
     | Inl kr \<Rightarrow> caps s' = caps s \<and>
         (kr = KERN_INVALID_CAPABILITY \<and> \<not> ip_active (st_port s port) \<or>
          kr = KERN_UREFS_OVERFLOW \<and> \<not> overflow \<and> t = MACH_PORT_TYPE_SEND))"
proof -
  obtain k where k: "env_fuel env = Suc k" using fuel by (cases "env_fuel env") auto
  have "send_type msgt_name t" using t by (simp add: send_type_def)
  from copied_out_loop [OF inv act get port this, of overflow k env]
  obtain res s' n c where run: "ipc_object_copyout env s port msgt_name overflow = Some (res, s')"
    and p: "put s n c (bill port t (- of_bool (\<exists>n. res = Inr n))) s'" and res: "landed s port t overflow res n c"
    by (auto simp: copied_out_def ipc_object_copyout_def k)
  note r = put_result [OF inv p]
  have "bill port t (- of_bool (\<exists>n. res = Inr n)) MACH_PORT_TYPE_PORT_RIGHTS q = - of_bool (q = port \<and> (\<exists>n. res = Inr n))"
    "bill port t (- of_bool (\<exists>n. res = Inr n)) MACH_PORT_TYPE_SEND q =
      - of_bool (q = port \<and> t = MACH_PORT_TYPE_SEND \<and> (\<exists>n. res = Inr n))"
    "bill port t (- of_bool (\<exists>n. res = Inr n)) MACH_PORT_TYPE_SEND_ONCE q =
      - of_bool (q = port \<and> t = MACH_PORT_TYPE_SEND_ONCE \<and> (\<exists>n. res = Inr n))" for q
    using t by (auto simp: bill_def)
  then have "\<forall>p. ip_active (st_port s' p) = ip_active (st_port s p) \<and>
     refs_out s' p = refs_out s p - of_bool (p = port \<and> (\<exists>n. res = Inr n)) \<and>
     (ip_active (st_port s p) \<longrightarrow>
       sends_out s' p = sends_out s p - of_bool (p = port \<and> t = MACH_PORT_TYPE_SEND \<and> (\<exists>n. res = Inr n)) \<and>
       onces_out s' p = onces_out s p - of_bool (p = port \<and> t = MACH_PORT_TYPE_SEND_ONCE \<and> (\<exists>n. res = Inr n)))"
    using r(3-6) by simp
  then show ?thesis using run r(1,2) res unfolding landed_def
    by (intro exI [of _ res] exI [of _ s']) (cases res; auto)
qed

theorem object_copyout_conserves_witness:
  "\<exists>s'. ipc_object_copyout env0 state1 64 MACH_MSG_TYPE_PORT_SEND False = Some (Inr 0x103, s') \<and> rights_inv s' \<and>
    names_port 64 (caps s' 0x103) \<and> sends_out s' 64 = - 1"
proof -
  have act: "is_active (st_space state1)" "ipc_entry_get (st_space state1) \<noteq> None" by code_simp+
  have on: "ip_active (st_port state1 64)" using state1_facts(3) by (simp add: received_def)
  have t: "MACH_MSG_TYPE_PORT_SEND = MACH_MSG_TYPE_PORT_SEND \<and> MACH_PORT_TYPE_SEND = MACH_PORT_TYPE_SEND \<or>
      MACH_MSG_TYPE_PORT_SEND = MACH_MSG_TYPE_PORT_SEND_ONCE \<and> MACH_PORT_TYPE_SEND = MACH_PORT_TYPE_SEND_ONCE"
    by (simp only: refl simp_thms)
  have "\<exists>res s'. ipc_object_copyout env0 state1 64 MACH_MSG_TYPE_PORT_SEND False = Some (res, s') \<and> rights_inv s' \<and>
      sends_out s' 64 = sends_out state1 64 - of_bool (\<exists>n. res = Inr n) \<and>
      (\<forall>n. res = Inr n \<longrightarrow> names_port 64 (caps s' n))"
    using object_copyout_conserves [OF state1_facts(1) act state0_ready(3,5) t, of False]
  proof (elim exE conjE)
    fix res s'
    assume r: "ipc_object_copyout env0 state1 64 MACH_MSG_TYPE_PORT_SEND False = Some (res, s')" "rights_inv s'"
    assume p: "\<forall>p. ip_active (st_port s' p) = ip_active (st_port state1 p) \<and>
       refs_out s' p = refs_out state1 p - of_bool (p = 64 \<and> (\<exists>n. res = Inr n)) \<and>
       (ip_active (st_port state1 p) \<longrightarrow>
         sends_out s' p = sends_out state1 p - of_bool (p = 64 \<and> MACH_PORT_TYPE_SEND = MACH_PORT_TYPE_SEND \<and> (\<exists>n. res = Inr n)) \<and>
         onces_out s' p = onces_out state1 p - of_bool (p = 64 \<and> MACH_PORT_TYPE_SEND = MACH_PORT_TYPE_SEND_ONCE \<and> (\<exists>n. res = Inr n)))"
    have "sends_out s' 64 = sends_out state1 64 - of_bool (\<exists>n. res = Inr n)" using p on by simp
    moreover assume "case res of
       Inr n \<Rightarrow> (\<forall>m. m \<noteq> n \<longrightarrow> caps s' m = caps state1 m) \<and> ip_active (st_port state1 64) \<and>
         (if MACH_PORT_TYPE_SEND = MACH_PORT_TYPE_SEND
          then names_port 64 (caps s' n) \<and> (\<forall>m. names_port 64 (caps state1 m) \<longrightarrow> m = n) \<and>
            (caps state1 n = None \<or> names_port 64 (caps state1 n))
          else holds MACH_PORT_TYPE_SEND_ONCE 64 (caps s' n) \<and> caps state1 n = None)
     | Inl kr \<Rightarrow> caps s' = caps state1 \<and>
         (kr = KERN_INVALID_CAPABILITY \<and> \<not> ip_active (st_port state1 64) \<or>
          kr = KERN_UREFS_OVERFLOW \<and> \<not> False \<and> MACH_PORT_TYPE_SEND = MACH_PORT_TYPE_SEND)"
    then have "names_port 64 (caps s' n)" if "res = Inr n" for n using that by (simp only: sum.case if_P [OF refl])
    ultimately show ?thesis using r by blast
  qed
  then obtain res s' where s': "ipc_object_copyout env0 state1 64 MACH_MSG_TYPE_PORT_SEND False = Some (res, s')" "rights_inv s'"
    "sends_out s' 64 = sends_out state1 64 - of_bool (\<exists>n. res = Inr n)" "\<forall>n. res = Inr n \<longrightarrow> names_port 64 (caps s' n)"
    by blast
  have "fst (the (ipc_object_copyout env0 state1 64 MACH_MSG_TYPE_PORT_SEND False)) = Inr 0x103" by code_simp
  then have "res = Inr 0x103" using s'(1) by simp
  then show ?thesis using s' state1_facts(5) by simp
qed

end
