(* ===== verification/Mach_Port.thy ===== *)
theory Mach_Port
  imports Ipc_Object
begin

section \<open>The port calls\<close>

text \<open>
  \<open>ipc/mach_port.c\<close>: the kernel calls on the rights of a space.  A call gets a pointer to the space,
  \<open>IS_NULL\<close> when \<open>is_self\<close> is 0.  A result \<open>Inl\<close> is a return code other than
  \<open>KERN_SUCCESS\<close>, \<open>None\<close> a panic or a loop without end.  The lists of names a call returns are what
  it writes into the memory that it copies out; of that memory only the amount is modelled.
\<close>

definition IS_NULL :: "ipc_state \<Rightarrow> bool" where
  "IS_NULL s \<longleftrightarrow> is_self (st_space s) = NULL"

subsection \<open>Types and references\<close>

definition mach_port_type ::
  "ipc_state \<Rightarrow> mach_port_t \<Rightarrow> ((kern_return_t + mach_port_type_t) \<times> ipc_state) option" where
  "mach_port_type s name =
     (if IS_NULL s then Some (Inl KERN_INVALID_TASK, s)
      else case ipc_right_lookup_write s name of
             (Inl kr, s) \<Rightarrow> Some (Inl kr, s)
           | (Inr entry, s) \<Rightarrow> map_option (\<lambda>((type, _), s). (Inr type, s)) (ipc_right_info s name entry))"

definition mach_port_rename ::
  "ipc_env \<Rightarrow> ipc_state \<Rightarrow> mach_port_t \<Rightarrow> mach_port_t \<Rightarrow> (kern_return_t \<times> ipc_state) option" where
  "mach_port_rename env s oname nname =
     (if IS_NULL s then Some (KERN_INVALID_TASK, s)
      else if \<not> MACH_PORT_VALID nname then Some (KERN_INVALID_VALUE, s)
      else ipc_object_rename env s oname nname)"

definition mach_port_destroy :: "ipc_env \<Rightarrow> ipc_state \<Rightarrow> mach_port_t \<Rightarrow> (kern_return_t \<times> ipc_state) option" where
  "mach_port_destroy env s name =
     (if IS_NULL s then Some (KERN_INVALID_TASK, s)
      else case ipc_right_lookup_write s name of
             (Inl kr, s) \<Rightarrow> Some (kr, s)
           | (Inr entry, s) \<Rightarrow> map_option (Pair KERN_SUCCESS) (ipc_right_destroy env s name entry))"

definition mach_port_deallocate :: "ipc_env \<Rightarrow> ipc_state \<Rightarrow> mach_port_t \<Rightarrow> (kern_return_t \<times> ipc_state) option" where
  "mach_port_deallocate env s name =
     (if IS_NULL s then Some (KERN_INVALID_TASK, s)
      else case ipc_right_lookup_write s name of
             (Inl kr, s) \<Rightarrow> Some (kr, s)
           | (Inr entry, s) \<Rightarrow> ipc_right_dealloc env s name entry)"

definition mach_port_get_refs ::
  "ipc_state \<Rightarrow> mach_port_t \<Rightarrow> mach_port_right_t \<Rightarrow> ((kern_return_t + mach_port_urefs_t) \<times> ipc_state) option" where
  "mach_port_get_refs s name right =
     (if IS_NULL s then Some (Inl KERN_INVALID_TASK, s)
      else if right \<ge> MACH_PORT_RIGHT_NUMBER then Some (Inl KERN_INVALID_VALUE, s)
      else case ipc_right_lookup_write s name of
             (Inl kr, s) \<Rightarrow> Some (Inl kr, s)
           | (Inr entry, s) \<Rightarrow>
               do {
                 ((type, urefs), s) \<leftarrow> ipc_right_info s name entry;
                 Some (Inr (if type AND MACH_PORT_TYPE right = 0 then 0
                            else if right = MACH_PORT_RIGHT_DEAD_NAME \<or> right = MACH_PORT_RIGHT_SEND then urefs
                            else 1), s)
               })"

definition mach_port_mod_refs ::
  "ipc_env \<Rightarrow> ipc_state \<Rightarrow> mach_port_t \<Rightarrow> mach_port_right_t \<Rightarrow> mach_port_delta_t \<Rightarrow>
   (kern_return_t \<times> ipc_state) option" where
  "mach_port_mod_refs env s name right delta =
     (if IS_NULL s then Some (KERN_INVALID_TASK, s)
      else if right \<ge> MACH_PORT_RIGHT_NUMBER then Some (KERN_INVALID_VALUE, s)
      else case ipc_right_lookup_write s name of
             (Inl kr, s) \<Rightarrow> Some (kr, s)
           | (Inr entry, s) \<Rightarrow> ipc_right_delta env s name entry right delta)"

subsection \<open>Allocating\<close>

record mach_port_qos =
  qos_name :: bool
  qos_rt :: bool

definition qos_template :: mach_port_qos where
  "qos_template = \<lparr>qos_name = False, qos_rt = False\<rparr>"

text \<open>
  The result on success is the name left in \<open>*namep\<close>.  A named allocation leaves the given one.
  A port's subsystem is known by the address of the subsystem (\<open>SUBSYSTEM_NULL\<close> is 0).
\<close>

definition set_subsystem :: "addr \<Rightarrow> addr \<Rightarrow> ipc_heap \<Rightarrow> ipc_heap" where
  "set_subsystem subsystem port h =
     (if subsystem \<noteq> NULL
      then call (Subsystem_Reference subsystem) (set_port port (\<lambda>p. p\<lparr>ip_subsystem := subsystem\<rparr>) h) else h)"

definition allocate_receive ::
  "ipc_env \<Rightarrow> ipc_state \<Rightarrow> addr \<Rightarrow> mach_port_qos \<Rightarrow> mach_port_t \<Rightarrow>
   ((kern_return_t + mach_port_t) \<times> ipc_state) option" where
  "allocate_receive env s subsystem qos name =
     do {
       (res, s) \<leftarrow> (if qos_name qos
                   then map_option (\<lambda>(res, s). (map_sum id (Pair name) res, s)) (ipc_port_alloc_name env s name)
                   else ipc_port_alloc env s);
       Some (case res of
               Inl kr \<Rightarrow> (Inl kr, s)
             | Inr (name, port) \<Rightarrow> (Inr name, on_heap (set_subsystem subsystem port) s))
     }"

definition mach_port_allocate_full ::
  "ipc_env \<Rightarrow> ipc_state \<Rightarrow> mach_port_right_t \<Rightarrow> addr \<Rightarrow> mach_port_qos \<Rightarrow> mach_port_t \<Rightarrow>
   ((kern_return_t + mach_port_t) \<times> ipc_state) option" where
  "mach_port_allocate_full env s right subsystem qos name =
     (if IS_NULL s then Some (Inl KERN_INVALID_TASK, s)
      else if qos_name qos \<and> \<not> MACH_PORT_VALID name then Some (Inl KERN_INVALID_VALUE, s)
      else if qos_name qos \<and> is_fast (st_space s) then Some (Inl KERN_FAILURE, s)
      else if subsystem \<noteq> NULL \<and> right \<noteq> MACH_PORT_RIGHT_RECEIVE then Some (Inl KERN_INVALID_VALUE, s)
      else if qos_rt qos then Some (Inl KERN_INVALID_ARGUMENT, s)
      else if right = MACH_PORT_RIGHT_RECEIVE then allocate_receive env s subsystem qos name
      else if right = MACH_PORT_RIGHT_PORT_SET then
        (if qos_name qos
         then map_option (\<lambda>(res, s). (map_sum id (\<lambda>_. name) res, s)) (ipc_pset_alloc_name env s name)
         else map_option (\<lambda>(res, s). (map_sum id fst res, s)) (ipc_pset_alloc env s))
      else if right = MACH_PORT_RIGHT_DEAD_NAME then ipc_object_alloc_dead env s
      else Some (Inl KERN_INVALID_VALUE, s))"

definition mach_port_allocate_name ::
  "ipc_env \<Rightarrow> ipc_state \<Rightarrow> mach_port_right_t \<Rightarrow> mach_port_t \<Rightarrow> (kern_return_t \<times> ipc_state) option" where
  "mach_port_allocate_name env s right name =
     map_option (\<lambda>(res, s). (case res of Inl kr \<Rightarrow> kr | Inr _ \<Rightarrow> KERN_SUCCESS, s))
       (mach_port_allocate_full env s right NULL (qos_template\<lparr>qos_name := True\<rparr>) name)"

definition mach_port_allocate ::
  "ipc_env \<Rightarrow> ipc_state \<Rightarrow> mach_port_right_t \<Rightarrow> mach_port_t \<Rightarrow> ((kern_return_t + mach_port_t) \<times> ipc_state) option" where
  "mach_port_allocate env s right name = mach_port_allocate_full env s right NULL qos_template name"

definition mach_port_allocate_qos ::
  "ipc_env \<Rightarrow> ipc_state \<Rightarrow> mach_port_right_t \<Rightarrow> mach_port_qos \<Rightarrow> mach_port_t \<Rightarrow>
   ((kern_return_t + mach_port_t) \<times> ipc_state) option" where
  "mach_port_allocate_qos env s right qos name = mach_port_allocate_full env s right NULL qos name"

definition mach_port_allocate_subsystem ::
  "ipc_env \<Rightarrow> ipc_state \<Rightarrow> addr \<Rightarrow> mach_port_t \<Rightarrow> ((kern_return_t + mach_port_t) \<times> ipc_state) option" where
  "mach_port_allocate_subsystem env s subsystem name =
     mach_port_allocate_full env s MACH_PORT_RIGHT_RECEIVE subsystem qos_template name"

subsection \<open>Receive rights and port sets\<close>

definition translate_receive :: "ipc_state \<Rightarrow> mach_port_t \<Rightarrow> (kern_return_t + addr) \<times> ipc_state" where
  "translate_receive s name = ipc_object_translate s name MACH_PORT_RIGHT_RECEIVE"

definition mach_port_set_mscount ::
  "ipc_state \<Rightarrow> mach_port_t \<Rightarrow> mach_port_mscount_t \<Rightarrow> kern_return_t \<times> ipc_state" where
  "mach_port_set_mscount s name mscount =
     (if IS_NULL s then (KERN_INVALID_TASK, s)
      else case translate_receive s name of
             (Inl kr, s) \<Rightarrow> (kr, s)
           | (Inr port, s) \<Rightarrow> (KERN_SUCCESS, on_heap (ipc_port_set_mscount port mscount) s))"

definition mach_port_set_seqno ::
  "ipc_state \<Rightarrow> mach_port_t \<Rightarrow> mach_port_seqno_t \<Rightarrow> kern_return_t \<times> ipc_state" where
  "mach_port_set_seqno s name seqno =
     (if IS_NULL s then (KERN_INVALID_TASK, s)
      else case translate_receive s name of
             (Inl kr, s) \<Rightarrow> (kr, s)
           | (Inr port, s) \<Rightarrow> (KERN_SUCCESS, on_heap (\<lambda>h. ipc_port_set_seqno h port seqno) s))"

definition mach_port_move_member ::
  "ipc_state \<Rightarrow> mach_port_t \<Rightarrow> mach_port_t \<Rightarrow> kern_return_t \<times> ipc_state" where
  "mach_port_move_member s member after =
     (if IS_NULL s then (KERN_INVALID_TASK, s)
      else case ipc_right_lookup_write s member of
             (Inl kr, s) \<Rightarrow> (kr, s)
           | (Inr entry, s) \<Rightarrow>
               if ie_bits (st_entry s entry) AND MACH_PORT_TYPE_RECEIVE = 0 then (KERN_INVALID_RIGHT, s)
               else
                 let port = ie_object (st_entry s entry);
                     move = (\<lambda>nset s. case ipc_pset_move port nset (st_heap s) of (kr, h) \<Rightarrow> (kr, s\<lparr>st_heap := h\<rparr>))
                 in if after = MACH_PORT_NULL then move NULL s
                    else case entry_lookup s after of
                           (None, s) \<Rightarrow> (KERN_INVALID_NAME, s)
                         | (Some entry, s) \<Rightarrow>
                             if ie_bits (st_entry s entry) AND MACH_PORT_TYPE_PORT_SET = 0
                             then (KERN_INVALID_RIGHT, s)
                             else move (ie_object (st_entry s entry)) s)"

subsection \<open>Notifications\<close>

type_synonym mach_msg_id_t = natural_t

definition MACH_NOTIFY_PORT_DESTROYED :: mach_msg_id_t where
  "MACH_NOTIFY_PORT_DESTROYED = 69"
definition MACH_NOTIFY_NO_SENDERS :: mach_msg_id_t where
  "MACH_NOTIFY_NO_SENDERS = 70"
definition MACH_NOTIFY_DEAD_NAME :: mach_msg_id_t where
  "MACH_NOTIFY_DEAD_NAME = 72"

text \<open>On success the result is the previous request.\<close>

definition mach_port_request_notification ::
  "ipc_env \<Rightarrow> ipc_state \<Rightarrow> mach_port_t \<Rightarrow> mach_msg_id_t \<Rightarrow> mach_port_mscount_t \<Rightarrow> addr \<Rightarrow>
   ((kern_return_t + addr) \<times> ipc_state) option" where
  "mach_port_request_notification env s name msgid sync notify =
     (if IS_NULL s then Some (Inl KERN_INVALID_TASK, s)
      else if notify = IP_DEAD then Some (Inl KERN_INVALID_CAPABILITY, s)
      else if msgid = MACH_NOTIFY_PORT_DESTROYED then
        Some (if sync \<noteq> 0 then (Inl KERN_INVALID_VALUE, s)
              else case translate_receive s name of
                     (Inl kr, s) \<Rightarrow> (Inl kr, s)
                   | (Inr port, s) \<Rightarrow>
                       (case ipc_port_pdrequest (st_heap s) port notify of
                          (previous, h) \<Rightarrow> (Inr previous, s\<lparr>st_heap := h\<rparr>)))
      else if msgid = MACH_NOTIFY_NO_SENDERS then
        Some (case translate_receive s name of
                (Inl kr, s) \<Rightarrow> (Inl kr, s)
              | (Inr port, s) \<Rightarrow>
                  if ip_bits (st_port s port) AND IP_BIT_NMS = 0 then (Inl KERN_INVALID_RIGHT, s)
                  else case ipc_port_nsrequest (st_heap s) port sync notify of
                         (previous, h) \<Rightarrow> (Inr previous, s\<lparr>st_heap := h\<rparr>))
      else if msgid = MACH_NOTIFY_DEAD_NAME then ipc_right_dnrequest env s name (sync \<noteq> 0) notify
      else Some (Inl KERN_INVALID_VALUE, s))"

subsection \<open>Inserting and extracting rights\<close>

definition MACH_MSG_TYPE_PORT_ANY :: "mach_msg_type_name_t \<Rightarrow> bool" where
  "MACH_MSG_TYPE_PORT_ANY x \<longleftrightarrow> MACH_MSG_TYPE_MOVE_RECEIVE \<le> x \<and> x \<le> MACH_MSG_TYPE_MAKE_SEND_ONCE"

definition MACH_MSG_TYPE_PORT_ANY_RIGHT :: "mach_msg_type_name_t \<Rightarrow> bool" where
  "MACH_MSG_TYPE_PORT_ANY_RIGHT x \<longleftrightarrow> MACH_MSG_TYPE_MOVE_RECEIVE \<le> x \<and> x \<le> MACH_MSG_TYPE_MOVE_SEND_ONCE"

definition mach_port_insert_right ::
  "ipc_env \<Rightarrow> ipc_state \<Rightarrow> mach_port_t \<Rightarrow> addr \<Rightarrow> mach_msg_type_name_t \<Rightarrow> (kern_return_t \<times> ipc_state) option" where
  "mach_port_insert_right env s name poly polyPoly =
     (if IS_NULL s then Some (KERN_INVALID_TASK, s)
      else if \<not> MACH_PORT_VALID name \<or> \<not> MACH_MSG_TYPE_PORT_ANY_RIGHT polyPoly then Some (KERN_INVALID_VALUE, s)
      else if \<not> IP_VALID poly then Some (KERN_INVALID_CAPABILITY, s)
      else ipc_object_copyout_name env s poly polyPoly False name)"

definition mach_port_extract_right ::
  "ipc_env \<Rightarrow> ipc_state \<Rightarrow> mach_port_t \<Rightarrow> mach_msg_type_name_t \<Rightarrow>
   ((kern_return_t + addr \<times> mach_msg_type_name_t) \<times> ipc_state) option" where
  "mach_port_extract_right env s name msgt_name =
     (if IS_NULL s then Some (Inl KERN_INVALID_TASK, s)
      else if \<not> MACH_MSG_TYPE_PORT_ANY msgt_name then Some (Inl KERN_INVALID_VALUE, s)
      else do {
        (res, s) \<leftarrow> ipc_object_copyin env s name msgt_name;
        case res of
          Inl kr \<Rightarrow> Some (Inl kr, s)
        | Inr poly \<Rightarrow> map_option (\<lambda>polyPoly. (Inr (poly, polyPoly), s)) (ipc_object_copyin_type msgt_name)
      })"

subsection \<open>Attributes\<close>

definition MACH_PORT_QLIMIT_MAX :: mach_port_msgcount_t where
  "MACH_PORT_QLIMIT_MAX = 16"

definition MACH_PORT_LIMITS_INFO :: int where
  "MACH_PORT_LIMITS_INFO = 1"
definition MACH_PORT_RECEIVE_STATUS :: int where
  "MACH_PORT_RECEIVE_STATUS = 2"
definition MACH_PORT_DNREQUESTS_SIZE :: int where
  "MACH_PORT_DNREQUESTS_SIZE = 3"
definition MACH_PORT_LIMITS_INFO_COUNT :: natural_t where
  "MACH_PORT_LIMITS_INFO_COUNT = 1"
definition MACH_PORT_RECEIVE_STATUS_COUNT :: natural_t where
  "MACH_PORT_RECEIVE_STATUS_COUNT = 10"
definition MACH_PORT_DNREQUESTS_SIZE_COUNT :: natural_t where
  "MACH_PORT_DNREQUESTS_SIZE_COUNT = 1"

record mach_port_status =
  mps_pset :: mach_port_t
  mps_seqno :: mach_port_seqno_t
  mps_mscount :: mach_port_mscount_t
  mps_qlimit :: mach_port_msgcount_t
  mps_msgcount :: mach_port_msgcount_t
  mps_sorights :: mach_port_rights_t
  mps_srights :: bool
  mps_pdrequest :: bool
  mps_nsrequest :: bool
  mps_flags :: natural_t

datatype mach_port_info =
    Limits mach_port_msgcount_t
  | Status mach_port_status
  | Dnrequests nat

text \<open>The status of a receive right; a dead port set is forgotten on the way.\<close>

definition receive_status :: "addr \<Rightarrow> ipc_heap \<Rightarrow> mach_port_status \<times> ipc_heap" where
  "receive_status port h =
     (let pset = ip_pset (ports h port);
          (set_name, h) =
            (if pset = NULL then (MACH_PORT_NULL, h)
             else if \<not> ips_active (psets h pset) then (MACH_PORT_NULL, ips_check_unlock pset (ipc_pset_remove pset port h))
             else (ips_local_name (psets h pset), h));
          p = ports h port
      in (\<lparr>mps_pset = set_name, mps_seqno = ip_seqno p, mps_mscount = ip_mscount p, mps_qlimit = ip_qlimit p,
           mps_msgcount = ip_msgcount p, mps_sorights = ip_sorights p, mps_srights = 0 < ip_srights p,
           mps_pdrequest = ip_pdrequest p \<noteq> IP_NULL, mps_nsrequest = ip_nsrequest p \<noteq> IP_NULL,
           mps_flags = ip_flags p\<rparr>, h))"

text \<open>On success the result is the information and its size, which replaces \<open>*count\<close>.\<close>

definition mach_port_get_attributes ::
  "ipc_env \<Rightarrow> ipc_state \<Rightarrow> mach_port_t \<Rightarrow> int \<Rightarrow> natural_t \<Rightarrow>
   (kern_return_t + mach_port_info \<times> natural_t) \<times> ipc_state" where
  "mach_port_get_attributes env s name flavor cnt =
     (if IS_NULL s then (Inl KERN_INVALID_TASK, s)
      else if flavor = MACH_PORT_LIMITS_INFO then
        if cnt < MACH_PORT_LIMITS_INFO_COUNT then (Inl KERN_FAILURE, s)
        else case translate_receive s name of
               (Inl kr, s) \<Rightarrow> (Inl kr, s)
             | (Inr port, s) \<Rightarrow> (Inr (Limits (ip_qlimit (st_port s port)), MACH_PORT_LIMITS_INFO_COUNT), s)
      else if flavor = MACH_PORT_RECEIVE_STATUS then
        if cnt < MACH_PORT_RECEIVE_STATUS_COUNT then (Inl KERN_FAILURE, s)
        else case translate_receive s name of
               (Inl kr, s) \<Rightarrow> (Inl kr, s)
             | (Inr port, s) \<Rightarrow>
                 (case receive_status port (st_heap s) of
                    (status, h) \<Rightarrow> (Inr (Status status, MACH_PORT_RECEIVE_STATUS_COUNT), s\<lparr>st_heap := h\<rparr>))
      else if flavor = MACH_PORT_DNREQUESTS_SIZE then
        if cnt < MACH_PORT_DNREQUESTS_SIZE_COUNT then (Inl KERN_FAILURE, s)
        else case translate_receive s name of
               (Inl kr, s) \<Rightarrow> (Inl kr, s)
             | (Inr port, s) \<Rightarrow>
                 (Inr (Dnrequests (case ip_dnrequests (st_port s port) of
                                     None \<Rightarrow> 0 | Some t \<Rightarrow> env_dnits (env_port env) ! ipr_size t),
                       MACH_PORT_DNREQUESTS_SIZE_COUNT), s)
      else (Inl KERN_INVALID_ARGUMENT, s))"

text \<open>\<open>info\<close> is the first word of the information: the queue limit, or the size of the table.\<close>

definition mach_port_set_attributes ::
  "ipc_env \<Rightarrow> ipc_state \<Rightarrow> mach_port_t \<Rightarrow> int \<Rightarrow> natural_t \<Rightarrow> natural_t \<Rightarrow> kern_return_t \<times> ipc_state" where
  "mach_port_set_attributes env s name flavor info cnt =
     (if IS_NULL s then (KERN_INVALID_TASK, s)
      else if flavor = MACH_PORT_LIMITS_INFO then
        if cnt < MACH_PORT_LIMITS_INFO_COUNT then (KERN_FAILURE, s)
        else if info > MACH_PORT_QLIMIT_MAX then (KERN_INVALID_VALUE, s)
        else case translate_receive s name of
               (Inl kr, s) \<Rightarrow> (kr, s)
             | (Inr port, s) \<Rightarrow> (KERN_SUCCESS, on_heap (\<lambda>h. ipc_port_set_qlimit h port info) s)
      else if flavor = MACH_PORT_DNREQUESTS_SIZE then
        if cnt < MACH_PORT_DNREQUESTS_SIZE_COUNT then (KERN_FAILURE, s)
        else case translate_receive s name of
               (Inl kr, s) \<Rightarrow> (kr, s)
             | (Inr port, s) \<Rightarrow>
                 (case ipc_port_dngrow (env_port env) (st_heap s) port info of
                    (kr, h) \<Rightarrow> (kr, s\<lparr>st_heap := h\<rparr>))
      else (KERN_INVALID_ARGUMENT, s))"

subsection \<open>Listing names\<close>

definition mach_port_names_helper ::
  "ipc_port_timestamp_t \<Rightarrow> ipc_heap \<Rightarrow> ipc_entry \<Rightarrow> mach_port_t \<Rightarrow> (mach_port_t \<times> mach_port_type_t) list \<Rightarrow>
   (mach_port_t \<times> mach_port_type_t) list" where
  "mach_port_names_helper timestamp h entry name out =
     (let bits = ie_bits entry; request = ie_request entry;
          p = ports h (ie_object entry);
          died = (bits AND MACH_PORT_TYPE_SEND_RIGHTS \<noteq> 0 \<and> \<not> ip_active p \<and>
                  IP_TIMESTAMP_ORDER (ip_timestamp p) timestamp);
          bits' = (if died then let bits = (bits AND NOT IE_BITS_TYPE_MASK) OR MACH_PORT_TYPE_DEAD_NAME
                                in if request \<noteq> 0 then bits + 1 else bits
                   else bits);
          request = (if died then 0 else request);
          type = IE_BITS_TYPE bits'
      in out @ [(name, if request \<noteq> 0 then type OR MACH_PORT_TYPE_DNREQUEST else type)])"

text \<open>\<open>PAGE_MASK\<close> is the page size, a power of two, less one.  The sum wraps around at the end of the addresses.\<close>

definition round_page :: "ipc_env \<Rightarrow> natural_t \<Rightarrow> natural_t" where
  "round_page env x = (x + (env_page env - 1)) AND NOT (env_page env - 1)"

text \<open>
  The loop that makes room for the names, with the space unlocked while it allocates: on success the
  size, with which the listing continues without a break.  A \<open>mach_port_t\<close> has four bytes.
\<close>

definition names_bound :: "ipc_space \<Rightarrow> natural_t" where
  "names_bound space = of_nat (is_table_size space) + is_tree_total space"

fun names_memory ::
  "nat \<Rightarrow> ipc_env \<Rightarrow> natural_t \<Rightarrow> ipc_state \<Rightarrow> ((kern_return_t + natural_t) \<times> ipc_state) option" where
  "names_memory 0 env sz s = None"
| "names_memory (Suc fuel) env sz s =
     (if \<not> is_active (st_space s) then Some (Inl KERN_INVALID_TASK, s)
      else
        let size_needed = round_page env (names_bound (st_space s) * 4) in
        if size_needed \<le> sz then Some (Inr sz, s)
        else
          let s = env_running env s in
          if \<not> env_vm env size_needed then Some (Inl KERN_RESOURCE_SHORTAGE, s)
          else names_memory fuel env size_needed s)"

text \<open>The two loops, over the table and over the tree.\<close>

fun table_names ::
  "(ipc_entry \<Rightarrow> mach_port_t \<Rightarrow> 'a \<Rightarrow> 'a) \<Rightarrow> ipc_entry list \<Rightarrow> nat list \<Rightarrow> 'a \<Rightarrow> 'a" where
  "table_names helper table [] out = out"
| "table_names helper table (index # is) out =
     (let entry = table ! index; bits = ie_bits entry in
      table_names helper table is
        (if IE_BITS_TYPE bits \<noteq> MACH_PORT_TYPE_NONE
         then helper entry (MACH_PORT_MAKEB (of_nat index) bits) out else out))"

definition tree_names :: "(ipc_entry \<Rightarrow> mach_port_t \<Rightarrow> 'a \<Rightarrow> 'a) \<Rightarrow> 'a \<Rightarrow> mach_port_t \<times> ipc_entry \<Rightarrow> 'a \<times> bool" where
  "tree_names helper out x = (helper (snd x) (fst x) out, False)"

definition mach_port_names ::
  "ipc_env \<Rightarrow> ipc_state \<Rightarrow> ((kern_return_t + (mach_port_t \<times> mach_port_type_t) list) \<times> ipc_state) option" where
  "mach_port_names env s =
     (if IS_NULL s then Some (Inl KERN_INVALID_TASK, s)
      else do {
        (res, s) \<leftarrow> names_memory (env_fuel env) env 0 s;
        case res of
          Inl kr \<Rightarrow> Some (Inl kr, s)
        | Inr _ \<Rightarrow>
            do {
              let (timestamp, h) = ipc_port_timestamp (st_heap s);
              let space = st_space s;
              let helper = mach_port_names_helper timestamp h;
              let out = table_names helper (is_table space) [0 ..< is_table_size space] [];
              (out, tree) \<leftarrow> ipc_splay_traverse (tree_names helper) out (is_tree space);
              Some (Inr out, s\<lparr>st_space := space\<lparr>is_tree := tree\<rparr>, st_heap := h\<rparr>)
            }
      })"

text \<open>The array has \<open>maxnames\<close> places; \<open>actual\<close> counts the members beyond it too.\<close>

definition mach_port_gst_helper ::
  "addr \<Rightarrow> ipc_heap \<Rightarrow> natural_t \<Rightarrow> ipc_entry \<Rightarrow> mach_port_t \<Rightarrow> mach_port_t list \<times> natural_t \<Rightarrow>
   mach_port_t list \<times> natural_t" where
  "mach_port_gst_helper pset h maxnames entry _ out =
     (if ie_bits entry AND MACH_PORT_TYPE_RECEIVE = 0 then out
      else
        let p = ports h (ie_object entry); (names, actual) = out in
        if pset = ip_pset p
        then (if actual < maxnames then names @ [ip_receiver_name p] else names, actual + 1)
        else out)"

fun set_status_loop ::
  "nat \<Rightarrow> ipc_env \<Rightarrow> natural_t \<Rightarrow> ipc_state \<Rightarrow> mach_port_t \<Rightarrow> ((kern_return_t + mach_port_t list) \<times> ipc_state) option" where
  "set_status_loop 0 env sz s name = None"
| "set_status_loop (Suc fuel) env sz s name =
     (if \<not> env_vm env sz then Some (Inl KERN_RESOURCE_SHORTAGE, s)
      else case ipc_right_lookup_write s name of
             (Inl kr, s) \<Rightarrow> Some (Inl kr, s)
           | (Inr entry, s) \<Rightarrow>
               if IE_BITS_TYPE (ie_bits (st_entry s entry)) \<noteq> MACH_PORT_TYPE_PORT_SET
               then Some (Inl KERN_INVALID_RIGHT, s)
               else do {
                 let pset = ie_object (st_entry s entry);
                 let maxnames = sz div 4;
                 let space = st_space s;
                 let helper = mach_port_gst_helper pset (st_heap s) maxnames;
                 let out = table_names helper (is_table space) [0 ..< is_table_size space] ([], 0);
                 ((names, actual), tree) \<leftarrow> ipc_splay_traverse (tree_names helper) out (is_tree space);
                 let s = s\<lparr>st_space := space\<lparr>is_tree := tree\<rparr>\<rparr>;
                 if actual \<le> maxnames then Some (Inr names, s)
                 else set_status_loop fuel env (round_page env (actual * 4) + env_page env) (env_running env s) name
               })"

definition mach_port_get_set_status ::
  "ipc_env \<Rightarrow> ipc_state \<Rightarrow> mach_port_t \<Rightarrow> ((kern_return_t + mach_port_t list) \<times> ipc_state) option" where
  "mach_port_get_set_status env s name =
     (if IS_NULL s then Some (Inl KERN_INVALID_TASK, s)
      else set_status_loop (env_fuel env) env (env_page env) s name)"

end
