(* ===== verification/Right_Delta.thy ===== *)
theory Right_Delta
  imports Right_Copyout Mach_Port
begin

section \<open>Giving up user references\<close>

text \<open>
  \<open>ipc_right_dealloc\<close> and \<open>ipc_right_delta\<close>, called by \<open>mach_port_deallocate\<close> and
  \<open>mach_port_mod_refs\<close>: the steps they share, on a space that satisfies the invariant.
\<close>

text \<open>What is said of an entry that ends with the capability \<open>c\<close>: the books balance up to \<open>d\<close>.\<close>

definition dropped :: "ipc_state \<Rightarrow> mach_port_t \<Rightarrow> capability option \<Rightarrow> ipc_state option \<Rightarrow> bool" where
  "dropped s0 name c x \<longleftrightarrow> (\<exists>s'. x = Some s' \<and> put s0 name c (\<lambda>_ _. 0) s')"

lemma bill_zero: "bill port t 0 = (\<lambda>_ _. 0)"
  by (simp add: bill_def fun_eq_iff)

lemma put_ports: "put s0 name c d s \<Longrightarrow> ports h = ports (st_heap s) \<Longrightarrow> put s0 name c d (s\<lparr>st_heap := h\<rparr>)"
  using tidy_ports [of h "st_heap s"] by (simp add: put_def accounted_def)

lemma put_call:
  assumes "put s0 name c d s" "\<And>h. ports (f h) = ports h"
  shows "put s0 name c d (on_heap f s)"
  using put_ports [OF assms(1), of "f (st_heap s)"] assms(2) by (simp add: on_heap_def)

lemma notify_dropped_ports [simp]: "ports (notify_dropped ns dn name h) = ports h"
  by (simp add: notify_dropped_def Let_def)

text \<open>Changing the count of a right that stays.\<close>

lemma set_urefs:
  assumes inv: "rights_inv s0" and pr: "present s0 name entry s" and cap: "caps s0 name = Some (cap e0)"
    and e: "e = st_entry s entry" "type_of e0 = type_of e" "ie_object e0 = ie_object e"
    and st: "steady (st_heap s0) (st_heap s)" "booked (ie_object e) 0 0 0 (st_heap s0) (st_heap s)"
    and b: "IE_BITS_TYPE b = type_of e" "b AND NOT IE_BITS_RIGHT_MASK = ie_bits e AND NOT IE_BITS_RIGHT_MASK"
    and ok: "right_ok s0 name (cap (e\<lparr>ie_bits := b\<rparr>))"
  shows "put s0 name (Some (cap (e\<lparr>ie_bits := b\<rparr>))) (\<lambda>_ _. 0) (set_entry entry (\<lambda>e. e\<lparr>ie_bits := b\<rparr>) s)"
proof -
  let ?v = "\<lambda>e. e\<lparr>ie_bits := b\<rparr>"
  have sl: "same_slot (st_entry s entry) (?v (st_entry s entry))" using b(2) e(1) by (simp add: same_slot_def)
  from present_set [OF pr, of ?v, OF sl] have p: "present s0 name entry (set_entry entry ?v s)"
    "st_entry (set_entry entry ?v s) entry = ?v e"
    using b(1) e(1) by simp_all
  have c: "closed s0 name (Some (cap (?v e))) (set_entry entry ?v s)" using present_closed [OF p(1)] p(2) by simp
  have "put s0 name (Some (cap (?v e))) (bill (ie_object e) 0 0) (set_entry entry ?v s)"
  proof (rule put_steady [OF inv c])
    show "right_ok s0 name x" if "Some (cap (?v e)) = Some x" for x using that ok by simp
  qed (use st e(2,3) b(1) in \<open>auto simp: cap cap_tests cap_of_cap\<close>)
  then show ?thesis by (simp add: bill_zero)
qed

text \<open>An entry that holds no right of a port goes.\<close>

lemma drop_entry:
  assumes inv: "rights_inv s0" and o: "opened s0 name entry s" and cap: "caps s0 name = Some (cap e0)"
    and st: "steady (st_heap s0) (st_heap s)" "booked (ie_object e0) a b k (st_heap s0) (st_heap s)"
    and e: "type_of e0 AND MACH_PORT_TYPE_RECEIVE = 0" "a = - of_bool (type_of e0 AND MACH_PORT_TYPE_SEND \<noteq> 0)"
      "b = - of_bool (type_of e0 AND MACH_PORT_TYPE_SEND_ONCE \<noteq> 0)" "k = - of_bool (type_of e0 AND MACH_PORT_TYPE_PORT_RIGHTS \<noteq> 0)"
  obtains s' where "entry_dealloc env name entry s = Some s'" "put s0 name None (\<lambda>_ _. 0) s'" "st_heap s' = st_heap s"
proof -
  obtain s' where d: "entry_dealloc env name entry s = Some s'" "closed s0 name None s'" "st_heap s' = st_heap s"
    by (rule opened_dealloc [OF o])
  have "put s0 name None (bill (ie_object e0) 0 0) s'"
    by (rule put_steady [OF inv d(2), where a = a and b = b and k = k])
      (use st d(3) e in \<open>auto simp: cap cap_tests cap_of_cap cap_of_def [of _ None]\<close>)
  then show ?thesis using that d(1,3) by (simp add: bill_zero)
qed

text \<open>The last reference of a send right: \<open>remove_send\<close>, after the count in the port has gone down.\<close>

lemma drop_send_moves:
  assumes "drop_send_st port s = (ns, s')"
  shows "st_space s' = st_space s" "st_hash s' = st_hash s" "steady (st_heap s) (st_heap s')"
    "booked port (- 1) 0 0 (st_heap s) (st_heap s')" "s' = s\<lparr>st_heap := st_heap s'\<rparr>"
  using assms
  by (auto simp: drop_send_st_def drop_send_def Let_def steady_def booked_def ip_active_def split: if_splits)

lemma remove_send_spec:
  assumes inv: "rights_inv s0" and pr: "present s0 name entry s" and cap: "caps s0 name = Some (cap e)"
    and e: "st_entry s entry = e" "type_of e = MACH_PORT_TYPE_SEND" "ie_object e = port"
    and st: "steady (st_heap s0) (st_heap s)" "booked port (- 1) 0 0 (st_heap s0) (st_heap s)"
  obtains dn s' where "remove_send env name entry port s = Some (dn, s')" "put s0 name None (\<lambda>_ _. 0) s'"
proof -
  obtain dn s1 where s1: "ipc_right_dncancel_macro port name entry s = (dn, s1)" "present s0 name entry s1"
    "steady (st_heap s) (st_heap s1)" "\<And>p. booked p 0 0 0 (st_heap s) (st_heap s1)" "st_entry s1 entry = e\<lparr>ie_request := 0\<rparr>"
    using dncancel_macro [of s0 name entry s port] pr e(1) by metis
  obtain s2 where s2: "hash_delete port name entry s1 = Some s2" "opened s0 name entry s2" "st_heap s2 = st_heap s1"
    using present_unhash [OF s1(2), of port] s1(5) e(2,3) by auto
  let ?u = "\<lambda>e. e\<lparr>ie_object := NULL\<rparr>"
  let ?s = "set_entry entry ?u (on_heap (ip_release port) s2)"
  have o: "opened s0 name entry ?s" using opened_set [of s0 name entry "on_heap (ip_release port) s2" ?u] s2(2) by (simp add: same_slot_def)
  have h: "steady (st_heap s0) (st_heap ?s)" "booked port (- 1) 0 (- 1) (st_heap s0) (st_heap ?s)"
    using st s1(3,4) reference_moves(3) [of "st_heap s1" port] reference_moves(4) [of port "st_heap s1"] by (auto simp: s2(3) steady_def booked_def)
  obtain s' where d: "entry_dealloc env name entry ?s = Some s'" "put s0 name None (\<lambda>_ _. 0) s'"
    by (rule drop_entry [OF inv o cap h(1), of "- 1" 0 "- 1" env]) (use h(2) e(2,3) in simp_all)
  show ?thesis by (rule that [OF _ d(2)]) (use s1(1) s2(1) d(1) in \<open>simp add: remove_send_def\<close>)
qed

text \<open>The send right of an entry with the receive right goes, the receive right stays.\<close>

lemma keep_receive:
  assumes inv: "rights_inv s0" and o: "opened s0 name entry s" and cap: "caps s0 name = Some (cap e)"
    and e: "st_entry s entry = e" "type_of e = MACH_PORT_TYPE_SEND_RECEIVE" "ie_object e = port"
    and st: "steady (st_heap s0) (st_heap s)" "booked port (- 1) 0 0 (st_heap s0) (st_heap s)"
    and b: "b = ie_bits e AND NOT (IE_BITS_UREFS_MASK OR MACH_PORT_TYPE_SEND)"
  shows "put s0 name (Some (cap (e\<lparr>ie_bits := b\<rparr>))) (\<lambda>_ _. 0) (set_entry entry (\<lambda>e. e\<lparr>ie_bits := b\<rparr>) s)"
    "type_of (e\<lparr>ie_bits := b\<rparr>) = MACH_PORT_TYPE_RECEIVE" "urefs_of b = 0"
proof -
  have m: "IE_BITS_TYPE b = MACH_PORT_TYPE_RECEIVE" "b AND NOT IE_BITS_RIGHT_MASK = ie_bits e AND NOT IE_BITS_RIGHT_MASK" "urefs_of b = 0"
    using cleared_bits [of "ie_bits e" MACH_PORT_TYPE_SEND MACH_PORT_TYPE_RECEIVE] e(2) by (simp_all add: b type_of_def)
  let ?v = "\<lambda>e. e\<lparr>ie_bits := b\<rparr>"
  have s: "opened s0 name entry (set_entry entry ?v s)" "st_entry (set_entry entry ?v s) entry = ?v e"
    using opened_set [OF o, of ?v] m(2) e(1) by (simp_all add: same_slot_def)
  have c: "closed s0 name (Some (cap (?v e))) (set_entry entry ?v s)" using opened_close [OF s(1)] s(2) m(1) by simp
  have ok: "right_ok s0 name (cap e)" by (rule rights_invD(3) [OF inv cap])
  have "put s0 name (Some (cap (?v e))) (bill port 0 0) (set_entry entry ?v s)"
  proof (rule put_steady [OF inv c])
    show "right_ok s0 name x" if "Some (cap (?v e)) = Some x" for x
      using that ok m e(2) by (auto simp: right_ok_cap right_types_def)
  qed (use st e(2,3) m(1) in \<open>auto simp: cap cap_tests cap_of_cap\<close>)
  then show "put s0 name (Some (cap (?v e))) (\<lambda>_ _. 0) (set_entry entry ?v s)" by (simp add: bill_zero)
  show "type_of (?v e) = MACH_PORT_TYPE_RECEIVE" "urefs_of b = 0" using m by simp_all
qed

text \<open>Dead names, and rights whose port has died.\<close>

definition user_refs :: "capability option \<Rightarrow> nat" where
  "user_refs c = (case c of None \<Rightarrow> 0 | Some (b, ob, r) \<Rightarrow> urefs_of b)"

lemma user_refs_simps [simp]: "user_refs None = 0" "user_refs (Some (cap e)) = urefs_of (ie_bits e)"
  by (simp_all add: user_refs_def cap_def urefs_of_def)

text \<open>The start of an operation on a dead name: a dead name of the space, or a right that just became one.\<close>

definition died_into :: "ipc_state \<Rightarrow> mach_port_t \<Rightarrow> ipc_entry_ptr \<Rightarrow> ipc_entry \<Rightarrow> ipc_state \<Rightarrow> bool" where
  "died_into s0 name entry e s \<longleftrightarrow> opened s0 name entry s \<and> caps s0 name = Some (cap e) \<and>
     type_of (st_entry s entry) = MACH_PORT_TYPE_DEAD_NAME \<and> ie_object (st_entry s entry) = NULL \<and>
     ie_request (st_entry s entry) = 0 \<and>
     (type_of e = MACH_PORT_TYPE_DEAD_NAME \<and> st_heap s = st_heap s0 \<and> urefs_of (ie_bits (st_entry s entry)) = urefs_of (ie_bits e) \<or>
      (type_of e = MACH_PORT_TYPE_SEND \<or> type_of e = MACH_PORT_TYPE_SEND_ONCE) \<and> \<not> ip_active (st_port s0 (ie_object e)) \<and>
      st_heap s = ipc_port_release (ie_object e) (st_heap s0) \<and>
      urefs_of (ie_bits (st_entry s entry)) = urefs_of (ie_bits e) + of_bool (ie_request e \<noteq> 0))"

lemma died_urefs: "rights_inv s0 \<Longrightarrow> died_into s0 name entry e s \<Longrightarrow> 0 < urefs_of (ie_bits (st_entry s entry))"
  using rights_invD(3) [of s0 name "cap e"] by (auto simp: died_into_def right_ok_cap)

lemma died_put:
  assumes inv: "rights_inv s0" and d: "died_into s0 name entry e s" and c: "closed s0 name c s'" and h: "st_heap s' = st_heap s"
    and cap: "c = None \<or> (\<exists>e'. c = Some (cap e') \<and> type_of e' = MACH_PORT_TYPE_DEAD_NAME \<and> ie_object e' = NULL \<and>
      ie_request e' = 0 \<and> 0 < urefs_of (ie_bits e'))"
  shows "put s0 name c (\<lambda>_ _. 0) s'"
proof -
  have k: "caps s0 name = Some (cap e)" and t: "type_of e = MACH_PORT_TYPE_DEAD_NAME \<and> st_heap s' = st_heap s0 \<or>
      (type_of e = MACH_PORT_TYPE_SEND \<or> type_of e = MACH_PORT_TYPE_SEND_ONCE) \<and> \<not> ip_active (st_port s0 (ie_object e)) \<and>
      st_heap s' = ipc_port_release (ie_object e) (st_heap s0)"
    using d h by (auto simp: died_into_def)
  have st: "steady (st_heap s0) (st_heap s')" using t reference_moves(5) [of "st_heap s0" "ie_object e"] by auto
  have "tidy s0 name c (st_heap s')"
  proof (rule tidy_steady [OF inv st])
    show "right_ok s0 name x" if "c = Some x" for x using that cap by (auto simp: right_ok_cap right_types_def)
    show "receive_cap p c" if "receive_cap p (caps s0 name)" for p using that t unfolding k cap_tests by auto
  qed
  moreover have none: "\<not> holds u p c" if "u = MACH_PORT_TYPE_PORT_RIGHTS \<or> u = MACH_PORT_TYPE_SEND \<or> u = MACH_PORT_TYPE_SEND_ONCE" for u p
    using that cap by (auto simp: cap_tests)
  have "accounted (\<lambda>_ _. 0) s0 name c (st_heap s')"
    using t reference_moves(6) [of "ie_object e" "st_heap s0"] none
    unfolding accounted_def k cap_tests by (auto simp: booked_def st_port_def)
  ultimately show ?thesis using c by (simp add: put_def)
qed

text \<open>Setting the count of a dead name, and removing it.\<close>

lemma died_set:
  assumes inv: "rights_inv s0" and d: "died_into s0 name entry e s"
    and b: "IE_BITS_TYPE b = MACH_PORT_TYPE_DEAD_NAME" "b AND NOT IE_BITS_RIGHT_MASK = ie_bits (st_entry s entry) AND NOT IE_BITS_RIGHT_MASK"
      "0 < urefs_of b"
  shows "\<exists>c. put s0 name c (\<lambda>_ _. 0) (set_entry entry (\<lambda>e. e\<lparr>ie_bits := b\<rparr>) s) \<and> user_refs c = urefs_of b"
proof -
  let ?v = "\<lambda>e. e\<lparr>ie_bits := b\<rparr>"
  let ?s = "set_entry entry ?v s"
  have f: "opened s0 name entry s" "ie_object (st_entry s entry) = NULL" "ie_request (st_entry s entry) = 0"
    using d by (simp_all add: died_into_def)
  have s: "opened s0 name entry ?s" "st_entry ?s entry = ?v (st_entry s entry)"
    using opened_set [OF f(1), of ?v] b(2) by (simp_all add: same_slot_def)
  have c: "closed s0 name (Some (cap (?v (st_entry s entry)))) ?s" using opened_close [OF s(1)] s(2) b(1) by simp
  have "put s0 name (Some (cap (?v (st_entry s entry)))) (\<lambda>_ _. 0) ?s"
    by (rule died_put [OF inv d c]) (use b f in auto)
  then show ?thesis by (intro exI [of _ "Some (cap (?v (st_entry s entry)))"]) simp
qed

lemma died_remove:
  assumes inv: "rights_inv s0" and d: "died_into s0 name entry e s"
  obtains s' where "entry_dealloc env name entry s = Some s'" "put s0 name None (\<lambda>_ _. 0) s'"
proof -
  have "opened s0 name entry s" using d by (simp add: died_into_def)
  then obtain s' where s': "entry_dealloc env name entry s = Some s'" "closed s0 name None s'" "st_heap s' = st_heap s"
    by (rule opened_dealloc)
  then show ?thesis using that died_put [OF inv d s'(2,3)] by blast
qed

lemma dealloc_dead_spec:
  assumes inv: "rights_inv s0" and d: "died_into s0 name entry e s"
  shows "\<exists>s' c. dealloc_dead_name env name entry s = Some s' \<and> put s0 name c (\<lambda>_ _. 0) s' \<and>
    user_refs c = urefs_of (ie_bits (st_entry s entry)) - 1"
proof (cases "urefs_of (ie_bits (st_entry s entry)) = 1")
  case True
  obtain s' where "entry_dealloc env name entry s = Some s'" "put s0 name None (\<lambda>_ _. 0) s'" by (rule died_remove [OF inv d])
  then show ?thesis using True by (intro exI [of _ s'] exI [of _ None]) (simp add: dealloc_dead_name_def urefs_one)
next
  case False
  let ?b = "ie_bits (st_entry s entry)"
  have u: "0 < urefs_of ?b" by (rule died_urefs [OF inv d])
  have "IE_BITS_TYPE ?b = MACH_PORT_TYPE_DEAD_NAME" using d by (simp add: died_into_def type_of_def)
  then have "\<exists>c. put s0 name c (\<lambda>_ _. 0) (set_entry entry (\<lambda>e. e\<lparr>ie_bits := ?b - 1\<rparr>) s) \<and> user_refs c = urefs_of (?b - 1)"
    using died_set [OF inv d, of "?b - 1"] urefs_down [OF u] u False by simp
  then show ?thesis using False urefs_down(2) [OF u] by (auto simp: dealloc_dead_name_def urefs_one)
qed

lemma check_died:
  assumes inv: "rights_inv s0" and ready: "ready s0 name entry s" and h: "st_heap s = st_heap s0"
    and e: "e = st_entry s entry" "type_of e AND MACH_PORT_TYPE_SEND_RIGHTS \<noteq> 0"
  shows "if ip_active (st_port s0 (ie_object e)) then ipc_right_check (ie_object e) name entry s = Some (False, s)
    else \<exists>s'. ipc_right_check (ie_object e) name entry s = Some (True, s') \<and> died_into s0 name entry e s'"
  using right_check_spec [OF inv ready h e refl] ready_cap [OF ready] e(1)
  by (auto simp: died_into_def split: if_splits)

lemma dead_ready:
  assumes "ready s0 name entry s" "rights_inv s0" "st_heap s = st_heap s0" "type_of (st_entry s entry) = MACH_PORT_TYPE_DEAD_NAME"
  shows "died_into s0 name entry (st_entry s entry) s"
proof -
  have "opened s0 name entry s" by (rule present_open [OF ready_present [OF assms(1)]]) (use assms(4) in simp)
  then show ?thesis
    using assms ready_cap [OF assms(1)] ready_right [OF assms(2,1)] by (auto simp: died_into_def right_ok_cap)
qed

text \<open>A send-once right is given up by a message to its port, which takes it along.\<close>

lemma dealloc_once_spec:
  assumes inv: "rights_inv s0" and ready: "ready s0 name entry s" and h: "st_heap s = st_heap s0"
    and e: "e = st_entry s entry" "ie_object e = port" "type_of e = MACH_PORT_TYPE_SEND_ONCE"
  obtains s' where "dealloc_send_once env name entry port s = Some s'" "put s0 name None (bill port MACH_PORT_TYPE_SEND_ONCE 1) s'"
    "Notify_Send_Once port \<in> set (calls (st_heap s'))"
proof -
  have cap: "caps s0 name = Some (cap e)" using ready_cap [OF ready] e(1) by simp
  have op: "opened s0 name entry s" by (rule present_open [OF ready_present [OF ready]]) (use e(1,3) in simp)
  obtain dn s1 where s1: "ipc_right_dncancel_macro port name entry s = (dn, s1)" "opened s0 name entry s1"
    "steady (st_heap s) (st_heap s1)" "\<And>p. booked p 0 0 0 (st_heap s) (st_heap s1)"
    using dncancel_macro [of s0 name entry s port] op by metis
  let ?s = "set_entry entry (\<lambda>e. e\<lparr>ie_object := NULL\<rparr>) s1"
  have "opened s0 name entry ?s" using opened_set [OF s1(2), of "\<lambda>e. e\<lparr>ie_object := NULL\<rparr>"] by (simp add: same_slot_def)
  then obtain s2 where s2: "entry_dealloc env name entry ?s = Some s2" "closed s0 name None s2" "st_heap s2 = st_heap s1"
    by (rule opened_dealloc [of s0 name entry ?s env]) simp
  have p: "put s0 name None (bill port MACH_PORT_TYPE_SEND_ONCE 1) s2"
    by (rule put_steady [OF inv s2(2), where a = 0 and b = 0 and k = 0])
      (use s1(3,4) s2(3) h e(2,3) in \<open>auto simp: cap cap_tests cap_of_cap cap_of_def [of _ None]\<close>)
  let ?f = "notify_dropped (IP_NULL, 0) dn name \<circ> call (Notify_Send_Once port)"
  have "put s0 name None (bill port MACH_PORT_TYPE_SEND_ONCE 1) (on_heap ?f s2)" by (rule put_call [OF p]) simp
  moreover have "dealloc_send_once env name entry port s = Some (on_heap ?f s2)"
    using s1(1) s2(1) by (simp add: dealloc_send_once_def)
  moreover have "Notify_Send_Once port \<in> set (calls (st_heap (on_heap ?f s2)))" by (simp add: notify_dropped_def Let_def)
  ultimately show ?thesis using that by blast
qed

subsection \<open>Deallocating\<close>

lemma last_send_dealloc:
  assumes inv: "rights_inv s0" and ready: "ready s0 name entry s" and h: "st_heap s = st_heap s0"
    and e: "e = st_entry s entry" "ie_object e = port" "type_of e = MACH_PORT_TYPE_SEND"
    and ns: "drop_send_st port s = (ns, s1)"
  obtains dn s2 where "remove_send env name entry port s1 = Some (dn, s2)" "put s0 name None (\<lambda>_ _. 0) s2"
proof -
  have cap: "caps s0 name = Some (cap e)" using ready_cap [OF ready] e(1) by simp
  note d = drop_send_moves [OF ns]
  have s1: "s1 = s\<lparr>st_heap := st_heap s1\<rparr>" by (rule d(5))
  have "present s0 name entry (s\<lparr>st_heap := st_heap s1\<rparr>)" using ready_present [OF ready] by simp
  then have pr: "present s0 name entry s1" using s1 by simp
  have at: "st_entry s1 entry = e" using d(1) e(1) by (simp add: st_entry_def)
  show ?thesis
    by (rule remove_send_spec [OF inv pr cap at e(3,2), of env]) (use d(3,4) h that in auto)
qed

lemma last_send_receive:
  assumes inv: "rights_inv s0" and ready: "ready s0 name entry s" and h: "st_heap s = st_heap s0"
    and e: "e = st_entry s entry" "ie_object e = port" "type_of e = MACH_PORT_TYPE_SEND_RECEIVE"
    and ns: "drop_send_st port s = (ns, s1)"
  shows "\<exists>c. put s0 name c (\<lambda>_ _. 0) (set_entry entry
      (\<lambda>e'. e'\<lparr>ie_bits := ie_bits e AND NOT (IE_BITS_UREFS_MASK OR MACH_PORT_TYPE_SEND)\<rparr>) s1) \<and> user_refs c = 0"
proof -
  have cap: "caps s0 name = Some (cap e)" using ready_cap [OF ready] e(1) by simp
  note d = drop_send_moves [OF ns]
  have "opened s0 name entry s" using present_open [OF ready_present [OF ready]] e(1,3) by simp
  then have "opened s0 name entry (s\<lparr>st_heap := st_heap s1\<rparr>)" by simp
  then have o: "opened s0 name entry s1" using d(5) by simp
  have at: "st_entry s1 entry = e" using d(1) e(1) by (simp add: st_entry_def)
  note k = keep_receive [OF inv o cap at e(3,2) _ _ refl]
  show ?thesis using k(1,3) d(3,4) h by (intro exI) auto
qed

lemma fewer_urefs:
  assumes inv: "rights_inv s0" and ready: "ready s0 name entry s" and h: "st_heap s = st_heap s0"
    and e: "e = st_entry s entry" "type_of e = MACH_PORT_TYPE_SEND \<or> type_of e = MACH_PORT_TYPE_SEND_RECEIVE"
    and b: "IE_BITS_TYPE b = type_of e" "b AND NOT IE_BITS_RIGHT_MASK = ie_bits e AND NOT IE_BITS_RIGHT_MASK"
      "0 < urefs_of b" "urefs_of b < 0xffff"
  shows "\<exists>c. put s0 name c (\<lambda>_ _. 0) (set_entry entry (\<lambda>e. e\<lparr>ie_bits := b\<rparr>) s) \<and> user_refs c = urefs_of b"
proof -
  have cap: "caps s0 name = Some (cap e)" using ready_cap [OF ready] e(1) by simp
  have "right_ok s0 name (cap e)" unfolding e(1) by (rule ready_right [OF inv ready])
  then have "right_ok s0 name (cap (e\<lparr>ie_bits := b\<rparr>))" using e(2) b by (auto simp: right_ok_cap)
  from set_urefs [OF inv ready_present [OF ready] cap e(1) refl refl _ _ b(1,2) this] show ?thesis
    using h by (intro exI [of _ "Some (cap (e\<lparr>ie_bits := b\<rparr>))"]) simp
qed

text \<open>What the message of a send-once right takes along.\<close>

definition once_out :: "ipc_state \<Rightarrow> ipc_entry \<Rightarrow> mach_port_type_t \<Rightarrow> addr \<Rightarrow> natural_t" where
  "once_out s0 e = bill (ie_object e) MACH_PORT_TYPE_SEND_ONCE
     (of_bool (type_of e = MACH_PORT_TYPE_SEND_ONCE \<and> ip_active (st_port s0 (ie_object e))))"

lemma right_dealloc_spec:
  assumes inv: "rights_inv s0" and ready: "ready s0 name entry s" and h: "st_heap s = st_heap s0" and e: "e = st_entry s entry"
  shows "\<exists>kr s' c. ipc_right_dealloc env s name entry = Some (kr, s') \<and> put s0 name c (once_out s0 e) s' \<and>
    (if type_of e = MACH_PORT_TYPE_RECEIVE \<or> type_of e = MACH_PORT_TYPE_PORT_SET then kr = KERN_INVALID_RIGHT \<and> c = caps s0 name
     else kr = KERN_SUCCESS \<and> user_refs c = urefs_of (ie_bits e) - 1 +
       of_bool (type_of e \<noteq> MACH_PORT_TYPE_DEAD_NAME \<and> \<not> ip_active (st_port s0 (ie_object e)) \<and> ie_request e \<noteq> 0))"
proof -
  define p where "p = ie_object e"
  have cap: "caps s0 name = Some (cap e)" using ready_cap [OF ready] e by simp
  have ok: "right_ok s0 name (cap e)" by (rule rights_invD(3) [OF inv cap])
  note defs = ipc_right_dealloc_def Let_def e [symmetric] type_of_def [symmetric] p_def [symmetric] once_out_def
  have dead_case: ?thesis
    if d: "died_into s0 name entry e s1" and once: "once_out s0 e = (\<lambda>_ _. 0)"
      and run: "ipc_right_dealloc env s name entry = map_option (Pair KERN_SUCCESS) (dealloc_dead_name env name entry s1)" for s1
  proof -
    obtain s' c where s': "dealloc_dead_name env name entry s1 = Some s'" "put s0 name c (\<lambda>_ _. 0) s'"
      "user_refs c = urefs_of (ie_bits (st_entry s1 entry)) - 1"
      using dealloc_dead_spec [OF inv d] by blast
    have u: "0 < urefs_of (ie_bits e)" using d ok by (auto simp: died_into_def right_ok_cap)
    have "user_refs c = urefs_of (ie_bits e) - 1 +
       of_bool (type_of e \<noteq> MACH_PORT_TYPE_DEAD_NAME \<and> \<not> ip_active (st_port s0 (ie_object e)) \<and> ie_request e \<noteq> 0)"
      using s'(3) d u by (auto simp: died_into_def)
    moreover have "type_of e \<noteq> MACH_PORT_TYPE_RECEIVE" "type_of e \<noteq> MACH_PORT_TYPE_PORT_SET" using d by (auto simp: died_into_def)
    ultimately show ?thesis using run s'(1,2) once by (intro exI [of _ KERN_SUCCESS] exI [of _ s'] exI [of _ c]) simp
  qed
  have gone_case: ?thesis if t: "type_of e = MACH_PORT_TYPE_SEND \<or> type_of e = MACH_PORT_TYPE_SEND_ONCE" and a: "\<not> ip_active (st_port s0 p)"
  proof -
    have "type_of e AND MACH_PORT_TYPE_SEND_RIGHTS \<noteq> 0" using t by auto
    then obtain s1 where s1: "ipc_right_check p name entry s = Some (True, s1)" "died_into s0 name entry e s1"
      using check_died [OF inv ready h e] a unfolding p_def by auto
    show ?thesis
      by (rule dead_case [OF s1(2)]) (use t s1(1) a in \<open>auto simp: defs bill_zero\<close>)
  qed
  have keep: "put s0 name (caps s0 name) (\<lambda>_ _. 0) s"
    using put_keep [OF inv ready, where x = 0 and port = p and t = 0] h by (simp add: bill_zero cap cap_of_cap p_def)
  consider (dead) "type_of e = MACH_PORT_TYPE_DEAD_NAME" | (gone) "type_of e = MACH_PORT_TYPE_SEND \<or> type_of e = MACH_PORT_TYPE_SEND_ONCE" "\<not> ip_active (st_port s0 p)"
    | (once) "type_of e = MACH_PORT_TYPE_SEND_ONCE" "ip_active (st_port s0 p)"
    | (send) "type_of e = MACH_PORT_TYPE_SEND" "ip_active (st_port s0 p)" | (both) "type_of e = MACH_PORT_TYPE_SEND_RECEIVE"
    | (bad) "type_of e = MACH_PORT_TYPE_RECEIVE \<or> type_of e = MACH_PORT_TYPE_PORT_SET"
    using conjunct1 [OF ok [unfolded right_ok_cap]] unfolding right_types_def by blast
  then show ?thesis
  proof cases
    case dead
    show ?thesis
      by (rule dead_case [OF dead_ready [OF ready inv h, folded e]]) (use dead in \<open>simp_all add: defs bill_zero\<close>)
  next
    case gone
    then show ?thesis by (rule gone_case)
  next
    case once
    obtain s' where s': "dealloc_send_once env name entry p s = Some s'" "put s0 name None (bill p MACH_PORT_TYPE_SEND_ONCE 1) s'"
      using dealloc_once_spec [OF inv ready h e p_def [symmetric] once(1)] by metis
    have "ipc_right_check p name entry s = Some (False, s)" using once(2) h by (simp add: ipc_right_check_def st_port_def)
    then have "ipc_right_dealloc env s name entry = Some (KERN_SUCCESS, s')" using s'(1) once(1) by (simp add: defs)
    moreover have "urefs_of (ie_bits e) = 1" using ok once(1) by (simp add: right_ok_cap)
    ultimately show ?thesis using s'(2) once
      by (intro exI [of _ KERN_SUCCESS] exI [of _ s'] exI [of _ None]) (simp add: once_out_def p_def [symmetric])
  next
    case send
    have no: "ipc_right_check p name entry s = Some (False, s)" using send(2) h by (simp add: ipc_right_check_def st_port_def)
    have u: "0 < urefs_of (ie_bits e)" "urefs_of (ie_bits e) < 0xffff" using ok send(1) by (auto simp: right_ok_cap)
    have o: "once_out s0 e = (\<lambda>_ _. 0)" using send(1) by (simp add: once_out_def bill_zero)
    show ?thesis
    proof (cases "urefs_of (ie_bits e) = 1")
      case True
      obtain ns s1 where ns: "drop_send_st p s = (ns, s1)" by fastforce
      obtain dn s2 where s2: "remove_send env name entry p s1 = Some (dn, s2)" "put s0 name None (\<lambda>_ _. 0) s2"
        by (rule last_send_dealloc [OF inv ready h e p_def [symmetric] send(1) ns])
      have "put s0 name None (\<lambda>_ _. 0) (on_heap (notify_dropped ns dn name) s2)" by (rule put_call [OF s2(2)]) simp
      moreover have "ipc_right_dealloc env s name entry = Some (KERN_SUCCESS, on_heap (notify_dropped ns dn name) s2)"
        using send(1) no True ns s2(1) by (simp add: defs urefs_one)
      ultimately show ?thesis using True send o
        by (intro exI [of _ KERN_SUCCESS] exI [of _ "on_heap (notify_dropped ns dn name) s2"] exI [of _ None]) (simp add: p_def)
    next
      case False
      note d = urefs_down [OF u(1)]
      have "\<exists>c. put s0 name c (\<lambda>_ _. 0) (set_entry entry (\<lambda>e'. e'\<lparr>ie_bits := ie_bits e - 1\<rparr>) s) \<and> user_refs c = urefs_of (ie_bits e - 1)"
        by (rule fewer_urefs [OF inv ready h e]) (use send(1) d u False in \<open>simp_all add: type_of_def\<close>)
      moreover have "ipc_right_dealloc env s name entry = Some (KERN_SUCCESS, set_entry entry (\<lambda>e'. e'\<lparr>ie_bits := ie_bits e - 1\<rparr>) s)"
        using send(1) no False by (simp add: defs urefs_one)
      ultimately show ?thesis using send o d(2) by (auto simp: p_def)
    qed
  next
    case both
    have act: "ip_active (st_port s0 (ie_object e))" using ok both by (simp add: right_ok_cap received_def)
    have u: "0 < urefs_of (ie_bits e)" "urefs_of (ie_bits e) < 0xffff" using ok both by (auto simp: right_ok_cap)
    have o: "once_out s0 e = (\<lambda>_ _. 0)" using both by (simp add: once_out_def bill_zero)
    show ?thesis
    proof (cases "urefs_of (ie_bits e) = 1")
      case True
      obtain ns s1 where ns: "drop_send_st p s = (ns, s1)" by fastforce
      let ?s2 = "set_entry entry (\<lambda>e'. e'\<lparr>ie_bits := ie_bits e AND NOT (IE_BITS_UREFS_MASK OR MACH_PORT_TYPE_SEND)\<rparr>) s1"
      obtain c where c: "put s0 name c (\<lambda>_ _. 0) ?s2" "user_refs c = 0"
        using last_send_receive [OF inv ready h e p_def [symmetric] both ns] by blast
      have "put s0 name c (\<lambda>_ _. 0) (on_heap (notify_dropped ns IP_NULL name) ?s2)" by (rule put_call [OF c(1)]) simp
      moreover have "ipc_right_dealloc env s name entry = Some (KERN_SUCCESS, on_heap (notify_dropped ns IP_NULL name) ?s2)"
        using both True ns by (simp add: defs urefs_one)
      ultimately show ?thesis using True both o c(2) act
        by (intro exI [of _ KERN_SUCCESS] exI [of _ "on_heap (notify_dropped ns IP_NULL name) ?s2"] exI [of _ c]) simp
    next
      case False
      note d = urefs_down [OF u(1)]
      have "\<exists>c. put s0 name c (\<lambda>_ _. 0) (set_entry entry (\<lambda>e'. e'\<lparr>ie_bits := ie_bits e - 1\<rparr>) s) \<and> user_refs c = urefs_of (ie_bits e - 1)"
        by (rule fewer_urefs [OF inv ready h e]) (use both d u False in \<open>simp_all add: type_of_def\<close>)
      moreover have "ipc_right_dealloc env s name entry = Some (KERN_SUCCESS, set_entry entry (\<lambda>e'. e'\<lparr>ie_bits := ie_bits e - 1\<rparr>) s)"
        using both False by (simp add: defs urefs_one)
      ultimately show ?thesis using both o d(2) act by auto
    qed
  next
    case bad
    have "once_out s0 e = (\<lambda>_ _. 0)" using bad by (auto simp: once_out_def bill_zero)
    moreover have "ipc_right_dealloc env s name entry = Some (KERN_INVALID_RIGHT, s)" using bad by (auto simp: defs)
    ultimately show ?thesis using keep bad by (intro exI [of _ KERN_INVALID_RIGHT] exI [of _ s] exI [of _ "caps s0 name"]) simp
  qed
qed

subsection \<open>Changing user references\<close>

lemma urefs_range:
  assumes "urefs_of b < 0xffff"
  shows "MACH_PORT_UREFS_UNDERFLOW (IE_BITS_UREFS b) d \<longleftrightarrow> int (urefs_of b) + sint d < 0"
    "MACH_PORT_UREFS_OVERFLOW (IE_BITS_UREFS b + 1) d \<longleftrightarrow> 0xfffe < int (urefs_of b) + sint d"
    "0 \<le> int (urefs_of b) + sint d \<Longrightarrow> int (urefs_of b) + sint d \<le> 0xfffe \<Longrightarrow>
      IE_BITS_UREFS b + d = 0 \<longleftrightarrow> int (urefs_of b) + sint d = 0"
proof -
  have u: "uint (IE_BITS_UREFS b) = int (urefs_of b)" by (simp add: urefs_of_def)
  have u1: "uint (IE_BITS_UREFS b + 1) = int (urefs_of b) + 1"
  proof -
    have "sint (1 :: natural_t) = 1" by simp
    then show ?thesis using urefs_delta_sum [of "IE_BITS_UREFS b" 1] u assms by simp
  qed
  have ok: "\<not> MACH_PORT_UREFS_UNDERFLOW (IE_BITS_UREFS b) d \<and> \<not> MACH_PORT_UREFS_OVERFLOW (IE_BITS_UREFS b) d \<longleftrightarrow>
      0 \<le> int (urefs_of b) + sint d \<and> int (urefs_of b) + sint d \<le> 65535"
    using urefs_delta_ok [of "IE_BITS_UREFS b" d] u assms by simp
  have ok1: "\<not> MACH_PORT_UREFS_UNDERFLOW (IE_BITS_UREFS b + 1) d \<and> \<not> MACH_PORT_UREFS_OVERFLOW (IE_BITS_UREFS b + 1) d \<longleftrightarrow>
      0 \<le> int (urefs_of b) + 1 + sint d \<and> int (urefs_of b) + 1 + sint d \<le> 65535"
    using urefs_delta_ok [of "IE_BITS_UREFS b + 1" d] u1 assms by simp
  have sign: "MACH_PORT_UREFS_UNDERFLOW x d \<Longrightarrow> sint d < 0" "MACH_PORT_UREFS_OVERFLOW x d \<Longrightarrow> 0 < sint d" for x
    by (simp_all add: MACH_PORT_UREFS_UNDERFLOW_def MACH_PORT_UREFS_OVERFLOW_def)
  show "MACH_PORT_UREFS_UNDERFLOW (IE_BITS_UREFS b) d \<longleftrightarrow> int (urefs_of b) + sint d < 0"
    using ok sign [of "IE_BITS_UREFS b"] assms by (cases "sint d < 0") auto
  show "MACH_PORT_UREFS_OVERFLOW (IE_BITS_UREFS b + 1) d \<longleftrightarrow> 0xfffe < int (urefs_of b) + sint d"
    using ok1 sign [of "IE_BITS_UREFS b + 1"] assms by (cases "0 < sint d") auto
  show "IE_BITS_UREFS b + d = 0 \<longleftrightarrow> int (urefs_of b) + sint d = 0"
    if "0 \<le> int (urefs_of b) + sint d" "int (urefs_of b) + sint d \<le> 0xfffe"
  proof -
    have "uint (IE_BITS_UREFS b + d) = int (urefs_of b) + sint d"
      using urefs_delta_sum [of "IE_BITS_UREFS b" d] u that by simp
    then show ?thesis by (metis uint_0_iff)
  qed
qed

lemma delta_bits:
  assumes "0 \<le> int (urefs_of b) + sint d" "int (urefs_of b) + sint d < 0x10000"
  shows "IE_BITS_TYPE (b + d) = IE_BITS_TYPE b" "int (urefs_of (b + d)) = int (urefs_of b) + sint d"
    "(b + d) AND NOT IE_BITS_RIGHT_MASK = b AND NOT IE_BITS_RIGHT_MASK"
  using urefs_change [of b "sint d"] assms by simp_all

lemma delta_send_spec:
  assumes inv: "rights_inv s0" and ready: "ready s0 name entry s" and h: "st_heap s = st_heap s0" and e: "e = st_entry s entry"
    and send: "type_of e = MACH_PORT_TYPE_SEND \<or> type_of e = MACH_PORT_TYPE_SEND_RECEIVE" "ip_active (st_port s0 (ie_object e))"
  shows "\<exists>kr s' c. delta_send env s name entry delta = Some (kr, s') \<and> put s0 name c (\<lambda>_ _. 0) s' \<and>
    (let u = int (urefs_of (ie_bits e)) + sint delta in
     if u < 0 then kr = KERN_INVALID_VALUE \<and> c = caps s0 name
     else if 0xfffe < u then kr = KERN_UREFS_OVERFLOW \<and> c = caps s0 name
     else kr = KERN_SUCCESS \<and> int (user_refs c) = u)"
proof -
  define p where "p = ie_object e"
  let ?b = "ie_bits e"
  let ?u = "int (urefs_of ?b) + sint delta"
  have cap: "caps s0 name = Some (cap e)" using ready_cap [OF ready] e by simp
  have ok: "right_ok s0 name (cap e)" by (rule rights_invD(3) [OF inv cap])
  have u: "0 < urefs_of ?b" "urefs_of ?b < 0xffff" using ok send(1) by (auto simp: right_ok_cap)
  have t: "type_of e AND MACH_PORT_TYPE_SEND \<noteq> 0" using send(1) by auto
  have no: "ipc_right_check p name entry s = Some (False, s)" using send(2) h by (simp add: ipc_right_check_def st_port_def p_def)
  have keep: "put s0 name (caps s0 name) (\<lambda>_ _. 0) s"
    using put_keep [OF inv ready, where x = 0 and port = p and t = 0] h by (simp add: bill_zero cap cap_of_cap p_def)
  note r = urefs_range [OF u(2), of delta]
  note defs = delta_send_def Let_def e [symmetric] entry_tests p_def [symmetric]
  consider (low) "?u < 0" | (high) "0xfffe < ?u" | (zero) "?u = 0" | (ok) "0 < ?u" "?u \<le> 0xfffe" by linarith
  then show ?thesis
  proof cases
    case low
    then have "delta_send env s name entry delta = Some (KERN_INVALID_VALUE, s)" using t no r(1) by (simp add: defs)
    then show ?thesis using keep low by (intro exI [of _ KERN_INVALID_VALUE] exI [of _ s] exI [of _ "caps s0 name"]) simp
  next
    case high
    then have "delta_send env s name entry delta = Some (KERN_UREFS_OVERFLOW, s)" using t no r(1,2) by (simp add: defs)
    then show ?thesis using keep high
      by (intro exI [of _ KERN_UREFS_OVERFLOW] exI [of _ s] exI [of _ "caps s0 name"]) (simp add: Let_def)
  next
    case ok
    have z: "\<not> MACH_PORT_UREFS_UNDERFLOW (IE_BITS_UREFS ?b) delta" "\<not> MACH_PORT_UREFS_OVERFLOW (IE_BITS_UREFS ?b + 1) delta"
      "IE_BITS_UREFS ?b + delta \<noteq> 0"
      using ok r by auto
    have d: "IE_BITS_TYPE (?b + delta) = IE_BITS_TYPE ?b" "int (urefs_of (?b + delta)) = ?u"
      "(?b + delta) AND NOT IE_BITS_RIGHT_MASK = ?b AND NOT IE_BITS_RIGHT_MASK"
      using delta_bits [of ?b delta] ok by simp_all
    have "\<exists>c. put s0 name c (\<lambda>_ _. 0) (set_entry entry (\<lambda>e'. e'\<lparr>ie_bits := ?b + delta\<rparr>) s) \<and> user_refs c = urefs_of (?b + delta)"
      by (rule fewer_urefs [OF inv ready h e send(1)]) (use d ok in \<open>simp_all add: type_of_def\<close>)
    moreover have "delta_send env s name entry delta = Some (KERN_SUCCESS, set_entry entry (\<lambda>e'. e'\<lparr>ie_bits := ?b + delta\<rparr>) s)"
      using t no z by (simp add: defs)
    ultimately show ?thesis using ok d(2) by (auto simp: Let_def)
  next
    case zero
    have z: "\<not> MACH_PORT_UREFS_UNDERFLOW (IE_BITS_UREFS ?b) delta" "\<not> MACH_PORT_UREFS_OVERFLOW (IE_BITS_UREFS ?b + 1) delta"
      "IE_BITS_UREFS ?b + delta = 0"
      using zero r by auto
    obtain ns s1 where ns: "drop_send_st p s = (ns, s1)" by fastforce
    show ?thesis
    proof (cases "type_of e = MACH_PORT_TYPE_SEND")
      case True
      obtain dn s2 where s2: "remove_send env name entry p s1 = Some (dn, s2)" "put s0 name None (\<lambda>_ _. 0) s2"
        by (rule last_send_dealloc [OF inv ready h e p_def [symmetric] True ns])
      have "put s0 name None (\<lambda>_ _. 0) (on_heap (notify_dropped ns dn name) s2)" by (rule put_call [OF s2(2)]) simp
      moreover have "delta_send env s name entry delta = Some (KERN_SUCCESS, on_heap (notify_dropped ns dn name) s2)"
        using t no z ns s2(1) True by (simp add: defs)
      ultimately show ?thesis using zero
        by (intro exI [of _ KERN_SUCCESS] exI [of _ "on_heap (notify_dropped ns dn name) s2"] exI [of _ None]) simp
    next
      case False
      then have both: "type_of e = MACH_PORT_TYPE_SEND_RECEIVE" using send(1) by simp
      let ?s2 = "set_entry entry (\<lambda>e'. e'\<lparr>ie_bits := ?b AND NOT (IE_BITS_UREFS_MASK OR MACH_PORT_TYPE_SEND)\<rparr>) s1"
      obtain c where c: "put s0 name c (\<lambda>_ _. 0) ?s2" "user_refs c = 0"
        using last_send_receive [OF inv ready h e p_def [symmetric] both ns] by blast
      have "put s0 name c (\<lambda>_ _. 0) (on_heap (notify_dropped ns IP_NULL name) ?s2)" by (rule put_call [OF c(1)]) simp
      moreover have "delta_send env s name entry delta = Some (KERN_SUCCESS, on_heap (notify_dropped ns IP_NULL name) ?s2)"
        using t no z ns both by (simp add: defs)
      ultimately show ?thesis using zero c(2)
        by (intro exI [of _ KERN_SUCCESS] exI [of _ "on_heap (notify_dropped ns IP_NULL name) ?s2"] exI [of _ c]) simp
    qed
  qed
qed

subsection \<open>Properties\<close>

lemma lookup_cap:
  assumes inv: "rights_inv s" and l: "ipc_right_lookup_write s name = (Inr entry, s1)"
  shows "ready s name entry s1" "st_heap s1 = st_heap s" "caps s name = Some (cap (st_entry s1 entry))" "is_active (st_space s)"
  using lookup_write_spec [OF inv l] ready_cap by (auto simp: lookup_write_spec [OF inv l])

lemma not_null: "rights_inv s \<Longrightarrow> \<not> IS_NULL s"
  using rights_invD(2) [of s] by (simp add: IS_NULL_def self_def)

text \<open>
  C18: \<open>mach_port_deallocate\<close> takes one user reference from a send right, a send-once right or a dead name and
  keeps the invariant; the right goes with its last reference, and a right whose port has died first becomes a
  dead name, with one more reference for a pending request.  Nothing else changes hands: the counts of a port
  stay those of its rights, except that a send-once right goes into the message that reports its end.  A receive
  right, a port set or an unknown name is refused and nothing changes.
\<close>

theorem port_deallocate_exact:
  assumes inv: "rights_inv s"
  shows "\<exists>kr s'. mach_port_deallocate env s name = Some (kr, s') \<and> rights_inv s' \<and>
    (\<forall>n. n \<noteq> name \<longrightarrow> caps s' n = caps s n) \<and>
    (if \<not> is_active (st_space s) then kr = KERN_INVALID_TASK \<and> caps s' = caps s
     else case caps s name of
       None \<Rightarrow> kr = KERN_INVALID_NAME \<and> caps s' = caps s
     | Some (b, ob, r) \<Rightarrow>
         if IE_BITS_TYPE b = MACH_PORT_TYPE_RECEIVE \<or> IE_BITS_TYPE b = MACH_PORT_TYPE_PORT_SET
         then kr = KERN_INVALID_RIGHT \<and> caps s' = caps s
         else kr = KERN_SUCCESS \<and> user_refs (caps s' name) = urefs_of b - 1 +
           of_bool (IE_BITS_TYPE b \<noteq> MACH_PORT_TYPE_DEAD_NAME \<and> \<not> ip_active (st_port s ob) \<and> r \<noteq> 0)) \<and>
    (\<forall>p. let once = of_bool (kr = KERN_SUCCESS \<and> ip_active (st_port s p) \<and> holds MACH_PORT_TYPE_SEND_ONCE p (caps s name))
      in ip_active (st_port s' p) = ip_active (st_port s p) \<and> refs_out s' p = refs_out s p + once \<and>
        (ip_active (st_port s p) \<longrightarrow> sends_out s' p = sends_out s p \<and> onces_out s' p = onces_out s p + once))"
proof -
  obtain res s1 where l: "ipc_right_lookup_write s name = (res, s1)" by fastforce
  show ?thesis
  proof (cases res)
    case (Inl kr)
    then have c: "closed s name (caps s name) s1" "st_heap s1 = st_heap s"
      "if is_active (st_space s) then kr = KERN_INVALID_NAME \<and> caps s name = None else kr = KERN_INVALID_TASK"
      using lookup_write_spec [OF inv l] by simp_all
    have "caps s1 = caps s" using closed_self [OF c(1)] by simp
    moreover have "mach_port_deallocate env s name = Some (kr, s1)"
      using l Inl not_null [OF inv] by (simp add: mach_port_deallocate_def)
    moreover have "kr \<noteq> KERN_SUCCESS" using c(3) by (auto split: if_splits)
    ultimately show ?thesis using inv_same [OF inv c(1,2)] c(2,3) by (auto simp: st_port_def Let_def)
  next
    case (Inr entry)
    note k = lookup_cap [OF inv l [unfolded Inr]]
    define e where "e = st_entry s1 entry"
    obtain kr s' c where s': "ipc_right_dealloc env s1 name entry = Some (kr, s')" "put s name c (once_out s e) s'"
      "if type_of e = MACH_PORT_TYPE_RECEIVE \<or> type_of e = MACH_PORT_TYPE_PORT_SET then kr = KERN_INVALID_RIGHT \<and> c = caps s name
       else kr = KERN_SUCCESS \<and> user_refs c = urefs_of (ie_bits e) - 1 +
         of_bool (type_of e \<noteq> MACH_PORT_TYPE_DEAD_NAME \<and> \<not> ip_active (st_port s (ie_object e)) \<and> ie_request e \<noteq> 0)"
      using right_dealloc_spec [OF inv k(1,2) e_def] by blast
    note r = put_result [OF inv s'(2)]
    have cap: "caps s name = Some (cap e)" using k(3) by (simp add: e_def)
    have run: "mach_port_deallocate env s name = Some (kr, s')"
      using l Inr s'(1) not_null [OF inv] by (simp add: mach_port_deallocate_def)
    have ty: "type_of e \<in> right_types" unfolding e_def by (rule ready_type(1) [OF inv k(1)])
    have once: "of_bool (kr = KERN_SUCCESS \<and> ip_active (st_port s p) \<and> holds MACH_PORT_TYPE_SEND_ONCE p (caps s name)) =
        once_out s e MACH_PORT_TYPE_PORT_RIGHTS p"
      "once_out s e MACH_PORT_TYPE_SEND p = 0" "once_out s e MACH_PORT_TYPE_SEND_ONCE p = once_out s e MACH_PORT_TYPE_PORT_RIGHTS p" for p
      using s'(3) unfolding cap cap_tests
      by (cases rule: right_type_cases [OF ty]; auto simp: once_out_def bill_def)+
    have fields: "cap e = (ie_bits e AND IE_BITS_RIGHT_MASK, ie_object e, ie_request e)" by (simp add: cap_def)
    have u: "urefs_of (ie_bits e AND IE_BITS_RIGHT_MASK) = urefs_of (ie_bits e)" by (simp add: urefs_of_def)
    have same: "caps s' = caps s" if "c = caps s name" using r(2) that by simp
    have "if IE_BITS_TYPE (ie_bits e AND IE_BITS_RIGHT_MASK) = MACH_PORT_TYPE_RECEIVE \<or>
        IE_BITS_TYPE (ie_bits e AND IE_BITS_RIGHT_MASK) = MACH_PORT_TYPE_PORT_SET
      then kr = KERN_INVALID_RIGHT \<and> caps s' = caps s
      else kr = KERN_SUCCESS \<and> user_refs (caps s' name) = urefs_of (ie_bits e AND IE_BITS_RIGHT_MASK) - 1 +
        of_bool (IE_BITS_TYPE (ie_bits e AND IE_BITS_RIGHT_MASK) \<noteq> MACH_PORT_TYPE_DEAD_NAME \<and>
          \<not> ip_active (st_port s (ie_object e)) \<and> ie_request e \<noteq> 0)"
      using s'(3) r(2) same unfolding type_bits type_of_def [symmetric] u by auto
    moreover have "\<forall>p. ip_active (st_port s' p) = ip_active (st_port s p) \<and>
        refs_out s' p = refs_out s p + once_out s e MACH_PORT_TYPE_PORT_RIGHTS p \<and>
        (ip_active (st_port s p) \<longrightarrow> sends_out s' p = sends_out s p \<and>
           onces_out s' p = onces_out s p + once_out s e MACH_PORT_TYPE_PORT_RIGHTS p)"
      using r(3-6) once(2,3) by simp
    moreover have "\<forall>n. n \<noteq> name \<longrightarrow> caps s' n = caps s n" using r(2) by simp
    moreover have "(\<not> is_active (st_space s)) = False" using k(4) by simp
    ultimately show ?thesis
      using run r(1)
      by (intro exI [of _ kr] exI [of _ s'], unfold once(1) Let_def, unfold cap fields option.case prod.case)
        (simp only: if_False simp_thms)
  qed
qed

text \<open>
  C17: \<open>mach_port_mod_refs\<close> on the send rights of a live port adds the signed \<open>delta\<close> exactly, or refuses
  and changes nothing: the count may not become negative, nor reach the largest value, which is kept for the
  notification of the port's death.  At zero the send right is gone and the port's count of send rights goes
  down with it; the books balance.
\<close>

theorem mod_refs_exact:
  assumes inv: "rights_inv s" and act: "is_active (st_space s)" and c: "caps s name = Some (b, ob, r)"
    and send: "b AND MACH_PORT_TYPE_SEND \<noteq> 0" "ip_active (st_port s ob)"
  shows "\<exists>kr s'. mach_port_mod_refs env s name MACH_PORT_RIGHT_SEND delta = Some (kr, s') \<and> rights_inv s' \<and>
    (\<forall>n. n \<noteq> name \<longrightarrow> caps s' n = caps s n) \<and>
    (let u = int (urefs_of b) + sint delta in
     if u < 0 then kr = KERN_INVALID_VALUE \<and> caps s' = caps s
     else if 0xfffe < u then kr = KERN_UREFS_OVERFLOW \<and> caps s' = caps s
     else kr = KERN_SUCCESS \<and> int (user_refs (caps s' name)) = u) \<and>
    (\<forall>p. ip_active (st_port s' p) = ip_active (st_port s p) \<and> refs_out s' p = refs_out s p \<and>
      (ip_active (st_port s p) \<longrightarrow> sends_out s' p = sends_out s p \<and> onces_out s' p = onces_out s p))"
proof -
  obtain res s1 where l: "ipc_right_lookup_write s name = (res, s1)" by fastforce
  have "\<nexists>kr. res = Inl kr" using lookup_write_spec [OF inv l] act c by (auto split: if_splits)
  then obtain entry where entry: "res = Inr entry" by (cases res) auto
  note k = lookup_cap [OF inv l [unfolded entry]]
  define e where "e = st_entry s1 entry"
  have e: "b = ie_bits e AND IE_BITS_RIGHT_MASK" "ob = ie_object e" using k(3) c by (simp_all add: e_def cap_def)
  have ty: "type_of e \<in> right_types" unfolding e_def by (rule ready_type(1) [OF inv k(1)])
  have "type_of e AND MACH_PORT_TYPE_SEND \<noteq> 0"
    using send(1) type_tests(1) [of b] unfolding e(1) type_bits type_of_def by simp
  then have t: "type_of e = MACH_PORT_TYPE_SEND \<or> type_of e = MACH_PORT_TYPE_SEND_RECEIVE"
    by (cases rule: right_type_cases [OF ty]) auto
  have u: "urefs_of b = urefs_of (ie_bits e)" by (simp add: e(1) urefs_of_def)
  obtain kr s' c' where s': "delta_send env s1 name entry delta = Some (kr, s')" "put s name c' (\<lambda>_ _. 0) s'"
    "let u = int (urefs_of b) + sint delta in
     if u < 0 then kr = KERN_INVALID_VALUE \<and> c' = caps s name
     else if 0xfffe < u then kr = KERN_UREFS_OVERFLOW \<and> c' = caps s name
     else kr = KERN_SUCCESS \<and> int (user_refs c') = u"
    using delta_send_spec [OF inv k(1,2) e_def t, of env delta] send(2) unfolding u e(2) by blast
  note p = put_result [OF inv s'(2)]
  have "mach_port_mod_refs env s name MACH_PORT_RIGHT_SEND delta = Some (kr, s')"
    using l entry s'(1) not_null [OF inv] by (simp add: mach_port_mod_refs_def ipc_right_delta_def)
  moreover have "caps s' = caps s" if "c' = caps s name" using p(2) that by simp
  ultimately show ?thesis using p(1-6) s'(3) by (intro exI [of _ kr] exI [of _ s']) (auto simp: Let_def)
qed

text \<open>A space with a send right for the port 128 under the name 0x203.\<close>

definition state2 :: ipc_state where
  "state2 = snd (the (ipc_object_copyout env0 state1 128 MACH_MSG_TYPE_PORT_SEND False))"

lemma state2_facts: "rights_inv state2" "is_active (st_space state2)" "caps state2 0x203 = Some (MACH_PORT_TYPE_SEND OR 1, 128, 0)"
  "ip_active (st_port state2 128)"
proof -
  have act: "is_active (st_space state1)" "ipc_entry_get (st_space state1) \<noteq> None" by code_simp+
  have v: "IP_VALID 128" by (simp add: IP_VALID_def IP_NULL_def IP_DEAD_def)
  have "send_type MACH_MSG_TYPE_PORT_SEND MACH_PORT_TYPE_SEND" by (simp add: send_type_def)
  from copied_out_loop [OF state1_facts(1) act v this, of False 1 env0]
  obtain res s' n c d where s': "ipc_object_copyout env0 state1 128 MACH_MSG_TYPE_PORT_SEND False = Some (res, s')"
    "put state1 n c d s'"
    unfolding copied_out_def ipc_object_copyout_def by (auto simp: env0_def numeral_2_eq_2)
  have s2: "state2 = s'" using s'(1) by (simp add: state2_def)
  note p = put_result [OF state1_facts(1) s'(2)]
  show "rights_inv state2" "is_active (st_space state2)" using p(1,7) act(1) s2 by simp_all
  show "caps state2 0x203 = Some (MACH_PORT_TYPE_SEND OR 1, 128, 0)" by code_simp
  show "ip_active (st_port state2 128)" by code_simp
qed

theorem port_deallocate_exact_witness:
  "\<exists>s'. mach_port_deallocate env0 state2 0x203 = Some (KERN_SUCCESS, s') \<and> rights_inv s' \<and> user_refs (caps s' 0x203) = 0 \<and>
    sends_out s' 128 = sends_out state2 128"
proof -
  have t: "IE_BITS_TYPE (MACH_PORT_TYPE_SEND OR 1) = MACH_PORT_TYPE_SEND" "urefs_of (MACH_PORT_TYPE_SEND OR 1) = 1"
    by (simp_all add: IE_BITS_TYPE_def IE_BITS_TYPE_MASK_def type_values urefs_of_def IE_BITS_UREFS_def IE_BITS_UREFS_MASK_def)
  show ?thesis
    using port_deallocate_exact [OF state2_facts(1), of env0 "0x203"] state2_facts(2-4)
    by (auto simp: t Let_def)
qed

theorem mod_refs_exact_witness:
  "\<exists>s'. mach_port_mod_refs env0 state2 0x203 MACH_PORT_RIGHT_SEND 0xfffd = Some (KERN_SUCCESS, s') \<and>
    user_refs (caps s' 0x203) = 0xfffe"
proof -
  have t: "(MACH_PORT_TYPE_SEND OR 1) AND MACH_PORT_TYPE_SEND \<noteq> 0" "urefs_of (MACH_PORT_TYPE_SEND OR 1) = 1"
    by (simp_all add: type_values urefs_of_def IE_BITS_UREFS_def IE_BITS_UREFS_MASK_def)
  have "sint (0xfffd :: 32 word) = 0xfffd" by simp
  then show ?thesis
    using mod_refs_exact [OF state2_facts(1-3) t(1) state2_facts(4), of env0 "0xfffd"] t(2) by (auto simp: Let_def)
qed

end
