(* ===== verification/Port_Calls.thy ===== *)
theory Port_Calls
  imports Right_Delta
begin

section \<open>What the port calls answer\<close>

text \<open>
  Results of the calls: when moving a right out succeeds, which names a space lists, and a named allocation
  that ignores its name.
\<close>

subsection \<open>The check before a copyin\<close>

lemma check_result: "ipc_right_check port name entry s = Some (died, s') \<Longrightarrow> died \<longleftrightarrow> \<not> ip_active (st_port s port)"
  by (auto simp: ipc_right_check_def Let_def bind_eq_Some_conv split: if_splits)

text \<open>
  C21: \<open>ipc_right_copyin_check\<close>, which looks only, foretells \<open>ipc_right_copyin\<close>: for every right of the space
  and every disposition it answers true exactly when the copyin succeeds.
\<close>

theorem copyin_check_exact:
  assumes inv: "rights_inv s" and t: "disposition_type msgt_name = Some t"
    and l: "ipc_right_lookup_write s name = (Inr entry, s1)"
  shows "\<exists>ok res s'. ipc_right_copyin_check s1 entry msgt_name = Some ok \<and>
    ipc_right_copyin s1 name entry msgt_name True = Some (res, s') \<and> (ok \<longleftrightarrow> (\<exists>obj soright. res = Inr (obj, soright)))"
proof -
  note k = lookup_cap [OF inv l]
  obtain res s' where r: "ipc_right_copyin s1 name entry msgt_name True = Some (res, s')"
    using right_copyin_spec [OF inv k(1,2) t] by (auto simp: copied_def)
  have m: "msgt_name \<in> {MACH_MSG_TYPE_MAKE_SEND, MACH_MSG_TYPE_MAKE_SEND_ONCE, MACH_MSG_TYPE_MOVE_RECEIVE,
      MACH_MSG_TYPE_COPY_SEND, MACH_MSG_TYPE_MOVE_SEND, MACH_MSG_TYPE_MOVE_SEND_ONCE}"
    using t by (auto simp: disposition_type_def split: if_splits)
  obtain ok where ok: "ipc_right_copyin_check s1 entry msgt_name = Some ok"
    using m by (fastforce simp: ipc_right_copyin_check_def Let_def msg_types)
  have "ok \<longleftrightarrow> isl res = False"
    using m r ok
    by (auto simp: ipc_right_copyin_check_def ipc_right_copyin_def copyin_move_receive_def copyin_copy_send_def
        copyin_move_send_def copyin_move_send_once_def copy_dead_def move_dead_def Let_def bind_eq_Some_conv msg_types
        dest!: check_result split: if_splits prod.splits)
  then show ?thesis using r ok by (cases res) auto
qed

theorem copyin_check_exact_witness:
  "\<exists>entry s1 res s'. ipc_right_lookup_write state1 0x103 = (Inr entry, s1) \<and>
    ipc_right_copyin_check s1 entry MACH_MSG_TYPE_MAKE_SEND = Some True \<and>
    ipc_right_copyin s1 0x103 entry MACH_MSG_TYPE_MAKE_SEND True = Some (Inr res, s')"
proof -
  obtain s1 where l: "ipc_right_lookup_write state1 0x103 = (Inr (TableEnt 1), s1)"
  proof -
    have "fst (ipc_right_lookup_write state1 0x103) = Inr (TableEnt 1)" by code_simp
    then show thesis using that by (cases "ipc_right_lookup_write state1 0x103") auto
  qed
  have t: "disposition_type MACH_MSG_TYPE_MAKE_SEND = Some MACH_PORT_TYPE_SEND" by (simp add: disposition_type_def msg_types)
  have "ipc_right_copyin_check (snd (ipc_right_lookup_write state1 0x103)) (TableEnt 1) MACH_MSG_TYPE_MAKE_SEND = Some True"
    by code_simp
  with copyin_check_exact [OF state1_facts(1) t l] show ?thesis using l by fastforce
qed

subsection \<open>The names of a space\<close>

text \<open>The type that a listing at a time shows for a capability: a right for a port that died before it is a dead name.\<close>

definition listed :: "ipc_port_timestamp_t \<Rightarrow> ipc_heap \<Rightarrow> capability \<Rightarrow> mach_port_type_t" where
  "listed time h c =
     (case c of (b, ob, r) \<Rightarrow>
        if b AND MACH_PORT_TYPE_SEND_RIGHTS \<noteq> 0 \<and> \<not> ip_active (ports h ob) \<and> IP_TIMESTAMP_ORDER (ip_timestamp (ports h ob)) time
        then MACH_PORT_TYPE_DEAD_NAME
        else if r \<noteq> 0 then IE_BITS_TYPE b OR MACH_PORT_TYPE_DNREQUEST else IE_BITS_TYPE b)"

lemma names_helper:
  assumes "right_ok s n (cap e)"
  shows "mach_port_names_helper time h e name out = out @ [(name, listed time h (cap e))]"
proof -
  have b: "(ie_bits e AND IE_BITS_RIGHT_MASK) AND MACH_PORT_TYPE_SEND_RIGHTS = ie_bits e AND MACH_PORT_TYPE_SEND_RIGHTS"
    "IE_BITS_TYPE (ie_bits e AND IE_BITS_RIGHT_MASK) = IE_BITS_TYPE (ie_bits e)"
    using cap_type [of e] by (simp_all add: and.assoc type_values IE_BITS_RIGHT_MASK_def IE_BITS_TYPE_MASK_def IE_BITS_UREFS_MASK_def IE_BITS_COLLISION_def
       cap_def type_of_def)
  let ?b = "(ie_bits e AND NOT IE_BITS_TYPE_MASK) OR MACH_PORT_TYPE_DEAD_NAME"
  have d: "IE_BITS_TYPE ?b = MACH_PORT_TYPE_DEAD_NAME" "urefs_of ?b = urefs_of (ie_bits e)"
    using set_type(1,2) [OF type_masked(4)] by simp_all
  have "IE_BITS_TYPE (?b + 1) = MACH_PORT_TYPE_DEAD_NAME" if "ie_bits e AND MACH_PORT_TYPE_SEND_RIGHTS \<noteq> 0"
  proof -
    have "urefs_of (ie_bits e) < 0xffff"
      using assms that entry_tests unfolding right_ok_cap by (auto simp: right_types_def)
    then show ?thesis using urefs_up(1) [of ?b] d by simp
  qed
  then show ?thesis
    using d(1) by (auto simp: mach_port_names_helper_def listed_def cap_def Let_def b)
qed

lemma listed_table:
  assumes "\<And>i. i \<in> set is \<Longrightarrow> IE_BITS_TYPE (ie_bits (table ! i)) \<noteq> MACH_PORT_TYPE_NONE \<Longrightarrow>
      \<exists>s. right_ok s (MACH_PORT_MAKEB (of_nat i) (ie_bits (table ! i))) (cap (table ! i))"
  shows "table_names (mach_port_names_helper time h) table is out = out @
    map (\<lambda>i. (MACH_PORT_MAKEB (of_nat i) (ie_bits (table ! i)), listed time h (cap (table ! i))))
      [i \<leftarrow> is. IE_BITS_TYPE (ie_bits (table ! i)) \<noteq> MACH_PORT_TYPE_NONE]"
  using assms
proof (induction "is" arbitrary: out)
  case (Cons i "is")
  have "IE_BITS_TYPE (ie_bits (table ! i)) \<noteq> MACH_PORT_TYPE_NONE \<Longrightarrow>
      mach_port_names_helper time h (table ! i) (MACH_PORT_MAKEB (of_nat i) (ie_bits (table ! i))) out =
      out @ [(MACH_PORT_MAKEB (of_nat i) (ie_bits (table ! i)), listed time h (cap (table ! i)))]"
    using Cons.prems [of i] names_helper by auto
  then show ?case using Cons.IH Cons.prems by (simp add: Let_def)
qed simp

lemma listed_tree:
  assumes "\<And>n e. (n, e) \<in> set xs \<Longrightarrow> \<exists>s. right_ok s n (cap e)"
  shows "fst (sweep (tree_names (mach_port_names_helper time h)) out xs) =
    out @ map (\<lambda>(n, e). (n, listed time h (cap e))) xs"
  using assms
proof (induction xs arbitrary: out)
  case (Cons x xs)
  obtain n e where x: "x = (n, e)" by fastforce
  have h: "tree_names (mach_port_names_helper time h) out x = (out @ [(n, listed time h (cap e))], False)"
    using Cons.prems [of n e] x names_helper by (auto simp: tree_names_def)
  show ?case using Cons.IH [of "out @ [(n, listed time h (cap e))]"] Cons.prems
    by (simp add: h [unfolded x] x case_prod_unfold)
qed simp

lemma tree_kept: "snd (sweep (tree_names helper) out xs) = xs"
  by (induction xs arbitrary: out) (simp_all add: tree_names_def case_prod_unfold)

lemma splay_mem:
  assumes "splay_inv t"
  shows "(n, e) \<in> set (splay_list t) \<longleftrightarrow> splay_map t n = Some e" "distinct (map fst (splay_list t))"
proof -
  show d: "distinct (map fst (splay_list t))"
    using assms by (cases "ist_root t = ITE_NULL") (auto simp: splay_inv_def sorted_names_def splay_list_def strict_sorted_iff)
  then show "(n, e) \<in> set (splay_list t) \<longleftrightarrow> splay_map t n = Some e" by (simp add: splay_map_def)
qed

text \<open>What a walk over the names of a space passes, in order.\<close>

definition table_slots :: "ipc_space \<Rightarrow> nat list" where
  "table_slots space = [i \<leftarrow> [0 ..< is_table_size space]. IE_BITS_TYPE (ie_bits (is_table space ! i)) \<noteq> MACH_PORT_TYPE_NONE]"

definition walk :: "ipc_space \<Rightarrow> (mach_port_t \<times> ipc_entry) list" where
  "walk space = map (\<lambda>i. (MACH_PORT_MAKEB (of_nat i) (ie_bits (is_table space ! i)), is_table space ! i)) (table_slots space) @
     splay_list (is_tree space)"

lemma gen_makeb [simp]: "MACH_PORT_GEN (MACH_PORT_MAKEB i b) = IE_BITS_GEN b"
  by (simp add: MACH_PORT_MAKEB_def gen_make IE_BITS_GEN_def and.assoc)

lemma slot_index:
  assumes "names_inv space" "i < is_table_size space"
  shows "unat (MACH_PORT_INDEX (MACH_PORT_MAKEB (of_nat i) b)) = i"
proof -
  have "i < 0x1000000" using assms by (simp add: names_inv_def)
  then have "(of_nat i :: natural_t) < 0x1000000" "unat (of_nat i :: natural_t) = i"
    by (simp_all add: word_less_nat_alt unat_of_nat)
  then show ?thesis by (simp add: MACH_PORT_MAKEB_def index_make)
qed

lemma walk_names:
  assumes inv: "names_inv space"
  shows "(\<exists>e. (n, e) \<in> set (walk space) \<and> c = cap e) \<longleftrightarrow> space_caps space n = Some c"
    "distinct (map fst (walk space))"
proof -
  have tree: "splay_inv (is_tree space)" using inv by (simp add: names_inv_def)
  note t = splay_mem [OF tree]
  let ?N = "\<lambda>i. MACH_PORT_MAKEB (of_nat i) (ie_bits (is_table space ! i))"
  have slots: "i \<in> set (table_slots space) \<longleftrightarrow> i < is_table_size space \<and> IE_BITS_TYPE (ie_bits (is_table space ! i)) \<noteq> 0" for i
    by (auto simp: table_slots_def MACH_PORT_TYPE_NONE_def)
  show "(\<exists>e. (n, e) \<in> set (walk space) \<and> c = cap e) \<longleftrightarrow> space_caps space n = Some c"
  proof
    assume "\<exists>e. (n, e) \<in> set (walk space) \<and> c = cap e"
    then show "space_caps space n = Some c"
      using table_cap(1) [OF inv] tree_cap [OF inv] t(1) slots by (auto simp: walk_def)
  next
    assume c: "space_caps space n = Some c"
    show "\<exists>e. (n, e) \<in> set (walk space) \<and> c = cap e"
    proof (cases "table_entry (is_table space) n")
      case None
      then show ?thesis using c t(1) by (auto simp: space_caps_alt walk_def)
    next
      case (Some e)
      let ?i = "unat (MACH_PORT_INDEX n)"
      have i: "?i < is_table_size space" "IE_BITS_TYPE (ie_bits (is_table space ! ?i)) \<noteq> 0" "e = is_table space ! ?i"
        "IE_BITS_GEN (ie_bits (is_table space ! ?i)) = MACH_PORT_GEN n"
        using Some by (auto simp: table_entry_def is_table_size_def Let_def split: if_splits)
      have "MACH_PORT_INDEX (?N ?i) = MACH_PORT_INDEX n" using slot_index [OF inv i(1)] by (simp only: word_unat_eq_iff)
      then have "?N ?i = n" by (rule name_eqI) (simp only: gen_makeb i(4))
      moreover have "?i \<in> set (table_slots space)" using i(1,2) slots by blast
      ultimately have "(n, e) \<in> set (walk space)" unfolding walk_def set_append set_map i(3) by (intro UnI1 rev_image_eqI) auto
      then show ?thesis using c Some by (auto simp: space_caps_alt)
    qed
  qed
  have "inj_on ?N (set (table_slots space))"
    by (rule inj_on_inverseI [of _ "\<lambda>n. unat (MACH_PORT_INDEX n)"]) (simp add: slots slot_index [OF inv])
  moreover have "?N i \<notin> dom (splay_map (is_tree space))" if "i \<in> set (table_slots space)" for i
  proof
    assume d: "?N i \<in> dom (splay_map (is_tree space))"
    have i: "i < is_table_size space" using that slots by simp
    have "IE_BITS_GEN (ie_bits (is_table space ! i)) \<noteq> MACH_PORT_GEN (?N i)"
      using inv d slot_index [OF inv i] i unfolding names_inv_def by metis
    then show False by simp
  qed
  moreover have "distinct (table_slots space)" by (simp add: table_slots_def)
  ultimately show "distinct (map fst (walk space))"
    using t by (fastforce simp: walk_def comp_def distinct_map)
qed

text \<open>The memory for a listing has a place for every name.\<close>

lemma bound_exact:
  assumes inv: "names_inv space"
  shows "unat (names_bound space) = is_table_size space + length (splay_list (is_tree space))"
proof -
  let ?N = "\<lambda>i. MACH_PORT_MAKEB (of_nat i) (ie_bits (is_table space ! i))"
  let ?I = "{..< is_table_size space}" and ?D = "dom (splay_map (is_tree space))"
  have tree: "splay_inv (is_tree space)" using inv by (simp add: names_inv_def)
  have D: "?D = fst ` set (splay_list (is_tree space))" by (simp add: splay_map_def dom_map_of_conv_image_fst)
  have len: "card ?D = length (splay_list (is_tree space))"
    using splay_mem(2) [OF tree] distinct_card unfolding D by (metis list.set_map length_map)
  have inj: "inj_on ?N ?I"
    by (rule inj_on_inverseI [of _ "\<lambda>n. unat (MACH_PORT_INDEX n)"]) (simp add: slot_index [OF inv])
  have sep: "?N i \<notin> ?D" if "i < is_table_size space" for i
  proof
    assume d: "?N i \<in> ?D"
    have "IE_BITS_GEN (ie_bits (is_table space ! i)) \<noteq> MACH_PORT_GEN (?N i)"
      using inv d slot_index [OF inv that] that unfolding names_inv_def by metis
    then show False by simp
  qed
  have "MACH_PORT_INDEX 0 = 0" "MACH_PORT_INDEX 1 = 0" by (simp_all add: MACH_PORT_INDEX_def drop_bit_eq_div)
  moreover have pos: "0 < is_table_size space" using inv by (simp add: names_inv_def)
  have "MACH_PORT_INDEX (?N i) \<noteq> 0 \<or> i = 0" if "i < is_table_size space" for i
    using slot_index [OF inv that] by (metis unat_0)
  moreover have "(0 :: natural_t) \<noteq> 1" by simp
  ultimately obtain z where z: "z \<notin> ?N ` ?I" "MACH_PORT_INDEX z = 0"
    by (metis (no_types, lifting) imageE lessThan_iff)
  have "z \<notin> ?D" using inv z(2) by (auto simp: names_inv_def)
  then have "?N ` ?I \<union> ?D \<subseteq> UNIV - {z}" using z(1) by blast
  moreover have "card (UNIV - {z} :: natural_t set) < 2 ^ 32" by (simp add: card_word)
  ultimately have "card (?N ` ?I \<union> ?D) < 2 ^ 32"
    using card_mono [of "UNIV - {z}" "?N ` ?I \<union> ?D"] by simp
  moreover have "card (?N ` ?I \<union> ?D) = is_table_size space + card ?D"
    using inj sep by (subst card_Un_disjoint) (auto simp: card_image)
  ultimately have "is_table_size space + card ?D < 2 ^ 32" by simp
  moreover have "unat (is_tree_total space) = card ?D" using inv by (simp add: names_inv_def)
  ultimately show ?thesis by (simp add: names_bound_def unat_word_ariths unat_of_nat len)
qed

lemma walk_length: "names_inv space \<Longrightarrow> length (walk space) \<le> unat (names_bound space)"
  by (simp add: bound_exact walk_def table_slots_def) (metis diff_zero length_filter_le length_upt)

lemma round_page_ge:
  assumes page: "env_page env = 2 ^ k" "k < 32" and x: "unat x + 2 ^ k \<le> 2 ^ 32"
  shows "unat x \<le> unat (round_page env x)"
proof -
  let ?y = "x + mask k"
  have m: "env_page env - 1 = mask k" using page(1) by (simp add: mask_eq_exp_minus_1)
  have "(2 :: nat) ^ k < 2 ^ 32" using page(2) by (intro power_strict_increasing) simp_all
  then have "unat (of_nat (2 ^ k - 1) :: natural_t) = 2 ^ k - 1" by (intro unat_index) simp
  then have mk: "unat (mask k :: natural_t) = 2 ^ k - 1" by (metis mask_nat_def of_nat_mask_eq)
  have y: "unat ?y = unat x + (2 ^ k - 1)" using x mk by (subst unat_add_lem [THEN iffD1]) simp_all
  have "round_page env x = ?y - (?y AND mask k)"
    using split_mask [of ?y k] unfolding round_page_def m by (metis add_diff_cancel_right')
  then have "unat (round_page env x) = unat ?y - unat (?y AND mask k)" using unat_sub [OF word_and_le2 [of ?y "mask k"]] by simp
  moreover have "unat (?y AND mask k) \<le> 2 ^ k - 1" using mk word_and_le1 [of ?y "mask k"] by (simp add: word_le_nat_alt)
  moreover have "(1 :: nat) \<le> 2 ^ k" by simp
  ultimately show ?thesis using y by linarith
qed

text \<open>The memory of a listing of fewer than \<open>2\<^sup>2\<^sup>8\<close> names does not wrap around; of \<open>2\<^sup>3\<^sup>0\<close> names it does.\<close>

lemma names_room:
  assumes page: "env_page env = 2 ^ k" "k < 32" and n: "unat n < 2 ^ 28"
  shows "unat n * 4 \<le> unat (round_page env (n * 4))"
proof -
  have n4: "unat (n * 4) = unat n * 4" using n by (simp add: unat_word_ariths)
  have "(2 :: nat) ^ k \<le> 2 ^ 31" using page(2) by (intro power_increasing) simp_all
  then show ?thesis using round_page_ge [OF page, of "n * 4"] n n4 by simp
qed

lemma names_room_wraps: "round_page env (2 ^ 30 * 4) = 0"
proof -
  have "(2 ^ 30 * 4 :: natural_t) = 0" by simp
  then show ?thesis unfolding round_page_def by (simp only: add_0 and.assoc bit.conj_cancel_right)
qed

lemma names_memory_spec:
  assumes "is_active (st_space s)" "env_running env = id" "\<And>sz. env_vm env sz" "2 \<le> fuel"
  shows "names_memory fuel env 0 s = Some (Inr (round_page env (names_bound (st_space s) * 4)), s)"
proof -
  obtain k where "fuel = 2 + k" using le_Suc_ex [OF assms(4)] by blast
  then have "fuel = Suc (Suc k)" by simp
  then show ?thesis using assms(1-3) by (simp add: Let_def)
qed

text \<open>
  C22: With memory, and no other thread in between, \<open>mach_port_names\<close> lists every name of the space once and
  nothing else; each name has the type of its right, a right for a port that died before the call that of a dead name.
  The rights do not change.  It never writes beyond the memory it allocated when the space has fewer than \<open>2\<^sup>2\<^sup>8\<close> entries: the size
  is computed in 32 bits and wraps around for \<open>2\<^sup>3\<^sup>0\<close> of them, which do not fit into a memory of \<open>2\<^sup>3\<^sup>2\<close> bytes.
\<close>

theorem port_names_exact:
  assumes inv: "rights_inv s" and act: "is_active (st_space s)"
    and env: "env_running env = id" "\<And>sz. env_vm env sz" "2 \<le> env_fuel env"
    and page: "env_page env = 2 ^ k" "k < 32"
  shows "\<exists>out s' size. mach_port_names env s = Some (Inr out, s') \<and>
    names_memory (env_fuel env) env 0 s = Some (Inr size, s) \<and>
    (unat (names_bound (st_space s)) < 2 ^ 28 \<longrightarrow> length out * 4 \<le> unat size) \<and>
    distinct (map fst out) \<and> set (map fst out) = dom (caps s) \<and>
    (\<forall>n type. (n, type) \<in> set out \<longrightarrow>
       (\<exists>c. caps s n = Some c \<and> type = listed (fst (ipc_port_timestamp (st_heap s))) (st_heap s) c)) \<and>
    caps s' = caps s"
proof -
  let ?sp = "st_space s" and ?ts = "fst (ipc_port_timestamp (st_heap s))" and ?h = "snd (ipc_port_timestamp (st_heap s))"
  let ?f = "\<lambda>(n, e). (n, listed ?ts ?h (cap e))"
  have names: "names_inv ?sp" using rights_invD(1) [OF inv] by (auto simp: space_good_def)
  have tree: "splay_inv (is_tree ?sp)" using names by (simp add: names_inv_def)
  have self: "\<not> IS_NULL s" using rights_invD(2) [OF inv] by (simp add: IS_NULL_def self_def)
  note w = walk_names [OF names]
  have ok: "right_ok s n (cap e)" if "(n, e) \<in> set (walk ?sp)" for n e
  proof -
    have "caps s n = Some (cap e)" using w(1) that unfolding caps_def by blast
    then show ?thesis by (rule rights_invD(3) [OF inv])
  qed
  let ?helper = "mach_port_names_helper ?ts ?h"
  have "table_names ?helper (is_table ?sp) [0 ..< is_table_size ?sp] [] =
      map ?f (map (\<lambda>i. (MACH_PORT_MAKEB (of_nat i) (ie_bits (is_table ?sp ! i)), is_table ?sp ! i)) (table_slots ?sp))"
    using ok by (subst listed_table) (auto simp: walk_def table_slots_def)
  moreover have "fst (sweep (tree_names ?helper) out (splay_list (is_tree ?sp))) = out @ map ?f (splay_list (is_tree ?sp))" for out
    using ok by (intro listed_tree) (auto simp: walk_def)
  ultimately obtain tree' where tr: "ipc_splay_traverse (tree_names ?helper)
      (table_names ?helper (is_table ?sp) [0 ..< is_table_size ?sp] []) (is_tree ?sp) = Some (map ?f (walk ?sp), tree')"
    "splay_list tree' = splay_list (is_tree ?sp)"
    using traverse_spec [OF tree, of "tree_names ?helper"] by (auto simp: tree_kept walk_def)
  let ?s = "s\<lparr>st_space := ?sp\<lparr>is_tree := tree'\<rparr>, st_heap := ?h\<rparr>"
  have run: "mach_port_names env s = Some (Inr (map ?f (walk ?sp)), ?s)"
    using self tr(1) by (simp add: mach_port_names_def names_memory_spec [OF act env(1-3)] case_prod_unfold Let_def)
  have kept: "caps ?s = caps s"
    by (simp add: caps_def space_caps_alt fun_eq_iff splay_map_def tr(2) split: option.split)
  have fst: "map fst (map ?f (walk ?sp)) = map fst (walk ?sp)" by (simp add: case_prod_unfold comp_def)
  have h: "ports ?h = ports (st_heap s)" by (simp add: ipc_port_timestamp_def)
  have lst: "listed ?ts ?h = listed ?ts (st_heap s)" by (simp add: listed_def h fun_eq_iff)
  have "n \<in> fst ` set (walk ?sp) \<longleftrightarrow> n \<in> dom (caps s)" for n
  proof -
    have "n \<in> fst ` set (walk ?sp) \<longleftrightarrow> (\<exists>e. (n, e) \<in> set (walk ?sp))" by (simp add: image_iff Bex_def)
    also have "\<dots> \<longleftrightarrow> (\<exists>c e. (n, e) \<in> set (walk ?sp) \<and> c = cap e)" by blast
    finally show ?thesis unfolding w(1) caps_def dom_def mem_Collect_eq not_None_eq .
  qed
  then have "set (map fst (walk ?sp)) = dom (caps s)" unfolding set_map by blast
  moreover have "\<exists>c. caps s n = Some c \<and> type = listed ?ts (st_heap s) c" if mem: "(n, type) \<in> set (map ?f (walk ?sp))" for n type
  proof -
    obtain x where x: "(n, type) = ?f x" "x \<in> set (walk ?sp)" using mem [unfolded set_map] by (rule imageE)
    obtain m e where "x = (m, e)" by (rule prod.exhaust)
    then have e: "(n, e) \<in> set (walk ?sp)" "type = listed ?ts (st_heap s) (cap e)" using x by (simp_all add: lst)
    then have "caps s n = Some (cap e)" using w(1) unfolding caps_def by blast
    then show ?thesis using e(2) by blast
  qed
  moreover have "length (map ?f (walk ?sp)) * 4 \<le> unat (round_page env (names_bound ?sp * 4))"
    if "unat (names_bound ?sp) < 2 ^ 28"
    using walk_length [OF names] names_room [OF page that] by simp
  ultimately show ?thesis
    using run kept w(2) names_memory_spec [OF act env(1-3)] unfolding fst [symmetric] by blast
qed

text \<open>A listing of the two rights of a space: a receive right, and a send right for another port.\<close>

theorem port_names_exact_witness:
  "\<exists>out s' size. mach_port_names env0 state2 = Some (Inr out, s') \<and> distinct (map fst out) \<and>
    set (map fst out) = {0x103, 0x203} \<and> names_memory (env_fuel env0) env0 0 state2 = Some (Inr size, state2) \<and>
    length out * 4 \<le> unat size"
proof -
  have env: "env_running env0 = id" "\<And>sz. env_vm env0 sz" "2 \<le> env_fuel env0" "env_page env0 = 2 ^ 12" "(12 :: nat) < 32"
    by (simp_all add: env0_def)
  have "names_bound (st_space state2) < 0x10000000" by code_simp
  then have bound: "unat (names_bound (st_space state2)) < 2 ^ 28" by (simp add: word_less_nat_alt)
  have "fst (the (mach_port_names env0 state2)) = Inr [(0x103, MACH_PORT_TYPE_RECEIVE), (0x203, MACH_PORT_TYPE_SEND)]"
    by code_simp
  moreover obtain out s' size where "mach_port_names env0 state2 = Some (Inr out, s')" "distinct (map fst out)"
    "names_memory (env_fuel env0) env0 0 state2 = Some (Inr size, state2)" "length out * 4 \<le> unat size"
    using port_names_exact [OF state2_facts(1,2) env] bound by blast
  ultimately show ?thesis by (intro exI [of _ out] exI [of _ s'] exI [of _ size]) auto
qed

subsection \<open>Allocating dead names\<close>

lemma new_dead [simp]: "(MACH_PORT_TYPE_DEAD_NAME OR 1) AND IE_BITS_RIGHT_MASK = MACH_PORT_TYPE_DEAD_NAME OR 1"
  "IE_BITS_TYPE (MACH_PORT_TYPE_DEAD_NAME OR 1) = MACH_PORT_TYPE_DEAD_NAME" "urefs_of (MACH_PORT_TYPE_DEAD_NAME OR 1) = 1"
  "MACH_PORT_TYPE_DEAD_NAME \<noteq> 0" "MACH_PORT_TYPE_DEAD_NAME \<noteq> MACH_PORT_TYPE_SEND"
  by (simp_all add: type_values IE_BITS_RIGHT_MASK_def IE_BITS_TYPE_def IE_BITS_TYPE_MASK_def urefs_of_def
      IE_BITS_UREFS_def IE_BITS_UREFS_MASK_def)

text \<open>The first free entry, for which \<open>ipc_object_alloc_dead\<close> asserts that it has no object.\<close>

definition first_free :: "ipc_space \<Rightarrow> ipc_entry" where
  "first_free space = is_table space ! unat (ie_next (is_table space ! 0))"

lemma get_object:
  assumes "ipc_entry_get space = Some (name, entry, space')" "unat (ie_next (is_table space ! 0)) < length (is_table space)"
  shows "ie_object (entry_at space' entry) = ie_object (first_free space)"
proof -
  have "0 \<noteq> unat (ie_next (is_table space ! 0))"
    using assms(1) by (auto simp: ipc_entry_get_def Let_def unat_eq_0 split: if_splits)
  then show ?thesis using assms by (auto simp: ipc_entry_get_def first_free_def Let_def split: if_splits)
qed

lemma alloc_dead_spec:
  assumes inv: "rights_inv s" and act: "is_active (st_space s)" and get: "ipc_entry_get (st_space s) \<noteq> None"
    and clear: "ie_object (first_free (st_space s)) = NULL" and fuel: "0 < env_fuel env"
  shows "\<exists>n s'. ipc_object_alloc_dead env s = Some (Inr n, s') \<and> caps s n = None \<and>
    caps s' = (caps s)(n \<mapsto> (MACH_PORT_TYPE_DEAD_NAME OR 1, NULL, 0)) \<and> st_heap s' = st_heap s \<and> rights_inv s'"
proof -
  obtain name entry s1 where a: "entry_alloc env s = Some (Inr (name, entry), s1)" "opened s name entry s1"
    "caps s name = None" "st_heap s1 = st_heap s" "ie_request (st_entry s1 entry) = 0"
    "ie_bits (st_entry s1 entry) AND IE_BITS_RIGHT_MASK = 0"
    and g: "ipc_entry_get (st_space s) = Some (name, entry, st_space s1)"
    using get_alloc [OF rights_invD(1) [OF inv] get fuel act] by metis
  obtain ns where "free_list (is_table (st_space s)) ns" using rights_invD(1) [OF inv] by (auto simp: space_good_def)
  then have "unat (ie_next (is_table (st_space s) ! 0)) < length (is_table (st_space s))"
    using g by (cases ns) (auto simp: free_list_def ipc_entry_get_def Let_def split: if_splits)
  then have obj: "ie_object (st_entry s1 entry) = NULL"
    using get_object [OF g] clear by (simp add: st_entry_def)
  let ?c = "(MACH_PORT_TYPE_DEAD_NAME OR 1, NULL, 0 :: natural_t)"
  let ?t = "set_entry entry (\<lambda>e. e\<lparr>ie_bits := ie_bits e OR (MACH_PORT_TYPE_DEAD_NAME OR 1)\<rparr>) s1"
  have "(st_entry s1 entry)\<lparr>ie_bits := b, ie_object := NULL\<rparr> = (st_entry s1 entry)\<lparr>ie_bits := b\<rparr>" for b using obj by simp
  then have same: "set_entry entry (\<lambda>e. e\<lparr>ie_bits := ie_bits e OR (MACH_PORT_TYPE_DEAD_NAME OR 1), ie_object := NULL\<rparr>) s1 = ?t"
    unfolding set_entry_def by simp
  have "closed s name (Some ?c) ?t"
    using enter_new [OF a(2,6,5), of "MACH_PORT_TYPE_DEAD_NAME OR 1" _ NULL] same by simp
  moreover have "right_ok s name ?c"
    unfolding right_ok_def prod.case Let_def new_dead by (simp add: right_types_def type_values)
  then have "tidy s name (Some ?c) (st_heap ?t)"
    using tidy_steady [OF inv, of "st_heap ?t" "Some ?c" name] a(3,4) by (simp add: receive_cap_def)
  ultimately have "rights_inv ?t" "caps ?t = (caps s)(name \<mapsto> ?c)"
    using tidy_inv [OF inv] closed_self by blast+
  then show ?thesis using a(1,3,4) by (auto simp: ipc_object_alloc_dead_def)
qed

text \<open>
  C40: Allocating a dead name, with a free entry, enters it under a name that was not in use.  The call with a name
  ignores it: whatever valid name it is given, it succeeds with the same state, in which the dead name is under the one name
  that it would have had without.  A valid name other than that one denotes afterwards what it denoted before.
\<close>

theorem dead_name_ignored:
  assumes inv: "rights_inv s" and act: "is_active (st_space s)" and get: "ipc_entry_get (st_space s) \<noteq> None"
    and clear: "ie_object (first_free (st_space s)) = NULL" and fuel: "0 < env_fuel env"
  shows "\<exists>n s'. caps s n = None \<and> caps s' = (caps s)(n \<mapsto> (MACH_PORT_TYPE_DEAD_NAME OR 1, NULL, 0)) \<and> rights_inv s' \<and>
    (\<forall>name. mach_port_allocate env s MACH_PORT_RIGHT_DEAD_NAME name = Some (Inr n, s')) \<and>
    (\<forall>name. MACH_PORT_VALID name \<longrightarrow>
       mach_port_allocate_name env s MACH_PORT_RIGHT_DEAD_NAME name = Some (KERN_SUCCESS, s') \<and>
       (name \<noteq> n \<longrightarrow> caps s' name = caps s name))"
proof -
  obtain n s' where a: "ipc_object_alloc_dead env s = Some (Inr n, s')" "caps s n = None"
    "caps s' = (caps s)(n \<mapsto> (MACH_PORT_TYPE_DEAD_NAME OR 1, NULL, 0))" "rights_inv s'"
    using alloc_dead_spec [OF inv act get clear fuel] by blast
  have slow: "\<not> is_fast (st_space s)" using rights_invD(1) [OF inv] by (auto simp: space_good_def)
  have r: "MACH_PORT_RIGHT_DEAD_NAME \<noteq> MACH_PORT_RIGHT_RECEIVE" "MACH_PORT_RIGHT_DEAD_NAME \<noteq> MACH_PORT_RIGHT_PORT_SET"
    by (simp_all add: MACH_PORT_RIGHT_DEAD_NAME_def MACH_PORT_RIGHT_RECEIVE_def MACH_PORT_RIGHT_PORT_SET_def)
  have "mach_port_allocate env s MACH_PORT_RIGHT_DEAD_NAME name = Some (Inr n, s')" for name
    using a(1) r slow not_null [OF inv]
    by (simp add: mach_port_allocate_def mach_port_allocate_full_def qos_template_def)
  moreover have "mach_port_allocate_name env s MACH_PORT_RIGHT_DEAD_NAME name = Some (KERN_SUCCESS, s')"
    if "MACH_PORT_VALID name" for name
    using a(1) r slow that not_null [OF inv]
    by (simp add: mach_port_allocate_name_def mach_port_allocate_full_def qos_template_def)
  ultimately show ?thesis using a(2-4) by (intro exI [of _ n] exI [of _ s']) simp
qed

theorem dead_name_ignored_witness:
  "\<exists>s'. mach_port_allocate_name env0 state0 MACH_PORT_RIGHT_DEAD_NAME 0x305 = Some (KERN_SUCCESS, s') \<and>
    mach_port_allocate_name env0 state0 MACH_PORT_RIGHT_DEAD_NAME 0x407 = Some (KERN_SUCCESS, s') \<and>
    caps s' 0x305 = None \<and> caps s' 0x407 = None \<and> caps s' 0x103 = Some (MACH_PORT_TYPE_DEAD_NAME OR 1, NULL, 0)"
proof -
  have f: "ie_object (first_free (st_space state0)) = NULL" "MACH_PORT_VALID 0x305" "MACH_PORT_VALID 0x407" by code_simp+
  from dead_name_ignored [OF state0_inv(1) state0_ready(1,2) f(1) state0_ready(3)] obtain n s' where
    s': "mach_port_allocate env0 state0 MACH_PORT_RIGHT_DEAD_NAME 0x305 = Some (Inr n, s')"
      "mach_port_allocate_name env0 state0 MACH_PORT_RIGHT_DEAD_NAME 0x305 = Some (KERN_SUCCESS, s')"
      "mach_port_allocate_name env0 state0 MACH_PORT_RIGHT_DEAD_NAME 0x407 = Some (KERN_SUCCESS, s')"
      "caps s' = (caps state0)(n \<mapsto> (MACH_PORT_TYPE_DEAD_NAME OR 1, NULL, 0))" using f(2,3) by blast
  have "fst (the (mach_port_allocate env0 state0 MACH_PORT_RIGHT_DEAD_NAME 0x305)) = Inr 0x103" by code_simp
  then have "n = 0x103" using s'(1) by simp
  then show ?thesis using s'(2-4) state0_inv(2) by simp
qed

end
