(* ===== verification/Ipc_Mqueue.thy ===== *)
theory Ipc_Mqueue
  imports Ipc_Object
begin

section \<open>Sending and receiving\<close>

text \<open>
  \<open>ipc/ipc_mqueue.c\<close>: the queues of messages of ports and port sets, and the threads that wait to send or to receive.
  A routine that blocks is cut at its call of \<open>thread_block\<close>: a turn runs up to the return or the block, and a resume is
  what follows the block.  \<open>ith_waiting\<close> is the bit \<open>TH_WAIT\<close> of a thread and \<open>ith_result\<close> its \<open>wait_result\<close>; timers are
  left out.  The queue of a port and the queue of a port set are named by the object they belong to.
\<close>

record ipc_thread =
  ith_state :: mach_msg_return_t
  ith_kmsg :: "ipc_kmsg option"
  ith_seqno :: mach_port_seqno_t
  ith_msize :: natural_t
  ith_waiting :: bool
  ith_result :: wait_result_t

record mq_state =
  mq_heap :: ipc_heap
  mq_threads :: "addr \<Rightarrow> ipc_thread"

datatype mqueue = Port_Queue addr | Pset_Queue addr

fun mqueue_at :: "mqueue \<Rightarrow> ipc_heap \<Rightarrow> ipc_mqueue" where
  "mqueue_at (Port_Queue port) h = ip_messages (ports h port)"
| "mqueue_at (Pset_Queue pset) h = ips_messages (psets h pset)"

fun set_mqueue :: "mqueue \<Rightarrow> ipc_mqueue \<Rightarrow> ipc_heap \<Rightarrow> ipc_heap" where
  "set_mqueue (Port_Queue port) q h = set_port port (\<lambda>p. p\<lparr>ip_messages := q\<rparr>) h"
| "set_mqueue (Pset_Queue pset) q h = set_pset pset (\<lambda>s. s\<lparr>ips_messages := q\<rparr>) h"

abbreviation mq_port :: "mq_state \<Rightarrow> addr \<Rightarrow> ipc_port" where
  "mq_port s port \<equiv> ports (mq_heap s) port"

abbreviation ith :: "mq_state \<Rightarrow> addr \<Rightarrow> ipc_thread" where
  "ith s th \<equiv> mq_threads s th"

definition on_mq_heap :: "(ipc_heap \<Rightarrow> ipc_heap) \<Rightarrow> mq_state \<Rightarrow> mq_state" where
  "on_mq_heap f s = s\<lparr>mq_heap := f (mq_heap s)\<rparr>"

definition on_ith :: "addr \<Rightarrow> (ipc_thread \<Rightarrow> ipc_thread) \<Rightarrow> mq_state \<Rightarrow> mq_state" where
  "on_ith th f s = s\<lparr>mq_threads := (mq_threads s)(th := f (mq_threads s th))\<rparr>"

subsection \<open>Threads\<close>

text \<open>What \<open>thread_go\<close> and \<open>thread_will_wait\<close> do to the two fields, and \<open>clear_wait\<close> with a result.\<close>

definition ith_go :: "ipc_thread \<Rightarrow> ipc_thread" where
  "ith_go t = (if ith_waiting t then t\<lparr>ith_waiting := False, ith_result := THREAD_AWAKENED\<rparr> else t)"

definition ith_will_wait :: "ipc_thread \<Rightarrow> ipc_thread" where
  "ith_will_wait t = t\<lparr>ith_waiting := True\<rparr>"

definition ith_clear_wait :: "wait_result_t \<Rightarrow> ipc_thread \<Rightarrow> ipc_thread" where
  "ith_clear_wait result t = (if ith_waiting t then t\<lparr>ith_waiting := False, ith_result := result\<rparr> else t)"

text \<open>The calls on threads that operations on ports ask for.\<close>

fun run_call :: "ipc_call \<Rightarrow> mq_state \<Rightarrow> mq_state" where
  "run_call (Thread_Go th mr) s = on_ith th (\<lambda>t. ith_go (t\<lparr>ith_state := mr\<rparr>)) s"
| "run_call (Thread_Receive th kmsg seqno) s =
     on_ith th (\<lambda>t. ith_go (t\<lparr>ith_state := MACH_MSG_SUCCESS, ith_kmsg := Some kmsg, ith_seqno := seqno\<rparr>)) s"
| "run_call _ s = s"

definition heap_op :: "(ipc_heap \<Rightarrow> ipc_heap) \<Rightarrow> mq_state \<Rightarrow> mq_state" where
  "heap_op f s =
     (let h = f (mq_heap s) in fold run_call (drop (length (calls (mq_heap s))) (calls h)) (s\<lparr>mq_heap := h\<rparr>))"

subsection \<open>Options\<close>

definition MACH_SEND_TIMEOUT :: natural_t where
  "MACH_SEND_TIMEOUT = 0x00000010"
definition MACH_SEND_ALWAYS :: natural_t where
  "MACH_SEND_ALWAYS = 0x00010000"
definition MACH_RCV_TIMEOUT :: natural_t where
  "MACH_RCV_TIMEOUT = 0x00000100"
definition MACH_MSG_TIMEOUT_NONE :: natural_t where
  "MACH_MSG_TIMEOUT_NONE = 0"
definition MACH_MSGH_BITS_REMOTE_MASK :: natural_t where
  "MACH_MSGH_BITS_REMOTE_MASK = 0x000000ff"
definition MACH_MSGH_BITS_CIRCULAR :: natural_t where
  "MACH_MSGH_BITS_CIRCULAR = 0x40000000"
definition MACH_MSGH_BITS_REMOTE :: "natural_t \<Rightarrow> natural_t" where
  "MACH_MSGH_BITS_REMOTE bits = bits AND MACH_MSGH_BITS_REMOTE_MASK"

definition trailer_size :: "natural_t list" where
  "trailer_size = [8, 12, 20]"
definition GET_RCV_ELEMENTS :: "natural_t \<Rightarrow> natural_t" where
  "GET_RCV_ELEMENTS y = drop_bit 24 y AND 0xf"

text \<open>\<open>None\<close> reads past the end of the array.\<close>

definition REQUESTED_TRAILER_SIZE :: "natural_t \<Rightarrow> natural_t option" where
  "REQUESTED_TRAILER_SIZE y =
     (let i = unat (GET_RCV_ELEMENTS y) in if i < length trailer_size then Some (trailer_size ! i) else None)"

subsection \<open>Sending\<close>

definition port_mqueue :: "ipc_heap \<Rightarrow> addr \<Rightarrow> mqueue" where
  "port_mqueue h port = (if ip_pset (ports h port) = NULL then Port_Queue port else Pset_Queue (ip_pset (ports h port)))"

definition ipc_mqueue_deliver :: "addr \<Rightarrow> ipc_kmsg \<Rightarrow> mq_state \<Rightarrow> mq_state" where
  "ipc_mqueue_deliver port kmsg s =
     (let mqueue = port_mqueue (mq_heap s) port;
          s = on_mq_heap (set_port port (\<lambda>p. p\<lparr>ip_msgcount := ip_msgcount p + 1\<rparr>)) s;
          q = mqueue_at mqueue (mq_heap s)
      in case imq_threads q of
           [] \<Rightarrow> on_mq_heap (set_mqueue mqueue (q\<lparr>imq_messages := imq_messages q @ [kmsg]\<rparr>)) s
         | receiver # receivers \<Rightarrow>
             let s = on_mq_heap (set_mqueue mqueue (q\<lparr>imq_threads := receivers\<rparr>)) s;
                 seqno = ip_seqno (mq_port s port);
                 s = on_ith receiver (\<lambda>t. t\<lparr>ith_state := MACH_MSG_SUCCESS, ith_kmsg := Some kmsg, ith_seqno := seqno\<rparr>) s;
                 s = on_mq_heap (set_port port (\<lambda>p. p\<lparr>ip_seqno := ip_seqno p + 1\<rparr>)) s
             in on_ith receiver ith_go s)"

text \<open>
  One turn of the loop of \<open>ipc_mqueue_send\<close>.  The outcome is the return, whether the message was delivered (a dead port
  swallows it), or the block.
\<close>

datatype send_outcome = Send_Delivered | Send_Return mach_msg_return_t | Send_Blocks

definition may_send :: "ipc_port \<Rightarrow> ipc_kmsg \<Rightarrow> natural_t \<Rightarrow> bool" where
  "may_send p kmsg option \<longleftrightarrow>
     ip_msgcount p < ip_qlimit p \<or> option AND MACH_SEND_ALWAYS \<noteq> 0 \<or>
     MACH_MSGH_BITS_REMOTE (msgh_bits kmsg) = MACH_MSG_TYPE_PORT_SEND_ONCE"

definition send_dead_port :: "addr \<Rightarrow> ipc_kmsg \<Rightarrow> mq_state \<Rightarrow> mq_state" where
  "send_dead_port port kmsg =
     on_mq_heap (call (Kmsg_Destroy (kmsg\<lparr>msgh_remote_port := MACH_PORT_NULL\<rparr>)) \<circ> ip_check_unlock port \<circ> ip_release port)"

definition ipc_mqueue_send_turn ::
  "addr \<Rightarrow> ipc_kmsg \<Rightarrow> natural_t \<Rightarrow> natural_t \<Rightarrow> mq_state \<Rightarrow> send_outcome \<times> mq_state" where
  "ipc_mqueue_send_turn self kmsg option timeout s =
     (let port = msgh_remote_port kmsg in
      if \<not> ip_active (mq_port s port) then
        (Send_Return MACH_MSG_SUCCESS, send_dead_port port kmsg s)
      else if may_send (mq_port s port) kmsg option then (Send_Delivered, ipc_mqueue_deliver port kmsg s)
      else if option AND MACH_SEND_TIMEOUT \<noteq> 0 \<and> timeout = 0 then (Send_Return MACH_SEND_TIMED_OUT, s)
      else
        let s = on_ith self (\<lambda>t. t\<lparr>ith_state := MACH_SEND_IN_PROGRESS\<rparr>) s;
            s = on_mq_heap (set_port port (\<lambda>p. p\<lparr>ip_blocked := ip_blocked p @ [self]\<rparr>)) s
        in (Send_Blocks, on_ith self ith_will_wait s))"

text \<open>After the block; \<open>None\<close> is the panic.\<close>

definition ipc_mqueue_send_resume ::
  "addr \<Rightarrow> ipc_kmsg \<Rightarrow> natural_t \<Rightarrow> natural_t \<Rightarrow> mq_state \<Rightarrow> (send_outcome \<times> mq_state) option" where
  "ipc_mqueue_send_resume self kmsg option timeout s =
     (if ith_state (ith s self) = MACH_MSG_SUCCESS then Some (ipc_mqueue_send_turn self kmsg option timeout s)
      else case ith_result (ith s self) of
        THREAD_INTERRUPTED \<Rightarrow> Some (Send_Return MACH_SEND_INTERRUPTED, s)
      | THREAD_TIMED_OUT \<Rightarrow> Some (ipc_mqueue_send_turn self kmsg option 0 s)
      | _ \<Rightarrow> None)"

text \<open>
  The routine up to its return or first block.  The kernel's server of messages is an argument, with the address of the
  kernel's space; the reply it gives is sent in turn, to a port of the kernel again only as often as the fuel allows.
\<close>

record kernel_env =
  ipc_space_kernel :: addr
  ipc_kobject_server :: "ipc_kmsg \<Rightarrow> mq_state \<Rightarrow> ipc_kmsg option \<times> mq_state"

fun ipc_mqueue_send ::
  "kernel_env \<Rightarrow> nat \<Rightarrow> addr \<Rightarrow> ipc_kmsg \<Rightarrow> natural_t \<Rightarrow> natural_t \<Rightarrow> mq_state \<Rightarrow> (send_outcome \<times> mq_state) option" where
  "ipc_mqueue_send env 0 self kmsg option timeout s = None"
| "ipc_mqueue_send env (Suc n) self kmsg option timeout s =
     (let port = msgh_remote_port kmsg in
      if ip_receiver (mq_port s port) = ipc_space_kernel env then
        case ipc_kobject_server env kmsg s of
          (None, s) \<Rightarrow> Some (Send_Return MACH_MSG_SUCCESS, s)
        | (Some reply, s) \<Rightarrow>
            map_option (\<lambda>(_, s). (Send_Return MACH_MSG_SUCCESS, s))
              (ipc_mqueue_send env n self reply MACH_SEND_ALWAYS MACH_MSG_TIMEOUT_NONE s)
      else if msgh_bits kmsg AND MACH_MSGH_BITS_CIRCULAR \<noteq> 0 then
        Some (Send_Return MACH_MSG_SUCCESS, on_mq_heap (call (Kmsg_Destroy kmsg)) s)
      else Some (ipc_mqueue_send_turn self kmsg option timeout s))"

subsection \<open>Receiving\<close>

datatype receive_outcome = Receive_Message ipc_kmsg mach_port_seqno_t | Receive_Return mach_msg_return_t | Receive_Blocks

definition ipc_mqueue_receive ::
  "addr \<Rightarrow> mqueue \<Rightarrow> natural_t \<Rightarrow> natural_t \<Rightarrow> natural_t \<Rightarrow> mq_state \<Rightarrow> receive_outcome \<times> mq_state" where
  "ipc_mqueue_receive self mqueue option max_size timeout s =
     (let q = mqueue_at mqueue (mq_heap s) in
      case imq_messages q of
        kmsg # kmsgs \<Rightarrow>
          let s = on_mq_heap (set_mqueue mqueue (q\<lparr>imq_messages := kmsgs\<rparr>)) s;
              port = msgh_remote_port kmsg;
              seqno = ip_seqno (mq_port s port)
          in (Receive_Message kmsg seqno, on_mq_heap (set_port port (\<lambda>p. p\<lparr>ip_seqno := ip_seqno p + 1\<rparr>)) s)
      | [] \<Rightarrow>
          if option AND MACH_RCV_TIMEOUT \<noteq> 0 \<and> timeout = 0 then (Receive_Return MACH_RCV_TIMED_OUT, s)
          else
            let s = on_ith self (\<lambda>t. t\<lparr>ith_state := if option AND MACH_RCV_TIMEOUT \<noteq> 0 then MACH_RCV_IN_PROGRESS_TIMED
                                              else MACH_RCV_IN_PROGRESS, ith_msize := max_size\<rparr>) s;
                s = on_mq_heap (set_mqueue mqueue (q\<lparr>imq_threads := imq_threads q @ [self]\<rparr>)) s
            in (Receive_Blocks, on_ith self ith_will_wait s))"

text \<open>After the block; \<open>None\<close> is a panic, or a message that is not there.\<close>

definition ipc_mqueue_receive_resume ::
  "addr \<Rightarrow> mqueue \<Rightarrow> natural_t \<Rightarrow> natural_t \<Rightarrow> natural_t \<Rightarrow> mq_state \<Rightarrow> (receive_outcome \<times> mq_state) option" where
  "ipc_mqueue_receive_resume self mqueue option max_size timeout s =
     (let t = ith s self in
      case ith_state t of
        MACH_MSG_SUCCESS \<Rightarrow> map_option (\<lambda>kmsg. (Receive_Message kmsg (ith_seqno t), s)) (ith_kmsg t)
      | MACH_RCV_PORT_DIED \<Rightarrow> Some (Receive_Return MACH_RCV_PORT_DIED, s)
      | MACH_RCV_PORT_CHANGED \<Rightarrow> Some (Receive_Return MACH_RCV_PORT_CHANGED, s)
      | st \<Rightarrow>
          if st = MACH_RCV_IN_PROGRESS \<or> st = MACH_RCV_IN_PROGRESS_TIMED then
            let q = mqueue_at mqueue (mq_heap s);
                s = on_mq_heap (set_mqueue mqueue (q\<lparr>imq_threads := remove1 self (imq_threads q)\<rparr>)) s
            in case ith_result t of
                 THREAD_INTERRUPTED \<Rightarrow> Some (Receive_Return MACH_RCV_INTERRUPTED, s)
               | THREAD_TIMED_OUT \<Rightarrow> Some (ipc_mqueue_receive self mqueue option max_size 0 s)
               | _ \<Rightarrow> None
          else None)"

text \<open>
  \<open>scatter\<close> is the check of the scatter list of the thread, if it has one.  \<open>None\<close> reads the trailer sizes out of range.
\<close>

definition ipc_mqueue_finish_receive ::
  "(ipc_kmsg \<Rightarrow> mach_msg_return_t) option \<Rightarrow> ipc_kmsg \<Rightarrow> addr \<Rightarrow> natural_t \<Rightarrow> natural_t \<Rightarrow> mq_state \<Rightarrow>
   (mach_msg_return_t \<times> mq_state) option" where
  "ipc_mqueue_finish_receive scatter kmsg port option max_size s =
     map_option (\<lambda>size.
       let mr = (if msgh_size kmsg > max_size - size then MACH_RCV_TOO_LARGE
                 else case scatter of None \<Rightarrow> MACH_MSG_SUCCESS | Some check \<Rightarrow> check kmsg);
           s = (if ip_active (mq_port s port) then
                  let s = on_mq_heap (set_port port (\<lambda>p. p\<lparr>ip_msgcount := ip_msgcount p - 1\<rparr>)) s;
                      p = mq_port s port
                  in case ip_blocked p of
                       [] \<Rightarrow> s
                     | sender # senders \<Rightarrow>
                         if ip_msgcount p < ip_qlimit p then
                           let s = on_mq_heap (set_port port (\<lambda>p. p\<lparr>ip_blocked := senders\<rparr>)) s;
                               s = on_ith sender (\<lambda>t. t\<lparr>ith_state := MACH_MSG_SUCCESS\<rparr>) s
                           in on_ith sender ith_go s
                         else s
                else s)
       in (mr, s)) (REQUESTED_TRAILER_SIZE option)"

text \<open>What both sides make of a name (\<open>ipc_mqueue_copyin\<close>): the queue and the object, with a reference to it.\<close>

definition ipc_mqueue_copyin :: "ipc_state \<Rightarrow> mach_port_t \<Rightarrow> (mach_msg_return_t + mqueue \<times> addr) \<times> ipc_state" where
  "ipc_mqueue_copyin s name =
     (if \<not> is_active (st_space s) then (Inl MACH_RCV_INVALID_NAME, s)
      else case ipc_entry_lookup (st_space s) name of
        (None, sp) \<Rightarrow> (Inl MACH_RCV_INVALID_NAME, s\<lparr>st_space := sp\<rparr>)
      | (Some entry, sp) \<Rightarrow>
          let s = s\<lparr>st_space := sp\<rparr>; bits = ie_bits (st_entry s entry); object = ie_object (st_entry s entry) in
          if bits AND MACH_PORT_TYPE_RECEIVE \<noteq> 0 then
            let pset = ip_pset (st_port s object) in
            if pset \<noteq> NULL \<and> ips_active (psets (st_heap s) pset) then (Inl MACH_RCV_IN_SET, s)
            else
              let s = (if pset \<noteq> NULL then on_heap (ips_check_unlock pset \<circ> ipc_pset_remove pset object) s else s)
              in (Inr (Port_Queue object, object), on_heap (ip_reference object) s)
          else if bits AND MACH_PORT_TYPE_PORT_SET \<noteq> 0 then
            (Inr (Pset_Queue object, object), on_heap (ips_reference object) s)
          else (Inl MACH_RCV_INVALID_NAME, s))"

end
