(* ===== verification/Mq_Phase.thy ===== *)
theory Mq_Phase
  imports Ipc_Mqueue
begin

section \<open>What senders and receivers are doing\<close>

text \<open>
  The specification of the queues of messages.  A thread is in one of five phases.  \<open>queues_ok\<close> says how the phases, the
  queues of threads, the queues of messages and the counts of the ports fit together; one lemma for each change of the
  queues that \<open>ipc/ipc_mqueue.c\<close> makes shows that it keeps this.  \<open>thr\<close> and \<open>msgs\<close> are the threads and messages of a
  queue, \<open>blk\<close> the senders blocked at a port, \<open>cnt\<close> and \<open>lim\<close> its count of messages and limit, \<open>mq\<close> its queue and
  \<open>act\<close> whether it is active.
\<close>

datatype phase =
    Outside | Blocked addr | Awake addr | Waits mqueue | Holds addr | Broken

definition in_phase :: "(addr \<Rightarrow> phase) \<Rightarrow> phase \<Rightarrow> nat" where
  "in_phase ph v = card {th. ph th = v}"

lemma in_phase_upd:
  assumes "finite {th. ph th \<noteq> Outside}" and "v \<noteq> Outside"
  shows "in_phase (ph(th := w)) v + of_bool (ph th = v) = in_phase ph v + of_bool (w = v)"
proof -
  have fin: "finite {t. ph t = v}" using assms by (auto elim: rev_finite_subset)
  have "{t. (ph(th := w)) t = v} = (if w = v then insert th {t. ph t = v} else {t. ph t = v} - {th})" by auto
  then show ?thesis using fin card_Suc_Diff1 [OF fin, of th]
    by (cases "ph th = v") (auto simp: in_phase_def card_insert_if insert_absorb)
qed

lemma finite_phase_upd: "finite {th. ph th \<noteq> Outside} \<Longrightarrow> finite {th. (ph(x := w)) th \<noteq> Outside}"
  by (rule finite_subset [of _ "insert x {th. ph th \<noteq> Outside}"]) auto

lemma in_phase_pos: "finite {th. ph th \<noteq> Outside} \<Longrightarrow> ph th = v \<Longrightarrow> v \<noteq> Outside \<Longrightarrow> 0 < in_phase ph v"
  unfolding in_phase_def card_gt_0_iff by (auto elim: rev_finite_subset)

text \<open>The messages of a port, in its queue.\<close>

definition of_port :: "addr \<Rightarrow> ipc_kmsg list \<Rightarrow> ipc_kmsg list" where
  "of_port port = filter (\<lambda>k. msgh_remote_port k = port)"

lemma of_port_simps [simp]:
  "of_port p [] = []" "of_port p (k # ks) = (if msgh_remote_port k = p then k # of_port p ks else of_port p ks)"
  "of_port p (ks @ ls) = of_port p ks @ of_port p ls"
  by (simp_all add: of_port_def)

record mq_view =
  ph :: "addr \<Rightarrow> phase"
  thr :: "mqueue \<Rightarrow> addr list"
  msgs :: "mqueue \<Rightarrow> ipc_kmsg list"
  blk :: "addr \<Rightarrow> addr list"
  cnt :: "addr \<Rightarrow> mach_port_msgcount_t"
  lim :: "addr \<Rightarrow> mach_port_msgcount_t"
  mq :: "addr \<Rightarrow> mqueue"
  act :: "addr \<Rightarrow> bool"

definition threads_ok :: "mq_view \<Rightarrow> bool" where
  "threads_ok v \<longleftrightarrow> finite {th. ph v th \<noteq> Outside} \<and> (\<forall>th. ph v th \<noteq> Broken) \<and>
     (\<forall>q. distinct (thr v q) \<and> set (thr v q) = {th. ph v th = Waits q}) \<and>
     (\<forall>p. distinct (blk v p) \<and> set (blk v p) = {th. ph v th = Blocked p}) \<and>
     (\<forall>th p. ph v th \<in> {Blocked p, Awake p, Holds p} \<longrightarrow> act v p)"

definition messages_ok :: "mq_view \<Rightarrow> bool" where
  "messages_ok v \<longleftrightarrow>
     (\<forall>q. thr v q = [] \<or> msgs v q = []) \<and>
     (\<forall>q. \<forall>k \<in> set (msgs v q). mq v (msgh_remote_port k) = q \<and> act v (msgh_remote_port k)) \<and>
     (\<forall>p. act v p \<longrightarrow> unat (cnt v p) = length (of_port p (msgs v (mq v p))) + in_phase (ph v) (Holds p))"

text \<open>A blocked sender has a reason: the messages there are and the senders woken to send one reach the limit.\<close>

definition senders_ok :: "mq_view \<Rightarrow> bool" where
  "senders_ok v \<longleftrightarrow> (\<forall>p. blk v p \<noteq> [] \<longrightarrow> unat (lim v p) \<le> unat (cnt v p) + in_phase (ph v) (Awake p))"

definition queues_ok :: "mq_view \<Rightarrow> bool" where
  "queues_ok v \<longleftrightarrow> threads_ok v \<and> messages_ok v \<and> senders_ok v"

lemmas queues_ok_defs = queues_ok_def threads_ok_def messages_ok_def senders_ok_def

subsection \<open>The changes\<close>

definition v_enqueue :: "addr \<Rightarrow> ipc_kmsg \<Rightarrow> addr \<Rightarrow> mq_view \<Rightarrow> mq_view" where
  "v_enqueue p k self v = v\<lparr>cnt := (cnt v)(p := cnt v p + 1), msgs := (msgs v)(mq v p := msgs v (mq v p) @ [k]),
     ph := (ph v)(self := Outside)\<rparr>"

definition v_hand :: "addr \<Rightarrow> addr \<Rightarrow> mq_view \<Rightarrow> mq_view" where
  "v_hand p self v = v\<lparr>cnt := (cnt v)(p := cnt v p + 1), thr := (thr v)(mq v p := tl (thr v (mq v p))),
     ph := (ph v)(self := Outside, hd (thr v (mq v p)) := Holds p)\<rparr>"

definition v_block :: "addr \<Rightarrow> addr \<Rightarrow> mq_view \<Rightarrow> mq_view" where
  "v_block p self v = v\<lparr>blk := (blk v)(p := blk v p @ [self]), ph := (ph v)(self := Blocked p)\<rparr>"

definition v_leave :: "addr \<Rightarrow> mq_view \<Rightarrow> mq_view" where
  "v_leave self v = v\<lparr>ph := (ph v)(self := Outside)\<rparr>"

definition v_take :: "mqueue \<Rightarrow> addr \<Rightarrow> mq_view \<Rightarrow> mq_view" where
  "v_take q self v = v\<lparr>msgs := (msgs v)(q := tl (msgs v q)), ph := (ph v)(self := Holds (msgh_remote_port (hd (msgs v q))))\<rparr>"

definition v_wait :: "mqueue \<Rightarrow> addr \<Rightarrow> mq_view \<Rightarrow> mq_view" where
  "v_wait q self v = v\<lparr>thr := (thr v)(q := thr v q @ [self]), ph := (ph v)(self := Waits q)\<rparr>"

definition v_give_up :: "mqueue \<Rightarrow> addr \<Rightarrow> mq_view \<Rightarrow> mq_view" where
  "v_give_up q self v = v\<lparr>thr := (thr v)(q := remove1 self (thr v q)), ph := (ph v)(self := Outside)\<rparr>"

definition v_release :: "addr \<Rightarrow> addr \<Rightarrow> mq_view \<Rightarrow> mq_view" where
  "v_release p self v =
     (let v = v\<lparr>cnt := (cnt v)(p := cnt v p - 1), ph := (ph v)(self := Outside)\<rparr> in
      if blk v p \<noteq> [] \<and> cnt v p < lim v p
      then v\<lparr>blk := (blk v)(p := tl (blk v p)), ph := (ph v)(hd (blk v p) := Awake p)\<rparr> else v)"

definition v_limit :: "addr \<Rightarrow> mach_port_msgcount_t \<Rightarrow> mq_view \<Rightarrow> mq_view" where
  "v_limit p l v =
     (let n = (if lim v p < l then unat (l - lim v p) else 0)
      in v\<lparr>lim := (lim v)(p := l), blk := (blk v)(p := drop n (blk v p)),
           ph := (\<lambda>th. if th \<in> set (take n (blk v p)) then Awake p else ph v th)\<rparr>)"

lemma in_phase_upds:
  assumes "finite {th. ph v th \<noteq> Outside}"
  shows "in_phase ((ph v)(th := w)) (Holds p) + of_bool (ph v th = Holds p) = in_phase (ph v) (Holds p) + of_bool (w = Holds p)"
    "in_phase ((ph v)(th := w)) (Awake p) + of_bool (ph v th = Awake p) = in_phase (ph v) (Awake p) + of_bool (w = Awake p)"
  using in_phase_upd [OF assms] by simp_all

lemma queues_okD:
  assumes "queues_ok v"
  shows "finite {th. ph v th \<noteq> Outside}" "ph v th \<noteq> Broken" "distinct (thr v q)" "th \<in> set (thr v q) \<longleftrightarrow> ph v th = Waits q"
    "distinct (blk v p)" "th \<in> set (blk v p) \<longleftrightarrow> ph v th = Blocked p"
    "ph v th \<in> {Blocked p, Awake p, Holds p} \<Longrightarrow> act v p"
    "thr v q = [] \<or> msgs v q = []"
    "k \<in> set (msgs v q) \<Longrightarrow> mq v (msgh_remote_port k) = q \<and> act v (msgh_remote_port k)"
    "act v p \<Longrightarrow> unat (cnt v p) = length (of_port p (msgs v (mq v p))) + in_phase (ph v) (Holds p)"
    "blk v p \<noteq> [] \<Longrightarrow> unat (lim v p) \<le> unat (cnt v p) + in_phase (ph v) (Awake p)"
  using assms unfolding queues_ok_defs by blast+

lemma queues_okI:
  assumes "finite {th. ph v th \<noteq> Outside}" "\<And>th. ph v th \<noteq> Broken"
    "\<And>q. distinct (thr v q)" "\<And>q th. th \<in> set (thr v q) \<longleftrightarrow> ph v th = Waits q"
    "\<And>p. distinct (blk v p)" "\<And>p th. th \<in> set (blk v p) \<longleftrightarrow> ph v th = Blocked p"
    "\<And>th p. ph v th \<in> {Blocked p, Awake p, Holds p} \<Longrightarrow> act v p"
    "\<And>q. thr v q = [] \<or> msgs v q = []"
    "\<And>k q. k \<in> set (msgs v q) \<Longrightarrow> mq v (msgh_remote_port k) = q \<and> act v (msgh_remote_port k)"
    "\<And>p. act v p \<Longrightarrow> unat (cnt v p) = length (of_port p (msgs v (mq v p))) + in_phase (ph v) (Holds p)"
    "\<And>p. blk v p \<noteq> [] \<Longrightarrow> unat (lim v p) \<le> unat (cnt v p) + in_phase (ph v) (Awake p)"
  shows "queues_ok v"
  unfolding queues_ok_defs using assms by blast

lemma queues_enqueue:
  assumes ok: "queues_ok v" and p: "act v p" "thr v (mq v p) = []" "cnt v p + 1 \<noteq> 0" "msgh_remote_port k = p"
    and self: "ph v self \<in> {Outside, Awake p}"
  shows "queues_ok (v_enqueue p k self v)"
proof -
  note D = queues_okD [OF ok]
  have c: "unat (cnt v p + 1) = Suc (unat (cnt v p))" using p(3) by (simp add: add.commute unatSuc)
  note n = in_phase_upds [OF D(1), of self Outside]
  show ?thesis
  proof (rule queues_okI, goal_cases)
    case 1 then show ?case using finite_phase_upd [OF D(1), of self Outside] by (simp add: v_enqueue_def)
  next case 2 then show ?case using D(2) by (simp add: v_enqueue_def)
  next case 3 then show ?case using D(3) by (simp add: v_enqueue_def)
  next case (4 q th) then show ?case using D(4) [of th q] self by (auto simp: v_enqueue_def)
  next case 5 then show ?case using D(5) by (simp add: v_enqueue_def)
  next case (6 q th) then show ?case using D(6) [of th q] self by (auto simp: v_enqueue_def)
  next case (7 th q) then show ?case using D(7) [of th q] by (auto simp: v_enqueue_def split: if_splits)
  next case (8 q) then show ?case using D(8) [of q] p by (auto simp: v_enqueue_def)
  next case (9 k' q) then show ?case using D(9) [of k' q] p by (auto simp: v_enqueue_def split: if_splits)
  next case (10 q) then show ?case using D(10) [of q] n(1) [of q] self c p by (auto simp: v_enqueue_def)
  next case (11 q) then show ?case using D(11) [of q] n(2) [of q] self c by (auto simp: v_enqueue_def split: if_splits)
  qed
qed

lemma queues_hand:
  assumes ok: "queues_ok v" and p: "act v p" "thr v (mq v p) \<noteq> []" "cnt v p + 1 \<noteq> 0" and self: "ph v self \<in> {Outside, Awake p}"
  shows "queues_ok (v_hand p self v)"
proof -
  note D = queues_okD [OF ok]
  obtain r rs where rs: "thr v (mq v p) = r # rs" using p(2) by (cases "thr v (mq v p)") auto
  have r: "ph v r = Waits (mq v p)" "r \<notin> set rs" "r \<noteq> self" using D(4) [of r "mq v p"] D(3) [of "mq v p"] self rs by auto
  have c: "unat (cnt v p + 1) = Suc (unat (cnt v p))" using p(3) by (simp add: add.commute unatSuc)
  have f: "finite {th. ph (v\<lparr>ph := (ph v)(self := Outside)\<rparr>) th \<noteq> Outside}" using finite_phase_upd [OF D(1), of self Outside] by simp
  note n = in_phase_upds [OF D(1), of self Outside] in_phase_upds [OF f, of r "Holds p", simplified]
  show ?thesis
  proof (rule queues_okI, goal_cases)
    case 1 then show ?case using finite_phase_upd [OF f, of r "Holds p"] by (simp add: v_hand_def rs)
  next case 2 then show ?case using D(2) by (simp add: v_hand_def)
  next case (3 q) then show ?case using D(3) [of q] rs by (auto simp: v_hand_def)
  next case (4 q th) then show ?case using D(4) [of th q] self r by (auto simp: v_hand_def rs)
  next case 5 then show ?case using D(5) by (simp add: v_hand_def)
  next case (6 q th) then show ?case using D(6) [of th q] self r by (auto simp: v_hand_def rs)
  next case (7 th q) then show ?case using D(7) [of th q] p by (auto simp: v_hand_def split: if_splits)
  next case (8 q) then show ?case using D(8) [of q] p by (auto simp: v_hand_def rs)
  next case (9 k' q) then show ?case using D(9) [of k' q] p by (auto simp: v_hand_def split: if_splits)
  next case (10 q) then show ?case using D(10) [of q] n(1) [of q] n(3) [of q] self r c by (auto simp: v_hand_def rs)
  next case (11 q) then show ?case using D(11) [of q] n(2) [of q] n(4) [of q] self r c by (auto simp: v_hand_def rs split: if_splits)
  qed
qed

lemma queues_block:
  assumes ok: "queues_ok v" and p: "act v p" "lim v p \<le> cnt v p" and self: "ph v self \<in> {Outside, Awake p}"
  shows "queues_ok (v_block p self v)"
proof -
  note D = queues_okD [OF ok]
  note n = in_phase_upds [OF D(1), of self "Blocked p"]
  have l: "unat (lim v p) \<le> unat (cnt v p)" using p(2) by (simp add: word_le_nat_alt)
  show ?thesis
  proof (rule queues_okI, goal_cases)
    case 1 then show ?case using finite_phase_upd [OF D(1), of self "Blocked p"] by (simp add: v_block_def)
  next case 2 then show ?case using D(2) by (simp add: v_block_def)
  next case 3 then show ?case using D(3) by (simp add: v_block_def)
  next case (4 q th) then show ?case using D(4) [of th q] self by (auto simp: v_block_def)
  next case (5 q) then show ?case using D(5) [of q] D(6) [of self p] self by (auto simp: v_block_def)
  next case (6 q th) then show ?case using D(6) [of th q] self by (auto simp: v_block_def)
  next case (7 th q) then show ?case using D(7) [of th q] p by (auto simp: v_block_def split: if_splits)
  next case (8 q) then show ?case using D(8) [of q] by (simp add: v_block_def)
  next case (9 k' q) then show ?case using D(9) [of k' q] by (simp add: v_block_def)
  next case (10 q) then show ?case using D(10) [of q] n(1) [of q] self by (auto simp: v_block_def)
  next case (11 q) then show ?case using D(11) [of q] n(2) [of q] self l by (auto simp: v_block_def split: if_splits)
  qed
qed

lemma queues_leave:
  assumes ok: "queues_ok v" and self: "ph v self = Outside \<or> (\<exists>p. ph v self = Awake p \<and> lim v p \<le> cnt v p)"
  shows "queues_ok (v_leave self v)"
proof -
  note D = queues_okD [OF ok]
  note n = in_phase_upds [OF D(1), of self Outside]
  show ?thesis
  proof (rule queues_okI, goal_cases)
    case 1 then show ?case using finite_phase_upd [OF D(1), of self Outside] by (simp add: v_leave_def)
  next case 2 then show ?case using D(2) by (simp add: v_leave_def)
  next case 3 then show ?case using D(3) by (simp add: v_leave_def)
  next case (4 q th) then show ?case using D(4) [of th q] self by (auto simp: v_leave_def)
  next case (5 q) then show ?case using D(5) [of q] by (simp add: v_leave_def)
  next case (6 q th) then show ?case using D(6) [of th q] self by (auto simp: v_leave_def)
  next case (7 th q) then show ?case using D(7) [of th q] by (auto simp: v_leave_def split: if_splits)
  next case (8 q) then show ?case using D(8) [of q] by (simp add: v_leave_def)
  next case (9 k' q) then show ?case using D(9) [of k' q] by (simp add: v_leave_def)
  next case (10 q) then show ?case using D(10) [of q] n(1) [of q] self by (auto simp: v_leave_def)
  next case (11 q)
    then show ?case using D(11) [of q] n(2) [of q] self
      by (cases "ph v self = Awake q") (auto simp: v_leave_def word_le_nat_alt)
  qed
qed

lemma queues_take:
  assumes ok: "queues_ok v" and q: "msgs v q \<noteq> []" and self: "ph v self = Outside"
  shows "queues_ok (v_take q self v)"
proof -
  note D = queues_okD [OF ok]
  obtain k ks where ks: "msgs v q = k # ks" using q by (cases "msgs v q") auto
  let ?p = "msgh_remote_port k"
  have k: "mq v ?p = q" "act v ?p" "thr v q = []" using D(9) [of k q] D(8) [of q] ks by auto
  note n = in_phase_upds [OF D(1), of self "Holds ?p"]
  show ?thesis
  proof (rule queues_okI, goal_cases)
    case 1 then show ?case using finite_phase_upd [OF D(1), of self "Holds ?p"] by (simp add: v_take_def ks)
  next case 2 then show ?case using D(2) by (simp add: v_take_def)
  next case 3 then show ?case using D(3) by (simp add: v_take_def)
  next case (4 q th) then show ?case using D(4) [of th q] self by (auto simp: v_take_def)
  next case (5 q) then show ?case using D(5) [of q] by (simp add: v_take_def)
  next case (6 q th) then show ?case using D(6) [of th q] self by (auto simp: v_take_def)
  next case (7 th q) then show ?case using D(7) [of th q] k by (auto simp: v_take_def ks split: if_splits)
  next case (8 q) then show ?case using D(8) [of q] k by (auto simp: v_take_def)
  next case (9 k' q') then show ?case using D(9) [of k' q'] by (auto simp: v_take_def ks split: if_splits)
  next case (10 p) then show ?case using D(10) [of p] n(1) [of p] self k by (auto simp: v_take_def ks)
  next case (11 p) then show ?case using D(11) [of p] n(2) [of p] self by (auto simp: v_take_def ks)
  qed
qed

lemma queues_wait:
  assumes ok: "queues_ok v" and q: "msgs v q = []" and self: "ph v self = Outside"
  shows "queues_ok (v_wait q self v)"
proof -
  note D = queues_okD [OF ok]
  note n = in_phase_upds [OF D(1), of self "Waits q"]
  show ?thesis
  proof (rule queues_okI, goal_cases)
    case 1 then show ?case using finite_phase_upd [OF D(1), of self "Waits q"] by (simp add: v_wait_def)
  next case 2 then show ?case using D(2) by (simp add: v_wait_def)
  next case (3 q') then show ?case using D(3) [of q'] D(4) [of self q'] self by (auto simp: v_wait_def)
  next case (4 q th) then show ?case using D(4) [of th q] self by (auto simp: v_wait_def)
  next case (5 q) then show ?case using D(5) [of q] by (simp add: v_wait_def)
  next case (6 q th) then show ?case using D(6) [of th q] self by (auto simp: v_wait_def)
  next case (7 th q) then show ?case using D(7) [of th q] by (auto simp: v_wait_def split: if_splits)
  next case (8 q') then show ?case using D(8) [of q'] q by (auto simp: v_wait_def)
  next case (9 k' q) then show ?case using D(9) [of k' q] by (simp add: v_wait_def)
  next case (10 q) then show ?case using D(10) [of q] n(1) [of q] self by (auto simp: v_wait_def)
  next case (11 q) then show ?case using D(11) [of q] n(2) [of q] self by (auto simp: v_wait_def)
  qed
qed

lemma queues_give_up:
  assumes ok: "queues_ok v" and self: "ph v self = Waits q"
  shows "queues_ok (v_give_up q self v)"
proof -
  note D = queues_okD [OF ok]
  note n = in_phase_upds [OF D(1), of self Outside]
  show ?thesis
  proof (rule queues_okI, goal_cases)
    case 1 then show ?case using finite_phase_upd [OF D(1), of self Outside] by (simp add: v_give_up_def)
  next case 2 then show ?case using D(2) by (simp add: v_give_up_def)
  next case (3 q') then show ?case using D(3) [of q'] by (auto simp: v_give_up_def)
  next case (4 q' th) then show ?case using D(4) [of th q'] D(3) [of q'] self by (auto simp: v_give_up_def)
  next case (5 q) then show ?case using D(5) [of q] by (simp add: v_give_up_def)
  next case (6 q th) then show ?case using D(6) [of th q] self by (auto simp: v_give_up_def)
  next case (7 th q) then show ?case using D(7) [of th q] by (auto simp: v_give_up_def split: if_splits)
  next case (8 q') then show ?case using D(8) [of q'] by (auto simp: v_give_up_def)
  next case (9 k' q) then show ?case using D(9) [of k' q] by (simp add: v_give_up_def)
  next case (10 q) then show ?case using D(10) [of q] n(1) [of q] self by (auto simp: v_give_up_def)
  next case (11 q) then show ?case using D(11) [of q] n(2) [of q] self by (auto simp: v_give_up_def)
  qed
qed

lemma queues_release:
  assumes ok: "queues_ok v" and self: "ph v self = Holds p"
  shows "queues_ok (v_release p self v)"
proof -
  note D = queues_okD [OF ok]
  have a: "act v p" using D(7) [of self p] self by simp
  have "0 < unat (cnt v p)" using D(10) [OF a] in_phase_pos [OF D(1) self] by simp
  then have c: "unat (cnt v p) = Suc (unat (cnt v p - 1))" by (simp add: unat_minus_one unat_gt_0)
  let ?v = "v\<lparr>cnt := (cnt v)(p := cnt v p - 1), ph := (ph v)(self := Outside)\<rparr>"
  have f: "finite {th. ph ?v th \<noteq> Outside}" using finite_phase_upd [OF D(1), of self Outside] by simp
  note n = in_phase_upds [OF D(1), of self Outside]
  show ?thesis
  proof (cases "blk v p \<noteq> [] \<and> cnt v p - 1 < lim v p")
    case False
    have v: "v_release p self v = ?v" using False by (simp add: v_release_def Let_def del: not_less) blast
    have l: "blk v p \<noteq> [] \<Longrightarrow> unat (lim v p) \<le> unat (cnt v p - 1)" using False by (simp add: word_le_nat_alt not_less)
    show ?thesis unfolding v
    proof (rule queues_okI, goal_cases)
      case 1 then show ?case by (rule f)
    next case 2 then show ?case using D(2) by simp
    next case 3 then show ?case using D(3) by simp
    next case (4 q th) then show ?case using D(4) [of th q] self by auto
    next case (5 q) then show ?case using D(5) [of q] by simp
    next case (6 q th) then show ?case using D(6) [of th q] self by auto
    next case (7 th q) then show ?case using D(7) [of th q] by (auto split: if_splits)
    next case (8 q) then show ?case using D(8) [of q] by simp
    next case (9 k' q) then show ?case using D(9) [of k' q] by simp
    next case (10 q) then show ?case using D(10) [of q] n(1) [of q] self c by auto
    next case (11 q) then show ?case using D(11) [of q] n(2) [of q] self l by auto
    qed
  next
    case True
    obtain b bs where bs: "blk v p = b # bs" using True by (cases "blk v p") auto
    have v: "v_release p self v = ?v\<lparr>blk := (blk v)(p := bs), ph := ((ph v)(self := Outside))(b := Awake p)\<rparr>"
      using True bs by (simp add: v_release_def Let_def)
    have b: "ph v b = Blocked p" "b \<notin> set bs" "b \<noteq> self" using D(6) [of b p] D(5) [of p] self bs by auto
    note m = in_phase_upds [OF f, of b "Awake p", simplified]
    show ?thesis unfolding v
    proof (rule queues_okI, goal_cases)
      case 1 then show ?case using finite_phase_upd [OF f, of b "Awake p"] by simp
    next case 2 then show ?case using D(2) by simp
    next case 3 then show ?case using D(3) by simp
    next case (4 q th) then show ?case using D(4) [of th q] self b by auto
    next case (5 q) then show ?case using D(5) [of q] bs by auto
    next case (6 q th) then show ?case using D(6) [of th q] self b bs by auto
    next case (7 th q) then show ?case using D(7) [of th q] a by (auto split: if_splits)
    next case (8 q) then show ?case using D(8) [of q] by simp
    next case (9 k' q) then show ?case using D(9) [of k' q] by simp
    next case (10 q) then show ?case using D(10) [of q] n(1) [of q] m(1) [of q] self b c by auto
    next case (11 q) then show ?case using D(11) [of q] n(2) [of q] m(2) [of q] self b bs c by (auto split: if_splits)
    qed
  qed
qed

lemma in_phase_wake:
  assumes "finite {th. f th \<noteq> Outside}" "distinct xs" "\<And>th. th \<in> set xs \<Longrightarrow> f th = Blocked p"
  shows "in_phase (\<lambda>th. if th \<in> set xs then Awake p else f th) w =
    (if w = Awake p then in_phase f w + length xs else if w = Blocked p then card ({th. f th = w} - set xs) else in_phase f w)"
proof -
  have fin: "finite {t. f t = Awake p}" using assms(1) by (auto elim: rev_finite_subset)
  have "{th. (if th \<in> set xs then Awake p else f th) = Awake p} = {th. f th = Awake p} \<union> set xs" by auto
  moreover have "{th. f th = Awake p} \<inter> set xs = {}" using assms(3) by force
  moreover have "{th. (if th \<in> set xs then Awake p else f th) = Blocked p} = {th. f th = Blocked p} - set xs" by auto
  moreover have "{th. (if th \<in> set xs then Awake p else f th) = w} = {th. f th = w}" if "w \<noteq> Awake p" "w \<noteq> Blocked p"
    using that assms(3) by auto
  ultimately show ?thesis using fin by (simp add: in_phase_def card_Un_disjoint distinct_card [OF assms(2)])
qed

lemma queues_limit:
  assumes ok: "queues_ok v" and p: "act v p"
  shows "queues_ok (v_limit p l v)"
proof -
  note D = queues_okD [OF ok]
  define n where "n = (if lim v p < l then unat (l - lim v p) else 0)"
  let ?B = "set (take n (blk v p))"
  let ?ph = "\<lambda>th. if th \<in> ?B then Awake p else ph v th"
  have v: "v_limit p l v = v\<lparr>lim := (lim v)(p := l), blk := (blk v)(p := drop n (blk v p)), ph := ?ph\<rparr>"
    by (simp add: v_limit_def n_def Let_def)
  have B: "ph v th = Blocked p" if "th \<in> ?B" for th using in_set_takeD [OF that] D(6) by blast
  have m: "in_phase ?ph w = (if w = Awake p then in_phase (ph v) w + length (take n (blk v p)) else in_phase (ph v) w)"
    if "w \<noteq> Blocked p" for w
    using in_phase_wake [OF D(1), of "take n (blk v p)" p w] D(5) [of p] B that by simp
  have "{th. ?ph th \<noteq> Outside} \<subseteq> {th. ph v th \<noteq> Outside}" using B by auto
  then have f: "finite {th. ?ph th \<noteq> Outside}" using D(1) by (rule finite_subset)
  have dr: "th \<in> set (drop n (blk v p)) \<longleftrightarrow> th \<in> set (blk v p) \<and> th \<notin> ?B" for th
  proof -
    have "set (blk v p) = ?B \<union> set (drop n (blk v p))" by (metis append_take_drop_id set_append)
    moreover have "?B \<inter> set (drop n (blk v p)) = {}" using set_take_disj_set_drop_if_distinct [OF D(5) order_refl] .
    ultimately show ?thesis by blast
  qed
  have l: "unat l \<le> unat (lim v p) + n"
    by (cases "lim v p < l") (simp_all add: n_def word_less_nat_alt unat_sub word_le_nat_alt)
  show ?thesis unfolding v
  proof (rule queues_okI, goal_cases)
    case 1 then show ?case using f by simp
  next case 2 then show ?case using D(2) by simp
  next case 3 then show ?case using D(3) by simp
  next case (4 q th) then show ?case using D(4) [of th q] B [of th] by auto
  next case (5 q) then show ?case using D(5) [of q] by auto
  next case (6 q th) then show ?case using D(6) [of th q] dr [of th] B [of th] by auto
  next case (7 th q) then show ?case using D(7) [of th q] p by (auto split: if_splits)
  next case (8 q) then show ?case using D(8) [of q] by simp
  next case (9 k' q) then show ?case using D(9) [of k' q] by simp
  next case (10 q) then show ?case using D(10) [of q] m [of "Holds q"] by simp
  next case (11 q)
    have "blk v q \<noteq> []" "q = p \<Longrightarrow> n < length (blk v p)" using 11 by (auto split: if_splits)
    then show ?case using D(11) [of q] m [of "Awake q"] l by (cases "q = p") auto
  qed
qed

end
