(* ===== verification/Mq_Steps.thy ===== *)
theory Mq_Steps
  imports Mq_Phase
begin

section \<open>Senders and receivers in any order\<close>

text \<open>
  Threads send and receive in any order: a step runs a thread up to its next block or return, ends a wait, or sets the
  limit of a port.  \<open>pcs\<close> is where a thread is in \<open>mach_msg_send\<close> or \<open>mach_msg_receive\<close>; \<open>sent\<close> and \<open>taken\<close> are the history of a
  port: the messages delivered to it, and those handed to a receiver with the sequence number each got.  No port is
  created or destroyed, or moved to another set.
\<close>

datatype mq_pc =
    Resting
  | Sending ipc_kmsg natural_t natural_t
  | Receiving mqueue natural_t natural_t natural_t
  | Finishing ipc_kmsg mach_port_seqno_t natural_t natural_t

record mq_sys =
  mqs :: mq_state
  pcs :: "addr \<Rightarrow> mq_pc"
  sent :: "addr \<Rightarrow> ipc_kmsg list"
  taken :: "addr \<Rightarrow> (ipc_kmsg \<times> mach_port_seqno_t) list"

datatype mq_op =
    Send addr ipc_kmsg natural_t natural_t
  | Send_Resume addr
  | Receive addr mqueue natural_t natural_t natural_t
  | Receive_Resume addr
  | Finish addr "(ipc_kmsg \<Rightarrow> mach_msg_return_t) option"
  | Interrupt addr
  | Expire addr
  | Set_Limit addr mach_port_msgcount_t

definition after_send :: "addr \<Rightarrow> ipc_kmsg \<Rightarrow> natural_t \<Rightarrow> natural_t \<Rightarrow> send_outcome \<times> mq_state \<Rightarrow> mq_sys \<Rightarrow> mq_sys" where
  "after_send self k opt timeout r x =
     (let (out, s) = r; p = msgh_remote_port k; h = mq_heap (mqs x) in
      x\<lparr>mqs := s, pcs := (pcs x)(self := if out = Send_Blocks then Sending k opt timeout else Resting),
        sent := (if out = Send_Delivered then (sent x)(p := sent x p @ [k]) else sent x),
        taken := (if out = Send_Delivered \<and> imq_threads (mqueue_at (port_mqueue h p) h) \<noteq> []
                  then (taken x)(p := taken x p @ [(k, ip_seqno (ports h p))]) else taken x)\<rparr>)"

definition after_receive ::
  "addr \<Rightarrow> mqueue \<Rightarrow> natural_t \<Rightarrow> natural_t \<Rightarrow> natural_t \<Rightarrow> bool \<Rightarrow> receive_outcome \<times> mq_state \<Rightarrow> mq_sys \<Rightarrow> mq_sys" where
  "after_receive self q opt max_size timeout handed r x =
     (let (out, s) = r in
      x\<lparr>mqs := s, pcs := (pcs x)(self := case out of Receive_Message k seqno \<Rightarrow> Finishing k seqno opt max_size
                                         | Receive_Return _ \<Rightarrow> Resting | Receive_Blocks \<Rightarrow> Receiving q opt max_size timeout),
        taken := (case out of
            Receive_Message k seqno \<Rightarrow>
              if handed then taken x
              else (taken x)(msgh_remote_port k := taken x (msgh_remote_port k) @ [(k, seqno)])
          | _ \<Rightarrow> taken x)\<rparr>)"

fun exec :: "kernel_env \<Rightarrow> mq_op \<Rightarrow> mq_sys \<Rightarrow> mq_sys option" where
  "exec env (Send self k opt timeout) x =
     map_option (\<lambda>r. after_send self k opt timeout r x) (ipc_mqueue_send env 1 self k opt timeout (mqs x))"
| "exec env (Send_Resume self) x =
     (case pcs x self of
        Sending k opt timeout \<Rightarrow>
          map_option (\<lambda>r. after_send self k opt timeout r x) (ipc_mqueue_send_resume self k opt timeout (mqs x))
      | _ \<Rightarrow> None)"
| "exec env (Receive self q opt max_size timeout) x =
     Some (after_receive self q opt max_size timeout False (ipc_mqueue_receive self q opt max_size timeout (mqs x)) x)"
| "exec env (Receive_Resume self) x =
     (case pcs x self of
        Receiving q opt max_size timeout \<Rightarrow>
          map_option (\<lambda>r. after_receive self q opt max_size timeout (ith_state (ith (mqs x) self) = MACH_MSG_SUCCESS) r x)
            (ipc_mqueue_receive_resume self q opt max_size timeout (mqs x))
      | _ \<Rightarrow> None)"
| "exec env (Finish self scatter) x =
     (case pcs x self of
        Finishing k seqno opt max_size \<Rightarrow>
          map_option (\<lambda>(_, s). x\<lparr>mqs := s, pcs := (pcs x)(self := Resting)\<rparr>)
            (ipc_mqueue_finish_receive scatter k (msgh_remote_port k) opt max_size (mqs x))
      | _ \<Rightarrow> None)"
| "exec env (Interrupt th) x = Some (x\<lparr>mqs := on_ith th (ith_clear_wait THREAD_INTERRUPTED) (mqs x)\<rparr>)"
| "exec env (Expire th) x = Some (x\<lparr>mqs := on_ith th (ith_clear_wait THREAD_TIMED_OUT) (mqs x)\<rparr>)"
| "exec env (Set_Limit port qlimit) x = Some (x\<lparr>mqs := heap_op (\<lambda>h. ipc_port_set_qlimit h port qlimit) (mqs x)\<rparr>)"

text \<open>
  What may happen.  The kernel's own ports are served at once and are left out; a port has fewer than \<open>2\<^sup>3\<^sup>2\<close> messages; the
  receive passes on the bit for the timeout only, as \<open>mach_msg_receive\<close> does.  In a \<open>calm\<close> run no wait of a sender is
  interrupted or times out.
\<close>

definition room :: "mq_sys \<Rightarrow> addr \<Rightarrow> bool" where
  "room x port \<longleftrightarrow> ip_msgcount (mq_port (mqs x) port) + 1 \<noteq> 0"

fun enabled :: "kernel_env \<Rightarrow> bool \<Rightarrow> mq_op \<Rightarrow> mq_sys \<Rightarrow> bool" where
  "enabled env calm (Send self k opt timeout) x \<longleftrightarrow>
     pcs x self = Resting \<and> ip_receiver (mq_port (mqs x) (msgh_remote_port k)) \<noteq> ipc_space_kernel env \<and> room x (msgh_remote_port k)"
| "enabled env calm (Send_Resume self) x \<longleftrightarrow>
     \<not> ith_waiting (ith (mqs x) self) \<and> (case pcs x self of Sending k _ _ \<Rightarrow> room x (msgh_remote_port k) | _ \<Rightarrow> False)"
| "enabled env calm (Receive self q opt max_size timeout) x \<longleftrightarrow> pcs x self = Resting \<and> opt AND NOT MACH_RCV_TIMEOUT = 0"
| "enabled env calm (Receive_Resume self) x \<longleftrightarrow>
     \<not> ith_waiting (ith (mqs x) self) \<and> (case pcs x self of Receiving _ _ _ _ \<Rightarrow> True | _ \<Rightarrow> False)"
| "enabled env calm (Finish self scatter) x \<longleftrightarrow> (case pcs x self of Finishing _ _ _ _ \<Rightarrow> True | _ \<Rightarrow> False)"
| "enabled env calm (Interrupt th) x \<longleftrightarrow>
     ith_waiting (ith (mqs x) th) \<and> (case pcs x th of Receiving _ _ _ _ \<Rightarrow> True | Sending _ _ _ \<Rightarrow> \<not> calm | _ \<Rightarrow> False)"
| "enabled env calm (Expire th) x \<longleftrightarrow>
     ith_waiting (ith (mqs x) th) \<and>
     (case pcs x th of
        Receiving _ opt _ _ \<Rightarrow> opt AND MACH_RCV_TIMEOUT \<noteq> 0
      | Sending _ opt _ \<Rightarrow> \<not> calm \<and> opt AND MACH_SEND_TIMEOUT \<noteq> 0
      | _ \<Rightarrow> False)"
| "enabled env calm (Set_Limit port qlimit) x \<longleftrightarrow> ip_active (mq_port (mqs x) port)"

definition mq_start :: "mq_sys \<Rightarrow> bool" where
  "mq_start x \<longleftrightarrow>
     (\<forall>th. pcs x th = Resting \<and> \<not> ith_waiting (ith (mqs x) th)) \<and> (\<forall>p. sent x p = [] \<and> taken x p = []) \<and>
     (\<forall>q. mqueue_at q (mq_heap (mqs x)) = \<lparr>imq_messages = [], imq_threads = []\<rparr>) \<and>
     (\<forall>p. ip_msgcount (mq_port (mqs x) p) = 0 \<and> ip_blocked (mq_port (mqs x) p) = [])"

inductive mq_reachable :: "kernel_env \<Rightarrow> bool \<Rightarrow> mq_sys \<Rightarrow> bool" for env calm where
  mq_start: "mq_start x \<Longrightarrow> mq_reachable env calm x"
| mq_step: "\<lbrakk>mq_reachable env calm x; enabled env calm op x; exec env op x = Some y\<rbrakk> \<Longrightarrow> mq_reachable env calm y"

subsection \<open>The phases of the threads\<close>

definition in_progress :: "mach_msg_return_t \<Rightarrow> bool" where
  "in_progress mr \<longleftrightarrow> mr \<in> {MACH_RCV_IN_PROGRESS, MACH_RCV_IN_PROGRESS_TIMED}"

fun phase_of :: "mq_pc \<Rightarrow> ipc_thread \<Rightarrow> phase" where
  "phase_of Resting t = Outside"
| "phase_of (Sending k _ _) t =
     (if ith_state t = MACH_MSG_SUCCESS then Awake (msgh_remote_port k)
      else if ith_state t = MACH_SEND_IN_PROGRESS then Blocked (msgh_remote_port k) else Broken)"
| "phase_of (Receiving q _ _ _) t =
     (if in_progress (ith_state t) then Waits q
      else if ith_state t = MACH_MSG_SUCCESS then (case ith_kmsg t of Some k \<Rightarrow> Holds (msgh_remote_port k) | None \<Rightarrow> Broken)
      else Broken)"
| "phase_of (Finishing k _ _ _) t = Holds (msgh_remote_port k)"

definition view :: "(addr \<Rightarrow> mq_pc) \<Rightarrow> mq_state \<Rightarrow> mq_view" where
  "view pc s = \<lparr>ph = (\<lambda>th. phase_of (pc th) (ith s th)), thr = (\<lambda>q. imq_threads (mqueue_at q (mq_heap s))),
     msgs = (\<lambda>q. imq_messages (mqueue_at q (mq_heap s))), blk = (\<lambda>p. ip_blocked (mq_port s p)),
     cnt = (\<lambda>p. ip_msgcount (mq_port s p)), lim = (\<lambda>p. ip_qlimit (mq_port s p)),
     mq = port_mqueue (mq_heap s), act = (\<lambda>p. ip_active (mq_port s p))\<rparr>"

lemma mqueue_at_simps [simp]:
  "(\<And>p. ip_messages (f p) = ip_messages p) \<Longrightarrow> mqueue_at q (set_port p f h) = mqueue_at q h"
  "mqueue_at q (set_mqueue q' y h) = (if q = q' then y else mqueue_at q h)"
  "mqueue_at q (call c h) = mqueue_at q h"
  by (cases q; cases q'; simp)+

lemma set_mqueue_fields [simp]:
  "ip_msgcount (ports (set_mqueue q y h) p) = ip_msgcount (ports h p)"
  "ip_seqno (ports (set_mqueue q y h) p) = ip_seqno (ports h p)"
  "ip_qlimit (ports (set_mqueue q y h) p) = ip_qlimit (ports h p)"
  "ip_blocked (ports (set_mqueue q y h) p) = ip_blocked (ports h p)"
  "ip_pset (ports (set_mqueue q y h) p) = ip_pset (ports h p)"
  "ip_bits (ports (set_mqueue q y h) p) = ip_bits (ports h p)"
  by (cases q; simp)+

lemma on_simps [simp]:
  "mq_heap (on_mq_heap f s) = f (mq_heap s)" "mq_threads (on_mq_heap f s) = mq_threads s"
  "mq_heap (on_ith th g s) = mq_heap s" "mq_threads (on_ith th g s) = (mq_threads s)(th := g (mq_threads s th))"
  by (simp_all add: on_mq_heap_def on_ith_def)

lemma view_sel [simp]:
  "ph (view pc s) = (\<lambda>th. phase_of (pc th) (ith s th))" "thr (view pc s) = (\<lambda>q. imq_threads (mqueue_at q (mq_heap s)))"
  "msgs (view pc s) = (\<lambda>q. imq_messages (mqueue_at q (mq_heap s)))" "blk (view pc s) = (\<lambda>p. ip_blocked (mq_port s p))"
  "cnt (view pc s) = (\<lambda>p. ip_msgcount (mq_port s p))" "lim (view pc s) = (\<lambda>p. ip_qlimit (mq_port s p))"
  "mq (view pc s) = port_mqueue (mq_heap s)" "act (view pc s) = (\<lambda>p. ip_active (mq_port s p))"
  by (simp_all add: view_def)

lemma view_eqI:
  "\<lbrakk>\<And>th. phase_of (pc th) (ith s th) = ph v th; \<And>q. imq_threads (mqueue_at q (mq_heap s)) = thr v q;
    \<And>q. imq_messages (mqueue_at q (mq_heap s)) = msgs v q; \<And>p. ip_blocked (mq_port s p) = blk v p;
    \<And>p. ip_msgcount (mq_port s p) = cnt v p; \<And>p. ip_qlimit (mq_port s p) = lim v p;
    \<And>p. port_mqueue (mq_heap s) p = mq v p; \<And>p. ip_active (mq_port s p) = act v p\<rbrakk> \<Longrightarrow> view pc s = v"
  unfolding view_def by (cases v) (auto simp: fun_eq_iff)

lemma ith_go_sel [simp]:
  "ith_state (ith_go t) = ith_state t" "ith_kmsg (ith_go t) = ith_kmsg t" "ith_seqno (ith_go t) = ith_seqno t"
  "\<not> ith_waiting (ith_go t)"
  "ith_state (ith_will_wait t) = ith_state t" "ith_kmsg (ith_will_wait t) = ith_kmsg t" "ith_seqno (ith_will_wait t) = ith_seqno t"
  "ith_waiting (ith_will_wait t)"
  "ith_state (ith_clear_wait r t) = ith_state t" "ith_kmsg (ith_clear_wait r t) = ith_kmsg t"
  "ith_seqno (ith_clear_wait r t) = ith_seqno t" "\<not> ith_waiting (ith_clear_wait r t)"
  by (simp_all add: ith_go_def ith_will_wait_def ith_clear_wait_def)

lemma phase_of_state:
  "phase_of c t = phase_of c t'" if "ith_state t = ith_state t'" "ith_kmsg t = ith_kmsg t'"
  using that by (cases c) simp_all

lemma phase_waits: "phase_of c t = Waits q \<longleftrightarrow> (\<exists>opt m to. c = Receiving q opt m to) \<and> in_progress (ith_state t)"
  by (cases c) (auto split: option.splits)

lemma view_deliver:
  assumes p: "msgh_remote_port k = p" and ok: "queues_ok (view pc s)" and self: "phase_of (pc self) (ith s self) \<in> {Outside, Awake p}"
  shows "thr (view pc s) (port_mqueue (mq_heap s) p) = [] \<Longrightarrow>
      view (pc(self := Resting)) (ipc_mqueue_deliver p k s) = v_enqueue p k self (view pc s)"
    and "thr (view pc s) (port_mqueue (mq_heap s) p) \<noteq> [] \<Longrightarrow>
      view (pc(self := Resting)) (ipc_mqueue_deliver p k s) = v_hand p self (view pc s)"
proof -
  note D = queues_okD [OF ok]
  assume t: "thr (view pc s) (port_mqueue (mq_heap s) p) = []"
  show "view (pc(self := Resting)) (ipc_mqueue_deliver p k s) = v_enqueue p k self (view pc s)"
    using t by (intro view_eqI) (simp_all add: ipc_mqueue_deliver_def v_enqueue_def Let_def port_mqueue_def ip_active_def)
next
  note D = queues_okD [OF ok]
  assume t: "thr (view pc s) (port_mqueue (mq_heap s) p) \<noteq> []"
  then obtain r rs where rs: "imq_threads (mqueue_at (port_mqueue (mq_heap s) p) (mq_heap s)) = r # rs"
    by (auto simp: neq_Nil_conv)
  have r: "phase_of (pc r) (ith s r) = Waits (port_mqueue (mq_heap s) p)"
    using D(4) [of r "port_mqueue (mq_heap s) p"] rs by simp
  then have "r \<noteq> self" using self by auto
  then obtain opt m to where pcr: "pc r = Receiving (port_mqueue (mq_heap s) p) opt m to" "r \<noteq> self"
    using r by (auto simp: phase_waits)
  show "view (pc(self := Resting)) (ipc_mqueue_deliver p k s) = v_hand p self (view pc s)"
    using rs pcr p
    by (intro view_eqI) (auto simp: ipc_mqueue_deliver_def v_hand_def Let_def port_mqueue_def ip_active_def in_progress_def)
qed

lemma ip_release_fields [simp]:
  "ip_messages (ports (ip_release q h) p) = ip_messages (ports h p)" "ip_msgcount (ports (ip_release q h) p) = ip_msgcount (ports h p)"
  "ip_qlimit (ports (ip_release q h) p) = ip_qlimit (ports h p)" "ip_blocked (ports (ip_release q h) p) = ip_blocked (ports h p)"
  "ip_pset (ports (ip_release q h) p) = ip_pset (ports h p)" "ip_bits (ports (ip_release q h) p) = ip_bits (ports h p)"
  "ip_seqno (ports (ip_release q h) p) = ip_seqno (ports h p)"
  "mqueue_at m (ip_release q h) = mqueue_at m h" "ports (ip_check_unlock q h) = ports h" "mqueue_at m (ip_check_unlock q h) = mqueue_at m h"
  by (simp_all add: ip_release_def ip_check_unlock_def)

lemma send_turn_cases:
  assumes turn: "ipc_mqueue_send_turn self k opt timeout s = (out, s')" and p: "msgh_remote_port k = p"
  obtains (delivered) "out = Send_Delivered" "ip_active (mq_port s p)" "s' = ipc_mqueue_deliver p k s"
  | (returned) mr where "out = Send_Return mr" "mq_threads s' = mq_threads s" "\<And>q. ip_seqno (mq_port s' q) = ip_seqno (mq_port s q)"
      "view (pc(self := Resting)) s' = v_leave self (view pc s)" "ip_active (mq_port s p) \<Longrightarrow> ip_qlimit (mq_port s p) \<le> ip_msgcount (mq_port s p)"
  | (blocks) "out = Send_Blocks" "ip_active (mq_port s p)" "ip_qlimit (mq_port s p) \<le> ip_msgcount (mq_port s p)"
      "mq_threads s' = (mq_threads s)(self := (mq_threads s self)\<lparr>ith_state := MACH_SEND_IN_PROGRESS, ith_waiting := True\<rparr>)"
      "\<And>q. ip_seqno (mq_port s' q) = ip_seqno (mq_port s q)"
      "view (pc(self := Sending k opt timeout)) s' = v_block p self (view pc s)"
proof (cases "\<not> ip_active (mq_port s p)")
  case True
  then show ?thesis
  proof (intro returned)
    show "out = Send_Return MACH_MSG_SUCCESS" "mq_threads s' = mq_threads s"
      "ip_active (mq_port s p) \<Longrightarrow> ip_qlimit (mq_port s p) \<le> ip_msgcount (mq_port s p)"
      "ip_seqno (mq_port s' q) = ip_seqno (mq_port s q)" for q
      using turn True by (auto simp: ipc_mqueue_send_turn_def send_dead_port_def p Let_def)
    show "view (pc(self := Resting)) s' = v_leave self (view pc s)"
      using turn True by (intro view_eqI) (auto simp: ipc_mqueue_send_turn_def send_dead_port_def p Let_def v_leave_def port_mqueue_def ip_active_def)
  qed
next
  case act: False
  show ?thesis
  proof (cases "may_send (mq_port s p) k opt")
    case True
    then show ?thesis using turn act by (intro delivered) (auto simp: ipc_mqueue_send_turn_def p Let_def)
  next
    case full: False
    then have lim: "ip_qlimit (mq_port s p) \<le> ip_msgcount (mq_port s p)" by (simp add: may_send_def not_less)
    show ?thesis
    proof (cases "opt AND MACH_SEND_TIMEOUT \<noteq> 0 \<and> timeout = 0")
      case True
      then show ?thesis using turn act full lim
        by (intro returned [of MACH_SEND_TIMED_OUT])
          (auto simp: ipc_mqueue_send_turn_def p Let_def v_leave_def intro!: view_eqI)
    next
      case False
      have s': "out = Send_Blocks" "s' = on_ith self ith_will_wait (on_mq_heap (set_port p (\<lambda>q. q\<lparr>ip_blocked := ip_blocked q @ [self]\<rparr>))
          (on_ith self (\<lambda>t. t\<lparr>ith_state := MACH_SEND_IN_PROGRESS\<rparr>) s))"
        using turn act full False by (auto simp: ipc_mqueue_send_turn_def p Let_def)
      show ?thesis
      proof (rule blocks [OF s'(1) _ lim])
        show "view (pc(self := Sending k opt timeout)) s' = v_block p self (view pc s)"
          by (intro view_eqI) (auto simp: s' p v_block_def port_mqueue_def ip_active_def)
      qed (use act in \<open>simp_all add: s' ith_will_wait_def\<close>)
    qed
  qed
qed

subsection \<open>The invariant\<close>

definition wait_ok :: "mq_pc \<Rightarrow> ipc_thread \<Rightarrow> bool" where
  "wait_ok c t \<longleftrightarrow>
     (case c of
        Sending _ _ _ \<Rightarrow> ith_waiting t = (ith_state t \<noteq> MACH_MSG_SUCCESS)
      | Receiving _ opt _ _ \<Rightarrow> opt AND NOT MACH_RCV_TIMEOUT = 0 \<and>
          (if in_progress (ith_state t) then ith_waiting t \<or> ith_result t = THREAD_INTERRUPTED \<or> ith_result t = THREAD_TIMED_OUT \<and> opt AND MACH_RCV_TIMEOUT \<noteq> 0
           else \<not> ith_waiting t)
      | Finishing _ _ opt _ \<Rightarrow> opt AND NOT MACH_RCV_TIMEOUT = 0 \<and> \<not> ith_waiting t
      | Resting \<Rightarrow> \<not> ith_waiting t)"

fun in_hand :: "mq_pc \<Rightarrow> ipc_thread \<Rightarrow> (ipc_kmsg \<times> mach_port_seqno_t) option" where
  "in_hand (Finishing k seqno _ _) t = Some (k, seqno)"
| "in_hand (Receiving _ _ _ _) t =
     (if in_progress (ith_state t) then None else map_option (\<lambda>k. (k, ith_seqno t)) (ith_kmsg t))"
| "in_hand _ t = None"

text \<open>The history of a port: what was sent is what was taken and what is queued, and the sequence numbers go up by one.\<close>

definition numbered :: "(ipc_kmsg \<times> mach_port_seqno_t) list \<Rightarrow> mach_port_seqno_t \<Rightarrow> bool" where
  "numbered ks n \<longleftrightarrow> (\<forall>i < length ks. snd (ks ! i) = n - of_nat (length ks - i))"

definition history_ok :: "mq_view \<Rightarrow> (addr \<Rightarrow> mach_port_seqno_t) \<Rightarrow> (addr \<Rightarrow> ipc_kmsg list) \<Rightarrow>
    (addr \<Rightarrow> (ipc_kmsg \<times> mach_port_seqno_t) list) \<Rightarrow> bool" where
  "history_ok v seq st tk \<longleftrightarrow>
     (\<forall>p. act v p \<longrightarrow> map fst (tk p) @ of_port p (msgs v (mq v p)) = st p \<and> numbered (tk p) (seq p))"

definition mq_inv :: "mq_sys \<Rightarrow> bool" where
  "mq_inv x \<longleftrightarrow> queues_ok (view (pcs x) (mqs x)) \<and> (\<forall>th. wait_ok (pcs x th) (ith (mqs x) th)) \<and>
     history_ok (view (pcs x) (mqs x)) (\<lambda>p. ip_seqno (mq_port (mqs x) p)) (sent x) (taken x) \<and>
     (\<forall>th k n. in_hand (pcs x th) (ith (mqs x) th) = Some (k, n) \<longrightarrow> (k, n) \<in> set (taken x (msgh_remote_port k)))"

lemma mq_invD:
  assumes "mq_inv x"
  shows "queues_ok (view (pcs x) (mqs x))" "wait_ok (pcs x th) (ith (mqs x) th)"
    "history_ok (view (pcs x) (mqs x)) (\<lambda>p. ip_seqno (mq_port (mqs x) p)) (sent x) (taken x)"
    "in_hand (pcs x th) (ith (mqs x) th) = Some (k, n) \<Longrightarrow> (k, n) \<in> set (taken x (msgh_remote_port k))"
  using assms unfolding mq_inv_def by blast+

lemma numbered_append:
  assumes "numbered ks n"
  shows "numbered (ks @ [(k, n)]) (n + 1)"
  unfolding numbered_def
proof (intro allI impI)
  fix i assume i: "i < length (ks @ [(k, n)])"
  show "snd ((ks @ [(k, n)]) ! i) = n + 1 - of_nat (length (ks @ [(k, n)]) - i)"
  proof (cases "i < length ks")
    case True
    then have "of_nat (length (ks @ [(k, n)]) - i) = (1 :: mach_port_seqno_t) + of_nat (length ks - i)"
      by (simp add: Suc_diff_le)
    then show ?thesis using assms True by (simp add: numbered_def nth_append)
  next
    case False then have "i = length ks" using i by simp
    then show ?thesis by simp
  qed
qed

lemma numbered_Nil [simp]: "numbered [] n" by (simp add: numbered_def)

text \<open>A step that hands no message over and queues none keeps the history.\<close>

lemma history_same:
  assumes "history_ok v seq st tk" "\<And>q. msgs v' q = msgs v q" "\<And>p. mq v' p = mq v p" "\<And>p. act v' p = act v p" "\<And>p. seq' p = seq p"
  shows "history_ok v' seq' st tk"
  using assms by (simp add: history_ok_def)

lemma deliver_other: "th \<noteq> r \<Longrightarrow> imq_threads (mqueue_at (port_mqueue (mq_heap s) p) (mq_heap s)) = r # rs \<Longrightarrow>
    mq_threads (ipc_mqueue_deliver p k s) th = mq_threads s th"
  "imq_threads (mqueue_at (port_mqueue (mq_heap s) p) (mq_heap s)) = [] \<Longrightarrow> mq_threads (ipc_mqueue_deliver p k s) = mq_threads s"
  by (simp_all add: ipc_mqueue_deliver_def Let_def)

lemma deliver_receiver:
  assumes "imq_threads (mqueue_at (port_mqueue (mq_heap s) p) (mq_heap s)) = r # rs"
  shows "ith_state (ith (ipc_mqueue_deliver p k s) r) = MACH_MSG_SUCCESS" "ith_kmsg (ith (ipc_mqueue_deliver p k s) r) = Some k"
    "ith_seqno (ith (ipc_mqueue_deliver p k s) r) = ip_seqno (mq_port s p)" "\<not> ith_waiting (ith (ipc_mqueue_deliver p k s) r)"
  using assms by (simp_all add: ipc_mqueue_deliver_def Let_def)

lemma deliver_seqno:
  "ip_seqno (mq_port (ipc_mqueue_deliver p k s) q) = (if q = p \<and> imq_threads (mqueue_at (port_mqueue (mq_heap s) p) (mq_heap s)) \<noteq> []
     then ip_seqno (mq_port s p) + 1 else ip_seqno (mq_port s q))"
  by (simp add: ipc_mqueue_deliver_def Let_def split: list.splits)

lemma after_send_inv:
  assumes inv: "mq_inv x" and self: "phase_of (pcs x self) (ith (mqs x) self) \<in> {Outside, Awake (msgh_remote_port k)}"
    and room: "room x (msgh_remote_port k)"
  shows "mq_inv (after_send self k opt timeout (ipc_mqueue_send_turn self k opt timeout' (mqs x)) x)" (is "mq_inv ?y")
proof -
  let ?p = "msgh_remote_port k" and ?v = "view (pcs x) (mqs x)"
  let ?q = "port_mqueue (mq_heap (mqs x)) ?p"
  note I = mq_invD [OF inv]
  note D = queues_okD [OF I(1)]
  obtain out s' where turn: "ipc_mqueue_send_turn self k opt timeout' (mqs x) = (out, s')" by fastforce
  have w: "\<not> ith_waiting (ith (mqs x) self)" "\<And>q. phase_of (pcs x self) (ith (mqs x) self) \<noteq> Waits q"
    "in_hand (pcs x self) (ith (mqs x) self) = None"
    using I(2) [of self] self by (cases "pcs x self"; auto simp: wait_ok_def split: if_splits option.splits)+
  show ?thesis
  using turn refl proof (cases rule: send_turn_cases [where pc = "pcs x"])
    case delivered
    have room': "cnt ?v ?p + 1 \<noteq> 0" using room by (simp add: room_def)
    show ?thesis
    proof (cases "imq_threads (mqueue_at ?q (mq_heap (mqs x)))")
      case Nil
      have y: "mqs ?y = ipc_mqueue_deliver ?p k (mqs x)" "pcs ?y = (pcs x)(self := Resting)" "sent ?y = (sent x)(?p := sent x ?p @ [k])" "taken ?y = taken x"
        using delivered Nil by (simp_all add: turn after_send_def Let_def)
      have v: "view (pcs ?y) (mqs ?y) = v_enqueue ?p k self ?v"
        using view_deliver(1) [OF refl I(1) self] Nil by (simp add: y)
      have "queues_ok (v_enqueue ?p k self ?v)"
        using queues_enqueue [OF I(1) _ _ room' refl] self delivered Nil by simp
      moreover have "history_ok (v_enqueue ?p k self ?v) (\<lambda>p. ip_seqno (mq_port (mqs ?y) p)) (sent ?y) (taken ?y)"
        using I(3) Nil unfolding y(1,3,4) by (auto simp: history_ok_def v_enqueue_def deliver_seqno)
      moreover have "wait_ok (pcs ?y th) (ith (mqs ?y) th)" for th
        using I(2) [of th] w by (simp add: y deliver_other Nil) (simp add: wait_ok_def)
      ultimately show ?thesis using I(4) unfolding mq_inv_def v by (simp add: y deliver_other Nil)
    next
      case (Cons r rs)
      have r: "r \<noteq> self" "phase_of (pcs x r) (ith (mqs x) r) = Waits ?q" using D(4) [of r ?q] w(2) Cons by auto
      then obtain o1 m1 t1 where pcr: "pcs x r = Receiving ?q o1 m1 t1" by (auto simp: phase_waits)
      have y: "mqs ?y = ipc_mqueue_deliver ?p k (mqs x)" "pcs ?y = (pcs x)(self := Resting)" "sent ?y = (sent x)(?p := sent x ?p @ [k])"
        "taken ?y = (taken x)(?p := taken x ?p @ [(k, ip_seqno (mq_port (mqs x) ?p))])"
        using delivered Cons by (simp_all add: turn after_send_def Let_def)
      have v: "view (pcs ?y) (mqs ?y) = v_hand ?p self ?v"
        using view_deliver(2) [OF refl I(1) self] Cons by (simp add: y)
      have "queues_ok (v_hand ?p self ?v)"
        using queues_hand [OF I(1) _ _ room'] self delivered Cons by simp
      moreover have "msgs ?v ?q = []" using D(8) [of ?q] Cons by simp
      then have "history_ok (v_hand ?p self ?v) (\<lambda>p. ip_seqno (mq_port (mqs ?y) p)) (sent ?y) (taken ?y)"
        using I(3) Cons numbered_append unfolding y(1,3,4) by (auto simp: history_ok_def v_hand_def deliver_seqno)
      moreover have "wait_ok (pcs ?y th) (ith (mqs ?y) th)" for th
        using I(2) [of th] w r deliver_receiver [OF Cons, of k] deliver_other(1) [OF _ Cons, of th k] pcr
        by (cases "th = r"; cases "th = self") (simp_all add: y wait_ok_def in_progress_def)
      moreover have hr: "in_hand (pcs ?y r) (ith (mqs ?y) r) = Some (k, ip_seqno (mq_port (mqs x) ?p))"
        using deliver_receiver [OF Cons, of k] pcr r(1) unfolding y(1,2) by (simp add: in_progress_def)
      have ho: "in_hand (pcs ?y th) (ith (mqs ?y) th) = (if th = self then None else in_hand (pcs x th) (ith (mqs x) th))" if "th \<noteq> r" for th
        using deliver_other(1) [OF that Cons, of k] unfolding y(1,2) by simp
      have "(k', n) \<in> set (taken ?y (msgh_remote_port k'))" if h: "in_hand (pcs ?y th) (ith (mqs ?y) th) = Some (k', n)" for th k' n
      proof (cases "th = r")
        case True
        then show ?thesis using hr h unfolding y(4) by auto
      next
        case False
        then show ?thesis using ho [OF False] h I(4) [of th k' n] unfolding y(4) by (auto split: if_splits)
      qed
      ultimately show ?thesis unfolding mq_inv_def v by blast
    qed
  next
    case (returned mr)
    have y: "mqs ?y = s'" "pcs ?y = (pcs x)(self := Resting)" "sent ?y = sent x" "taken ?y = taken x"
      using returned(1) by (simp_all add: turn after_send_def Let_def)
    have "queues_ok (v_leave self ?v)"
    proof (rule queues_leave [OF I(1)])
      have "ip_active (mq_port (mqs x) ?p)" if "ph ?v self = Awake ?p" using D(7) [of self ?p] that by simp
      then show "ph ?v self = Outside \<or> (\<exists>p. ph ?v self = Awake p \<and> lim ?v p \<le> cnt ?v p)" using self returned(5) by auto
    qed
    moreover have "history_ok (v_leave self ?v) (\<lambda>p. ip_seqno (mq_port s' p)) (sent x) (taken x)"
      using I(3) by (rule history_same) (simp_all add: v_leave_def returned(3))
    ultimately show ?thesis using I(2,4) w unfolding mq_inv_def y returned(4) returned(2) by (auto simp: wait_ok_def)
  next
    case blocks
    have y: "mqs ?y = s'" "pcs ?y = (pcs x)(self := Sending k opt timeout)" "sent ?y = sent x" "taken ?y = taken x"
      using blocks(1) by (simp_all add: turn after_send_def Let_def)
    have v: "view ((pcs x)(self := Sending k opt timeout)) s' = view ((pcs x)(self := Sending k opt timeout')) s'"
      by (simp add: view_def fun_eq_iff)
    have "queues_ok (v_block ?p self ?v)" using queues_block [OF I(1)] blocks(2,3) self by simp
    moreover have "history_ok (v_block ?p self ?v) (\<lambda>p. ip_seqno (mq_port s' p)) (sent x) (taken x)"
      using I(3) by (rule history_same) (simp_all add: v_block_def blocks(5))
    ultimately show ?thesis using I(2,4) unfolding mq_inv_def y v blocks(6) blocks(4) by (auto simp: wait_ok_def)
  qed
qed

lemma after_receive_inv:
  assumes inv: "mq_inv x" and self: "pcs x self = Resting" and opt: "opt AND NOT MACH_RCV_TIMEOUT = 0"
  shows "mq_inv (after_receive self q opt max_size timeout False (ipc_mqueue_receive self q opt max_size timeout (mqs x)) x)"
    (is "mq_inv (after_receive _ _ _ _ _ _ ?r _)")
proof -
  let ?v = "view (pcs x) (mqs x)" and ?mq = "mqueue_at q (mq_heap (mqs x))"
  note I = mq_invD [OF inv]
  note D = queues_okD [OF I(1)]
  have out: "ph ?v self = Outside" "\<not> ith_waiting (ith (mqs x) self)" using self I(2) [of self] by (simp_all add: wait_ok_def)
  show ?thesis
  proof (cases "imq_messages ?mq")
    case (Cons k ks)
    let ?p = "msgh_remote_port k"
    have k: "mq ?v ?p = q" "act ?v ?p" using D(9) [of k q] Cons by simp_all
    define y where "y = after_receive self q opt max_size timeout False ?r x"
    have y: "mqs y = on_mq_heap (set_port ?p (\<lambda>p. p\<lparr>ip_seqno := ip_seqno p + 1\<rparr>)) (on_mq_heap (set_mqueue q (?mq\<lparr>imq_messages := ks\<rparr>)) (mqs x))"
      "pcs y = (pcs x)(self := Finishing k (ip_seqno (mq_port (mqs x) ?p)) opt max_size)" "sent y = sent x"
      "taken y = (taken x)(?p := taken x ?p @ [(k, ip_seqno (mq_port (mqs x) ?p))])"
      by (simp_all add: y_def after_receive_def ipc_mqueue_receive_def Cons Let_def)
    have v: "view (pcs y) (mqs y) = v_take q self ?v"
      by (intro view_eqI) (simp_all add: y Cons v_take_def port_mqueue_def ip_active_def)
    have "queues_ok (v_take q self ?v)" using queues_take [OF I(1) _ out(1)] Cons by simp
    moreover have "history_ok (v_take q self ?v) (\<lambda>p. ip_seqno (mq_port (mqs y) p)) (sent y) (taken y)"
      using I(3) Cons k numbered_append unfolding y(1,3,4) by (auto simp: history_ok_def v_take_def)
    moreover have "wait_ok (pcs y th) (ith (mqs y) th)" for th using I(2) [of th] out opt by (simp add: y wait_ok_def)
    moreover have "(k', n) \<in> set (taken y (msgh_remote_port k'))" if "in_hand (pcs y th) (ith (mqs y) th) = Some (k', n)" for th k' n
      using that I(4) [of th k' n] by (cases "th = self") (auto simp: y)
    ultimately show ?thesis unfolding mq_inv_def v y_def [symmetric] by blast
  next
    case Nil
    show ?thesis
    proof (cases "opt AND MACH_RCV_TIMEOUT \<noteq> 0 \<and> timeout = 0")
      case True
      then have "after_receive self q opt max_size timeout False ?r x = x"
        using self by (simp add: after_receive_def ipc_mqueue_receive_def Nil Let_def fun_upd_idem)
      then show ?thesis using inv by simp
    next
      case False
      define st where "st = (if opt AND MACH_RCV_TIMEOUT \<noteq> 0 then MACH_RCV_IN_PROGRESS_TIMED else MACH_RCV_IN_PROGRESS)"
      define y where "y = after_receive self q opt max_size timeout False ?r x"
      have st: "in_progress st" by (simp add: st_def in_progress_def)
      have y: "mqs y = on_ith self ith_will_wait (on_mq_heap (set_mqueue q (?mq\<lparr>imq_threads := imq_threads ?mq @ [self]\<rparr>))
          (on_ith self (\<lambda>t. t\<lparr>ith_state := st, ith_msize := max_size\<rparr>) (mqs x)))"
        "pcs y = (pcs x)(self := Receiving q opt max_size timeout)" "sent y = sent x" "taken y = taken x"
        using False by (auto simp: y_def after_receive_def ipc_mqueue_receive_def Nil Let_def st_def)
      have v: "view (pcs y) (mqs y) = v_wait q self ?v"
        by (intro view_eqI) (simp_all add: y v_wait_def port_mqueue_def ip_active_def st)
      have "queues_ok (v_wait q self ?v)" using queues_wait [OF I(1) _ out(1)] Nil by simp
      moreover have "history_ok (v_wait q self ?v) (\<lambda>p. ip_seqno (mq_port (mqs y) p)) (sent y) (taken y)"
        using I(3) unfolding y(3,4) by (rule history_same) (simp_all add: v_wait_def y)
      moreover have "wait_ok (pcs y th) (ith (mqs y) th)" for th using I(2) [of th] out opt st by (simp add: y wait_ok_def)
      moreover have "(k', n) \<in> set (taken y (msgh_remote_port k'))" if "in_hand (pcs y th) (ith (mqs y) th) = Some (k', n)" for th k' n
        using that I(4) [of th k' n] st by (cases "th = self") (auto simp: y)
      ultimately show ?thesis unfolding mq_inv_def v y_def [symmetric] by blast
    qed
  qed
qed

text \<open>A receiver whose wait ended without a message leaves the queue.\<close>

definition withdrawn :: "addr \<Rightarrow> mqueue \<Rightarrow> mq_sys \<Rightarrow> mq_sys" where
  "withdrawn self q x =
     (let m = mqueue_at q (mq_heap (mqs x))
      in x\<lparr>mqs := on_mq_heap (set_mqueue q (m\<lparr>imq_threads := remove1 self (imq_threads m)\<rparr>)) (mqs x), pcs := (pcs x)(self := Resting)\<rparr>)"

lemma withdrawn_inv:
  assumes inv: "mq_inv x" and self: "pcs x self = Receiving q opt m t" "in_progress (ith_state (ith (mqs x) self))"
    "\<not> ith_waiting (ith (mqs x) self)"
  shows "mq_inv (withdrawn self q x)"
proof -
  let ?v = "view (pcs x) (mqs x)"
  define y where "y = withdrawn self q x"
  note I = mq_invD [OF inv]
  have y: "mq_threads (mqs y) = mq_threads (mqs x)" "pcs y = (pcs x)(self := Resting)" "sent y = sent x" "taken y = taken x"
    by (simp_all add: y_def withdrawn_def Let_def)
  have v: "view (pcs y) (mqs y) = v_give_up q self ?v"
    by (intro view_eqI) (simp_all add: y_def withdrawn_def Let_def v_give_up_def port_mqueue_def ip_active_def)
  have "queues_ok (v_give_up q self ?v)" using queues_give_up [OF I(1)] self by simp
  moreover have "history_ok (v_give_up q self ?v) (\<lambda>p. ip_seqno (mq_port (mqs y) p)) (sent y) (taken y)"
    using I(3) unfolding y(3,4) by (rule history_same) (simp_all add: v_give_up_def y_def withdrawn_def Let_def)
  moreover have "wait_ok (pcs y th) (ith (mqs y) th)" for th using I(2) [of th] self by (simp add: y wait_ok_def)
  moreover have "(k', n) \<in> set (taken y (msgh_remote_port k'))" if "in_hand (pcs y th) (ith (mqs y) th) = Some (k', n)" for th k' n
    using that I(4) [of th k' n] by (cases "th = self") (auto simp: y)
  ultimately show ?thesis unfolding mq_inv_def v y_def [symmetric] by blast
qed

lemma receive_resume_inv:
  assumes inv: "mq_inv x" and self: "pcs x self = Receiving q opt m t" "\<not> ith_waiting (ith (mqs x) self)"
  shows "\<exists>r. ipc_mqueue_receive_resume self q opt m t (mqs x) = Some r \<and>
    mq_inv (after_receive self q opt m t (ith_state (ith (mqs x) self) = MACH_MSG_SUCCESS) r x)"
proof -
  note I = mq_invD [OF inv]
  note D = queues_okD [OF I(1)]
  let ?t = "ith (mqs x) self"
  have opt: "opt AND NOT MACH_RCV_TIMEOUT = 0" using I(2) [of self] self by (simp add: wait_ok_def)
  show ?thesis
  proof (cases "in_progress (ith_state ?t)")
    case True
    let ?m = "mqueue_at q (mq_heap (mqs x))"
    have s: "mqs (withdrawn self q x) = on_mq_heap (set_mqueue q (?m\<lparr>imq_threads := remove1 self (imq_threads ?m)\<rparr>)) (mqs x)"
      "pcs (withdrawn self q x) = (pcs x)(self := Resting)"
      by (simp_all add: withdrawn_def Let_def)
    have st: "ith_state ?t = MACH_RCV_IN_PROGRESS \<or> ith_state ?t = MACH_RCV_IN_PROGRESS_TIMED" using True by (simp add: in_progress_def)
    have w: "mq_inv (withdrawn self q x)" using withdrawn_inv [OF inv self(1) True self(2)] .
    have "ith_result ?t = THREAD_INTERRUPTED \<or> ith_result ?t = THREAD_TIMED_OUT \<and> opt AND MACH_RCV_TIMEOUT \<noteq> 0"
      using I(2) [of self] self True by (simp add: wait_ok_def)
    then show ?thesis
    proof
      assume r: "ith_result ?t = THREAD_INTERRUPTED"
      have "ipc_mqueue_receive_resume self q opt m t (mqs x) = Some (Receive_Return MACH_RCV_INTERRUPTED, mqs (withdrawn self q x))"
        using st r by (auto simp: ipc_mqueue_receive_resume_def s(1) Let_def)
      moreover have "after_receive self q opt m t False (Receive_Return MACH_RCV_INTERRUPTED, mqs (withdrawn self q x)) x = withdrawn self q x"
        by (simp add: after_receive_def withdrawn_def Let_def)
      ultimately show ?thesis using w st by auto
    next
      assume r: "ith_result ?t = THREAD_TIMED_OUT \<and> opt AND MACH_RCV_TIMEOUT \<noteq> 0"
      let ?r = "ipc_mqueue_receive self q opt m 0 (mqs (withdrawn self q x))"
      have "ipc_mqueue_receive_resume self q opt m t (mqs x) = Some ?r"
        using st r by (auto simp: ipc_mqueue_receive_resume_def s(1) Let_def)
      moreover have "mq_inv (after_receive self q opt m 0 False ?r (withdrawn self q x))"
        using after_receive_inv [OF w _ opt, of self q m 0] s(2) by simp
      moreover have "fst ?r \<noteq> Receive_Blocks" using r by (auto simp: ipc_mqueue_receive_def Let_def split: list.splits)
      then have "after_receive self q opt m 0 False ?r (withdrawn self q x) = after_receive self q opt m t False ?r x"
        by (cases "fst ?r") (simp_all add: after_receive_def withdrawn_def Let_def case_prod_beta del: view_sel)
      ultimately show ?thesis using st by auto
    qed
  next
    case False
    then obtain k where k: "ith_state ?t = MACH_MSG_SUCCESS" "ith_kmsg ?t = Some k"
      using D(2) [of self] self(1) by (auto split: if_splits option.splits)
    define y where "y = after_receive self q opt m t True (Receive_Message k (ith_seqno ?t), mqs x) x"
    have y: "mqs y = mqs x" "pcs y = (pcs x)(self := Finishing k (ith_seqno ?t) opt m)" "sent y = sent x" "taken y = taken x"
      by (simp_all add: y_def after_receive_def)
    have v: "view (pcs y) (mqs y) = view (pcs x) (mqs x)"
      using k self(1) by (intro view_eqI) (simp_all add: y in_progress_def)
    have "wait_ok (pcs y th) (ith (mqs y) th)" for th using I(2) [of th] self opt by (simp add: y wait_ok_def)
    moreover have "in_hand (pcs y th) (ith (mqs y) th) = in_hand (pcs x th) (ith (mqs x) th)" for th
      using k self(1) by (simp add: y in_progress_def)
    ultimately have "mq_inv y" using I(1,3,4) unfolding mq_inv_def v by (simp add: y(1,3,4))
    then show ?thesis using k by (simp add: ipc_mqueue_receive_resume_def Let_def y_def)
  qed
qed

lemma trailer_elements: "opt AND NOT MACH_RCV_TIMEOUT = 0 \<Longrightarrow> GET_RCV_ELEMENTS opt = 0"
proof -
  assume a: "opt AND NOT MACH_RCV_TIMEOUT = 0"
  then have "opt = opt AND MACH_RCV_TIMEOUT" by (auto simp: bit_eq_iff [where 'a = "32 word"] bit_simps)
  from arg_cong [OF this, of "drop_bit 24"] have "drop_bit 24 opt = drop_bit 24 opt AND drop_bit 24 MACH_RCV_TIMEOUT"
    by (simp only: drop_bit_and)
  also have "drop_bit 24 MACH_RCV_TIMEOUT = 0" by (simp add: MACH_RCV_TIMEOUT_def)
  finally show ?thesis by (simp add: GET_RCV_ELEMENTS_def)
qed

lemma trailer_ok: "opt AND NOT MACH_RCV_TIMEOUT = 0 \<Longrightarrow> REQUESTED_TRAILER_SIZE opt = Some 8"
  by (simp add: REQUESTED_TRAILER_SIZE_def trailer_size_def trailer_elements)

lemma finish_inv:
  assumes inv: "mq_inv x" and self: "pcs x self = Finishing k seqno opt m"
  shows "\<exists>mr s. ipc_mqueue_finish_receive scatter k (msgh_remote_port k) opt m (mqs x) = Some (mr, s) \<and>
    mq_inv (x\<lparr>mqs := s, pcs := (pcs x)(self := Resting)\<rparr>)"
proof -
  let ?p = "msgh_remote_port k" and ?v = "view (pcs x) (mqs x)"
  note I = mq_invD [OF inv]
  note D = queues_okD [OF I(1)]
  have hold: "ph ?v self = Holds ?p" using self by simp
  have a: "ip_active (mq_port (mqs x) ?p)" using D(7) [of self ?p] hold by simp
  have opt: "opt AND NOT MACH_RCV_TIMEOUT = 0" "\<not> ith_waiting (ith (mqs x) self)" using I(2) [of self] self by (simp_all add: wait_ok_def)
  obtain mr s where r: "ipc_mqueue_finish_receive scatter k ?p opt m (mqs x) = Some (mr, s)"
    using trailer_ok [OF opt(1)] by (auto simp: ipc_mqueue_finish_receive_def Let_def)
  define y where "y = x\<lparr>mqs := s, pcs := (pcs x)(self := Resting)\<rparr>"
  have y: "pcs y = (pcs x)(self := Resting)" "sent y = sent x" "taken y = taken x" by (simp_all add: y_def)
  have seq: "ip_seqno (mq_port s q) = ip_seqno (mq_port (mqs x) q)" for q
    using r a trailer_ok [OF opt(1)] by (auto simp: ipc_mqueue_finish_receive_def Let_def split: list.splits if_splits)
  have "queues_ok (v_release ?p self ?v)" by (rule queues_release [OF I(1) hold])
  moreover have "view (pcs y) (mqs y) = v_release ?p self ?v \<and> (\<forall>th. wait_ok (pcs y th) (ith (mqs y) th)) \<and>
      (\<forall>th. in_hand (pcs y th) (ith (mqs y) th) = (if th = self then None else in_hand (pcs x th) (ith (mqs x) th)))"
  proof (cases "ip_blocked (mq_port (mqs x) ?p) \<noteq> [] \<and> ip_msgcount (mq_port (mqs x) ?p) - 1 < ip_qlimit (mq_port (mqs x) ?p)")
    case False
    then have s: "s = on_mq_heap (set_port ?p (\<lambda>p. p\<lparr>ip_msgcount := ip_msgcount p - 1\<rparr>)) (mqs x)"
      using r a trailer_ok [OF opt(1)] by (auto simp: ipc_mqueue_finish_receive_def Let_def split: list.splits if_splits)
    have "view (pcs y) (mqs y) = v_release ?p self ?v"
      using False by (intro view_eqI) (auto simp: y_def s v_release_def Let_def port_mqueue_def ip_active_def)
    then show ?thesis using I(2) opt(2) by (simp add: y_def s wait_ok_def)
  next
    case True
    then obtain b bs where bs: "ip_blocked (mq_port (mqs x) ?p) = b # bs" by (auto simp: neq_Nil_conv)
    have s: "s = on_ith b ith_go (on_ith b (\<lambda>t. t\<lparr>ith_state := MACH_MSG_SUCCESS\<rparr>) (on_mq_heap (set_port ?p (\<lambda>p. p\<lparr>ip_blocked := bs\<rparr>))
        (on_mq_heap (set_port ?p (\<lambda>p. p\<lparr>ip_msgcount := ip_msgcount p - 1\<rparr>)) (mqs x))))"
      using r a trailer_ok [OF opt(1)] True bs by (auto simp: ipc_mqueue_finish_receive_def Let_def)
    have "phase_of (pcs x b) (ith (mqs x) b) = Blocked ?p" using D(6) [of b ?p] bs by simp
    moreover from this have "b \<noteq> self" using hold by auto
    ultimately obtain k' o' t' where b: "pcs x b = Sending k' o' t'" "msgh_remote_port k' = ?p" "b \<noteq> self"
      using self by (cases "pcs x b") (auto split: if_splits option.splits)
    have "view (pcs y) (mqs y) = v_release ?p self ?v"
      using True bs b by (intro view_eqI) (auto simp: y_def s v_release_def Let_def port_mqueue_def ip_active_def)
    moreover have "wait_ok (pcs y th) (ith (mqs y) th)" for th using I(2) [of th] opt(2) b by (simp add: y_def s wait_ok_def)
    moreover have "in_hand (pcs y th) (ith (mqs y) th) = (if th = self then None else in_hand (pcs x th) (ith (mqs x) th))" for th
      using b by (simp add: y_def s)
    ultimately show ?thesis by blast
  qed
  moreover have "history_ok (v_release ?p self ?v) (\<lambda>p. ip_seqno (mq_port (mqs y) p)) (sent y) (taken y)"
    using I(3) unfolding y by (rule history_same) (simp_all add: y_def seq v_release_def Let_def)
  ultimately have "mq_inv y" using I(4) unfolding mq_inv_def y(3) by (auto split: if_splits)
  then show ?thesis using r unfolding y_def by blast
qed

lemma clear_wait_inv:
  assumes inv: "mq_inv x" and th: "ith_waiting (ith (mqs x) th)" "pcs x th = Receiving q opt m t"
    and result: "result = THREAD_INTERRUPTED \<or> result = THREAD_TIMED_OUT \<and> opt AND MACH_RCV_TIMEOUT \<noteq> 0"
  shows "mq_inv (x\<lparr>mqs := on_ith th (ith_clear_wait result) (mqs x)\<rparr>)"
proof -
  note I = mq_invD [OF inv]
  let ?s = "on_ith th (ith_clear_wait result) (mqs x)"
  have v: "view (pcs x) ?s = view (pcs x) (mqs x)"
    by (intro view_eqI) (auto intro: phase_of_state)
  have "wait_ok (pcs x a) (ith ?s a)" for a
    using I(2) [of a] I(2) [of th] th result by (auto simp: wait_ok_def ith_clear_wait_def split: if_splits)
  moreover have "in_hand (pcs x a) (ith ?s a) = in_hand (pcs x a) (ith (mqs x) a)" for a
    by (cases "pcs x a") simp_all
  ultimately show ?thesis using I(1,3,4) by (simp add: mq_inv_def v)
qed

lemma wake_senders_spec:
  "i \<le> n \<Longrightarrow> wake_senders n i ths =
    (drop (unat (n - i)) ths, map (\<lambda>th. Thread_Go th MACH_MSG_SUCCESS) (take (unat (n - i)) ths))"
proof (induction n i ths rule: wake_senders.induct)
  case (2 n i th ths)
  show ?case
  proof (cases "i < n")
    case True
    then have "i + 1 \<le> n" by (rule inc_le)
    moreover have "n - (i + 1) = n - i - 1" "n - i \<noteq> 0" using True by auto
    then have "unat (n - i) = Suc (unat (n - (i + 1)))" using unat_minus_one [of "n - i"] unat_gt_0 [of "n - i"]
      by (metis One_nat_def Suc_pred)
    ultimately show ?thesis using 2 True by simp
  next
    case False
    then have "n = i" using 2(2) by simp
    then show ?thesis by simp
  qed
qed simp

lemma run_wakeups:
  "mq_heap (fold run_call (map (\<lambda>th. Thread_Go th MACH_MSG_SUCCESS) ths) s) = mq_heap s"
  "distinct ths \<Longrightarrow> mq_threads (fold run_call (map (\<lambda>th. Thread_Go th MACH_MSG_SUCCESS) ths) s) th =
    (if th \<in> set ths then ith_go ((ith s th)\<lparr>ith_state := MACH_MSG_SUCCESS\<rparr>) else ith s th)"
  by (induction ths arbitrary: s) auto

lemma limit_inv:
  assumes inv: "mq_inv x" and act: "ip_active (mq_port (mqs x) p)"
  shows "mq_inv (x\<lparr>mqs := heap_op (\<lambda>h. ipc_port_set_qlimit h p l) (mqs x)\<rparr>)"
proof -
  let ?v = "view (pcs x) (mqs x)"
  define n where "n = (if ip_qlimit (mq_port (mqs x) p) < l then unat (l - ip_qlimit (mq_port (mqs x) p)) else 0)"
  define W where "W = take n (ip_blocked (mq_port (mqs x) p))"
  define s where "s = heap_op (\<lambda>h. ipc_port_set_qlimit h p l) (mqs x)"
  note I = mq_invD [OF inv]
  note D = queues_okD [OF I(1)]
  have dW: "distinct W" using D(5) [of p] by (simp add: W_def)
  have W: "\<exists>k opt t. pcs x th = Sending k opt t \<and> msgh_remote_port k = p" if "th \<in> set W" for th
    using D(6) [of th p] in_set_takeD [OF that [unfolded W_def]] by (cases "pcs x th") (auto split: if_splits option.splits)
  have s: "s = fold run_call (map (\<lambda>th. Thread_Go th MACH_MSG_SUCCESS) W) (mqs x\<lparr>mq_heap := ipc_port_set_qlimit (mq_heap (mqs x)) p l\<rparr>)"
    "ports (ipc_port_set_qlimit (mq_heap (mqs x)) p l) =
      (ports (mq_heap (mqs x)))(p := (mq_port (mqs x) p)\<lparr>ip_blocked := drop n (ip_blocked (mq_port (mqs x) p)), ip_qlimit := l\<rparr>)"
    "psets (ipc_port_set_qlimit (mq_heap (mqs x)) p l) = psets (mq_heap (mqs x))"
    by (simp_all add: s_def heap_op_def ipc_port_set_qlimit_def wake_senders_spec n_def W_def Let_def set_port_def)
  have th: "ith s th = (if th \<in> set W then ith_go ((ith (mqs x) th)\<lparr>ith_state := MACH_MSG_SUCCESS\<rparr>) else ith (mqs x) th)" for th
    using run_wakeups(2) [OF dW] by (simp add: s)
  have ph: "ports (mq_heap s) = ports (ipc_port_set_qlimit (mq_heap (mqs x)) p l)" "psets (mq_heap s) = psets (mq_heap (mqs x))"
    by (simp_all add: s run_wakeups)
  have mq: "mqueue_at q (mq_heap s) = mqueue_at q (mq_heap (mqs x))" for q by (cases q) (simp_all add: ph s(2,3))
  have v: "view (pcs x) s = v_limit p l ?v"
  proof (intro view_eqI)
    fix a
    show "phase_of (pcs x a) (ith s a) = ph (v_limit p l ?v) a"
      using W [of a] by (auto simp: th v_limit_def Let_def W_def n_def)
  qed (simp_all add: mq ph s(2) v_limit_def n_def Let_def port_mqueue_def ip_active_def)
  have "queues_ok (v_limit p l ?v)" using queues_limit [OF I(1)] act by simp
  moreover have "history_ok (v_limit p l ?v) (\<lambda>q. ip_seqno (mq_port s q)) (sent x) (taken x)"
    using I(3) by (rule history_same) (simp_all add: v_limit_def Let_def mq ph s(2) port_mqueue_def ip_active_def)
  moreover have "wait_ok (pcs x a) (ith s a)" for a using I(2) [of a] W [of a] by (auto simp: th wait_ok_def)
  moreover have "in_hand (pcs x a) (ith s a) = in_hand (pcs x a) (ith (mqs x) a)" for a using W [of a] by (auto simp: th)
  ultimately show ?thesis using I(4) unfolding s_def [symmetric] by (simp add: mq_inv_def v)
qed

lemma exec_inv:
  assumes inv: "mq_inv x" and en: "enabled env True op x"
  shows "\<exists>y. exec env op x = Some y \<and> mq_inv y"
proof (cases op)
  case (Send self k opt timeout)
  note I = mq_invD [OF inv]
  have en': "pcs x self = Resting" "ip_receiver (mq_port (mqs x) (msgh_remote_port k)) \<noteq> ipc_space_kernel env" "room x (msgh_remote_port k)"
    using en Send by simp_all
  show ?thesis
  proof (cases "msgh_bits k AND MACH_MSGH_BITS_CIRCULAR \<noteq> 0")
    case True
    let ?s = "on_mq_heap (call (Kmsg_Destroy k)) (mqs x)"
    have "exec env op x = Some (x\<lparr>mqs := ?s\<rparr>)"
      using True en' by (simp add: Send after_send_def fun_upd_idem numeral_eq_Suc)
    moreover have "view (pcs x) ?s = view (pcs x) (mqs x)" by (intro view_eqI) (simp_all add: port_mqueue_def)
    ultimately show ?thesis using inv by (simp add: mq_inv_def)
  next
    case False
    then have "exec env op x = Some (after_send self k opt timeout (ipc_mqueue_send_turn self k opt timeout (mqs x)) x)"
      using en' by (simp add: Send)
    then show ?thesis using after_send_inv [OF inv _ en'(3), of self] en'(1) by simp
  qed
next
  case (Send_Resume self)
  then obtain k opt t where pc: "pcs x self = Sending k opt t" "\<not> ith_waiting (ith (mqs x) self)" "room x (msgh_remote_port k)"
    using en by (auto split: mq_pc.splits)
  then have "ith_state (ith (mqs x) self) = MACH_MSG_SUCCESS" using mq_invD(2) [OF inv, of self] by (simp add: wait_ok_def)
  then show ?thesis using after_send_inv [OF inv _ pc(3), of self] pc by (simp add: Send_Resume ipc_mqueue_send_resume_def)
next
  case (Receive self q opt m t)
  then show ?thesis using after_receive_inv [OF inv] en by simp
next
  case (Receive_Resume self)
  then obtain q opt m t where pc: "pcs x self = Receiving q opt m t" "\<not> ith_waiting (ith (mqs x) self)"
    using en by (auto split: mq_pc.splits)
  then show ?thesis using receive_resume_inv [OF inv pc] by (auto simp: Receive_Resume)
next
  case (Finish self scatter)
  then obtain k n opt m where pc: "pcs x self = Finishing k n opt m" using en by (auto split: mq_pc.splits)
  then show ?thesis using finish_inv [OF inv pc, of scatter] by (auto simp: Finish)
next
  case (Interrupt th)
  then obtain q opt m t where "pcs x th = Receiving q opt m t" "ith_waiting (ith (mqs x) th)" using en by (auto split: mq_pc.splits)
  then show ?thesis using clear_wait_inv [OF inv] by (simp add: Interrupt)
next
  case (Expire th)
  then obtain q opt m t where "pcs x th = Receiving q opt m t" "ith_waiting (ith (mqs x) th)" "opt AND MACH_RCV_TIMEOUT \<noteq> 0"
    using en by (auto split: mq_pc.splits)
  then show ?thesis using clear_wait_inv [OF inv] by (simp add: Expire)
next
  case (Set_Limit p l)
  then show ?thesis using limit_inv [OF inv] en by simp
qed

lemma start_inv: "mq_start x \<Longrightarrow> mq_inv x"
proof -
  assume a: "mq_start x"
  have "queues_ok (view (pcs x) (mqs x))"
    using a by (intro queues_okI) (simp_all add: mq_start_def in_phase_def)
  then show ?thesis using a by (simp add: mq_inv_def mq_start_def wait_ok_def history_ok_def)
qed

lemma reachable_inv: "mq_reachable env True x \<Longrightarrow> mq_inv x"
proof (induction rule: mq_reachable.induct)
  case (mq_start x) then show ?case by (rule start_inv)
next
  case (mq_step x op y) then show ?case using exec_inv [of x env op] by auto
qed

end
