(* ===== verification/Ipc_Queue.thy ===== *)
theory Ipc_Queue
  imports Prelude
begin

section \<open>Rings of threads and messages\<close>

text \<open>
  \<open>ipc/ipc_thread.c\<close> and the queues of \<open>ipc/ipc_kmsg.c\<close>: threads and messages wait in circular lists, doubly
  linked through the structures themselves.  A queue is the address of its first element, or 0.  The links of all
  structures are one store; the operations return the changed queue and store.  The rest of the development works
  with the lists of addresses that the rings stand for; this theory shows that the ring operations are the list
  operations, and that they leave every other queue alone.
\<close>

record links =
  lk_next :: "addr \<Rightarrow> addr"
  lk_prev :: "addr \<Rightarrow> addr"

definition set_next :: "addr \<Rightarrow> addr \<Rightarrow> links \<Rightarrow> links" where
  "set_next x y ls = ls\<lparr>lk_next := (lk_next ls)(x := y)\<rparr>"

definition set_prev :: "addr \<Rightarrow> addr \<Rightarrow> links \<Rightarrow> links" where
  "set_prev x y ls = ls\<lparr>lk_prev := (lk_prev ls)(x := y)\<rparr>"

type_synonym ring_queue = "addr \<times> links"

subsection \<open>ipc_thread.h and ipc_thread.c\<close>

definition ITH_NULL :: addr where
  "ITH_NULL = 0"

definition ipc_thread_links_init :: "addr \<Rightarrow> links \<Rightarrow> links" where
  "ipc_thread_links_init thread ls = set_prev thread thread (set_next thread thread ls)"

definition ipc_thread_rmqueue_first :: "ring_queue \<Rightarrow> addr \<Rightarrow> ring_queue" where
  "ipc_thread_rmqueue_first queue thread =
     (let (base, ls) = queue; nxt = lk_next ls thread in
      if nxt = thread then (ITH_NULL, ls)
      else let prev = lk_prev ls thread
           in (nxt, ipc_thread_links_init thread (set_next prev nxt (set_prev nxt prev ls))))"

text \<open>In an empty queue the macro relies on the links of the thread leading to itself, which it asserts.\<close>

definition ipc_thread_enqueue :: "ring_queue \<Rightarrow> addr \<Rightarrow> ring_queue" where
  "ipc_thread_enqueue queue thread =
     (let (base, ls) = queue in
      if base = ITH_NULL then (thread, ls)
      else let lst = lk_prev ls base
           in (base, set_next lst thread (set_prev base thread (set_prev thread lst (set_next thread base ls)))))"

definition ipc_thread_dequeue :: "ring_queue \<Rightarrow> addr \<times> ring_queue" where
  "ipc_thread_dequeue queue =
     (let first = fst queue in (first, if first \<noteq> ITH_NULL then ipc_thread_rmqueue_first queue first else queue))"

definition ipc_thread_rmqueue :: "ring_queue \<Rightarrow> addr \<Rightarrow> ring_queue" where
  "ipc_thread_rmqueue queue thread =
     (let (base, ls) = queue; nxt = lk_next ls thread; prev = lk_prev ls thread in
      if nxt = thread then (ITH_NULL, ls)
      else (if base = thread then nxt else base,
            ipc_thread_links_init thread (set_next prev nxt (set_prev nxt prev ls))))"

text \<open>The loop of \<open>ipc_thread_inqueue\<close>; \<open>None\<close> is a loop without end.\<close>

partial_function (option) inqueue_loop :: "links \<Rightarrow> addr \<Rightarrow> addr \<Rightarrow> addr \<Rightarrow> bool option" where
  "inqueue_loop ls base thread nxt =
     (if nxt = base then Some False else if nxt = thread then Some True
      else inqueue_loop ls base thread (lk_next ls nxt))"

definition ipc_thread_inqueue :: "ring_queue \<Rightarrow> addr \<Rightarrow> bool option" where
  "ipc_thread_inqueue queue thread =
     (let (base, ls) = queue in
      if base = ITH_NULL then Some False else if base = thread then Some True
      else inqueue_loop ls base thread (lk_next ls base))"

subsection \<open>The message queues of ipc_kmsg.h and ipc_kmsg.c\<close>

definition IKM_NULL :: addr where
  "IKM_NULL = 0"
definition IKM_BOGUS :: addr where
  "IKM_BOGUS = 0xffffff10"

definition ikm_bogus :: "addr \<Rightarrow> links \<Rightarrow> links" where
  "ikm_bogus kmsg ls = set_prev kmsg IKM_BOGUS (set_next kmsg IKM_BOGUS ls)"

definition ipc_kmsg_rmqueue_first :: "ring_queue \<Rightarrow> addr \<Rightarrow> ring_queue" where
  "ipc_kmsg_rmqueue_first queue kmsg =
     (let (base, ls) = queue; nxt = lk_next ls kmsg in
      if nxt = kmsg then (IKM_NULL, ikm_bogus kmsg ls)
      else let prev = lk_prev ls kmsg in (nxt, ikm_bogus kmsg (set_next prev nxt (set_prev nxt prev ls))))"

definition ipc_kmsg_enqueue :: "ring_queue \<Rightarrow> addr \<Rightarrow> ring_queue" where
  "ipc_kmsg_enqueue queue kmsg =
     (let (base, ls) = queue in
      if base = IKM_NULL then (kmsg, set_prev kmsg kmsg (set_next kmsg kmsg ls))
      else let lst = lk_prev ls base
           in (base, set_next lst kmsg (set_prev base kmsg (set_prev kmsg lst (set_next kmsg base ls)))))"

definition ipc_kmsg_dequeue :: "ring_queue \<Rightarrow> addr \<times> ring_queue" where
  "ipc_kmsg_dequeue queue =
     (let first = fst queue in (first, if first \<noteq> IKM_NULL then ipc_kmsg_rmqueue_first queue first else queue))"

definition ipc_kmsg_rmqueue :: "ring_queue \<Rightarrow> addr \<Rightarrow> ring_queue" where
  "ipc_kmsg_rmqueue queue kmsg =
     (let (base, ls) = queue; nxt = lk_next ls kmsg; prev = lk_prev ls kmsg in
      if nxt = kmsg then (IKM_NULL, ikm_bogus kmsg ls)
      else (if base = kmsg then nxt else base, ikm_bogus kmsg (set_next prev nxt (set_prev nxt prev ls))))"

definition ipc_kmsg_queue_next :: "ring_queue \<Rightarrow> addr \<Rightarrow> addr" where
  "ipc_kmsg_queue_next queue kmsg =
     (let (base, ls) = queue; nxt = lk_next ls kmsg in if base = nxt then IKM_NULL else nxt)"

subsection \<open>Rings\<close>

definition adj :: "links \<Rightarrow> addr \<Rightarrow> addr \<Rightarrow> bool" where
  "adj ls x y \<longleftrightarrow> lk_next ls x = y \<and> lk_prev ls y = x"

fun chain :: "links \<Rightarrow> addr list \<Rightarrow> bool" where
  "chain ls (x # y # zs) \<longleftrightarrow> adj ls x y \<and> chain ls (y # zs)"
| "chain ls _ \<longleftrightarrow> True"

definition cyc :: "links \<Rightarrow> addr list \<Rightarrow> bool" where
  "cyc ls xs \<longleftrightarrow> (xs \<noteq> [] \<longrightarrow> chain ls (xs @ [hd xs]))"

text \<open>The queue holds the elements of the list, in its order.\<close>

definition ring :: "ring_queue \<Rightarrow> addr list \<Rightarrow> bool" where
  "ring queue xs \<longleftrightarrow>
     distinct xs \<and> 0 \<notin> set xs \<and> fst queue = (case xs of [] \<Rightarrow> 0 | x # _ \<Rightarrow> x) \<and> cyc (snd queue) xs"

lemma set_simps [simp]:
  "lk_next (set_next x y ls) = (lk_next ls)(x := y)" "lk_prev (set_next x y ls) = lk_prev ls"
  "lk_next (set_prev x y ls) = lk_next ls" "lk_prev (set_prev x y ls) = (lk_prev ls)(x := y)"
  by (simp_all add: set_next_def set_prev_def)

lemma chain_append: "chain ls (xs @ x # ys) \<longleftrightarrow> chain ls (xs @ [x]) \<and> chain ls (x # ys)"
  by (induction xs rule: induct_list012) auto

lemma chain_cong:
  assumes "\<And>x. x \<in> set (butlast xs) \<Longrightarrow> lk_next ls' x = lk_next ls x"
    and "\<And>x. x \<in> set (tl xs) \<Longrightarrow> lk_prev ls' x = lk_prev ls x"
  shows "chain ls' xs \<longleftrightarrow> chain ls xs"
  using assms by (induction xs rule: induct_list012) (auto simp: adj_def split: if_splits)

lemma cyc_rotate: "cyc ls (xs @ ys) \<longleftrightarrow> cyc ls (ys @ xs)"
proof (cases "xs = [] \<or> ys = []")
  case False
  then obtain x xs' y ys' where "xs = x # xs'" "ys = y # ys'" by (meson neq_Nil_conv)
  then show ?thesis
    using chain_append [of ls "x # xs'" y "ys' @ [x]"] chain_append [of ls "y # ys'" x "xs' @ [y]"]
    by (auto simp: cyc_def)
qed auto

lemma cyc_Cons:
  assumes "ys \<noteq> []"
  shows "cyc ls (x # ys) \<longleftrightarrow> adj ls x (hd ys) \<and> chain ls ys \<and> adj ls (last ys) x"
proof -
  obtain zs l where ys: "ys = zs @ [l]" using assms by (meson rev_exhaust)
  have "chain ls (x # ys @ [x]) \<longleftrightarrow> adj ls x (hd ys) \<and> chain ls (ys @ [x])"
    using assms by (cases ys) auto
  also have "chain ls (ys @ [x]) \<longleftrightarrow> chain ls ys \<and> adj ls l x"
    using chain_append [of ls zs l "[x]"] by (simp add: ys)
  finally show ?thesis by (auto simp: cyc_def ys)
qed

lemma cyc_chain: "ys \<noteq> [] \<Longrightarrow> cyc ls ys \<longleftrightarrow> chain ls ys \<and> adj ls (last ys) (hd ys)"
proof -
  assume "ys \<noteq> []"
  then obtain zs l where ys: "ys = zs @ [l]" by (meson rev_exhaust)
  show ?thesis using chain_append [of ls zs l "[hd ys]"] by (simp add: cyc_def ys)
qed

lemma distinct_ends:
  assumes "distinct xs" "xs \<noteq> []"
  shows "hd xs \<notin> set (tl xs)" "last xs \<notin> set (butlast xs)"
proof -
  show "hd xs \<notin> set (tl xs)" using assms by (cases xs) auto
  have "distinct (butlast xs @ [last xs])" using assms by simp
  then show "last xs \<notin> set (butlast xs)" by (simp only: distinct_append) simp
qed

text \<open>Taking an element out of a ring, and putting one in before its first element.\<close>

definition unlinked :: "addr \<Rightarrow> addr \<Rightarrow> addr \<Rightarrow> links \<Rightarrow> links" where
  "unlinked nxt prev x ls = set_next prev nxt (set_prev nxt prev ls)"

lemma cyc_remove:
  assumes "cyc ls (x # ys)" "ys \<noteq> []" "distinct (x # ys)"
    and same: "\<And>y. y \<noteq> x \<Longrightarrow> lk_next ls' y = lk_next (unlinked (hd ys) (last ys) x ls) y"
      "\<And>y. y \<noteq> x \<Longrightarrow> lk_prev ls' y = lk_prev (unlinked (hd ys) (last ys) x ls) y"
  shows "cyc ls' ys" "lk_next ls x = hd ys" "lk_prev ls x = last ys"
proof -
  have c: "adj ls x (hd ys)" "chain ls ys" "adj ls (last ys) x" using assms(1) cyc_Cons [OF assms(2)] by simp_all
  show "lk_next ls x = hd ys" "lk_prev ls x = last ys" using c by (simp_all add: adj_def)
  have m: "hd ys \<noteq> x" "last ys \<noteq> x" using assms(2,3) by (auto simp: hd_in_set last_in_set)
  note e = distinct_ends [of ys]
  have x: "x \<notin> set (tl ys)" "x \<notin> set (butlast ys)"
    using assms(2,3) by (auto dest: in_set_butlastD list.set_sel(2))
  have ends: "y \<noteq> x \<and> y \<noteq> last ys" if "y \<in> set (butlast ys)" for y using that x e assms(2,3) by auto
  have starts: "y \<noteq> x \<and> y \<noteq> hd ys" if "y \<in> set (tl ys)" for y using that x e assms(2,3) by auto
  have "chain ls' ys \<longleftrightarrow> chain ls ys"
  proof (rule chain_cong)
    fix y assume "y \<in> set (butlast ys)"
    then show "lk_next ls' y = lk_next ls y" using ends [of y] same(1) [of y] by (simp add: unlinked_def)
  next
    fix y assume "y \<in> set (tl ys)"
    then show "lk_prev ls' y = lk_prev ls y" using starts [of y] same(2) [of y] by (simp add: unlinked_def)
  qed
  then have "chain ls' ys" using c(2) by simp
  moreover have "adj ls' (last ys) (hd ys)" using same m by (simp add: adj_def unlinked_def)
  ultimately show "cyc ls' ys" using cyc_chain [OF assms(2)] by simp
qed

lemma cyc_insert:
  assumes "cyc ls ys" "ys \<noteq> []" "distinct (x # ys)"
    and nx: "lk_next ls' x = hd ys" "lk_next ls' (last ys) = x" "\<And>y. y \<noteq> x \<Longrightarrow> y \<noteq> last ys \<Longrightarrow> lk_next ls' y = lk_next ls y"
    and pv: "lk_prev ls' x = last ys" "lk_prev ls' (hd ys) = x" "\<And>y. y \<noteq> x \<Longrightarrow> y \<noteq> hd ys \<Longrightarrow> lk_prev ls' y = lk_prev ls y"
  shows "cyc ls' (x # ys)"
proof -
  have c: "chain ls ys" using assms(1) cyc_chain [OF assms(2)] by simp
  note e = distinct_ends [of ys]
  have ends: "y \<noteq> x \<and> y \<noteq> last ys" if "y \<in> set (butlast ys)" for y
    using that e assms(2,3) by (auto dest: in_set_butlastD)
  have starts: "y \<noteq> x \<and> y \<noteq> hd ys" if "y \<in> set (tl ys)" for y
    using that e assms(2,3) by (auto dest: list.set_sel(2))
  have "chain ls' ys \<longleftrightarrow> chain ls ys"
  proof (rule chain_cong)
    fix y assume "y \<in> set (butlast ys)"
    then show "lk_next ls' y = lk_next ls y" using ends [of y] nx(3) by blast
  next
    fix y assume "y \<in> set (tl ys)"
    then show "lk_prev ls' y = lk_prev ls y" using starts [of y] pv(3) by blast
  qed
  then show ?thesis using c nx(1,2) pv(1,2) by (simp add: cyc_Cons [OF assms(2)] adj_def)
qed

text \<open>What an operation leaves alone: the links of everything but the elements of the queue.\<close>

definition elsewhere :: "addr set \<Rightarrow> links \<Rightarrow> links \<Rightarrow> bool" where
  "elsewhere A ls ls' \<longleftrightarrow> (\<forall>y. y \<notin> A \<longrightarrow> lk_next ls' y = lk_next ls y \<and> lk_prev ls' y = lk_prev ls y)"

lemma elsewhere_ring:
  assumes "elsewhere A ls ls'" "ring (base, ls) xs" "set xs \<inter> A = {}"
  shows "ring (base, ls') xs"
proof -
  have same: "lk_next ls' y = lk_next ls y" "lk_prev ls' y = lk_prev ls y" if "y \<in> set xs" for y
    using assms(1,3) that by (auto simp: elsewhere_def)
  have "cyc ls' xs \<longleftrightarrow> cyc ls xs"
  proof (cases "xs = []")
    case False
    have "chain ls' xs \<longleftrightarrow> chain ls xs"
      by (rule chain_cong) (auto intro: same dest: in_set_butlastD list.set_sel(2) [OF False])
    moreover have "adj ls' (last xs) (hd xs) \<longleftrightarrow> adj ls (last xs) (hd xs)" using same False by (simp add: adj_def)
    ultimately show ?thesis using cyc_chain [OF False] by simp
  qed (simp add: cyc_def)
  then show ?thesis using assms(2) by (simp add: ring_def)
qed

text \<open>The common part of the four ways to take an element out.\<close>

lemma ring_split:
  assumes "ring (base, ls) xs" "x \<in> set xs" "xs \<noteq> [x]"
    and out: "elsewhere {x} (set_next (lk_prev ls x) (lk_next ls x) (set_prev (lk_next ls x) (lk_prev ls x) ls)) ls'"
  shows "lk_next ls x \<noteq> x" "ring (if base = x then lk_next ls x else base, ls') (remove1 x xs)" "elsewhere (set xs) ls ls'"
proof -
  obtain as bs where xs: "xs = as @ x # bs" using assms(2) by (meson split_list)
  have r: "distinct xs" "0 \<notin> set xs" "cyc ls xs" "base = hd xs" using assms(1) xs by (auto simp: ring_def split: list.splits)
  let ?ys = "bs @ as"
  have ys: "?ys \<noteq> []" "distinct (x # ?ys)" using assms(3) r(1) xs by auto
  have c: "cyc ls (x # ?ys)" using r(3) cyc_rotate [of ls as "x # bs"] xs by simp
  have nb: "lk_next ls x = hd ?ys" "lk_prev ls x = last ?ys" using c cyc_Cons [OF ys(1)] by (simp_all add: adj_def)
  have "lk_next ls' y = lk_next (unlinked (hd ?ys) (last ?ys) x ls) y" if "y \<noteq> x" for y
    using out that unfolding nb by (simp add: unlinked_def elsewhere_def)
  moreover have "lk_prev ls' y = lk_prev (unlinked (hd ?ys) (last ?ys) x ls) y" if "y \<noteq> x" for y
    using out that unfolding nb by (simp add: unlinked_def elsewhere_def)
  ultimately have "cyc ls' ?ys" by (rule cyc_remove(1) [OF c ys])
  then have c': "cyc ls' (as @ bs)" using cyc_rotate by blast
  have m: "hd ?ys \<in> set xs" "last ?ys \<in> set xs" using ys(1) xs hd_in_set [OF ys(1)] last_in_set [OF ys(1)] by auto
  show "lk_next ls x \<noteq> x" using nb(1) ys hd_in_set [OF ys(1)] by auto
  have "remove1 x xs = as @ bs" using r(1) xs by (simp add: remove1_append)
  moreover have "(if base = x then lk_next ls x else base) = hd (as @ bs)"
    using r(1,4) xs nb(1) ys by (cases as) auto
  moreover have "as @ bs \<noteq> []" using ys(1) by auto
  ultimately show "ring (if base = x then lk_next ls x else base, ls') (remove1 x xs)"
    using c' r(1,2) xs by (auto simp: ring_def split: list.split)
  show "elsewhere (set xs) ls ls'"
    using out m nb assms(2) by (auto simp: elsewhere_def)
qed

lemma ring_single: "ring (base, ls) [x] \<longleftrightarrow> x \<noteq> 0 \<and> base = x \<and> lk_next ls x = x \<and> lk_prev ls x = x"
  by (auto simp: ring_def cyc_def adj_def)

lemma elsewhere_refl [simp]: "elsewhere A ls ls"
  by (simp add: elsewhere_def)

lemma ring_next_self: "ring (base, ls) xs \<Longrightarrow> x \<in> set xs \<Longrightarrow> lk_next ls x = x \<longleftrightarrow> xs = [x]"
  using ring_split(1) [OF _ _ _ elsewhere_refl] ring_single by blast

subsection \<open>The interface of a ring queue\<close>

text \<open>What an element needs before it goes in differs: a thread's links lead to itself, a message's may be anything.\<close>

locale ring_fifo =
  fixes ready :: "links \<Rightarrow> addr \<Rightarrow> bool"
    and enq :: "ring_queue \<Rightarrow> addr \<Rightarrow> ring_queue"
    and deq :: "ring_queue \<Rightarrow> addr \<times> ring_queue"
    and rmq :: "ring_queue \<Rightarrow> addr \<Rightarrow> ring_queue"
  assumes ready_elsewhere: "elsewhere A ls ls' \<Longrightarrow> x \<notin> A \<Longrightarrow> ready ls x \<Longrightarrow> ready ls' x"
    and enq_law: "ring q xs \<Longrightarrow> x \<notin> set xs \<Longrightarrow> x \<noteq> 0 \<Longrightarrow> ready (snd q) x \<Longrightarrow>
      ring (enq q x) (xs @ [x]) \<and> elsewhere (insert x (set xs)) (snd q) (snd (enq q x))"
    and deq_law: "ring q (x # xs) \<Longrightarrow> fst (deq q) = x \<and> ring (snd (deq q)) xs \<and> ready (snd (snd (deq q))) x \<and>
      elsewhere (set (x # xs)) (snd q) (snd (snd (deq q)))"
    and deq_empty: "ring q [] \<Longrightarrow> deq q = (0, q)"
    and rmq_law: "ring q xs \<Longrightarrow> x \<in> set xs \<Longrightarrow> ring (rmq q x) (remove1 x xs) \<and> ready (snd (rmq q x)) x \<and>
      elsewhere (set xs) (snd q) (snd (rmq q x))"
begin

text \<open>What goes in comes out, in the same order.\<close>

lemma enq_all:
  assumes "ring q ys" "distinct (ys @ xs)" "0 \<notin> set xs" "\<forall>x \<in> set xs. ready (snd q) x"
  shows "ring (fold (\<lambda>x q. enq q x) xs q) (ys @ xs)"
  using assms
proof (induction xs arbitrary: q ys)
  case (Cons x xs)
  have e: "ring (enq q x) (ys @ [x])" "elsewhere (insert x (set ys)) (snd q) (snd (enq q x))"
    using enq_law [OF Cons.prems(1), of x] Cons.prems(2-4) by auto
  have "ready (snd (enq q x)) y" if "y \<in> set xs" for y
    using Cons.prems(2,4) that by (intro ready_elsewhere [OF e(2)]) auto
  then show ?case using Cons.IH [OF e(1)] Cons.prems(2,3) by simp
qed simp

fun drain :: "nat \<Rightarrow> ring_queue \<Rightarrow> addr list" where
  "drain 0 q = []"
| "drain (Suc n) q = (case deq q of (x, q) \<Rightarrow> if x = 0 then [] else x # drain n q)"

lemma drain_ring: "ring q xs \<Longrightarrow> length xs \<le> n \<Longrightarrow> drain n q = xs"
proof (induction xs arbitrary: q n)
  case Nil
  then show ?case using deq_empty [OF Nil(1)] by (cases n) simp_all
next
  case (Cons x xs)
  then obtain m where n: "n = Suc m" by (cases n) auto
  have d: "fst (deq q) = x" "ring (snd (deq q)) xs" using deq_law [OF Cons.prems(1)] by simp_all
  have "x \<noteq> 0" using Cons.prems(1) by (auto simp: ring_def)
  then show ?case using Cons.IH [OF d(2), of m] Cons.prems(2) d(1) n by (simp add: case_prod_unfold)
qed

lemma fifo:
  assumes "distinct xs" "0 \<notin> set xs" "\<forall>x \<in> set xs. ready ls x"
  shows "drain (length xs) (fold (\<lambda>x q. enq q x) xs (0, ls)) = xs"
proof -
  have "ring (0, ls) []" by (simp add: ring_def cyc_def)
  from enq_all [OF this, of xs] assms show ?thesis by (intro drain_ring) simp_all
qed

end

subsection \<open>Threads\<close>

definition detached :: "links \<Rightarrow> addr \<Rightarrow> bool" where
  "detached ls x \<longleftrightarrow> lk_next ls x = x \<and> lk_prev ls x = x"

lemma ring_last:
  assumes "ring (base, ls) xs" "xs \<noteq> []"
  shows "base = hd xs" "base \<noteq> 0" "lk_prev ls base = last xs"
proof -
  show b: "base = hd xs" "base \<noteq> 0" using assms by (auto simp: ring_def split: list.splits)
  have "cyc ls xs" using assms(1) by (simp add: ring_def)
  then show "lk_prev ls base = last xs" using cyc_chain [OF assms(2)] unfolding b(1) by (simp add: adj_def)
qed

text \<open>Putting an element in after the last one; in an empty queue its links lead to itself.\<close>

lemma ring_enqueue:
  assumes r: "ring (base, ls) xs" and x: "x \<notin> set xs" "x \<noteq> 0"
    and empty: "xs = [] \<Longrightarrow> base' = x \<and> lk_next ls' x = x \<and> lk_prev ls' x = x \<and> elsewhere {x} ls ls'"
    and more: "xs \<noteq> [] \<Longrightarrow> base' = base \<and>
      ls' = set_next (lk_prev ls base) x (set_prev base x (set_prev x (lk_prev ls base) (set_next x base ls)))"
  shows "ring (base', ls') (xs @ [x]) \<and> elsewhere (insert x (set xs)) ls ls'"
proof (cases "xs = []")
  case True
  then show ?thesis using empty x(2) by (simp add: ring_single)
next
  case False
  note l = ring_last [OF r False]
  have h: "hd xs \<in> set xs" "last xs \<in> set xs" using False by simp_all
  have ls': "ls' = set_next (last xs) x (set_prev (hd xs) x (set_prev x (last xs) (set_next x (hd xs) ls)))"
    using more [OF False] l by simp
  have d: "distinct (x # xs)" "cyc ls xs" "0 \<notin> set xs" using r x by (simp_all add: ring_def)
  have "cyc ls' (x # xs)"
    by (rule cyc_insert [OF d(2) False d(1)]) (use h x in \<open>auto simp: ls'\<close>)
  then have "cyc ls' (xs @ [x])" using cyc_rotate [of ls' "[x]" xs] by simp
  moreover have "elsewhere (insert x (set xs)) ls ls'" using h by (auto simp: elsewhere_def ls')
  ultimately show ?thesis using d x more [OF False] l(1) False by (cases xs) (auto simp: ring_def)
qed

lemma elsewhere_init: "elsewhere {x} ls (ipc_thread_links_init x ls)" "elsewhere {x} ls (ikm_bogus x ls)"
  by (simp_all add: elsewhere_def ipc_thread_links_init_def ikm_bogus_def)

interpretation thread_queue: ring_fifo detached ipc_thread_enqueue ipc_thread_dequeue ipc_thread_rmqueue
proof (unfold_locales, goal_cases)
  case (1 A ls ls' x)
  then show ?case by (simp add: elsewhere_def detached_def)
next
  case (2 q xs x)
  obtain base ls where q: "q = (base, ls)" by fastforce
  have b: "base = 0 \<longleftrightarrow> xs = []" using 2(1) ring_last(2) by (auto simp: q ring_def split: list.splits)
  show ?case
    using ring_enqueue [OF 2(1) [unfolded q] 2(2,3), of "fst (ipc_thread_enqueue q x)" "snd (ipc_thread_enqueue q x)"] 2(4) b
    by (simp add: q ipc_thread_enqueue_def ITH_NULL_def detached_def elsewhere_def Let_def)
next
  case (3 q x xs)
  obtain base ls where q: "q = (base, ls)" by fastforce
  have b: "base = x" "x \<noteq> 0" "x \<notin> set xs" using 3 by (auto simp: q ring_def)
  show ?case
  proof (cases "xs = []")
    case True
    then show ?thesis using 3 b
      by (simp add: q ring_single ipc_thread_dequeue_def ipc_thread_rmqueue_first_def ITH_NULL_def detached_def elsewhere_def)
        (simp add: ring_def cyc_def)
  next
    case False
    let ?ls = "ipc_thread_links_init x (set_next (lk_prev ls x) (lk_next ls x) (set_prev (lk_next ls x) (lk_prev ls x) ls))"
    have s: "lk_next ls x \<noteq> x" "ring (if base = x then lk_next ls x else base, ?ls) (remove1 x (x # xs))" "elsewhere (set (x # xs)) ls ?ls"
      using ring_split [OF 3 [unfolded q], of x ?ls] False by (simp_all add: elsewhere_init)
    then show ?thesis using b
      by (simp add: q ipc_thread_dequeue_def ipc_thread_rmqueue_first_def ITH_NULL_def detached_def Let_def) (simp add: ipc_thread_links_init_def)
  qed
next
  case (4 q)
  then show ?case by (cases q) (simp add: ipc_thread_dequeue_def ITH_NULL_def ring_def)
next
  case (5 q xs x)
  obtain base ls where q: "q = (base, ls)" by fastforce
  show ?case
  proof (cases "xs = [x]")
    case True
    then show ?thesis using 5
      by (simp add: q ring_single ipc_thread_rmqueue_def ITH_NULL_def detached_def elsewhere_def) (simp add: ring_def cyc_def)
  next
    case False
    let ?ls = "ipc_thread_links_init x (set_next (lk_prev ls x) (lk_next ls x) (set_prev (lk_next ls x) (lk_prev ls x) ls))"
    have s: "lk_next ls x \<noteq> x" "ring (if base = x then lk_next ls x else base, ?ls) (remove1 x xs)" "elsewhere (set xs) ls ?ls"
      using ring_split [OF 5(1) [unfolded q] 5(2) False, of ?ls] by (simp_all add: elsewhere_init)
    then show ?thesis
      by (simp add: q ipc_thread_rmqueue_def detached_def Let_def) (simp add: ipc_thread_links_init_def)
  qed
qed

subsection \<open>Messages\<close>

interpretation kmsg_queue: ring_fifo "\<lambda>_ _. True" ipc_kmsg_enqueue ipc_kmsg_dequeue ipc_kmsg_rmqueue
proof (unfold_locales, goal_cases)
  case (1 A ls ls' x)
  show ?case ..
next
  case (2 q xs x)
  obtain base ls where q: "q = (base, ls)" by fastforce
  have b: "base = 0 \<longleftrightarrow> xs = []" using 2(1) ring_last(2) by (auto simp: q ring_def split: list.splits)
  show ?case
    using ring_enqueue [OF 2(1) [unfolded q] 2(2,3), of "fst (ipc_kmsg_enqueue q x)" "snd (ipc_kmsg_enqueue q x)"] b
    by (simp add: q ipc_kmsg_enqueue_def IKM_NULL_def elsewhere_def Let_def)
next
  case (3 q x xs)
  obtain base ls where q: "q = (base, ls)" by fastforce
  have b: "base = x" "x \<noteq> 0" "x \<notin> set xs" using 3 by (auto simp: q ring_def)
  show ?case
  proof (cases "xs = []")
    case True
    then show ?thesis using 3 b elsewhere_init
      by (simp add: q ring_single ipc_kmsg_dequeue_def ipc_kmsg_rmqueue_first_def IKM_NULL_def)
        (simp add: ring_def cyc_def)
  next
    case False
    let ?ls = "ikm_bogus x (set_next (lk_prev ls x) (lk_next ls x) (set_prev (lk_next ls x) (lk_prev ls x) ls))"
    have s: "lk_next ls x \<noteq> x" "ring (if base = x then lk_next ls x else base, ?ls) (remove1 x (x # xs))" "elsewhere (set (x # xs)) ls ?ls"
      using ring_split [OF 3 [unfolded q], of x ?ls] False by (simp_all add: elsewhere_init)
    then show ?thesis using b
      by (simp add: q ipc_kmsg_dequeue_def ipc_kmsg_rmqueue_first_def IKM_NULL_def Let_def)
  qed
next
  case (4 q)
  then show ?case by (cases q) (simp add: ipc_kmsg_dequeue_def IKM_NULL_def ring_def)
next
  case (5 q xs x)
  obtain base ls where q: "q = (base, ls)" by fastforce
  show ?case
  proof (cases "xs = [x]")
    case True
    then show ?thesis using 5 elsewhere_init
      by (simp add: q ring_single ipc_kmsg_rmqueue_def IKM_NULL_def) (simp add: ring_def cyc_def)
  next
    case False
    let ?ls = "ikm_bogus x (set_next (lk_prev ls x) (lk_next ls x) (set_prev (lk_next ls x) (lk_prev ls x) ls))"
    have s: "lk_next ls x \<noteq> x" "ring (if base = x then lk_next ls x else base, ?ls) (remove1 x xs)" "elsewhere (set xs) ls ?ls"
      using ring_split [OF 5(1) [unfolded q] 5(2) False, of ?ls] by (simp_all add: elsewhere_init)
    then show ?thesis by (simp add: q ipc_kmsg_rmqueue_def Let_def)
  qed
qed

lemma kmsg_next:
  assumes "ring (base, ls) (xs @ x # ys)"
  shows "ipc_kmsg_queue_next (base, ls) x = (case ys of [] \<Rightarrow> 0 | y # _ \<Rightarrow> y)"
proof -
  have c: "cyc ls (x # ys @ xs)" "base = hd (xs @ [x])" "distinct (xs @ x # ys)"
    using assms cyc_rotate [of ls xs "x # ys"] by (cases xs; simp add: ring_def)+
  then have n: "lk_next ls x = hd (ys @ xs @ [x])"
    by (cases ys; cases xs) (auto simp: cyc_def adj_def)
  show ?thesis
    using c(2,3) by (cases ys; cases xs) (auto simp: ipc_kmsg_queue_next_def n IKM_NULL_def)
qed

subsection \<open>Looking for a thread\<close>

lemma inqueue_steps:
  assumes "chain ls (y # ys @ [base])" "base \<notin> set (y # ys)"
  shows "inqueue_loop ls base th y = Some (th \<in> set (y # ys))"
  using assms
proof (induction ys arbitrary: y)
  case Nil
  then have n: "lk_next ls y = base" by (simp add: adj_def)
  show ?case using Nil.prems(2) n by (auto simp: inqueue_loop.simps [of ls base th y] inqueue_loop.simps [of ls base th base])
next
  case (Cons z ys)
  have n: "lk_next ls y = z" using Cons.prems(1) by (simp add: adj_def)
  have "inqueue_loop ls base th z = Some (th \<in> set (z # ys))" using Cons by simp
  then show ?case using Cons.prems(2) n by (auto simp: inqueue_loop.simps [of ls base th y])
qed

lemma inqueue_spec:
  assumes "ring (base, ls) xs"
  shows "ipc_thread_inqueue (base, ls) th = Some (th \<in> set xs)"
proof (cases xs)
  case Nil
  then show ?thesis using assms by (simp add: ring_def ipc_thread_inqueue_def ITH_NULL_def)
next
  case (Cons x ys)
  have b: "base = x" "x \<noteq> 0" "x \<notin> set ys" "chain ls (x # ys @ [x])"
    using assms Cons by (auto simp: ring_def cyc_def)
  show ?thesis
  proof (cases ys)
    case Nil
    then have "lk_next ls x = x" using b(4) by (simp add: adj_def)
    then show ?thesis using b Cons Nil
      by (simp add: ipc_thread_inqueue_def ITH_NULL_def inqueue_loop.simps [of ls x th x])
  next
    case (Cons y zs)
    then have "lk_next ls x = y" "chain ls (y # zs @ [x])" using b(4) by (simp_all add: adj_def)
    then show ?thesis using b \<open>xs = x # ys\<close> Cons inqueue_steps [of ls y zs x th]
      by (auto simp: ipc_thread_inqueue_def ITH_NULL_def)
  qed
qed

subsection \<open>Property\<close>

text \<open>Every queue that has none of the elements \<open>A\<close> is still what it was.\<close>

definition keeps_rings :: "addr set \<Rightarrow> links \<Rightarrow> links \<Rightarrow> bool" where
  "keeps_rings A ls ls' \<longleftrightarrow> (\<forall>base ys. set ys \<inter> A = {} \<longrightarrow> ring (base, ls) ys \<longrightarrow> ring (base, ls') ys)"

lemma elsewhere_keeps: "elsewhere A ls ls' \<Longrightarrow> keeps_rings A ls ls'"
  unfolding keeps_rings_def using elsewhere_ring by blast

text \<open>
  C32: The circular queues of threads and of messages are first-in first-out lists, the empty one included.  An element that
  goes in becomes the last one; the first one comes out, or null when there is none; any other can be taken out; the loop that
  looks for a thread ends with the right answer; a thread that has left a queue can go into another one.  None of these
  operations changes a queue of other elements.
\<close>

theorem ring_queues_exact:
  assumes "ring (base, ls) xs"
  shows "(\<forall>y. y \<noteq> 0 \<and> y \<notin> set xs \<longrightarrow>
      (detached ls y \<longrightarrow> ring (ipc_thread_enqueue (base, ls) y) (xs @ [y]) \<and>
         keeps_rings (insert y (set xs)) ls (snd (ipc_thread_enqueue (base, ls) y))) \<and>
      ring (ipc_kmsg_enqueue (base, ls) y) (xs @ [y]) \<and>
      keeps_rings (insert y (set xs)) ls (snd (ipc_kmsg_enqueue (base, ls) y))) \<and>
    (case xs of
       [] \<Rightarrow> ipc_thread_dequeue (base, ls) = (0, base, ls) \<and> ipc_kmsg_dequeue (base, ls) = (0, base, ls)
     | x # xs' \<Rightarrow>
         (\<exists>q'. ipc_thread_dequeue (base, ls) = (x, q') \<and> ring q' xs' \<and> detached (snd q') x \<and> keeps_rings (set xs) ls (snd q')) \<and>
         (\<exists>q'. ipc_kmsg_dequeue (base, ls) = (x, q') \<and> ring q' xs' \<and> keeps_rings (set xs) ls (snd q'))) \<and>
    (\<forall>x \<in> set xs.
       ring (ipc_thread_rmqueue (base, ls) x) (remove1 x xs) \<and> detached (snd (ipc_thread_rmqueue (base, ls) x)) x \<and>
       keeps_rings (set xs) ls (snd (ipc_thread_rmqueue (base, ls) x)) \<and>
       ring (ipc_kmsg_rmqueue (base, ls) x) (remove1 x xs) \<and> keeps_rings (set xs) ls (snd (ipc_kmsg_rmqueue (base, ls) x))) \<and>
    (\<forall>th. ipc_thread_inqueue (base, ls) th = Some (th \<in> set xs))"
    (is "?enq \<and> ?deq \<and> ?rmq \<and> ?inq")
proof (intro conjI)
  show ?enq
    using thread_queue.enq_law [OF assms] kmsg_queue.enq_law [OF assms] elsewhere_keeps by (metis snd_conv)
  show ?rmq
    using thread_queue.rmq_law [OF assms] kmsg_queue.rmq_law [OF assms] elsewhere_keeps by (metis snd_conv)
  show ?inq using inqueue_spec [OF assms] by blast
  show ?deq
  proof (cases xs)
    case Nil
    then show ?thesis using thread_queue.deq_empty kmsg_queue.deq_empty assms by simp
  next
    case (Cons x xs')
    note d = thread_queue.deq_law [OF assms [unfolded Cons]] kmsg_queue.deq_law [OF assms [unfolded Cons]]
    show ?thesis using d elsewhere_keeps [of "set (x # xs')" ls] by (auto simp: Cons prod_eq_iff)
  qed
qed

text \<open>Two threads in a queue and one outside.\<close>

definition ring2 :: links where
  "ring2 = \<lparr>lk_next = (\<lambda>x. x)(8 := 16, 16 := 8), lk_prev = (\<lambda>x. x)(8 := 16, 16 := 8)\<rparr>"

theorem ring_queues_exact_witness:
  "ring (ipc_thread_enqueue (8, ring2) 24) [8, 16, 24] \<and> ring (ipc_thread_rmqueue (8, ring2) 8) [16] \<and>
   ring (ipc_thread_enqueue (0, ring2) 24) [24] \<and> ring (ipc_kmsg_enqueue (0, ring2) 24) [24] \<and>
   ring (8, snd (ipc_kmsg_enqueue (0, ring2) 24)) [8, 16]"
proof -
  have r: "ring (8, ring2) [8, 16]" "ring (0, ring2) []" by (simp_all add: ring_def cyc_def adj_def ring2_def)
  have d: "detached ring2 24" by (simp add: detached_def ring2_def)
  have "ring (0, snd (ipc_kmsg_enqueue (0, ring2) 24)) [] \<and> keeps_rings {24} ring2 (snd (ipc_kmsg_enqueue (0, ring2) 24))"
    using ring_queues_exact [OF r(2)] r(2) by (auto simp: ring_def cyc_def)
  then have "ring (8, snd (ipc_kmsg_enqueue (0, ring2) 24)) [8, 16]" using r(1) unfolding keeps_rings_def by simp
  then show ?thesis using ring_queues_exact [OF r(1)] ring_queues_exact [OF r(2)] d by simp
qed

end
