(* ===== verification/Mq_Exact.thy ===== *)
theory Mq_Exact
  imports Mq_Steps Ipc_Queue
begin

section \<open>What senders and receivers can rely on\<close>

text \<open>
  The properties of \<open>ipc/ipc_mqueue.c\<close> in the states that threads can reach, the concrete states that apply them, and what
  goes wrong when the wait of a sender ends early.
\<close>

subsection \<open>A port with a limit of one message\<close>

definition mq_env :: kernel_env where
  "mq_env = \<lparr>ipc_space_kernel = 1, ipc_kobject_server = (\<lambda>_ s. (None, s))\<rparr>"

definition mq_port0 :: ipc_port where
  "mq_port0 = \<lparr>ip_references = 1, ip_bits = IO_BITS_ACTIVE, ip_receiver_name = 3, ip_data = 2, ip_mscount = 0, ip_srights = 1,
     ip_sorights = 0, ip_nsrequest = 0, ip_pdrequest = 0, ip_dnrequests = None, ip_pset = 0, ip_seqno = 0, ip_msgcount = 0,
     ip_qlimit = 1, ip_messages = \<lparr>imq_messages = [], imq_threads = []\<rparr>, ip_blocked = [], ip_flags = 0, ip_subsystem = 0\<rparr>"

definition mq_sys0 :: mq_sys where
  "mq_sys0 = \<lparr>mqs = \<lparr>mq_heap = \<lparr>ports = (\<lambda>_. mq_port0),
       psets = (\<lambda>_. \<lparr>ips_references = 1, ips_bits = IO_BITS_ACTIVE, ips_local_name = 4,
         ips_messages = \<lparr>imq_messages = [], imq_threads = []\<rparr>\<rparr>), ipc_port_timestamp_data = 0, calls = []\<rparr>,
     mq_threads = (\<lambda>_. \<lparr>ith_state = MACH_MSG_SUCCESS, ith_kmsg = None, ith_seqno = 0, ith_msize = 0, ith_waiting = False,
       ith_result = THREAD_AWAKENED\<rparr>)\<rparr>,
     pcs = (\<lambda>_. Resting), sent = (\<lambda>_. []), taken = (\<lambda>_. [])\<rparr>"

definition mq_kmsg :: "addr \<Rightarrow> ipc_kmsg" where
  "mq_kmsg a = \<lparr>ikm_addr = a, msgh_bits = 0, msgh_size = 24, msgh_remote_port = 64\<rparr>"

fun run_ops :: "bool \<Rightarrow> mq_op list \<Rightarrow> mq_sys \<Rightarrow> mq_sys option" where
  "run_ops calm [] x = Some x"
| "run_ops calm (op # ops) x =
     (if enabled mq_env calm op x then case exec mq_env op x of Some y \<Rightarrow> run_ops calm ops y | None \<Rightarrow> None else None)"

lemma run_ops_reachable:
  "run_ops calm ops x = Some y \<Longrightarrow> mq_reachable mq_env calm x \<Longrightarrow> mq_reachable mq_env calm y"
  by (induction ops arbitrary: x) (auto split: if_splits option.splits intro: mq_step)

lemma mq_sys0_reachable: "mq_reachable mq_env calm mq_sys0"
proof (rule mq_start)
  have "mqueue_at q (mq_heap (mqs mq_sys0)) = \<lparr>imq_messages = [], imq_threads = []\<rparr>" for q
    by (cases q) (simp_all add: mq_sys0_def mq_port0_def)
  then show "mq_start mq_sys0" by (simp add: mq_start_def) (simp add: mq_sys0_def mq_port0_def)
qed

text \<open>The first message fills the port, the second sender blocks, and a receiver takes the first message.\<close>

definition mq_ops1 :: "mq_op list" where
  "mq_ops1 = [Send 24 (mq_kmsg 100) 0 0, Send 8 (mq_kmsg 200) 0 0, Receive 32 (Port_Queue 64) 0 100 0]"

definition mq_sys1 :: mq_sys where
  "mq_sys1 = the (run_ops True mq_ops1 mq_sys0)"

lemma mq_sys1_facts:
  "run_ops True mq_ops1 mq_sys0 \<noteq> None" "ip_blocked (mq_port (mqs mq_sys1) 64) = [8]"
  "ip_msgcount (mq_port (mqs mq_sys1) 64) = 1" "ip_qlimit (mq_port (mqs mq_sys1) 64) = 1" "pcs mq_sys1 32 = Finishing (mq_kmsg 100) 0 0 100"
  "sent mq_sys1 64 = [mq_kmsg 100]" "taken mq_sys1 64 = [(mq_kmsg 100, 0)]" "ip_active (mq_port (mqs mq_sys1) 64)"
  by code_simp+

lemma mq_sys1_reachable: "mq_reachable mq_env True mq_sys1"
  using run_ops_reachable [OF _ mq_sys0_reachable, of True mq_ops1 mq_sys1] mq_sys1_facts(1) by (auto simp: mq_sys1_def)

subsection \<open>Properties\<close>

abbreviation queue_of :: "mq_sys \<Rightarrow> addr \<Rightarrow> ipc_mqueue" where
  "queue_of x port \<equiv> mqueue_at (port_mqueue (mq_heap (mqs x)) port) (mq_heap (mqs x))"

text \<open>The threads that hold a message of the port they have not finished receiving, and the senders woken to send one.\<close>

definition holders :: "mq_sys \<Rightarrow> addr \<Rightarrow> addr set" where
  "holders x port = {th. (\<exists>k n opt m. pcs x th = Finishing k n opt m \<and> msgh_remote_port k = port) \<or>
     (\<exists>q opt m t k. pcs x th = Receiving q opt m t \<and> ith_state (ith (mqs x) th) = MACH_MSG_SUCCESS \<and>
        ith_kmsg (ith (mqs x) th) = Some k \<and> msgh_remote_port k = port)}"

definition woken_senders :: "mq_sys \<Rightarrow> addr \<Rightarrow> addr set" where
  "woken_senders x port = {th. \<exists>k opt t. pcs x th = Sending k opt t \<and> msgh_remote_port k = port \<and>
     ith_state (ith (mqs x) th) = MACH_MSG_SUCCESS \<and> \<not> ith_waiting (ith (mqs x) th)}"

lemma phase_facts:
  assumes "mq_inv x"
  shows "holders x p = {th. ph (view (pcs x) (mqs x)) th = Holds p}"
    "woken_senders x p = {th. ph (view (pcs x) (mqs x)) th = Awake p}"
    "ph (view (pcs x) (mqs x)) th = Blocked p \<longleftrightarrow>
      (\<exists>k opt t. pcs x th = Sending k opt t \<and> msgh_remote_port k = p) \<and> ith_waiting (ith (mqs x) th)"
    "ph (view (pcs x) (mqs x)) th = Waits q \<longleftrightarrow> (\<exists>opt m t. pcs x th = Receiving q opt m t) \<and> in_progress (ith_state (ith (mqs x) th))"
proof -
  have w: "wait_ok (pcs x th) (ith (mqs x) th)" "phase_of (pcs x th) (ith (mqs x) th) \<noteq> Broken" for th
    using mq_invD(2) [OF assms] queues_okD(2) [OF mq_invD(1) [OF assms], of th] by auto
  show "holders x p = {th. ph (view (pcs x) (mqs x)) th = Holds p}"
    unfolding holders_def
  proof (intro Collect_cong)
    fix th show "((\<exists>k n opt m. pcs x th = Finishing k n opt m \<and> msgh_remote_port k = p) \<or>
       (\<exists>q opt m t k. pcs x th = Receiving q opt m t \<and> ith_state (ith (mqs x) th) = MACH_MSG_SUCCESS \<and>
          ith_kmsg (ith (mqs x) th) = Some k \<and> msgh_remote_port k = p)) = (ph (view (pcs x) (mqs x)) th = Holds p)"
      by (cases "pcs x th") (auto simp: in_progress_def split: option.splits if_splits)
  qed
  show "woken_senders x p = {th. ph (view (pcs x) (mqs x)) th = Awake p}"
    unfolding woken_senders_def
  proof (intro Collect_cong)
    fix th show "(\<exists>k opt t. pcs x th = Sending k opt t \<and> msgh_remote_port k = p \<and>
       ith_state (ith (mqs x) th) = MACH_MSG_SUCCESS \<and> \<not> ith_waiting (ith (mqs x) th)) = (ph (view (pcs x) (mqs x)) th = Awake p)"
      using w(1) [of th] by (cases "pcs x th") (auto simp: wait_ok_def split: option.splits if_splits)
  qed
  show "ph (view (pcs x) (mqs x)) th = Blocked p \<longleftrightarrow>
      (\<exists>k opt t. pcs x th = Sending k opt t \<and> msgh_remote_port k = p) \<and> ith_waiting (ith (mqs x) th)"
    using w [of th] by (cases "pcs x th") (auto simp: wait_ok_def split: option.splits if_splits)
  show "ph (view (pcs x) (mqs x)) th = Waits q \<longleftrightarrow> (\<exists>opt m t. pcs x th = Receiving q opt m t) \<and> in_progress (ith_state (ith (mqs x) th))"
    by (cases "pcs x th") (auto split: option.splits)
qed

text \<open>
  C3: In every state that senders and receivers can reach, as long as no wait of a sender is interrupted or times out:
  whatever may happen next happens without a panic; no queue has both messages and waiting receivers; a port counts
  exactly its queued messages and those a receiver has taken and not finished with; and the queues of threads hold, once,
  exactly the receivers that wait without a message and the senders that wait, so that no thread is on two queues, which
  would use the same links.
\<close>

theorem message_queues_consistent:
  assumes "mq_reachable env True x"
  shows "(\<forall>op. enabled env True op x \<longrightarrow> exec env op x \<noteq> None) \<and>
    (\<forall>q. imq_threads (mqueue_at q (mq_heap (mqs x))) = [] \<or> imq_messages (mqueue_at q (mq_heap (mqs x))) = []) \<and>
    (\<forall>p. ip_active (mq_port (mqs x) p) \<longrightarrow>
       unat (ip_msgcount (mq_port (mqs x) p)) = length (of_port p (imq_messages (queue_of x p))) + card (holders x p)) \<and>
    (\<forall>q. distinct (imq_threads (mqueue_at q (mq_heap (mqs x)))) \<and> set (imq_threads (mqueue_at q (mq_heap (mqs x)))) =
       {th. (\<exists>opt m t. pcs x th = Receiving q opt m t) \<and> in_progress (ith_state (ith (mqs x) th))}) \<and>
    (\<forall>p. distinct (ip_blocked (mq_port (mqs x) p)) \<and> set (ip_blocked (mq_port (mqs x) p)) =
       {th. (\<exists>k opt t. pcs x th = Sending k opt t \<and> msgh_remote_port k = p) \<and> ith_waiting (ith (mqs x) th)})"
proof -
  note inv = reachable_inv [OF assms]
  note D = queues_okD [OF mq_invD(1) [OF inv]] and F = phase_facts [OF inv]
  have "exec env op x \<noteq> None" if "enabled env True op x" for op using exec_inv [OF inv that] by auto
  moreover have "imq_threads (mqueue_at q (mq_heap (mqs x))) = [] \<or> imq_messages (mqueue_at q (mq_heap (mqs x))) = []" for q
    using D(8) [of q] by simp
  moreover have "unat (ip_msgcount (mq_port (mqs x) p)) = length (of_port p (imq_messages (queue_of x p))) + card (holders x p)"
    if "ip_active (mq_port (mqs x) p)" for p
    using D(10) [of p] that unfolding F(1) in_phase_def by simp
  moreover have "distinct (imq_threads (mqueue_at q (mq_heap (mqs x))))" "th \<in> set (imq_threads (mqueue_at q (mq_heap (mqs x)))) \<longleftrightarrow>
      (\<exists>opt m t. pcs x th = Receiving q opt m t) \<and> in_progress (ith_state (ith (mqs x) th))" for q th
    using D(3) [of q] D(4) [of th q] F(4) [of th q] by simp_all
  moreover have "distinct (ip_blocked (mq_port (mqs x) p))" "th \<in> set (ip_blocked (mq_port (mqs x) p)) \<longleftrightarrow>
      (\<exists>k opt t. pcs x th = Sending k opt t \<and> msgh_remote_port k = p) \<and> ith_waiting (ith (mqs x) th)" for p th
    using D(5) [of p] D(6) [of th p] F(3) [of th p] by simp_all
  ultimately show ?thesis unfolding set_eq_iff mem_Collect_eq by blast
qed

theorem message_queues_consistent_witness:
  "exec mq_env (Finish 32 None) mq_sys1 \<noteq> None \<and> card (holders mq_sys1 64) = 1 \<and> (\<exists>k opt t. pcs mq_sys1 8 = Sending k opt t)"
proof -
  note all = message_queues_consistent [OF mq_sys1_reachable]
  have "enabled mq_env True (Finish 32 None) mq_sys1" by (simp add: mq_sys1_facts)
  then have "exec mq_env (Finish 32 None) mq_sys1 \<noteq> None" using all [THEN conjunct1] by blast
  moreover have "imq_messages (queue_of mq_sys1 64) = []" by code_simp
  then have "card (holders mq_sys1 64) = 1"
    using all [THEN conjunct2, THEN conjunct2, THEN conjunct1, rule_format, of 64] mq_sys1_facts(3,8) by simp
  moreover have "8 \<in> set (ip_blocked (mq_port (mqs mq_sys1) 64))" by (simp add: mq_sys1_facts)
  then have "\<exists>k opt t. pcs mq_sys1 8 = Sending k opt t"
    using all [THEN conjunct2, THEN conjunct2, THEN conjunct2, THEN conjunct2] by blast
  ultimately show ?thesis by blast
qed

text \<open>
  C4: Messages arrive in the order they were sent, none is lost and none comes twice, however many threads send and receive,
  as long as no wait of a sender is interrupted or times out (one that ends so may leave its thread in two queues):
  what was sent to a port is what its receivers were handed followed by what is queued for it, each message handed over
  has the sequence number after the one before it, the port has the next one, and a receiver has just a message and a
  number that were handed over.
\<close>

theorem messages_in_order:
  assumes "mq_reachable env True x" and "ip_active (mq_port (mqs x) p)"
  shows "sent x p = map fst (taken x p) @ of_port p (imq_messages (queue_of x p)) \<and>
    (\<forall>i < length (taken x p). snd (taken x p ! i) = ip_seqno (mq_port (mqs x) p) - of_nat (length (taken x p) - i)) \<and>
    (\<forall>th k n opt m. pcs x th = Finishing k n opt m \<longrightarrow> (k, n) \<in> set (taken x (msgh_remote_port k))) \<and>
    (\<forall>th q opt m t. pcs x th = Receiving q opt m t \<and> ith_state (ith (mqs x) th) = MACH_MSG_SUCCESS \<longrightarrow>
       \<not> ith_waiting (ith (mqs x) th) \<and>
       (\<exists>k. ith_kmsg (ith (mqs x) th) = Some k \<and> (k, ith_seqno (ith (mqs x) th)) \<in> set (taken x (msgh_remote_port k))))"
proof -
  note inv = reachable_inv [OF assms(1)]
  note I = mq_invD [OF inv]
  have "sent x p = map fst (taken x p) @ of_port p (imq_messages (queue_of x p)) \<and>
      (\<forall>i < length (taken x p). snd (taken x p ! i) = ip_seqno (mq_port (mqs x) p) - of_nat (length (taken x p) - i))"
    using I(3) assms(2) by (simp add: history_ok_def numbered_def)
  moreover have "(k, n) \<in> set (taken x (msgh_remote_port k))" if "pcs x th = Finishing k n opt m" for th k n opt m
    using I(4) [of th k n] that by simp
  moreover have "\<not> ith_waiting (ith (mqs x) th) \<and>
      (\<exists>k. ith_kmsg (ith (mqs x) th) = Some k \<and> (k, ith_seqno (ith (mqs x) th)) \<in> set (taken x (msgh_remote_port k)))"
    if r: "pcs x th = Receiving q opt m t \<and> ith_state (ith (mqs x) th) = MACH_MSG_SUCCESS" for th q opt m t
  proof -
    have "phase_of (pcs x th) (ith (mqs x) th) \<noteq> Broken" using queues_okD(2) [OF I(1), of th] by simp
    then obtain k where "ith_kmsg (ith (mqs x) th) = Some k" using r by (auto simp: in_progress_def split: option.splits)
    then show ?thesis using I(2) [of th] I(4) [of th k "ith_seqno (ith (mqs x) th)"] r by (simp add: wait_ok_def in_progress_def)
  qed
  ultimately show ?thesis by blast
qed

theorem messages_in_order_witness:
  "(mq_kmsg 100, 0) \<in> set (taken mq_sys1 64) \<and> ip_seqno (mq_port (mqs mq_sys1) 64) = 1 \<and> of_port 64 (imq_messages (queue_of mq_sys1 64)) = []"
proof -
  note all = messages_in_order [OF mq_sys1_reachable mq_sys1_facts(8)]
  have "snd (taken mq_sys1 64 ! 0) = ip_seqno (mq_port (mqs mq_sys1) 64) - of_nat (length (taken mq_sys1 64) - 0)"
    using all [THEN conjunct2, THEN conjunct1, rule_format, of 0] by (simp add: mq_sys1_facts)
  then have "ip_seqno (mq_port (mqs mq_sys1) 64) = 1" by (simp add: mq_sys1_facts)
  moreover have "(mq_kmsg 100, 0) \<in> set (taken mq_sys1 (msgh_remote_port (mq_kmsg 100)))"
    using all [THEN conjunct2, THEN conjunct2, THEN conjunct1] mq_sys1_facts(5) by blast
  moreover have "msgh_remote_port (mq_kmsg 100) = 64" by (simp add: mq_kmsg_def)
  moreover have "of_port 64 (imq_messages (queue_of mq_sys1 64)) = []"
    using all [THEN conjunct1] mq_sys1_facts(6,7) by simp
  ultimately show ?thesis by simp
qed

text \<open>
  C5: No wakeup of a sender is lost: in every state that senders and receivers can reach, as long as no wait of a sender is
  interrupted or times out, a sender waits at a port only if the messages the port has, and those of senders already woken and on their way,
  reach its limit.  So where there is room and a sender waits, another has been woken and may run.
\<close>

theorem no_lost_wakeup:
  assumes "mq_reachable env True x" and "ip_blocked (mq_port (mqs x) p) \<noteq> []"
  shows "unat (ip_qlimit (mq_port (mqs x) p)) \<le> unat (ip_msgcount (mq_port (mqs x) p)) + card (woken_senders x p) \<and>
    (ip_msgcount (mq_port (mqs x) p) < ip_qlimit (mq_port (mqs x) p) \<longrightarrow>
      (\<exists>th k opt t. pcs x th = Sending k opt t \<and> msgh_remote_port k = p \<and> (room x p \<longrightarrow> enabled env True (Send_Resume th) x)))"
proof -
  note inv = reachable_inv [OF assms(1)]
  have le: "unat (ip_qlimit (mq_port (mqs x) p)) \<le> unat (ip_msgcount (mq_port (mqs x) p)) + card (woken_senders x p)"
    using queues_okD(11) [OF mq_invD(1) [OF inv], of p] assms(2) unfolding phase_facts(2) [OF inv] in_phase_def by simp
  moreover have "\<exists>th. th \<in> woken_senders x p" if "ip_msgcount (mq_port (mqs x) p) < ip_qlimit (mq_port (mqs x) p)"
  proof -
    have "woken_senders x p \<noteq> {}" using le that by (auto simp: word_less_nat_alt)
    then show ?thesis by blast
  qed
  ultimately show ?thesis unfolding woken_senders_def by fastforce
qed

theorem no_lost_wakeup_witness:
  "\<exists>x. exec mq_env (Finish 32 None) mq_sys1 = Some x \<and> ip_blocked (mq_port (mqs mq_sys1) 64) = [8] \<and>
    unat (ip_qlimit (mq_port (mqs mq_sys1) 64)) \<le> 1 + card (woken_senders mq_sys1 64) \<and> ip_blocked (mq_port (mqs x) 64) = []"
proof -
  have "exec mq_env (Finish 32 None) mq_sys1 \<noteq> None" "ip_blocked (mq_port (mqs (the (exec mq_env (Finish 32 None) mq_sys1))) 64) = []"
    by code_simp+
  then show ?thesis using no_lost_wakeup [OF mq_sys1_reachable, of 64] mq_sys1_facts(2,3) by auto
qed

subsection \<open>Senders that give up\<close>

text \<open>
  A sender gets no room although there is some: a sender before it was interrupted, and its wakeup goes to the one that is
  gone.
\<close>

definition mq_ops2 :: "mq_op list" where
  "mq_ops2 = [Send 24 (mq_kmsg 100) 0 0, Send 8 (mq_kmsg 200) 0 0, Interrupt 8, Send_Resume 8, Send 16 (mq_kmsg 300) 0 0,
     Receive 32 (Port_Queue 64) 0 100 0, Finish 32 None]"

definition mq_sys2 :: mq_sys where
  "mq_sys2 = the (run_ops False mq_ops2 mq_sys0)"

lemma mq_sys2_facts:
  "run_ops False mq_ops2 mq_sys0 \<noteq> None" "ip_blocked (mq_port (mqs mq_sys2) 64) = [16]"
  "ip_msgcount (mq_port (mqs mq_sys2) 64) = 0" "ip_qlimit (mq_port (mqs mq_sys2) 64) = 1"
  "pcs mq_sys2 8 = Resting" "pcs mq_sys2 16 = Sending (mq_kmsg 300) 0 0" "pcs mq_sys2 24 = Resting" "pcs mq_sys2 32 = Resting"
  "ith_waiting (ith (mqs mq_sys2) 16)" "imq_messages (queue_of mq_sys2 64) = []"
  by code_simp+

text \<open>A step of one thread leaves the others where they are.\<close>

fun op_thread :: "mq_op \<Rightarrow> addr" where
  "op_thread (Send th _ _ _) = th" | "op_thread (Send_Resume th) = th" | "op_thread (Receive th _ _ _ _) = th"
| "op_thread (Receive_Resume th) = th" | "op_thread (Finish th _) = th" | "op_thread (Interrupt th) = th"
| "op_thread (Expire th) = th" | "op_thread (Set_Limit p _) = p"

lemma exec_elsewhere: "exec env op x = Some y \<Longrightarrow> th \<noteq> op_thread op \<Longrightarrow> pcs y th = pcs x th"
  by (cases op) (auto simp: after_send_def after_receive_def Let_def split: mq_pc.splits prod.splits)

lemma run_ops_elsewhere: "run_ops calm ops x = Some y \<Longrightarrow> th \<notin> op_thread ` set ops \<Longrightarrow> pcs y th = pcs x th"
  by (induction ops arbitrary: x) (auto split: if_splits option.splits simp: exec_elsewhere)

lemma mq_sys2_reachable: "mq_reachable mq_env False mq_sys2"
  using run_ops_reachable [OF _ mq_sys0_reachable, of False mq_ops2 mq_sys2] mq_sys2_facts(1) by (auto simp: mq_sys2_def)

definition mq_sys3 :: mq_sys where
  "mq_sys3 = the (run_ops False (take 3 mq_ops2) mq_sys0)"

text \<open>
  C29: A sender that is interrupted returns without leaving the queue of blocked senders (and one that times out and finds
  no room does too).  The queue then still has it, so that the next wakeup goes to a thread that is gone: there is a run
  after which the port is empty, below its limit, and a sender sleeps all the same, with no other woken.  And since a
  thread has one pair of links for all queues, putting it on an empty queue next makes that queue a second name of the
  rest of the queue it was left on.
\<close>

theorem interrupted_sender_stays:
  assumes "ith_state (ith s self) = MACH_SEND_IN_PROGRESS"
  shows "(ith_result (ith s self) = THREAD_INTERRUPTED \<longrightarrow>
      ipc_mqueue_send_resume self k opt timeout s = Some (Send_Return MACH_SEND_INTERRUPTED, s)) \<and>
    (ith_result (ith s self) = THREAD_TIMED_OUT \<and> opt AND MACH_SEND_TIMEOUT \<noteq> 0 \<and> ip_active (mq_port s (msgh_remote_port k)) \<and>
       \<not> may_send (mq_port s (msgh_remote_port k)) k opt \<longrightarrow>
      ipc_mqueue_send_resume self k opt timeout s = Some (Send_Return MACH_SEND_TIMED_OUT, s)) \<and>
    (\<exists>x. mq_reachable mq_env False x \<and> ip_msgcount (mq_port (mqs x) 64) = 0 \<and> ip_qlimit (mq_port (mqs x) 64) = 1 \<and>
       ip_blocked (mq_port (mqs x) 64) = [16] \<and> ith_waiting (ith (mqs x) 16) \<and> woken_senders x 64 = {}) \<and>
    (\<forall>base ls a xs. ring (base, ls) (a # xs) \<longrightarrow> ring (ipc_thread_enqueue (ITH_NULL, ls) a) (a # xs))"
proof -
  have "woken_senders mq_sys2 64 = {}"
  proof -
    have run: "run_ops False mq_ops2 mq_sys0 = Some mq_sys2" using mq_sys2_facts(1) unfolding mq_sys2_def by simp
    have "pcs mq_sys2 th = Resting" if "th \<notin> {8, 16, 24, 32}" for th
    proof -
      have "pcs mq_sys2 th = pcs mq_sys0 th" using run_ops_elsewhere [OF run, of th] that unfolding mq_ops2_def by simp
      then show ?thesis by (simp add: mq_sys0_def)
    qed
    then have 16: "th = 16" if "pcs mq_sys2 th \<noteq> Resting" for th using mq_sys2_facts(5,7,8) that
      by (cases "th \<in> {8, 16, 24, 32}") auto
    have False if "th \<in> woken_senders mq_sys2 64" for th
    proof -
      obtain k opt t where "pcs mq_sys2 th = Sending k opt t" "\<not> ith_waiting (ith (mqs mq_sys2) th)"
        using \<open>th \<in> woken_senders mq_sys2 64\<close> unfolding woken_senders_def by blast
      then show False using 16 [of th] mq_sys2_facts(9) by simp
    qed
    then show ?thesis by blast
  qed
  moreover have "ring (ipc_thread_enqueue (ITH_NULL, ls) a) (a # xs)" if "ring (base, ls) (a # xs)" for base ls a xs
    using that by (simp add: ipc_thread_enqueue_def ring_def)
  moreover have "ipc_mqueue_send_resume self k opt timeout s = Some (Send_Return MACH_SEND_INTERRUPTED, s)"
    if "ith_result (ith s self) = THREAD_INTERRUPTED"
    using assms that by (simp add: ipc_mqueue_send_resume_def)
  moreover have "ipc_mqueue_send_resume self k opt timeout s = Some (Send_Return MACH_SEND_TIMED_OUT, s)"
    if "ith_result (ith s self) = THREAD_TIMED_OUT \<and> opt AND MACH_SEND_TIMEOUT \<noteq> 0 \<and> ip_active (mq_port s (msgh_remote_port k)) \<and>
       \<not> may_send (mq_port s (msgh_remote_port k)) k opt"
    using assms that by (simp add: ipc_mqueue_send_resume_def ipc_mqueue_send_turn_def Let_def)
  ultimately show ?thesis using mq_sys2_reachable mq_sys2_facts(2,3,4,9) by blast
qed

theorem interrupted_sender_stays_witness:
  "ipc_mqueue_send_resume 8 (mq_kmsg 200) 0 0 (mqs mq_sys3) = Some (Send_Return MACH_SEND_INTERRUPTED, mqs mq_sys3) \<and>
    8 \<in> set (ip_blocked (mq_port (mqs mq_sys3) 64))"
proof -
  have "ith_state (ith (mqs mq_sys3) 8) = MACH_SEND_IN_PROGRESS" "ith_result (ith (mqs mq_sys3) 8) = THREAD_INTERRUPTED"
    "8 \<in> set (ip_blocked (mq_port (mqs mq_sys3) 64))"
    by code_simp+
  then show ?thesis using interrupted_sender_stays [of "mqs mq_sys3" 8 "mq_kmsg 200" 0 0] by blast
qed

text \<open>
  C30: A message is received only if its size and the 8 bytes of the smallest trailer fit the receiver's buffer, and it
  is too large otherwise; but if the buffer is smaller than that trailer the difference wraps around and lets through
  almost every message.  The check never counts more than 8 bytes, because the options it is given have been masked, while a
  receiver may ask for trailers of 12 or 20 bytes, and with larger numbers of elements for a size past the end of the table.
\<close>

theorem receive_size_check:
  assumes "opt AND NOT MACH_RCV_TIMEOUT = 0"
  shows "(\<exists>s'. ipc_mqueue_finish_receive None k port opt max_size s =
      Some (if unat (msgh_size k) + 8 \<le> unat max_size \<or> unat max_size < 8 \<and> unat (msgh_size k) + 8 \<le> unat max_size + 2 ^ 32
            then MACH_MSG_SUCCESS else MACH_RCV_TOO_LARGE, s')) \<and>
    REQUESTED_TRAILER_SIZE opt = Some 8 \<and>
    (\<forall>user. REQUESTED_TRAILER_SIZE user =
       (if GET_RCV_ELEMENTS user = 0 then Some 8 else if GET_RCV_ELEMENTS user = 1 then Some 12
        else if GET_RCV_ELEMENTS user = 2 then Some 20 else None)) \<and>
    REQUESTED_TRAILER_SIZE (0x02000000 OR opt) = Some 20 \<and> REQUESTED_TRAILER_SIZE (0x03000000 OR opt) = None"
proof -
  have size: "REQUESTED_TRAILER_SIZE user =
       (if GET_RCV_ELEMENTS user = 0 then Some 8 else if GET_RCV_ELEMENTS user = 1 then Some 12
        else if GET_RCV_ELEMENTS user = 2 then Some 20 else None)" for user
  proof (cases "unat (GET_RCV_ELEMENTS user) < 3")
    case True
    then consider "unat (GET_RCV_ELEMENTS user) = 0" | "unat (GET_RCV_ELEMENTS user) = 1" | "unat (GET_RCV_ELEMENTS user) = 2"
      by linarith
    then have "GET_RCV_ELEMENTS user \<in> {0, 1, 2}"
      by cases (simp_all add: word_unat_eq_iff)
    then show ?thesis by (auto simp: REQUESTED_TRAILER_SIZE_def trailer_size_def)
  next
    case False
    then show ?thesis by (auto simp: REQUESTED_TRAILER_SIZE_def trailer_size_def)
  qed
  have z: "drop_bit 24 opt AND 0xf = 0" using trailer_elements [OF assms] by (simp add: GET_RCV_ELEMENTS_def)
  have big: "GET_RCV_ELEMENTS (0x02000000 OR opt) = 2" "GET_RCV_ELEMENTS (0x03000000 OR opt) = 3"
    using z by (simp_all add: GET_RCV_ELEMENTS_def drop_bit_or bit.conj_disj_distrib bit.conj_disj_distrib2 word_bw_comms)
  have sz: "unat (msgh_size k) < 2 ^ LENGTH(32)" by (rule unsigned_less)
  have le: "msgh_size k > max_size - 8 \<longleftrightarrow>
      \<not> (unat (msgh_size k) + 8 \<le> unat max_size \<or> unat max_size < 8 \<and> unat (msgh_size k) + 8 \<le> unat max_size + 2 ^ 32)"
    using sz by (auto simp: word_less_nat_alt unat_sub_if_size word_size)
  show ?thesis
    using trailer_ok [OF assms] size big le
    by (auto simp: ipc_mqueue_finish_receive_def Let_def)
qed

theorem receive_size_check_witness:
  "fst (the (ipc_mqueue_finish_receive None ((mq_kmsg 1)\<lparr>msgh_size := 92\<rparr>) 64 0 100 (mqs mq_sys1))) = MACH_MSG_SUCCESS \<and>
   fst (the (ipc_mqueue_finish_receive None ((mq_kmsg 1)\<lparr>msgh_size := 93\<rparr>) 64 0 100 (mqs mq_sys1))) = MACH_RCV_TOO_LARGE \<and>
   fst (the (ipc_mqueue_finish_receive None ((mq_kmsg 1)\<lparr>msgh_size := 4096\<rparr>) 64 0 0 (mqs mq_sys1))) = MACH_MSG_SUCCESS"
  using receive_size_check [of 0 "(mq_kmsg 1)\<lparr>msgh_size := 92\<rparr>" 64 100 "mqs mq_sys1"]
    receive_size_check [of 0 "(mq_kmsg 1)\<lparr>msgh_size := 93\<rparr>" 64 100 "mqs mq_sys1"]
    receive_size_check [of 0 "(mq_kmsg 1)\<lparr>msgh_size := 4096\<rparr>" 64 0 "mqs mq_sys1"]
  by auto

end
