(* ===== verification/Kern_Timer.thy ===== *)
theory Kern_Timer
  imports Prelude
begin

section \<open>Timers\<close>

text \<open>
  \<open>kern/time_out.h\<close> and the timers of \<open>kern/mach_clock.c\<close>.  Timer elements are known by their addresses; those
  whose state is \<open>TELT_SET\<close> are in the chain, in the order of their ticks.  The head of the chain is an element of
  its own with the greatest number of ticks, at which every loop over the chain stops.  The timer of a thread holds a
  reference to the thread; the references are counted here.
\<close>

datatype telt_state = TELT_UNSET | TELT_SET | TELT_ALLOC | TELT_PENDING

datatype timeout_fcn_t = Thread_Timeout | Timeout_Fcn addr

record timer_elt =
  telt_fcn :: timeout_fcn_t
  telt_param :: addr
  telt_ticks :: natural_t
  telt_set :: telt_state

record timers =
  telts :: "addr \<Rightarrow> timer_elt"
  timer_chain :: "addr list"
  timeout_ticks :: natural_t
  ref_count :: "addr \<Rightarrow> int"

definition set_telt :: "addr \<Rightarrow> (timer_elt \<Rightarrow> timer_elt) \<Rightarrow> timers \<Rightarrow> timers" where
  "set_telt telt f s = s\<lparr>telts := (telts s)(telt := f (telts s telt))\<rparr>"

definition add_ref :: "addr \<Rightarrow> int \<Rightarrow> timers \<Rightarrow> timers" where
  "add_ref thread n s = s\<lparr>ref_count := (ref_count s)(thread := ref_count s thread + n)\<rparr>"

text \<open>The loop of \<open>set_timeout\<close>: the place before the first element that is not due earlier.\<close>

fun telt_insert :: "(addr \<Rightarrow> timer_elt) \<Rightarrow> natural_t \<Rightarrow> addr \<Rightarrow> addr list \<Rightarrow> addr list" where
  "telt_insert ts interval telt [] = [telt]"
| "telt_insert ts interval telt (nxt # chain) =
     (if telt_ticks (ts nxt) \<ge> interval then telt # nxt # chain else nxt # telt_insert ts interval telt chain)"

definition set_timeout :: "addr \<Rightarrow> natural_t \<Rightarrow> timers \<Rightarrow> timers" where
  "set_timeout telt interval s =
     (let interval = interval + timeout_ticks s;
          s = s\<lparr>timer_chain := telt_insert (telts s) interval telt (timer_chain s)\<rparr>;
          s = set_telt telt (\<lambda>t. t\<lparr>telt_ticks := interval, telt_set := TELT_SET\<rparr>) s
      in if telt_fcn (telts s telt) = Thread_Timeout then add_ref (telt_param (telts s telt)) 1 s else s)"

definition reset_timeout :: "addr \<Rightarrow> timers \<Rightarrow> bool \<times> timers" where
  "reset_timeout telt s =
     (let t = telts s telt; retval = (telt_set t = TELT_SET);
          s = (if retval
               then set_telt telt (\<lambda>t. t\<lparr>telt_set := TELT_UNSET\<rparr>) (s\<lparr>timer_chain := remove1 telt (timer_chain s)\<rparr>)
               else if telt_set t = TELT_PENDING then set_telt telt (\<lambda>t. t\<lparr>telt_set := TELT_UNSET\<rparr>) s else s)
      in (retval, if retval \<and> telt_fcn t = Thread_Timeout then add_ref (telt_param t) (- 1) s else s))"

definition reset_timeout_check :: "addr \<Rightarrow> timers \<Rightarrow> timers" where
  "reset_timeout_check telt s = (if telt_set (telts s telt) \<noteq> TELT_UNSET then snd (reset_timeout telt s) else s)"

definition timeout_init :: "timers \<Rightarrow> timers" where
  "timeout_init s = s\<lparr>timer_chain := [], timeout_ticks := 0\<rparr>"

text \<open>The result says whether \<open>softclock\<close> is woken.\<close>

definition timeout_tick :: "timers \<Rightarrow> bool \<times> timers" where
  "timeout_tick s =
     (let s = s\<lparr>timeout_ticks := timeout_ticks s + 1\<rparr>
      in (case timer_chain s of
            [] \<Rightarrow> NOT 0 \<le> timeout_ticks s
          | telt # _ \<Rightarrow> telt_ticks (telts s telt) \<le> timeout_ticks s, s))"

text \<open>
  One turn of the inner loop of \<open>softclock\<close>, up to the call of the function, which is the result; without
  one, the loop breaks and \<open>softclock\<close> waits for the next tick.  \<open>None\<close> takes the head of the chain for a
  timer.
\<close>

definition softclock_take :: "timers \<Rightarrow> ((addr \<times> timeout_fcn_t \<times> addr) option \<times> timers) option" where
  "softclock_take s =
     (case timer_chain s of
        [] \<Rightarrow> if NOT 0 > timeout_ticks s then Some (None, s) else None
      | telt # chain \<Rightarrow>
          let t = telts s telt in
          if telt_ticks t > timeout_ticks s then Some (None, s)
          else Some (Some (telt, telt_fcn t, telt_param t),
            set_telt telt (\<lambda>t. t\<lparr>telt_set := if telt_fcn t = Thread_Timeout then TELT_PENDING else TELT_UNSET\<rparr>)
              (s\<lparr>timer_chain := chain\<rparr>)))"

text \<open>
  \<open>thread_timeout\<close> (\<open>kern/sched_prim.c\<close>) as far as the timer goes: whether the wait of the thread is to be
  cleared, and the reference to the thread that the timer held.
\<close>

definition thread_timeout :: "addr \<Rightarrow> addr \<Rightarrow> timers \<Rightarrow> bool \<times> timers" where
  "thread_timeout telt thread s =
     (if telt_set (telts s telt) = TELT_PENDING
      then (True, add_ref thread (- 1) (set_telt telt (\<lambda>t. t\<lparr>telt_set := TELT_UNSET\<rparr>) s))
      else (False, s))"

subsection \<open>The public timers\<close>

definition NTIMERS :: nat where
  "NTIMERS = 20"

text \<open>The addresses of the elements of \<open>timeout_timers\<close> are an argument; \<open>None\<close> is the panic.\<close>

definition timeout :: "addr list \<Rightarrow> timeout_fcn_t \<Rightarrow> addr \<Rightarrow> natural_t \<Rightarrow> timers \<Rightarrow> timers option" where
  "timeout timeout_timers fcn param interval s =
     (case find (\<lambda>elt. telt_set (telts s elt) = TELT_UNSET) (take NTIMERS timeout_timers) of
        None \<Rightarrow> None
      | Some elt \<Rightarrow> Some (set_timeout elt interval
          (set_telt elt (\<lambda>t. t\<lparr>telt_fcn := fcn, telt_param := param, telt_set := TELT_ALLOC\<rparr>) s)))"

definition untimeout :: "timeout_fcn_t \<Rightarrow> addr \<Rightarrow> timers \<Rightarrow> bool \<times> timers" where
  "untimeout fcn param s =
     (case find (\<lambda>elt. fcn = telt_fcn (telts s elt) \<and> param = telt_param (telts s elt)) (timer_chain s) of
        None \<Rightarrow> (False, s)
      | Some elt \<Rightarrow>
          let s = set_telt elt (\<lambda>t. t\<lparr>telt_set := TELT_UNSET\<rparr>) (s\<lparr>timer_chain := remove1 elt (timer_chain s)\<rparr>)
          in (True, if fcn = Thread_Timeout then add_ref (telt_param (telts s elt)) (- 1) s else s))"

subsection \<open>The chain\<close>

definition ticks_of :: "timers \<Rightarrow> addr \<Rightarrow> natural_t" where
  "ticks_of s telt = telt_ticks (telts s telt)"

definition timers_ok :: "timers \<Rightarrow> bool" where
  "timers_ok s \<longleftrightarrow>
     distinct (timer_chain s) \<and> sorted (map (ticks_of s) (timer_chain s)) \<and>
     (\<forall>telt. telt \<in> set (timer_chain s) \<longleftrightarrow> telt_set (telts s telt) = TELT_SET)"

lemma set_insert: "set (telt_insert ts interval telt chain) = insert telt (set chain)"
  by (induction chain) auto

lemma distinct_insert: "distinct (telt_insert ts interval telt chain) \<longleftrightarrow> distinct (telt # chain)"
  by (induction chain) (auto simp: set_insert)

lemma filter_insert: "telt \<notin> set chain \<Longrightarrow> [t \<leftarrow> telt_insert ts interval telt chain. t \<noteq> telt] = chain"
  by (induction chain) (auto simp: filter_id_conv)

lemma sorted_insert:
  assumes "sorted (map (\<lambda>t. telt_ticks (ts t)) chain)" "telt \<notin> set chain" "telt_ticks (ts' telt) = interval"
    "\<And>t. t \<in> set chain \<Longrightarrow> telt_ticks (ts' t) = telt_ticks (ts t)"
  shows "sorted (map (\<lambda>t. telt_ticks (ts' t)) (telt_insert ts interval telt chain))"
  using assms
proof (induction chain)
  case (Cons nxt chain)
  have t: "telt_ticks (ts' t) = telt_ticks (ts t)" if "t \<in> set (nxt # chain)" for t using Cons.prems(4) that by blast
  have IH: "sorted (map (\<lambda>t. telt_ticks (ts' t)) (telt_insert ts interval telt chain))"
    using Cons by simp
  have "sorted (map (\<lambda>t. telt_ticks (ts' t)) (nxt # chain))" using Cons.prems(1) t by (simp cong: map_cong)
  then show ?case using IH Cons.prems(1,3) t by (auto simp: set_insert not_le)
qed simp

lemma set_timeout_spec:
  assumes ok: "timers_ok s" and unset: "telt_set (telts s telt) \<noteq> TELT_SET"
  shows "timers_ok (set_timeout telt interval s)"
    "ticks_of (set_timeout telt interval s) telt = interval + timeout_ticks s"
    "\<And>t. t \<noteq> telt \<Longrightarrow> telts (set_timeout telt interval s) t = telts s t"
    "[t \<leftarrow> timer_chain (set_timeout telt interval s). t \<noteq> telt] = timer_chain s"
    "timeout_ticks (set_timeout telt interval s) = timeout_ticks s"
proof -
  let ?s = "set_timeout telt interval s" and ?i = "interval + timeout_ticks s"
  have new: "telt \<notin> set (timer_chain s)" using ok unset by (simp add: timers_ok_def)
  have c: "timer_chain ?s = telt_insert (telts s) ?i telt (timer_chain s)" "timeout_ticks ?s = timeout_ticks s"
    "telts ?s = (telts s)(telt := (telts s telt)\<lparr>telt_ticks := ?i, telt_set := TELT_SET\<rparr>)"
    by (simp_all add: set_timeout_def set_telt_def add_ref_def Let_def)
  have "sorted (map (ticks_of ?s) (timer_chain ?s))"
    unfolding c(1) ticks_of_def by (rule sorted_insert) (use ok new in \<open>auto simp: timers_ok_def ticks_of_def [abs_def] c(3)\<close>)
  then show "timers_ok ?s" using ok new by (auto simp: timers_ok_def c(1,3) distinct_insert set_insert)
  show "ticks_of ?s telt = ?i" "timeout_ticks ?s = timeout_ticks s" "\<And>t. t \<noteq> telt \<Longrightarrow> telts ?s t = telts s t"
    by (simp_all add: ticks_of_def c)
  show "[t \<leftarrow> timer_chain ?s. t \<noteq> telt] = timer_chain s" unfolding c(1) by (rule filter_insert [OF new])
qed

lemma sorted_remove1: "sorted (map f xs) \<Longrightarrow> sorted (map f (remove1 x xs))"
  by (induction xs) (auto dest: set_remove1_subset [THEN subsetD])

lemma reset_timeout_spec:
  assumes ok: "timers_ok s" and set: "telt_set (telts s telt) \<in> {TELT_UNSET, TELT_SET, TELT_PENDING}"
  shows "timers_ok (snd (reset_timeout telt s))" "fst (reset_timeout telt s) \<longleftrightarrow> telt_set (telts s telt) = TELT_SET"
    "telt_set (telts (snd (reset_timeout telt s)) telt) = TELT_UNSET"
    "timer_chain (snd (reset_timeout telt s)) = remove1 telt (timer_chain s)"
    "\<And>t. t \<noteq> telt \<Longrightarrow> telts (snd (reset_timeout telt s)) t = telts s t"
proof -
  let ?s = "snd (reset_timeout telt s)"
  have "remove1 telt (timer_chain s) = timer_chain s" if "telt_set (telts s telt) \<noteq> TELT_SET"
    using that ok by (intro remove1_idem) (simp add: timers_ok_def)
  then show c: "timer_chain ?s = remove1 telt (timer_chain s)"
    by (auto simp: reset_timeout_def set_telt_def add_ref_def Let_def)
  show f: "fst (reset_timeout telt s) \<longleftrightarrow> telt_set (telts s telt) = TELT_SET"
    "telt_set (telts ?s telt) = TELT_UNSET" "\<And>t. t \<noteq> telt \<Longrightarrow> telts ?s t = telts s t"
    using set by (auto simp: reset_timeout_def set_telt_def add_ref_def Let_def)
  have t: "ticks_of ?s = ticks_of s" by (simp add: fun_eq_iff ticks_of_def reset_timeout_def set_telt_def add_ref_def Let_def)
  have d: "distinct (timer_chain s)" using ok by (simp add: timers_ok_def)
  have "telt_set (telts ?s x) = TELT_SET \<longleftrightarrow> x \<in> set (timer_chain s) - {telt}" for x
    using f(2,3) ok by (cases "x = telt") (auto simp: timers_ok_def)
  moreover have "sorted (map (ticks_of s) (remove1 telt (timer_chain s)))"
    using ok by (intro sorted_remove1) (simp add: timers_ok_def)
  ultimately show "timers_ok ?s" using d by (simp add: timers_ok_def c t)
qed

subsection \<open>References\<close>

text \<open>The timers that hold a reference to the thread, and its other references.\<close>

definition holds_ref :: "addr \<Rightarrow> timer_elt \<Rightarrow> bool" where
  "holds_ref thread t \<longleftrightarrow> telt_fcn t = Thread_Timeout \<and> telt_param t = thread \<and> telt_set t \<in> {TELT_SET, TELT_PENDING}"

definition other_refs :: "timers \<Rightarrow> addr \<Rightarrow> int" where
  "other_refs s thread = ref_count s thread - int (card {telt. holds_ref thread (telts s telt)})"

lemma other_refs_update:
  assumes "telts s' = (telts s)(telt := t)" "ref_count s' thread = ref_count s thread + n"
  shows "other_refs s' thread = other_refs s thread + n - of_bool (holds_ref thread t) + of_bool (holds_ref thread (telts s telt))"
proof -
  let ?A = "{x. x \<noteq> telt \<and> holds_ref thread (telts s x)}"
  have "{x. holds_ref thread (f x)} = (if holds_ref thread (f telt) then insert telt {x. x \<noteq> telt \<and> holds_ref thread (f x)}
      else {x. x \<noteq> telt \<and> holds_ref thread (f x)})" for f by auto
  then have split: "card {x. holds_ref thread (f x)} = card {x. x \<noteq> telt \<and> holds_ref thread (f x)} + of_bool (holds_ref thread (f telt))" for f
    by simp
  have "{x. x \<noteq> telt \<and> holds_ref thread (telts s' x)} = ?A" using assms(1) by auto
  then show ?thesis
    using assms unfolding other_refs_def split [of "telts s'"] split [of "telts s"] by simp
qed

lemma telts_other:
  "telts (set_timeout telt interval s) =
     (telts s)(telt := (telts s telt)\<lparr>telt_ticks := interval + timeout_ticks s, telt_set := TELT_SET\<rparr>)"
  "telts (snd (reset_timeout telt s)) = (telts s)(telt := (telts s telt)\<lparr>telt_set :=
     if telt_set (telts s telt) = TELT_SET \<or> telt_set (telts s telt) = TELT_PENDING then TELT_UNSET else telt_set (telts s telt)\<rparr>)"
  "telts (snd (thread_timeout telt thread s)) = (telts s)(telt := (telts s telt)\<lparr>telt_set :=
     if telt_set (telts s telt) = TELT_PENDING then TELT_UNSET else telt_set (telts s telt)\<rparr>)"
  by (auto simp: set_timeout_def reset_timeout_def thread_timeout_def set_telt_def add_ref_def Let_def)

lemma refs_step:
  "telt_set (telts s telt) \<notin> {TELT_SET, TELT_PENDING} \<Longrightarrow> other_refs (set_timeout telt interval s) thread = other_refs s thread"
  "other_refs (snd (reset_timeout telt s)) thread = other_refs s thread +
     of_bool (telt_set (telts s telt) = TELT_PENDING \<and> holds_ref thread (telts s telt))"
  "telt_fcn (telts s telt) = Thread_Timeout \<Longrightarrow> telt_param (telts s telt) = th \<Longrightarrow>
     other_refs (snd (thread_timeout telt th s)) thread = other_refs s thread"
proof -
  let ?t = "telts s telt"
  have "ref_count (set_timeout telt interval s) thread =
      ref_count s thread + of_bool (telt_fcn ?t = Thread_Timeout \<and> telt_param ?t = thread)"
    by (auto simp: set_timeout_def set_telt_def add_ref_def Let_def)
  from other_refs_update [OF telts_other(1) this]
  show "telt_set ?t \<notin> {TELT_SET, TELT_PENDING} \<Longrightarrow> other_refs (set_timeout telt interval s) thread = other_refs s thread"
    by (auto simp: holds_ref_def)
  have "ref_count (snd (reset_timeout telt s)) thread =
      ref_count s thread + - of_bool (telt_set ?t = TELT_SET \<and> telt_fcn ?t = Thread_Timeout \<and> telt_param ?t = thread)"
    by (auto simp: reset_timeout_def set_telt_def add_ref_def Let_def)
  from other_refs_update [OF telts_other(2) this]
  show "other_refs (snd (reset_timeout telt s)) thread = other_refs s thread +
     of_bool (telt_set ?t = TELT_PENDING \<and> holds_ref thread ?t)"
    by (auto simp: holds_ref_def)
  have "ref_count (snd (thread_timeout telt th s)) thread =
      ref_count s thread + - of_bool (telt_set ?t = TELT_PENDING \<and> th = thread)"
    by (auto simp: thread_timeout_def set_telt_def add_ref_def Let_def)
  from other_refs_update [OF telts_other(3) this]
  show "telt_fcn ?t = Thread_Timeout \<Longrightarrow> telt_param ?t = th \<Longrightarrow>
     other_refs (snd (thread_timeout telt th s)) thread = other_refs s thread"
    by (auto simp: holds_ref_def)
qed

subsection \<open>Taking timers\<close>

lemma softclock_take_spec:
  assumes ok: "timers_ok s" and ticks: "timeout_ticks s \<noteq> NOT 0"
  shows "\<exists>res s'. softclock_take s = Some (res, s') \<and> timers_ok s' \<and>
    (case res of
       None \<Rightarrow> s' = s \<and> (\<forall>t \<in> set (timer_chain s). timeout_ticks s < ticks_of s t)
     | Some (telt, fcn, param) \<Rightarrow>
         telt \<in> set (timer_chain s) \<and> ticks_of s telt \<le> timeout_ticks s \<and>
         (\<forall>t \<in> set (timer_chain s). ticks_of s telt \<le> ticks_of s t) \<and>
         fcn = telt_fcn (telts s telt) \<and> param = telt_param (telts s telt) \<and> timer_chain s' = remove1 telt (timer_chain s))"
proof (cases "timer_chain s")
  case Nil
  have "timeout_ticks s < NOT 0" using ticks by (simp add: word_order.not_eq_extremum)
  then show ?thesis using Nil ok by (simp add: softclock_take_def)
next
  case (Cons telt chain)
  have so: "distinct (telt # chain)" "sorted (map (ticks_of s) (telt # chain))" using ok Cons by (simp_all add: timers_ok_def)
  show ?thesis
  proof (cases "timeout_ticks s < telt_ticks (telts s telt)")
    case True
    then show ?thesis using Cons so ok by (auto simp: softclock_take_def ticks_of_def)
  next
    case False
    define s' where "s' = set_telt telt (\<lambda>t. t\<lparr>telt_set := if telt_fcn t = Thread_Timeout then TELT_PENDING else TELT_UNSET\<rparr>)
              (s\<lparr>timer_chain := chain\<rparr>)"
    have t: "ticks_of s' = ticks_of s" by (simp add: fun_eq_iff ticks_of_def s'_def set_telt_def)
    have "timers_ok s'"
      using so ok Cons by (auto simp: timers_ok_def t) (auto simp: s'_def set_telt_def split: if_splits)
    then show ?thesis using False Cons so
      by (auto simp: softclock_take_def s'_def [symmetric] ticks_of_def Let_def) (simp add: s'_def set_telt_def)
  qed
qed

subsection \<open>Properties\<close>

text \<open>
  A timer that is set becomes due when its interval has passed, and the order of the others stays.  \<open>softclock\<close>
  takes a timer that is due as long as there is one, the earliest first, and waits only when none is due; it takes no
  timer early.
\<close>

theorem timer_order_exact:
  assumes ok: "timers_ok s" and unset: "telt_set (telts s telt) \<noteq> TELT_SET" and ticks: "timeout_ticks s \<noteq> NOT 0"
  shows "(let s' = set_timeout telt interval s in
      timers_ok s' \<and> ticks_of s' telt = timeout_ticks s + interval \<and> [t \<leftarrow> timer_chain s'. t \<noteq> telt] = timer_chain s) \<and>
    (\<exists>res s'. softclock_take s = Some (res, s') \<and> timers_ok s' \<and>
      (case res of
         None \<Rightarrow> s' = s \<and> (\<forall>t \<in> set (timer_chain s). timeout_ticks s < ticks_of s t)
       | Some (telt, fcn, param) \<Rightarrow>
           telt \<in> set (timer_chain s) \<and> ticks_of s telt \<le> timeout_ticks s \<and>
           (\<forall>t \<in> set (timer_chain s). ticks_of s telt \<le> ticks_of s t) \<and>
           fcn = telt_fcn (telts s telt) \<and> param = telt_param (telts s telt) \<and>
           timer_chain s' = remove1 telt (timer_chain s)))"
  using set_timeout_spec(1,2,4) [OF ok unset, of interval] softclock_take_spec [OF ok ticks]
  unfolding Let_def add.commute [of "timeout_ticks s"] by blast

text \<open>A timer due at 7 is set at time 5; another one is due at 6.\<close>

definition timers2 :: timers where
  "timers2 = \<lparr>telts = (\<lambda>_. \<lparr>telt_fcn = Thread_Timeout, telt_param = 0, telt_ticks = 0, telt_set = TELT_UNSET\<rparr>)
       (16 := \<lparr>telt_fcn = Timeout_Fcn 3, telt_param = 0, telt_ticks = 6, telt_set = TELT_SET\<rparr>,
        32 := \<lparr>telt_fcn = Thread_Timeout, telt_param = 64, telt_ticks = 0, telt_set = TELT_UNSET\<rparr>),
     timer_chain = [16], timeout_ticks = 5, ref_count = \<lambda>_. 1\<rparr>"

lemma timers2_ok: "timers_ok timers2"
  by (auto simp: timers_ok_def timers2_def)

theorem timer_order_exact_witness:
  "timers_ok (set_timeout 32 2 timers2) \<and> ticks_of (set_timeout 32 2 timers2) 32 = 7 \<and>
    timer_chain (set_timeout 32 2 timers2) = [16, 32]"
proof -
  have "telt_set (telts timers2 32) \<noteq> TELT_SET" "timeout_ticks timers2 \<noteq> NOT 0" by (simp_all add: timers2_def)
  note exact = timer_order_exact [OF timers2_ok this, of 2, unfolded Let_def, THEN conjunct1]
  have "timer_chain (set_timeout 32 2 timers2) = [16, 32]" by code_simp
  then show ?thesis using exact by (simp add: timers2_def)
qed

text \<open>
  C33: The timer of a thread holds one reference to it from the time it is set until it is reset or \<open>thread_timeout\<close> has
  run, with one exception: when the thread is woken after the timer went off and before \<open>thread_timeout\<close> runs,
  \<open>reset_timeout\<close> clears the timer without giving the reference back, and \<open>thread_timeout\<close> does not either.
\<close>

theorem timer_reference_leak:
  assumes t: "telt_fcn (telts s telt) = Thread_Timeout" "telt_param (telts s telt) = thread"
  shows "(telt_set (telts s telt) \<notin> {TELT_SET, TELT_PENDING} \<longrightarrow>
      (\<forall>th. other_refs (set_timeout telt interval s) th = other_refs s th)) \<and>
    (telt_set (telts s telt) \<noteq> TELT_PENDING \<longrightarrow> (\<forall>th. other_refs (snd (reset_timeout telt s)) th = other_refs s th)) \<and>
    (\<forall>th. other_refs (snd (thread_timeout telt thread s)) th = other_refs s th) \<and>
    (telt_set (telts s telt) = TELT_PENDING \<longrightarrow>
      (let s' = snd (thread_timeout telt thread (reset_timeout_check telt s)) in
        telt_set (telts s' telt) = TELT_UNSET \<and> ref_count s' = ref_count s \<and> other_refs s' thread = other_refs s thread + 1))"
proof -
  have "other_refs (snd (reset_timeout telt s)) th = other_refs s th" if "telt_set (telts s telt) \<noteq> TELT_PENDING" for th
    using refs_step(2) [of telt s th] that by simp
  moreover have "let s' = snd (thread_timeout telt thread (reset_timeout_check telt s)) in
      telt_set (telts s' telt) = TELT_UNSET \<and> ref_count s' = ref_count s \<and> other_refs s' thread = other_refs s thread + 1"
    if p: "telt_set (telts s telt) = TELT_PENDING"
  proof -
    have "telts (snd (reset_timeout telt s)) telt = (telts s telt)\<lparr>telt_set := TELT_UNSET\<rparr>" using p by (simp add: telts_other(2))
    then have "snd (thread_timeout telt thread (reset_timeout_check telt s)) = snd (reset_timeout telt s)"
      using p by (simp add: thread_timeout_def reset_timeout_check_def)
    moreover have "ref_count (snd (reset_timeout telt s)) = ref_count s" using p by (simp add: reset_timeout_def set_telt_def Let_def)
    ultimately show ?thesis using refs_step(2) [of telt s thread] p t by (simp add: telts_other(2) holds_ref_def)
  qed
  ultimately show ?thesis using refs_step(1) [of s telt] refs_step(3) [OF t] by blast
qed

theorem timer_reference_leak_witness:
  "let s = set_telt 32 (\<lambda>t. t\<lparr>telt_set := TELT_PENDING\<rparr>) timers2;
       s' = snd (thread_timeout 32 64 (reset_timeout_check 32 s))
   in telt_set (telts s' 32) = TELT_UNSET \<and> other_refs s' 64 = other_refs s 64 + 1"
  using timer_reference_leak [of "set_telt 32 (\<lambda>t. t\<lparr>telt_set := TELT_PENDING\<rparr>) timers2" 32 64 0]
  by (auto simp: Let_def set_telt_def timers2_def)

end
