(* ===== verification/Kern_Sched.thy ===== *)
theory Kern_Sched
  imports Kern_Timer "HOL-Library.Monad_Syntax"
begin

section \<open>Threads, run queues and waiting\<close>

text \<open>
  \<open>kern/sched.h\<close>, \<open>kern/bits.c\<close> and the parts of \<open>kern/sched_prim.c\<close> that put threads on run queues and wait
  queues and take them off, for one processor and the default processor set.  Threads are known by their
  addresses; queues are lists of them.  Locks are left out: a definition is what runs while the locks are held.
\<close>

subsection \<open>Bit strings (kern/bits.c)\<close>

definition INT_SIZE :: nat where
  "INT_SIZE = 32"

fun setbit :: "nat \<Rightarrow> natural_t list \<Rightarrow> natural_t list" where
  "setbit bitno [] = []"
| "setbit bitno (w # s) =
     (if INT_SIZE \<le> bitno then w # setbit (bitno - INT_SIZE) s else (w OR push_bit bitno 1) # s)"

fun clrbit :: "nat \<Rightarrow> natural_t list \<Rightarrow> natural_t list" where
  "clrbit bitno [] = []"
| "clrbit bitno (w # s) =
     (if INT_SIZE \<le> bitno then w # clrbit (bitno - INT_SIZE) s else (w AND NOT (push_bit bitno 1)) # s)"

text \<open>The two loops of \<open>ffsbit\<close>; \<open>None\<close> reads past the end of the string.\<close>

fun ffs_mask :: "nat \<Rightarrow> natural_t \<Rightarrow> nat \<Rightarrow> natural_t \<Rightarrow> nat" where
  "ffs_mask 0 m offset w = 0"
| "ffs_mask (Suc n) m offset w =
     (if m = 0 then 0 else if m AND w \<noteq> 0 then offset else ffs_mask n (push_bit 1 m) (offset + 1) w)"

fun ffs_words :: "nat \<Rightarrow> natural_t list \<Rightarrow> nat option" where
  "ffs_words offset [] = None"
| "ffs_words offset (w # s) =
     (if w = 0 then ffs_words (offset + INT_SIZE) s else Some (ffs_mask (INT_SIZE + 1) 1 offset w))"

definition ffsbit :: "natural_t list \<Rightarrow> nat option" where
  "ffsbit s = ffs_words 0 s"

subsection \<open>Constants and data\<close>

definition NRQS :: nat where
  "NRQS = 32"
definition LPRI :: int where
  "LPRI = int NRQS - 3"
definition DEPRESSPRI :: int where
  "DEPRESSPRI = int NRQS - 2"
definition MINPRI :: int where
  "MINPRI = DEPRESSPRI"
definition IDLEPRI :: int where
  "IDLEPRI = int NRQS - 1"
definition PRI_SHIFT :: nat where
  "PRI_SHIFT = 18"
definition SCHED_SHIFT :: nat where
  "SCHED_SHIFT = 7"

definition TH_WAIT :: natural_t where
  "TH_WAIT = 0x01"
definition TH_SUSP :: natural_t where
  "TH_SUSP = 0x02"
definition TH_RUN :: natural_t where
  "TH_RUN = 0x04"
definition TH_UNINT :: natural_t where
  "TH_UNINT = 0x08"
definition TH_ABORT :: natural_t where
  "TH_ABORT = 0x20"
definition TH_IDLE :: natural_t where
  "TH_IDLE = 0x80"
definition TH_SCHED_STATE :: natural_t where
  "TH_SCHED_STATE = TH_WAIT OR TH_SUSP OR TH_RUN OR TH_UNINT"

definition NO_EVENT :: addr where
  "NO_EVENT = 0"
definition WAKING_EVENT :: addr where
  "WAKING_EVENT = NOT 0"

definition AST_QUANTUM :: natural_t where
  "AST_QUANTUM = 0x10"

datatype policy_t = POLICY_TIMESHARE | POLICY_RR | POLICY_FIFO

text \<open>
  \<open>runq\<close> says whether the thread is on the run queue, of which there is one; \<open>wake_event\<close> is the address of the
  field \<open>wake_active\<close>, an event; \<open>timer_delta\<close> is what the two timers of the thread counted since the last
  \<open>thread_timer_delta\<close>.
\<close>

record thread =
  th_state :: natural_t
  wait_event :: addr
  wait_result :: wait_result_t
  wake_active :: bool
  wake_event :: addr
  th_timer :: addr
  runq :: bool
  whichq :: int
  priority :: int
  sched_pri :: int
  policy :: policy_t
  depress_priority :: int
  cpu_usage :: natural_t
  sched_usage :: natural_t
  cpu_delta :: natural_t
  sched_delta :: natural_t
  timer_delta :: natural_t
  sched_stamp :: natural_t
  sleep_stamp :: natural_t
  unconsumed_quantum :: int
  sched_data :: int
  reason :: natural_t

record run_queue =
  rq_runq :: "addr list list"
  rq_bitmap :: "natural_t list"
  rq_low :: int
  rq_count :: int
  rq_depress_count :: int

datatype processor_state = PROCESSOR_RUNNING | PROCESSOR_IDLE | PROCESSOR_DISPATCHING

text \<open>
  The processor with its state, its next thread and whether it is in its first quantum, whether it is in the queue
  of idle processors, and whether an AST was asked for.
\<close>

record sched =
  sc_threads :: "addr \<Rightarrow> thread"
  sc_rq :: run_queue
  sc_wait :: "addr list list"
  sc_timers :: timers
  sched_tick :: natural_t
  sched_load :: natural_t
  set_quantum :: int
  pr_quantum :: int
  pr_state :: processor_state
  pr_next :: addr
  pr_first_quantum :: bool
  pr_idle :: bool
  pr_current :: addr
  pr_idle_thread :: addr
  pr_ast :: bool

definition set_thread :: "addr \<Rightarrow> (thread \<Rightarrow> thread) \<Rightarrow> sched \<Rightarrow> sched" where
  "set_thread th f s = s\<lparr>sc_threads := (sc_threads s)(th := f (sc_threads s th))\<rparr>"

abbreviation thread_of :: "sched \<Rightarrow> addr \<Rightarrow> thread" where
  "thread_of s th \<equiv> sc_threads s th"

subsection \<open>Run queues\<close>

text \<open>The loop of \<open>pset_init\<close> and what follows it (\<open>kern/processor.c\<close>).\<close>

definition run_queue_init :: run_queue where
  "run_queue_init =
     \<lparr>rq_runq = replicate NRQS [], rq_bitmap = setbit (nat IDLEPRI) (replicate (NRQS div 32) 0),
      rq_low = IDLEPRI, rq_count = 0, rq_depress_count = 0\<rparr>"

text \<open>\<open>None\<close> is the panic; the result is the count before.\<close>

definition run_queue_enqueue :: "addr \<Rightarrow> bool \<Rightarrow> sched \<Rightarrow> (int \<times> sched) option" where
  "run_queue_enqueue th tail s =
     (let rq = sc_rq s; whichq = sched_pri (thread_of s th); i = nat whichq in
      if whichq < 0 \<or> whichq > MINPRI then None
      else
        let q = rq_runq rq ! i;
            rq' = rq\<lparr>rq_runq := (rq_runq rq)[i := if tail then q @ [th] else th # q],
                     rq_bitmap := setbit i (rq_bitmap rq),
                     rq_low := if whichq < rq_low rq then whichq else rq_low rq,
                     rq_count := rq_count rq + 1,
                     rq_depress_count := if whichq = DEPRESSPRI then rq_depress_count rq + 1 else rq_depress_count rq\<rparr>
        in Some (rq_count rq, set_thread th (\<lambda>t. t\<lparr>runq := True, whichq := whichq\<rparr>) (s\<lparr>sc_rq := rq'\<rparr>)))"

text \<open>
  What \<open>rem_runq\<close> and \<open>choose_pset_thread\<close> do after they took a thread out of the queue of a priority.  The
  argument is the priority whose queue may now be empty.
\<close>

definition rq_low_after :: "nat \<Rightarrow> run_queue \<Rightarrow> run_queue option" where
  "rq_low_after i rq =
     (if rq_runq rq ! i = []
      then let bitmap = clrbit i (rq_bitmap rq) in
           map_option (\<lambda>low. rq\<lparr>rq_bitmap := bitmap, rq_low := int low\<rparr>) (ffsbit bitmap)
      else Some rq)"

text \<open>
  The result says whether the thread was on a run queue.  \<open>remqueue\<close> takes it out of the list it is in, which is
  the one of \<open>whichq\<close>.
\<close>

definition rem_runq :: "addr \<Rightarrow> sched \<Rightarrow> (bool \<times> sched) option" where
  "rem_runq th s =
     (if \<not> runq (thread_of s th) then Some (False, s)
      else
        let rq = sc_rq s; j = nat (whichq (thread_of s th));
            rq = rq\<lparr>rq_runq := (rq_runq rq)[j := remove1 th (rq_runq rq ! j)], rq_count := rq_count rq - 1,
                    rq_depress_count := if whichq (thread_of s th) = DEPRESSPRI then rq_depress_count rq - 1
                                        else rq_depress_count rq\<rparr>
        in map_option (\<lambda>rq. (True, set_thread th (\<lambda>t. t\<lparr>runq := False\<rparr>) (s\<lparr>sc_rq := rq\<rparr>)))
             (rq_low_after (nat (sched_pri (thread_of s th))) rq))"

text \<open>The result is the thread, or \<open>None\<close> for the idle thread; the outer option is an empty list at the lowest bit.\<close>

definition choose_pset_thread :: "sched \<Rightarrow> (addr option \<times> sched) option" where
  "choose_pset_thread s =
     (let rq = sc_rq s in
      if rq_count rq > 0 then
        let i = nat (rq_low rq) in
        case rq_runq rq ! i of
          [] \<Rightarrow> None
        | th # q \<Rightarrow>
            let rq = rq\<lparr>rq_runq := (rq_runq rq)[i := q], rq_count := rq_count rq - 1,
                        rq_depress_count := if whichq (thread_of s th) = DEPRESSPRI then rq_depress_count rq - 1
                                            else rq_depress_count rq\<rparr>
            in map_option (\<lambda>rq. (Some th, set_thread th (\<lambda>t. t\<lparr>runq := False\<rparr>) (s\<lparr>sc_rq := rq\<rparr>)))
                 (rq_low_after i rq)
      else Some (None, if pr_state s = PROCESSOR_RUNNING then s\<lparr>pr_state := PROCESSOR_IDLE, pr_idle := True\<rparr> else s))"

subsection \<open>Priorities\<close>

definition do_priority_computation :: "thread \<Rightarrow> int" where
  "do_priority_computation t =
     (let pri = priority t + uint (drop_bit (PRI_SHIFT + SCHED_SHIFT) (sched_usage t)) in if pri > LPRI then LPRI else pri)"

definition wait_shift :: "(int \<times> int) list" where
  "wait_shift =
     [(1,1),(1,3),(1,-3),(2,-7),(3,5),(3,-5),(4,-8),(5,7),
      (5,-7),(6,-10),(7,10),(7,-9),(8,-11),(9,12),(9,-11),(10,-13),
      (11,14),(11,-13),(12,-15),(13,17),(13,-15),(14,-17),(15,19),(16,18),
      (16,-19),(17,22),(18,20),(18,-20),(19,26),(20,22),(20,-22),(21,-27)]"

definition decay :: "int \<times> int \<Rightarrow> natural_t \<Rightarrow> natural_t" where
  "decay shiftp usage =
     (case shiftp of (shift1, shift2) \<Rightarrow>
        if shift2 > 0 then drop_bit (nat shift1) usage + drop_bit (nat shift2) usage
        else drop_bit (nat shift1) usage - drop_bit (nat (- shift2)) usage)"

text \<open>The load factor of the processor set is an argument.\<close>

definition thread_timer_delta :: "natural_t \<Rightarrow> thread \<Rightarrow> thread" where
  "thread_timer_delta load t =
     t\<lparr>cpu_delta := cpu_delta t + timer_delta t, sched_delta := sched_delta t + timer_delta t * load, timer_delta := 0\<rparr>"

definition age :: "natural_t \<Rightarrow> natural_t \<Rightarrow> thread \<Rightarrow> thread" where
  "age load tick t =
     (let ticks = tick - sched_stamp t;
          t = thread_timer_delta load (t\<lparr>sched_stamp := sched_stamp t + ticks\<rparr>);
          t = (if ticks > 30 then t\<lparr>cpu_usage := 0, sched_usage := 0\<rparr>
               else t\<lparr>cpu_usage := decay (wait_shift ! unat ticks) (cpu_usage t + cpu_delta t),
                      sched_usage := decay (wait_shift ! unat ticks) (sched_usage t + sched_delta t)\<rparr>)
      in t\<lparr>cpu_delta := 0, sched_delta := 0\<rparr>)"

text \<open>
  \<open>thread_setrun\<close> after the update of the priority, which is where the call in \<open>update_priority\<close> goes too, whose
  thread is up to date.
\<close>

definition setrun_place :: "addr \<Rightarrow> bool \<Rightarrow> bool \<Rightarrow> sched \<Rightarrow> sched option" where
  "setrun_place th may_preempt tail s =
     (if pr_idle s then Some (s\<lparr>pr_idle := False, pr_next := th, pr_state := PROCESSOR_DISPATCHING\<rparr>)
      else
        let pri = (\<lambda>x. sched_pri (thread_of s x));
            (th', s) =
              (if may_preempt then
                 if pr_state s = PROCESSOR_DISPATCHING then
                   if pri (pr_next s) > pri th then (pr_next s, s\<lparr>pr_next := th\<rparr>) else (th, s)
                 else if pri (pr_current s) > pri th then (th, s\<lparr>pr_first_quantum := False, pr_ast := True\<rparr>)
                 else (th, s)
               else (th, s))
        in map_option snd (run_queue_enqueue th' tail s))"

definition update_priority :: "addr \<Rightarrow> sched \<Rightarrow> sched option" where
  "update_priority th s =
     (let s = set_thread th (age (sched_load s) (sched_tick s)) s; t = thread_of s th in
      if policy t = POLICY_TIMESHARE \<and> depress_priority t < 0 then
        do {
          let temp_pri = do_priority_computation t;
          (rq, s) \<leftarrow> rem_runq th s;
          let s = set_thread th (\<lambda>t. t\<lparr>sched_pri := temp_pri\<rparr>) s;
          if rq then setrun_place th True True s else Some s
        }
      else Some s)"

definition thread_setrun :: "addr \<Rightarrow> bool \<Rightarrow> bool \<Rightarrow> sched \<Rightarrow> sched option" where
  "thread_setrun th may_preempt tail s =
     do {
       s \<leftarrow> (if sched_stamp (thread_of s th) \<noteq> sched_tick s then update_priority th s else Some s);
       setrun_place th may_preempt tail s
     }"

definition set_pri :: "addr \<Rightarrow> int \<Rightarrow> bool \<Rightarrow> sched \<Rightarrow> sched option" where
  "set_pri th pri resched s =
     do {
       (rq, s) \<leftarrow> rem_runq th s;
       let s = set_thread th (\<lambda>t. t\<lparr>sched_pri := pri\<rparr>) s;
       if \<not> rq then Some s
       else if resched then thread_setrun th True True s
       else map_option snd (run_queue_enqueue th True s)
     }"

definition compute_priority :: "addr \<Rightarrow> bool \<Rightarrow> sched \<Rightarrow> sched option" where
  "compute_priority th resched s =
     (let t = thread_of s th in
      if policy t = POLICY_TIMESHARE then
        let pri = do_priority_computation t in
        if depress_priority t < 0 then set_pri th pri resched s
        else Some (set_thread th (\<lambda>t. t\<lparr>depress_priority := pri\<rparr>) s)
      else set_pri th (priority t) resched s)"

definition compute_my_priority :: "addr \<Rightarrow> sched \<Rightarrow> sched" where
  "compute_my_priority th s = set_thread th (\<lambda>t. t\<lparr>sched_pri := do_priority_computation t\<rparr>) s"

subsection \<open>Waiting\<close>

definition NUMQUEUES :: nat where
  "NUMQUEUES = 59"

definition wait_hash :: "addr \<Rightarrow> nat" where
  "wait_hash event = unat (if sint event < 0 then NOT event else event) mod NUMQUEUES"

definition wait_queue_init :: "sched \<Rightarrow> sched" where
  "wait_queue_init s = s\<lparr>sc_wait := replicate NUMQUEUES []\<rparr>"

definition reset_thread_timer :: "addr \<Rightarrow> sched \<Rightarrow> sched" where
  "reset_thread_timer th s = s\<lparr>sc_timers := reset_timeout_check (th_timer (thread_of s th)) (sc_timers s)\<rparr>"

definition thread_set_timeout :: "natural_t \<Rightarrow> sched \<Rightarrow> sched" where
  "thread_set_timeout ticks s =
     (let t = thread_of s (pr_current s) in
      if th_state t AND TH_WAIT \<noteq> 0 then s\<lparr>sc_timers := set_timeout (th_timer t) ticks (sc_timers s)\<rparr> else s)"

definition thread_go :: "addr \<Rightarrow> sched \<Rightarrow> sched option" where
  "thread_go th s =
     (let s = reset_thread_timer th s; state = th_state (thread_of s th) in
      if state AND TH_WAIT \<noteq> 0 then
        do {
          let state = state AND NOT TH_WAIT;
          s \<leftarrow> (if state AND TH_RUN = 0
               then thread_setrun th True True (set_thread th (\<lambda>t. t\<lparr>th_state := state OR TH_RUN\<rparr>) s)
               else Some (set_thread th (\<lambda>t. t\<lparr>th_state := state\<rparr>) s));
          Some (set_thread th (\<lambda>t. t\<lparr>wait_result := THREAD_AWAKENED\<rparr>) s)
        }
      else Some s)"

text \<open>The timeout in milliseconds is converted by \<open>convert_ipc_timeout_to_ticks\<close> of the clock.\<close>

definition thread_will_wait :: "addr \<Rightarrow> sched \<Rightarrow> sched" where
  "thread_will_wait th s = set_thread th (\<lambda>t. t\<lparr>th_state := th_state t OR TH_WAIT\<rparr>) s"

definition thread_will_wait_with_timeout :: "(natural_t \<Rightarrow> natural_t) \<Rightarrow> addr \<Rightarrow> natural_t \<Rightarrow> sched \<Rightarrow> sched" where
  "thread_will_wait_with_timeout convert_ipc_timeout_to_ticks th msecs s =
     (let s = set_thread th (\<lambda>t. t\<lparr>th_state := th_state t OR TH_WAIT\<rparr>) s
      in s\<lparr>sc_timers := set_timeout (th_timer (thread_of s th)) (convert_ipc_timeout_to_ticks msecs) (sc_timers s)\<rparr>)"

text \<open>\<open>None\<close> is the panic.\<close>

definition assert_wait :: "addr \<Rightarrow> bool \<Rightarrow> bool \<Rightarrow> sched \<Rightarrow> sched option" where
  "assert_wait event interruptible first s =
     (let th = pr_current s;
          waits = (\<lambda>t. t\<lparr>th_state := th_state t OR (if interruptible then TH_WAIT else TH_WAIT OR TH_UNINT),
                          sleep_stamp := sched_tick s\<rparr>) in
      if wait_event (thread_of s th) \<noteq> NO_EVENT then None
      else if event \<noteq> NO_EVENT then
        let index = wait_hash event; q = sc_wait s ! index;
            s = s\<lparr>sc_wait := (sc_wait s)[index := if first then th # q else q @ [th]]\<rparr>
        in Some (set_thread th (\<lambda>t. waits (t\<lparr>wait_event := event\<rparr>)) s)
      else Some (set_thread th waits s))"

text \<open>The switch on the state, which \<open>clear_wait_locked\<close> and \<open>thread_wakeup_prim\<close> share but for the default.\<close>

definition wake_states :: "natural_t list" where
  "wake_states = [TH_WAIT OR TH_SUSP OR TH_UNINT, TH_WAIT OR TH_UNINT, TH_WAIT]"

definition clear_states :: "natural_t list" where
  "clear_states = [TH_WAIT OR TH_SUSP, TH_RUN OR TH_WAIT OR TH_SUSP OR TH_UNINT, TH_RUN OR TH_WAIT OR TH_UNINT,
     TH_RUN OR TH_WAIT OR TH_SUSP, TH_RUN OR TH_WAIT]"

definition wake_switch :: "addr \<Rightarrow> wait_result_t \<Rightarrow> sched option \<Rightarrow> sched \<Rightarrow> sched option" where
  "wake_switch th result deflt s =
     (let state = th_state (thread_of s th); c = state AND TH_SCHED_STATE in
      if c \<in> set wake_states then
        thread_setrun th True True
          (set_thread th (\<lambda>t. t\<lparr>th_state := (state AND NOT TH_WAIT) OR TH_RUN, wait_result := result\<rparr>) s)
      else if c \<in> set clear_states then
        Some (set_thread th (\<lambda>t. t\<lparr>th_state := state AND NOT TH_WAIT, wait_result := result\<rparr>) s)
      else deflt)"

definition clear_wait_locked :: "addr \<Rightarrow> wait_result_t \<Rightarrow> bool \<Rightarrow> sched \<Rightarrow> sched option" where
  "clear_wait_locked th result interrupt_only s =
     (let t = thread_of s th; event = wait_event t in
      if interrupt_only \<and> th_state t AND TH_UNINT \<noteq> 0 then Some s
      else if event = WAKING_EVENT then Some s
      else
        let index = wait_hash event;
            s = (if event \<noteq> NO_EVENT
                 then set_thread th (\<lambda>t. t\<lparr>wait_event := NO_EVENT\<rparr>)
                        (s\<lparr>sc_wait := (sc_wait s)[index := remove1 th (sc_wait s ! index)]\<rparr>)
                 else s);
            s = reset_thread_timer th s
        in wake_switch th result (Some s) s)"

text \<open>The loop that takes threads off the wait queue: those that stay there, and \<open>wake_queue\<close>.\<close>

fun wakeup_split :: "(addr \<Rightarrow> bool) \<Rightarrow> bool \<Rightarrow> addr list \<Rightarrow> addr list \<times> addr list" where
  "wakeup_split waits one_thread [] = ([], [])"
| "wakeup_split waits one_thread (th # q) =
     (if waits th then if one_thread then (q, [th])
        else (case wakeup_split waits one_thread q of (stay, wake) \<Rightarrow> (stay, th # wake))
      else case wakeup_split waits one_thread q of (stay, wake) \<Rightarrow> (th # stay, wake))"

fun wakeup_queue :: "wait_result_t \<Rightarrow> addr list \<Rightarrow> sched \<Rightarrow> sched option" where
  "wakeup_queue result [] s = Some s"
| "wakeup_queue result (th # q) s =
     do {
       let s = reset_thread_timer th s;
       s \<leftarrow> wake_switch th result None s;
       wakeup_queue result q (set_thread th (\<lambda>t. t\<lparr>wait_event := NO_EVENT\<rparr>) s)
     }"

definition thread_wakeup_prim :: "addr \<Rightarrow> bool \<Rightarrow> wait_result_t \<Rightarrow> sched \<Rightarrow> sched option" where
  "thread_wakeup_prim event one_thread result s =
     (let index = wait_hash event;
          (stay, wake) = wakeup_split (\<lambda>th. wait_event (thread_of s th) = event) one_thread (sc_wait s ! index)
      in wakeup_queue result wake
           (s\<lparr>sc_wait := (sc_wait s)[index := stay],
              sc_threads := (\<lambda>th. if th \<in> set wake then (thread_of s th)\<lparr>wait_event := WAKING_EVENT\<rparr> else thread_of s th)\<rparr>))"

definition thread_wakeup :: "addr \<Rightarrow> sched \<Rightarrow> sched option" where
  "thread_wakeup x s = thread_wakeup_prim x False THREAD_AWAKENED s"

text \<open>The function the timer of a thread calls, with the \<open>clear_wait_locked\<close> it makes.\<close>

definition thread_timeout_wait :: "addr \<Rightarrow> sched \<Rightarrow> sched option" where
  "thread_timeout_wait th s =
     (case thread_timeout (th_timer (thread_of s th)) th (sc_timers s) of
        (did_timeout, ts) \<Rightarrow>
          if did_timeout then clear_wait_locked th THREAD_TIMED_OUT False (s\<lparr>sc_timers := ts\<rparr>) else Some s)"

subsection \<open>Stopping threads\<close>

text \<open>One turn of the loop of \<open>thread_stop\<close>: whether the thread is stopped, or the caller waits for it to be.\<close>

definition thread_stop_turn :: "addr \<Rightarrow> sched \<Rightarrow> (bool \<times> sched) option" where
  "thread_stop_turn th s =
     (if th_state (thread_of s th) AND TH_SUSP \<noteq> 0 then
        map_option (Pair False)
          (assert_wait (wake_event (thread_of s th)) True False (set_thread th (\<lambda>t. t\<lparr>wake_active := True\<rparr>) s))
      else Some (True, set_thread th (\<lambda>t. t\<lparr>th_state := th_state t OR TH_SUSP\<rparr>) s))"

text \<open>One turn of the loop of \<open>thread_wait\<close>: whether the thread runs no more.\<close>

definition thread_wait_turn :: "addr \<Rightarrow> sched \<Rightarrow> (bool \<times> sched) option" where
  "thread_wait_turn th s =
     (if th_state (thread_of s th) AND TH_RUN \<noteq> 0 then
        map_option (Pair False)
          (assert_wait (wake_event (thread_of s th)) True False (set_thread th (\<lambda>t. t\<lparr>wake_active := True\<rparr>) s))
      else Some (True, s))"

definition thread_unstop :: "addr \<Rightarrow> sched \<Rightarrow> sched option" where
  "thread_unstop th s =
     (let t = thread_of s th; state = th_state t in
      if state AND (TH_RUN OR TH_WAIT OR TH_SUSP) = TH_SUSP then
        thread_setrun th True True (set_thread th (\<lambda>t. t\<lparr>th_state := (state AND NOT TH_SUSP) OR TH_RUN\<rparr>) s)
      else if state AND TH_SUSP \<noteq> 0 then
        let s = set_thread th (\<lambda>t. t\<lparr>th_state := state AND NOT TH_SUSP\<rparr>) s in
        if wake_active t then thread_wakeup (wake_event t) (set_thread th (\<lambda>t. t\<lparr>wake_active := False\<rparr>) s) else Some s
      else Some s)"

text \<open>The end of \<open>thread_create\<close>, which starts the thread it created.\<close>

definition thread_create_start :: "addr \<Rightarrow> sched \<Rightarrow> sched option" where
  "thread_create_start th s =
     thread_setrun th False True (set_thread th (\<lambda>t. t\<lparr>th_state := th_state t OR TH_RUN\<rparr>) s)"

subsection \<open>Switching threads\<close>

definition thread_select :: "sched \<Rightarrow> (addr \<times> sched) option" where
  "thread_select s =
     (let s = set_thread (pr_current s) (\<lambda>t. t\<lparr>unconsumed_quantum := pr_quantum s\<rparr>) (s\<lparr>pr_first_quantum := True\<rparr>);
          t = thread_of s (pr_current s); other_runnable = (rq_count (sc_rq s) > 0) in
      do {
        (th, s) \<leftarrow>
          (if (\<not> other_runnable \<or> rq_low (sc_rq s) > sched_pri t) \<and> th_state t = TH_RUN
           then map_option (Pair (pr_current s))
                  (if sched_stamp t \<noteq> sched_tick s then update_priority (pr_current s) s else Some s)
           else map_option (\<lambda>(th, s). (case th of Some th \<Rightarrow> th | None \<Rightarrow> pr_idle_thread s, s)) (choose_pset_thread s));
        Some (th, s\<lparr>pr_quantum := if policy (thread_of s th) = POLICY_TIMESHARE then set_quantum s
                                  else unconsumed_quantum (thread_of s th)\<rparr>)
      })"

text \<open>\<open>None\<close> is the panic.\<close>

definition thread_dispatch :: "addr \<Rightarrow> sched \<Rightarrow> sched option" where
  "thread_dispatch th s =
     (let state = th_state (thread_of s th); c = state AND (TH_RUN OR TH_WAIT OR TH_UNINT OR TH_IDLE) in
      if c = TH_RUN OR TH_UNINT \<or> c = TH_RUN then
        if reason (thread_of s th) AND AST_QUANTUM \<noteq> 0
        then map_option (set_thread th (\<lambda>t. t\<lparr>unconsumed_quantum := sched_data t\<rparr>)) (thread_setrun th False True s)
        else thread_setrun th False False s
      else if c = TH_RUN OR TH_WAIT OR TH_UNINT \<or> c = TH_RUN OR TH_WAIT \<or> c = TH_WAIT then
        let s = set_thread th (\<lambda>t. if c = TH_WAIT then t else t\<lparr>sleep_stamp := sched_tick s\<rparr>) s;
            s = set_thread th (\<lambda>t. t\<lparr>th_state := state AND NOT TH_RUN\<rparr>) s in
        if wake_active (thread_of s th)
        then thread_wakeup (wake_event (thread_of s th)) (set_thread th (\<lambda>t. t\<lparr>wake_active := False\<rparr>) s)
        else Some s
      else if c = TH_RUN OR TH_IDLE then Some s
      else None)"

text \<open>The new thread goes on where it called \<open>switch_context\<close>, with \<open>thread_dispatch\<close> of the old one.\<close>

definition thread_invoke :: "addr \<Rightarrow> addr \<Rightarrow> natural_t \<Rightarrow> sched \<Rightarrow> sched option" where
  "thread_invoke old_thread new_thread rsn s =
     (let s = set_thread new_thread (\<lambda>t. t\<lparr>th_state := th_state t AND NOT TH_UNINT\<rparr>) s in
      if old_thread = new_thread then Some s
      else thread_dispatch old_thread
             ((set_thread old_thread (\<lambda>t. t\<lparr>reason := rsn\<rparr>) s)\<lparr>pr_current := new_thread\<rparr>))"

text \<open>Without \<open>FAST_IDLE\<close>.\<close>

definition thread_block_reason :: "natural_t \<Rightarrow> sched \<Rightarrow> sched option" where
  "thread_block_reason rsn s =
     do {
       let th = pr_current s;
       s \<leftarrow> (if th_state (thread_of s th) AND TH_ABORT \<noteq> 0 then clear_wait_locked th THREAD_INTERRUPTED True s else Some s);
       (new_thread, s) \<leftarrow> thread_select (s\<lparr>pr_ast := False\<rparr>);
       thread_invoke th new_thread rsn s
     }"

text \<open>
  One turn of the outer loop of \<open>idle_thread_continue\<close>, once the inner loop has seen a next thread or a thread on the
  run queue; \<open>None\<close> is the panic.
\<close>

definition idle_thread_turn :: "sched \<Rightarrow> sched option" where
  "idle_thread_turn s =
     (case pr_state s of
        PROCESSOR_DISPATCHING \<Rightarrow>
          let new_thread = pr_next s; t = thread_of s new_thread in
          thread_invoke (pr_current s) new_thread 0
            (s\<lparr>pr_next := NULL, pr_state := PROCESSOR_RUNNING, pr_first_quantum := True,
               pr_quantum := if policy t = POLICY_TIMESHARE then set_quantum s else unconsumed_quantum t\<rparr>)
      | PROCESSOR_IDLE \<Rightarrow> thread_block_reason 0 (s\<lparr>pr_idle := False, pr_state := PROCESSOR_RUNNING\<rparr>)
      | PROCESSOR_RUNNING \<Rightarrow> None)"

end
