(* ===== verification/Sched_Runq.thy ===== *)
theory Sched_Runq
  imports Kern_Sched
begin

section \<open>The run queue\<close>

text \<open>
  The run queue of \<open>Kern_Sched\<close>: its bitmap, its lowest priority and its counts follow from its queues, the threads on
  it are those that say so, and each operation does to the queues what it is for.
\<close>

subsection \<open>The bitmap\<close>

definition lowest :: "natural_t \<Rightarrow> nat \<Rightarrow> bool" where
  "lowest w r \<longleftrightarrow> r < 32 \<and> bit w r \<and> (\<forall>j < r. \<not> bit w j)"

lemma bit_test: "push_bit k 1 AND w \<noteq> 0 \<longleftrightarrow> k < 32 \<and> bit w k" for w :: natural_t
  by (auto simp: bit_eq_iff [where 'a = "32 word"] bit_simps)

lemma ffs_mask_lowest:
  assumes "lowest w r" "k \<le> r" "r - k < n"
  shows "ffs_mask n (push_bit k 1) k w = r"
  using assms(2,3)
proof (induction n arbitrary: k)
  case (Suc n)
  have k: "k < 32" using assms(1) Suc.prems(1) by (simp add: lowest_def)
  have nz: "push_bit k (1 :: natural_t) \<noteq> 0" using k by (auto simp: bit_eq_iff [where 'a = "32 word"] bit_simps)
  show ?case
  proof (cases "k = r")
    case True
    then show ?thesis using nz k assms(1) bit_test [of k w] by (simp add: lowest_def)
  next
    case False
    then have "\<not> bit w k" using assms(1) Suc.prems(1) by (simp add: lowest_def)
    moreover have "ffs_mask n (push_bit (Suc k) 1) (Suc k) w = r" using Suc.IH [of "Suc k"] Suc.prems False by (simp del: push_bit_of_1)
    moreover have "push_bit 1 (push_bit k 1) = (push_bit (Suc k) 1 :: natural_t)" by (simp only: push_bit_push_bit) simp
    ultimately show ?thesis using nz bit_test [of k w] by (simp del: push_bit_of_1 push_bit_push_bit)
  qed
qed simp

lemma ffsbit_lowest: "lowest w r \<Longrightarrow> ffsbit [w] = Some r"
  using ffs_mask_lowest [of w r 0 "INT_SIZE + 1"] by (auto simp: ffsbit_def lowest_def INT_SIZE_def)

lemma lowest_ex: "w \<noteq> 0 \<Longrightarrow> \<exists>r. lowest w r"
proof -
  assume "w \<noteq> 0"
  then have e: "\<exists>i. bit w i" by (auto simp: bit_eq_iff)
  have "bit w (LEAST i. bit w i)" using e by (rule LeastI_ex)
  moreover from this have "(LEAST i. bit w i) < 32" using bit_imp_le_length [of w] by force
  ultimately have "lowest w (LEAST i. bit w i)" using not_less_Least by (auto simp: lowest_def)
  then show ?thesis by blast
qed

lemma lowest_fun: "lowest w r \<Longrightarrow> lowest w r' \<Longrightarrow> r = r'"
  by (auto simp: lowest_def) (metis linorder_neqE_nat)

lemma bit_setbit: "i < 32 \<Longrightarrow> \<exists>w'. setbit i [w] = [w'] \<and> (\<forall>j<32. bit w' j \<longleftrightarrow> bit w j \<or> j = i)"
  by (auto simp: INT_SIZE_def bit_simps)

lemma bit_clrbit: "i < 32 \<Longrightarrow> \<exists>w'. clrbit i [w] = [w'] \<and> (\<forall>j<32. bit w' j \<longleftrightarrow> bit w j \<and> j \<noteq> i)"
  by (auto simp: INT_SIZE_def bit_simps)

subsection \<open>Well-formed run queues\<close>

definition runq_wf :: "run_queue \<Rightarrow> bool" where
  "runq_wf rq \<longleftrightarrow>
     length (rq_runq rq) = NRQS \<and> rq_runq rq ! nat IDLEPRI = [] \<and>
     rq_count rq = int (sum_list (map length (rq_runq rq))) \<and>
     rq_depress_count rq = int (length (rq_runq rq ! nat DEPRESSPRI)) \<and>
     (\<exists>w r. rq_bitmap rq = [w] \<and> (\<forall>i < NRQS. bit w i \<longleftrightarrow> rq_runq rq ! i \<noteq> [] \<or> i = nat IDLEPRI) \<and>
        lowest w r \<and> rq_low rq = int r)"

lemmas pri_consts = NRQS_def LPRI_def DEPRESSPRI_def MINPRI_def IDLEPRI_def

lemma count_update:
  "i < length qs \<Longrightarrow> int (sum_list (map length (qs[i := q]))) = int (sum_list (map length qs)) + int (length q) - int (length (qs ! i))"
proof -
  assume i: "i < length qs"
  have "length (qs ! i) \<le> sum_list (map length qs)" using i by (intro member_le_sum_list) auto
  then show ?thesis using i by (simp add: map_update sum_list_update)
qed

lemma wf_init: "runq_wf run_queue_init"
proof -
  have p: "(2147483648 :: natural_t) = push_bit 31 1" by simp
  have b: "bit (2147483648 :: natural_t) j \<longleftrightarrow> j = 31" if "j < 32" for j
    unfolding p using that by (simp only: bit_simps) auto
  then have l: "lowest 2147483648 31" by (simp add: lowest_def)
  have "bit (2147483648 :: natural_t) j \<longleftrightarrow> rq_runq run_queue_init ! j \<noteq> [] \<or> j = nat IDLEPRI" if "j < NRQS" for j
    using b [of j] that by (simp add: run_queue_init_def pri_consts)
  moreover have "rq_bitmap run_queue_init = [2147483648]" by (simp add: run_queue_init_def pri_consts INT_SIZE_def)
  ultimately have "\<exists>w r. rq_bitmap run_queue_init = [w] \<and>
      (\<forall>i < NRQS. bit w i \<longleftrightarrow> rq_runq run_queue_init ! i \<noteq> [] \<or> i = nat IDLEPRI) \<and>
      lowest w r \<and> rq_low run_queue_init = int r"
    using l by (intro exI [of _ 2147483648] exI [of _ 31]) (simp add: run_queue_init_def pri_consts)
  then show ?thesis unfolding runq_wf_def by (simp add: run_queue_init_def pri_consts map_replicate sum_list_replicate)
qed

lemma low_queue:
  assumes "runq_wf rq" "rq_count rq > 0"
  shows "rq_low rq < IDLEPRI \<and> 0 \<le> rq_low rq \<and> rq_runq rq ! nat (rq_low rq) \<noteq> [] \<and>
    (\<forall>j < nat (rq_low rq). rq_runq rq ! j = [])"
proof -
  obtain w r where w: "\<And>i. i < NRQS \<Longrightarrow> bit w i \<longleftrightarrow> rq_runq rq ! i \<noteq> [] \<or> i = nat IDLEPRI" "lowest w r" "rq_low rq = int r"
    using assms(1) by (auto simp: runq_wf_def)
  have "\<exists>q \<in> set (rq_runq rq). q \<noteq> []"
  proof (rule ccontr)
    assume "\<not> ?thesis"
    then have "sum_list (map length (rq_runq rq)) = 0" by (simp add: sum_list_eq_0_iff)
    then show False using assms unfolding runq_wf_def by linarith
  qed
  then obtain i where i: "i < NRQS" "rq_runq rq ! i \<noteq> []" using assms(1) by (auto simp: runq_wf_def in_set_conv_nth)
  then have "i < 31" using assms(1) by (cases "i = 31") (auto simp: runq_wf_def pri_consts)
  moreover have "bit w i" using i w by blast
  then have "r \<le> i" using w(2) by (auto simp: lowest_def not_less [symmetric])
  moreover have "bit w r" "\<And>j. j < r \<Longrightarrow> \<not> bit w j" using w(2) by (auto simp: lowest_def)
  ultimately show ?thesis using w(1) [of r] w(1) w(3) by (auto simp: pri_consts)
qed

lemma low_empty:
  assumes "runq_wf rq" "\<not> rq_count rq > 0"
  shows "rq_low rq = IDLEPRI \<and> (\<forall>i < NRQS. rq_runq rq ! i = [])"
proof -
  obtain w r where w: "\<And>i. i < NRQS \<Longrightarrow> bit w i \<longleftrightarrow> rq_runq rq ! i \<noteq> [] \<or> i = nat IDLEPRI" "lowest w r" "rq_low rq = int r"
    using assms(1) by (auto simp: runq_wf_def)
  have e: "\<forall>i < NRQS. rq_runq rq ! i = []" using assms by (auto simp: runq_wf_def sum_list_eq_0_iff)
  have "bit w i \<longleftrightarrow> i = 31" if "i < 32" for i using w(1) [of i] e that by (auto simp: pri_consts)
  then show ?thesis using e w(2,3) by (auto simp: lowest_def pri_consts)
qed

lemma wf_enqueue:
  assumes wf: "runq_wf rq" and i: "i \<le> 30" and q: "length q = Suc (length (rq_runq rq ! i))"
  shows "runq_wf (rq\<lparr>rq_runq := (rq_runq rq)[i := q], rq_bitmap := setbit i (rq_bitmap rq),
    rq_low := if int i < rq_low rq then int i else rq_low rq, rq_count := rq_count rq + 1,
    rq_depress_count := if int i = DEPRESSPRI then rq_depress_count rq + 1 else rq_depress_count rq\<rparr>)"
proof -
  obtain w r where w: "rq_bitmap rq = [w]" "\<And>j. j < NRQS \<Longrightarrow> bit w j \<longleftrightarrow> rq_runq rq ! j \<noteq> [] \<or> j = nat IDLEPRI"
    "lowest w r" "rq_low rq = int r" using wf by (auto simp: runq_wf_def)
  obtain w' where w': "setbit i [w] = [w']" "\<And>j. j < 32 \<Longrightarrow> bit w' j \<longleftrightarrow> bit w j \<or> j = i"
    using bit_setbit [of i w] i by force
  have "lowest w' (if i < r then i else r)" using w(3) i w'(2) by (auto simp: lowest_def)
  moreover have "q \<noteq> []" using q by auto
  moreover have "i < length (rq_runq rq)" using wf i by (simp add: runq_wf_def pri_consts)
  ultimately show ?thesis using wf i q w w' unfolding runq_wf_def
    by (auto simp: pri_consts count_update nth_list_update)
qed

lemma wf_remove:
  assumes wf: "runq_wf rq" and i: "i \<le> 30" and q: "length (rq_runq rq ! i) = Suc (length q)"
  shows "\<exists>rq'. rq_low_after i (rq\<lparr>rq_runq := (rq_runq rq)[i := q], rq_count := rq_count rq - 1,
      rq_depress_count := if int i = DEPRESSPRI then rq_depress_count rq - 1 else rq_depress_count rq\<rparr>) = Some rq' \<and>
    runq_wf rq' \<and> rq_runq rq' = (rq_runq rq)[i := q] \<and> rq_count rq' = rq_count rq - 1"
proof -
  obtain w r where w: "rq_bitmap rq = [w]" "\<And>j. j < NRQS \<Longrightarrow> bit w j \<longleftrightarrow> rq_runq rq ! j \<noteq> [] \<or> j = nat IDLEPRI"
    "lowest w r" "rq_low rq = int r" using wf by (auto simp: runq_wf_def)
  have len: "i < length (rq_runq rq)" using wf i by (simp add: runq_wf_def pri_consts)
  have ne: "rq_runq rq ! i \<noteq> []" using q by auto
  show ?thesis
  proof (cases "q = []")
    case True
    obtain w' where w': "clrbit i [w] = [w']" "\<And>j. j < 32 \<Longrightarrow> bit w' j \<longleftrightarrow> bit w j \<and> j \<noteq> i"
      using bit_clrbit [of i w] i by force
    have "bit w' 31" using w(2) [of 31] w'(2) i by (simp add: pri_consts)
    then obtain r' where r': "lowest w' r'" using lowest_ex [of w'] by fastforce
    then show ?thesis using True wf i q len ne w w' ffsbit_lowest [OF r'] unfolding runq_wf_def rq_low_after_def
      by (auto simp: pri_consts count_update nth_list_update Let_def)
  next
    case False
    then show ?thesis using wf i q len ne w unfolding runq_wf_def rq_low_after_def
      by (auto simp: pri_consts count_update nth_list_update Let_def)
  qed
qed

subsection \<open>The run queue and its threads\<close>

abbreviation ready :: "sched \<Rightarrow> nat \<Rightarrow> addr list" where
  "ready s i \<equiv> rq_runq (sc_rq s) ! i"

definition rq_ok :: "sched \<Rightarrow> bool" where
  "rq_ok s \<longleftrightarrow>
     runq_wf (sc_rq s) \<and> (\<forall>i < NRQS. distinct (ready s i)) \<and>
     (\<forall>th. runq (thread_of s th) \<longrightarrow>
        0 \<le> sched_pri (thread_of s th) \<and> sched_pri (thread_of s th) \<le> MINPRI \<and>
        whichq (thread_of s th) = sched_pri (thread_of s th)) \<and>
     (\<forall>th. \<forall>i < NRQS. th \<in> set (ready s i) \<longleftrightarrow> runq (thread_of s th) \<and> nat (sched_pri (thread_of s th)) = i)"

lemma rq_okD:
  assumes "rq_ok s"
  shows "runq_wf (sc_rq s)" "i < NRQS \<Longrightarrow> distinct (ready s i)"
    "runq (thread_of s th) \<Longrightarrow> 0 \<le> sched_pri (thread_of s th) \<and> sched_pri (thread_of s th) \<le> MINPRI"
    "runq (thread_of s th) \<Longrightarrow> whichq (thread_of s th) = sched_pri (thread_of s th)"
    "i < NRQS \<Longrightarrow> th \<in> set (ready s i) \<longleftrightarrow> runq (thread_of s th) \<and> nat (sched_pri (thread_of s th)) = i"
  using assms unfolding rq_ok_def by blast+

lemma set_thread_simps [simp]:
  "sc_threads (set_thread th f s) = (sc_threads s)(th := f (sc_threads s th))"
  "sc_rq (set_thread th f s) = sc_rq s" "sc_wait (set_thread th f s) = sc_wait s"
  "sc_timers (set_thread th f s) = sc_timers s" "sched_tick (set_thread th f s) = sched_tick s"
  "pr_state (set_thread th f s) = pr_state s" "pr_next (set_thread th f s) = pr_next s"
  "pr_idle (set_thread th f s) = pr_idle s" "pr_current (set_thread th f s) = pr_current s"
  "pr_idle_thread (set_thread th f s) = pr_idle_thread s" "sched_load (set_thread th f s) = sched_load s"
  by (simp_all add: set_thread_def)

lemma enqueue_spec:
  assumes ok: "rq_ok s" and off: "\<not> runq (thread_of s th)" and pri: "nat (sched_pri (thread_of s th)) = i"
    "0 \<le> sched_pri (thread_of s th)" "sched_pri (thread_of s th) \<le> MINPRI"
  shows "\<exists>R. let s' = set_thread th (\<lambda>t. t\<lparr>runq := True, whichq := sched_pri t\<rparr>) (s\<lparr>sc_rq := R\<rparr>) in
    run_queue_enqueue th tail s = Some (rq_count (sc_rq s), s') \<and> rq_ok s' \<and> rq_count R = rq_count (sc_rq s) + 1 \<and>
    (\<forall>j. ready s' j = (if j = i then if tail then ready s i @ [th] else th # ready s i else ready s j))"
proof -
  have i: "i \<le> 30" "int i = sched_pri (thread_of s th)" "i < NRQS" using pri by (auto simp: pri_consts)
  then have len: "i < length (rq_runq (sc_rq s))" using rq_okD(1) [OF ok] by (simp add: runq_wf_def)
  let ?q = "if tail then ready s i @ [th] else th # ready s i"
  let ?R = "(sc_rq s)\<lparr>rq_runq := (rq_runq (sc_rq s))[i := ?q], rq_bitmap := setbit i (rq_bitmap (sc_rq s)),
    rq_low := if int i < rq_low (sc_rq s) then int i else rq_low (sc_rq s), rq_count := rq_count (sc_rq s) + 1,
    rq_depress_count := if int i = DEPRESSPRI then rq_depress_count (sc_rq s) + 1 else rq_depress_count (sc_rq s)\<rparr>"
  let ?s = "set_thread th (\<lambda>t. t\<lparr>runq := True, whichq := sched_pri t\<rparr>) (s\<lparr>sc_rq := ?R\<rparr>)"
  have wf: "runq_wf ?R" by (rule wf_enqueue) (use rq_okD(1) [OF ok] i in auto)
  have new: "th \<notin> set (ready s j)" if "j < NRQS" for j using rq_okD(5) [OF ok that] off by simp
  have r: "ready ?s j = (if j = i then ?q else ready s j)" for j using len by simp
  have "rq_ok ?s"
    unfolding rq_ok_def r using wf pri new i rq_okD [OF ok] by (auto simp: rq_okD(5) [OF ok])
  moreover have "run_queue_enqueue th tail s = Some (rq_count (sc_rq s), ?s)"
    using i pri by (simp add: run_queue_enqueue_def Let_def set_thread_def fun_upd_def cong: if_cong)
  ultimately show ?thesis using r by (intro exI [of _ ?R]) (simp add: Let_def)
qed

lemma remove_spec:
  assumes ok: "rq_ok s" and on: "runq (thread_of s th)" and pri: "nat (sched_pri (thread_of s th)) = i"
  shows "\<exists>R. let s' = set_thread th (\<lambda>t. t\<lparr>runq := False\<rparr>) (s\<lparr>sc_rq := R\<rparr>) in
    rq_low_after i ((sc_rq s)\<lparr>rq_runq := (rq_runq (sc_rq s))[i := remove1 th (ready s i)], rq_count := rq_count (sc_rq s) - 1,
      rq_depress_count := if whichq (thread_of s th) = DEPRESSPRI then rq_depress_count (sc_rq s) - 1
        else rq_depress_count (sc_rq s)\<rparr>) = Some R \<and>
    rq_ok s' \<and> rq_count R = rq_count (sc_rq s) - 1 \<and>
    (\<forall>j. ready s' j = (if j = i then remove1 th (ready s i) else ready s j))"
proof -
  have i: "i \<le> 30" "int i = sched_pri (thread_of s th)" "i < NRQS" using pri rq_okD(3) [OF ok on] by (auto simp: pri_consts)
  have mem: "th \<in> set (ready s i)" using rq_okD(5) [OF ok i(3)] on pri by simp
  have len: "length (ready s i) = Suc (length (remove1 th (ready s i)))" 
    using mem length_pos_if_in_set [OF mem] by (simp add: length_remove1)
  obtain R where R: "rq_low_after i ((sc_rq s)\<lparr>rq_runq := (rq_runq (sc_rq s))[i := remove1 th (ready s i)],
      rq_count := rq_count (sc_rq s) - 1,
      rq_depress_count := if int i = DEPRESSPRI then rq_depress_count (sc_rq s) - 1 else rq_depress_count (sc_rq s)\<rparr>) = Some R"
    "runq_wf R" "rq_runq R = (rq_runq (sc_rq s))[i := remove1 th (ready s i)]" "rq_count R = rq_count (sc_rq s) - 1"
    using wf_remove [OF rq_okD(1) [OF ok] i(1) len] by blast
  let ?s = "set_thread th (\<lambda>t. t\<lparr>runq := False\<rparr>) (s\<lparr>sc_rq := R\<rparr>)"
  have r: "ready ?s j = (if j = i then remove1 th (ready s i) else ready s j)" for j
    using R(3) i(3) rq_okD(1) [OF ok] by (simp add: runq_wf_def)
  have d: "distinct (ready s i)" using rq_okD(2) [OF ok i(3)] .
  have "rq_ok ?s"
    unfolding rq_ok_def r using R(2) pri i d rq_okD [OF ok] by (auto simp: rq_okD(5) [OF ok] distinct_remove1)
  moreover have "whichq (thread_of s th) = int i" using rq_okD(4) [OF ok on] i(2) by simp
  ultimately show ?thesis using R(1,4) r by (intro exI [of _ R]) (simp add: Let_def)
qed

lemma rem_runq_spec:
  assumes ok: "rq_ok s" and on: "runq (thread_of s th)" and pri: "nat (sched_pri (thread_of s th)) = i"
  shows "\<exists>R. let s' = set_thread th (\<lambda>t. t\<lparr>runq := False\<rparr>) (s\<lparr>sc_rq := R\<rparr>) in
    rem_runq th s = Some (True, s') \<and> rq_ok s' \<and> rq_count R = rq_count (sc_rq s) - 1 \<and>
    (\<forall>j. ready s' j = (if j = i then remove1 th (ready s i) else ready s j))"
proof -
  have w: "nat (whichq (thread_of s th)) = i" using rq_okD(4) [OF ok on] pri by simp
  obtain R where R: "rq_low_after i ((sc_rq s)\<lparr>rq_runq := (rq_runq (sc_rq s))[i := remove1 th (ready s i)],
      rq_count := rq_count (sc_rq s) - 1,
      rq_depress_count := if whichq (thread_of s th) = DEPRESSPRI then rq_depress_count (sc_rq s) - 1
        else rq_depress_count (sc_rq s)\<rparr>) = Some R"
    "rq_ok (set_thread th (\<lambda>t. t\<lparr>runq := False\<rparr>) (s\<lparr>sc_rq := R\<rparr>))" "rq_count R = rq_count (sc_rq s) - 1"
    "\<And>j. ready (set_thread th (\<lambda>t. t\<lparr>runq := False\<rparr>) (s\<lparr>sc_rq := R\<rparr>)) j =
      (if j = i then remove1 th (ready s i) else ready s j)"
    using remove_spec [OF ok on pri] unfolding Let_def by blast
  have "rem_runq th s = Some (True, set_thread th (\<lambda>t. t\<lparr>runq := False\<rparr>) (s\<lparr>sc_rq := R\<rparr>))"
    using on R(1) by (simp add: rem_runq_def Let_def pri w)
  then show ?thesis unfolding Let_def using R(2-) by blast
qed

text \<open>\<open>choose_pset_thread\<close> takes the head of the first queue that is not empty.\<close>

lemma choose_spec:
  assumes ok: "rq_ok s" and some: "rq_count (sc_rq s) > 0"
  shows "\<exists>R i th q. let s' = set_thread th (\<lambda>t. t\<lparr>runq := False\<rparr>) (s\<lparr>sc_rq := R\<rparr>) in
    choose_pset_thread s = Some (Some th, s') \<and> rq_ok s' \<and> rq_count R = rq_count (sc_rq s) - 1 \<and>
    i < NRQS \<and> (\<forall>j < i. ready s j = []) \<and> ready s i = th # q \<and> rq_low (sc_rq s) = int i \<and>
    runq (thread_of s th) \<and> sched_pri (thread_of s th) = int i \<and>
    (\<forall>j. ready s' j = (if j = i then q else ready s j))"
proof -
  let ?i = "nat (rq_low (sc_rq s))"
  have low: "rq_low (sc_rq s) < IDLEPRI" "0 \<le> rq_low (sc_rq s)" "ready s ?i \<noteq> []" "\<And>j. j < ?i \<Longrightarrow> ready s j = []"
    using low_queue [OF rq_okD(1) [OF ok] some] by auto
  then have i: "?i < NRQS" by (simp add: pri_consts)
  obtain th q where q: "ready s ?i = th # q" using low(3) by (meson neq_Nil_conv)
  have th: "runq (thread_of s th)" "nat (sched_pri (thread_of s th)) = ?i" using rq_okD(5) [OF ok i, of th] q by simp_all
  have p: "sched_pri (thread_of s th) = int ?i" using th(2) rq_okD(3) [OF ok th(1)] low(2) by (simp add: eq_nat_nat_iff)
  have q': "remove1 th (ready s ?i) = q" using q by simp
  obtain R where R: "rq_low_after ?i ((sc_rq s)\<lparr>rq_runq := (rq_runq (sc_rq s))[?i := q], rq_count := rq_count (sc_rq s) - 1,
      rq_depress_count := if whichq (thread_of s th) = DEPRESSPRI then rq_depress_count (sc_rq s) - 1
        else rq_depress_count (sc_rq s)\<rparr>) = Some R"
    "rq_ok (set_thread th (\<lambda>t. t\<lparr>runq := False\<rparr>) (s\<lparr>sc_rq := R\<rparr>))" "rq_count R = rq_count (sc_rq s) - 1"
    "\<And>j. ready (set_thread th (\<lambda>t. t\<lparr>runq := False\<rparr>) (s\<lparr>sc_rq := R\<rparr>)) j = (if j = ?i then q else ready s j)"
    using remove_spec [OF ok th] unfolding Let_def q' by blast
  have "choose_pset_thread s = Some (Some th, set_thread th (\<lambda>t. t\<lparr>runq := False\<rparr>) (s\<lparr>sc_rq := R\<rparr>))"
    using some q R(1) by (simp add: choose_pset_thread_def Let_def)
  then show ?thesis unfolding Let_def using R(2-) i low(2,4) q th(1) p by (intro exI [of _ R] exI [of _ ?i] exI [of _ th] exI [of _ q]) simp
qed

end
