(* ===== verification/Sched_Place.thy ===== *)
theory Sched_Place
  imports Sched_Runq
begin

section \<open>Where runnable threads are\<close>

text \<open>
  A thread other than the running one is placed when it is on the run queue or the next thread of the dispatched
  processor.  \<open>thread_setrun\<close> places exactly the thread it is given, whichever of the two threads it compares it
  enqueues; the operations on priorities place and displace none.
\<close>

definition placed :: "sched \<Rightarrow> addr \<Rightarrow> bool" where
  "placed s th \<longleftrightarrow> runq (thread_of s th) \<or> pr_state s = PROCESSOR_DISPATCHING \<and> pr_next s = th"

definition pri_ok :: "thread \<Rightarrow> bool" where
  "pri_ok t \<longleftrightarrow> 0 \<le> sched_pri t \<and> sched_pri t \<le> MINPRI \<and> 0 \<le> priority t \<and> priority t \<le> MINPRI"

definition place_ok :: "sched \<Rightarrow> bool" where
  "place_ok s \<longleftrightarrow>
     rq_ok s \<and> (pr_idle s \<longleftrightarrow> pr_state s = PROCESSOR_IDLE) \<and>
     (pr_state s = PROCESSOR_DISPATCHING \<longrightarrow> \<not> runq (thread_of s (pr_next s))) \<and>
     \<not> placed s (pr_idle_thread s) \<and> (\<forall>th. th \<noteq> pr_idle_thread s \<longrightarrow> pri_ok (thread_of s th))"

lemma place_okD:
  assumes "place_ok s"
  shows "rq_ok s" "pr_idle s \<longleftrightarrow> pr_state s = PROCESSOR_IDLE"
    "pr_state s = PROCESSOR_DISPATCHING \<Longrightarrow> \<not> runq (thread_of s (pr_next s))"
    "\<not> placed s (pr_idle_thread s)" "th \<noteq> pr_idle_thread s \<Longrightarrow> pri_ok (thread_of s th)"
  using assms unfolding place_ok_def by blast+

text \<open>What no operation on run queues changes.\<close>

definition core :: "thread \<Rightarrow> natural_t \<times> addr \<times> wait_result_t \<times> bool \<times> addr \<times> addr \<times> int \<times> policy_t" where
  "core t = (th_state t, wait_event t, wait_result t, wake_active t, wake_event t, th_timer t, priority t, policy t)"

definition keeps :: "sched \<Rightarrow> sched \<Rightarrow> bool" where
  "keeps s s' \<longleftrightarrow>
     (\<forall>x. core (thread_of s' x) = core (thread_of s x)) \<and> sc_wait s' = sc_wait s \<and> sc_timers s' = sc_timers s \<and>
     pr_current s' = pr_current s \<and> pr_idle_thread s' = pr_idle_thread s \<and> sched_tick s' = sched_tick s \<and>
     (pr_state s' = PROCESSOR_RUNNING \<longleftrightarrow> pr_state s = PROCESSOR_RUNNING)"

lemma keeps_refl [simp]: "keeps s s"
  by (simp add: keeps_def)

lemma keeps_trans: "keeps s s' \<Longrightarrow> keeps s' s'' \<Longrightarrow> keeps s s''"
  by (simp add: keeps_def)

lemma keepsD:
  assumes "keeps s s'"
  shows "th_state (thread_of s' x) = th_state (thread_of s x)" "wait_event (thread_of s' x) = wait_event (thread_of s x)"
    "wait_result (thread_of s' x) = wait_result (thread_of s x)" "wake_active (thread_of s' x) = wake_active (thread_of s x)"
    "wake_event (thread_of s' x) = wake_event (thread_of s x)" "policy (thread_of s' x) = policy (thread_of s x)"
    "priority (thread_of s' x) = priority (thread_of s x)" "th_timer (thread_of s' x) = th_timer (thread_of s x)"
    "sc_wait s' = sc_wait s" "sc_timers s' = sc_timers s"
    "pr_current s' = pr_current s" "pr_idle_thread s' = pr_idle_thread s" "sched_tick s' = sched_tick s"
    "pr_state s' = PROCESSOR_RUNNING \<longleftrightarrow> pr_state s = PROCESSOR_RUNNING"
  using assms by (simp_all add: keeps_def core_def)

lemma setrun_place_spec:
  assumes ok: "place_ok s" and th: "th \<noteq> pr_idle_thread s" "\<not> placed s th"
  shows "\<exists>s'. setrun_place th may_preempt tail s = Some s' \<and> place_ok s' \<and> keeps s s' \<and>
    (\<forall>x. placed s' x \<longleftrightarrow> placed s x \<or> x = th)"
proof (cases "pr_idle s")
  case True
  let ?s = "s\<lparr>pr_idle := False, pr_next := th, pr_state := PROCESSOR_DISPATCHING\<rparr>"
  have st: "pr_state s = PROCESSOR_IDLE" using True place_okD(2) [OF ok] by simp
  have "rq_ok ?s" using place_okD(1) [OF ok] by (simp add: rq_ok_def)
  then have "place_ok ?s \<and> keeps s ?s \<and> (\<forall>x. placed ?s x \<longleftrightarrow> placed s x \<or> x = th)"
    using ok th st unfolding place_ok_def placed_def keeps_def by auto
  then show ?thesis using True by (simp add: setrun_place_def)
next
  case False
  have enq: "\<exists>s'. map_option snd (run_queue_enqueue x tail u) = Some s' \<and> place_ok s' \<and> keeps s s' \<and>
      (\<forall>y. placed s' y \<longleftrightarrow> placed s y \<or> y = th)"
    if u: "u = s\<lparr>pr_next := n, pr_first_quantum := b, pr_ast := c\<rparr>"
      and x: "x \<noteq> pr_idle_thread s" "\<not> runq (thread_of s x)"
      and n: "pr_state s = PROCESSOR_DISPATCHING \<longrightarrow> {x, n} = {th, pr_next s} \<and> x \<noteq> n"
             "pr_state s \<noteq> PROCESSOR_DISPATCHING \<longrightarrow> x = th" for x u n b c
  proof -
    have rq: "rq_ok u" using place_okD(1) [OF ok] by (simp add: rq_ok_def u)
    have pri: "0 \<le> sched_pri (thread_of u x)" "sched_pri (thread_of u x) \<le> MINPRI" "\<not> runq (thread_of u x)"
      using place_okD(5) [OF ok x(1)] x(2) by (simp_all add: u pri_ok_def)
    obtain R where R: "run_queue_enqueue x tail u =
        Some (rq_count (sc_rq u), set_thread x (\<lambda>t. t\<lparr>runq := True, whichq := sched_pri t\<rparr>) (u\<lparr>sc_rq := R\<rparr>))"
      "rq_ok (set_thread x (\<lambda>t. t\<lparr>runq := True, whichq := sched_pri t\<rparr>) (u\<lparr>sc_rq := R\<rparr>))"
      using enqueue_spec [OF rq pri(3) refl pri(1,2), of tail] unfolding Let_def by blast
    let ?s = "set_thread x (\<lambda>t. t\<lparr>runq := True, whichq := sched_pri t\<rparr>) (u\<lparr>sc_rq := R\<rparr>)"
    have p: "placed ?s y \<longleftrightarrow> placed s y \<or> y = th" for y
      using n th unfolding placed_def by (auto simp: u doubleton_eq_iff)
    have "place_ok ?s" using R(2) ok th n p unfolding place_ok_def
      by (auto simp: u pri_ok_def doubleton_eq_iff placed_def split: if_splits)
    moreover have "keeps s ?s" by (simp add: u keeps_def core_def)
    ultimately show ?thesis using R(1) p by simp
  qed
  have self: "s = s\<lparr>pr_next := pr_next s, pr_first_quantum := pr_first_quantum s, pr_ast := pr_ast s\<rparr>" by simp
  have off: "\<not> runq (thread_of s th)" "pr_state s = PROCESSOR_DISPATCHING \<longrightarrow> th \<noteq> pr_next s" using th(2) by (auto simp: placed_def)
  have nxt: "pr_next s \<noteq> pr_idle_thread s \<and> \<not> runq (thread_of s (pr_next s))" if "pr_state s = PROCESSOR_DISPATCHING"
    using place_okD(3,4) [OF ok] that by (auto simp: placed_def)
  consider (swap) "may_preempt" "pr_state s = PROCESSOR_DISPATCHING" "sched_pri (thread_of s (pr_next s)) > sched_pri (thread_of s th)"
    | (ast) "may_preempt" "pr_state s \<noteq> PROCESSOR_DISPATCHING" "sched_pri (thread_of s (pr_current s)) > sched_pri (thread_of s th)"
    | (plain) "\<not> (may_preempt \<and> sched_pri (thread_of s (if pr_state s = PROCESSOR_DISPATCHING then pr_next s else pr_current s))
          > sched_pri (thread_of s th))"
    by (cases "pr_state s = PROCESSOR_DISPATCHING") auto
  then show ?thesis
  proof cases
    case swap
    then have "setrun_place th may_preempt tail s = map_option snd (run_queue_enqueue (pr_next s) tail (s\<lparr>pr_next := th\<rparr>))"
      using False by (simp add: setrun_place_def Let_def)
    then show ?thesis using enq [where u = "s\<lparr>pr_next := th\<rparr>" and n = th and b = "pr_first_quantum s" and c = "pr_ast s" and x = "pr_next s"] nxt swap off by auto
  next
    case ast
    then have "setrun_place th may_preempt tail s =
        map_option snd (run_queue_enqueue th tail (s\<lparr>pr_first_quantum := False, pr_ast := True\<rparr>))"
      using False by (simp add: setrun_place_def Let_def)
    then show ?thesis using enq [where u = "s\<lparr>pr_first_quantum := False, pr_ast := True\<rparr>" and n = "pr_next s" and b = False and c = True and x = th] ast off th(1) by auto
  next
    case plain
    then have p: "setrun_place th may_preempt tail s = map_option snd (run_queue_enqueue th tail s)"
      using False by (auto simp: setrun_place_def Let_def)
    show ?thesis unfolding p using enq [OF self th(1) off(1)] off by auto
  qed
qed

lemma set_thread_place:
  assumes ok: "place_ok s" and f: "runq (f (thread_of s th)) = runq (thread_of s th)"
    "runq (thread_of s th) \<Longrightarrow> sched_pri (f (thread_of s th)) = sched_pri (thread_of s th)"
    "runq (thread_of s th) \<Longrightarrow> whichq (f (thread_of s th)) = whichq (thread_of s th)"
    "th \<noteq> pr_idle_thread s \<Longrightarrow> pri_ok (f (thread_of s th))"
  shows "place_ok (set_thread th f s)" "placed (set_thread th f s) x = placed s x"
proof -
  show p: "placed (set_thread th f s) x = placed s x" for x using f(1) by (auto simp: placed_def)
  have "rq_ok (set_thread th f s)" unfolding rq_ok_def
    using rq_okD [OF place_okD(1) [OF ok]] f(1-3) by auto
  then show "place_ok (set_thread th f s)" using ok f p unfolding place_ok_def by (auto simp: placed_def)
qed

lemma rem_place:
  assumes ok: "place_ok s" and on: "runq (thread_of s th)"
  shows "\<exists>s'. rem_runq th s = Some (True, s') \<and> place_ok s' \<and> keeps s s' \<and> (\<forall>x. placed s' x \<longleftrightarrow> placed s x \<and> x \<noteq> th) \<and>
    (\<forall>x. thread_of s' x = (if x = th then (thread_of s th)\<lparr>runq := False\<rparr> else thread_of s x))"
proof -
  obtain R where R: "rem_runq th s = Some (True, set_thread th (\<lambda>t. t\<lparr>runq := False\<rparr>) (s\<lparr>sc_rq := R\<rparr>))"
    "rq_ok (set_thread th (\<lambda>t. t\<lparr>runq := False\<rparr>) (s\<lparr>sc_rq := R\<rparr>))"
    using rem_runq_spec [OF place_okD(1) [OF ok] on refl] unfolding Let_def by blast
  let ?s = "set_thread th (\<lambda>t. t\<lparr>runq := False\<rparr>) (s\<lparr>sc_rq := R\<rparr>)"
  have p: "placed ?s x \<longleftrightarrow> placed s x \<and> x \<noteq> th" for x
    using on place_okD(3) [OF ok] by (auto simp: placed_def)
  have "place_ok ?s" using R(2) ok p unfolding place_ok_def by (auto simp: pri_ok_def)
  moreover have "keeps s ?s" by (simp add: keeps_def core_def)
  ultimately show ?thesis using R(1) p by simp
qed

lemma age_simps [simp]:
  "core (age load tick t) = core t" "runq (age load tick t) = runq t" "whichq (age load tick t) = whichq t"
  "sched_pri (age load tick t) = sched_pri t" "priority (age load tick t) = priority t"
  "depress_priority (age load tick t) = depress_priority t" "pri_ok (age load tick t) = pri_ok t"
  by (simp_all add: age_def thread_timer_delta_def core_def pri_ok_def Let_def)

lemma computed_range: "0 \<le> priority t \<Longrightarrow> 0 \<le> do_priority_computation t \<and> do_priority_computation t \<le> LPRI"
  by (simp add: do_priority_computation_def Let_def pri_consts)

lemma computed_ok: "pri_ok t \<Longrightarrow> pri_ok (t\<lparr>sched_pri := do_priority_computation t\<rparr>)"
  using computed_range [of t] by (simp add: pri_ok_def pri_consts)

text \<open>Changing the priority of a thread: it is taken off the run queue first, and put back by the caller.\<close>

lemma repri_place:
  assumes ok: "place_ok s" and th: "th \<noteq> pr_idle_thread s" and pri: "0 \<le> pri" "pri \<le> MINPRI"
  shows "\<exists>s'. rem_runq th s = Some (runq (thread_of s th), s') \<and>
    (let u = set_thread th (\<lambda>t. t\<lparr>sched_pri := pri\<rparr>) s' in
     place_ok u \<and> keeps s u \<and> (\<forall>x. placed u x \<longleftrightarrow> placed s x \<and> \<not> (x = th \<and> runq (thread_of s th))) \<and>
     \<not> runq (thread_of u th) \<and> sched_stamp (thread_of u th) = sched_stamp (thread_of s th))"
proof -
  obtain s' where s': "rem_runq th s = Some (runq (thread_of s th), s')" "place_ok s'" "keeps s s'"
    "\<And>x. placed s' x \<longleftrightarrow> placed s x \<and> \<not> (x = th \<and> runq (thread_of s th))" "\<not> runq (thread_of s' th)"
    "sched_stamp (thread_of s' th) = sched_stamp (thread_of s th)"
  proof (cases "runq (thread_of s th)")
    case True
    then show ?thesis using rem_place [OF ok True] that by (auto simp: if_splits)
  next
    case False
    then have "rem_runq th s = Some (False, s)" by (simp add: rem_runq_def)
    then show ?thesis using that [of s] ok False by simp
  qed
  have t: "th \<noteq> pr_idle_thread s'" using th keepsD(12) [OF s'(3)] by simp
  let ?u = "set_thread th (\<lambda>t. t\<lparr>sched_pri := pri\<rparr>) s'"
  have q: "pri_ok ((thread_of s' th)\<lparr>sched_pri := pri\<rparr>)" using place_okD(5) [OF s'(2) t] pri by (simp add: pri_ok_def)
  have "place_ok ?u" "placed ?u x = placed s' x" for x
    using set_thread_place [OF s'(2), of "\<lambda>t. t\<lparr>sched_pri := pri\<rparr>" th] s'(5) q by simp_all
  moreover have "keeps s ?u" using s'(3) by (simp add: keeps_def core_def)
  ultimately show ?thesis using s' by (intro exI [of _ s']) (simp add: Let_def)
qed

lemma update_priority_spec:
  assumes ok: "place_ok s" and th: "th \<noteq> pr_idle_thread s"
  shows "\<exists>s'. update_priority th s = Some s' \<and> place_ok s' \<and> keeps s s' \<and> (\<forall>x. placed s' x \<longleftrightarrow> placed s x)"
proof -
  let ?s = "set_thread th (age (sched_load s) (sched_tick s)) s" let ?t = "thread_of ?s th"
  let ?p = "do_priority_computation ?t"
  have ok': "place_ok ?s" "\<And>x. placed ?s x = placed s x"
    using set_thread_place [OF ok, of "age (sched_load s) (sched_tick s)" th] place_okD(5) [OF ok th] by simp_all
  have k: "keeps s ?s" by (simp add: keeps_def)
  have th': "th \<noteq> pr_idle_thread ?s" using th by simp
  show ?thesis
  proof (cases "policy ?t = POLICY_TIMESHARE \<and> depress_priority ?t < 0")
    case False
    then have "update_priority th s = Some ?s" unfolding update_priority_def Let_def by (rule if_not_P)
    then show ?thesis using ok' k by blast
  next
    case True
    have p: "0 \<le> ?p" "?p \<le> MINPRI" using computed_range [of ?t] place_okD(5) [OF ok' (1) th'] by (simp_all add: pri_ok_def pri_consts)
    obtain u where u: "rem_runq th ?s = Some (runq ?t, u)" "place_ok (set_thread th (\<lambda>t. t\<lparr>sched_pri := ?p\<rparr>) u)"
      "keeps ?s (set_thread th (\<lambda>t. t\<lparr>sched_pri := ?p\<rparr>) u)"
      "\<And>x. placed (set_thread th (\<lambda>t. t\<lparr>sched_pri := ?p\<rparr>) u) x \<longleftrightarrow> placed ?s x \<and> \<not> (x = th \<and> runq ?t)"
      using repri_place [OF ok' (1) th' p] unfolding Let_def by blast
    let ?u = "set_thread th (\<lambda>t. t\<lparr>sched_pri := ?p\<rparr>) u"
    have e: "update_priority th s = (if runq ?t then setrun_place th True True ?u else Some ?u)"
      using True u(1) by (simp add: update_priority_def Let_def del: set_thread_simps)
    show ?thesis
    proof (cases "runq ?t")
      case True
      have "th \<noteq> pr_idle_thread ?u" using th keepsD(12) [OF u(3)] by simp
      moreover have "\<not> placed ?u th" using u(4) True by simp
      ultimately obtain s' where s': "setrun_place th True True ?u = Some s'" "place_ok s'" "keeps ?u s'"
        "\<And>x. placed s' x \<longleftrightarrow> placed ?u x \<or> x = th" using setrun_place_spec [OF u(2)] by blast
      have "placed ?s th" using True by (simp add: placed_def)
      then have "placed s' x \<longleftrightarrow> placed s x" for x using s'(4) u(4) ok'(2) by blast
      then show ?thesis using e True s' keeps_trans [OF k keeps_trans [OF u(3) s'(3)]] by simp
    next
      case False
      then show ?thesis using e u(2,4) ok'(2) keeps_trans [OF k u(3)] by auto
    qed
  qed
qed

lemma thread_setrun_spec:
  assumes ok: "place_ok s" and th: "th \<noteq> pr_idle_thread s" "\<not> placed s th"
  shows "\<exists>s'. thread_setrun th may_preempt tail s = Some s' \<and> place_ok s' \<and> keeps s s' \<and>
    (\<forall>x. placed s' x \<longleftrightarrow> placed s x \<or> x = th)"
proof -
  obtain u where u: "(if sched_stamp (thread_of s th) \<noteq> sched_tick s then update_priority th s else Some s) = Some u"
    "place_ok u" "keeps s u" "\<And>x. placed u x \<longleftrightarrow> placed s x"
    using update_priority_spec [OF ok th(1)] ok by (cases "sched_stamp (thread_of s th) = sched_tick s") auto
  have "\<exists>s'. setrun_place th may_preempt tail u = Some s' \<and> place_ok s' \<and> keeps u s' \<and> (\<forall>x. placed s' x \<longleftrightarrow> placed u x \<or> x = th)"
    by (rule setrun_place_spec) (use u th keepsD(12) [OF u(3)] in auto)
  then show ?thesis using u keeps_trans [OF u(3)] by (auto simp: thread_setrun_def)
qed

lemma set_pri_spec:
  assumes ok: "place_ok s" and th: "th \<noteq> pr_idle_thread s" and pri: "0 \<le> pri" "pri \<le> MINPRI"
  shows "\<exists>s'. set_pri th pri resched s = Some s' \<and> place_ok s' \<and> keeps s s' \<and> (\<forall>x. placed s' x \<longleftrightarrow> placed s x)"
proof -
  obtain u where u: "rem_runq th s = Some (runq (thread_of s th), u)" "place_ok (set_thread th (\<lambda>t. t\<lparr>sched_pri := pri\<rparr>) u)"
    "keeps s (set_thread th (\<lambda>t. t\<lparr>sched_pri := pri\<rparr>) u)"
    "\<And>x. placed (set_thread th (\<lambda>t. t\<lparr>sched_pri := pri\<rparr>) u) x \<longleftrightarrow> placed s x \<and> \<not> (x = th \<and> runq (thread_of s th))"
    "\<not> runq (thread_of (set_thread th (\<lambda>t. t\<lparr>sched_pri := pri\<rparr>) u) th)"
    using repri_place [OF ok th pri] unfolding Let_def by blast
  let ?u = "set_thread th (\<lambda>t. t\<lparr>sched_pri := pri\<rparr>) u"
  have e: "set_pri th pri resched s = (if \<not> runq (thread_of s th) then Some ?u else
      if resched then thread_setrun th True True ?u else map_option snd (run_queue_enqueue th True ?u))"
    using u(1) by (simp add: set_pri_def Let_def del: set_thread_simps)
  have id: "th \<noteq> pr_idle_thread ?u" using th keepsD(12) [OF u(3)] by simp
  show ?thesis
  proof (cases "runq (thread_of s th)")
    case False
    then show ?thesis using e u(2-4) by auto
  next
    case True
    have off: "\<not> placed ?u th" using u(4) True by simp
    have on: "placed s th" using True by (simp add: placed_def)
    have "\<exists>s'. set_pri th pri resched s = Some s' \<and> place_ok s' \<and> keeps ?u s' \<and> (\<forall>x. placed s' x \<longleftrightarrow> placed ?u x \<or> x = th)"
    proof (cases resched)
      case True
      then show ?thesis using e thread_setrun_spec [OF u(2) id off, of True True] \<open>runq (thread_of s th)\<close> by simp
    next
      case False
      have q: "0 \<le> sched_pri (thread_of ?u th)" "sched_pri (thread_of ?u th) \<le> MINPRI" using pri by simp_all
      obtain R where R: "run_queue_enqueue th True ?u =
          Some (rq_count (sc_rq ?u), set_thread th (\<lambda>t. t\<lparr>runq := True, whichq := sched_pri t\<rparr>) (?u\<lparr>sc_rq := R\<rparr>))"
        "rq_ok (set_thread th (\<lambda>t. t\<lparr>runq := True, whichq := sched_pri t\<rparr>) (?u\<lparr>sc_rq := R\<rparr>))"
        using enqueue_spec [OF place_okD(1) [OF u(2)] u(5) refl q, of True] unfolding Let_def by blast
      let ?s = "set_thread th (\<lambda>t. t\<lparr>runq := True, whichq := sched_pri t\<rparr>) (?u\<lparr>sc_rq := R\<rparr>)"
      have p: "placed ?s x \<longleftrightarrow> placed ?u x \<or> x = th" for x by (auto simp: placed_def)
      have "place_ok ?s" using R(2) u(2) id off p unfolding place_ok_def by (auto simp: pri_ok_def placed_def)
      moreover have "keeps ?u ?s" by (simp add: keeps_def core_def)
      ultimately show ?thesis using e False True R(1) p by simp
    qed
    then show ?thesis using keeps_trans [OF u(3)] u(4) on by blast
  qed
qed

lemma compute_priority_spec:
  assumes ok: "place_ok s" and th: "th \<noteq> pr_idle_thread s"
  shows "\<exists>s'. compute_priority th resched s = Some s' \<and> place_ok s' \<and> keeps s s' \<and> (\<forall>x. placed s' x \<longleftrightarrow> placed s x)"
proof -
  let ?t = "thread_of s th"
  have p: "pri_ok ?t" by (rule place_okD(5) [OF ok th])
  have c: "0 \<le> do_priority_computation ?t" "do_priority_computation ?t \<le> MINPRI" "0 \<le> priority ?t" "priority ?t \<le> MINPRI"
    using computed_range [of ?t] p by (simp_all add: pri_ok_def pri_consts)
  let ?u = "set_thread th (\<lambda>t. t\<lparr>depress_priority := do_priority_computation ?t\<rparr>) s"
  have "place_ok ?u" "placed ?u x = placed s x" for x
    using set_thread_place [OF ok, of "\<lambda>t. t\<lparr>depress_priority := do_priority_computation ?t\<rparr>" th] p by (simp_all add: pri_ok_def)
  moreover have "keeps s ?u" by (simp add: keeps_def core_def)
  ultimately show ?thesis
    using set_pri_spec [OF ok th c(1,2)] set_pri_spec [OF ok th c(3,4)] by (simp add: compute_priority_def Let_def)
qed

text \<open>\<open>choose_pset_thread\<close> displaces the thread it returns, or idles the running processor.\<close>

lemma choose_place:
  assumes ok: "place_ok s"
  shows "\<exists>r s'. choose_pset_thread s = Some (r, s') \<and> place_ok s' \<and> keeps (s\<lparr>pr_state := pr_state s'\<rparr>) s' \<and>
    (\<forall>x. placed s' x \<longleftrightarrow> placed s x \<and> r \<noteq> Some x) \<and> (\<forall>th. r = Some th \<longrightarrow> runq (thread_of s th)) \<and>
    pr_next s' = pr_next s \<and>
    pr_state s' = (if r = None \<and> pr_state s = PROCESSOR_RUNNING then PROCESSOR_IDLE else pr_state s)"
proof (cases "rq_count (sc_rq s) > 0")
  case True
  obtain R i th q where R: "choose_pset_thread s = Some (Some th, set_thread th (\<lambda>t. t\<lparr>runq := False\<rparr>) (s\<lparr>sc_rq := R\<rparr>))"
    "rq_ok (set_thread th (\<lambda>t. t\<lparr>runq := False\<rparr>) (s\<lparr>sc_rq := R\<rparr>))" "runq (thread_of s th)"
    using choose_spec [OF place_okD(1) [OF ok] True] unfolding Let_def by blast
  let ?s = "set_thread th (\<lambda>t. t\<lparr>runq := False\<rparr>) (s\<lparr>sc_rq := R\<rparr>)"
  have p: "placed ?s x \<longleftrightarrow> placed s x \<and> Some th \<noteq> Some x" for x
    using R(3) place_okD(3) [OF ok] by (auto simp: placed_def)
  have "place_ok ?s" using R(2) ok p unfolding place_ok_def by (auto simp: pri_ok_def)
  moreover have "keeps (s\<lparr>pr_state := pr_state ?s\<rparr>) ?s" by (simp add: keeps_def core_def)
  ultimately show ?thesis using R(1,3) p by simp
next
  case False
  let ?s = "s\<lparr>pr_state := PROCESSOR_IDLE, pr_idle := True\<rparr>"
  have e: "choose_pset_thread s = Some (None, if pr_state s = PROCESSOR_RUNNING then ?s else s)"
    using False by (simp add: choose_pset_thread_def Let_def)
  have "rq_ok ?s" using place_okD(1) [OF ok] by (simp add: rq_ok_def)
  then have "place_ok ?s" "placed ?s x = placed s x" if "pr_state s = PROCESSOR_RUNNING" for x
    using ok that unfolding place_ok_def by (auto simp: placed_def)
  moreover have "keeps (s\<lparr>pr_state := pr_state ?s\<rparr>) ?s" "keeps (s\<lparr>pr_state := pr_state s\<rparr>) s" by (simp_all add: keeps_def)
  ultimately show ?thesis using e ok by simp
qed

end
