(* ===== verification/Sched_Wait.thy ===== *)
theory Sched_Wait
  imports Sched_Place
begin

section \<open>Waiting and waking\<close>

text \<open>
  The states of threads as bits, the invariant that ties the run bit of a thread to its place and the wait queues to the
  events threads wait for, and what each operation on waits does under it.
\<close>

subsection \<open>The bits of a thread's state\<close>

named_theorems state_bits \<open>the bits of the thread states\<close>

lemma state_consts [state_bits]:
  "TH_WAIT = push_bit 0 1" "TH_SUSP = push_bit 1 1" "TH_RUN = push_bit 2 1" "TH_UNINT = push_bit 3 1"
  "TH_ABORT = push_bit 5 1" "TH_IDLE = push_bit 7 1"
  by (simp_all add: TH_WAIT_def TH_SUSP_def TH_RUN_def TH_UNINT_def TH_ABORT_def TH_IDLE_def)

lemma bit_state [simp]:
  "bit TH_WAIT n \<longleftrightarrow> n = 0" "bit TH_SUSP n \<longleftrightarrow> n = 1" "bit TH_RUN n \<longleftrightarrow> n = 2" "bit TH_UNINT n \<longleftrightarrow> n = 3"
  "bit TH_ABORT n \<longleftrightarrow> n = 5" "bit TH_IDLE n \<longleftrightarrow> n = 7"
  unfolding state_consts by (auto simp: bit_simps simp del: push_bit_of_1)

abbreviation "th_waits t \<equiv> bit (th_state t) 0"
abbreviation "th_susp t \<equiv> bit (th_state t) 1"
abbreviation "th_runs t \<equiv> bit (th_state t) 2"
abbreviation "th_unint t \<equiv> bit (th_state t) 3"
abbreviation "th_abort t \<equiv> bit (th_state t) 5"
abbreviation "th_idles t \<equiv> bit (th_state t) 7"

lemma and_push: "n < 32 \<Longrightarrow> w AND push_bit n 1 = 0 \<longleftrightarrow> \<not> bit w n" for w :: natural_t
  using bit_test [of n w] by (simp only: and.commute [of w]) blast

lemma test_bits [simp]:
  "w AND TH_WAIT = 0 \<longleftrightarrow> \<not> bit w 0" "w AND TH_SUSP = 0 \<longleftrightarrow> \<not> bit w 1" "w AND TH_RUN = 0 \<longleftrightarrow> \<not> bit w 2"
  "w AND TH_UNINT = 0 \<longleftrightarrow> \<not> bit w 3" "w AND TH_ABORT = 0 \<longleftrightarrow> \<not> bit w 5"
  unfolding state_consts by (rule and_push, simp)+

lemma masked_eq:
  fixes w m c :: natural_t
  shows "w AND m = c \<longleftrightarrow> (\<forall>n. bit m n \<longrightarrow> bit w n = bit c n) \<and> (\<forall>n. bit c n \<longrightarrow> bit m n)"
proof -
  have "w AND m = c \<longleftrightarrow> (\<forall>n. bit (w AND m) n = bit c n)" by (metis bit_word_eqI)
  then show ?thesis by (auto simp: bit_and_iff)
qed

lemma sched_state_cases:
  "w AND TH_SCHED_STATE \<in> set wake_states \<longleftrightarrow> bit w 0 \<and> \<not> bit w 2 \<and> (bit w 1 \<longrightarrow> bit w 3)"
  "w AND TH_SCHED_STATE \<in> set clear_states \<longleftrightarrow> bit w 0 \<and> (bit w 2 \<or> bit w 1 \<and> \<not> bit w 3)"
  by (auto simp: wake_states_def clear_states_def masked_eq TH_SCHED_STATE_def bit_or_iff)

lemma dispatch_cases:
  defines "M \<equiv> TH_RUN OR TH_WAIT OR TH_UNINT OR TH_IDLE"
  shows "w AND M = TH_RUN OR TH_UNINT \<or> w AND M = TH_RUN \<longleftrightarrow> bit w 2 \<and> \<not> bit w 0 \<and> \<not> bit w 7"
    "w AND M = TH_RUN OR TH_WAIT OR TH_UNINT \<or> w AND M = TH_RUN OR TH_WAIT \<longleftrightarrow> bit w 2 \<and> bit w 0 \<and> \<not> bit w 7"
    "w AND M = TH_WAIT \<longleftrightarrow> bit w 0 \<and> \<not> bit w 2 \<and> \<not> bit w 3 \<and> \<not> bit w 7"
    "w AND M = TH_RUN OR TH_IDLE \<longleftrightarrow> bit w 2 \<and> bit w 7 \<and> \<not> bit w 0 \<and> \<not> bit w 3"
  by (auto simp: masked_eq M_def bit_or_iff)

lemma unstop_case: "w AND (TH_RUN OR TH_WAIT OR TH_SUSP) = TH_SUSP \<longleftrightarrow> bit w 1 \<and> \<not> bit w 2 \<and> \<not> bit w 0"
  by (auto simp: masked_eq bit_or_iff)

lemma run_state: "w = TH_RUN \<Longrightarrow> bit w 2 \<and> \<not> bit w 0 \<and> \<not> bit w 7"
  by simp

subsection \<open>Invariants\<close>

text \<open>
  The run bit says whether a thread is running or placed; the idle thread runs when the processor does not.  A thread
  that is placed waits for no event: it could not be on the run queue and on a wait queue, which both use its \<open>links\<close>.
\<close>

definition no_wait :: "thread \<Rightarrow> bool" where
  "no_wait t \<longleftrightarrow> wait_event t = NO_EVENT \<or> wait_event t = WAKING_EVENT"

definition run_ok :: "sched \<Rightarrow> bool" where
  "run_ok s \<longleftrightarrow>
     place_ok s \<and> \<not> placed s (pr_current s) \<and> th_state (thread_of s (pr_idle_thread s)) = TH_RUN OR TH_IDLE \<and>
     (pr_current s = pr_idle_thread s \<longleftrightarrow> pr_state s \<noteq> PROCESSOR_RUNNING) \<and>
     (\<forall>th. th \<noteq> pr_idle_thread s \<longrightarrow>
        (th_runs (thread_of s th) \<longleftrightarrow> th = pr_current s \<or> placed s th) \<and> \<not> th_idles (thread_of s th)) \<and>
     (\<forall>th. placed s th \<longrightarrow> no_wait (thread_of s th))"

lemma run_okD:
  assumes "run_ok s"
  shows "place_ok s" "\<not> placed s (pr_current s)" "th_state (thread_of s (pr_idle_thread s)) = TH_RUN OR TH_IDLE"
    "pr_current s = pr_idle_thread s \<longleftrightarrow> pr_state s \<noteq> PROCESSOR_RUNNING"
    "th \<noteq> pr_idle_thread s \<Longrightarrow> th_runs (thread_of s th) \<longleftrightarrow> th = pr_current s \<or> placed s th"
    "th \<noteq> pr_idle_thread s \<Longrightarrow> \<not> th_idles (thread_of s th)"
    "placed s th \<Longrightarrow> no_wait (thread_of s th)"
  using assms unfolding run_ok_def by blast+

definition wq_ok :: "sched \<Rightarrow> bool" where
  "wq_ok s \<longleftrightarrow>
     length (sc_wait s) = NUMQUEUES \<and>
     (\<forall>i < NUMQUEUES. distinct (sc_wait s ! i) \<and>
        (\<forall>th. th \<in> set (sc_wait s ! i) \<longleftrightarrow> wait_event (thread_of s th) \<noteq> NO_EVENT \<and>
           wait_event (thread_of s th) \<noteq> WAKING_EVENT \<and> wait_hash (wait_event (thread_of s th)) = i)) \<and>
     (\<forall>th. wait_event (thread_of s th) \<noteq> NO_EVENT \<longrightarrow> th_waits (thread_of s th))"

lemma wq_okD:
  assumes "wq_ok s"
  shows "length (sc_wait s) = NUMQUEUES" "i < NUMQUEUES \<Longrightarrow> distinct (sc_wait s ! i)"
    "i < NUMQUEUES \<Longrightarrow> th \<in> set (sc_wait s ! i) \<longleftrightarrow> wait_event (thread_of s th) \<noteq> NO_EVENT \<and>
       wait_event (thread_of s th) \<noteq> WAKING_EVENT \<and> wait_hash (wait_event (thread_of s th)) = i"
    "wait_event (thread_of s th) \<noteq> NO_EVENT \<Longrightarrow> th_waits (thread_of s th)"
  using assms unfolding wq_ok_def by blast+

lemma hash_less [simp]: "wait_hash event < NUMQUEUES"
  by (simp add: wait_hash_def NUMQUEUES_def)

definition sched_ok :: "sched \<Rightarrow> bool" where
  "sched_ok s \<longleftrightarrow> run_ok s \<and> wq_ok s \<and> (\<forall>th. wait_event (thread_of s th) \<noteq> WAKING_EVENT)"

lemma run_ok_keeps:
  "run_ok s \<Longrightarrow> keeps s s' \<Longrightarrow> place_ok s' \<Longrightarrow> (\<And>x. placed s' x \<longleftrightarrow> placed s x) \<Longrightarrow> run_ok s'"
  unfolding run_ok_def no_wait_def by (simp add: keepsD)

lemma wq_ok_core:
  "wq_ok s \<Longrightarrow> sc_wait s' = sc_wait s \<Longrightarrow>
   (\<And>x. wait_event (thread_of s' x) = wait_event (thread_of s x)) \<Longrightarrow>
   (\<And>x. th_waits (thread_of s' x) = th_waits (thread_of s x)) \<Longrightarrow> wq_ok s'"
  by (simp add: wq_ok_def)

lemma sched_ok_keeps:
  "sched_ok s \<Longrightarrow> keeps s s' \<Longrightarrow> place_ok s' \<Longrightarrow> (\<And>x. placed s' x \<longleftrightarrow> placed s x) \<Longrightarrow> sched_ok s'"
  unfolding sched_ok_def using run_ok_keeps [of s s'] wq_ok_core [of s s'] by (simp add: keepsD)

text \<open>A change of a thread that touches neither its place nor its run bit.\<close>

lemma run_ok_thread:
  assumes ok: "run_ok s" and f: "runq (f (thread_of s th)) = runq (thread_of s th)"
    "whichq (f (thread_of s th)) = whichq (thread_of s th)" "sched_pri (f (thread_of s th)) = sched_pri (thread_of s th)"
    "priority (f (thread_of s th)) = priority (thread_of s th)"
    "th_runs (f (thread_of s th)) = th_runs (thread_of s th)" "th_idles (f (thread_of s th)) = th_idles (thread_of s th)"
    "th = pr_idle_thread s \<Longrightarrow> th_state (f (thread_of s th)) = th_state (thread_of s th)"
    "placed s th \<longrightarrow> no_wait (thread_of s th) \<longrightarrow> no_wait (f (thread_of s th))"
  shows "run_ok (set_thread th f s)"
proof -
  have "th \<noteq> pr_idle_thread s \<Longrightarrow> pri_ok (f (thread_of s th))"
    using place_okD(5) [OF run_okD(1) [OF ok]] f by (simp add: pri_ok_def)
  then have p: "place_ok (set_thread th f s)" "\<And>x. placed (set_thread th f s) x = placed s x"
    using set_thread_place [OF run_okD(1) [OF ok], of f th] f by blast+
  have "th_runs (thread_of (set_thread th f s) x) = th_runs (thread_of s x)"
    "th_idles (thread_of (set_thread th f s) x) = th_idles (thread_of s x)" for x using f(5,6) by simp_all
  moreover have "th_state (thread_of (set_thread th f s) (pr_idle_thread s)) = TH_RUN OR TH_IDLE"
    using f(7) run_okD(3) [OF ok] by (cases "th = pr_idle_thread s") simp_all
  moreover have "placed s x \<longrightarrow> no_wait (thread_of (set_thread th f s) x)" for x
    using f(8) run_okD(7) [OF ok] by auto
  ultimately show ?thesis using p run_okD [OF ok] unfolding run_ok_def by (simp del: set_thread_simps(1))
qed

text \<open>What the operations on waits do not change.\<close>

definition others :: "sched \<Rightarrow> sched \<Rightarrow> bool" where
  "others s s' \<longleftrightarrow> sc_wait s' = sc_wait s \<and> pr_current s' = pr_current s \<and> pr_idle_thread s' = pr_idle_thread s \<and>
     sched_tick s' = sched_tick s"

lemma othersD:
  assumes "others s s'"
  shows "sc_wait s' = sc_wait s" "pr_current s' = pr_current s" "pr_idle_thread s' = pr_idle_thread s"
    "sched_tick s' = sched_tick s"
  using assms by (simp_all add: others_def)

lemma coreD:
  assumes "core t' = core t"
  shows "th_state t' = th_state t" "wait_event t' = wait_event t" "wait_result t' = wait_result t"
    "wake_active t' = wake_active t" "wake_event t' = wake_event t" "th_timer t' = th_timer t"
    "priority t' = priority t" "policy t' = policy t"
  using assms by (simp_all add: core_def)

lemma run_ok_timers: "run_ok (s\<lparr>sc_timers := ts\<rparr>) \<longleftrightarrow> run_ok s"
  by (simp add: run_ok_def place_ok_def rq_ok_def placed_def)

lemma reset_thread_timer_simps [simp]:
  "sc_threads (reset_thread_timer th s) = sc_threads s" "sc_wait (reset_thread_timer th s) = sc_wait s"
  "others s (reset_thread_timer th s)" "run_ok (reset_thread_timer th s) \<longleftrightarrow> run_ok s"
  "pr_idle_thread (reset_thread_timer th s) = pr_idle_thread s" "pr_current (reset_thread_timer th s) = pr_current s"
  "sched_tick (reset_thread_timer th s) = sched_tick s"
  by (simp_all add: reset_thread_timer_def others_def run_ok_timers)

subsection \<open>Waking one thread\<close>

definition woken :: "wait_result_t \<Rightarrow> thread \<Rightarrow> thread" where
  "woken result t =
     t\<lparr>th_state := (th_state t AND NOT TH_WAIT) OR (if th_runs t \<or> th_susp t \<and> \<not> th_unint t then 0 else TH_RUN),
       wait_result := result\<rparr>"

lemma woken_bits [simp]:
  "th_waits (woken r t) = False" "th_susp (woken r t) = th_susp t" "th_unint (woken r t) = th_unint t"
  "th_runs (woken r t) \<longleftrightarrow> th_runs t \<or> \<not> (th_susp t \<and> \<not> th_unint t)" "th_idles (woken r t) = th_idles t"
  by (auto simp: woken_def bit_simps)

lemma set_run_spec:
  assumes ok: "run_ok s" and th: "th \<noteq> pr_idle_thread s" "\<not> th_runs (thread_of s th)"
    and f: "f = (\<lambda>t. t\<lparr>th_state := w, wait_result := r\<rparr>)" "bit w 2" "\<not> bit w 7" and no: "no_wait (thread_of s th)"
  shows "\<exists>s'. thread_setrun th may_preempt tail (set_thread th f s) = Some s' \<and> run_ok s' \<and> keeps (set_thread th f s) s'"
proof -
  let ?u = "set_thread th f s"
  have off: "\<not> placed s th" "th \<noteq> pr_current s" using run_okD(5) [OF ok th(1)] th(2) by auto
  have "pri_ok (f (thread_of s th))" using place_okD(5) [OF run_okD(1) [OF ok] th(1)] f by (simp add: pri_ok_def)
  then have u: "place_ok ?u" "\<And>x. placed ?u x = placed s x"
    using set_thread_place [OF run_okD(1) [OF ok], of f th] f(1) by simp_all
  obtain s' where s': "thread_setrun th may_preempt tail ?u = Some s'" "place_ok s'" "keeps ?u s'"
    "\<And>x. placed s' x \<longleftrightarrow> placed ?u x \<or> x = th"
    using thread_setrun_spec [OF u(1)] th(1) off(1) u(2) by (metis set_thread_simps(10))
  have "run_ok s'"
    using s'(2,4) u(2) run_okD [OF ok] off th(1) f no unfolding run_ok_def no_wait_def by (auto simp: keepsD [OF s'(3)])
  then show ?thesis using s' by blast
qed

lemma wake_switch_spec:
  assumes ok: "run_ok s" and th: "th \<noteq> pr_idle_thread s" and waits: "th_waits (thread_of s th)"
    and no: "no_wait (thread_of s th)"
  shows "\<exists>s'. wake_switch th result deflt s = Some s' \<and> run_ok s' \<and> others s s' \<and>
    (\<forall>x. core (thread_of s' x) = core (if x = th then woken result (thread_of s th) else thread_of s x))"
proof -
  let ?t = "thread_of s th"
  have idl: "\<not> th_idles ?t" by (rule run_okD(6) [OF ok th])
  show ?thesis
  proof (cases "th_runs ?t \<or> th_susp ?t \<and> \<not> th_unint ?t")
    case False
    let ?f = "\<lambda>t. t\<lparr>th_state := (th_state ?t AND NOT TH_WAIT) OR TH_RUN, wait_result := result\<rparr>"
    have "bit ((th_state ?t AND NOT TH_WAIT) OR TH_RUN) 2" "\<not> bit ((th_state ?t AND NOT TH_WAIT) OR TH_RUN) 7"
      using idl by (simp_all add: bit_simps)
    then obtain s' where s': "thread_setrun th True True (set_thread th ?f s) = Some s'" "run_ok s'" "keeps (set_thread th ?f s) s'"
      using set_run_spec [OF ok th, where f = ?f and r = result and may_preempt = True and tail = True] False no by blast
    have "wake_switch th result deflt s = Some s'"
      using s'(1) False waits by (simp add: wake_switch_def sched_state_cases Let_def)
    moreover have "others s s'" using s'(3) by (simp add: others_def keepsD [OF s'(3)])
    moreover have "core (thread_of s' x) = core (if x = th then woken result ?t else thread_of s x)" for x
      using s'(3) False by (auto simp: keeps_def woken_def)
    ultimately show ?thesis using s'(2) by blast
  next
    case True
    let ?f = "\<lambda>t. t\<lparr>th_state := th_state ?t AND NOT TH_WAIT, wait_result := result\<rparr>"
    have "wake_switch th result deflt s = Some (set_thread th ?f s)"
      using True waits by (auto simp: wake_switch_def sched_state_cases Let_def)
    moreover have "run_ok (set_thread th ?f s)" by (rule run_ok_thread [OF ok]) (use th in \<open>auto simp: bit_simps no_wait_def\<close>)
    moreover have "others s (set_thread th ?f s)" by (simp add: others_def)
    ultimately show ?thesis using True by (auto simp: woken_def)
  qed
qed

lemma wake_switch_idle: "\<not> th_waits (thread_of s th) \<Longrightarrow> wake_switch th result deflt s = deflt"
  by (simp add: wake_switch_def sched_state_cases Let_def)

subsection \<open>Waking the threads that wait for an event\<close>

lemma split_all: "wakeup_split waits False q = (filter (\<lambda>th. \<not> waits th) q, filter waits q)"
  by (induction q) auto

lemma split_one:
  "wakeup_split waits True q = (case filter waits q of [] \<Rightarrow> (q, []) | th # _ \<Rightarrow> (remove1 th q, [th]))"
  by (induction q) (auto split: list.splits dest: filter_eq_ConsD)

definition to_wake :: "(addr \<Rightarrow> bool) \<Rightarrow> bool \<Rightarrow> addr list \<Rightarrow> addr list" where
  "to_wake waits one_thread q = (if one_thread then take 1 (filter waits q) else filter waits q)"

lemma split_exact:
  "distinct q \<Longrightarrow> wakeup_split waits one_thread q =
     ([th \<leftarrow> q. th \<notin> set (to_wake waits one_thread q)], to_wake waits one_thread q)"
proof (cases one_thread)
  case True
  assume d: "distinct q"
  show ?thesis
  proof (cases "filter waits q")
    case Nil
    then show ?thesis using True by (simp add: split_one to_wake_def)
  next
    case (Cons th r)
    then show ?thesis using True d by (simp add: split_one to_wake_def distinct_remove1_removeAll removeAll_filter_not_eq) (metis (lifting))
  qed
next
  case False
  then show ?thesis by (auto simp: split_all to_wake_def intro!: filter_cong)
qed

end
