(* ===== verification/Sched_Safe.thy ===== *)
theory Sched_Safe
  imports Sched_Wait
begin

section \<open>The scheduler as a whole\<close>

text \<open>
  Every operation of \<open>Kern_Sched\<close> under the invariant \<open>sched_ok\<close>: it does not panic, it keeps the invariant, and it
  changes the states of just the threads it is for.  The reachable states and what holds in all of them close the theory.
\<close>

subsection \<open>Wakeups\<close>

lemma core_woken: "core t' = core t \<Longrightarrow> core (woken r t') = core (woken r t)"
  by (simp add: core_def woken_def)

lemma core_event: "core t' = core t \<Longrightarrow> core (t'\<lparr>wait_event := e\<rparr>) = core (t\<lparr>wait_event := e\<rparr>)"
  by (simp add: core_def)

abbreviation "awoken r t \<equiv> (woken r t)\<lparr>wait_event := NO_EVENT\<rparr>"

lemma core_woken_event: "core (woken r (t\<lparr>wait_event := e\<rparr>)) = core ((woken r t)\<lparr>wait_event := e\<rparr>)"
  by (simp add: core_def woken_def)

lemma core_awoken: "core t' = core t \<Longrightarrow> core (awoken r t') = core (awoken r t)"
  by (rule core_event, rule core_woken)

lemma run_ok_event:
  assumes "run_ok s" and e: "e = NO_EVENT \<or> e = WAKING_EVENT"
  shows "run_ok (set_thread th (\<lambda>t. t\<lparr>wait_event := e\<rparr>) s)"
  using assms(1)
  by (rule run_ok_thread) (use e in \<open>simp_all add: no_wait_def\<close>)

lemma others_trans: "others s s' \<Longrightarrow> others s' s'' \<Longrightarrow> others s s''"
  by (simp add: others_def)

lemma wakeup_queue_spec:
  assumes "run_ok s" "distinct q" "\<And>th. th \<in> set q \<Longrightarrow> th \<noteq> pr_idle_thread s \<and> th_waits (thread_of s th) \<and> no_wait (thread_of s th)"
  shows "\<exists>s'. wakeup_queue r q s = Some s' \<and> run_ok s' \<and> others s s' \<and>
    (\<forall>x. core (thread_of s' x) = core (if x \<in> set q then awoken r (thread_of s x) else thread_of s x))"
  using assms
proof (induction q arbitrary: s)
  case Nil
  then show ?case by (simp add: others_def)
next
  case (Cons th q)
  let ?u = "reset_thread_timer th s"
  have "run_ok ?u" "th \<noteq> pr_idle_thread ?u" "th_waits (thread_of ?u th)" "no_wait (thread_of ?u th)" using Cons.prems by simp_all
  then obtain v where v: "wake_switch th r None ?u = Some v" "run_ok v" "others ?u v"
    "\<And>x. core (thread_of v x) = core (if x = th then woken r (thread_of s th) else thread_of s x)"
    using wake_switch_spec [of ?u th r None] by auto
  let ?w = "set_thread th (\<lambda>t. t\<lparr>wait_event := NO_EVENT\<rparr>) v"
  have ow: "others s ?w" using v(3) by (simp add: others_def)
  have cw: "core (thread_of ?w x) = core (if x = th then awoken r (thread_of s th) else thread_of s x)" for x
    using v(4) [of x] core_event [OF v(4) [of th]] by simp
  have w: "x \<noteq> pr_idle_thread ?w \<and> th_waits (thread_of ?w x) \<and> no_wait (thread_of ?w x)" if x: "x \<in> set q" for x
  proof -
    have "x \<noteq> th" using x Cons.prems(2) by auto
    then have "core (thread_of ?w x) = core (thread_of s x)" using cw [of x] by (simp only: if_False)
    then show ?thesis using coreD(1,2) [of "thread_of ?w x" "thread_of s x"] Cons.prems(3) [of x] x othersD(3) [OF ow]
      by (auto simp: no_wait_def)
  qed
  obtain s' where s': "wakeup_queue r q ?w = Some s'" "run_ok s'" "others ?w s'"
    "\<And>x. core (thread_of s' x) = core (if x \<in> set q then awoken r (thread_of ?w x) else thread_of ?w x)"
    using Cons.IH [OF run_ok_event [OF v(2), of NO_EVENT] _ w] Cons.prems(2) by auto
  have "core (thread_of s' x) = core (if x \<in> set (th # q) then awoken r (thread_of s x) else thread_of s x)" for x
    using s'(4) [of x] cw [of x] Cons.prems(2) core_awoken [of "thread_of ?w x" "thread_of s x" r] by (auto split: if_splits)
  then show ?case using s'(1,2) others_trans [OF ow s'(3)] v(1) by (auto simp: Let_def)
qed

lemma run_ok_waking:
  assumes "run_ok s" "e = WAKING_EVENT"
  shows "run_ok (s\<lparr>sc_wait := q, sc_threads := \<lambda>th. if P th then (thread_of s th)\<lparr>wait_event := e\<rparr> else thread_of s th\<rparr>)"
  using assms unfolding run_ok_def place_ok_def rq_ok_def placed_def pri_ok_def no_wait_def by (simp add: if_distrib cong: if_cong)

lemma sched_okD:
  assumes "sched_ok s"
  shows "run_ok s" "wq_ok s" "wait_event (thread_of s th) \<noteq> WAKING_EVENT"
  using assms unfolding sched_ok_def by blast+

lemma idle_thread_waits_not: "run_ok s \<Longrightarrow> th_waits (thread_of s th) \<Longrightarrow> th \<noteq> pr_idle_thread s"
  using run_okD(3) [of s] by (auto simp: bit_or_iff)

lemma set_to_wake: "set (to_wake waits one_thread q) \<subseteq> {th \<in> set q. waits th}"
  by (auto simp: to_wake_def dest: in_set_takeD)

lemma distinct_to_wake: "distinct q \<Longrightarrow> distinct (to_wake waits one_thread q)"
  by (simp add: to_wake_def)

lemma wakeup_spec:
  fixes event :: addr and one_thread :: bool
  assumes ok: "sched_ok s"
  defines "i \<equiv> wait_hash event"
  defines "W \<equiv> to_wake (\<lambda>th. wait_event (thread_of s th) = event) one_thread (sc_wait s ! i)"
  shows "\<exists>s'. thread_wakeup_prim event one_thread r s = Some s' \<and> sched_ok s' \<and>
    sc_wait s' = (sc_wait s)[i := [th \<leftarrow> sc_wait s ! i. th \<notin> set W]] \<and> others (s\<lparr>sc_wait := sc_wait s'\<rparr>) s' \<and>
    (\<forall>x. core (thread_of s' x) = core (if x \<in> set W then awoken r (thread_of s x) else thread_of s x))"
proof -
  note wq = wq_okD [OF sched_okD(2) [OF ok]] and run = sched_okD(1) [OF ok]
  have i: "i < NUMQUEUES" by (simp add: i_def)
  have d: "distinct (sc_wait s ! i)" by (rule wq(2) [OF i])
  have W: "th \<in> set (sc_wait s ! i) \<and> wait_event (thread_of s th) = event" if "th \<in> set W" for th
    using that set_to_wake unfolding W_def by fastforce
  have Ww: "th_waits (thread_of s th)" if "th \<in> set W" for th using W [OF that] wq(3) [OF i, of th] wq(4) by blast
  let ?u = "s\<lparr>sc_wait := (sc_wait s)[i := [th \<leftarrow> sc_wait s ! i. th \<notin> set W]],
    sc_threads := (\<lambda>th. if th \<in> set W then (thread_of s th)\<lparr>wait_event := WAKING_EVENT\<rparr> else thread_of s th)\<rparr>"
  have ru: "run_ok ?u" by (rule run_ok_waking [OF run refl])
  have wu: "th \<noteq> pr_idle_thread ?u \<and> th_waits (thread_of ?u th) \<and> no_wait (thread_of ?u th)" if "th \<in> set W" for th
    using Ww [OF that] idle_thread_waits_not [OF run Ww [OF that]] that by (simp add: no_wait_def)
  obtain s' where s': "wakeup_queue r W ?u = Some s'" "run_ok s'" "others ?u s'"
    "\<And>x. core (thread_of s' x) = core (if x \<in> set W then awoken r (thread_of ?u x) else thread_of ?u x)"
    using wakeup_queue_spec [OF ru _ wu] distinct_to_wake [OF d] unfolding W_def by blast
  have e: "thread_wakeup_prim event one_thread r s = Some s'"
    using s'(1) unfolding thread_wakeup_prim_def Let_def i_def [symmetric] split_exact [OF d] W_def [symmetric] by simp
  have c: "core (thread_of s' x) = core (if x \<in> set W then awoken r (thread_of s x) else thread_of s x)" for x
    using s'(4) [of x] by (simp add: core_def woken_def)
  have ev: "wait_event (thread_of s' x) = (if x \<in> set W then NO_EVENT else wait_event (thread_of s x))" for x
    using coreD(2) [OF c [of x]] by simp
  have q: "sc_wait s' = (sc_wait s)[i := [th \<leftarrow> sc_wait s ! i. th \<notin> set W]]" using othersD(1) [OF s'(3)] by simp
  have wt: "th_waits (thread_of s' x) = (if x \<in> set W then False else th_waits (thread_of s x))" for x
    using coreD(1) [OF c [of x]] by simp
  have "wq_ok s'"
    unfolding wq_ok_def q ev wt using wq(1,2,4) wq(3) W i i_def by (auto simp: nth_list_update)
  moreover have "wait_event (thread_of s' x) \<noteq> WAKING_EVENT" for x
    using ev sched_okD(3) [OF ok] by (simp add: NO_EVENT_def WAKING_EVENT_def)
  moreover have "others (s\<lparr>sc_wait := sc_wait s'\<rparr>) s'" using s'(3) by (simp add: others_def)
  ultimately show ?thesis using e q c s'(2) unfolding sched_ok_def by blast
qed

subsection \<open>Waits of one thread\<close>

lemma wq_ok_remove:
  assumes ok: "wq_ok s" and th: "wait_event (thread_of s th) = e" "e \<noteq> WAKING_EVENT"
  shows "wq_ok (set_thread th (\<lambda>t. t\<lparr>wait_event := NO_EVENT\<rparr>)
    (s\<lparr>sc_wait := (sc_wait s)[wait_hash e := remove1 th (sc_wait s ! wait_hash e)]\<rparr>))"
  unfolding wq_ok_def using wq_okD [OF ok] th
  by (auto simp: nth_list_update distinct_remove1 in_set_remove1)

lemma run_ok_wait: "run_ok (s\<lparr>sc_wait := q\<rparr>) \<longleftrightarrow> run_ok s"
  by (simp add: run_ok_def place_ok_def rq_ok_def placed_def)

definition cleared :: "bool \<Rightarrow> thread \<Rightarrow> bool" where
  "cleared interrupt_only t \<longleftrightarrow> th_waits t \<and> \<not> (interrupt_only \<and> th_unint t)"

text \<open>All that the operations on waits leave alone but for the wait queues.\<close>

definition same_cpu :: "sched \<Rightarrow> sched \<Rightarrow> bool" where
  "same_cpu s s' \<longleftrightarrow> pr_current s' = pr_current s \<and> pr_idle_thread s' = pr_idle_thread s \<and> sched_tick s' = sched_tick s"

lemma same_cpu_others: "others s s' \<Longrightarrow> same_cpu s s'"
  by (simp add: others_def same_cpu_def)

lemma same_cpu_trans: "same_cpu s s' \<Longrightarrow> same_cpu s' s'' \<Longrightarrow> same_cpu s s''"
  by (simp add: same_cpu_def)

lemma same_cpu_refl [simp]: "same_cpu s s" "same_cpu s (s\<lparr>sc_wait := q\<rparr>)" "same_cpu s (set_thread th f s)"
  "same_cpu s (reset_thread_timer th s)" "same_cpu s (s\<lparr>sc_timers := ts\<rparr>)"
  by (simp_all add: same_cpu_def)

lemma waking_spec:
  assumes run: "run_ok u" and wq: "wq_ok u" and no: "wait_event (thread_of u th) = NO_EVENT" and waits: "th_waits (thread_of u th)"
    and all: "\<And>x. wait_event (thread_of u x) \<noteq> WAKING_EVENT"
  shows "\<exists>s'. wake_switch th r deflt (reset_thread_timer th u) = Some s' \<and> sched_ok s' \<and> same_cpu u s' \<and> sc_wait s' = sc_wait u \<and>
    (\<forall>x. core (thread_of s' x) = core (if x = th then woken r (thread_of u th) else thread_of u x))"
proof -
  let ?v = "reset_thread_timer th u"
  obtain s' where s': "wake_switch th r deflt ?v = Some s'" "run_ok s'" "others ?v s'"
    "\<And>x. core (thread_of s' x) = core (if x = th then woken r (thread_of u th) else thread_of u x)"
    using wake_switch_spec [of ?v th r deflt] run waits idle_thread_waits_not [OF run waits] no by (auto simp: no_wait_def)
  have ev: "wait_event (thread_of s' x) = wait_event (thread_of u x)" for x
    using coreD(2) [OF s'(4) [of x]] by (simp add: woken_def)
  have q: "sc_wait s' = sc_wait u" using othersD(1) [OF s'(3)] by simp
  have wt: "th_waits (thread_of s' x) \<longleftrightarrow> x \<noteq> th \<and> th_waits (thread_of u x)" for x
    using coreD(1) [OF s'(4) [of x]] by simp
  have "wq_ok s'" unfolding wq_ok_def q ev wt using wq no by (auto simp: wq_ok_def)
  moreover have "same_cpu u s'" using same_cpu_others [OF s'(3)] by (simp add: same_cpu_def)
  ultimately show ?thesis using s'(1,2,4) q ev all unfolding sched_ok_def by auto
qed

lemma clear_wait_spec:
  assumes ok: "sched_ok s"
  shows "\<exists>s'. clear_wait_locked th r interrupt_only s = Some s' \<and> sched_ok s' \<and> same_cpu s s' \<and>
    (\<forall>x. core (thread_of s' x) =
       core (if x = th \<and> cleared interrupt_only (thread_of s th) then awoken r (thread_of s th) else thread_of s x))"
proof -
  let ?t = "thread_of s th" let ?e = "wait_event ?t"
  note run = sched_okD(1) [OF ok] and wq = sched_okD(2) [OF ok] and all = sched_okD(3) [OF ok]
  let ?u = "if ?e \<noteq> NO_EVENT
    then set_thread th (\<lambda>t. t\<lparr>wait_event := NO_EVENT\<rparr>)
           (s\<lparr>sc_wait := (sc_wait s)[wait_hash ?e := remove1 th (sc_wait s ! wait_hash ?e)]\<rparr>)
    else s"
  show ?thesis
  proof (cases "interrupt_only \<and> th_unint ?t")
    case True
    then show ?thesis using ok by (simp add: clear_wait_locked_def cleared_def Let_def)
  next
    case False
    have e: "clear_wait_locked th r interrupt_only s =
        wake_switch th r (Some (reset_thread_timer th ?u)) (reset_thread_timer th ?u)"
      unfolding clear_wait_locked_def Let_def using False all by (subst if_not_P) simp_all
    have ru: "run_ok ?u" using run run_ok_event [where e = NO_EVENT] run_ok_wait by simp
    have wu: "wq_ok ?u" using wq_ok_remove [OF wq refl] all wq by simp
    have tu: "thread_of ?u x = (if x = th then ?t\<lparr>wait_event := NO_EVENT\<rparr> else thread_of s x)" for x
      by (auto intro!: thread.equality)
    have su: "same_cpu s ?u" by (simp add: same_cpu_def)
    have au: "wait_event (thread_of ?u x) \<noteq> WAKING_EVENT" for x using all by (simp add: NO_EVENT_def WAKING_EVENT_def)
    have w: "th_waits (thread_of ?u th) = th_waits ?t" "wait_event (thread_of ?u th) = NO_EVENT" by simp_all
    show ?thesis
    proof (cases "th_waits ?t")
      case True
      then obtain s' where s': "wake_switch th r (Some (reset_thread_timer th ?u)) (reset_thread_timer th ?u) = Some s'"
        "sched_ok s'" "same_cpu ?u s'"
        "\<And>x. core (thread_of s' x) = core (if x = th then woken r (thread_of ?u th) else thread_of ?u x)"
        using waking_spec [OF ru wu w(2) _ au] w(1) by blast
      have "core (thread_of s' x) = core (if x = th then awoken r ?t else thread_of s x)" for x
        using s'(4) [of x] unfolding tu by (simp add: core_woken_event)
      then show ?thesis using e s'(1,2) same_cpu_trans [OF su s'(3)] True False by (simp add: cleared_def)
    next
      case False
      have n: "?e = NO_EVENT" using wq_okD(4) [OF wq, of th] False by blast
      then have "clear_wait_locked th r interrupt_only s = Some (reset_thread_timer th s)"
        unfolding e using wake_switch_idle False by simp
      moreover have "sched_ok (reset_thread_timer th s)" using ok wq_ok_core [OF wq] by (simp add: sched_ok_def)
      ultimately show ?thesis using False by (simp add: cleared_def)
    qed
  qed
qed

lemma timeout_spec:
  assumes ok: "sched_ok s"
  shows "\<exists>s'. thread_timeout_wait th s = Some s' \<and> sched_ok s' \<and> same_cpu s s'"
proof -
  obtain did ts where t: "thread_timeout (th_timer (thread_of s th)) th (sc_timers s) = (did, ts)" by fastforce
  have "sched_ok (s\<lparr>sc_timers := ts\<rparr>)" using ok wq_ok_core [of s "s\<lparr>sc_timers := ts\<rparr>"] by (simp add: sched_ok_def run_ok_timers)
  then show ?thesis using clear_wait_spec [of "s\<lparr>sc_timers := ts\<rparr>" th THREAD_TIMED_OUT False] ok
    by (auto simp: thread_timeout_wait_def t same_cpu_def)
qed

text \<open>A thread that waits for no event, as the threads that wait in the IPC system do.\<close>

lemma thread_go_spec:
  assumes ok: "sched_ok s" and no: "wait_event (thread_of s th) = NO_EVENT"
  shows "\<exists>s'. thread_go th s = Some s' \<and> sched_ok s' \<and> same_cpu s s' \<and> sc_wait s' = sc_wait s \<and>
    (\<forall>x. core (thread_of s' x) = core (if x = th \<and> th_waits (thread_of s th)
       then (thread_of s th)\<lparr>th_state := (th_state (thread_of s th) AND NOT TH_WAIT) OR TH_RUN, wait_result := THREAD_AWAKENED\<rparr>
       else thread_of s x))"
proof (cases "th_waits (thread_of s th)")
  case False
  have "sched_ok (reset_thread_timer th s)"
    using ok wq_ok_core [OF sched_okD(2) [OF ok]] by (simp add: sched_ok_def)
  then show ?thesis using False by (simp add: thread_go_def Let_def)
next
  case True
  let ?t = "thread_of s th" let ?s = "reset_thread_timer th s" let ?w = "th_state ?t AND NOT TH_WAIT"
  note run = sched_okD(1) [OF ok] and wq = sched_okD(2) [OF ok] and all = sched_okD(3) [OF ok]
  have th: "th \<noteq> pr_idle_thread ?s" using idle_thread_waits_not [OF run True] by simp
  have idl: "\<not> th_idles ?t" using run_okD(6) [OF run] th by simp
  obtain s' where s': "thread_go th s = Some s'" "run_ok s'" "others ?s s'"
    "\<And>x. core (thread_of s' x) = core (if x = th then ?t\<lparr>th_state := ?w OR TH_RUN, wait_result := THREAD_AWAKENED\<rparr> else thread_of s x)"
  proof (cases "th_runs ?t")
    case True
    let ?u = "set_thread th (\<lambda>t. t\<lparr>wait_result := THREAD_AWAKENED\<rparr>) (set_thread th (\<lambda>t. t\<lparr>th_state := ?w\<rparr>) ?s)"
    have "?w OR TH_RUN = ?w" using True by (intro bit_word_eqI) (auto simp: bit_simps)
    moreover have "run_ok (set_thread th (\<lambda>t. t\<lparr>th_state := ?w\<rparr>) ?s)"
      by (rule run_ok_thread) (use run th in \<open>auto simp: bit_simps no_wait_def\<close>)
    then have "run_ok ?u" by (rule run_ok_thread) (simp_all add: no_wait_def)
    moreover have "thread_go th s = Some ?u" using True \<open>th_waits ?t\<close> by (simp add: thread_go_def Let_def bit_simps)
    ultimately show ?thesis using that [of ?u] by (simp add: others_def)
  next
    case False
    let ?f = "\<lambda>t. t\<lparr>th_state := ?w OR TH_RUN, wait_result := wait_result ?t\<rparr>"
    have "run_ok ?s" "\<not> th_runs (thread_of ?s th)" "bit (?w OR TH_RUN) 2" "\<not> bit (?w OR TH_RUN) 7"
      "no_wait (thread_of ?s th)" using run False idl no by (simp_all add: bit_simps no_wait_def)
    then obtain v where v: "thread_setrun th True True (set_thread th ?f ?s) = Some v" "run_ok v" "keeps (set_thread th ?f ?s) v"
      using set_run_spec [of ?s th ?f, OF _ th] by blast
    let ?u = "set_thread th (\<lambda>t. t\<lparr>wait_result := THREAD_AWAKENED\<rparr>) v"
    have "set_thread th ?f ?s = set_thread th (\<lambda>t. t\<lparr>th_state := ?w OR TH_RUN\<rparr>) ?s" by (simp add: set_thread_def)
    then have "thread_go th s = Some ?u"
      using v(1) False \<open>th_waits ?t\<close> by (simp add: thread_go_def Let_def bit_simps)
    moreover have "run_ok ?u" by (rule run_ok_thread [OF v(2)]) (simp_all add: no_wait_def)
    moreover have "others ?s ?u" by (simp add: others_def keepsD [OF v(3)])
    moreover have "core (thread_of ?u x) =
        core (if x = th then ?t\<lparr>th_state := ?w OR TH_RUN, wait_result := THREAD_AWAKENED\<rparr> else thread_of s x)" for x
      using v(3) by (simp add: core_def keepsD [OF v(3)])
    ultimately show ?thesis by (rule that)
  qed
  have ev: "wait_event (thread_of s' x) = wait_event (thread_of s x)" for x using coreD(2) [OF s'(4) [of x]] by simp
  have wt: "th_waits (thread_of s' x) \<longleftrightarrow> x \<noteq> th \<and> th_waits (thread_of s x)" for x
    using coreD(1) [OF s'(4) [of x]] by (auto simp: bit_simps)
  have q: "sc_wait s' = sc_wait s" using othersD(1) [OF s'(3)] by simp
  have "wq_ok s'" unfolding wq_ok_def q ev wt using wq no by (auto simp: wq_ok_def)
  moreover have "same_cpu s s'" using same_cpu_others [OF s'(3)] by (simp add: same_cpu_def)
  ultimately show ?thesis using s'(1,2,4) q ev all True unfolding sched_ok_def by auto
qed

subsection \<open>Starting to wait\<close>

lemma sched_ok_thread:
  assumes ok: "sched_ok s" and f: "runq (f (thread_of s th)) = runq (thread_of s th)"
    "whichq (f (thread_of s th)) = whichq (thread_of s th)" "sched_pri (f (thread_of s th)) = sched_pri (thread_of s th)"
    "priority (f (thread_of s th)) = priority (thread_of s th)" "wait_event (f (thread_of s th)) = wait_event (thread_of s th)"
    "th_runs (f (thread_of s th)) = th_runs (thread_of s th)" "th_idles (f (thread_of s th)) = th_idles (thread_of s th)"
    "th_waits (thread_of s th) \<longrightarrow> th_waits (f (thread_of s th))"
    "th = pr_idle_thread s \<Longrightarrow> th_state (f (thread_of s th)) = th_state (thread_of s th)"
  shows "sched_ok (set_thread th f s)"
proof -
  have "run_ok (set_thread th f s)" by (rule run_ok_thread [OF sched_okD(1) [OF ok]]) (use f in \<open>auto simp: no_wait_def\<close>)
  moreover have e: "wait_event (thread_of (set_thread th f s) x) = wait_event (thread_of s x)" for x using f(5) by simp
  have "wq_ok (set_thread th f s)"
    using sched_okD(2) [OF ok] f(8) unfolding wq_ok_def e by auto
  ultimately show ?thesis using sched_okD(3) [OF ok] unfolding sched_ok_def e by blast
qed

lemma will_wait_spec:
  assumes ok: "sched_ok s" and th: "th \<noteq> pr_idle_thread s"
  shows "sched_ok (thread_will_wait th s)"
  unfolding thread_will_wait_def by (rule sched_ok_thread [OF ok]) (use th in \<open>auto simp: bit_simps\<close>)

lemma assert_wait_spec:
  assumes ok: "sched_ok s" and cur: "pr_current s \<noteq> pr_idle_thread s" "wait_event (thread_of s (pr_current s)) = NO_EVENT"
    and event: "event \<noteq> WAKING_EVENT"
  shows "\<exists>s'. assert_wait event interruptible first s = Some s' \<and> sched_ok s' \<and> same_cpu s s' \<and>
    wait_event (thread_of s' (pr_current s)) = event \<and> th_waits (thread_of s' (pr_current s)) \<and>
    (\<forall>x. x \<noteq> pr_current s \<longrightarrow> thread_of s' x = thread_of s x) \<and>
    (event \<noteq> NO_EVENT \<longrightarrow> sc_wait s' = (sc_wait s)[wait_hash event :=
       if first then pr_current s # sc_wait s ! wait_hash event else sc_wait s ! wait_hash event @ [pr_current s]])"
proof -
  let ?th = "pr_current s" let ?i = "wait_hash event" let ?q = "sc_wait s ! ?i"
  let ?w = "\<lambda>t. t\<lparr>th_state := th_state t OR (if interruptible then TH_WAIT else TH_WAIT OR TH_UNINT), sleep_stamp := sched_tick s\<rparr>"
  note run = sched_okD(1) [OF ok] and wq = sched_okD(2) [OF ok] and all = sched_okD(3) [OF ok]
  show ?thesis
  proof (cases "event = NO_EVENT")
    case True
    have "sched_ok (set_thread ?th ?w s)" by (rule sched_ok_thread [OF ok]) (use cur in \<open>auto simp: bit_simps\<close>)
    then show ?thesis using True cur by (auto simp: assert_wait_def Let_def bit_simps)
  next
    case False
    let ?u = "s\<lparr>sc_wait := (sc_wait s)[?i := if first then ?th # ?q else ?q @ [?th]]\<rparr>"
    let ?s = "set_thread ?th (\<lambda>t. ?w (t\<lparr>wait_event := event\<rparr>)) ?u"
    have e: "assert_wait event interruptible first s = Some ?s" using cur False by (simp add: assert_wait_def Let_def)
    have "run_ok ?u" using run by (simp add: run_ok_wait)
    moreover have "\<not> placed ?u ?th" using run_okD(2) [OF run] by (simp add: placed_def)
    ultimately have "run_ok ?s" by (intro run_ok_thread) (use cur in \<open>auto simp: bit_simps\<close>)
    moreover have new: "?th \<notin> set (sc_wait s ! j)" if "j < NUMQUEUES" for j using wq_okD(3) [OF wq that] cur(2) by simp
    have "wq_ok ?s"
      unfolding wq_ok_def using wq_okD [OF wq] new [of ?i] new False event cur(2) by (auto simp: nth_list_update bit_simps)
    moreover have "wait_event (thread_of ?s x) \<noteq> WAKING_EVENT" for x using all event by simp
    ultimately have "sched_ok ?s" by (simp add: sched_ok_def)
    then show ?thesis using e False by (simp add: same_cpu_def bit_simps)
  qed
qed

lemma turn_spec:
  assumes ok: "sched_ok s" and th: "th \<noteq> pr_idle_thread s" "wake_event (thread_of s th) \<noteq> WAKING_EVENT"
    and cur: "pr_current s \<noteq> pr_idle_thread s" "wait_event (thread_of s (pr_current s)) = NO_EVENT"
  shows "\<exists>b s'. thread_stop_turn th s = Some (b, s') \<and> sched_ok s' \<and> same_cpu s s' \<and> (b \<longrightarrow> th_susp (thread_of s' th))"
    "\<exists>b s'. thread_wait_turn th s = Some (b, s') \<and> sched_ok s' \<and> same_cpu s s' \<and> (b \<longrightarrow> \<not> th_runs (thread_of s' th))"
proof -
  let ?u = "set_thread th (\<lambda>t. t\<lparr>wake_active := True\<rparr>) s"
  have u: "sched_ok ?u" by (rule sched_ok_thread [OF ok]) simp_all
  have "pr_current ?u \<noteq> pr_idle_thread ?u" "wait_event (thread_of ?u (pr_current ?u)) = NO_EVENT" using cur by auto
  then have "\<exists>s'. assert_wait (wake_event (thread_of s th)) True False ?u = Some s' \<and> sched_ok s' \<and> same_cpu ?u s'"
    using assert_wait_spec [OF u _ _ th(2)] by blast
  then have "\<exists>s'. assert_wait (wake_event (thread_of s th)) True False ?u = Some s' \<and> sched_ok s' \<and> same_cpu s s'"
    by (simp add: same_cpu_def)
  moreover have "sched_ok (set_thread th (\<lambda>t. t\<lparr>th_state := th_state t OR TH_SUSP\<rparr>) s)"
    by (rule sched_ok_thread [OF ok]) (use th in \<open>auto simp: bit_simps\<close>)
  ultimately show "\<exists>b s'. thread_stop_turn th s = Some (b, s') \<and> sched_ok s' \<and> same_cpu s s' \<and> (b \<longrightarrow> th_susp (thread_of s' th))"
    "\<exists>b s'. thread_wait_turn th s = Some (b, s') \<and> sched_ok s' \<and> same_cpu s s' \<and> (b \<longrightarrow> \<not> th_runs (thread_of s' th))"
    using ok by (auto simp: thread_stop_turn_def thread_wait_turn_def Let_def bit_simps)
qed

lemma thread_wakeup_ok:
  "sched_ok s \<Longrightarrow> \<exists>s'. thread_wakeup_prim e one r s = Some s' \<and> sched_ok s' \<and> same_cpu s s'"
  using wakeup_spec [of s e one r] by (auto simp: others_def same_cpu_def)

lemma unstop_spec:
  assumes ok: "sched_ok s"
  shows "\<exists>s'. thread_unstop th s = Some s' \<and> sched_ok s' \<and> same_cpu s s'"
proof -
  let ?t = "thread_of s th" let ?w = "th_state ?t AND NOT TH_SUSP"
  note run = sched_okD(1) [OF ok] and wq = sched_okD(2) [OF ok] and all = sched_okD(3) [OF ok]
  have nid: "th \<noteq> pr_idle_thread s" if "th_susp ?t" using that run_okD(3) [OF run] by (auto simp: bit_or_iff)
  consider (start) "th_susp ?t" "\<not> th_runs ?t" "\<not> th_waits ?t" | (clear) "th_susp ?t" "th_runs ?t \<or> th_waits ?t" | (none) "\<not> th_susp ?t"
    by blast
  then show ?thesis
  proof cases
    case start
    let ?f = "\<lambda>t. t\<lparr>th_state := ?w OR TH_RUN, wait_result := wait_result ?t\<rparr>"
    have idl: "\<not> th_idles ?t" using run_okD(6) [OF run nid] start(1) .
    have "bit (?w OR TH_RUN) 2" "\<not> bit (?w OR TH_RUN) 7" using idl by (simp_all add: bit_simps)
    then obtain v where v: "thread_setrun th True True (set_thread th ?f s) = Some v" "run_ok v" "keeps (set_thread th ?f s) v"
      using set_run_spec [OF run nid, where f = ?f and may_preempt = True and tail = True] start wq_okD(4) [OF wq, of th]
      unfolding no_wait_def by blast
    have "set_thread th ?f s = set_thread th (\<lambda>t. t\<lparr>th_state := ?w OR TH_RUN\<rparr>) s" by (simp add: set_thread_def)
    then have e: "thread_unstop th s = Some v" using v(1) start by (simp add: thread_unstop_def Let_def unstop_case)
    have ev: "wait_event (thread_of v x) = wait_event (thread_of s x)" for x by (simp add: keepsD [OF v(3)])
    have wt: "th_waits (thread_of v x) = th_waits (thread_of s x)" for x by (simp add: keepsD [OF v(3)] bit_simps)
    have "wq_ok v" by (rule wq_ok_core [OF wq _ ev wt]) (simp add: keepsD [OF v(3)])
    then have "sched_ok v" using v(2) all ev by (simp add: sched_ok_def)
    then show ?thesis using e by (simp add: same_cpu_def keepsD [OF v(3)])
  next
    case clear
    let ?u = "set_thread th (\<lambda>t. t\<lparr>th_state := ?w\<rparr>) s"
    have u: "sched_ok ?u" by (rule sched_ok_thread [OF ok]) (use nid clear in \<open>auto simp: bit_simps\<close>)
    have "sched_ok (set_thread th (\<lambda>t. t\<lparr>wake_active := False\<rparr>) ?u)" by (rule sched_ok_thread [OF u]) simp_all
    then have "\<exists>s'. thread_wakeup (wake_event ?t) (set_thread th (\<lambda>t. t\<lparr>wake_active := False\<rparr>) ?u) = Some s' \<and> sched_ok s' \<and>
        same_cpu s s'"
      using thread_wakeup_ok [of "set_thread th (\<lambda>t. t\<lparr>wake_active := False\<rparr>) ?u" "wake_event ?t" False THREAD_AWAKENED]
      unfolding thread_wakeup_def by (simp add: same_cpu_def del: set_thread_simps(1))
    moreover have "thread_unstop th s = (if wake_active ?t
        then thread_wakeup (wake_event ?t) (set_thread th (\<lambda>t. t\<lparr>wake_active := False\<rparr>) ?u) else Some ?u)"
      using clear unfolding thread_unstop_def Let_def by (auto simp: unstop_case)
    ultimately show ?thesis using u by auto
  next
    case none
    then show ?thesis using ok by (simp add: thread_unstop_def Let_def unstop_case)
  qed
qed

end
