(* ===== verification/Sched_Switch.thy ===== *)
theory Sched_Switch
  imports Sched_Safe
begin

section \<open>Switching threads, and the reachable states\<close>

text \<open>
  The switch from one thread to the next keeps the invariant of \<open>Sched_Safe\<close>, the idle thread included; with this every
  operation does, and the properties of the scheduler hold in all the states it can reach.
\<close>

subsection \<open>Switching threads\<close>

text \<open>
  In the middle of a switch the old thread and the new one are both off the run queue; \<open>lim A\<close> is the invariant with
  the threads that run while not placed in \<open>A\<close>.
\<close>

definition lim :: "addr set \<Rightarrow> sched \<Rightarrow> bool" where
  "lim A s \<longleftrightarrow>
     place_ok s \<and> th_state (thread_of s (pr_idle_thread s)) = TH_RUN OR TH_IDLE \<and> (\<forall>th \<in> A. \<not> placed s th) \<and>
     (\<forall>th. th \<noteq> pr_idle_thread s \<longrightarrow>
        (th_runs (thread_of s th) \<longleftrightarrow> th \<in> A \<or> placed s th) \<and> \<not> th_idles (thread_of s th)) \<and>
     (\<forall>th. placed s th \<longrightarrow> no_wait (thread_of s th))"

definition cpu_ok :: "sched \<Rightarrow> bool" where
  "cpu_ok s \<longleftrightarrow> (pr_current s = pr_idle_thread s \<longleftrightarrow> pr_state s \<noteq> PROCESSOR_RUNNING)"

definition ev_ok :: "sched \<Rightarrow> bool" where
  "ev_ok s \<longleftrightarrow> wq_ok s \<and> (\<forall>th. wait_event (thread_of s th) \<noteq> WAKING_EVENT)"

lemma sched_ok_lim: "sched_ok s \<longleftrightarrow> lim {pr_current s} s \<and> cpu_ok s \<and> ev_ok s"
  unfolding sched_ok_def run_ok_def lim_def cpu_ok_def ev_ok_def by blast

lemma limD:
  assumes "lim A s"
  shows "place_ok s" "th_state (thread_of s (pr_idle_thread s)) = TH_RUN OR TH_IDLE" "th \<in> A \<Longrightarrow> \<not> placed s th"
    "th \<noteq> pr_idle_thread s \<Longrightarrow> th_runs (thread_of s th) \<longleftrightarrow> th \<in> A \<or> placed s th"
    "th \<noteq> pr_idle_thread s \<Longrightarrow> \<not> th_idles (thread_of s th)" "placed s th \<Longrightarrow> no_wait (thread_of s th)"
  using assms unfolding lim_def by blast+

lemma lim_thread:
  assumes ok: "lim A s" and f: "runq (f (thread_of s th)) = runq (thread_of s th)"
    "whichq (f (thread_of s th)) = whichq (thread_of s th)" "sched_pri (f (thread_of s th)) = sched_pri (thread_of s th)"
    "priority (f (thread_of s th)) = priority (thread_of s th)"
    "th_idles (f (thread_of s th)) = th_idles (thread_of s th)"
    "th_runs (f (thread_of s th)) = th_runs (thread_of s th) \<and> B = A \<or>
       th \<in> A \<and> B = A - {th} \<and> \<not> th_runs (f (thread_of s th)) \<and> th \<noteq> pr_idle_thread s"
    "th = pr_idle_thread s \<Longrightarrow> th_state (f (thread_of s th)) = th_state (thread_of s th)"
    "wait_event (f (thread_of s th)) = wait_event (thread_of s th)"
  shows "lim B (set_thread th f s)"
proof -
  have "th \<noteq> pr_idle_thread s \<Longrightarrow> pri_ok (f (thread_of s th))"
    using place_okD(5) [OF limD(1) [OF ok]] f by (simp add: pri_ok_def)
  then have p: "place_ok (set_thread th f s)" "\<And>x. placed (set_thread th f s) x = placed s x"
    using set_thread_place [OF limD(1) [OF ok], of f th] f by blast+
  have "th_state (thread_of (set_thread th f s) (pr_idle_thread s)) = TH_RUN OR TH_IDLE"
    using f(7) limD(2) [OF ok] by (cases "th = pr_idle_thread s") simp_all
  moreover have "\<forall>x \<in> B. \<not> placed s x" using limD(3) [OF ok] f(6) by auto
  moreover have "(th_runs (thread_of (set_thread th f s) x) \<longleftrightarrow> x \<in> B \<or> placed s x) \<and>
      \<not> th_idles (thread_of (set_thread th f s) x)" if "x \<noteq> pr_idle_thread s" for x
    using limD(3) [OF ok, of x] limD(4,5) [OF ok that] f(5,6) by auto
  moreover have "placed s x \<longrightarrow> no_wait (thread_of (set_thread th f s) x)" for x
    using f(8) limD(6) [OF ok] by (auto simp: no_wait_def)
  ultimately show ?thesis using p unfolding lim_def by simp
qed

lemma ev_ok_thread:
  "ev_ok s \<Longrightarrow> wait_event (f (thread_of s th)) = wait_event (thread_of s th) \<Longrightarrow>
   th_waits (f (thread_of s th)) = th_waits (thread_of s th) \<Longrightarrow> ev_ok (set_thread th f s)"
  by (auto simp: ev_ok_def intro!: wq_ok_core [of s] split: if_splits)

lemma switch_frame [simp]:
  "lim A (s\<lparr>pr_ast := b\<rparr>) \<longleftrightarrow> lim A s" "ev_ok (s\<lparr>pr_ast := b\<rparr>) \<longleftrightarrow> ev_ok s"
  "lim A (s\<lparr>pr_current := n\<rparr>) \<longleftrightarrow> lim A s" "ev_ok (s\<lparr>pr_current := n\<rparr>) \<longleftrightarrow> ev_ok s"
  "lim A (s\<lparr>pr_first_quantum := b\<rparr>) \<longleftrightarrow> lim A s" "ev_ok (s\<lparr>pr_first_quantum := b\<rparr>) \<longleftrightarrow> ev_ok s"
  "lim A (s\<lparr>pr_quantum := q\<rparr>) \<longleftrightarrow> lim A s" "ev_ok (s\<lparr>pr_quantum := q\<rparr>) \<longleftrightarrow> ev_ok s"
  by (simp_all add: lim_def place_ok_def rq_ok_def placed_def ev_ok_def wq_ok_def)

lemma ev_ok_core:
  "ev_ok s \<Longrightarrow> sc_wait s' = sc_wait s \<Longrightarrow> (\<And>x. core (thread_of s' x) = core (thread_of s x)) \<Longrightarrow> ev_ok s'"
  unfolding ev_ok_def using wq_ok_core [of s s'] coreD(1,2) by metis

lemma dispatch_spec:
  assumes l: "lim {th, pr_current s} s" and ne: "th \<noteq> pr_current s" and c: "cpu_ok s" and e: "ev_ok s"
  shows "\<exists>s'. thread_dispatch th s = Some s' \<and> sched_ok s' \<and> same_cpu s s'"
proof -
  let ?t = "thread_of s th" let ?w = "th_state ?t"
  have off: "\<not> placed s th" "\<not> placed s (pr_current s)" using limD(3) [OF l] by auto
  consider (idle) "th = pr_idle_thread s" | (run) "th \<noteq> pr_idle_thread s" "\<not> th_waits ?t" | (wait) "th \<noteq> pr_idle_thread s" "th_waits ?t"
    by blast
  then show ?thesis
  proof cases
    case idle
    then have w: "?w = TH_RUN OR TH_IDLE" using limD(2) [OF l] by simp
    have "thread_dispatch th s = Some s" using w by (simp add: thread_dispatch_def Let_def dispatch_cases bit_or_iff)
    moreover have "lim {pr_current s} s" using l idle unfolding lim_def by auto
    ultimately show ?thesis using c e by (simp add: sched_ok_lim)
  next
    case run
    have bits: "th_runs ?t" "\<not> th_idles ?t" using limD(4,5) [OF l run(1)] by simp_all
    have "\<exists>v. thread_setrun th False tail s = Some v \<and> sched_ok v \<and> same_cpu s v" for tail
    proof -
      obtain v where v: "thread_setrun th False tail s = Some v" "place_ok v" "keeps s v"
        "\<And>x. placed v x \<longleftrightarrow> placed s x \<or> x = th"
        using thread_setrun_spec [OF limD(1) [OF l] run(1) off(1)] by blast
      have "no_wait ?t" using run(2) e wq_okD(4) [of s th] by (auto simp: ev_ok_def no_wait_def)
      then have "lim {pr_current v} v" using v(2,4) l ne unfolding lim_def no_wait_def by (auto simp: keepsD [OF v(3)])
      moreover have "cpu_ok v" using c by (simp add: cpu_ok_def keepsD [OF v(3)])
      moreover have "ev_ok v" by (rule ev_ok_core [OF e]) (use v(3) in \<open>simp_all add: keeps_def\<close>)
      ultimately show ?thesis using v(1) by (simp add: sched_ok_lim same_cpu_def keepsD [OF v(3)])
    qed
    then obtain v v' where v: "thread_setrun th False True s = Some v" "sched_ok v" "same_cpu s v"
      "thread_setrun th False False s = Some v'" "sched_ok v'" "same_cpu s v'" by blast
    have "sched_ok (set_thread th (\<lambda>t. t\<lparr>unconsumed_quantum := sched_data t\<rparr>) v)" by (rule sched_ok_thread [OF v(2)]) simp_all
    then show ?thesis using v bits run(2) by (simp add: thread_dispatch_def Let_def dispatch_cases same_cpu_def)
  next
    case wait
    have bits: "th_runs ?t" "\<not> th_idles ?t" using limD(4,5) [OF l wait(1)] by simp_all
    have nw: "?w AND (TH_RUN OR TH_WAIT OR TH_UNINT OR TH_IDLE) \<noteq> TH_WAIT" using bits by (simp add: dispatch_cases)
    let ?u = "set_thread th (\<lambda>t. t\<lparr>sleep_stamp := sched_tick s\<rparr>) s" let ?v = "set_thread th (\<lambda>t. t\<lparr>th_state := ?w AND NOT TH_RUN\<rparr>) ?u"
    have "lim {th, pr_current s} ?u" by (rule lim_thread [OF l]) simp_all
    then have "lim {pr_current s} ?v" by (rule lim_thread) (use wait(1) ne in \<open>auto simp: bit_simps\<close>)
    moreover have "ev_ok ?u" by (rule ev_ok_thread [OF e]) simp_all
    then have "ev_ok ?v" by (rule ev_ok_thread) (simp_all add: bit_simps)
    ultimately have v: "sched_ok ?v" using c by (simp add: sched_ok_lim cpu_ok_def)
    have "sched_ok (set_thread th (\<lambda>t. t\<lparr>wake_active := False\<rparr>) ?v)" by (rule sched_ok_thread [OF v]) simp_all
    then have "\<exists>s'. thread_wakeup (wake_event ?t) (set_thread th (\<lambda>t. t\<lparr>wake_active := False\<rparr>) ?v) = Some s' \<and> sched_ok s' \<and>
        same_cpu s s'"
      using thread_wakeup_ok [of "set_thread th (\<lambda>t. t\<lparr>wake_active := False\<rparr>) ?v" "wake_event ?t" False THREAD_AWAKENED]
      unfolding thread_wakeup_def by (simp add: same_cpu_def del: set_thread_simps(1))
    moreover have "thread_dispatch th s = (if wake_active ?t
        then thread_wakeup (wake_event ?t) (set_thread th (\<lambda>t. t\<lparr>wake_active := False\<rparr>) ?v) else Some ?v)"
      using bits wait(2) nw by (simp add: thread_dispatch_def Let_def dispatch_cases)
    ultimately show ?thesis using v by (auto simp: same_cpu_def)
  qed
qed

lemma invoke_spec:
  assumes l: "lim {old, new} s" and cur: "pr_current s = old" and new: "new = pr_idle_thread s \<longleftrightarrow> pr_state s \<noteq> PROCESSOR_RUNNING"
    and e: "ev_ok s"
  shows "\<exists>s'. thread_invoke old new r s = Some s' \<and> sched_ok s' \<and> pr_current s' = new"
proof -
  let ?u = "set_thread new (\<lambda>t. t\<lparr>th_state := th_state t AND NOT TH_UNINT\<rparr>) s"
  have idl: "(TH_RUN OR TH_IDLE) AND NOT TH_UNINT = TH_RUN OR TH_IDLE"
    by (rule bit_word_eqI) (auto simp: bit_simps)
  have u: "lim {old, new} ?u" by (rule lim_thread [OF l]) (use limD(2) [OF l] idl in \<open>auto simp: bit_simps\<close>)
  have ue: "ev_ok ?u" by (rule ev_ok_thread [OF e]) (simp_all add: bit_simps)
  show ?thesis
  proof (cases "old = new")
    case True
    then show ?thesis using u ue new cur by (simp add: thread_invoke_def Let_def sched_ok_lim cpu_ok_def)
  next
    case False
    let ?v = "(set_thread old (\<lambda>t. t\<lparr>reason := r\<rparr>) ?u)\<lparr>pr_current := new\<rparr>"
    have "lim {old, new} (set_thread old (\<lambda>t. t\<lparr>reason := r\<rparr>) ?u)" by (rule lim_thread [OF u]) simp_all
    then have "lim {old, pr_current ?v} ?v" by (simp only: switch_frame) simp
    moreover have "cpu_ok ?v" using new by (simp add: cpu_ok_def)
    moreover have "ev_ok (set_thread old (\<lambda>t. t\<lparr>reason := r\<rparr>) ?u)" by (rule ev_ok_thread [OF ue]) simp_all
    then have "ev_ok ?v" by (simp only: switch_frame)
    ultimately show ?thesis using dispatch_spec [of old ?v] False by (auto simp: thread_invoke_def Let_def same_cpu_def)
  qed
qed

lemma select_spec:
  assumes l: "lim {pr_current s} s" and st: "pr_state s = PROCESSOR_RUNNING" and e: "ev_ok s"
  shows "\<exists>new s'. thread_select s = Some (new, s') \<and> lim {pr_current s, new} s' \<and> pr_current s' = pr_current s \<and>
    (new = pr_idle_thread s' \<longleftrightarrow> pr_state s' \<noteq> PROCESSOR_RUNNING) \<and> ev_ok s' \<and> pr_idle_thread s' = pr_idle_thread s"
proof -
  let ?c = "pr_current s"
  let ?u = "set_thread ?c (\<lambda>t. t\<lparr>unconsumed_quantum := pr_quantum s\<rparr>) (s\<lparr>pr_first_quantum := True\<rparr>)" let ?t = "thread_of ?u ?c"
  have "lim {?c} (s\<lparr>pr_first_quantum := True\<rparr>)" using l by simp
  then have u: "lim {?c} ?u" by (rule lim_thread) simp_all
  have "ev_ok (s\<lparr>pr_first_quantum := True\<rparr>)" using e by simp
  then have ue: "ev_ok ?u" by (rule ev_ok_thread) simp_all
  have us: "pr_state ?u = PROCESSOR_RUNNING" using st by simp
  let ?k = "(\<not> rq_count (sc_rq ?u) > 0 \<or> rq_low (sc_rq ?u) > sched_pri ?t) \<and> th_state ?t = TH_RUN"
  obtain new v where v: "(if ?k then map_option (Pair ?c) (if sched_stamp ?t \<noteq> sched_tick ?u then update_priority ?c ?u else Some ?u)
      else map_option (\<lambda>(th, s). (case th of Some th \<Rightarrow> th | None \<Rightarrow> pr_idle_thread s, s)) (choose_pset_thread ?u)) = Some (new, v)"
    "lim {?c, new} v" "pr_current v = ?c" "new = pr_idle_thread v \<longleftrightarrow> pr_state v \<noteq> PROCESSOR_RUNNING" "ev_ok v"
    "pr_idle_thread v = pr_idle_thread s"
  proof (cases ?k)
    case True
    have ci: "?c \<noteq> pr_idle_thread ?u"
    proof
      assume "?c = pr_idle_thread ?u"
      then have "TH_RUN = TH_RUN OR TH_IDLE" using True limD(2) [OF u] by simp
      then show False by (simp add: TH_RUN_def TH_IDLE_def)
    qed
    obtain v where v: "(if sched_stamp ?t \<noteq> sched_tick ?u then update_priority ?c ?u else Some ?u) = Some v" "place_ok v" "keeps ?u v"
      "\<And>x. placed v x \<longleftrightarrow> placed ?u x"
      using update_priority_spec [OF limD(1) [OF u] ci] limD(1) [OF u] by (cases "sched_stamp ?t = sched_tick ?u") auto
    have "lim {?c, ?c} v" using v(2,4) u unfolding lim_def no_wait_def by (simp add: keepsD [OF v(3)])
    moreover have "ev_ok v" by (rule ev_ok_core [OF ue]) (use v(3) in \<open>simp_all add: keeps_def\<close>)
    moreover have "?c = pr_idle_thread v \<longleftrightarrow> pr_state v \<noteq> PROCESSOR_RUNNING" using ci us by (simp add: keepsD [OF v(3)])
    ultimately show ?thesis using that [of ?c v] v(1) True by (simp add: keepsD [OF v(3)])
  next
    case False
    obtain r v where v: "choose_pset_thread ?u = Some (r, v)" "place_ok v" "keeps (?u\<lparr>pr_state := pr_state v\<rparr>) v"
      "\<And>x. placed v x \<longleftrightarrow> placed ?u x \<and> r \<noteq> Some x" "\<And>th. r = Some th \<Longrightarrow> runq (thread_of ?u th)"
      "pr_state v = (if r = None \<and> pr_state ?u = PROCESSOR_RUNNING then PROCESSOR_IDLE else pr_state ?u)"
      using choose_place [OF limD(1) [OF u]] by blast
    let ?n = "case r of Some th \<Rightarrow> th | None \<Rightarrow> pr_idle_thread v"
    have k: "pr_current v = ?c" "pr_idle_thread v = pr_idle_thread s" "sc_wait v = sc_wait ?u"
      "\<And>x. th_state (thread_of v x) = th_state (thread_of ?u x)" "\<And>x. wait_event (thread_of v x) = wait_event (thread_of ?u x)"
      "\<And>x. core (thread_of v x) = core (thread_of ?u x)"
      using v(3) by (simp_all add: keeps_def core_def)
    have nid: "th \<noteq> pr_idle_thread s \<and> th \<noteq> ?c \<and> placed ?u th" if "r = Some th" for th
      using v(5) [OF that] place_okD(4) [OF limD(1) [OF u]] limD(3) [OF u, of ?c] by (auto simp: placed_def)
    have "lim {?c, ?n} v"
      using u v(2,4) nid place_okD(4) [OF v(2)] unfolding lim_def no_wait_def k(2) k(4) k(5) by (cases r) auto
    moreover have "ev_ok v" by (rule ev_ok_core [OF ue k(3) k(6)])
    moreover have "?n = pr_idle_thread v \<longleftrightarrow> pr_state v \<noteq> PROCESSOR_RUNNING"
      using v(6) us nid k(2) by (cases r) auto
    moreover have "map_option (\<lambda>(th, s). (case th of Some th \<Rightarrow> th | None \<Rightarrow> pr_idle_thread s, s)) (choose_pset_thread ?u) = Some (?n, v)"
      using v(1) by simp
    ultimately show ?thesis using that [of ?n v] k(1,2) unfolding if_not_P [OF False] by blast
  qed
  let ?w = "v\<lparr>pr_quantum := if policy (thread_of v new) = POLICY_TIMESHARE then set_quantum v
    else unconsumed_quantum (thread_of v new)\<rparr>"
  have uc: "pr_current ?u = ?c" by simp
  have "thread_select s = Some (new, ?w)" unfolding thread_select_def Let_def uc v(1) by simp
  moreover have "lim {?c, new} ?w" using v(2) by simp
  moreover have "ev_ok ?w" using v(5) by simp
  ultimately show ?thesis using v(3,4,6) by (intro exI [of _ new] exI [of _ ?w]) simp
qed

lemma select_invoke:
  assumes l: "lim {pr_current s} s" and st: "pr_state s = PROCESSOR_RUNNING" and e: "ev_ok s"
  shows "\<exists>new u s'. thread_select s = Some (new, u) \<and> thread_invoke (pr_current s) new r u = Some s' \<and> sched_ok s' \<and>
    pr_current s' = new"
proof -
  obtain new u where u: "thread_select s = Some (new, u)" "lim {pr_current s, new} u" "pr_current u = pr_current s"
    "new = pr_idle_thread u \<longleftrightarrow> pr_state u \<noteq> PROCESSOR_RUNNING" "ev_ok u"
    using select_spec [OF l st e] by blast
  show ?thesis using invoke_spec [OF u(2,3,4,5), of r] u(1) by blast
qed

lemma block_spec:
  assumes ok: "sched_ok s" and cur: "pr_current s \<noteq> pr_idle_thread s"
  shows "\<exists>s'. thread_block_reason r s = Some s' \<and> sched_ok s'"
proof -
  let ?th = "pr_current s"
  obtain u where u: "(if th_state (thread_of s ?th) AND TH_ABORT \<noteq> 0 then clear_wait_locked ?th THREAD_INTERRUPTED True s else Some s) = Some u"
    "sched_ok u" "same_cpu s u"
    using clear_wait_spec [OF ok, of ?th THREAD_INTERRUPTED True] ok by (cases "th_abort (thread_of s ?th)") auto
  have c: "pr_current u = ?th" using u(3) by (simp add: same_cpu_def)
  have "lim {pr_current u} u" "cpu_ok u" "ev_ok u" using u(2) by (simp_all add: sched_ok_lim)
  moreover have "pr_current u \<noteq> pr_idle_thread u" using cur u(3) by (simp add: same_cpu_def)
  ultimately obtain new v s' where "thread_select (u\<lparr>pr_ast := False\<rparr>) = Some (new, v)" "thread_invoke ?th new r v = Some s'" "sched_ok s'"
    using select_invoke [of "u\<lparr>pr_ast := False\<rparr>" r] c by (auto simp: cpu_ok_def)
  then show ?thesis using u(1) by (simp add: thread_block_reason_def Let_def)
qed

lemma idle_spec:
  assumes ok: "sched_ok s" and cur: "pr_current s = pr_idle_thread s"
  shows "\<exists>s'. idle_thread_turn s = Some s' \<and> sched_ok s'"
proof -
  have l: "lim {pr_current s} s" and c: "cpu_ok s" and e: "ev_ok s" using ok by (simp_all add: sched_ok_lim)
  have p: "place_ok s" by (rule limD(1) [OF l])
  show ?thesis
  proof (cases "pr_state s")
    case PROCESSOR_RUNNING
    then show ?thesis using c cur by (simp add: cpu_ok_def)
  next
    case PROCESSOR_IDLE
    let ?u = "s\<lparr>pr_idle := False, pr_state := PROCESSOR_RUNNING\<rparr>"
    have "lim {pr_current ?u} (?u\<lparr>pr_ast := False\<rparr>)"
      using l p PROCESSOR_IDLE unfolding lim_def place_ok_def rq_ok_def placed_def by simp
    moreover have "ev_ok (?u\<lparr>pr_ast := False\<rparr>)" using e by (simp add: ev_ok_def wq_ok_def)
    ultimately obtain new v s' where v: "thread_select (?u\<lparr>pr_ast := False\<rparr>) = Some (new, v)"
      "thread_invoke (pr_current s) new 0 v = Some s'" "sched_ok s'"
      using select_invoke [of "?u\<lparr>pr_ast := False\<rparr>" 0] by auto
    have "th_state (thread_of s (pr_current s)) AND TH_ABORT = 0" using limD(2) [OF l] cur by (simp add: bit_or_iff)
    then have "idle_thread_turn s = Some s'"
      using PROCESSOR_IDLE v(1,2) by (simp add: idle_thread_turn_def thread_block_reason_def Let_def)
    then show ?thesis using v(3) by blast
  next
    case PROCESSOR_DISPATCHING
    let ?n = "pr_next s" let ?q = "if policy (thread_of s ?n) = POLICY_TIMESHARE then set_quantum s else unconsumed_quantum (thread_of s ?n)"
    let ?u = "s\<lparr>pr_next := NULL, pr_state := PROCESSOR_RUNNING, pr_first_quantum := True, pr_quantum := ?q\<rparr>"
    have n: "?n \<noteq> pr_idle_thread s" "\<not> runq (thread_of s ?n)" "placed s ?n"
      using place_okD(3,4) [OF p] PROCESSOR_DISPATCHING by (auto simp: placed_def)
    have i: "\<not> pr_idle s" using place_okD(2) [OF p] PROCESSOR_DISPATCHING by simp
    have pl: "placed ?u x \<longleftrightarrow> placed s x \<and> x \<noteq> ?n" for x using n(2) PROCESSOR_DISPATCHING by (auto simp: placed_def)
    have "place_ok ?u" using p i pl unfolding place_ok_def by (auto simp: rq_ok_def)
    then have "lim {pr_current s, ?n} ?u" using l n pl unfolding lim_def by (auto simp: no_wait_def)
    moreover have "?n = pr_idle_thread ?u \<longleftrightarrow> pr_state ?u \<noteq> PROCESSOR_RUNNING" using n by simp
    moreover have "ev_ok ?u" using e by (simp add: ev_ok_def wq_ok_def)
    ultimately obtain s' where "thread_invoke (pr_current s) ?n 0 ?u = Some s'" "sched_ok s'"
      using invoke_spec [of "pr_current s" ?n ?u 0] by auto
    then show ?thesis using PROCESSOR_DISPATCHING by (simp add: idle_thread_turn_def Let_def)
  qed
qed

subsection \<open>Reachable states\<close>

text \<open>
  What threads, interrupts and the clock can ask of the scheduler, and when.  A thread that starts to wait is the
  running one and waits for nothing yet; the events are addresses, and none is the marker \<open>WAKING_EVENT\<close>.
\<close>

datatype sched_op =
    Create addr | Assert_Wait addr bool bool | Will_Wait | Set_Timeout natural_t | Wakeup addr bool wait_result_t
  | Clear_Wait addr wait_result_t bool | Go addr | Block natural_t | Idle | Stop addr | Wait_Stopped addr | Unstop addr
  | Set_Pri addr int bool | Compute_Priority addr bool | Clock | Softclock | Sched_Tick | Charge addr natural_t

definition enabled :: "sched_op \<Rightarrow> sched \<Rightarrow> bool" where
  "enabled op s =
     (let cur = pr_current s; may_wait = (cur \<noteq> pr_idle_thread s \<and> wait_event (thread_of s cur) = NO_EVENT) in
      case op of
        Create th \<Rightarrow> th \<noteq> pr_idle_thread s \<and> th_state (thread_of s th) = 0
      | Assert_Wait event i f \<Rightarrow> may_wait \<and> event \<noteq> WAKING_EVENT
      | Will_Wait \<Rightarrow> may_wait
      | Go th \<Rightarrow> wait_event (thread_of s th) = NO_EVENT
      | Block r \<Rightarrow> cur \<noteq> pr_idle_thread s
      | Idle \<Rightarrow> cur = pr_idle_thread s
      | Stop th \<Rightarrow> may_wait \<and> th \<noteq> pr_idle_thread s \<and> wake_event (thread_of s th) \<noteq> WAKING_EVENT
      | Wait_Stopped th \<Rightarrow> may_wait \<and> th \<noteq> pr_idle_thread s \<and> wake_event (thread_of s th) \<noteq> WAKING_EVENT
      | Set_Pri th pri r \<Rightarrow> th \<noteq> pr_idle_thread s \<and> 0 \<le> pri \<and> pri \<le> MINPRI
      | Compute_Priority th r \<Rightarrow> th \<noteq> pr_idle_thread s
      | _ \<Rightarrow> True)"

definition softclock_turn :: "sched \<Rightarrow> sched option" where
  "softclock_turn s =
     (case softclock_take (sc_timers s) of
        Some (Some (telt, Thread_Timeout, th), ts) \<Rightarrow> thread_timeout_wait th (s\<lparr>sc_timers := ts\<rparr>)
      | Some (_, ts) \<Rightarrow> Some (s\<lparr>sc_timers := ts\<rparr>)
      | None \<Rightarrow> Some s)"

fun exec :: "sched_op \<Rightarrow> sched \<Rightarrow> sched option" where
  "exec (Create th) s = thread_create_start th s"
| "exec (Assert_Wait event i f) s = assert_wait event i f s"
| "exec Will_Wait s = Some (thread_will_wait (pr_current s) s)"
| "exec (Set_Timeout ticks) s = Some (thread_set_timeout ticks s)"
| "exec (Wakeup event one r) s = thread_wakeup_prim event one r s"
| "exec (Clear_Wait th r i) s = clear_wait_locked th r i s"
| "exec (Go th) s = thread_go th s"
| "exec (Block r) s = thread_block_reason r s"
| "exec Idle s = idle_thread_turn s"
| "exec (Stop th) s = map_option snd (thread_stop_turn th s)"
| "exec (Wait_Stopped th) s = map_option snd (thread_wait_turn th s)"
| "exec (Unstop th) s = thread_unstop th s"
| "exec (Set_Pri th pri r) s = set_pri th pri r s"
| "exec (Compute_Priority th r) s = compute_priority th r s"
| "exec Clock s = Some (s\<lparr>sc_timers := snd (timeout_tick (sc_timers s))\<rparr>)"
| "exec Softclock s = softclock_turn s"
| "exec Sched_Tick s = Some (s\<lparr>sched_tick := sched_tick s + 1\<rparr>)"
| "exec (Charge th n) s = Some (set_thread th (\<lambda>t. t\<lparr>timer_delta := timer_delta t + n\<rparr>) s)"

text \<open>The state once the first thread runs and the idle thread is known.\<close>

definition boot_state :: "sched \<Rightarrow> bool" where
  "boot_state s \<longleftrightarrow>
     sc_rq s = run_queue_init \<and> sc_wait s = replicate NUMQUEUES [] \<and> pr_state s = PROCESSOR_RUNNING \<and> \<not> pr_idle s \<and>
     pr_current s \<noteq> pr_idle_thread s \<and>
     (\<forall>th. \<not> runq (thread_of s th) \<and> wait_event (thread_of s th) = NO_EVENT \<and>
        (th \<noteq> pr_idle_thread s \<longrightarrow> pri_ok (thread_of s th)) \<and>
        th_state (thread_of s th) = (if th = pr_current s then TH_RUN else
          if th = pr_idle_thread s then TH_RUN OR TH_IDLE else 0))"

inductive reachable :: "sched \<Rightarrow> bool" where
  boot: "boot_state s \<Longrightarrow> reachable s"
| step: "reachable s \<Longrightarrow> enabled op s \<Longrightarrow> exec op s = Some s' \<Longrightarrow> reachable s'"

lemma boot_ok: "boot_state s \<Longrightarrow> sched_ok s"
proof -
  assume b: "boot_state s"
  have q: "rq_runq run_queue_init ! i = []" if "i < NRQS" for i using that by (simp add: run_queue_init_def)
  have p: "\<not> placed s th" for th using b by (simp add: boot_state_def placed_def)
  have "rq_ok s" using b wf_init q by (simp add: rq_ok_def boot_state_def)
  then have "run_ok s" using b p by (auto simp: run_ok_def place_ok_def boot_state_def bit_or_iff)
  moreover have "wq_ok s" using b by (simp add: wq_ok_def boot_state_def)
  moreover have "wait_event (thread_of s th) \<noteq> WAKING_EVENT" for th
    using b by (simp add: boot_state_def NO_EVENT_def WAKING_EVENT_def)
  ultimately show ?thesis by (simp add: sched_ok_def)
qed

lemma sched_ok_frame [simp]:
  "sched_ok (s\<lparr>sc_timers := ts\<rparr>) \<longleftrightarrow> sched_ok s" "sched_ok (s\<lparr>sched_tick := n\<rparr>) \<longleftrightarrow> sched_ok s"
  by (simp_all add: sched_ok_def run_ok_def place_ok_def rq_ok_def placed_def wq_ok_def)

lemma create_spec:
  assumes ok: "sched_ok s" and th: "th \<noteq> pr_idle_thread s" "th_state (thread_of s th) = 0"
  shows "\<exists>s'. thread_create_start th s = Some s' \<and> sched_ok s'"
proof -
  let ?f = "\<lambda>t. t\<lparr>th_state := TH_RUN, wait_result := wait_result (thread_of s th)\<rparr>"
  note run = sched_okD(1) [OF ok] and wq = sched_okD(2) [OF ok] and all = sched_okD(3) [OF ok]
  obtain v where v: "thread_setrun th False True (set_thread th ?f s) = Some v" "run_ok v" "keeps (set_thread th ?f s) v"
    using set_run_spec [OF run th(1) _ refl, of TH_RUN False True "wait_result (thread_of s th)"] th(2) wq_okD(4) [OF wq, of th]
    unfolding no_wait_def by auto
  have "set_thread th ?f s = set_thread th (\<lambda>t. t\<lparr>th_state := th_state t OR TH_RUN\<rparr>) s" using th(2) by (simp add: set_thread_def)
  then have e: "thread_create_start th s = Some v" using v(1) by (simp add: thread_create_start_def)
  have ev: "wait_event (thread_of v x) = wait_event (thread_of s x)" for x by (simp add: keepsD [OF v(3)])
  have wt: "th_waits (thread_of v x) = th_waits (thread_of s x)" for x using th(2) by (simp add: keepsD [OF v(3)])
  have "wq_ok v" by (rule wq_ok_core [OF wq _ ev wt]) (simp add: keepsD [OF v(3)])
  then show ?thesis using e v(2) all ev by (simp add: sched_ok_def)
qed

lemma timeout_ok: "sched_ok s \<Longrightarrow> \<exists>s'. thread_timeout_wait th (s\<lparr>sc_timers := ts\<rparr>) = Some s' \<and> sched_ok s'"
  using timeout_spec [of "s\<lparr>sc_timers := ts\<rparr>" th] by auto

lemma softclock_spec: "sched_ok s \<Longrightarrow> \<exists>s'. softclock_turn s = Some s' \<and> sched_ok s'"
  by (auto simp: softclock_turn_def timeout_ok split: option.splits timeout_fcn_t.splits)

text \<open>Every operation that may be asked for returns, and keeps the invariant.\<close>

lemma exec_ok:
  assumes ok: "sched_ok s" and en: "enabled op s"
  shows "\<exists>s'. exec op s = Some s' \<and> sched_ok s'"
proof (cases op)
  case (Create th)
  then show ?thesis using create_spec [OF ok] en by (simp add: enabled_def)
next
  case (Assert_Wait e i f)
  then show ?thesis using assert_wait_spec [OF ok, of e i f] en by (auto simp: enabled_def Let_def)
next
  case Will_Wait
  then show ?thesis using will_wait_spec [OF ok] en by (simp add: enabled_def Let_def)
next
  case (Wakeup e one r)
  then show ?thesis using thread_wakeup_ok [OF ok, of e one r] by auto
next
  case (Clear_Wait th r i)
  then show ?thesis using clear_wait_spec [OF ok, of th r i] by auto
next
  case (Go th)
  then show ?thesis using thread_go_spec [OF ok, of th] en by (auto simp: enabled_def Let_def)
next
  case (Block r)
  then show ?thesis using block_spec [OF ok] en by (simp add: enabled_def Let_def)
next
  case Idle
  then show ?thesis using idle_spec [OF ok] en by (simp add: enabled_def Let_def)
next
  case (Stop th)
  then show ?thesis using turn_spec(1) [OF ok, of th] en by (auto simp: enabled_def Let_def)
next
  case (Wait_Stopped th)
  then show ?thesis using turn_spec(2) [OF ok, of th] en by (auto simp: enabled_def Let_def)
next
  case (Unstop th)
  then show ?thesis using unstop_spec [OF ok, of th] by auto
next
  case (Set_Pri th pri r)
  then show ?thesis using set_pri_spec [OF run_okD(1) [OF sched_okD(1) [OF ok]], of th pri r] sched_ok_keeps [OF ok] en
    by (auto simp: enabled_def Let_def)
next
  case (Compute_Priority th r)
  then show ?thesis using compute_priority_spec [OF run_okD(1) [OF sched_okD(1) [OF ok]], of th r] sched_ok_keeps [OF ok] en
    by (auto simp: enabled_def Let_def)
next
  case (Charge th n)
  then show ?thesis using sched_ok_thread [OF ok, of "\<lambda>t. t\<lparr>timer_delta := timer_delta t + n\<rparr>" th] by simp
next
  case Softclock
  then show ?thesis using softclock_spec [OF ok] by simp
qed (use ok in \<open>simp_all add: thread_set_timeout_def Let_def\<close>)

lemma reachable_ok: "reachable s \<Longrightarrow> sched_ok s"
  by (induction rule: reachable.induct) (use boot_ok exec_ok in force)+

subsection \<open>What holds of the scheduler\<close>

text \<open>
  A run of the scheduler to apply the properties to: thread 8 runs after the boot and starts thread 24; both wait for the
  event 100, and the idle thread 16 runs.
\<close>

definition thread0 :: "natural_t \<Rightarrow> int \<Rightarrow> thread" where
  "thread0 state pri =
     \<lparr>th_state = state, wait_event = NO_EVENT, wait_result = THREAD_AWAKENED, wake_active = False, wake_event = 4, th_timer = 0,
      runq = False, whichq = 0, priority = pri, sched_pri = pri, policy = POLICY_TIMESHARE, depress_priority = - 1,
      cpu_usage = 0, sched_usage = 0, cpu_delta = 0, sched_delta = 0, timer_delta = 0, sched_stamp = 0, sleep_stamp = 0,
      unconsumed_quantum = 0, sched_data = 0, reason = 0\<rparr>"

definition sched0 :: sched where
  "sched0 =
     \<lparr>sc_threads = (\<lambda>th. if th = 8 then thread0 TH_RUN 12 else if th = 16 then thread0 (TH_RUN OR TH_IDLE) 31 else thread0 0 12),
      sc_rq = run_queue_init, sc_wait = replicate NUMQUEUES [],
      sc_timers = \<lparr>telts = (\<lambda>_. \<lparr>telt_fcn = Thread_Timeout, telt_param = 0, telt_ticks = 0, telt_set = TELT_UNSET\<rparr>),
        timer_chain = [], timeout_ticks = 0, ref_count = (\<lambda>_. 1)\<rparr>,
      sched_tick = 0, sched_load = 0, set_quantum = 10, pr_quantum = 10, pr_state = PROCESSOR_RUNNING, pr_next = 0,
      pr_first_quantum = True, pr_idle = False, pr_current = 8, pr_idle_thread = 16, pr_ast = False\<rparr>"

fun sched_run :: "sched_op list \<Rightarrow> sched \<Rightarrow> sched option" where
  "sched_run [] s = Some s"
| "sched_run (op # ops) s = (if enabled op s then Option.bind (exec op s) (sched_run ops) else None)"

lemma reachable_run: "reachable s \<Longrightarrow> sched_run ops s = Some s' \<Longrightarrow> reachable s'"
  by (induction ops arbitrary: s) (auto split: if_splits bind_splits intro: reachable.step)

lemma reachable0: "reachable sched0"
  by (rule reachable.boot) (simp add: boot_state_def sched0_def thread0_def pri_ok_def pri_consts)

definition waits_ops :: "sched_op list" where
  "waits_ops = [Create 24, Assert_Wait 100 True False, Block 0, Assert_Wait 100 True False, Block 0]"

definition sched2 :: sched where
  "sched2 = the (sched_run waits_ops sched0)"

lemma sched2_facts:
  "sched_run waits_ops sched0 \<noteq> None" "sc_wait sched2 ! wait_hash 100 = [8, 24]" "wait_event (thread_of sched2 8) = 100"
  "wait_event (thread_of sched2 24) = 100" "pr_current sched2 = 16"
  "enabled Idle sched2" "enabled (Go 24) sched2 = False"
  by code_simp+

definition sched1 :: sched where
  "sched1 = the (exec (Create 24) sched0)"

definition stop_ops :: "sched_op list" where
  "stop_ops = [Create 24, Block 0, Will_Wait, Block 0, Stop 24]"

definition sched3 :: sched where
  "sched3 = the (sched_run stop_ops sched0)"

lemma sched1_facts: "exec (Create 24) sched0 \<noteq> None" "enabled (Create 24) sched0" "ready sched1 12 = [24]"
  "sched_pri (thread_of sched1 24) = 12" "rq_low (sc_rq sched1) = 12" "\<forall>i \<in> {0..<12}. ready sched1 i = []"
  "pr_idle_thread sched1 = 16"
  by code_simp+

lemma reachable1: "reachable sched1"
  using reachable.step [OF reachable0 sched1_facts(2), of sched1] sched1_facts(1) by (auto simp: sched1_def)

lemma sched3_facts:
  "sched_run stop_ops sched0 \<noteq> None" "th_state (thread_of sched3 24) = TH_SUSP OR TH_WAIT"
  "wait_event (thread_of sched3 24) = NO_EVENT" "pr_current sched3 = 8"
  by code_simp+

lemma reachable3: "reachable sched3"
  using reachable_run [OF reachable0, of stop_ops sched3] sched3_facts(1) by (auto simp: sched3_def)

lemma reachable2: "reachable sched2"
  using reachable_run [OF reachable0, of waits_ops sched2] sched2_facts(1) by (auto simp: sched2_def)

text \<open>
  C6: The scheduler never panics and never fails: in every state it can reach, every operation that may be asked for
  returns.  No priority out of range is enqueued, no empty queue is taken from, the bit string of the run queue
  always has a bit set, a woken thread was waiting, and the thread switched from is in a state that
  \<open>thread_dispatch\<close> knows.
\<close>

theorem scheduler_never_panics:
  assumes "reachable s" "enabled op s"
  shows "exec op s \<noteq> None"
  using exec_ok [OF reachable_ok [OF assms(1)] assms(2)] by blast

theorem scheduler_never_panics_witness: "exec Idle sched2 \<noteq> None \<and> exec (Wakeup 100 True THREAD_TIMED_OUT) sched2 \<noteq> None"
  using scheduler_never_panics [OF reachable2 sched2_facts(6)] scheduler_never_panics [OF reachable2, of "Wakeup 100 True THREAD_TIMED_OUT"]
  by (simp add: enabled_def)

text \<open>
  C7: No runnable thread is lost and none is run twice: in every state the scheduler can reach, a thread (other than the
  idle thread) has \<open>TH_RUN\<close> set exactly when it is the running thread, the next thread of the dispatched processor or on
  the run queue, it is only one of the three, and it is on the queue of its priority only, once; it waits for no event
  then, so that it is in no wait queue, which would use the same links.  A thread that waits for
  an event is in the wait queue of the event, once, and has \<open>TH_WAIT\<close> set; the queues hold no other threads.  The idle
  thread runs exactly when the processor is idle or being dispatched, and it is on no queue.
\<close>

theorem runnable_exactly_once:
  assumes "reachable s"
  shows "(\<forall>th. th \<noteq> pr_idle_thread s \<longrightarrow>
      (th_state (thread_of s th) AND TH_RUN \<noteq> 0 \<longleftrightarrow>
         th = pr_current s \<or> (pr_state s = PROCESSOR_DISPATCHING \<and> th = pr_next s) \<or> (\<exists>i < NRQS. th \<in> set (ready s i)))) \<and>
    (\<forall>th. \<forall>i < NRQS. th \<in> set (ready s i) \<longrightarrow>
      th \<noteq> pr_current s \<and> \<not> (pr_state s = PROCESSOR_DISPATCHING \<and> th = pr_next s) \<and> th \<noteq> pr_idle_thread s \<and>
      sched_pri (thread_of s th) = int i \<and> distinct (ready s i) \<and> wait_event (thread_of s th) = NO_EVENT) \<and>
    (pr_state s = PROCESSOR_DISPATCHING \<longrightarrow> pr_next s \<noteq> pr_current s \<and> pr_next s \<noteq> pr_idle_thread s) \<and>
    (\<forall>th. \<forall>i < NUMQUEUES. (th \<in> set (sc_wait s ! i) \<longleftrightarrow>
        wait_event (thread_of s th) \<noteq> NO_EVENT \<and> wait_hash (wait_event (thread_of s th)) = i) \<and> distinct (sc_wait s ! i)) \<and>
    (\<forall>th. wait_event (thread_of s th) \<noteq> NO_EVENT \<longrightarrow> th_state (thread_of s th) AND TH_WAIT \<noteq> 0 \<and> th \<noteq> pr_idle_thread s) \<and>
    (pr_current s = pr_idle_thread s \<longleftrightarrow> pr_state s \<noteq> PROCESSOR_RUNNING)"
proof -
  note ok = reachable_ok [OF assms]
  note run = run_okD [OF sched_okD(1) [OF ok]] and wq = wq_okD [OF sched_okD(2) [OF ok]] and all = sched_okD(3) [OF ok]
  note rq = rq_okD [OF place_okD(1) [OF run(1)]]
  have q: "runq (thread_of s th) \<longleftrightarrow> (\<exists>i < NRQS. th \<in> set (ready s i))" for th
  proof
    assume on: "runq (thread_of s th)"
    have "nat (sched_pri (thread_of s th)) < NRQS" using rq(3) [OF on] by (auto simp: pri_consts)
    then show "\<exists>i < NRQS. th \<in> set (ready s i)" using rq(5) on by blast
  qed (use rq(5) in blast)
  have p1: "\<forall>th. th \<noteq> pr_idle_thread s \<longrightarrow>
      (th_state (thread_of s th) AND TH_RUN \<noteq> 0 \<longleftrightarrow>
         th = pr_current s \<or> (pr_state s = PROCESSOR_DISPATCHING \<and> th = pr_next s) \<or> (\<exists>i < NRQS. th \<in> set (ready s i)))"
    using run(5) q by (auto simp: placed_def)
  have p2: "\<forall>th. \<forall>i < NRQS. th \<in> set (ready s i) \<longrightarrow>
      th \<noteq> pr_current s \<and> \<not> (pr_state s = PROCESSOR_DISPATCHING \<and> th = pr_next s) \<and> th \<noteq> pr_idle_thread s \<and>
      sched_pri (thread_of s th) = int i \<and> distinct (ready s i) \<and> wait_event (thread_of s th) = NO_EVENT"
  proof (intro allI impI)
    fix th i assume i: "i < NRQS" and th: "th \<in> set (ready s i)"
    have on: "runq (thread_of s th)" "nat (sched_pri (thread_of s th)) = i" using rq(5) [OF i] th by simp_all
    moreover have "0 \<le> sched_pri (thread_of s th)" using rq(3) [OF on(1)] by simp
    ultimately show "th \<noteq> pr_current s \<and> \<not> (pr_state s = PROCESSOR_DISPATCHING \<and> th = pr_next s) \<and> th \<noteq> pr_idle_thread s \<and>
        sched_pri (thread_of s th) = int i \<and> distinct (ready s i) \<and> wait_event (thread_of s th) = NO_EVENT"
      using rq(2) [OF i] run(2) place_okD(3,4) [OF run(1)] run(7) [of th] all by (auto simp: placed_def no_wait_def)
  qed
  have p3: "pr_state s = PROCESSOR_DISPATCHING \<longrightarrow> pr_next s \<noteq> pr_current s \<and> pr_next s \<noteq> pr_idle_thread s"
    using run(2) place_okD(4) [OF run(1)] by (auto simp: placed_def)
  have p4: "\<forall>th. \<forall>i < NUMQUEUES. (th \<in> set (sc_wait s ! i) \<longleftrightarrow>
        wait_event (thread_of s th) \<noteq> NO_EVENT \<and> wait_hash (wait_event (thread_of s th)) = i) \<and> distinct (sc_wait s ! i)"
    using wq(2,3) all by blast
  have p5: "\<forall>th. wait_event (thread_of s th) \<noteq> NO_EVENT \<longrightarrow> th_state (thread_of s th) AND TH_WAIT \<noteq> 0 \<and> th \<noteq> pr_idle_thread s"
    using wq(4) idle_thread_waits_not [OF sched_okD(1) [OF ok]] by simp
  have p6: "pr_current s = pr_idle_thread s \<longleftrightarrow> pr_state s \<noteq> PROCESSOR_RUNNING" by (rule run(4))
  show ?thesis by (intro conjI p1 p2 p3 p4 p5 p6)
qed

theorem runnable_exactly_once_witness:
  "24 \<in> set (ready sched1 12) \<and> th_state (thread_of sched1 24) AND TH_RUN \<noteq> 0 \<and> pr_current sched1 \<noteq> 24 \<and>
    24 \<notin> set (concat (sc_wait sched1)) \<and> 8 \<in> set (sc_wait sched2 ! wait_hash 100)"
proof -
  have on: "24 \<in> set (ready sched1 12)" "(24 :: addr) \<noteq> pr_idle_thread sched1" "12 < NRQS"
    using sched1_facts(3,7) by (simp_all add: NRQS_def)
  note all = runnable_exactly_once [OF reachable1]
  have run: "th_state (thread_of sched1 24) AND TH_RUN \<noteq> 0" using all [THEN conjunct1, rule_format, of 24] on by blast
  have cur: "24 \<noteq> pr_current sched1" using all [THEN conjunct2, THEN conjunct1, rule_format, OF on(3,1)] by blast
  have "wait_event (thread_of sched1 24) = NO_EVENT" "length (sc_wait sched1) = NUMQUEUES" by code_simp+
  then have "24 \<notin> set (concat (sc_wait sched1))"
    using all [THEN conjunct2, THEN conjunct2, THEN conjunct2, THEN conjunct1, rule_format, of _ 24]
    by (auto simp: in_set_conv_nth)
  then show ?thesis using on(1) run cur sched2_facts(2) by auto
qed

text \<open>
  C8: A wakeup wakes exactly the threads that wait for the event, or the one that is first in the queue: it takes them off
  the wait queue, clears their \<open>TH_WAIT\<close>, tells them the result, and makes them run unless they are stopped in an
  interruptible wait; what the other threads wait for, their states and their results stay.
\<close>

theorem wakeup_exact:
  assumes "reachable s"
  shows "\<exists>s' W. thread_wakeup_prim event one_thread result s = Some s' \<and>
    W = (let all = [th \<leftarrow> sc_wait s ! wait_hash event. wait_event (thread_of s th) = event]
         in if one_thread then take 1 all else all) \<and>
    (event \<noteq> NO_EVENT \<and> \<not> one_thread \<longrightarrow> set W = {th. wait_event (thread_of s th) = event}) \<and>
    sc_wait s' = (sc_wait s)[wait_hash event := [th \<leftarrow> sc_wait s ! wait_hash event. th \<notin> set W]] \<and>
    (\<forall>th. if th \<in> set W
      then wait_event (thread_of s' th) = NO_EVENT \<and> wait_result (thread_of s' th) = result \<and>
        th_state (thread_of s' th) AND TH_WAIT = 0 \<and>
        (th_state (thread_of s' th) AND TH_RUN \<noteq> 0 \<longleftrightarrow>
           \<not> (th_state (thread_of s th) AND (TH_SUSP OR TH_RUN OR TH_UNINT) = TH_SUSP))
      else wait_event (thread_of s' th) = wait_event (thread_of s th) \<and>
        wait_result (thread_of s' th) = wait_result (thread_of s th) \<and> th_state (thread_of s' th) = th_state (thread_of s th))"
proof -
  note ok = reachable_ok [OF assms]
  let ?q = "sc_wait s ! wait_hash event" let ?w = "\<lambda>th. wait_event (thread_of s th) = event"
  let ?W = "to_wake ?w one_thread ?q"
  obtain s' where s': "thread_wakeup_prim event one_thread result s = Some s'"
    "sc_wait s' = (sc_wait s)[wait_hash event := [th \<leftarrow> ?q. th \<notin> set ?W]]"
    "\<And>x. core (thread_of s' x) = core (if x \<in> set ?W then awoken result (thread_of s x) else thread_of s x)"
    using wakeup_spec [OF ok, of event one_thread result] by blast
  have W: "?W = (let all = filter ?w ?q in if one_thread then take 1 all else all)" by (simp add: to_wake_def Let_def)
  have q: "th \<in> set ?q \<longleftrightarrow> wait_event (thread_of s th) \<noteq> NO_EVENT \<and> wait_hash (wait_event (thread_of s th)) = wait_hash event" for th
    using wq_okD(3) [OF sched_okD(2) [OF ok] hash_less] sched_okD(3) [OF ok] by blast
  have "set ?W = {th. ?w th}" if "event \<noteq> NO_EVENT" "\<not> one_thread" using that q by (auto simp: to_wake_def)
  moreover have "wait_event (thread_of s' th) = NO_EVENT \<and> wait_result (thread_of s' th) = result \<and>
        th_state (thread_of s' th) AND TH_WAIT = 0 \<and>
        (th_state (thread_of s' th) AND TH_RUN \<noteq> 0 \<longleftrightarrow>
           \<not> (th_state (thread_of s th) AND (TH_SUSP OR TH_RUN OR TH_UNINT) = TH_SUSP))" if "th \<in> set ?W" for th
  proof -
    have c: "core (thread_of s' th) = core (awoken result (thread_of s th))" using s'(3) [of th] that by simp
    have "th_state (thread_of s th) AND (TH_SUSP OR TH_RUN OR TH_UNINT) = TH_SUSP \<longleftrightarrow>
        th_susp (thread_of s th) \<and> \<not> th_runs (thread_of s th) \<and> \<not> th_unint (thread_of s th)"
      by (auto simp: masked_eq bit_or_iff)
    then show ?thesis using coreD(1-3) [OF c] by (auto simp: woken_def bit_simps)
  qed
  moreover have "wait_event (thread_of s' th) = wait_event (thread_of s th) \<and>
        wait_result (thread_of s' th) = wait_result (thread_of s th) \<and> th_state (thread_of s' th) = th_state (thread_of s th)"
    if "th \<notin> set ?W" for th
    using coreD(1-3) [of "thread_of s' th" "thread_of s th"] s'(3) [of th] that by simp
  ultimately show ?thesis using s'(1,2) W by (intro exI [of _ s'] exI [of _ ?W]) simp
qed

theorem wakeup_exact_witness:
  "\<exists>s'. thread_wakeup_prim 100 True THREAD_AWAKENED sched2 = Some s' \<and> sc_wait s' ! wait_hash 100 = [24] \<and>
    wait_event (thread_of s' 8) = NO_EVENT \<and> wait_event (thread_of s' 24) = 100"
proof -
  obtain s' W where s': "thread_wakeup_prim 100 True THREAD_AWAKENED sched2 = Some s'"
    "W = (let all = [th \<leftarrow> sc_wait sched2 ! wait_hash 100. wait_event (thread_of sched2 th) = 100] in if True then take 1 all else all)"
    "sc_wait s' = (sc_wait sched2)[wait_hash 100 := [th \<leftarrow> sc_wait sched2 ! wait_hash 100. th \<notin> set W]]"
    "\<forall>th. if th \<in> set W
      then wait_event (thread_of s' th) = NO_EVENT \<and> wait_result (thread_of s' th) = THREAD_AWAKENED \<and>
        th_state (thread_of s' th) AND TH_WAIT = 0 \<and>
        (th_state (thread_of s' th) AND TH_RUN \<noteq> 0 \<longleftrightarrow>
           \<not> (th_state (thread_of sched2 th) AND (TH_SUSP OR TH_RUN OR TH_UNINT) = TH_SUSP))
      else wait_event (thread_of s' th) = wait_event (thread_of sched2 th) \<and>
        wait_result (thread_of s' th) = wait_result (thread_of sched2 th) \<and>
        th_state (thread_of s' th) = th_state (thread_of sched2 th)"
    using wakeup_exact [OF reachable2, of 100 True THREAD_AWAKENED] by (elim exE conjE) (rule that)
  have W: "W = [8]" using s'(2) by (simp add: sched2_facts)
  moreover have "length (sc_wait sched2) = NUMQUEUES" by code_simp
  ultimately show ?thesis using s'(1,3) s'(4) [rule_format, of 8] s'(4) [rule_format, of 24] sched2_facts by simp
qed

text \<open>
  C9: The run queue is a queue of threads for each priority: \<open>run_queue_enqueue\<close> adds the thread to the queue of its
  priority, at the end it is told; \<open>rem_runq\<close> takes just that thread out; \<open>choose_pset_thread\<close> takes the first thread of
  the first queue that is not empty, which the lowest bit of the bitmap names, and idles the processor when there is
  none.
\<close>

theorem run_queue_exact:
  assumes ok: "rq_ok s"
  shows "(\<not> runq (thread_of s th) \<and> 0 \<le> sched_pri (thread_of s th) \<and> sched_pri (thread_of s th) \<le> MINPRI \<longrightarrow>
      (\<exists>s'. run_queue_enqueue th tail s = Some (rq_count (sc_rq s), s') \<and> rq_ok s' \<and>
        (\<forall>i. ready s' i = (if int i = sched_pri (thread_of s th)
           then if tail then ready s i @ [th] else th # ready s i else ready s i)))) \<and>
    (sched_pri (thread_of s th) < 0 \<or> MINPRI < sched_pri (thread_of s th) \<longrightarrow> run_queue_enqueue th tail s = None) \<and>
    (runq (thread_of s th) \<longrightarrow> (\<exists>s'. rem_runq th s = Some (True, s') \<and> rq_ok s' \<and> \<not> runq (thread_of s' th) \<and>
        (\<forall>i. ready s' i = (if int i = sched_pri (thread_of s th) then remove1 th (ready s i) else ready s i)))) \<and>
    (i < NRQS \<and> ready s i = th # q \<and> (\<forall>j < i. ready s j = []) \<longrightarrow>
      (\<exists>s'. choose_pset_thread s = Some (Some th, s') \<and> rq_ok s' \<and> \<not> runq (thread_of s' th) \<and>
        (\<forall>j. ready s' j = (if j = i then q else ready s j)) \<and> rq_low (sc_rq s) = int i)) \<and>
    ((\<forall>i < NRQS. ready s i = []) \<longrightarrow>
      (\<exists>s'. choose_pset_thread s = Some (None, s') \<and> sc_rq s' = sc_rq s \<and>
        (pr_state s = PROCESSOR_RUNNING \<longrightarrow> pr_state s' = PROCESSOR_IDLE \<and> pr_idle s')))"
proof -
  have p1: "\<exists>s'. run_queue_enqueue th tail s = Some (rq_count (sc_rq s), s') \<and> rq_ok s' \<and>
        (\<forall>i. ready s' i = (if int i = sched_pri (thread_of s th)
           then if tail then ready s i @ [th] else th # ready s i else ready s i))"
    if a: "\<not> runq (thread_of s th) \<and> 0 \<le> sched_pri (thread_of s th) \<and> sched_pri (thread_of s th) \<le> MINPRI"
  proof -
    have "int j = sched_pri (thread_of s th) \<longleftrightarrow> j = nat (sched_pri (thread_of s th))" for j using a by auto
    then show ?thesis using enqueue_spec [OF ok _ refl, of th tail] a unfolding Let_def by (auto simp del: set_thread_simps)
  qed
  have p2: "run_queue_enqueue th tail s = None" if "sched_pri (thread_of s th) < 0 \<or> MINPRI < sched_pri (thread_of s th)"
    using that by (auto simp: run_queue_enqueue_def Let_def)
  have p3: "\<exists>s'. rem_runq th s = Some (True, s') \<and> rq_ok s' \<and> \<not> runq (thread_of s' th) \<and>
        (\<forall>i. ready s' i = (if int i = sched_pri (thread_of s th) then remove1 th (ready s i) else ready s i))"
    if on: "runq (thread_of s th)"
  proof -
    have "int j = sched_pri (thread_of s th) \<longleftrightarrow> j = nat (sched_pri (thread_of s th))" for j using rq_okD(3) [OF ok on] by auto
    then show ?thesis using rem_runq_spec [OF ok on refl] unfolding Let_def by auto
  qed
  have p4: "\<exists>s'. choose_pset_thread s = Some (Some th, s') \<and> rq_ok s' \<and> \<not> runq (thread_of s' th) \<and>
        (\<forall>j. ready s' j = (if j = i then q else ready s j)) \<and> rq_low (sc_rq s) = int i"
    if h: "i < NRQS \<and> ready s i = th # q \<and> (\<forall>j < i. ready s j = [])"
  proof -
    have "rq_count (sc_rq s) > 0" using low_empty [OF rq_okD(1) [OF ok]] h by fastforce
    then obtain R i' th' q' where R: "choose_pset_thread s = Some (Some th', set_thread th' (\<lambda>t. t\<lparr>runq := False\<rparr>) (s\<lparr>sc_rq := R\<rparr>))"
      "rq_ok (set_thread th' (\<lambda>t. t\<lparr>runq := False\<rparr>) (s\<lparr>sc_rq := R\<rparr>))" "\<And>j. j < i' \<Longrightarrow> ready s j = []" "ready s i' = th' # q'"
      "rq_low (sc_rq s) = int i'" "\<And>j. ready (set_thread th' (\<lambda>t. t\<lparr>runq := False\<rparr>) (s\<lparr>sc_rq := R\<rparr>)) j = (if j = i' then q' else ready s j)"
      using choose_spec [OF ok] unfolding Let_def by blast
    have "i' = i" using R(3,4) h by (metis linorder_neqE_nat list.distinct(1))
    then show ?thesis using R h by (auto intro!: exI)
  qed
  have p5: "\<exists>s'. choose_pset_thread s = Some (None, s') \<and> sc_rq s' = sc_rq s \<and>
        (pr_state s = PROCESSOR_RUNNING \<longrightarrow> pr_state s' = PROCESSOR_IDLE \<and> pr_idle s')"
    if e: "\<forall>i < NRQS. ready s i = []"
  proof -
    have "\<not> rq_count (sc_rq s) > 0"
      using low_queue [OF rq_okD(1) [OF ok]] e by (auto simp: pri_consts)
    then show ?thesis by (simp add: choose_pset_thread_def Let_def)
  qed
  show ?thesis using p1 p2 p3 p4 p5 by blast
qed

theorem run_queue_exact_witness:
  "\<exists>s'. choose_pset_thread sched1 = Some (Some 24, s') \<and> ready s' 12 = [] \<and> rq_low (sc_rq sched1) = 12"
proof -
  have "rq_ok sched1" using reachable_ok [OF reachable1] by (simp add: sched_ok_def run_ok_def place_ok_def)
  moreover have "\<forall>j < 12. ready sched1 j = []" using sched1_facts(6) by simp
  ultimately show ?thesis using run_queue_exact [of sched1 24 True 12 "[]"] sched1_facts(3) by (auto simp: NRQS_def)
qed

text \<open>
  C31: A thread that is stopped in an interruptible wait stays off the processor whatever clears or ends its wait, until
  \<open>thread_unstop\<close>; but not against \<open>thread_go\<close>, the wakeup of the IPC system, which makes a stopped thread run.
\<close>

theorem stopped_until_unstop:
  assumes "reachable s" and stopped: "th_state (thread_of s th) AND (TH_SUSP OR TH_RUN OR TH_UNINT) = TH_SUSP"
  shows "(\<exists>s'. clear_wait_locked th r i s = Some s' \<and> th_state (thread_of s' th) AND TH_RUN = 0) \<and>
    (\<exists>s'. thread_wakeup_prim e one r s = Some s' \<and> th_state (thread_of s' th) AND TH_RUN = 0) \<and>
    (th_state (thread_of s th) AND TH_WAIT \<noteq> 0 \<and> wait_event (thread_of s th) = NO_EVENT \<longrightarrow>
      (\<exists>s'. thread_go th s = Some s' \<and> th_state (thread_of s' th) AND TH_RUN \<noteq> 0 \<and> th_state (thread_of s' th) AND TH_SUSP \<noteq> 0 \<and>
        placed s' th))"
proof -
  note ok = reachable_ok [OF assms(1)]
  have b: "th_susp (thread_of s th)" "\<not> th_runs (thread_of s th)" "\<not> th_unint (thread_of s th)"
    using stopped by (auto simp: masked_eq bit_or_iff)
  obtain u where u: "clear_wait_locked th r i s = Some u"
    "\<forall>x. core (thread_of u x) = core (if x = th \<and> cleared i (thread_of s th) then awoken r (thread_of s th) else thread_of s x)"
    using clear_wait_spec [OF ok, of th r i] by blast
  have cu: "core (thread_of u th) = core (if cleared i (thread_of s th) then awoken r (thread_of s th) else thread_of s th)"
    using u(2) [rule_format, of th] by simp
  have p1: "\<exists>s'. clear_wait_locked th r i s = Some s' \<and> th_state (thread_of s' th) AND TH_RUN = 0"
    using u(1) coreD(1) [OF cu] b by (auto split: if_splits simp: woken_def bit_simps)
  let ?P = "th \<in> set (to_wake (\<lambda>x. wait_event (thread_of s x) = e) one (sc_wait s ! wait_hash e))"
  obtain v where v: "thread_wakeup_prim e one r s = Some v"
    "core (thread_of v th) = core (if ?P then awoken r (thread_of s th) else thread_of s th)"
    using wakeup_spec [OF ok, of e one r] by blast
  have p2: "\<exists>s'. thread_wakeup_prim e one r s = Some s' \<and> th_state (thread_of s' th) AND TH_RUN = 0"
    using v(1) coreD(1) [OF v(2)] b by (auto split: if_splits simp: woken_def bit_simps)
  have p3: "\<exists>s'. thread_go th s = Some s' \<and> th_state (thread_of s' th) AND TH_RUN \<noteq> 0 \<and> th_state (thread_of s' th) AND TH_SUSP \<noteq> 0 \<and>
        placed s' th"
    if w: "th_state (thread_of s th) AND TH_WAIT \<noteq> 0 \<and> wait_event (thread_of s th) = NO_EVENT"
  proof -
    have run: "run_ok s" and nid: "th \<noteq> pr_idle_thread s"
      using sched_okD(1) [OF ok] idle_thread_waits_not w by auto
    obtain s' where s': "thread_go th s = Some s'" "sched_ok s'" "same_cpu s s'"
      "\<forall>x. core (thread_of s' x) = core (if x = th \<and> th_waits (thread_of s th)
       then (thread_of s th)\<lparr>th_state := (th_state (thread_of s th) AND NOT TH_WAIT) OR TH_RUN, wait_result := THREAD_AWAKENED\<rparr>
       else thread_of s x)"
      using thread_go_spec [OF ok, of th] w by blast
    have st: "th_state (thread_of s' th) = (th_state (thread_of s th) AND NOT TH_WAIT) OR TH_RUN"
      using coreD(1) [OF s'(4) [rule_format, of th]] w by simp
    have "th_runs (thread_of s' th)" "th_susp (thread_of s' th)" using st b by (simp_all add: bit_simps)
    moreover have "th \<noteq> pr_current s'" using run_okD(5) [OF run nid] b s'(3) by (auto simp: same_cpu_def)
    moreover have "th \<noteq> pr_idle_thread s'" using nid s'(3) by (simp add: same_cpu_def)
    ultimately show ?thesis using s'(1) run_okD(5) [OF sched_okD(1) [OF s'(2)]] by auto
  qed
  show ?thesis using p1 p2 p3 by blast
qed

theorem stopped_until_unstop_witness:
  "(\<exists>s'. clear_wait_locked 24 THREAD_INTERRUPTED True sched3 = Some s' \<and> th_state (thread_of s' 24) AND TH_RUN = 0) \<and>
    (\<exists>s'. thread_go 24 sched3 = Some s' \<and> th_state (thread_of s' 24) AND TH_RUN \<noteq> 0 \<and> th_state (thread_of s' 24) AND TH_SUSP \<noteq> 0)"
proof -
  have st: "th_state (thread_of sched3 24) AND (TH_SUSP OR TH_RUN OR TH_UNINT) = TH_SUSP" "th_state (thread_of sched3 24) AND TH_WAIT \<noteq> 0"
    unfolding sched3_facts by (simp_all add: TH_SUSP_def TH_RUN_def TH_UNINT_def TH_WAIT_def)
  show ?thesis using stopped_until_unstop [OF reachable3 st(1), of THREAD_INTERRUPTED True] st(2) sched3_facts(3) by blast
qed

end
