(* ===== verification/Vm_Map.thy ===== *)
theory Vm_Map
  imports Prelude
begin

section \<open>Address maps\<close>

text \<open>
  \<open>vm/vm_map.h\<close> and the operations of \<open>vm/vm_map.c\<close> on the entries of an address map.  The doubly linked list of entries
  is a list; an entry is named by a number, as by its address in the code, and 0 is the header, which
  \<open>vm_map_to_entry\<close> gives.  Objects of memory, physical maps and other threads are outside: what the code asks of them is
  appended to \<open>vm_calls\<close>, and where their answer matters it is an argument.  \<open>vm_lock\<close> counts how often the lock of the
  map was taken and not given back.  The pages have 4096 bytes.  \<open>vm_map_pmap_enter\<close>, which enters resident pages in the
  physical map ahead of their use, is left out.
\<close>

type_synonym vm_offset_t = natural_t
type_synonym vm_size_t = natural_t
type_synonym vm_prot_t = natural_t
type_synonym vme = nat

abbreviation VM_HDR :: vme where
  "VM_HDR \<equiv> 0"

record vm_map_entry =
  vme_addr :: vme
  vme_start :: vm_offset_t
  vme_end :: vm_offset_t
  vme_object :: addr
  vme_offset :: vm_offset_t
  is_shared :: bool
  is_sub_map :: bool
  in_transition :: bool
  needs_wakeup :: bool
  behavior :: "2 word"
  needs_copy :: bool
  protection :: "3 word"
  max_protection :: "3 word"
  inheritance :: "2 word"
  wired_count :: "16 word"
  user_wired_count :: "16 word"

datatype vm_call =
    Vm_Object_Reference addr
  | Vm_Object_Deallocate addr
  | Vm_Map_Reference addr
  | Vm_Map_Deallocate addr
  | Pmap_Protect vm_offset_t vm_offset_t vm_prot_t
  | Pmap_Remove vm_offset_t vm_offset_t
  | Wakeup_Space
  | Wakeup_Entry

record vm_map =
  vm_entries :: "vm_map_entry list"
  min_offset :: vm_offset_t
  max_offset :: vm_offset_t
  vm_map_size :: vm_size_t
  hint :: vme
  first_free :: vme
  wait_for_space :: bool
  wiring_required :: bool
  timestamp :: natural_t
  vm_lock :: int
  vm_calls :: "vm_call list"

definition PAGE_MASK :: vm_offset_t where
  "PAGE_MASK = 4095"
definition trunc_page :: "vm_offset_t \<Rightarrow> vm_offset_t" where
  "trunc_page x = x AND NOT PAGE_MASK"
definition page_aligned :: "vm_offset_t \<Rightarrow> bool" where
  "page_aligned x \<longleftrightarrow> x AND PAGE_MASK = 0"

definition VM_PROT_DEFAULT :: vm_prot_t where
  "VM_PROT_DEFAULT = 3"
definition VM_PROT_ALL :: vm_prot_t where
  "VM_PROT_ALL = 7"
definition VM_INHERIT_DEFAULT :: natural_t where
  "VM_INHERIT_DEFAULT = 1"
definition VM_BEHAVIOR_DEFAULT :: natural_t where
  "VM_BEHAVIOR_DEFAULT = 0"
definition VM_BEHAVIOR_RANDOM :: natural_t where
  "VM_BEHAVIOR_RANDOM = 1"
definition VM_BEHAVIOR_SEQUENTIAL :: natural_t where
  "VM_BEHAVIOR_SEQUENTIAL = 2"
definition VM_BEHAVIOR_RSEQNTL :: natural_t where
  "VM_BEHAVIOR_RSEQNTL = 3"

subsection \<open>Links\<close>

definition vm_call :: "vm_call \<Rightarrow> vm_map \<Rightarrow> vm_map" where
  "vm_call c m = m\<lparr>vm_calls := vm_calls m @ [c]\<rparr>"

definition vm_map_lock :: "vm_map \<Rightarrow> vm_map" where
  "vm_map_lock m = m\<lparr>vm_lock := vm_lock m + 1, timestamp := timestamp m + 1\<rparr>"

definition vm_map_unlock :: "vm_map \<Rightarrow> vm_map" where
  "vm_map_unlock m = m\<lparr>vm_lock := vm_lock m - 1\<rparr>"

definition SAVE_HINT :: "vme \<Rightarrow> vm_map \<Rightarrow> vm_map" where
  "SAVE_HINT p m = m\<lparr>hint := p\<rparr>"

text \<open>The header, seen as an entry, starts and ends with the map.\<close>

definition header_entry :: "vm_map \<Rightarrow> vm_map_entry" where
  "header_entry m = \<lparr>vme_addr = VM_HDR, vme_start = min_offset m, vme_end = max_offset m, vme_object = 0, vme_offset = 0,
     is_shared = False, is_sub_map = False, in_transition = False, needs_wakeup = False, behavior = 0, needs_copy = False,
     protection = 0, max_protection = 0, inheritance = 0, wired_count = 0, user_wired_count = 0\<rparr>"

definition entry_at :: "vm_map \<Rightarrow> vme \<Rightarrow> vm_map_entry" where
  "entry_at m p = (case find (\<lambda>e. vme_addr e = p) (vm_entries m) of Some e \<Rightarrow> e | None \<Rightarrow> header_entry m)"

definition set_entry :: "vme \<Rightarrow> (vm_map_entry \<Rightarrow> vm_map_entry) \<Rightarrow> vm_map \<Rightarrow> vm_map" where
  "set_entry p f m = m\<lparr>vm_entries := map (\<lambda>e. if vme_addr e = p then f e else e) (vm_entries m)\<rparr>"

fun after :: "vme \<Rightarrow> vme list \<Rightarrow> vme" where
  "after p (q # r # ps) = (if p = q then r else after p (r # ps))"
| "after p _ = VM_HDR"

definition vme_next :: "vm_map \<Rightarrow> vme \<Rightarrow> vme" where
  "vme_next m p = after p (VM_HDR # map vme_addr (vm_entries m))"

definition vme_prev :: "vm_map \<Rightarrow> vme \<Rightarrow> vme" where
  "vme_prev m p = after p (VM_HDR # rev (map vme_addr (vm_entries m)))"

fun insert_after :: "vme \<Rightarrow> vm_map_entry \<Rightarrow> vm_map_entry list \<Rightarrow> vm_map_entry list" where
  "insert_after p new [] = []"
| "insert_after p new (e # es) = (if vme_addr e = p then e # new # es else e # insert_after p new es)"

definition link_entry :: "vme \<Rightarrow> vm_map_entry \<Rightarrow> vm_map \<Rightarrow> vm_map" where
  "link_entry after_where new m =
     m\<lparr>vm_entries := if after_where = VM_HDR then new # vm_entries m else insert_after after_where new (vm_entries m)\<rparr>"

definition unlink_entry :: "vme \<Rightarrow> vm_map \<Rightarrow> vm_map" where
  "unlink_entry p m = m\<lparr>vm_entries := filter (\<lambda>e. vme_addr e \<noteq> p) (vm_entries m)\<rparr>"

text \<open>The loop of \<open>UPDATE_FIRST_FREE\<close>; it passes each entry at most once.\<close>

fun first_free_from :: "nat \<Rightarrow> vm_map \<Rightarrow> vme \<Rightarrow> vme" where
  "first_free_from 0 m ff = ff"
| "first_free_from (Suc n) m ff =
     (let nxt = vme_next m ff; s = trunc_page (vme_start (entry_at m nxt)) in
      if s = trunc_page (vme_end (entry_at m ff)) \<or> (s = trunc_page (vme_start (entry_at m ff)) \<and> nxt \<noteq> VM_HDR)
      then if nxt = VM_HDR then VM_HDR else first_free_from n m nxt
      else ff)"

definition UPDATE_FIRST_FREE :: "vme \<Rightarrow> vm_map \<Rightarrow> vm_map" where
  "UPDATE_FIRST_FREE ff m = m\<lparr>first_free := first_free_from (Suc (length (vm_entries m))) m ff\<rparr>"

definition vm_map_entry_link :: "vme \<Rightarrow> vm_map_entry \<Rightarrow> vm_map \<Rightarrow> vm_map" where
  "vm_map_entry_link after_where new m =
     (let m = link_entry after_where new m in UPDATE_FIRST_FREE (first_free m) m)"

definition vm_map_entry_unlink :: "vme \<Rightarrow> vm_map \<Rightarrow> vm_map" where
  "vm_map_entry_unlink p m =
     (let ff = (if vme_start (entry_at m p) \<le> vme_start (entry_at m (first_free m)) then vme_prev m p else first_free m)
      in UPDATE_FIRST_FREE ff (unlink_entry p m))"

subsection \<open>Lookup\<close>

definition vm_map_create :: "vm_offset_t \<Rightarrow> vm_offset_t \<Rightarrow> vm_map" where
  "vm_map_create mn mx = \<lparr>vm_entries = [], min_offset = mn, max_offset = mx, vm_map_size = 0, hint = VM_HDR, first_free = VM_HDR,
     wait_for_space = False, wiring_required = False, timestamp = 0, vm_lock = 0, vm_calls = []\<rparr>"

fun lookup_loop :: "nat \<Rightarrow> vme \<Rightarrow> vme \<Rightarrow> vm_offset_t \<Rightarrow> vm_map \<Rightarrow> bool \<times> vme \<times> vm_map" where
  "lookup_loop 0 cur stop address m = (False, VM_HDR, m)"
| "lookup_loop (Suc n) cur stop address m =
     (let e = entry_at m cur; miss = (False, vme_prev m cur, SAVE_HINT (vme_prev m cur) m) in
      if cur = stop then miss
      else if vme_end e > address then if address \<ge> vme_start e then (True, cur, SAVE_HINT cur m) else miss
      else lookup_loop n (vme_next m cur) stop address m)"

definition vm_map_lookup_entry :: "vm_map \<Rightarrow> vm_offset_t \<Rightarrow> bool \<times> vme \<times> vm_map" where
  "vm_map_lookup_entry m address =
     (let cur = (if hint m = VM_HDR then vme_next m VM_HDR else hint m); n = Suc (length (vm_entries m)) in
      if address \<ge> vme_start (entry_at m cur)
      then if cur \<noteq> VM_HDR \<and> vme_end (entry_at m cur) > address then (True, cur, m)
           else lookup_loop n cur VM_HDR address m
      else lookup_loop n (vme_next m VM_HDR) (vme_next m cur) address m)"

subsection \<open>Entering\<close>

definition vm_map_entry_insert ::
  "(vm_map \<Rightarrow> vme) \<Rightarrow> vme \<Rightarrow> vm_map_entry \<Rightarrow> vm_map \<Rightarrow> vme \<times> vm_map" where
  "vm_map_entry_insert za insp_entry new m =
     (let new = new\<lparr>vme_addr := za m, is_sub_map := False, needs_wakeup := False, user_wired_count := 0\<rparr>;
          m = vm_map_entry_link insp_entry new m;
          m = m\<lparr>vm_map_size := vm_map_size m + (vme_end new - vme_start new)\<rparr>
      in (vme_addr new, SAVE_HINT (vme_addr new) m))"

text \<open>
  The search for space: the entry to insert after and the start of the new region.  \<open>None\<close> is the end of the
  space; the flag tells the overflow of the aligned start from the end of the map.
\<close>

fun space_loop ::
  "nat \<Rightarrow> vme \<Rightarrow> vm_offset_t \<Rightarrow> vm_size_t \<Rightarrow> vm_offset_t \<Rightarrow> vm_map \<Rightarrow> bool + vme \<times> vm_offset_t" where
  "space_loop 0 entry start sz msk m = Inl False"
| "space_loop (Suc n) entry start sz msk m =
     (let start' = (start + msk) AND NOT msk; end' = start' + sz; nxt = vme_next m entry in
      if start' < start then Inl True
      else if end' > max_offset m \<or> end' < start' then Inl False
      else if nxt = VM_HDR \<or> vme_start (entry_at m nxt) \<ge> end' then Inr (entry, start')
      else space_loop n nxt (vme_end (entry_at m nxt)) sz msk m)"

definition vm_map_find_space ::
  "(vm_map \<Rightarrow> vme) \<Rightarrow> vm_size_t \<Rightarrow> vm_offset_t \<Rightarrow> vm_map \<Rightarrow> (kern_return_t + vm_offset_t \<times> vme) \<times> vm_map" where
  "vm_map_find_space za sz msk m =
     (let m = vm_map_lock m; entry = first_free m;
          start = (if entry = VM_HDR then min_offset m else vme_end (entry_at m entry)) in
      case space_loop (Suc (length (vm_entries m))) entry start sz msk m of
        Inl _ \<Rightarrow> (Inl KERN_NO_SPACE, vm_map_unlock m)
      | Inr (entry, start) \<Rightarrow>
          let new = \<lparr>vme_addr = za m, vme_start = start, vme_end = start + sz, vme_object = 0, vme_offset = 0,
                is_shared = False, is_sub_map = False, in_transition = False, needs_wakeup = False,
                behavior = ucast VM_BEHAVIOR_DEFAULT, needs_copy = False, protection = ucast VM_PROT_DEFAULT,
                max_protection = ucast VM_PROT_ALL, inheritance = ucast VM_INHERIT_DEFAULT, wired_count = 0, user_wired_count = 0\<rparr>;
              m = vm_map_entry_link entry new m;
              m = m\<lparr>vm_map_size := vm_map_size m + sz\<rparr>
          in (Inr (start, vme_addr new), SAVE_HINT (vme_addr new) m))"

text \<open>
  What other code does for the map: where the zone of entries takes a new one from, whether \<open>vm_object_coalesce\<close> can grow the
  object of the entry before, what \<open>vm_map_wire\<close> and \<open>vm_fault_unwire\<close> do, and what other threads do to a map while
  this one waits with the map unlocked.
\<close>

record vm_env =
  zalloc :: "vm_map \<Rightarrow> vme"
  coalesce :: "addr \<Rightarrow> vm_offset_t \<Rightarrow> vm_size_t \<Rightarrow> vm_size_t \<Rightarrow> bool"
  vm_map_wire :: "vm_offset_t \<Rightarrow> vm_offset_t \<Rightarrow> vm_prot_t \<Rightarrow> vm_map \<Rightarrow> kern_return_t \<times> vm_map"
  entry_wait :: "vm_map \<Rightarrow> wait_result_t \<times> vm_map"
  fault_unwire :: "vm_map_entry \<Rightarrow> vm_map \<Rightarrow> vm_map"
  kernel_object :: addr

text \<open>
  The choice of the region that \<open>vm_map_enter\<close> and \<open>vm_remap_range_allocate\<close> share: the entry to insert after and the start.
  \<open>No_Space True\<close> is the overflow of the aligned start, \<open>No_Space False\<close> the end of the map, after which the code may wait.
\<close>

datatype range_result = Range vme vm_offset_t | No_Space bool | Range_Error kern_return_t

definition range_anywhere :: "vm_offset_t \<Rightarrow> vm_size_t \<Rightarrow> vm_offset_t \<Rightarrow> vm_map \<Rightarrow> range_result \<times> vm_map" where
  "range_anywhere address sz msk m =
     (let start = (if address < min_offset m then min_offset m else address) in
      if start > max_offset m then (Range_Error KERN_NO_SPACE, m)
      else
        let (entry, start, m) =
              (if start = min_offset m
               then (first_free m, if first_free m \<noteq> VM_HDR then vme_end (entry_at m (first_free m)) else start, m)
               else case vm_map_lookup_entry m start of
                      (found, tmp_entry, m) \<Rightarrow> (tmp_entry, if found then vme_end (entry_at m tmp_entry) else start, m))
        in (case space_loop (Suc (length (vm_entries m))) entry start sz msk m of
              Inl overflow \<Rightarrow> No_Space overflow
            | Inr (entry, start) \<Rightarrow> Range entry start, m))"

definition range_fixed :: "vm_offset_t \<Rightarrow> vm_size_t \<Rightarrow> vm_offset_t \<Rightarrow> vm_map \<Rightarrow> range_result \<times> vm_map" where
  "range_fixed start sz msk m =
     (let end' = start + sz in
      if start AND msk \<noteq> 0 then (Range_Error KERN_NO_SPACE, m)
      else if start < min_offset m \<or> end' > max_offset m \<or> start \<ge> end' then (Range_Error KERN_INVALID_ADDRESS, m)
      else case vm_map_lookup_entry m start of
             (True, _, m) \<Rightarrow> (Range_Error KERN_NO_SPACE, m)
           | (False, entry, m) \<Rightarrow>
               if vme_next m entry \<noteq> VM_HDR \<and> vme_start (entry_at m (vme_next m entry)) < end'
               then (Range_Error KERN_NO_SPACE, m) else (Range entry start, m))"

text \<open>One turn, up to the return or the wait for space, after which the code starts again.\<close>

datatype vm_outcome = Vm_Return kern_return_t | Vm_At kern_return_t vm_offset_t | Vm_Waits

definition no_space :: "vm_size_t \<Rightarrow> vm_map \<Rightarrow> vm_outcome \<times> vm_map" where
  "no_space sz m =
     (if wait_for_space m \<and> sz \<le> max_offset m - min_offset m then (Vm_Waits, vm_map_unlock m)
      else (Vm_Return KERN_NO_SPACE, vm_map_unlock m))"

definition can_coalesce :: "vm_env \<Rightarrow> vme \<Rightarrow> vm_map_entry \<Rightarrow> natural_t \<Rightarrow> vm_prot_t \<Rightarrow> vm_prot_t \<Rightarrow> vm_map \<Rightarrow> bool" where
  "can_coalesce env p new inheritance' cur_protection max_protection' m =
     (let e = entry_at m p in
      vme_object new = 0 \<and> p \<noteq> VM_HDR \<and> vme_end e = vme_start new \<and> \<not> is_shared e \<and> \<not> is_sub_map e \<and>
      ucast (inheritance e) = inheritance' \<and> ucast (protection e) = cur_protection \<and> ucast (max_protection e) = max_protection' \<and>
      ucast (behavior e) = VM_BEHAVIOR_DEFAULT \<and> \<not> in_transition e \<and> wired_count e = 0 \<and>
      coalesce env (vme_object e) (vme_offset e) (vme_end e - vme_start e) (vme_end new - vme_end e))"

definition vm_map_enter ::
  "vm_env \<Rightarrow> vm_offset_t \<Rightarrow> vm_size_t \<Rightarrow> vm_offset_t \<Rightarrow> bool \<Rightarrow> addr \<Rightarrow> vm_offset_t \<Rightarrow> bool \<Rightarrow> vm_prot_t \<Rightarrow> vm_prot_t \<Rightarrow>
   natural_t \<Rightarrow> vm_map \<Rightarrow> vm_outcome \<times> vm_map" where
  "vm_map_enter env address sz msk anywhere object offset needs_copy' cur_protection max_protection' inheritance' m =
     (case (if anywhere then range_anywhere else range_fixed) address sz msk (vm_map_lock m) of
        (Range_Error kr, m) \<Rightarrow> (Vm_Return kr, vm_map_unlock m)
      | (No_Space True, m) \<Rightarrow> (Vm_Return KERN_NO_SPACE, m)
      | (No_Space False, m) \<Rightarrow> no_space sz m
      | (Range entry start, m) \<Rightarrow>
          let new = \<lparr>vme_addr = VM_HDR, vme_start = start, vme_end = start + sz, vme_object = object, vme_offset = offset,
                is_shared = False, is_sub_map = False, in_transition = False, needs_wakeup = False,
                behavior = ucast VM_BEHAVIOR_DEFAULT, needs_copy = needs_copy', protection = ucast cur_protection,
                max_protection = ucast max_protection', inheritance = ucast inheritance', wired_count = 0, user_wired_count = 0\<rparr> in
          if can_coalesce env entry new inheritance' cur_protection max_protection' m then
            let m = m\<lparr>vm_map_size := vm_map_size m + (vme_end new - vme_end (entry_at m entry))\<rparr>;
                m = set_entry entry (\<lambda>e. e\<lparr>vme_end := vme_end new\<rparr>) m
            in (Vm_At KERN_SUCCESS start, vm_map_unlock (UPDATE_FIRST_FREE (first_free m) m))
          else
            let m = vm_map_unlock (snd (vm_map_entry_insert (zalloc env) entry new m)) in
            if wiring_required m
            then case vm_map_wire env start (vme_end new) (ucast (protection new)) m of (result, m) \<Rightarrow> (Vm_At result start, m)
            else (Vm_At KERN_SUCCESS start, m))"

text \<open>\<open>vm_remap_range_allocate\<close> runs with the map locked and leaves it so.\<close>

definition vm_remap_range_allocate ::
  "vm_offset_t \<Rightarrow> vm_size_t \<Rightarrow> vm_offset_t \<Rightarrow> bool \<Rightarrow> vm_map \<Rightarrow> (vm_outcome + vme \<times> vm_offset_t) \<times> vm_map" where
  "vm_remap_range_allocate address sz msk anywhere m =
     (case (if anywhere then range_anywhere else range_fixed) address sz msk m of
        (Range_Error kr, m) \<Rightarrow> (Inl (Vm_Return kr), m)
      | (No_Space overflow, m) \<Rightarrow>
          (Inl (if \<not> overflow \<and> wait_for_space m \<and> sz \<le> max_offset m - min_offset m then Vm_Waits else Vm_Return KERN_NO_SPACE), m)
      | (Range entry start, m) \<Rightarrow> (Inr (entry, start), m))"

subsection \<open>Clipping\<close>

definition reference_call :: "vm_map_entry \<Rightarrow> vm_call" where
  "reference_call e = (if is_sub_map e then Vm_Map_Reference (vme_object e) else Vm_Object_Reference (vme_object e))"

definition deallocate_call :: "vm_map_entry \<Rightarrow> vm_call" where
  "deallocate_call e = (if is_sub_map e then Vm_Map_Deallocate (vme_object e) else Vm_Object_Deallocate (vme_object e))"

definition clip_start :: "(vm_map \<Rightarrow> vme) \<Rightarrow> vme \<Rightarrow> vm_offset_t \<Rightarrow> vm_map \<Rightarrow> vm_map" where
  "clip_start za entry start m =
     (let new = (entry_at m entry)\<lparr>vme_addr := za m, vme_end := start\<rparr>;
          m = set_entry entry (\<lambda>e. e\<lparr>vme_offset := vme_offset e + (start - vme_start e), vme_start := start\<rparr>) m;
          m = link_entry (vme_prev m entry) new m
      in vm_call (reference_call new) m)"

definition vm_map_clip_start :: "(vm_map \<Rightarrow> vme) \<Rightarrow> vme \<Rightarrow> vm_offset_t \<Rightarrow> vm_map \<Rightarrow> vm_map" where
  "vm_map_clip_start za entry startaddr m =
     (let m = (if startaddr > vme_start (entry_at m entry) then clip_start za entry startaddr m else m)
      in UPDATE_FIRST_FREE (first_free m) m)"

definition clip_end :: "(vm_map \<Rightarrow> vme) \<Rightarrow> vme \<Rightarrow> vm_offset_t \<Rightarrow> vm_map \<Rightarrow> vm_map" where
  "clip_end za entry endaddr m =
     (let e = entry_at m entry;
          new = e\<lparr>vme_addr := za m, vme_start := endaddr, vme_offset := vme_offset e + (endaddr - vme_start e)\<rparr>;
          m = set_entry entry (\<lambda>e. e\<lparr>vme_end := endaddr\<rparr>) m;
          m = link_entry entry new m
      in vm_call (reference_call new) m)"

definition vm_map_clip_end :: "(vm_map \<Rightarrow> vme) \<Rightarrow> vme \<Rightarrow> vm_offset_t \<Rightarrow> vm_map \<Rightarrow> vm_map" where
  "vm_map_clip_end za entry endaddr m =
     (let m = (if endaddr < vme_end (entry_at m entry) then clip_end za entry endaddr m else m)
      in UPDATE_FIRST_FREE (first_free m) m)"

definition VM_MAP_RANGE_CHECK :: "vm_map \<Rightarrow> vm_offset_t \<Rightarrow> vm_offset_t \<Rightarrow> vm_offset_t \<times> vm_offset_t" where
  "VM_MAP_RANGE_CHECK m start endaddr =
     (let start = (if start < min_offset m then min_offset m else start);
          endaddr = (if endaddr > max_offset m then max_offset m else endaddr)
      in (if start > endaddr then endaddr else start, endaddr))"

fun range_check_loop :: "nat \<Rightarrow> vm_map \<Rightarrow> vm_offset_t \<Rightarrow> vme \<Rightarrow> vm_offset_t \<Rightarrow> bool" where
  "range_check_loop 0 m endaddr cur prev = False"
| "range_check_loop (Suc n) m endaddr cur prev =
     (let e = entry_at m cur in
      if cur \<noteq> VM_HDR \<and> prev = vme_start e
      then endaddr \<le> vme_end e \<or> range_check_loop n m endaddr (vme_next m cur) (vme_end e)
      else False)"

definition vm_map_range_check :: "vm_map \<Rightarrow> vm_offset_t \<Rightarrow> vm_offset_t \<Rightarrow> vme option \<times> vm_map" where
  "vm_map_range_check m start endaddr =
     (if start < min_offset m \<or> endaddr > max_offset m \<or> start > endaddr then (None, m)
      else case vm_map_lookup_entry m start of
             (False, _, m) \<Rightarrow> (None, m)
           | (True, cur, m) \<Rightarrow>
               (if endaddr \<le> vme_end (entry_at m cur) \<or>
                   range_check_loop (length (vm_entries m)) m endaddr (vme_next m cur) (vme_end (entry_at m cur))
                then Some cur else None, m))"

subsection \<open>Operations on a range\<close>

text \<open>The loop that clips each entry of a range at its end and changes it.\<close>

fun range_loop :: "(vm_map \<Rightarrow> vme) \<Rightarrow> (vme \<Rightarrow> vm_map \<Rightarrow> vm_map) \<Rightarrow> nat \<Rightarrow> vm_offset_t \<Rightarrow> vme \<Rightarrow> vm_map \<Rightarrow> vm_map" where
  "range_loop za change 0 endaddr entry m = m"
| "range_loop za change (Suc n) endaddr entry m =
     (if entry \<noteq> VM_HDR \<and> vme_start (entry_at m entry) < endaddr
      then let m = change entry (vm_map_clip_end za entry endaddr m)
           in range_loop za change n endaddr (vme_next m entry) m
      else m)"

fun protect_check :: "nat \<Rightarrow> vm_map \<Rightarrow> vm_offset_t \<Rightarrow> vm_prot_t \<Rightarrow> vme \<Rightarrow> vm_offset_t \<Rightarrow> kern_return_t" where
  "protect_check 0 m endaddr new_prot current prev = KERN_FAILURE"
| "protect_check (Suc n) m endaddr new_prot current prev =
     (let e = entry_at m current in
      if current \<noteq> VM_HDR \<and> vme_start e < endaddr then
        if is_sub_map e then KERN_INVALID_ARGUMENT
        else if vme_start e \<noteq> prev then KERN_INVALID_ADDRESS
        else if new_prot AND ucast (max_protection e) \<noteq> new_prot then KERN_PROTECTION_FAILURE
        else protect_check n m endaddr new_prot (vme_next m current) (vme_end e)
      else if endaddr > prev then KERN_INVALID_ADDRESS else KERN_SUCCESS)"

definition new_protection :: "vm_prot_t \<Rightarrow> bool \<Rightarrow> vm_map_entry \<Rightarrow> vm_map_entry" where
  "new_protection new_prot set_max e =
     (if set_max then e\<lparr>max_protection := ucast new_prot, protection := ucast new_prot AND protection e\<rparr>
      else e\<lparr>protection := ucast new_prot\<rparr>)"

definition protect_entry :: "vm_prot_t \<Rightarrow> bool \<Rightarrow> vme \<Rightarrow> vm_map \<Rightarrow> vm_map" where
  "protect_entry new_prot set_max current m =
     (let old_prot = protection (entry_at m current);
          m = set_entry current (new_protection new_prot set_max) m;
          e = entry_at m current
      in if protection e \<noteq> old_prot then vm_call (Pmap_Protect (vme_start e) (vme_end e) (ucast (protection e))) m else m)"

definition vm_map_protect ::
  "(vm_map \<Rightarrow> vme) \<Rightarrow> vm_offset_t \<Rightarrow> vm_offset_t \<Rightarrow> vm_prot_t \<Rightarrow> bool \<Rightarrow> vm_map \<Rightarrow> kern_return_t \<times> vm_map" where
  "vm_map_protect za start endaddr new_prot set_max m =
     (case vm_map_lookup_entry (vm_map_lock m) start of
        (False, _, m) \<Rightarrow> (KERN_INVALID_ADDRESS, vm_map_unlock m)
      | (True, entry, m) \<Rightarrow>
          let n = Suc (length (vm_entries m)); kr = protect_check n m endaddr new_prot entry (vme_start (entry_at m entry)) in
          if kr \<noteq> KERN_SUCCESS then (kr, vm_map_unlock m)
          else let m = vm_map_clip_start za entry start m;
                   m = range_loop za (protect_entry new_prot set_max) (Suc (length (vm_entries m))) endaddr entry m
               in (KERN_SUCCESS, vm_map_unlock m))"

definition vm_map_inherit ::
  "(vm_map \<Rightarrow> vme) \<Rightarrow> vm_offset_t \<Rightarrow> vm_offset_t \<Rightarrow> natural_t \<Rightarrow> vm_map \<Rightarrow> kern_return_t \<times> vm_map" where
  "vm_map_inherit za start endaddr new_inheritance m =
     (let m = vm_map_lock m; (start, endaddr) = VM_MAP_RANGE_CHECK m start endaddr in
      case vm_map_lookup_entry m start of (found, temp_entry, m) \<Rightarrow>
        let (entry, m) = (if found then (temp_entry, vm_map_clip_start za temp_entry start m) else (vme_next m temp_entry, m));
            m = range_loop za (\<lambda>p. set_entry p (\<lambda>e. e\<lparr>inheritance := ucast new_inheritance\<rparr>)) (Suc (length (vm_entries m))) endaddr entry m
        in (KERN_SUCCESS, vm_map_unlock m))"

definition vm_map_behavior_set ::
  "(vm_map \<Rightarrow> vme) \<Rightarrow> vm_offset_t \<Rightarrow> vm_offset_t \<Rightarrow> natural_t \<Rightarrow> vm_map \<Rightarrow> kern_return_t \<times> vm_map" where
  "vm_map_behavior_set za start endaddr new_behavior m =
     (if new_behavior \<notin> {VM_BEHAVIOR_DEFAULT, VM_BEHAVIOR_RANDOM, VM_BEHAVIOR_SEQUENTIAL, VM_BEHAVIOR_RSEQNTL}
      then (KERN_INVALID_ARGUMENT, m)
      else case vm_map_range_check (vm_map_lock m) start endaddr of
        (None, m) \<Rightarrow> (KERN_INVALID_ADDRESS, vm_map_unlock m)
      | (Some entry, m) \<Rightarrow>
          let m = vm_map_clip_start za entry start m;
              m = range_loop za (\<lambda>p. set_entry p (\<lambda>e. e\<lparr>behavior := ucast new_behavior\<rparr>)) (Suc (length (vm_entries m))) endaddr entry m
          in (KERN_SUCCESS, vm_map_unlock m))"

subsection \<open>Removing\<close>

definition VM_MAP_REMOVE_KUNWIRE :: natural_t where
  "VM_MAP_REMOVE_KUNWIRE = 1"
definition VM_MAP_REMOVE_INTERRUPTIBLE :: natural_t where
  "VM_MAP_REMOVE_INTERRUPTIBLE = 2"
definition VM_MAP_REMOVE_WAIT_FOR_KWIRE :: natural_t where
  "VM_MAP_REMOVE_WAIT_FOR_KWIRE = 4"

definition vm_map_entry_delete :: "vme \<Rightarrow> vm_map \<Rightarrow> vm_map" where
  "vm_map_entry_delete entry m =
     (let e = entry_at m entry;
          m = vm_map_entry_unlink entry (vm_call (deallocate_call e) m)
      in m\<lparr>vm_map_size := vm_map_size m - (vme_end e - vme_start e)\<rparr>)"

text \<open>After a wait the map may have changed: the entry at the address is looked up again.\<close>

definition find_again :: "vm_offset_t \<Rightarrow> vm_map \<Rightarrow> vme \<times> vm_map" where
  "find_again s m =
     (case vm_map_lookup_entry m s of
        (False, first_entry, m) \<Rightarrow> (vme_next m first_entry, m)
      | (True, entry, m) \<Rightarrow> (entry, SAVE_HINT (vme_prev m entry) m))"

text \<open>The mark on the entries that were unwired is taken off; the result tells whether a thread waits for one.\<close>

fun end_transition :: "nat \<Rightarrow> vm_offset_t \<Rightarrow> vme \<Rightarrow> bool \<Rightarrow> vm_map \<Rightarrow> bool \<times> vm_map" where
  "end_transition 0 endaddr entry need_wakeup m = (need_wakeup, m)"
| "end_transition (Suc n) endaddr entry need_wakeup m =
     (if entry \<noteq> VM_HDR \<and> vme_start (entry_at m entry) < endaddr
      then let m' = set_entry entry (\<lambda>e. e\<lparr>in_transition := False, needs_wakeup := False\<rparr>) m
           in end_transition n endaddr (vme_next m entry) (need_wakeup \<or> needs_wakeup (entry_at m entry)) m'
      else (need_wakeup, m))"

text \<open>One turn of the loop of \<open>vm_map_delete\<close> on an entry: a return, another turn without a look at the range, or the next entry.\<close>

datatype delete_result = Delete_Return kern_return_t vm_map | Delete_Retry vme natural_t bool vm_map | Delete_Next vme vm_map

definition delete_in_transition :: "vm_env \<Rightarrow> natural_t \<Rightarrow> vme \<Rightarrow> bool \<Rightarrow> vm_map \<Rightarrow> delete_result" where
  "delete_in_transition env flags entry need_wakeup m =
     (let s = vme_start (entry_at m entry);
          m = set_entry entry (\<lambda>e. e\<lparr>needs_wakeup := True\<rparr>) m;
          m = (if need_wakeup then vm_call Wakeup_Entry m else m);
          (result, m) = entry_wait env (vm_map_unlock m)
      in if flags AND VM_MAP_REMOVE_INTERRUPTIBLE \<noteq> 0 \<and> result = THREAD_INTERRUPTED then Delete_Return KERN_ABORTED m
         else let m = vm_map_lock m; (entry, m') = find_again s m in Delete_Retry entry (timestamp m) False m')"

definition delete_kernel_wired :: "vm_env \<Rightarrow> natural_t \<Rightarrow> vme \<Rightarrow> bool \<Rightarrow> vm_map \<Rightarrow> delete_result" where
  "delete_kernel_wired env flags entry need_wakeup m =
     (if flags AND VM_MAP_REMOVE_WAIT_FOR_KWIRE \<noteq> 0 then
        let s = vme_start (entry_at m entry);
            m = set_entry entry (\<lambda>e. e\<lparr>needs_wakeup := True\<rparr>) m; (result, m) = entry_wait env (vm_map_unlock m)
        in if flags AND VM_MAP_REMOVE_INTERRUPTIBLE \<noteq> 0 \<and> result = THREAD_INTERRUPTED then Delete_Return KERN_ABORTED m
           else let m = vm_map_lock m; (entry, m') = find_again s m in Delete_Retry entry (timestamp m) need_wakeup m'
      else Delete_Return KERN_FAILURE m)"

definition delete_unwire :: "vm_env \<Rightarrow> vme \<Rightarrow> natural_t \<Rightarrow> bool \<Rightarrow> vm_map \<Rightarrow> delete_result" where
  "delete_unwire env entry last_timestamp need_wakeup m =
     (let m = set_entry entry (\<lambda>e. e\<lparr>in_transition := True\<rparr>) m; e = entry_at m entry;
          m = vm_map_lock (fault_unwire env e (vm_map_unlock m));
          (first_entry, m') =
            (if last_timestamp + 1 \<noteq> timestamp m
             then case vm_map_lookup_entry m (vme_start e) of
                    (False, first_entry, m) \<Rightarrow> (vme_next m first_entry, m)
                  | (True, first_entry, m) \<Rightarrow> (first_entry, SAVE_HINT (vme_prev m entry) m)
             else (entry, SAVE_HINT (vme_prev m entry) m));
          (need_wakeup, m') = end_transition (Suc (length (vm_entries m'))) (vme_end e) first_entry need_wakeup m'
      in Delete_Retry first_entry (timestamp m) need_wakeup m')"

definition delete_wired :: "vm_env \<Rightarrow> natural_t \<Rightarrow> vme \<Rightarrow> natural_t \<Rightarrow> bool \<Rightarrow> vm_map \<Rightarrow> delete_result" where
  "delete_wired env flags entry last_timestamp need_wakeup m =
     (let m = set_entry entry (\<lambda>e. e\<lparr>wired_count :=
                if flags AND VM_MAP_REMOVE_KUNWIRE \<noteq> 0 \<or> user_wired_count e > 0 then wired_count e - 1 else wired_count e,
              user_wired_count := 0\<rparr>) m
      in if wired_count (entry_at m entry) \<noteq> 0 then delete_kernel_wired env flags entry need_wakeup m
         else delete_unwire env entry last_timestamp need_wakeup m)"

definition delete_turn :: "vm_env \<Rightarrow> natural_t \<Rightarrow> vme \<Rightarrow> natural_t \<Rightarrow> bool \<Rightarrow> vm_map \<Rightarrow> delete_result" where
  "delete_turn env flags entry last_timestamp need_wakeup m =
     (let e = entry_at m entry in
      if in_transition e then delete_in_transition env flags entry need_wakeup m
      else if wired_count e \<noteq> 0 then delete_wired env flags entry last_timestamp need_wakeup m
      else
        let m = (if is_sub_map e \<or> vme_object e = kernel_object env then m else vm_call (Pmap_Remove (vme_start e) (vme_end e)) m)
        in Delete_Next (vme_next m entry) (vm_map_entry_delete entry m))"

text \<open>
  The loop, by fuel because it may wait for other threads without end.  \<open>retry\<close> tells whether the entry is tried again, when
  it is not compared with the range or clipped.
\<close>

fun delete_loop ::
  "vm_env \<Rightarrow> nat \<Rightarrow> natural_t \<Rightarrow> vm_offset_t \<Rightarrow> bool \<Rightarrow> vme \<Rightarrow> natural_t \<Rightarrow> bool \<Rightarrow> vm_map \<Rightarrow> (kern_return_t \<times> vm_map) option" where
  "delete_loop env 0 flags endaddr retry entry last_timestamp need_wakeup m = None"
| "delete_loop env (Suc n) flags endaddr retry entry last_timestamp need_wakeup m =
     (if retry \<or> entry \<noteq> VM_HDR \<and> vme_start (entry_at m entry) < endaddr then
        case delete_turn env flags entry last_timestamp need_wakeup
               (if retry then m else vm_map_clip_end (zalloc env) entry endaddr m) of
          Delete_Return kr m \<Rightarrow> Some (kr, m)
        | Delete_Retry entry stamp need_wakeup m \<Rightarrow> delete_loop env n flags endaddr True entry stamp need_wakeup m
        | Delete_Next entry m \<Rightarrow> delete_loop env n flags endaddr False entry last_timestamp need_wakeup m
      else
        let m = (if wait_for_space m then vm_call Wakeup_Space m else m)
        in Some (KERN_SUCCESS, if need_wakeup then vm_call Wakeup_Entry m else m))"

definition vm_map_delete ::
  "vm_env \<Rightarrow> nat \<Rightarrow> vm_offset_t \<Rightarrow> vm_offset_t \<Rightarrow> natural_t \<Rightarrow> vm_map \<Rightarrow> (kern_return_t \<times> vm_map) option" where
  "vm_map_delete env fuel start endaddr flags m =
     (case vm_map_lookup_entry m start of (found, first_entry, m) \<Rightarrow>
        let (entry, m) =
              (if found then let m = vm_map_clip_start (zalloc env) first_entry start m
                             in (first_entry, SAVE_HINT (vme_prev m first_entry) m)
               else (vme_next m first_entry, m))
        in delete_loop env fuel flags endaddr False entry (NOT 0) False m)"

definition vm_map_remove ::
  "vm_env \<Rightarrow> nat \<Rightarrow> vm_offset_t \<Rightarrow> vm_offset_t \<Rightarrow> natural_t \<Rightarrow> vm_map \<Rightarrow> (kern_return_t \<times> vm_map) option" where
  "vm_map_remove env fuel start endaddr flags m =
     (let m = vm_map_lock m; (start, endaddr) = VM_MAP_RANGE_CHECK m start endaddr
      in map_option (\<lambda>(kr, m). (kr, vm_map_unlock m)) (vm_map_delete env fuel start endaddr flags m))"

subsection \<open>Joining entries, and what a region is\<close>

definition alike :: "vm_map_entry \<Rightarrow> vm_map_entry \<Rightarrow> bool" where
  "alike p e \<longleftrightarrow> vme_end p = vme_start e \<and> \<not> is_shared p \<and> \<not> is_sub_map p \<and> \<not> is_shared e \<and> \<not> is_sub_map e \<and>
     inheritance p = inheritance e \<and> protection p = protection e \<and> max_protection p = max_protection e \<and>
     behavior p = behavior e \<and> wired_count p = wired_count e \<and> user_wired_count p = user_wired_count e \<and>
     \<not> in_transition p \<and> \<not> in_transition e \<and> needs_copy p = needs_copy e \<and> vme_object p = vme_object e \<and>
     vme_offset p + (vme_end p - vme_start p) = vme_offset e"

text \<open>The second entry is joined to the first.\<close>

definition join_entries :: "vme \<Rightarrow> vme \<Rightarrow> vm_map \<Rightarrow> vm_map" where
  "join_entries p q m =
     (let e = entry_at m q; m = vm_map_entry_unlink q m;
          m = set_entry p (\<lambda>p. p\<lparr>vme_end := vme_end e\<rparr>) m
      in vm_call (Vm_Object_Deallocate (vme_object e)) (UPDATE_FIRST_FREE (first_free m) m))"

text \<open>The condition of the second half lets a shared first entry pass; it tests the next entry twice.\<close>

definition alike_next :: "vm_map_entry \<Rightarrow> vm_map_entry \<Rightarrow> bool" where
  "alike_next e n \<longleftrightarrow> vme_start n = vme_end e \<and> \<not> is_shared n \<and> \<not> is_sub_map n \<and>
     inheritance n = inheritance e \<and> protection n = protection e \<and> max_protection n = max_protection e \<and>
     behavior n = behavior e \<and> wired_count n = wired_count e \<and> user_wired_count n = user_wired_count e \<and>
     \<not> in_transition e \<and> \<not> in_transition n \<and> needs_copy n = needs_copy e \<and> vme_object n = vme_object e \<and>
     vme_offset e + (vme_end e - vme_start e) = vme_offset n"

definition vm_map_simplify :: "vm_offset_t \<Rightarrow> vm_map \<Rightarrow> vm_map" where
  "vm_map_simplify start m =
     (let (found, this, m) = vm_map_lookup_entry (vm_map_lock m) start;
          prev = vme_prev m this;
          m = (if found \<and> prev \<noteq> VM_HDR \<and> alike (entry_at m prev) (entry_at m this)
               then join_entries prev this (SAVE_HINT prev m) else m);
          (found, this, m) = vm_map_lookup_entry m start;
          nxt = vme_next m this;
          m = (if found \<and> nxt \<noteq> VM_HDR \<and> alike_next (entry_at m this) (entry_at m nxt) then join_entries this nxt m else m)
      in vm_map_unlock m)"

text \<open>What \<open>vm_region\<close> tells of the region at or above an address: its start, its size and the entry's attributes.\<close>

definition vm_region :: "vm_offset_t \<Rightarrow> vm_map \<Rightarrow> (kern_return_t + vm_offset_t \<times> vm_size_t \<times> vm_map_entry) \<times> vm_map" where
  "vm_region address m =
     (case vm_map_lookup_entry m address of (found, tmp_entry, m) \<Rightarrow>
        let entry = (if found then tmp_entry else vme_next m tmp_entry); e = entry_at m entry in
        if entry = VM_HDR then (Inl KERN_INVALID_ADDRESS, m) else (Inr (vme_start e, vme_end e - vme_start e, e), m))"

end
