(* ===== verification/Vm_List.thy ===== *)
theory Vm_List
  imports Vm_Map
begin

section \<open>Lists of entries and what they map\<close>

text \<open>
  The entries of a map are disjoint and sorted (\<open>asc\<close>), the hint for free space is the last entry before the first gap, and
  the size is that of the regions: \<open>map_ok\<close>.  \<open>mapping\<close> is what the entries mean: the attributes and the place in an object
  behind each address.
\<close>

subsection \<open>Order\<close>

fun asc :: "vm_offset_t \<Rightarrow> vm_map_entry list \<Rightarrow> bool" where
  "asc lo [] \<longleftrightarrow> True"
| "asc lo (e # es) \<longleftrightarrow> lo \<le> vme_start e \<and> vme_start e < vme_end e \<and> asc (vme_end e) es"

fun end_of :: "vm_offset_t \<Rightarrow> vm_map_entry list \<Rightarrow> vm_offset_t" where
  "end_of lo [] = lo"
| "end_of lo (e # es) = end_of (vme_end e) es"

fun contig :: "vm_offset_t \<Rightarrow> vm_map_entry list \<Rightarrow> vm_map_entry list" where
  "contig lo [] = []"
| "contig lo (e # es) = (if vme_start e = lo then e # contig (vme_end e) es else [])"

definition first_addr :: "vm_map_entry list \<Rightarrow> vme" where
  "first_addr es = (case es of [] \<Rightarrow> VM_HDR | e # _ \<Rightarrow> vme_addr e)"

definition last_addr :: "vm_map_entry list \<Rightarrow> vme" where
  "last_addr es = (if es = [] then VM_HDR else vme_addr (last es))"

lemma addr_simps [simp]:
  "first_addr [] = VM_HDR" "first_addr (e # es) = vme_addr e" "last_addr [] = VM_HDR" "last_addr [e] = vme_addr e"
  "last_addr (es @ [e]) = vme_addr e" "last_addr (es @ e # fs) = last_addr (e # fs)" "last_addr (d # e # fs) = last_addr (e # fs)"
  by (simp_all add: first_addr_def last_addr_def)

lemma end_of_append [simp]: "end_of lo (xs @ ys) = end_of (end_of lo xs) ys"
  by (induction xs arbitrary: lo) simp_all

lemma asc_append [simp]: "asc lo (xs @ ys) \<longleftrightarrow> asc lo xs \<and> asc (end_of lo xs) ys"
  by (induction xs arbitrary: lo) auto

lemma end_of_ge: "asc lo xs \<Longrightarrow> lo \<le> end_of lo xs"
proof (induction xs arbitrary: lo)
  case (Cons e es)
  then have "lo \<le> vme_end e" "vme_end e \<le> end_of (vme_end e) es" by auto
  then show ?case by simp
qed simp

lemma end_of_gt: "asc lo xs \<Longrightarrow> xs \<noteq> [] \<Longrightarrow> lo < end_of lo xs"
proof (cases xs)
  case (Cons e es)
  assume "asc lo xs"
  then have "lo < vme_end e" "vme_end e \<le> end_of (vme_end e) es" using end_of_ge Cons by auto
  then show ?thesis using Cons by simp
qed simp

lemma asc_le: "asc lo xs \<Longrightarrow> lo' \<le> lo \<Longrightarrow> asc lo' xs"
  by (cases xs) auto

lemma asc_bounds: "asc lo xs \<Longrightarrow> e \<in> set xs \<Longrightarrow> lo \<le> vme_start e \<and> vme_start e < vme_end e \<and> vme_end e \<le> end_of lo xs"
proof (induction xs arbitrary: lo)
  case (Cons x xs)
  then show ?case using end_of_ge [of "vme_end x" xs] by (auto intro: order_trans less_imp_le dest!: Cons.IH)
qed simp

lemma contig_append: "contig lo xs = xs \<Longrightarrow> contig lo (xs @ ys) = xs @ contig (end_of lo xs) ys"
  by (induction xs arbitrary: lo) (auto split: if_splits)

fun adj :: "vm_offset_t \<Rightarrow> vm_map_entry list \<Rightarrow> bool" where
  "adj lo [] \<longleftrightarrow> True"
| "adj lo (e # es) \<longleftrightarrow> vme_start e = lo \<and> adj (vme_end e) es"

lemma adj_append [simp]: "adj lo (xs @ ys) \<longleftrightarrow> adj lo xs \<and> adj (end_of lo xs) ys"
  by (induction xs arbitrary: lo) auto

lemma contig_adj: "contig lo xs = xs \<longleftrightarrow> adj lo xs"
  by (induction xs arbitrary: lo) auto

lemma adj_contig [simp]: "adj lo (contig lo xs)"
  by (induction xs arbitrary: lo) auto

lemma contig_cut: "\<not> adj lo xs \<Longrightarrow> contig lo (xs @ ys) = contig lo xs"
  by (induction xs arbitrary: lo) auto

lemma contig_idem [simp]: "contig lo (contig lo xs) = contig lo xs"
  by (induction xs arbitrary: lo) auto

lemma contig_prefix: "\<exists>ys. xs = contig lo xs @ ys \<and> (ys = [] \<or> vme_start (hd ys) \<noteq> end_of lo (contig lo xs))"
  by (induction xs arbitrary: lo) auto

subsection \<open>Meaning\<close>

definition attrs :: "vm_map_entry \<Rightarrow> vm_map_entry" where
  "attrs e = e\<lparr>vme_addr := 0, vme_start := 0, vme_end := 0, vme_offset := 0\<rparr>"

fun mapping :: "vm_map_entry list \<Rightarrow> vm_offset_t \<Rightarrow> (vm_map_entry \<times> vm_offset_t) option" where
  "mapping [] a = None"
| "mapping (e # es) a =
     (if vme_start e \<le> a \<and> a < vme_end e then Some (attrs e, vme_offset e + (a - vme_start e)) else mapping es a)"

lemma mapping_append: "mapping (xs @ ys) a = (case mapping xs a of None \<Rightarrow> mapping ys a | Some r \<Rightarrow> Some r)"
  by (induction xs) auto

lemma mapping_below: "asc lo xs \<Longrightarrow> a < lo \<Longrightarrow> mapping xs a = None"
proof (induction xs arbitrary: lo)
  case (Cons e es)
  then have "a < vme_start e" "a < vme_end e" by auto
  then show ?case using Cons by auto
qed simp

lemma mapping_above: "asc lo xs \<Longrightarrow> end_of lo xs \<le> a \<Longrightarrow> mapping xs a = None"
proof (induction xs arbitrary: lo)
  case (Cons e es)
  then have "vme_end e \<le> a" using end_of_ge [of "vme_end e" es] by auto
  then show ?case using Cons by auto
qed simp

lemma mapping_split:
  assumes "asc lo (xs @ ys)"
  shows "mapping (xs @ ys) a = (if a < end_of lo xs then mapping xs a else mapping ys a)"
  using assms mapping_above [of lo xs a] mapping_below [of "end_of lo xs" ys a] by (auto simp: mapping_append split: option.splits)

subsection \<open>Size and references\<close>

definition region_sizes :: "vm_map_entry list \<Rightarrow> vm_size_t" where
  "region_sizes es = (\<Sum>e\<leftarrow>es. vme_end e - vme_start e)"

lemma region_sizes_simps [simp]:
  "region_sizes [] = 0" "region_sizes (e # es) = (vme_end e - vme_start e) + region_sizes es"
  "region_sizes (xs @ ys) = region_sizes xs + region_sizes ys"
  by (simp_all add: region_sizes_def)

definition held :: "bool \<Rightarrow> addr \<Rightarrow> vm_map_entry list \<Rightarrow> int" where
  "held sub obj es = int (length [e \<leftarrow> es. is_sub_map e = sub \<and> vme_object e = obj])"

definition taken_refs :: "bool \<Rightarrow> addr \<Rightarrow> vm_call list \<Rightarrow> int" where
  "taken_refs sub obj cs =
     int (count_list cs (if sub then Vm_Map_Reference obj else Vm_Object_Reference obj)) -
     int (count_list cs (if sub then Vm_Map_Deallocate obj else Vm_Object_Deallocate obj))"

lemma held_simps [simp]:
  "held sub obj [] = 0" "held sub obj (e # es) = of_bool (is_sub_map e = sub \<and> vme_object e = obj) + held sub obj es"
  "held sub obj (xs @ ys) = held sub obj xs + held sub obj ys"
  by (simp_all add: held_def)

lemma taken_refs_simps [simp]:
  "taken_refs sub obj (cs @ ds) = taken_refs sub obj cs + taken_refs sub obj ds" "taken_refs sub obj [] = 0"
  "taken_refs sub obj [reference_call e] = of_bool (is_sub_map e = sub \<and> vme_object e = obj)"
  "taken_refs sub obj [deallocate_call e] = - of_bool (is_sub_map e = sub \<and> vme_object e = obj)"
  "taken_refs sub obj [Pmap_Protect s t p] = 0" "taken_refs sub obj [Pmap_Remove s t] = 0"
  "taken_refs sub obj [Wakeup_Space] = 0" "taken_refs sub obj [Wakeup_Entry] = 0"
  "taken_refs sub obj [Vm_Object_Deallocate o'] = - of_bool (\<not> sub \<and> o' = obj)"
  by (auto simp: taken_refs_def reference_call_def deallocate_call_def)

text \<open>The references the entries hold and those taken for them.\<close>

definition balance :: "vm_map \<Rightarrow> bool \<Rightarrow> addr \<Rightarrow> int" where
  "balance m sub obj = held sub obj (vm_entries m) - taken_refs sub obj (vm_calls m)"

subsection \<open>The invariant\<close>

definition aligned_entries :: "vm_map_entry list \<Rightarrow> bool" where
  "aligned_entries es \<longleftrightarrow> (\<forall>e \<in> set es. page_aligned (vme_start e) \<and> page_aligned (vme_end e))"

definition links_ok :: "vm_map \<Rightarrow> bool" where
  "links_ok m \<longleftrightarrow> distinct (VM_HDR # map vme_addr (vm_entries m)) \<and>
     asc (min_offset m) (vm_entries m) \<and> end_of (min_offset m) (vm_entries m) \<le> max_offset m \<and> min_offset m < max_offset m \<and>
     aligned_entries (vm_entries m) \<and> page_aligned (min_offset m) \<and> page_aligned (max_offset m)"

definition map_ok :: "vm_map \<Rightarrow> bool" where
  "map_ok m \<longleftrightarrow> links_ok m \<and> hint m \<in> set (VM_HDR # map vme_addr (vm_entries m)) \<and>
     first_free m = last_addr (contig (min_offset m) (vm_entries m)) \<and> vm_map_size m = region_sizes (vm_entries m)"

lemma links_okD:
  assumes "links_ok m"
  shows "distinct (map vme_addr (vm_entries m))" "VM_HDR \<notin> vme_addr ` set (vm_entries m)" "asc (min_offset m) (vm_entries m)"
    "end_of (min_offset m) (vm_entries m) \<le> max_offset m" "min_offset m < max_offset m" "aligned_entries (vm_entries m)"
    "page_aligned (min_offset m)" "page_aligned (max_offset m)"
  using assms by (auto simp: links_ok_def)

subsection \<open>Links on lists\<close>

lemma find_split: "distinct (map f (xs @ e # ys)) \<Longrightarrow> find (\<lambda>d. f d = f e) (xs @ e # ys) = Some e"
  by (induction xs) auto

lemma addr_neq: "distinct (map vme_addr (xs @ e # ys)) \<Longrightarrow> d \<in> set xs \<union> set ys \<Longrightarrow> vme_addr d \<noteq> vme_addr e"
  by (auto simp: image_iff)

lemma entry_at_split:
  assumes "distinct (map vme_addr (vm_entries m))" "vm_entries m = xs @ e # ys"
  shows "entry_at m (vme_addr e) = e"
  using find_split [of vme_addr xs e ys] assms by (simp add: entry_at_def)

lemma entry_at_header: "VM_HDR \<notin> vme_addr ` set (vm_entries m) \<Longrightarrow> entry_at m VM_HDR = header_entry m"
  by (auto simp: entry_at_def find_Some_iff split: option.splits dest: nth_mem)

lemma after_split: "distinct (ps @ p # qs) \<Longrightarrow> after p (ps @ p # qs) = (case qs of [] \<Rightarrow> VM_HDR | q # _ \<Rightarrow> q)"
proof (induction ps)
  case (Cons a ps)
  then show ?case by (cases ps) (auto split: list.splits)
qed (cases qs; simp)

lemma vme_next_split:
  assumes "distinct (VM_HDR # map vme_addr (vm_entries m))" "vm_entries m = xs @ ys"
  shows "vme_next m (last_addr xs) = first_addr ys"
proof (cases xs rule: rev_cases)
  case Nil
  then show ?thesis using after_split [of "[]" VM_HDR "map vme_addr ys"] assms
    by (simp add: vme_next_def first_addr_def split: list.splits)
next
  case (snoc zs z)
  then show ?thesis using after_split [of "VM_HDR # map vme_addr zs" "vme_addr z" "map vme_addr ys"] assms
    by (simp add: vme_next_def first_addr_def split: list.splits)
qed

lemma vme_prev_split:
  assumes "distinct (VM_HDR # map vme_addr (vm_entries m))" "vm_entries m = xs @ ys"
  shows "vme_prev m (first_addr ys) = last_addr xs"
proof (cases ys)
  case Nil
  then show ?thesis using after_split [of "[]" VM_HDR "rev (map vme_addr xs)"] assms
    by (cases xs rule: rev_cases) (simp_all add: vme_prev_def)
next
  case (Cons y zs)
  then show ?thesis using after_split [of "VM_HDR # rev (map vme_addr zs)" "vme_addr y" "rev (map vme_addr xs)"] assms
    by (cases xs rule: rev_cases) (auto simp: vme_prev_def Int_commute)
qed

lemma set_entry_split:
  assumes "distinct (map vme_addr (vm_entries m))" "vm_entries m = xs @ e # ys"
  shows "set_entry (vme_addr e) f m = m\<lparr>vm_entries := xs @ f e # ys\<rparr>"
proof -
  have "map (\<lambda>d. if vme_addr d = vme_addr e then f d else d) xs = xs" "map (\<lambda>d. if vme_addr d = vme_addr e then f d else d) ys = ys"
    using addr_neq [OF assms(1) [unfolded assms(2)]] by (auto intro!: map_idI)
  then show ?thesis using assms(2) by (simp add: set_entry_def)
qed

lemma insert_after_split:
  "distinct (map vme_addr (xs @ e # ys)) \<Longrightarrow> insert_after (vme_addr e) new (xs @ e # ys) = xs @ e # new # ys"
  by (induction xs) auto

lemma link_split:
  assumes "distinct (VM_HDR # map vme_addr (vm_entries m))" "vm_entries m = xs @ ys"
  shows "link_entry (last_addr xs) new m = m\<lparr>vm_entries := xs @ new # ys\<rparr>"
proof (cases xs rule: rev_cases)
  case (snoc zs z)
  then show ?thesis using insert_after_split [of zs z ys new] assms by (auto simp: link_entry_def)
qed (use assms in \<open>simp add: link_entry_def\<close>)

lemma unlink_split:
  assumes "distinct (map vme_addr (vm_entries m))" "vm_entries m = xs @ e # ys"
  shows "unlink_entry (vme_addr e) m = m\<lparr>vm_entries := xs @ ys\<rparr>"
proof -
  have "filter (\<lambda>d. vme_addr d \<noteq> vme_addr e) xs = xs" "filter (\<lambda>d. vme_addr d \<noteq> vme_addr e) ys = ys"
    using addr_neq [OF assms(1) [unfolded assms(2)]] by (auto simp: filter_id_conv)
  then show ?thesis using assms(2) by (simp add: unlink_entry_def)
qed

subsection \<open>The hint for free space\<close>

lemma trunc_aligned: "page_aligned x \<Longrightarrow> trunc_page x = x"
proof -
  assume "page_aligned x"
  then have "x AND PAGE_MASK = 0" by (simp add: page_aligned_def)
  then show ?thesis unfolding trunc_page_def by (auto simp: bit_eq_iff [where 'a = "32 word"] bit_simps)
qed

lemma first_free_from_spec:
  assumes "links_ok m" "vm_entries m = xs @ ys" "contig (min_offset m) xs = xs" "length ys < n"
  shows "first_free_from n m (last_addr xs) = last_addr (contig (min_offset m) (vm_entries m))"
  using assms(2-)
proof (induction ys arbitrary: xs n)
  case Nil
  note L = links_okD [OF assms(1)]
  obtain n' where n: "n = Suc n'" using Nil by (cases n) auto
  have nxt: "vme_next m (last_addr xs) = VM_HDR" using vme_next_split [of m xs "[]"] assms(1) Nil by (simp add: links_ok_def)
  have "trunc_page (vme_end (entry_at m (last_addr xs))) \<noteq> min_offset m"
  proof (cases xs rule: rev_cases)
    case Nil
    then show ?thesis using L entry_at_header [OF L(2)] by (simp add: header_entry_def trunc_aligned)
  next
    case (snoc zs z)
    then have "entry_at m (last_addr xs) = z" "z \<in> set (vm_entries m)" using entry_at_split [OF L(1), of zs z "[]"] Nil by auto
    moreover from this have "min_offset m < vme_end z" using asc_bounds [OF L(3), of z] by auto
    ultimately show ?thesis using L(6) by (auto simp: aligned_entries_def trunc_aligned)
  qed
  then show ?case using entry_at_header [OF L(2)] L(7) Nil by (simp add: n nxt header_entry_def trunc_aligned)
next
  case (Cons y ys)
  note L = links_okD [OF assms(1)]
  obtain n' where n: "n = Suc n'" using Cons by (cases n) auto
  have y: "y \<in> set (vm_entries m)" "vme_addr y \<noteq> VM_HDR" "entry_at m (vme_addr y) = y"
    using Cons L(2) entry_at_split [OF L(1), of xs y ys] by (auto simp: image_iff)
  have nxt: "vme_next m (last_addr xs) = vme_addr y" using vme_next_split [of m xs "y # ys"] assms(1) Cons by (simp add: links_ok_def)
  have ay: "trunc_page (vme_start y) = vme_start y" using y(1) L(6) by (auto simp: aligned_entries_def trunc_aligned)
  have asc: "asc (min_offset m) (xs @ y # ys)" using L(3) Cons by simp
  have c: "contig (min_offset m) (vm_entries m) = xs @ contig (end_of (min_offset m) xs) (y # ys)"
    unfolding Cons(2) using contig_append [OF Cons(3)] .
  define advance where "advance = (let s = vme_start y; f = entry_at m (last_addr xs) in s = trunc_page (vme_end f) \<or> s = trunc_page (vme_start f))"
  have adv: "advance \<longleftrightarrow> vme_start y = end_of (min_offset m) xs"
  proof (cases xs rule: rev_cases)
    case Nil
    have "vme_start y \<noteq> max_offset m" using asc_bounds [OF L(3) y(1)] L(4) by auto
    then show ?thesis using Nil entry_at_header [OF L(2)] L(7,8) by (simp add: advance_def header_entry_def trunc_aligned Let_def)
  next
    case (snoc zs z)
    then have z: "entry_at m (last_addr xs) = z" "z \<in> set (vm_entries m)" using entry_at_split [OF L(1), of zs z "y # ys"] Cons by auto
    then have "trunc_page (vme_end z) = vme_end z" "trunc_page (vme_start z) = vme_start z" "vme_start z < vme_end z"
      using L(6) asc_bounds [OF L(3) z(2)] by (auto simp: aligned_entries_def trunc_aligned)
    moreover have "vme_end z \<le> vme_start y" using asc snoc by simp
    ultimately show ?thesis using snoc z by (auto simp: advance_def Let_def)
  qed
  show ?case
  proof (cases advance)
    case True
    have "first_free_from n' m (last_addr (xs @ [y])) = last_addr (contig (min_offset m) (vm_entries m))"
      using Cons True adv by (intro Cons.IH) (simp_all add: n contig_append)
    then show ?thesis using True y(2,3) ay by (auto simp: n nxt advance_def Let_def)
  next
    case False
    then have "contig (min_offset m) (vm_entries m) = xs" using adv c by simp
    then show ?thesis using False y(2,3) ay by (auto simp: n nxt advance_def Let_def)
  qed
qed

lemma update_first_free:
  assumes "links_ok m" "vm_entries m = xs @ ys" "contig (min_offset m) xs = xs"
  shows "UPDATE_FIRST_FREE (last_addr xs) m = m\<lparr>first_free := last_addr (contig (min_offset m) (vm_entries m))\<rparr>"
  using first_free_from_spec [OF assms, of "Suc (length (vm_entries m))"] assms(2) by (simp add: UPDATE_FIRST_FREE_def)

text \<open>A hint that is right stays as it is.\<close>

lemma update_first_free_same:
  assumes "map_ok m"
  shows "UPDATE_FIRST_FREE (first_free m) m = m"
proof -
  obtain ys where ys: "vm_entries m = contig (min_offset m) (vm_entries m) @ ys" using contig_prefix by blast
  then have "UPDATE_FIRST_FREE (last_addr (contig (min_offset m) (vm_entries m))) m =
      m\<lparr>first_free := last_addr (contig (min_offset m) (vm_entries m))\<rparr>"
    using update_first_free [of m _ ys] assms by (simp add: map_ok_def)
  moreover have "first_free m = last_addr (contig (min_offset m) (vm_entries m))" using assms by (simp add: map_ok_def)
  ultimately show ?thesis by simp
qed

end
