(* ===== verification/Vm_Ops.thy ===== *)
theory Vm_Ops
  imports Vm_List
begin

section \<open>Lookup, clipping and ranges\<close>

text \<open>
  \<open>vm_map_lookup_entry\<close> from any hint, and what replacing one entry by parts of it does to a map.
\<close>

subsection \<open>Lookup\<close>

lemma SAVE_HINT_sel [simp]:
  "vm_entries (SAVE_HINT p m) = vm_entries m" "min_offset (SAVE_HINT p m) = min_offset m" "max_offset (SAVE_HINT p m) = max_offset m"
  "hint (SAVE_HINT p m) = p" "first_free (SAVE_HINT p m) = first_free m" "vm_map_size (SAVE_HINT p m) = vm_map_size m"
  "vm_calls (SAVE_HINT p m) = vm_calls m" "vm_lock (SAVE_HINT p m) = vm_lock m"
  by (simp_all add: SAVE_HINT_def)

text \<open>What a lookup gives where the list is cut: the hint is the result, or stays at the header.\<close>

definition lookup_result :: "vm_map \<Rightarrow> vm_map_entry list \<Rightarrow> vm_map_entry list \<Rightarrow> vm_offset_t \<Rightarrow> bool \<times> vme \<times> vm_map" where
  "lookup_result m xs ys a =
     (if ys \<noteq> [] \<and> vme_start (hd ys) \<le> a then (True, first_addr ys, SAVE_HINT (first_addr ys) m)
      else (False, last_addr xs, SAVE_HINT (last_addr xs) m))"

definition cut_at :: "vm_offset_t \<Rightarrow> vm_map_entry list \<Rightarrow> vm_map_entry list \<Rightarrow> bool" where
  "cut_at a xs ys \<longleftrightarrow> (\<forall>x \<in> set xs. vme_end x \<le> a) \<and> (ys \<noteq> [] \<longrightarrow> a < vme_end (hd ys))"

lemma links_distinct: "links_ok m \<Longrightarrow> distinct (VM_HDR # map vme_addr (vm_entries m))"
  by (simp add: links_ok_def)

lemma lookup_loop_spec:
  assumes "links_ok m" "vm_entries m = us @ ws @ rest" "\<forall>u \<in> set us. vme_end u \<le> a"
    "rest = [] \<or> ws \<noteq> [] \<and> a < vme_end (last ws)" "length ws < n"
  shows "\<exists>xs ys. us @ ws = xs @ ys \<and> cut_at a xs (ys @ rest) \<and>
    lookup_loop n (first_addr (ws @ rest)) (first_addr rest) a m = lookup_result m xs (ys @ rest) a"
  using assms(2-)
proof (induction ws arbitrary: us n)
  case Nil
  then obtain n' where "n = Suc n'" by (cases n) auto
  then show ?case using Nil vme_prev_split [OF links_distinct [OF assms(1)], of us rest]
    by (intro exI [of _ us] exI [of _ "[]"]) (auto simp: lookup_result_def cut_at_def Let_def)
next
  case (Cons w ws)
  note L = links_okD [OF assms(1)]
  obtain n' where n: "n = Suc n'" using Cons by (cases n) auto
  have w: "entry_at m (vme_addr w) = w" using entry_at_split [OF L(1), of us w "ws @ rest"] Cons by simp
  have ne: "vme_addr w \<noteq> first_addr rest" using L(1,2) Cons by (cases rest) (auto simp: first_addr_def)
  have prev: "vme_prev m (vme_addr w) = last_addr us"
    using vme_prev_split [OF links_distinct [OF assms(1)], of us "w # ws @ rest"] Cons by simp
  have nxt: "vme_next m (vme_addr w) = first_addr (ws @ rest)"
    using vme_next_split [OF links_distinct [OF assms(1)], of "us @ [w]" "ws @ rest"] Cons by simp
  show ?case
  proof (cases "vme_end w > a")
    case True
    then show ?thesis using Cons.prems w ne prev
      by (intro exI [of _ us] exI [of _ "w # ws"]) (auto simp: n lookup_result_def cut_at_def Let_def)
  next
    case False
    have "rest = [] \<or> ws \<noteq> [] \<and> a < vme_end (last ws)" using Cons.prems(3) False by (auto split: if_splits)
    then have "\<exists>xs ys. (us @ [w]) @ ws = xs @ ys \<and> cut_at a xs (ys @ rest) \<and>
      lookup_loop n' (first_addr (ws @ rest)) (first_addr rest) a m = lookup_result m xs (ys @ rest) a"
      by (intro Cons.IH) (use Cons.prems False n in auto)
    then obtain xs ys where "(us @ [w]) @ ws = xs @ ys" "cut_at a xs (ys @ rest)"
      "lookup_loop n' (first_addr (ws @ rest)) (first_addr rest) a m = lookup_result m xs (ys @ rest) a" by blast
    then show ?thesis using False w ne nxt by (intro exI [of _ xs] exI [of _ ys]) (simp add: n Let_def)
  qed
qed

lemma vm_lookup_spec:
  assumes "map_ok m"
  obtains (lookup) xs ys where "vm_entries m = xs @ ys" "cut_at a xs ys" "vm_map_lookup_entry m a = lookup_result m xs ys a"
  | (first) y ys where "vm_entries m = y # ys" "vme_start y \<le> a" "a < vme_end y" "hint m = VM_HDR"
      "vm_map_lookup_entry m a = (True, vme_addr y, m)"
proof -
  have ok: "links_ok m" and h: "hint m \<in> set (VM_HDR # map vme_addr (vm_entries m))" using assms by (auto simp: map_ok_def)
  note L = links_okD [OF ok]
  define cur where "cur = (if hint m = VM_HDR then vme_next m VM_HDR else hint m)"
  have head: "vme_next m VM_HDR = first_addr (vm_entries m)"
    using vme_next_split [OF links_distinct [OF ok], of "[]" "vm_entries m"] by simp
  show ?thesis
  proof (cases "vm_entries m")
    case Nil
    then have "cur = VM_HDR" using h head by (simp add: cur_def)
    moreover have "vme_prev m VM_HDR = VM_HDR" using vme_prev_split [OF links_distinct [OF ok], of "[]" "[]"] Nil by simp
    moreover have "vme_next m VM_HDR = VM_HDR" using head Nil by simp
    ultimately show ?thesis using Nil
      by (intro lookup [of "[]" "[]"]) (simp_all add: cut_at_def vm_map_lookup_entry_def lookup_result_def cur_def [symmetric] Let_def)
  next
    case (Cons f fs)
    have "cur \<in> vme_addr ` set (vm_entries m)" using h head Cons by (auto simp: cur_def)
    then obtain us c vs where c: "vm_entries m = us @ c # vs" "cur = vme_addr c" by (auto dest: split_list)
    have at: "entry_at m cur = c" "cur \<noteq> VM_HDR" using entry_at_split [OF L(1) c(1)] L(2) c by (auto simp: image_iff)
    have asc: "asc (min_offset m) (us @ c # vs)" using L(3) c(1) by simp
    have us: "vme_end u \<le> vme_start c" if "u \<in> set us" for u
      using asc_bounds [of "min_offset m" us u] that asc by (auto intro: order_trans)
    have nxt: "vme_next m cur = first_addr vs"
      using vme_next_split [OF links_distinct [OF ok], of "us @ [c]" vs] c by simp
    consider "vme_start c \<le> a" "a < vme_end c" | "vme_start c \<le> a" "vme_end c \<le> a" | "a < vme_start c" by fastforce
    then show ?thesis
    proof cases
      case 1
      then have r: "vm_map_lookup_entry m a = (True, cur, m)" using at by (simp add: vm_map_lookup_entry_def cur_def [symmetric] Let_def)
      show ?thesis
      proof (cases "hint m = VM_HDR")
        case True
        then have "us = []" using c head L(1) Cons by (cases us) (auto simp: cur_def)
        then show ?thesis using r c 1 True by (intro first) auto
      next
        case False
        then have "SAVE_HINT cur m = m" by (simp add: SAVE_HINT_def cur_def)
        then show ?thesis using 1 c us r by (intro lookup [of us "c # vs"]) (auto simp: cut_at_def lookup_result_def intro: order_trans)
      qed
    next
      case 2
      have "\<exists>xs ys. us @ (c # vs) = xs @ ys \<and> cut_at a xs (ys @ []) \<and> lookup_loop (Suc (length (vm_entries m)))
          (first_addr ((c # vs) @ [])) (first_addr []) a m = lookup_result m xs (ys @ []) a"
        by (intro lookup_loop_spec [OF ok]) (use c us 2 in \<open>auto intro: order_trans\<close>)
      then obtain xs ys where "us @ c # vs = xs @ ys" "cut_at a xs ys"
        "lookup_loop (Suc (length (vm_entries m))) cur VM_HDR a m = lookup_result m xs ys a"
        unfolding c(2) append_Nil2 addr_simps by blast
      moreover have "vm_map_lookup_entry m a = lookup_loop (Suc (length (vm_entries m))) cur VM_HDR a m"
        using at 2 by (auto simp: vm_map_lookup_entry_def cur_def [symmetric] Let_def del: lookup_loop.simps)
      ultimately show ?thesis using c by (intro lookup [of xs ys]) simp_all
    next
      case 3
      have "\<exists>xs ys. [] @ (us @ [c]) = xs @ ys \<and> cut_at a xs (ys @ vs) \<and> lookup_loop (Suc (length (vm_entries m)))
          (first_addr ((us @ [c]) @ vs)) (first_addr vs) a m = lookup_result m xs (ys @ vs) a"
        by (intro lookup_loop_spec [OF ok]) (use c asc 3 in auto)
      then obtain xs ys where "us @ [c] = xs @ ys" "cut_at a xs (ys @ vs)"
        "lookup_loop (Suc (length (vm_entries m))) (first_addr (us @ c # vs)) (first_addr vs) a m = lookup_result m xs (ys @ vs) a"
        unfolding append_Nil append_assoc append_Cons by blast
      moreover have "vm_map_lookup_entry m a = lookup_loop (Suc (length (vm_entries m))) (first_addr (us @ c # vs)) (first_addr vs) a m"
        using at not_le [THEN iffD2, OF 3] head nxt c by (simp add: vm_map_lookup_entry_def cur_def [symmetric] Let_def del: lookup_loop.simps)
      ultimately show ?thesis using c by (intro lookup [of xs "ys @ vs"]) (auto simp: append_eq_append_conv2)
    qed
  qed
qed

lemma links_SAVE_HINT [simp]: "links_ok (SAVE_HINT p m) = links_ok m"
  by (simp add: links_ok_def)

lemma map_ok_SAVE_HINT: "map_ok m \<Longrightarrow> p \<in> set (VM_HDR # map vme_addr (vm_entries m)) \<Longrightarrow> map_ok (SAVE_HINT p m)"
  by (simp add: map_ok_def)

lemma map_okD:
  assumes "map_ok m"
  shows "links_ok m" "hint m \<in> set (VM_HDR # map vme_addr (vm_entries m))"
    "first_free m = last_addr (contig (min_offset m) (vm_entries m))" "vm_map_size m = region_sizes (vm_entries m)"
  using assms by (auto simp: map_ok_def)

lemma addr_in: "last_addr xs \<in> set (VM_HDR # map vme_addr (xs @ ys))" "first_addr ys \<in> set (VM_HDR # map vme_addr (xs @ ys))"
  by (cases xs rule: rev_cases; cases ys; simp)+

text \<open>The two outcomes of a lookup: the entry that holds the address, or the place of the gap.\<close>

lemma lookup_cases:
  assumes "map_ok m"
  obtains (hit) xs e ys h where "vm_entries m = xs @ e # ys" "vme_start e \<le> a" "a < vme_end e"
      "vm_map_lookup_entry m a = (True, vme_addr e, SAVE_HINT h m)" "h \<in> {vme_addr e, VM_HDR}" "map_ok (SAVE_HINT h m)"
  | (miss) xs ys where "vm_entries m = xs @ ys" "\<forall>x \<in> set xs. vme_end x \<le> a" "ys \<noteq> [] \<longrightarrow> a < vme_start (hd ys)"
      "vm_map_lookup_entry m a = (False, last_addr xs, SAVE_HINT (last_addr xs) m)" "map_ok (SAVE_HINT (last_addr xs) m)"
  using assms
proof (cases rule: vm_lookup_spec [of m a])
  case (lookup xs ys)
  show ?thesis
  proof (cases "ys \<noteq> [] \<and> vme_start (hd ys) \<le> a")
    case True
    then obtain e es where "ys = e # es" by (cases ys) auto
    then show ?thesis using lookup True map_ok_SAVE_HINT [OF assms, of "vme_addr e"]
      by (intro hit [of xs e es "vme_addr e"]) (auto simp: lookup_result_def cut_at_def)
  next
    case False
    then show ?thesis using lookup map_ok_SAVE_HINT [OF assms] addr_in(1) [of xs ys]
      by (intro miss [of xs ys]) (auto simp: lookup_result_def cut_at_def)
  qed
next
  case (first y ys)
  then have "SAVE_HINT VM_HDR m = m" by (simp add: SAVE_HINT_def)
  then show ?thesis using first assms by (intro hit [of "[]" y ys VM_HDR]) simp_all
qed

subsection \<open>Replacing an entry by parts of it\<close>

definition prefix_point :: "vm_offset_t \<Rightarrow> vm_map_entry list \<Rightarrow> vme \<Rightarrow> bool" where
  "prefix_point lo es p \<longleftrightarrow> (\<exists>zs ws. es = zs @ ws \<and> adj lo zs \<and> p = last_addr zs)"

lemma update_prefix_point:
  "links_ok m \<Longrightarrow> prefix_point (min_offset m) (vm_entries m) p \<Longrightarrow>
   UPDATE_FIRST_FREE p m = m\<lparr>first_free := last_addr (contig (min_offset m) (vm_entries m))\<rparr>"
  unfolding prefix_point_def contig_adj [symmetric] using update_first_free by blast

lemma prefix_pointI: "es = zs @ ws \<Longrightarrow> adj lo zs \<Longrightarrow> p = last_addr zs \<Longrightarrow> prefix_point lo es p"
  unfolding prefix_point_def by blast

lemma prefix_point_replace:
  assumes mid: "adj (vme_start e) (ms @ d # ns)" "vme_addr d = vme_addr e" "end_of (vme_start e) (ms @ d # ns) = vme_end e"
  shows "prefix_point lo (xs @ ms @ d # ns @ ys) (last_addr (contig lo (xs @ e # ys)))"
proof (cases "adj lo xs \<and> end_of lo xs = vme_start e")
  case True
  then have c: "contig lo (xs @ e # ys) = xs @ e # contig (vme_end e) ys" by (simp add: contig_append contig_adj)
  obtain ws where ws: "ys = contig (vme_end e) ys @ ws" using contig_prefix by blast
  show ?thesis
  proof (cases "contig (vme_end e) ys = []")
    case e: True
    show ?thesis by (rule prefix_pointI [of _ "xs @ ms @ [d]" "ns @ ys"]) (use True mid e in \<open>simp_all add: c last_addr_def\<close>)
  next
    case False
    have "last_addr (xs @ ms @ d # ns @ contig (vme_end e) ys) = last_addr (xs @ e # contig (vme_end e) ys)"
      using False by (simp add: last_addr_def)
    then show ?thesis using True mid ws
      by (intro prefix_pointI [of _ "xs @ ms @ d # ns @ contig (vme_end e) ys" ws]) (simp_all add: c)
  qed
next
  case False
  obtain ws where ws: "xs = contig lo xs @ ws" using contig_prefix by blast
  have "contig lo (xs @ e # ys) = contig lo xs"
  proof (cases "adj lo xs")
    case True
    then have "contig lo xs = xs" by (simp add: contig_adj)
    then show ?thesis using False True contig_append [of lo xs "e # ys"] by simp
  qed (simp add: contig_cut)
  then show ?thesis using ws
    by (intro prefix_pointI [of _ "contig lo xs" "ws @ ms @ d # ns @ ys"]) simp_all
qed

lemma refine_entry:
  assumes ok: "map_ok m" and es: "vm_entries m = xs @ e # ys"
    and mid: "adj (vme_start e) (ms @ d # ns)" "vme_addr d = vme_addr e" "end_of (vme_start e) (ms @ d # ns) = vme_end e"
    and mid': "asc (vme_start e) (ms @ d # ns)" "aligned_entries (ms @ ns)" "page_aligned (vme_start d)" "page_aligned (vme_end d)"
      "region_sizes (ms @ d # ns) = vme_end e - vme_start e"
    and fresh: "distinct (map vme_addr (ms @ ns))" "vme_addr ` set (ms @ ns) \<inter> set (VM_HDR # map vme_addr (vm_entries m)) = {}"
  shows "map_ok (UPDATE_FIRST_FREE (first_free m) (m\<lparr>vm_entries := xs @ ms @ d # ns @ ys, vm_calls := cs\<rparr>))" (is "map_ok (UPDATE_FIRST_FREE _ ?m)")
    and "\<exists>ff. UPDATE_FIRST_FREE (first_free m) (m\<lparr>vm_entries := xs @ ms @ d # ns @ ys, vm_calls := cs\<rparr>) =
      m\<lparr>vm_entries := xs @ ms @ d # ns @ ys, vm_calls := cs, first_free := ff\<rparr>"
proof -
  note M = map_okD [OF ok]
  note L = links_okD [OF M(1)]
  have asc: "asc (min_offset m) (xs @ ms @ d # ns @ ys)" and eo: "end_of (min_offset m) (xs @ ms @ d # ns @ ys) = end_of (min_offset m) (vm_entries m)"
    using L(3) mid(3) asc_le [OF mid'(1), of "end_of (min_offset m) xs"] unfolding es by auto
  have l: "links_ok ?m"
    using L asc eo mid'(2-4) fresh mid(2) unfolding links_ok_def by (auto simp: es aligned_entries_def)
  have u: "UPDATE_FIRST_FREE (first_free m) ?m = ?m\<lparr>first_free := last_addr (contig (min_offset m) (xs @ ms @ d # ns @ ys))\<rparr>"
    using update_prefix_point [OF l, of "first_free m"] prefix_point_replace [OF mid] M(3) es by simp
  then show "\<exists>ff. UPDATE_FIRST_FREE (first_free m) ?m = m\<lparr>vm_entries := xs @ ms @ d # ns @ ys, vm_calls := cs, first_free := ff\<rparr>"
    by auto
  show "map_ok (UPDATE_FIRST_FREE (first_free m) ?m)"
    unfolding u map_ok_def
  proof (intro conjI)
    show "links_ok (?m\<lparr>first_free := last_addr (contig (min_offset m) (xs @ ms @ d # ns @ ys))\<rparr>)"
      using l by (simp add: links_ok_def)
    show "hint (?m\<lparr>first_free := last_addr (contig (min_offset m) (xs @ ms @ d # ns @ ys))\<rparr>) \<in> set (VM_HDR # map vme_addr (vm_entries
        (?m\<lparr>first_free := last_addr (contig (min_offset m) (xs @ ms @ d # ns @ ys))\<rparr>)))"
      using M(2) mid(2) by (auto simp: es)
    have "region_sizes (vm_entries m) = region_sizes xs + region_sizes (ms @ d # ns) + region_sizes ys"
      unfolding mid'(5) es by simp
    then show "vm_map_size (?m\<lparr>first_free := last_addr (contig (min_offset m) (xs @ ms @ d # ns @ ys))\<rparr>) = region_sizes (vm_entries
        (?m\<lparr>first_free := last_addr (contig (min_offset m) (xs @ ms @ d # ns @ ys))\<rparr>))"
      using M(4) by (simp add: add.assoc)
  qed simp
qed

end
