(* ===== verification/Vm_Clip.thy ===== *)
theory Vm_Clip
  imports Vm_Ops
begin

section \<open>Clipping and operations on a range\<close>

text \<open>
  \<open>vm_map_clip_start\<close> and \<open>vm_map_clip_end\<close> cut an entry in two and change neither \<open>mapping\<close> nor the balance of references.
\<close>

text \<open>The zone of entries never gives out an entry that is in use, or the header.\<close>

definition fresh :: "(vm_map \<Rightarrow> vme) \<Rightarrow> bool" where
  "fresh za \<longleftrightarrow> (\<forall>m. za m \<notin> set (VM_HDR # map vme_addr (vm_entries m)))"

lemma freshD: "fresh za \<Longrightarrow> za m \<noteq> VM_HDR \<and> za m \<notin> vme_addr ` set (vm_entries m)"
  by (auto simp: fresh_def)

text \<open>A zone for examples.\<close>

definition next_addr :: "vm_map \<Rightarrow> vme" where
  "next_addr m = Suc (sum_list (map vme_addr (vm_entries m)))"

lemma fresh_next_addr: "fresh next_addr"
proof -
  have "x \<in> set es \<Longrightarrow> vme_addr x \<le> sum_list (map vme_addr es)" for x es by (induction es) auto
  then show ?thesis unfolding fresh_def next_addr_def by fastforce
qed

lemma entry_updates [simp]:
  "reference_call (e\<lparr>vme_addr := p, vme_end := s\<rparr>) = reference_call e"
  "reference_call (e\<lparr>vme_addr := p, vme_start := s, vme_offset := t\<rparr>) = reference_call e"
  by (simp_all add: reference_call_def)

lemma clip_start_spec:
  assumes "map_ok m" "fresh za" and es: "vm_entries m = xs @ e # ys" and s: "vme_start e < s" "s < vme_end e" "page_aligned s"
  defines "d \<equiv> e\<lparr>vme_addr := za m, vme_end := s\<rparr>" and "e' \<equiv> e\<lparr>vme_offset := vme_offset e + (s - vme_start e), vme_start := s\<rparr>"
  shows "map_ok (vm_map_clip_start za (vme_addr e) s m)"
    and "\<exists>ff. vm_map_clip_start za (vme_addr e) s m =
      m\<lparr>vm_entries := xs @ d # e' # ys, vm_calls := vm_calls m @ [reference_call e], first_free := ff\<rparr>"
proof -
  note M = map_okD [OF assms(1)]
  note L = links_okD [OF M(1)]
  have at: "entry_at m (vme_addr e) = e" by (rule entry_at_split [OF L(1) es])
  have set: "set_entry (vme_addr e) (\<lambda>e. e\<lparr>vme_offset := vme_offset e + (s - vme_start e), vme_start := s\<rparr>) m = m\<lparr>vm_entries := xs @ e' # ys\<rparr>"
    unfolding e'_def by (rule set_entry_split [OF L(1) es])
  have dist: "distinct (VM_HDR # map vme_addr (vm_entries (m\<lparr>vm_entries := xs @ e' # ys\<rparr>)))"
    using links_distinct [OF M(1)] by (simp add: es e'_def)
  have prev: "vme_prev (m\<lparr>vm_entries := xs @ e' # ys\<rparr>) (vme_addr e) = last_addr xs"
    using vme_prev_split [OF dist, of xs "e' # ys"] by (simp add: e'_def)
  have link: "link_entry (last_addr xs) d (m\<lparr>vm_entries := xs @ e' # ys\<rparr>) = m\<lparr>vm_entries := xs @ d # e' # ys\<rparr>"
    using link_split [OF dist, of xs "e' # ys" d] by simp
  have c: "vm_map_clip_start za (vme_addr e) s m =
      UPDATE_FIRST_FREE (first_free m) (m\<lparr>vm_entries := xs @ [d] @ e' # [] @ ys, vm_calls := vm_calls m @ [reference_call e]\<rparr>)"
    using s(1) set prev link by (simp add: vm_map_clip_start_def clip_start_def at Let_def vm_call_def d_def)
  have al: "page_aligned (vme_start e)" "page_aligned (vme_end e)" using L(6) es by (auto simp: aligned_entries_def)
  have "za m \<noteq> VM_HDR" "za m \<notin> vme_addr ` set (vm_entries m)" using freshD [OF assms(2)] by auto
  then have p: "adj (vme_start e) ([d] @ e' # [])" "vme_addr e' = vme_addr e" "end_of (vme_start e) ([d] @ e' # []) = vme_end e"
    "asc (vme_start e) ([d] @ e' # [])" "aligned_entries ([d] @ [])" "page_aligned (vme_start e')" "page_aligned (vme_end e')"
    "region_sizes ([d] @ e' # []) = vme_end e - vme_start e"
    "distinct (map vme_addr ([d] @ []))" "vme_addr ` set ([d] @ []) \<inter> set (VM_HDR # map vme_addr (vm_entries m)) = {}"
    using s al by (simp_all add: d_def e'_def aligned_entries_def)
  show "map_ok (vm_map_clip_start za (vme_addr e) s m)"
    unfolding c by (rule refine_entry(1) [OF assms(1) es p])
  have "\<exists>ff. vm_map_clip_start za (vme_addr e) s m =
      m\<lparr>vm_entries := xs @ [d] @ e' # [] @ ys, vm_calls := vm_calls m @ [reference_call e], first_free := ff\<rparr>"
    unfolding c by (rule refine_entry(2) [OF assms(1) es p])
  then show "\<exists>ff. vm_map_clip_start za (vme_addr e) s m =
      m\<lparr>vm_entries := xs @ d # e' # ys, vm_calls := vm_calls m @ [reference_call e], first_free := ff\<rparr>" by simp
qed

lemma clip_end_spec:
  assumes "map_ok m" "fresh za" and es: "vm_entries m = xs @ e # ys" and s: "vme_start e < s" "s < vme_end e" "page_aligned s"
  defines "d \<equiv> e\<lparr>vme_addr := za m, vme_start := s, vme_offset := vme_offset e + (s - vme_start e)\<rparr>" and "e' \<equiv> e\<lparr>vme_end := s\<rparr>"
  shows "map_ok (vm_map_clip_end za (vme_addr e) s m)"
    and "\<exists>ff. vm_map_clip_end za (vme_addr e) s m =
      m\<lparr>vm_entries := xs @ e' # d # ys, vm_calls := vm_calls m @ [reference_call e], first_free := ff\<rparr>"
proof -
  note M = map_okD [OF assms(1)]
  note L = links_okD [OF M(1)]
  have at: "entry_at m (vme_addr e) = e" by (rule entry_at_split [OF L(1) es])
  have set: "set_entry (vme_addr e) (\<lambda>e. e\<lparr>vme_end := s\<rparr>) m = m\<lparr>vm_entries := xs @ e' # ys\<rparr>"
    unfolding e'_def by (rule set_entry_split [OF L(1) es])
  have dist: "distinct (VM_HDR # map vme_addr (vm_entries (m\<lparr>vm_entries := xs @ e' # ys\<rparr>)))"
    using links_distinct [OF M(1)] by (simp add: es e'_def)
  have link: "link_entry (vme_addr e) d (m\<lparr>vm_entries := xs @ e' # ys\<rparr>) = m\<lparr>vm_entries := xs @ e' # d # ys\<rparr>"
    using link_split [OF dist, of "xs @ [e']" ys d] by (simp add: e'_def)
  have c: "vm_map_clip_end za (vme_addr e) s m =
      UPDATE_FIRST_FREE (first_free m) (m\<lparr>vm_entries := xs @ [] @ e' # [d] @ ys, vm_calls := vm_calls m @ [reference_call e]\<rparr>)"
    using s(2) set link by (simp add: vm_map_clip_end_def clip_end_def at Let_def vm_call_def d_def)
  have al: "page_aligned (vme_start e)" "page_aligned (vme_end e)" using L(6) es by (auto simp: aligned_entries_def)
  have "za m \<noteq> VM_HDR" "za m \<notin> vme_addr ` set (vm_entries m)" using freshD [OF assms(2)] by auto
  then have p: "adj (vme_start e) ([] @ e' # [d])" "vme_addr e' = vme_addr e" "end_of (vme_start e) ([] @ e' # [d]) = vme_end e"
    "asc (vme_start e) ([] @ e' # [d])" "aligned_entries ([] @ [d])" "page_aligned (vme_start e')" "page_aligned (vme_end e')"
    "region_sizes ([] @ e' # [d]) = vme_end e - vme_start e"
    "distinct (map vme_addr ([] @ [d]))" "vme_addr ` set ([] @ [d]) \<inter> set (VM_HDR # map vme_addr (vm_entries m)) = {}"
    using s al by (simp_all add: d_def e'_def aligned_entries_def)
  show "map_ok (vm_map_clip_end za (vme_addr e) s m)"
    unfolding c by (rule refine_entry(1) [OF assms(1) es p])
  have "\<exists>ff. vm_map_clip_end za (vme_addr e) s m =
      m\<lparr>vm_entries := xs @ [] @ e' # [d] @ ys, vm_calls := vm_calls m @ [reference_call e], first_free := ff\<rparr>"
    unfolding c by (rule refine_entry(2) [OF assms(1) es p])
  then show "\<exists>ff. vm_map_clip_end za (vme_addr e) s m =
      m\<lparr>vm_entries := xs @ e' # d # ys, vm_calls := vm_calls m @ [reference_call e], first_free := ff\<rparr>" by simp
qed

text \<open>Nothing is clipped at or outside the border.\<close>

lemma clip_none:
  assumes "map_ok m" "vm_entries m = xs @ e # ys"
  shows "s \<le> vme_start e \<Longrightarrow> vm_map_clip_start za (vme_addr e) s m = m"
    and "vme_end e \<le> s \<Longrightarrow> vm_map_clip_end za (vme_addr e) s m = m"
  using assms entry_at_split [OF links_okD(1) [OF map_okD(1)], OF assms] update_first_free_same [OF assms(1)]
  by (simp_all add: vm_map_clip_start_def vm_map_clip_end_def)

text \<open>What the two parts map.\<close>

lemma attrs_simps [simp]:
  "attrs (e\<lparr>vme_addr := p\<rparr>) = attrs e" "attrs (e\<lparr>vme_start := s\<rparr>) = attrs e" "attrs (e\<lparr>vme_end := s\<rparr>) = attrs e"
  "attrs (e\<lparr>vme_offset := t\<rparr>) = attrs e" "attrs (attrs e) = attrs e"
  by (simp_all add: attrs_def)

lemma mapping_parts:
  assumes "vme_start e < s" "s < vme_end e"
  shows "mapping (e\<lparr>vme_addr := p, vme_end := s\<rparr> # e\<lparr>vme_offset := vme_offset e + (s - vme_start e), vme_start := s\<rparr> # ys) a =
      mapping (e # ys) a"
    and "mapping (e\<lparr>vme_end := s\<rparr> # e\<lparr>vme_addr := p, vme_start := s, vme_offset := vme_offset e + (s - vme_start e)\<rparr> # ys) a =
      mapping (e # ys) a"
  using assms by (auto simp: not_le not_less)

end
