(* ===== verification/Vm_Range.thy ===== *)
theory Vm_Range
  imports Vm_Clip
begin

section \<open>Operations on a range of addresses\<close>

subsection \<open>Changing an entry in its place\<close>

lemma last_addr_map: "last_addr es = (if map vme_addr es = [] then VM_HDR else last (map vme_addr es))"
  by (simp add: last_addr_def last_map)

lemma contig_same:
  assumes "vme_addr e' = vme_addr e" "vme_start e' = vme_start e" "vme_end e' = vme_end e"
  shows "map vme_addr (contig lo (xs @ e' # ys)) = map vme_addr (contig lo (xs @ e # ys))"
  using assms by (induction xs arbitrary: lo) simp_all

lemma map_ok_change:
  assumes ok: "map_ok m" and es: "vm_entries m = xs @ e # ys"
    and e': "vme_addr e' = vme_addr e" "vme_start e' = vme_start e" "vme_end e' = vme_end e"
  shows "map_ok (m\<lparr>vm_entries := xs @ e' # ys, vm_calls := cs\<rparr>)" (is "map_ok ?m")
proof -
  note M = map_okD [OF ok]
  have l: "links_ok ?m" using M(1) e' by (simp add: links_ok_def es aligned_entries_def)
  have "last_addr (contig (min_offset m) (xs @ e' # ys)) = last_addr (contig (min_offset m) (xs @ e # ys))"
    unfolding last_addr_map contig_same [OF e'] by simp
  moreover have "region_sizes (xs @ e' # ys) = region_sizes (xs @ e # ys)" using e' by simp
  ultimately show ?thesis using l M(2-4) e' by (simp add: map_ok_def es)
qed

lemma taken_refs_Cons [simp]:
  "taken_refs sub obj (reference_call e # cs) = of_bool (is_sub_map e = sub \<and> vme_object e = obj) + taken_refs sub obj cs"
  using taken_refs_simps(1) [of sub obj "[reference_call e]" cs] by simp

lemma same_map: "vm_entries m = es \<Longrightarrow> m\<lparr>vm_entries := es, vm_calls := vm_calls m @ [], first_free := first_free m\<rparr> = m"
  by auto

lemma mapping_upto: "asc lo (e # ys) \<Longrightarrow> a < vme_end e \<Longrightarrow> mapping ys a = None"
  using mapping_below [of "vme_end e" ys a] by simp

text \<open>
  What \<open>vm_map_protect\<close>, \<open>vm_map_inherit\<close> and \<open>vm_map_behavior_set\<close> share: a change of the attributes of one entry, which the
  loop makes on each entry of the range.
\<close>

locale range_change =
  fixes change :: "vme \<Rightarrow> vm_map \<Rightarrow> vm_map" and f :: "vm_map_entry \<Rightarrow> vm_map_entry" and made :: "vm_map_entry \<Rightarrow> vm_call list"
  assumes change_entry: "distinct (map vme_addr (vm_entries m)) \<Longrightarrow> vm_entries m = xs @ e # ys \<Longrightarrow>
      change (vme_addr e) m = m\<lparr>vm_entries := xs @ f e # ys, vm_calls := vm_calls m @ made e\<rparr>"
    and made: "taken_refs sub obj (made e) = 0"
    and keeps: "vme_addr (f e) = vme_addr e" "vme_start (f e) = vme_start e" "vme_end (f e) = vme_end e"
      "vme_offset (f e) = vme_offset e" "vme_object (f e) = vme_object e" "is_sub_map (f e) = is_sub_map e"
    and attrs_f: "attrs (f e) = f (attrs e)"
begin

definition ranged :: "vm_offset_t \<Rightarrow> vm_map_entry list \<Rightarrow> vm_map_entry list \<Rightarrow> vm_call list \<Rightarrow> bool" where
  "ranged endaddr ys zs cs \<longleftrightarrow>
     (\<forall>a. mapping zs a = (if a < endaddr then map_option (apfst f) (mapping ys a) else mapping ys a)) \<and>
     (\<forall>sub obj. held sub obj zs - taken_refs sub obj cs = held sub obj ys) \<and>
     (\<forall>a. a < endaddr \<and> mapping ys a \<noteq> None \<longrightarrow>
       (\<exists>d. vme_start d \<le> a \<and> a < vme_end d \<and> map_option fst (mapping ys a) = Some (attrs d) \<and> set (made d) \<subseteq> set cs))"

lemma change_ok:
  assumes "map_ok m" "vm_entries m = xs @ e # ys"
  shows "change (vme_addr e) m = m\<lparr>vm_entries := xs @ f e # ys, vm_calls := vm_calls m @ made e\<rparr>"
    "map_ok (m\<lparr>vm_entries := xs @ f e # ys, vm_calls := vm_calls m @ made e\<rparr>)"
  using change_entry [OF links_okD(1) [OF map_okD(1) [OF assms(1)]] assms(2)] map_ok_change [OF assms, of "f e"] keeps by auto

lemma ranged_nil: "\<forall>y \<in> set ys. endaddr \<le> vme_start y \<Longrightarrow> ranged endaddr ys ys []"
proof -
  assume a: "\<forall>y \<in> set ys. endaddr \<le> vme_start y"
  have "mapping ys a = None" if "a < endaddr" for a
    using a that by (induction ys) (auto simp: not_le)
  then show ?thesis by (simp add: ranged_def)
qed

lemma loop:
  assumes "map_ok m" "fresh za" "vm_entries m = xs @ ys" "page_aligned endaddr" "length ys < n"
  shows "\<exists>zs cs ff. range_loop za change n endaddr (first_addr ys) m =
      m\<lparr>vm_entries := xs @ zs, vm_calls := vm_calls m @ cs, first_free := ff\<rparr> \<and>
    map_ok (m\<lparr>vm_entries := xs @ zs, vm_calls := vm_calls m @ cs, first_free := ff\<rparr>) \<and> ranged endaddr ys zs cs"
  using assms(1,3,5)
proof (induction ys arbitrary: xs m n)
  case Nil
  then obtain n' where "n = Suc n'" by (cases n) auto
  then show ?case using Nil ranged_nil [of "[]" endaddr] 
    by (intro exI [of _ "[]"] exI [of _ "first_free m"], unfold same_map [OF Nil(2)]) simp
next
  case (Cons y ys)
  note M = map_okD [OF Cons.prems(1)]
  note L = links_okD [OF M(1)]
  obtain n' where n: "n = Suc n'" "length ys < n'" using Cons by (cases n) auto
  have at: "entry_at m (vme_addr y) = y" by (rule entry_at_split [OF L(1) Cons.prems(2)])
  have y: "vme_addr y \<noteq> VM_HDR" using L(2) Cons.prems(2) by auto
  have asc: "asc (end_of (min_offset m) xs) (y # ys)" using L(3) unfolding Cons.prems(2) asc_append by simp
  show ?case
  proof (cases "vme_start y < endaddr")
    case False
    have "\<forall>z \<in> set (y # ys). endaddr \<le> vme_start z"
      using asc_bounds [of "vme_end y" ys] asc False by fastforce
    then show ?thesis using False at y Cons.prems(1) ranged_nil [of "y # ys"] 
      by (intro exI [of _ "y # ys"] exI [of _ "[]"] exI [of _ "first_free m"], unfold same_map [OF Cons.prems(2)]) (simp add: n)
  next
    case True
    show ?thesis
    proof (cases "endaddr < vme_end y")
      case clip: True
      define d where "d = y\<lparr>vme_addr := za m, vme_start := endaddr, vme_offset := vme_offset y + (endaddr - vme_start y)\<rparr>"
      note c = clip_end_spec [OF Cons.prems(1) assms(2) Cons.prems(2) True clip assms(4), folded d_def]
      define m1 where "m1 = vm_map_clip_end za (vme_addr y) endaddr m"
      obtain ff where m1: "m1 = m\<lparr>vm_entries := xs @ y\<lparr>vme_end := endaddr\<rparr> # d # ys, vm_calls := vm_calls m @ [reference_call y], first_free := ff\<rparr>"
        using c(2) unfolding m1_def by blast
      have es1: "vm_entries m1 = xs @ y\<lparr>vme_end := endaddr\<rparr> # d # ys" by (simp add: m1)
      define cs where "cs = made (y\<lparr>vme_end := endaddr\<rparr>)"
      have cs: "change (vme_addr y) m1 = m1\<lparr>vm_entries := xs @ f (y\<lparr>vme_end := endaddr\<rparr>) # d # ys, vm_calls := vm_calls m1 @ cs\<rparr>"
        "map_ok (m1\<lparr>vm_entries := xs @ f (y\<lparr>vme_end := endaddr\<rparr>) # d # ys, vm_calls := vm_calls m1 @ cs\<rparr>)"
        using change_ok [OF c(1) [folded m1_def] es1] by (simp_all add: cs_def)
      define m2 where "m2 = m1\<lparr>vm_entries := xs @ f (y\<lparr>vme_end := endaddr\<rparr>) # d # ys, vm_calls := vm_calls m1 @ cs\<rparr>"
      have es2: "vm_entries m2 = (xs @ [f (y\<lparr>vme_end := endaddr\<rparr>)]) @ d # ys" by (simp add: m2_def)
      have l2: "links_ok m2" using cs(2) map_okD(1) by (simp add: m2_def)
      have nxt: "vme_next m2 (vme_addr y) = vme_addr d"
        using vme_next_split [OF links_distinct [OF l2] es2] keeps by simp
      have atd: "entry_at m2 (vme_addr d) = d" by (rule entry_at_split [OF links_okD(1) [OF l2] es2])
      have stop: "range_loop za change n' endaddr (vme_addr d) m2 = m2" using atd by (cases n') (simp_all add: d_def)
      have r: "range_loop za change n endaddr (vme_addr y) m = m2"
        using True at y stop nxt cs(1) by (simp add: n m1_def [symmetric] m2_def [symmetric] Let_def)
      have map: "mapping (f (y\<lparr>vme_end := endaddr\<rparr>) # d # ys) a =
          (if a < endaddr then map_option (apfst f) (mapping (y # ys) a) else mapping (y # ys) a)" for a
        using True clip keeps attrs_f mapping_upto [OF asc] by (auto simp: d_def not_less not_le attrs_f)
      have "ranged endaddr (y # ys) (f (y\<lparr>vme_end := endaddr\<rparr>) # d # ys) ([reference_call y] @ cs)"
        unfolding ranged_def
      proof (intro conjI allI impI)
        fix a assume a: "a < endaddr \<and> mapping (y # ys) a \<noteq> None"
        then have "a < vme_end y" using clip by (blast intro: less_trans)
        then have "mapping ys a = None" by (rule mapping_upto [OF asc])
        then have "vme_start y \<le> a" "map_option fst (mapping (y # ys) a) = Some (attrs y)" using a by (auto split: if_splits)
        then show "\<exists>d. vme_start d \<le> a \<and> a < vme_end d \<and> map_option fst (mapping (y # ys) a) = Some (attrs d) \<and>
            set (made d) \<subseteq> set ([reference_call y] @ cs)"
          using a by (intro exI [of _ "y\<lparr>vme_end := endaddr\<rparr>"]) (auto simp: cs_def)
      qed (use map keeps made in \<open>simp_all add: d_def cs_def del: mapping.simps\<close>)
      moreover have "m2 = m\<lparr>vm_entries := xs @ f (y\<lparr>vme_end := endaddr\<rparr>) # d # ys, vm_calls := vm_calls m @ [reference_call y] @ cs, first_free := ff\<rparr>"
        by (simp add: m2_def m1)
      ultimately show ?thesis using cs(2) r unfolding addr_simps m2_def [symmetric] by metis
    next
      case False
      then have clip: "vm_map_clip_end za (vme_addr y) endaddr m = m" using clip_none(2) [OF Cons.prems(1,2)] by simp
      note cs = change_ok [OF Cons.prems(1,2)]
      define m2 where "m2 = m\<lparr>vm_entries := xs @ f y # ys, vm_calls := vm_calls m @ made y\<rparr>"
      have es2: "vm_entries m2 = (xs @ [f y]) @ ys" by (simp add: m2_def)
      have ok2: "map_ok m2" using cs(2) by (simp add: m2_def)
      have nxt: "vme_next m2 (vme_addr y) = first_addr ys"
        using vme_next_split [OF links_distinct [OF map_okD(1) [OF ok2]] es2] keeps by simp
      have r: "range_loop za change n endaddr (vme_addr y) m = range_loop za change n' endaddr (first_addr ys) m2"
        using True at y nxt cs(1) clip by (simp add: n m2_def [symmetric] Let_def)
      obtain zs cs' ff where z: "range_loop za change n' endaddr (first_addr ys) m2 =
          m2\<lparr>vm_entries := (xs @ [f y]) @ zs, vm_calls := vm_calls m2 @ cs', first_free := ff\<rparr>"
        "map_ok (m2\<lparr>vm_entries := (xs @ [f y]) @ zs, vm_calls := vm_calls m2 @ cs', first_free := ff\<rparr>)" "ranged endaddr ys zs cs'"
        using Cons.IH [OF ok2 es2 n(2)] by blast
      have map: "mapping (f y # zs) a = (if a < endaddr then map_option (apfst f) (mapping (y # ys) a) else mapping (y # ys) a)" for a
        using z(3) False keeps attrs_f by (auto simp: ranged_def)
      have "ranged endaddr (y # ys) (f y # zs) (made y @ cs')"
        unfolding ranged_def
      proof (intro conjI allI impI)
        fix a assume a: "a < endaddr \<and> mapping (y # ys) a \<noteq> None"
        show "\<exists>d. vme_start d \<le> a \<and> a < vme_end d \<and> map_option fst (mapping (y # ys) a) = Some (attrs d) \<and>
            set (made d) \<subseteq> set (made y @ cs')"
        proof (cases "vme_start y \<le> a \<and> a < vme_end y")
          case True
          then show ?thesis by (intro exI [of _ y]) simp
        next
          case False
          then have "mapping (y # ys) a = mapping ys a" by auto
          moreover from this have "\<exists>d. vme_start d \<le> a \<and> a < vme_end d \<and> map_option fst (mapping ys a) = Some (attrs d) \<and> set (made d) \<subseteq> set cs'"
            using z(3) a unfolding ranged_def by metis
          ultimately show ?thesis unfolding set_append by (metis le_supI2)
        qed
      qed (use z(3) map keeps made in \<open>simp_all add: ranged_def del: mapping.simps\<close>)
      moreover have "m2\<lparr>vm_entries := (xs @ [f y]) @ zs, vm_calls := vm_calls m2 @ cs', first_free := ff\<rparr> =
          m\<lparr>vm_entries := xs @ f y # zs, vm_calls := vm_calls m @ made y @ cs', first_free := ff\<rparr>"
        by (simp add: m2_def)
      ultimately show ?thesis using z(1,2) r unfolding addr_simps by metis
    qed
  qed
qed

text \<open>From the first entry of the range on.\<close>

definition changed :: "vm_offset_t \<Rightarrow> vm_offset_t \<Rightarrow> vm_map \<Rightarrow> vm_map \<Rightarrow> bool" where
  "changed start endaddr m m' \<longleftrightarrow> map_ok m' \<and> vm_lock m' = vm_lock m \<and>
     min_offset m' = min_offset m \<and> max_offset m' = max_offset m \<and> balance m' = balance m \<and>
     mapping (vm_entries m') = (\<lambda>a. if start \<le> a \<and> a < endaddr then map_option (apfst f) (mapping (vm_entries m) a)
       else mapping (vm_entries m) a) \<and>
     (\<forall>a. start \<le> a \<and> a < endaddr \<and> mapping (vm_entries m) a \<noteq> None \<longrightarrow>
       (\<exists>d. vme_start d \<le> a \<and> a < vme_end d \<and> map_option fst (mapping (vm_entries m) a) = Some (attrs d) \<and>
         set (made d) \<subseteq> set (drop (length (vm_calls m)) (vm_calls m'))))"

lemma loop_changed:
  assumes "map_ok m" "fresh za" "vm_entries m = xs @ ys" "page_aligned endaddr" "length ys < n"
    and cut: "\<forall>x \<in> set xs. vme_end x \<le> start" "\<forall>y \<in> set ys. start \<le> vme_start y"
  shows "changed start endaddr m (range_loop za change n endaddr (first_addr ys) m)"
proof -
  obtain zs cs ff where z: "range_loop za change n endaddr (first_addr ys) m =
      m\<lparr>vm_entries := xs @ zs, vm_calls := vm_calls m @ cs, first_free := ff\<rparr>"
    "map_ok (m\<lparr>vm_entries := xs @ zs, vm_calls := vm_calls m @ cs, first_free := ff\<rparr>)" "ranged endaddr ys zs cs"
    using loop [OF assms(1-5)] by blast
  have before: "mapping xs a = None" if "start \<le> a" for a
    using cut(1) that by (induction xs) (auto simp: not_less intro: order_trans)
  have after: "mapping ys a = None" if "a < start" for a
    using cut(2) that by (induction ys) (auto simp: not_le intro: less_le_trans)
  have "mapping (xs @ zs) a = (if start \<le> a \<and> a < endaddr then map_option (apfst f) (mapping (xs @ ys) a) else mapping (xs @ ys) a)" for a
    using z(3) before [of a] after [of a] by (auto simp: ranged_def mapping_append not_le split: option.splits)
  moreover have "\<exists>d. vme_start d \<le> a \<and> a < vme_end d \<and> map_option fst (mapping (xs @ ys) a) = Some (attrs d) \<and>
      set (made d) \<subseteq> set cs" if "start \<le> a" "a < endaddr" "mapping (xs @ ys) a \<noteq> None" for a
  proof -
    have "mapping (xs @ ys) a = mapping ys a" using before [OF that(1)] by (simp add: mapping_append)
    then show ?thesis using z(3) that unfolding ranged_def by metis
  qed
  moreover have "balance (m\<lparr>vm_entries := xs @ zs, vm_calls := vm_calls m @ cs, first_free := ff\<rparr>) = balance m"
    using z(3) by (simp add: balance_def ranged_def assms(3) fun_eq_iff algebra_simps)
  ultimately show ?thesis unfolding z(1) changed_def using z(2) assms(3) by (simp add: fun_eq_iff)
qed

lemma changed_refined:
  assumes "changed start endaddr m1 m2" "vm_lock m1 = vm_lock m" "min_offset m1 = min_offset m" "max_offset m1 = max_offset m"
    "balance m1 = balance m" "mapping (vm_entries m1) = mapping (vm_entries m)" and le: "length (vm_calls m) \<le> length (vm_calls m1)"
  shows "changed start endaddr m m2"
proof -
  have "set (drop (length (vm_calls m1)) (vm_calls m2)) \<subseteq> set (drop (length (vm_calls m)) (vm_calls m2))"
    using le by (rule set_drop_subset_set_drop)
  then show ?thesis using assms(1) unfolding changed_def assms(2-6) by blast
qed

lemma range_changed:
  assumes ok: "map_ok m" and za: "fresh za" and es: "vm_entries m = xs @ e # ys" and e: "vme_start e \<le> start" "start < vme_end e"
    and al: "page_aligned start" "page_aligned endaddr"
  shows "changed start endaddr m (range_loop za change (Suc (length (vm_entries (vm_map_clip_start za (vme_addr e) start m)))) endaddr
      (vme_addr e) (vm_map_clip_start za (vme_addr e) start m))"
proof -
  have asc: "asc (min_offset m) (xs @ e # ys)" using links_okD(3) [OF map_okD(1) [OF ok]] es by simp
  then have ys: "\<forall>y \<in> set ys. start \<le> vme_start y" using asc_bounds [of "vme_end e" ys] e(2) by fastforce
  have xs: "\<forall>x \<in> set xs. vme_end x \<le> vme_start e" using asc asc_bounds [of "min_offset m" xs] by (auto intro: order_trans)
  show ?thesis
  proof (cases "vme_start e = start")
    case True
    then have "vm_map_clip_start za (vme_addr e) start m = m" using clip_none(1) [OF ok es] by simp
    then show ?thesis using loop_changed [OF ok za es al(2), of "Suc (length (vm_entries m))" start] True xs ys es by simp
  next
    case False
    then have lt: "vme_start e < start" using e(1) by simp
    define d where "d = e\<lparr>vme_addr := za m, vme_end := start\<rparr>"
    define e' where "e' = e\<lparr>vme_offset := vme_offset e + (start - vme_start e), vme_start := start\<rparr>"
    note c = clip_start_spec [OF ok za es lt e(2) al(1), folded d_def e'_def]
    obtain ff where m1: "vm_map_clip_start za (vme_addr e) start m =
        m\<lparr>vm_entries := xs @ d # e' # ys, vm_calls := vm_calls m @ [reference_call e], first_free := ff\<rparr>"
      using c(2) by blast
    define m1 where "m1 = vm_map_clip_start za (vme_addr e) start m"
    have es1: "vm_entries m1 = (xs @ [d]) @ e' # ys" by (simp add: m1_def m1)
    have "changed start endaddr m1 (range_loop za change (Suc (length (vm_entries m1))) endaddr (first_addr (e' # ys)) m1)"
      by (rule loop_changed [OF c(1) [folded m1_def] za es1 al(2)])
        (use xs ys lt es1 in \<open>auto simp: d_def e'_def intro: order_trans less_imp_le\<close>)
    moreover have "mapping (vm_entries m1) = mapping (vm_entries m)"
      using mapping_parts(1) [OF lt e(2), of "za m" ys] by (simp add: fun_eq_iff m1_def m1 es d_def e'_def mapping_append del: mapping.simps split: option.splits)
    moreover have "balance m1 = balance m"
      by (simp add: balance_def m1_def m1 es d_def e'_def fun_eq_iff)
    moreover have "vm_lock m1 = vm_lock m" "min_offset m1 = min_offset m" "max_offset m1 = max_offset m"
      "length (vm_calls m) \<le> length (vm_calls m1)" by (simp_all add: m1_def m1)
    ultimately have "changed start endaddr m (range_loop za change (Suc (length (vm_entries m1))) endaddr (first_addr (e' # ys)) m1)"
      using changed_refined by blast
    then show ?thesis by (simp add: m1_def e'_def)
  qed
qed

end

end
