(* ===== verification/Vm_Attr.thy ===== *)
theory Vm_Attr
  imports Vm_Range
begin

section \<open>Changing the attributes of a range\<close>

text \<open>
  \<open>vm_map_protect\<close>, \<open>vm_map_inherit\<close> and \<open>vm_map_behavior_set\<close>: interpretations of \<open>range_change\<close>, the checks that come before
  the change, and what a lookup that hits or misses says of \<open>mapping\<close>.
\<close>

lemma locks_simps [simp]:
  "vm_entries (vm_map_lock m) = vm_entries m" "vm_entries (vm_map_unlock m) = vm_entries m"
  "min_offset (vm_map_lock m) = min_offset m" "min_offset (vm_map_unlock m) = min_offset m"
  "max_offset (vm_map_lock m) = max_offset m" "max_offset (vm_map_unlock m) = max_offset m"
  "vm_calls (vm_map_lock m) = vm_calls m" "vm_calls (vm_map_unlock m) = vm_calls m"
  "vm_lock (vm_map_lock m) = vm_lock m + 1" "vm_lock (vm_map_unlock m) = vm_lock m - 1"
  "map_ok (vm_map_lock m) = map_ok m" "map_ok (vm_map_unlock m) = map_ok m"
  by (simp_all add: vm_map_lock_def vm_map_unlock_def map_ok_def links_ok_def)

lemma SAVE_HINT_balance [simp]: "balance (SAVE_HINT h m) = balance m" "balance (vm_map_lock m) = balance m" "balance (vm_map_unlock m) = balance m"
  by (simp_all add: balance_def fun_eq_iff)

subsection \<open>The three changes\<close>

lemma new_protection_simps [simp]:
  "vme_addr (new_protection p set_max e) = vme_addr e" "vme_start (new_protection p set_max e) = vme_start e"
  "vme_end (new_protection p set_max e) = vme_end e" "vme_offset (new_protection p set_max e) = vme_offset e"
  "vme_object (new_protection p set_max e) = vme_object e" "is_sub_map (new_protection p set_max e) = is_sub_map e"
  "attrs (new_protection p set_max e) = new_protection p set_max (attrs e)"
  by (simp_all add: new_protection_def attrs_def)

interpretation protect: range_change "protect_entry new_prot set_max" "new_protection new_prot set_max"
  "\<lambda>e. let p = protection (new_protection new_prot set_max e)
     in if p \<noteq> protection e then [Pmap_Protect (vme_start e) (vme_end e) (ucast p)] else []"
  for new_prot set_max
proof unfold_locales
  fix m :: vm_map and xs e ys
  assume m: "distinct (map vme_addr (vm_entries m))" "vm_entries m = xs @ e # ys"
  have at: "entry_at m (vme_addr e) = e" by (rule entry_at_split [OF m])
  have set: "set_entry (vme_addr e) (new_protection new_prot set_max) m = m\<lparr>vm_entries := xs @ new_protection new_prot set_max e # ys\<rparr>"
    by (rule set_entry_split [OF m])
  have "entry_at (m\<lparr>vm_entries := xs @ new_protection new_prot set_max e # ys\<rparr>) (vme_addr (new_protection new_prot set_max e)) =
      new_protection new_prot set_max e"
    by (rule entry_at_split) (use m in simp_all)
  then have at': "entry_at (m\<lparr>vm_entries := xs @ new_protection new_prot set_max e # ys\<rparr>) (vme_addr e) = new_protection new_prot set_max e"
    by simp
  show "protect_entry new_prot set_max (vme_addr e) m =
      m\<lparr>vm_entries := xs @ new_protection new_prot set_max e # ys, vm_calls := vm_calls m @
        (let p = protection (new_protection new_prot set_max e)
         in if p \<noteq> protection e then [Pmap_Protect (vme_start e) (vme_end e) (ucast p)] else [])\<rparr>"
    unfolding protect_entry_def at set Let_def at' by (simp add: vm_call_def)
qed (auto simp: Let_def)

lemma set_change:
  "distinct (map vme_addr (vm_entries m)) \<Longrightarrow> vm_entries m = xs @ e # ys \<Longrightarrow>
   set_entry (vme_addr e) f m = m\<lparr>vm_entries := xs @ f e # ys, vm_calls := vm_calls m @ []\<rparr>"
  by (simp add: set_entry_split)

interpretation inherit: range_change "\<lambda>p. set_entry p (\<lambda>e. e\<lparr>inheritance := new_inheritance\<rparr>)"
  "\<lambda>e. e\<lparr>inheritance := new_inheritance\<rparr>" "\<lambda>_. []" for new_inheritance
  by unfold_locales (simp_all add: attrs_def set_change)

interpretation advise: range_change "\<lambda>p. set_entry p (\<lambda>e. e\<lparr>behavior := new_behavior\<rparr>)"
  "\<lambda>e. e\<lparr>behavior := new_behavior\<rparr>" "\<lambda>_. []" for new_behavior
  by unfold_locales (simp_all add: attrs_def set_change)

subsection \<open>The check of protections\<close>

definition allows :: "vm_prot_t \<Rightarrow> (vm_map_entry \<times> vm_offset_t) option \<Rightarrow> bool" where
  "allows p r \<longleftrightarrow> (case r of None \<Rightarrow> False | Some (e, _) \<Rightarrow> \<not> is_sub_map e \<and> p AND ucast (max_protection e) = p)"

lemma allows_simps [simp]:
  "\<not> allows p None" "allows p (Some (attrs e, t)) \<longleftrightarrow> \<not> is_sub_map e \<and> p AND ucast (max_protection e) = p"
  by (simp_all add: allows_def attrs_def)

lemma protect_check_spec:
  assumes "links_ok m" "vm_entries m = xs @ ys" "asc prev ys" "length ys < n"
  shows "protect_check n m endaddr p (first_addr ys) prev = KERN_SUCCESS \<longleftrightarrow>
    (\<forall>a. prev \<le> a \<and> a < endaddr \<longrightarrow> allows p (mapping ys a))"
  using assms(2-)
proof (induction ys arbitrary: xs prev n)
  case Nil
  then obtain n' where "n = Suc n'" by (cases n) auto
  then show ?case by (auto simp: not_less Let_def)
next
  case (Cons y ys)
  note L = links_okD [OF assms(1)]
  obtain n' where n: "n = Suc n'" "length ys < n'" using Cons by (cases n) auto
  have at: "entry_at m (vme_addr y) = y" by (rule entry_at_split [OF L(1) Cons.prems(1)])
  have y: "vme_addr y \<noteq> VM_HDR" using L(2) Cons.prems(1) by auto
  have nxt: "vme_next m (vme_addr y) = first_addr ys"
    using vme_next_split [OF links_distinct [OF assms(1)], of "xs @ [y]" ys] Cons.prems(1) by simp
  have asc: "prev \<le> vme_start y" "vme_start y < vme_end y" "asc (vme_end y) ys" using Cons.prems(2) by auto
  have gap: "mapping (y # ys) a = None" if "a < vme_start y" for a
    using mapping_below [of "vme_start y" "y # ys" a] asc that by simp
  show ?case
  proof (cases "vme_start y < endaddr")
    case False
    then have "\<not> allows p (mapping (y # ys) a)" if "a < endaddr" for a using gap that by (simp del: mapping.simps)
    then show ?thesis using False at y by (auto simp: n not_less Let_def simp del: mapping.simps)
  next
    case True
    consider "is_sub_map y \<or> p AND ucast (max_protection y) \<noteq> p" | "\<not> is_sub_map y" "vme_start y \<noteq> prev"
      | "\<not> is_sub_map y" "p AND ucast (max_protection y) = p" "vme_start y = prev" by blast
    then show ?thesis
    proof cases
      case 1
      then have "\<not> allows p (mapping (y # ys) (vme_start y))" using asc by simp
      then show ?thesis using 1 True at y asc(1) by (auto simp: n Let_def simp del: mapping.simps)
    next
      case 2
      then have lt: "prev < vme_start y" using asc by simp
      then have "\<not> allows p (mapping (y # ys) prev)" "prev < endaddr" using gap True by (auto simp del: mapping.simps)
      then show ?thesis using 2 True at y by (auto simp: n Let_def simp del: mapping.simps)
    next
      case 3
      have "protect_check n' m endaddr p (first_addr ys) (vme_end y) = KERN_SUCCESS \<longleftrightarrow>
          (\<forall>a. vme_end y \<le> a \<and> a < endaddr \<longrightarrow> allows p (mapping ys a))"
        using Cons.IH [of "xs @ [y]" "vme_end y" n'] Cons.prems(1) asc(3) n(2) by simp
      also have "\<dots> \<longleftrightarrow> (\<forall>a. prev \<le> a \<and> a < endaddr \<longrightarrow> allows p (mapping (y # ys) a))"
        using 3 asc by (auto simp: not_less)
      finally show ?thesis using 3 True at y nxt by (simp add: n Let_def del: mapping.simps)
    qed
  qed
qed

subsection \<open>Where a lookup hits\<close>

lemma before_none: "\<forall>x \<in> set xs. vme_end x \<le> start \<Longrightarrow> start \<le> a \<Longrightarrow> mapping (xs @ ys) a = mapping ys a"
  by (induction xs) (auto simp: not_less intro: order_trans)

lemma hit_facts:
  assumes "map_ok m" "vm_entries m = xs @ e # ys"
  shows "\<forall>x \<in> set xs. vme_end x \<le> vme_start e" "\<forall>y \<in> set ys. vme_end e \<le> vme_start y" "asc (vme_start e) (e # ys)" "vme_start e < vme_end e"
proof -
  have asc: "asc (min_offset m) (xs @ e # ys)" using links_okD(3) [OF map_okD(1) [OF assms(1)]] assms(2) by simp
  then show "\<forall>x \<in> set xs. vme_end x \<le> vme_start e" using asc_bounds [of "min_offset m" xs] by (auto intro: order_trans)
  show "\<forall>y \<in> set ys. vme_end e \<le> vme_start y" using asc asc_bounds [of "vme_end e" ys] by auto
  show "asc (vme_start e) (e # ys)" "vme_start e < vme_end e" using asc by auto
qed

lemma hit_mapping:
  assumes "map_ok m" "vm_entries m = xs @ e # ys" "vme_start e \<le> a" "a < vme_end e"
  shows "mapping (vm_entries m) a = Some (attrs e, vme_offset e + (a - vme_start e))"
  using before_none [OF hit_facts(1) [OF assms(1,2)] assms(3)] assms by simp

lemma miss_mapping:
  assumes "map_ok m" "vm_entries m = xs @ ys" "\<forall>x \<in> set xs. vme_end x \<le> a" "ys \<noteq> [] \<longrightarrow> a < vme_start (hd ys)"
  shows "mapping (vm_entries m) a = None"
proof -
  have "mapping ys a = None"
  proof (cases ys)
    case (Cons y zs)
    then have "asc (vme_start y) ys" using links_okD(3) [OF map_okD(1) [OF assms(1)]] assms(2) by simp
    then show ?thesis using mapping_below [of "vme_start y" ys a] assms(4) Cons by simp
  qed simp
  then show ?thesis using before_none [OF assms(3), of a ys] assms(2) by simp
qed

lemma hit_allows:
  assumes "map_ok m" "vm_entries m = xs @ e # ys" "vme_start e \<le> start" "start < vme_end e" "start < endaddr"
  shows "(\<forall>a. vme_start e \<le> a \<and> a < endaddr \<longrightarrow> allows p (mapping (e # ys) a)) \<longleftrightarrow>
    (\<forall>a. start \<le> a \<and> a < endaddr \<longrightarrow> allows p (mapping (vm_entries m) a))" (is "?l \<longleftrightarrow> ?r")
proof -
  have m: "mapping (vm_entries m) a = mapping (e # ys) a" if "vme_start e \<le> a" for a
    using before_none [OF hit_facts(1) [OF assms(1,2)] that] assms(2) by simp
  have "allows p (mapping (e # ys) a)" if r: ?r and a: "vme_start e \<le> a" "a < endaddr" for a
  proof (cases "start \<le> a")
    case False
    have "allows p (mapping (e # ys) start)" using r assms(5) m [OF assms(3)] by auto
    then show ?thesis using assms(3,4) a(1) False by (auto split: if_splits)
  qed (use r a m in metis)
  then show ?thesis using assms(3) m by (metis order_trans)
qed

subsection \<open>The check of a range\<close>

lemma range_check_loop_spec:
  assumes "links_ok m" "vm_entries m = xs @ ys" "asc prev ys" "length ys < n" "prev < endaddr"
  shows "range_check_loop n m endaddr (first_addr ys) prev \<longleftrightarrow> (\<forall>a. prev \<le> a \<and> a < endaddr \<longrightarrow> mapping ys a \<noteq> None)"
  using assms(2-)
proof (induction ys arbitrary: xs prev n)
  case Nil
  then show ?case by (cases n) (auto simp: Let_def)
next
  case (Cons y ys)
  note L = links_okD [OF assms(1)]
  obtain n' where n: "n = Suc n'" "length ys < n'" using Cons by (cases n) auto
  have at: "entry_at m (vme_addr y) = y" by (rule entry_at_split [OF L(1) Cons.prems(1)])
  have y: "vme_addr y \<noteq> VM_HDR" using L(2) Cons.prems(1) by auto
  have nxt: "vme_next m (vme_addr y) = first_addr ys"
    using vme_next_split [OF links_distinct [OF assms(1)], of "xs @ [y]" ys] Cons.prems(1) by simp
  have asc: "prev \<le> vme_start y" "vme_start y < vme_end y" "asc (vme_end y) ys" using Cons.prems(2) by auto
  show ?case
  proof (cases "prev = vme_start y")
    case False
    then have "mapping (y # ys) prev = None" using mapping_below [of "vme_start y" "y # ys" prev] asc by auto
    then have "\<not> (\<forall>a. prev \<le> a \<and> a < endaddr \<longrightarrow> mapping (y # ys) a \<noteq> None)" using Cons.prems(4) by (auto simp del: mapping.simps)
    then show ?thesis using False at by (simp add: n Let_def del: mapping.simps)
  next
    case True
    show ?thesis
    proof (cases "endaddr \<le> vme_end y")
      case e: True
      then have "mapping (y # ys) a \<noteq> None" if "prev \<le> a" "a < endaddr" for a using that True by auto
      then show ?thesis using True e at y by (simp add: n Let_def del: mapping.simps)
    next
      case e: False
      have "range_check_loop n' m endaddr (first_addr ys) (vme_end y) \<longleftrightarrow>
          (\<forall>a. vme_end y \<le> a \<and> a < endaddr \<longrightarrow> mapping ys a \<noteq> None)"
        using Cons.IH [of "xs @ [y]" "vme_end y" n'] Cons.prems(1) asc(3) n(2) e by (simp add: not_le)
      also have "\<dots> \<longleftrightarrow> (\<forall>a. prev \<le> a \<and> a < endaddr \<longrightarrow> mapping (y # ys) a \<noteq> None)"
        using True asc by (auto simp: not_less)
      finally show ?thesis using True e at y nxt by (simp add: n Let_def del: mapping.simps)
    qed
  qed
qed

lemma mapping_limits:
  assumes "map_ok m" "mapping (vm_entries m) a \<noteq> None"
  shows "min_offset m \<le> a" "a < max_offset m"
proof -
  note L = links_okD [OF map_okD(1) [OF assms(1)]]
  have "\<not> a < min_offset m" "\<not> end_of (min_offset m) (vm_entries m) \<le> a"
    using assms(2) mapping_below [OF L(3), of a] mapping_above [OF L(3), of a] by auto
  then show "min_offset m \<le> a" "a < max_offset m" using L(4) by auto
qed

text \<open>The limits that \<open>VM_MAP_RANGE_CHECK\<close> sets cut off nothing that is mapped.\<close>

lemma range_limits:
  assumes ok: "map_ok m" and st: "VM_MAP_RANGE_CHECK m start endaddr = (s, t)" and m: "mapping (vm_entries m) a \<noteq> None"
  shows "(s \<le> a \<and> a < t) = (start \<le> a \<and> a < endaddr)"
  using mapping_limits [OF ok m] st by (auto simp: VM_MAP_RANGE_CHECK_def Let_def split: if_splits)

lemma range_aligned:
  assumes "map_ok m" "VM_MAP_RANGE_CHECK m start endaddr = (s, t)" "page_aligned start" "page_aligned endaddr"
  shows "page_aligned s" "page_aligned t"
  using assms(2-) links_okD(7,8) [OF map_okD(1) [OF assms(1)]] by (auto simp: VM_MAP_RANGE_CHECK_def Let_def split: if_splits)

lemma range_check_spec:
  assumes ok: "map_ok m" and lt: "start < endaddr"
  obtains (good) xs e ys h where "vm_map_range_check m start endaddr = (Some (vme_addr e), SAVE_HINT h m)" "map_ok (SAVE_HINT h m)"
      "vm_entries m = xs @ e # ys" "vme_start e \<le> start" "start < vme_end e"
      "\<forall>a. start \<le> a \<and> a < endaddr \<longrightarrow> mapping (vm_entries m) a \<noteq> None"
  | (bad) h where "vm_map_range_check m start endaddr = (None, SAVE_HINT h m)" "map_ok (SAVE_HINT h m)"
      "\<not> (\<forall>a. start \<le> a \<and> a < endaddr \<longrightarrow> mapping (vm_entries m) a \<noteq> None)"
proof (cases "start < min_offset m \<or> endaddr > max_offset m")
  case True
  have "\<not> (\<forall>a. start \<le> a \<and> a < endaddr \<longrightarrow> mapping (vm_entries m) a \<noteq> None)"
  proof
    assume all: "\<forall>a. start \<le> a \<and> a < endaddr \<longrightarrow> mapping (vm_entries m) a \<noteq> None"
    then have "min_offset m \<le> start" "start < max_offset m" using mapping_limits [OF ok] lt by auto
    then have "max_offset m < endaddr" "start \<le> max_offset m" using True by auto
    then show False using all mapping_limits(2) [OF ok, of "max_offset m"] by auto
  qed
  moreover have "SAVE_HINT (hint m) m = m" by (simp add: SAVE_HINT_def)
  moreover have "vm_map_range_check m start endaddr = (None, m)" using True by (auto simp: vm_map_range_check_def)
  ultimately show ?thesis using ok by (intro bad [of "hint m"]) simp_all
next
  case False
  show ?thesis
    using ok
  proof (cases rule: lookup_cases [of m start])
    case (miss xs ys)
    then have "mapping (vm_entries m) start = None" using miss_mapping [OF ok] by simp
    then show ?thesis using miss False lt by (intro bad [of "last_addr xs"]) (auto simp: vm_map_range_check_def)
  next
    case (hit xs e ys h)
    define m1 where "m1 = SAVE_HINT h m"
    have ok1: "map_ok m1" and es: "vm_entries m1 = xs @ e # ys" using hit by (simp_all add: m1_def)
    have at: "entry_at m1 (vme_addr e) = e" by (rule entry_at_split [OF links_okD(1) [OF map_okD(1) [OF ok1]] es])
    have nxt: "vme_next m1 (vme_addr e) = first_addr ys"
      using vme_next_split [OF links_distinct [OF map_okD(1) [OF ok1]], of "xs @ [e]" ys] es by simp
    define good where "good \<longleftrightarrow> endaddr \<le> vme_end e \<or> range_check_loop (length (vm_entries m1)) m1 endaddr (vme_next m1 (vme_addr e)) (vme_end e)"
    have m: "mapping (vm_entries m) a = mapping (e # ys) a" if "start \<le> a" for a
      using before_none [OF hit_facts(1) [OF ok hit(1)], of a "e # ys"] that hit(1,2) order_trans by metis
    have good: "good \<longleftrightarrow> (\<forall>a. start \<le> a \<and> a < endaddr \<longrightarrow> mapping (vm_entries m) a \<noteq> None)"
    proof (cases "endaddr \<le> vme_end e")
      case True
      then have "mapping (vm_entries m) a \<noteq> None" if "start \<le> a" "a < endaddr" for a using m that hit(2) by auto
      then show ?thesis using True by (simp add: good_def)
    next
      case e: False
      have "good \<longleftrightarrow> (\<forall>a. vme_end e \<le> a \<and> a < endaddr \<longrightarrow> mapping ys a \<noteq> None)"
        using range_check_loop_spec [OF map_okD(1) [OF ok1], of "xs @ [e]" ys "vme_end e" "length (vm_entries m1)" endaddr]
          hit_facts(3) [OF ok1 es] es e not_le [THEN iffD1, OF e] nxt by (simp add: good_def del: range_check_loop.simps)
      also have "\<dots> \<longleftrightarrow> (\<forall>a. start \<le> a \<and> a < endaddr \<longrightarrow> mapping (vm_entries m) a \<noteq> None)"
        using m hit(2,3) by (auto simp: not_less)
      finally show ?thesis .
    qed
    have r: "vm_map_range_check m start endaddr = (if good then Some (vme_addr e) else None, m1)"
      using False less_imp_le [OF lt] hit(4) at by (simp add: vm_map_range_check_def m1_def [symmetric] good_def not_le [symmetric])
    show ?thesis
    proof (cases good)
      case True
      then show thesis using r hit good by (intro that(1) [of e h xs ys]) (auto simp: m1_def)
    next
      case False
      then show thesis using r hit good by (intro bad [of h]) (auto simp: m1_def)
    qed
  qed
qed

text \<open>\<open>vm_map_protect\<close> where an entry was found, and the calls it leaves.\<close>

lemma protect_hit:
  assumes ok: "map_ok m1" and za: "fresh za" and es: "vm_entries m1 = xs @ e # ys" and hit: "vme_start e \<le> start" "start < vme_end e"
    and al: "start < endaddr" "page_aligned start" "page_aligned endaddr"
    and r: "vm_map_protect za start endaddr new_prot set_max m = (kr, m')"
    and l: "vm_map_lookup_entry (vm_map_lock m) start = (True, vme_addr e, m1)"
  shows "(kr = KERN_SUCCESS \<longleftrightarrow> (\<forall>a. start \<le> a \<and> a < endaddr \<longrightarrow> allows new_prot (mapping (vm_entries m1) a))) \<and>
    (kr \<noteq> KERN_SUCCESS \<longrightarrow> m' = vm_map_unlock m1) \<and>
    (kr = KERN_SUCCESS \<longrightarrow> (\<exists>m2. m' = vm_map_unlock m2 \<and> protect.changed new_prot set_max start endaddr m1 m2))"
proof -
  have at: "entry_at m1 (vme_addr e) = e" by (rule entry_at_split [OF links_okD(1) [OF map_okD(1) [OF ok]] es])
  define check where "check = protect_check (Suc (length (vm_entries m1))) m1 endaddr new_prot (vme_addr e) (vme_start e)"
  have "check = KERN_SUCCESS \<longleftrightarrow> (\<forall>a. vme_start e \<le> a \<and> a < endaddr \<longrightarrow> allows new_prot (mapping (e # ys) a))"
    using protect_check_spec [OF map_okD(1) [OF ok] es hit_facts(3) [OF ok es], of "Suc (length (vm_entries m1))"] es
    by (simp add: check_def del: protect_check.simps)
  then have check: "check = KERN_SUCCESS \<longleftrightarrow> (\<forall>a. start \<le> a \<and> a < endaddr \<longrightarrow> allows new_prot (mapping (vm_entries m1) a))"
    using hit_allows [OF ok es hit al(1), of new_prot] by simp
  show ?thesis
  proof (cases "check = KERN_SUCCESS")
    case False
    then have "kr = check" "m' = vm_map_unlock m1" using r by (simp_all add: l at vm_map_protect_def check_def [symmetric] Let_def
        del: protect_check.simps range_loop.simps)
    then show ?thesis using check False by simp
  next
    case True
    let ?m = "vm_map_clip_start za (vme_addr e) start m1"
    have "kr = KERN_SUCCESS \<and> m' = vm_map_unlock
        (range_loop za (protect_entry new_prot set_max) (Suc (length (vm_entries ?m))) endaddr (vme_addr e) ?m)"
      using True r by (simp add: l at vm_map_protect_def check_def [symmetric] Let_def del: protect_check.simps range_loop.simps)
    then show ?thesis using check True protect.range_changed [OF ok za es hit al(2,3)] by blast
  qed
qed

lemma protect_flushed:
  assumes c: "protect.changed new_prot set_max start endaddr m1 m2" and a: "start \<le> a" "a < endaddr"
    and m: "mapping (vm_entries m1) a = Some (e, t)" and new: "protection (new_protection new_prot set_max e) \<noteq> protection e"
  shows "\<exists>s t. s \<le> a \<and> a < t \<and> Pmap_Protect s t (ucast (protection (new_protection new_prot set_max e))) \<in>
    set (drop (length (vm_calls m1)) (vm_calls m2))"
proof -
  let ?f = "new_protection new_prot set_max"
  obtain d where d: "vme_start d \<le> a" "a < vme_end d" "e = attrs d"
    "set (let p = protection (?f d) in if p \<noteq> protection d then [Pmap_Protect (vme_start d) (vme_end d) (ucast p)] else [])
      \<subseteq> set (drop (length (vm_calls m1)) (vm_calls m2))"
    using c a m unfolding protect.changed_def by (metis (no_types, lifting) fst_conv option.distinct(1) option.inject option.simps(9))
  have "protection (?f d) = protection (?f e)" "protection d = protection e" using d(3) by (simp_all add: attrs_def new_protection_def)
  then show ?thesis using new d by (intro exI [of _ "vme_start d"] exI [of _ "vme_end d"]) (simp add: Let_def)
qed

end
