(* ===== verification/Vm_Space.thy ===== *)
theory Vm_Space
  imports Vm_Attr
begin

section \<open>The search for space\<close>

text \<open>
  Rounding up to an alignment, and the loop that searches the gaps between entries for a place: the least one that fits, without
  overflow.
\<close>

subsection \<open>Rounding up\<close>

lemma unat_and_mask: "unat (x AND mask k :: 32 word) = unat x mod 2 ^ k"
  by (simp add: take_bit_eq_mask [symmetric] unsigned_take_bit_eq) (simp add: take_bit_eq_mod)

lemma unat_and_not_mask: "unat (x AND NOT (mask k) :: 32 word) = unat x div 2 ^ k * 2 ^ k"
proof -
  have "x AND NOT (mask k) = x - (x AND mask k)" using split_mask [of x k] by (metis add_diff_cancel_right')
  moreover have "x AND mask k \<le> x" unfolding word_le_nat_alt unat_and_mask by simp
  ultimately have "unat (x AND NOT (mask k)) = unat x - unat x mod 2 ^ k" by (simp add: unat_sub unat_and_mask)
  then show ?thesis by (simp add: minus_mod_eq_div_mult)
qed

lemma round_up:
  fixes s :: "32 word" and k :: nat
  defines "s' \<equiv> (s + mask k) AND NOT (mask k)"
  shows "s' < s \<Longrightarrow> \<not> (s \<le> r \<and> r AND mask k = 0)"
    and "\<not> s' < s \<Longrightarrow> s' AND mask k = 0"
    and "\<not> s' < s \<Longrightarrow> s \<le> r \<Longrightarrow> r AND mask k = 0 \<Longrightarrow> s' \<le> r"
proof -
  have "(s' < s \<longrightarrow> \<not> (s \<le> r \<and> r AND mask k = 0)) \<and> (\<not> s' < s \<and> s \<le> r \<and> r AND mask k = 0 \<longrightarrow> s' \<le> r)"
  proof (cases "k < 32")
    case False
    then have m: "mask k = (- 1 :: 32 word)" by (intro bit_word_eqI) (simp add: bit_simps)
    show ?thesis by (auto simp: s'_def m word_le_nat_alt word_less_nat_alt)
  next
    case True
    define M where "M = (2::nat) ^ k"
    have "unat (mask k :: 32 word) = unat (- 1 :: 32 word) mod 2 ^ k" using unat_and_mask [of "- 1" k] by simp
    also have "\<dots> = (2 ^ 32 - 1) mod 2 ^ k" by (simp add: unsigned_minus_1_eq_mask mask_eq_exp_minus_1)
    also have "\<dots> = take_bit k (mask 32 :: nat)" unfolding take_bit_eq_mod by (simp add: mask_eq_exp_minus_1)
    also have "\<dots> = M - 1" using True by (subst take_bit_of_mask) (simp add: M_def mask_eq_exp_minus_1)
    finally have M: "0 < M" "unat (mask k :: 32 word) = M - 1" by (simp_all add: M_def)
    obtain q where q: "(2::nat) ^ 32 = M * q"
      using True by (metis M_def le_add_diff_inverse less_imp_le power_add)
    then have Mle: "M \<le> 2 ^ 32" by (metis dvd_triv_left dvd_imp_le zero_less_numeral zero_less_power)
    have al: "r AND mask k = 0 \<longleftrightarrow> M dvd unat r" for r :: "32 word"
      by (simp add: word_unat_eq_iff unat_and_mask M_def dvd_eq_mod_eq_0)
    have s': "unat s' = (unat s + (M - 1)) mod 2 ^ 32 div M * M"
      unfolding s'_def unat_and_not_mask M_def [symmetric] unat_word_ariths M(2) by simp
    have sz: "unat s < 2 ^ 32" "unat r < 2 ^ 32" using unsigned_less [of s] unsigned_less [of r] by simp_all
    show ?thesis
    proof (cases "unat s + (M - 1) < 2 ^ 32")
      case no: True
      then have e: "unat s' = (unat s + (M - 1)) div M * M" using s' by simp
      have "unat s + (M - 1) < (unat s + (M - 1)) div M * M + M" using dividend_less_div_times [OF M(1), of "unat s + (M - 1)"] by (simp add: add.commute)
      then have ge: "unat s \<le> unat s'" using e M(1) by linarith
      have "unat s' \<le> unat r" if a: "unat s \<le> unat r" "M dvd unat r"
      proof -
        obtain c where c: "unat r = M * c" using a(2) by (elim dvdE)
        have "unat s + (M - 1) < M * c + M" using a(1) c M(1) by linarith
        then have "(unat s + (M - 1)) div M < c + 1" using M(1) by (simp add: div_less_iff_less_mult algebra_simps)
        then have "(unat s + (M - 1)) div M \<le> c" by simp
        then have "(unat s + (M - 1)) div M * M \<le> c * M" by (rule mult_le_mono1)
        then show ?thesis using e c by (simp add: mult.commute)
      qed
      then show ?thesis using ge al by (auto simp: word_le_nat_alt word_less_nat_alt)
    next
      case False
      have lt: "unat s + (M - 1) - 2 ^ 32 < M" "unat s + (M - 1) - 2 ^ 32 < 2 ^ 32" using sz(1) M(1) Mle by simp_all
      have "(unat s + (M - 1)) mod 2 ^ 32 = unat s + (M - 1) - 2 ^ 32"
        using False lt(2) by (metis le_mod_geq mod_less not_less)
      then have "unat s' = 0" using s' lt(1) by simp
      moreover have "\<not> (unat s \<le> unat r \<and> M dvd unat r)"
      proof
        assume a: "unat s \<le> unat r \<and> M dvd unat r"
        then obtain c where c: "unat r = M * c" by (elim conjE dvdE)
        have "M * c < M * q" using sz(2) c q by simp
        then have "c + 1 \<le> q" by simp
        then have "M * c + M \<le> M * q" by (metis mult.right_neutral distrib_left mult_le_mono2)
        then show False using a c q False M(1) by linarith
      qed
      ultimately show ?thesis using al by (auto simp: word_le_nat_alt word_less_nat_alt)
    qed
  qed
  then show "s' < s \<Longrightarrow> \<not> (s \<le> r \<and> r AND mask k = 0)" "\<not> s' < s \<Longrightarrow> s \<le> r \<Longrightarrow> r AND mask k = 0 \<Longrightarrow> s' \<le> r" by blast+
  show "\<not> s' < s \<Longrightarrow> s' AND mask k = 0" by (rule bit_word_eqI) (auto simp: s'_def bit_simps)
qed

lemma round_up_page:
  fixes s :: "32 word"
  assumes "page_aligned s" "\<not> (s + mask k) AND NOT (mask k) < s"
  shows "page_aligned ((s + mask k) AND NOT (mask k))"
proof (cases "k \<le> 12")
  case True
  have p: "PAGE_MASK = mask 12" by (simp add: PAGE_MASK_def mask_eq_exp_minus_1)
  have "s AND mask k = (s AND mask 12) AND mask k" using True by (intro bit_word_eqI) (auto simp: bit_simps)
  then have "s AND mask k = 0" using assms(1) by (simp add: page_aligned_def p)
  then have "(s + mask k) AND NOT (mask k) = s" using round_up(3) [OF assms(2), of s] assms(2) by simp
  then show ?thesis using assms(1) by simp
next
  case False
  have p: "PAGE_MASK = mask 12" by (simp add: PAGE_MASK_def mask_eq_exp_minus_1)
  show ?thesis using False unfolding page_aligned_def p by (intro bit_word_eqI) (auto simp: bit_simps)
qed

subsection \<open>First fit\<close>

text \<open>A place for a region: aligned, inside the map, at or above \<open>lo\<close>, and free.\<close>

definition fits :: "vm_map \<Rightarrow> vm_offset_t \<Rightarrow> vm_size_t \<Rightarrow> vm_offset_t \<Rightarrow> vm_offset_t \<Rightarrow> bool" where
  "fits m lo sz msk r \<longleftrightarrow> lo \<le> r \<and> r AND msk = 0 \<and> r < r + sz \<and> r + sz \<le> max_offset m \<and>
     (\<forall>a. r \<le> a \<and> a < r + sz \<longrightarrow> mapping (vm_entries m) a = None)"

lemma mapping_in: "e \<in> set es \<Longrightarrow> vme_start e \<le> a \<Longrightarrow> a < vme_end e \<Longrightarrow> mapping es a \<noteq> None"
  by (induction es) auto

lemma fits_around:
  assumes f: "fits m lo sz msk r" and e: "e \<in> set (vm_entries m)" "vme_start e < vme_end e"
  shows "r + sz \<le> vme_start e \<or> vme_end e \<le> r"
proof (rule ccontr)
  assume "\<not> (r + sz \<le> vme_start e \<or> vme_end e \<le> r)"
  then have "vme_start e < r + sz" "r < vme_end e" by auto
  moreover define a where "a = (if r \<le> vme_start e then vme_start e else r)"
  ultimately have "r \<le> a" "a < r + sz" "vme_start e \<le> a" "a < vme_end e" using e(2) f by (auto simp: fits_def a_def)
  then show False using f mapping_in [OF e(1), of a] by (auto simp: fits_def)
qed

lemma fits_above:
  assumes "fits m lo sz (mask k) r" "(lo + mask k) AND NOT (mask k) = lo'"
  shows "\<not> lo' < lo" "lo' \<le> r" "lo' \<le> lo' + sz" "lo' + sz \<le> r + sz"
proof -
  have r: "lo \<le> r" "r AND mask k = 0" "r < r + sz" using assms(1) by (simp_all add: fits_def)
  show "\<not> lo' < lo" using round_up(1) [of lo k r] r assms(2) by blast
  then show le: "lo' \<le> r" using round_up(3) [of lo k r] r assms(2) by blast
  have "r \<le> r + sz" using r(3) by simp
  then have "unat (r + sz) = unat r + unat sz" using no_olen_add_nat [of r sz] unat_add_lem [of r sz] by blast
  moreover have "unat lo' \<le> unat r" using le by (simp add: word_le_nat_alt)
  moreover from calculation have "unat (lo' + sz) = unat lo' + unat sz"
    using unat_add_lem [of r sz] by (intro unat_add_lem [THEN iffD1]) simp
  ultimately show "lo' \<le> lo' + sz" "lo' + sz \<le> r + sz" by (simp_all add: word_le_nat_alt)
qed

definition space_found :: "vm_map \<Rightarrow> vm_offset_t \<Rightarrow> vm_size_t \<Rightarrow> vm_offset_t \<Rightarrow> vme \<Rightarrow> vm_offset_t \<Rightarrow> bool" where
  "space_found m lo sz msk p r \<longleftrightarrow> fits m lo sz msk r \<and> (\<forall>r'. fits m lo sz msk r' \<longrightarrow> r \<le> r') \<and> page_aligned r \<and>
     (\<exists>us vs. vm_entries m = us @ vs \<and> p = last_addr us \<and> (\<forall>u \<in> set us. vme_end u \<le> r) \<and> (\<forall>v \<in> set vs. r + sz \<le> vme_start v))"

lemma space_foundI:
  assumes "fits m lo sz (mask k) ((lo + mask k) AND NOT (mask k))" "page_aligned lo" "vm_entries m = us @ vs"
    "\<forall>u \<in> set us. vme_end u \<le> lo" "\<forall>v \<in> set vs. ((lo + mask k) AND NOT (mask k)) + sz \<le> vme_start v"
  shows "space_found m lo sz (mask k) (last_addr us) ((lo + mask k) AND NOT (mask k))"
proof -
  define lo' where "lo' = (lo + mask k) AND NOT (mask k)"
  have "\<not> lo' < lo" "lo \<le> lo'" using assms(1) by (auto simp: fits_def lo'_def [symmetric])
  then have "page_aligned lo'" "\<forall>u \<in> set us. vme_end u \<le> lo'"
    using round_up_page [OF assms(2), of k] assms(4) by (auto simp: lo'_def [symmetric] intro: order_trans)
  moreover have "\<forall>r'. fits m lo sz (mask k) r' \<longrightarrow> lo' \<le> r'" using fits_above(2) lo'_def by blast
  ultimately show ?thesis using assms(1,3,5) unfolding space_found_def lo'_def [symmetric] by blast
qed

lemma space_loop_spec:
  assumes ok: "links_ok m" and "vm_entries m = xs @ ys" "asc lo ys" "\<forall>x \<in> set xs. vme_end x \<le> lo" "page_aligned lo" "0 < sz" "length ys < n"
  shows "case space_loop n (last_addr xs) lo sz (mask k) m of
      Inl _ \<Rightarrow> \<forall>r. \<not> fits m lo sz (mask k) r
    | Inr (p, r) \<Rightarrow> space_found m lo sz (mask k) p r"
  using assms(2-5,7)
proof (induction ys arbitrary: xs lo n)
  case Nil
  then obtain n' where n: "n = Suc n'" by (cases n) auto
  have nxt: "vme_next m (last_addr xs) = VM_HDR" using vme_next_split [OF links_distinct [OF ok] Nil(1)] by simp
  define lo' where "lo' = (lo + mask k) AND NOT (mask k)"
  note up = round_up [where s = lo and k = k, folded lo'_def]
  show ?case
  proof (cases "lo' < lo \<or> max_offset m < lo' + sz \<or> lo' + sz < lo'")
    case True
    have "\<not> fits m lo sz (mask k) r" for r
    proof
      assume f: "fits m lo sz (mask k) r"
      then have "r + sz \<le> max_offset m" by (simp add: fits_def)
      then show False using fits_above [OF f lo'_def [symmetric]] True by auto
    qed
    then show ?thesis using True by (auto simp: n Let_def lo'_def [symmetric])
  next
    case False
    then have nl: "\<not> lo' < lo" and end': "lo' + sz \<le> max_offset m" "lo' \<le> lo' + sz" by auto
    have free: "mapping (vm_entries m) a = None" if "lo' \<le> a" for a
      using before_none [OF Nil(3), of a "[]"] that nl Nil(1) by auto
    have lt: "lo' < lo' + sz" using end'(2) assms(6) by (cases "lo' = lo' + sz") (auto simp: less_le)
    have f: "fits m lo sz (mask k) lo'" using up(2) [OF nl] end' lt free nl unfolding fits_def by auto
    then have "space_found m lo sz (mask k) (last_addr xs) lo'"
      using space_foundI [OF _ Nil(4,1,3)] by (simp add: lo'_def)
    moreover have "space_loop n (last_addr xs) lo sz (mask k) m = Inr (last_addr xs, lo')"
      using False nxt by (auto simp: n Let_def lo'_def [symmetric])
    ultimately show ?thesis by simp
  qed
next
  case (Cons y ys)
  then obtain n' where n: "n = Suc n'" "length ys < n'" by (cases n) auto
  have nxt: "vme_next m (last_addr xs) = vme_addr y" using vme_next_split [OF links_distinct [OF ok] Cons.prems(1)] by simp
  have at: "entry_at m (vme_addr y) = y" by (rule entry_at_split [OF links_okD(1) [OF ok] Cons.prems(1)])
  have y: "vme_addr y \<noteq> VM_HDR" using links_okD(2) [OF ok] Cons.prems(1) by auto
  have asc: "lo \<le> vme_start y" "vme_start y < vme_end y" "asc (vme_end y) ys" using Cons.prems(2) by auto
  define lo' where "lo' = (lo + mask k) AND NOT (mask k)"
  note up = round_up [where s = lo and k = k, folded lo'_def]
  show ?case
  proof (cases "lo' < lo \<or> max_offset m < lo' + sz \<or> lo' + sz < lo'")
    case True
    have "\<not> fits m lo sz (mask k) r" for r
    proof
      assume f: "fits m lo sz (mask k) r"
      then have "r + sz \<le> max_offset m" by (simp add: fits_def)
      then show False using fits_above [OF f lo'_def [symmetric]] True by auto
    qed
    then show ?thesis using True by (auto simp: n Let_def lo'_def [symmetric])
  next
    case False
    then have nl: "\<not> lo' < lo" and end': "lo' + sz \<le> max_offset m" "lo' \<le> lo' + sz" by auto
    have lt: "lo' < lo' + sz" using end'(2) assms(6) by (cases "lo' = lo' + sz") (auto simp: less_le)
    show ?thesis
    proof (cases "lo' + sz \<le> vme_start y")
      case True
      have "mapping (vm_entries m) a = None" if "lo' \<le> a" "a < lo' + sz" for a
        using before_none [OF Cons.prems(3), of a "y # ys"] that nl Cons.prems(1) True asc
          mapping_below [of "vme_start y" "y # ys" a] by auto
      then have f: "fits m lo sz (mask k) lo'" using up(2) [OF nl] end' lt nl unfolding fits_def by auto
      moreover have "lo' + sz \<le> vme_end y" using True asc(2) by simp
      then have "\<forall>v \<in> set (y # ys). lo' + sz \<le> vme_start v"
        using True asc(3) asc_bounds [of "vme_end y" ys] by (auto intro: order_trans)
      ultimately have "space_found m lo sz (mask k) (last_addr xs) lo'"
        using space_foundI [OF _ Cons.prems(4,1,3)] by (simp add: lo'_def)
      moreover have "space_loop n (last_addr xs) lo sz (mask k) m = Inr (last_addr xs, lo')"
        using False nxt True at by (auto simp: n Let_def lo'_def [symmetric])
      ultimately show ?thesis by simp
    next
      case F: False
      have step: "fits m lo sz (mask k) r \<longleftrightarrow> fits m (vme_end y) sz (mask k) r" for r
      proof
        assume f: "fits m lo sz (mask k) r"
        have "\<not> r + sz \<le> vme_start y" using fits_above(4) [OF f lo'_def [symmetric]] F by auto
        then have "vme_end y \<le> r" using fits_around [OF f, of y] asc Cons.prems(1) by auto
        then show "fits m (vme_end y) sz (mask k) r" using f by (simp add: fits_def)
      next
        assume "fits m (vme_end y) sz (mask k) r"
        then show "fits m lo sz (mask k) r" using asc unfolding fits_def by auto
      qed
      have al: "page_aligned (vme_end y)" using links_okD(6) [OF ok] Cons.prems(1) by (auto simp: aligned_entries_def)
      have "\<forall>x \<in> set (xs @ [y]). vme_end x \<le> vme_end y" using Cons.prems(3) asc by (auto intro: order_trans less_imp_le)
      then have "case space_loop n' (last_addr (xs @ [y])) (vme_end y) sz (mask k) m of
          Inl _ \<Rightarrow> \<forall>r. \<not> fits m (vme_end y) sz (mask k) r
        | Inr (p, r) \<Rightarrow> space_found m (vme_end y) sz (mask k) p r"
        using Cons.IH [of "xs @ [y]" "vme_end y" n'] Cons.prems(1) asc(3) al n(2) by simp
      moreover have "space_loop n (last_addr xs) lo sz (mask k) m = space_loop n' (last_addr (xs @ [y])) (vme_end y) sz (mask k) m"
        using False F nxt at y by (simp add: n Let_def lo'_def [symmetric] del: space_loop.simps(1))
      ultimately show ?thesis by (auto simp: space_found_def step split: sum.splits)
    qed
  qed
qed

end
