(* ===== verification/Vm_Enter.thy ===== *)
theory Vm_Enter
  imports Vm_Space
begin

section \<open>Entering a region\<close>

text \<open>
  Linking a new entry and growing the one before a gap: what they do to \<open>mapping\<close>, to the balance of references and to the hint for
  free space; where \<open>vm_map_enter\<close> looks for a place.
\<close>

subsection \<open>A new entry\<close>

lemma end_of_le: "lo \<le> b \<Longrightarrow> \<forall>u \<in> set us. vme_end u \<le> b \<Longrightarrow> end_of lo us \<le> b"
  by (induction us arbitrary: lo) auto

lemma end_of_last: "xs \<noteq> [] \<Longrightarrow> end_of lo xs = vme_end (last xs)"
  by (induction xs arbitrary: lo) auto

lemma contig_gap: "vs = [] \<or> end_of lo us < vme_start (hd vs) \<Longrightarrow> contig lo (us @ vs) = contig lo us"
proof (cases "adj lo us")
  case True
  assume "vs = [] \<or> end_of lo us < vme_start (hd vs)"
  then have "contig (end_of lo us) vs = []" by (cases vs) auto
  then show ?thesis using True contig_append [of lo us vs] by (simp add: contig_adj [symmetric])
qed (simp add: contig_cut)

lemma insert_region:
  assumes ok: "map_ok m" and es: "vm_entries m = us @ vs" and addr: "vme_addr new \<notin> set (VM_HDR # map vme_addr (vm_entries m))"
    and new: "min_offset m \<le> vme_start new" "vme_start new < vme_end new" "vme_end new \<le> max_offset m"
      "page_aligned (vme_start new)" "page_aligned (vme_end new)"
    and cut: "\<forall>u \<in> set us. vme_end u \<le> vme_start new" "\<forall>v \<in> set vs. vme_end new \<le> vme_start v"
  shows "\<exists>ff. vm_map_entry_link (last_addr us) new m = m\<lparr>vm_entries := us @ new # vs, first_free := ff\<rparr>" (is ?link)
    and "map_ok (SAVE_HINT (vme_addr new) ((vm_map_entry_link (last_addr us) new m)
      \<lparr>vm_map_size := vm_map_size m + (vme_end new - vme_start new)\<rparr>))" (is ?ok)
proof -
  note M = map_okD [OF ok]
  note L = links_okD [OF M(1)]
  let ?m = "m\<lparr>vm_entries := us @ new # vs\<rparr>"
  have le: "end_of (min_offset m) us \<le> vme_start new" by (rule end_of_le [OF new(1) cut(1)])
  have asc0: "asc (min_offset m) us" "asc (end_of (min_offset m) us) vs" using L(3) es by simp_all
  have vs: "asc (vme_end new) vs" using asc0(2) cut(2) by (cases vs) auto
  have asc: "asc (min_offset m) (us @ new # vs)" using asc0(1) le new(2) vs by simp
  have eo: "end_of (min_offset m) (us @ new # vs) \<le> max_offset m"
    using L(4) new(3) es by (cases vs) simp_all
  have l: "links_ok ?m"
    using L addr asc eo new(4,5) unfolding links_ok_def by (auto simp: es aligned_entries_def)
  have "vs = [] \<or> end_of (min_offset m) us < vme_start (hd vs)"
    using le new(2) cut(2) by (cases vs) (auto intro: le_less_trans less_le_trans)
  then have c: "contig (min_offset m) (vm_entries m) = contig (min_offset m) us" unfolding es by (rule contig_gap)
  obtain ws where ws: "us = contig (min_offset m) us @ ws" using contig_prefix by blast
  have "prefix_point (min_offset m) (us @ new # vs) (first_free m)"
    by (rule prefix_pointI [of _ "contig (min_offset m) us" "ws @ new # vs"]) (use ws M(3) c in simp_all)
  then have u: "UPDATE_FIRST_FREE (first_free m) ?m = ?m\<lparr>first_free := last_addr (contig (min_offset m) (us @ new # vs))\<rparr>"
    using update_prefix_point [OF l, of "first_free m"] by simp
  then have e: "vm_map_entry_link (last_addr us) new m =
      m\<lparr>vm_entries := us @ new # vs, first_free := last_addr (contig (min_offset m) (us @ new # vs))\<rparr>"
    using link_split [OF links_distinct [OF M(1)] es, of new] by (simp add: vm_map_entry_link_def)
  then show ?link by blast
  show ?ok using l M(4) es unfolding e by (simp add: map_ok_def links_ok_def algebra_simps)
qed

lemma mapping_insert:
  assumes "\<forall>u \<in> set us. vme_end u \<le> vme_start new"
  shows "mapping (us @ new # vs) a =
    (if vme_start new \<le> a \<and> a < vme_end new then Some (attrs new, vme_offset new + (a - vme_start new)) else mapping (us @ vs) a)"
  using before_none [OF assms, of a "new # vs"] by (auto simp: mapping_append split: option.splits)

subsection \<open>The entry before grows\<close>

lemma grow_region:
  assumes ok: "map_ok m" and es: "vm_entries m = us @ e # vs"
    and t: "vme_end e < t" "t \<le> max_offset m" "page_aligned t" "\<forall>v \<in> set vs. t \<le> vme_start v"
  shows "map_ok (UPDATE_FIRST_FREE (first_free m) (m\<lparr>vm_entries := us @ e\<lparr>vme_end := t\<rparr> # vs, vm_map_size := vm_map_size m + (t - vme_end e)\<rparr>))"
    and "\<exists>ff. UPDATE_FIRST_FREE (first_free m) (m\<lparr>vm_entries := us @ e\<lparr>vme_end := t\<rparr> # vs, vm_map_size := vm_map_size m + (t - vme_end e)\<rparr>) =
      m\<lparr>vm_entries := us @ e\<lparr>vme_end := t\<rparr> # vs, vm_map_size := vm_map_size m + (t - vme_end e), first_free := ff\<rparr>"
proof -
  note M = map_okD [OF ok]
  note L = links_okD [OF M(1)]
  let ?es = "us @ e\<lparr>vme_end := t\<rparr> # vs"
  let ?m = "m\<lparr>vm_entries := ?es, vm_map_size := vm_map_size m + (t - vme_end e)\<rparr>"
  have asc0: "asc (min_offset m) us" "end_of (min_offset m) us \<le> vme_start e" "vme_start e < vme_end e" "asc (vme_end e) vs"
    using L(3) es by simp_all
  have vs: "asc t vs" using asc0(4) t(4) by (cases vs) auto
  have asc: "asc (min_offset m) ?es" using asc0 vs t(1) by auto
  have eo: "end_of (min_offset m) ?es \<le> max_offset m" using L(4) t(2) es by (cases vs) simp_all
  have l: "links_ok ?m" using L asc eo t(3) unfolding links_ok_def by (auto simp: es aligned_entries_def)
  have "vs = [] \<or> vme_end e < vme_start (hd vs)" using t(1,4) by (cases vs) (auto intro: less_le_trans)
  then have c: "contig (min_offset m) (us @ e # vs) = contig (min_offset m) (us @ [e])"
    using contig_gap [of vs "min_offset m" "us @ [e]"] by simp
  have "prefix_point (min_offset m) ?es (first_free m)"
  proof (cases "adj (min_offset m) (us @ [e])")
    case True
    then have "first_free m = last_addr (us @ [e])" using M(3) c by (simp add: es contig_adj [symmetric])
    then show ?thesis using True by (intro prefix_pointI [of _ "us @ [e\<lparr>vme_end := t\<rparr>]" vs]) auto
  next
    case False
    obtain ws where ws: "us = contig (min_offset m) us @ ws" using contig_prefix by blast
    have "contig (min_offset m) (us @ [e]) = contig (min_offset m) us"
    proof (cases "adj (min_offset m) us")
      case True
      then show ?thesis using False contig_append [of "min_offset m" us "[e]"]
        by (auto simp: contig_adj [symmetric] split: if_splits)
    qed (simp add: contig_cut)
    then show ?thesis using ws M(3) c
      by (intro prefix_pointI [of _ "contig (min_offset m) us" "ws @ e\<lparr>vme_end := t\<rparr> # vs"]) (simp_all add: es)
  qed
  then have u: "UPDATE_FIRST_FREE (first_free m) ?m = ?m\<lparr>first_free := last_addr (contig (min_offset m) ?es)\<rparr>"
    using update_prefix_point [OF l, of "first_free m"] by simp
  then show "\<exists>ff. UPDATE_FIRST_FREE (first_free m) ?m =
      m\<lparr>vm_entries := ?es, vm_map_size := vm_map_size m + (t - vme_end e), first_free := ff\<rparr>" by auto
  show "map_ok (UPDATE_FIRST_FREE (first_free m) ?m)"
    using l M(2,4) unfolding u by (simp add: map_ok_def links_ok_def es algebra_simps)
qed

subsection \<open>Where a region may go\<close>

lemma fits_SAVE_HINT [simp]: "fits (SAVE_HINT h m) = fits m" "space_found (SAVE_HINT h m) = space_found m"
  by (simp_all add: fits_def space_found_def fun_eq_iff)

lemma fits_lock [simp]: "fits (vm_map_lock m) = fits m" "space_found (vm_map_lock m) = space_found m"
  by (simp_all add: fits_def space_found_def fun_eq_iff)

definition search_start :: "vm_map \<Rightarrow> vm_offset_t \<Rightarrow> vm_offset_t" where
  "search_start m address = (if address < min_offset m then min_offset m else address)"

lemma fits_move:
  assumes "lo \<le> lo'" "\<And>a. lo \<le> a \<Longrightarrow> a < lo' \<Longrightarrow> mapping (vm_entries m) a \<noteq> None"
  shows "fits m lo sz msk r \<longleftrightarrow> fits m lo' sz msk r"
  using assms(1) assms(2) [of r] unfolding fits_def by (auto simp: not_less [symmetric] intro: order_trans)

lemma adj_mapped: "adj lo cs \<Longrightarrow> lo \<le> a \<Longrightarrow> a < end_of lo cs \<Longrightarrow> mapping (cs @ ws) a \<noteq> None"
proof (induction cs arbitrary: lo)
  case (Cons c cs)
  then show ?case by (cases "a < vme_end c") auto
qed simp

lemma range_anywhere_spec:
  assumes ok: "map_ok m" and al: "page_aligned address" and sz: "0 < sz" and r: "range_anywhere address sz (mask k) m = (res, m')"
  shows "(\<exists>h. m' = SAVE_HINT h m) \<and> map_ok m' \<and>
    (case res of Range p r \<Rightarrow> space_found m (search_start m address) sz (mask k) p r
     | No_Space _ \<Rightarrow> \<forall>r. \<not> fits m (search_start m address) sz (mask k) r
     | Range_Error kr \<Rightarrow> kr = KERN_NO_SPACE \<and> (\<forall>r. \<not> fits m (search_start m address) sz (mask k) r))"
proof -
  define start where "start = search_start m address"
  note L = links_okD [OF map_okD(1) [OF ok]]
  have al': "page_aligned start" using al L(7) by (simp add: start_def search_start_def)
  have same: "SAVE_HINT (hint m) m = m" by (simp add: SAVE_HINT_def)
  then have ex: "\<exists>h. m = SAVE_HINT h m" by metis
  have found: "(case (case space_loop (Suc (length (vm_entries m1))) (last_addr xs) lo sz (mask k) m1 of
        Inl overflow \<Rightarrow> No_Space overflow | Inr (entry, start) \<Rightarrow> Range entry start) of
      Range p r \<Rightarrow> space_found m start sz (mask k) p r
    | No_Space _ \<Rightarrow> \<forall>r. \<not> fits m start sz (mask k) r
    | Range_Error kr \<Rightarrow> kr = KERN_NO_SPACE \<and> (\<forall>r. \<not> fits m start sz (mask k) r))"
    if m1: "m1 = SAVE_HINT h m" and es: "vm_entries m = xs @ ys" and a: "asc lo ys" "\<forall>x \<in> set xs. vme_end x \<le> lo" "page_aligned lo"
      and lo: "start \<le> lo" "\<And>a. start \<le> a \<Longrightarrow> a < lo \<Longrightarrow> mapping (vm_entries m) a \<noteq> None" for m1 h xs ys lo
  proof -
    have mv: "fits m start sz (mask k) r \<longleftrightarrow> fits m lo sz (mask k) r" for r by (rule fits_move [OF lo])
    have "case space_loop (Suc (length (vm_entries m1))) (last_addr xs) lo sz (mask k) m1 of
        Inl _ \<Rightarrow> \<forall>r. \<not> fits m1 lo sz (mask k) r | Inr (p, r) \<Rightarrow> space_found m1 lo sz (mask k) p r"
      by (rule space_loop_spec [OF _ _ a sz]) (use map_okD(1) [OF ok] es in \<open>simp_all add: m1\<close>)
    then show ?thesis by (auto simp: m1 mv space_found_def split: sum.splits)
  qed
  show ?thesis
  proof (cases "start > max_offset m")
    case True
    then have "res = Range_Error KERN_NO_SPACE" "m' = m"
      using r by (auto simp: range_anywhere_def start_def search_start_def Let_def)
    moreover have "\<not> fits m start sz (mask k) r" for r
      using True by (auto simp: fits_def)
    ultimately show ?thesis using ok ex unfolding start_def [symmetric] by simp
  next
    case inside: False
    show ?thesis
    proof (cases "start = min_offset m")
      case True
      define xs where "xs = contig (min_offset m) (vm_entries m)"
      obtain ys where es: "vm_entries m = xs @ ys" using contig_prefix xs_def by metis
      have ff: "first_free m = last_addr xs" using map_okD(3) [OF ok] by (simp add: xs_def)
      have asc: "asc (min_offset m) (xs @ ys)" using L(3) es by simp
      have lo: "(if first_free m \<noteq> VM_HDR then vme_end (entry_at m (first_free m)) else start) = end_of (min_offset m) xs"
        (is "?lo = _")
      proof (cases xs rule: rev_cases)
        case (snoc zs z)
        then have "entry_at m (vme_addr z) = z" "vme_addr z \<noteq> VM_HDR"
          using entry_at_split [OF L(1), of zs z ys] es L(2) by auto
        then show ?thesis using snoc ff by simp
      qed (simp add: ff True)
      have adj: "adj (min_offset m) xs" by (simp add: xs_def)
      have al2: "page_aligned (end_of (min_offset m) xs)"
      proof (cases "xs = []")
        case False
        then have "last xs \<in> set (vm_entries m)" using es by simp
        then show ?thesis using end_of_last [OF False] L(6) by (simp add: aligned_entries_def)
      qed (use L(7) in simp)
      have ends: "\<forall>x \<in> set xs. vme_end x \<le> end_of (min_offset m) xs" using asc_bounds [of "min_offset m" xs] asc by auto
      have "range_anywhere address sz (mask k) m =
          (case space_loop (Suc (length (vm_entries m))) (first_free m) ?lo sz (mask k) m of
             Inl overflow \<Rightarrow> No_Space overflow | Inr (entry, start) \<Rightarrow> Range entry start, m)"
        using inside True by (simp add: range_anywhere_def start_def search_start_def Let_def del: space_loop.simps)
      then have "range_anywhere address sz (mask k) m =
          (case space_loop (Suc (length (vm_entries m))) (last_addr xs) (end_of (min_offset m) xs) sz (mask k) m of
             Inl overflow \<Rightarrow> No_Space overflow | Inr (entry, start) \<Rightarrow> Range entry start, m)"
        unfolding lo unfolding ff .
      then show ?thesis
        using found [OF same [symmetric] es, of "end_of (min_offset m) xs"] asc ends al2 True adj_mapped [OF adj, of _ ys] end_of_ge [of "min_offset m" xs] r ok ex
        unfolding start_def [symmetric] es by (auto simp del: space_loop.simps)
    next
      case False
      show ?thesis
        using ok
      proof (cases rule: lookup_cases [of m start])
        case (hit xs e ys h)
        have at: "entry_at (SAVE_HINT h m) (vme_addr e) = e"
          by (rule entry_at_split [OF links_okD(1) [OF map_okD(1) [OF hit(6)]]]) (use hit in simp)
        have "range_anywhere address sz (mask k) m =
            (case space_loop (Suc (length (vm_entries (SAVE_HINT h m)))) (last_addr (xs @ [e])) (vme_end e) sz (mask k) (SAVE_HINT h m) of
               Inl overflow \<Rightarrow> No_Space overflow | Inr (entry, start) \<Rightarrow> Range entry start, SAVE_HINT h m)"
          using inside False hit(4) at
          by (simp add: range_anywhere_def start_def [unfolded search_start_def, symmetric] Let_def del: space_loop.simps)
        moreover have "page_aligned (vme_end e)" using L(6) hit(1) by (auto simp: aligned_entries_def)
        moreover have "\<forall>x \<in> set (xs @ [e]). vme_end x \<le> vme_end e" "asc (vme_end e) ys"
          using hit_facts [OF ok hit(1)] by (auto intro: order_trans less_imp_le)
        moreover have "mapping (vm_entries m) a \<noteq> None" if "start \<le> a" "a < vme_end e" for a
          using mapping_in [of e "vm_entries m" a] that hit(1,2) by auto
        moreover have "vm_entries m = (xs @ [e]) @ ys" "start \<le> vme_end e" using hit by simp_all
        ultimately show ?thesis using found [OF refl, of "xs @ [e]" ys "vme_end e" h] r hit(6)
          unfolding start_def [symmetric] by (auto simp del: space_loop.simps)
      next
        case (miss xs ys)
        have "asc start ys"
        proof (cases ys)
          case (Cons z zs)
          then have "asc (vme_start z) ys" using L(3) miss(1) by simp
          then show ?thesis using asc_le [of "vme_start z" ys start] miss(3) Cons by simp
        qed simp
        moreover have "range_anywhere address sz (mask k) m =
            (case space_loop (Suc (length (vm_entries (SAVE_HINT (last_addr xs) m)))) (last_addr xs) start sz (mask k) (SAVE_HINT (last_addr xs) m) of
               Inl overflow \<Rightarrow> No_Space overflow | Inr (entry, start) \<Rightarrow> Range entry start, SAVE_HINT (last_addr xs) m)"
          using inside False miss(4)
          by (simp add: range_anywhere_def start_def [unfolded search_start_def, symmetric] Let_def del: space_loop.simps)
        ultimately show ?thesis using found [OF refl miss(1) _ miss(2) al'] r miss(5)
          unfolding start_def [symmetric] by (auto simp del: space_loop.simps)
      qed
    qed
  qed
qed

lemma range_fixed_spec:
  assumes ok: "map_ok m" and al: "page_aligned start" and r: "range_fixed start sz msk m = (res, m')"
  shows "(\<exists>h. m' = SAVE_HINT h m) \<and> map_ok m' \<and>
    (case res of Range p r \<Rightarrow> space_found m (search_start m start) sz msk p r \<and> r = start
     | No_Space _ \<Rightarrow> False
     | Range_Error kr \<Rightarrow> kr \<in> {KERN_NO_SPACE, KERN_INVALID_ADDRESS} \<and> \<not> fits m (search_start m start) sz msk start)"
proof -
  have ex: "\<exists>h. m = SAVE_HINT h m" by (rule exI [of _ "hint m"]) (simp add: SAVE_HINT_def)
  show ?thesis
  proof (cases "start AND msk \<noteq> 0 \<or> start < min_offset m \<or> start + sz > max_offset m \<or> start \<ge> start + sz")
    case True
    then have "m' = m \<and> (res = Range_Error KERN_NO_SPACE \<or> res = Range_Error KERN_INVALID_ADDRESS)"
      using r by (auto simp: range_fixed_def Let_def split: if_splits)
    moreover have "\<not> fits m (search_start m start) sz msk start" using True by (auto simp: fits_def search_start_def)
    ultimately show ?thesis using ok ex by auto
  next
    case False
    then have inside: "start AND msk = 0" "\<not> start < min_offset m" "start + sz \<le> max_offset m" "start < start + sz"
      "search_start m start = start" by (auto simp: search_start_def)
    show ?thesis
      using ok
    proof (cases rule: lookup_cases [of m start])
      case (hit xs e ys h)
      have "mapping (vm_entries m) start \<noteq> None" using hit_mapping [OF ok hit(1-3)] by simp
      then have "\<not> fits m (search_start m start) sz msk start" using inside(4) by (auto simp: fits_def)
      moreover have "res = Range_Error KERN_NO_SPACE" "m' = SAVE_HINT h m"
        using r False hit(4) by (auto simp: range_fixed_def Let_def)
      ultimately show ?thesis using hit(6) by auto
    next
      case (miss xs ys)
      note m1 = map_okD(1) [OF miss(5)]
      have es: "vm_entries (SAVE_HINT (last_addr xs) m) = xs @ ys" using miss(1) by simp
      have nxt: "vme_next (SAVE_HINT (last_addr xs) m) (last_addr xs) = first_addr ys"
        by (rule vme_next_split [OF links_distinct [OF m1] es])
      show ?thesis
      proof (cases "ys \<noteq> [] \<and> vme_start (hd ys) < start + sz")
        case True
        then obtain z zs where ys: "ys = z # zs" by (cases ys) auto
        have "entry_at (SAVE_HINT (last_addr xs) m) (vme_addr z) = z" "vme_addr z \<noteq> VM_HDR"
          using entry_at_split [OF links_okD(1) [OF m1], of xs z zs] links_okD(2) [OF m1] es ys by auto
        then have "res = Range_Error KERN_NO_SPACE" "m' = SAVE_HINT (last_addr xs) m"
          using r False miss(4) nxt True ys by (auto simp: range_fixed_def Let_def)
        moreover have "vme_start z < vme_end z" using links_okD(3) [OF map_okD(1) [OF ok]] miss(1) ys by simp
        then have "mapping (vm_entries m) (vme_start z) \<noteq> None" using mapping_in [of z] miss(1) ys by simp
        then have "\<not> fits m (search_start m start) sz msk start"
          using True miss(3) ys by (auto simp: fits_def intro: less_imp_le)
        ultimately show ?thesis using miss(5) by auto
      next
        case free: False
        have ys: "\<forall>v \<in> set ys. start + sz \<le> vme_start v"
        proof (cases ys)
          case (Cons z zs)
          then have "asc (vme_start z) ys" "start + sz \<le> vme_start z"
            using links_okD(3) [OF map_okD(1) [OF ok]] miss(1) free by auto
          then show ?thesis using asc_bounds [of "vme_start z" ys] by (auto intro: order_trans)
        qed simp
        have "mapping (vm_entries m) a = None" if "start \<le> a" "a < start + sz" for a
        proof -
          have "mapping ys a = None" using ys that by (induction ys) (auto simp: not_le)
          then show ?thesis using before_none [OF miss(2) that(1), of ys] miss(1) by simp
        qed
        then have "fits m (search_start m start) sz msk start" using inside by (simp add: fits_def)
        then have "space_found m (search_start m start) sz msk (last_addr xs) start"
          using al miss(1,2) ys inside(5) unfolding space_found_def by (auto simp: fits_def)
        moreover have "res = Range (last_addr xs) start" "m' = SAVE_HINT (last_addr xs) m"
        proof -
          have n: "vme_start (entry_at (SAVE_HINT (last_addr xs) m) (first_addr ys)) \<ge> start + sz" if "first_addr ys \<noteq> VM_HDR"
          proof (cases ys)
            case (Cons z zs)
            then have "entry_at (SAVE_HINT (last_addr xs) m) (vme_addr z) = z" using entry_at_split [OF links_okD(1) [OF m1], of xs z zs] es by simp
            then show ?thesis using ys Cons by simp
          qed (use that in simp)
          let ?m = "SAVE_HINT (last_addr xs) m"
          have c: "\<not> start AND msk \<noteq> 0" "\<not> (start < min_offset m \<or> start + sz > max_offset m \<or> start \<ge> start + sz)"
            "\<not> (vme_next ?m (last_addr xs) \<noteq> VM_HDR \<and> vme_start (entry_at ?m (vme_next ?m (last_addr xs))) < start + sz)"
            using False n unfolding nxt by auto
          have "range_fixed start sz msk m = (Range (last_addr xs) start, ?m)"
            unfolding range_fixed_def Let_def miss(4) if_not_P [OF c(1)] if_not_P [OF c(2)] prod.case bool.case if_not_P [OF c(3)] ..
          then show "res = Range (last_addr xs) start" "m' = ?m" using r by simp_all
        qed
        ultimately show ?thesis using miss(5) by auto
      qed
    qed
  qed
qed

lemma range_spec:
  assumes "map_ok m" "page_aligned address" "0 < sz"
    and r: "(if anywhere then range_anywhere else range_fixed) address sz (mask k) m = (res, m')"
  shows "(\<exists>h. m' = SAVE_HINT h m) \<and> map_ok m' \<and>
    (case res of Range p r \<Rightarrow> space_found m (search_start m address) sz (mask k) p r \<and> (\<not> anywhere \<longrightarrow> r = address)
     | No_Space _ \<Rightarrow> anywhere \<and> (\<forall>r. \<not> fits m (search_start m address) sz (mask k) r)
     | Range_Error kr \<Rightarrow> kr \<in> {KERN_NO_SPACE, KERN_INVALID_ADDRESS} \<and>
         \<not> (\<exists>r. fits m (search_start m address) sz (mask k) r \<and> (anywhere \<or> r = address)))"
proof (cases anywhere)
  case True
  then show ?thesis using range_anywhere_spec [OF assms(1-3), of k res m'] r by (auto split: range_result.splits)
next
  case False
  then show ?thesis using range_fixed_spec [OF assms(1,2), of sz "mask k" res m'] r by (auto split: range_result.splits)
qed

lemma space_loop_unmasked: "space_loop n p s sz 0 m \<noteq> Inl True"
  by (induction n arbitrary: p s) (simp_all add: Let_def)

lemma range_unmasked: "(if anywhere then range_anywhere else range_fixed) address sz 0 m \<noteq> (No_Space True, m')"
proof (cases anywhere)
  case True
  then show ?thesis using space_loop_unmasked by (auto simp: range_anywhere_def Let_def split: prod.splits sum.splits simp del: space_loop.simps)
qed (simp add: range_fixed_def Let_def split: prod.splits bool.splits)

lemma page_aligned_add: "page_aligned a \<Longrightarrow> page_aligned b \<Longrightarrow> page_aligned (a + b)"
proof -
  have p: "page_aligned x \<longleftrightarrow> unat x mod 2 ^ 12 = 0" for x
    using unat_and_mask [of x 12] by (simp add: page_aligned_def PAGE_MASK_def mask_eq_exp_minus_1 word_unat_eq_iff)
  have "unat (a + b) mod 2 ^ 12 = (unat a + unat b) mod 2 ^ 12"
    by (simp add: unat_word_ariths mod_mod_cancel)
  then show "page_aligned a \<Longrightarrow> page_aligned b \<Longrightarrow> page_aligned (a + b)" by (simp add: p mod_add_eq [symmetric])
qed

end
