(* ===== verification/Vm_Alloc.thy ===== *)
theory Vm_Alloc
  imports Vm_Enter
begin

section \<open>Allocation of address space\<close>

text \<open>
  \<open>vm_map_find_space\<close> and \<open>vm_map_enter\<close> where a place was found: the new region is entered, by growing the entry before it or
  by a new entry.
\<close>

text \<open>A value that came out of a bit field fits in it.\<close>

lemma bit_field_id [simp]:
  "ucast (ucast (x :: 2 word) :: 32 word) = x" "ucast (ucast (y :: 3 word) :: 32 word) = y"
  by (rule bit_word_eqI, simp add: bit_simps)+

lemma no_space_cases:
  "no_space sz m = (Vm_Waits, vm_map_unlock m) \<and> wait_for_space m \<or> no_space sz m = (Vm_Return KERN_NO_SPACE, vm_map_unlock m)"
  by (auto simp: no_space_def)

text \<open>What is to be found in the region, when it was entered for an object or for none.\<close>

definition entered :: "addr \<Rightarrow> vm_offset_t \<Rightarrow> bool \<Rightarrow> vm_prot_t \<Rightarrow> vm_prot_t \<Rightarrow> natural_t \<Rightarrow> vm_offset_t \<Rightarrow>
    (vm_map_entry \<times> vm_offset_t) option \<Rightarrow> bool" where
  "entered object offset copy prot maxp inh d r \<longleftrightarrow> (case r of None \<Rightarrow> False | Some (e, t) \<Rightarrow>
     protection e = ucast prot \<and> max_protection e = ucast maxp \<and> inheritance e = ucast inh \<and> wired_count e = 0 \<and> \<not> is_sub_map e \<and>
     (object \<noteq> 0 \<longrightarrow> vme_object e = object \<and> needs_copy e = copy \<and> t = offset + d))"

text \<open>The entry that \<open>vm_map_enter\<close> is asked to make.\<close>

definition asked :: "vm_offset_t \<Rightarrow> vm_size_t \<Rightarrow> addr \<Rightarrow> vm_offset_t \<Rightarrow> bool \<Rightarrow> vm_prot_t \<Rightarrow> vm_prot_t \<Rightarrow> natural_t \<Rightarrow> vm_map_entry" where
  "asked r sz object offset copy prot maxp inh =
     \<lparr>vme_addr = VM_HDR, vme_start = r, vme_end = r + sz, vme_object = object, vme_offset = offset,
        is_shared = False, is_sub_map = False, in_transition = False, needs_wakeup = False,
        behavior = ucast VM_BEHAVIOR_DEFAULT, needs_copy = copy, protection = ucast prot,
        max_protection = ucast maxp, inheritance = ucast inh, wired_count = 0, user_wired_count = 0\<rparr>"

definition region_entered :: "vm_map \<Rightarrow> vm_map \<Rightarrow> vm_offset_t \<Rightarrow> vm_size_t \<Rightarrow> addr \<Rightarrow> vm_offset_t \<Rightarrow> bool \<Rightarrow> vm_prot_t \<Rightarrow> vm_prot_t \<Rightarrow>
    natural_t \<Rightarrow> bool" where
  "region_entered m m' r sz object offset copy prot maxp inh \<longleftrightarrow>
     (\<forall>a. if r \<le> a \<and> a < r + sz then entered object offset copy prot maxp inh (a - r) (mapping (vm_entries m') a)
       else mapping (vm_entries m') a = mapping (vm_entries m) a) \<and>
     vm_calls m' = vm_calls m \<and>
     (\<forall>sub obj. obj \<noteq> 0 \<longrightarrow> balance m' sub obj = balance m sub obj + of_bool (\<not> sub \<and> obj = object))"

lemma insert_entered:
  assumes ok: "map_ok m" and za: "fresh za" and f: "space_found m lo sz msk p r" and sz: "page_aligned sz" and lo: "min_offset m \<le> lo"
  shows "map_ok (snd (vm_map_entry_insert za p (asked r sz object offset copy prot maxp inh) m))"
    and "region_entered m (snd (vm_map_entry_insert za p (asked r sz object offset copy prot maxp inh) m)) r sz object offset copy prot maxp inh"
    and "vm_lock (snd (vm_map_entry_insert za p (asked r sz object offset copy prot maxp inh) m)) = vm_lock m"
    and "wiring_required (snd (vm_map_entry_insert za p (asked r sz object offset copy prot maxp inh) m)) = wiring_required m"
proof -
  define new where "new = (asked r sz object offset copy prot maxp inh)\<lparr>vme_addr := za m\<rparr>"
  obtain us vs where es: "vm_entries m = us @ vs" and p: "p = last_addr us"
    and cut: "\<forall>u \<in> set us. vme_end u \<le> vme_start new" "\<forall>v \<in> set vs. vme_end new \<le> vme_start v"
    using f unfolding space_found_def by (auto simp: new_def asked_def)
  have "lo \<le> r" "r < r + sz" "r + sz \<le> max_offset m" "page_aligned r" using f by (auto simp: space_found_def fits_def)
  then have n: "min_offset m \<le> vme_start new" "vme_start new < vme_end new" "vme_end new \<le> max_offset m"
      "page_aligned (vme_start new)" "page_aligned (vme_end new)"
    using lo page_aligned_add [OF _ sz] by (auto simp: new_def asked_def)
  have addr: "vme_addr new \<notin> set (VM_HDR # map vme_addr (vm_entries m))" using za by (simp add: fresh_def new_def)
  note i = insert_region [OF ok es addr n cut]
  have e: "snd (vm_map_entry_insert za p (asked r sz object offset copy prot maxp inh) m) =
      SAVE_HINT (vme_addr new) ((vm_map_entry_link (last_addr us) new m)\<lparr>vm_map_size := vm_map_size m + (vme_end new - vme_start new)\<rparr>)"
  proof -
    have "(asked r sz object offset copy prot maxp inh)\<lparr>vme_addr := za m, is_sub_map := False, needs_wakeup := False, user_wired_count := 0\<rparr> = new"
      by (simp add: new_def asked_def)
    moreover have "vm_map_size (vm_map_entry_link (last_addr us) new m) = vm_map_size m" using i(1) by auto
    ultimately show ?thesis unfolding vm_map_entry_insert_def by (simp add: Let_def p)
  qed
  show "map_ok (snd (vm_map_entry_insert za p (asked r sz object offset copy prot maxp inh) m))" unfolding e by (rule i(2))
  obtain ff where link: "vm_map_entry_link (last_addr us) new m = m\<lparr>vm_entries := us @ new # vs, first_free := ff\<rparr>" using i(1) by blast
  have "mapping (us @ new # vs) a = (if r \<le> a \<and> a < r + sz then Some (attrs new, offset + (a - r)) else mapping (us @ vs) a)" for a
    using mapping_insert [OF cut(1), of vs a] by (simp add: new_def asked_def)
  then show "region_entered m (snd (vm_map_entry_insert za p (asked r sz object offset copy prot maxp inh) m)) r sz object offset copy prot maxp inh"
    unfolding e link region_entered_def using es
    by (auto simp: entered_def attrs_def new_def asked_def balance_def)
  show "vm_lock (snd (vm_map_entry_insert za p (asked r sz object offset copy prot maxp inh) m)) = vm_lock m"
    "wiring_required (snd (vm_map_entry_insert za p (asked r sz object offset copy prot maxp inh) m)) = wiring_required m"
    unfolding e link by (simp_all add: SAVE_HINT_def)
qed

lemma grow_entered:
  assumes ok: "map_ok m" and f: "space_found m lo sz msk p r" and sz: "page_aligned sz"
    and c: "can_coalesce env p (asked r sz object offset copy prot maxp inh) inh prot maxp m"
  defines "m' \<equiv> (let m = m\<lparr>vm_map_size := vm_map_size m + (r + sz - vme_end (entry_at m p))\<rparr>;
      m = set_entry p (\<lambda>e. e\<lparr>vme_end := r + sz\<rparr>) m in UPDATE_FIRST_FREE (first_free m) m)"
  shows "map_ok m'" "region_entered m m' r sz object offset copy prot maxp inh" "vm_lock m' = vm_lock m"
proof -
  obtain us vs where es: "vm_entries m = us @ vs" and p: "p = last_addr us"
    and cut: "\<forall>u \<in> set us. vme_end u \<le> r" "\<forall>v \<in> set vs. r + sz \<le> vme_start v"
    using f unfolding space_found_def by auto
  have "us \<noteq> []" using c p by (auto simp: can_coalesce_def)
  then obtain ws e where us: "us = ws @ [e]" by (cases us rule: rev_cases) auto
  have es': "vm_entries m = ws @ e # vs" using es us by simp
  note L = links_okD [OF map_okD(1) [OF ok]]
  have at: "entry_at m p = e" "p = vme_addr e" using entry_at_split [OF L(1) es'] p us by simp_all
  have e: "vme_end e = r" "object = 0" "\<not> is_sub_map e" "inheritance e = ucast inh" "protection e = ucast prot" "max_protection e = ucast maxp"
      "wired_count e = 0"
    using c at by (auto simp: can_coalesce_def asked_def)
  have "set_entry p (\<lambda>e. e\<lparr>vme_end := r + sz\<rparr>) (m\<lparr>vm_map_size := vm_map_size m + (r + sz - vme_end e)\<rparr>) =
      m\<lparr>vm_entries := ws @ e\<lparr>vme_end := r + sz\<rparr> # vs, vm_map_size := vm_map_size m + (r + sz - vme_end e)\<rparr>"
    unfolding at(2) using set_entry_split [of "m\<lparr>vm_map_size := vm_map_size m + (r + sz - vme_end e)\<rparr>" ws e vs] L(1) es' by simp
  then have m': "m' = UPDATE_FIRST_FREE (first_free m) (m\<lparr>vm_entries := ws @ e\<lparr>vme_end := r + sz\<rparr> # vs, vm_map_size := vm_map_size m + (r + sz - vme_end e)\<rparr>)"
    unfolding m'_def at(1) Let_def by simp
  have n: "vme_end e < r + sz" "r + sz \<le> max_offset m" "page_aligned (r + sz)"
    using f e(1) page_aligned_add [OF _ sz] by (auto simp: space_found_def fits_def)
  note g = grow_region [OF ok es' n cut(2)]
  show "map_ok m'" unfolding m' by (rule g(1))
  obtain ff where link: "m' = m\<lparr>vm_entries := ws @ e\<lparr>vme_end := r + sz\<rparr> # vs, vm_map_size := vm_map_size m + (r + sz - vme_end e), first_free := ff\<rparr>"
    using g(2) unfolding m' by blast
  then show "vm_lock m' = vm_lock m" by simp
  have ws: "\<forall>u \<in> set ws. vme_end u \<le> vme_start e" by (rule hit_facts(1) [OF ok es'])
  have lt: "vme_start e < r" using hit_facts(4) [OF ok es'] e(1) by simp
  have free: "mapping (vm_entries m) a = None" if "r \<le> a" "a < r + sz" for a using f that by (simp add: space_found_def fits_def)
  have map: "mapping (vm_entries m') a = (if r \<le> a \<and> a < r + sz then Some (attrs e, vme_offset e + (a - vme_start e)) else mapping (vm_entries m) a)" for a
  proof (cases "vme_start e \<le> a")
    case True
    have "mapping (vm_entries m') a = mapping (e\<lparr>vme_end := r + sz\<rparr> # vs) a" "mapping (vm_entries m) a = mapping (e # vs) a"
      using before_none [OF ws True] by (simp_all add: link es')
    then show ?thesis using True lt e(1) n(1) by auto
  next
    case False
    then have "mapping (e\<lparr>vme_end := r + sz\<rparr> # vs) a = mapping vs a" "mapping (e # vs) a = mapping vs a" "\<not> r \<le> a" using lt by auto
    then show ?thesis by (cases "mapping ws a") (simp_all add: link es' mapping_append del: mapping.simps)
  qed
  show "region_entered m m' r sz object offset copy prot maxp inh"
    unfolding region_entered_def map using e
    by (auto simp: entered_def attrs_def balance_def link es')
qed

subsection \<open>Space for a new entry\<close>

lemma find_space_search:
  assumes ok: "map_ok m"
  shows "range_anywhere (min_offset m) sz msk m =
    (case space_loop (Suc (length (vm_entries m))) (first_free m)
        (if first_free m = VM_HDR then min_offset m else vme_end (entry_at m (first_free m))) sz msk m of
      Inl overflow \<Rightarrow> No_Space overflow | Inr (entry, start) \<Rightarrow> Range entry start, m)"
proof -
  have "\<not> max_offset m < min_offset m" using links_okD(5) [OF map_okD(1) [OF ok]] by simp
  then show ?thesis by (simp add: range_anywhere_def Let_def del: space_loop.simps)
qed

lemma find_space_exact:
  assumes ok: "map_ok m" and za: "fresh za" and sz: "page_aligned sz" "0 < sz" and r: "vm_map_find_space za sz (mask k) m = (res, m')"
  shows "map_ok m'"
    and "case res of
       Inl kr \<Rightarrow> kr = KERN_NO_SPACE \<and> vm_entries m' = vm_entries m \<and> vm_lock m' = vm_lock m \<and> (\<forall>r. \<not> fits m (min_offset m) sz (mask k) r)
     | Inr (r, p) \<Rightarrow> vm_lock m' = vm_lock m + 1 \<and> fits m (min_offset m) sz (mask k) r \<and> (\<forall>r'. fits m (min_offset m) sz (mask k) r' \<longrightarrow> r \<le> r') \<and>
         region_entered m m' r sz 0 0 False VM_PROT_DEFAULT VM_PROT_ALL VM_INHERIT_DEFAULT"
proof -
  let ?m = "vm_map_lock m"
  have okl: "map_ok ?m" and al: "page_aligned (min_offset ?m)" using ok links_okD(7) [OF map_okD(1) [OF ok]] by simp_all
  define found where "found = space_loop (Suc (length (vm_entries ?m))) (first_free ?m)
      (if first_free ?m = VM_HDR then min_offset ?m else vme_end (entry_at ?m (first_free ?m))) sz (mask k) ?m"
  have "search_start ?m (min_offset ?m) = min_offset m" by (simp add: search_start_def)
  then have S: "case found of Inl _ \<Rightarrow> \<forall>r. \<not> fits m (min_offset m) sz (mask k) r | Inr (p, r) \<Rightarrow> space_found ?m (min_offset m) sz (mask k) p r"
    using range_anywhere_spec [OF okl al sz(2) find_space_search [OF okl, of sz "mask k"]] unfolding found_def [symmetric]
    by (auto split: sum.splits prod.splits)
  have "map_ok m' \<and> (case res of
       Inl kr \<Rightarrow> kr = KERN_NO_SPACE \<and> vm_entries m' = vm_entries m \<and> vm_lock m' = vm_lock m \<and> (\<forall>r. \<not> fits m (min_offset m) sz (mask k) r)
     | Inr (r, p) \<Rightarrow> vm_lock m' = vm_lock m + 1 \<and> fits m (min_offset m) sz (mask k) r \<and> (\<forall>r'. fits m (min_offset m) sz (mask k) r' \<longrightarrow> r \<le> r') \<and>
         region_entered m m' r sz 0 0 False VM_PROT_DEFAULT VM_PROT_ALL VM_INHERIT_DEFAULT)"
  proof (cases found)
    case (Inl b)
    then have "res = Inl KERN_NO_SPACE" "m' = vm_map_unlock ?m"
      using r unfolding vm_map_find_space_def Let_def found_def [symmetric] by simp_all
    then show ?thesis using ok S Inl by simp
  next
    case (Inr pr)
    obtain p q where pr: "pr = (p, q)" by (cases pr)
    have f: "space_found ?m (min_offset m) sz (mask k) p q" using S Inr pr by simp
    note i = insert_entered [OF okl za f sz(1), of 0 0 False VM_PROT_DEFAULT VM_PROT_ALL VM_INHERIT_DEFAULT]
    let ?new = "asked q sz 0 0 False VM_PROT_DEFAULT VM_PROT_ALL VM_INHERIT_DEFAULT"
    have link: "vm_map_size (vm_map_entry_link p n ?m) = vm_map_size ?m" for n
      by (simp add: vm_map_entry_link_def link_entry_def UPDATE_FIRST_FREE_def Let_def)
    have "res = Inr (q, za ?m) \<and> m' = snd (vm_map_entry_insert za p ?new ?m)"
      using r unfolding vm_map_find_space_def Let_def found_def [symmetric] Inr pr
      by (auto simp: vm_map_entry_insert_def Let_def asked_def link)
    moreover have "region_entered ?m m1 q sz 0 0 False VM_PROT_DEFAULT VM_PROT_ALL VM_INHERIT_DEFAULT \<Longrightarrow>
        region_entered m m1 q sz 0 0 False VM_PROT_DEFAULT VM_PROT_ALL VM_INHERIT_DEFAULT" for m1
      unfolding region_entered_def by simp
    ultimately show ?thesis using i f by (simp add: space_found_def)
  qed
  then show "map_ok m'" "case res of
       Inl kr \<Rightarrow> kr = KERN_NO_SPACE \<and> vm_entries m' = vm_entries m \<and> vm_lock m' = vm_lock m \<and> (\<forall>r. \<not> fits m (min_offset m) sz (mask k) r)
     | Inr (r, p) \<Rightarrow> vm_lock m' = vm_lock m + 1 \<and> fits m (min_offset m) sz (mask k) r \<and> (\<forall>r'. fits m (min_offset m) sz (mask k) r' \<longrightarrow> r \<le> r') \<and>
         region_entered m m' r sz 0 0 False VM_PROT_DEFAULT VM_PROT_ALL VM_INHERIT_DEFAULT"
    by blast+
qed

text \<open>Entering a region where a place was found: the entry before it grows, or there is a new entry.\<close>

lemma enter_region:
  assumes ok: "map_ok m1" and za: "fresh (zalloc env)" and sz: "page_aligned sz" and wire: "\<not> wiring_required m1"
    and f: "space_found m1 lo sz msk p at" and lo: "min_offset m1 \<le> lo"
    and place: "(if anywhere then range_anywhere else range_fixed) address sz msk (vm_map_lock m) = (Range p at, m1)"
    and r: "vm_map_enter env address sz msk anywhere object offset copy prot maxp inh m = (out, m')"
  shows "out = Vm_At KERN_SUCCESS at \<and> (\<exists>m2. m' = vm_map_unlock m2 \<and> map_ok m2 \<and> vm_lock m2 = vm_lock m1 \<and>
    region_entered m1 m2 at sz object offset copy prot maxp inh)"
proof (cases "can_coalesce env p (asked at sz object offset copy prot maxp inh) inh prot maxp m1")
  case True
  note g = grow_entered [OF ok f sz True]
  have "(out, m') = (Vm_At KERN_SUCCESS at, vm_map_unlock (let m = m1\<lparr>vm_map_size := vm_map_size m1 + (at + sz - vme_end (entry_at m1 p))\<rparr>;
      m = set_entry p (\<lambda>e. e\<lparr>vme_end := at + sz\<rparr>) m in UPDATE_FIRST_FREE (first_free m) m))"
    using r place True by (simp add: vm_map_enter_def asked_def Let_def)
  then show ?thesis using g unfolding prod.inject by blast
next
  case False
  note i = insert_entered [OF ok za f sz lo, of object offset copy prot maxp inh]
  have "(out, m') = (Vm_At KERN_SUCCESS at, vm_map_unlock (snd (vm_map_entry_insert (zalloc env) p (asked at sz object offset copy prot maxp inh) m1)))"
    using r place False i(4) wire by (simp add: vm_map_enter_def asked_def Let_def vm_map_unlock_def)
  then show ?thesis using i by blast
qed

lemma create_ok: "page_aligned mn \<Longrightarrow> page_aligned mx \<Longrightarrow> mn < mx \<Longrightarrow> map_ok (vm_map_create mn mx)"
  by (simp add: map_ok_def links_ok_def vm_map_create_def aligned_entries_def)

end
