(* ===== verification/Vm_Delete.thy ===== *)
theory Vm_Delete
  imports Vm_Enter
begin

section \<open>Removing a range\<close>

text \<open>
  \<open>vm_map_entry_delete\<close>, and the loop of \<open>vm_map_delete\<close> over a range without wired entries: it ends, unmaps the range and keeps the
  references balanced.
\<close>

lemma vm_call_simps [simp]:
  "vm_entries (vm_call c m) = vm_entries m" "min_offset (vm_call c m) = min_offset m" "max_offset (vm_call c m) = max_offset m"
  "hint (vm_call c m) = hint m" "first_free (vm_call c m) = first_free m" "vm_map_size (vm_call c m) = vm_map_size m"
  "vm_lock (vm_call c m) = vm_lock m" "vm_calls (vm_call c m) = vm_calls m @ [c]" "wait_for_space (vm_call c m) = wait_for_space m"
  "map_ok (vm_call c m) = map_ok m"
  by (simp_all add: vm_call_def map_ok_def links_ok_def)

lemma entry_at_vm_call [simp]: "entry_at (vm_call c m) p = entry_at m p"
  unfolding entry_at_def by (cases "find (\<lambda>e. vme_addr e = p) (vm_entries m)") (simp_all add: header_entry_def)

lemma contig_before: "\<not> adj lo (us @ [e]) \<Longrightarrow> contig lo (us @ e # vs) = contig lo us"
proof (cases "adj lo us")
  case True
  assume "\<not> adj lo (us @ [e])"
  then have "vme_start e \<noteq> end_of lo us" "contig lo us = us" using True by (simp_all add: contig_adj)
  then show ?thesis using contig_append [of lo us "e # vs"] by simp
qed (simp add: contig_cut)

text \<open>The hint for free space when an entry is taken out: the entry before it, if it was one of those without a gap.\<close>

lemma unlink_hint:
  assumes ok: "map_ok m" and es: "vm_entries m = us @ e # vs"
  shows "prefix_point (min_offset m) (us @ vs)
    (if vme_start e \<le> vme_start (entry_at m (first_free m)) then last_addr us else first_free m)"
proof (cases "adj (min_offset m) (us @ [e])")
  case True
  note L = links_okD [OF map_okD(1) [OF ok]]
  define cs where "cs = contig (vme_end e) vs"
  have ff: "first_free m = last_addr (us @ e # cs)"
    using map_okD(3) [OF ok] True contig_append [of "min_offset m" "us @ [e]" vs] by (simp add: es contig_adj cs_def)
  obtain ws where ws: "vs = cs @ ws" using contig_prefix cs_def by metis
  define c where "c = last (e # cs)"
  have c: "c \<in> set (e # cs)" "last_addr (us @ e # cs) = vme_addr c" by (simp_all only: c_def last_in_set list.distinct addr_simps not_False_eq_True)
    (simp_all add: last_addr_def)
  then have "c \<in> set (vm_entries m)" using es ws by auto
  then obtain ps qs where "vm_entries m = ps @ c # qs" by (auto dest: split_list)
  then have at: "entry_at m (first_free m) = c" using entry_at_split [OF L(1)] ff c(2) by simp
  have "vme_start e \<le> vme_start c"
    using c(1) hit_facts(2,4) [OF ok es] ws by (auto intro: order_trans less_imp_le)
  then show ?thesis using at True by (intro prefix_pointI [of _ us vs]) simp_all
next
  case False
  note L = links_okD [OF map_okD(1) [OF ok]]
  have ff: "first_free m = last_addr (contig (min_offset m) us)" using map_okD(3) [OF ok] contig_before [OF False] es by simp
  obtain ws where ws: "us = contig (min_offset m) us @ ws" using contig_prefix by blast
  have "\<not> vme_start e \<le> vme_start (entry_at m (first_free m))"
  proof (cases "contig (min_offset m) us" rule: rev_cases)
    case Nil
    then have "entry_at m (first_free m) = header_entry m" using entry_at_header [OF L(2)] ff by simp
    moreover have "min_offset m \<noteq> vme_start e"
    proof (cases us)
      case (Cons u us')
      then show ?thesis using L(3) es hit_facts(1) [OF ok es] by auto
    qed (use False in auto)
    moreover have "min_offset m \<le> vme_start e" using asc_bounds [OF L(3), of e] es by simp
    ultimately show ?thesis by (simp add: header_entry_def)
  next
    case (snoc ps c)
    then obtain qs where "us = ps @ c # qs" using ws by (metis append_Cons append_Nil append_assoc)
    then have split: "vm_entries m = ps @ c # (qs @ e # vs)" using es by simp
    have "entry_at m (first_free m) = c" using entry_at_split [OF L(1) split] ff snoc by simp
    moreover have "c \<in> set us" using \<open>us = ps @ c # qs\<close> by simp
    then have "vme_end c \<le> vme_start e" using hit_facts(1) [OF ok es] by blast
    moreover have "vme_start c < vme_end c" by (rule hit_facts(4) [OF ok split])
    ultimately show ?thesis by simp
  qed
  then show ?thesis using ff ws by (intro prefix_pointI [of _ "contig (min_offset m) us" "ws @ vs"]) simp_all
qed

text \<open>An entry is taken out; the size of the map is left to the caller.\<close>

lemma unlink_region:
  assumes ok: "map_ok m" and es: "vm_entries m = us @ e # vs" and hint: "hint m \<in> set (VM_HDR # map vme_addr (us @ vs))"
  shows "vm_map_entry_unlink (vme_addr e) m =
      m\<lparr>vm_entries := us @ vs, first_free := last_addr (contig (min_offset m) (us @ vs))\<rparr>" (is "_ = ?m'")
    and "map_ok (m\<lparr>vm_entries := us @ vs, first_free := last_addr (contig (min_offset m) (us @ vs)),
      vm_map_size := vm_map_size m - (vme_end e - vme_start e)\<rparr>)"
proof -
  note M = map_okD [OF ok]
  note L = links_okD [OF M(1)]
  let ?ff = "if vme_start e \<le> vme_start (entry_at m (first_free m)) then last_addr us else first_free m"
  let ?m = "m\<lparr>vm_entries := us @ vs\<rparr>"
  have at: "entry_at m (vme_addr e) = e" by (rule entry_at_split [OF L(1) es])
  have prev: "vme_prev m (vme_addr e) = last_addr us"
    using vme_prev_split [OF links_distinct [OF M(1)], of us "e # vs"] es by simp
  have un: "unlink_entry (vme_addr e) m = ?m" by (rule unlink_split [OF L(1) es])
  have asc0: "asc (min_offset m) us" "end_of (min_offset m) us \<le> vme_start e" "vme_start e < vme_end e" "asc (vme_end e) vs"
    using L(3) es by simp_all
  have vs: "asc (end_of (min_offset m) us) vs" using asc_le [OF asc0(4)] asc0(2,3) by auto
  have "end_of (end_of (min_offset m) us) vs \<le> end_of (vme_end e) vs" using asc0(2,3) by (cases vs) auto
  then have l: "links_ok ?m" using L asc0(1) vs unfolding links_ok_def es by (auto simp: aligned_entries_def)
  have u: "UPDATE_FIRST_FREE ?ff ?m = ?m'"
    using update_prefix_point [OF l, of ?ff] unlink_hint [OF ok es] by simp
  then show "vm_map_entry_unlink (vme_addr e) m = ?m'"
    unfolding vm_map_entry_unlink_def Let_def prev at un .
  show "map_ok (m\<lparr>vm_entries := us @ vs, first_free := last_addr (contig (min_offset m) (us @ vs)),
      vm_map_size := vm_map_size m - (vme_end e - vme_start e)\<rparr>)"
    using l hint M(4) by (auto simp: map_ok_def links_ok_def es algebra_simps)
qed

lemma delete_entry:
  assumes ok: "map_ok m" and es: "vm_entries m = us @ e # vs" and hint: "hint m \<in> set (VM_HDR # map vme_addr us)"
  shows "map_ok (vm_map_entry_delete (vme_addr e) m)"
    and "\<exists>ff. vm_map_entry_delete (vme_addr e) m = m\<lparr>vm_entries := us @ vs, vm_calls := vm_calls m @ [deallocate_call e],
      vm_map_size := vm_map_size m - (vme_end e - vme_start e), first_free := ff\<rparr>"
proof -
  let ?m = "vm_call (deallocate_call e) m"
  have at: "entry_at m (vme_addr e) = e" by (rule entry_at_split [OF links_okD(1) [OF map_okD(1) [OF ok]] es])
  have m: "map_ok ?m" "vm_entries ?m = us @ e # vs" "hint ?m \<in> set (VM_HDR # map vme_addr (us @ vs))"
    using ok es hint by auto
  note u = unlink_region [OF m]
  have e: "vm_map_entry_delete (vme_addr e) m = (?m\<lparr>vm_entries := us @ vs, first_free := last_addr (contig (min_offset ?m) (us @ vs))\<rparr>)
      \<lparr>vm_map_size := vm_map_size ?m - (vme_end e - vme_start e)\<rparr>"
    unfolding vm_map_entry_delete_def Let_def at u(1) by simp
  then show "\<exists>ff. vm_map_entry_delete (vme_addr e) m = m\<lparr>vm_entries := us @ vs, vm_calls := vm_calls m @ [deallocate_call e],
      vm_map_size := vm_map_size m - (vme_end e - vme_start e), first_free := ff\<rparr>"
    by (intro exI [of _ "last_addr (contig (min_offset m) (us @ vs))"]) (simp add: vm_call_def)
  show "map_ok (vm_map_entry_delete (vme_addr e) m)" unfolding e by (rule u(2))
qed

subsection \<open>The loop\<close>

definition unwired :: "vm_map_entry \<Rightarrow> bool" where
  "unwired e \<longleftrightarrow> \<not> in_transition e \<and> wired_count e = 0"

text \<open>The physical mappings of these entries are removed; those of submaps and of the kernel are not.\<close>

definition unmapped :: "vm_env \<Rightarrow> vm_offset_t \<Rightarrow> (vm_map_entry \<times> vm_offset_t) option \<Rightarrow> vm_call list \<Rightarrow> bool" where
  "unmapped env a r cs \<longleftrightarrow> (case r of None \<Rightarrow> True | Some (e, t) \<Rightarrow>
     is_sub_map e \<or> vme_object e = kernel_object env \<or> (\<exists>s t. s \<le> a \<and> a < t \<and> Pmap_Remove s t \<in> set cs))"

lemma unmapped_simps [simp]:
  "unmapped env a None cs"
  "unmapped env a (Some (attrs e, t)) cs \<longleftrightarrow>
     is_sub_map e \<or> vme_object e = kernel_object env \<or> (\<exists>s t. s \<le> a \<and> a < t \<and> Pmap_Remove s t \<in> set cs)"
  by (simp_all add: unmapped_def attrs_def)

lemma unmapped_more: "unmapped env a r cs \<Longrightarrow> set cs \<subseteq> set ds \<Longrightarrow> unmapped env a r ds"
  unfolding unmapped_def by (auto split: option.splits)

definition deleted :: "vm_env \<Rightarrow> vm_offset_t \<Rightarrow> vm_map_entry list \<Rightarrow> vm_map_entry list \<Rightarrow> vm_call list \<Rightarrow> bool" where
  "deleted env endaddr ys zs cs \<longleftrightarrow>
     (\<forall>a. mapping zs a = (if a < endaddr then None else mapping ys a)) \<and>
     (\<forall>sub obj. held sub obj zs - taken_refs sub obj cs = held sub obj ys) \<and>
     (\<forall>a. a < endaddr \<longrightarrow> unmapped env a (mapping ys a) cs)"

lemma deletedI:
  assumes "\<And>a. mapping zs a = (if a < endaddr then None else mapping ys a)"
    "\<And>sub obj. held sub obj zs - taken_refs sub obj cs = held sub obj ys"
    "\<And>a. a < endaddr \<Longrightarrow> unmapped env a (mapping ys a) cs"
  shows "deleted env endaddr ys zs cs"
  unfolding deleted_def using assms by blast

text \<open>One entry that nothing keeps in memory.\<close>

lemma delete_turn_unwired:
  assumes ok: "map_ok m" and es: "vm_entries m = us @ e # vs" and hint: "hint m \<in> set (VM_HDR # map vme_addr us)" and un: "unwired e"
  obtains ff cs where "delete_turn env flags (vme_addr e) stamp need_wakeup m =
      Delete_Next (first_addr vs) (m\<lparr>vm_entries := us @ vs, vm_calls := vm_calls m @ cs @ [deallocate_call e],
        vm_map_size := vm_map_size m - (vme_end e - vme_start e), first_free := ff\<rparr>)"
    "map_ok (m\<lparr>vm_entries := us @ vs, vm_calls := vm_calls m @ cs @ [deallocate_call e],
        vm_map_size := vm_map_size m - (vme_end e - vme_start e), first_free := ff\<rparr>)"
    "cs = (if is_sub_map e \<or> vme_object e = kernel_object env then [] else [Pmap_Remove (vme_start e) (vme_end e)])"
proof -
  note M = map_okD [OF ok]
  define cs where "cs = (if is_sub_map e \<or> vme_object e = kernel_object env then [] else [Pmap_Remove (vme_start e) (vme_end e)])"
  define m1 where "m1 = (if is_sub_map e \<or> vme_object e = kernel_object env then m else vm_call (Pmap_Remove (vme_start e) (vme_end e)) m)"
  have m1: "m1 = m\<lparr>vm_calls := vm_calls m @ cs\<rparr>" by (simp add: m1_def cs_def vm_call_def)
  have ok1: "map_ok m1" "vm_entries m1 = us @ e # vs" "hint m1 \<in> set (VM_HDR # map vme_addr us)"
    using ok es hint by (simp_all add: m1_def)
  have at: "entry_at m (vme_addr e) = e" by (rule entry_at_split [OF links_okD(1) [OF M(1)] es])
  have nxt: "vme_next m1 (vme_addr e) = first_addr vs"
    using vme_next_split [OF links_distinct [OF map_okD(1) [OF ok1(1)]], of "us @ [e]" vs] ok1(2) by simp
  note d = delete_entry [OF ok1]
  obtain ff where ff: "vm_map_entry_delete (vme_addr e) m1 = m1\<lparr>vm_entries := us @ vs, vm_calls := vm_calls m1 @ [deallocate_call e],
      vm_map_size := vm_map_size m1 - (vme_end e - vme_start e), first_free := ff\<rparr>" using d(2) by blast
  have eq: "vm_map_entry_delete (vme_addr e) m1 = m\<lparr>vm_entries := us @ vs, vm_calls := vm_calls m @ cs @ [deallocate_call e],
      vm_map_size := vm_map_size m - (vme_end e - vme_start e), first_free := ff\<rparr>" by (subst ff) (simp add: m1)
  show ?thesis
  proof (rule that)
    show "delete_turn env flags (vme_addr e) stamp need_wakeup m =
      Delete_Next (first_addr vs) (m\<lparr>vm_entries := us @ vs, vm_calls := vm_calls m @ cs @ [deallocate_call e],
        vm_map_size := vm_map_size m - (vme_end e - vme_start e), first_free := ff\<rparr>)"
      using un nxt eq by (simp add: delete_turn_def at unwired_def m1_def [symmetric] Let_def)
    show "map_ok (m\<lparr>vm_entries := us @ vs, vm_calls := vm_calls m @ cs @ [deallocate_call e],
        vm_map_size := vm_map_size m - (vme_end e - vme_start e), first_free := ff\<rparr>)"
      using d(1) unfolding eq .
  qed (simp add: cs_def)
qed

lemma same_entries:
  "vm_entries m = es \<Longrightarrow> m\<lparr>vm_entries := es, vm_calls := cs, vm_map_size := vm_map_size m, first_free := first_free m\<rparr> = m\<lparr>vm_calls := cs\<rparr>"
  by auto

lemma delete_loop_end:
  assumes "entry = VM_HDR \<or> endaddr \<le> vme_start (entry_at m entry)" "0 < n"
  shows "\<exists>cs. delete_loop env n flags endaddr False entry stamp False m = Some (KERN_SUCCESS, m\<lparr>vm_calls := vm_calls m @ cs\<rparr>) \<and>
    (\<forall>sub obj. taken_refs sub obj cs = 0) \<and> (wait_for_space m \<longrightarrow> Wakeup_Space \<in> set cs)"
proof -
  obtain n' where "n = Suc n'" using assms(2) by (cases n) auto
  then show ?thesis using assms(1)
    by (intro exI [of _ "if wait_for_space m then [Wakeup_Space] else []"]) (auto simp: not_less vm_call_def)
qed

lemma delete_loop_spec:
  assumes "map_ok m" "fresh (zalloc env)" "vm_entries m = xs @ ys" "page_aligned endaddr" "length ys < n"
    "hint m \<in> set (VM_HDR # map vme_addr xs)" "\<forall>y \<in> set ys. vme_start y < endaddr \<longrightarrow> unwired y"
  shows "\<exists>zs cs ff s. delete_loop env n flags endaddr False (first_addr ys) stamp False m =
      Some (KERN_SUCCESS, m\<lparr>vm_entries := xs @ zs, vm_calls := vm_calls m @ cs, vm_map_size := s, first_free := ff\<rparr>) \<and>
    map_ok (m\<lparr>vm_entries := xs @ zs, vm_calls := vm_calls m @ cs, vm_map_size := s, first_free := ff\<rparr>) \<and>
    deleted env endaddr ys zs cs \<and> (wait_for_space m \<longrightarrow> Wakeup_Space \<in> set cs)"
  using assms(1,3,5-)
proof (induction ys arbitrary: m n)
  case Nil
  obtain cs where cs: "delete_loop env n flags endaddr False VM_HDR stamp False m = Some (KERN_SUCCESS, m\<lparr>vm_calls := vm_calls m @ cs\<rparr>)"
    "\<And>sub obj. taken_refs sub obj cs = 0" "wait_for_space m \<longrightarrow> Wakeup_Space \<in> set cs"
    using delete_loop_end [of VM_HDR endaddr m n env flags stamp] Nil by auto
  have "deleted env endaddr [] [] cs" using cs(2) by (intro deletedI) simp_all
  moreover have "map_ok (m\<lparr>vm_calls := vm_calls m @ cs\<rparr>)" using Nil(1) by (simp add: map_ok_def links_ok_def)
  ultimately show ?case using cs
    by (intro exI [of _ "[] :: vm_map_entry list"] exI [of _ cs] exI [of _ "first_free m"] exI [of _ "vm_map_size m"],
        unfold same_entries [OF Nil(2)]) simp
next
  case (Cons y ys)
  note M = map_okD [OF Cons.prems(1)]
  note L = links_okD [OF M(1)]
  obtain n' where n: "n = Suc n'" "length ys < n'" using Cons by (cases n) auto
  have at: "entry_at m (vme_addr y) = y" by (rule entry_at_split [OF L(1) Cons.prems(2)])
  have y: "vme_addr y \<noteq> VM_HDR" using L(2) Cons.prems(2) by auto
  have asc: "vme_start y < vme_end y" "asc (vme_end y) ys" using hit_facts(3) [OF Cons.prems(1,2)] by simp_all
  show ?case
  proof (cases "vme_start y < endaddr")
    case False
    obtain cs where cs: "delete_loop env n flags endaddr False (vme_addr y) stamp False m = Some (KERN_SUCCESS, m\<lparr>vm_calls := vm_calls m @ cs\<rparr>)"
      "\<And>sub obj. taken_refs sub obj cs = 0" "wait_for_space m \<longrightarrow> Wakeup_Space \<in> set cs"
      using delete_loop_end [of "vme_addr y" endaddr m n env flags stamp] False at n by (auto simp: not_less)
    have none: "mapping (y # ys) a = None" if "a < endaddr" for a
      using mapping_below [of "vme_start y" "y # ys" a] asc that False by auto
    have "deleted env endaddr (y # ys) (y # ys) cs" using cs(2) none by (intro deletedI) (simp_all del: mapping.simps)
    moreover have "map_ok (m\<lparr>vm_calls := vm_calls m @ cs\<rparr>)" using Cons.prems(1) by (simp add: map_ok_def links_ok_def)
    ultimately show ?thesis using cs
      by (intro exI [of _ "y # ys"] exI [of _ cs] exI [of _ "first_free m"] exI [of _ "vm_map_size m"],
        unfold same_entries [OF Cons.prems(2)]) simp
  next
    case True
    have un: "unwired y" using Cons.prems(5) True by simp
    show ?thesis
    proof (cases "endaddr < vme_end y")
      case clip: True
      define d where "d = y\<lparr>vme_addr := zalloc env m, vme_start := endaddr, vme_offset := vme_offset y + (endaddr - vme_start y)\<rparr>"
      define y' where "y' = y\<lparr>vme_end := endaddr\<rparr>"
      note c = clip_end_spec [OF Cons.prems(1) assms(2) Cons.prems(2) True clip assms(4), folded d_def y'_def]
      define m1 where "m1 = vm_map_clip_end (zalloc env) (vme_addr y) endaddr m"
      obtain ff where m1: "m1 = m\<lparr>vm_entries := xs @ y' # d # ys, vm_calls := vm_calls m @ [reference_call y], first_free := ff\<rparr>"
        using c(2) unfolding m1_def by blast
      have es1: "vm_entries m1 = xs @ y' # d # ys" "hint m1 \<in> set (VM_HDR # map vme_addr xs)" "unwired y'"
        using Cons.prems(4) un by (simp_all add: m1 y'_def unwired_def)
      obtain ff' cs where t: "delete_turn env flags (vme_addr y') stamp False m1 =
          Delete_Next (first_addr (d # ys)) (m1\<lparr>vm_entries := xs @ d # ys, vm_calls := vm_calls m1 @ cs @ [deallocate_call y'],
            vm_map_size := vm_map_size m1 - (vme_end y' - vme_start y'), first_free := ff'\<rparr>)"
        "map_ok (m1\<lparr>vm_entries := xs @ d # ys, vm_calls := vm_calls m1 @ cs @ [deallocate_call y'],
            vm_map_size := vm_map_size m1 - (vme_end y' - vme_start y'), first_free := ff'\<rparr>)"
        "cs = (if is_sub_map y' \<or> vme_object y' = kernel_object env then [] else [Pmap_Remove (vme_start y') (vme_end y')])"
        by (rule delete_turn_unwired [OF c(1) [folded m1_def] es1])
      define m2 where "m2 = m1\<lparr>vm_entries := xs @ d # ys, vm_calls := vm_calls m1 @ cs @ [deallocate_call y'],
            vm_map_size := vm_map_size m1 - (vme_end y' - vme_start y'), first_free := ff'\<rparr>"
      have es2: "vm_entries m2 = xs @ d # ys" "map_ok m2" using t(2) by (simp_all add: m2_def)
      have atd: "entry_at m2 (vme_addr d) = d" by (rule entry_at_split [OF links_okD(1) [OF map_okD(1) [OF es2(2)]] es2(1)])
      obtain cs2 where cs2: "delete_loop env n' flags endaddr False (vme_addr d) stamp False m2 = Some (KERN_SUCCESS, m2\<lparr>vm_calls := vm_calls m2 @ cs2\<rparr>)"
        "\<And>sub obj. taken_refs sub obj cs2 = 0" "wait_for_space m2 \<longrightarrow> Wakeup_Space \<in> set cs2"
        using delete_loop_end [of "vme_addr d" endaddr m2 n' env flags stamp] atd n by (auto simp: d_def)
      have ay: "vme_addr y' = vme_addr y" by (simp add: y'_def)
      have r: "delete_loop env n flags endaddr False (vme_addr y) stamp False m = Some (KERN_SUCCESS, m2\<lparr>vm_calls := vm_calls m2 @ cs2\<rparr>)"
        using True at y t(1) [unfolded ay] cs2(1) by (simp add: n m1_def [symmetric] m2_def [symmetric])
      have f: "m2\<lparr>vm_calls := vm_calls m2 @ cs2\<rparr> = m\<lparr>vm_entries := xs @ d # ys,
          vm_calls := vm_calls m @ reference_call y # cs @ deallocate_call y' # cs2, vm_map_size := vm_map_size m - (vme_end y' - vme_start y'), first_free := ff'\<rparr>"
        by (simp add: m2_def m1)
      have ok2: "map_ok (m2\<lparr>vm_calls := vm_calls m2 @ cs2\<rparr>)" using es2(2) by (simp add: map_ok_def links_ok_def)
      have none: "mapping ys a = None" if "a < endaddr" for a
        using mapping_below [OF asc(2), of a] that clip by simp
      have "deleted env endaddr (y # ys) (d # ys) (reference_call y # cs @ deallocate_call y' # cs2)"
      proof (rule deletedI)
        show "mapping (d # ys) a = (if a < endaddr then None else mapping (y # ys) a)" for a
          using True clip none by (auto simp: d_def not_less not_le)
        show "held sub obj (d # ys) - taken_refs sub obj (reference_call y # cs @ deallocate_call y' # cs2) = held sub obj (y # ys)" for sub obj
          using cs2(2) taken_refs_simps(1) [of sub obj "[deallocate_call y']" cs2]
          by (simp add: t(3) d_def) (auto simp: y'_def)
        show "unmapped env a (mapping (y # ys) a) (reference_call y # cs @ deallocate_call y' # cs2)" if "a < endaddr" for a
          using that none clip t(3) by (auto simp: y'_def intro: exI [of _ "vme_start y"] exI [of _ endaddr])
      qed
      moreover have "wait_for_space m \<longrightarrow> Wakeup_Space \<in> set (reference_call y # cs @ deallocate_call y' # cs2)"
        using cs2(3) by (auto simp: m2_def m1)
      ultimately show ?thesis using r ok2 unfolding f addr_simps by metis
    next
      case False
      then have clip: "vm_map_clip_end (zalloc env) (vme_addr y) endaddr m = m" using clip_none(2) [OF Cons.prems(1,2)] by simp
      obtain ff cs where t: "delete_turn env flags (vme_addr y) stamp False m =
          Delete_Next (first_addr ys) (m\<lparr>vm_entries := xs @ ys, vm_calls := vm_calls m @ cs @ [deallocate_call y],
            vm_map_size := vm_map_size m - (vme_end y - vme_start y), first_free := ff\<rparr>)"
        "map_ok (m\<lparr>vm_entries := xs @ ys, vm_calls := vm_calls m @ cs @ [deallocate_call y],
            vm_map_size := vm_map_size m - (vme_end y - vme_start y), first_free := ff\<rparr>)"
        "cs = (if is_sub_map y \<or> vme_object y = kernel_object env then [] else [Pmap_Remove (vme_start y) (vme_end y)])"
        by (rule delete_turn_unwired [OF Cons.prems(1,2,4) un])
      define m2 where "m2 = m\<lparr>vm_entries := xs @ ys, vm_calls := vm_calls m @ cs @ [deallocate_call y],
            vm_map_size := vm_map_size m - (vme_end y - vme_start y), first_free := ff\<rparr>"
      have es2: "vm_entries m2 = xs @ ys" "map_ok m2" "hint m2 \<in> set (VM_HDR # map vme_addr xs)" "wait_for_space m2 = wait_for_space m"
        using t(2) Cons.prems(4) by (simp_all add: m2_def)
      obtain zs cs2 ff2 s where z: "delete_loop env n' flags endaddr False (first_addr ys) stamp False m2 =
          Some (KERN_SUCCESS, m2\<lparr>vm_entries := xs @ zs, vm_calls := vm_calls m2 @ cs2, vm_map_size := s, first_free := ff2\<rparr>)"
        "map_ok (m2\<lparr>vm_entries := xs @ zs, vm_calls := vm_calls m2 @ cs2, vm_map_size := s, first_free := ff2\<rparr>)"
        "deleted env endaddr ys zs cs2" "wait_for_space m \<longrightarrow> Wakeup_Space \<in> set cs2"
        using Cons.IH [OF es2(2,1) n(2) es2(3)] Cons.prems(5) unfolding es2(4) by auto
      have r: "delete_loop env n flags endaddr False (vme_addr y) stamp False m = delete_loop env n' flags endaddr False (first_addr ys) stamp False m2"
        using True at y t(1) clip by (simp add: n m2_def [symmetric] del: delete_loop.simps(1))
      have f: "m2\<lparr>vm_entries := xs @ zs, vm_calls := vm_calls m2 @ cs2, vm_map_size := s, first_free := ff2\<rparr> =
          m\<lparr>vm_entries := xs @ zs, vm_calls := vm_calls m @ cs @ deallocate_call y # cs2, vm_map_size := s, first_free := ff2\<rparr>"
        by (simp add: m2_def)
      have "deleted env endaddr (y # ys) zs (cs @ deallocate_call y # cs2)"
      proof (rule deletedI)
        show "mapping zs a = (if a < endaddr then None else mapping (y # ys) a)" for a
          using z(3) False unfolding deleted_def by (auto simp: not_less)
        show "held sub obj zs - taken_refs sub obj (cs @ deallocate_call y # cs2) = held sub obj (y # ys)" for sub obj
        proof -
          have "held sub obj zs - taken_refs sub obj cs2 = held sub obj ys" using z(3) unfolding deleted_def by blast
          then show ?thesis using taken_refs_simps(1) [of sub obj "[deallocate_call y]" cs2] by (simp add: t(3))
        qed
        show "unmapped env a (mapping (y # ys) a) (cs @ deallocate_call y # cs2)" if "a < endaddr" for a
        proof (cases "vme_start y \<le> a \<and> a < vme_end y")
          case True
          then show ?thesis by (auto simp: t(3))
        next
          case False
          have "unmapped env a (mapping ys a) cs2" using z(3) that unfolding deleted_def by blast
          then have "unmapped env a (mapping ys a) (cs @ deallocate_call y # cs2)" by (rule unmapped_more) auto
          moreover have "mapping (y # ys) a = mapping ys a" using False by auto
          ultimately show ?thesis by simp
        qed
      qed
      moreover have "wait_for_space m \<longrightarrow> Wakeup_Space \<in> set (cs @ deallocate_call y # cs2)" using z(4) by simp
      ultimately show ?thesis using z(1,2) r unfolding f addr_simps by metis
    qed
  qed
qed

text \<open>The deletion, from the first entry of the range on.\<close>

lemma deleted_from:
  assumes ok: "map_ok m1" and za: "fresh (zalloc env)" and es: "vm_entries m1 = xs @ ys" and al: "page_aligned t" and n: "length ys < n"
    and hint: "hint m1 \<in> set (VM_HDR # map vme_addr xs)" and un: "\<forall>y \<in> set ys. vme_start y < t \<longrightarrow> unwired y"
    and cut: "\<forall>x \<in> set xs. vme_end x \<le> s" "\<forall>y \<in> set ys. s \<le> vme_start y"
  shows "\<exists>m2. delete_loop env n flags t False (first_addr ys) stamp False m1 = Some (KERN_SUCCESS, m2) \<and>
    map_ok m2 \<and> vm_lock m2 = vm_lock m1 \<and> balance m2 = balance m1 \<and>
    mapping (vm_entries m2) = (\<lambda>a. if s \<le> a \<and> a < t then None else mapping (vm_entries m1) a) \<and>
    (\<forall>a. s \<le> a \<and> a < t \<longrightarrow> unmapped env a (mapping (vm_entries m1) a) (drop (length (vm_calls m1)) (vm_calls m2))) \<and>
    (wait_for_space m1 \<longrightarrow> Wakeup_Space \<in> set (drop (length (vm_calls m1)) (vm_calls m2)))"
proof -
  obtain zs cs ff z where r: "delete_loop env n flags t False (first_addr ys) stamp False m1 =
      Some (KERN_SUCCESS, m1\<lparr>vm_entries := xs @ zs, vm_calls := vm_calls m1 @ cs, vm_map_size := z, first_free := ff\<rparr>)"
    "map_ok (m1\<lparr>vm_entries := xs @ zs, vm_calls := vm_calls m1 @ cs, vm_map_size := z, first_free := ff\<rparr>)"
    "deleted env t ys zs cs" "wait_for_space m1 \<longrightarrow> Wakeup_Space \<in> set cs"
    using delete_loop_spec [OF ok za es al n hint un] by blast
  define m2 where "m2 = m1\<lparr>vm_entries := xs @ zs, vm_calls := vm_calls m1 @ cs, vm_map_size := z, first_free := ff\<rparr>"
  have before: "mapping (xs @ ws) a = mapping ws a" if "s \<le> a" for a ws by (rule before_none [OF cut(1) that])
  have after: "mapping ys a = None" if "a < s" for a
    using cut(2) that by (induction ys) (auto simp: not_le intro: less_le_trans)
  have zs: "mapping zs a = (if a < t then None else mapping ys a)" for a using r(3) unfolding deleted_def by blast
  have "mapping (xs @ zs) a = (if s \<le> a \<and> a < t then None else mapping (xs @ ys) a)" for a
    using before [of a zs] before [of a ys] after [of a] zs [of a]
    by (cases "s \<le> a") (auto simp: mapping_append not_le split: option.splits)
  moreover have "balance m2 = balance m1"
    using r(3) by (simp add: balance_def deleted_def m2_def es fun_eq_iff algebra_simps)
  moreover have "unmapped env a (mapping (xs @ ys) a) cs" if "s \<le> a" "a < t" for a
    using r(3) that(2) before [OF that(1), of ys] unfolding deleted_def by simp
  ultimately show ?thesis using r(1,2,4) unfolding m2_def [symmetric]
    by (intro exI [of _ m2]) (simp add: m2_def es fun_eq_iff)
qed

lemma delete_unwired:
  assumes ok: "map_ok m" and za: "fresh (zalloc env)" and al: "page_aligned s" "page_aligned t"
    and n: "length (vm_entries m) < n" and un: "\<forall>e \<in> set (vm_entries m). s < vme_end e \<and> vme_start e < t \<and> s < t \<longrightarrow> unwired e"
  shows "\<exists>m2. vm_map_delete env n s t flags m = Some (KERN_SUCCESS, m2) \<and>
    map_ok m2 \<and> vm_lock m2 = vm_lock m \<and> balance m2 = balance m \<and>
    mapping (vm_entries m2) = (\<lambda>a. if s \<le> a \<and> a < t then None else mapping (vm_entries m) a) \<and>
    (\<forall>a. s \<le> a \<and> a < t \<longrightarrow> unmapped env a (mapping (vm_entries m) a) (drop (length (vm_calls m)) (vm_calls m2))) \<and>
    (wait_for_space m \<longrightarrow> Wakeup_Space \<in> set (drop (length (vm_calls m)) (vm_calls m2)))"
  using ok
proof (cases rule: lookup_cases [of m s])
  case (miss xs ys)
  let ?m = "SAVE_HINT (last_addr xs) m"
  have es: "vm_entries ?m = xs @ ys" using miss(1) by simp
  have nxt: "vme_next ?m (last_addr xs) = first_addr ys"
    by (rule vme_next_split [OF links_distinct [OF map_okD(1) [OF miss(5)]] es])
  have ys: "\<forall>y \<in> set ys. s \<le> vme_start y \<and> vme_start y < vme_end y"
  proof (cases ys)
    case (Cons w ws)
    then have "asc (vme_start w) ys" using links_okD(3) [OF map_okD(1) [OF ok]] miss(1) by simp
    then show ?thesis using asc_bounds [of "vme_start w" ys] miss(3) Cons by (auto intro: order_trans less_imp_le)
  qed simp
  have un': "\<forall>y \<in> set ys. vme_start y < t \<longrightarrow> unwired y"
    using un ys miss(1) by (auto intro: le_less_trans)
  have "hint ?m \<in> set (VM_HDR # map vme_addr xs)" using addr_in(1) [of xs "[]"] by simp
  moreover have "length ys < n" using n miss(1) by simp
  ultimately have "\<exists>m2. delete_loop env n flags t False (first_addr ys) (NOT 0) False ?m = Some (KERN_SUCCESS, m2) \<and>
      map_ok m2 \<and> vm_lock m2 = vm_lock ?m \<and> balance m2 = balance ?m \<and>
      mapping (vm_entries m2) = (\<lambda>a. if s \<le> a \<and> a < t then None else mapping (vm_entries ?m) a) \<and>
      (\<forall>a. s \<le> a \<and> a < t \<longrightarrow> unmapped env a (mapping (vm_entries ?m) a) (drop (length (vm_calls ?m)) (vm_calls m2))) \<and>
      (wait_for_space ?m \<longrightarrow> Wakeup_Space \<in> set (drop (length (vm_calls ?m)) (vm_calls m2)))"
    by (intro deleted_from [OF miss(5) za es al(2) _ _ un' miss(2)]) (use ys in blast)+
  moreover have "vm_map_delete env n s t flags m = delete_loop env n flags t False (first_addr ys) (NOT 0) False ?m"
    using miss(4) nxt by (simp add: vm_map_delete_def Let_def)
  moreover have "wait_for_space ?m = wait_for_space m" by (simp add: SAVE_HINT_def)
  ultimately show ?thesis by (simp cong del: if_weak_cong)
next
  case (hit xs e ys h)
  let ?m = "SAVE_HINT h m"
  have es: "vm_entries ?m = xs @ e # ys" using hit(1) by simp
  note F = hit_facts [OF ok hit(1)]
  define m1 where "m1 = vm_map_clip_start (zalloc env) (vme_addr e) s ?m"
  have "\<exists>us f vs. vm_entries m1 = us @ f # vs \<and> map_ok m1 \<and> vme_addr f = vme_addr e \<and> vme_start f = s \<and> vme_end f = vme_end e \<and>
      unwired f = unwired e \<and> length (f # vs) \<le> length (vm_entries m) \<and> vs = ys \<and> vm_lock m1 = vm_lock m \<and> balance m1 = balance m \<and>
      mapping (vm_entries m1) = mapping (vm_entries m) \<and> length (vm_calls m) \<le> length (vm_calls m1) \<and> wait_for_space m1 = wait_for_space m"
  proof (cases "vme_start e = s")
    case True
    then have "m1 = ?m" using clip_none(1) [OF hit(6) es] by (simp add: m1_def)
    then show ?thesis using es hit(1,6) True
      by (intro exI [of _ xs] exI [of _ e] exI [of _ ys]) (simp, simp add: SAVE_HINT_def)
  next
    case False
    then have lt: "vme_start e < s" using hit(2) by simp
    define d where "d = e\<lparr>vme_addr := zalloc env ?m, vme_end := s\<rparr>"
    define e' where "e' = e\<lparr>vme_offset := vme_offset e + (s - vme_start e), vme_start := s\<rparr>"
    note c = clip_start_spec [OF hit(6) za es lt hit(3) al(1), folded d_def e'_def m1_def]
    obtain ff where m1: "m1 = ?m\<lparr>vm_entries := xs @ d # e' # ys, vm_calls := vm_calls ?m @ [reference_call e], first_free := ff\<rparr>"
      using c(2) by blast
    have "mapping (xs @ d # e' # ys) = mapping (xs @ e # ys)"
      using mapping_parts(1) [OF lt hit(3), of "zalloc env ?m" ys]
      by (simp add: fun_eq_iff d_def e'_def mapping_append del: mapping.simps split: option.splits)
    moreover have "balance m1 = balance m" by (simp add: balance_def m1 hit(1) d_def e'_def fun_eq_iff)
    ultimately show ?thesis using c(1) hit(1)
      by (intro exI [of _ "xs @ [d]"] exI [of _ e'] exI [of _ ys]) (simp add: m1, simp add: e'_def unwired_def SAVE_HINT_def)
  qed
  then obtain us f where f: "vm_entries m1 = us @ f # ys" "map_ok m1" "vme_addr f = vme_addr e" "vme_start f = s" "vme_end f = vme_end e"
      "unwired f = unwired e" "length (f # ys) \<le> length (vm_entries m)" "vm_lock m1 = vm_lock m" "balance m1 = balance m"
      "mapping (vm_entries m1) = mapping (vm_entries m)" "length (vm_calls m) \<le> length (vm_calls m1)" "wait_for_space m1 = wait_for_space m"
    by blast
  define m2 where "m2 = SAVE_HINT (vme_prev m1 (vme_addr e)) m1"
  have prev: "vme_prev m1 (vme_addr e) = last_addr us"
    using vme_prev_split [OF links_distinct [OF map_okD(1) [OF f(2)]] f(1)] f(3) by simp
  have ok2: "map_ok m2" unfolding m2_def prev by (rule map_ok_SAVE_HINT [OF f(2)]) (use addr_in(1) [of us "f # ys"] f(1) in simp)
  have es2: "vm_entries m2 = us @ f # ys" using f(1) by (simp add: m2_def)
  note F2 = hit_facts [OF ok2 es2]
  have un': "\<forall>y \<in> set (f # ys). vme_start y < t \<longrightarrow> unwired y"
  proof (intro ballI impI)
    fix y assume y: "y \<in> set (f # ys)" "vme_start y < t"
    show "unwired y"
    proof (cases "y = f")
      case True
      then show ?thesis using un y(2) f(4-6) hit(1-3) by (auto intro: le_less_trans)
    next
      case False
      then have "y \<in> set ys" using y(1) by simp
      then have "vme_end e \<le> vme_start y" "vme_start y < vme_end y" "y \<in> set (vm_entries m)"
        using F(2) asc_bounds [of "vme_end e" ys y] F(3) hit(1) by auto
      then show ?thesis using un y(2) hit(3) by (meson less_le_trans less_trans)
    qed
  qed
  have cut: "\<forall>x \<in> set us. vme_end x \<le> s" "\<forall>y \<in> set (f # ys). s \<le> vme_start y"
    using F2(1,2,4) f(4) by (auto intro: order_trans less_imp_le)
  have hint2: "hint m2 \<in> set (VM_HDR # map vme_addr us)" using addr_in(1) [of us "[]"] by (simp add: m2_def prev)
  have len: "length (f # ys) < n" using f(7) n by simp
  obtain m3 where m3: "delete_loop env n flags t False (first_addr (f # ys)) (NOT 0) False m2 = Some (KERN_SUCCESS, m3)"
      "map_ok m3" "vm_lock m3 = vm_lock m2" "balance m3 = balance m2"
      "mapping (vm_entries m3) = (\<lambda>a. if s \<le> a \<and> a < t then None else mapping (vm_entries m2) a)"
      "\<forall>a. s \<le> a \<and> a < t \<longrightarrow> unmapped env a (mapping (vm_entries m2) a) (drop (length (vm_calls m2)) (vm_calls m3))"
      "wait_for_space m2 \<longrightarrow> Wakeup_Space \<in> set (drop (length (vm_calls m2)) (vm_calls m3))"
    using deleted_from [OF ok2 za es2 al(2) len hint2 un' cut] by blast
  have r: "vm_map_delete env n s t flags m = Some (KERN_SUCCESS, m3)"
    using hit(4) m3(1) f(3) unfolding vm_map_delete_def by (simp add: Let_def m1_def [symmetric] m2_def [symmetric])
  have same: "vm_lock m2 = vm_lock m" "balance m2 = balance m" "mapping (vm_entries m2) = mapping (vm_entries m)"
    "vm_calls m2 = vm_calls m1" "wait_for_space m2 = wait_for_space m"
    using f by (simp_all add: m2_def, simp add: SAVE_HINT_def)
  have more: "set (drop (length (vm_calls m1)) (vm_calls m3)) \<subseteq> set (drop (length (vm_calls m)) (vm_calls m3))"
    using f(11) by (rule set_drop_subset_set_drop)
  have "unmapped env a (mapping (vm_entries m) a) (drop (length (vm_calls m)) (vm_calls m3))" if "s \<le> a \<and> a < t" for a
    using m3(6) that unmapped_more [OF _ more] unfolding same by blast
  moreover have "wait_for_space m \<longrightarrow> Wakeup_Space \<in> set (drop (length (vm_calls m)) (vm_calls m3))"
    using m3(7) more unfolding same by blast
  ultimately show ?thesis using r m3(2-5) unfolding same by blast
qed

end
