(* ===== verification/Vm_Join.thy ===== *)
theory Vm_Join
  imports Vm_Delete
begin

section \<open>Joining entries\<close>

text \<open>
  \<open>vm_map_simplify\<close> joins neighbours that continue each other in one object.
\<close>

text \<open>
  What the entry behind an address says, without the mark for threads that wait for it, which \<open>vm_map_simplify\<close> does not
  look at, and if \<open>sh\<close>, without its being shared.
\<close>

definition joined_view :: "bool \<Rightarrow> (vm_map_entry \<times> vm_offset_t) option \<Rightarrow> (vm_map_entry \<times> vm_offset_t) option" where
  "joined_view sh r = map_option (apfst (\<lambda>e. e\<lparr>needs_wakeup := False, is_shared := \<not> sh \<and> is_shared e\<rparr>)) r"

definition joinable :: "bool \<Rightarrow> vm_map_entry \<Rightarrow> vm_map_entry \<Rightarrow> bool" where
  "joinable sh p q \<longleftrightarrow> vme_end p = vme_start q \<and> \<not> is_sub_map p \<and> \<not> is_sub_map q \<and>
     joined_view sh (Some (attrs p, vme_offset p + (vme_end p - vme_start p))) = joined_view sh (Some (attrs q, vme_offset q))"

lemma alike_joinable: "alike p e \<Longrightarrow> joinable False p e"
  by (auto simp: alike_def joinable_def joined_view_def attrs_def)

lemma alike_next_joinable: "alike_next e n \<Longrightarrow> \<not> is_sub_map e \<Longrightarrow> joinable (is_shared e) e n"
  by (auto simp: alike_next_def joinable_def joined_view_def attrs_def)

lemma mapping_joined:
  assumes j: "joinable sh p q" and lt: "vme_start p < vme_end p" "vme_start q < vme_end q"
  shows "joined_view sh (mapping (p\<lparr>vme_end := vme_end q\<rparr> # ys) a) = joined_view sh (mapping (p # q # ys) a)"
proof -
  have e: "vme_end p = vme_start q" using j by (simp add: joinable_def)
  have "vme_offset p + (a - vme_start p) = (vme_offset p + (vme_end p - vme_start p)) + (a - vme_start q)" by (simp add: e)
  moreover have "vme_offset p + (vme_end p - vme_start p) = vme_offset q" using j by (auto simp: joinable_def joined_view_def)
  ultimately have same: "vme_offset p + (a - vme_start p) = vme_offset q + (a - vme_start q)" by simp
  have v: "joined_view sh (Some (attrs p, t)) = joined_view sh (Some (attrs q, t))" for t
    using j by (simp add: joinable_def joined_view_def)
  consider "vme_start p \<le> a \<and> a < vme_end p" | "vme_start q \<le> a \<and> a < vme_end q" | "\<not> (vme_start p \<le> a \<and> a < vme_end q)"
    using e not_le by metis
  then show ?thesis
  proof cases
    case 1
    then have "a < vme_end q" using e lt(2) by (auto intro: less_trans)
    then show ?thesis using 1 by simp
  next
    case 2
    then have "vme_start p \<le> a" "\<not> a < vme_end p" using e lt(1) by (auto simp: not_less intro: order_trans less_imp_le)
    then have "mapping (p\<lparr>vme_end := vme_end q\<rparr> # ys) a = Some (attrs p, vme_offset p + (a - vme_start p))"
      "mapping (p # q # ys) a = Some (attrs q, vme_offset q + (a - vme_start q))" using 2 by simp_all
    then show ?thesis by (simp only: same v)
  next
    case 3
    then have "\<not> (vme_start p \<le> a \<and> a < vme_end p)" "\<not> (vme_start q \<le> a \<and> a < vme_end q)" using e lt by (auto simp: not_le not_less intro: order_trans less_imp_le less_trans)
    then show ?thesis using 3 by auto
  qed
qed

lemma join_entries_spec:
  assumes ok: "map_ok m" and es: "vm_entries m = us @ p # q # vs" and hint: "hint m \<noteq> vme_addr q" and j: "joinable sh p q"
  shows "map_ok (join_entries (vme_addr p) (vme_addr q) m)"
    and "joined_view sh (mapping (vm_entries (join_entries (vme_addr p) (vme_addr q) m)) a) = joined_view sh (mapping (vm_entries m) a)"
    and "balance (join_entries (vme_addr p) (vme_addr q) m) = balance m" "vm_lock (join_entries (vme_addr p) (vme_addr q) m) = vm_lock m"
    and "\<exists>cs. vm_calls (join_entries (vme_addr p) (vme_addr q) m) = vm_calls m @ cs"
    and "vm_entries (join_entries (vme_addr p) (vme_addr q) m) = us @ p\<lparr>vme_end := vme_end q\<rparr> # vs"
proof -
  note M = map_okD [OF ok]
  note L = links_okD [OF M(1)]
  have esq: "vm_entries m = (us @ [p]) @ q # vs" using es by simp
  have at: "entry_at m (vme_addr q) = q" by (rule entry_at_split [OF L(1) esq])
  have h: "hint m \<in> set (VM_HDR # map vme_addr ((us @ [p]) @ vs))" using M(2) hint by (auto simp: es)
  define ff where "ff = last_addr (contig (min_offset m) ((us @ [p]) @ vs))"
  define w where "w = vme_end q - vme_start q"
  note u = unlink_region [OF ok esq h, folded ff_def w_def]
  define m1 where "m1 = m\<lparr>vm_entries := (us @ [p]) @ vs, first_free := ff, vm_map_size := vm_map_size m - w\<rparr>"
  have ok1: "map_ok m1" "vm_entries m1 = us @ p # vs" using u(2) by (simp_all add: m1_def)
  note F = hit_facts [OF ok esq]
  have e: "vme_end p = vme_start q" and sub: "\<not> is_sub_map p" "\<not> is_sub_map q" using j by (simp_all add: joinable_def)
  have t: "vme_end p < vme_end q" "vme_end q \<le> max_offset m1" "page_aligned (vme_end q)" "\<forall>v \<in> set vs. vme_end q \<le> vme_start v"
    using F(2,4) e asc_bounds [OF L(3), of q] L(4,6) esq by (auto simp: m1_def aligned_entries_def)
  note g = grow_region [OF ok1(1,2) t]
  have sz: "vm_map_size m1 + (vme_end q - vme_end p) = vm_map_size m" by (simp add: m1_def w_def e)
  let ?es = "us @ p\<lparr>vme_end := vme_end q\<rparr> # vs"
  obtain ff' where ff': "UPDATE_FIRST_FREE ff (m1\<lparr>vm_entries := ?es, vm_map_size := vm_map_size m\<rparr>) =
      m1\<lparr>vm_entries := ?es, vm_map_size := vm_map_size m, first_free := ff'\<rparr>"
    using g(2) unfolding sz by (auto simp: m1_def)
  have m: "m1\<lparr>vm_entries := ?es, vm_map_size := vm_map_size m\<rparr> = m\<lparr>vm_entries := ?es, first_free := ff\<rparr>" by (simp add: m1_def)
  have set: "set_entry (vme_addr p) (\<lambda>p. p\<lparr>vme_end := vme_end q\<rparr>) (m\<lparr>vm_entries := (us @ [p]) @ vs, first_free := ff\<rparr>) =
      m\<lparr>vm_entries := ?es, first_free := ff\<rparr>"
    using set_entry_split [of "m\<lparr>vm_entries := (us @ [p]) @ vs, first_free := ff\<rparr>" us p vs "\<lambda>p. p\<lparr>vme_end := vme_end q\<rparr>"] L(1) es by simp
  have r: "join_entries (vme_addr p) (vme_addr q) m =
      vm_call (Vm_Object_Deallocate (vme_object q)) (m1\<lparr>vm_entries := ?es, vm_map_size := vm_map_size m, first_free := ff'\<rparr>)"
    unfolding join_entries_def Let_def at u(1) set using ff' unfolding m by (simp add: m1_def)
  show "map_ok (join_entries (vme_addr p) (vme_addr q) m)"
    using g(1) ff' unfolding r sz by (simp add: m1_def)
  have "(attrs p)\<lparr>needs_wakeup := False, is_shared := \<not> sh \<and> is_shared (attrs p)\<rparr> =
      (attrs q)\<lparr>needs_wakeup := False, is_shared := \<not> sh \<and> is_shared (attrs q)\<rparr>"
    using j by (simp add: joinable_def joined_view_def)
  from arg_cong [OF this, of vme_object] have obj: "vme_object p = vme_object q" by (simp add: attrs_def)
  show "balance (join_entries (vme_addr p) (vme_addr q) m) = balance m"
    unfolding r by (auto simp: balance_def m1_def es sub obj fun_eq_iff)
  show "vm_lock (join_entries (vme_addr p) (vme_addr q) m) = vm_lock m"
    "\<exists>cs. vm_calls (join_entries (vme_addr p) (vme_addr q) m) = vm_calls m @ cs"
    "vm_entries (join_entries (vme_addr p) (vme_addr q) m) = ?es"
    unfolding r by (simp_all add: m1_def)
  have lt: "vme_start p < vme_end p" using hit_facts(4) [OF ok es] .
  have "joined_view sh (mapping ?es a) = joined_view sh (mapping (us @ p # q # vs) a)"
    using mapping_joined [OF j lt F(4), of vs a] unfolding mapping_append by (cases "mapping us a") (simp_all del: mapping.simps)
  then show "joined_view sh (mapping (vm_entries (join_entries (vme_addr p) (vme_addr q) m)) a) = joined_view sh (mapping (vm_entries m) a)"
    unfolding r by (simp add: es)
qed

subsection \<open>What stays the same\<close>

lemma joined_view_shared: "joined_view False r = joined_view False s \<Longrightarrow> joined_view sh r = joined_view sh s"
proof -
  have "joined_view sh r = joined_view sh (joined_view False r)" for r
    by (cases r) (auto simp: joined_view_def)
  then show "joined_view False r = joined_view False s \<Longrightarrow> joined_view sh r = joined_view sh s" by metis
qed

definition shared_at :: "(vm_map_entry \<times> vm_offset_t) option \<Rightarrow> bool" where
  "shared_at r \<longleftrightarrow> (case r of None \<Rightarrow> False | Some (e, _) \<Rightarrow> is_shared e)"

lemma shared_at_view: "joined_view False r = joined_view False s \<Longrightarrow> shared_at r = shared_at s"
proof -
  have "shared_at r = shared_at (joined_view False r)" for r by (cases r) (auto simp: joined_view_def shared_at_def)
  then show "joined_view False r = joined_view False s \<Longrightarrow> shared_at r = shared_at s" by metis
qed

text \<open>A map that takes a submap is no memory object.\<close>

definition objects_apart :: "vm_map \<Rightarrow> bool" where
  "objects_apart m \<longleftrightarrow> (\<forall>e \<in> set (vm_entries m). \<forall>f \<in> set (vm_entries m). is_sub_map e \<and> \<not> is_sub_map f \<longrightarrow> vme_object e \<noteq> vme_object f)"

text \<open>The same map, up to what a join with \<open>sh\<close> may change.\<close>

definition same_map_as :: "bool \<Rightarrow> vm_map \<Rightarrow> vm_map \<Rightarrow> bool" where
  "same_map_as sh m m' \<longleftrightarrow> map_ok m' \<and> balance m' = balance m \<and> vm_lock m' = vm_lock m \<and>
     (\<forall>a. joined_view sh (mapping (vm_entries m') a) = joined_view sh (mapping (vm_entries m) a))"

lemma same_map_as_refl: "map_ok m' \<Longrightarrow> vm_entries m' = vm_entries m \<Longrightarrow> vm_calls m' = vm_calls m \<Longrightarrow> vm_lock m' = vm_lock m \<Longrightarrow> same_map_as sh m m'"
  by (simp add: same_map_as_def balance_def fun_eq_iff)

lemma join_with_previous:
  assumes ok: "map_ok m" and es: "vm_entries m = us @ e # vs" and h: "h \<in> {vme_addr e, VM_HDR}" and apart: "objects_apart m"
  defines "m0 \<equiv> SAVE_HINT h m"
  defines "m' \<equiv> (if vme_prev m0 (vme_addr e) \<noteq> VM_HDR \<and> alike (entry_at m0 (vme_prev m0 (vme_addr e))) (entry_at m0 (vme_addr e))
      then join_entries (vme_prev m0 (vme_addr e)) (vme_addr e) (SAVE_HINT (vme_prev m0 (vme_addr e)) m0) else m0)"
  shows "same_map_as False m m' \<and> objects_apart m'"
proof -
  note M = map_okD [OF ok]
  note L = links_okD [OF M(1)]
  have ok0: "map_ok m0" "vm_entries m0 = us @ e # vs"
    using map_ok_SAVE_HINT [OF ok, of h] h es by (auto simp: m0_def)
  have base: "same_map_as False m m0" "objects_apart m0"
    using ok0 es apart by (auto simp: same_map_as_def m0_def objects_apart_def)
  have prev: "vme_prev m0 (vme_addr e) = last_addr us"
    using vme_prev_split [OF links_distinct [OF map_okD(1) [OF ok0(1)]], of us "e # vs"] ok0(2) by simp
  show ?thesis
  proof (cases "last_addr us \<noteq> VM_HDR \<and> alike (entry_at m0 (last_addr us)) (entry_at m0 (vme_addr e))")
    case False
    have "m' = m0" unfolding m'_def prev by (rule if_not_P [OF False])
    then show ?thesis using base by simp
  next
    case True
    then have "us \<noteq> []" by auto
    then obtain ws p where us: "us = ws @ [p]" by (cases us rule: rev_cases) auto
    have at: "entry_at m0 (vme_addr e) = e" "entry_at m0 (vme_addr p) = p"
      using entry_at_split [OF links_okD(1) [OF map_okD(1) [OF ok0(1)]], of us e vs]
        entry_at_split [OF links_okD(1) [OF map_okD(1) [OF ok0(1)]], of ws p "e # vs"] ok0(2) us by auto
    have j: "joinable False p e" using True at us by (intro alike_joinable) simp
    let ?m = "SAVE_HINT (vme_addr p) m0"
    have okp: "map_ok ?m" "vm_entries ?m = ws @ p # e # vs" "hint ?m \<noteq> vme_addr e"
      using map_ok_SAVE_HINT [OF ok0(1), of "vme_addr p"] ok0(2) us L(1) es by auto
    have m': "m' = join_entries (vme_addr p) (vme_addr e) ?m" using True us unfolding m'_def prev by simp
    note J = join_entries_spec [OF okp j]
    have "objects_apart m'" using apart J(6) es us unfolding m' objects_apart_def by auto
    moreover have "same_map_as False m m'"
      using J(1-4) unfolding same_map_as_def m' by (simp add: m0_def)
    ultimately show ?thesis by blast
  qed
qed

lemma join_with_next:
  assumes ok: "map_ok m" and es: "vm_entries m = us @ e # vs" and h: "h \<in> {vme_addr e, VM_HDR}" and apart: "objects_apart m"
  defines "m0 \<equiv> SAVE_HINT h m"
  shows "same_map_as (is_shared e) m (if vme_next m0 (vme_addr e) \<noteq> VM_HDR \<and> alike_next (entry_at m0 (vme_addr e)) (entry_at m0 (vme_next m0 (vme_addr e)))
      then join_entries (vme_addr e) (vme_next m0 (vme_addr e)) m0 else m0)"
proof -
  note L = links_okD [OF map_okD(1) [OF ok]]
  have ok0: "map_ok m0" "vm_entries m0 = us @ e # vs"
    using map_ok_SAVE_HINT [OF ok, of h] h es by (auto simp: m0_def)
  have base: "same_map_as (is_shared e) m m0" using ok0 es by (auto simp: same_map_as_def m0_def)
  have nxt: "vme_next m0 (vme_addr e) = first_addr vs"
    using vme_next_split [OF links_distinct [OF map_okD(1) [OF ok0(1)]], of "us @ [e]" vs] ok0(2) by simp
  show ?thesis
  proof (cases "first_addr vs \<noteq> VM_HDR \<and> alike_next (entry_at m0 (vme_addr e)) (entry_at m0 (first_addr vs))")
    case False
    show ?thesis unfolding nxt if_not_P [OF False] by (rule base)
  next
    case True
    then obtain n ws where vs: "vs = n # ws" by (cases vs) auto
    have at: "entry_at m0 (vme_addr e) = e" "entry_at m0 (vme_addr n) = n"
      using entry_at_split [OF links_okD(1) [OF map_okD(1) [OF ok0(1)]], of us e vs]
        entry_at_split [OF links_okD(1) [OF map_okD(1) [OF ok0(1)]], of "us @ [e]" n ws] ok0(2) vs by auto
    have a: "alike_next e n" using True at vs by simp
    then have "\<not> is_sub_map n" "vme_object n = vme_object e" by (simp_all add: alike_next_def)
    then have "\<not> is_sub_map e" using apart es vs unfolding objects_apart_def by auto
    then have j: "joinable (is_shared e) e n" by (rule alike_next_joinable [OF a])
    have okp: "vm_entries m0 = us @ e # n # ws" "hint m0 \<noteq> vme_addr n"
      using ok0(2) vs h L(1,2) es by (auto simp: m0_def)
    note J = join_entries_spec [OF ok0(1) okp j]
    have "same_map_as (is_shared e) m (join_entries (vme_addr e) (vme_addr n) m0)"
      using J(1-4) unfolding same_map_as_def by (simp add: m0_def)
    then show ?thesis using True vs unfolding nxt by simp
  qed
qed

end
