(* ===== verification/Vm_Exact.thy ===== *)
theory Vm_Exact
  imports Vm_Alloc Vm_Join
begin

section \<open>What the operations on address maps do\<close>

text \<open>
  The properties of address maps, a concrete map that applies them, and the states in which \<open>vm_map.c\<close> does not do what it means to.
\<close>

subsection \<open>An example\<close>

definition example_entry :: "vme \<Rightarrow> vm_offset_t \<Rightarrow> vm_offset_t \<Rightarrow> addr \<Rightarrow> vm_offset_t \<Rightarrow> vm_map_entry" where
  "example_entry p s t object offset = \<lparr>vme_addr = p, vme_start = s, vme_end = t, vme_object = object, vme_offset = offset,
     is_shared = False, is_sub_map = False, in_transition = False, needs_wakeup = False, behavior = 0, needs_copy = False,
     protection = 3, max_protection = 7, inheritance = 1, wired_count = 0, user_wired_count = 0\<rparr>"

definition example_map :: vm_map where
  "example_map = \<lparr>vm_entries = [example_entry 1 0x1000 0x3000 7 0, example_entry 2 0x3000 0x4000 7 0x2000, example_entry 3 0x6000 0x8000 8 0],
     min_offset = 0x1000, max_offset = 0x10000, vm_map_size = 0x5000, hint = 2, first_free = 2,
     wait_for_space = False, wiring_required = False, timestamp = 0, vm_lock = 0, vm_calls = []\<rparr>"

definition example_env :: vm_env where
  "example_env = \<lparr>zalloc = next_addr, coalesce = (\<lambda>_ _ _ _. False), vm_map_wire = (\<lambda>_ _ _ m. (KERN_SUCCESS, m)),
     entry_wait = Pair THREAD_AWAKENED, fault_unwire = (\<lambda>_ m. m), kernel_object = 1\<rparr>"

lemma example_ok: "map_ok example_map"
  by code_simp

lemma example_fresh: "fresh (zalloc example_env)"
  using fresh_next_addr by (simp add: example_env_def)

subsection \<open>Lookup\<close>

definition region_told :: "vm_map \<Rightarrow> vm_offset_t \<Rightarrow> kern_return_t + vm_offset_t \<times> vm_size_t \<times> vm_map_entry \<Rightarrow> bool" where
  "region_told m a res \<longleftrightarrow> (case res of
     Inl kr \<Rightarrow> kr = KERN_INVALID_ADDRESS \<and> (\<forall>e \<in> set (vm_entries m). vme_end e \<le> a)
   | Inr (s, sz, e) \<Rightarrow> e \<in> set (vm_entries m) \<and> s = vme_start e \<and> s + sz = vme_end e \<and> a < vme_end e \<and>
       (\<forall>d \<in> set (vm_entries m). a < vme_end d \<longrightarrow> s \<le> vme_start d))"

lemma region_hit:
  assumes ok: "map_ok m" and es: "vm_entries m = xs @ e # ys" and a: "vme_start e \<le> a" "a < vme_end e"
    and l: "vm_map_lookup_entry m a = (True, vme_addr e, SAVE_HINT h m)" and ok': "map_ok (SAVE_HINT h m)"
    and r: "vm_region a m = (res, m')"
  shows "m' = SAVE_HINT h m \<and> region_told m a res"
proof -
  have at: "entry_at (SAVE_HINT h m) (vme_addr e) = e"
    by (rule entry_at_split [OF links_okD(1) [OF map_okD(1) [OF ok']]]) (use es in simp)
  have "vme_addr e \<noteq> VM_HDR" using links_okD(2) [OF map_okD(1) [OF ok]] es by auto
  then have res: "res = Inr (vme_start e, vme_end e - vme_start e, e)" "m' = SAVE_HINT h m"
    using r l at by (simp_all add: vm_region_def Let_def)
  note F = hit_facts [OF ok es]
  have "vme_start e \<le> vme_start d" if "d \<in> set (vm_entries m)" "a < vme_end d" for d
  proof -
    have "d \<notin> set xs" using F(1) a(1) that(2) by (auto simp: not_le [symmetric] dest: order_trans)
    then have "d = e \<or> d \<in> set ys" using that(1) es by auto
    then show ?thesis using F(2,4) by (auto intro: order_trans less_imp_le)
  qed
  then show ?thesis using res a(2) es by (simp add: region_told_def)
qed

lemma above_gap:
  assumes ok: "map_ok m" and es: "vm_entries m = xs @ ys" and ys: "ys \<noteq> [] \<longrightarrow> a < vme_start (hd ys)"
  shows "\<forall>y \<in> set ys. a < vme_start y \<and> vme_start (hd ys) \<le> vme_start y \<and> a < vme_end y"
proof (cases ys)
  case (Cons z zs)
  then have "asc (vme_start z) ys" using links_okD(3) [OF map_okD(1) [OF ok]] es by simp
  then show ?thesis using asc_bounds [of "vme_start z" ys] ys Cons by (auto intro: less_le_trans less_trans)
qed simp

lemma region_miss:
  assumes ok: "map_ok m" and es: "vm_entries m = xs @ ys" and xs: "\<forall>x \<in> set xs. vme_end x \<le> a"
    and ys: "ys \<noteq> [] \<longrightarrow> a < vme_start (hd ys)"
    and l: "vm_map_lookup_entry m a = (False, last_addr xs, SAVE_HINT (last_addr xs) m)"
    and ok': "map_ok (SAVE_HINT (last_addr xs) m)" and r: "vm_region a m = (res, m')"
  shows "m' = SAVE_HINT (last_addr xs) m \<and> region_told m a res"
proof -
  let ?m = "SAVE_HINT (last_addr xs) m"
  have es': "vm_entries ?m = xs @ ys" using es by simp
  have nxt: "vme_next ?m (last_addr xs) = first_addr ys" by (rule vme_next_split [OF links_distinct [OF map_okD(1) [OF ok']] es'])
  note above = above_gap [OF ok es ys]
  have lowest: "vme_start (hd ys) \<le> vme_start d" if "d \<in> set (vm_entries m)" "a < vme_end d" for d
    using that es xs above by (auto simp: not_le [symmetric])
  show ?thesis
  proof (cases ys)
    case Nil
    then have "res = Inl KERN_INVALID_ADDRESS" "m' = ?m" using r nxt unfolding vm_region_def l by (auto simp: Let_def)
    then show ?thesis using es xs Nil by (simp add: region_told_def)
  next
    case (Cons z zs)
    then have "vme_addr z \<noteq> VM_HDR" "entry_at ?m (vme_addr z) = z"
      using links_okD(1,2) [OF map_okD(1) [OF ok']] es' entry_at_split [of ?m xs z zs] by auto
    then have "res = Inr (vme_start z, vme_end z - vme_start z, z)" "m' = ?m"
      using r nxt Cons unfolding vm_region_def l by (auto simp: Let_def)
    then show ?thesis using lowest above es Cons by (simp add: region_told_def)
  qed
qed

text \<open>
  C13: \<open>vm_map_lookup_entry\<close> finds the entry that holds an address exactly when the address is mapped, and otherwise gives the
  last entry below it, whatever the hint was; nothing but the hint changes.  \<open>vm_region\<close> then tells of the lowest entry that
  ends above the address, and fails exactly when there is none.
\<close>

lemma vm_lookup_exact:
  assumes ok: "map_ok m" and l: "vm_map_lookup_entry m a = (found, p, m')" and r: "vm_region a m = (res, m'')"
  shows "(found \<longleftrightarrow> mapping (vm_entries m) a \<noteq> None) \<and> map_ok m' \<and> (\<exists>h. m' = SAVE_HINT h m) \<and> m'' = m' \<and>
    (if found then \<exists>e \<in> set (vm_entries m). vme_addr e = p \<and> vme_start e \<le> a \<and> a < vme_end e
     else \<exists>xs ys. vm_entries m = xs @ ys \<and> p = last_addr xs \<and> (\<forall>x \<in> set xs. vme_end x \<le> a) \<and> (\<forall>y \<in> set ys. a < vme_start y)) \<and>
    (case res of
       Inl kr \<Rightarrow> kr = KERN_INVALID_ADDRESS \<and> (\<forall>e \<in> set (vm_entries m). vme_end e \<le> a)
     | Inr (s, sz, e) \<Rightarrow> e \<in> set (vm_entries m) \<and> s = vme_start e \<and> s + sz = vme_end e \<and> a < vme_end e \<and>
         (\<forall>d \<in> set (vm_entries m). a < vme_end d \<longrightarrow> s \<le> vme_start d))"
  using ok
proof (cases rule: lookup_cases [of m a])
  case (hit xs e ys h)
  then have f: "found" "p = vme_addr e" "m' = SAVE_HINT h m" using l by simp_all
  note R = region_hit [OF ok hit(1-4,6) r, unfolded region_told_def]
  show ?thesis using f R hit_mapping [OF ok hit(1-3)] hit(1-3,6) by auto
next
  case (miss xs ys)
  have f: "\<not> found" "p = last_addr xs" "m' = SAVE_HINT (last_addr xs) m" using l unfolding miss(4) by auto
  have gap: "\<exists>xs ys. vm_entries m = xs @ ys \<and> p = last_addr xs \<and> (\<forall>x \<in> set xs. vme_end x \<le> a) \<and> (\<forall>y \<in> set ys. a < vme_start y)"
    using f(2) miss(1,2) above_gap [OF ok miss(1,3)] by blast
  show ?thesis using f(1,3) miss(5) region_miss [OF ok miss r, unfolded region_told_def] gap miss_mapping [OF ok miss(1-3)] by auto
qed

lemma vm_lookup_exact_witness:
  "vm_map_lookup_entry example_map 0x5000 = (False, 2, example_map) \<and> mapping (vm_entries example_map) 0x5000 = None \<and>
   fst (vm_region 0x5000 example_map) = Inr (0x6000, 0x2000, example_entry 3 0x6000 0x8000 8 0)"
proof -
  have l: "vm_map_lookup_entry example_map 0x5000 = (False, 2, example_map)" by code_simp
  have r: "fst (vm_region 0x5000 example_map) = Inr (0x6000, 0x2000, example_entry 3 0x6000 0x8000 8 0)" by code_simp
  from vm_lookup_exact [OF example_ok l prod.collapse [symmetric]]
  have "\<not> mapping (vm_entries example_map) 0x5000 \<noteq> None" by blast
  then show ?thesis using l r by blast
qed

subsection \<open>Entering\<close>

text \<open>
  C10: \<open>vm_map_enter\<close> places the new region, at the address asked for or at the least suitable one at or above it, aligned,
  inside the map and where nothing is mapped; exactly its addresses are mapped afterwards as asked, all others as before, and
  the map takes one reference to the object.  It fails, changing nothing, exactly when there is no such place.  The map is
  unlocked on return, but if the start of the region overflows while it is aligned it stays locked.
\<close>

lemma vm_enter_exact:
  assumes ok: "map_ok m" and za: "fresh (zalloc env)" and al: "page_aligned address" "page_aligned sz" "0 < sz"
    and wire: "\<not> wiring_required m"
    and r: "vm_map_enter env address sz (mask k) anywhere object offset copy prot maxp inh m = (out, m')"
  shows "map_ok m' \<and>
    (case out of
       Vm_At kr r \<Rightarrow> kr = KERN_SUCCESS \<and> vm_lock m' = vm_lock m \<and> fits m (search_start m address) sz (mask k) r \<and>
         (if anywhere then \<forall>r'. fits m (search_start m address) sz (mask k) r' \<longrightarrow> r \<le> r' else r = address) \<and>
         region_entered m m' r sz object offset copy prot maxp inh
     | Vm_Return kr \<Rightarrow> kr \<in> {KERN_NO_SPACE, KERN_INVALID_ADDRESS} \<and> vm_entries m' = vm_entries m \<and> vm_calls m' = vm_calls m \<and>
         \<not> (\<exists>r. fits m (search_start m address) sz (mask k) r \<and> (anywhere \<or> r = address)) \<and>
         (vm_lock m' = vm_lock m \<or> anywhere \<and> kr = KERN_NO_SPACE \<and> k \<noteq> 0 \<and> vm_lock m' = vm_lock m + 1)
     | Vm_Waits \<Rightarrow> anywhere \<and> wait_for_space m \<and> vm_entries m' = vm_entries m \<and> vm_calls m' = vm_calls m \<and>
         vm_lock m' = vm_lock m \<and> \<not> (\<exists>r. fits m (search_start m address) sz (mask k) r))"
proof -
  obtain res m1 where res: "(if anywhere then range_anywhere else range_fixed) address sz (mask k) (vm_map_lock m) = (res, m1)" by fastforce
  have s: "search_start (vm_map_lock m) = search_start m" by (simp add: search_start_def fun_eq_iff)
  note R = range_spec [of "vm_map_lock m", OF _ al(1,3) res, unfolded s fits_lock locks_simps, OF ok]
  obtain h where m1: "m1 = SAVE_HINT h (vm_map_lock m)" using R by blast
  have ok1: "map_ok m1" using R by blast
  have same: "vm_entries m1 = vm_entries m" "vm_calls m1 = vm_calls m" "vm_lock m1 = vm_lock m + 1" "fits m1 = fits m" "space_found m1 = space_found m"
    "min_offset m1 = min_offset m" "wiring_required m1 = wiring_required m" "balance m1 = balance m"
    by (simp_all add: m1, simp add: SAVE_HINT_def vm_map_lock_def)
  have lo: "min_offset m1 \<le> search_start m address" by (auto simp: same search_start_def)
  show ?thesis
  proof (cases res)
    case (Range_Error kr)
    then have "out = Vm_Return kr" "m' = vm_map_unlock m1" using r res by (simp_all add: vm_map_enter_def)
    then show ?thesis using R Range_Error ok1 by (simp add: same)
  next
    case (No_Space overflow)
    then have none: "anywhere" "\<forall>r. \<not> fits m (search_start m address) sz (mask k) r" using R by simp_all
    show ?thesis
    proof (cases overflow)
      case True
      then have "out = Vm_Return KERN_NO_SPACE" "m' = m1" using r res No_Space by (simp_all add: vm_map_enter_def)
      moreover have "k \<noteq> 0" using range_unmasked [of anywhere address sz "vm_map_lock m" m1] res No_Space True by (cases k) auto
      ultimately show ?thesis using none ok1 by (simp add: same)
    next
      case False
      then have "(out, m') = no_space sz m1" using r res No_Space by (simp add: vm_map_enter_def)
      then have "(out = Vm_Waits \<and> wait_for_space m1 \<or> out = Vm_Return KERN_NO_SPACE) \<and> m' = vm_map_unlock m1"
        using no_space_cases [of sz m1] by auto
      moreover have "wait_for_space m1 = wait_for_space m" by (simp add: m1 SAVE_HINT_def vm_map_lock_def)
      ultimately show ?thesis using none ok1 by (auto simp: same)
    qed
  next
    case (Range p at)
    then have f: "space_found m1 (search_start m address) sz (mask k) p at" "\<not> anywhere \<longrightarrow> at = address" using R by (simp_all add: same)
    then have fit: "fits m (search_start m address) sz (mask k) at" "\<forall>r'. fits m (search_start m address) sz (mask k) r' \<longrightarrow> at \<le> r'"
      by (simp_all add: space_found_def same)
    obtain m2 where out: "out = Vm_At KERN_SUCCESS at" "m' = vm_map_unlock m2" "map_ok m2" "vm_lock m2 = vm_lock m1"
        "region_entered m1 m2 at sz object offset copy prot maxp inh"
      using enter_region [OF ok1 za al(2) _ f(1) lo res [unfolded Range] r] wire by (auto simp: same)
    then have "region_entered m m' at sz object offset copy prot maxp inh" unfolding region_entered_def by (simp add: same)
    then show ?thesis using fit f(2) out by (auto simp: same)
  qed
qed

lemma vm_enter_exact_witness:
  "let r = vm_map_enter example_env 0x1000 0x2000 (mask 12) True 9 0 False 3 7 1 example_map
   in fst r = Vm_At KERN_SUCCESS 0x4000 \<and> map_ok (snd r) \<and> fits example_map 0x1000 0x2000 (mask 12) 0x4000 \<and>
     region_entered example_map (snd r) 0x4000 0x2000 9 0 False 3 7 1"
proof -
  let ?r = "vm_map_enter example_env 0x1000 0x2000 (mask 12) True 9 0 False 3 7 1 example_map"
  have r: "fst ?r = Vm_At KERN_SUCCESS 0x4000" by code_simp
  have c: "page_aligned 0x1000" "page_aligned 0x2000" "\<not> wiring_required example_map" "search_start example_map 0x1000 = 0x1000" by code_simp+
  from vm_enter_exact [OF example_ok example_fresh c(1,2) _ c(3) prod.collapse [symmetric], of 12 True 9 0 False 3 7 1]
  have "map_ok (snd ?r) \<and> fits example_map 0x1000 0x2000 (mask 12) 0x4000 \<and> region_entered example_map (snd ?r) 0x4000 0x2000 9 0 False 3 7 1"
    unfolding r c(4) by simp
  then show ?thesis using r unfolding Let_def by blast
qed

text \<open>
  C25: \<open>vm_map_find_space\<close> and \<open>vm_remap_range_allocate\<close> choose the least suitable place, too, or the one asked for, and fail
  exactly when there is none.  The first enters a region without an object there and returns with the map locked, or unlocked
  when it fails; the second changes nothing but the hint.
\<close>

lemma vm_find_space_exact:
  assumes ok: "map_ok m" and za: "fresh za" and al: "page_aligned address" "page_aligned sz" "0 < sz"
    and r: "vm_map_find_space za sz (mask k) m = (res, m')"
    and s: "vm_remap_range_allocate address sz (mask k) anywhere m = (out, m'')"
  shows "map_ok m' \<and>
    (case res of
       Inl kr \<Rightarrow> kr = KERN_NO_SPACE \<and> vm_entries m' = vm_entries m \<and> vm_lock m' = vm_lock m \<and> (\<forall>r. \<not> fits m (min_offset m) sz (mask k) r)
     | Inr (r, p) \<Rightarrow> vm_lock m' = vm_lock m + 1 \<and> fits m (min_offset m) sz (mask k) r \<and> (\<forall>r'. fits m (min_offset m) sz (mask k) r' \<longrightarrow> r \<le> r') \<and>
         region_entered m m' r sz 0 0 False VM_PROT_DEFAULT VM_PROT_ALL VM_INHERIT_DEFAULT) \<and>
    map_ok m'' \<and> (\<exists>h. m'' = SAVE_HINT h m) \<and>
    (case out of
       Inl v \<Rightarrow> \<not> (\<exists>r. fits m (search_start m address) sz (mask k) r \<and> (anywhere \<or> r = address)) \<and> (v = Vm_Waits \<longrightarrow> anywhere \<and> wait_for_space m)
     | Inr (p, r) \<Rightarrow> fits m (search_start m address) sz (mask k) r \<and>
         (if anywhere then \<forall>r'. fits m (search_start m address) sz (mask k) r' \<longrightarrow> r \<le> r' else r = address))"
proof -
  obtain q m1 where q: "(if anywhere then range_anywhere else range_fixed) address sz (mask k) m = (q, m1)" by fastforce
  note R = range_spec [OF ok al(1,3) q]
  have m1: "m'' = m1" using s q by (cases q) (auto simp: vm_remap_range_allocate_def)
  have w: "wait_for_space m1 = wait_for_space m" using R by (auto simp: SAVE_HINT_def)
  have "case out of
       Inl v \<Rightarrow> \<not> (\<exists>r. fits m (search_start m address) sz (mask k) r \<and> (anywhere \<or> r = address)) \<and> (v = Vm_Waits \<longrightarrow> anywhere \<and> wait_for_space m)
     | Inr (p, r) \<Rightarrow> fits m (search_start m address) sz (mask k) r \<and>
         (if anywhere then \<forall>r'. fits m (search_start m address) sz (mask k) r' \<longrightarrow> r \<le> r' else r = address)"
  proof (cases q)
    case (Range p r)
    then show ?thesis using R s q by (auto simp: vm_remap_range_allocate_def space_found_def)
  next
    case (No_Space b)
    then have "out = Inl (if \<not> b \<and> wait_for_space m1 \<and> sz \<le> max_offset m1 - min_offset m1 then Vm_Waits else Vm_Return KERN_NO_SPACE)"
      using s unfolding vm_remap_range_allocate_def q No_Space by auto
    then show ?thesis using R No_Space w by auto
  next
    case (Range_Error kr)
    then have "out = Inl (Vm_Return kr)" using s q by (simp add: vm_remap_range_allocate_def)
    then show ?thesis using R Range_Error by simp
  qed
  then show ?thesis using find_space_exact [OF ok za al(2,3) r] R m1 by blast
qed

lemma vm_find_space_exact_witness:
  "let r = vm_map_find_space next_addr 0x2000 (mask 13) example_map; s = vm_remap_range_allocate 0x6000 0x1000 (mask 12) False example_map
   in fst r = Inr (0x4000, 7) \<and> fst s = Inl (Vm_Return KERN_NO_SPACE) \<and> map_ok (snd r) \<and>
     region_entered example_map (snd r) 0x4000 0x2000 0 0 False VM_PROT_DEFAULT VM_PROT_ALL VM_INHERIT_DEFAULT"
proof -
  let ?r = "vm_map_find_space next_addr 0x2000 (mask 13) example_map"
  let ?s = "vm_remap_range_allocate 0x6000 0x2000 (mask 13) False example_map"
  have r: "fst ?r = Inr (0x4000, 7)" by code_simp
  have s: "fst (vm_remap_range_allocate 0x6000 0x1000 (mask 12) False example_map) = Inl (Vm_Return KERN_NO_SPACE)" by code_simp
  have c: "page_aligned 0x6000" "page_aligned 0x2000" by code_simp+
  from vm_find_space_exact [OF example_ok fresh_next_addr c _ prod.collapse [symmetric] prod.collapse [symmetric], of 13 False]
  have "map_ok (snd ?r) \<and> region_entered example_map (snd ?r) 0x4000 0x2000 0 0 False VM_PROT_DEFAULT VM_PROT_ALL VM_INHERIT_DEFAULT"
    unfolding r by simp
  then show ?thesis using r s unfolding Let_def by blast
qed

subsection \<open>Protection, inheritance and behavior\<close>

text \<open>
  C11: \<open>vm_map_protect\<close> succeeds exactly when the whole range is mapped, by no submap, and the new protection is
  within the maximum everywhere.  Then the protection changes for the addresses of the range and for no other, and the physical map
  is told of every address whose protection changed; otherwise nothing changes.  The map stays well formed and unlocked and the
  references to objects balanced.
\<close>

lemma vm_protect_exact:
  assumes "map_ok m" "fresh za" "start < endaddr" "page_aligned start" "page_aligned endaddr"
    and r: "vm_map_protect za start endaddr new_prot set_max m = (kr, m')"
  shows "map_ok m' \<and> vm_lock m' = vm_lock m \<and> balance m' = balance m \<and>
    (kr = KERN_SUCCESS \<longleftrightarrow> (\<forall>a. start \<le> a \<and> a < endaddr \<longrightarrow> allows new_prot (mapping (vm_entries m) a))) \<and>
    (if kr = KERN_SUCCESS then
       mapping (vm_entries m') = (\<lambda>a. if start \<le> a \<and> a < endaddr
         then map_option (apfst (new_protection new_prot set_max)) (mapping (vm_entries m) a) else mapping (vm_entries m) a) \<and>
       (\<forall>a e t. start \<le> a \<and> a < endaddr \<and> mapping (vm_entries m) a = Some (e, t) \<and>
          protection (new_protection new_prot set_max e) \<noteq> protection e \<longrightarrow>
          (\<exists>s t. s \<le> a \<and> a < t \<and>
            Pmap_Protect s t (ucast (protection (new_protection new_prot set_max e))) \<in> set (drop (length (vm_calls m)) (vm_calls m'))))
     else vm_entries m' = vm_entries m \<and> vm_calls m' = vm_calls m)"
proof -
  have "map_ok (vm_map_lock m)" using assms(1) by simp
  then show ?thesis
  proof (cases rule: lookup_cases [of "vm_map_lock m" start])
    case (miss xs ys)
    have "mapping (vm_entries m) start = None" using miss_mapping [OF assms(1), of xs ys start] miss by simp
    then have "\<not> (\<forall>a. start \<le> a \<and> a < endaddr \<longrightarrow> allows new_prot (mapping (vm_entries m) a))" using assms(3) by force
    moreover have "kr = KERN_INVALID_ADDRESS" "m' = vm_map_unlock (SAVE_HINT (last_addr xs) (vm_map_lock m))"
      using r miss by (simp_all add: vm_map_protect_def)
    ultimately show ?thesis using miss by simp
  next
    case (hit xs e ys h)
    note P = protect_hit [OF hit(6) assms(2) _ hit(2,3) assms(3-5) r hit(4)]
    show ?thesis
    proof (cases "kr = KERN_SUCCESS")
      case True
      then obtain m2 where m2: "m' = vm_map_unlock m2" "protect.changed new_prot set_max start endaddr (SAVE_HINT h (vm_map_lock m)) m2"
        using P hit(1) by auto
      then show ?thesis using P hit(1) True protect_flushed [OF m2(2)]
        by (simp add: protect.changed_def cong del: if_weak_cong)
    qed (use P hit(1,6) in simp)
  qed
qed

lemma vm_protect_exact_witness:
  "let r = vm_map_protect next_addr 0x2000 0x4000 1 False example_map
   in fst r = KERN_SUCCESS \<and> map_ok (snd r) \<and> balance (snd r) = balance example_map \<and>
     mapping (vm_entries (snd r)) 0x2000 = map_option (apfst (new_protection 1 False)) (mapping (vm_entries example_map) 0x2000)"
proof -
  let ?r = "vm_map_protect next_addr 0x2000 0x4000 1 False example_map"
  have r: "fst ?r = KERN_SUCCESS" by code_simp
  have c: "page_aligned 0x2000" "page_aligned 0x4000" by code_simp+
  have "map_ok (snd ?r) \<and> balance (snd ?r) = balance example_map \<and>
     mapping (vm_entries (snd ?r)) 0x2000 = map_option (apfst (new_protection 1 False)) (mapping (vm_entries example_map) 0x2000)"
    using vm_protect_exact [OF example_ok fresh_next_addr _ c prod.collapse [symmetric], of 1 False] unfolding r by simp
  then show ?thesis using r unfolding Let_def by blast
qed

lemma inherit_exact:
  assumes ok: "map_ok m" and za: "fresh za" and al: "page_aligned start" "page_aligned endaddr"
    and r: "vm_map_inherit za start endaddr new_inheritance m = (kr, m')"
  shows "kr = KERN_SUCCESS" "map_ok m'" "vm_lock m' = vm_lock m" "balance m' = balance m"
    "mapping (vm_entries m') = (\<lambda>a. if start \<le> a \<and> a < endaddr
      then map_option (apfst (\<lambda>e. e\<lparr>inheritance := ucast new_inheritance\<rparr>)) (mapping (vm_entries m) a) else mapping (vm_entries m) a)"
proof -
  let ?c = "\<lambda>p. set_entry p (\<lambda>e. e\<lparr>inheritance := ucast new_inheritance\<rparr>)"
  obtain s t where st: "VM_MAP_RANGE_CHECK (vm_map_lock m) start endaddr = (s, t)" by fastforce
  note L = links_okD [OF map_okD(1) [OF ok]]
  have okl: "map_ok (vm_map_lock m)" using ok by simp
  note al' = range_aligned [OF okl st al] and range = range_limits [OF okl st, unfolded locks_simps]
  have "\<exists>h m2. kr = KERN_SUCCESS \<and> m' = vm_map_unlock m2 \<and> inherit.changed (ucast new_inheritance) s t (SAVE_HINT h (vm_map_lock m)) m2"
  proof -
    have "map_ok (vm_map_lock m)" using ok by simp
    then show ?thesis
    proof (cases rule: lookup_cases [of "vm_map_lock m" s])
      case (hit xs e ys h)
      then have es: "vm_entries (SAVE_HINT h (vm_map_lock m)) = xs @ e # ys" by simp
      have "kr = KERN_SUCCESS \<and> m' = vm_map_unlock (range_loop za ?c
          (Suc (length (vm_entries (vm_map_clip_start za (vme_addr e) s (SAVE_HINT h (vm_map_lock m)))))) t (vme_addr e)
          (vm_map_clip_start za (vme_addr e) s (SAVE_HINT h (vm_map_lock m))))"
        using r hit(4) by (auto simp: vm_map_inherit_def st Let_def simp del: range_loop.simps)
      then show ?thesis using inherit.range_changed [OF hit(6) za es hit(2,3) al', of "ucast new_inheritance"] by blast
    next
      case (miss xs ys)
      then have es: "vm_entries (SAVE_HINT (last_addr xs) (vm_map_lock m)) = xs @ ys" by simp
      have nxt: "vme_next (SAVE_HINT (last_addr xs) (vm_map_lock m)) (last_addr xs) = first_addr ys"
        by (rule vme_next_split [OF links_distinct [OF map_okD(1) [OF miss(5)]] es])
      have ys: "\<forall>y \<in> set ys. s \<le> vme_start y"
      proof (cases ys)
        case (Cons z zs)
        then have "asc (vme_start z) (z # zs)" using L(3) miss(1) by simp
        then show ?thesis using asc_bounds [of "vme_start z" ys] miss(3) Cons by (auto intro: order_trans less_imp_le)
      qed simp
      have "inherit.changed (ucast new_inheritance) s t (SAVE_HINT (last_addr xs) (vm_map_lock m))
          (range_loop za ?c (Suc (length (vm_entries (SAVE_HINT (last_addr xs) (vm_map_lock m))))) t (first_addr ys)
            (SAVE_HINT (last_addr xs) (vm_map_lock m)))"
        by (rule inherit.loop_changed [OF miss(5) za es al'(2) _ miss(2) ys]) (simp add: miss(1) [simplified])
      moreover have "kr = KERN_SUCCESS \<and> m' = vm_map_unlock (range_loop za ?c
          (Suc (length (vm_entries (SAVE_HINT (last_addr xs) (vm_map_lock m))))) t (first_addr ys)
            (SAVE_HINT (last_addr xs) (vm_map_lock m)))"
        using r miss(4) nxt by (auto simp: vm_map_inherit_def st Let_def simp del: range_loop.simps)
      ultimately show ?thesis by blast
    qed
  qed
  then obtain h m2 where m: "kr = KERN_SUCCESS" "m' = vm_map_unlock m2"
    "inherit.changed (ucast new_inheritance) s t (SAVE_HINT h (vm_map_lock m)) m2" by blast
  then show "kr = KERN_SUCCESS" "map_ok m'" "vm_lock m' = vm_lock m" "balance m' = balance m"
    using m by (simp_all add: inherit.changed_def)
  have "mapping (vm_entries m') a = (if start \<le> a \<and> a < endaddr
      then map_option (apfst (\<lambda>e. e\<lparr>inheritance := ucast new_inheritance\<rparr>)) (mapping (vm_entries m) a) else mapping (vm_entries m) a)" for a
    using m(2,3) range [of a] by (cases "mapping (vm_entries m) a") (simp_all add: inherit.changed_def)
  then show "mapping (vm_entries m') = (\<lambda>a. if start \<le> a \<and> a < endaddr
      then map_option (apfst (\<lambda>e. e\<lparr>inheritance := ucast new_inheritance\<rparr>)) (mapping (vm_entries m) a) else mapping (vm_entries m) a)"
    by (simp add: fun_eq_iff)
qed

lemma behavior_exact:
  assumes ok: "map_ok m" and za: "fresh za" and lt: "start < endaddr" and al: "page_aligned start" "page_aligned endaddr"
    and r: "vm_map_behavior_set za start endaddr new_behavior m = (kr, m')"
  shows "map_ok m'" "vm_lock m' = vm_lock m" "balance m' = balance m"
    "kr = KERN_SUCCESS \<longleftrightarrow> new_behavior \<in> {VM_BEHAVIOR_DEFAULT, VM_BEHAVIOR_RANDOM, VM_BEHAVIOR_SEQUENTIAL, VM_BEHAVIOR_RSEQNTL} \<and>
      (\<forall>a. start \<le> a \<and> a < endaddr \<longrightarrow> mapping (vm_entries m) a \<noteq> None)"
    "mapping (vm_entries m') = (\<lambda>a. if kr = KERN_SUCCESS \<and> start \<le> a \<and> a < endaddr
      then map_option (apfst (\<lambda>e. e\<lparr>behavior := ucast new_behavior\<rparr>)) (mapping (vm_entries m) a) else mapping (vm_entries m) a)"
proof -
  let ?valid = "new_behavior \<in> {VM_BEHAVIOR_DEFAULT, VM_BEHAVIOR_RANDOM, VM_BEHAVIOR_SEQUENTIAL, VM_BEHAVIOR_RSEQNTL}"
  let ?all = "\<forall>a. start \<le> a \<and> a < endaddr \<longrightarrow> mapping (vm_entries m) a \<noteq> None"
  let ?f = "\<lambda>e :: vm_map_entry. e\<lparr>behavior := ucast new_behavior\<rparr>"
  have "map_ok m' \<and> vm_lock m' = vm_lock m \<and> balance m' = balance m \<and> (kr = KERN_SUCCESS \<longleftrightarrow> ?valid \<and> ?all) \<and>
    (\<forall>a. mapping (vm_entries m') a = (if kr = KERN_SUCCESS \<and> start \<le> a \<and> a < endaddr
      then map_option (apfst ?f) (mapping (vm_entries m) a) else mapping (vm_entries m) a))"
  proof (cases ?valid)
    case False
    then have "kr = KERN_INVALID_ARGUMENT" "m' = m" using r by (auto simp: vm_map_behavior_set_def)
    then show ?thesis using ok False by simp
  next
    case valid: True
    have "map_ok (vm_map_lock m)" using ok by simp
    then show ?thesis using lt
    proof (cases rule: range_check_spec [of "vm_map_lock m" start endaddr])
      case (good xs e ys h)
      define m1 where "m1 = vm_map_clip_start za (vme_addr e) start (SAVE_HINT h (vm_map_lock m))"
      define m2 where "m2 = range_loop za (\<lambda>p. set_entry p ?f) (Suc (length (vm_entries m1))) endaddr (vme_addr e) m1"
      have es: "vm_entries (SAVE_HINT h (vm_map_lock m)) = xs @ e # ys" using good by simp
      have c: "advise.changed (ucast new_behavior) start endaddr (SAVE_HINT h (vm_map_lock m)) m2"
        unfolding m2_def m1_def by (rule advise.range_changed [OF good(2) za es good(4,5) al])
      have "kr = KERN_SUCCESS" "m' = vm_map_unlock m2"
        using r valid good(1) by (auto simp: vm_map_behavior_set_def Let_def m1_def m2_def simp del: range_loop.simps)
      then show ?thesis using c valid good(6) by (simp add: advise.changed_def)
    next
      case (bad h)
      then have "kr = KERN_INVALID_ADDRESS" "m' = vm_map_unlock (SAVE_HINT h (vm_map_lock m))"
        using r valid by (auto simp: vm_map_behavior_set_def)
      moreover have "\<not> ?all" using bad(3) by simp
      ultimately show ?thesis using bad(2) by simp
    qed
  qed
  then show "map_ok m'" "vm_lock m' = vm_lock m" "balance m' = balance m" "kr = KERN_SUCCESS \<longleftrightarrow> ?valid \<and> ?all"
    "mapping (vm_entries m') = (\<lambda>a. if kr = KERN_SUCCESS \<and> start \<le> a \<and> a < endaddr
      then map_option (apfst ?f) (mapping (vm_entries m) a) else mapping (vm_entries m) a)"
    by (blast, blast, blast, blast, simp add: fun_eq_iff)
qed

text \<open>
  C24: \<open>vm_map_inherit\<close> sets the inheritance of exactly the mapped addresses of the range, and \<open>vm_map_behavior_set\<close> their
  behavior if the behavior is a known one and the whole range is mapped; it fails otherwise and changes nothing.  Nothing else
  that the map says of an address changes, and the map stays well formed and unlocked, with its references balanced.
\<close>

lemma vm_attributes_exact:
  assumes "map_ok m" "fresh za" "start < endaddr" "page_aligned start" "page_aligned endaddr"
    and "vm_map_inherit za start endaddr new_inheritance m = (kr1, m1)"
    and "vm_map_behavior_set za start endaddr new_behavior m = (kr2, m2)"
  shows "map_ok m1 \<and> vm_lock m1 = vm_lock m \<and> balance m1 = balance m \<and> kr1 = KERN_SUCCESS \<and>
    mapping (vm_entries m1) = (\<lambda>a. if start \<le> a \<and> a < endaddr
      then map_option (apfst (\<lambda>e. e\<lparr>inheritance := ucast new_inheritance\<rparr>)) (mapping (vm_entries m) a) else mapping (vm_entries m) a) \<and>
    map_ok m2 \<and> vm_lock m2 = vm_lock m \<and> balance m2 = balance m \<and>
    (kr2 = KERN_SUCCESS \<longleftrightarrow> new_behavior \<in> {VM_BEHAVIOR_DEFAULT, VM_BEHAVIOR_RANDOM, VM_BEHAVIOR_SEQUENTIAL, VM_BEHAVIOR_RSEQNTL} \<and>
      (\<forall>a. start \<le> a \<and> a < endaddr \<longrightarrow> mapping (vm_entries m) a \<noteq> None)) \<and>
    mapping (vm_entries m2) = (\<lambda>a. if kr2 = KERN_SUCCESS \<and> start \<le> a \<and> a < endaddr
      then map_option (apfst (\<lambda>e. e\<lparr>behavior := ucast new_behavior\<rparr>)) (mapping (vm_entries m) a) else mapping (vm_entries m) a)"
  using inherit_exact [OF assms(1,2,4,5,6)] behavior_exact [OF assms(1-5) assms(7)] by blast

lemma vm_attributes_exact_witness:
  "let r = vm_map_inherit next_addr 0x2000 0x7000 2 example_map; s = vm_map_behavior_set next_addr 0x2000 0x7000 1 example_map
   in fst r = KERN_SUCCESS \<and> fst s \<noteq> KERN_SUCCESS \<and> mapping (vm_entries (snd s)) 0x2000 = mapping (vm_entries example_map) 0x2000 \<and>
     mapping (vm_entries (snd r)) 0x6000 = map_option (apfst (\<lambda>e. e\<lparr>inheritance := 2\<rparr>)) (mapping (vm_entries example_map) 0x6000)"
proof -
  let ?r = "vm_map_inherit next_addr 0x2000 0x7000 2 example_map"
  let ?s = "vm_map_behavior_set next_addr 0x2000 0x7000 1 example_map"
  have s: "fst ?s = KERN_INVALID_ADDRESS" by code_simp
  have c: "page_aligned 0x2000" "page_aligned 0x7000" by code_simp+
  have "fst ?r = KERN_SUCCESS \<and> mapping (vm_entries (snd ?s)) 0x2000 = mapping (vm_entries example_map) 0x2000 \<and>
     mapping (vm_entries (snd ?r)) 0x6000 = map_option (apfst (\<lambda>e. e\<lparr>inheritance := 2\<rparr>)) (mapping (vm_entries example_map) 0x6000)"
    using vm_attributes_exact [OF example_ok fresh_next_addr _ c prod.collapse [symmetric] prod.collapse [symmetric], of 2 1] unfolding s by simp
  then show ?thesis using s unfolding Let_def by simp
qed

subsection \<open>Removing\<close>

text \<open>
  C12: Where nothing is wired or in transition, \<open>vm_map_remove\<close> returns, and takes out exactly the addresses of the range: all
  others are mapped as before, the physical mappings of the removed ones are removed, each reference to an object is given
  back exactly when no entry needs it any more, and a thread that waits for space is woken.
\<close>

lemma vm_remove_exact:
  assumes ok: "map_ok m" and za: "fresh (zalloc env)" and al: "page_aligned start" "page_aligned endaddr"
    and un: "\<forall>e \<in> set (vm_entries m). start < vme_end e \<and> vme_start e < endaddr \<longrightarrow> unwired e"
    and n: "length (vm_entries m) < fuel"
  shows "\<exists>m'. vm_map_remove env fuel start endaddr flags m = Some (KERN_SUCCESS, m') \<and>
    map_ok m' \<and> vm_lock m' = vm_lock m \<and> balance m' = balance m \<and>
    mapping (vm_entries m') = (\<lambda>a. if start \<le> a \<and> a < endaddr then None else mapping (vm_entries m) a) \<and>
    (\<forall>a. start \<le> a \<and> a < endaddr \<longrightarrow> unmapped env a (mapping (vm_entries m) a) (drop (length (vm_calls m)) (vm_calls m'))) \<and>
    (wait_for_space m \<longrightarrow> Wakeup_Space \<in> set (drop (length (vm_calls m)) (vm_calls m')))"
proof -
  let ?m = "vm_map_lock m"
  obtain s t where st: "VM_MAP_RANGE_CHECK ?m start endaddr = (s, t)" by fastforce
  have okl: "map_ok ?m" using ok by simp
  note range = range_limits [OF okl st, unfolded locks_simps]
  have un': "\<forall>e \<in> set (vm_entries ?m). s < vme_end e \<and> vme_start e < t \<and> s < t \<longrightarrow> unwired e"
  proof (intro ballI impI)
    fix e assume e: "e \<in> set (vm_entries ?m)" "s < vme_end e \<and> vme_start e < t \<and> s < t"
    then have lt: "vme_start e < vme_end e" using asc_bounds [OF links_okD(3) [OF map_okD(1) [OF ok]]] by simp
    define a where "a = (if s \<le> vme_start e then vme_start e else s)"
    have a: "s \<le> a" "a < t" "vme_start e \<le> a" "a < vme_end e" using e(2) lt by (auto simp: a_def)
    then have "start \<le> a" "a < endaddr" using range [of a] mapping_in [of e "vm_entries m" a] e(1) by auto
    then show "unwired e" using un a e(1) by (auto intro: le_less_trans)
  qed
  have n': "length (vm_entries ?m) < fuel" using n by simp
  obtain m2 where m2: "vm_map_delete env fuel s t flags ?m = Some (KERN_SUCCESS, m2)" "map_ok m2" "vm_lock m2 = vm_lock ?m" "balance m2 = balance ?m"
      "mapping (vm_entries m2) = (\<lambda>a. if s \<le> a \<and> a < t then None else mapping (vm_entries ?m) a)"
      "\<forall>a. s \<le> a \<and> a < t \<longrightarrow> unmapped env a (mapping (vm_entries ?m) a) (drop (length (vm_calls ?m)) (vm_calls m2))"
      "wait_for_space ?m \<longrightarrow> Wakeup_Space \<in> set (drop (length (vm_calls ?m)) (vm_calls m2))"
    using delete_unwired [OF okl za range_aligned [OF okl st al] n' un'] by blast
  have "vm_map_remove env fuel start endaddr flags m = Some (KERN_SUCCESS, vm_map_unlock m2)"
    using m2(1) by (simp add: vm_map_remove_def st Let_def)
  moreover have "mapping (vm_entries m2) a = (if start \<le> a \<and> a < endaddr then None else mapping (vm_entries m) a)" for a
    using m2(5) range [of a] by (cases "mapping (vm_entries m) a") auto
  moreover have "unmapped env a (mapping (vm_entries m) a) (drop (length (vm_calls m)) (vm_calls m2))" if "start \<le> a \<and> a < endaddr" for a
    using m2(6) range [of a] that by (cases "mapping (vm_entries m) a") (auto simp del: unmapped_simps(2))
  moreover have "wait_for_space ?m = wait_for_space m" by (simp add: vm_map_lock_def)
  ultimately show ?thesis using m2(2-4,7)
    by (intro exI [of _ "vm_map_unlock m2"]) (simp add: fun_eq_iff)
qed

lemma vm_remove_exact_witness:
  "\<exists>m'. vm_map_remove example_env 4 0x2000 0x7000 0 example_map = Some (KERN_SUCCESS, m') \<and> map_ok m' \<and>
     balance m' = balance example_map \<and> mapping (vm_entries m') 0x3000 = None \<and>
     mapping (vm_entries m') 0x7000 = mapping (vm_entries example_map) 0x7000"
proof -
  have c: "page_aligned 0x2000" "page_aligned 0x7000" "length (vm_entries example_map) < 4" by code_simp+
  have "\<forall>e \<in> set (vm_entries example_map). 0x2000 < vme_end e \<and> vme_start e < 0x7000 \<longrightarrow> unwired e" by code_simp
  from vm_remove_exact [OF example_ok example_fresh c(1,2) this c(3)] show ?thesis by force
qed

subsection \<open>Joining\<close>

text \<open>
  C23: \<open>vm_map_simplify\<close> joins entries without changing what is mapped where, and gives back the reference that a joined entry
  held; only when the entry at the address is shared may what is joined to it become shared as well.
\<close>

lemma vm_simplify_exact:
  assumes ok: "map_ok m" and apart: "objects_apart m"
  shows "map_ok (vm_map_simplify start m) \<and> vm_lock (vm_map_simplify start m) = vm_lock m \<and> balance (vm_map_simplify start m) = balance m \<and>
    (\<forall>a. joined_view (shared_at (mapping (vm_entries m) start)) (mapping (vm_entries (vm_map_simplify start m)) a) =
      joined_view (shared_at (mapping (vm_entries m) start)) (mapping (vm_entries m) a))"
proof -
  let ?m = "vm_map_lock m" and ?sh = "shared_at (mapping (vm_entries m) start)"
  have okl: "map_ok ?m" and apl: "objects_apart ?m" using ok apart by (simp_all add: objects_apart_def)
  obtain found this m1 where l1: "vm_map_lookup_entry ?m start = (found, this, m1)" by (metis prod_cases3)
  define m2 where "m2 = (if found \<and> vme_prev m1 this \<noteq> VM_HDR \<and> alike (entry_at m1 (vme_prev m1 this)) (entry_at m1 this)
      then join_entries (vme_prev m1 this) this (SAVE_HINT (vme_prev m1 this) m1) else m1)"
  have m2: "same_map_as False ?m m2 \<and> objects_apart m2"
    using okl
  proof (cases rule: lookup_cases [of ?m start])
    case (hit xs e ys h)
    then have c: "found" "this = vme_addr e" "m1 = SAVE_HINT h ?m" using l1 by simp_all
    show ?thesis using join_with_previous [OF okl hit(1,5) apl] by (simp only: m2_def c simp_thms)
  next
    case (miss xs ys)
    then have "m2 = SAVE_HINT (last_addr xs) ?m" using l1 by (simp add: m2_def)
    then show ?thesis using miss(5) apl by (simp add: same_map_as_def objects_apart_def)
  qed
  obtain found' this' m3 where l2: "vm_map_lookup_entry m2 start = (found', this', m3)" by (metis prod_cases3)
  define m4 where "m4 = (if found' \<and> vme_next m3 this' \<noteq> VM_HDR \<and> alike_next (entry_at m3 this') (entry_at m3 (vme_next m3 this'))
      then join_entries this' (vme_next m3 this') m3 else m3)"
  have ok2: "map_ok m2" using m2 by (simp add: same_map_as_def)
  then have m4: "same_map_as (shared_at (mapping (vm_entries m2) start)) m2 m4"
  proof (cases rule: lookup_cases [of m2 start])
    case (hit xs e ys h)
    then have c: "found'" "this' = vme_addr e" "m3 = SAVE_HINT h m2" using l2 by simp_all
    have sh: "shared_at (mapping (vm_entries m2) start) = is_shared e"
      using hit_mapping [OF ok2 hit(1-3)] by (simp add: shared_at_def attrs_def)
    have "objects_apart m2" using m2 by blast
    then show ?thesis using join_with_next [OF ok2 hit(1,5)] by (simp only: m4_def c sh simp_thms)
  next
    case (miss xs ys)
    then have "m4 = SAVE_HINT (last_addr xs) m2" using l2 by (simp add: m4_def)
    then show ?thesis using miss(5) by (simp add: same_map_as_def)
  qed
  have view: "joined_view False (mapping (vm_entries m2) a) = joined_view False (mapping (vm_entries m) a)" for a
    using m2 by (simp add: same_map_as_def)
  have sh: "shared_at (mapping (vm_entries m2) start) = ?sh" by (rule shared_at_view [OF view])
  have "vm_map_simplify start m = vm_map_unlock m4"
    unfolding vm_map_simplify_def l1 Let_def prod.case m2_def [symmetric] l2 m4_def [symmetric] ..
  then show ?thesis using m2 m4 joined_view_shared [OF view, of ?sh] unfolding sh by (simp add: same_map_as_def)
qed

lemma vm_simplify_exact_witness:
  "let m = vm_map_simplify 0x1000 example_map
   in length (vm_entries m) = 2 \<and> map_ok m \<and> balance m = balance example_map \<and>
     joined_view False (mapping (vm_entries m) 0x3000) = joined_view False (mapping (vm_entries example_map) 0x3000)"
proof -
  have c: "length (vm_entries (vm_map_simplify 0x1000 example_map)) = 2" "shared_at (mapping (vm_entries example_map) 0x1000) = False"
    "objects_apart example_map" by code_simp+
  show ?thesis using vm_simplify_exact [OF example_ok c(3), where start = "0x1000"] c(1) unfolding c(2) Let_def by simp
qed

subsection \<open>Where the code does otherwise\<close>

text \<open>
  When the aligned start of the region overflows, \<open>vm_map_enter\<close> returns with the map locked.
\<close>

definition full_map :: vm_map where
  "full_map = example_map\<lparr>vm_entries := [example_entry 1 0x1000 0xf0001000 7 0], max_offset := 0xfffff000, vm_map_size := 0xf0000000,
     hint := 1, first_free := 1\<rparr>"

lemma vm_enter_keeps_lock:
  "map_ok full_map \<and> vm_lock full_map = 0 \<and>
   map_prod id vm_lock (vm_map_enter example_env 0x1000 0x1000 (mask 28) True 0 0 False 3 7 1 full_map) = (Vm_Return KERN_NO_SPACE, 1)"
  by code_simp

text \<open>
  A thread that waits in \<open>vm_map_delete\<close> for an entry that another thread removes goes on with the next entry of the map, whether
  or not it is in the range.  An interrupted wait leaves the map to be unlocked once too often.
\<close>

definition busy_map :: vm_map where
  "busy_map = example_map\<lparr>vm_entries := [(example_entry 1 0x1000 0x2000 7 0)\<lparr>in_transition := True\<rparr>, example_entry 2 0x5000 0x6000 8 0],
     vm_map_size := 0x2000, hint := 1, first_free := 1\<rparr>"

definition removing_env :: vm_env where
  "removing_env = example_env\<lparr>entry_wait := (\<lambda>m. (THREAD_AWAKENED, m\<lparr>vm_entries := [example_entry 2 0x5000 0x6000 8 0], vm_map_size := 0x1000,
     hint := 0, first_free := 0, timestamp := timestamp m + 1\<rparr>))\<rparr>"

lemma vm_delete_leaves_range:
  "map_ok busy_map \<and> map_ok (snd (entry_wait removing_env busy_map)) \<and>
   map_option (map_prod id vm_entries) (vm_map_remove removing_env 3 0x1000 0x2000 0 busy_map) = Some (KERN_SUCCESS, [])"
  by code_simp

lemma vm_remove_unlocks_twice:
  "vm_lock busy_map = 0 \<and>
   map_option (map_prod id vm_lock) (vm_map_remove (example_env\<lparr>entry_wait := Pair THREAD_INTERRUPTED\<rparr>) 3 0x1000 0x2000
     VM_MAP_REMOVE_INTERRUPTIBLE busy_map) = Some (KERN_ABORTED, -1)"
  by code_simp

text \<open>An entry that is not shared is joined to a shared one and becomes shared.\<close>

definition shared_map :: vm_map where
  "shared_map = example_map\<lparr>vm_entries := [(example_entry 1 0x1000 0x3000 7 0)\<lparr>is_shared := True\<rparr>, example_entry 2 0x3000 0x4000 7 0x2000],
     vm_map_size := 0x3000\<rparr>"

lemma vm_simplify_shares:
  "map_ok shared_map \<and> shared_at (mapping (vm_entries shared_map) 0x3000) = False \<and>
   shared_at (mapping (vm_entries (vm_map_simplify 0x1000 shared_map)) 0x3000) = True"
  by code_simp

end
