(* ===== verification/Spec2Isabelle.thy ===== *)
theory Spec2Isabelle
  imports Port_Life Port_Calls Mq_Exact Sched_Switch Vm_Exact
begin

text \<open>
  A model of four parts of the Mach 3 kernel in \<open>mach_kernel/\<close>: the capability system (\<open>ipc/\<close>), the queues of
  messages (\<open>ipc/ipc_mqueue.c\<close>), the scheduler and the timers (\<open>kern/\<close>), and the address maps (\<open>vm/vm_map.c\<close>).  The
  configuration is the one of a machine with one processor, 32-bit words and, in address maps, pages of 4096 bytes: \<open>NCPUS = 1\<close>,
  \<open>DIPC = 0\<close>, \<open>NORMA_VM = 0\<close>, \<open>MACH_ASSERT = 0\<close>, \<open>FAST_IDLE = 0\<close>.

  \<^bold>\<open>The parts and how they meet.\<close>  A task names ports by 32-bit names.  Its \<open>ipc_space\<close> keeps one \<open>ipc_entry\<close> per name, in
  a table by index or, for names whose index or generation does not fit, in a splay tree; reverse hash tables give the
  name of a send right from its port.  The operations of \<open>ipc_right.c\<close> and \<open>ipc_object.c\<close> change an entry together with
  the counts of its port, and \<open>mach_port.c\<close> is the kernel call around them.  A message that holds the rights moved out is
  queued at its port by \<open>ipc_mqueue.c\<close>; a sender waits there when the port is full, a receiver when it is empty.  Their
  waits are those of \<open>sched_prim.c\<close>, which puts threads on wait queues and run queues, and a wait may have a timer of
  \<open>mach_clock.c\<close>.  Address maps stand beside this; their waits are steps of the environment.

  \<^bold>\<open>Foundations.\<close>
  \<^item> \<open>Prelude\<close>: machine words, return codes, shared lemmas on words, lists and maps, the collections \<open>bits_defs\<close> and
    \<open>heap_simps\<close>.
  \<^item> \<open>Port_Names\<close> (\<open>mach/port.h\<close>, \<open>ipc/port.h\<close>, \<open>ipc/ipc_entry.h\<close>): names as index and generation, the bit fields of an
    entry, the tests for overflow of user references.

  \<^bold>\<open>Capability spaces.\<close>  \<open>struct ipc_space\<close> and \<open>struct ipc_entry\<close> are the records \<open>ipc_space\<close> and \<open>ipc_entry\<close>
  (\<open>Ipc_Space\<close>); a pointer to an entry is \<open>TableEnt\<close> with its index or \<open>TreeEnt\<close> with its name.
  \<^item> \<open>Ipc_Table\<close> (\<open>ipc_table.c\<close>): the arrays of table sizes, which end by repeating their last size.
  \<^item> \<open>Ipc_Splay\<close>, \<open>Ipc_Traverse\<close> (\<open>ipc_splay.c\<close>): the locales \<open>name_map\<close> and \<open>range_map\<close> state what a store of names
    promises, the interpretation \<open>splay\<close> shows it of the code's top-down splaying; the traversal that reverses links ends
    and meets every entry once.
  \<^item> \<open>Ipc_Hash\<close> (\<open>ipc_hash.c\<close>): \<open>reverse_map\<close>, interpreted by the local table with linear probing and the closing of holes;
    the global table.
  \<^item> \<open>Ipc_Entry\<close> (\<open>ipc_entry.c\<close>): lookup, allocation, naming, deallocation and growth, with table, tree, free list and hash
    tables in agreement (\<open>names_inv\<close>, \<open>space_good\<close>).

  \<^bold>\<open>Ports, port sets and rights.\<close>  Ports and port sets live at addresses of \<open>ipc_heap\<close> (\<open>Ipc_Heap\<close>); a call that leaves
  the model, such as a notification or a call of a kernel object, is appended to \<open>calls\<close> as an \<open>ipc_call\<close>.  \<open>ipc_state\<close>
  is a space with its heap and the global hash table.
  \<^item> \<open>Ipc_Heap\<close> (\<open>ipc_object.h\<close>, \<open>ipc_pset.c\<close>), \<open>Ipc_Port\<close> (\<open>ipc_port.c\<close>), \<open>Ipc_Right\<close> (\<open>ipc_right.c\<close>), \<open>Ipc_Object\<close>
    (\<open>ipc_object.c\<close>, and what ports, port sets and spaces do with entries), \<open>Mach_Port\<close> (\<open>mach_port.c\<close>): the operations.
    \<open>slot_table\<close> is the contract of the table of dead-name requests, interpreted as \<open>dn\<close>.
  \<^item> \<open>Port_Life\<close>: cycles of ports in transit, the no-senders protocol as a step relation, port sets, destruction of ports.
  \<^item> \<open>Ipc_State\<close>, \<open>Ipc_Reverse\<close>, \<open>Right_State\<close>, \<open>Right_Flux\<close>: the invariant \<open>rights_inv\<close>, the states in the middle of an
    operation, and the ledger: \<open>refs_out\<close> and \<open>sends_out\<close> are the references and send rights of a port beyond those that
    the space accounts for, so an operation that neither loses nor makes a right leaves them alone.
  \<^item> \<open>Right_Delta\<close>, \<open>Right_Copyin\<close>, \<open>Right_Copyout\<close>, \<open>Right_Alloc\<close>: every branch of user-reference changes, of moving a
    right out of a space, of moving it in, and of making ports, against that ledger.  \<open>Port_Calls\<close>: results of the calls.

  \<^bold>\<open>Message queues.\<close>
  \<^item> \<open>Ipc_Queue\<close> (\<open>ipc_thread.c\<close>, \<open>ipc_kmsg.c\<close>): the circular linked queues on memory; \<open>ring_fifo\<close> is interpreted for threads
    and for messages, so the later theories use lists.
  \<^item> \<open>Ipc_Mqueue\<close>: the handlers of \<open>ipc_mqueue.c\<close>, each cut where the thread blocks.
  \<^item> \<open>Mq_Phase\<close>: the abstract queues, in which a thread is in one of five phases.  \<open>Mq_Steps\<close>: the step relation of
    threads that send and receive in any order, its invariant \<open>mq_inv\<close> by rule induction.  \<open>Mq_Exact\<close>: consistency,
    order and wakeups in the runs in which no wait of a sender is interrupted or times out, where \<open>mq_reachable\<close> has the flag
    \<open>True\<close>; and, with the flag \<open>False\<close>, a run in which an interrupted sender stays queued and a wakeup is lost.

  \<^bold>\<open>Scheduler and timers.\<close>
  \<^item> \<open>Kern_Timer\<close> (\<open>mach_clock.c\<close>, \<open>time_out.h\<close>): the chain of timers in the order of their ticks.
  \<^item> \<open>Kern_Sched\<close> (\<open>sched.h\<close>, \<open>bits.c\<close>, \<open>sched_prim.c\<close>): run queues with bitmap and low mark, waits, aging, the switch to
    the next thread and the idle thread.  \<open>Sched_Runq\<close>, \<open>Sched_Place\<close>, \<open>Sched_Wait\<close>: run queue, place of a thread, wait
    queues, one at a time.  \<open>Sched_Safe\<close>, \<open>Sched_Switch\<close>: under \<open>sched_ok\<close> no operation panics and each keeps \<open>sched_ok\<close>;
    hence in every reachable state a runnable thread is in exactly one place.

  \<^bold>\<open>Address maps.\<close>
  \<^item> \<open>Vm_Map\<close> (\<open>vm_map.h\<close>, \<open>vm_map.c\<close>): \<open>vm_map\<close> with its entries in order, each with its address, the header as \<open>VM_HDR\<close>,
    the hint for lookup, the hint for free space, the lock as a count, and the calls on objects and on the physical map as
    a list.
  \<^item> \<open>Vm_List\<close>: \<open>map_ok\<close> (sorted, disjoint, page-aligned entries and sound hints) and the abstract meaning \<open>mapping\<close>, from an
    address to the entry behind it and the offset in its object.
  \<^item> \<open>Vm_Ops\<close>, \<open>Vm_Clip\<close>: lookup, links and clipping, which changes no mapping.  \<open>Vm_Range\<close>: the locale \<open>range_change\<close> of
    operations that clip a range and change every entry of it; \<open>Vm_Attr\<close> interprets it for protection, inheritance and
    behavior.
  \<^item> \<open>Vm_Space\<close>, \<open>Vm_Enter\<close>, \<open>Vm_Alloc\<close>: the search for space and the entering of regions, which join a neighbour, extend it
    or make a new entry.  \<open>Vm_Delete\<close>, \<open>Vm_Join\<close>: removal and simplification.  \<open>Vm_Exact\<close>: what each operation does to
    \<open>mapping\<close> and to \<open>balance\<close>, the references to objects that no entry accounts for.

  \<^bold>\<open>How effects are written.\<close>  State is passed and returned.  A critical section under locks is one function.  Where the
  code unlocks, blocks or waits for memory, an argument of the operation says what other threads made of the state
  (\<open>env_running\<close>, \<open>env_peers\<close>), or the function is cut there and a step relation puts any steps in between (message
  queues and scheduler).  Return codes are \<open>kern_return_t\<close> or the left of a sum; \<open>None\<close> is a panic, an access outside an
  array or a loop that does not end.  Words have the width of the code and wrap around.

  \<^bold>\<open>Bounds and fuel.\<close>  Recursion on lists and trees needs none.  Probing a hash table has the size of the table as fuel,
  enough as long as one slot is empty, which the invariant says.  The search of a table of sizes has the length of the
  array as fuel, enough because the last size ends it.  Loops that wait for memory or for other threads take their fuel
  from the environment: growing a space, \<open>copyout_loop\<close>, \<open>dnrequest_loop\<close>, \<open>names_memory\<close>.  The theorems say how much is
  enough: one turn when the free list is not empty, two turns for \<open>names_memory\<close> when nothing else runs.  The size of the
  memory for a list of names is a 32-bit word and is enough for fewer than \<open>2\<^sup>2\<^sup>8\<close> names, which is more than memory can hold.
  \<open>delete_loop\<close> of \<open>vm_map_delete\<close> needs more turns than the map has entries when no entry of the range is wired or in
  transition; with other threads it may wait for ever, as the code may.

  \<^bold>\<open>What is not modelled.\<close>  Copying messages in and out and the traps (\<open>ipc_kmsg.c\<close>, \<open>mach_msg.c\<close>), kernel objects
  (\<open>ipc_kobject.c\<close>), the making and ending of tasks and threads: they depend on memory objects and on assembler.  Memory
  objects, pages, faults and pagers; of address maps, wiring, submaps, copies and remapping.  The allocators, locks and
  semaphores of \<open>kern/\<close>.  Processor assignment and the end of a quantum.  What is configured out (DIPC, XMM, several
  processors), drivers, the debugger, and the code of each machine.  The servers beside the kernel.

  \<^bold>\<open>Where the code does not do what it means to.\<close>  \<open>Port_Calls\<close> and \<open>Ipc_Entry\<close> show names that an allocation loses, \<open>Mq_Exact\<close>
  a sender that stays queued after its wait ended and a size check that wraps around, \<open>Kern_Timer\<close> a reference that a reset
  timer keeps, \<open>Sched_Switch\<close> a stopped thread that runs.  \<open>Vm_Exact\<close> shows a map that stays locked, one that is unlocked twice, a
  range that is left mapped by a removal, and private entries that become shared.
\<close>

end
